(* ===== verification/Coro_Prelude.thy ===== *)
theory Coro_Prelude
  imports Main "HOL-Library.Word"
begin

text \<open>
  Shared vocabulary of the development: machine integers, pointers, the interleaving
  semantics every concurrent component uses, and the generic lemmas about counting
  processes, linked chains of nodes and bounded words.

  Concurrency is modelled as interleaving of atomic steps (sequential consistency). Each
  process has a program counter; a step of a process is one atomic access of shared memory
  together with the accesses of memory that only this process can reach.
\<close>

section \<open>Types\<close>

type_synonym u8 = "8 word"
type_synonym u16 = "16 word"
type_synonym u32 = "32 word"
type_synonym u64 = "64 word"

unbundle bit_operations_syntax

named_theorems coro_defs \<open>definitions a component unfolds together\<close>
named_theorems coro_inv \<open>facts that carry an invariant over a step\<close>

section \<open>Reachability and invariants\<close>

inductive reachable :: "('s \<Rightarrow> bool) \<Rightarrow> ('s \<Rightarrow> 's \<Rightarrow> bool) \<Rightarrow> 's \<Rightarrow> bool"
  for init :: "'s \<Rightarrow> bool" and step :: "'s \<Rightarrow> 's \<Rightarrow> bool" where
  reachable_init: "init s \<Longrightarrow> reachable init step s"
| reachable_step: "reachable init step s \<Longrightarrow> step s t \<Longrightarrow> reachable init step t"

lemma reachable_steps: "reachable init step s \<Longrightarrow> step\<^sup>*\<^sup>* s t \<Longrightarrow> reachable init step t"
  by (rotate_tac, induction rule: rtranclp_induct) (auto intro: reachable_step)

text \<open>A component that keeps an invariant.\<close>

locale invariant_system =
  fixes init :: "'s \<Rightarrow> bool" and step :: "'s \<Rightarrow> 's \<Rightarrow> bool" and inv :: "'s \<Rightarrow> bool"
  assumes inv_init: "init s \<Longrightarrow> inv s"
    and inv_step: "inv s \<Longrightarrow> step s t \<Longrightarrow> inv t"
begin

lemma reachable_inv: "reachable init step s \<Longrightarrow> inv s"
  by (induction rule: reachable.induct) (auto intro: inv_init inv_step)

lemma steps_inv: "inv s \<Longrightarrow> step\<^sup>*\<^sup>* s t \<Longrightarrow> inv t"
  by (rotate_tac, induction rule: rtranclp_induct) (auto intro: inv_step)

end

text \<open>
  A component that implements an abstract one: every concrete step is matched by zero or
  more abstract steps, so every reachable concrete state is related to a reachable abstract
  one.
\<close>

locale simulation_system =
  fixes init :: "'s \<Rightarrow> bool" and step :: "'s \<Rightarrow> 's \<Rightarrow> bool"
    and ainit :: "'a \<Rightarrow> bool" and astep :: "'a \<Rightarrow> 'a \<Rightarrow> bool"
    and rel :: "'s \<Rightarrow> 'a \<Rightarrow> bool"
  assumes sim_init: "init s \<Longrightarrow> \<exists>a. ainit a \<and> rel s a"
    and sim_step: "rel s a \<Longrightarrow> step s t \<Longrightarrow> \<exists>b. astep\<^sup>*\<^sup>* a b \<and> rel t b"
begin

lemma reachable_sim: "reachable init step s \<Longrightarrow> \<exists>a. reachable ainit astep a \<and> rel s a"
proof (induction rule: reachable.induct)
  case (reachable_init s)
  then show ?case using sim_init by (blast intro: reachable.reachable_init)
next
  case (reachable_step s t)
  then show ?case using sim_step by (blast intro: reachable_steps)
qed

end

section \<open>Counting processes\<close>

text \<open>
  The number of processes below \<open>n\<close>, weighted by their program counter; one process that
  moves changes the sum by the difference of its two weights.
\<close>

lemma sum_upd_process:
  assumes "i < (n::nat)"
  shows "(\<Sum>t<n. w ((f(i := x)) t)) + (w (f i) :: nat) = (\<Sum>t<n. w (f t)) + w x"
proof -
  have "(\<Sum>t<n. w ((f(i := x)) t)) = w x + (\<Sum>t\<in>{..<n} - {i}. w (f t))"
    using assms by (subst sum.remove [of _ i]) (auto intro!: sum.cong)
  moreover have "(\<Sum>t<n. w (f t)) = w (f i) + (\<Sum>t\<in>{..<n} - {i}. w (f t))"
    using assms by (subst sum.remove [of _ i]) auto
  ultimately show ?thesis by simp
qed

lemma sum_process_le: "i < (n::nat) \<Longrightarrow> (w (f i) :: nat) \<le> (\<Sum>t<n. w (f t))"
  by (rule member_le_sum) auto

text \<open>How many of the processes below \<open>N\<close> are at \<open>x\<close>.\<close>

definition processes_at :: "nat \<Rightarrow> (nat \<Rightarrow> 'p) \<Rightarrow> 'p \<Rightarrow> nat" where
  "processes_at N f x = (\<Sum>i<N. if f i = x then 1 else 0)"

lemma processes_at_upd:
  assumes "i < N"
  shows "processes_at N (f(i := q)) x + (if f i = x then 1 else 0) = processes_at N f x + (if q = x then 1 else 0)"
  unfolding processes_at_def by (rule sum_upd_process [OF assms, where w = "\<lambda>p. if p = x then 1 else 0"])

lemma processes_at_pos: "i < N \<Longrightarrow> f i = x \<Longrightarrow> 0 < processes_at N f x"
  using sum_process_le [where w = "\<lambda>p. if p = x then 1 else 0" and f = f and i = i and n = N]
  by (simp add: processes_at_def)

lemma processes_at_bound: "processes_at N f x \<le> N"
  using sum_bounded_above [of "{..<N}" "\<lambda>i. if f i = x then 1 else 0" "1::nat"] by (simp add: processes_at_def)

lemma processes_at_none: "processes_at N f x = 0 \<longleftrightarrow> (\<forall>i<N. f i \<noteq> x)"
  by (auto simp: processes_at_def)

section \<open>Chains of nodes\<close>

text \<open>
  \<open>chain nxt p xs\<close>: following the field \<open>nxt\<close> from the pointer \<open>p\<close> visits exactly the nodes
  \<open>xs\<close>, in this order, and then reaches the null pointer.
\<close>

fun chain :: "(u64 \<Rightarrow> u64) \<Rightarrow> u64 \<Rightarrow> u64 list \<Rightarrow> bool" where
  "chain nxt p [] = (p = 0)"
| "chain nxt p (x # xs) = (p = x \<and> x \<noteq> 0 \<and> chain nxt (nxt x) xs)"

lemma chain_null [simp]: "chain nxt 0 xs = (xs = [])"
  by (cases xs) auto

lemma chain_upd [simp]: "x \<notin> set xs \<Longrightarrow> chain (nxt(x := y)) p xs = chain nxt p xs"
  by (induction xs arbitrary: p) auto

lemma chain_cong: "\<forall>x\<in>set xs. nxt x = nxt' x \<Longrightarrow> chain nxt p xs = chain nxt' p xs"
  by (induction xs arbitrary: p) auto

lemma chain_unique: "chain nxt p xs \<Longrightarrow> chain nxt p ys \<Longrightarrow> xs = ys"
  by (induction xs arbitrary: p ys; case_tac ys) auto

lemma chain_nonnull: "chain nxt p xs \<Longrightarrow> p \<noteq> 0 \<Longrightarrow> \<exists>ys. xs = p # ys \<and> chain nxt (nxt p) ys"
  by (cases xs) auto

section \<open>Ring buffers indexed by wrapping words\<close>

text \<open>
  A counter that wraps at \<open>2 ^ 64\<close> stands for an integer position; the slot of a position in a
  buffer of \<open>2 ^ k\<close> entries is its residue, and nearby positions are ordered by the sign of
  the wrapping difference.
\<close>

definition ring_slot :: "nat \<Rightarrow> int \<Rightarrow> u64" where
  "ring_slot k i = word_of_int i AND mask k"

lemma ring_slot_eq:
  assumes "k \<le> 64"
  shows "ring_slot k i = ring_slot k j \<longleftrightarrow> i mod 2 ^ k = j mod 2 ^ k"
proof -
  have "uint (ring_slot k i) = i mod 2 ^ k" for i
    using assms by (simp add: ring_slot_def take_bit_eq_mask [symmetric] unsigned_take_bit_eq unsigned_of_int
      take_bit_take_bit take_bit_eq_mod [symmetric] min_def)
  then show ?thesis by (metis word_uint_eq_iff)
qed

lemma ring_slot_neq:
  assumes "k \<le> 64" "i < j" "j - i < 2 ^ k"
  shows "ring_slot k i \<noteq> ring_slot k j"
proof
  assume "ring_slot k i = ring_slot k j"
  then have "2 ^ k dvd j - i" using ring_slot_eq [OF assms(1)] by (metis mod_eq_dvd_iff)
  with assms show False using zdvd_not_zless [of "j - i" "2 ^ k"] by simp
qed

lemma sint_diff_of_int:
  assumes "\<bar>a - b\<bar> < 2 ^ 63"
  shows "sint ((word_of_int a :: u64) - word_of_int b) = a - b"
proof -
  have "(word_of_int a :: u64) - word_of_int b = word_of_int (a - b)"
    by (rule wi_hom_sub)
  moreover have "sint (word_of_int (a - b) :: u64) = a - b"
    using assms by (subst sint_sbintrunc') (rule signed_take_bit_int_eq_self, simp_all)
  ultimately show ?thesis by (simp only:)
qed
lemma word_of_int_eq_near:
  assumes "0 \<le> b - a" "b - a < 2 ^ 63"
  shows "(word_of_int a :: u64) = word_of_int b \<longleftrightarrow> a = b"
  using sint_diff_of_int [of a b] assms by fastforce

lemma sint_mask: "k \<le> 60 \<Longrightarrow> sint (mask k :: u64) = 2 ^ k - 1"
proof -
  assume "k \<le> 60"
  then have "(2::int) ^ k \<le> 2 ^ 60" by (intro power_increasing) auto
  then have "\<bar>2 ^ k - 1\<bar> < (2::int) ^ 63" by simp
  then have "sint ((word_of_int (2 ^ k) :: u64) - word_of_int 1) = 2 ^ k - 1"
    by (rule sint_diff_of_int)
  then show ?thesis by (simp add: mask_eq_exp_minus_1)
qed

lemma unat_mask: "k \<le> 60 \<Longrightarrow> unat (mask k :: u64) = 2 ^ k - 1"
proof -
  assume "k \<le> 60"
  then have "(2::nat) ^ k \<le> 2 ^ 60" by (intro power_increasing) auto
  then have "unat (of_nat (2 ^ k - 1) :: u64) = 2 ^ k - 1"
    by (subst unat_of_nat) (rule mod_less, simp)
  then show ?thesis by (simp add: mask_eq_exp_minus_1)
qed

end
