(* ===== verification/Async_Mutex.thy ===== *)
theory Async_Mutex
  imports Coro_Prelude
begin

text \<open>
  The asynchronous mutex of include/coro/awaitable/async_mutex.h and
  src/coro/async_mutex.cpp: a word that is \<open>not_locked\<close>, \<open>locked_no_waiters\<close> or the address
  of the newest queued lock operation, and a private list of older waiters that only the
  lock holder touches. The queue nodes live in a store of \<open>m_next\<close> fields, so the reversal
  loop of unlock is modelled on pointers. The abstract specification is a lock with a FIFO
  queue; the simulation lemma relates the two under every interleaving.
\<close>

section \<open>State\<close>

definition not_locked :: u64 where
  "not_locked = 1"

definition locked_no_waiters :: u64 where
  "locked_no_waiters = 0"

text \<open>
  A lock operation is named by the address of its \<open>async_mutex_lock_operation\<close> object. Its
  program counter says how far its coroutine got: in \<open>await_suspend\<close> with the last value it
  read (\<open>Loaded\<close>), suspended in the queue, holding the lock, or inside \<open>unlock\<close>.
\<close>

datatype lock_pc =
    Idle
  | Loaded u64
  | Suspended
  | Owner
  | Unlock_cas
  | Unlock_exchange
  | Unlock_resume u64

record mutex =
  m_state :: u64
  m_waiters :: u64
  m_next :: "u64 \<Rightarrow> u64"
  pc :: "u64 \<Rightarrow> lock_pc"

definition async_mutex_init :: "mutex \<Rightarrow> bool" where
  "async_mutex_init s \<longleftrightarrow>
     m_state s = not_locked \<and> m_waiters s = 0 \<and> (\<forall>a. pc s a = Idle)"

text \<open>
  The loop of unlock that reverses the list of new waiters onto \<open>head\<close>; \<open>None\<close> is a loop
  that never ends (a cyclic list).
\<close>

partial_function (option) reverse_waiters ::
    "(u64 \<Rightarrow> u64) \<Rightarrow> u64 \<Rightarrow> u64 \<Rightarrow> ((u64 \<Rightarrow> u64) \<times> u64) option" where
  "reverse_waiters nxt head nx =
     (let temp = nxt nx; nxt' = nxt(nx := head)
      in if temp \<noteq> 0 then reverse_waiters nxt' nx temp else Some (nxt', nx))"

section \<open>Operations, one atomic access at a time\<close>

text \<open>\<open>try_lock\<close>: one strong compare-exchange; the new state and the result.\<close>

definition try_lock :: "mutex \<Rightarrow> u64 \<Rightarrow> mutex \<times> bool" where
  "try_lock s a =
     (if m_state s = not_locked
      then (s\<lparr>m_state := locked_no_waiters, pc := (pc s)(a := Owner)\<rparr>, True)
      else (s, False))"

text \<open>The load at the head of \<open>await_suspend\<close>.\<close>

definition await_load :: "mutex \<Rightarrow> u64 \<Rightarrow> mutex" where
  "await_load s a = s\<lparr>pc := (pc s)(a := Loaded (m_state s))\<rparr>"

text \<open>
  One round of the loop of \<open>await_suspend\<close> with the value \<open>old\<close> read before. The weak
  compare-exchange may fail although the values agree (\<open>spurious\<close>); a failed one reloads.
\<close>

definition await_round :: "mutex \<Rightarrow> u64 \<Rightarrow> u64 \<Rightarrow> bool \<Rightarrow> mutex" where
  "await_round s a old spurious =
     (if old = not_locked then
        (if m_state s = old \<and> \<not> spurious
         then s\<lparr>m_state := locked_no_waiters, pc := (pc s)(a := Owner)\<rparr>
         else s\<lparr>pc := (pc s)(a := Loaded (m_state s))\<rparr>)
      else
        (let s1 = s\<lparr>m_next := (m_next s)(a := old)\<rparr>
         in if m_state s = old \<and> \<not> spurious
            then s1\<lparr>m_state := a, pc := (pc s)(a := Suspended)\<rparr>
            else s1\<lparr>pc := (pc s)(a := Loaded (m_state s))\<rparr>))"

text \<open>\<open>unlock\<close>: reading \<open>m_waiters\<close>.\<close>

definition unlock_read :: "mutex \<Rightarrow> u64 \<Rightarrow> mutex" where
  "unlock_read s a =
     (if m_waiters s = 0 then s\<lparr>pc := (pc s)(a := Unlock_cas)\<rparr>
      else s\<lparr>pc := (pc s)(a := Unlock_resume (m_waiters s))\<rparr>)"

text \<open>\<open>unlock\<close>: the attempt to go back to \<open>not_locked\<close>.\<close>

definition unlock_cas :: "mutex \<Rightarrow> u64 \<Rightarrow> mutex" where
  "unlock_cas s a =
     (if m_state s = locked_no_waiters
      then s\<lparr>m_state := not_locked, pc := (pc s)(a := Idle)\<rparr>
      else s\<lparr>pc := (pc s)(a := Unlock_exchange)\<rparr>)"

text \<open>\<open>unlock\<close>: taking the new waiters and reversing them.\<close>

definition unlock_exchange :: "mutex \<Rightarrow> u64 \<Rightarrow> mutex option" where
  "unlock_exchange s a =
     (case reverse_waiters (m_next s) 0 (m_state s) of
        None \<Rightarrow> None
      | Some (nxt', head) \<Rightarrow>
          Some (s\<lparr>m_state := locked_no_waiters, m_next := nxt',
                  pc := (pc s)(a := Unlock_resume head)\<rparr>))"

text \<open>\<open>unlock\<close>: popping the oldest waiter and resuming it as the new owner.\<close>

definition unlock_resume :: "mutex \<Rightarrow> u64 \<Rightarrow> u64 \<Rightarrow> mutex" where
  "unlock_resume s a head =
     s\<lparr>m_waiters := m_next s head, pc := (pc s)(a := Idle, head := Owner)\<rparr>"

text \<open>
  The destructor's assertions, and the RAII lock of \<open>scoped_lock_async\<close>: a guard is the
  address of its mutex or null; moving empties the source, destroying a full one calls
  unlock (the result says whether it does).
\<close>

definition mutex_destructor_asserts :: "mutex \<Rightarrow> bool" where
  "mutex_destructor_asserts s \<longleftrightarrow>
     (m_state s = not_locked \<or> m_state s = locked_no_waiters) \<and> m_waiters s = 0"

definition scoped_lock_resume :: "u64 \<Rightarrow> u64" where
  "scoped_lock_resume mutex_addr = mutex_addr"

definition lock_guard_move :: "u64 \<Rightarrow> u64 \<times> u64" where
  "lock_guard_move other = (other, 0)"

definition lock_guard_unlocks :: "u64 \<Rightarrow> bool" where
  "lock_guard_unlocks g \<longleftrightarrow> g \<noteq> 0"

text \<open>
  The steps of the whole system. Addresses of lock operations are never 0 or 1: the objects
  hold pointers, so they are aligned, and the two special values are not addresses.
\<close>

inductive mutex_step :: "mutex \<Rightarrow> mutex \<Rightarrow> bool" where
  step_try_lock: "pc s a = Idle \<Longrightarrow> a \<noteq> 0 \<Longrightarrow> a \<noteq> 1 \<Longrightarrow> mutex_step s (fst (try_lock s a))"
| step_await_load: "pc s a = Idle \<Longrightarrow> a \<noteq> 0 \<Longrightarrow> a \<noteq> 1 \<Longrightarrow> mutex_step s (await_load s a)"
| step_await_round: "pc s a = Loaded old \<Longrightarrow> mutex_step s (await_round s a old spurious)"
| step_unlock_read: "pc s a = Owner \<Longrightarrow> mutex_step s (unlock_read s a)"
| step_unlock_cas: "pc s a = Unlock_cas \<Longrightarrow> mutex_step s (unlock_cas s a)"
| step_unlock_exchange:
    "pc s a = Unlock_exchange \<Longrightarrow> unlock_exchange s a = Some t \<Longrightarrow> mutex_step s t"
| step_unlock_resume: "pc s a = Unlock_resume head \<Longrightarrow> mutex_step s (unlock_resume s a head)"

text \<open>Who holds the lock: its owner keeps it until unlock has given it away.\<close>

fun holds :: "lock_pc \<Rightarrow> bool" where
  "holds Owner = True"
| "holds Unlock_cas = True"
| "holds Unlock_exchange = True"
| "holds (Unlock_resume _) = True"
| "holds _ = False"

section \<open>Specification: a lock with a FIFO queue\<close>

record fifo_lock =
  owner :: "u64 option"
  queue :: "u64 list"

definition fifo_init :: "fifo_lock \<Rightarrow> bool" where
  "fifo_init l \<longleftrightarrow> owner l = None \<and> queue l = []"

inductive fifo_step :: "fifo_lock \<Rightarrow> fifo_lock \<Rightarrow> bool" where
  fifo_acquire: "owner l = None \<Longrightarrow> queue l = [] \<Longrightarrow> fifo_step l (l\<lparr>owner := Some a\<rparr>)"
| fifo_enqueue: "owner l = Some b \<Longrightarrow> a \<noteq> b \<Longrightarrow> a \<notin> set (queue l) \<Longrightarrow>
    fifo_step l (l\<lparr>queue := queue l @ [a]\<rparr>)"
| fifo_release: "owner l = Some a \<Longrightarrow> queue l = [] \<Longrightarrow> fifo_step l (l\<lparr>owner := None\<rparr>)"
| fifo_handoff: "owner l = Some a \<Longrightarrow> queue l = b # q \<Longrightarrow>
    fifo_step l (l\<lparr>owner := Some b, queue := q\<rparr>)"

section \<open>The reversal loop\<close>

lemma reverse_waiters_chain:
  assumes "chain nxt nx (nx # xs)" and "chain nxt head hs"
    and "distinct (nx # xs)" and "set (nx # xs) \<inter> set hs = {}"
  shows "\<exists>nxt' h. reverse_waiters nxt head nx = Some (nxt', h) \<and>
    chain nxt' h (rev (nx # xs) @ hs) \<and> (\<forall>y. y \<notin> set (nx # xs) \<longrightarrow> nxt' y = nxt y)"
  using assms
proof (induction xs arbitrary: nxt nx head hs)
  case Nil
  then have "nxt nx = 0" "nx \<noteq> 0" by auto
  with Nil show ?case
    by (subst reverse_waiters.simps) (auto simp: Let_def)
next
  case (Cons x xs)
  from Cons.prems have nx: "nx \<noteq> 0" "nxt nx = x" "x \<noteq> 0" "x \<noteq> nx" "nx \<notin> set xs" "nx \<notin> set hs"
    and ch: "chain nxt (nxt x) xs" by auto
  define nxt1 where "nxt1 = nxt(nx := head)"
  have "chain nxt1 x (x # xs)" using nx ch by (simp add: nxt1_def)
  moreover have "chain nxt1 nx (nx # hs)" using nx Cons.prems(2) by (simp add: nxt1_def)
  moreover have "distinct (x # xs)" "set (x # xs) \<inter> set (nx # hs) = {}"
    using Cons.prems(3,4) nx by auto
  ultimately obtain nxt' h where r: "reverse_waiters nxt1 nx x = Some (nxt', h)"
    and c: "chain nxt' h (rev (x # xs) @ nx # hs)"
    and f: "\<forall>y. y \<notin> set (x # xs) \<longrightarrow> nxt' y = nxt1 y"
    using Cons.IH [of nxt1 x nx "nx # hs"] by blast
  have "reverse_waiters nxt head nx = Some (nxt', h)"
    using r nx by (subst reverse_waiters.simps) (simp add: Let_def nxt1_def)
  with c f show ?case by (auto simp: nxt1_def)
qed


section \<open>The simulation\<close>

text \<open>The list of older waiters: after unlock picked its head, it starts at that head.\<close>

fun older_waiters :: "lock_pc \<Rightarrow> u64 \<Rightarrow> u64" where
  "older_waiters (Unlock_resume p) w = p"
| "older_waiters _ w = w"

definition waiters_head :: "mutex \<Rightarrow> u64 \<Rightarrow> u64" where
  "waiters_head s h = older_waiters (pc s h) (m_waiters s)"

definition mutex_free :: "mutex \<Rightarrow> fifo_lock \<Rightarrow> bool" where
  "mutex_free s l \<longleftrightarrow> m_state s = 1 \<and> m_waiters s = 0 \<and>
     (\<forall>a. \<not> holds (pc s a) \<and> pc s a \<noteq> Suspended) \<and> owner l = None \<and> queue l = []"

definition mutex_held :: "mutex \<Rightarrow> fifo_lock \<Rightarrow> u64 \<Rightarrow> u64 list \<Rightarrow> u64 list \<Rightarrow> bool" where
  "mutex_held s l h xs ys \<longleftrightarrow>
     owner l = Some h \<and> queue l = ys @ rev xs \<and> (\<forall>a. holds (pc s a) \<longleftrightarrow> a = h) \<and>
     chain (m_next s) (m_state s) xs \<and> chain (m_next s) (waiters_head s h) ys \<and>
     distinct (ys @ rev xs) \<and> (\<forall>a. a \<in> set xs \<union> set ys \<longleftrightarrow> pc s a = Suspended) \<and>
     (pc s h = Unlock_cas \<longrightarrow> ys = []) \<and> (pc s h = Unlock_exchange \<longrightarrow> ys = [] \<and> xs \<noteq> []) \<and>
     (\<forall>p. pc s h = Unlock_resume p \<longrightarrow> ys \<noteq> [])"

definition mutex_rel :: "mutex \<Rightarrow> fifo_lock \<Rightarrow> bool" where
  "mutex_rel s l \<longleftrightarrow> (\<forall>a. pc s a \<noteq> Idle \<longrightarrow> a \<noteq> 0 \<and> a \<noteq> 1) \<and>
     (mutex_free s l \<or> (\<exists>h xs ys. mutex_held s l h xs ys))"

lemmas mutex_defs = mutex_free_def mutex_held_def waiters_head_def not_locked_def
  locked_no_waiters_def

lemma holds_cases: "holds p \<longleftrightarrow> p = Owner \<or> p = Unlock_cas \<or> p = Unlock_exchange \<or>
    (\<exists>q. p = Unlock_resume q)"
  by (cases p) auto

lemma mutex_rel_free:
  assumes "mutex_rel s l" and "m_state s = 1"
  shows "mutex_free s l"
proof (rule ccontr)
  assume "\<not> mutex_free s l"
  with assms obtain h xs ys where held: "mutex_held s l h xs ys"
    and valid: "\<forall>a. pc s a \<noteq> Idle \<longrightarrow> a \<noteq> 0 \<and> a \<noteq> 1"
    unfolding mutex_rel_def by blast
  then have "chain (m_next s) 1 xs" using assms(2) by (simp add: mutex_held_def)
  then have "1 \<in> set xs" by (auto dest: chain_nonnull)
  with held have "pc s 1 = Suspended" by (auto simp: mutex_held_def)
  with valid show False by force
qed

lemma mutex_rel_held:
  assumes "mutex_rel s l" and "holds (pc s a)"
  shows "\<exists>xs ys. mutex_held s l a xs ys"
proof -
  from assms obtain h xs ys where "mutex_held s l h xs ys"
    by (auto simp: mutex_rel_def mutex_free_def)
  moreover from this assms(2) have "h = a" by (simp add: mutex_held_def)
  ultimately show ?thesis by blast
qed

lemma mutex_held_queued:
  "mutex_held s l h xs ys \<Longrightarrow> a \<in> set xs \<or> a \<in> set ys \<longleftrightarrow> pc s a = Suspended"
  by (simp add: mutex_held_def)

lemma mutex_held_holder: "mutex_held s l h xs ys \<Longrightarrow> holds (pc s a) \<longleftrightarrow> a = h"
  by (simp add: mutex_held_def)

lemma waiters_head_cong:
  "pc t h = pc s h \<Longrightarrow> m_waiters t = m_waiters s \<Longrightarrow> waiters_head t h = waiters_head s h"
  by (simp add: waiters_head_def)

lemma mutex_rel_heldI:
  "mutex_held s l h xs ys \<Longrightarrow> \<forall>a. pc s a \<noteq> Idle \<longrightarrow> a \<noteq> 0 \<and> a \<noteq> 1 \<Longrightarrow> mutex_rel s l"
  unfolding mutex_rel_def by blast

lemma mutex_rel_valid: "mutex_rel s l \<Longrightarrow> pc s a \<noteq> Idle \<Longrightarrow> a \<noteq> 0 \<and> a \<noteq> 1"
  unfolding mutex_rel_def by blast

lemma mutex_rel_valid_upd:
  assumes "mutex_rel s l" "pc t = (pc s)(a := p)" "a \<noteq> 0" "a \<noteq> 1"
  shows "\<forall>b. pc t b \<noteq> Idle \<longrightarrow> b \<noteq> 0 \<and> b \<noteq> 1"
  using assms mutex_rel_valid [OF assms(1)] by auto

lemma rel_acquire:
  assumes "mutex_rel s l" "m_state s = 1" "a \<noteq> 0" "a \<noteq> 1" "\<not> holds (pc s a)"
  shows "\<exists>l'. fifo_step\<^sup>*\<^sup>* l l' \<and> mutex_rel (s\<lparr>m_state := 0, pc := (pc s)(a := Owner)\<rparr>) l'"
proof -
  let ?l' = "l\<lparr>owner := Some a\<rparr>"
  from assms have fr: "mutex_free s l" by (simp add: mutex_rel_free)
  then have "fifo_step l ?l'" by (auto simp: mutex_free_def intro: fifo_acquire)
  moreover have "mutex_held (s\<lparr>m_state := 0, pc := (pc s)(a := Owner)\<rparr>) ?l' a [] []"
    using fr by (auto simp: mutex_defs)
  then have "mutex_rel (s\<lparr>m_state := 0, pc := (pc s)(a := Owner)\<rparr>) ?l'"
    using assms by (intro mutex_rel_heldI) (auto simp: mutex_rel_def)
  ultimately show ?thesis by blast
qed

text \<open>A process that is neither in the queue nor the holder may move its own counter and
  write its own \<open>m_next\<close>.\<close>

lemma rel_private:
  assumes rel: "mutex_rel s l" and "\<not> holds (pc s a)" "pc s a \<noteq> Suspended" "a \<noteq> 0" "a \<noteq> 1"
    and p: "\<not> holds p" "p \<noteq> Suspended"
    and t: "m_state t = m_state s" "m_waiters t = m_waiters s" "pc t = (pc s)(a := p)"
      "\<forall>b. b \<noteq> a \<longrightarrow> m_next t b = m_next s b"
  shows "mutex_rel t l"
proof (cases "mutex_free s l")
  case True
  with assms have "mutex_free t l" by (auto simp: mutex_free_def)
  with assms show ?thesis by (auto simp: mutex_rel_def)
next
  case False
  with rel obtain h xs ys where held: "mutex_held s l h xs ys" by (auto simp: mutex_rel_def)
  have "a \<notin> set xs" "a \<notin> set ys" "a \<noteq> h"
    using mutex_held_queued [OF held, of a] mutex_held_holder [OF held, of a] assms by auto
  with t have "chain (m_next t) q xs = chain (m_next s) q xs"
    "chain (m_next t) q ys = chain (m_next s) q ys" for q by (auto intro!: chain_cong)
  moreover have "waiters_head t h = waiters_head s h"
    using t \<open>a \<noteq> h\<close> by (intro waiters_head_cong) auto
  ultimately have "mutex_held t l h xs ys"
    using held assms \<open>a \<noteq> h\<close> by (simp add: mutex_held_def)
  then show ?thesis by (rule mutex_rel_heldI) (rule mutex_rel_valid_upd [OF rel t(3) assms(4,5)])
qed

lemma rel_enqueue:
  assumes rel: "mutex_rel s l" and a: "pc s a = Loaded old" and st: "m_state s = old" "old \<noteq> 1"
  shows "\<exists>l'. fifo_step\<^sup>*\<^sup>* l l' \<and>
    mutex_rel (s\<lparr>m_next := (m_next s)(a := old), m_state := a, pc := (pc s)(a := Suspended)\<rparr>) l'"
proof -
  have valid: "a \<noteq> 0" "a \<noteq> 1" using mutex_rel_valid [OF rel, of a] a by simp_all
  from rel st obtain h xs ys where held: "mutex_held s l h xs ys"
    by (auto simp: mutex_rel_def mutex_free_def)
  have na: "a \<notin> set xs" "a \<notin> set ys" "a \<noteq> h"
    using mutex_held_queued [OF held, of a] mutex_held_holder [OF held, of a] a by auto
  let ?l' = "l\<lparr>queue := queue l @ [a]\<rparr>"
  let ?t = "s\<lparr>m_next := (m_next s)(a := old), m_state := a, pc := (pc s)(a := Suspended)\<rparr>"
  have "fifo_step l ?l'" using held na by (intro fifo_enqueue) (auto simp: mutex_held_def)
  moreover have "mutex_held ?t ?l' h (a # xs) ys"
    using held na st valid a by (auto simp: mutex_held_def waiters_head_def)
  then have "mutex_rel ?t ?l'"
    using valid rel by (intro mutex_rel_heldI) (auto simp: mutex_rel_valid)
  ultimately show ?thesis by blast
qed


lemma rel_unlock_read:
  assumes rel: "mutex_rel s l" and a: "pc s a = Owner"
  shows "mutex_rel (unlock_read s a) l"
proof -
  from rel a obtain xs ys where held: "mutex_held s l a xs ys" by (auto dest!: mutex_rel_held)
  have "a \<noteq> 0" "a \<noteq> 1" using mutex_rel_valid [OF rel, of a] a by simp_all
  have q: "a \<notin> set xs" "a \<notin> set ys" using mutex_held_queued [OF held, of a] a by auto
  have "mutex_held (unlock_read s a) l a xs ys"
    using held a q by (auto simp: mutex_held_def waiters_head_def unlock_read_def)
  then show ?thesis
    using \<open>a \<noteq> 0\<close> \<open>a \<noteq> 1\<close> mutex_rel_valid [OF rel]
    by (intro mutex_rel_heldI) (auto simp: unlock_read_def)
qed

lemma rel_unlock_cas:
  assumes rel: "mutex_rel s l" and a: "pc s a = Unlock_cas"
  shows "\<exists>l'. fifo_step\<^sup>*\<^sup>* l l' \<and> mutex_rel (unlock_cas s a) l'"
proof -
  from rel a obtain xs ys where held: "mutex_held s l a xs ys" by (auto dest!: mutex_rel_held)
  have valid: "a \<noteq> 0" "a \<noteq> 1" using mutex_rel_valid [OF rel, of a] a by simp_all
  show ?thesis
  proof (cases "m_state s = 0")
    case True
    let ?l' = "l\<lparr>owner := None\<rparr>"
    from held a True have empty: "xs = []" "ys = []" by (auto simp: mutex_held_def)
    then have "fifo_step l ?l'" using held by (intro fifo_release) (auto simp: mutex_held_def)
    moreover have "mutex_rel (unlock_cas s a) ?l'"
      using held a True empty mutex_rel_valid [OF rel]
      by (auto simp: mutex_rel_def mutex_held_def mutex_free_def unlock_cas_def not_locked_def
          locked_no_waiters_def waiters_head_def)
    ultimately show ?thesis by blast
  next
    case False
    then have "xs \<noteq> []" using held by (auto simp: mutex_held_def)
    have q: "a \<notin> set xs" "a \<notin> set ys" using mutex_held_queued [OF held, of a] a by auto
    then have "mutex_held (unlock_cas s a) l a xs ys"
      using held a False \<open>xs \<noteq> []\<close>
      by (auto simp: mutex_held_def unlock_cas_def locked_no_waiters_def waiters_head_def)
    then have "mutex_rel (unlock_cas s a) l"
      using False valid mutex_rel_valid [OF rel]
      by (intro mutex_rel_heldI) (auto simp: unlock_cas_def locked_no_waiters_def)
    then show ?thesis by blast
  qed
qed

text \<open>
  At the exchange of unlock the word is a waiter, the loop ends, and it turns the list of
  new waiters around.
\<close>

lemma unlock_exchange_reverses:
  assumes rel: "mutex_rel s l" and a: "pc s a = Unlock_exchange"
  shows "\<exists>t. unlock_exchange s a = Some t \<and> mutex_rel t l \<and> m_state s \<noteq> not_locked \<and>
    m_state s \<noteq> locked_no_waiters"
proof -
  from rel a obtain xs ys where held: "mutex_held s l a xs ys" by (auto dest!: mutex_rel_held)
  have valid: "a \<noteq> 0" "a \<noteq> 1" using mutex_rel_valid [OF rel, of a] a by simp_all
  from held a have ys: "ys = []" "xs \<noteq> []" and ch: "chain (m_next s) (m_state s) xs"
    and dist: "distinct xs" by (auto simp: mutex_held_def)
  from ys(2) ch obtain zs where zs: "xs = m_state s # zs" "m_state s \<noteq> 0" by (cases xs) auto
  then have "pc s (m_state s) = Suspended" using mutex_held_queued [OF held] by auto
  then have "m_state s \<noteq> 1" using mutex_rel_valid [OF rel, of "m_state s"] by simp
  obtain nxt' h where r: "reverse_waiters (m_next s) 0 (m_state s) = Some (nxt', h)"
    and c: "chain nxt' h (rev xs)"
    using reverse_waiters_chain [of "m_next s" "m_state s" zs 0 "[]"] ch dist zs by auto
  let ?t = "s\<lparr>m_state := locked_no_waiters, m_next := nxt', pc := (pc s)(a := Unlock_resume h)\<rparr>"
  have q: "a \<notin> set xs" using mutex_held_queued [OF held, of a] a by auto
  have "mutex_held ?t l a [] (rev xs)"
    using held a c ys q by (auto simp: mutex_held_def locked_no_waiters_def waiters_head_def)
  then have "mutex_rel ?t l"
    using valid mutex_rel_valid [OF rel] by (intro mutex_rel_heldI) auto
  with r zs \<open>m_state s \<noteq> 1\<close> show ?thesis
    by (simp add: unlock_exchange_def not_locked_def locked_no_waiters_def)
qed

lemma rel_unlock_resume:
  assumes rel: "mutex_rel s l" and a: "pc s a = Unlock_resume p"
  shows "\<exists>q. queue l = p # q \<and> pc s p = Suspended \<and> fifo_step l \<lparr>owner = Some p, queue = q\<rparr> \<and>
    mutex_rel (unlock_resume s a p) \<lparr>owner = Some p, queue = q\<rparr>"
proof -
  from rel a obtain xs ys where held: "mutex_held s l a xs ys" by (auto dest!: mutex_rel_held)
  have valid: "a \<noteq> 0" "a \<noteq> 1" using mutex_rel_valid [OF rel, of a] a by simp_all
  from held a obtain ys' where ys: "ys = p # ys'" and p0: "p \<noteq> 0" "chain (m_next s) (m_next s p) ys'"
    and dist: "p \<notin> set ys'" "p \<notin> set xs" "distinct (ys' @ rev xs)"
    by (cases ys) (auto simp: mutex_held_def waiters_head_def)
  then have pp: "pc s p = Suspended" using mutex_held_queued [OF held, of p] by simp
  then have "p \<noteq> 1" "p \<noteq> a" using mutex_rel_valid [OF rel, of p] a by auto
  have q: "a \<notin> set xs" "a \<notin> set ys'" using mutex_held_queued [OF held, of a] a ys by auto
  let ?l' = "\<lparr>owner = Some p, queue = ys' @ rev xs\<rparr>"
  have ql: "queue l = p # ys' @ rev xs" "owner l = Some a"
    using held ys by (auto simp: mutex_held_def)
  have "fifo_step l (l\<lparr>owner := Some p, queue := ys' @ rev xs\<rparr>)"
    using ql by (intro fifo_handoff [of l a])
  moreover have "l\<lparr>owner := Some p, queue := ys' @ rev xs\<rparr> = ?l'" by (cases l) simp
  ultimately have "fifo_step l ?l'" by simp
  moreover have "mutex_held (unlock_resume s a p) ?l' p xs ys'"
    using held ys p0 dist pp q a \<open>p \<noteq> a\<close>
    by (auto simp: mutex_held_def unlock_resume_def waiters_head_def)
  then have "mutex_rel (unlock_resume s a p) ?l'"
    using valid p0 \<open>p \<noteq> 1\<close> mutex_rel_valid [OF rel]
    by (intro mutex_rel_heldI) (auto simp: unlock_resume_def)
  ultimately show ?thesis using ql pp by blast
qed

section \<open>Every step is simulated\<close>

lemma mutex_sim_init: "async_mutex_init s \<Longrightarrow> \<exists>l. fifo_init l \<and> mutex_rel s l"
  by (rule exI [of _ "\<lparr>owner = None, queue = []\<rparr>"])
     (auto simp: async_mutex_init_def fifo_init_def mutex_rel_def mutex_free_def not_locked_def)

lemma rel_try_lock:
  assumes "mutex_rel s l" "pc s a = Idle" "a \<noteq> 0" "a \<noteq> 1"
  shows "\<exists>l'. fifo_step\<^sup>*\<^sup>* l l' \<and> mutex_rel (fst (try_lock s a)) l'"
proof (cases "m_state s = 1")
  case True
  with assms rel_acquire [of s l a] show ?thesis
    by (simp add: try_lock_def not_locked_def locked_no_waiters_def)
next
  case False
  with assms show ?thesis by (auto simp: try_lock_def not_locked_def)
qed

lemma rel_await_round:
  assumes rel: "mutex_rel s l" and a: "pc s a = Loaded old"
  shows "\<exists>l'. fifo_step\<^sup>*\<^sup>* l l' \<and> mutex_rel (await_round s a old spurious) l'"
proof -
  have valid: "a \<noteq> 0" "a \<noteq> 1" using mutex_rel_valid [OF rel, of a] a by simp_all
  consider (take) "old = 1" "m_state s = 1" "\<not> spurious"
    | (enqueue) "old \<noteq> 1" "m_state s = old" "\<not> spurious"
    | (retry) "m_state s \<noteq> old \<or> spurious" by blast
  then show ?thesis
  proof cases
    case take
    with rel_acquire [OF rel _ valid] a show ?thesis
      by (simp add: await_round_def not_locked_def locked_no_waiters_def)
  next
    case enqueue
    with rel_enqueue [OF rel a] show ?thesis
      by (simp add: await_round_def not_locked_def Let_def)
  next
    case retry
    have "mutex_rel (await_round s a old spurious) l"
      using retry a by (intro rel_private [OF rel _ _ valid, where p = "Loaded (m_state s)"])
        (auto simp: await_round_def Let_def)
    then show ?thesis by blast
  qed
qed

lemma mutex_sim_step:
  assumes "mutex_rel s l" and "mutex_step s t"
  shows "\<exists>l'. fifo_step\<^sup>*\<^sup>* l l' \<and> mutex_rel t l'"
  using assms(2,1)
proof cases
  case (step_try_lock a)
  with assms(1) show ?thesis by (simp add: rel_try_lock)
next
  case (step_await_load a)
  have "mutex_rel t l"
    using step_await_load
    by (intro rel_private [OF assms(1), where a = a and p = "Loaded (m_state s)"])
       (auto simp: await_load_def)
  then show ?thesis by blast
next
  case (step_await_round a old spurious)
  with assms(1) show ?thesis by (simp add: rel_await_round)
next
  case (step_unlock_read a)
  with assms(1) have "mutex_rel t l" by (simp add: rel_unlock_read)
  then show ?thesis by blast
next
  case (step_unlock_cas a)
  with assms(1) show ?thesis by (simp add: rel_unlock_cas)
next
  case (step_unlock_exchange a)
  with unlock_exchange_reverses [OF assms(1), of a] have "mutex_rel t l" by auto
  then show ?thesis by blast
next
  case (step_unlock_resume a head)
  with rel_unlock_resume [OF assms(1)] show ?thesis by blast
qed

interpretation mutex_fifo:
  simulation_system async_mutex_init mutex_step fifo_init fifo_step mutex_rel
  by unfold_locales (auto intro: mutex_sim_init mutex_sim_step)

lemma mutex_rel_visible:
  assumes "mutex_rel s l"
  shows "\<forall>a. holds (pc s a) \<longleftrightarrow> owner l = Some a"
    and "set (queue l) = {a. pc s a = Suspended}" and "distinct (queue l)"
    and "m_state s = not_locked \<longleftrightarrow> owner l = None"
proof -
  have "(\<forall>a. holds (pc s a) \<longleftrightarrow> owner l = Some a) \<and> set (queue l) = {a. pc s a = Suspended} \<and>
      distinct (queue l) \<and> (m_state s = not_locked \<longleftrightarrow> owner l = None)"
  proof (cases "mutex_free s l")
    case True
    then show ?thesis by (auto simp: mutex_free_def not_locked_def)
  next
    case False
    with assms obtain h xs ys where held: "mutex_held s l h xs ys" by (auto simp: mutex_rel_def)
    with False assms have "m_state s \<noteq> 1" by (auto dest: mutex_rel_free)
    with held show ?thesis by (auto simp: mutex_held_def not_locked_def)
  qed
  then show "\<forall>a. holds (pc s a) \<longleftrightarrow> owner l = Some a"
    "set (queue l) = {a. pc s a = Suspended}" "distinct (queue l)"
    "m_state s = not_locked \<longleftrightarrow> owner l = None" by auto
qed

lemma mutex_refines:
  assumes "reachable async_mutex_init mutex_step s"
  shows "\<exists>l. reachable fifo_init fifo_step l \<and> mutex_rel s l \<and>
    (\<forall>a. holds (pc s a) \<longleftrightarrow> owner l = Some a) \<and> set (queue l) = {a. pc s a = Suspended} \<and>
    distinct (queue l) \<and> (m_state s = not_locked \<longleftrightarrow> owner l = None)"
  using mutex_fifo.reachable_sim [OF assms] mutex_rel_visible by blast

lemma fifo_queue_owned:
  "reachable fifo_init fifo_step l \<Longrightarrow> queue l \<noteq> [] \<Longrightarrow> owner l \<noteq> None"
  by (induction rule: reachable.induct) (auto simp: fifo_init_def elim!: fifo_step.cases)

section \<open>Properties\<close>

text \<open>A run that the properties are applied to: 8 locks, 16 queues, 8 starts to unlock.\<close>

definition mutex_demo0 :: mutex where
  "mutex_demo0 = \<lparr>m_state = 1, m_waiters = 0, m_next = (\<lambda>_. 0), pc = (\<lambda>_. Idle)\<rparr>"

definition mutex_demo :: mutex where
  "mutex_demo = unlock_cas (unlock_read (await_round (await_load
     (fst (try_lock mutex_demo0 8)) 16) 16 0 False) 8) 8"

lemmas mutex_demo_defs = mutex_demo0_def mutex_demo_def try_lock_def await_load_def
  await_round_def unlock_read_def unlock_cas_def not_locked_def locked_no_waiters_def

lemma mutex_demo_reachable: "reachable async_mutex_init mutex_step mutex_demo"
proof -
  note run = reachable_step [where init = async_mutex_init and step = mutex_step]
  have "reachable async_mutex_init mutex_step mutex_demo0"
    by (rule reachable_init) (simp add: async_mutex_init_def mutex_demo0_def not_locked_def)
  then have "reachable async_mutex_init mutex_step (fst (try_lock mutex_demo0 8))"
    by (rule run) (rule step_try_lock, simp_all add: mutex_demo_defs)
  then have "reachable async_mutex_init mutex_step (await_load (fst (try_lock mutex_demo0 8)) 16)"
    by (rule run) (rule step_await_load, simp_all add: mutex_demo_defs)
  then have "reachable async_mutex_init mutex_step
      (await_round (await_load (fst (try_lock mutex_demo0 8)) 16) 16 0 False)"
    by (rule run) (rule step_await_round, simp add: mutex_demo_defs)
  then have "reachable async_mutex_init mutex_step (unlock_read
      (await_round (await_load (fst (try_lock mutex_demo0 8)) 16) 16 0 False) 8)"
    by (rule run) (rule step_unlock_read, simp add: mutex_demo_defs)
  then show ?thesis
    unfolding mutex_demo_def
    by (rule run) (rule step_unlock_cas, simp add: mutex_demo_defs)
qed

lemma mutex_demo_pc: "pc mutex_demo 8 = Unlock_exchange" "pc mutex_demo 16 = Suspended"
  by (simp_all add: mutex_demo_defs)

text \<open>
  C1. The mutex refines a lock with a FIFO queue: whatever the interleaving of \<open>try_lock\<close>,
  \<open>await_suspend\<close> and \<open>unlock\<close>, a reachable state of the mutex corresponds to a reachable
  state of the specification whose owner is the one process that holds the lock (or is still
  inside its unlock) and whose queue lists, each once, exactly the suspended coroutines; the
  word is \<open>not_locked\<close> exactly when there is no owner.
\<close>

theorem async_mutex_refines_fifo_lock:
  assumes "reachable async_mutex_init mutex_step s"
  shows "\<exists>l. reachable fifo_init fifo_step l \<and> mutex_rel s l \<and>
    (\<forall>a. holds (pc s a) \<longleftrightarrow> owner l = Some a) \<and> set (queue l) = {a. pc s a = Suspended} \<and>
    distinct (queue l) \<and> (m_state s = not_locked \<longleftrightarrow> owner l = None)"
  by (rule mutex_refines) (rule assms)

theorem async_mutex_refines_fifo_lock_witness:
  "\<exists>l. reachable fifo_init fifo_step l \<and> mutex_rel mutex_demo l \<and> owner l = Some 8 \<and>
    16 \<in> set (queue l)"
proof -
  obtain l where l: "reachable fifo_init fifo_step l" "mutex_rel mutex_demo l"
    "\<forall>a. holds (pc mutex_demo a) \<longleftrightarrow> owner l = Some a"
    "set (queue l) = {a. pc mutex_demo a = Suspended}"
    using async_mutex_refines_fifo_lock [OF mutex_demo_reachable] by blast
  from l(3) [THEN spec, of 8] have "owner l = Some 8" by (simp add: mutex_demo_pc)
  moreover from l(4) have "16 \<in> set (queue l)" by (simp add: mutex_demo_pc)
  ultimately show ?thesis using l(1,2) by blast
qed

text \<open>
  C2. Mutual exclusion and no lost waiter: two processes never hold the lock at the same
  time, and while a coroutine is suspended in the queue some process holds the lock, so
  there is an unlock to come that can resume it.
\<close>

theorem async_mutex_exclusive:
  assumes "reachable async_mutex_init mutex_step s"
  shows "(\<forall>a b. holds (pc s a) \<and> holds (pc s b) \<longrightarrow> a = b) \<and>
    (\<forall>a. pc s a = Suspended \<longrightarrow> (\<exists>b. holds (pc s b)))"
proof -
  from mutex_refines [OF assms] obtain l where l: "reachable fifo_init fifo_step l"
    "\<forall>a. holds (pc s a) \<longleftrightarrow> owner l = Some a" "set (queue l) = {a. pc s a = Suspended}" by blast
  have "\<exists>b. holds (pc s b)" if "pc s a = Suspended" for a
  proof -
    from that l(3) have "queue l \<noteq> []" by auto
    with fifo_queue_owned [OF l(1)] l(2) show ?thesis by auto
  qed
  with l(2) show ?thesis by auto
qed

theorem async_mutex_exclusive_witness:
  "\<forall>b. holds (pc mutex_demo b) = (b = 8)"
  using async_mutex_exclusive [OF mutex_demo_reachable] mutex_demo_pc by (metis holds.simps(3))

text \<open>
  The slow path of \<open>unlock\<close>: when the lock holder comes to the exchange, the word is the
  address of a waiter (the assertion of the code holds), and the loop that reverses the list
  of new waiters ends.
\<close>

theorem async_mutex_unlock_exchange_returns:
  assumes "reachable async_mutex_init mutex_step s" and "pc s a = Unlock_exchange"
  shows "m_state s \<noteq> not_locked \<and> m_state s \<noteq> locked_no_waiters \<and>
    (\<exists>t. unlock_exchange s a = Some t)"
  using mutex_refines [OF assms(1)] unlock_exchange_reverses [OF _ assms(2)] by blast

theorem async_mutex_unlock_exchange_returns_witness:
  "m_state mutex_demo \<noteq> locked_no_waiters \<and> (\<exists>t. unlock_exchange mutex_demo 8 = Some t)"
  using async_mutex_unlock_exchange_returns [OF mutex_demo_reachable mutex_demo_pc(1)] by blast

text \<open>
  \<open>unlock\<close> hands the lock over in FIFO order: the operation it resumes is suspended and
  is the oldest one of the queue of the specification, and the state after the handover
  corresponds to that queue without it and with it as the owner.
\<close>

theorem async_mutex_handoff_fifo:
  assumes "reachable async_mutex_init mutex_step s" and "pc s a = Unlock_resume p"
  shows "\<exists>l q. mutex_rel s l \<and> reachable fifo_init fifo_step l \<and> queue l = p # q \<and>
    pc s p = Suspended \<and> fifo_step l \<lparr>owner = Some p, queue = q\<rparr> \<and>
    mutex_rel (unlock_resume s a p) \<lparr>owner = Some p, queue = q\<rparr>"
  using mutex_refines [OF assms(1)] rel_unlock_resume [OF _ assms(2)] by blast

lemma mutex_demo_resuming:
  "\<exists>s p. reachable async_mutex_init mutex_step s \<and> pc s 8 = Unlock_resume p"
proof -
  obtain l where "mutex_rel mutex_demo l" using mutex_refines [OF mutex_demo_reachable] by blast
  from unlock_exchange_reverses [OF this mutex_demo_pc(1)] obtain s
    where s: "unlock_exchange mutex_demo 8 = Some s" by blast
  then have "reachable async_mutex_init mutex_step s"
    by (intro reachable_step [OF mutex_demo_reachable] step_unlock_exchange [OF mutex_demo_pc(1)])
  moreover from s have "\<exists>p. pc s 8 = Unlock_resume p"
    by (auto simp: unlock_exchange_def split: option.splits)
  ultimately show ?thesis by blast
qed

theorem async_mutex_handoff_fifo_witness:
  "\<exists>s p l q. mutex_rel s l \<and> queue l = p # q \<and> pc s p = Suspended \<and>
    mutex_rel (unlock_resume s 8 p) \<lparr>owner = Some p, queue = q\<rparr>"
proof -
  obtain s p where "reachable async_mutex_init mutex_step s" "pc s 8 = Unlock_resume p"
    using mutex_demo_resuming by blast
  from async_mutex_handoff_fifo [OF this] show ?thesis by blast
qed

end
