(* ===== verification/Auto_Reset_Event.thy ===== *)
theory Auto_Reset_Event
  imports Coro_Prelude
begin

text \<open>
  The asynchronous auto-reset event of include/coro/awaitable/async_auto_reset_event.h and
  src/coro/async_auto_reset_event.cpp: one 64-bit word with the set count (low half) and the
  waiter count (high half), a stack of new waiters, a list of older waiters that only the
  current resumer touches, and a reference count per operation that decides who continues the
  coroutine. Processes are numbers below \<open>N\<close>; each may wait on or set the event repeatedly.
\<close>

section \<open>State\<close>

text \<open>
  Control points: \<open>Await_*\<close> in \<open>operator co_await\<close> and \<open>await_suspend\<close>; \<open>Set_cas old\<close> in the
  loop of \<open>set\<close>; \<open>Reset_cas old\<close> in the loop of \<open>reset\<close>; \<open>Resume_take n k rl w\<close> in the collecting loop of \<open>resume_waiters\<close> with batch
  size \<open>n\<close>, \<open>k\<close> of them taken and \<open>rl\<close> collected so far; \<open>Resume_list rl w\<close> in its resuming loop.
  The flag \<open>w\<close> says whether the process called from \<open>await_suspend\<close> (it still has to drop its
  own reference) or from \<open>set\<close>.
\<close>

datatype event_pc =
    Idle
  | Await_cas u64
  | Await_push
  | Await_add
  | Await_release
  | Suspended
  | Set_cas u64
  | Reset_cas u64
  | Resume_take u32 nat "nat list" bool
  | Resume_list "nat list" bool

record event =
  m_state :: u64
  m_new_waiters :: "nat list"
  m_waiters :: "nat list"
  m_ref_count :: "nat \<Rightarrow> u32"
  pc :: "nat \<Rightarrow> event_pc"

definition set_count :: "u64 \<Rightarrow> u32" where
  "set_count w = ucast w"

definition waiter_count :: "u64 \<Rightarrow> u32" where
  "waiter_count w = ucast (drop_bit 32 w)"

definition waiter_increment :: u64 where
  "waiter_increment = push_bit 32 1"

definition event_init :: "bool \<Rightarrow> event \<Rightarrow> bool" where
  "event_init initially_set e \<longleftrightarrow> m_state e = (if initially_set then 1 else 0) \<and>
     m_new_waiters e = [] \<and> m_waiters e = [] \<and> (\<forall>i. pc e i = Idle)"

definition event_destructor_asserts :: "event \<Rightarrow> bool" where
  "event_destructor_asserts e \<longleftrightarrow>
     drop_bit 32 (m_state e) = 0 \<and> m_new_waiters e = [] \<and> m_waiters e = []"

section \<open>Waiting\<close>

definition goto :: "event \<Rightarrow> nat \<Rightarrow> event_pc \<Rightarrow> event" where
  "goto e i p = e\<lparr>pc := (pc e)(i := p)\<rparr>"

text \<open>The constructor of the operation: two references.\<close>

definition begin_wait :: "event \<Rightarrow> nat \<Rightarrow> event" where
  "begin_wait e i = e\<lparr>m_ref_count := (m_ref_count e)(i := 2), pc := (pc e)(i := Await_push)\<rparr>"

definition await_start :: "event \<Rightarrow> nat \<Rightarrow> event" where
  "await_start e i =
     (let old_state = m_state e
      in if set_count old_state > waiter_count old_state then goto e i (Await_cas old_state)
         else begin_wait e i)"

definition await_cas :: "event \<Rightarrow> nat \<Rightarrow> u64 \<Rightarrow> event" where
  "await_cas e i old_state =
     (if m_state e = old_state then goto (e\<lparr>m_state := old_state - 1\<rparr>) i Idle
      else begin_wait e i)"

text \<open>
  The loop that pushes onto the stack of new waiters: rounds whose exchange fails change
  nothing, the successful one puts the operation on top.
\<close>

definition await_push :: "event \<Rightarrow> nat \<Rightarrow> event" where
  "await_push e i = goto (e\<lparr>m_new_waiters := i # m_new_waiters e\<rparr>) i Await_add"

text \<open>The head of \<open>resume_waiters\<close>: the size of the first batch.\<close>

definition enter_resume :: "u64 \<Rightarrow> bool \<Rightarrow> event_pc" where
  "enter_resume init_state w =
     Resume_take (min (set_count init_state) (waiter_count init_state)) 0 [] w"

definition await_add :: "event \<Rightarrow> nat \<Rightarrow> event" where
  "await_add e i =
     (let old_state = m_state e
      in goto (e\<lparr>m_state := old_state + waiter_increment\<rparr>) i
           (if old_state \<noteq> 0 \<and> waiter_count old_state = 0
            then enter_resume (old_state + waiter_increment) True else Await_release))"

definition await_release :: "event \<Rightarrow> nat \<Rightarrow> event" where
  "await_release e i =
     goto (e\<lparr>m_ref_count := (m_ref_count e)(i := m_ref_count e i - 1)\<rparr>) i
       (if m_ref_count e i \<noteq> 1 then Suspended else Idle)"

section \<open>Setting\<close>

definition set_check :: "event \<Rightarrow> nat \<Rightarrow> event" where
  "set_check e i =
     (let old_state = m_state e
      in if set_count old_state > waiter_count old_state then goto e i Idle
         else goto e i (Set_cas old_state))"

definition set_cas :: "event \<Rightarrow> nat \<Rightarrow> u64 \<Rightarrow> bool \<Rightarrow> event" where
  "set_cas e i old_state spurious =
     (if m_state e = old_state \<and> \<not> spurious
      then goto (e\<lparr>m_state := old_state + 1\<rparr>) i
             (if old_state \<noteq> 0 \<and> set_count old_state = 0
              then enter_resume (old_state + 1) False else Idle)
      else set_check e i)"

section \<open>Resetting\<close>

text \<open>
  \<open>reset\<close> compares the counts of the word it loads first, and only then. A failed exchange
  (a spurious one, or one that meets a changed word) reads the word again and tries again
  without another comparison.
\<close>

definition reset_check :: "event \<Rightarrow> nat \<Rightarrow> event" where
  "reset_check e i =
     (let old_state = m_state e
      in if set_count old_state > waiter_count old_state then goto e i (Reset_cas old_state)
         else goto e i Idle)"

definition reset_cas :: "event \<Rightarrow> nat \<Rightarrow> u64 \<Rightarrow> bool \<Rightarrow> event" where
  "reset_cas e i old_state spurious =
     (if m_state e = old_state \<and> \<not> spurious then goto (e\<lparr>m_state := old_state - 1\<rparr>) i Idle
      else goto e i (Reset_cas (m_state e)))"

section \<open>Resuming\<close>

text \<open>
  Taking one waiter; \<open>None\<close> is the failed assertion that there is one. The older waiters are
  refilled from the stack, reversed.
\<close>

definition take_waiter :: "event \<Rightarrow> (event \<times> nat) option" where
  "take_waiter e =
     (let e' = (if m_waiters e = [] then e\<lparr>m_waiters := rev (m_new_waiters e), m_new_waiters := []\<rparr>
                else e)
      in if m_waiters e' = [] then None
         else Some (e'\<lparr>m_waiters := tl (m_waiters e')\<rparr>, hd (m_waiters e')))"

definition resume_take :: "event \<Rightarrow> nat \<Rightarrow> u32 \<Rightarrow> nat \<Rightarrow> nat list \<Rightarrow> bool \<Rightarrow> event option" where
  "resume_take e i n k rl w =
     map_option (\<lambda>(e', a). goto e' i (Resume_take n (Suc k) (rl @ [a]) w)) (take_waiter e)"

definition resume_delta :: "u32 \<Rightarrow> u64" where
  "resume_delta n = ucast n OR push_bit 32 (ucast n)"

definition resume_subtract :: "event \<Rightarrow> nat \<Rightarrow> u32 \<Rightarrow> nat list \<Rightarrow> bool \<Rightarrow> event" where
  "resume_subtract e i n rl w =
     (let new_state = m_state e - resume_delta n;
          n' = min (set_count new_state) (waiter_count new_state)
      in goto (e\<lparr>m_state := new_state\<rparr>) i
           (if n' > 0 then Resume_take n' 0 rl w else Resume_list rl w))"

text \<open>
  One round of the resuming loop: the reference of the resumer is dropped, and the coroutine
  continues here when it was the last one.
\<close>

definition resume_next :: "event \<Rightarrow> nat \<Rightarrow> nat \<Rightarrow> nat list \<Rightarrow> bool \<Rightarrow> event" where
  "resume_next e i a rl w =
     (let e1 = e\<lparr>m_ref_count := (m_ref_count e)(a := m_ref_count e a - 1)\<rparr>;
          e2 = (if m_ref_count e a = 1 then goto e1 a Idle else e1)
      in goto e2 i (if rl = [] then (if w then Await_release else Idle) else Resume_list rl w))"

text \<open>
  The steps of \<open>N\<close> processes. The flag says whether an exchange of \<open>reset\<close> may run on a word
  whose set count does not exceed its waiter count: the code lets it, after a failed
  exchange; without the flag such an exchange does not happen.
\<close>

inductive event_step :: "nat \<Rightarrow> bool \<Rightarrow> event \<Rightarrow> event \<Rightarrow> bool" for N stale where
  ev_await_start: "i < N \<Longrightarrow> pc e i = Idle \<Longrightarrow> event_step N stale e (await_start e i)"
| ev_await_cas: "pc e i = Await_cas old \<Longrightarrow> event_step N stale e (await_cas e i old)"
| ev_await_push: "pc e i = Await_push \<Longrightarrow> event_step N stale e (await_push e i)"
| ev_await_add: "pc e i = Await_add \<Longrightarrow> event_step N stale e (await_add e i)"
| ev_await_release: "pc e i = Await_release \<Longrightarrow> event_step N stale e (await_release e i)"
| ev_set_check: "i < N \<Longrightarrow> pc e i = Idle \<Longrightarrow> event_step N stale e (set_check e i)"
| ev_set_cas: "pc e i = Set_cas old \<Longrightarrow> event_step N stale e (set_cas e i old spurious)"
| ev_reset_check: "i < N \<Longrightarrow> pc e i = Idle \<Longrightarrow> event_step N stale e (reset_check e i)"
| ev_reset_cas: "pc e i = Reset_cas old \<Longrightarrow>
    stale \<or> set_count (m_state e) > waiter_count (m_state e) \<Longrightarrow>
    event_step N stale e (reset_cas e i old spurious)"
| ev_resume_take: "pc e i = Resume_take n k rl w \<Longrightarrow> k < unat n \<Longrightarrow>
    resume_take e i n k rl w = Some f \<Longrightarrow> event_step N stale e f"
| ev_resume_subtract: "pc e i = Resume_take n k rl w \<Longrightarrow> k = unat n \<Longrightarrow>
    event_step N stale e (resume_subtract e i n rl w)"
| ev_resume_next: "pc e i = Resume_list (a # rl) w \<Longrightarrow> event_step N stale e (resume_next e i a rl w)"

section \<open>Who refers to an operation\<close>

fun held_list :: "event_pc \<Rightarrow> nat list" where
  "held_list (Resume_take _ _ rl _) = rl"
| "held_list (Resume_list rl _) = rl"
| "held_list _ = []"

text \<open>Whether the process has an operation that lives: constructed and not yet finished.\<close>

fun waits :: "event_pc \<Rightarrow> bool" where
  "waits Await_push = True"
| "waits Await_add = True"
| "waits Await_release = True"
| "waits Suspended = True"
| "waits (Resume_take _ _ _ w) = w"
| "waits (Resume_list _ w) = w"
| "waits _ = False"

definition listed :: "nat \<Rightarrow> event \<Rightarrow> nat \<Rightarrow> nat" where
  "listed N e a = count_list (m_new_waiters e) a + count_list (m_waiters e) a +
     (\<Sum>i<N. count_list (held_list (pc e i)) a)"

definition refs_ok :: "nat \<Rightarrow> event \<Rightarrow> nat \<Rightarrow> bool" where
  "refs_ok N e a \<longleftrightarrow>
     (if waits (pc e a)
      then m_ref_count e a = of_nat (listed N e a + (if pc e a = Suspended then 0 else 1) +
          (if pc e a = Await_push then 1 else 0)) \<and>
        listed N e a \<le> 1 \<and> (pc e a = Suspended \<longrightarrow> listed N e a = 1) \<and>
        (pc e a = Await_push \<longrightarrow> listed N e a = 0)
      else listed N e a = 0)"

definition inv_refs :: "nat \<Rightarrow> event \<Rightarrow> bool" where
  "inv_refs N e \<longleftrightarrow> (\<forall>i\<ge>N. pc e i = Idle) \<and> (\<forall>a. refs_ok N e a) \<and>
     (\<forall>i w. pc e i \<noteq> Resume_list [] w)"

lemma inv_refs_refs: "inv_refs N e \<Longrightarrow> refs_ok N e a"
  by (simp add: inv_refs_def)

lemma refs_ok_cong:
  "pc f a = pc e a \<Longrightarrow> m_ref_count f a = m_ref_count e a \<Longrightarrow> listed N f a = listed N e a \<Longrightarrow>
   refs_ok N f a = refs_ok N e a"
  by (simp add: refs_ok_def)

lemma goto_simps [simp]:
  "m_state (goto e i p) = m_state e" "m_new_waiters (goto e i p) = m_new_waiters e"
  "m_waiters (goto e i p) = m_waiters e" "m_ref_count (goto e i p) = m_ref_count e"
  "pc (goto e i p) = (pc e)(i := p)"
  by (simp_all add: goto_def)

lemma listed_upd:
  assumes "i < N" "pc f = (pc e)(i := p)"
  shows "listed N f a + count_list (m_new_waiters e) a + count_list (m_waiters e) a
      + count_list (held_list (pc e i)) a
    = listed N e a + count_list (m_new_waiters f) a + count_list (m_waiters f) a
      + count_list (held_list p) a"
  using sum_upd_process [OF assms(1), where w = "\<lambda>p. count_list (held_list p) a" and f = "pc e" and x = p]
  by (simp add: listed_def assms(2))

lemma listed_same:
  assumes "pc f = (pc e)(i := p)" "held_list p = held_list (pc e i)"
    "m_new_waiters f = m_new_waiters e" "m_waiters f = m_waiters e"
  shows "listed N f a = listed N e a"
proof -
  have "held_list (pc f j) = held_list (pc e j)" for j using assms(1,2) by simp
  then show ?thesis by (simp add: listed_def assms)
qed

lemma inv_refs_process: "inv_refs N e \<Longrightarrow> pc e i \<noteq> Idle \<Longrightarrow> i < N"
  by (meson inv_refs_def not_le)

text \<open>
  A step that touches no list and no other process's count keeps the invariant when it is
  right for the process that moves.
\<close>

lemma inv_refs_local:
  assumes inv: "inv_refs N e" and i: "i < N" and pc: "pc f = (pc e)(i := p)"
    and held: "held_list p = held_list (pc e i)"
    and lists: "m_new_waiters f = m_new_waiters e" "m_waiters f = m_waiters e"
    and refs: "\<forall>a. a \<noteq> i \<longrightarrow> m_ref_count f a = m_ref_count e a"
    and mine: "refs_ok N f i" and ne: "\<forall>w. p \<noteq> Resume_list [] w"
  shows "inv_refs N f"
proof -
  have "refs_ok N f a" for a
  proof (cases "a = i")
    case False
    then have "refs_ok N f a = refs_ok N e a"
      using pc refs listed_same [OF pc held lists] by (intro refs_ok_cong) auto
    then show ?thesis using inv by (simp add: inv_refs_def)
  qed (simp add: mine)
  then show ?thesis using inv pc i ne by (auto simp: inv_refs_def)
qed

lemma inv_refs_goto:
  assumes inv: "inv_refs N e" and i: "i < N" and held: "held_list p = held_list (pc e i)"
    and same: "waits p = waits (pc e i)" "pc e i \<noteq> Suspended" "p \<noteq> Suspended"
      "pc e i \<noteq> Await_push" "p \<noteq> Await_push" "\<forall>w. p \<noteq> Resume_list [] w"
  shows "inv_refs N (goto (e\<lparr>m_state := x\<rparr>) i p)"
proof -
  let ?f = "goto (e\<lparr>m_state := x\<rparr>) i p"
  have "listed N ?f i = listed N e i" using held by (intro listed_same [where i = i and p = p]) auto
  then have "refs_ok N ?f i" using inv_refs_refs [OF inv, of i] same by (auto simp: refs_ok_def)
  then show ?thesis
    by (intro inv_refs_local [OF inv i, where p = p]) (use held same in auto)
qed

lemma inv_refs_begin_wait:
  assumes inv: "inv_refs N e" and i: "i < N" and pc: "pc e i = Idle \<or> (\<exists>old. pc e i = Await_cas old)"
  shows "inv_refs N (begin_wait e i)"
proof -
  have "listed N (begin_wait e i) i = listed N e i"
    using pc by (intro listed_same [where i = i and p = Await_push]) (auto simp: begin_wait_def)
  moreover have "listed N e i = 0" using inv_refs_refs [OF inv, of i] pc by (auto simp: refs_ok_def)
  ultimately have "refs_ok N (begin_wait e i) i" by (simp add: refs_ok_def begin_wait_def)
  then show ?thesis
    by (intro inv_refs_local [OF inv i, where p = Await_push]) (use pc in \<open>auto simp: begin_wait_def\<close>)
qed

lemma inv_refs_await_push:
  assumes inv: "inv_refs N e" and pc: "pc e i = Await_push"
  shows "inv_refs N (await_push e i)"
proof -
  have i: "i < N" using inv_refs_process [OF inv, of i] pc by simp
  have l: "listed N (await_push e i) a = listed N e a + (if a = i then 1 else 0)" for a
    using listed_upd [OF i, of "await_push e i" e Await_add a] pc by (auto simp: await_push_def)
  have "refs_ok N (await_push e i) a" for a
    using inv_refs_refs [OF inv, of a] pc l [of a] by (auto simp: refs_ok_def await_push_def)
  then show ?thesis using inv i by (auto simp: inv_refs_def await_push_def)
qed

lemma inv_refs_await_release:
  assumes inv: "inv_refs N e" and pc: "pc e i = Await_release"
  shows "inv_refs N (await_release e i)"
proof -
  have i: "i < N" using inv_refs_process [OF inv, of i] pc by simp
  have "listed N (await_release e i) i = listed N e i"
    using pc by (intro listed_same [where i = i and p = "pc (await_release e i) i"])
      (auto simp: await_release_def)
  moreover have "refs_ok N e i" using inv by (simp add: inv_refs_def)
  then have "listed N e i = 0 \<and> m_ref_count e i = 1 \<or> listed N e i = 1 \<and> m_ref_count e i = 2"
    using pc by (cases "listed N e i") (auto simp: refs_ok_def)
  ultimately have "refs_ok N (await_release e i) i" by (auto simp: refs_ok_def await_release_def)
  then show ?thesis
    by (intro inv_refs_local [OF inv i, where p = "pc (await_release e i) i"])
      (use pc in \<open>auto simp: await_release_def\<close>)
qed

lemma count_list_rev [simp]: "count_list (rev xs) a = count_list xs a"
  by (induction xs) auto

lemma take_waiter_moves:
  assumes "take_waiter e = Some (f, a)"
  shows "count_list (m_new_waiters e) b + count_list (m_waiters e) b
      = count_list (m_new_waiters f) b + count_list (m_waiters f) b + (if a = b then 1 else 0)"
    and "pc f = pc e" "m_ref_count f = m_ref_count e" "m_state f = m_state e"
    and "length (m_new_waiters e) + length (m_waiters e)
      = Suc (length (m_new_waiters f) + length (m_waiters f))"
proof -
  define ws where "ws = (if m_waiters e = [] then rev (m_new_waiters e) else m_waiters e)"
  from assms have "ws \<noteq> []" "a = hd ws" and
    f: "f = e\<lparr>m_waiters := tl ws, m_new_waiters := (if m_waiters e = [] then [] else m_new_waiters e)\<rparr>"
    by (auto simp: take_waiter_def Let_def ws_def split: if_splits)
  then have ws: "ws = a # m_waiters f" by (cases ws) (auto simp: f)
  have c: "count_list ws b = count_list (m_waiters f) b + (if a = b then 1 else 0)" using ws by simp
  have l: "length ws = Suc (length (m_waiters f))" using ws by simp
  show "count_list (m_new_waiters e) b + count_list (m_waiters e) b
      = count_list (m_new_waiters f) b + count_list (m_waiters f) b + (if a = b then 1 else 0)"
    using c by (auto simp: f ws_def split: if_splits)
  show "pc f = pc e" "m_ref_count f = m_ref_count e" "m_state f = m_state e" by (simp_all add: f)
  show "length (m_new_waiters e) + length (m_waiters e)
      = Suc (length (m_new_waiters f) + length (m_waiters f))"
    using l by (auto simp: f ws_def split: if_splits)
qed

lemma inv_refs_resume_take:
  assumes inv: "inv_refs N e" and pc: "pc e i = Resume_take n k rl w"
    and run: "resume_take e i n k rl w = Some f"
  shows "inv_refs N f"
proof -
  have i: "i < N" using inv_refs_process [OF inv, of i] pc by simp
  from run obtain e' a where t: "take_waiter e = Some (e', a)" and
    f: "f = goto e' i (Resume_take n (Suc k) (rl @ [a]) w)"
    by (auto simp: resume_take_def)
  note m = take_waiter_moves [OF t]
  have "listed N f b = listed N e b" for b
    using listed_upd [OF i, of f e "Resume_take n (Suc k) (rl @ [a]) w" b] m(1) [of b] pc
    by (cases "a = b") (auto simp: f m(2,3))
  then have "refs_ok N f b" for b
    using inv_refs_refs [OF inv, of b] pc by (cases "b = i") (auto simp: refs_ok_def f m)
  then show ?thesis using inv i by (auto simp: inv_refs_def f m)
qed

lemma inv_refs_resume_next:
  assumes inv: "inv_refs N e" and pc: "pc e i = Resume_list (a # rl) w"
  shows "inv_refs N (resume_next e i a rl w)"
proof -
  have i: "i < N" using inv_refs_process [OF inv, of i] pc by simp
  let ?f = "resume_next e i a rl w"
  let ?p = "if rl = [] then (if w then Await_release else Idle) else Resume_list rl w"
  let ?e2 = "if m_ref_count e a = 1 then goto e a Idle else e"
  have "1 \<le> count_list (held_list (pc e i)) a" using pc by simp
  also have "\<dots> \<le> listed N e a"
    using sum_process_le [OF i, of "\<lambda>p. count_list (held_list p) a" "pc e"] by (simp add: listed_def)
  finally have la: "1 \<le> listed N e a" .
  have oka: "refs_ok N e a" using inv by (simp add: inv_refs_def)
  then have wa: "waits (pc e a)" "listed N e a = 1" "pc e a \<noteq> Await_push"
    using la by (auto simp: refs_ok_def split: if_splits)
  then have ra: "m_ref_count e a = (if pc e a = Suspended then 1 else 2)"
    using oka by (simp add: refs_ok_def)
  then have susp: "m_ref_count e a = 1 \<longleftrightarrow> pc e a = Suspended" by simp
  have e2: "listed N ?e2 b = listed N e b" for b
    using susp by (auto intro!: listed_same [where i = a and p = Idle])
  have pcf: "pc ?f = (pc ?e2)(i := ?p)" by (auto simp: resume_next_def Let_def)
  have e2i: "held_list (pc ?e2 i) = a # rl" using pc susp by (auto simp: fun_upd_def)
  have heldp: "held_list ?p = rl" by simp
  have lists: "m_new_waiters ?f = m_new_waiters ?e2" "m_waiters ?f = m_waiters ?e2"
    by (auto simp: resume_next_def Let_def)
  have l: "listed N ?f b = listed N e b - (if a = b then 1 else 0)" for b
    using listed_upd [OF i pcf, of b] unfolding heldp lists e2 e2i by (cases "a = b") simp_all
  have "refs_ok N ?f b" for b
    using inv_refs_refs [OF inv, of b] pc l [of b] wa ra susp
    by (auto simp: refs_ok_def resume_next_def Let_def)
  moreover have "\<forall>j\<ge>N. pc ?f j = Idle" using inv i by (auto simp: inv_refs_def resume_next_def Let_def)
  moreover have "\<forall>j w. pc ?f j \<noteq> Resume_list [] w" using inv by (auto simp: inv_refs_def resume_next_def Let_def)
  ultimately show ?thesis by (simp add: inv_refs_def)
qed

section \<open>The packed word\<close>

definition pack :: "nat \<Rightarrow> nat \<Rightarrow> u64" where
  "pack s w = of_nat (s + w * 2 ^ 32)"

lemma unat_pack:
  assumes "s < 2 ^ 32" "w < 2 ^ 32"
  shows "unat (pack s w) = s + w * 2 ^ 32"
  unfolding pack_def using assms by (subst unat_of_nat) (rule mod_less, simp)

lemma pack_counts:
  assumes "s < 2 ^ 32" "w < 2 ^ 32"
  shows "unat (set_count (pack s w)) = s" and "unat (waiter_count (pack s w)) = w"
proof -
  have "unat (ucast x :: u32) = unat x mod 2 ^ 32" for x :: u64
    by (simp add: unsigned_ucast_eq take_bit_eq_mod)
  moreover have "unat (drop_bit 32 (pack s w)) = w"
    using assms by (simp add: drop_bit_eq_div unat_div_distrib unat_pack)
  ultimately show "unat (set_count (pack s w)) = s" "unat (waiter_count (pack s w)) = w"
    using assms by (simp_all add: set_count_def waiter_count_def unat_pack)
qed

lemma pack_add: "pack a b + pack c d = pack (a + c) (b + d)"
  by (simp add: pack_def algebra_simps)

lemma pack_one: "1 = pack 1 0" "waiter_increment = pack 0 1"
  by (simp_all add: pack_def waiter_increment_def push_bit_eq_mult)

lemma pack_eq_0: "s < 2 ^ 32 \<Longrightarrow> w < 2 ^ 32 \<Longrightarrow> pack s w = 0 \<longleftrightarrow> s = 0 \<and> w = 0"
  using unat_pack [of s w] by (metis add_is_0 mult_is_0 of_nat_0 pack_def power_eq_0_iff unat_0 zero_neq_numeral)

lemma resume_delta_pack: "resume_delta n = pack (unat n) (unat n)"
proof -
  have "(ucast n :: u64) AND push_bit 32 (ucast n) = 0"
    by (rule bit_word_eqI) (auto simp: bit_simps dest: bit_imp_le_length)
  then have "resume_delta n = ucast n + push_bit 32 (ucast n)"
    by (simp add: resume_delta_def disjunctive_add_eq_or)
  also have "\<dots> = pack (unat n) (unat n)"
    by (simp add: pack_def push_bit_eq_mult algebra_simps)
  finally show ?thesis .
qed

section \<open>The counts\<close>

fun active :: "event_pc \<Rightarrow> nat" where
  "active (Resume_take _ _ _ _) = 1"
| "active _ = 0"

fun taken :: "event_pc \<Rightarrow> nat" where
  "taken (Resume_take _ k _ _) = k"
| "taken _ = 0"

fun adding :: "event_pc \<Rightarrow> nat" where
  "adding Await_add = 1"
| "adding _ = 0"

text \<open>What a process remembers of the word is still of use.\<close>

fun local_ok :: "nat \<Rightarrow> nat \<Rightarrow> event_pc \<Rightarrow> bool" where
  "local_ok S W (Resume_take n k rl w) =
     (k \<le> unat n \<and> 0 < unat n \<and> unat n \<le> S \<and> unat n \<le> W \<and> k \<le> length rl)"
| "local_ok S W (Await_cas old) = (set_count old > waiter_count old)"
| "local_ok S W (Reset_cas old) = (set_count old > waiter_count old)"
| "local_ok S W (Set_cas old) = (\<not> set_count old > waiter_count old)"
| "local_ok S W _ = True"

definition total :: "(event_pc \<Rightarrow> nat) \<Rightarrow> nat \<Rightarrow> event \<Rightarrow> nat" where
  "total weight N e = (\<Sum>i<N. weight (pc e i))"

definition inv_count :: "nat \<Rightarrow> event \<Rightarrow> nat \<Rightarrow> nat \<Rightarrow> bool" where
  "inv_count N e S W \<longleftrightarrow> m_state e = pack S W \<and> S \<le> W + 1 \<and> W \<le> N \<and>
     total active N e = (if 0 < S \<and> 0 < W then 1 else 0) \<and>
     (\<forall>i. local_ok S W (pc e i)) \<and>
     length (m_new_waiters e) + length (m_waiters e) + total taken N e = W + total adding N e"

lemma total_upd:
  "i < N \<Longrightarrow> pc f = (pc e)(i := p) \<Longrightarrow>
   total weight N f + weight (pc e i) = total weight N e + weight p"
  using sum_upd_process [of i N weight "pc e" p] by (simp add: total_def)

lemma total_ge: "i < N \<Longrightarrow> weight (pc e i) \<le> total weight N e"
  unfolding total_def by (rule sum_process_le)

lemma local_ok_mono: "local_ok S W p \<Longrightarrow> S \<le> S' \<Longrightarrow> W \<le> W' \<Longrightarrow> local_ok S' W' p"
  by (cases p) auto

lemma lists_bounded:
  assumes "inv_refs N e"
  shows "length (m_new_waiters e) + length (m_waiters e) + total (\<lambda>p. length (held_list p)) N e \<le> N"
proof -
  have le: "listed N e a \<le> 1" for a using inv_refs_refs [OF assms, of a] by (auto simp: refs_ok_def split: if_splits)
  have zero: "listed N e a = 0" if "a \<ge> N" for a
    using that assms inv_refs_refs [OF assms, of a] by (auto simp: inv_refs_def refs_ok_def)
  have sub: "set xs \<subseteq> {..<N}" if "\<And>a. count_list xs a \<le> listed N e a" for xs
  proof
    fix a assume "a \<in> set xs"
    then have "count_list xs a \<noteq> 0" by (simp add: count_list_0_iff)
    then have "listed N e a \<noteq> 0" using that [of a] by linarith
    then show "a \<in> {..<N}" using zero [of a] by (cases "a < N") auto
  qed
  have held: "set (held_list (pc e i)) \<subseteq> {..<N}" if "i < N" for i
    using sum_process_le [OF that, of "\<lambda>p. count_list (held_list p) _" "pc e"]
    by (intro sub) (simp add: listed_def trans_le_add2)
  have "(\<Sum>a<N. listed N e a) = (\<Sum>a<N. count_list (m_new_waiters e) a) + (\<Sum>a<N. count_list (m_waiters e) a)
      + (\<Sum>i<N. \<Sum>a<N. count_list (held_list (pc e i)) a)"
    unfolding listed_def sum.distrib by (subst sum.swap) simp
  also have "\<dots> = length (m_new_waiters e) + length (m_waiters e) + total (\<lambda>p. length (held_list p)) N e"
    unfolding total_def using sub [of "m_new_waiters e"] sub [of "m_waiters e"] held
    by (simp add: sum_count_set listed_def)
  finally show ?thesis using sum_mono [of "{..<N}" "listed N e" "\<lambda>_. 1"] le by simp
qed

lemma waiters_bounded:
  assumes "inv_refs N e" "inv_count N e S W"
  shows "W + total adding N e \<le> N"
proof -
  have "taken (pc e i) \<le> length (held_list (pc e i))" for i
  proof -
    have "local_ok S W (pc e i)" using assms(2) by (simp add: inv_count_def)
    then show ?thesis by (cases "pc e i") auto
  qed
  then have "total taken N e \<le> total (\<lambda>p. length (held_list p)) N e"
    unfolding total_def by (intro sum_mono)
  with lists_bounded [OF assms(1)] assms(2) show ?thesis by (simp add: inv_count_def)
qed

lemma only_resumer:
  assumes "inv_count N e S W" "i < N" "pc e i = Resume_take n k rl w"
  shows "0 < S" "0 < W" "total active N e = 1" "total taken N e = k"
    and "\<And>j. j < N \<Longrightarrow> j \<noteq> i \<Longrightarrow> active (pc e j) = 0"
proof -
  have one: "1 \<le> total active N e" using total_ge [OF assms(2), of active e] assms(3) by simp
  then show SW: "0 < S" "0 < W" "total active N e = 1"
    using assms(1) by (auto simp: inv_count_def split: if_splits)
  have i: "i \<in> {..<N}" "finite {..<N}" using assms(2) by auto
  have "total active N e = active (pc e i) + (\<Sum>j\<in>{..<N} - {i}. active (pc e j))"
    unfolding total_def using i by (simp add: sum.remove)
  then have "(\<Sum>j\<in>{..<N} - {i}. active (pc e j)) = 0" using SW(3) assms(3) by simp
  then have others: "active (pc e j) = 0" if "j \<in> {..<N} - {i}" for j using that by simp
  then show "\<And>j. j < N \<Longrightarrow> j \<noteq> i \<Longrightarrow> active (pc e j) = 0" by simp
  note others
  moreover have "active p = 0 \<Longrightarrow> taken p = 0" for p by (cases p) auto
  ultimately have "(\<Sum>j\<in>{..<N} - {i}. taken (pc e j)) = 0" by simp
  then show "total taken N e = k"
    unfolding total_def using i assms(3) by (simp add: sum.remove)
qed

lemma waiter_available:
  assumes "inv_count N e S W" "i < N" "pc e i = Resume_take n k rl w" "k < unat n"
  shows "\<exists>f a. take_waiter e = Some (f, a)"
proof -
  have "local_ok S W (pc e i)" using assms(1) by (simp add: inv_count_def)
  then have "k < W" using assms(3,4) by simp
  then have "0 < length (m_new_waiters e) + length (m_waiters e)"
    using assms(1) only_resumer(4) [OF assms(1,2,3)] unfolding inv_count_def by linarith
  then show ?thesis by (auto simp: take_waiter_def Let_def)
qed

text \<open>A move that is silent for the counts.\<close>

fun quiet :: "event_pc \<Rightarrow> bool" where
  "quiet (Resume_take _ _ _ _) = False"
| "quiet Await_add = False"
| "quiet _ = True"

lemma quiet_weights: "quiet p \<Longrightarrow> active p = 0 \<and> taken p = 0 \<and> adding p = 0"
  by (cases p) auto

lemma count_bounds:
  assumes "inv_count N e S W" "N < 2 ^ 31"
  shows "S < 2 ^ 32" "W < 2 ^ 32" "S + 1 < 2 ^ 32" "W + 1 < 2 ^ 32"
    and "unat (set_count (m_state e)) = S" "unat (waiter_count (m_state e)) = W"
    and "set_count (m_state e) > waiter_count (m_state e) \<longleftrightarrow> S > W"
    and "m_state e \<noteq> 0 \<longleftrightarrow> S > 0 \<or> W > 0"
    and "set_count (m_state e) = 0 \<longleftrightarrow> S = 0" "waiter_count (m_state e) = 0 \<longleftrightarrow> W = 0"
proof -
  show b: "S < 2 ^ 32" "W < 2 ^ 32" "S + 1 < 2 ^ 32" "W + 1 < 2 ^ 32"
    using assms by (auto simp: inv_count_def)
  have st: "m_state e = pack S W" using assms by (simp add: inv_count_def)
  show c: "unat (set_count (m_state e)) = S" "unat (waiter_count (m_state e)) = W"
    using pack_counts [OF b(1,2)] by (simp_all add: st)
  show "set_count (m_state e) > waiter_count (m_state e) \<longleftrightarrow> S > W" by (simp add: word_less_nat_alt c)
  show "m_state e \<noteq> 0 \<longleftrightarrow> S > 0 \<or> W > 0" using pack_eq_0 [OF b(1,2)] by (auto simp: st)
  show "set_count (m_state e) = 0 \<longleftrightarrow> S = 0" "waiter_count (m_state e) = 0 \<longleftrightarrow> W = 0"
    using c by (metis unat_0 unat_eq_zero)+
qed

lemma count_quiet:
  assumes inv: "inv_count N e S W" and i: "i < N" and pc: "pc f = (pc e)(i := p)"
    and q: "quiet p" "quiet (pc e i)" "local_ok S W p"
    and same: "m_state f = m_state e"
      "length (m_new_waiters f) + length (m_waiters f) = length (m_new_waiters e) + length (m_waiters e)"
  shows "inv_count N f S W"
proof -
  have "total active N f = total active N e" "total taken N f = total taken N e"
    "total adding N f = total adding N e"
    using total_upd [OF i pc, of active] total_upd [OF i pc, of taken] total_upd [OF i pc, of adding]
      quiet_weights [OF q(1)] quiet_weights [OF q(2)] by simp_all
  with inv pc q(3) same show ?thesis by (simp add: inv_count_def)
qed

lemma count_set_state:
  assumes inv: "inv_count N e S W" and i: "i < N" and pc: "pc f = (pc e)(i := p)"
    and q: "quiet (pc e i)" "adding p = 0" "taken p = 0"
    and st: "m_state f = pack S' W" and lists: "m_new_waiters f = m_new_waiters e" "m_waiters f = m_waiters e"
    and le: "S' \<le> W + 1" and ok: "local_ok S' W p" "\<forall>j. local_ok S' W (pc e j)"
    and act: "(if 0 < S \<and> 0 < W then 1 else 0) + active p = (if 0 < S' \<and> 0 < W then 1 else 0)"
  shows "inv_count N f S' W"
proof -
  have "total active N f = total active N e + active p" "total taken N f = total taken N e"
    "total adding N f = total adding N e"
    using total_upd [OF i pc, of active] total_upd [OF i pc, of taken] total_upd [OF i pc, of adding]
      quiet_weights [OF q(1)] q(2,3) by simp_all
  with inv pc ok le st lists act show ?thesis by (simp add: inv_count_def)
qed

lemma count_decrement:
  assumes inv: "inv_count N e S W" and S: "S = W + 1" and i: "i < N" and q: "quiet (pc e i)" "quiet p"
    and ok: "local_ok W W p"
  shows "inv_count N (goto (e\<lparr>m_state := m_state e - 1\<rparr>) i p) W W"
proof -
  let ?f = "goto (e\<lparr>m_state := m_state e - 1\<rparr>) i p"
  have "pack W W + 1 = pack S W" by (simp add: pack_one(1) pack_add S)
  then have "m_state e - 1 = pack W W" using inv by (metis add_diff_cancel_right' inv_count_def)
  then have st: "m_state ?f = pack W W" by simp
  have "local_ok W W (pc e j)" for j
  proof -
    have "local_ok S W (pc e j)" using inv by (simp add: inv_count_def)
    then show ?thesis using S by (cases "pc e j") auto
  qed
  then show ?thesis
    using S q quiet_weights [OF q(2)] ok
    by (intro count_set_state [OF inv i _ _ _ _ st, where p = p]) auto
qed

lemma count_await_cas:
  assumes inv: "inv_count N e S W" and i: "i < N" and pc: "pc e i = Await_cas old" and N: "N < 2 ^ 31"
  shows "\<exists>S'. inv_count N (await_cas e i old) S' W"
proof (cases "m_state e = old")
  case True
  have "local_ok S W (pc e i)" using inv by (simp add: inv_count_def)
  then have "S > W" using count_bounds(7) [OF inv N] pc True by simp
  then have S: "S = W + 1" using inv by (simp add: inv_count_def)
  from count_decrement [OF inv S i, of Idle] pc True show ?thesis by (auto simp: await_cas_def)
next
  case False
  then have "inv_count N (await_cas e i old) S W"
    using pc by (intro count_quiet [OF inv i, where p = Await_push]) (auto simp: await_cas_def begin_wait_def)
  then show ?thesis by blast
qed

lemma count_set_check:
  assumes inv: "inv_count N e S W" and i: "i < N" and pc: "pc e i = Idle \<or> (\<exists>old. pc e i = Set_cas old)"
  shows "inv_count N (set_check e i) S W"
proof -
  have "local_ok S W (pc (set_check e i) i)" by (simp add: set_check_def Let_def)
  then show ?thesis
    using pc by (intro count_quiet [OF inv i, where p = "pc (set_check e i) i"])
      (auto simp: set_check_def Let_def)
qed

lemma count_set_cas:
  assumes inv: "inv_count N e S W" and i: "i < N" and pc: "pc e i = Set_cas old" and N: "N < 2 ^ 31"
  shows "\<exists>S'. inv_count N (set_cas e i old spurious) S' W"
proof (cases "m_state e = old \<and> \<not> spurious")
  case True
  have "local_ok S W (pc e i)" using inv by (simp add: inv_count_def)
  then have S: "S \<le> W" using count_bounds(7) [OF inv N] pc True by simp
  have st: "m_state e = pack S W" using inv by (simp add: inv_count_def)
  have st': "m_state e + 1 = pack (S + 1) W" by (simp add: st pack_one(1) pack_add)
  let ?p = "if old \<noteq> 0 \<and> set_count old = 0 then enter_resume (old + 1) False else Idle"
  have enter: "old \<noteq> 0 \<and> set_count old = 0 \<longleftrightarrow> S = 0 \<and> 0 < W"
    using count_bounds(8,9) [OF inv N] True by auto
  have n: "unat (min (set_count (old + 1)) (waiter_count (old + 1))) = min (S + 1) W"
    using pack_counts [of "S + 1" W] count_bounds(2,3) [OF inv N] True st'
    by (auto simp: min_def word_le_nat_alt)
  have "local_ok (S + 1) W (pc e j)" for j
    using inv local_ok_mono [of S W "pc e j" "S + 1" W] by (simp add: inv_count_def)
  then have "inv_count N (set_cas e i old spurious) (S + 1) W"
    using S pc True enter n st'
    by (intro count_set_state [OF inv i, where p = ?p]) (auto simp: set_cas_def enter_resume_def)
  then show ?thesis by blast
next
  case False
  then show ?thesis using count_set_check [OF inv i] pc by (auto simp: set_cas_def)
qed

lemma count_reset_check:
  assumes inv: "inv_count N e S W" and i: "i < N" and pc: "pc e i = Idle"
  shows "inv_count N (reset_check e i) S W"
proof -
  have "local_ok S W (pc (reset_check e i) i)" by (simp add: reset_check_def Let_def)
  then show ?thesis
    using pc by (intro count_quiet [OF inv i, where p = "pc (reset_check e i) i"])
      (auto simp: reset_check_def Let_def)
qed

text \<open>A successful exchange of \<open>reset\<close> does to the counts what one of \<open>operator co_await\<close> does.\<close>

lemma count_reset_cas:
  assumes inv: "inv_count N e S W" and i: "i < N" and pc: "pc e i = Reset_cas old"
    and fresh: "set_count (m_state e) > waiter_count (m_state e)" and N: "N < 2 ^ 31"
  shows "\<exists>S'. inv_count N (reset_cas e i old spurious) S' W"
proof (cases "m_state e = old \<and> \<not> spurious")
  case True
  have S: "S = W + 1" using inv count_bounds(7) [OF inv N] fresh by (simp add: inv_count_def)
  from count_decrement [OF inv S i, of Idle] pc True show ?thesis by (auto simp: reset_cas_def)
next
  case False
  then have "inv_count N (reset_cas e i old spurious) S W"
    using pc fresh
    by (intro count_quiet [OF inv i, where p = "Reset_cas (m_state e)"]) (auto simp: reset_cas_def)
  then show ?thesis by blast
qed

lemma count_await_push:
  assumes inv: "inv_count N e S W" and i: "i < N" and pc: "pc e i = Await_push"
  shows "inv_count N (await_push e i) S W"
proof -
  have f: "pc (await_push e i) = (pc e)(i := Await_add)" by (simp add: await_push_def)
  have "total active N (await_push e i) = total active N e"
    "total taken N (await_push e i) = total taken N e"
    "total adding N (await_push e i) = Suc (total adding N e)"
    using total_upd [OF i f, of active] total_upd [OF i f, of taken] total_upd [OF i f, of adding] pc
    by simp_all
  then show ?thesis using inv by (simp add: inv_count_def await_push_def)
qed

lemma count_await_add:
  assumes inv: "inv_count N e S W" and refs: "inv_refs N e" and i: "i < N"
    and pc: "pc e i = Await_add" and N: "N < 2 ^ 31"
  shows "inv_count N (await_add e i) S (W + 1)"
proof -
  let ?old = "m_state e" and ?f = "await_add e i"
  let ?p = "if ?old \<noteq> 0 \<and> waiter_count ?old = 0 then enter_resume (?old + waiter_increment) True
    else Await_release"
  have st: "?old = pack S W" using inv by (simp add: inv_count_def)
  have st': "?old + waiter_increment = pack S (W + 1)" by (simp add: st pack_one(2) pack_add)
  have enter: "?old \<noteq> 0 \<and> waiter_count ?old = 0 \<longleftrightarrow> 0 < S \<and> W = 0"
    using count_bounds(8,10) [OF inv N] by auto
  have n: "unat (min (set_count (?old + waiter_increment)) (waiter_count (?old + waiter_increment)))
      = min S (W + 1)"
    using pack_counts [of S "W + 1"] count_bounds(1,4) [OF inv N]
    by (auto simp: st' min_def word_le_nat_alt)
  have f: "pc ?f = (pc e)(i := ?p)" by (simp add: await_add_def Let_def)
  have "total active N ?f = total active N e + active ?p" "total taken N ?f = total taken N e"
    "Suc (total adding N ?f) = total adding N e"
    using total_upd [OF i f, of active] total_upd [OF i f, of taken] total_upd [OF i f, of adding] pc
    by (auto simp: enter_resume_def split: if_splits)
  moreover have "active ?p = (if 0 < S \<and> W = 0 then 1 else 0)" using enter by (simp add: enter_resume_def)
  moreover have "local_ok S (W + 1) ?p" using n enter by (auto simp: enter_resume_def)
  moreover have "local_ok S (W + 1) (pc e j)" for j
    using inv local_ok_mono [of S W "pc e j" S "W + 1"] by (simp add: inv_count_def)
  moreover have "W + 1 \<le> N"
    using waiters_bounded [OF refs inv] total_ge [OF i, of adding e] pc by simp
  moreover have "m_state ?f = pack S (W + 1)" using st' by (simp add: await_add_def Let_def)
  moreover have "m_new_waiters ?f = m_new_waiters e" "m_waiters ?f = m_waiters e"
    by (simp_all add: await_add_def Let_def)
  ultimately show ?thesis using inv f by (auto simp: inv_count_def)
qed

lemma count_resume_take:
  assumes inv: "inv_count N e S W" and i: "i < N" and pc: "pc e i = Resume_take n k rl w"
    and k: "k < unat n" and run: "resume_take e i n k rl w = Some f"
  shows "inv_count N f S W"
proof -
  from run obtain e' a where t: "take_waiter e = Some (e', a)" and
    f: "f = goto e' i (Resume_take n (Suc k) (rl @ [a]) w)" by (auto simp: resume_take_def)
  note m = take_waiter_moves [OF t]
  have pcf: "pc f = (pc e)(i := Resume_take n (Suc k) (rl @ [a]) w)" by (simp add: f m)
  have "total active N f = total active N e" "total taken N f = Suc (total taken N e)"
    "total adding N f = total adding N e"
    using total_upd [OF i pcf, of active] total_upd [OF i pcf, of taken] total_upd [OF i pcf, of adding] pc
    by simp_all
  moreover have "local_ok S W (pc e i)" using inv by (simp add: inv_count_def)
  then have "local_ok S W (Resume_take n (Suc k) (rl @ [a]) w)" using pc k by simp
  ultimately show ?thesis using inv m(5) pcf by (simp add: inv_count_def f m(4))
qed

lemma count_resume_subtract:
  assumes inv: "inv_count N e S W" and refs: "inv_refs N e" and i: "i < N"
    and pc: "pc e i = Resume_take n (unat n) rl w" and N: "N < 2 ^ 31"
  shows "inv_count N (resume_subtract e i n rl w) (S - unat n) (W - unat n)"
proof -
  let ?f = "resume_subtract e i n rl w" and ?S = "S - unat n" and ?W = "W - unat n"
  let ?new = "m_state e - resume_delta n"
  let ?n = "min (set_count ?new) (waiter_count ?new)"
  let ?p = "if ?n > 0 then Resume_take ?n 0 rl w else Resume_list rl w"
  have ok: "unat n \<le> S" "unat n \<le> W" "0 < unat n"
    using inv pc by (auto simp: inv_count_def dest!: spec [of _ i])
  have "pack ?S ?W + resume_delta n = m_state e"
    using inv ok by (simp add: resume_delta_pack pack_add inv_count_def)
  then have st: "?new = pack ?S ?W" by (metis add_diff_cancel_right')
  have b: "?S < 2 ^ 32" "?W < 2 ^ 32" using count_bounds(1,2) [OF inv N] by auto
  have n: "unat ?n = min ?S ?W" using pack_counts [OF b] by (auto simp: st min_def word_le_nat_alt)
  have "?n > 0 \<longleftrightarrow> 0 < unat ?n" by (simp only: word_less_nat_alt unsigned_0)
  then have pos: "?n > 0 \<longleftrightarrow> 0 < ?S \<and> 0 < ?W" unfolding n by simp
  have f: "pc ?f = (pc e)(i := ?p)" by (simp add: resume_subtract_def Let_def)
  note one = only_resumer [OF inv i pc]
  have "total active N ?f = active ?p" "total taken N ?f = 0" "total adding N ?f = total adding N e"
    using total_upd [OF i f, of active] total_upd [OF i f, of taken] total_upd [OF i f, of adding] pc one
    by (auto split: if_splits)
  moreover have "active ?p = (if 0 < ?S \<and> 0 < ?W then 1 else 0)" using pos by simp
  moreover have "local_ok ?S ?W (pc ?f j)" for j
  proof (cases "j = i")
    case True
    then show ?thesis using f n pos by auto
  next
    case False
    have "active (pc e j) = 0"
      using one(5) [of j] False refs by (cases "j < N") (auto simp: inv_refs_def)
    moreover have "local_ok S W (pc e j)" using inv by (simp add: inv_count_def)
    ultimately show ?thesis using f False by (cases "pc e j") auto
  qed
  moreover have "length (m_new_waiters e) + length (m_waiters e) + unat n = W + total adding N e"
    using inv one(4) by (simp add: inv_count_def)
  moreover have "m_state ?f = pack ?S ?W" using st by (simp add: resume_subtract_def Let_def)
  moreover have "m_new_waiters ?f = m_new_waiters e" "m_waiters ?f = m_waiters e"
    by (simp_all add: resume_subtract_def Let_def)
  moreover have "?S \<le> ?W + 1" "?W \<le> N" using inv ok by (auto simp: inv_count_def)
  ultimately show ?thesis using ok by (simp add: inv_count_def)
qed

lemma inv_refs_resume_subtract:
  assumes inv: "inv_refs N e" and cnt: "inv_count N e S W"
    and pc: "pc e i = Resume_take n (unat n) rl w"
  shows "inv_refs N (resume_subtract e i n rl w)"
proof -
  have i: "i < N" using inv_refs_process [OF inv, of i] pc by simp
  have "local_ok S W (pc e i)" using cnt by (simp add: inv_count_def)
  then have "rl \<noteq> []" using pc by auto
  then show ?thesis
    unfolding resume_subtract_def Let_def using pc by (intro inv_refs_goto [OF inv i]) auto
qed

lemma count_resume_next:
  assumes inv: "inv_count N e S W" and refs: "inv_refs N e" and i: "i < N"
    and pc: "pc e i = Resume_list (a # rl) w"
  shows "inv_count N (resume_next e i a rl w) S W"
proof -
  let ?e1 = "e\<lparr>m_ref_count := (m_ref_count e)(a := m_ref_count e a - 1)\<rparr>"
  let ?e2 = "if m_ref_count e a = 1 then goto ?e1 a Idle else ?e1"
  let ?p = "if rl = [] then (if w then Await_release else Idle) else Resume_list rl w"
  have "1 \<le> count_list (held_list (pc e i)) a" using pc by simp
  also have "\<dots> \<le> listed N e a"
    using sum_process_le [OF i, of "\<lambda>p. count_list (held_list p) a" "pc e"] by (simp add: listed_def)
  finally have la: "1 \<le> listed N e a" .
  then have wa: "waits (pc e a)" and ra: "m_ref_count e a = 1 \<longleftrightarrow> pc e a = Suspended"
    using inv_refs_refs [OF refs, of a] by (auto simp: refs_ok_def split: if_splits)
  have a: "a < N" using inv_refs_process [OF refs, of a] wa by (cases "pc e a") auto
  have "inv_count N ?e1 S W" using inv by (simp add: inv_count_def total_def)
  then have e2: "inv_count N ?e2 S W"
    using ra by (auto intro!: count_quiet [OF _ a, of ?e1 S W _ Idle])
  have "inv_count N (goto ?e2 i ?p) S W"
    by (rule count_quiet [OF e2 i, where p = ?p]) (use pc ra in auto)
  then show ?thesis by (simp add: resume_next_def Let_def)
qed

section \<open>The invariant holds in every reachable state\<close>

definition event_inv :: "nat \<Rightarrow> event \<Rightarrow> bool" where
  "event_inv N e \<longleftrightarrow> inv_refs N e \<and> (\<exists>S W. inv_count N e S W)"

lemma event_inv_init: "event_init b e \<Longrightarrow> event_inv N e"
proof -
  assume init: "event_init b e"
  then have "refs_ok N e a" for a by (simp add: event_init_def refs_ok_def listed_def)
  then have "inv_refs N e" using init by (simp add: inv_refs_def event_init_def)
  moreover have "m_state e = pack (if b then 1 else 0) 0" using init by (simp add: event_init_def pack_def)
  then have "inv_count N e (if b then 1 else 0) 0"
    using init by (auto simp: inv_count_def event_init_def total_def)
  ultimately show ?thesis unfolding event_inv_def by blast
qed

lemma event_inv_step:
  assumes N: "N < 2 ^ 31" and inv: "event_inv N e" and step: "event_step N False e f"
  shows "event_inv N f"
proof -
  from inv obtain S W where refs: "inv_refs N e" and cnt: "inv_count N e S W"
    by (auto simp: event_inv_def)
  have lt: "i < N" if "pc e i \<noteq> Idle" for i using inv_refs_process [OF refs that] .
  from step show ?thesis
  proof cases
    case (ev_await_start i)
    let ?p = "if set_count (m_state e) > waiter_count (m_state e) then Await_cas (m_state e) else Await_push"
    have "inv_refs N f"
      using ev_await_start refs inv_refs_goto [OF refs, of i "Await_cas (m_state e)" "m_state e"]
        inv_refs_begin_wait [OF refs] by (auto simp: await_start_def Let_def)
    moreover have "inv_count N f S W"
      using ev_await_start
      by (intro count_quiet [OF cnt, where i = i and p = ?p]) (auto simp: await_start_def Let_def begin_wait_def)
    ultimately show ?thesis unfolding event_inv_def by blast
  next
    case (ev_await_cas i old)
    note i = lt [of i, unfolded ev_await_cas(2), simplified]
    have "inv_refs N f"
      using ev_await_cas inv_refs_goto [OF refs i, of Idle] inv_refs_begin_wait [OF refs i]
      by (auto simp: await_cas_def)
    with count_await_cas [OF cnt i ev_await_cas(2) N] ev_await_cas(1) show ?thesis
      unfolding event_inv_def by blast
  next
    case (ev_await_push i)
    note i = lt [of i, unfolded ev_await_push(2), simplified]
    from ev_await_push refs cnt i show ?thesis
      unfolding event_inv_def using inv_refs_await_push count_await_push by blast
  next
    case (ev_await_add i)
    note i = lt [of i, unfolded ev_await_add(2), simplified]
    have "inv_refs N f"
      unfolding ev_await_add(1) await_add_def Let_def
      using ev_await_add(2) by (intro inv_refs_goto [OF refs i]) (auto simp: enter_resume_def)
    with count_await_add [OF cnt refs i ev_await_add(2) N] ev_await_add(1) show ?thesis
      unfolding event_inv_def by blast
  next
    case (ev_await_release i)
    note i = lt [of i, unfolded ev_await_release(2), simplified]
    have "inv_count N f S W"
      using ev_await_release
      by (intro count_quiet [OF cnt i, where p = "pc f i"]) (auto simp: await_release_def)
    with inv_refs_await_release [OF refs ev_await_release(2)] ev_await_release(1) show ?thesis
      unfolding event_inv_def by blast
  next
    case (ev_set_check i)
    have "inv_refs N f"
      using ev_set_check inv_refs_goto [OF refs ev_set_check(2), of Idle "m_state e"]
        inv_refs_goto [OF refs ev_set_check(2), of "Set_cas (m_state e)" "m_state e"]
      by (auto simp: set_check_def Let_def)
    with count_set_check [OF cnt ev_set_check(2)] ev_set_check show ?thesis
      unfolding event_inv_def by blast
  next
    case (ev_set_cas i old spurious)
    note i = lt [of i, unfolded ev_set_cas(2), simplified]
    have "inv_refs N (goto (e\<lparr>m_state := x\<rparr>) i p)"
      if "p = Idle \<or> (\<exists>old. p = Set_cas old) \<or> (\<exists>n k. p = Resume_take n k [] False)" for x p
      using that ev_set_cas(2) by (intro inv_refs_goto [OF refs i]) auto
    from this [of _ "old + 1"] this [of _ "m_state e"] have "inv_refs N f"
      unfolding ev_set_cas(1) set_cas_def set_check_def Let_def by (auto simp: enter_resume_def)
    with count_set_cas [OF cnt i ev_set_cas(2) N] ev_set_cas(1) show ?thesis
      unfolding event_inv_def by blast
  next
    case (ev_reset_check i)
    have "inv_refs N f"
      using ev_reset_check inv_refs_goto [OF refs ev_reset_check(2), of Idle "m_state e"]
        inv_refs_goto [OF refs ev_reset_check(2), of "Reset_cas (m_state e)" "m_state e"]
      by (auto simp: reset_check_def Let_def)
    with count_reset_check [OF cnt ev_reset_check(2)] ev_reset_check show ?thesis
      unfolding event_inv_def by blast
  next
    case (ev_reset_cas i old spurious)
    note i = lt [of i, unfolded ev_reset_cas(2), simplified]
    have fresh: "set_count (m_state e) > waiter_count (m_state e)" using ev_reset_cas(3) by simp
    have "inv_refs N (goto (e\<lparr>m_state := x\<rparr>) i p)" if "p = Idle \<or> (\<exists>old. p = Reset_cas old)" for x p
      using that ev_reset_cas(2) by (intro inv_refs_goto [OF refs i]) auto
    from this [of _ "old - 1"] this [of _ "m_state e"] have "inv_refs N f"
      unfolding ev_reset_cas(1) reset_cas_def by auto
    with count_reset_cas [OF cnt i ev_reset_cas(2) fresh N] ev_reset_cas(1) show ?thesis
      unfolding event_inv_def by blast
  next
    case (ev_resume_take i n k rl w)
    note i = lt [of i, unfolded ev_resume_take(1), simplified]
    from inv_refs_resume_take [OF refs ev_resume_take(1,3)]
      count_resume_take [OF cnt i ev_resume_take(1,2,3)] show ?thesis
      unfolding event_inv_def by blast
  next
    case (ev_resume_subtract i n k rl w)
    then have pc: "pc e i = Resume_take n (unat n) rl w" by simp
    note i = lt [of i, unfolded pc, simplified]
    from inv_refs_resume_subtract [OF refs cnt pc] count_resume_subtract [OF cnt refs i pc N]
      ev_resume_subtract(1) show ?thesis unfolding event_inv_def by blast
  next
    case (ev_resume_next i a rl w)
    note i = lt [of i, unfolded ev_resume_next(2), simplified]
    from inv_refs_resume_next [OF refs ev_resume_next(2)]
      count_resume_next [OF cnt refs i ev_resume_next(2)] ev_resume_next(1) show ?thesis
      unfolding event_inv_def by blast
  qed
qed

interpretation event_sys: invariant_system
  "event_init b" "event_step N False" "\<lambda>e. N < 2 ^ 31 \<longrightarrow> event_inv N e"
  by unfold_locales (auto intro: event_inv_init event_inv_step)

lemma event_reachable_inv:
  "reachable (event_init b) (event_step N False) e \<Longrightarrow> N < 2 ^ 31 \<Longrightarrow> event_inv N e"
  using event_sys.reachable_inv by blast

fun collects :: "event_pc \<Rightarrow> bool" where
  "collects (Resume_take _ _ _ _) = True"
| "collects _ = False"

lemma collects_active: "collects p \<longleftrightarrow> active p = 1"
  by (cases p) auto

lemma collects_unique:
  assumes inv: "event_inv N e" and N: "N < 2 ^ 31"
  shows "(\<exists>i. collects (pc e i)) \<longleftrightarrow> set_count (m_state e) \<noteq> 0 \<and> waiter_count (m_state e) \<noteq> 0"
    and "collects (pc e i) \<Longrightarrow> collects (pc e j) \<Longrightarrow> i = j"
proof -
  from inv obtain S W where refs: "inv_refs N e" and cnt: "inv_count N e S W"
    by (auto simp: event_inv_def)
  have pos: "set_count (m_state e) \<noteq> 0 \<and> waiter_count (m_state e) \<noteq> 0 \<longleftrightarrow> 0 < S \<and> 0 < W"
    using count_bounds(9,10) [OF cnt N] by simp
  have lt: "collects (pc e i) \<Longrightarrow> i < N" for i
    using inv_refs_process [OF refs, of i] by (cases "pc e i") auto
  have uniq: "j = i" if i: "collects (pc e i)" and j: "collects (pc e j)" for i j
  proof (rule ccontr)
    assume "j \<noteq> i"
    from i obtain n k rl w where "pc e i = Resume_take n k rl w" by (cases "pc e i") auto
    from only_resumer(5) [OF cnt lt [OF i] this lt [OF j] \<open>j \<noteq> i\<close>] j
    show False by (simp add: collects_active)
  qed
  then show "collects (pc e i) \<Longrightarrow> collects (pc e j) \<Longrightarrow> i = j" by blast
  show "(\<exists>i. collects (pc e i)) \<longleftrightarrow> set_count (m_state e) \<noteq> 0 \<and> waiter_count (m_state e) \<noteq> 0"
    unfolding pos
  proof
    assume "\<exists>i. collects (pc e i)"
    then obtain i n k rl w where "pc e i = Resume_take n k rl w" "i < N"
      using lt by (metis collects.elims(2))
    with only_resumer(1,2) [OF cnt] show "0 < S \<and> 0 < W" by blast
  next
    assume "0 < S \<and> 0 < W"
    then have "(\<Sum>i<N. active (pc e i)) \<noteq> 0" using cnt by (simp add: inv_count_def total_def)
    then obtain i where "active (pc e i) \<noteq> 0" by (auto simp: sum_eq_0_iff)
    then show "\<exists>i. collects (pc e i)" by (intro exI [of _ i]) (cases "pc e i"; simp)
  qed
qed

section \<open>Properties\<close>

text \<open>
  The run the properties are applied to, with three processes: process 2 waits, process 0 sets
  and starts to collect.
\<close>

definition event_demo0 :: event where
  "event_demo0 = \<lparr>m_state = 0, m_new_waiters = [], m_waiters = [], m_ref_count = (\<lambda>_. 0),
     pc = (\<lambda>_. Idle)\<rparr>"

definition event_demo :: event where
  "event_demo = set_cas (set_check (await_release (await_add (await_push (await_start
     event_demo0 2) 2) 2) 2) 0) 0 (2 ^ 32) False"

lemma demo_counts:
  "set_count 4294967296 = 0" "waiter_count 4294967296 = 1" "set_count 4294967297 = 1"
  "waiter_count 4294967297 = 1" "set_count 0 = 0" "waiter_count 0 = 0"
  using pack_counts [of 0 1] pack_counts [of 1 1] pack_counts [of 0 0]
  by (simp_all add: pack_def word_unat_eq_iff)

lemmas event_ops = demo_counts event_demo0_def event_demo_def await_start_def await_push_def await_add_def
  await_release_def set_check_def set_cas_def begin_wait_def goto_def waiter_increment_def enter_resume_def Let_def

lemma event_demo_pc: "pc event_demo 0 = Resume_take 1 0 [] False" "pc event_demo 2 = Suspended"
  by (simp_all add: event_ops)

lemma event_demo_reachable: "reachable (event_init False) (event_step 3 False) event_demo"
proof -
  note run = reachable_step [where init = "event_init False" and step = "event_step 3 False"]
  let ?r = "reachable (event_init False) (event_step 3 False)"
  have "?r event_demo0" by (rule reachable_init) (simp add: event_init_def event_demo0_def)
  then have "?r (await_start event_demo0 2)"
    by (rule run) (rule ev_await_start, simp_all add: event_ops)
  then have "?r (await_push (await_start event_demo0 2) 2)"
    by (rule run) (rule ev_await_push, simp add: event_ops)
  then have "?r (await_add (await_push (await_start event_demo0 2) 2) 2)"
    by (rule run) (rule ev_await_add, simp add: event_ops)
  then have "?r (await_release (await_add (await_push (await_start event_demo0 2) 2) 2) 2)"
    by (rule run) (rule ev_await_release, simp add: event_ops)
  then have "?r (set_check (await_release (await_add (await_push (await_start event_demo0 2) 2) 2) 2) 0)"
    by (rule run) (rule ev_set_check, simp_all add: event_ops)
  then show ?thesis
    unfolding event_demo_def by (rule run) (rule ev_set_cas, simp add: event_ops)
qed

text \<open>
  The run in which \<open>reset\<close> meets a changed word: it loads a set event, a waiter consumes the
  signal, and the second exchange of \<open>reset\<close> takes one from the word 0.
\<close>

definition stale_run :: "event \<Rightarrow> event" where
  "stale_run e = reset_cas (reset_cas (await_cas (await_start (reset_check e 0) 1) 1 1) 0 1 False) 0 0 False"

lemma one_counts: "set_count 1 = 1" "waiter_count 1 = 0"
  using pack_counts [of 1 0] by (simp_all add: pack_def word_unat_eq_iff)

lemmas stale_ops = one_counts reset_check_def reset_cas_def await_start_def await_cas_def goto_def Let_def

lemma stale_run_reachable:
  assumes start: "reachable (event_init b) (event_step N True) e" and N: "2 \<le> N"
    and e: "m_state e = 1" "\<forall>i. pc e i = Idle"
  shows "reachable (event_init b) (event_step N True) (stale_run e)"
proof -
  note run = reachable_step [where init = "event_init b" and step = "event_step N True"]
  let ?r = "reachable (event_init b) (event_step N True)"
  from start have "?r (reset_check e 0)" by (rule run) (rule ev_reset_check, use N e in simp_all)
  then have "?r (await_start (reset_check e 0) 1)"
    by (rule run) (rule ev_await_start, use N e in \<open>simp_all add: stale_ops\<close>)
  then have "?r (await_cas (await_start (reset_check e 0) 1) 1 1)"
    by (rule run) (rule ev_await_cas, use e in \<open>simp add: stale_ops\<close>)
  then have "?r (reset_cas (await_cas (await_start (reset_check e 0) 1) 1 1) 0 1 False)"
    by (rule run) (rule ev_reset_cas, use e in \<open>simp_all add: stale_ops\<close>)
  then show ?thesis
    unfolding stale_run_def by (rule run) (rule ev_reset_cas, use e in \<open>simp_all add: stale_ops\<close>)
qed

lemma stale_run_state:
  assumes "m_state e = 1" "\<forall>i. pc e i = Idle"
  shows "m_state (stale_run e) = - 1" "pc (stale_run e) i = Idle"
  using assms by (simp_all add: stale_run_def stale_ops)

lemma event_set_reachable:
  assumes "0 < N"
  shows "\<exists>e. reachable (event_init b) (event_step N True) e \<and> m_state e = 1 \<and> (\<forall>i. pc e i = Idle)"
proof -
  note run = reachable_step [where init = "event_init b" and step = "event_step N True"]
  let ?r = "reachable (event_init b) (event_step N True)"
  let ?e = "event_demo0\<lparr>m_state := if b then 1 else 0\<rparr>"
  have start: "?r ?e" by (rule reachable_init) (simp add: event_init_def event_demo0_def)
  show ?thesis
  proof (cases b)
    case True
    with start show ?thesis by (intro exI [of _ ?e]) (simp add: event_demo0_def)
  next
    case False
    let ?f = "set_cas (set_check ?e 0) 0 0 False"
    from start have "?r (set_check ?e 0)"
      by (rule run) (rule ev_set_check, use assms in \<open>simp_all add: event_demo0_def\<close>)
    then have "?r ?f" by (rule run) (rule ev_set_cas, use False in \<open>simp add: event_ops\<close>)
    then show ?thesis by (rule exI [of _ ?f, OF conjI]) (use False in \<open>simp add: event_ops\<close>)
  qed
qed

lemma stale_reset_breaks_counts:
  assumes "2 \<le> N"
  shows "\<exists>e. reachable (event_init b) (event_step N True) e \<and>
    set_count (m_state e) \<noteq> 0 \<and> waiter_count (m_state e) \<noteq> 0 \<and> (\<forall>i. pc e i = Idle)"
proof -
  obtain e where e: "reachable (event_init b) (event_step N True) e" "m_state e = 1" "\<forall>i. pc e i = Idle"
    using event_set_reachable [of N b] assms by auto
  have "set_count (- 1) = - 1" "waiter_count (- 1) = - 1"
    by (rule bit_word_eqI, simp add: set_count_def waiter_count_def bit_simps)+
  with stale_run_reachable [OF e(1) assms e(2,3)] stale_run_state [OF e(2,3)]
  show ?thesis by (intro exI [of _ "stale_run e"]) simp
qed

text \<open>
  C7. Exclusive collection and no lost wake-up, for \<open>co_await\<close>, \<open>set\<close> and \<open>reset\<close> called by
  fewer than \<open>2 ^ 31\<close> processes under every interleaving in which no exchange of \<open>reset\<close> runs
  on a word whose set count does not exceed its waiter count: at most one process is in the
  collecting loop of \<open>resume_waiters\<close> (so the private list of waiters is never shared), and
  some process is there exactly while both the set count and the waiter count are positive.
  The exclusion is needed: two processes can reach, through an exchange of \<open>reset\<close> that is
  tried again after a failure, a state in which both counts are positive although nobody
  waits and nobody collects.
\<close>

theorem event_single_resumer:
  assumes "N < 2 ^ 31"
  shows "(\<forall>e. reachable (event_init b) (event_step N False) e \<longrightarrow>
      (\<forall>i j. collects (pc e i) \<and> collects (pc e j) \<longrightarrow> i = j) \<and>
      ((\<exists>i. collects (pc e i)) \<longleftrightarrow> set_count (m_state e) \<noteq> 0 \<and> waiter_count (m_state e) \<noteq> 0)) \<and>
    (2 \<le> N \<longrightarrow> (\<exists>e. reachable (event_init b) (event_step N True) e \<and>
      set_count (m_state e) \<noteq> 0 \<and> waiter_count (m_state e) \<noteq> 0 \<and> (\<forall>i. pc e i = Idle)))"
  using collects_unique [OF event_reachable_inv assms] stale_reset_breaks_counts assms by blast

theorem event_single_resumer_witness:
  "set_count (m_state event_demo) \<noteq> 0 \<and> waiter_count (m_state event_demo) \<noteq> 0 \<and>
   \<not> collects (pc event_demo 2) \<and>
   (\<exists>e. reachable (event_init False) (event_step 3 True) e \<and>
      set_count (m_state e) \<noteq> 0 \<and> waiter_count (m_state e) \<noteq> 0 \<and> (\<forall>i. pc e i = Idle))"
proof -
  have "collects (pc event_demo 0)" by (simp add: event_demo_pc)
  then have "\<exists>i. collects (pc event_demo i)" by blast
  then show ?thesis
    using event_single_resumer [of 3 False] event_demo_reachable by (simp add: event_demo_pc)
qed

text \<open>
  The assertions of \<open>resume_waiters\<close> hold in every state reached without a stale exchange of
  \<open>reset\<close>: a batch is never empty,
  each time the collecting loop wants a waiter there is one (in the private list or on the
  stack), and the resuming loop starts with a non-empty list.
\<close>

theorem event_resume_asserts:
  assumes "reachable (event_init b) (event_step N False) e" and "N < 2 ^ 31"
  shows "(\<forall>i n k rl w. pc e i = Resume_take n k rl w \<longrightarrow>
      n > 0 \<and> (k < unat n \<longrightarrow> resume_take e i n k rl w \<noteq> None)) \<and>
    (\<forall>i w. pc e i \<noteq> Resume_list [] w)"
proof -
  from event_reachable_inv [OF assms] obtain S W
    where refs: "inv_refs N e" and cnt: "inv_count N e S W" by (auto simp: event_inv_def)
  have "n > 0 \<and> (k < unat n \<longrightarrow> resume_take e i n k rl w \<noteq> None)"
    if pc: "pc e i = Resume_take n k rl w" for i n k rl w
  proof -
    have i: "i < N" using inv_refs_process [OF refs, of i] pc by simp
    have "local_ok S W (pc e i)" using cnt by (simp add: inv_count_def)
    then have "n > 0" using pc by (simp add: word_less_nat_alt)
    moreover have "k < unat n \<Longrightarrow> resume_take e i n k rl w \<noteq> None"
      using waiter_available [OF cnt i pc] by (auto simp: resume_take_def)
    ultimately show ?thesis by blast
  qed
  then show ?thesis using refs by (simp add: inv_refs_def)
qed

theorem event_resume_asserts_witness:
  "resume_take event_demo 0 1 0 [] False \<noteq> None"
  using event_resume_asserts [OF event_demo_reachable] event_demo_pc(1) by auto

text \<open>
  Each wait is resumed once and never lost (again without a stale exchange of \<open>reset\<close>): the operation of a suspended coroutine is in
  exactly one place (the stack, the private list or the list of one resumer), no operation is
  in two places, and one that a resumer will touch belongs to a wait that is not over, so a
  resumer never touches a finished operation.
\<close>

theorem event_waits_accounted:
  assumes "reachable (event_init b) (event_step N False) e" and "N < 2 ^ 31"
  shows "listed N e a \<le> 1 \<and> (pc e a = Suspended \<longrightarrow> listed N e a = 1) \<and>
    (listed N e a = 1 \<longrightarrow> waits (pc e a))"
  using event_reachable_inv [OF assms] inv_refs_refs [of N e a]
  by (auto simp: event_inv_def refs_ok_def split: if_splits)

theorem event_waits_accounted_witness: "listed 3 event_demo 2 = 1 \<and> listed 3 event_demo 0 \<le> 1"
  using event_waits_accounted [OF event_demo_reachable, of 2]
    event_waits_accounted [OF event_demo_reachable, of 0] event_demo_pc by auto

end
