(* ===== verification/Local_Queue.thy ===== *)
theory Local_Queue
  imports Coro_Prelude "HOL-Library.Multiset"
begin

text \<open>
  The per-thread work queue of src/coro/thread_pool.cpp (class thread_state): a growing ring
  buffer that its owner pushes to and pops from at the head without a lock, and that other
  threads steal from at the tail under \<open>m_remote_mutex\<close>. Indices are 64-bit and wrap; their
  order is the sign of their difference, as in the code. The specification is a double-ended
  queue, with one item possibly in the hands of the thief that is about to return it.
\<close>

section \<open>State\<close>

definition local_queue_size :: u64 where
  "local_queue_size = 256"

definition max_local_queue_size :: u64 where
  "max_local_queue_size = 1024 * 1024 div 8"

definition difference :: "u64 \<Rightarrow> u64 \<Rightarrow> int" where
  "difference a b = sint (a - b)"

text \<open>
  Where the owner is inside \<open>try_local_enqueue\<close> (with its operation) or \<open>try_local_pop\<close> (with
  \<open>new_head\<close>), and where the thread that holds \<open>m_remote_mutex\<close> is inside \<open>try_steal\<close> (with the
  tail it read).
\<close>

datatype owner_pc =
    Own_idle
  | Enq_store u64
  | Enq_publish u64
  | Enq_grow u64
  | Enq_copy u64
  | Pop_dec
  | Pop_check u64
  | Pop_lock u64
  | Pop_locked u64

datatype steal_pc =
    Steal_load
  | Steal_inc u64
  | Steal_check u64
  | Steal_revert u64
  | Steal_take u64

datatype remote_mutex =
    Unlocked
  | By_owner
  | By_thief steal_pc

text \<open>
  The last two fields are a history, not memory of the program: the operations enqueued with
  success, and the ones that a pop or a steal returned.
\<close>

record local_queue =
  m_local_queue :: "u64 \<Rightarrow> u64"
  m_mask :: u64
  m_head :: u64
  m_tail :: u64
  m_remote_mutex :: remote_mutex
  owner_pc :: owner_pc
  pushed :: "u64 list"
  taken :: "u64 list"

definition local_queue_init :: "local_queue \<Rightarrow> bool" where
  "local_queue_init s \<longleftrightarrow>
     m_mask s = local_queue_size - 1 \<and> m_head s = 0 \<and> m_tail s = 0 \<and>
     m_remote_mutex s = Unlocked \<and> owner_pc s = Own_idle \<and> pushed s = [] \<and> taken s = []"

section \<open>The owner: enqueue\<close>

text \<open>Reading the tail and choosing the way; the last branch returns false.\<close>

definition enqueue_begin :: "local_queue \<Rightarrow> u64 \<Rightarrow> local_queue" where
  "enqueue_begin s op =
     (if difference (m_head s) (m_tail s) < sint (m_mask s) then s\<lparr>owner_pc := Enq_store op\<rparr>
      else if m_mask s = local_queue_size then s
      else s\<lparr>owner_pc := Enq_grow op\<rparr>)"

definition enqueue_store :: "local_queue \<Rightarrow> u64 \<Rightarrow> local_queue" where
  "enqueue_store s op =
     s\<lparr>m_local_queue := (m_local_queue s)(m_head s AND m_mask s := op), owner_pc := Enq_publish op\<rparr>"

definition enqueue_publish :: "local_queue \<Rightarrow> u64 \<Rightarrow> local_queue" where
  "enqueue_publish s op =
     s\<lparr>m_head := m_head s + 1, owner_pc := Own_idle, pushed := pushed s @ [op]\<rparr>"

definition new_size :: "local_queue \<Rightarrow> u64" where
  "new_size s = (m_mask s + 1) * 2"

text \<open>
  Allocating the new buffer (which may fail) and \<open>try_lock\<close>; both failures return false.
\<close>

definition enqueue_try_lock :: "local_queue \<Rightarrow> u64 \<Rightarrow> bool \<Rightarrow> local_queue" where
  "enqueue_try_lock s op allocated =
     (if \<not> allocated then s\<lparr>owner_pc := Own_idle\<rparr>
      else if m_remote_mutex s \<noteq> Unlocked then s\<lparr>owner_pc := Own_idle\<rparr>
      else s\<lparr>m_remote_mutex := By_owner, owner_pc := Enq_copy op\<rparr>)"

text \<open>The loop that copies the operations from the tail to the head into the new buffer.\<close>

function copy_loop ::
    "(u64 \<Rightarrow> u64) \<Rightarrow> u64 \<Rightarrow> (u64 \<Rightarrow> u64) \<Rightarrow> u64 \<Rightarrow> u64 \<Rightarrow> u64 \<Rightarrow> (u64 \<Rightarrow> u64)" where
  "copy_loop old m new new_m i head =
     (if i = head then new
      else copy_loop old m (new((i AND new_m) := old (i AND m))) new_m (i + 1) head)"
  by pat_completeness auto

termination copy_loop
proof (relation "measure (\<lambda>(_, _, _, _, i, head). unat (head - i))", goal_cases)
  case 1
  then show ?case by simp
next
  case (2 old m new new_m i head)
  then have "unat (head - i - 1) < unat (head - i)"
    by (metis eq_iff_diff_eq_0 measure_unat)
  then show ?case by (simp add: algebra_simps)
qed

declare copy_loop.simps [simp del]

definition enqueue_copy :: "local_queue \<Rightarrow> u64 \<Rightarrow> (u64 \<Rightarrow> u64) \<Rightarrow> local_queue" where
  "enqueue_copy s op fresh =
     (let new_mask = new_size s - 1;
          new = copy_loop (m_local_queue s) (m_mask s) fresh new_mask (m_tail s) (m_head s)
      in s\<lparr>m_local_queue := new((m_head s AND new_mask) := op), m_head := m_head s + 1,
           m_mask := new_mask, m_remote_mutex := Unlocked, owner_pc := Own_idle,
           pushed := pushed s @ [op]\<rparr>)"

section \<open>The owner: pop\<close>

definition pop_begin :: "local_queue \<Rightarrow> local_queue" where
  "pop_begin s =
     (if difference (m_head s) (m_tail s) \<le> 0 then s else s\<lparr>owner_pc := Pop_dec\<rparr>)"

definition pop_dec :: "local_queue \<Rightarrow> local_queue" where
  "pop_dec s = s\<lparr>m_head := m_head s - 1, owner_pc := Pop_check (m_head s - 1)\<rparr>"

definition pop_take :: "local_queue \<Rightarrow> u64 \<Rightarrow> local_queue" where
  "pop_take s new_head =
     s\<lparr>owner_pc := Own_idle, taken := taken s @ [m_local_queue s (new_head AND m_mask s)]\<rparr>"

definition pop_check :: "local_queue \<Rightarrow> u64 \<Rightarrow> local_queue" where
  "pop_check s new_head =
     (if difference new_head (m_tail s) < 0 then s\<lparr>owner_pc := Pop_lock new_head\<rparr>
      else pop_take s new_head)"

definition pop_lock :: "local_queue \<Rightarrow> u64 \<Rightarrow> local_queue" where
  "pop_lock s new_head = s\<lparr>m_remote_mutex := By_owner, owner_pc := Pop_locked new_head\<rparr>"

definition pop_locked :: "local_queue \<Rightarrow> u64 \<Rightarrow> local_queue" where
  "pop_locked s new_head =
     (if difference new_head (m_tail s) < 0
      then s\<lparr>m_head := new_head + 1, m_remote_mutex := Unlocked, owner_pc := Own_idle\<rparr>
      else (pop_take s new_head)\<lparr>m_remote_mutex := Unlocked\<rparr>)"

section \<open>A thief: steal\<close>

definition steal_lock :: "local_queue \<Rightarrow> local_queue" where
  "steal_lock s = s\<lparr>m_remote_mutex := By_thief Steal_load\<rparr>"

definition steal_load :: "local_queue \<Rightarrow> local_queue" where
  "steal_load s =
     (if difference (m_head s) (m_tail s) \<le> 0 then s\<lparr>m_remote_mutex := Unlocked\<rparr>
      else s\<lparr>m_remote_mutex := By_thief (Steal_inc (m_tail s))\<rparr>)"

definition steal_inc :: "local_queue \<Rightarrow> u64 \<Rightarrow> local_queue" where
  "steal_inc s tail = s\<lparr>m_tail := tail + 1, m_remote_mutex := By_thief (Steal_check tail)\<rparr>"

definition steal_check :: "local_queue \<Rightarrow> u64 \<Rightarrow> local_queue" where
  "steal_check s tail =
     (if difference (m_head s) tail > 0 then s\<lparr>m_remote_mutex := By_thief (Steal_take tail)\<rparr>
      else s\<lparr>m_remote_mutex := By_thief (Steal_revert tail)\<rparr>)"

definition steal_revert :: "local_queue \<Rightarrow> u64 \<Rightarrow> local_queue" where
  "steal_revert s tail = s\<lparr>m_tail := tail, m_remote_mutex := Unlocked\<rparr>"

definition steal_take :: "local_queue \<Rightarrow> u64 \<Rightarrow> local_queue" where
  "steal_take s tail =
     s\<lparr>m_remote_mutex := Unlocked, taken := taken s @ [m_local_queue s (tail AND m_mask s)]\<rparr>"

text \<open>
  The loop-free observers: they read the two indices (\<open>has_queued_work\<close> under the mutex).
\<close>

definition approx_has_queued_work :: "local_queue \<Rightarrow> bool" where
  "approx_has_queued_work s \<longleftrightarrow> difference (m_head s) (m_tail s) > 0"

definition has_queued_work :: "local_queue \<Rightarrow> bool" where
  "has_queued_work s \<longleftrightarrow> difference (m_head s) (m_tail s) > 0"

text \<open>
  All steps. An allocation can succeed only when the buffer's bytes fit the address space:
  \<open>operator new\<close> never hands out an object of \<open>2 ^ 63\<close> bytes, and an entry has 8 bytes.
\<close>

inductive local_queue_step :: "local_queue \<Rightarrow> local_queue \<Rightarrow> bool" where
  lq_enqueue_begin: "owner_pc s = Own_idle \<Longrightarrow> local_queue_step s (enqueue_begin s op)"
| lq_enqueue_store: "owner_pc s = Enq_store op \<Longrightarrow> local_queue_step s (enqueue_store s op)"
| lq_enqueue_publish: "owner_pc s = Enq_publish op \<Longrightarrow> local_queue_step s (enqueue_publish s op)"
| lq_enqueue_try_lock: "owner_pc s = Enq_grow op \<Longrightarrow> (allocated \<Longrightarrow> new_size s < 2 ^ 60) \<Longrightarrow>
    local_queue_step s (enqueue_try_lock s op allocated)"
| lq_enqueue_copy: "owner_pc s = Enq_copy op \<Longrightarrow> local_queue_step s (enqueue_copy s op fresh)"
| lq_pop_begin: "owner_pc s = Own_idle \<Longrightarrow> local_queue_step s (pop_begin s)"
| lq_pop_dec: "owner_pc s = Pop_dec \<Longrightarrow> local_queue_step s (pop_dec s)"
| lq_pop_check: "owner_pc s = Pop_check n \<Longrightarrow> local_queue_step s (pop_check s n)"
| lq_pop_lock: "owner_pc s = Pop_lock n \<Longrightarrow> m_remote_mutex s = Unlocked \<Longrightarrow>
    local_queue_step s (pop_lock s n)"
| lq_pop_locked: "owner_pc s = Pop_locked n \<Longrightarrow> local_queue_step s (pop_locked s n)"
| lq_steal_lock: "m_remote_mutex s = Unlocked \<Longrightarrow> local_queue_step s (steal_lock s)"
| lq_steal_load: "m_remote_mutex s = By_thief Steal_load \<Longrightarrow> local_queue_step s (steal_load s)"
| lq_steal_inc: "m_remote_mutex s = By_thief (Steal_inc t) \<Longrightarrow> local_queue_step s (steal_inc s t)"
| lq_steal_check: "m_remote_mutex s = By_thief (Steal_check t) \<Longrightarrow>
    local_queue_step s (steal_check s t)"
| lq_steal_revert: "m_remote_mutex s = By_thief (Steal_revert t) \<Longrightarrow>
    local_queue_step s (steal_revert s t)"
| lq_steal_take: "m_remote_mutex s = By_thief (Steal_take t) \<Longrightarrow>
    local_queue_step s (steal_take s t)"

section \<open>Specification: a double-ended queue\<close>

record deque =
  items :: "u64 list"
  stolen :: "u64 option"
  d_pushed :: "u64 list"
  d_taken :: "u64 list"

definition deque_init :: "deque \<Rightarrow> bool" where
  "deque_init d \<longleftrightarrow> items d = [] \<and> stolen d = None \<and> d_pushed d = [] \<and> d_taken d = []"

text \<open>
  The owner pushes and pops at the end; a thief takes the first item and returns it later.
\<close>

inductive deque_step :: "deque \<Rightarrow> deque \<Rightarrow> bool" where
  deque_push: "deque_step d (d\<lparr>items := items d @ [x], d_pushed := d_pushed d @ [x]\<rparr>)"
| deque_pop: "items d = xs @ [x] \<Longrightarrow> deque_step d (d\<lparr>items := xs, d_taken := d_taken d @ [x]\<rparr>)"
| deque_steal: "items d = x # xs \<Longrightarrow> stolen d = None \<Longrightarrow>
    deque_step d (d\<lparr>items := xs, stolen := Some x\<rparr>)"
| deque_deliver: "stolen d = Some x \<Longrightarrow>
    deque_step d (d\<lparr>stolen := None, d_taken := d_taken d @ [x]\<rparr>)"

lemma deque_accounts:
  "reachable deque_init deque_step d \<Longrightarrow>
   mset (d_pushed d) = mset (d_taken d) + mset (items d) + mset (case_option [] (\<lambda>x. [x]) (stolen d))"
  by (induction rule: reachable.induct)
     (auto simp: deque_init_def elim!: deque_step.cases)

section \<open>Copying into the larger buffer\<close>

lemma copy_loop_frame:
  assumes "lo \<le> hi" "hi - lo < 2 ^ 63" "\<forall>j. lo \<le> j \<and> j < hi \<longrightarrow> w \<noteq> ring_slot k' j"
  shows "copy_loop old (mask k) new (mask k') (word_of_int lo) (word_of_int hi) w = new w"
  using assms
proof (induction "nat (hi - lo)" arbitrary: lo new)
  case 0
  then have "hi = lo" by simp
  then show ?case by (simp add: copy_loop.simps)
next
  case (Suc n)
  then have ne: "lo < hi" by simp
  then have "(word_of_int lo :: u64) \<noteq> word_of_int hi"
    using Suc.prems by (simp add: word_of_int_eq_near)
  moreover have "(word_of_int lo :: u64) + 1 = word_of_int (lo + 1)" by (simp add: wi_hom_syms)
  moreover have "w \<noteq> ring_slot k' lo" using Suc.prems ne by auto
  moreover have "copy_loop old (mask k) new' (mask k') (word_of_int (lo + 1)) (word_of_int hi) w
      = new' w" for new'
    using Suc.prems Suc.hyps(2) ne by (intro Suc.hyps(1)) auto
  ultimately show ?case by (subst copy_loop.simps) (simp add: ring_slot_def)
qed

lemma copy_loop_copies:
  assumes "lo \<le> j" "j < hi" "hi - lo \<le> 2 ^ k'" "k' \<le> 60"
  shows "copy_loop old (mask k) new (mask k') (word_of_int lo) (word_of_int hi) (ring_slot k' j)
    = old (ring_slot k j)"
  using assms
proof (induction "nat (hi - lo)" arbitrary: lo new)
  case 0
  then show ?case by simp
next
  case (Suc n)
  have "(2::int) ^ k' \<le> 2 ^ 60" using Suc.prems by (intro power_increasing) auto
  then have "hi - lo < 2 ^ 63" using Suc.prems(3) by simp
  then have "(word_of_int lo :: u64) \<noteq> word_of_int hi"
    using Suc.prems by (simp add: word_of_int_eq_near)
  moreover have "(word_of_int lo :: u64) + 1 = word_of_int (lo + 1)" by (simp add: wi_hom_syms)
  ultimately have unf: "copy_loop old (mask k) new (mask k') (word_of_int lo) (word_of_int hi)
      = copy_loop old (mask k) (new(ring_slot k' lo := old (ring_slot k lo))) (mask k')
          (word_of_int (lo + 1)) (word_of_int hi)"
    by (subst copy_loop.simps) (simp add: ring_slot_def)
  show ?case
  proof (cases "j = lo")
    case True
    have "ring_slot k' lo \<noteq> ring_slot k' i" if "lo + 1 \<le> i" "i < hi" for i
      using that Suc.prems by (intro ring_slot_neq) auto
    then show ?thesis
      unfolding unf True using Suc.prems \<open>hi - lo < 2 ^ 63\<close> by (subst copy_loop_frame) auto
  next
    case False
    then show ?thesis
      unfolding unf using Suc.prems Suc.hyps(2) by (intro Suc.hyps(1)) auto
  qed
qed

section \<open>The relation\<close>

text \<open>
  Positions \<open>lo \<le> i < hi\<close> hold the items of the deque. While a pop has lowered the head
  without having won its item, \<open>hi\<close> is one above the head; while a thief has raised the tail
  without having won its item, \<open>lo\<close> is one below the tail.
\<close>

fun enq_room :: "owner_pc \<Rightarrow> int" where
  "enq_room (Enq_store _) = 1"
| "enq_room (Enq_publish _) = 1"
| "enq_room _ = 0"

fun popping :: "owner_pc \<Rightarrow> int" where
  "popping (Pop_check _) = 1"
| "popping (Pop_lock _) = 1"
| "popping (Pop_locked _) = 1"
| "popping _ = 0"

fun tail_raised :: "remote_mutex \<Rightarrow> int" where
  "tail_raised (By_thief (Steal_check _)) = 1"
| "tail_raised (By_thief (Steal_revert _)) = 1"
| "tail_raised _ = 0"

fun in_hand :: "remote_mutex \<Rightarrow> int" where
  "in_hand (By_thief (Steal_take _)) = 1"
| "in_hand _ = 0"

fun thief_ok :: "remote_mutex \<Rightarrow> int \<Rightarrow> bool" where
  "thief_ok (By_thief (Steal_inc t)) lo = (t = word_of_int lo)"
| "thief_ok (By_thief (Steal_check t)) lo = (t = word_of_int lo)"
| "thief_ok (By_thief (Steal_revert t)) lo = (t = word_of_int lo)"
| "thief_ok (By_thief (Steal_take t)) lo = (t = word_of_int (lo - 1))"
| "thief_ok _ lo = True"

fun owner_ok :: "owner_pc \<Rightarrow> (u64 \<Rightarrow> u64) \<Rightarrow> remote_mutex \<Rightarrow> nat \<Rightarrow> int \<Rightarrow> bool" where
  "owner_ok (Enq_publish op) b r k hi = (b (ring_slot k hi) = op \<and> r \<noteq> By_owner)"
| "owner_ok (Enq_copy op) b r k hi = (r = By_owner \<and> k < 60)"
| "owner_ok (Pop_check n) b r k hi = (n = word_of_int (hi - 1) \<and> r \<noteq> By_owner)"
| "owner_ok (Pop_lock n) b r k hi = (n = word_of_int (hi - 1) \<and> r \<noteq> By_owner)"
| "owner_ok (Pop_locked n) b r k hi = (n = word_of_int (hi - 1) \<and> r = By_owner)"
| "owner_ok _ b r k hi = (r \<noteq> By_owner)"

definition slots :: "(u64 \<Rightarrow> u64) \<Rightarrow> nat \<Rightarrow> int \<Rightarrow> int \<Rightarrow> u64 list" where
  "slots b k lo hi = map (\<lambda>i. b (ring_slot k i)) [lo..hi - 1]"

definition lq_at :: "nat \<Rightarrow> int \<Rightarrow> int \<Rightarrow> local_queue \<Rightarrow> deque \<Rightarrow> bool" where
  "lq_at k lo hi s d \<longleftrightarrow>
     8 \<le> k \<and> k \<le> 60 \<and> lo \<le> hi \<and>
     hi + enq_room (owner_pc s) - (lo - in_hand (m_remote_mutex s)) \<le> 2 ^ k \<and>
     m_mask s = mask k \<and> m_head s = word_of_int (hi - popping (owner_pc s)) \<and>
     m_tail s = word_of_int (lo + tail_raised (m_remote_mutex s)) \<and>
     items d = slots (m_local_queue s) k lo hi \<and>
     stolen d = (if in_hand (m_remote_mutex s) = 1
                 then Some (m_local_queue s (ring_slot k (lo - 1))) else None) \<and>
     thief_ok (m_remote_mutex s) lo \<and>
     owner_ok (owner_pc s) (m_local_queue s) (m_remote_mutex s) k hi \<and>
     d_pushed d = pushed s \<and> d_taken d = taken s"

definition lq_rel :: "local_queue \<Rightarrow> deque \<Rightarrow> bool" where
  "lq_rel s d \<longleftrightarrow> (\<exists>k lo hi. lq_at k lo hi s d)"

lemma slots_append: "lo \<le> hi \<Longrightarrow> slots b k lo (hi + 1) = slots b k lo hi @ [b (ring_slot k hi)]"
  by (simp add: slots_def upto_rec2)

lemma slots_cons: "lo < hi \<Longrightarrow> slots b k lo hi = b (ring_slot k lo) # slots b k (lo + 1) hi"
  by (simp add: slots_def upto_rec1)

lemma slots_upd:
  assumes "hi - lo < 2 ^ k" "k \<le> 60"
  shows "slots (b(ring_slot k hi := x)) k lo hi = slots b k lo hi"
  using assms ring_slot_neq [of k _ hi] by (auto simp: slots_def)

lemma slots_empty [simp]: "slots b k lo lo = []"
  by (simp add: slots_def)

lemma ring_bound: "k \<le> 60 \<Longrightarrow> (2::int) ^ k \<le> 2 ^ 60"
  by (rule power_increasing) auto

lemma difference_near:
  assumes "\<bar>a - b\<bar> \<le> 2 ^ 61"
  shows "difference (word_of_int a) (word_of_int b) = a - b"
  unfolding difference_def using assms by (intro sint_diff_of_int) simp

section \<open>Every step is simulated\<close>

lemma pc_bounds:
  "0 \<le> enq_room p" "0 \<le> popping p" "popping p \<le> 1"
  "0 \<le> tail_raised r" "tail_raised r \<le> 1" "0 \<le> in_hand r" "in_hand r \<le> 1"
  by (cases p; simp; fail | cases r rule: tail_raised.cases; simp; fail |
      cases r rule: in_hand.cases; simp; fail)+

lemma lq_head_tail:
  assumes "lq_at k lo hi s d"
  shows "difference (m_head s) (m_tail s)
      = hi - popping (owner_pc s) - lo - tail_raised (m_remote_mutex s)"
    and "difference (m_head s) (word_of_int lo) = hi - popping (owner_pc s) - lo"
    and "difference (word_of_int (hi - 1)) (m_tail s)
      = hi - 1 - lo - tail_raised (m_remote_mutex s)"
    and "sint (m_mask s) = 2 ^ k - 1"
proof -
  have b: "lo \<le> hi" "hi - lo \<le> 2 ^ 60" "k \<le> 60"
    using assms ring_bound [of k] pc_bounds(1) [of "owner_pc s"] pc_bounds(6) [of "m_remote_mutex s"]
    by (simp_all add: lq_at_def)
  note pop = pc_bounds(2,3) [of "owner_pc s"] and raise = pc_bounds(4,5) [of "m_remote_mutex s"]
  show "difference (m_head s) (m_tail s)
      = hi - popping (owner_pc s) - lo - tail_raised (m_remote_mutex s)"
    using assms b pop raise
    by (simp add: lq_at_def difference_near [of "hi - popping (owner_pc s)"] del: of_int_add of_int_diff)
  show "difference (m_head s) (word_of_int lo) = hi - popping (owner_pc s) - lo"
    using assms b pop raise
    by (simp add: lq_at_def difference_near [of "hi - popping (owner_pc s)"] del: of_int_add of_int_diff)
  show "difference (word_of_int (hi - 1)) (m_tail s)
      = hi - 1 - lo - tail_raised (m_remote_mutex s)"
    using assms b pop raise
    by (simp add: lq_at_def difference_near [of "hi - 1"] del: of_int_add of_int_diff)
  show "sint (m_mask s) = 2 ^ k - 1" using assms b by (simp add: lq_at_def sint_mask)
qed

lemma lq_silent:
  "lq_at k lo hi t d \<Longrightarrow> \<exists>d'. deque_step\<^sup>*\<^sup>* d d' \<and> lq_rel t d'"
  unfolding lq_rel_def by blast

lemma lq_matched:
  "deque_step d d' \<Longrightarrow> lq_at k lo hi t d' \<Longrightarrow> \<exists>d'. deque_step\<^sup>*\<^sup>* d d' \<and> lq_rel t d'"
  unfolding lq_rel_def by blast

lemma sim_enqueue_begin:
  assumes "lq_at k lo hi s d" "owner_pc s = Own_idle"
  shows "lq_at k lo hi (enqueue_begin s op) d"
  using assms lq_head_tail(1,4) [OF assms(1)] pc_bounds(5,6) [of "m_remote_mutex s"]
  by (cases "m_remote_mutex s" rule: tail_raised.cases)
     (simp_all add: enqueue_begin_def lq_at_def del: of_int_add of_int_diff)

lemma sim_enqueue_store:
  assumes at: "lq_at k lo hi s d" and pc: "owner_pc s = Enq_store op"
  shows "lq_at k lo hi (enqueue_store s op) d"
proof -
  let ?b = "(m_local_queue s)(ring_slot k hi := op)"
  have slot: "m_head s AND m_mask s = ring_slot k hi" using at pc by (simp add: lq_at_def ring_slot_def)
  have k: "k \<le> 60" and fit: "hi + 1 - (lo - in_hand (m_remote_mutex s)) \<le> 2 ^ k"
    using at pc by (auto simp: lq_at_def)
  have "slots ?b k lo hi = slots (m_local_queue s) k lo hi"
    using k fit pc_bounds(6) [of "m_remote_mutex s"] by (intro slots_upd) auto
  moreover have "?b (ring_slot k (lo - 1)) = m_local_queue s (ring_slot k (lo - 1))"
    if "in_hand (m_remote_mutex s) = 1"
    using k fit that at ring_slot_neq [of k "lo - 1" hi] by (auto simp: lq_at_def)
  ultimately show ?thesis
    using at pc slot by (auto simp: enqueue_store_def lq_at_def)
qed

lemma sim_enqueue_publish:
  assumes at: "lq_at k lo hi s d" and pc: "owner_pc s = Enq_publish op"
  shows "lq_at k lo (hi + 1) (enqueue_publish s op)
    (d\<lparr>items := items d @ [op], d_pushed := d_pushed d @ [op]\<rparr>)"
  using at pc by (simp add: enqueue_publish_def lq_at_def slots_append)

lemma sim_enqueue_try_lock:
  assumes "lq_at k lo hi s d" "owner_pc s = Enq_grow op" "allocated \<Longrightarrow> new_size s < 2 ^ 60"
  shows "lq_at k lo hi (enqueue_try_lock s op allocated) d"
proof -
  have "k < 60" if "allocated"
  proof (rule ccontr)
    assume "\<not> k < 60"
    with assms(1) have "k = 60" by (simp add: lq_at_def)
    with assms that show False by (simp add: new_size_def lq_at_def mask_eq_exp_minus_1)
  qed
  with assms show ?thesis by (auto simp: enqueue_try_lock_def lq_at_def)
qed

lemma sim_enqueue_copy:
  assumes at: "lq_at k lo hi s d" and pc: "owner_pc s = Enq_copy op"
  shows "lq_at (k + 1) lo (hi + 1) (enqueue_copy s op fresh)
    (d\<lparr>items := items d @ [op], d_pushed := d_pushed d @ [op]\<rparr>)"
proof -
  have k: "8 \<le> k" "k + 1 \<le> 60" and r: "m_remote_mutex s = By_owner" and le: "lo \<le> hi" "hi - lo \<le> 2 ^ k"
    and ht: "m_head s = word_of_int hi" "m_tail s = word_of_int lo"
    using at pc by (auto simp: lq_at_def)
  let ?copied = "copy_loop (m_local_queue s) (m_mask s) fresh (mask (k + 1)) (m_tail s) (m_head s)"
  have nm: "new_size s - 1 = mask (k + 1)"
    using at by (simp add: new_size_def lq_at_def mask_eq_exp_minus_1 algebra_simps)
  have "(0::int) < 2 ^ k" "(2::int) ^ (k + 1) = 2 * 2 ^ k" by simp_all
  then have fits: "hi - lo < 2 ^ (k + 1)" using le(2) by linarith
  have "?copied (ring_slot (k + 1) i) = m_local_queue s (ring_slot k i)" if "lo \<le> i" "i < hi" for i
    using that k fits at ht copy_loop_copies [of lo i hi "k + 1"] by (simp add: lq_at_def)
  then have "slots ?copied (k + 1) lo hi = slots (m_local_queue s) k lo hi" by (simp add: slots_def)
  then have "slots (?copied(ring_slot (k + 1) hi := op)) (k + 1) lo (hi + 1)
      = slots (m_local_queue s) k lo hi @ [op]"
    using le k fits by (simp add: slots_append slots_upd)
  moreover have "m_head s AND mask (k + 1) = ring_slot (k + 1) hi" by (simp add: ht ring_slot_def)
  ultimately show ?thesis
    using at pc r k le fits ht
    by (simp add: enqueue_copy_def nm lq_at_def Let_def)
qed

lemma sim_pop_begin:
  assumes "lq_at k lo hi s d" "owner_pc s = Own_idle"
  shows "lq_at k lo hi (pop_begin s) d"
  using assms by (auto simp: pop_begin_def lq_at_def)

lemma sim_pop_dec:
  assumes "lq_at k lo hi s d" "owner_pc s = Pop_dec"
  shows "lq_at k lo hi (pop_dec s) d"
  using assms by (simp add: pop_dec_def lq_at_def)

lemma pop_take_items:
  assumes at: "lq_at k lo hi s d" and pc: "owner_pc s = Pop_check n \<or> owner_pc s = Pop_locked n"
    and win: "lo < hi"
  shows "items d = slots (m_local_queue s) k lo (hi - 1) @ [m_local_queue s (n AND m_mask s)]"
proof -
  have n: "n AND m_mask s = ring_slot k (hi - 1)" using at pc by (auto simp: lq_at_def ring_slot_def)
  show ?thesis
    unfolding n using at win slots_append [of lo "hi - 1" "m_local_queue s" k]
    by (simp add: lq_at_def)
qed

lemma pop_take_wins:
  assumes at: "lq_at k lo hi s d" and pc: "owner_pc s = Pop_check n \<or> owner_pc s = Pop_locked n"
    and win: "lo < hi"
  shows "deque_step d (d\<lparr>items := slots (m_local_queue s) k lo (hi - 1),
      d_taken := d_taken d @ [m_local_queue s (n AND m_mask s)]\<rparr>)"
    and "owner_pc s = Pop_check n \<Longrightarrow> lq_at k lo (hi - 1) (pop_take s n)
      (d\<lparr>items := slots (m_local_queue s) k lo (hi - 1),
        d_taken := d_taken d @ [m_local_queue s (n AND m_mask s)]\<rparr>)"
    and "owner_pc s = Pop_locked n \<Longrightarrow>
      lq_at k lo (hi - 1) ((pop_take s n)\<lparr>m_remote_mutex := Unlocked\<rparr>)
      (d\<lparr>items := slots (m_local_queue s) k lo (hi - 1),
        d_taken := d_taken d @ [m_local_queue s (n AND m_mask s)]\<rparr>)"
proof -
  note pop_take_items [OF at pc win]
  then show "deque_step d (d\<lparr>items := slots (m_local_queue s) k lo (hi - 1),
      d_taken := d_taken d @ [m_local_queue s (n AND m_mask s)]\<rparr>)" by (rule deque_pop)
  show "owner_pc s = Pop_check n \<Longrightarrow> lq_at k lo (hi - 1) (pop_take s n)
      (d\<lparr>items := slots (m_local_queue s) k lo (hi - 1),
        d_taken := d_taken d @ [m_local_queue s (n AND m_mask s)]\<rparr>)"
    using at win by (simp add: pop_take_def lq_at_def)
  show "owner_pc s = Pop_locked n \<Longrightarrow>
      lq_at k lo (hi - 1) ((pop_take s n)\<lparr>m_remote_mutex := Unlocked\<rparr>)
      (d\<lparr>items := slots (m_local_queue s) k lo (hi - 1),
        d_taken := d_taken d @ [m_local_queue s (n AND m_mask s)]\<rparr>)"
    using at win by (auto simp: pop_take_def lq_at_def)
qed

lemma sim_pop_check:
  assumes at: "lq_at k lo hi s d" and pc: "owner_pc s = Pop_check n"
  shows "\<exists>d'. deque_step\<^sup>*\<^sup>* d d' \<and> lq_rel (pop_check s n) d'"
proof (cases "difference n (m_tail s) < 0")
  case True
  then have "lq_at k lo hi (pop_check s n) d" using at pc by (simp add: pop_check_def lq_at_def)
  then show ?thesis by (rule lq_silent)
next
  case False
  then have "lo < hi" using lq_head_tail(3) [OF at] at pc pc_bounds(4) [of "m_remote_mutex s"]
    by (simp add: lq_at_def del: of_int_diff)
  from lq_matched [OF pop_take_wins(1) [OF at _ this] pop_take_wins(2) [OF at _ this pc]] pc False
  show ?thesis by (simp add: pop_check_def)
qed

lemma sim_pop_locked:
  assumes at: "lq_at k lo hi s d" and pc: "owner_pc s = Pop_locked n"
  shows "\<exists>d'. deque_step\<^sup>*\<^sup>* d d' \<and> lq_rel (pop_locked s n) d'"
proof -
  have d: "difference n (m_tail s) = hi - 1 - lo"
    using lq_head_tail(3) [OF at] at pc by (simp add: lq_at_def del: of_int_diff)
  show ?thesis
  proof (cases "difference n (m_tail s) < 0")
    case True
    then have "lq_at k lo hi (pop_locked s n) d" using at pc by (auto simp: pop_locked_def lq_at_def)
    then show ?thesis by (rule lq_silent)
  next
    case False
    with d have "lo < hi" by simp
    from lq_matched [OF pop_take_wins(1) [OF at _ this] pop_take_wins(3) [OF at _ this pc]] pc False
    show ?thesis by (simp add: pop_locked_def)
  qed
qed

lemma sim_steal_load:
  assumes "lq_at k lo hi s d" "m_remote_mutex s = By_thief Steal_load"
  shows "lq_at k lo hi (steal_load s) d"
  using assms by (cases "owner_pc s") (auto simp: steal_load_def lq_at_def)

lemma sim_steal_inc:
  assumes "lq_at k lo hi s d" "m_remote_mutex s = By_thief (Steal_inc t)"
  shows "lq_at k lo hi (steal_inc s t) d"
  using assms by (cases "owner_pc s") (auto simp: steal_inc_def lq_at_def)

lemma steal_check_wins:
  assumes at: "lq_at k lo hi s d" and pc: "m_remote_mutex s = By_thief (Steal_check t)"
    and win: "difference (m_head s) t > 0"
  shows "items d = m_local_queue s (ring_slot k lo) # slots (m_local_queue s) k (lo + 1) hi"
    and "stolen d = None"
    and "lq_at k (lo + 1) hi (steal_check s t) (d\<lparr>items := slots (m_local_queue s) k (lo + 1) hi,
      stolen := Some (m_local_queue s (ring_slot k lo))\<rparr>)"
proof -
  have t: "t = word_of_int lo" using at pc by (simp add: lq_at_def)
  with win lq_head_tail(2) [OF at] pc_bounds(2) [of "owner_pc s"] have lt: "lo < hi" by simp
  then show "items d = m_local_queue s (ring_slot k lo) # slots (m_local_queue s) k (lo + 1) hi"
    using at by (simp add: lq_at_def slots_cons)
  show "stolen d = None" using at pc by (simp add: lq_at_def)
  show "lq_at k (lo + 1) hi (steal_check s t) (d\<lparr>items := slots (m_local_queue s) k (lo + 1) hi,
      stolen := Some (m_local_queue s (ring_slot k lo))\<rparr>)"
    using at pc win t lt by (cases "owner_pc s") (auto simp: steal_check_def lq_at_def)
qed

lemma sim_steal_check:
  assumes at: "lq_at k lo hi s d" and pc: "m_remote_mutex s = By_thief (Steal_check t)"
  shows "\<exists>d'. deque_step\<^sup>*\<^sup>* d d' \<and> lq_rel (steal_check s t) d'"
proof (cases "difference (m_head s) t > 0")
  case True
  note win = steal_check_wins [OF at pc this]
  from lq_matched [OF deque_steal [OF win(1,2)] win(3)] show ?thesis .
next
  case False
  then have "lq_at k lo hi (steal_check s t) d"
    using at pc by (cases "owner_pc s") (auto simp: steal_check_def lq_at_def)
  then show ?thesis by (rule lq_silent)
qed

lemma sim_steal_revert:
  assumes "lq_at k lo hi s d" "m_remote_mutex s = By_thief (Steal_revert t)"
  shows "lq_at k lo hi (steal_revert s t) d"
  using assms by (cases "owner_pc s") (auto simp: steal_revert_def lq_at_def)

lemma sim_steal_take:
  assumes at: "lq_at k lo hi s d" and pc: "m_remote_mutex s = By_thief (Steal_take t)"
  shows "\<exists>d'. deque_step\<^sup>*\<^sup>* d d' \<and> lq_rel (steal_take s t) d'"
proof -
  let ?x = "m_local_queue s (ring_slot k (lo - 1))"
  have "stolen d = Some ?x" using at pc by (simp add: lq_at_def)
  then have "deque_step d (d\<lparr>stolen := None, d_taken := d_taken d @ [?x]\<rparr>)" by (rule deque_deliver)
  moreover have "t AND m_mask s = ring_slot k (lo - 1)" using at pc by (simp add: lq_at_def ring_slot_def)
  then have "lq_at k lo hi (steal_take s t) (d\<lparr>stolen := None, d_taken := d_taken d @ [?x]\<rparr>)"
    using at pc by (cases "owner_pc s") (auto simp: steal_take_def lq_at_def)
  ultimately show ?thesis by (rule lq_matched)
qed

lemma lq_sim_init: "local_queue_init s \<Longrightarrow> \<exists>d. deque_init d \<and> lq_rel s d"
proof -
  assume init: "local_queue_init s"
  let ?d = "\<lparr>items = [], stolen = None, d_pushed = [], d_taken = []\<rparr>"
  have "mask 8 = (255 :: u64)" by (simp add: mask_eq_exp_minus_1)
  with init have "lq_at 8 0 0 s ?d"
    by (simp add: local_queue_init_def lq_at_def local_queue_size_def)
  moreover have "deque_init ?d" by (simp add: deque_init_def)
  ultimately show ?thesis unfolding lq_rel_def by blast
qed

lemma lq_sim_step:
  assumes "lq_rel s d" and "local_queue_step s t"
  shows "\<exists>d'. deque_step\<^sup>*\<^sup>* d d' \<and> lq_rel t d'"
proof -
  from assms(1) obtain k lo hi where at: "lq_at k lo hi s d" by (auto simp: lq_rel_def)
  from assms(2) show ?thesis
  proof cases
    case (lq_enqueue_begin op)
    with at show ?thesis by (auto intro: lq_silent sim_enqueue_begin)
  next
    case (lq_enqueue_store op)
    with at show ?thesis by (auto intro: lq_silent sim_enqueue_store)
  next
    case (lq_enqueue_publish op)
    with at show ?thesis by (auto intro: lq_matched deque_push sim_enqueue_publish)
  next
    case (lq_enqueue_try_lock op allocated)
    with sim_enqueue_try_lock [OF at, of op allocated] have "lq_at k lo hi t d" by simp
    then show ?thesis by (rule lq_silent)
  next
    case (lq_enqueue_copy op fresh)
    with at show ?thesis by (auto intro: lq_matched deque_push sim_enqueue_copy)
  next
    case lq_pop_begin
    with at show ?thesis by (auto intro: lq_silent sim_pop_begin)
  next
    case lq_pop_dec
    with at show ?thesis by (auto intro: lq_silent sim_pop_dec)
  next
    case (lq_pop_check n)
    with at show ?thesis by (simp add: sim_pop_check)
  next
    case (lq_pop_lock n)
    then have "lq_at k lo hi t d" using at by (simp add: pop_lock_def lq_at_def)
    then show ?thesis by (rule lq_silent)
  next
    case (lq_pop_locked n)
    with at show ?thesis by (simp add: sim_pop_locked)
  next
    case lq_steal_lock
    then have "lq_at k lo hi t d" using at by (cases "owner_pc s") (auto simp: steal_lock_def lq_at_def)
    then show ?thesis by (rule lq_silent)
  next
    case lq_steal_load
    with at show ?thesis by (auto intro: lq_silent sim_steal_load)
  next
    case (lq_steal_inc u)
    with at show ?thesis by (auto intro: lq_silent sim_steal_inc)
  next
    case (lq_steal_check u)
    with at show ?thesis by (simp add: sim_steal_check)
  next
    case (lq_steal_revert u)
    with at show ?thesis by (auto intro: lq_silent sim_steal_revert)
  next
    case (lq_steal_take u)
    with at show ?thesis by (simp add: sim_steal_take)
  qed
qed

interpretation local_queue_deque:
  simulation_system local_queue_init local_queue_step deque_init deque_step lq_rel
  by unfold_locales (auto intro: lq_sim_init lq_sim_step)

section \<open>What the relation shows of the memory\<close>

lemma local_queue_refines:
  assumes "reachable local_queue_init local_queue_step s"
  shows "\<exists>d. reachable deque_init deque_step d \<and> lq_rel s d \<and>
    mset (pushed s) = mset (taken s) + mset (items d) + mset (case_option [] (\<lambda>x. [x]) (stolen d))"
proof -
  from local_queue_deque.reachable_sim [OF assms] obtain d
    where d: "reachable deque_init deque_step d" "lq_rel s d" by blast
  then have "d_pushed d = pushed s" "d_taken d = taken s" by (auto simp: lq_rel_def lq_at_def)
  with d deque_accounts [OF d(1)] show ?thesis by auto
qed

lemma slots_from_tail:
  "lo \<le> hi \<Longrightarrow> slots b k lo hi
     = map (\<lambda>i. b ((word_of_int lo + of_nat i) AND mask k)) [0..<nat (hi - lo)]"
  by (rule nth_equalityI) (auto simp: slots_def ring_slot_def)

lemma lq_rel_quiescent:
  assumes rel: "lq_rel s d" and idle: "owner_pc s = Own_idle" "m_remote_mutex s = Unlocked"
  shows "\<exists>n. difference (m_head s) (m_tail s) = int n \<and> n \<le> unat (m_mask s) + 1 \<and>
    stolen d = None \<and>
    items d = map (\<lambda>i. m_local_queue s ((m_tail s + of_nat i) AND m_mask s)) [0..<n]"
proof -
  from rel obtain k lo hi where at: "lq_at k lo hi s d" by (auto simp: lq_rel_def)
  then have k: "k \<le> 60" "lo \<le> hi" "hi - lo \<le> 2 ^ k" using idle by (auto simp: lq_at_def)
  have "unat (mask k :: u64) = 2 ^ k - 1"
    using k(1) by (rule unat_mask)
  then have "nat (hi - lo) \<le> unat (m_mask s) + 1"
    using at k by (simp add: lq_at_def nat_le_iff)
  then show ?thesis
    using lq_head_tail(1) [OF at] at idle k(2) slots_from_tail [of lo hi "m_local_queue s" k]
    by (intro exI [of _ "nat (hi - lo)"]) (simp add: lq_at_def)
qed

lemma lq_mask_not_local_size:
  assumes "lq_rel s d"
  shows "m_mask s \<noteq> local_queue_size"
proof -
  from assms obtain k lo hi where at: "lq_at k lo hi s d" by (auto simp: lq_rel_def)
  then have "odd (m_mask s)" by (auto simp: lq_at_def mask_eq_exp_minus_1)
  then show ?thesis by (auto simp: local_queue_size_def)
qed

section \<open>Properties\<close>

text \<open>A run to apply the properties to: operation 7 is enqueued and 8 is on its way.\<close>

definition lq_demo0 :: local_queue where
  "lq_demo0 = \<lparr>m_local_queue = (\<lambda>_. 0), m_mask = 255, m_head = 0, m_tail = 0,
     m_remote_mutex = Unlocked, owner_pc = Own_idle, pushed = [], taken = []\<rparr>"

definition lq_demo :: local_queue where
  "lq_demo = enqueue_publish (enqueue_store (enqueue_begin lq_demo0 7) 7) 7"

lemmas lq_demo_defs = lq_demo_def lq_demo0_def enqueue_begin_def enqueue_store_def
  enqueue_publish_def difference_def

lemma lq_demo_reachable: "reachable local_queue_init local_queue_step lq_demo"
proof -
  note run = reachable_step [where init = local_queue_init and step = local_queue_step]
  have "reachable local_queue_init local_queue_step lq_demo0"
    by (rule reachable_init) (simp add: local_queue_init_def lq_demo0_def local_queue_size_def)
  then have "reachable local_queue_init local_queue_step (enqueue_begin lq_demo0 7)"
    by (rule run) (rule lq_enqueue_begin, simp add: lq_demo_defs)
  then have "reachable local_queue_init local_queue_step (enqueue_store (enqueue_begin lq_demo0 7) 7)"
    by (rule run) (rule lq_enqueue_store, simp add: lq_demo_defs)
  then show ?thesis
    unfolding lq_demo_def by (rule run) (rule lq_enqueue_publish, simp add: lq_demo_defs)
qed

text \<open>
  C6. The work-stealing queue refines a double-ended queue: under every interleaving of the
  owner's enqueue (with its growth) and pop and of the thieves' steals, each reachable state
  corresponds to a reachable state of the specification, so that the enqueued operations are,
  with multiplicity, the ones already returned, the ones in the queue and the one in the
  hands of a thief: nothing is lost or handed out twice.
\<close>

theorem local_queue_refines_deque:
  assumes "reachable local_queue_init local_queue_step s"
  shows "\<exists>d. reachable deque_init deque_step d \<and> lq_rel s d \<and>
    mset (pushed s) = mset (taken s) + mset (items d) + mset (case_option [] (\<lambda>x. [x]) (stolen d))"
  by (rule local_queue_refines) (rule assms)

theorem local_queue_refines_deque_witness:
  "\<exists>d. reachable deque_init deque_step d \<and> lq_rel lq_demo d \<and>
    {#7#} = mset (items d) + mset (case_option [] (\<lambda>x. [x]) (stolen d))"
  using local_queue_refines_deque [OF lq_demo_reachable] by (simp add: lq_demo_defs)

text \<open>
  C8. Between operations the ring buffer is the queue: with the owner and the thieves outside
  their operations, the signed difference of head and tail is the number of operations that
  were enqueued and not yet returned, it does not exceed the size of the buffer, and these
  operations are the entries from the tail on, at masked indices that may wrap.
\<close>

theorem local_queue_content:
  assumes "reachable local_queue_init local_queue_step s"
    and "owner_pc s = Own_idle" and "m_remote_mutex s = Unlocked"
  shows "\<exists>n. difference (m_head s) (m_tail s) = int n \<and> n \<le> unat (m_mask s) + 1 \<and>
    mset (pushed s) = mset (taken s) +
      mset (map (\<lambda>i. m_local_queue s ((m_tail s + of_nat i) AND m_mask s)) [0..<n])"
proof -
  from local_queue_refines [OF assms(1)] obtain d where d: "lq_rel s d"
    "mset (pushed s) = mset (taken s) + mset (items d) + mset (case_option [] (\<lambda>x. [x]) (stolen d))"
    by blast
  from lq_rel_quiescent [OF d(1) assms(2,3)] d(2) show ?thesis by (elim exE) (intro exI, auto)
qed

theorem local_queue_content_witness:
  "\<exists>n. difference (m_head lq_demo) (m_tail lq_demo) = int n \<and>
    {#7#} = mset (map (\<lambda>i. m_local_queue lq_demo ((m_tail lq_demo + of_nat i) AND m_mask lq_demo)) [0..<n])"
proof -
  have "owner_pc lq_demo = Own_idle" "m_remote_mutex lq_demo = Unlocked"
    "pushed lq_demo = [7]" "taken lq_demo = []" by (simp_all add: lq_demo_defs)
  then show ?thesis using local_queue_content [OF lq_demo_reachable] by auto
qed

text \<open>
  The test that should stop the growth never fires: the mask is a power of two minus one,
  and the code compares it with \<open>local_queue_size\<close>. An enqueue that finds no room therefore
  always goes on to allocate a buffer of twice the size, also beyond the
  \<open>max_local_queue_size\<close> that the comment in the class promises.
\<close>

theorem local_queue_growth_unbounded:
  assumes "reachable local_queue_init local_queue_step s"
  shows "m_mask s \<noteq> local_queue_size \<and>
    owner_pc (enqueue_begin s op) =
      (if difference (m_head s) (m_tail s) < sint (m_mask s) then Enq_store op else Enq_grow op)"
proof -
  from local_queue_refines [OF assms] obtain d where "lq_rel s d" by blast
  from lq_mask_not_local_size [OF this] show ?thesis by (simp add: enqueue_begin_def)
qed

theorem local_queue_growth_unbounded_witness:
  "m_mask lq_demo \<noteq> local_queue_size \<and> owner_pc (enqueue_begin lq_demo 9) = Enq_store 9"
  using local_queue_growth_unbounded [OF lq_demo_reachable, of 9] by (simp add: lq_demo_defs)

end
