(* ===== verification/Work_Queue.thy ===== *)
theory Work_Queue
  imports Coro_Prelude
begin

text \<open>
  The interface of the queues that hold scheduled operations, and the queue of the repository
  that implements it: include/coro/detail/lock_free_queue.h, a linked list with a dummy node
  and a tail pointer that may lag behind. The model runs each call alone, with spurious
  failures of the weak compare-exchanges given by an oracle; the heap records which nodes are
  allocated, and an access to a freed node is an error, as is a loop that never ends (both
  \<open>None\<close>). Calls that overlap are outside the model: \<open>dequeue\<close> deletes a node that another
  thread may still read.
\<close>

section \<open>Interface\<close>

text \<open>
  \<open>content q xs\<close>: the queue \<open>q\<close> holds the operations \<open>xs\<close>, the oldest first. A push may refuse.
\<close>

locale work_queue =
  fixes content :: "'q \<Rightarrow> u64 list \<Rightarrow> bool"
    and push :: "'q \<Rightarrow> u64 \<Rightarrow> 'q \<times> bool"
    and pop :: "'q \<Rightarrow> 'q \<times> u64"
    and nonempty :: "'q \<Rightarrow> bool"
  assumes push_accepted: "content q xs \<Longrightarrow> op \<noteq> 0 \<Longrightarrow> push q op = (r, True) \<Longrightarrow> content r (xs @ [op])"
    and push_refused: "content q xs \<Longrightarrow> op \<noteq> 0 \<Longrightarrow> push q op = (r, False) \<Longrightarrow> content r xs"
    and pop_empty: "content q [] \<Longrightarrow> \<exists>r. pop q = (r, 0) \<and> content r []"
    and pop_first: "content q (x # xs) \<Longrightarrow> \<exists>r. pop q = (r, x) \<and> content r xs"
    and nonempty_content: "content q xs \<Longrightarrow> nonempty q \<longleftrightarrow> xs \<noteq> []"
    and content_nonnull: "content q xs \<Longrightarrow> 0 \<notin> set xs"
begin

lemma pop_result:
  assumes "content q xs" "pop q = (r, x)"
  shows "(xs = [] \<and> x = 0 \<and> content r []) \<or> (x \<noteq> 0 \<and> (\<exists>ys. xs = x # ys \<and> content r ys))"
proof (cases xs)
  case Nil
  then show ?thesis using pop_empty [of q] assms by auto
next
  case (Cons y ys)
  then have "x = y" "content r ys" using pop_first assms by fastforce+
  then show ?thesis using content_nonnull [OF assms(1)] Cons by auto
qed

lemma pop_null_iff: "content q xs \<Longrightarrow> snd (pop q) = 0 \<longleftrightarrow> xs = []"
  using pop_result [of q xs "fst (pop q)" "snd (pop q)"] by auto

end

section \<open>The linked queue\<close>

record lock_free_queue =
  n_next :: "nat \<Rightarrow> nat"
  n_data :: "nat \<Rightarrow> u64"
  q_head :: nat
  q_tail :: nat
  size_counter :: u64
  allocated :: "nat \<Rightarrow> bool"
  heap_top :: nat

text \<open>\<open>new lock_free_node(data)\<close>: a node that was never used, with a null \<open>next\<close>.\<close>

definition new_node :: "lock_free_queue \<Rightarrow> u64 \<Rightarrow> lock_free_queue \<times> nat" where
  "new_node q d =
     (let a = heap_top q
      in (q\<lparr>n_next := (n_next q)(a := 0), n_data := (n_data q)(a := d),
            allocated := (allocated q)(a := True), heap_top := Suc a\<rparr>, a))"

definition lock_free_queue_new :: lock_free_queue where
  "lock_free_queue_new =
     (let (q, dummy) = new_node \<lparr>n_next = (\<lambda>_. 0), n_data = (\<lambda>_. 0), q_head = 0, q_tail = 0,
          size_counter = 0, allocated = (\<lambda>_. False), heap_top = 1\<rparr> 0
      in q\<lparr>q_head := dummy, q_tail := dummy\<rparr>)"

text \<open>
  The loop of enqueue for the new node \<open>nn\<close>; the oracle says which weak exchanges fail.
  The result is the state and \<open>old_tail\<close> at the break.
\<close>

partial_function (option) enqueue_loop ::
    "bool list \<Rightarrow> lock_free_queue \<Rightarrow> nat \<Rightarrow> (lock_free_queue \<times> nat) option" where
  "enqueue_loop spurious q nn =
     (let old_tail = q_tail q
      in if \<not> allocated q old_tail then None
         else if n_next q old_tail = 0 then
           (if spurious \<noteq> [] \<and> hd spurious then enqueue_loop (tl spurious) q nn
            else Some (q\<lparr>n_next := (n_next q)(old_tail := nn)\<rparr>, old_tail))
         else if spurious \<noteq> [] \<and> hd spurious then enqueue_loop (tl spurious) q nn
         else enqueue_loop (tl spurious) (q\<lparr>q_tail := n_next q old_tail\<rparr>) nn)"

definition enqueue :: "bool list \<Rightarrow> lock_free_queue \<Rightarrow> u64 \<Rightarrow> lock_free_queue option" where
  "enqueue spurious q d =
     (let (q1, nn) = new_node q d
      in case enqueue_loop spurious q1 nn of
           None \<Rightarrow> None
         | Some (q2, old_tail) \<Rightarrow>
             Some ((if q_tail q2 = old_tail then q2\<lparr>q_tail := nn\<rparr> else q2)
               \<lparr>size_counter := size_counter q2 + 1\<rparr>))"

partial_function (option) dequeue ::
    "bool list \<Rightarrow> lock_free_queue \<Rightarrow> (lock_free_queue \<times> u64) option" where
  "dequeue spurious q =
     (let old_head = q_head q; old_tail = q_tail q
      in if \<not> allocated q old_head then None
         else if old_head = old_tail then
           (if n_next q old_head = 0 then Some (q, 0)
            else if spurious \<noteq> [] \<and> hd spurious then dequeue (tl spurious) q
            else dequeue (tl spurious) (q\<lparr>q_tail := n_next q old_head\<rparr>))
         else if \<not> allocated q (n_next q old_head) then None
         else if spurious \<noteq> [] \<and> hd spurious then dequeue (tl spurious) q
         else (let d = n_data q (n_next q old_head)
               in Some (q\<lparr>q_head := n_next q old_head,
                   allocated := (allocated q)(old_head := False),
                   size_counter := (if d \<noteq> 0 then size_counter q - 1 else size_counter q)\<rparr>, d)))"

definition peek :: "lock_free_queue \<Rightarrow> bool" where
  "peek q \<longleftrightarrow> n_next q (q_head q) \<noteq> 0"

definition approx_size :: "lock_free_queue \<Rightarrow> u64" where
  "approx_size q = size_counter q"

text \<open>The destructor frees the list from the head; \<open>None\<close> is a double free or an endless loop.\<close>

partial_function (option) delete_nodes ::
    "(nat \<Rightarrow> nat) \<Rightarrow> (nat \<Rightarrow> bool) \<Rightarrow> nat \<Rightarrow> (nat \<Rightarrow> bool) option" where
  "delete_nodes nxt alloc node =
     (if node = 0 then Some alloc
      else if \<not> alloc node then None
      else delete_nodes nxt (alloc(node := False)) (nxt node))"

section \<open>What the list holds\<close>

fun linked :: "(nat \<Rightarrow> nat) \<Rightarrow> nat \<Rightarrow> nat list \<Rightarrow> bool" where
  "linked nxt a [] \<longleftrightarrow> a = 0"
| "linked nxt a (b # bs) \<longleftrightarrow> a = b \<and> b \<noteq> 0 \<and> linked nxt (nxt b) bs"

text \<open>
  The dummy node and the nodes of the elements are the list from the head; all of them, and
  no others, are allocated, and the tail is its last node.
\<close>

definition queue_at :: "lock_free_queue \<Rightarrow> nat list \<Rightarrow> u64 list \<Rightarrow> bool" where
  "queue_at q ns xs \<longleftrightarrow>
     linked (n_next q) (q_head q) (q_head q # ns) \<and> distinct (q_head q # ns) \<and>
     map (n_data q) ns = xs \<and> 0 \<notin> set xs \<and> q_tail q = last (q_head q # ns) \<and>
     (\<forall>a. allocated q a \<longleftrightarrow> a \<in> set (q_head q # ns)) \<and>
     (\<forall>a\<in>set (q_head q # ns). a < heap_top q) \<and> 0 < heap_top q \<and>
     size_counter q = of_nat (length xs)"

definition queue_content :: "lock_free_queue \<Rightarrow> u64 list \<Rightarrow> bool" where
  "queue_content q xs \<longleftrightarrow> (\<exists>ns. queue_at q ns xs)"

lemma linked_upd: "b \<notin> set ns \<Longrightarrow> linked (nxt(b := c)) a ns = linked nxt a ns"
  by (induction ns arbitrary: a) auto

lemma linked_snoc:
  "linked nxt a (ns @ [l]) \<Longrightarrow> distinct (ns @ [l]) \<Longrightarrow> n \<noteq> 0 \<Longrightarrow> n \<notin> set (ns @ [l]) \<Longrightarrow>
   linked (nxt(l := n, n := 0)) a (ns @ [l, n])"
  by (induction ns arbitrary: a) auto

lemma linked_last: "linked nxt a (ns @ [l]) \<Longrightarrow> nxt l = 0"
  by (induction ns arbitrary: a) auto

lemma enqueue_loop_last:
  assumes "allocated q (q_tail q)" "n_next q (q_tail q) = 0"
  shows "enqueue_loop spurious q nn
    = Some (q\<lparr>n_next := (n_next q)(q_tail q := nn)\<rparr>, q_tail q)"
proof (induction spurious)
  case Nil
  then show ?case using assms by (subst enqueue_loop.simps) (simp add: Let_def)
next
  case (Cons b bs)
  then show ?case using assms by (subst enqueue_loop.simps) (simp add: Let_def fun_upd_def)
qed

lemma dequeue_first:
  assumes "allocated q (q_head q)" "q_head q \<noteq> q_tail q" "allocated q (n_next q (q_head q))"
  shows "dequeue spurious q = (let d = n_data q (n_next q (q_head q))
     in Some (q\<lparr>q_head := n_next q (q_head q), allocated := (allocated q)(q_head q := False),
          size_counter := (if d \<noteq> 0 then size_counter q - 1 else size_counter q)\<rparr>, d))"
proof (induction spurious)
  case Nil
  then show ?case using assms by (subst dequeue.simps) (simp add: Let_def)
next
  case (Cons b bs)
  then show ?case using assms by (subst dequeue.simps) (simp add: Let_def fun_upd_def)
qed

lemma queue_content_new: "queue_content lock_free_queue_new []"
  unfolding queue_content_def
  by (rule exI [of _ "[]"]) (auto simp: queue_at_def lock_free_queue_new_def new_node_def Let_def)

lemma enqueue_appends:
  assumes "queue_content q xs" "d \<noteq> 0"
  shows "\<exists>r. enqueue spurious q d = Some r \<and> queue_content r (xs @ [d])"
proof -
  from assms(1) obtain ns where at: "queue_at q ns xs" by (auto simp: queue_content_def)
  obtain bs l where bs: "q_head q # ns = bs @ [l]" by (metis list.distinct(1) rev_exhaust)
  let ?n = "heap_top q"
  let ?r = "q\<lparr>n_next := (n_next q)(l := ?n, ?n := 0), n_data := (n_data q)(?n := d), q_tail := ?n,
    size_counter := size_counter q + 1, allocated := (allocated q)(?n := True), heap_top := Suc ?n\<rparr>"
  have l: "q_tail q = l" "allocated q l" "l \<noteq> ?n" "0 < ?n" "?n \<notin> set (q_head q # ns)"
    and lk: "linked (n_next q) (q_head q) (bs @ [l])" and dist: "distinct (bs @ [l])"
    using at bs by (auto simp: queue_at_def)
  have "n_next q l = 0" using lk by (rule linked_last)
  then have "enqueue spurious q d = Some ?r"
    using l by (simp add: enqueue_def new_node_def Let_def enqueue_loop_last fun_upd_twist)
  moreover have "linked (n_next ?r) (q_head ?r) (q_head q # ns @ [?n])"
  proof -
    have "q_head q # ns @ [?n] = bs @ [l, ?n]" using arg_cong [OF bs, of "\<lambda>x. x @ [?n]"] by simp
    then show ?thesis using linked_snoc [OF lk dist, of ?n] l bs by (simp only:) simp
  qed
  then have "queue_at ?r (ns @ [?n]) (xs @ [d])"
    using at l assms(2) by (auto simp: queue_at_def)
  ultimately show ?thesis unfolding queue_content_def by blast
qed

lemma dequeue_empty: "queue_content q [] \<Longrightarrow> dequeue spurious q = Some (q, 0)"
  by (subst dequeue.simps) (auto simp: queue_content_def queue_at_def Let_def)

lemma dequeue_removes:
  assumes "queue_content q (x # xs)"
  shows "\<exists>r. dequeue spurious q = Some (r, x) \<and> queue_content r xs"
proof -
  from assms obtain ms where "queue_at q ms (x # xs)" by (auto simp: queue_content_def)
  then obtain n ns where at: "queue_at q (n # ns) (x # xs)" by (cases ms) (auto simp: queue_at_def)
  let ?r = "q\<lparr>q_head := n, allocated := (allocated q)(q_head q := False),
    size_counter := size_counter q - 1\<rparr>"
  have n: "n_next q (q_head q) = n" "n_data q n = x" "x \<noteq> 0" "allocated q (q_head q)"
    "allocated q n" "q_head q \<noteq> q_tail q"
    using at by (auto simp: queue_at_def)
  then have "dequeue spurious q = Some (?r, x)" by (simp add: dequeue_first Let_def)
  moreover have "queue_at ?r ns xs" using at n by (auto simp: queue_at_def)
  ultimately show ?thesis unfolding queue_content_def by blast
qed

lemma peek_content: "queue_content q xs \<Longrightarrow> peek q \<longleftrightarrow> xs \<noteq> []"
  by (auto simp: queue_content_def queue_at_def peek_def neq_Nil_conv) (case_tac ns; auto)

lemma delete_nodes_frees:
  "linked nxt a ns \<Longrightarrow> distinct ns \<Longrightarrow> (\<forall>b\<in>set ns. alloc b) \<Longrightarrow>
   delete_nodes nxt alloc a = Some (\<lambda>b. alloc b \<and> b \<notin> set ns)"
proof (induction ns arbitrary: a alloc)
  case Nil
  then show ?case by (subst delete_nodes.simps) simp
next
  case (Cons n ns)
  then have "delete_nodes nxt (alloc(n := False)) (nxt n)
      = Some (\<lambda>b. (alloc(n := False)) b \<and> b \<notin> set ns)" by (intro Cons.IH) auto
  moreover have "(\<lambda>b. (alloc(n := False)) b \<and> b \<notin> set ns) = (\<lambda>b. alloc b \<and> b \<notin> set (n # ns))"
    by auto
  ultimately show ?case using Cons.prems by (subst delete_nodes.simps) simp
qed

text \<open>The queue of the repository as a provider of the interface; its push never refuses.\<close>

definition lfq_push :: "lock_free_queue \<Rightarrow> u64 \<Rightarrow> lock_free_queue \<times> bool" where
  "lfq_push q op = (case enqueue [] q op of Some r \<Rightarrow> (r, True) | None \<Rightarrow> (q, False))"

definition lfq_pop :: "lock_free_queue \<Rightarrow> lock_free_queue \<times> u64" where
  "lfq_pop q = (case dequeue [] q of Some (r, d) \<Rightarrow> (r, d) | None \<Rightarrow> (q, 0))"

interpretation lfq: work_queue queue_content lfq_push lfq_pop peek
proof (unfold_locales, goal_cases)
  case (1 q xs op r)
  then show ?case using enqueue_appends [of q xs op "[]"] by (auto simp: lfq_push_def)
next
  case (2 q xs op r)
  then show ?case by (auto simp: lfq_push_def split: option.splits)
next
  case (3 q)
  then show ?case by (simp add: lfq_pop_def dequeue_empty)
next
  case (4 q x xs)
  then show ?case using dequeue_removes [of q x xs "[]"] by (auto simp: lfq_pop_def)
next
  case (5 q xs)
  then show ?case by (rule peek_content)
next
  case (6 q xs)
  then show ?case by (auto simp: queue_content_def queue_at_def)
qed

section \<open>Properties\<close>

lemma queue_run_content:
  assumes "queue_content q xs" "0 \<notin> set ys"
  shows "\<exists>r. foldl (\<lambda>o' d. Option.bind o' (\<lambda>r. enqueue spurious r d)) (Some q) ys = Some r \<and>
    queue_content r (xs @ ys)"
  using assms
proof (induction ys arbitrary: q xs)
  case Nil
  then show ?case by simp
next
  case (Cons y ys)
  then obtain r where r: "enqueue spurious q y = Some r" "queue_content r (xs @ [y])"
    using enqueue_appends by fastforce
  with Cons.IH [of r "xs @ [y]"] Cons.prems show ?case by simp
qed

text \<open>
  C23. \<open>enqueue\<close> and \<open>dequeue\<close> of the linked queue are a FIFO queue when calls do not overlap,
  however often the weak exchanges fail: both return (their loops end and touch no freed
  node), an enqueue appends, a dequeue returns the oldest element or null when there is none,
  and the element count stays the length.
\<close>

theorem lock_free_queue_fifo:
  assumes "queue_content q xs"
  shows "(d \<noteq> 0 \<longrightarrow> (\<exists>r. enqueue spurious q d = Some r \<and> queue_content r (xs @ [d]))) \<and>
    (\<exists>r. dequeue spurious q = Some (r, if xs = [] then 0 else hd xs) \<and> queue_content r (tl xs)) \<and>
    approx_size q = of_nat (length xs)"
proof -
  have "\<exists>r. dequeue spurious q = Some (r, if xs = [] then 0 else hd xs) \<and> queue_content r (tl xs)"
    using dequeue_empty dequeue_removes assms by (cases xs) auto
  moreover have "approx_size q = of_nat (length xs)"
    using assms by (auto simp: queue_content_def queue_at_def approx_size_def)
  ultimately show ?thesis using enqueue_appends [OF assms] by blast
qed

theorem lock_free_queue_fifo_witness:
  "\<exists>r. enqueue [True] lock_free_queue_new 5 = Some r \<and> queue_content r [5] \<and>
    (\<exists>u. dequeue [True, True] r = Some (u, 5) \<and> queue_content u [])"
proof -
  obtain r where "enqueue [True] lock_free_queue_new 5 = Some r" "queue_content r [5]"
    using lock_free_queue_fifo [OF queue_content_new, of 5 "[True]"] by auto
  with lock_free_queue_fifo [of r "[5]" 7 "[True, True]"] show ?thesis by auto
qed

text \<open>
  The destructor of the linked queue frees every node once: the loop ends, no node is
  freed twice, and afterwards nothing of the queue is allocated.
\<close>

theorem lock_free_queue_destructor:
  assumes "queue_content q xs"
  shows "delete_nodes (n_next q) (allocated q) (q_head q) = Some (\<lambda>_. False)"
proof -
  from assms obtain ns where "queue_at q ns xs" by (auto simp: queue_content_def)
  then show ?thesis
    using delete_nodes_frees [of "n_next q" "q_head q" "q_head q # ns" "allocated q"]
    by (auto simp: queue_at_def fun_eq_iff)
qed

theorem lock_free_queue_destructor_witness:
  "delete_nodes (n_next lock_free_queue_new) (allocated lock_free_queue_new)
     (q_head lock_free_queue_new) = Some (\<lambda>_. False)"
  by (rule lock_free_queue_destructor) (rule queue_content_new)

end
