(* ===== verification/Waiter_Lists.thy ===== *)
theory Waiter_Lists
  imports Coro_Prelude
begin

text \<open>
  Lists of suspended operations linked through a field of the operations, shared by
  async_manual_reset_event and shared_task: one list that waiting coroutines push themselves on,
  and one list in the hands of every call that took the shared list over and resumes it. The keys
  of \<open>heads\<close> are the lists, \<open>heads k\<close> is the pointer to the first node of list \<open>k\<close>.
\<close>

definition waiter_lists ::
    "(u64 \<Rightarrow> u64) \<Rightarrow> ('k \<Rightarrow> u64) \<Rightarrow> ('k \<Rightarrow> u64 list) \<Rightarrow> (u64 \<Rightarrow> bool) \<Rightarrow> bool" where
  "waiter_lists nxt heads xs susp \<longleftrightarrow>
     (\<forall>k. chain nxt (heads k) (xs k) \<and> distinct (xs k)) \<and>
     (\<forall>k l. k \<noteq> l \<longrightarrow> set (xs k) \<inter> set (xs l) = {}) \<and>
     (\<forall>a. susp a \<longleftrightarrow> (\<exists>k. a \<in> set (xs k)))"

lemma waiter_lists_chain: "waiter_lists nxt heads xs susp \<Longrightarrow> chain nxt (heads k) (xs k)"
  by (simp add: waiter_lists_def)

lemma waiter_lists_empty: "waiter_lists nxt (\<lambda>_. 0) (\<lambda>_. []) (\<lambda>_. False)"
  by (simp add: waiter_lists_def)

lemma waiter_lists_null: "waiter_lists nxt heads xs susp \<Longrightarrow> heads k = 0 \<longleftrightarrow> xs k = []"
  by (metis chain_null chain.simps(1) waiter_lists_chain)

lemma waiter_lists_head:
  assumes "waiter_lists nxt heads xs susp" "heads k \<noteq> 0"
  obtains ys where "xs k = heads k # ys" "chain nxt (nxt (heads k)) ys"
  using chain_nonnull [OF waiter_lists_chain [OF assms(1)] assms(2)] by blast

lemma waiter_lists_head_suspended:
  assumes "waiter_lists nxt heads xs susp" "heads k \<noteq> 0"
  shows "susp (heads k)"
proof -
  obtain ys where "xs k = heads k # ys" using waiter_lists_head [OF assms] .
  then have "heads k \<in> set (xs k)" by simp
  then show ?thesis using assms(1) unfolding waiter_lists_def by blast
qed

text \<open>A field of an operation that is in no list may be written.\<close>

lemma waiter_lists_touch:
  assumes "waiter_lists nxt heads xs susp" "\<not> susp a"
  shows "waiter_lists (nxt(a := p)) heads xs susp"
proof -
  have "a \<notin> set (xs k)" for k using assms by (auto simp: waiter_lists_def)
  then show ?thesis using assms(1) by (simp add: waiter_lists_def)
qed

lemma waiter_lists_push:
  assumes wl: "waiter_lists nxt heads xs susp" and a: "\<not> susp a" "a \<noteq> 0" and p: "nxt a = heads k"
  shows "waiter_lists nxt (heads(k := a)) (xs(k := a # xs k)) (susp(a := True))"
proof -
  have "a \<notin> set (xs l)" for l using wl a(1) by (auto simp: waiter_lists_def)
  moreover have "(\<exists>l. b \<in> set ((xs(k := a # xs k)) l)) \<longleftrightarrow> b = a \<or> (\<exists>l. b \<in> set (xs l))" for b
    by (metis fun_upd_apply list.set_intros set_ConsD)
  ultimately show ?thesis using wl a(2) p unfolding waiter_lists_def by (auto simp: disjoint_iff)
qed

text \<open>The list \<open>k\<close> is taken over as the list \<open>l\<close>, which is empty.\<close>

lemma waiter_lists_take:
  assumes wl: "waiter_lists nxt heads xs susp" and l: "heads l = 0" "k \<noteq> l"
  shows "waiter_lists nxt (heads(k := 0, l := heads k)) (xs(k := [], l := xs k)) susp"
proof -
  have e: "xs l = []" using waiter_lists_null [OF wl] l(1) by blast
  have "(\<exists>j. a \<in> set ((xs(k := [], l := xs k)) j)) \<longleftrightarrow> (\<exists>j. a \<in> set (xs j))" for a
    using e l(2) by (metis empty_iff fun_upd_apply list.set(1))
  then show ?thesis using wl l(2) unfolding waiter_lists_def by simp
qed

text \<open>The first operation of the list \<open>k\<close> is resumed.\<close>

lemma waiter_lists_pop:
  assumes wl: "waiter_lists nxt heads xs susp" and nz: "heads k \<noteq> 0"
  shows "waiter_lists nxt (heads(k := nxt (heads k))) (xs(k := tl (xs k))) (susp(heads k := False))"
proof -
  obtain ys where ys: "xs k = heads k # ys" "chain nxt (nxt (heads k)) ys" using waiter_lists_head [OF wl nz] .
  have away: "heads k \<notin> set ys" using wl ys(1) unfolding waiter_lists_def
    by (metis distinct.simps(2))
  have other: "heads k \<notin> set (xs l)" if "l \<noteq> k" for l using wl ys(1) that unfolding waiter_lists_def
    by (metis disjoint_iff list.set_intros(1))
  have sub: "set ((xs(k := tl (xs k))) l) \<subseteq> set (xs l)" for l using ys(1) by auto
  have "a \<in> set ((xs(k := tl (xs k))) l) \<longleftrightarrow> a \<in> set (xs l) \<and> a \<noteq> heads k" for a l
    using away other [of l] ys(1) by auto
  then show ?thesis using wl ys unfolding waiter_lists_def
    by (auto simp: disjoint_iff distinct_tl) (metis distinct.simps(2))
qed

text \<open>The list \<open>k\<close> is put in front of the list \<open>l\<close> by writing the field of its last operation.\<close>

lemma chain_append:
  "chain nxt p ys \<Longrightarrow> ys \<noteq> [] \<Longrightarrow> distinct ys \<Longrightarrow> set ys \<inter> set zs = {} \<Longrightarrow> chain nxt q zs \<Longrightarrow>
    chain (nxt(last ys := q)) p (ys @ zs)"
proof (induction ys arbitrary: p)
  case (Cons y ys)
  show ?case
  proof (cases "ys = []")
    case True
    then show ?thesis using Cons.prems by (simp del: fun_upd_apply) (simp add: fun_upd_same)
  next
    case False
    then have "last ys \<noteq> y" using Cons.prems(3) last_in_set by fastforce
    then show ?thesis using Cons False by simp
  qed
qed simp

lemma chain_last: "chain nxt p ys \<Longrightarrow> ys \<noteq> [] \<Longrightarrow> nxt (last ys) = 0"
proof (induction ys arbitrary: p)
  case (Cons y ys)
  then show ?case by (cases ys) auto
qed simp

lemma waiter_lists_append:
  assumes wl: "waiter_lists nxt heads xs susp" and k: "xs k \<noteq> []" "k \<noteq> l"
  shows "waiter_lists (nxt(last (xs k) := heads l)) (heads(l := heads k, k := 0)) (xs(l := xs k @ xs l, k := [])) susp"
proof -
  have dis: "i \<noteq> j \<Longrightarrow> set (xs i) \<inter> set (xs j) = {}" and ch: "chain nxt (heads i) (xs i)" "distinct (xs i)" for i j
    using wl by (auto simp: waiter_lists_def)
  have away: "last (xs k) \<notin> set (xs j)" if "j \<noteq> k" for j
    using dis [OF that] last_in_set [OF k(1)] by blast
  have new: "chain (nxt(last (xs k) := heads l)) (heads k) (xs k @ xs l)"
    using chain_append [OF ch(1) k(1) ch(2) dis [OF k(2)] ch(1)] .
  have same: "(\<exists>j. a \<in> set ((xs(l := xs k @ xs l, k := [])) j)) \<longleftrightarrow> (\<exists>j. a \<in> set (xs j))" for a
  proof
    assume "\<exists>j. a \<in> set ((xs(l := xs k @ xs l, k := [])) j)"
    then show "\<exists>j. a \<in> set (xs j)" by (auto split: if_splits)
  next
    assume "\<exists>j. a \<in> set (xs j)"
    then obtain j where "a \<in> set (xs j)" by blast
    then have "a \<in> set ((xs(l := xs k @ xs l, k := [])) (if j = k then l else j))" using k(2) by auto
    then show "\<exists>j. a \<in> set ((xs(l := xs k @ xs l, k := [])) j)" by blast
  qed
  have chains: "chain (nxt(last (xs k) := heads l)) ((heads(l := heads k, k := 0)) j) ((xs(l := xs k @ xs l, k := [])) j)" for j
  proof -
    consider "j = k" | "j = l" "j \<noteq> k" | "j \<noteq> k" "j \<noteq> l" by blast
    then show ?thesis using new chain_upd [OF away] ch(1) k(2) by cases simp_all
  qed
  have apart: "set ((xs(l := xs k @ xs l, k := [])) i) \<inter> set ((xs(l := xs k @ xs l, k := [])) j) = {}" if "i \<noteq> j" for i j
    using dis k(2) that by (cases "i = k"; cases "j = k"; cases "i = l"; cases "j = l") (auto simp: Int_Un_distrib Int_Un_distrib2)
  have dist: "distinct ((xs(l := xs k @ xs l, k := [])) j)" for j
    using ch(2) dis [OF k(2)] by simp
  have susp: "susp a \<longleftrightarrow> (\<exists>j. a \<in> set (xs j))" for a using wl by (simp add: waiter_lists_def)
  show ?thesis unfolding waiter_lists_def
    by (intro conjI allI impI) (rule chains dist apart; assumption | simp only: same susp)+
qed

end
