(* ===== verification/Queue_Interleaving.thy ===== *)
theory Queue_Interleaving
  imports Waiter_Lists
begin

text \<open>
  include/coro/detail/lock_free_queue.h when calls overlap: every load, store and exchange of shared
  memory is a step of its own, and an access to a node that is not allocated is an error (\<open>None\<close>), as
  is deleting it. Work_Queue has the calls that do not overlap. Nodes are addresses, which may be
  allocated again after they were deleted; 0 is the null pointer.
\<close>

section \<open>State\<close>

text \<open>
  Where a call is: \<open>E_\<close> in enqueue of the new node \<open>n\<close>, \<open>D_\<close> in dequeue, with the values loaded so far:
  \<open>t\<close> the old tail, \<open>h\<close> the old head, \<open>x\<close> the next node, \<open>d\<close> the data.
\<close>

datatype queue_pc =
    Outside
  | E_tail u64 | E_next u64 u64 | E_check u64 u64 u64 | E_link u64 u64 | E_help u64 u64 u64 | E_swing u64 u64 | E_count
  | D_head | D_tail u64 | D_next u64 u64 | D_check u64 u64 u64 | D_help u64 u64 u64
  | D_data u64 u64 | D_cas u64 u64 u64 | D_delete u64 u64 | D_count u64

text \<open>
  The last four fields are history: what enqueue has linked and dequeue has taken, in their order,
  whether the queue was empty when a process last read the next field of the head, and the same for
  each dequeue that has returned null.
\<close>

record shared_queue =
  q_head :: u64
  q_tail :: u64
  n_next :: "u64 \<Rightarrow> u64"
  n_data :: "u64 \<Rightarrow> u64"
  allocated :: "u64 \<Rightarrow> bool"
  size_counter :: u64
  q_pc :: "nat \<Rightarrow> queue_pc"
  linked_in :: "u64 list"
  taken_out :: "u64 list"
  saw_empty :: "nat \<Rightarrow> bool"
  nulls :: "bool list"

definition shared_queue_new :: "u64 \<Rightarrow> shared_queue" where
  "shared_queue_new dummy =
     \<lparr>q_head = dummy, q_tail = dummy, n_next = (\<lambda>_. 0), n_data = (\<lambda>_. 0), allocated = (\<lambda>a. a = dummy), size_counter = 0,
      q_pc = (\<lambda>_. Outside), linked_in = [], taken_out = [], saw_empty = (\<lambda>_. False), nulls = []\<rparr>"

definition at_pc :: "nat \<Rightarrow> queue_pc \<Rightarrow> shared_queue \<Rightarrow> shared_queue" where
  "at_pc p c s = s\<lparr>q_pc := (q_pc s)(p := c)\<rparr>"

section \<open>Steps\<close>

text \<open>An access to node \<open>a\<close>.\<close>

definition touch :: "u64 \<Rightarrow> shared_queue \<Rightarrow> shared_queue \<Rightarrow> shared_queue option" where
  "touch a s t = (if allocated s a then Some t else None)"

definition start_enqueue :: "nat \<Rightarrow> u64 \<Rightarrow> u64 \<Rightarrow> shared_queue \<Rightarrow> shared_queue" where
  "start_enqueue p d a s =
     at_pc p (E_tail a) (s\<lparr>n_next := (n_next s)(a := 0), n_data := (n_data s)(a := d), allocated := (allocated s)(a := True)\<rparr>)"

definition start_dequeue :: "nat \<Rightarrow> shared_queue \<Rightarrow> shared_queue" where
  "start_dequeue p s = at_pc p D_head s"

text \<open>The next step of a process in enqueue; \<open>spurious\<close> is a failure of a weak exchange without cause.\<close>

definition enqueue_step :: "nat \<Rightarrow> bool \<Rightarrow> shared_queue \<Rightarrow> shared_queue option" where
  "enqueue_step p spurious s =
     (case q_pc s p of
        E_tail n \<Rightarrow> Some (at_pc p (E_next n (q_tail s)) s)
      | E_next n t \<Rightarrow> touch t s (at_pc p (E_check n t (n_next s t)) s)
      | E_check n t x \<Rightarrow>
          Some (at_pc p (if t = q_tail s then if x = 0 then E_link n t else E_help n t x else E_tail n) s)
      | E_link n t \<Rightarrow>
          touch t s (if n_next s t = 0 \<and> \<not> spurious
            then at_pc p (E_swing n t) (s\<lparr>n_next := (n_next s)(t := n), linked_in := linked_in s @ [n_data s n]\<rparr>)
            else at_pc p (E_tail n) s)
      | E_help n t x \<Rightarrow> Some (at_pc p (E_tail n) (if q_tail s = t \<and> \<not> spurious then s\<lparr>q_tail := x\<rparr> else s))
      | E_swing n t \<Rightarrow> Some (at_pc p E_count (if q_tail s = t then s\<lparr>q_tail := n\<rparr> else s))
      | E_count \<Rightarrow> Some (at_pc p Outside (s\<lparr>size_counter := size_counter s + 1\<rparr>))
      | _ \<Rightarrow> Some s)"

definition dequeue_step :: "nat \<Rightarrow> bool \<Rightarrow> shared_queue \<Rightarrow> shared_queue option" where
  "dequeue_step p spurious s =
     (case q_pc s p of
        D_head \<Rightarrow> Some (at_pc p (D_tail (q_head s)) s)
      | D_tail h \<Rightarrow> Some (at_pc p (D_next h (q_tail s)) s)
      | D_next h t \<Rightarrow>
          touch h s (at_pc p (D_check h t (n_next s h)) (s\<lparr>saw_empty := (saw_empty s)(p := (linked_in s = taken_out s))\<rparr>))
      | D_check h t x \<Rightarrow>
          Some (if h = q_head s then
                  if h = t then
                    if x = 0 then at_pc p Outside (s\<lparr>nulls := nulls s @ [saw_empty s p]\<rparr>) else at_pc p (D_help h t x) s
                  else at_pc p (D_data h x) s
                else at_pc p D_head s)
      | D_help h t x \<Rightarrow> Some (at_pc p D_head (if q_tail s = t \<and> \<not> spurious then s\<lparr>q_tail := x\<rparr> else s))
      | D_data h x \<Rightarrow> touch x s (at_pc p (D_cas h x (n_data s x)) s)
      | D_cas h x d \<Rightarrow>
          Some (if q_head s = h \<and> \<not> spurious
                then at_pc p (D_delete h d) (s\<lparr>q_head := x, taken_out := taken_out s @ [d]\<rparr>) else at_pc p D_head s)
      | D_delete h d \<Rightarrow>
          touch h s (at_pc p (if d \<noteq> 0 then D_count d else Outside) (s\<lparr>allocated := (allocated s)(h := False)\<rparr>))
      | D_count d \<Rightarrow> Some (at_pc p Outside (s\<lparr>size_counter := size_counter s - 1\<rparr>))
      | _ \<Rightarrow> Some s)"

text \<open>A process of \<open>producers\<close> may enqueue, one of \<open>consumers\<close> may dequeue.\<close>

inductive queue_step :: "nat set \<Rightarrow> nat set \<Rightarrow> shared_queue \<Rightarrow> shared_queue option \<Rightarrow> bool" for producers consumers where
  qs_start_enqueue: "p \<in> producers \<Longrightarrow> q_pc s p = Outside \<Longrightarrow> d \<noteq> 0 \<Longrightarrow> a \<noteq> 0 \<Longrightarrow> \<not> allocated s a \<Longrightarrow>
    queue_step producers consumers s (Some (start_enqueue p d a s))"
| qs_start_dequeue: "p \<in> consumers \<Longrightarrow> q_pc s p = Outside \<Longrightarrow> queue_step producers consumers s (Some (start_dequeue p s))"
| qs_enqueue: "p \<in> producers \<Longrightarrow> queue_step producers consumers s (enqueue_step p spurious s)"
| qs_dequeue: "p \<in> consumers \<Longrightarrow> queue_step producers consumers s (dequeue_step p spurious s)"

inductive queue_run :: "nat set \<Rightarrow> nat set \<Rightarrow> shared_queue option \<Rightarrow> bool" for producers consumers where
  qr_new: "dummy \<noteq> 0 \<Longrightarrow> queue_run producers consumers (Some (shared_queue_new dummy))"
| qr_step: "queue_run producers consumers (Some s) \<Longrightarrow> queue_step producers consumers s s' \<Longrightarrow>
    queue_run producers consumers s'"

section \<open>One producer and one consumer\<close>

text \<open>The node that enqueue has allocated and not linked, and the one that dequeue has yet to delete.\<close>

fun pending :: "queue_pc \<Rightarrow> u64 list" where
  "pending (E_tail n) = [n]"
| "pending (E_next n t) = [n]"
| "pending (E_check n t x) = [n]"
| "pending (E_link n t) = [n]"
| "pending _ = []"

fun retired :: "queue_pc \<Rightarrow> u64 list" where
  "retired (D_delete h d) = [h]"
| "retired _ = []"

text \<open>
  What the producer's call knows of the tail, for the nodes \<open>ns\<close> from the head: before it links its
  node the tail is the last of them; afterwards it may be the last but one.
\<close>

fun producer_ok :: "u64 \<Rightarrow> u64 list \<Rightarrow> queue_pc \<Rightarrow> bool" where
  "producer_ok tail ns (E_next n t) \<longleftrightarrow> tail = last ns \<and> t = tail"
| "producer_ok tail ns (E_check n t x) \<longleftrightarrow> tail = last ns \<and> t = tail \<and> x = 0"
| "producer_ok tail ns (E_link n t) \<longleftrightarrow> tail = last ns \<and> t = tail"
| "producer_ok tail ns (E_swing n t) \<longleftrightarrow> n \<noteq> t \<and> last ns = n \<and> (tail = n \<or> tail = t \<and> (\<exists>ms. ns = ms @ [t, n]))"
| "producer_ok tail ns (E_help n t x) \<longleftrightarrow> False"
| "producer_ok tail ns _ \<longleftrightarrow> tail = last ns"

fun consumer_ok :: "shared_queue \<Rightarrow> queue_pc \<Rightarrow> bool" where
  "consumer_ok s (D_tail h) \<longleftrightarrow> h = q_head s"
| "consumer_ok s (D_next h t) \<longleftrightarrow> h = q_head s \<and> (t = h \<or> q_tail s \<noteq> h)"
| "consumer_ok s (D_check h t x) \<longleftrightarrow> h = q_head s \<and> (t = h \<or> q_tail s \<noteq> h \<and> x \<noteq> 0) \<and> (x = 0 \<or> n_next s h = x) \<and> (x \<noteq> 0 \<or> saw_empty s 1)"
| "consumer_ok s (D_help h t x) \<longleftrightarrow> h = q_head s \<and> t = h \<and> x \<noteq> 0 \<and> n_next s h = x"
| "consumer_ok s (D_data h x) \<longleftrightarrow> h = q_head s \<and> q_tail s \<noteq> h \<and> x \<noteq> 0 \<and> n_next s h = x"
| "consumer_ok s (D_cas h x d) \<longleftrightarrow> h = q_head s \<and> q_tail s \<noteq> h \<and> x \<noteq> 0 \<and> n_next s h = x \<and> d = n_data s x"
| "consumer_ok s _ \<longleftrightarrow> True"

fun in_enqueue :: "queue_pc \<Rightarrow> bool" where
  "in_enqueue (E_tail n) = True"
| "in_enqueue (E_next n t) = True"
| "in_enqueue (E_check n t x) = True"
| "in_enqueue (E_link n t) = True"
| "in_enqueue (E_help n t x) = True"
| "in_enqueue (E_swing n t) = True"
| "in_enqueue E_count = True"
| "in_enqueue _ = False"

definition spsc :: "shared_queue \<Rightarrow> u64 list \<Rightarrow> bool" where
  "spsc s ns \<longleftrightarrow>
     chain (n_next s) (q_head s) ns \<and> ns \<noteq> [] \<and> distinct (ns @ pending (q_pc s 0) @ retired (q_pc s 1)) \<and>
     (\<forall>a. allocated s a \<longleftrightarrow> a \<in> set (ns @ pending (q_pc s 0) @ retired (q_pc s 1))) \<and>
     (\<forall>a\<in>set (pending (q_pc s 0)). a \<noteq> 0 \<and> n_next s a = 0) \<and>
     linked_in s = taken_out s @ map (n_data s) (tl ns) \<and> False \<notin> set (nulls s) \<and>
     producer_ok (q_tail s) ns (q_pc s 0) \<and> consumer_ok s (q_pc s 1) \<and>
     (in_enqueue (q_pc s 0) \<or> q_pc s 0 = Outside) \<and> \<not> in_enqueue (q_pc s 1)"

lemma spsc_nodes:
  assumes "spsc s ns"
  obtains ms where "ns = q_head s # ms" "chain (n_next s) (n_next s (q_head s)) ms" "q_tail s \<in> set ns"
proof -
  from assms have "ns \<noteq> []" "chain (n_next s) (q_head s) ns" by (simp_all add: spsc_def)
  then obtain ms where ms: "ns = q_head s # ms" "chain (n_next s) (n_next s (q_head s)) ms" by (cases ns) auto
  have "q_tail s \<in> set ns"
  proof (cases "q_pc s 0")
    case (E_swing n t)
    then have "q_tail s = last ns \<or> (\<exists>ms. ns = ms @ [q_tail s, n])" using assms by (auto simp: spsc_def)
    then show ?thesis using ms(1) by (metis UnCI last_in_set list.distinct(1) list.set_intros(1) set_append)
  qed (use assms in \<open>auto simp: spsc_def\<close>)
  then show thesis using ms that by blast
qed

lemma chain_head_null: "chain nxt p ms \<Longrightarrow> p = 0 \<longleftrightarrow> ms = []"
  by (cases ms) auto

lemmas spsc_simps = spsc_def at_pc_def touch_def

lemma spsc_start:
  assumes "spsc s ns"
  shows "q_pc s 0 = Outside \<Longrightarrow> a \<noteq> 0 \<Longrightarrow> \<not> allocated s a \<Longrightarrow> spsc (start_enqueue 0 d a s) ns"
    and "q_pc s 1 = Outside \<Longrightarrow> spsc (start_dequeue 1 s) ns"
proof -
  assume idle: "q_pc s 0 = Outside" and a: "a \<noteq> 0" "\<not> allocated s a"
  have fresh: "a \<notin> set (ns @ retired (q_pc s 1))" using assms idle a unfolding spsc_def by auto
  have "chain ((n_next s)(a := 0)) (q_head s) ns" using assms fresh by (simp add: spsc_def)
  moreover have "map ((n_data s)(a := d)) (tl ns) = map (n_data s) (tl ns)"
    using fresh by (cases ns) auto
  moreover have "consumer_ok (start_enqueue 0 d a s) (q_pc s 1)"
  proof -
    have "q_head s \<noteq> a" using fresh assms by (cases ns) (auto simp: spsc_def)
    moreover have "n_next s (q_head s) \<noteq> a \<or> n_next s (q_head s) = 0"
      using fresh assms by (cases ns; cases "tl ns") (auto simp: spsc_def)
    ultimately show ?thesis using assms a(1) unfolding spsc_def
      by (cases "q_pc s 1") (auto simp: start_enqueue_def at_pc_def)
  qed
  ultimately show "spsc (start_enqueue 0 d a s) ns"
    using assms idle fresh a unfolding spsc_def by (auto simp: start_enqueue_def at_pc_def)
next
  assume "q_pc s 1 = Outside"
  then show "spsc (start_dequeue 1 s) ns" using assms unfolding spsc_def by (auto simp: start_dequeue_def at_pc_def)
qed

lemma spsc_last: "spsc s ns \<Longrightarrow> last ns \<in> set ns \<and> allocated s (last ns) \<and> n_next s (last ns) = 0"
  using chain_last [of "n_next s" "q_head s" ns] by (simp add: spsc_def)

text \<open>A change that only moves the producer on.\<close>

lemma spsc_producer_pc:
  assumes "spsc s ns" "set (pending c) = set (pending (q_pc s 0))" "distinct (pending c)"
    "producer_ok (q_tail s) ns c" "in_enqueue c \<or> c = Outside"
  shows "spsc (at_pc 0 c s) ns"
proof -
  have "consumer_ok (at_pc 0 c s) (q_pc s 1) = consumer_ok s (q_pc s 1)" by (cases "q_pc s 1") (simp_all add: at_pc_def)
  then show ?thesis using assms unfolding spsc_def by (auto simp: at_pc_def)
qed

lemma consumer_ok_link:
  assumes "consumer_ok s c" "n_next s t = 0"
  shows "consumer_ok (s\<lparr>n_next := (n_next s)(t := n), linked_in := l, q_pc := f\<rparr>) c"
  using assms by (cases c) auto

lemma consumer_ok_tail:
  assumes "consumer_ok s c" "n \<noteq> q_head s"
  shows "consumer_ok (s\<lparr>q_tail := n, q_pc := f\<rparr>) c"
  using assms by (cases c) auto

lemma spsc_link:
  assumes inv: "spsc s ns" and pc: "q_pc s 0 = E_link n t"
  shows "spsc (at_pc 0 (E_swing n t) (s\<lparr>n_next := (n_next s)(t := n), linked_in := linked_in s @ [n_data s n]\<rparr>)) (ns @ [n])"
proof -
  have t: "t = last ns" "q_tail s = t" "ns \<noteq> []" and n: "n \<notin> set ns" "n \<noteq> 0" "n_next s n = 0"
    using inv pc by (simp_all add: spsc_def)
  have "n \<noteq> t" using t(1,3) n(1) by auto
  have "chain ((n_next s)(last ns := n)) (q_head s) (ns @ [n])"
    by (rule chain_append) (use inv n t(3) in \<open>simp_all add: spsc_def\<close>)
  moreover have "\<exists>ms. ns @ [n] = ms @ [t, n]" using t by (intro exI [of _ "butlast ns"]) simp
  moreover have "consumer_ok (s\<lparr>n_next := (n_next s)(t := n), linked_in := linked_in s @ [n_data s n], q_pc := (q_pc s)(0 := E_swing n t)\<rparr>) (q_pc s 1)"
    by (rule consumer_ok_link) (use inv spsc_last [OF inv] t in \<open>simp_all add: spsc_def\<close>)
  moreover have "tl (ns @ [n]) = tl ns @ [n]" using t(3) by simp
  ultimately show ?thesis using inv pc t n \<open>n \<noteq> t\<close> unfolding spsc_def by (simp add: at_pc_def)
qed

lemma spsc_swing:
  assumes inv: "spsc s ns" and pc: "q_pc s 0 = E_swing n t" and tail: "q_tail s = t"
  shows "spsc (at_pc 0 E_count (s\<lparr>q_tail := n\<rparr>)) ns"
proof -
  obtain ms where ns: "ns = ms @ [t, n]" using inv pc tail by (auto simp: spsc_def)
  have "q_head s = hd ns" using inv by (cases ns) (auto simp: spsc_def)
  then have "n \<noteq> q_head s" using inv ns by (cases ms) (auto simp: spsc_def)
  then have "consumer_ok (s\<lparr>q_tail := n, q_pc := (q_pc s)(0 := E_count)\<rparr>) (q_pc s 1)"
    by (rule consumer_ok_tail [rotated]) (use inv in \<open>simp add: spsc_def\<close>)
  then show ?thesis using inv pc ns unfolding spsc_def by (simp add: at_pc_def)
qed

lemma spsc_enqueue:
  assumes inv: "spsc s ns"
  shows "\<exists>t ns'. enqueue_step 0 spurious s = Some t \<and> spsc t ns'"
proof (cases "q_pc s 0")
  case (E_tail n)
  then have "spsc (at_pc 0 (E_next n (q_tail s)) s) ns"
    using inv by (intro spsc_producer_pc) (auto simp: spsc_def)
  then show ?thesis using E_tail by (auto simp: enqueue_step_def)
next
  case (E_next n t)
  then have "t = last ns" "q_tail s = t" using inv by (simp_all add: spsc_def)
  then have "spsc (at_pc 0 (E_check n t (n_next s t)) s) ns" "allocated s t"
    using inv E_next spsc_last [OF inv] by (auto intro!: spsc_producer_pc)
  then show ?thesis using E_next by (auto simp: enqueue_step_def touch_def)
next
  case (E_check n t x)
  then have t: "t = last ns" "q_tail s = t" "x = 0" using inv by (simp_all add: spsc_def)
  then have "spsc (at_pc 0 (E_link n t) s) ns"
    using inv E_check by (auto intro!: spsc_producer_pc)
  then show ?thesis using E_check t by (auto simp: enqueue_step_def)
next
  case (E_link n t)
  then have t: "t = last ns" "q_tail s = t" using inv by (simp_all add: spsc_def)
  then have "allocated s t" "n_next s t = 0" using spsc_last [OF inv] by simp_all
  moreover have "spsc (at_pc 0 (E_tail n) s) ns"
    using inv E_link t by (auto intro!: spsc_producer_pc)
  ultimately show ?thesis using E_link spsc_link [OF inv E_link] by (auto simp: enqueue_step_def touch_def)
next
  case (E_swing n t)
  show ?thesis
  proof (cases "q_tail s = t")
    case True
    then show ?thesis using E_swing spsc_swing [OF inv E_swing True] by (auto simp: enqueue_step_def)
  next
    case False
    then have "spsc (at_pc 0 E_count s) ns" using inv E_swing by (intro spsc_producer_pc) (auto simp: spsc_def)
    then show ?thesis using E_swing False by (auto simp: enqueue_step_def)
  qed
next
  case E_count
  let ?t = "s\<lparr>size_counter := size_counter s + 1\<rparr>"
  have "consumer_ok ?t (q_pc s 1) = consumer_ok s (q_pc s 1)" by (cases "q_pc s 1") simp_all
  then have "spsc ?t ns" using inv unfolding spsc_def by simp
  then have "spsc (at_pc 0 Outside ?t) ns" using E_count by (intro spsc_producer_pc) (auto simp: spsc_def)
  then show ?thesis using E_count by (auto simp: enqueue_step_def)
qed (use inv in \<open>auto simp: spsc_def enqueue_step_def\<close>)

text \<open>Likewise for the consumer.\<close>

lemma spsc_consumer: "spsc s ns \<Longrightarrow> consumer_ok s (q_pc s 1)"
  by (simp add: spsc_def)

lemma spsc_consumer_pc:
  assumes "spsc s ns" "retired c = retired (q_pc s 1)" "consumer_ok s c" "\<not> in_enqueue c"
  shows "spsc (at_pc 1 c s) ns"
proof -
  have "consumer_ok (at_pc 1 c s) c" using assms(3) by (cases c) (simp_all add: at_pc_def)
  then show ?thesis using assms unfolding spsc_def by (auto simp: at_pc_def)
qed

lemma spsc_history:
  "spsc s ns \<Longrightarrow> (\<forall>h t. q_pc s 1 = D_check h t 0 \<longrightarrow> f 1) \<Longrightarrow> spsc (s\<lparr>saw_empty := f\<rparr>) ns"
  unfolding spsc_def by (cases "q_pc s 1") auto

lemma spsc_take:
  assumes inv: "spsc s ns" and pc: "q_pc s 1 = D_cas h x d"
  shows "spsc (at_pc 1 (D_delete h d) (s\<lparr>q_head := x, taken_out := taken_out s @ [d]\<rparr>)) (tl ns)"
proof -
  obtain ms where ns: "ns = q_head s # ms" and ms: "chain (n_next s) (n_next s (q_head s)) ms" and tail: "q_tail s \<in> set ns"
    using spsc_nodes [OF inv] by blast
  have h: "h = q_head s" "q_tail s \<noteq> h" "x \<noteq> 0" "n_next s h = x" "d = n_data s x" using spsc_consumer [OF inv] unfolding pc by auto
  then obtain rest where rest: "ms = x # rest" using ms by (cases ms) auto
  have "producer_ok (q_tail s) ms (q_pc s 0)"
  proof (cases "q_pc s 0")
    case (E_swing n t)
    then have "n \<noteq> t" "last ms = n" "q_tail s = n \<or> q_tail s = t \<and> (\<exists>ps. ns = ps @ [t, n])"
      using inv ns rest by (auto simp: spsc_def)
    moreover have "\<exists>ps. ms = ps @ [t, n]" if "ns = ps @ [t, n]" "q_tail s = t" for ps
      using that ns h(1,2) by (cases ps) auto
    ultimately show ?thesis using E_swing by auto
  qed (use inv ns rest in \<open>auto simp: spsc_def\<close>)
  moreover have "chain (n_next s) x ms" using ms h by simp
  ultimately show ?thesis using inv pc ns rest h unfolding spsc_def by (auto simp: at_pc_def)
qed

lemma spsc_help:
  assumes inv: "spsc s ns" and pc: "q_pc s 1 = D_help h t x" and tail: "q_tail s = t"
  shows "spsc (at_pc 1 D_head (s\<lparr>q_tail := x\<rparr>)) ns"
proof -
  obtain ms where ns: "ns = q_head s # ms" and ms: "chain (n_next s) (n_next s (q_head s)) ms"
    using spsc_nodes [OF inv] by blast
  have h: "h = q_head s" "t = h" "x \<noteq> 0" "n_next s h = x" using spsc_consumer [OF inv] unfolding pc by auto
  then obtain rest where rest: "ms = x # rest" using ms by (cases ms) auto
  have dist: "q_head s \<notin> set ms" using inv ns by (auto simp: spsc_def)
  have "producer_ok (q_tail s) ns (q_pc s 0)" using inv by (simp add: spsc_def)
  moreover have "q_tail s \<noteq> last ns" using dist ns rest h tail by (metis last_ConsR last_in_set list.distinct(1))
  ultimately obtain n where n: "q_pc s 0 = E_swing n (q_tail s)" "n \<noteq> q_tail s" "last ns = n" "\<exists>ps. ns = ps @ [q_tail s, n]"
    by (cases "q_pc s 0") auto
  then obtain ps where ps: "ns = ps @ [q_tail s, n]" by blast
  have "ps = []" using ps ns dist h tail by (cases ps) auto
  then have "x = n" using ps ns rest by simp
  then show ?thesis using inv pc n unfolding spsc_def by (auto simp: at_pc_def)
qed

lemma spsc_delete:
  assumes inv: "spsc s ns" and pc: "q_pc s 1 = D_delete h d" and c: "c = Outside \<or> (\<exists>d. c = D_count d)"
  shows "spsc (at_pc 1 c (s\<lparr>allocated := (allocated s)(h := False)\<rparr>)) ns"
  using inv pc c unfolding spsc_def by (auto simp: at_pc_def)

lemma spsc_dequeue:
  assumes inv: "spsc s ns"
  shows "\<exists>t ns'. dequeue_step 1 spurious s = Some t \<and> spsc t ns'"
proof -
  obtain ms where ns: "ns = q_head s # ms" and ms: "chain (n_next s) (n_next s (q_head s)) ms" and tail: "q_tail s \<in> set ns"
    using spsc_nodes [OF inv] by blast
  have head: "allocated s (q_head s)" using inv ns by (simp add: spsc_def)
  have lagging: "n_next s (q_head s) \<noteq> 0" if "q_tail s \<noteq> q_head s" using that tail ns ms by (cases ms) auto
  show ?thesis
  proof (cases "q_pc s 1")
    case D_head
    then have "spsc (at_pc 1 (D_tail (q_head s)) s) ns" using inv by (intro spsc_consumer_pc) auto
    then show ?thesis using D_head by (auto simp: dequeue_step_def)
  next
    case (D_tail h)
    have "h = q_head s" using spsc_consumer [OF inv] unfolding D_tail by simp
    then have "spsc (at_pc 1 (D_next h (q_tail s)) s) ns" using inv D_tail by (intro spsc_consumer_pc) auto
    then show ?thesis using D_tail by (auto simp: dequeue_step_def)
  next
    case (D_next h t)
    have h: "h = q_head s" "t = h \<or> q_tail s \<noteq> h" using spsc_consumer [OF inv] unfolding D_next by auto
    let ?f = "(saw_empty s)(1 := (linked_in s = taken_out s))"
    have empty: "?f 1" if "n_next s h = 0"
      using that inv ns ms h(1) by (simp add: spsc_def)
    have "spsc (s\<lparr>saw_empty := ?f\<rparr>) ns" using D_next by (intro spsc_history [OF inv]) auto
    then have "spsc (at_pc 1 (D_check h t (n_next s h)) (s\<lparr>saw_empty := ?f\<rparr>)) ns"
      using D_next h lagging empty by (intro spsc_consumer_pc) auto
    then show ?thesis using D_next h head by (auto simp: dequeue_step_def touch_def)
  next
    case (D_check h t x)
    have h: "h = q_head s" "t = h \<or> q_tail s \<noteq> h \<and> x \<noteq> 0" "x = 0 \<or> n_next s h = x" "x \<noteq> 0 \<or> saw_empty s 1"
      using spsc_consumer [OF inv] unfolding D_check by auto
    have "spsc (at_pc 1 Outside (s\<lparr>nulls := nulls s @ [saw_empty s 1]\<rparr>)) ns" if "x = 0"
      using inv D_check h(4) that unfolding spsc_def by (auto simp: at_pc_def)
    moreover have "spsc (at_pc 1 (D_help h t x) s) ns" if "x \<noteq> 0" "h = t"
      using that inv D_check h by (intro spsc_consumer_pc) auto
    moreover have "spsc (at_pc 1 (D_data h x) s) ns" if "h \<noteq> t"
      using that inv D_check h by (intro spsc_consumer_pc) auto
    ultimately show ?thesis using D_check h(1) by (auto simp: dequeue_step_def)
  next
    case (D_help h t x)
    then have "spsc (at_pc 1 D_head s) ns" using inv by (intro spsc_consumer_pc) auto
    then show ?thesis using D_help spsc_help [OF inv D_help] by (auto simp: dequeue_step_def)
  next
    case (D_data h x)
    have h: "h = q_head s" "q_tail s \<noteq> h" "x \<noteq> 0" "n_next s h = x" using spsc_consumer [OF inv] unfolding D_data by auto
    then have "x \<in> set ns" using ns ms by (cases ms) auto
    then have "allocated s x" using inv by (simp add: spsc_def)
    moreover have "spsc (at_pc 1 (D_cas h x (n_data s x)) s) ns" using inv D_data h by (intro spsc_consumer_pc) auto
    ultimately show ?thesis using D_data by (auto simp: dequeue_step_def touch_def)
  next
    case (D_cas h x d)
    then have "spsc (at_pc 1 D_head s) ns" using inv by (intro spsc_consumer_pc) auto
    then show ?thesis using D_cas spsc_take [OF inv D_cas] by (auto simp: dequeue_step_def)
  next
    case (D_delete h d)
    then have "allocated s h" using inv by (simp add: spsc_def)
    then show ?thesis using D_delete spsc_delete [OF inv D_delete] by (auto simp: dequeue_step_def touch_def)
  next
    case (D_count d)
    let ?t = "s\<lparr>size_counter := size_counter s - 1\<rparr>"
    have "spsc ?t ns" using inv D_count unfolding spsc_def by simp
    then have "spsc (at_pc 1 Outside ?t) ns" using D_count by (intro spsc_consumer_pc) auto
    then show ?thesis using D_count by (auto simp: dequeue_step_def)
  qed (use inv in \<open>auto simp: spsc_def dequeue_step_def\<close>)
qed

lemma spsc_new: "dummy \<noteq> 0 \<Longrightarrow> spsc (shared_queue_new dummy) [dummy]"
  by (auto simp: spsc_def shared_queue_new_def)

lemma spsc_run: "queue_run {0} {1} h \<Longrightarrow> \<exists>s ns. h = Some s \<and> spsc s ns"
proof (induction rule: queue_run.induct)
  case (qr_new dummy)
  then show ?case using spsc_new by blast
next
  case (qr_step s s')
  then obtain ns where inv: "spsc s ns" by blast
  from qr_step.hyps(2) show ?case
  proof cases
    case (qs_start_enqueue p d a)
    then show ?thesis using spsc_start(1) [OF inv, of a d] by blast
  next
    case (qs_start_dequeue p)
    then show ?thesis using spsc_start(2) [OF inv] by blast
  next
    case (qs_enqueue p spurious)
    then show ?thesis using spsc_enqueue [OF inv, of spurious] by blast
  next
    case (qs_dequeue p spurious)
    then show ?thesis using spsc_dequeue [OF inv, of spurious] by blast
  qed
qed

text \<open>
  C15. With one thread that enqueues and one that dequeues, under every interleaving and every
  spurious failure of a weak exchange, no node is used or deleted after it was deleted; what has been
  taken out is what was put in, in the same order, and the rest is in the list; and a dequeue returns
  null only if the queue was empty at one moment during the call.
\<close>
theorem one_producer_one_consumer:
  assumes "queue_run {0} {1} h"
  shows "\<exists>s ns. h = Some s \<and> chain (n_next s) (q_head s) ns \<and>
    linked_in s = taken_out s @ map (n_data s) (tl ns) \<and> False \<notin> set (nulls s)"
  using spsc_run [OF assms] by (auto simp: spsc_def)

text \<open>Runs that are given by the moves of the processes.\<close>

datatype queue_move = Begin_enqueue nat u64 u64 | Begin_dequeue nat | Enqueue_move nat | Dequeue_move nat

fun move_allowed :: "nat set \<Rightarrow> nat set \<Rightarrow> queue_move \<Rightarrow> bool" where
  "move_allowed producers consumers (Begin_enqueue p d a) \<longleftrightarrow> p \<in> producers \<and> d \<noteq> 0 \<and> a \<noteq> 0"
| "move_allowed producers consumers (Begin_dequeue p) \<longleftrightarrow> p \<in> consumers"
| "move_allowed producers consumers (Enqueue_move p) \<longleftrightarrow> p \<in> producers"
| "move_allowed producers consumers (Dequeue_move p) \<longleftrightarrow> p \<in> consumers"

fun move :: "queue_move \<Rightarrow> shared_queue \<Rightarrow> shared_queue option" where
  "move (Begin_enqueue p d a) s = Some (if q_pc s p = Outside \<and> \<not> allocated s a then start_enqueue p d a s else s)"
| "move (Begin_dequeue p) s = Some (if q_pc s p = Outside then start_dequeue p s else s)"
| "move (Enqueue_move p) s = enqueue_step p False s"
| "move (Dequeue_move p) s = dequeue_step p False s"

fun play :: "queue_move list \<Rightarrow> shared_queue \<Rightarrow> shared_queue option" where
  "play [] s = Some s"
| "play (m # ms) s = Option.bind (move m s) (play ms)"

lemma move_run:
  assumes "queue_run producers consumers (Some s)" "move_allowed producers consumers m"
  shows "queue_run producers consumers (move m s)"
  using assms by (cases m) (auto intro: qr_step queue_step.intros)

lemma play_run:
  "queue_run producers consumers (Some s) \<Longrightarrow> list_all (move_allowed producers consumers) ms \<Longrightarrow>
   queue_run producers consumers (play ms s)"
proof (induction ms arbitrary: s)
  case (Cons m ms)
  then have "queue_run producers consumers (move m s)" by (auto intro: move_run)
  then show ?case using Cons by (cases "move m s") auto
qed simp

theorem one_producer_one_consumer_witness:
  "\<exists>s ns. play ([Begin_enqueue 0 5 2] @ replicate 6 (Enqueue_move 0) @ [Begin_dequeue 1] @ replicate 8 (Dequeue_move 1)) (shared_queue_new 1) = Some s \<and>
     chain (n_next s) (q_head s) ns \<and> linked_in s = taken_out s @ map (n_data s) (tl ns) \<and> False \<notin> set (nulls s)"
  by (rule one_producer_one_consumer, rule play_run, rule qr_new) (simp_all add: list_all_iff)

lemmas play_simps = enqueue_step_def dequeue_step_def start_enqueue_def start_dequeue_def at_pc_def touch_def shared_queue_new_def

text \<open>
  C16. With a second producer or a second consumer a call can use a node that another one has deleted.
\<close>
theorem second_thread_uses_deleted_node:
  "queue_run {0} {1, 2} None \<and> queue_run {0, 2} {1} None"
proof -
  let ?a = "[Begin_enqueue 0 5 2] @ replicate 6 (Enqueue_move 0) @ [Begin_dequeue 1, Dequeue_move 1, Dequeue_move 1, Begin_dequeue 2] @
      replicate 7 (Dequeue_move 2) @ [Dequeue_move 1]"
  let ?b = "[Begin_enqueue 2 6 3, Enqueue_move 2, Begin_enqueue 0 5 2] @ replicate 6 (Enqueue_move 0) @ [Begin_dequeue 1] @
      replicate 7 (Dequeue_move 1) @ [Enqueue_move 2]"
  have "play ?a (shared_queue_new 1) = None" "play ?b (shared_queue_new 1) = None"
    by (simp_all add: play_simps numeral_eq_Suc)
  moreover have "list_all (move_allowed {0} {1, 2}) ?a" "list_all (move_allowed {0, 2} {1}) ?b" by (simp_all add: list_all_iff)
  ultimately show ?thesis
    using play_run [OF qr_new, of 1 "{0}" "{1, 2}" ?a] play_run [OF qr_new, of 1 "{0, 2}" "{1}" ?b] by simp
qed

text \<open>
  approx_size of a queue that is empty can be 2^64 - 1: an element is linked before it is counted,
  so a dequeue may count it out first.
\<close>
theorem approx_size_wraps:
  "\<exists>s. queue_run {0} {1} (Some s) \<and> linked_in s = taken_out s \<and> q_pc s 1 = Outside \<and> size_counter s = - 1"
proof -
  let ?e = "Enqueue_move 0" and ?d = "Dequeue_move 1"
  let ?a = "[Begin_enqueue 0 5 2, ?e, ?e, ?e, ?e, Begin_dequeue 1, ?d, ?d, ?d, ?d, ?d, ?d, ?d, ?d, ?d, ?d, ?d, ?d, ?d]"
  have "queue_run {0} {1} (play ?a (shared_queue_new 1))"
    using play_run [OF qr_new, of 1 "{0}" "{1}" ?a] by simp
  moreover have "\<exists>s. play ?a (shared_queue_new 1) = Some s \<and> linked_in s = taken_out s \<and> q_pc s 1 = Outside \<and> size_counter s = - 1"
    by (simp add: play_simps)
  ultimately show ?thesis by auto
qed

end
