(* ===== verification/Thread_State.thy ===== *)
theory Thread_State
  imports Local_Queue Work_Queue
begin

text \<open>
  The operations of class thread_state of src/coro/thread_pool.cpp as whole calls, composed
  of the steps of Local_Queue in the order of the code, when no other call overlaps them; what
  they do to the list of queued operations; and the sleep flag with its wake-up event.
\<close>

section \<open>Whole calls\<close>

text \<open>
  An allocation succeeds when memory is available and the bytes fit the address space.
\<close>

definition new_succeeds :: "bool \<Rightarrow> u64 \<Rightarrow> bool" where
  "new_succeeds available n \<longleftrightarrow> available \<and> n < 2 ^ 60"

fun enqueue_run :: "owner_pc \<Rightarrow> local_queue \<Rightarrow> bool \<Rightarrow> (u64 \<Rightarrow> u64) \<Rightarrow> local_queue \<times> bool" where
  "enqueue_run (Enq_store op) s available fresh =
     (enqueue_publish (enqueue_store s op) op, True)"
| "enqueue_run (Enq_grow op) s available fresh =
     (let s' = enqueue_try_lock s op (new_succeeds available (new_size s))
      in if owner_pc s' = Enq_copy op then (enqueue_copy s' op fresh, True) else (s', False))"
| "enqueue_run _ s available fresh = (s, False)"

definition try_local_enqueue ::
    "bool \<Rightarrow> (u64 \<Rightarrow> u64) \<Rightarrow> local_queue \<Rightarrow> u64 \<Rightarrow> local_queue \<times> bool" where
  "try_local_enqueue available fresh s op =
     (let s' = enqueue_begin s op in enqueue_run (owner_pc s') s' available fresh)"

text \<open>The operation a call returned, null when it returned none.\<close>

definition returned :: "local_queue \<Rightarrow> local_queue \<Rightarrow> u64" where
  "returned s t = (if length (taken t) = length (taken s) then 0 else last (taken t))"

fun pop_run :: "owner_pc \<Rightarrow> local_queue \<Rightarrow> local_queue" where
  "pop_run (Pop_check n) s =
     (let s' = pop_check s n
      in if owner_pc s' = Pop_lock n then pop_locked (pop_lock s' n) n else s')"
| "pop_run _ s = s"

definition try_local_pop :: "local_queue \<Rightarrow> local_queue \<times> u64" where
  "try_local_pop s =
     (let s1 = pop_begin s; s2 = (if owner_pc s1 = Pop_dec then pop_dec s1 else s1);
          s3 = pop_run (owner_pc s2) s2
      in (s3, returned s s3))"

fun steal_run :: "remote_mutex \<Rightarrow> local_queue \<Rightarrow> local_queue" where
  "steal_run (By_thief (Steal_take t)) s = steal_take s t"
| "steal_run (By_thief (Steal_revert t)) s = steal_revert s t"
| "steal_run _ s = s"

definition try_steal :: "local_queue \<Rightarrow> local_queue \<times> u64" where
  "try_steal s =
     (let s1 = steal_load (steal_lock s)
      in if m_remote_mutex s1 = By_thief (Steal_inc (m_tail s))
         then (let s2 = steal_inc s1 (m_tail s); s3 = steal_check s2 (m_tail s);
                   s4 = steal_run (m_remote_mutex s3) s3
               in (s4, returned s s4))
         else (s1, 0))"

section \<open>Their effect on the queued operations\<close>

definition local_content :: "local_queue \<Rightarrow> u64 list \<Rightarrow> bool" where
  "local_content s xs \<longleftrightarrow> owner_pc s = Own_idle \<and> m_remote_mutex s = Unlocked \<and> 0 \<notin> set xs \<and>
     (\<exists>k lo hi d. lq_at k lo hi s d \<and> items d = xs)"

lemma local_contentI:
  "lq_at k lo hi s d \<Longrightarrow> owner_pc s = Own_idle \<Longrightarrow> m_remote_mutex s = Unlocked \<Longrightarrow>
   0 \<notin> set (items d) \<Longrightarrow> items d = xs \<Longrightarrow> local_content s xs"
  unfolding local_content_def by blast

lemma local_content_init: "local_queue_init s \<Longrightarrow> local_content s []"
proof -
  assume init: "local_queue_init s"
  then obtain d k lo hi where "deque_init d" "lq_at k lo hi s d"
    using lq_sim_init [OF init] by (auto simp: lq_rel_def)
  with init show ?thesis by (auto simp: local_content_def local_queue_init_def deque_init_def)
qed

lemma local_content_size:
  assumes "local_content s xs"
  shows "difference (m_head s) (m_tail s) = int (length xs)"
proof -
  from assms obtain k lo hi d where at: "lq_at k lo hi s d" "items d = xs"
    and pc: "owner_pc s = Own_idle" "m_remote_mutex s = Unlocked" by (auto simp: local_content_def)
  from at pc have "length xs = nat (hi - lo)" "lo \<le> hi" by (auto simp: lq_at_def slots_def)
  with lq_head_tail(1) [OF at(1)] pc show ?thesis by simp
qed

lemma try_local_enqueue_content:
  assumes con: "local_content s xs" and op: "op \<noteq> 0"
    and run: "try_local_enqueue available fresh s op = (t, ok)"
  shows "local_content t (if ok then xs @ [op] else xs)"
proof -
  from con obtain k lo hi d where at: "lq_at k lo hi s d" "items d = xs" "0 \<notin> set xs"
    and pc: "owner_pc s = Own_idle" "m_remote_mutex s = Unlocked" by (auto simp: local_content_def)
  let ?s1 = "enqueue_begin s op"
  have at1: "lq_at k lo hi ?s1 d" using sim_enqueue_begin [OF at(1) pc(1)] .
  have r1: "m_remote_mutex ?s1 = Unlocked" using pc by (simp add: enqueue_begin_def)
  have "owner_pc ?s1 = Enq_store op \<or> ?s1 = s \<or> owner_pc ?s1 = Enq_grow op"
    by (simp add: enqueue_begin_def)
  then consider (store) "owner_pc ?s1 = Enq_store op" | (full) "?s1 = s"
    | (grow) "owner_pc ?s1 = Enq_grow op" by blast
  then show ?thesis
  proof cases
    case store
    let ?s2 = "enqueue_store ?s1 op"
    have pc2: "owner_pc ?s2 = Enq_publish op" by (simp add: enqueue_store_def)
    note at3 = sim_enqueue_publish [OF sim_enqueue_store [OF at1 store] pc2]
    have t: "t = enqueue_publish ?s2 op" "ok" using run store by (simp_all add: try_local_enqueue_def)
    show ?thesis
      using at op r1 by (intro local_contentI [OF at3 [folded t(1)]])
        (auto simp: t enqueue_publish_def enqueue_store_def)
  next
    case full
    with run pc con show ?thesis by (auto simp: try_local_enqueue_def)
  next
    case grow
    let ?s2 = "enqueue_try_lock ?s1 op (new_succeeds available (new_size ?s1))"
    have at2: "lq_at k lo hi ?s2 d"
      using sim_enqueue_try_lock [OF at1 grow] by (simp add: new_succeeds_def)
    show ?thesis
    proof (cases "owner_pc ?s2 = Enq_copy op")
      case True
      note at3 = sim_enqueue_copy [OF at2 True, of fresh]
      have t: "t = enqueue_copy ?s2 op fresh" "ok"
        using run grow True by (simp_all add: try_local_enqueue_def Let_def)
      show ?thesis
        using at op by (intro local_contentI [OF at3 [folded t(1)]])
          (auto simp: t enqueue_copy_def Let_def)
    next
      case False
      then have t: "t = ?s2" "\<not> ok" using run grow by (auto simp: try_local_enqueue_def Let_def)
      have "owner_pc t = Own_idle" "m_remote_mutex t = Unlocked"
        using False r1 by (auto simp: t enqueue_try_lock_def)
      with at show ?thesis by (intro local_contentI [OF at2 [folded t(1)]]) (auto simp: t)
    qed
  qed
qed

lemma try_local_pop_empty: "local_content s [] \<Longrightarrow> try_local_pop s = (s, 0)"
  using local_content_size [of s "[]"]
  by (auto simp: try_local_pop_def pop_begin_def local_content_def Let_def returned_def)

lemma try_local_pop_last:
  assumes con: "local_content s (xs @ [x])"
  shows "\<exists>t. try_local_pop s = (t, x) \<and> local_content t xs"
proof -
  from con obtain k lo hi d where at: "lq_at k lo hi s d" "items d = xs @ [x]" "0 \<notin> set (xs @ [x])"
    and pc: "owner_pc s = Own_idle" "m_remote_mutex s = Unlocked" by (auto simp: local_content_def)
  have diff: "difference (m_head s) (m_tail s) = int (length xs) + 1"
    using local_content_size [OF con] by simp
  let ?s1 = "s\<lparr>owner_pc := Pop_dec\<rparr>"
  let ?s2 = "pop_dec ?s1"
  have s1: "pop_begin s = ?s1" using diff by (simp add: pop_begin_def)
  have at1: "lq_at k lo hi ?s1 d" using sim_pop_begin [OF at(1) pc(1)] s1 by simp
  have at2: "lq_at k lo hi ?s2 d" by (rule sim_pop_dec [OF at1]) simp
  have pc2: "owner_pc ?s2 = Pop_check (m_head s - 1)" by (simp add: pop_dec_def)
  have lt: "lo < hi" using at by (auto simp: lq_at_def slots_def)
  have "difference (m_head s - 1) (m_tail s) = hi - 1 - lo"
    using lq_head_tail(3) [OF at2] at2 pc pc2
    by (simp add: lq_at_def pop_dec_def del: of_int_diff)
  then have s3: "pop_check ?s2 (m_head s - 1) = pop_take ?s2 (m_head s - 1)"
    using lt by (simp add: pop_check_def pop_dec_def)
  note win = pop_take_wins(1,2) [OF at2 disjI1 [OF pc2] lt]
  let ?t = "pop_take ?s2 (m_head s - 1)"
  have idle: "owner_pc ?t = Own_idle" "m_remote_mutex ?t = Unlocked"
    using pc by (simp_all add: pop_take_def pop_dec_def)
  have split: "items d = slots (m_local_queue ?s2) k lo (hi - 1)
      @ [m_local_queue ?s2 ((m_head s - 1) AND m_mask ?s2)]"
    using pop_take_items [OF at2 disjI1 [OF pc2] lt] .
  have run: "try_local_pop s = (?t, x)"
    using s1 s3 pc2 split at idle
    by (simp add: try_local_pop_def Let_def returned_def) (simp add: pop_take_def pop_dec_def)
  have "local_content ?t xs"
    using split at idle by (intro local_contentI [OF win(2) [OF pc2]]) auto
  with run show ?thesis by blast
qed

lemma try_steal_empty: "local_content s [] \<Longrightarrow> \<exists>t. try_steal s = (t, 0) \<and> local_content t []"
  using local_content_size [of s "[]"]
  by (intro exI [of _ s])
     (auto simp: try_steal_def steal_load_def steal_lock_def local_content_def)

lemma try_steal_first:
  assumes con: "local_content s (x # xs)"
  shows "\<exists>t. try_steal s = (t, x) \<and> local_content t xs"
proof -
  from con obtain k lo hi d where at: "lq_at k lo hi s d" "items d = x # xs" "0 \<notin> set (x # xs)"
    and pc: "owner_pc s = Own_idle" "m_remote_mutex s = Unlocked" by (auto simp: local_content_def)
  have diff: "difference (m_head s) (m_tail s) = int (length xs) + 1"
    using local_content_size [OF con] by simp
  let ?s1 = "s\<lparr>m_remote_mutex := By_thief (Steal_inc (m_tail s))\<rparr>"
  let ?s2 = "steal_inc ?s1 (m_tail s)"
  have s1: "steal_load (steal_lock s) = ?s1" using diff by (simp add: steal_load_def steal_lock_def)
  have at1: "lq_at k lo hi ?s1 d" using at pc by (simp add: lq_at_def)
  have at2: "lq_at k lo hi ?s2 d" by (rule sim_steal_inc [OF at1]) simp
  have pc2: "m_remote_mutex ?s2 = By_thief (Steal_check (m_tail s))" by (simp add: steal_inc_def)
  have win: "difference (m_head ?s2) (m_tail s) > 0" using diff by (simp add: steal_inc_def)
  note st = steal_check_wins [OF at2 pc2 win]
  let ?s3 = "steal_check ?s2 (m_tail s)"
  have s3: "?s3 = ?s2\<lparr>m_remote_mutex := By_thief (Steal_take (m_tail s))\<rparr>"
    using win by (simp add: steal_check_def)
  let ?t = "steal_take ?s3 (m_tail s)"
  have x: "x = m_local_queue s (m_tail s AND m_mask s)"
    using st(1) at at2 pc by (simp add: lq_at_def steal_inc_def ring_slot_def)
  have xs: "slots (m_local_queue s) k (lo + 1) hi = xs" using st(1) at by (simp add: steal_inc_def)
  have run: "try_steal s = (?t, x)"
    using s1 s3 pc2
    by (simp add: try_steal_def Let_def returned_def x) (simp add: steal_take_def steal_inc_def)
  have "lq_at k (lo + 1) hi ?t (d\<lparr>items := xs, d_taken := taken ?t\<rparr>)"
    using st(3) [unfolded s3] st(2) pc unfolding s3
    by (simp add: steal_take_def lq_at_def xs steal_inc_def)
  then have "local_content ?t xs"
    using at pc unfolding s3 by (intro local_contentI) (auto simp: steal_take_def steal_inc_def)
  with run show ?thesis by blast
qed

text \<open>
  A thread's queue, seen from the other threads, provides the interface of a work queue: the
  owner's enqueue is the push, a steal is the pop.
\<close>

interpretation local_queue_as_work: work_queue local_content
  "try_local_enqueue available fresh" try_steal has_queued_work
proof (unfold_locales, goal_cases)
  case (1 q xs op r)
  then show ?case using try_local_enqueue_content by fastforce
next
  case (2 q xs op r)
  then show ?case
    using try_local_enqueue_content by fastforce
next
  case (3 q)
  then show ?case by (rule try_steal_empty)
next
  case (4 q x xs)
  then show ?case by (rule try_steal_first)
next
  case (5 q xs)
  then show ?case using local_content_size by (simp add: has_queued_work_def)
next
  case (6 q xs)
  then show ?case by (simp add: local_content_def)
qed

end
