(* ===== verification/Thread_Pool.thy ===== *)
theory Thread_Pool
  imports Thread_State
begin

text \<open>
  The scheduler of include/coro/thread_pool.h and src/coro/thread_pool.cpp: scheduling to the
  local or the global queue, the order in which a worker looks for work, stealing, and the
  sleep counter with its wake-ups. Each function is modelled as one call that no other call
  overlaps. The global queue is a boost::lockfree::queue, which is not part of the repository:
  its push, pop and emptiness test are arguments of the definitions, and the lemmas ask that
  they satisfy the interface \<open>work_queue\<close>.
\<close>

section \<open>State\<close>

record 'q thread_pool =
  m_thread_states :: "local_queue list"
  m_global_queue :: 'q
  m_stop :: bool
  m_sleep_thread_count :: u32
  m_is_sleep :: "bool list"
  m_wakeup_event :: "bool list"

definition thread_count :: "'q thread_pool \<Rightarrow> nat" where
  "thread_count p = length (m_thread_states p)"

text \<open>The constructor: no thread count of 0, empty queues, nobody asleep.\<close>

definition thread_pool_new :: "'q \<Rightarrow> local_queue \<Rightarrow> nat \<Rightarrow> 'q thread_pool" where
  "thread_pool_new q state requested =
     (let n = (if requested > 0 then requested else 1)
      in \<lparr>m_thread_states = replicate n state, m_global_queue = q, m_stop = False,
          m_sleep_thread_count = 0, m_is_sleep = replicate n False,
          m_wakeup_event = replicate n False\<rparr>)"

definition is_shutdown :: "'q thread_pool \<Rightarrow> bool" where
  "is_shutdown p = m_stop p"

section \<open>Queues\<close>

definition try_global_enqueue ::
    "('q \<Rightarrow> u64 \<Rightarrow> 'q \<times> bool) \<Rightarrow> 'q thread_pool \<Rightarrow> u64 \<Rightarrow> 'q thread_pool \<times> bool" where
  "try_global_enqueue push p op =
     (let (q, ok) = push (m_global_queue p) op in (p\<lparr>m_global_queue := q\<rparr>, ok))"

definition try_global_dequeue ::
    "('q \<Rightarrow> 'q \<times> u64) \<Rightarrow> 'q thread_pool \<Rightarrow> 'q thread_pool \<times> u64" where
  "try_global_dequeue pop p =
     (let (q, op) = pop (m_global_queue p) in (p\<lparr>m_global_queue := q\<rparr>, op))"

text \<open>The other threads, in the order of the loops.\<close>

definition other_threads :: "'q thread_pool \<Rightarrow> nat \<Rightarrow> nat list" where
  "other_threads p thread_id = filter (\<lambda>i. i \<noteq> thread_id) [0..<thread_count p]"

definition pool_has_queued_work ::
    "('q \<Rightarrow> u64 \<Rightarrow> 'q \<times> bool) \<Rightarrow> ('q \<Rightarrow> 'q \<times> u64) \<Rightarrow> 'q thread_pool \<Rightarrow> nat \<Rightarrow> 'q thread_pool \<times> bool"
  where
  "pool_has_queued_work push pop p thread_id =
     (let (q, op) = pop (m_global_queue p)
      in if op \<noteq> 0 then (p\<lparr>m_global_queue := fst (push q op)\<rparr>, True)
         else (p\<lparr>m_global_queue := q\<rparr>,
               list_ex (\<lambda>i. has_queued_work (m_thread_states p ! i)) (other_threads p thread_id)))"

definition pool_approx_has_queued_work :: "('q \<Rightarrow> bool) \<Rightarrow> 'q thread_pool \<Rightarrow> nat \<Rightarrow> bool" where
  "pool_approx_has_queued_work nonempty p thread_id \<longleftrightarrow>
     nonempty (m_global_queue p) \<or>
     list_ex (\<lambda>i. has_queued_work (m_thread_states p ! i)) (other_threads p thread_id)"

definition approx_total_work :: "('q \<Rightarrow> bool) \<Rightarrow> 'q thread_pool \<Rightarrow> u32" where
  "approx_total_work nonempty p =
     fold (\<lambda>i n. if approx_has_queued_work (m_thread_states p ! i) then n + 1 else n)
       [0..<thread_count p] (if nonempty (m_global_queue p) then 1 else 0)"

text \<open>
  One pass of stealing over the threads \<open>is\<close>; a busy mutex is noted and skipped.
\<close>

fun steal_scan :: "(nat \<Rightarrow> bool) \<Rightarrow> 'q thread_pool \<Rightarrow> nat list \<Rightarrow> bool \<Rightarrow> 'q thread_pool \<times> u64 \<times> bool" where
  "steal_scan busy p [] unavailable = (p, 0, unavailable)"
| "steal_scan busy p (i # is) unavailable =
     (if busy i then steal_scan busy p is True
      else (let (s, op) = try_steal (m_thread_states p ! i);
                p' = p\<lparr>m_thread_states := (m_thread_states p)[i := s]\<rparr>
            in if op \<noteq> 0 then (p', op, unavailable) else steal_scan busy p' is unavailable))"

definition pool_try_steal :: "(nat \<Rightarrow> bool) \<Rightarrow> 'q thread_pool \<Rightarrow> nat \<Rightarrow> 'q thread_pool \<times> u64" where
  "pool_try_steal busy p cur_thread_id =
     (let others = other_threads p cur_thread_id;
          (p1, op, any_locks_unavailable) = steal_scan busy p others False
      in if op \<noteq> 0 then (p1, op)
         else if any_locks_unavailable
              then (let (p2, op2, _) = steal_scan (\<lambda>_. False) p1 others False in (p2, op2))
              else (p1, 0))"

definition try_get_remote ::
    "('q \<Rightarrow> 'q \<times> u64) \<Rightarrow> (nat \<Rightarrow> bool) \<Rightarrow> 'q thread_pool \<Rightarrow> nat \<Rightarrow> 'q thread_pool \<times> u64" where
  "try_get_remote pop busy p thread_id =
     (let (p1, op) = try_global_dequeue pop p
      in if op = 0 then pool_try_steal busy p1 thread_id else (p1, op))"

text \<open>The head of the worker's inner loop: its own queue first, then the others.\<close>

definition worker_fetch ::
    "('q \<Rightarrow> 'q \<times> u64) \<Rightarrow> (nat \<Rightarrow> bool) \<Rightarrow> 'q thread_pool \<Rightarrow> nat \<Rightarrow> 'q thread_pool \<times> u64" where
  "worker_fetch pop busy p thread_id =
     (let (s, op) = try_local_pop (m_thread_states p ! thread_id);
          p1 = p\<lparr>m_thread_states := (m_thread_states p)[thread_id := s]\<rparr>
      in if op = 0 then try_get_remote pop busy p1 thread_id else (p1, op))"

section \<open>Sleeping and waking\<close>

definition try_wakeup :: "'q thread_pool \<Rightarrow> nat \<Rightarrow> 'q thread_pool \<times> bool" where
  "try_wakeup p i =
     (if m_is_sleep p ! i
      then (p\<lparr>m_is_sleep := (m_is_sleep p)[i := False],
              m_wakeup_event := (m_wakeup_event p)[i := True]\<rparr>, True)
      else (p, False))"

definition notify_intent_to_sleep :: "'q thread_pool \<Rightarrow> nat \<Rightarrow> 'q thread_pool" where
  "notify_intent_to_sleep p thread_id =
     p\<lparr>m_is_sleep := (m_is_sleep p)[thread_id := True],
       m_sleep_thread_count := m_sleep_thread_count p + 1\<rparr>"

fun wake_first :: "'q thread_pool \<Rightarrow> nat list \<Rightarrow> 'q thread_pool" where
  "wake_first p [] = p"
| "wake_first p (i # is) = (let (p', woken) = try_wakeup p i in if woken then p' else wake_first p' is)"

definition try_clear_intent_to_sleep :: "'q thread_pool \<Rightarrow> nat \<Rightarrow> 'q thread_pool" where
  "try_clear_intent_to_sleep p thread_id =
     (if m_sleep_thread_count p = 0 then p
      else (let p1 = p\<lparr>m_sleep_thread_count := m_sleep_thread_count p - 1\<rparr>;
                (p2, woken) = try_wakeup p1 thread_id
            in if woken then p2 else wake_first p2 (other_threads p2 thread_id)))"

text \<open>
  \<open>sleep_until_woken\<close> returns once the event is set, and resets it; \<open>None\<close> is a thread that
  stays blocked.
\<close>

definition sleep_until_woken :: "'q thread_pool \<Rightarrow> nat \<Rightarrow> 'q thread_pool option" where
  "sleep_until_woken p i =
     (if m_wakeup_event p ! i then Some (p\<lparr>m_wakeup_event := (m_wakeup_event p)[i := False]\<rparr>)
      else None)"

text \<open>One pass of \<open>wake_threads\<close> over the threads; the last component says that it returns.\<close>

fun wake_scan :: "'q thread_pool \<Rightarrow> nat list \<Rightarrow> u32 \<Rightarrow> u32 \<Rightarrow> 'q thread_pool \<times> u32 \<times> bool" where
  "wake_scan p [] woken num_to_wake = (p, woken, False)"
| "wake_scan p (i # is) woken num_to_wake =
     (let (p', awake) = try_wakeup p i
      in if awake then (if woken + 1 \<ge> num_to_wake then (p', woken + 1, True)
                        else wake_scan p' is (woken + 1) num_to_wake)
         else wake_scan p' is woken num_to_wake)"

partial_function (option) wake_loop ::
    "'q thread_pool \<Rightarrow> u32 \<Rightarrow> u32 \<Rightarrow> 'q thread_pool option" where
  "wake_loop p woken num_to_wake =
     (let (p', woken', finished) = wake_scan p [0..<thread_count p] woken num_to_wake
      in if finished then Some p'
         else if is_shutdown p' \<or> m_sleep_thread_count p' = 0 then Some p'
         else wake_loop p' woken' num_to_wake)"

definition wake_threads :: "'q thread_pool \<Rightarrow> u32 \<Rightarrow> 'q thread_pool option" where
  "wake_threads p num_threads =
     (if m_sleep_thread_count p = 0 then Some p
      else (let num_to_wake = (if m_sleep_thread_count p < num_threads
                               then m_sleep_thread_count p else num_threads)
            in wake_loop (p\<lparr>m_sleep_thread_count := m_sleep_thread_count p - num_to_wake\<rparr>)
                 0 num_to_wake))"

section \<open>Scheduling, the idle phase of a worker, shutdown\<close>

text \<open>
  The retry loop of \<open>schedule_impl\<close>, with as many attempts as \<open>fuel\<close>.
\<close>

fun global_enqueue_loop ::
    "nat \<Rightarrow> ('q \<Rightarrow> u64 \<Rightarrow> 'q \<times> bool) \<Rightarrow> 'q thread_pool \<Rightarrow> u64 \<Rightarrow> 'q thread_pool option" where
  "global_enqueue_loop 0 push p op = None"
| "global_enqueue_loop (Suc fuel) push p op =
     (let (p', ok) = try_global_enqueue push p op
      in if ok then Some p' else global_enqueue_loop fuel push p' op)"

text \<open>
  \<open>caller\<close> is the worker of this pool that schedules, if it is one; \<open>available\<close> and \<open>fresh\<close>
  say whether the allocator has memory and what it holds.
\<close>

definition schedule_local ::
    "bool \<Rightarrow> (u64 \<Rightarrow> u64) \<Rightarrow> nat option \<Rightarrow> 'q thread_pool \<Rightarrow> u64 \<Rightarrow> 'q thread_pool \<times> bool" where
  "schedule_local available fresh caller p op =
     (case caller of
        None \<Rightarrow> (p, False)
      | Some i \<Rightarrow>
          (let (s, ok) = try_local_enqueue available fresh (m_thread_states p ! i) op
           in (p\<lparr>m_thread_states := (m_thread_states p)[i := s]\<rparr>, ok)))"

definition schedule_impl ::
    "nat \<Rightarrow> ('q \<Rightarrow> u64 \<Rightarrow> 'q \<times> bool) \<Rightarrow> ('q \<Rightarrow> bool) \<Rightarrow> bool \<Rightarrow> (u64 \<Rightarrow> u64) \<Rightarrow> nat option \<Rightarrow>
     'q thread_pool \<Rightarrow> u64 \<Rightarrow> 'q thread_pool option" where
  "schedule_impl fuel push nonempty available fresh caller p op =
     (let (p1, queued) = schedule_local available fresh caller p op
      in case (if queued then Some p1 else global_enqueue_loop fuel push p1 op) of
           None \<Rightarrow> None
         | Some p2 \<Rightarrow>
             (let num = min (approx_total_work nonempty p2) (m_sleep_thread_count p2)
              in if num > 0 then wake_threads p2 num else Some p2))"

datatype worker_next = Process u64 | Exit | Sleep

text \<open>The spinning part of the idle phase: up to 30 rounds.\<close>

fun worker_spin ::
    "nat \<Rightarrow> ('q \<Rightarrow> 'q \<times> u64) \<Rightarrow> ('q \<Rightarrow> bool) \<Rightarrow> (nat \<Rightarrow> bool) \<Rightarrow> 'q thread_pool \<Rightarrow> nat \<Rightarrow>
     'q thread_pool \<times> worker_next option" where
  "worker_spin 0 pop nonempty busy p thread_id = (p, None)"
| "worker_spin (Suc n) pop nonempty busy p thread_id =
     (if is_shutdown p then (p, Some Exit)
      else if pool_approx_has_queued_work nonempty p thread_id
      then (let (p', op) = try_get_remote pop busy p thread_id
            in if op \<noteq> 0 then (p', Some (Process op))
               else worker_spin n pop nonempty busy p' thread_id)
      else worker_spin n pop nonempty busy p thread_id)"

text \<open>The part after it: announcing the sleep, checking once more, sleeping.\<close>

definition worker_going_to_sleep ::
    "('q \<Rightarrow> u64 \<Rightarrow> 'q \<times> bool) \<Rightarrow> ('q \<Rightarrow> 'q \<times> u64) \<Rightarrow> (nat \<Rightarrow> bool) \<Rightarrow> 'q thread_pool \<Rightarrow> nat \<Rightarrow>
     'q thread_pool \<times> worker_next" where
  "worker_going_to_sleep push pop busy p thread_id =
     (let p1 = notify_intent_to_sleep p thread_id;
          (p2, has) = pool_has_queued_work push pop p1 thread_id;
          (p3, op) = (if has then try_get_remote pop busy p2 thread_id else (p2, 0))
      in if op \<noteq> 0 then (try_clear_intent_to_sleep p3 thread_id, Process op)
         else if is_shutdown p3 then (p3, Exit) else (p3, Sleep))"

definition worker_idle ::
    "('q \<Rightarrow> u64 \<Rightarrow> 'q \<times> bool) \<Rightarrow> ('q \<Rightarrow> 'q \<times> u64) \<Rightarrow> ('q \<Rightarrow> bool) \<Rightarrow> (nat \<Rightarrow> bool) \<Rightarrow>
     'q thread_pool \<Rightarrow> nat \<Rightarrow> 'q thread_pool \<times> worker_next" where
  "worker_idle push pop nonempty busy p thread_id =
     (case worker_spin 30 pop nonempty busy p thread_id of
        (p', Some r) \<Rightarrow> (p', r)
      | (p', None) \<Rightarrow> worker_going_to_sleep push pop busy p' thread_id)"

definition shutdown_asserts :: "'q thread_pool \<Rightarrow> bool" where
  "shutdown_asserts p \<longleftrightarrow> list_all (\<lambda>s. \<not> has_queued_work s) (m_thread_states p)"

definition shutdown :: "'q thread_pool \<Rightarrow> 'q thread_pool" where
  "shutdown p = fold (\<lambda>i p. fst (try_wakeup p i)) [0..<thread_count p] (p\<lparr>m_stop := True\<rparr>)"

section \<open>What the queues hold\<close>

text \<open>The operations of the global queue and of each thread's queue, in order.\<close>

definition pool_queues ::
    "('q \<Rightarrow> u64 list \<Rightarrow> bool) \<Rightarrow> 'q thread_pool \<Rightarrow> u64 list \<Rightarrow> u64 list list \<Rightarrow> bool" where
  "pool_queues content p xs ls \<longleftrightarrow>
     content (m_global_queue p) xs \<and> list_all2 local_content (m_thread_states p) ls"

definition pool_holds :: "('q \<Rightarrow> u64 list \<Rightarrow> bool) \<Rightarrow> 'q thread_pool \<Rightarrow> u64 multiset \<Rightarrow> bool" where
  "pool_holds content p M \<longleftrightarrow>
     (\<exists>xs ls. pool_queues content p xs ls \<and> M = mset xs + mset (concat ls))"

lemma mset_concat_upd:
  "i < length ls \<Longrightarrow> mset (concat (ls[i := ys])) + mset (ls ! i) = mset (concat ls) + mset ys"
proof (induction ls arbitrary: i)
  case (Cons l ls)
  then show ?case by (cases i) (auto simp: ac_simps)
qed simp

lemma mset_concat_take:
  "i < length ls \<Longrightarrow> mset (ls ! i) = add_mset x (mset ys) \<Longrightarrow>
   mset (concat ls) = add_mset x (mset (concat (ls[i := ys])))"
  using mset_concat_upd [of i ls ys] by simp

lemma local_contents_upd:
  "list_all2 local_content ss ls \<Longrightarrow> local_content s ys \<Longrightarrow>
   list_all2 local_content (ss[i := s]) (ls[i := ys])"
  by (rule list_all2_update_cong)

lemma local_contents_keep:
  assumes "list_all2 local_content ss ls" "i < length ss" "local_content s (ls ! i)"
  shows "list_all2 local_content (ss[i := s]) ls"
  using local_contents_upd [OF assms(1,3), of i] by simp

text \<open>
  A pass of stealing either takes the first operation of one of the queues it looked at, or
  changes no content; then every queue whose mutex was free is empty.
\<close>

lemma steal_scan_result:
  assumes "list_all2 local_content (m_thread_states p) ls" "\<forall>i\<in>set is. i < length ls"
    "steal_scan busy p is un = (p', op, un')"
  shows "\<exists>ss. p' = p\<lparr>m_thread_states := ss\<rparr> \<and>
    (op = 0 \<and> list_all2 local_content ss ls \<and> (un' \<longleftrightarrow> un \<or> (\<exists>i\<in>set is. busy i)) \<and>
       (\<forall>i\<in>set is. busy i \<or> ls ! i = []) \<or>
     op \<noteq> 0 \<and> (\<exists>i\<in>set is. \<exists>ys. ls ! i = op # ys \<and> list_all2 local_content ss (ls[i := ys])))"
  using assms
proof (induction "is" arbitrary: p un)
  case Nil
  then show ?case by (intro exI [of _ "m_thread_states p"]) simp
next
  case (Cons i "is")
  show ?case
  proof (cases "busy i")
    case True
    with Cons.prems Cons.IH [of p True] show ?thesis by auto
  next
    case False
    obtain s x where st: "try_steal (m_thread_states p ! i) = (s, x)" by fastforce
    let ?p = "p\<lparr>m_thread_states := (m_thread_states p)[i := s]\<rparr>"
    have len: "i < length ls" "length (m_thread_states p) = length ls"
      using Cons.prems by (auto dest: list_all2_lengthD)
    then have con: "local_content (m_thread_states p ! i) (ls ! i)"
      using Cons.prems(1) by (simp add: list_all2_nthD)
    from local_queue_as_work.pop_result [OF con st] show ?thesis
    proof (elim disjE conjE exE)
      assume e: "ls ! i = []" "x = 0" "local_content s []"
      then have "list_all2 local_content (m_thread_states ?p) ls"
        using Cons.prems(1) len by (simp add: local_contents_keep)
      moreover have "steal_scan busy ?p is un = (p', op, un')"
        using Cons.prems(3) False st e by simp
      ultimately obtain ss where "p' = ?p\<lparr>m_thread_states := ss\<rparr>" and
        "op = 0 \<and> list_all2 local_content ss ls \<and> (un' \<longleftrightarrow> un \<or> (\<exists>i\<in>set is. busy i)) \<and>
           (\<forall>i\<in>set is. busy i \<or> ls ! i = []) \<or>
         op \<noteq> 0 \<and> (\<exists>i\<in>set is. \<exists>ys. ls ! i = op # ys \<and> list_all2 local_content ss (ls[i := ys]))"
        using Cons.IH [of ?p un] Cons.prems(2) by auto
      then show ?thesis using e False by (intro exI [of _ ss]) auto
    next
      fix ys
      assume e: "x \<noteq> 0" "ls ! i = x # ys" "local_content s ys"
      then have "p' = ?p" "op = x" using Cons.prems(3) False st by auto
      moreover have "list_all2 local_content ((m_thread_states p)[i := s]) (ls[i := ys])"
        using Cons.prems(1) e by (simp add: local_contents_upd)
      ultimately show ?thesis
        using e by (intro exI [of _ "(m_thread_states p)[i := s]"]) auto
    qed
  qed
qed

lemma other_threads_bound: "i \<in> set (other_threads p t) \<Longrightarrow> i < thread_count p"
  by (simp add: other_threads_def)

lemma pool_try_steal_result:
  assumes con: "list_all2 local_content (m_thread_states p) ls"
    and run: "pool_try_steal busy p t = (p', op)"
  shows "\<exists>ss. p' = p\<lparr>m_thread_states := ss\<rparr> \<and>
    (op = 0 \<and> list_all2 local_content ss ls \<and> (\<forall>i<length ls. i \<noteq> t \<longrightarrow> ls ! i = []) \<or>
     op \<noteq> 0 \<and> (\<exists>i<length ls. i \<noteq> t \<and> (\<exists>ys. ls ! i = op # ys \<and> list_all2 local_content ss (ls[i := ys]))))"
proof -
  let ?os = "other_threads p t"
  have len: "length (m_thread_states p) = length ls" using con by (rule list_all2_lengthD)
  then have os: "set ?os = {i. i < length ls \<and> i \<noteq> t}"
    by (auto simp: other_threads_def thread_count_def)
  then have bound: "\<forall>i\<in>set ?os. i < length ls" by simp
  obtain p1 op1 un1 where r1: "steal_scan busy p ?os False = (p1, op1, un1)" by (metis prod_cases3)
  from steal_scan_result [OF con bound r1] obtain ss where ss: "p1 = p\<lparr>m_thread_states := ss\<rparr>" and
    c1: "op1 = 0 \<and> list_all2 local_content ss ls \<and> (un1 \<longleftrightarrow> (\<exists>i\<in>set ?os. busy i)) \<and>
       (\<forall>i\<in>set ?os. busy i \<or> ls ! i = []) \<or>
     op1 \<noteq> 0 \<and> (\<exists>i\<in>set ?os. \<exists>ys. ls ! i = op1 # ys \<and> list_all2 local_content ss (ls[i := ys]))"
    by auto
  show ?thesis
  proof (cases "op1 \<noteq> 0 \<or> \<not> un1")
    case True
    then have "p' = p1" "op = op1" using run r1 by (auto simp: pool_try_steal_def split: if_splits)
    with ss c1 True os show ?thesis by (intro exI [of _ ss]) auto
  next
    case False
    obtain p2 op2 un2 where r2: "steal_scan (\<lambda>_. False) p1 ?os False = (p2, op2, un2)"
      by (metis prod_cases3)
    have "p' = p2" "op = op2" using False run r1 r2 by (auto simp: pool_try_steal_def)
    moreover have "list_all2 local_content (m_thread_states p1) ls" using False c1 ss by simp
    from steal_scan_result [OF this bound r2] obtain ss' where "p2 = p1\<lparr>m_thread_states := ss'\<rparr>" and
      "op2 = 0 \<and> list_all2 local_content ss' ls \<and> (\<forall>i\<in>set ?os. ls ! i = []) \<or>
     op2 \<noteq> 0 \<and> (\<exists>i\<in>set ?os. \<exists>ys. ls ! i = op2 # ys \<and> list_all2 local_content ss' (ls[i := ys]))"
      by auto
    ultimately show ?thesis using ss os by (intro exI [of _ ss']) auto
  qed
qed

context work_queue
begin

lemma try_get_remote_result:
  assumes q: "pool_queues content p xs ls" and run: "try_get_remote pop busy p t = (p', op)"
  shows "if xs \<noteq> [] then op = hd xs \<and> op \<noteq> 0 \<and> pool_queues content p' (tl xs) ls
    else if \<exists>i<length ls. i \<noteq> t \<and> ls ! i \<noteq> []
    then op \<noteq> 0 \<and> (\<exists>i<length ls. ls ! i \<noteq> [] \<and> op = hd (ls ! i) \<and> pool_queues content p' [] (ls[i := tl (ls ! i)]))
    else op = 0 \<and> pool_queues content p' [] ls"
proof -
  obtain q' x where pop: "pop (m_global_queue p) = (q', x)" by fastforce
  from q have con: "content (m_global_queue p) xs" "list_all2 local_content (m_thread_states p) ls"
    by (auto simp: pool_queues_def)
  from pop_result [OF con(1) pop] show ?thesis
  proof (elim disjE conjE exE)
    assume e: "xs = []" "x = 0" "content q' []"
    let ?p = "p\<lparr>m_global_queue := q'\<rparr>"
    have "pool_try_steal busy ?p t = (p', op)" "list_all2 local_content (m_thread_states ?p) ls"
      using run pop e con by (simp_all add: try_get_remote_def try_global_dequeue_def)
    from pool_try_steal_result [OF this(2,1)] obtain ss where "p' = ?p\<lparr>m_thread_states := ss\<rparr>" and
      "op = 0 \<and> list_all2 local_content ss ls \<and> (\<forall>i<length ls. i \<noteq> t \<longrightarrow> ls ! i = []) \<or>
       op \<noteq> 0 \<and> (\<exists>i<length ls. i \<noteq> t \<and> (\<exists>ys. ls ! i = op # ys \<and> list_all2 local_content ss (ls[i := ys])))"
      by blast
    then show ?thesis using e by (fastforce simp: pool_queues_def)
  next
    fix ys
    assume "x \<noteq> 0" "xs = x # ys" "content q' ys"
    then show ?thesis using run pop con
      by (auto simp: try_get_remote_def try_global_dequeue_def pool_queues_def)
  qed
qed

lemma worker_fetch_result:
  assumes q: "pool_queues content p xs ls" and t: "t < length ls"
    and run: "worker_fetch pop busy p t = (p', op)"
  shows "if ls ! t \<noteq> [] then op = last (ls ! t) \<and> pool_queues content p' xs (ls[t := butlast (ls ! t)])
    else if xs \<noteq> [] then op = hd xs \<and> pool_queues content p' (tl xs) ls
    else if \<exists>i<length ls. ls ! i \<noteq> []
    then \<exists>i<length ls. ls ! i \<noteq> [] \<and> op = hd (ls ! i) \<and> pool_queues content p' [] (ls[i := tl (ls ! i)])
    else op = 0 \<and> pool_queues content p' [] ls"
proof -
  from q have con: "content (m_global_queue p) xs" "list_all2 local_content (m_thread_states p) ls"
    by (auto simp: pool_queues_def)
  have len: "length (m_thread_states p) = length ls" using con(2) by (rule list_all2_lengthD)
  then have mine: "local_content (m_thread_states p ! t) (ls ! t)"
    using con(2) t by (simp add: list_all2_nthD)
  show ?thesis
  proof (cases "ls ! t" rule: rev_cases)
    case Nil
    then have "worker_fetch pop busy p t = try_get_remote pop busy p t"
      using mine t len by (simp add: worker_fetch_def try_local_pop_empty)
    with run have "try_get_remote pop busy p t = (p', op)" by simp
    from try_get_remote_result [OF q this] Nil show ?thesis
      by (cases "xs = []"; cases "\<exists>i<length ls. i \<noteq> t \<and> ls ! i \<noteq> []") auto
  next
    case (snoc ys y)
    with mine obtain s where "try_local_pop (m_thread_states p ! t) = (s, y)" "local_content s ys"
      using try_local_pop_last by fastforce
    moreover have "y \<noteq> 0" using mine snoc by (auto simp: local_content_def)
    ultimately show ?thesis
      using run snoc con by (auto simp: worker_fetch_def pool_queues_def local_contents_upd)
  qed
qed

lemma schedule_local_result:
  assumes q: "pool_queues content p xs ls" and op: "op \<noteq> 0"
    and caller: "\<forall>i. caller = Some i \<longrightarrow> i < length ls"
    and run: "schedule_local available fresh caller p op = (p', ok)"
  shows "if ok then \<exists>i. caller = Some i \<and> pool_queues content p' xs (ls[i := ls ! i @ [op]])
    else pool_queues content p' xs ls"
proof (cases caller)
  case None
  with run q show ?thesis by (auto simp: schedule_local_def)
next
  case (Some i)
  from q have con: "list_all2 local_content (m_thread_states p) ls" by (simp add: pool_queues_def)
  have i: "i < length ls" "length (m_thread_states p) = length ls"
    using Some caller con by (auto dest: list_all2_lengthD)
  then have mine: "local_content (m_thread_states p ! i) (ls ! i)" using con by (simp add: list_all2_nthD)
  obtain s b where e: "try_local_enqueue available fresh (m_thread_states p ! i) op = (s, b)" by fastforce
  from try_local_enqueue_content [OF mine op e] have "local_content s (if b then ls ! i @ [op] else ls ! i)" .
  then show ?thesis
    using run e Some q i con
    by (auto simp: schedule_local_def pool_queues_def local_contents_upd local_contents_keep)
qed

lemma global_enqueue_loop_result:
  assumes "content (m_global_queue p) xs" "op \<noteq> 0" "global_enqueue_loop fuel push p op = Some p'"
  shows "\<exists>q. p' = p\<lparr>m_global_queue := q\<rparr> \<and> content q (xs @ [op])"
  using assms
proof (induction fuel arbitrary: p)
  case (Suc fuel)
  obtain q ok where e: "push (m_global_queue p) op = (q, ok)" by fastforce
  show ?case
  proof (cases ok)
    case True
    with e Suc.prems push_accepted show ?thesis by (auto simp: try_global_enqueue_def)
  next
    case False
    with e Suc.prems have "content q xs" using push_refused by auto
    with Suc.IH [of "p\<lparr>m_global_queue := q\<rparr>"] Suc.prems e False show ?thesis
      by (auto simp: try_global_enqueue_def)
  qed
qed simp

lemma has_queued_work_rotates:
  assumes q: "pool_queues content p (x # xs) ls"
    and ok: "\<And>r. content r xs \<Longrightarrow> snd (push r x)"
    and run: "pool_has_queued_work push pop p t = (p', b)"
  shows "b \<and> pool_queues content p' (xs @ [x]) ls"
proof -
  obtain r y where pop: "pop (m_global_queue p) = (r, y)" by fastforce
  have con: "content (m_global_queue p) (x # xs)" using q by (simp add: pool_queues_def)
  from pop_result [OF con pop] have y: "y = x" "x \<noteq> 0" "content r xs" by auto
  obtain r' ok' where push: "push r x = (r', ok')" by fastforce
  with ok [OF y(3)] have "content r' (xs @ [x])" using push_accepted [OF y(3,2)] by simp
  then show ?thesis using run pop y push q by (auto simp: pool_has_queued_work_def pool_queues_def)
qed

end

section \<open>Whom the wake-ups reach\<close>

definition flags_ok :: "'q thread_pool \<Rightarrow> bool" where
  "flags_ok p \<longleftrightarrow> length (m_is_sleep p) = thread_count p \<and> length (m_wakeup_event p) = thread_count p"

definition sleepers :: "'q thread_pool \<Rightarrow> nat list" where
  "sleepers p = filter (\<lambda>i. m_is_sleep p ! i) [0..<thread_count p]"

definition wake_all :: "'q thread_pool \<Rightarrow> nat list \<Rightarrow> 'q thread_pool" where
  "wake_all p is = fold (\<lambda>i p. fst (try_wakeup p i)) is p"

lemma wake_all_simps [simp]:
  "wake_all p [] = p" "wake_all p (i # is) = wake_all (fst (try_wakeup p i)) is"
  by (simp_all add: wake_all_def)

lemma try_wakeup_frame [simp]:
  "m_thread_states (fst (try_wakeup p i)) = m_thread_states p"
  "m_global_queue (fst (try_wakeup p i)) = m_global_queue p"
  "m_stop (fst (try_wakeup p i)) = m_stop p"
  "m_sleep_thread_count (fst (try_wakeup p i)) = m_sleep_thread_count p"
  "thread_count (fst (try_wakeup p i)) = thread_count p"
  "length (m_is_sleep (fst (try_wakeup p i))) = length (m_is_sleep p)"
  "length (m_wakeup_event (fst (try_wakeup p i))) = length (m_wakeup_event p)"
  by (simp_all add: try_wakeup_def thread_count_def)

lemma wake_all_frame [simp]:
  "m_thread_states (wake_all p is) = m_thread_states p"
  "m_global_queue (wake_all p is) = m_global_queue p"
  "m_stop (wake_all p is) = m_stop p"
  "m_sleep_thread_count (wake_all p is) = m_sleep_thread_count p"
  "thread_count (wake_all p is) = thread_count p"
  "length (m_is_sleep (wake_all p is)) = length (m_is_sleep p)"
  "length (m_wakeup_event (wake_all p is)) = length (m_wakeup_event p)"
  by (induction "is" arbitrary: p) simp_all

lemma try_wakeup_flags:
  "i < length (m_is_sleep p) \<Longrightarrow> length (m_wakeup_event p) = length (m_is_sleep p) \<Longrightarrow>
   m_is_sleep (fst (try_wakeup p j)) ! i = (m_is_sleep p ! i \<and> i \<noteq> j) \<and>
   m_wakeup_event (fst (try_wakeup p j)) ! i = (m_wakeup_event p ! i \<or> i = j \<and> m_is_sleep p ! i)"
  by (cases "i = j") (auto simp: try_wakeup_def)

lemma wake_all_flags:
  "i < length (m_is_sleep p) \<Longrightarrow> length (m_wakeup_event p) = length (m_is_sleep p) \<Longrightarrow>
   m_is_sleep (wake_all p is) ! i = (m_is_sleep p ! i \<and> i \<notin> set is) \<and>
   m_wakeup_event (wake_all p is) ! i = (m_wakeup_event p ! i \<or> i \<in> set is \<and> m_is_sleep p ! i)"
proof (induction "is" arbitrary: p)
  case (Cons j "is")
  with Cons.IH [of "fst (try_wakeup p j)"] try_wakeup_flags [of i p j] show ?case by auto
qed simp

lemma wake_scan_result:
  assumes "distinct is" "\<forall>i\<in>set is. i < length (m_is_sleep p)" "unat woken < unat num"
  shows "wake_scan p is woken num =
    (let sl = filter (\<lambda>i. m_is_sleep p ! i) is; r = unat num - unat woken
     in if r \<le> length sl then (wake_all p (take r sl), num, True)
        else (wake_all p sl, woken + of_nat (length sl), False))"
  using assms
proof (induction "is" arbitrary: p woken)
  case Nil
  then show ?case by (simp add: Let_def)
next
  case (Cons i "is")
  let ?p = "fst (try_wakeup p i)"
  show ?case
  proof (cases "m_is_sleep p ! i")
    case False
    then have "try_wakeup p i = (p, False)" by (simp add: try_wakeup_def)
    with Cons.IH [of p woken] Cons.prems False show ?thesis by (simp add: Let_def)
  next
    case True
    then have tw: "snd (try_wakeup p i)" by (simp add: try_wakeup_def)
    have "m_is_sleep ?p ! j = m_is_sleep p ! j" if "j \<in> set is" for j
      using that Cons.prems True by (auto simp: try_wakeup_def nth_list_update)
    then have fl: "filter (\<lambda>j. m_is_sleep ?p ! j) is = filter (\<lambda>j. m_is_sleep p ! j) is"
      by (intro filter_cong) auto
    have "unat num < 2 ^ LENGTH(32)" by (rule unsigned_less)
    then have "unat woken + 1 < 2 ^ 32" using Cons.prems(3) by simp
    then have u: "unat (woken + 1) = unat woken + 1" by (simp add: unat_plus_simple unat_word_ariths)
    show ?thesis
    proof (cases "num \<le> woken + 1")
      case True': True
      then have "unat num - unat woken = 1" "woken + 1 = num"
        using u Cons.prems(3) by (auto simp: word_le_nat_alt intro: word_unat_eq_iff [THEN iffD2])
      then show ?thesis using tw True True' by (simp add: case_prod_beta)
    next
      case False
      then have lt: "unat (woken + 1) < unat num" by (simp add: word_le_nat_alt)
      then obtain r where r: "unat num - unat woken = Suc r" "r = unat num - unat (woken + 1)"
        using u by (intro that [of "unat num - unat (woken + 1)"]) simp_all
      have "wake_scan p (i # is) woken num = wake_scan ?p is (woken + 1) num"
        using tw False by (simp add: case_prod_beta)
      also have "\<dots> = (let sl = filter (\<lambda>j. m_is_sleep p ! j) is
          in if r \<le> length sl then (wake_all ?p (take r sl), num, True)
             else (wake_all ?p sl, woken + 1 + of_nat (length sl), False))"
        using Cons.IH [of ?p "woken + 1"] Cons.prems lt by (simp add: fl r(2) Let_def)
      finally show ?thesis using True r(1) by (simp add: Let_def ac_simps)
    qed
  qed
qed

lemma wake_loop_spins:
  assumes "wake_loop p woken num = Some q"
  shows "sleepers p = [] \<Longrightarrow> \<not> m_stop p \<Longrightarrow> m_sleep_thread_count p \<noteq> 0 \<Longrightarrow> False"
  using assms
proof (induction rule: wake_loop.raw_induct [rotated, OF assms])
  case (1 wake_loop p woken num q)
  have "wake_scan p is woken num = (p, woken, False)" if "\<forall>i\<in>set is. \<not> m_is_sleep p ! i" for "is"
    using that by (induction "is") (auto simp: try_wakeup_def)
  then have "wake_scan p [0..<thread_count p] woken num = (p, woken, False)"
    using 1(3) by (simp add: sleepers_def filter_empty_conv)
  with 1 show ?case by (simp add: is_shutdown_def)
qed

lemma sleepers_all: "flags_ok p \<Longrightarrow> i < thread_count p \<Longrightarrow> m_is_sleep p ! i \<longleftrightarrow> i \<in> set (sleepers p)"
  by (auto simp: sleepers_def)

lemma wake_loop_wakes:
  assumes fl: "flags_ok p" and num: "num > 0" and enough: "unat num \<le> length (sleepers p)"
  shows "wake_loop p 0 num = Some (wake_all p (take (unat num) (sleepers p)))"
proof -
  have "wake_scan p [0..<thread_count p] 0 num
      = (wake_all p (take (unat num) (sleepers p)), num, True)"
    using fl num enough wake_scan_result [of "[0..<thread_count p]" p 0 num]
    by (simp add: flags_ok_def sleepers_def unat_gt_0 word_neq_0_conv)
  then show ?thesis by (subst wake_loop.simps) simp
qed

lemma wake_loop_few:
  assumes fl: "flags_ok p" and num: "num > 0" and few: "length (sleepers p) < unat num"
    and run: "\<not> m_stop p" "m_sleep_thread_count p \<noteq> 0"
  shows "wake_loop p 0 num = None"
proof -
  let ?q = "wake_all p (sleepers p)"
  have len: "length (m_is_sleep p) = thread_count p" "length (m_wakeup_event p) = thread_count p"
    using fl by (simp_all add: flags_ok_def)
  have scan: "wake_scan p [0..<thread_count p] 0 num = (?q, of_nat (length (sleepers p)), False)"
    using len num few wake_scan_result [of "[0..<thread_count p]" p 0 num]
    by (simp add: sleepers_def unat_gt_0 word_neq_0_conv Let_def)
  have "sleepers ?q = []"
    using len wake_all_flags [of _ p "sleepers p"] by (auto simp: sleepers_def filter_empty_conv)
  then have "wake_loop ?q (of_nat (length (sleepers p))) num = None"
    using wake_loop_spins [of ?q "of_nat (length (sleepers p))" num] run
    by (cases "wake_loop ?q (of_nat (length (sleepers p))) num") auto
  then show ?thesis using run by (subst wake_loop.simps) (simp add: scan is_shutdown_def)
qed

lemma wake_scan_queues:
  "wake_scan p is w n = (q, w', b) \<Longrightarrow> m_thread_states q = m_thread_states p \<and>
   m_global_queue q = m_global_queue p"
proof (induction "is" arbitrary: p w)
  case (Cons i "is")
  from Cons.prems Cons.IH [of "fst (try_wakeup p i)"] show ?case
    by (auto simp: case_prod_beta split: if_splits)
qed simp

lemma wake_loop_queues:
  assumes "wake_loop p w n = Some q"
  shows "m_thread_states q = m_thread_states p \<and> m_global_queue q = m_global_queue p"
proof (induction rule: wake_loop.raw_induct [rotated, OF assms])
  case (1 wake_loop p w n q)
  obtain p' w' b where e: "wake_scan p [0..<thread_count p] w n = (p', w', b)" by (metis prod_cases3)
  with 1 wake_scan_queues [OF e] show ?case by (auto split: if_splits)
qed

lemma wake_threads_queues:
  "wake_threads p n = Some q \<Longrightarrow> pool_queues content q xs ls = pool_queues content p xs ls"
  by (auto simp: wake_threads_def Let_def pool_queues_def dest!: wake_loop_queues split: if_splits)

section \<open>Properties\<close>

definition demo_pool :: "lock_free_queue thread_pool" where
  "demo_pool = thread_pool_new (fst (lfq_push lock_free_queue_new 7)) lq_demo0 2"

definition sleepy_pool :: "u32 \<Rightarrow> lock_free_queue thread_pool" where
  "sleepy_pool n = demo_pool\<lparr>m_is_sleep := [True, False], m_sleep_thread_count := n\<rparr>"

lemma demo_queue: "queue_content (fst (lfq_push lock_free_queue_new 7)) [7]"
  using enqueue_appends [OF queue_content_new, of 7 "[]"] by (auto simp: lfq_push_def)

lemma demo_pool_queues: "pool_queues queue_content demo_pool [7] [[], []]"
proof -
  have "local_content lq_demo0 []"
    by (rule local_content_init) (simp add: local_queue_init_def lq_demo0_def local_queue_size_def)
  then show ?thesis
    using demo_queue by (simp add: pool_queues_def demo_pool_def thread_pool_new_def numeral_2_eq_2)
qed

lemma sleepy_pool_queues: "pool_queues queue_content (sleepy_pool n) [7] [[], []]"
  using demo_pool_queues by (simp add: pool_queues_def sleepy_pool_def)

lemma sleepy_pool_sleepers: "sleepers (sleepy_pool n) = [0]" "flags_ok (sleepy_pool n)"
  by (simp_all add: sleepers_def flags_ok_def sleepy_pool_def demo_pool_def thread_pool_new_def
      thread_count_def upt_rec)

text \<open>What a fetch may write: the queues, and nothing else of the pool.\<close>

definition same_but_queues :: "'q thread_pool \<Rightarrow> 'q thread_pool \<Rightarrow> bool" where
  "same_but_queues p p' \<longleftrightarrow> thread_count p' = thread_count p \<and> m_stop p' = m_stop p \<and>
     m_sleep_thread_count p' = m_sleep_thread_count p \<and> m_is_sleep p' = m_is_sleep p \<and>
     m_wakeup_event p' = m_wakeup_event p"

lemma same_but_queues_trans: "same_but_queues p q \<Longrightarrow> same_but_queues q r \<Longrightarrow> same_but_queues p r"
  by (simp add: same_but_queues_def)

lemma steal_scan_frame: "steal_scan busy p is u = (p', r) \<Longrightarrow> same_but_queues p p'"
proof (induction "is" arbitrary: p u)
  case (Cons i "is")
  let ?q = "p\<lparr>m_thread_states := (m_thread_states p)[i := fst (try_steal (m_thread_states p ! i))]\<rparr>"
  have q: "same_but_queues p ?q" by (simp add: same_but_queues_def thread_count_def)
  show ?case
    using Cons.prems Cons.IH [of p True] Cons.IH [of ?q u] same_but_queues_trans [OF q] q
    by (auto simp: Let_def case_prod_beta split: if_splits)
qed (simp add: same_but_queues_def)

lemma pool_try_steal_frame: "pool_try_steal busy p t = (p', op) \<Longrightarrow> same_but_queues p p'"
  unfolding pool_try_steal_def Let_def
  by (auto simp: case_prod_beta prod_eq_iff intro: same_but_queues_trans steal_scan_frame [OF prod.collapse [symmetric]]
      split: if_splits)

lemma try_get_remote_frame: "try_get_remote pop busy p t = (p', op) \<Longrightarrow> same_but_queues p p'"
  unfolding try_get_remote_def try_global_dequeue_def
  by (auto simp: case_prod_beta same_but_queues_def thread_count_def
      dest!: pool_try_steal_frame split: if_splits)

lemma worker_fetch_frame: "worker_fetch pop busy p t = (p', op) \<Longrightarrow> same_but_queues p p'"
  unfolding worker_fetch_def
  by (auto simp: case_prod_beta same_but_queues_def thread_count_def Let_def
      dest!: try_get_remote_frame split: if_splits)

text \<open>
  C9. Where a worker finds its next operation, for every global queue that meets the queue
  interface: it takes the newest operation of its own queue, else the oldest of the global
  queue, else the oldest of some other thread's queue, whichever mutexes are busy; it finds
  none exactly when no queue holds any, and it removes just the one it takes. It changes
  neither the sleep flags, the sleep counter, the wake-up events, the stop flag nor the number
  of threads. No other call overlaps it.
\<close>

theorem worker_fetch_order:
  assumes "work_queue content push pop nonempty" and "pool_queues content p xs ls"
    and "t < length ls" and "worker_fetch pop busy p t = (p', op)"
  shows "(if ls ! t \<noteq> [] then op = last (ls ! t) \<and> pool_queues content p' xs (ls[t := butlast (ls ! t)])
    else if xs \<noteq> [] then op = hd xs \<and> pool_queues content p' (tl xs) ls
    else if \<exists>i<length ls. ls ! i \<noteq> []
    then \<exists>i<length ls. ls ! i \<noteq> [] \<and> op = hd (ls ! i) \<and> pool_queues content p' [] (ls[i := tl (ls ! i)])
    else op = 0 \<and> pool_queues content p' [] ls) \<and>
    same_but_queues p p'"
  using work_queue.worker_fetch_result [OF assms] worker_fetch_frame [OF assms(4)] by (rule conjI)

theorem worker_fetch_order_witness:
  "\<exists>p'. worker_fetch lfq_pop (\<lambda>_. True) demo_pool 1 = (p', 7) \<and>
    pool_queues queue_content p' [] [[], []] \<and> same_but_queues demo_pool p'"
proof -
  obtain p' op where "worker_fetch lfq_pop (\<lambda>_. True) demo_pool 1 = (p', op)" by fastforce
  with worker_fetch_order [OF lfq.work_queue_axioms demo_pool_queues _ this] show ?thesis by auto
qed

lemma schedule_impl_result:
  assumes wq: "work_queue content push pop nonempty" and q: "pool_queues content p xs ls"
    and op: "op \<noteq> 0" and caller: "\<forall>i. caller = Some i \<longrightarrow> i < length ls"
    and run: "schedule_impl fuel push nonempty available fresh caller p op = Some p'"
  shows "(\<exists>i. caller = Some i \<and> pool_queues content p' xs (ls[i := ls ! i @ [op]])) \<or>
    pool_queues content p' (xs @ [op]) ls"
proof -
  obtain p1 queued where l: "schedule_local available fresh caller p op = (p1, queued)" by fastforce
  note local = work_queue.schedule_local_result [OF wq q op caller l]
  from run l obtain p2 where p2: "(if queued then Some p1 else global_enqueue_loop fuel push p1 op) = Some p2"
    and wake: "p' = p2 \<or> (\<exists>num. wake_threads p2 num = Some p')"
    by (auto simp: schedule_impl_def Let_def split: option.splits if_splits)
  have "(\<exists>i. caller = Some i \<and> pool_queues content p2 xs (ls[i := ls ! i @ [op]])) \<or>
      pool_queues content p2 (xs @ [op]) ls"
  proof (cases queued)
    case True
    with p2 local show ?thesis by simp
  next
    case False
    then have g: "global_enqueue_loop fuel push p1 op = Some p2" and
      c: "content (m_global_queue p1) xs" "list_all2 local_content (m_thread_states p1) ls"
      using p2 local by (simp_all add: pool_queues_def)
    from work_queue.global_enqueue_loop_result [OF wq c(1) op g] c(2)
    show ?thesis by (auto simp: pool_queues_def)
  qed
  then show ?thesis using wake wake_threads_queues [of p2 _ p' content] by auto
qed

text \<open>
  Scheduling adds the operation to exactly one queue: to the end of the calling worker's
  queue, or, from another thread or when the local enqueue fails, to the end of the global
  queue; no other operation moves. It returns when the global queue accepts the push and the
  sleep counter does not exceed the number of threads that wait for a wake-up.
\<close>

theorem schedule_impl_adds_one:
  assumes "work_queue content push pop nonempty" and "pool_queues content p xs ls"
    and "op \<noteq> 0" and "\<forall>i. caller = Some i \<longrightarrow> i < length ls"
    and "schedule_impl fuel push nonempty available fresh caller p op = Some p'"
  shows "(\<exists>i. caller = Some i \<and> pool_queues content p' xs (ls[i := ls ! i @ [op]])) \<or>
    pool_queues content p' (xs @ [op]) ls"
  by (rule schedule_impl_result [OF assms])

theorem schedule_impl_adds_one_witness:
  "\<exists>p'. schedule_impl 1 lfq_push peek True (\<lambda>_. 0) None demo_pool 9 = Some p' \<and>
    pool_queues queue_content p' [7, 9] [[], []]"
proof -
  have "snd (lfq_push (m_global_queue demo_pool) 9)"
    using demo_pool_queues enqueue_appends [of _ "[7]" 9 "[]"]
    by (auto simp: lfq_push_def pool_queues_def split: option.splits)
  then obtain p' where "schedule_impl 1 lfq_push peek True (\<lambda>_. 0) None demo_pool 9 = Some p'"
    by (auto simp: schedule_impl_def schedule_local_def try_global_enqueue_def case_prod_beta
        Let_def demo_pool_def thread_pool_new_def)
  with schedule_impl_adds_one [OF lfq.work_queue_axioms demo_pool_queues _ _ this] show ?thesis
    by auto
qed

lemma wake_threads_result:
  assumes fl: "flags_ok p" and c: "m_sleep_thread_count p \<noteq> 0" "num > 0"
    and enough: "unat (min num (m_sleep_thread_count p)) \<le> length (sleepers p)"
  shows "\<exists>p'. wake_threads p num = Some p' \<and>
    m_sleep_thread_count p' = m_sleep_thread_count p - min num (m_sleep_thread_count p) \<and>
    (\<forall>i<thread_count p. m_is_sleep p' ! i =
      (m_is_sleep p ! i \<and> i \<notin> set (take (unat (min num (m_sleep_thread_count p))) (sleepers p)))) \<and>
    (\<forall>i<thread_count p. m_wakeup_event p' ! i =
      (m_wakeup_event p ! i \<or> i \<in> set (take (unat (min num (m_sleep_thread_count p))) (sleepers p))))"
proof -
  define m where "m = min num (m_sleep_thread_count p)"
  let ?p = "p\<lparr>m_sleep_thread_count := m_sleep_thread_count p - m\<rparr>"
  let ?is = "take (unat m) (sleepers p)"
  have fl': "flags_ok ?p" "sleepers ?p = sleepers p" "thread_count ?p = thread_count p"
    using fl by (simp_all add: flags_ok_def sleepers_def thread_count_def)
  have "m > 0" using c by (simp add: m_def min_def word_neq_0_conv)
  moreover have "(if m_sleep_thread_count p < num then m_sleep_thread_count p else num) = m"
    by (auto simp: m_def min_def)
  ultimately have run: "wake_threads p num = Some (wake_all ?p ?is)"
    using wake_loop_wakes [OF fl'(1), of m] fl'(2) enough c(1)
    by (simp add: wake_threads_def m_def [symmetric])
  have len: "length (m_is_sleep ?p) = thread_count p" "length (m_wakeup_event ?p) = thread_count p"
    using fl by (simp_all add: flags_ok_def)
  have "i \<in> set ?is \<Longrightarrow> m_is_sleep p ! i" for i
    by (auto simp: sleepers_def dest!: in_set_takeD)
  then show ?thesis
    unfolding m_def [symmetric]
    using run len wake_all_flags [of _ ?p ?is] by (intro exI [of _ "wake_all ?p ?is"]) auto
qed

text \<open>
  \<open>wake_threads\<close>: when enough threads have announced that they sleep, it returns, has
  taken the number of woken threads off the sleep counter, and has woken exactly that many,
  those with the lowest indices: their flag is cleared and their event set, nobody else's is
  touched.
\<close>

theorem wake_threads_wakes:
  assumes "flags_ok p" and "m_sleep_thread_count p \<noteq> 0" and "num > 0"
    and "unat (min num (m_sleep_thread_count p)) \<le> length (sleepers p)"
  shows "\<exists>p'. wake_threads p num = Some p' \<and>
    m_sleep_thread_count p' = m_sleep_thread_count p - min num (m_sleep_thread_count p) \<and>
    (\<forall>i<thread_count p. m_is_sleep p' ! i =
      (m_is_sleep p ! i \<and> i \<notin> set (take (unat (min num (m_sleep_thread_count p))) (sleepers p)))) \<and>
    (\<forall>i<thread_count p. m_wakeup_event p' ! i =
      (m_wakeup_event p ! i \<or> i \<in> set (take (unat (min num (m_sleep_thread_count p))) (sleepers p))))"
  by (rule wake_threads_result [OF assms])

theorem wake_threads_wakes_witness:
  "\<exists>p'. wake_threads (sleepy_pool 1) 5 = Some p' \<and> m_sleep_thread_count p' = 0 \<and>
    m_wakeup_event p' ! 0"
  using wake_threads_wakes [of "sleepy_pool 1" 5] sleepy_pool_sleepers [of 1]
  by (auto simp: sleepy_pool_def demo_pool_def thread_pool_new_def thread_count_def)

text \<open>
  The converse: when the sleep counter exceeds both the number asked for and the number
  of threads whose sleep flag is set, and the pool is not shut down, \<open>wake_threads\<close> never
  returns: it leaves the counter above zero, finds no further thread to wake, and loops.
\<close>

theorem wake_threads_spins:
  assumes "flags_ok p" and "\<not> m_stop p" and "num > 0" and "num < m_sleep_thread_count p"
    and "length (sleepers p) < unat num"
  shows "wake_threads p num = None"
proof -
  let ?p = "p\<lparr>m_sleep_thread_count := m_sleep_thread_count p - num\<rparr>"
  have "flags_ok ?p" "sleepers ?p = sleepers p"
    using assms(1) by (simp_all add: flags_ok_def sleepers_def thread_count_def)
  moreover have "m_sleep_thread_count p - num \<noteq> 0" "m_sleep_thread_count p \<noteq> 0"
    "\<not> m_sleep_thread_count p < num" using assms(3,4) by auto
  ultimately show ?thesis
    using wake_loop_few [of ?p num] assms by (simp add: wake_threads_def)
qed

theorem wake_threads_spins_witness: "wake_threads (sleepy_pool 3) 2 = None"
  using wake_threads_spins [of "sleepy_pool 3" 2] sleepy_pool_sleepers [of 3]
  by (simp add: sleepy_pool_def demo_pool_def thread_pool_new_def)

text \<open>
  The check before sleeping, \<open>has_queued_work\<close>, is not an observation: when the global
  queue holds an operation and accepts it back, the check answers yes and has moved the
  oldest operation behind all the others.
\<close>

theorem has_queued_work_reorders:
  assumes "work_queue content push pop nonempty" and "pool_queues content p (x # xs) ls"
    and "\<And>r. content r xs \<Longrightarrow> snd (push r x)"
    and "pool_has_queued_work push pop p t = (p', b)"
  shows "b \<and> pool_queues content p' (xs @ [x]) ls"
  using work_queue.has_queued_work_rotates [OF assms(1,2,3,4)] .

theorem has_queued_work_reorders_witness:
  "\<exists>p'. pool_has_queued_work lfq_push lfq_pop demo_pool 0 = (p', True) \<and>
    pool_queues queue_content p' ([] @ [7]) [[], []]"
proof -
  obtain p' b where run: "pool_has_queued_work lfq_push lfq_pop demo_pool 0 = (p', b)" by fastforce
  have "snd (lfq_push r 7)" if "queue_content r []" for r
    using enqueue_appends [OF that, of 7 "[]"] by (auto simp: lfq_push_def)
  with has_queued_work_reorders [OF lfq.work_queue_axioms demo_pool_queues _ run] run
  show ?thesis by auto
qed

end
