(* ===== verification/Pool_Sleeping.thy ===== *)
theory Pool_Sleeping
  imports Coro_Prelude
begin

text \<open>
  How the workers of src/coro/thread_pool.cpp go to sleep and are woken when calls overlap:
  \<open>run_worker_thread\<close>, \<open>notify_intent_to_sleep\<close>, \<open>try_clear_intent_to_sleep\<close>, \<open>schedule_impl\<close> and
  \<open>wake_threads\<close>, one access of shared memory to a step. Operations are scheduled by threads outside the
  pool, so they go through the global queue, of which only the length matters here, and the local queues
  are empty. The pool is not shut down. Thread_Pool has the same functions as calls that do not overlap,
  with the queues.
\<close>

section \<open>State\<close>

text \<open>
  A worker runs operations, spins, or is on its way to sleep: it sets its flag, counts itself, looks for
  work once more (\<open>W_hold\<close>: it has popped an operation to see whether there is one) and sleeps; with an
  operation in hand it withdraws (\<open>W_clear\<close> and after), which may wake others, \<open>j\<close> being the next.
\<close>

datatype worker_pc =
    W_busy | W_spin | W_spin_get | W_intent | W_count | W_check | W_hold | W_get
  | W_clear | W_clear_cas u32 | W_own | W_own_exchange | W_own_set
  | W_others nat | W_others_exchange nat | W_others_set nat | W_sleep

datatype scheduler_pc =
    S_away | S_total | S_count | S_load | S_cas u32 | S_scan nat | S_exchange nat | S_set nat | S_recheck

text \<open>
  The counter of sleeping threads has 32 bits and wraps. \<open>announced\<close> is no variable of the code: it counts
  how often \<open>notify_intent_to_sleep\<close> has raised the counter.
\<close>

record sleeping_pool =
  queued :: nat
  m_is_sleep :: "nat \<Rightarrow> bool"
  m_sleep_thread_count :: u32
  m_wakeup_event :: "nat \<Rightarrow> bool"
  w_pc :: "nat \<Rightarrow> worker_pc"
  s_pc :: "nat \<Rightarrow> scheduler_pc"
  announced :: nat

definition sleeping_pool_new :: sleeping_pool where
  "sleeping_pool_new =
     \<lparr>queued = 0, m_is_sleep = (\<lambda>_. False), m_sleep_thread_count = 0, m_wakeup_event = (\<lambda>_. False),
      w_pc = (\<lambda>_. W_busy), s_pc = (\<lambda>_. S_away), announced = 0\<rparr>"

definition w_go :: "nat \<Rightarrow> worker_pc \<Rightarrow> sleeping_pool \<Rightarrow> sleeping_pool" where
  "w_go i c s = s\<lparr>w_pc := (w_pc s)(i := c)\<rparr>"

definition s_go :: "nat \<Rightarrow> scheduler_pc \<Rightarrow> sleeping_pool \<Rightarrow> sleeping_pool" where
  "s_go k c s = s\<lparr>s_pc := (s_pc s)(k := c)\<rparr>"

definition set_flag :: "nat \<Rightarrow> bool \<Rightarrow> sleeping_pool \<Rightarrow> sleeping_pool" where
  "set_flag i b s = s\<lparr>m_is_sleep := (m_is_sleep s)(i := b)\<rparr>"

definition set_event :: "nat \<Rightarrow> bool \<Rightarrow> sleeping_pool \<Rightarrow> sleeping_pool" where
  "set_event i b s = s\<lparr>m_wakeup_event := (m_wakeup_event s)(i := b)\<rparr>"

definition pop_queue :: "sleeping_pool \<Rightarrow> sleeping_pool" where
  "pop_queue s = s\<lparr>queued := queued s - 1\<rparr>"

definition push_queue :: "sleeping_pool \<Rightarrow> sleeping_pool" where
  "push_queue s = s\<lparr>queued := queued s + 1\<rparr>"

definition set_count :: "u32 \<Rightarrow> sleeping_pool \<Rightarrow> sleeping_pool" where
  "set_count c s = s\<lparr>m_sleep_thread_count := c\<rparr>"

text \<open>The second half of \<open>notify_intent_to_sleep\<close>.\<close>

definition announce :: "sleeping_pool \<Rightarrow> sleeping_pool" where
  "announce s = s\<lparr>m_sleep_thread_count := m_sleep_thread_count s + 1, announced := announced s + 1\<rparr>"

section \<open>Workers\<close>

text \<open>\<open>try_clear_intent_to_sleep\<close>.\<close>

definition clear_step :: "nat \<Rightarrow> nat \<Rightarrow> bool \<Rightarrow> sleeping_pool \<Rightarrow> sleeping_pool" where
  "clear_step N i spurious s =
     (case w_pc s i of
        W_clear \<Rightarrow> w_go i (if m_sleep_thread_count s = 0 then W_busy else W_clear_cas (m_sleep_thread_count s)) s
      | W_clear_cas c \<Rightarrow>
          if m_sleep_thread_count s = c \<and> \<not> spurious then w_go i W_own (set_count (c - 1) s)
          else w_go i (if m_sleep_thread_count s = 0 then W_busy else W_clear_cas (m_sleep_thread_count s)) s
      | W_own \<Rightarrow> w_go i (if m_is_sleep s i then W_own_exchange else W_others 0) s
      | W_own_exchange \<Rightarrow> if m_is_sleep s i then w_go i W_own_set (set_flag i False s) else w_go i (W_others 0) s
      | W_own_set \<Rightarrow> w_go i W_busy (set_event i True s)
      | W_others j \<Rightarrow>
          w_go i (if j \<ge> N then W_busy else if j \<noteq> i \<and> m_is_sleep s j then W_others_exchange j else W_others (j + 1)) s
      | W_others_exchange j \<Rightarrow>
          if m_is_sleep s j then w_go i (W_others_set j) (set_flag j False s) else w_go i (W_others (j + 1)) s
      | W_others_set j \<Rightarrow> w_go i W_busy (set_event j True s)
      | _ \<Rightarrow> s)"

text \<open>
  The next step of worker \<open>i\<close> of \<open>N\<close>. \<open>choice\<close> is whether spinning ends and whether a weak exchange fails
  without cause; a worker that sleeps without a wake-up stays where it is.
\<close>

definition worker_step :: "nat \<Rightarrow> nat \<Rightarrow> bool \<Rightarrow> sleeping_pool \<Rightarrow> sleeping_pool" where
  "worker_step N i choice s =
     (case w_pc s i of
        W_busy \<Rightarrow> if queued s > 0 then pop_queue s else w_go i W_spin s
      | W_spin \<Rightarrow> if queued s > 0 then w_go i W_spin_get s else if choice then w_go i W_intent s else s
      | W_spin_get \<Rightarrow> if queued s > 0 then w_go i W_busy (pop_queue s) else w_go i W_spin s
      | W_intent \<Rightarrow> w_go i W_count (set_flag i True s)
      | W_count \<Rightarrow> w_go i W_check (announce s)
      | W_check \<Rightarrow> if queued s > 0 then w_go i W_hold (pop_queue s) else w_go i W_sleep s
      | W_hold \<Rightarrow> w_go i W_get (push_queue s)
      | W_get \<Rightarrow> if queued s > 0 then w_go i W_clear (pop_queue s) else w_go i W_sleep s
      | W_sleep \<Rightarrow> if m_wakeup_event s i then w_go i W_spin (set_event i False s) else s
      | _ \<Rightarrow> clear_step N i choice s)"

section \<open>Schedulers\<close>

text \<open>\<open>wake_threads (1)\<close>.\<close>

definition wake_step :: "nat \<Rightarrow> nat \<Rightarrow> bool \<Rightarrow> sleeping_pool \<Rightarrow> sleeping_pool" where
  "wake_step N k spurious s =
     (case s_pc s k of
        S_load \<Rightarrow> s_go k (if m_sleep_thread_count s = 0 then S_away else S_cas (m_sleep_thread_count s)) s
      | S_cas c \<Rightarrow>
          if m_sleep_thread_count s = c \<and> \<not> spurious then s_go k (S_scan 0) (set_count (c - 1) s)
          else s_go k (if m_sleep_thread_count s = 0 then S_away else S_cas (m_sleep_thread_count s)) s
      | S_scan j \<Rightarrow>
          s_go k (if j \<ge> N then S_recheck else if m_is_sleep s j then S_exchange j else S_scan (j + 1)) s
      | S_exchange j \<Rightarrow> if m_is_sleep s j then s_go k (S_set j) (set_flag j False s) else s_go k (S_scan (j + 1)) s
      | S_set j \<Rightarrow> s_go k S_away (set_event j True s)
      | S_recheck \<Rightarrow> s_go k (if m_sleep_thread_count s = 0 then S_away else S_scan 0) s
      | _ \<Rightarrow> s)"

text \<open>
  \<open>schedule_impl\<close> after its operation has been pushed: the total work is 1 when the global queue is not
  empty, so at most one thread is to be woken.
\<close>

definition scheduler_step :: "nat \<Rightarrow> nat \<Rightarrow> bool \<Rightarrow> sleeping_pool \<Rightarrow> sleeping_pool" where
  "scheduler_step N k spurious s =
     (case s_pc s k of
        S_away \<Rightarrow> s_go k S_total (push_queue s)
      | S_total \<Rightarrow> s_go k (if queued s > 0 then S_count else S_away) s
      | S_count \<Rightarrow> s_go k (if m_sleep_thread_count s > 0 then S_load else S_away) s
      | _ \<Rightarrow> wake_step N k spurious s)"

inductive pool_step :: "nat \<Rightarrow> sleeping_pool \<Rightarrow> sleeping_pool \<Rightarrow> bool" for N where
  ps_worker: "i < N \<Longrightarrow> pool_step N s (worker_step N i choice s)"
| ps_scheduler: "pool_step N s (scheduler_step N k spurious s)"

abbreviation pool_reachable :: "nat \<Rightarrow> sleeping_pool \<Rightarrow> bool" where
  "pool_reachable N \<equiv> reachable (\<lambda>s. s = sleeping_pool_new) (pool_step N)"

section \<open>The counter does not wrap before \<open>2 ^ 32\<close> announcements\<close>

text \<open>
  A worker that withdraws wakes itself but leaves its event set, so it announces itself once more before it
  sleeps: the counter drifts upwards, and is only bounded by the number of announcements.
\<close>

definition count_bounded :: "sleeping_pool \<Rightarrow> bool" where
  "count_bounded s \<longleftrightarrow> unat (m_sleep_thread_count s) \<le> announced s \<and>
     (\<forall>i. w_pc s i \<noteq> W_clear_cas 0) \<and> (\<forall>k. s_pc s k \<noteq> S_cas 0)"

lemma count_up:
  fixes c :: u32
  assumes "unat c \<le> n" "n + 1 < 2 ^ 32"
  shows "unat (c + 1) = unat c + 1" "0 < c + 1"
proof -
  show u: "unat (c + 1) = unat c + 1" using assms by (simp add: unat_word_ariths)
  then have "c + 1 \<noteq> 0" by (metis add_is_0 one_neq_zero unat_0)
  then show "0 < c + 1" by (simp add: word_neq_0_conv)
qed

lemma count_down: "(c :: u32) \<noteq> 0 \<Longrightarrow> unat (c - 1) \<le> unat c"
  by (metis diff_le_self unat_minus_one)

lemma worker_count_bounded:
  assumes "count_bounded s" "announced (worker_step N i choice s) < 2 ^ 32"
  shows "count_bounded (worker_step N i choice s)"
proof (cases "w_pc s i")
  case W_count
  then show ?thesis
    using assms count_up [of "m_sleep_thread_count s" "announced s"]
    by (simp add: count_bounded_def worker_step_def announce_def w_go_def)
next
  case (W_clear_cas c)
  then have "c \<noteq> 0" using assms(1) by (auto simp: count_bounded_def)
  then show ?thesis
    using assms(1) count_down [of c] W_clear_cas
    by (auto simp: count_bounded_def worker_step_def clear_step_def w_go_def set_count_def)
qed (use assms(1) in \<open>auto simp: count_bounded_def worker_step_def clear_step_def w_go_def set_flag_def
  set_event_def pop_queue_def push_queue_def\<close>)

lemma scheduler_count_bounded:
  assumes "count_bounded s"
  shows "count_bounded (scheduler_step N k spurious s)"
proof (cases "s_pc s k")
  case (S_cas c)
  then have "c \<noteq> 0" using assms by (auto simp: count_bounded_def)
  then show ?thesis
    using assms count_down [of c] S_cas
    by (auto simp: count_bounded_def scheduler_step_def wake_step_def s_go_def set_count_def)
qed (use assms in \<open>auto simp: count_bounded_def scheduler_step_def wake_step_def s_go_def set_flag_def
  set_event_def push_queue_def\<close>)

lemma worker_announced: "announced s \<le> announced (worker_step N i choice s)"
  by (simp add: worker_step_def clear_step_def announce_def w_go_def set_flag_def set_event_def
      pop_queue_def push_queue_def set_count_def split: worker_pc.split)

lemma scheduler_announced: "announced (scheduler_step N k spurious s) = announced s"
  by (simp add: scheduler_step_def wake_step_def s_go_def set_flag_def set_event_def
      push_queue_def set_count_def split: scheduler_pc.split)

section \<open>A pool with one worker\<close>

text \<open>The worker has counted itself and will not withdraw without looking for work first.\<close>

definition counted :: "worker_pc \<Rightarrow> bool" where
  "counted c \<longleftrightarrow> c \<in> {W_check, W_hold, W_get, W_sleep}"

definition waking :: "scheduler_pc \<Rightarrow> bool" where
  "waking c \<longleftrightarrow> c = S_scan 0 \<or> c = S_exchange 0"

definition arriving :: "scheduler_pc \<Rightarrow> bool" where
  "arriving c = (case c of S_total \<Rightarrow> True | S_count \<Rightarrow> True | S_load \<Rightarrow> True | S_cas n \<Rightarrow> True | _ \<Rightarrow> False)"

definition wakes_other :: "worker_pc \<Rightarrow> bool" where
  "wakes_other c = (case c of W_others_exchange j \<Rightarrow> True | W_others_set j \<Rightarrow> True | _ \<Rightarrow> False)"

text \<open>
  While the worker's flag is set somebody can still wake it or is about to; when its flag was taken from
  it the event is set or about to be; and when work came after it looked, a scheduler is under way.
\<close>

definition one_worker_ok :: "sleeping_pool \<Rightarrow> bool \<Rightarrow> bool \<Rightarrow> bool \<Rightarrow> bool" where
  "one_worker_ok s some_arriving some_waking some_setting \<longleftrightarrow>
     (counted (w_pc s 0) \<and> m_is_sleep s 0 \<longrightarrow> m_sleep_thread_count s > 0 \<or> some_waking) \<and>
     (counted (w_pc s 0) \<or> w_pc s 0 = W_count \<longrightarrow> m_is_sleep s 0 \<or> m_wakeup_event s 0 \<or> some_setting) \<and>
     (w_pc s 0 = W_sleep \<and> queued s > 0 \<longrightarrow> m_wakeup_event s 0 \<or> some_arriving \<or> some_waking \<or> some_setting) \<and>
     \<not> wakes_other (w_pc s 0)"

definition at_worker_0 :: "scheduler_pc \<Rightarrow> bool" where
  "at_worker_0 c = (case c of S_set j \<Rightarrow> j = 0 | S_exchange j \<Rightarrow> j = 0 | _ \<Rightarrow> True)"

definition one_worker_inv :: "sleeping_pool \<Rightarrow> bool" where
  "one_worker_inv s \<longleftrightarrow>
     one_worker_ok s (\<exists>k. arriving (s_pc s k)) (\<exists>k. waking (s_pc s k)) (\<exists>k. s_pc s k = S_set 0) \<and>
     (\<forall>k. at_worker_0 (s_pc s k))"

lemma some_scheduler_upd: "(\<exists>x. P ((f(k := c)) x)) \<longleftrightarrow> P c \<or> (\<exists>x. x \<noteq> k \<and> P (f x))"
  by auto

lemma some_scheduler_split: "(\<exists>x. P (f x)) \<longleftrightarrow> P (f k) \<or> (\<exists>x. x \<noteq> k \<and> P (f x))"
  by auto

lemmas pool_changes = announce_def clear_step_def wake_step_def w_go_def s_go_def set_flag_def set_event_def pop_queue_def push_queue_def set_count_def
lemmas scheduler_kinds = counted_def waking_def arriving_def at_worker_0_def wakes_other_def

lemma one_worker_worker:
  assumes ok: "one_worker_ok s a w t" and bound: "count_bounded s" "announced (worker_step 1 0 choice s) < 2 ^ 32"
  shows "one_worker_ok (worker_step 1 0 choice s) a w t"
proof (cases "w_pc s 0")
  case W_count
  then have "0 < m_sleep_thread_count s + 1"
    using bound count_up [of "m_sleep_thread_count s" "announced s"]
    by (simp add: count_bounded_def worker_step_def announce_def w_go_def)
  then show ?thesis using ok W_count
    by (auto simp: one_worker_ok_def worker_step_def pool_changes counted_def wakes_other_def)
qed (use ok in \<open>auto simp: one_worker_ok_def worker_step_def pool_changes counted_def wakes_other_def\<close>)

lemma worker_step_schedulers: "s_pc (worker_step N i choice s) = s_pc s"
  by (simp add: worker_step_def pool_changes split: worker_pc.split)

text \<open>A step of one scheduler, \<open>a\<close>, \<open>w\<close> and \<open>t\<close> being what the others do.\<close>

lemma scheduler_step_pc: "s_pc (scheduler_step N k spurious s) = (s_pc s)(k := s_pc (scheduler_step N k spurious s) k)"
  by (simp add: scheduler_step_def pool_changes split: scheduler_pc.split)

lemmas one_worker_simps = one_worker_ok_def scheduler_step_def pool_changes scheduler_kinds

lemma one_worker_scheduler:
  assumes "one_worker_ok s (arriving (s_pc s k) \<or> a) (waking (s_pc s k) \<or> w) (s_pc s k = S_set 0 \<or> t)" "at_worker_0 (s_pc s k)"
    and c: "c = s_pc (scheduler_step 1 k spurious s) k"
  shows "one_worker_ok (scheduler_step 1 k spurious s) (arriving c \<or> a) (waking c \<or> w) (c = S_set 0 \<or> t) \<and> at_worker_0 c"
proof (cases "s_pc s k")
  case S_away then show ?thesis using assms(1,2) unfolding c by (simp add: one_worker_simps)
next
  case S_total then show ?thesis using assms(1,2) unfolding c
    by (cases "queued s > 0") (simp_all add: one_worker_simps)
next
  case S_count then show ?thesis using assms(1,2) unfolding c
    by (cases "m_sleep_thread_count s > 0"; cases "m_is_sleep s 0"; force simp: one_worker_simps)
next
  case S_load then show ?thesis using assms(1,2) unfolding c
    by (cases "m_sleep_thread_count s > 0"; cases "m_is_sleep s 0"; force simp: one_worker_simps)
next
  case (S_cas n) then show ?thesis using assms(1,2) unfolding c
    by (cases "m_sleep_thread_count s = n \<and> \<not> spurious"; cases "m_sleep_thread_count s > 0"; cases "m_is_sleep s 0"; force simp: one_worker_simps)
next
  case (S_scan j) then show ?thesis using assms(1,2) unfolding c
    by (cases "j = 0"; cases "m_is_sleep s 0"; force simp: one_worker_simps)
next
  case (S_exchange j) then show ?thesis using assms(1,2) unfolding c
    by (cases "m_is_sleep s 0"; force simp: one_worker_simps)
next
  case (S_set j) then show ?thesis using assms(1,2) unfolding c
    by (simp add: one_worker_simps)
next
  case S_recheck then show ?thesis using assms(1,2) unfolding c
    by (cases "m_sleep_thread_count s > 0"; cases "m_is_sleep s 0"; force simp: one_worker_simps)
qed

lemma one_worker_inv_scheduler:
  assumes "one_worker_inv s"
  shows "one_worker_inv (scheduler_step 1 k spurious s)"
proof -
  define t where ps_scheduler: "t = scheduler_step 1 k spurious s"
  note inv = assms
    have pc: "s_pc t = (s_pc s)(k := s_pc t k)" unfolding ps_scheduler by (rule scheduler_step_pc)
    have split: "(\<exists>x. P (s_pc t x)) \<longleftrightarrow> P (s_pc t k) \<or> (\<exists>x. x \<noteq> k \<and> P (s_pc s x))" for P
      using some_scheduler_upd [of P "s_pc s" k "s_pc t k", folded pc] .
    have "one_worker_ok s (arriving (s_pc s k) \<or> (\<exists>x. x \<noteq> k \<and> arriving (s_pc s x))) (waking (s_pc s k) \<or> (\<exists>x. x \<noteq> k \<and> waking (s_pc s x)))
        (s_pc s k = S_set 0 \<or> (\<exists>x. x \<noteq> k \<and> s_pc s x = S_set 0))" "at_worker_0 (s_pc s k)"
      using inv some_scheduler_split [of arriving "s_pc s" k] some_scheduler_split [of waking "s_pc s" k]
        some_scheduler_split [of "\<lambda>c. c = S_set 0" "s_pc s" k] by (simp_all only: one_worker_inv_def)
    from one_worker_scheduler [OF this refl, of spurious] ps_scheduler
    have ok: "one_worker_ok t (arriving (s_pc t k) \<or> (\<exists>x. x \<noteq> k \<and> arriving (s_pc s x))) (waking (s_pc t k) \<or> (\<exists>x. x \<noteq> k \<and> waking (s_pc s x)))
        (s_pc t k = S_set 0 \<or> (\<exists>x. x \<noteq> k \<and> s_pc s x = S_set 0))" "at_worker_0 (s_pc t k)" by simp_all
    have "at_worker_0 (s_pc t x)" for x
      using ok(2) inv fun_cong [OF pc, of x] by (cases "x = k") (simp_all add: one_worker_inv_def)
    then have "one_worker_inv t" using ok(1) split [of arriving] split [of waking] split [of "\<lambda>c. c = S_set 0"]
      by (simp only: one_worker_inv_def simp_thms)
    then show ?thesis by (simp only: ps_scheduler)
qed

interpretation one_worker: invariant_system "\<lambda>s. s = sleeping_pool_new" "pool_step 1"
  "\<lambda>s. announced s < 2 ^ 32 \<longrightarrow> count_bounded s \<and> one_worker_inv s"
proof
  fix s t
  assume inv: "announced s < 2 ^ 32 \<longrightarrow> count_bounded s \<and> one_worker_inv s" and step: "pool_step 1 s t"
  from step show "announced t < 2 ^ 32 \<longrightarrow> count_bounded t \<and> one_worker_inv t"
  proof (cases, goal_cases)
    case (1 i choice)
    then have "i = 0" by simp
    then show ?case
      using 1 inv worker_announced [of s 1 i choice] worker_count_bounded [of s 1 i choice]
        one_worker_worker [of s _ _ _ choice]
      by (auto simp: one_worker_inv_def worker_step_schedulers)
  next
    case (2 k spurious)
    then show ?case
      using inv one_worker_inv_scheduler [of s k spurious] scheduler_count_bounded [of s 1 k spurious]
      by (simp add: scheduler_announced)
  qed
qed (simp add: one_worker_inv_def one_worker_ok_def count_bounded_def sleeping_pool_new_def scheduler_kinds)

text \<open>Moves given as a list.\<close>

datatype pool_move = By_worker nat bool | By_scheduler nat bool

fun move_pool :: "nat \<Rightarrow> pool_move \<Rightarrow> sleeping_pool \<Rightarrow> sleeping_pool" where
  "move_pool N (By_worker i choice) s = (if i < N then worker_step N i choice s else s)"
| "move_pool N (By_scheduler k spurious) s = scheduler_step N k spurious s"

lemma moves_reachable: "pool_reachable N s \<Longrightarrow> pool_reachable N (fold (move_pool N) ms s)"
proof (induction ms arbitrary: s)
  case (Cons m ms)
  have "pool_reachable N (move_pool N m s)"
    using Cons.prems by (cases m) (auto intro: reachable_step pool_step.intros)
  then show ?case using Cons.IH by simp
qed simp

text \<open>C12. With one worker no wake-up is lost, however its steps interleave with those of any number of threads that
  schedule, as long as the worker has announced fewer than \<open>2 ^ 32\<close> times that it will sleep (the counter has
  32 bits and drifts upwards): whenever operations are queued, either the worker is not asleep, or its event is signalled, or
  some thread is still inside \<open>schedule_impl\<close>. So a worker that sleeps on with nobody about to wake it
  sleeps on an empty queue.
\<close>
theorem one_worker_never_misses_work:
  assumes "pool_reachable 1 s" "announced s < 2 ^ 32" "w_pc s 0 = W_sleep" "\<not> m_wakeup_event s 0" "\<forall>k. s_pc s k = S_away"
  shows "queued s = 0"
  using one_worker.reachable_inv [OF assms(1)] assms(2-)
  by (simp add: one_worker_inv_def one_worker_ok_def scheduler_kinds)

definition sleeping_run :: "pool_move list" where
  "sleeping_run =
     [By_worker 0 True, By_worker 0 True, By_worker 0 True, By_worker 0 True, By_worker 0 True]"

lemma one_worker_never_misses_work_witness:
  "queued (fold (move_pool 1) sleeping_run sleeping_pool_new) = 0"
  by (rule one_worker_never_misses_work, rule moves_reachable, rule reachable_init)
    (simp_all add: sleeping_run_def sleeping_pool_new_def worker_step_def pool_changes)

section \<open>A pool with two workers\<close>

text \<open>Worker 1 wakes itself, and the thread that claimed the sleeper goes away when the count is 0.\<close>

abbreviation w0 :: "pool_move" where "w0 \<equiv> By_worker 0 True"
abbreviation w1 :: "pool_move" where "w1 \<equiv> By_worker 1 True"
abbreviation w1_exact :: "pool_move" where "w1_exact \<equiv> By_worker 1 False"
abbreviation s0 :: "pool_move" where "s0 \<equiv> By_scheduler 0 False"

definition undercount_run :: "pool_move list" where
  "undercount_run =
     [w1, w1, w1, w1,  w0, w0,  s0, s0, s0, s0, s0, s0,  w0, w0,  w1,  w0,
      w1, w1, w1, w1_exact, w1, w1, w1,  s0, s0, s0]"

abbreviation undercounted :: sleeping_pool where
  "undercounted \<equiv> fold (move_pool 2) undercount_run sleeping_pool_new"

lemma undercounted_state:
  "w_pc undercounted 0 = W_sleep" "m_is_sleep undercounted 0" "\<not> m_wakeup_event undercounted 0"
  "w_pc undercounted 1 = W_busy" "m_sleep_thread_count undercounted = 0" "s_pc undercounted k = S_away" 
  by (simp_all add: undercount_run_def sleeping_pool_new_def worker_step_def scheduler_step_def pool_changes)


text \<open>The count is 0 and no thread holds a claim on a sleeper: then no later \<open>schedule_impl\<close> makes one.\<close>

definition nobody_wakes :: "sleeping_pool \<Rightarrow> bool" where
  "nobody_wakes s \<longleftrightarrow>
     m_sleep_thread_count s = 0 \<and> \<not> m_wakeup_event s 0 \<and> (\<forall>k. s_pc s k \<in> {S_away, S_total, S_count})"

definition schedulers_run :: "nat \<Rightarrow> (nat \<times> bool) list \<Rightarrow> sleeping_pool \<Rightarrow> sleeping_pool" where
  "schedulers_run N ks s = fold (\<lambda>(k, spurious). scheduler_step N k spurious) ks s"

lemma nobody_wakes_step: "nobody_wakes s \<Longrightarrow> nobody_wakes (scheduler_step N k spurious s)"
proof -
  assume nobody: "nobody_wakes s"
  then consider "s_pc s k = S_away" | "s_pc s k = S_total" | "s_pc s k = S_count" by (auto simp: nobody_wakes_def)
  then show ?thesis using nobody
    by cases (simp_all add: nobody_wakes_def scheduler_step_def pool_changes)
qed

lemma nobody_wakes_run: "nobody_wakes s \<Longrightarrow> nobody_wakes (schedulers_run N ks s)"
  unfolding schedulers_run_def
  by (induction ks arbitrary: s) (simp_all add: nobody_wakes_step split: prod.split)

lemma scheduler_step_workers: "w_pc (scheduler_step N k spurious s) = w_pc s"
  by (simp add: scheduler_step_def pool_changes split: scheduler_pc.split)

lemma schedulers_run_workers: "w_pc (schedulers_run N ks s) = w_pc s"
  unfolding schedulers_run_def
  by (induction ks arbitrary: s) (simp_all add: scheduler_step_workers split: prod.split)

text \<open>Three steps of a thread that comes to \<open>schedule_impl\<close> then only lengthen the queue.\<close>

lemma nobody_wakes_queued:
  assumes "nobody_wakes s" "s_pc s k = S_away"
  shows "queued (schedulers_run N [(k, False), (k, False), (k, False)] s) = Suc (queued s)"
    "s_pc (schedulers_run N [(k, False), (k, False), (k, False)] s) k = S_away"
  using assms by (simp_all add: nobody_wakes_def schedulers_run_def scheduler_step_def pool_changes)

text \<open>C13. With two workers a wake-up is lost. A worker that finds work just after announcing that it will sleep
  takes the announcement back by lowering the shared count, and so may take back the count of the other
  worker, while the thread that was to wake one goes away as soon as it reads the count 0. A state is
  reachable in which worker 0 sleeps, its flag is still set, no event is signalled, no thread is on its way
  to wake it and the other worker runs an operation; from there no calls of \<open>schedule_impl\<close>, however many
  and however interleaved, signal its event.
\<close>
theorem two_workers_lose_wakeup:
  "\<exists>s. pool_reachable 2 s \<and> w_pc s 0 = W_sleep \<and> m_is_sleep s 0 \<and> w_pc s 1 = W_busy \<and> (\<forall>k. s_pc s k = S_away) \<and>
     (\<forall>ks. w_pc (schedulers_run 2 ks s) 0 = W_sleep \<and> \<not> m_wakeup_event (schedulers_run 2 ks s) 0)"
proof (intro exI conjI allI)
  have init: "pool_reachable 2 sleeping_pool_new" by (rule reachable_init) simp
  show "pool_reachable 2 undercounted" by (rule moves_reachable [OF init])
  have "nobody_wakes undercounted" by (simp add: nobody_wakes_def undercounted_state)
  then show "\<not> m_wakeup_event (schedulers_run 2 ks undercounted) 0" for ks
    using nobody_wakes_run by (simp add: nobody_wakes_def)
qed (simp_all only: undercounted_state schedulers_run_workers)

end
