(* ===== verification/Cancellation_Registry.thy ===== *)
theory Cancellation_Registry
  imports Coro_Prelude
begin

text \<open>
  The registration lists of src/coro/cancellation_state.cpp: per list a chain of chunks of 16,
  32, ... 1024 entries, each with an approximate count of its free entries. Registering looks
  for a free entry from the last chunk backwards and appends a chunk when it finds none. The
  functions are modelled as calls that do not overlap (what overlapping calls do to the
  entries is the subject of Cancellation_Protocol); an allocation may fail, which is the
  exception bad_alloc.
\<close>

section \<open>State\<close>

text \<open>
  An entry is the address of a registration or null; the chain of chunks is the list of
  chunks, \<open>m_next_chunk\<close> and \<open>m_prev_chunk\<close> are the neighbours, a pointer to a chunk is its
  position. The approximate free count is a signed number.
\<close>

record chunk =
  m_approx_free_count :: int
  m_entries :: "u64 list"

definition m_entry_count :: "chunk \<Rightarrow> u32" where
  "m_entry_count c = of_nat (length (m_entries c))"

record registration_list =
  m_approx_tail :: nat
  m_chunks :: "chunk list"

record registration_state =
  m_lists :: "registration_list option list"

datatype alloc_error = Bad_alloc

definition chunk_allocate :: "nat \<Rightarrow> chunk" where
  "chunk_allocate entry_count =
     \<lparr>m_approx_free_count = int entry_count - 1, m_entries = replicate entry_count 0\<rparr>"

definition list_allocate :: registration_list where
  "list_allocate = \<lparr>m_approx_tail = 0, m_chunks = [chunk_allocate 16]\<rparr>"

definition registration_state_allocate :: "u32 \<Rightarrow> registration_state" where
  "registration_state_allocate hardware_concurrency =
     (let list_count = (if hardware_concurrency > 16 then 16
                        else if hardware_concurrency = 0 then 1 else hardware_concurrency)
      in \<lparr>m_lists = replicate (unat list_count) None\<rparr>)"

section \<open>Looking for a free entry\<close>

text \<open>The entries the search loop visits, in its order.\<close>

definition probe_ids :: "u32 \<Rightarrow> u32 \<Rightarrow> nat list" where
  "probe_ids start_id entry_count =
     map (\<lambda>i. unat ((start_id + of_nat i) AND (entry_count - 1))) [0..<unat entry_count]"

definition forced_search_threshold :: int where
  "forced_search_threshold = -10"

text \<open>One chunk: the chunk afterwards and the claimed entry, if any.\<close>

definition try_chunk :: "u64 \<Rightarrow> chunk \<Rightarrow> chunk \<times> nat option" where
  "try_chunk registration c =
     (let free_count = (if m_approx_free_count c < 1 then m_approx_free_count c - 1
                        else m_approx_free_count c);
          c1 = c\<lparr>m_approx_free_count := free_count\<rparr>
      in if free_count > 0 \<or> free_count < forced_search_threshold then
           (case find (\<lambda>i. m_entries c ! i = 0)
                   (probe_ids (m_entry_count c - of_int free_count) (m_entry_count c)) of
              Some i \<Rightarrow>
                (c1\<lparr>m_approx_free_count := (if free_count < 0 then 0 else free_count - 1),
                    m_entries := (m_entries c)[i := registration]\<rparr>, Some i)
            | None \<Rightarrow> (c1\<lparr>m_approx_free_count := 0\<rparr>, None))
         else (c1, None))"

text \<open>
  The chunks backwards: the number says how many chunks from the front are still to be tried.
\<close>

fun search_back :: "u64 \<Rightarrow> chunk list \<Rightarrow> nat \<Rightarrow> chunk list \<times> (nat \<times> nat) option" where
  "search_back registration cs 0 = (cs, None)"
| "search_back registration cs (Suc k) =
     (let (c, r) = try_chunk registration (cs ! k); cs' = cs[k := c]
      in if r \<noteq> None then (cs', Some (k, the r)) else search_back registration cs' k)"

definition max_element_count :: nat where
  "max_element_count = 1024"

definition next_element_count :: "nat \<Rightarrow> nat" where
  "next_element_count n = (if n < max_element_count then n * 2 else max_element_count)"

text \<open>A new chunk whose first entry is claimed before it is linked in.\<close>

definition claimed_chunk :: "u64 \<Rightarrow> nat \<Rightarrow> chunk" where
  "claimed_chunk registration n =
     (let c = chunk_allocate n in c\<lparr>m_entries := (m_entries c)[0 := registration]\<rparr>)"

text \<open>
  The part of \<open>add_registration\<close> that works on an existing list; the result is the list and
  the chunk and entry that were claimed.
\<close>

definition list_add ::
    "bool \<Rightarrow> u64 \<Rightarrow> registration_list \<Rightarrow> alloc_error + (registration_list \<times> nat \<times> nat)" where
  "list_add memory registration l =
     (let last_chunk = length (m_chunks l) - 1;
          l1 = l\<lparr>m_approx_tail := last_chunk\<rparr>;
          (cs, r) = search_back registration (m_chunks l) (length (m_chunks l))
      in case r of
           Some (c, e) \<Rightarrow> Inr (l1\<lparr>m_chunks := cs\<rparr>, c, e)
         | None \<Rightarrow>
             if \<not> memory then Inl Bad_alloc
             else Inr (\<lparr>m_approx_tail = length cs,
                    m_chunks = cs @ [claimed_chunk registration
                      (next_element_count (length (m_entries (cs ! last_chunk))))]\<rparr>,
                  length cs, 0))"

definition add_registration ::
    "bool \<Rightarrow> u64 \<Rightarrow> registration_state \<Rightarrow> u64 \<Rightarrow>
     alloc_error + (registration_state \<times> nat \<times> nat \<times> nat)" where
  "add_registration memory thread_id_hash s registration =
     (let i = unat (thread_id_hash mod of_nat (length (m_lists s)))
      in case m_lists s ! i of
           None \<Rightarrow>
             if \<not> memory then Inl Bad_alloc
             else Inr (s\<lparr>m_lists := (m_lists s)[i := Some
                    (list_allocate\<lparr>m_chunks := [claimed_chunk registration 16]\<rparr>)]\<rparr>, i, 0, 0)
         | Some l \<Rightarrow>
             (case list_add memory registration l of
                Inl e \<Rightarrow> Inl e
              | Inr (l', c, e) \<Rightarrow> Inr (s\<lparr>m_lists := (m_lists s)[i := Some l']\<rparr>, i, c, e)))"

section \<open>Removing an entry\<close>

text \<open>
  The successful exchange of \<open>deregister_callback\<close> and the update of the free count; a failed
  exchange leaves the entry alone (the result says which).
\<close>

definition chunk_deregister :: "u64 \<Rightarrow> nat \<Rightarrow> chunk \<Rightarrow> chunk \<times> bool" where
  "chunk_deregister registration e c =
     (if m_entries c ! e = registration then
        (let c1 = c\<lparr>m_entries := (m_entries c)[e := 0]\<rparr>; old_free_count = m_approx_free_count c
         in (if old_free_count < int (length (m_entries c))
             then c1\<lparr>m_approx_free_count := (if old_free_count < 0 then 1 else old_free_count + 1)\<rparr>
             else c1, True))
      else (c, False))"

section \<open>The entries of a registry\<close>

definition chunk_entry :: "chunk list \<Rightarrow> nat \<Rightarrow> nat \<Rightarrow> u64 option" where
  "chunk_entry cs c e =
     (if c < length cs \<and> e < length (m_entries (cs ! c)) then Some (m_entries (cs ! c) ! e) else None)"

definition registry_entry :: "registration_state \<Rightarrow> nat \<times> nat \<times> nat \<Rightarrow> u64 option" where
  "registry_entry s p =
     (case p of (i, c, e) \<Rightarrow>
        if i < length (m_lists s)
        then Option.bind (m_lists s ! i) (\<lambda>l. chunk_entry (m_chunks l) c e) else None)"

text \<open>Chunks as the code makes them: a power of two entries, a free count within bounds.\<close>

definition chunk_ok :: "chunk \<Rightarrow> bool" where
  "chunk_ok c \<longleftrightarrow> (\<exists>k. 4 \<le> k \<and> k \<le> 10 \<and> length (m_entries c) = 2 ^ k) \<and>
     -10 \<le> m_approx_free_count c \<and> m_approx_free_count c \<le> int (length (m_entries c))"

definition list_ok :: "registration_list \<Rightarrow> bool" where
  "list_ok l \<longleftrightarrow> m_chunks l \<noteq> [] \<and> m_approx_tail l < length (m_chunks l) \<and>
     (\<forall>c\<in>set (m_chunks l). chunk_ok c)"

definition registry_ok :: "registration_state \<Rightarrow> bool" where
  "registry_ok s \<longleftrightarrow> 0 < length (m_lists s) \<and> length (m_lists s) \<le> 16 \<and>
     (\<forall>l. Some l \<in> set (m_lists s) \<longrightarrow> list_ok l)"

lemma probe_ids_all:
  assumes "k \<le> 10"
  shows "set (probe_ids start (of_nat (2 ^ k))) = {..<2 ^ k}"
proof -
  have le: "(2::nat) ^ k \<le> 2 ^ 10" using assms by (intro power_increasing) auto
  have n: "unat (of_nat (2 ^ k) :: u32) = 2 ^ k"
    by (subst unat_of_nat) (rule mod_less, use le in simp)
  have id: "unat ((start + of_nat i) AND (of_nat (2 ^ k) - 1)) = (unat start + i) mod 2 ^ k" for i
  proof -
    have "unat (start + of_nat i :: u32) mod 2 ^ k = ((unat start + i) mod 2 ^ 32) mod 2 ^ k"
      by (simp add: unat_word_ariths unat_of_nat mod_simps)
    also have "\<dots> = (unat start + i) mod 2 ^ k"
      by (intro mod_mod_cancel le_imp_power_dvd) (use assms in simp)
    finally have m: "unat (start + of_nat i) mod 2 ^ k = (unat start + i) mod 2 ^ k" .
    have "(start + of_nat i) AND (of_nat (2 ^ k) - 1) = take_bit k (start + of_nat i)"
      by (simp add: take_bit_eq_mask mask_eq_exp_minus_1)
    then have "unat ((start + of_nat i) AND (of_nat (2 ^ k) - 1)) = take_bit k (unat (start + of_nat i))"
      by (simp only: unsigned_take_bit_eq)
    with m show ?thesis by (simp only: take_bit_eq_mod)
  qed
  have "set (probe_ids start (of_nat (2 ^ k))) = (\<lambda>i. (unat start + i) mod 2 ^ k) ` {..<2 ^ k}"
    unfolding probe_ids_def n list.set_map set_upt by (simp only: id atLeast0LessThan)
  also have "\<dots> = {..<2 ^ k}"
  proof (intro set_eqI iffI)
    fix j assume "j \<in> {..<(2::nat) ^ k}"
    define i where "i = (j + (2 ^ k - unat start mod 2 ^ k)) mod 2 ^ k"
    have "(unat start + i) mod 2 ^ k = (unat start mod 2 ^ k + (j + (2 ^ k - unat start mod 2 ^ k))) mod 2 ^ k"
      unfolding i_def by (simp only: mod_add_left_eq mod_add_right_eq)
    also have "unat start mod 2 ^ k + (j + (2 ^ k - unat start mod 2 ^ k)) = j + 2 ^ k"
    proof -
      have "unat start mod 2 ^ k < 2 ^ k" by simp
      then show ?thesis by linarith
    qed
    also have "(j + 2 ^ k) mod 2 ^ k = j" using \<open>j \<in> {..<2 ^ k}\<close> by simp
    finally show "j \<in> (\<lambda>i. (unat start + i) mod 2 ^ k) ` {..<2 ^ k}"
      by (intro image_eqI [of _ _ i]) (auto simp: i_def)
  qed auto
  finally show ?thesis .
qed

section \<open>What registering does\<close>

text \<open>The bounds a chunk keeps; its entries change at most at the claimed one.\<close>

lemma try_chunk_result:
  assumes ok: "chunk_ok c" and run: "try_chunk r c = (c', x)"
  shows "chunk_ok c' \<and> length (m_entries c') = length (m_entries c) \<and>
    (case x of None \<Rightarrow> m_entries c' = m_entries c
     | Some e \<Rightarrow> e < length (m_entries c) \<and> m_entries c ! e = 0 \<and> m_entries c' = (m_entries c)[e := r])"
proof -
  from ok obtain k where k: "4 \<le> k" "k \<le> 10" "length (m_entries c) = 2 ^ k" by (auto simp: chunk_ok_def)
  let ?fc = "if m_approx_free_count c < 1 then m_approx_free_count c - 1 else m_approx_free_count c"
  let ?find = "find (\<lambda>i. m_entries c ! i = 0) (probe_ids (m_entry_count c - of_int ?fc) (m_entry_count c))"
  have "m_entry_count c = of_nat (2 ^ k)" by (simp only: m_entry_count_def k(3))
  then have ids: "set (probe_ids st (m_entry_count c)) = {..<length (m_entries c)}" for st
    using probe_ids_all [OF k(2)] k(3) by (simp only:)
  have found: "e < length (m_entries c) \<and> m_entries c ! e = 0" if f: "?find = Some e" for e
  proof -
    from f obtain i where "i < length (probe_ids (m_entry_count c - of_int ?fc) (m_entry_count c))"
      "m_entries c ! e = 0" "e = probe_ids (m_entry_count c - of_int ?fc) (m_entry_count c) ! i"
      unfolding find_Some_iff by blast
    then have "e \<in> set (probe_ids (m_entry_count c - of_int ?fc) (m_entry_count c))"
      by (simp only: nth_mem)
    with ids \<open>m_entries c ! e = 0\<close> show ?thesis by blast
  qed
  have bounds: "-10 \<le> m_approx_free_count c" "m_approx_free_count c \<le> int (length (m_entries c))"
    using ok by (auto simp: chunk_ok_def)
  show ?thesis
  proof (cases "?fc > 0 \<or> ?fc < forced_search_threshold")
    case True
    show ?thesis
    proof (cases ?find)
      case None
      then have "c' = c\<lparr>m_approx_free_count := 0\<rparr>" "x = None"
        using run True by (auto simp: try_chunk_def Let_def)
      then show ?thesis using ok by (auto simp: chunk_ok_def)
    next
      case (Some e)
      then have "c' = c\<lparr>m_approx_free_count := (if ?fc < 0 then 0 else ?fc - 1),
          m_entries := (m_entries c)[e := r]\<rparr>" "x = Some e"
        using run True by (auto simp: try_chunk_def Let_def)
      then show ?thesis using ok found [OF Some] bounds by (auto simp: chunk_ok_def)
    qed
  next
    case False
    then have "c' = c\<lparr>m_approx_free_count := ?fc\<rparr>" "x = None"
      using run by (auto simp: try_chunk_def Let_def)
    then show ?thesis using ok False bounds by (auto simp: chunk_ok_def forced_search_threshold_def)
  qed
qed

lemma try_chunk_finds:
  assumes ok: "chunk_ok c" and "0 < m_approx_free_count c" and "0 \<in> set (m_entries c)"
  shows "snd (try_chunk r c) \<noteq> None"
proof -
  from ok obtain k where k: "4 \<le> k" "k \<le> 10" "length (m_entries c) = 2 ^ k" by (auto simp: chunk_ok_def)
  have "m_entry_count c = of_nat (2 ^ k)" by (simp only: m_entry_count_def k(3))
  then have "set (probe_ids st (m_entry_count c)) = {..<length (m_entries c)}" for st
    using probe_ids_all [OF k(2)] k(3) by (simp only:)
  then have "find (\<lambda>i. m_entries c ! i = 0) (probe_ids st (m_entry_count c)) \<noteq> None" for st
    using assms(3) by (auto simp: find_None_iff in_set_conv_nth)
  then show ?thesis using assms(2) by (auto simp: try_chunk_def Let_def split: option.splits)
qed

text \<open>
  \<open>claims cs cs' c e r\<close>: the chunks differ, as far as entries go, only in entry \<open>e\<close> of chunk
  \<open>c\<close>, which was free and now holds \<open>r\<close>.
\<close>

definition same_entries :: "chunk list \<Rightarrow> chunk list \<Rightarrow> bool" where
  "same_entries cs cs' \<longleftrightarrow> map m_entries cs' = map m_entries cs"

definition claims :: "chunk list \<Rightarrow> chunk list \<Rightarrow> nat \<Rightarrow> nat \<Rightarrow> u64 \<Rightarrow> bool" where
  "claims cs cs' c e r \<longleftrightarrow> c < length cs \<and> e < length (m_entries (cs ! c)) \<and>
     m_entries (cs ! c) ! e = 0 \<and>
     map m_entries cs' = (map m_entries cs)[c := (m_entries (cs ! c))[e := r]]"

lemma search_back_result:
  assumes "\<forall>c\<in>set cs. chunk_ok c" "k \<le> length cs" "search_back r cs k = (cs', x)"
  shows "(\<forall>c\<in>set cs'. chunk_ok c) \<and>
    (case x of None \<Rightarrow> same_entries cs cs' | Some (c, e) \<Rightarrow> c < k \<and> claims cs cs' c e r)"
  using assms
proof (induction k arbitrary: cs)
  case 0
  then show ?case by (simp add: same_entries_def)
next
  case (Suc k)
  obtain c y where t: "try_chunk r (cs ! k) = (c, y)" by fastforce
  have "chunk_ok (cs ! k)" using Suc.prems by simp
  note tr = try_chunk_result [OF this t]
  have ok: "\<forall>d\<in>set (cs[k := c]). chunk_ok d"
    using Suc.prems tr set_update_subset_insert [of cs k c] by auto
  show ?case
  proof (cases y)
    case None
    then have same: "same_entries cs (cs[k := c])"
      using tr Suc.prems by (auto simp: same_entries_def map_update list_update_same_conv)
    have "search_back r (cs[k := c]) k = (cs', x)" using Suc.prems t None by (simp add: Let_def)
    from Suc.IH [OF ok _ this] Suc.prems(2) have
      "(\<forall>c\<in>set cs'. chunk_ok c) \<and> (case x of None \<Rightarrow> same_entries (cs[k := c]) cs'
        | Some (d, e) \<Rightarrow> d < k \<and> claims (cs[k := c]) cs' d e r)" by simp
    moreover have "m_entries (cs[k := c] ! d) = m_entries (cs ! d)" for d
      using tr None Suc.prems by (cases "d = k") auto
    ultimately show ?thesis
      using same by (auto simp: same_entries_def claims_def split: option.splits prod.splits)
  next
    case (Some e)
    then have "cs' = cs[k := c]" "x = Some (k, e)" using Suc.prems t by (auto simp: Let_def)
    then show ?thesis using tr ok Some Suc.prems by (auto simp: claims_def map_update)
  qed
qed

lemma chunk_entry_map: "map m_entries cs' = map m_entries cs \<Longrightarrow> chunk_entry cs' c e = chunk_entry cs c e"
proof -
  assume eq: "map m_entries cs' = map m_entries cs"
  then have "length cs' = length cs" by (rule map_eq_imp_length_eq)
  moreover from this eq have "c < length cs \<Longrightarrow> m_entries (cs' ! c) = m_entries (cs ! c)"
    by (metis nth_map)
  ultimately show ?thesis by (auto simp: chunk_entry_def)
qed

lemma claims_length: "claims cs cs' c e r \<Longrightarrow> length cs' = length cs"
  unfolding claims_def by (metis length_list_update length_map)

lemma claims_entry:
  assumes "claims cs cs' c e r"
  shows "chunk_entry cs c e = Some 0" "chunk_entry cs' c e = Some r"
    "(d, f) \<noteq> (c, e) \<Longrightarrow> chunk_entry cs' d f = chunk_entry cs d f"
proof -
  have eq: "map m_entries cs' = (map m_entries cs)[c := (m_entries (cs ! c))[e := r]]"
    and c: "c < length cs" "e < length (m_entries (cs ! c))" "m_entries (cs ! c) ! e = 0"
    using assms by (auto simp: claims_def)
  have len: "length cs' = length cs" using arg_cong [OF eq, of length] by simp
  have nth: "m_entries (cs' ! d) = (if d = c then (m_entries (cs ! c))[e := r] else m_entries (cs ! d))"
    if "d < length cs" for d
    using arg_cong [OF eq, of "\<lambda>xs. xs ! d"] that len by auto
  show "chunk_entry cs c e = Some 0" using c by (simp add: chunk_entry_def)
  show "chunk_entry cs' c e = Some r" using c len nth [OF c(1)] by (simp add: chunk_entry_def)
  show "(d, f) \<noteq> (c, e) \<Longrightarrow> chunk_entry cs' d f = chunk_entry cs d f"
    using len nth [of d] by (auto simp: chunk_entry_def nth_list_update)
qed

lemma claimed_chunk_ok: "4 \<le> k \<Longrightarrow> k \<le> 10 \<Longrightarrow> chunk_ok (claimed_chunk r (2 ^ k))"
proof -
  assume "4 \<le> k" "k \<le> 10"
  moreover have "(0::int) < 2 ^ k" by simp
  then have "(-10::int) \<le> 2 ^ k - 1" by linarith
  ultimately show ?thesis
    by (auto simp: claimed_chunk_def chunk_allocate_def chunk_ok_def Let_def)
qed

lemma claimed_chunk_entries:
  "m_entries (claimed_chunk r n) = (replicate n 0)[0 := r]"
  by (simp add: claimed_chunk_def chunk_allocate_def Let_def)

lemma next_element_count_power:
  "\<exists>k. 4 \<le> k \<and> k \<le> 10 \<and> n = 2 ^ k \<Longrightarrow> \<exists>k. 4 \<le> k \<and> k \<le> 10 \<and> next_element_count n = 2 ^ k"
proof (elim exE conjE)
  fix k assume k: "4 \<le> k" "k \<le> 10" "n = 2 ^ k"
  show ?thesis
  proof (cases "k < 10")
    case True
    then have "n < 2 ^ 10" unfolding k(3) by (intro power_strict_increasing) auto
    then show ?thesis
      using True k by (intro exI [of _ "Suc k"]) (simp add: next_element_count_def max_element_count_def)
  next
    case False
    with k show ?thesis by (intro exI [of _ 10]) (simp add: next_element_count_def max_element_count_def)
  qed
qed

lemma chunk_entry_append:
  "chunk_entry (cs @ [c]) d f =
     (if d = length cs then (if f < length (m_entries c) then Some (m_entries c ! f) else None)
      else chunk_entry cs d f)"
  by (auto simp: chunk_entry_def nth_append)

lemma list_add_result:
  assumes ok: "list_ok l" and r: "r \<noteq> 0" and run: "list_add memory r l = Inr (l', c, e)"
  shows "list_ok l' \<and> chunk_entry (m_chunks l') c e = Some r \<and>
    chunk_entry (m_chunks l) c e \<in> {None, Some 0} \<and>
    (\<forall>d f. (d, f) \<noteq> (c, e) \<longrightarrow> chunk_entry (m_chunks l') d f = chunk_entry (m_chunks l) d f \<or>
      chunk_entry (m_chunks l) d f = None \<and> chunk_entry (m_chunks l') d f = Some 0)"
proof -
  obtain cs x where s: "search_back r (m_chunks l) (length (m_chunks l)) = (cs, x)" by fastforce
  have okc: "\<forall>c\<in>set (m_chunks l). chunk_ok c" "m_chunks l \<noteq> []" using ok by (auto simp: list_ok_def)
  note res = search_back_result [OF okc(1) order_refl s]
  show ?thesis
  proof (cases x)
    case (Some p)
    then have cl: "claims (m_chunks l) cs c e r" and l': "l' = l\<lparr>m_approx_tail := length (m_chunks l) - 1, m_chunks := cs\<rparr>"
      using run s res by (auto simp: list_add_def split: prod.splits)
    have "length cs = length (m_chunks l)" using cl by (rule claims_length)
    then have "list_ok l'" using res okc by (auto simp: list_ok_def l')
    then show ?thesis using claims_entry [OF cl] by (auto simp: l')
  next
    case None
    let ?n = "next_element_count (length (m_entries (cs ! (length (m_chunks l) - 1))))"
    have mem: "memory" and l': "l' = \<lparr>m_approx_tail = length cs, m_chunks = cs @ [claimed_chunk r ?n]\<rparr>"
      and ce: "c = length cs" "e = 0"
      using run s None by (auto simp: list_add_def split: if_splits)
    have same: "map m_entries cs = map m_entries (m_chunks l)" using res None by (simp add: same_entries_def)
    then have len: "length cs = length (m_chunks l)" by (rule map_eq_imp_length_eq)
    have "cs ! (length (m_chunks l) - 1) \<in> set cs" using okc(2) len by simp
    then have "chunk_ok (cs ! (length (m_chunks l) - 1))" using res by blast
    then obtain k where k: "4 \<le> k" "k \<le> 10" "?n = 2 ^ k"
      using next_element_count_power by (auto simp: chunk_ok_def)
    then have new: "chunk_ok (claimed_chunk r ?n)" "0 < ?n" by (simp_all add: claimed_chunk_ok)
    have okl: "list_ok l'" using res new(1) by (auto simp: list_ok_def l')
    have none: "chunk_entry (m_chunks l) (length cs) f = None" for f by (simp add: chunk_entry_def len)
    have ent: "chunk_entry (m_chunks l') d f = (if d = length cs
        then (if f < ?n then Some (if f = 0 then r else 0) else None)
        else chunk_entry (m_chunks l) d f)" for d f
      unfolding l' using chunk_entry_map [OF same, of d f]
      by (cases f) (simp_all add: chunk_entry_append claimed_chunk_entries)
    have "chunk_entry (m_chunks l') d f = chunk_entry (m_chunks l) d f \<or>
        chunk_entry (m_chunks l) d f = None \<and> chunk_entry (m_chunks l') d f = Some 0"
      if "(d, f) \<noteq> (length cs, 0)" for d f
      using that none [of f] unfolding ent by (cases "d = length cs"; cases "f < ?n") simp_all
    moreover have "chunk_entry (m_chunks l') (length cs) 0 = Some r" using new(2) unfolding ent by simp
    ultimately show ?thesis unfolding ce using okl none [of 0] by blast
  qed
qed

lemma search_back_finds:
  assumes "\<forall>c\<in>set cs. chunk_ok c" "k \<le> length cs" "i < k"
    and "0 < m_approx_free_count (cs ! i)" "0 \<in> set (m_entries (cs ! i))"
  shows "snd (search_back r cs k) \<noteq> None"
  using assms
proof (induction k arbitrary: cs)
  case (Suc k)
  obtain c y where t: "try_chunk r (cs ! k) = (c, y)" by fastforce
  have okk: "chunk_ok (cs ! k)" using Suc.prems by simp
  show ?case
  proof (cases "y = None")
    case True
    then have "i < k" using try_chunk_finds [OF okk, of r] t Suc.prems by (cases "i = k") auto
    moreover have "\<forall>d\<in>set (cs[k := c]). chunk_ok d"
      using Suc.prems try_chunk_result [OF okk t] set_update_subset_insert [of cs k c] by auto
    ultimately have "snd (search_back r (cs[k := c]) k) \<noteq> None"
      using Suc.IH [of "cs[k := c]"] Suc.prems by simp
    then show ?thesis using t True by simp
  next
    case False
    then show ?thesis using t by (auto simp: Let_def)
  qed
qed simp

lemma list_add_reuses:
  assumes ok: "list_ok l" and c: "c \<in> set (m_chunks l)" "0 < m_approx_free_count c" "0 \<in> set (m_entries c)"
    and run: "list_add memory r l = Inr (l', d, e)"
  shows "length (m_chunks l') = length (m_chunks l)"
proof -
  obtain cs x where s: "search_back r (m_chunks l) (length (m_chunks l)) = (cs, x)" by fastforce
  from c obtain i where "i < length (m_chunks l)" "m_chunks l ! i = c" by (auto simp: in_set_conv_nth)
  then have "x \<noteq> None"
    using search_back_finds [of "m_chunks l" "length (m_chunks l)" i r] ok c s by (auto simp: list_ok_def)
  then obtain p where p: "x = Some p" by blast
  have okc: "\<forall>c\<in>set (m_chunks l). chunk_ok c" using ok by (simp add: list_ok_def)
  have "claims (m_chunks l) cs (fst p) (snd p) r"
    using search_back_result [OF okc order_refl s] p by (simp split: prod.splits)
  moreover have "m_chunks l' = cs" using run s p by (auto simp: list_add_def split: prod.splits)
  ultimately show ?thesis by (simp add: claims_length)
qed

lemma list_of_index_ok: "registry_ok s \<Longrightarrow> i < length (m_lists s) \<Longrightarrow> m_lists s ! i = Some l \<Longrightarrow> list_ok l"
  unfolding registry_ok_def by (metis nth_mem)

lemma registry_upd:
  "registry_ok s \<Longrightarrow> list_ok l \<Longrightarrow> registry_ok (s\<lparr>m_lists := (m_lists s)[i := Some l]\<rparr>)"
  using set_update_subset_insert [of "m_lists s" i "Some l"] by (auto simp: registry_ok_def)

lemma thread_list_index:
  assumes "registry_ok s"
  shows "unat ((h :: u64) mod of_nat (length (m_lists s))) < length (m_lists s)"
proof -
  have n: "0 < length (m_lists s)" "length (m_lists s) \<le> 16" using assms by (auto simp: registry_ok_def)
  then have "unat (of_nat (length (m_lists s)) :: u64) = length (m_lists s)"
    by (subst unat_of_nat) (rule mod_less, simp)
  then show ?thesis using n by (simp add: unat_mod_distrib)
qed

lemma add_registration_claims:
  assumes ok: "registry_ok s" and r: "r \<noteq> 0"
    and run: "add_registration memory h s r = Inr (s', p)"
  shows "registry_ok s' \<and> registry_entry s' p = Some r \<and> registry_entry s p \<in> {None, Some 0} \<and>
    (\<forall>q. q \<noteq> p \<longrightarrow> registry_entry s' q = registry_entry s q \<or>
      registry_entry s q = None \<and> registry_entry s' q = Some 0)"
proof -
  define i where "i = unat (h mod of_nat (length (m_lists s)))"
  have i: "i < length (m_lists s)" unfolding i_def by (rule thread_list_index [OF ok])
  show ?thesis
  proof (cases "m_lists s ! i")
    case None
    let ?l = "list_allocate\<lparr>m_chunks := [claimed_chunk r 16]\<rparr>"
    have s': "s' = s\<lparr>m_lists := (m_lists s)[i := Some ?l]\<rparr>" and p: "p = (i, 0, 0)"
      using run None by (auto simp: add_registration_def i_def [symmetric] split: if_splits)
    have "list_ok ?l" using claimed_chunk_ok [of 4 r] by (simp add: list_ok_def list_allocate_def)
    then have ok': "registry_ok s'" unfolding s' by (rule registry_upd [OF ok])
    have ent: "registry_entry s' (j, c, e) = (if j = i
        then (if c = 0 \<and> e < 16 then Some (if e = 0 then r else 0) else None)
        else registry_entry s (j, c, e))" for j c e
      using i by (cases e; cases "c = 0")
        (auto simp: s' registry_entry_def chunk_entry_def claimed_chunk_entries)
    have none: "registry_entry s (i, c, e) = None" for c e using None by (simp add: registry_entry_def)
    have "registry_entry s' q = registry_entry s q \<or>
      registry_entry s q = None \<and> registry_entry s' q = Some 0" if "q \<noteq> p" for q
    proof -
      obtain j c e where q: "q = (j, c, e)" by (cases q) auto
      show ?thesis unfolding q ent using that none [of c e] q p by (cases "j = i") auto
    qed
    moreover have "registry_entry s' p = Some r" unfolding p ent by simp
    ultimately show ?thesis using ok' none [of 0 0] p by simp
  next
    case (Some l)
    then obtain l' c e where add: "list_add memory r l = Inr (l', c, e)"
      and s': "s' = s\<lparr>m_lists := (m_lists s)[i := Some l']\<rparr>" and p: "p = (i, c, e)"
      using run by (auto simp: add_registration_def i_def [symmetric] split: sum.splits)
    note res = list_add_result [OF list_of_index_ok [OF ok i Some] r add]
    have ent: "registry_entry s' (j, d, f) = (if j = i then chunk_entry (m_chunks l') d f
        else registry_entry s (j, d, f))" for j d f
      using i by (simp add: s' registry_entry_def)
    have old: "registry_entry s (i, d, f) = chunk_entry (m_chunks l) d f" for d f
      using i Some by (simp add: registry_entry_def)
    have "registry_entry s' q = registry_entry s q \<or>
      registry_entry s q = None \<and> registry_entry s' q = Some 0" if "q \<noteq> p" for q
    proof -
      obtain j d f where q: "q = (j, d, f)" by (cases q) auto
      show ?thesis unfolding q ent using that res q p old by (cases "j = i") auto
    qed
    moreover have "registry_ok s'" unfolding s' using res by (intro registry_upd [OF ok]) blast
    ultimately show ?thesis using res by (simp add: p ent old)
  qed
qed

lemma add_registration_total: "registry_ok s \<Longrightarrow> \<exists>x. add_registration True h s r = Inr x"
  by (auto simp: add_registration_def list_add_def Let_def split: option.splits sum.splits prod.splits)

lemma chunk_deregister_result:
  assumes "chunk_ok c" "e < length (m_entries c)" "r \<noteq> 0" "chunk_deregister r e c = (c', ok)"
  shows "chunk_ok c' \<and> (ok \<longleftrightarrow> m_entries c ! e = r) \<and>
    m_entries c' = (if ok then (m_entries c)[e := 0] else m_entries c)"
  using assms by (auto simp: chunk_deregister_def Let_def chunk_ok_def split: if_splits)

section \<open>Properties\<close>

definition demo_registry :: registration_state where
  "demo_registry = registration_state_allocate 4"

lemma demo_registry_ok: "registry_ok demo_registry"
  by (simp add: registry_ok_def demo_registry_def registration_state_allocate_def)

text \<open>
  Registering claims exactly one entry: the entry it returns was free (or did not exist)
  and holds the registration afterwards, every other entry keeps its content, and entries that
  appear with a new list or chunk are free. The shape of the registry (chunk sizes powers of
  two between 16 and 1024, free counts between -10 and the size, so they never leave their 32
  bits) is kept.
\<close>

theorem registration_claims_free_entry:
  assumes "registry_ok s" and "r \<noteq> 0" and "add_registration memory h s r = Inr (s', p)"
  shows "registry_ok s' \<and> registry_entry s' p = Some r \<and> registry_entry s p \<in> {None, Some 0} \<and>
    (\<forall>q. q \<noteq> p \<longrightarrow> registry_entry s' q = registry_entry s q \<or>
      registry_entry s q = None \<and> registry_entry s' q = Some 0)"
  by (rule add_registration_claims [OF assms])

theorem registration_claims_free_entry_witness:
  "\<exists>s' p. add_registration True 9 demo_registry 77 = Inr (s', p) \<and> registry_entry s' p = Some 77"
proof -
  obtain s' p where run: "add_registration True 9 demo_registry 77 = Inr (s', p)"
    using add_registration_total [OF demo_registry_ok] by fastforce
  from registration_claims_free_entry [OF demo_registry_ok _ run] run show ?thesis by auto
qed

text \<open>
  Registering fails only for want of memory, and does not take new memory needlessly: with
  memory it always finds or makes an entry, and it appends no chunk while some chunk whose
  free count is positive has a free entry.
\<close>

theorem registration_total_and_reuses:
  assumes "registry_ok s" and "list_ok l"
  shows "(\<exists>x. add_registration True h s r = Inr x) \<and>
    (\<forall>c\<in>set (m_chunks l). 0 < m_approx_free_count c \<and> 0 \<in> set (m_entries c) \<longrightarrow>
      (\<forall>l' d e. list_add memory r l = Inr (l', d, e) \<longrightarrow> length (m_chunks l') = length (m_chunks l)))"
  using add_registration_total [OF assms(1)] list_add_reuses [OF assms(2)] by blast

theorem registration_total_and_reuses_witness:
  "\<exists>x. add_registration True 3 demo_registry 5 = Inr x"
proof -
  have "list_ok list_allocate"
    unfolding list_ok_def list_allocate_def chunk_allocate_def chunk_ok_def
    by (auto intro: exI [of _ 4])
  from registration_total_and_reuses [OF demo_registry_ok this] show ?thesis by blast
qed

text \<open>
  Deregistering frees the entry exactly when it still holds the registration, so that an
  entry that a canceller has emptied, or that another registration has taken since, is left
  alone; the free count stays within its bounds.
\<close>

theorem deregister_frees_own_entry:
  assumes "chunk_ok c" and "e < length (m_entries c)" and "r \<noteq> 0"
    and "chunk_deregister r e c = (c', ok)"
  shows "chunk_ok c' \<and> (ok \<longleftrightarrow> m_entries c ! e = r) \<and>
    m_entries c' = (if ok then (m_entries c)[e := 0] else m_entries c)"
  by (rule chunk_deregister_result [OF assms])

theorem deregister_frees_own_entry_witness:
  "snd (chunk_deregister 77 0 (claimed_chunk 77 16)) \<and>
   \<not> snd (chunk_deregister 78 0 (claimed_chunk 77 16))"
proof -
  have ok: "chunk_ok (claimed_chunk 77 16)" using claimed_chunk_ok [of 4 77] by simp
  have len: "0 < length (m_entries (claimed_chunk 77 16))" by (simp add: claimed_chunk_entries)
  have ent: "m_entries (claimed_chunk 77 16) ! 0 = 77" by (simp add: claimed_chunk_entries)
  have "snd (chunk_deregister r 0 (claimed_chunk 77 16)) = (r = 77)" if "r \<noteq> 0" for r
    using deregister_frees_own_entry [OF ok len that] ent by (metis prod.collapse)
  then show ?thesis by simp
qed

end
