(* ===== verification/Registry_Memory.thy ===== *)
theory Registry_Memory
  imports Cancellation_Registry
begin

text \<open>
  The memory of the registration lists of src/coro/cancellation_state.cpp while calls overlap: the block
  with the lists, one block per list with its first chunk in it, one per further chunk. Threads that
  register install them with compare-and-exchange and free their own when another thread was first;
  the destructor frees what is linked. Cancellation_Registry has the same functions as calls that do not
  overlap, and which entries of a chunk are looked at; here a thread may claim any free entry of the
  chunk it is at. Cancellation_Protocol says when an entry is given up again.
\<close>

section \<open>State\<close>

text \<open>
  A block is a number that malloc has not given before, so an access to a freed block shows. A pointer
  to the first chunk of a list is the block of the list.
\<close>

datatype memory_fault = Use_after_free | Double_free

text \<open>
  Where a registration is in \<open>try_register_callback\<close>: before it loads \<open>m_registration_state\<close>; with a new
  registration state; before it loads its list; with a new list; at a list; on its way to the last chunk
  (the list, \<open>original_last_chunk\<close> and the chunk); before it stores \<open>m_approx_tail\<close>; looking for a free
  entry (the list, \<open>last_chunk\<close> and \<open>chunk\<close>); with a new chunk; with a chunk that it has linked; in an
  entry; out of it; without memory.
\<close>

datatype adding =
    To_start
  | New_state nat
  | To_list
  | New_list nat nat
  | At_list nat
  | To_last nat nat nat
  | To_tail nat nat
  | At_chunk nat nat nat
  | New_chunk nat nat nat
  | Linked nat nat
  | In_entry nat nat
  | Taken_out
  | No_memory

record registry_memory =
  hardware_concurrency :: u32
  live_blocks :: "nat list"
  fresh_block :: nat
  state_ptr :: "nat option"
  list_ptrs :: "nat option list"
  next_chunk :: "nat \<Rightarrow> nat option"
  prev_chunk :: "nat \<Rightarrow> nat option"
  approx_tail :: "nat \<Rightarrow> nat"
  entry_count :: "nat \<Rightarrow> nat"
  entry :: "nat \<Rightarrow> nat \<Rightarrow> u64"
  adding :: "u64 \<Rightarrow> adding"
  taken :: "u64 set"

definition registry_memory_init :: "registry_memory \<Rightarrow> bool" where
  "registry_memory_init s \<longleftrightarrow> live_blocks s = [] \<and> fresh_block s = 0 \<and> state_ptr s = None \<and> list_ptrs s = [] \<and>
     (\<forall>b e. entry s b e = 0) \<and> (\<forall>a. adding s a = To_start) \<and> taken s = {}"

section \<open>Allocating and freeing\<close>

definition at :: "u64 \<Rightarrow> adding \<Rightarrow> registry_memory \<Rightarrow> registry_memory" where
  "at a p s = s\<lparr>adding := (adding s)(a := p)\<rparr>"

definition malloc :: "registry_memory \<Rightarrow> registry_memory" where
  "malloc s = s\<lparr>live_blocks := fresh_block s # live_blocks s, fresh_block := Suc (fresh_block s)\<rparr>"

definition mfree :: "nat \<Rightarrow> registry_memory \<Rightarrow> registry_memory" where
  "mfree b s = s\<lparr>live_blocks := remove1 b (live_blocks s)\<rparr>"

text \<open>A chunk of \<open>n\<close> entries whose first entry is claimed before it is linked in.\<close>

definition init_chunk :: "u64 \<Rightarrow> nat \<Rightarrow> nat option \<Rightarrow> nat \<Rightarrow> registry_memory \<Rightarrow> registry_memory" where
  "init_chunk a n prev b s =
     s\<lparr>next_chunk := (next_chunk s)(b := None), prev_chunk := (prev_chunk s)(b := prev),
       entry_count := (entry_count s)(b := n), entry := (entry s)(b := (\<lambda>_. 0)(0 := a))\<rparr>"

section \<open>Steps of a registration\<close>

definition load_state :: "u64 \<Rightarrow> registry_memory \<Rightarrow> registry_memory" where
  "load_state a s =
     (case state_ptr s of
        Some b \<Rightarrow> at a To_list s
      | None \<Rightarrow> at a (New_state (fresh_block s)) (malloc s))"

definition install_state :: "u64 \<Rightarrow> nat \<Rightarrow> registry_memory \<Rightarrow> registry_memory" where
  "install_state a b s =
     at a To_list
       (if state_ptr s = None
        then s\<lparr>state_ptr := Some b,
               list_ptrs := map (\<lambda>_. None) (m_lists (registration_state_allocate (hardware_concurrency s)))\<rparr>
        else mfree b s)"

definition load_list :: "u64 \<Rightarrow> nat \<Rightarrow> registry_memory \<Rightarrow> registry_memory" where
  "load_list a i s =
     (case list_ptrs s ! i of
        Some l \<Rightarrow> at a (At_list l) s
      | None \<Rightarrow>
          let b = fresh_block s; s1 = init_chunk a 16 None b (malloc s)
          in at a (New_list i b) (s1\<lparr>approx_tail := (approx_tail s1)(b := b)\<rparr>))"

definition install_list :: "u64 \<Rightarrow> nat \<Rightarrow> nat \<Rightarrow> registry_memory \<Rightarrow> registry_memory" where
  "install_list a i b s =
     (case list_ptrs s ! i of
        None \<Rightarrow> at a (In_entry b 0) (s\<lparr>list_ptrs := (list_ptrs s)[i := Some b]\<rparr>)
      | Some l \<Rightarrow> at a (At_list l) (mfree b s))"

definition load_tail :: "u64 \<Rightarrow> nat \<Rightarrow> registry_memory \<Rightarrow> registry_memory" where
  "load_tail a l s = at a (To_last l (approx_tail s l) (approx_tail s l)) s"

definition walk_next :: "u64 \<Rightarrow> nat \<Rightarrow> nat \<Rightarrow> nat \<Rightarrow> registry_memory \<Rightarrow> registry_memory" where
  "walk_next a l orig c s =
     at a (case next_chunk s c of
             Some n \<Rightarrow> To_last l orig n
           | None \<Rightarrow> if c \<noteq> orig then To_tail l c else At_chunk l c c) s"

definition store_tail :: "u64 \<Rightarrow> nat \<Rightarrow> nat \<Rightarrow> adding \<Rightarrow> registry_memory \<Rightarrow> registry_memory" where
  "store_tail a l c p s = at a p (s\<lparr>approx_tail := (approx_tail s)(l := c)\<rparr>)"

text \<open>The exchange on one entry of the chunk.\<close>

definition claim_entry :: "u64 \<Rightarrow> nat \<Rightarrow> nat \<Rightarrow> registry_memory \<Rightarrow> registry_memory" where
  "claim_entry a c e s =
     (if entry s c e = 0 then at a (In_entry c e) (s\<lparr>entry := (entry s)(c := (entry s c)(e := a))\<rparr>) else s)"

text \<open>No entry of the chunk was free: the chunk before it, or a new one after the last.\<close>

definition chunk_full :: "u64 \<Rightarrow> nat \<Rightarrow> nat \<Rightarrow> nat \<Rightarrow> registry_memory \<Rightarrow> registry_memory" where
  "chunk_full a l last_chunk c s =
     (case prev_chunk s c of
        Some p \<Rightarrow> at a (At_chunk l last_chunk p) s
      | None \<Rightarrow>
          let b = fresh_block s; n = next_element_count (entry_count s last_chunk)
          in at a (New_chunk l last_chunk b) (init_chunk a n (Some last_chunk) b (malloc s)))"

definition append_chunk :: "u64 \<Rightarrow> nat \<Rightarrow> nat \<Rightarrow> nat \<Rightarrow> registry_memory \<Rightarrow> registry_memory" where
  "append_chunk a l last_chunk b s =
     (if next_chunk s last_chunk = None
      then at a (Linked l b) (s\<lparr>next_chunk := (next_chunk s)(last_chunk := Some b)\<rparr>)
      else at a (At_list l) (mfree b s))"

section \<open>Giving an entry up\<close>

text \<open>
  The exchange of \<open>deregister_callback\<close>, and of \<open>try_register_callback\<close> when cancellation was requested.
\<close>

definition remove_entry :: "u64 \<Rightarrow> nat \<Rightarrow> nat \<Rightarrow> registry_memory \<Rightarrow> registry_memory" where
  "remove_entry a c e s =
     at a Taken_out (if entry s c e = a then s\<lparr>entry := (entry s)(c := (entry s c)(e := 0))\<rparr> else s)"

text \<open>The exchange of \<open>request_cancellation\<close>; \<open>taken\<close> are the registrations it has taken.\<close>

definition take_entry :: "nat \<Rightarrow> nat \<Rightarrow> registry_memory \<Rightarrow> registry_memory" where
  "take_entry c e s =
     (if entry s c e \<noteq> 0
      then s\<lparr>entry := (entry s)(c := (entry s c)(e := 0)), taken := insert (entry s c e) (taken s)\<rparr> else s)"

text \<open>The chunks that the loop of \<open>request_cancellation\<close> can come to.\<close>

definition in_list :: "registry_memory \<Rightarrow> nat \<Rightarrow> bool" where
  "in_list s c \<longleftrightarrow> (\<exists>l. Some l \<in> set (list_ptrs s) \<and> (\<lambda>x y. next_chunk s x = Some y)\<^sup>*\<^sup>* l c)"

inductive registry_step :: "registry_memory \<Rightarrow> registry_memory \<Rightarrow> bool" where
  rs_load_state: "adding s a = To_start \<Longrightarrow> a \<noteq> 0 \<Longrightarrow> registry_step s (load_state a s)"
| rs_install_state: "adding s a = New_state b \<Longrightarrow> registry_step s (install_state a b s)"
| rs_load_list: "adding s a = To_list \<Longrightarrow> i < length (list_ptrs s) \<Longrightarrow> registry_step s (load_list a i s)"
| rs_install_list: "adding s a = New_list i b \<Longrightarrow> registry_step s (install_list a i b s)"
| rs_load_tail: "adding s a = At_list l \<Longrightarrow> registry_step s (load_tail a l s)"
| rs_walk_next: "adding s a = To_last l orig c \<Longrightarrow> registry_step s (walk_next a l orig c s)"
| rs_store_tail: "adding s a = To_tail l c \<Longrightarrow> registry_step s (store_tail a l c (At_chunk l c c) s)"
| rs_claim_entry: "adding s a = At_chunk l last_chunk c \<Longrightarrow> e < entry_count s c \<Longrightarrow>
    registry_step s (claim_entry a c e s)"
| rs_chunk_full: "adding s a = At_chunk l last_chunk c \<Longrightarrow> registry_step s (chunk_full a l last_chunk c s)"
| rs_append_chunk: "adding s a = New_chunk l last_chunk b \<Longrightarrow> registry_step s (append_chunk a l last_chunk b s)"
| rs_linked: "adding s a = Linked l b \<Longrightarrow> registry_step s (store_tail a l b (In_entry b 0) s)"
| rs_remove_entry: "adding s a = In_entry c e \<Longrightarrow> registry_step s (remove_entry a c e s)"
| rs_take_entry: "in_list s c \<Longrightarrow> registry_step s (take_entry c e s)"
| rs_no_state: "adding s a = To_start \<Longrightarrow> a \<noteq> 0 \<Longrightarrow> state_ptr s = None \<Longrightarrow> registry_step s (at a No_memory s)"
| rs_no_list: "adding s a = To_list \<Longrightarrow> i < length (list_ptrs s) \<Longrightarrow> list_ptrs s ! i = None \<Longrightarrow>
    registry_step s (at a No_memory s)"
| rs_no_chunk: "adding s a = At_chunk l last_chunk c \<Longrightarrow> prev_chunk s c = None \<Longrightarrow>
    registry_step s (at a No_memory s)"

abbreviation registry_reachable :: "registry_memory \<Rightarrow> bool" where
  "registry_reachable \<equiv> reachable registry_memory_init registry_step"

section \<open>The destructor\<close>

definition load_next :: "nat \<Rightarrow> registry_memory \<Rightarrow> memory_fault + nat option" where
  "load_next c s = (if c \<in> set (live_blocks s) then Inr (next_chunk s c) else Inl Use_after_free)"

definition free_block :: "nat \<Rightarrow> registry_memory \<Rightarrow> memory_fault + registry_memory" where
  "free_block b s = (if b \<in> set (live_blocks s) then Inr (mfree b s) else Inl Double_free)"

text \<open>The loop over the chunks after the first; every round frees a block.\<close>

function free_chain :: "nat option \<Rightarrow> registry_memory \<Rightarrow> memory_fault + registry_memory" where
  "free_chain None s = Inr s"
| "free_chain (Some c) s =
     (case load_next c s of
        Inl f \<Rightarrow> Inl f
      | Inr next \<Rightarrow> (case free_block c s of Inl f \<Rightarrow> Inl f | Inr s1 \<Rightarrow> free_chain next s1))"
  by pat_completeness auto

termination
  by (relation "measure (\<lambda>(c, s). length (live_blocks s))")
    (auto simp: free_block_def mfree_def length_remove1 intro!: diff_Suc_less split: if_splits dest: length_pos_if_in_set)

definition free_list :: "nat \<Rightarrow> registry_memory \<Rightarrow> memory_fault + registry_memory" where
  "free_list l s =
     (case load_next l s of
        Inl f \<Rightarrow> Inl f
      | Inr chunk \<Rightarrow> (case free_block l s of Inl f \<Rightarrow> Inl f | Inr s1 \<Rightarrow> free_chain chunk s1))"

fun free_lists :: "nat option list \<Rightarrow> registry_memory \<Rightarrow> memory_fault + registry_memory" where
  "free_lists [] s = Inr s"
| "free_lists (None # ls) s = free_lists ls s"
| "free_lists (Some l # ls) s = (case free_list l s of Inl f \<Rightarrow> Inl f | Inr s1 \<Rightarrow> free_lists ls s1)"

definition registry_destroy :: "registry_memory \<Rightarrow> memory_fault + registry_memory" where
  "registry_destroy s =
     (case state_ptr s of
        None \<Rightarrow> Inr s
      | Some b \<Rightarrow> (case free_lists (list_ptrs s) s of Inl f \<Rightarrow> Inl f | Inr s1 \<Rightarrow> free_block b s1))"

section \<open>The scan\<close>

text \<open>
  The entries that \<open>request_cancellation\<close> looks at, in its order. None: a freed chunk, or \<open>n\<close> is not more
  than the number of chunks.
\<close>

fun scan_chain :: "nat \<Rightarrow> nat option \<Rightarrow> registry_memory \<Rightarrow> (nat \<times> nat) list option" where
  "scan_chain 0 p s = None"
| "scan_chain (Suc n) None s = Some []"
| "scan_chain (Suc n) (Some c) s =
     (if c \<in> set (live_blocks s)
      then map_option (\<lambda>es. map (Pair c) [0..<entry_count s c] @ es) (scan_chain n (next_chunk s c) s) else None)"

fun scan_lists :: "nat \<Rightarrow> nat option list \<Rightarrow> registry_memory \<Rightarrow> (nat \<times> nat) list option" where
  "scan_lists n [] s = Some []"
| "scan_lists n (None # ls) s = scan_lists n ls s"
| "scan_lists n (Some l # ls) s =
     (case scan_chain n (Some l) s of
        None \<Rightarrow> None
      | Some es \<Rightarrow> map_option (append es) (scan_lists n ls s))"

section \<open>Chains of chunks\<close>

fun path :: "(nat \<Rightarrow> nat option) \<Rightarrow> nat option \<Rightarrow> nat list \<Rightarrow> bool" where
  "path nx p [] \<longleftrightarrow> p = None"
| "path nx p (c # cs) \<longleftrightarrow> p = Some c \<and> path nx (nx c) cs"

lemma path_None [simp]: "path nx None cs \<longleftrightarrow> cs = []"
  by (cases cs) auto

lemma path_first: "path nx (Some c) cs \<Longrightarrow> c \<in> set cs"
  by (cases cs) auto

lemma path_next: "path nx p cs \<Longrightarrow> c \<in> set cs \<Longrightarrow> nx c = Some d \<Longrightarrow> d \<in> set cs"
  by (induction cs arbitrary: p) (auto dest: path_first)

lemma path_other: "b \<notin> set cs \<Longrightarrow> path (nx(b := v)) p cs = path nx p cs"
  by (induction cs arbitrary: p) auto

lemma path_append:
  "path nx p cs \<Longrightarrow> distinct cs \<Longrightarrow> c \<in> set cs \<Longrightarrow> nx c = None \<Longrightarrow> nx b = None \<Longrightarrow> b \<notin> set cs \<Longrightarrow>
   path (nx(c := Some b)) p (cs @ [b])"
proof (induction cs arbitrary: p)
  case (Cons x xs)
  show ?case
  proof (cases "x = c")
    case True
    then show ?thesis using Cons.prems by auto
  next
    case False
    then show ?thesis using Cons by auto
  qed
qed simp

section \<open>The invariant\<close>

text \<open>Whose a block is: linked in as the registration state or into a list, or a registration's own.\<close>

datatype owner = Nobody | The_state | In_list nat | Private u64

fun private_block :: "adding \<Rightarrow> nat option" where
  "private_block (New_state b) = Some b"
| "private_block (New_list i b) = Some b"
| "private_block (New_chunk l last_chunk b) = Some b"
| "private_block _ = None"

text \<open>The entry that holds the registration, also before it is linked in.\<close>

fun own_entry :: "adding \<Rightarrow> (nat \<times> nat) option" where
  "own_entry (New_list i b) = Some (b, 0)"
| "own_entry (New_chunk l last_chunk b) = Some (b, 0)"
| "own_entry (Linked l b) = Some (b, 0)"
| "own_entry (In_entry c e) = Some (c, e)"
| "own_entry _ = None"

definition blocks_ok :: "registry_memory \<Rightarrow> (nat \<Rightarrow> owner) \<Rightarrow> bool" where
  "blocks_ok s own \<longleftrightarrow> distinct (live_blocks s) \<and>
     (\<forall>b. (b \<in> set (live_blocks s) \<longleftrightarrow> own b \<noteq> Nobody) \<and> (own b \<noteq> Nobody \<longrightarrow> b < fresh_block s) \<and>
          (state_ptr s = Some b \<longleftrightarrow> own b = The_state)) \<and>
     (\<forall>a b. private_block (adding s a) = Some b \<longleftrightarrow> own b = Private a)"

definition lists_ok :: "registry_memory \<Rightarrow> (nat \<Rightarrow> owner) \<Rightarrow> (nat \<Rightarrow> nat list) \<Rightarrow> bool" where
  "lists_ok s own ch \<longleftrightarrow>
     (\<forall>i b. own b = In_list i \<longleftrightarrow> i < length (list_ptrs s) \<and> b \<in> set (ch i)) \<and>
     (\<forall>i<length (list_ptrs s). path (next_chunk s) (list_ptrs s ! i) (ch i) \<and> distinct (ch i) \<and>
        (\<forall>l. list_ptrs s ! i = Some l \<longrightarrow> own (approx_tail s l) = In_list i)) \<and>
     (state_ptr s = None \<longrightarrow> list_ptrs s = []) \<and>
     (\<forall>b i. own b = In_list i \<longrightarrow> 0 < entry_count s b \<and> (\<forall>p. prev_chunk s b = Some p \<longrightarrow> own p = In_list i))"

definition same_list :: "registry_memory \<Rightarrow> (nat \<Rightarrow> owner) \<Rightarrow> nat \<Rightarrow> nat \<Rightarrow> bool" where
  "same_list s own l c \<longleftrightarrow> (\<exists>i<length (list_ptrs s). list_ptrs s ! i = Some l \<and> own c = In_list i)"

fun adding_ok :: "registry_memory \<Rightarrow> (nat \<Rightarrow> owner) \<Rightarrow> adding \<Rightarrow> bool" where
  "adding_ok s own To_list = (state_ptr s \<noteq> None)"
| "adding_ok s own (At_list l) = same_list s own l l"
| "adding_ok s own (New_list i b) = (i < length (list_ptrs s) \<and> next_chunk s b = None \<and>
     prev_chunk s b = None \<and> approx_tail s b = b \<and> 0 < entry_count s b)"
| "adding_ok s own (To_last l orig c) = (same_list s own l orig \<and> same_list s own l c)"
| "adding_ok s own (To_tail l c) = same_list s own l c"
| "adding_ok s own (At_chunk l last_chunk c) = (same_list s own l last_chunk \<and> same_list s own l c)"
| "adding_ok s own (New_chunk l last_chunk b) = (same_list s own l last_chunk \<and> next_chunk s b = None \<and>
     prev_chunk s b = Some last_chunk \<and> 0 < entry_count s b)"
| "adding_ok s own (Linked l b) = same_list s own l b"
| "adding_ok s own (In_entry c e) = ((\<exists>i. own c = In_list i) \<and> e < entry_count s c)"
| "adding_ok s own _ = True"

definition entries_ok :: "registry_memory \<Rightarrow> (nat \<Rightarrow> owner) \<Rightarrow> bool" where
  "entries_ok s own \<longleftrightarrow>
     (\<forall>a c e. own_entry (adding s a) = Some (c, e) \<longrightarrow> (entry s c e = a \<longleftrightarrow> a \<notin> taken s)) \<and>
     (\<forall>b e. own b \<noteq> Nobody \<longrightarrow> entry s b e \<noteq> 0 \<longrightarrow> own_entry (adding s (entry s b e)) = Some (b, e)) \<and>
     (\<forall>b e. fresh_block s \<le> b \<longrightarrow> entry s b e = 0) \<and>
     (\<forall>a\<in>taken s. adding s a = Taken_out \<or> (\<exists>l b. adding s a = Linked l b) \<or> (\<exists>c e. adding s a = In_entry c e)) \<and>
     adding s 0 = To_start"

definition registry_inv :: "registry_memory \<Rightarrow> (nat \<Rightarrow> owner) \<Rightarrow> (nat \<Rightarrow> nat list) \<Rightarrow> bool" where
  "registry_inv s own ch \<longleftrightarrow> blocks_ok s own \<and> lists_ok s own ch \<and> (\<forall>a. adding_ok s own (adding s a)) \<and> entries_ok s own"

lemma registry_inv_init: "registry_memory_init s \<Longrightarrow> registry_inv s (\<lambda>_. Nobody) (\<lambda>_. [])"
  by (auto simp: registry_memory_init_def registry_inv_def blocks_ok_def lists_ok_def entries_ok_def)

lemmas registry_inv_parts = registry_inv_def blocks_ok_def lists_ok_def entries_ok_def

text \<open>The parts of the invariant, to use and to prove.\<close>

lemma registry_invD:
  assumes "registry_inv s own ch"
  shows "distinct (live_blocks s)" "b \<in> set (live_blocks s) \<longleftrightarrow> own b \<noteq> Nobody" "own b \<noteq> Nobody \<Longrightarrow> b < fresh_block s"
    "state_ptr s = Some b \<longleftrightarrow> own b = The_state" "private_block (adding s a) = Some b \<longleftrightarrow> own b = Private a"
    "own b = In_list i \<longleftrightarrow> i < length (list_ptrs s) \<and> b \<in> set (ch i)"
    "i < length (list_ptrs s) \<Longrightarrow> path (next_chunk s) (list_ptrs s ! i) (ch i)"
    "i < length (list_ptrs s) \<Longrightarrow> distinct (ch i)"
    "i < length (list_ptrs s) \<Longrightarrow> list_ptrs s ! i = Some l \<Longrightarrow> own (approx_tail s l) = In_list i"
    "state_ptr s = None \<Longrightarrow> list_ptrs s = []"
    "own b = In_list i \<Longrightarrow> 0 < entry_count s b"
    "own b = In_list i \<Longrightarrow> prev_chunk s b = Some q \<Longrightarrow> own q = In_list i"
    "adding_ok s own (adding s a)"
    "own_entry (adding s a) = Some (c, e) \<Longrightarrow> entry s c e = a \<longleftrightarrow> a \<notin> taken s"
    "own b \<noteq> Nobody \<Longrightarrow> entry s b e \<noteq> 0 \<Longrightarrow> own_entry (adding s (entry s b e)) = Some (b, e)"
    "fresh_block s \<le> b \<Longrightarrow> entry s b e = 0"
    "a \<in> taken s \<Longrightarrow> adding s a = Taken_out \<or> (\<exists>l b. adding s a = Linked l b) \<or> (\<exists>c e. adding s a = In_entry c e)"
    "adding s 0 = To_start"
proof -
  have parts: "blocks_ok s own" "lists_ok s own ch" "\<forall>a. adding_ok s own (adding s a)" "entries_ok s own"
    using assms unfolding registry_inv_def by blast+
  show "distinct (live_blocks s)" "b \<in> set (live_blocks s) \<longleftrightarrow> own b \<noteq> Nobody" "own b \<noteq> Nobody \<Longrightarrow> b < fresh_block s"
    "state_ptr s = Some b \<longleftrightarrow> own b = The_state" "private_block (adding s a) = Some b \<longleftrightarrow> own b = Private a"
    using parts(1) by (simp_all add: blocks_ok_def)
  show "own b = In_list i \<longleftrightarrow> i < length (list_ptrs s) \<and> b \<in> set (ch i)"
    "i < length (list_ptrs s) \<Longrightarrow> path (next_chunk s) (list_ptrs s ! i) (ch i)"
    "i < length (list_ptrs s) \<Longrightarrow> distinct (ch i)"
    "i < length (list_ptrs s) \<Longrightarrow> list_ptrs s ! i = Some l \<Longrightarrow> own (approx_tail s l) = In_list i"
    "state_ptr s = None \<Longrightarrow> list_ptrs s = []"
    "own b = In_list i \<Longrightarrow> 0 < entry_count s b"
    "own b = In_list i \<Longrightarrow> prev_chunk s b = Some q \<Longrightarrow> own q = In_list i"
    using parts(2) by (simp_all only: lists_ok_def)
  show "adding_ok s own (adding s a)" using parts(3) by simp
  show "own_entry (adding s a) = Some (c, e) \<Longrightarrow> entry s c e = a \<longleftrightarrow> a \<notin> taken s"
    "own b \<noteq> Nobody \<Longrightarrow> entry s b e \<noteq> 0 \<Longrightarrow> own_entry (adding s (entry s b e)) = Some (b, e)"
    "fresh_block s \<le> b \<Longrightarrow> entry s b e = 0"
    "a \<in> taken s \<Longrightarrow> adding s a = Taken_out \<or> (\<exists>l b. adding s a = Linked l b) \<or> (\<exists>c e. adding s a = In_entry c e)"
    "adding s 0 = To_start"
    using parts(4) by (simp_all add: entries_ok_def)
qed

lemma blocks_okI:
  assumes "distinct (live_blocks s)" "\<And>b. b \<in> set (live_blocks s) \<longleftrightarrow> own b \<noteq> Nobody"
    "\<And>b. own b \<noteq> Nobody \<Longrightarrow> b < fresh_block s" "\<And>b. state_ptr s = Some b \<longleftrightarrow> own b = The_state"
    "\<And>a b. private_block (adding s a) = Some b \<longleftrightarrow> own b = Private a"
  shows "blocks_ok s own"
  using assms unfolding blocks_ok_def by simp

lemma lists_okI:
  assumes "\<And>i b. own b = In_list i \<longleftrightarrow> i < length (list_ptrs s) \<and> b \<in> set (ch i)"
    "\<And>i. i < length (list_ptrs s) \<Longrightarrow> path (next_chunk s) (list_ptrs s ! i) (ch i)"
    "\<And>i. i < length (list_ptrs s) \<Longrightarrow> distinct (ch i)"
    "\<And>i l. i < length (list_ptrs s) \<Longrightarrow> list_ptrs s ! i = Some l \<Longrightarrow> own (approx_tail s l) = In_list i"
    "state_ptr s = None \<Longrightarrow> list_ptrs s = []"
    "\<And>b i. own b = In_list i \<Longrightarrow> 0 < entry_count s b"
    "\<And>b i q. own b = In_list i \<Longrightarrow> prev_chunk s b = Some q \<Longrightarrow> own q = In_list i"
  shows "lists_ok s own ch"
  unfolding lists_ok_def by (intro conjI allI impI; rule assms; assumption?)

lemma entries_okI:
  assumes "\<And>a c e. own_entry (adding s a) = Some (c, e) \<Longrightarrow> entry s c e = a \<longleftrightarrow> a \<notin> taken s"
    "\<And>b e. own b \<noteq> Nobody \<Longrightarrow> entry s b e \<noteq> 0 \<Longrightarrow> own_entry (adding s (entry s b e)) = Some (b, e)"
    "\<And>b e. fresh_block s \<le> b \<Longrightarrow> entry s b e = 0"
    "\<And>a. a \<in> taken s \<Longrightarrow> adding s a = Taken_out \<or> (\<exists>l b. adding s a = Linked l b) \<or> (\<exists>c e. adding s a = In_entry c e)"
    "adding s 0 = To_start"
  shows "entries_ok s own"
  unfolding entries_ok_def by (intro conjI allI impI ballI; rule assms; assumption?)

lemma registry_invI:
  "blocks_ok s own \<Longrightarrow> lists_ok s own ch \<Longrightarrow> (\<And>a. adding_ok s own (adding s a)) \<Longrightarrow> entries_ok s own \<Longrightarrow>
   registry_inv s own ch"
  by (simp add: registry_inv_def)

lemma list_head:
  assumes "registry_inv s own ch" "i < length (list_ptrs s)" "list_ptrs s ! i = Some l"
  shows "own l = In_list i"
  using assms(2,3) registry_invD(6) [OF assms(1), of l i] registry_invD(7) [OF assms(1), of i] path_first by auto

lemma fresh_unowned: "registry_inv s own ch \<Longrightarrow> own (fresh_block s) = Nobody"
  using registry_invD(3) by blast

lemma nonnull: "registry_inv s own ch \<Longrightarrow> adding s a \<noteq> To_start \<Longrightarrow> a \<noteq> 0"
  using registry_invD(18) by auto

lemma at_simps [simp]:
  "hardware_concurrency (at a p s) = hardware_concurrency s" "live_blocks (at a p s) = live_blocks s"
  "fresh_block (at a p s) = fresh_block s" "state_ptr (at a p s) = state_ptr s" "list_ptrs (at a p s) = list_ptrs s"
  "next_chunk (at a p s) = next_chunk s" "prev_chunk (at a p s) = prev_chunk s"
  "approx_tail (at a p s) = approx_tail s" "entry_count (at a p s) = entry_count s" "entry (at a p s) = entry s"
  "adding (at a p s) = (adding s)(a := p)" "taken (at a p s) = taken s"
  by (simp_all add: at_def)

text \<open>What one registration relies on stays when others install, append and claim.\<close>

lemma adding_ok_frame:
  assumes "adding_ok s own p"
    and "\<And>i l. i < length (list_ptrs s) \<Longrightarrow> i < length (list_ptrs s') \<and> (list_ptrs s ! i = Some l \<longrightarrow> list_ptrs s' ! i = Some l)"
    and "\<And>c i. own c = In_list i \<Longrightarrow> own' c = In_list i \<and> entry_count s' c = entry_count s c"
    and "state_ptr s \<noteq> None \<Longrightarrow> state_ptr s' \<noteq> None"
    and "\<And>b. private_block p = Some b \<Longrightarrow> next_chunk s' b = next_chunk s b \<and> prev_chunk s' b = prev_chunk s b \<and>
      approx_tail s' b = approx_tail s b \<and> entry_count s' b = entry_count s b"
  shows "adding_ok s' own' p"
proof -
  have same: "same_list s own l c \<Longrightarrow> same_list s' own' l c" for l c
    using assms(2,3) by (fastforce simp: same_list_def)
  show ?thesis using assms same by (cases p) auto
qed

text \<open>A step that only moves the registration on.\<close>

lemma inv_at:
  assumes inv: "registry_inv s own ch" and a: "a \<noteq> 0"
    and p: "private_block p = private_block (adding s a)" "own_entry p = own_entry (adding s a)" "adding_ok s own p"
    and taken: "a \<in> taken s \<Longrightarrow> \<exists>c e. p = In_entry c e"
  shows "registry_inv (at a p s) own ch"
proof (rule registry_invI)
  have pb: "private_block (((adding s)(a := p)) x) = private_block (adding s x)"
    and oe: "own_entry (((adding s)(a := p)) x) = own_entry (adding s x)" for x
    using p by simp_all
  show "blocks_ok (at a p s) own" 
    using inv unfolding registry_inv_def blocks_ok_def at_simps pb by blast
  show "lists_ok (at a p s) own ch" using inv by (simp add: registry_inv_def lists_ok_def)
  show "adding_ok (at a p s) own (adding (at a p s) x)" for x
  proof -
    have "adding_ok s own (((adding s)(a := p)) x)" using p(3) registry_invD(13) [OF inv] by simp
    then show ?thesis unfolding at_simps by (rule adding_ok_frame) auto
  qed
  show "entries_ok (at a p s) own"
  proof (rule entries_okI)
    show "x \<in> taken (at a p s) \<Longrightarrow> adding (at a p s) x = Taken_out \<or> (\<exists>l b. adding (at a p s) x = Linked l b) \<or>
      (\<exists>c e. adding (at a p s) x = In_entry c e)" for x
      using registry_invD(17) [OF inv, of x] taken by auto
    show "adding (at a p s) 0 = To_start" using a registry_invD(18) [OF inv] by simp
  qed (use registry_invD(14-16) [OF inv] oe in \<open>simp_all only: at_simps\<close>)
qed

lemma inv_tail:
  assumes inv: "registry_inv s own ch" and "same_list s own l c"
  shows "registry_inv (s\<lparr>approx_tail := (approx_tail s)(l := c)\<rparr>) own ch" (is "registry_inv ?s own ch")
proof -
  obtain i where i: "i < length (list_ptrs s)" "list_ptrs s ! i = Some l" "own c = In_list i"
    using assms(2) by (auto simp: same_list_def)
  have head: "own l = In_list i" by (rule list_head [OF inv i(1,2)])
  show ?thesis
  proof (rule registry_invI)
    show "blocks_ok ?s own" using inv by (simp add: registry_inv_def blocks_ok_def)
    show "entries_ok ?s own" using inv by (simp add: registry_inv_def entries_ok_def)
    have "own (((approx_tail s)(l := c)) m) = In_list j" if "j < length (list_ptrs s)" "list_ptrs s ! j = Some m" for j m
      using registry_invD(9) [OF inv, of j m] list_head [OF inv, of j m] that i(3) head by auto
    then show "lists_ok ?s own ch" using inv by (auto simp: registry_inv_def lists_ok_def)
    have "adding_ok ?s own (adding s a)" for a
    proof (rule adding_ok_frame [OF registry_invD(13) [OF inv]])
      fix b assume "private_block (adding s a) = Some b"
      then have "b \<noteq> l" using head registry_invD(5) [OF inv] by auto
      then show "next_chunk ?s b = next_chunk s b \<and> prev_chunk ?s b = prev_chunk s b \<and>
        approx_tail ?s b = approx_tail s b \<and> entry_count ?s b = entry_count s b" by simp
    qed auto
    then show "adding_ok ?s own (adding ?s a)" for a by simp
  qed
qed

text \<open>A block that its registration frees.\<close>

lemma mfree_simps [simp]:
  "hardware_concurrency (mfree b s) = hardware_concurrency s" "live_blocks (mfree b s) = remove1 b (live_blocks s)"
  "fresh_block (mfree b s) = fresh_block s" "state_ptr (mfree b s) = state_ptr s" "list_ptrs (mfree b s) = list_ptrs s"
  "next_chunk (mfree b s) = next_chunk s" "prev_chunk (mfree b s) = prev_chunk s"
  "approx_tail (mfree b s) = approx_tail s" "entry_count (mfree b s) = entry_count s" "entry (mfree b s) = entry s"
  "adding (mfree b s) = adding s" "taken (mfree b s) = taken s"
  by (simp_all add: mfree_def)

lemma private_not_taken: "registry_inv s own ch \<Longrightarrow> private_block (adding s a) = Some b \<Longrightarrow> a \<notin> taken s"
  using registry_invD(17) [of s own ch a] by auto

lemma inv_mfree:
  assumes inv: "registry_inv s own ch" and b: "private_block (adding s a) = Some b"
    and p: "private_block p = None" "own_entry p = None" "adding_ok s own p"
  shows "registry_inv (at a p (mfree b s)) (own(b := Nobody)) ch" (is "registry_inv ?s ?own ch")
proof -
  have ob: "own b = Private a" using registry_invD(5) [OF inv] b by simp
  have a: "a \<notin> taken s" by (rule private_not_taken [OF inv b])
  have nz: "a \<noteq> 0" using registry_invD(18) [OF inv] b by auto
  have priv: "c = b" if "own c = Private a" for c
    using registry_invD(5) [OF inv, of a c] that b by simp
  show ?thesis
  proof (rule registry_invI)
    show "blocks_ok ?s ?own"
    proof (rule blocks_okI)
      show "distinct (live_blocks ?s)" using registry_invD(1) [OF inv] by (simp add: distinct_remove1)
      show "c \<in> set (live_blocks ?s) \<longleftrightarrow> ?own c \<noteq> Nobody" for c
        using registry_invD(1,2) [OF inv] by (simp add: set_remove1_eq)
      show "?own c \<noteq> Nobody \<Longrightarrow> c < fresh_block ?s" for c
        using registry_invD(3) [OF inv, of c] by (simp split: if_splits)
      show "state_ptr ?s = Some c \<longleftrightarrow> ?own c = The_state" for c
        using registry_invD(4) [OF inv, of c] ob by auto
      show "private_block (adding ?s x) = Some c \<longleftrightarrow> ?own c = Private x" for x c
      proof (cases "x = a")
        case True
        then show ?thesis using priv [of c] p(1) by auto
      next
        case False
        then show ?thesis using registry_invD(5) [OF inv, of x c] ob by auto
      qed
    qed
    have keep: "?own c = In_list i \<longleftrightarrow> own c = In_list i" for c i using ob by simp
    show "lists_ok ?s ?own ch" using inv unfolding registry_inv_def lists_ok_def keep by simp
    have fr: "adding_ok ?s ?own q" if "adding_ok s own q" for q
      using that by (rule adding_ok_frame) (auto simp: ob)
    show "adding_ok ?s ?own (adding ?s x)" for x using p(3) registry_invD(13) [OF inv] by (simp add: fr)
    show "entries_ok ?s ?own"
    proof (rule entries_okI)
      show "own_entry (adding ?s x) = Some (c, e) \<Longrightarrow> entry ?s c e = x \<longleftrightarrow> x \<notin> taken ?s" for x c e
        using registry_invD(14) [OF inv, of x c e] p(2) by (simp split: if_splits)
      show "own_entry (adding ?s (entry ?s c e)) = Some (c, e)" if "?own c \<noteq> Nobody" "entry ?s c e \<noteq> 0" for c e
      proof -
        have c: "c \<noteq> b" "own c \<noteq> Nobody" using that(1) by (auto split: if_splits)
        have oe: "own_entry (adding s (entry s c e)) = Some (c, e)" using registry_invD(15) [OF inv c(2)] that(2) by simp
        have "entry s c e \<noteq> a"
        proof
          assume eq: "entry s c e = a"
          then show False using oe b registry_invD(13) [OF inv, of a] c(1) by (cases "adding s a") auto
        qed
        then show ?thesis using oe by simp
      qed
      show "fresh_block ?s \<le> c \<Longrightarrow> entry ?s c e = 0" for c e using registry_invD(16) [OF inv] by simp
      show "x \<in> taken ?s \<Longrightarrow> adding ?s x = Taken_out \<or> (\<exists>l b. adding ?s x = Linked l b) \<or> (\<exists>c e. adding ?s x = In_entry c e)" for x
        using registry_invD(17) [OF inv, of x] a by auto
      show "adding ?s 0 = To_start" using registry_invD(18) [OF inv] nz by simp
    qed
  qed
qed

text \<open>A block that a registration has allocated, with or without its entry in it.\<close>

lemma inv_malloc:
  assumes inv: "registry_inv s own ch" and a: "a \<noteq> 0" "a \<notin> taken s"
    and was: "private_block (adding s a) = None" "own_entry (adding s a) = None"
    and s': "live_blocks s' = fresh_block s # live_blocks s" "fresh_block s' = Suc (fresh_block s)"
      "state_ptr s' = state_ptr s" "list_ptrs s' = list_ptrs s" "adding s' = (adding s)(a := p)" "taken s' = taken s"
    and rest: "\<And>c. c \<noteq> fresh_block s \<Longrightarrow> next_chunk s' c = next_chunk s c \<and> prev_chunk s' c = prev_chunk s c \<and>
      approx_tail s' c = approx_tail s c \<and> entry_count s' c = entry_count s c \<and> entry s' c = entry s c"
    and p: "private_block p = Some (fresh_block s)" "adding_ok s' (own(fresh_block s := Private a)) p"
    and e: "own_entry p = None \<and> entry s' (fresh_block s) = entry s (fresh_block s) \<or>
      own_entry p = Some (fresh_block s, 0) \<and> entry s' (fresh_block s) = (\<lambda>_. 0)(0 := a)"
  shows "registry_inv s' (own(fresh_block s := Private a)) ch" (is "registry_inv _ ?own _")
proof (rule registry_invI)
  let ?f = "fresh_block s"
  note f = fresh_unowned [OF inv]
  show "blocks_ok s' ?own"
  proof (rule blocks_okI)
    show "distinct (live_blocks s')" using registry_invD(1,2) [OF inv] f s'(1) by simp
    show "c \<in> set (live_blocks s') \<longleftrightarrow> ?own c \<noteq> Nobody" for c using registry_invD(2) [OF inv, of c] s'(1) by simp
    show "?own c \<noteq> Nobody \<Longrightarrow> c < fresh_block s'" for c
      using registry_invD(3) [OF inv, of c] s'(2) by (simp add: less_Suc_eq split: if_splits)
    show "state_ptr s' = Some c \<longleftrightarrow> ?own c = The_state" for c using registry_invD(4) [OF inv, of c] s'(3) f by auto
    show "private_block (adding s' x) = Some c \<longleftrightarrow> ?own c = Private x" for x c
      using registry_invD(5) [OF inv, of x c] s'(5) p(1) was(1) f by auto
  qed
  have keep: "?own c = In_list i \<longleftrightarrow> own c = In_list i" for c i using f by simp
  have linked: "own c = In_list i \<Longrightarrow> c \<noteq> ?f" for c i using f by auto
  have nx: "path (next_chunk s') (list_ptrs s ! i) (ch i)" if "i < length (list_ptrs s)" for i
  proof -
    have "?f \<notin> set (ch i)" using registry_invD(6) [OF inv, of ?f i] f that by simp
    moreover have "next_chunk s' = (next_chunk s)(?f := next_chunk s' ?f)" using rest by auto
    ultimately show ?thesis using path_other registry_invD(7) [OF inv that] by metis
  qed
  show "lists_ok s' ?own ch"
  proof (rule lists_okI)
    show "?own (approx_tail s' l) = In_list i" if "i < length (list_ptrs s')" "list_ptrs s' ! i = Some l" for i l
      using registry_invD(9) [OF inv, of i l] linked [OF list_head [OF inv, of i l]] rest [of l] that s'(4) keep by simp
    show "?own b = In_list i \<Longrightarrow> prev_chunk s' b = Some q \<Longrightarrow> ?own q = In_list i" for b i q
      using registry_invD(12) [OF inv, of b i q] rest [of b] linked [of b i] by (simp only: keep) simp
    show "?own b = In_list i \<Longrightarrow> 0 < entry_count s' b" for b i
      using registry_invD(11) [OF inv, of b i] rest [of b] linked [of b i] by (simp only: keep) simp
    show "?own b = In_list i \<longleftrightarrow> i < length (list_ptrs s') \<and> b \<in> set (ch i)" for b i
      using registry_invD(6) [OF inv, of b i] keep s'(4) by simp
    show "i < length (list_ptrs s') \<Longrightarrow> path (next_chunk s') (list_ptrs s' ! i) (ch i)" for i
      using nx s'(4) by simp
    show "i < length (list_ptrs s') \<Longrightarrow> distinct (ch i)" for i
      using registry_invD(8) [OF inv] s'(4) by simp
    show "state_ptr s' = None \<Longrightarrow> list_ptrs s' = []" using registry_invD(10) [OF inv] s'(3,4) by simp
  qed
  have "adding_ok s' ?own (adding s x)" for x
  proof (rule adding_ok_frame [OF registry_invD(13) [OF inv]])
    fix b assume "private_block (adding s x) = Some b"
    then have "b \<noteq> ?f" using registry_invD(5) [OF inv, of x b] f by auto
    then show "next_chunk s' b = next_chunk s b \<and> prev_chunk s' b = prev_chunk s b \<and>
      approx_tail s' b = approx_tail s b \<and> entry_count s' b = entry_count s b" using rest by simp
  qed (use s' keep linked rest in auto)
  then show "adding_ok s' ?own (adding s' x)" for x using p(2) s'(5) by simp
  have own: "c \<noteq> ?f" if "own_entry (adding s x) = Some (c, k)" for x c k
  proof -
    have "own c \<noteq> Nobody"
      using that registry_invD(13) [OF inv, of x] registry_invD(5) [OF inv, of x c]
      by (cases "adding s x") (auto simp: same_list_def)
    then show ?thesis using f by auto
  qed
  show "entries_ok s' ?own"
  proof (rule entries_okI)
    show "entry s' c k = x \<longleftrightarrow> x \<notin> taken s'" if "own_entry (adding s' x) = Some (c, k)" for x c k
      using that registry_invD(14) [OF inv, of x c k] own [of x c k] rest [of c] e a s'(5,6) by (auto split: if_splits)
    show "own_entry (adding s' (entry s' c k)) = Some (c, k)" if "?own c \<noteq> Nobody" "entry s' c k \<noteq> 0" for c k
    proof (cases "c = ?f")
      case True
      then have "own_entry p = Some (?f, 0)" "entry s' ?f = (\<lambda>_. 0)(0 := a)"
        using e that(2) registry_invD(16) [OF inv, of ?f k] by auto
      moreover from this have "k = 0" using True that(2) by (cases "k = 0") simp_all
      ultimately show ?thesis using True s'(5) by simp
    next
      case False
      then have oe: "own_entry (adding s (entry s c k)) = Some (c, k)"
        using registry_invD(15) [OF inv, of c k] that rest [OF False] by simp
      then have "entry s c k \<noteq> a" using was(2) by auto
      then show ?thesis using oe rest [OF False] s'(5) by simp
    qed
    show "fresh_block s' \<le> c \<Longrightarrow> entry s' c k = 0" for c k
      using registry_invD(16) [OF inv, of c k] rest [of c] s'(2) by simp
    show "x \<in> taken s' \<Longrightarrow> adding s' x = Taken_out \<or> (\<exists>l b. adding s' x = Linked l b) \<or> (\<exists>c e. adding s' x = In_entry c e)" for x
      using registry_invD(17) [OF inv, of x] a s'(5,6) by auto
    show "adding s' 0 = To_start" using registry_invD(18) [OF inv] a(1) s'(5) by simp
  qed
qed

text \<open>A block that a registration links in.\<close>

lemma inv_install:
  assumes inv: "registry_inv s own ch" and b: "private_block (adding s a) = Some b"
    and p: "private_block p = None" "own_entry p = own_entry (adding s a)"
    and w: "w = The_state \<or> (\<exists>i. w = In_list i)" "w = The_state \<Longrightarrow> state_ptr s = None"
    and s': "live_blocks s' = live_blocks s" "fresh_block s' = fresh_block s" "entry s' = entry s" "taken s' = taken s"
      "adding s' = (adding s)(a := p)" "state_ptr s' = (if w = The_state then Some b else state_ptr s)"
    and lists: "lists_ok s' (own(b := w)) ch'"
    and adding: "\<And>q. adding_ok s own q \<Longrightarrow>
      (\<And>c. private_block q = Some c \<Longrightarrow> c \<noteq> b \<and> (\<exists>x. own c = Private x)) \<Longrightarrow> adding_ok s' (own(b := w)) q" "adding_ok s' (own(b := w)) p"
  shows "registry_inv s' (own(b := w)) ch'" (is "registry_inv _ ?own _")
proof (rule registry_invI)
  have ob: "own b = Private a" using registry_invD(5) [OF inv] b by simp
  have a: "a \<notin> taken s" by (rule private_not_taken [OF inv b])
  have nz: "a \<noteq> 0" using registry_invD(18) [OF inv] b by auto
  have priv: "c = b" if "own c = Private a" for c
    using registry_invD(5) [OF inv, of a c] that b by simp
  show "blocks_ok s' ?own"
  proof (rule blocks_okI)
    show "distinct (live_blocks s')" using registry_invD(1) [OF inv] s'(1) by simp
    show "c \<in> set (live_blocks s') \<longleftrightarrow> ?own c \<noteq> Nobody" for c
      using registry_invD(2) [OF inv, of c] ob w(1) s'(1) by auto
    show "?own c \<noteq> Nobody \<Longrightarrow> c < fresh_block s'" for c
      using registry_invD(3) [OF inv, of c] ob s'(2) by (cases "c = b") auto
    show "state_ptr s' = Some c \<longleftrightarrow> ?own c = The_state" for c
      using registry_invD(4) [OF inv, of c] ob w s'(6) by (cases "c = b") auto
    show "private_block (adding s' x) = Some c \<longleftrightarrow> ?own c = Private x" for x c
    proof (cases "x = a")
      case True
      then show ?thesis using priv [of c] p(1) w(1) s'(5) by auto
    next
      case False
      then show ?thesis using registry_invD(5) [OF inv, of x c] ob w(1) s'(5) by auto
    qed
  qed
  show "lists_ok s' ?own ch'" by (rule lists)
  show "adding_ok s' ?own (adding s' x)" for x
  proof (cases "x = a")
    case False
    then have "c \<noteq> b \<and> (\<exists>x. own c = Private x)" if "private_block (adding s x) = Some c" for c
      using registry_invD(5) [OF inv, of x c] that ob by auto
    then show ?thesis using False adding(1) [OF registry_invD(13) [OF inv, of x]] s'(5) by simp
  qed (use adding(2) s'(5) in simp)
  have oe: "own_entry (adding s' x) = own_entry (adding s x)" for x using p(2) s'(5) by simp
  show "entries_ok s' ?own"
  proof (rule entries_okI)
    show "own_entry (adding s' x) = Some (c, k) \<Longrightarrow> entry s' c k = x \<longleftrightarrow> x \<notin> taken s'" for x c k
      using registry_invD(14) [OF inv, of x c k] oe [of x] s'(3,4) by simp
    show "own_entry (adding s' (entry s' c k)) = Some (c, k)" if "?own c \<noteq> Nobody" "entry s' c k \<noteq> 0" for c k
    proof -
      have "own c \<noteq> Nobody" using that(1) ob by (cases "c = b") auto
      then show ?thesis using registry_invD(15) [OF inv, of c k] that(2) oe s'(3) by simp
    qed
    show "fresh_block s' \<le> c \<Longrightarrow> entry s' c k = 0" for c k using registry_invD(16) [OF inv, of c k] s'(2,3) by simp
    show "x \<in> taken s' \<Longrightarrow> adding s' x = Taken_out \<or> (\<exists>l b. adding s' x = Linked l b) \<or> (\<exists>c e. adding s' x = In_entry c e)" for x
      using registry_invD(17) [OF inv, of x] a s'(4,5) by auto
    show "adding s' 0 = To_start" using registry_invD(18) [OF inv] nz s'(5) by simp
  qed
qed

lemma inv_install_state:
  assumes inv: "registry_inv s own ch" and pc: "adding s a = New_state b"
  shows "\<exists>own ch. registry_inv (install_state a b s) own ch"
proof (cases "state_ptr s")
  case None
  have lists: "list_ptrs s = []" by (rule registry_invD(10) [OF inv None])
  have none: "own c \<noteq> In_list i" for c i using registry_invD(6) [OF inv, of c i] lists by simp
  let ?s = "install_state a b s" and ?own = "own(b := The_state)"
  have s: "list_ptrs ?s = replicate (length (m_lists (registration_state_allocate (hardware_concurrency s)))) None"
    "state_ptr ?s = Some b"
    using None by (simp_all add: install_state_def map_replicate_const)
  have "registry_inv ?s ?own (\<lambda>_. [])"
  proof (rule inv_install [OF inv])
    show "private_block (adding s a) = Some b" using pc by simp
    show "lists_ok ?s ?own (\<lambda>_. [])" using none s by (intro lists_okI) (auto split: if_splits)
    show "adding_ok ?s ?own q" if "adding_ok s own q"
      "\<And>c. private_block q = Some c \<Longrightarrow> c \<noteq> b \<and> (\<exists>x. own c = Private x)" for q
      using that(1) lists none s by (cases q) (auto simp: same_list_def)
    show "adding_ok ?s ?own To_list" using s by simp
  qed (use pc None in \<open>simp_all add: install_state_def\<close>)
  then show ?thesis by blast
next
  case (Some c)
  have "registry_inv (at a To_list (mfree b s)) (own(b := Nobody)) ch"
    by (rule inv_mfree [OF inv]) (use pc Some in simp_all)
  then show ?thesis using Some by (auto simp: install_state_def)
qed

lemma inv_install_list:
  assumes inv: "registry_inv s own ch" and pc: "adding s a = New_list i b"
  shows "\<exists>own ch. registry_inv (install_list a i b s) own ch"
proof (cases "list_ptrs s ! i")
  case None
  have new: "i < length (list_ptrs s)" "next_chunk s b = None" "prev_chunk s b = None" "approx_tail s b = b" "0 < entry_count s b"
    using registry_invD(13) [OF inv, of a] pc by simp_all
  have ob: "own b = Private a" using registry_invD(5) [OF inv, of a b] pc by simp
  let ?s = "install_list a i b s" and ?own = "own(b := In_list i)"
  have s: "list_ptrs ?s = (list_ptrs s)[i := Some b]" "next_chunk ?s = next_chunk s" "prev_chunk ?s = prev_chunk s"
    "approx_tail ?s = approx_tail s" "entry_count ?s = entry_count s" "state_ptr ?s = state_ptr s"
    using None by (simp_all add: install_list_def)
  have chi: "ch i = []" using registry_invD(7) [OF inv new(1)] None by simp
  then have none: "own c \<noteq> In_list i" for c using registry_invD(6) [OF inv, of c i] by simp
  have "registry_inv ?s ?own (ch(i := [b]))"
  proof (rule inv_install [OF inv])
    show "lists_ok ?s ?own (ch(i := [b]))"
    proof (rule lists_okI)
      show "?own c = In_list j \<longleftrightarrow> j < length (list_ptrs ?s) \<and> c \<in> set ((ch(i := [b])) j)" for c j
        using registry_invD(6) [OF inv, of c j] ob new(1) none [of c] s(1) by auto
      show "path (next_chunk ?s) (list_ptrs ?s ! j) ((ch(i := [b])) j)" if "j < length (list_ptrs ?s)" for j
        using registry_invD(7) [OF inv, of j] that new s(1,2) by (cases "j = i") simp_all
      show "distinct ((ch(i := [b])) j)" if "j < length (list_ptrs ?s)" for j
        using registry_invD(8) [OF inv, of j] that s(1) by simp
      show "?own (approx_tail ?s l) = In_list j" if "j < length (list_ptrs ?s)" "list_ptrs ?s ! j = Some l" for j l
        using registry_invD(9) [OF inv, of j l] that new s(1,4) ob by (cases "j = i") auto
      show "state_ptr ?s = None \<Longrightarrow> list_ptrs ?s = []" using registry_invD(10) [OF inv] s(1,6) by simp
      show "?own c = In_list j \<Longrightarrow> 0 < entry_count ?s c" for c j
        using registry_invD(11) [OF inv, of c j] new(5) s(5) by (cases "c = b") auto
      show "?own c = In_list j \<Longrightarrow> prev_chunk ?s c = Some q \<Longrightarrow> ?own q = In_list j" for c j q
        using registry_invD(12) [OF inv, of c j q] new(3) s(3) ob by (cases "c = b") auto
    qed
    show "adding_ok ?s ?own q" if "adding_ok s own q"
      "\<And>c. private_block q = Some c \<Longrightarrow> c \<noteq> b \<and> (\<exists>x. own c = Private x)" for q
      by (rule adding_ok_frame [OF that(1)]) (use s ob new(1) None in \<open>auto simp: nth_list_update\<close>)
    show "adding_ok ?s ?own (In_entry b 0)" using new(5) s(5) by simp
  qed (use pc None in \<open>simp_all add: install_list_def\<close>)
  then show ?thesis by blast
next
  case (Some l)
  have i: "i < length (list_ptrs s)" using registry_invD(13) [OF inv, of a] pc by simp
  have "registry_inv (at a (At_list l) (mfree b s)) (own(b := Nobody)) ch"
    by (rule inv_mfree [OF inv]) (use pc Some i list_head [OF inv i Some] in \<open>auto simp: same_list_def\<close>)
  then show ?thesis using Some by (auto simp: install_list_def)
qed

lemma inv_append_chunk:
  assumes inv: "registry_inv s own ch" and pc: "adding s a = New_chunk l last_chunk b"
  shows "\<exists>own ch. registry_inv (append_chunk a l last_chunk b s) own ch"
proof (cases "next_chunk s last_chunk")
  case None
  obtain i where i: "i < length (list_ptrs s)" "list_ptrs s ! i = Some l" "own last_chunk = In_list i"
    and new: "next_chunk s b = None" "prev_chunk s b = Some last_chunk" "0 < entry_count s b"
    using registry_invD(13) [OF inv, of a] pc by (auto simp: same_list_def)
  have ob: "own b = Private a" using registry_invD(5) [OF inv, of a b] pc by simp
  let ?s = "append_chunk a l last_chunk b s" and ?own = "own(b := In_list i)"
  have s: "list_ptrs ?s = list_ptrs s" "next_chunk ?s = (next_chunk s)(last_chunk := Some b)" "prev_chunk ?s = prev_chunk s"
    "approx_tail ?s = approx_tail s" "entry_count ?s = entry_count s" "state_ptr ?s = state_ptr s"
    using None by (simp_all add: append_chunk_def)
  have chi: "last_chunk \<in> set (ch i)" using registry_invD(6) [OF inv, of last_chunk i] i(3) by simp
  have notin: "b \<notin> set (ch j)" if "j < length (list_ptrs s)" for j
    using registry_invD(6) [OF inv, of b j] ob that by simp
  have "registry_inv ?s ?own (ch(i := ch i @ [b]))"
  proof (rule inv_install [OF inv])
    show "lists_ok ?s ?own (ch(i := ch i @ [b]))"
    proof (rule lists_okI)
      show "?own c = In_list j \<longleftrightarrow> j < length (list_ptrs ?s) \<and> c \<in> set ((ch(i := ch i @ [b])) j)" for c j
        using registry_invD(6) [OF inv, of c j] ob i(1) notin [of j] s(1) by (cases "j = i"; cases "c = b") simp_all
      show "path (next_chunk ?s) (list_ptrs ?s ! j) ((ch(i := ch i @ [b])) j)" if "j < length (list_ptrs ?s)" for j
      proof (cases "j = i")
        case True
        then show ?thesis
          using path_append [OF registry_invD(7) [OF inv i(1)] registry_invD(8) [OF inv i(1)] chi None new(1) notin [OF i(1)]] s(1,2)
          by simp
      next
        case False
        then have "last_chunk \<notin> set (ch j)"
          using registry_invD(6) [OF inv, of last_chunk j] i(3) that s(1) by simp
        then show ?thesis using registry_invD(7) [OF inv, of j] that False s(1,2) path_other by simp
      qed
      show "distinct ((ch(i := ch i @ [b])) j)" if "j < length (list_ptrs ?s)" for j
        using registry_invD(8) [OF inv, of j] that s(1) notin [OF i(1)] by (cases "j = i") simp_all
      show "?own (approx_tail ?s m) = In_list j" if "j < length (list_ptrs ?s)" "list_ptrs ?s ! j = Some m" for j m
        using registry_invD(9) [OF inv, of j m] that s(1,4) ob by auto
      show "state_ptr ?s = None \<Longrightarrow> list_ptrs ?s = []" using registry_invD(10) [OF inv] s(1,6) by simp
      show "?own c = In_list j \<Longrightarrow> 0 < entry_count ?s c" for c j
        using registry_invD(11) [OF inv, of c j] new(3) s(5) by (cases "c = b") auto
      show "?own c = In_list j \<Longrightarrow> prev_chunk ?s c = Some q \<Longrightarrow> ?own q = In_list j" for c j q
        using registry_invD(12) [OF inv, of c j q] new(2) i(3) s(3) ob by (cases "c = b") auto
    qed
    show "adding_ok ?s ?own q" if "adding_ok s own q"
      "\<And>c. private_block q = Some c \<Longrightarrow> c \<noteq> b \<and> (\<exists>x. own c = Private x)" for q
    proof (rule adding_ok_frame [OF that(1)])
      fix c assume "private_block q = Some c"
      then have "c \<noteq> last_chunk" using that(2) i(3) by fastforce
      then show "next_chunk ?s c = next_chunk s c \<and> prev_chunk ?s c = prev_chunk s c \<and>
        approx_tail ?s c = approx_tail s c \<and> entry_count ?s c = entry_count s c" using s by simp
    qed (use s ob in auto)
    show "adding_ok ?s ?own (Linked l b)" using i(1,2) s(1) by (auto simp: same_list_def)
  qed (use pc None in \<open>simp_all add: append_chunk_def\<close>)
  then show ?thesis by blast
next
  case (Some n)
  have "registry_inv (at a (At_list l) (mfree b s)) (own(b := Nobody)) ch"
    by (rule inv_mfree [OF inv])
      (use pc registry_invD(13) [OF inv, of a] list_head [OF inv] in \<open>auto simp: same_list_def\<close>)
  then show ?thesis using Some by (auto simp: append_chunk_def)
qed

section \<open>Claiming and giving up entries\<close>

text \<open>The entries and registrations move; the blocks stay.\<close>

lemma inv_entries:
  assumes inv: "registry_inv s own ch"
    and s': "live_blocks s' = live_blocks s" "fresh_block s' = fresh_block s" "state_ptr s' = state_ptr s"
      "list_ptrs s' = list_ptrs s" "next_chunk s' = next_chunk s" "prev_chunk s' = prev_chunk s"
      "approx_tail s' = approx_tail s" "entry_count s' = entry_count s"
    and pc: "\<And>x. private_block (adding s' x) = private_block (adding s x)" "\<And>x. adding_ok s own (adding s' x)"
    and e: "entries_ok s' own"
  shows "registry_inv s' own ch"
proof (rule registry_invI)
  show "blocks_ok s' own" using inv unfolding registry_inv_def blocks_ok_def s' pc(1) by blast
  show "lists_ok s' own ch" using inv unfolding registry_inv_def lists_ok_def s' by blast
  show "adding_ok s' own (adding s' x)" for x by (rule adding_ok_frame [OF pc(2)]) (simp_all add: s')
  show "entries_ok s' own" by (rule e)
qed

lemma owned_entry:
  assumes inv: "registry_inv s own ch" and "own_entry (adding s a) = Some (c, e)"
  shows "own c \<noteq> Nobody"
  using assms(2) registry_invD(13) [OF inv, of a] registry_invD(5) [OF inv, of a c]
  by (cases "adding s a") (auto simp: same_list_def)

lemma inv_claim_entry:
  assumes inv: "registry_inv s own ch" and pc: "adding s a = At_chunk l last_chunk c" and e: "e < entry_count s c"
  shows "registry_inv (claim_entry a c e s) own ch"
proof (cases "entry s c e = 0")
  case True
  let ?s = "claim_entry a c e s"
  have nz: "a \<noteq> 0" by (rule nonnull [OF inv]) (simp add: pc)
  obtain i where i: "own c = In_list i" using registry_invD(13) [OF inv, of a] pc by (auto simp: same_list_def)
  have s: "entry ?s x k = (if x = c \<and> k = e then a else entry s x k)" "adding ?s = (adding s)(a := In_entry c e)"
    "taken ?s = taken s" "fresh_block ?s = fresh_block s" for x k
    using True by (auto simp: claim_entry_def at_def)
  have a: "a \<notin> taken s" using registry_invD(17) [OF inv, of a] pc by auto
  have nowhere: "entry s x k \<noteq> a" if "own x \<noteq> Nobody" for x k
    using registry_invD(15) [OF inv that, of k] nz pc by auto
  show ?thesis
  proof (rule inv_entries [OF inv])
    show "private_block (adding ?s x) = private_block (adding s x)" for x using pc s(2) by simp
    show "adding_ok s own (adding ?s x)" for x using registry_invD(13) [OF inv, of x] i e s(2) by simp
    show "entries_ok ?s own"
    proof (rule entries_okI)
      show "entry ?s x k = y \<longleftrightarrow> y \<notin> taken ?s" if oe: "own_entry (adding ?s y) = Some (x, k)" for y x k
      proof (cases "y = a")
        case True
        then show ?thesis using oe s a by simp
      next
        case False
        have "y \<noteq> 0" using oe False registry_invD(18) [OF inv] s(2) by auto
        then show ?thesis using registry_invD(14) [OF inv, of y x k] oe False True s by auto
      qed
      show "own_entry (adding ?s (entry ?s x k)) = Some (x, k)" if "own x \<noteq> Nobody" "entry ?s x k \<noteq> 0" for x k
        using registry_invD(15) [OF inv that(1), of k] nowhere [OF that(1), of k] that(2) s by auto
      show "fresh_block ?s \<le> x \<Longrightarrow> entry ?s x k = 0" for x k
        using registry_invD(16) [OF inv, of x k] registry_invD(3) [OF inv, of c] i s by auto
      show "x \<in> taken ?s \<Longrightarrow> adding ?s x = Taken_out \<or> (\<exists>l b. adding ?s x = Linked l b) \<or> (\<exists>c e. adding ?s x = In_entry c e)" for x
        using registry_invD(17) [OF inv, of x] s by auto
      show "adding ?s 0 = To_start" using registry_invD(18) [OF inv] nz s(2) by simp
    qed
  qed (use True in \<open>simp_all add: claim_entry_def\<close>)
qed (simp add: claim_entry_def inv)

lemma inv_remove_entry:
  assumes inv: "registry_inv s own ch" and pc: "adding s a = In_entry c e"
  shows "registry_inv (remove_entry a c e s) own ch"
proof -
  let ?s = "remove_entry a c e s"
  have nz: "a \<noteq> 0" by (rule nonnull [OF inv]) (simp add: pc)
  have s: "entry ?s x k = (if x = c \<and> k = e \<and> entry s c e = a then 0 else entry s x k)"
    "adding ?s = (adding s)(a := Taken_out)" "taken ?s = taken s" "fresh_block ?s = fresh_block s" for x k
    by (auto simp: remove_entry_def at_def)
  show ?thesis
  proof (rule inv_entries [OF inv])
    show "private_block (adding ?s x) = private_block (adding s x)" for x using pc s(2) by simp
    show "adding_ok s own (adding ?s x)" for x using registry_invD(13) [OF inv, of x] s(2) by simp
    show "entries_ok ?s own"
    proof (rule entries_okI)
      show "entry ?s x k = y \<longleftrightarrow> y \<notin> taken ?s" if oe: "own_entry (adding ?s y) = Some (x, k)" for y x k
      proof -
        have "y \<noteq> a" "y \<noteq> 0" using oe registry_invD(18) [OF inv] s(2) by (auto split: if_splits)
        then show ?thesis using registry_invD(14) [OF inv, of y x k] oe s by auto
      qed
      show "own_entry (adding ?s (entry ?s x k)) = Some (x, k)" if "own x \<noteq> Nobody" "entry ?s x k \<noteq> 0" for x k
      proof -
        have en: "entry s x k \<noteq> 0" "entry ?s x k = entry s x k" using that(2) s(1) [of x k] by (auto split: if_splits)
        then have "entry s x k \<noteq> a"
          using registry_invD(15) [OF inv that(1), of k] pc that(2) s(1) [of x k] by auto
        then show ?thesis using registry_invD(15) [OF inv that(1), of k] en s(2) by simp
      qed
      show "fresh_block ?s \<le> x \<Longrightarrow> entry ?s x k = 0" for x k using registry_invD(16) [OF inv, of x k] s by simp
      show "x \<in> taken ?s \<Longrightarrow> adding ?s x = Taken_out \<or> (\<exists>l b. adding ?s x = Linked l b) \<or> (\<exists>c e. adding ?s x = In_entry c e)" for x
        using registry_invD(17) [OF inv, of x] s by auto
      show "adding ?s 0 = To_start" using registry_invD(18) [OF inv] nz s(2) by simp
    qed
  qed (simp_all add: remove_entry_def)
qed

lemma in_list_owner:
  assumes inv: "registry_inv s own ch" and "in_list s c"
  shows "\<exists>i. own c = In_list i"
proof -
  obtain l i where l: "i < length (list_ptrs s)" "list_ptrs s ! i = Some l"
    and path: "(\<lambda>x y. next_chunk s x = Some y)\<^sup>*\<^sup>* l c"
    using assms(2) unfolding in_list_def in_set_conv_nth by metis
  from path have "own c = In_list i"
  proof (induction rule: rtranclp_induct)
    case base
    show ?case by (rule list_head [OF inv l])
  next
    case (step y z)
    then show ?case
      using path_next [OF registry_invD(7) [OF inv l(1)], of y z] registry_invD(6) [OF inv, of y i] registry_invD(6) [OF inv, of z i] l(1)
      by simp
  qed
  then show ?thesis by blast
qed

lemma inv_take_entry:
  assumes inv: "registry_inv s own ch" and c: "in_list s c"
  shows "registry_inv (take_entry c e s) own ch"
proof (cases "entry s c e = 0")
  case False
  let ?s = "take_entry c e s" and ?a = "entry s c e"
  obtain i where i: "own c = In_list i" using in_list_owner [OF inv c] by blast
  have oe: "own_entry (adding s ?a) = Some (c, e)" using registry_invD(15) [OF inv _ False] i by simp
  have np: "private_block (adding s ?a) \<noteq> Some c" using registry_invD(5) [OF inv, of ?a c] i by simp
  then have at: "(\<exists>l b. adding s ?a = Linked l b) \<or> (\<exists>c e. adding s ?a = In_entry c e)"
    using oe by (cases "adding s ?a") auto
  have s: "entry ?s x k = (if x = c \<and> k = e then 0 else entry s x k)" "adding ?s = adding s"
    "taken ?s = insert ?a (taken s)" "fresh_block ?s = fresh_block s" for x k
    using False by (auto simp: take_entry_def)
  show ?thesis
  proof (rule inv_entries [OF inv])
    show "private_block (adding ?s x) = private_block (adding s x)" for x using s(2) by simp
    show "adding_ok s own (adding ?s x)" for x using registry_invD(13) [OF inv, of x] s(2) by simp
    show "entries_ok ?s own"
    proof (rule entries_okI)
      show "entry ?s x k = y \<longleftrightarrow> y \<notin> taken ?s" if y: "own_entry (adding ?s y) = Some (x, k)" for y x k
      proof -
        have nz: "y \<noteq> 0" using y registry_invD(18) [OF inv] s(2) by auto
        have iff: "entry s x k = y \<longleftrightarrow> y \<notin> taken s" using registry_invD(14) [OF inv, of y x k] y s(2) by simp
        show ?thesis
        proof (cases "y = ?a")
          case True
          then show ?thesis using y oe s nz by auto
        next
          case False
          then show ?thesis using iff s nz by auto
        qed
      qed
      show "own_entry (adding ?s (entry ?s x k)) = Some (x, k)" if "own x \<noteq> Nobody" "entry ?s x k \<noteq> 0" for x k
        using registry_invD(15) [OF inv that(1), of k] that(2) s by (auto split: if_splits)
      show "fresh_block ?s \<le> x \<Longrightarrow> entry ?s x k = 0" for x k using registry_invD(16) [OF inv, of x k] s by simp
      show "x \<in> taken ?s \<Longrightarrow> adding ?s x = Taken_out \<or> (\<exists>l b. adding ?s x = Linked l b) \<or> (\<exists>c e. adding ?s x = In_entry c e)" for x
        using registry_invD(17) [OF inv, of x] at s by auto
      show "adding ?s 0 = To_start" using registry_invD(18) [OF inv] s(2) by simp
    qed
  qed (use False in \<open>simp_all add: take_entry_def\<close>)
qed (simp add: take_entry_def inv)

section \<open>Every step\<close>

lemma inv_load_list:
  assumes inv: "registry_inv s own ch" and pc: "adding s a = To_list" and i: "i < length (list_ptrs s)"
  shows "\<exists>own ch. registry_inv (load_list a i s) own ch"
proof (cases "list_ptrs s ! i")
  case None
  have nz: "a \<noteq> 0" by (rule nonnull [OF inv]) (simp add: pc)
  have a: "a \<notin> taken s" using registry_invD(17) [OF inv, of a] pc by auto
  have "registry_inv (load_list a i s) (own(fresh_block s := Private a)) ch"
    by (rule inv_malloc [OF inv nz a, where p = "New_list i (fresh_block s)"])
      (use pc None i in \<open>simp_all add: load_list_def init_chunk_def malloc_def Let_def\<close>)
  then show ?thesis by blast
next
  case (Some l)
  have nz: "a \<noteq> 0" by (rule nonnull [OF inv]) (simp add: pc)
  have a: "a \<notin> taken s" using registry_invD(17) [OF inv, of a] pc by auto
  have "registry_inv (at a (At_list l) s) own ch"
    by (rule inv_at [OF inv nz]) (use pc a i Some list_head [OF inv i Some] in \<open>auto simp: same_list_def\<close>)
  then show ?thesis using Some by (auto simp: load_list_def)
qed

lemma inv_load_state:
  assumes inv: "registry_inv s own ch" and pc: "adding s a = To_start" and nz: "a \<noteq> 0"
  shows "\<exists>own ch. registry_inv (load_state a s) own ch"
proof -
  have a: "a \<notin> taken s" using registry_invD(17) [OF inv, of a] pc by auto
  show ?thesis
  proof (cases "state_ptr s")
    case None
    have "registry_inv (load_state a s) (own(fresh_block s := Private a)) ch"
      by (rule inv_malloc [OF inv nz a, where p = "New_state (fresh_block s)"])
        (use pc None in \<open>simp_all add: load_state_def malloc_def\<close>)
    then show ?thesis by blast
  next
    case (Some b)
    have "registry_inv (at a To_list s) own ch" by (rule inv_at [OF inv nz]) (use pc a Some in simp_all)
    then show ?thesis using Some by (auto simp: load_state_def)
  qed
qed

lemma inv_chunk_full:
  assumes inv: "registry_inv s own ch" and pc: "adding s a = At_chunk l last_chunk c"
  shows "\<exists>own ch. registry_inv (chunk_full a l last_chunk c s) own ch"
proof -
  have nz: "a \<noteq> 0" by (rule nonnull [OF inv]) (simp add: pc)
  have a: "a \<notin> taken s" using registry_invD(17) [OF inv, of a] pc by auto
  have same: "same_list s own l last_chunk" "same_list s own l c" using registry_invD(13) [OF inv, of a] pc by simp_all
  show ?thesis
  proof (cases "prev_chunk s c")
    case None
    have pos: "0 < entry_count s last_chunk" and last: "last_chunk \<noteq> fresh_block s"
      using same(1) registry_invD(11) [OF inv, of last_chunk] fresh_unowned [OF inv] by (auto simp: same_list_def)
    let ?s = "chunk_full a l last_chunk c s" and ?own = "own(fresh_block s := Private a)"
    have fields: "list_ptrs ?s = list_ptrs s" "next_chunk ?s (fresh_block s) = None"
      "prev_chunk ?s (fresh_block s) = Some last_chunk" "0 < entry_count ?s (fresh_block s)"
      using None pos by (simp_all add: chunk_full_def init_chunk_def malloc_def Let_def next_element_count_def max_element_count_def)
    have "registry_inv ?s ?own ch"
    proof (rule inv_malloc [OF inv nz a, where p = "New_chunk l last_chunk (fresh_block s)"])
      show "adding_ok ?s ?own (New_chunk l last_chunk (fresh_block s))"
        using same(1) last fields by (simp add: same_list_def)
    qed (use pc None in \<open>simp_all add: chunk_full_def init_chunk_def malloc_def Let_def\<close>)
    then show ?thesis by blast
  next
    case (Some q)
    have "registry_inv (at a (At_chunk l last_chunk q) s) own ch"
      by (rule inv_at [OF inv nz]) (use pc a same Some registry_invD(12) [OF inv, of c _ q] in \<open>auto simp: same_list_def\<close>)
    then show ?thesis using Some by (auto simp: chunk_full_def)
  qed
qed

lemma inv_walk:
  assumes inv: "registry_inv s own ch" and pc: "adding s a = To_last l orig c"
  shows "registry_inv (walk_next a l orig c s) own ch"
proof -
  have nz: "a \<noteq> 0" by (rule nonnull [OF inv]) (simp add: pc)
  have a: "a \<notin> taken s" using registry_invD(17) [OF inv, of a] pc by auto
  have same: "same_list s own l orig" "same_list s own l c" using registry_invD(13) [OF inv, of a] pc by simp_all
  have step: "same_list s own l n" if n: "next_chunk s c = Some n" for n
  proof -
    obtain i where i: "i < length (list_ptrs s)" "list_ptrs s ! i = Some l" "own c = In_list i"
      using same(2) by (auto simp: same_list_def)
    then have "own n = In_list i"
      using path_next [OF registry_invD(7) [OF inv i(1)], of c n] registry_invD(6) [OF inv, of c i] registry_invD(6) [OF inv, of n i] n
      by simp
    then show ?thesis using i by (auto simp: same_list_def)
  qed
  show ?thesis unfolding walk_next_def
    by (rule inv_at [OF inv nz]) (use pc a same step in \<open>auto split: option.splits\<close>)
qed

lemma inv_moves:
  assumes inv: "registry_inv s own ch"
  shows "adding s a = At_list l \<Longrightarrow> registry_inv (load_tail a l s) own ch"
    and "adding s a = To_tail l c \<Longrightarrow> registry_inv (store_tail a l c (At_chunk l c c) s) own ch"
    and "adding s a = Linked l b \<Longrightarrow> registry_inv (store_tail a l b (In_entry b 0) s) own ch"
proof -
  note ok = registry_invD(13) [OF inv, of a]
  have nz: "adding s a \<noteq> To_start \<Longrightarrow> a \<noteq> 0" by (rule nonnull [OF inv])
  show "registry_inv (load_tail a l s) own ch" if pc: "adding s a = At_list l"
  proof -
    have "same_list s own l (approx_tail s l)" using ok pc registry_invD(9) [OF inv, of _ l] by (auto simp: same_list_def)
    then show ?thesis unfolding load_tail_def
      by (intro inv_at [OF inv]) (use pc nz registry_invD(17) [OF inv, of a] in auto)
  qed
  show "registry_inv (store_tail a l c (At_chunk l c c) s) own ch" if pc: "adding s a = To_tail l c"
  proof -
    have same: "same_list s own l c" using ok pc by simp
    show ?thesis unfolding store_tail_def
      by (rule inv_at [OF inv_tail [OF inv same]])
        (use pc nz same registry_invD(17) [OF inv, of a] in \<open>auto simp: same_list_def\<close>)
  qed
  show "registry_inv (store_tail a l b (In_entry b 0) s) own ch" if pc: "adding s a = Linked l b"
  proof -
    have same: "same_list s own l b" using ok pc by simp
    then show ?thesis unfolding store_tail_def
      by (intro inv_at [OF inv_tail [OF inv same]])
        (use pc nz registry_invD(11) [OF inv, of b] in \<open>auto simp: same_list_def\<close>)
  qed
qed

lemma inv_no_memory:
  assumes inv: "registry_inv s own ch" and "a \<noteq> 0" "private_block (adding s a) = None" "own_entry (adding s a) = None"
    "adding s a \<noteq> Taken_out"
  shows "registry_inv (at a No_memory s) own ch"
  by (rule inv_at [OF inv]) (use assms registry_invD(17) [OF inv, of a] in auto)

lemma registry_inv_step:
  assumes "registry_inv s own ch" "registry_step s t"
  shows "\<exists>own ch. registry_inv t own ch"
  using assms(2)
proof cases
  case (rs_load_state a)
  then show ?thesis using inv_load_state [OF assms(1)] by blast
next
  case (rs_install_state a b)
  then show ?thesis using inv_install_state [OF assms(1)] by blast
next
  case (rs_load_list a i)
  then show ?thesis using inv_load_list [OF assms(1)] by blast
next
  case (rs_install_list a i b)
  then show ?thesis using inv_install_list [OF assms(1)] by blast
next
  case (rs_load_tail a l)
  then show ?thesis using inv_moves(1) [OF assms(1)] by blast
next
  case (rs_walk_next a l orig c)
  then show ?thesis using inv_walk [OF assms(1)] by blast
next
  case (rs_store_tail a l c)
  then show ?thesis using inv_moves(2) [OF assms(1)] by blast
next
  case (rs_claim_entry a l last_chunk c e)
  then show ?thesis using inv_claim_entry [OF assms(1)] by blast
next
  case (rs_chunk_full a l last_chunk c)
  then show ?thesis using inv_chunk_full [OF assms(1)] by blast
next
  case (rs_append_chunk a l last_chunk b)
  then show ?thesis using inv_append_chunk [OF assms(1)] by blast
next
  case (rs_linked a l b)
  then show ?thesis using inv_moves(3) [OF assms(1)] by blast
next
  case (rs_remove_entry a c e)
  then show ?thesis using inv_remove_entry [OF assms(1)] by blast
next
  case (rs_take_entry c e)
  then show ?thesis using inv_take_entry [OF assms(1)] by blast
next
  case (rs_no_state a)
  then have "registry_inv t own ch" using inv_no_memory [OF assms(1), of a] by simp
  then show ?thesis by blast
next
  case (rs_no_list a i)
  then have "registry_inv t own ch" using inv_no_memory [OF assms(1), of a] nonnull [OF assms(1), of a] by simp
  then show ?thesis by blast
next
  case (rs_no_chunk a l last_chunk c)
  then have "registry_inv t own ch" using inv_no_memory [OF assms(1), of a] nonnull [OF assms(1), of a] by simp
  then show ?thesis by blast
qed

interpretation registry: invariant_system registry_memory_init registry_step "\<lambda>s. \<exists>own ch. registry_inv s own ch"
  by unfold_locales (use registry_inv_init registry_inv_step in blast)+

section \<open>The destructor and the scan on good chains\<close>

lemma free_block_ok:
  "distinct (live_blocks s) \<Longrightarrow> b \<in> set (live_blocks s) \<Longrightarrow>
   free_block b s = Inr (s\<lparr>live_blocks := filter (\<lambda>x. x \<noteq> b) (live_blocks s)\<rparr>)"
  by (simp add: free_block_def mfree_def distinct_remove1_removeAll removeAll_filter_not_eq) (simp add: eq_commute)

lemma free_chain_ok:
  "path (next_chunk s) p cs \<Longrightarrow> distinct cs \<Longrightarrow> set cs \<subseteq> set (live_blocks s) \<Longrightarrow> distinct (live_blocks s) \<Longrightarrow>
   free_chain p s = Inr (s\<lparr>live_blocks := filter (\<lambda>x. x \<notin> set cs) (live_blocks s)\<rparr>)"
proof (induction cs arbitrary: p s)
  case (Cons c cs)
  let ?s = "s\<lparr>live_blocks := filter (\<lambda>x. x \<noteq> c) (live_blocks s)\<rparr>"
  have "free_chain (next_chunk s c) ?s = Inr (?s\<lparr>live_blocks := filter (\<lambda>x. x \<notin> set cs) (live_blocks ?s)\<rparr>)"
    by (rule Cons.IH) (use Cons.prems in auto)
  then show ?case
    using Cons.prems free_block_ok [of s c] by (simp add: load_next_def conj_commute)
qed simp

lemma free_list_ok:
  assumes "path (next_chunk s) (Some l) cs" "distinct cs" "set cs \<subseteq> set (live_blocks s)" "distinct (live_blocks s)"
  shows "free_list l s = Inr (s\<lparr>live_blocks := filter (\<lambda>x. x \<notin> set cs) (live_blocks s)\<rparr>)"
  using free_chain_ok [OF assms] by (simp add: free_list_def)

lemma free_lists_ok:
  "list_all2 (path (next_chunk s)) ls css \<Longrightarrow> distinct (concat css) \<Longrightarrow> set (concat css) \<subseteq> set (live_blocks s) \<Longrightarrow>
   distinct (live_blocks s) \<Longrightarrow>
   free_lists ls s = Inr (s\<lparr>live_blocks := filter (\<lambda>x. x \<notin> set (concat css)) (live_blocks s)\<rparr>)"
proof (induction ls arbitrary: css s)
  case (Cons p ls)
  obtain cs css' where css: "css = cs # css'" "path (next_chunk s) p cs" "list_all2 (path (next_chunk s)) ls css'"
    using Cons.prems(1) by (auto simp: list_all2_Cons1)
  show ?case
  proof (cases p)
    case None
    then show ?thesis using Cons css by simp
  next
    case (Some l)
    let ?s = "s\<lparr>live_blocks := filter (\<lambda>x. x \<notin> set cs) (live_blocks s)\<rparr>"
    have "free_list l s = Inr ?s" using css Cons.prems Some by (intro free_list_ok) auto
    moreover have "free_lists ls ?s = Inr (?s\<lparr>live_blocks := filter (\<lambda>x. x \<notin> set (concat css')) (live_blocks ?s)\<rparr>)"
      using Cons.prems css by (intro Cons.IH) auto
    ultimately show ?thesis using Some css(1) by (simp add: conj_commute)
  qed
qed simp

text \<open>The scan goes through each chain once.\<close>

definition chunk_entries :: "registry_memory \<Rightarrow> nat \<Rightarrow> (nat \<times> nat) list" where
  "chunk_entries s c = map (Pair c) [0..<entry_count s c]"

lemma scan_chain_ok:
  "path (next_chunk s) p cs \<Longrightarrow> set cs \<subseteq> set (live_blocks s) \<Longrightarrow> length cs < n \<Longrightarrow>
   scan_chain n p s = Some (concat (map (chunk_entries s) cs))"
proof (induction cs arbitrary: p n)
  case Nil
  then show ?case by (cases n) simp_all
next
  case (Cons c cs)
  then show ?case by (cases n) (simp_all add: chunk_entries_def)
qed

lemma scan_lists_ok:
  "list_all2 (path (next_chunk s)) ls css \<Longrightarrow> set (concat css) \<subseteq> set (live_blocks s) \<Longrightarrow> \<forall>cs\<in>set css. length cs < n \<Longrightarrow>
   scan_lists n ls s = Some (concat (map (chunk_entries s) (concat css)))"
proof (induction ls arbitrary: css)
  case (Cons p ls)
  obtain cs css' where css: "css = cs # css'" "path (next_chunk s) p cs" "list_all2 (path (next_chunk s)) ls css'"
    using Cons.prems(1) by (auto simp: list_all2_Cons1)
  show ?case
  proof (cases p)
    case None
    then show ?thesis using Cons css by simp
  next
    case (Some l)
    have "scan_chain n (Some l) s = Some (concat (map (chunk_entries s) cs))"
      using css Cons.prems Some by (intro scan_chain_ok) auto
    moreover have "scan_lists n ls s = Some (concat (map (chunk_entries s) (concat css')))"
      using Cons.prems css by (intro Cons.IH) auto
    ultimately show ?thesis using Some css(1) by simp
  qed
qed simp

lemma distinct_chunk_entries: "distinct cs \<Longrightarrow> distinct (concat (map (chunk_entries s) cs))"
  by (induction cs) (auto simp: chunk_entries_def distinct_map inj_on_def)

section \<open>The chains of a reachable state\<close>

lemma registry_chains:
  assumes inv: "registry_inv s own ch"
  defines "css \<equiv> map ch [0..<length (list_ptrs s)]"
  shows "list_all2 (path (next_chunk s)) (list_ptrs s) css" "distinct (concat css)"
    "set (concat css) = {b. \<exists>i. own b = In_list i}" "set (concat css) \<subseteq> set (live_blocks s)"
    "\<forall>cs\<in>set css. length cs < Suc (fresh_block s)"
proof -
  have own: "own b = In_list i \<longleftrightarrow> i < length (list_ptrs s) \<and> b \<in> set (ch i)" for b i by (rule registry_invD(6) [OF inv])
  show "list_all2 (path (next_chunk s)) (list_ptrs s) css"
    using registry_invD(7) [OF inv] by (simp add: css_def list_all2_conv_all_nth)
  show members: "set (concat css) = {b. \<exists>i. own b = In_list i}" using own by (auto simp: css_def)
  then show live: "set (concat css) \<subseteq> set (live_blocks s)" using registry_invD(2) [OF inv] by auto
  have disj: "set (ch i) \<inter> set (ch j) = {}" if ij: "i < length (list_ptrs s)" "j < length (list_ptrs s)" "i \<noteq> j" for i j
  proof -
    have "False" if b: "b \<in> set (ch i)" "b \<in> set (ch j)" for b
      using own [of b i] own [of b j] b ij by simp
    then show ?thesis by blast
  qed
  have part: "distinct (concat (map ch [0..<n]))" if "n \<le> length (list_ptrs s)" for n
    using that
  proof (induction n)
    case (Suc n)
    then have "set (ch i) \<inter> set (ch n) = {}" if "i < n" for i using disj [of i n] that by simp
    then show ?case using Suc registry_invD(8) [OF inv, of n] by fastforce
  qed simp
  then show "distinct (concat css)" by (simp add: css_def)
  show "\<forall>cs\<in>set css. length cs < Suc (fresh_block s)"
  proof
    fix cs assume "cs \<in> set css"
    then obtain i where i: "i < length (list_ptrs s)" "cs = ch i" by (auto simp: css_def)
    have "set cs \<subseteq> {..<fresh_block s}"
    proof
      fix b assume "b \<in> set cs"
      then have "own b = In_list i" using own [of b i] i by simp
      then show "b \<in> {..<fresh_block s}" using registry_invD(3) [OF inv, of b] by simp
    qed
    then have "card (set cs) \<le> fresh_block s" using card_mono [of "{..<fresh_block s}" "set cs"] by simp
    then show "length cs < Suc (fresh_block s)"
      using distinct_card [of cs] registry_invD(8) [OF inv i(1)] i(2) by simp
  qed
qed

section \<open>Properties\<close>

text \<open>The blocks that the next step of a registration reads, writes or frees.\<close>

fun touches :: "registry_memory \<Rightarrow> adding \<Rightarrow> nat set" where
  "touches s To_start = set_option (state_ptr s)"
| "touches s (New_state b) = {b}"
| "touches s To_list = set_option (state_ptr s)"
| "touches s (New_list i b) = {b} \<union> set_option (state_ptr s) \<union> set_option (list_ptrs s ! i)"
| "touches s (At_list l) = {l}"
| "touches s (To_last l orig c) = {c}"
| "touches s (To_tail l c) = {l}"
| "touches s (At_chunk l last_chunk c) = {c, last_chunk}"
| "touches s (New_chunk l last_chunk b) = {last_chunk, b}"
| "touches s (Linked l b) = {l, b}"
| "touches s (In_entry c e) = {c}"
| "touches s _ = {}"

lemma touches_live:
  assumes inv: "registry_inv s own ch"
  shows "touches s (adding s a) \<subseteq> set (live_blocks s)"
proof -
  have live: "b \<in> set (live_blocks s)" if "own b \<noteq> Nobody" for b using registry_invD(2) [OF inv] that by simp
  have priv: "b \<in> set (live_blocks s)" if "private_block (adding s a) = Some b" for b
    using registry_invD(5) [OF inv, of a b] that live [of b] by simp
  have st: "set_option (state_ptr s) \<subseteq> set (live_blocks s)"
  proof
    fix b assume "b \<in> set_option (state_ptr s)"
    then show "b \<in> set (live_blocks s)" using registry_invD(4) [OF inv, of b] live [of b] by simp
  qed
  have head: "l \<in> set (live_blocks s)" if "i < length (list_ptrs s)" "list_ptrs s ! i = Some l" for i l
    using list_head [OF inv that] live [of l] by simp
  have same: "l \<in> set (live_blocks s) \<and> c \<in> set (live_blocks s)" if "same_list s own l c" for l c
    using that head live [of c] by (auto simp: same_list_def)
  show ?thesis
    using registry_invD(13) [OF inv, of a] priv st same head live
    by (cases "adding s a") (auto dest: same)
qed

text \<open>No call of \<open>try_register_callback\<close> is under way.\<close>

fun call_over :: "adding \<Rightarrow> bool" where
  "call_over To_start = True"
| "call_over (In_entry c e) = True"
| "call_over Taken_out = True"
| "call_over No_memory = True"
| "call_over _ = False"

lemma call_over_private: "call_over p \<Longrightarrow> private_block p = None"
  by (cases p) auto

lemma destroy_frees:
  assumes inv: "registry_inv s own ch" and over: "\<And>a. call_over (adding s a)"
  shows "\<exists>t. registry_destroy s = Inr t \<and> live_blocks t = []"
proof -
  let ?css = "map ch [0..<length (list_ptrs s)]"
  note chains = registry_chains [OF inv]
  have "own b \<noteq> Private a" for a b
    using registry_invD(5) [OF inv, of a b] call_over_private [OF over [of a]] by simp
  then have live: "own b = The_state \<or> (\<exists>i. own b = In_list i)" if "b \<in> set (live_blocks s)" for b
    using registry_invD(2) [OF inv, of b] that by (cases "own b") auto
  have dist: "distinct (live_blocks s)" by (rule registry_invD(1) [OF inv])
  let ?s = "s\<lparr>live_blocks := filter (\<lambda>x. x \<notin> set (concat ?css)) (live_blocks s)\<rparr>"
  show ?thesis
  proof (cases "state_ptr s")
    case None
    then have "own b \<noteq> The_state" "own b \<noteq> In_list i" for b i
      using registry_invD(4) [OF inv, of b] registry_invD(6) [OF inv, of b i] registry_invD(10) [OF inv None] by simp_all
    then have "live_blocks s = []" using live by (metis list.set_intros(1) neq_Nil_conv)
    then show ?thesis using None by (simp add: registry_destroy_def)
  next
    case (Some b)
    have ob: "own b = The_state" using registry_invD(4) [OF inv, of b] Some by simp
    have lists: "free_lists (list_ptrs s) s = Inr ?s" by (rule free_lists_ok [OF chains(1,2,4) dist])
    have "b \<in> set (live_blocks ?s)"
      using registry_invD(2) [OF inv, of b] ob chains(3) by simp
    then have fb: "free_block b ?s = Inr (?s\<lparr>live_blocks := filter (\<lambda>x. x \<noteq> b) (live_blocks ?s)\<rparr>)"
      using dist by (intro free_block_ok) simp_all
    have "filter (\<lambda>x. x \<noteq> b) (live_blocks ?s) = []"
    proof -
      have "x = b" if "x \<in> set (live_blocks ?s)" for x
        using that live [of x] chains(3) registry_invD(4) [OF inv, of x] Some by auto
      then show ?thesis unfolding filter_empty_conv by blast
    qed
    then show ?thesis using Some lists fb by (simp add: registry_destroy_def)
  qed
qed

text \<open>
  C20. Whatever threads register, deregister and cancel at the same time, with or without memory: the
  next step of every registration touches blocks that are live, and once no call is under way the
  destructor frees every block exactly once and leaves none.
\<close>
theorem registration_memory_safe:
  assumes "registry_reachable s"
  shows "(\<forall>a. touches s (adding s a) \<subseteq> set (live_blocks s)) \<and>
    ((\<forall>a. call_over (adding s a)) \<longrightarrow> (\<exists>t. registry_destroy s = Inr t \<and> live_blocks t = []))"
proof -
  obtain own ch where inv: "registry_inv s own ch" using registry.reachable_inv [OF assms] by blast
  show ?thesis using touches_live [OF inv] destroy_frees [OF inv] by blast
qed

text \<open>
  C21. A registration that is in an entry and that \<open>request_cancellation\<close> has not taken holds that entry,
  and the loops of \<open>request_cancellation\<close> come to the entry, once: no registration sits in a list or
  chunk that lost the race to be linked in.
\<close>
theorem registered_entry_is_scanned:
  assumes "registry_reachable s" "adding s a = In_entry c e" "a \<notin> taken s"
  shows "\<exists>es. scan_lists (Suc (fresh_block s)) (list_ptrs s) s = Some es \<and> distinct es \<and> (c, e) \<in> set es \<and> entry s c e = a"
proof -
  obtain own ch where inv: "registry_inv s own ch" using registry.reachable_inv [OF assms(1)] by blast
  note chains = registry_chains [OF inv]
  let ?css = "map ch [0..<length (list_ptrs s)]"
  have "entry s c e = a" using registry_invD(14) [OF inv, of a c e] assms(2,3) by simp
  moreover have "c \<in> set (concat ?css)" "e < entry_count s c"
    using registry_invD(13) [OF inv, of a] assms(2) chains(3) by auto
  then have "\<exists>d\<in>set (concat ?css). (c, e) \<in> set (chunk_entries s d)"
    by (intro bexI [of _ c]) (simp_all add: chunk_entries_def)
  then have "(c, e) \<in> set (concat (map (chunk_entries s) (concat ?css)))"
    unfolding set_concat set_map by blast
  ultimately show ?thesis
    using scan_lists_ok [OF chains(1,4,5)] distinct_chunk_entries [OF chains(2)] by blast
qed

section \<open>A race\<close>

text \<open>Two registrations that both find no registration state and no list; the second is first.\<close>

definition race_start :: registry_memory where
  "race_start = \<lparr>hardware_concurrency = 1, live_blocks = [], fresh_block = 0, state_ptr = None, list_ptrs = [],
     next_chunk = (\<lambda>_. None), prev_chunk = (\<lambda>_. None), approx_tail = (\<lambda>_. 0), entry_count = (\<lambda>_. 0),
     entry = (\<lambda>_ _. 0), adding = (\<lambda>_. To_start), taken = {}\<rparr>"

definition race_states :: registry_memory where
  "race_states = install_state 5 0 (install_state 6 1 (load_state 6 (load_state 5 race_start)))"

definition race_lists :: registry_memory where
  "race_lists = install_list 5 0 2 (install_list 6 0 3 (load_list 6 0 (load_list 5 0 race_states)))"

definition race_end :: registry_memory where
  "race_end = claim_entry 5 3 1 (walk_next 5 3 3 3 (load_tail 5 3 race_lists))"

lemmas race_defs = race_start_def race_states_def race_lists_def race_end_def load_state_def install_state_def
  load_list_def install_list_def load_tail_def walk_next_def claim_entry_def at_def malloc_def mfree_def init_chunk_def
  registration_state_allocate_def

lemma race_start_init: "registry_memory_init race_start"
  by (simp add: registry_memory_init_def race_start_def)

lemma race_states_reachable: "registry_reachable race_states"
proof -
  have 0: "registry_reachable race_start" using race_start_init by (rule reachable_init)
  have 1: "registry_reachable (load_state 5 race_start)"
    by (rule reachable_step [OF 0], rule rs_load_state) (simp_all add: race_defs)
  have 2: "registry_reachable (load_state 6 (load_state 5 race_start))"
    by (rule reachable_step [OF 1], rule rs_load_state) (simp_all add: race_defs)
  have 3: "registry_reachable (install_state 6 1 (load_state 6 (load_state 5 race_start)))"
    by (rule reachable_step [OF 2], rule rs_install_state) (simp_all add: race_defs)
  show ?thesis unfolding race_states_def
    by (rule reachable_step [OF 3], rule rs_install_state) (simp_all add: race_defs)
qed

lemma race_states_simps:
  "adding race_states = (\<lambda>_. To_start)(5 := To_list, 6 := To_list)" "list_ptrs race_states = [None]"
  "fresh_block race_states = 2" "live_blocks race_states = [1]" "taken race_states = {}" "state_ptr race_states = Some 1"
  by (auto simp: race_defs fun_eq_iff)

lemma race_lists_reachable: "registry_reachable race_lists"
proof -
  have 1: "registry_reachable (load_list 5 0 race_states)"
    by (rule reachable_step [OF race_states_reachable], rule rs_load_list) (simp_all add: race_states_simps)
  have 2: "registry_reachable (load_list 6 0 (load_list 5 0 race_states))"
    by (rule reachable_step [OF 1], rule rs_load_list)
      (simp_all add: race_states_simps load_list_def init_chunk_def malloc_def Let_def)
  have 3: "registry_reachable (install_list 6 0 3 (load_list 6 0 (load_list 5 0 race_states)))"
    by (rule reachable_step [OF 2], rule rs_install_list)
      (simp add: race_states_simps load_list_def init_chunk_def malloc_def Let_def)
  show ?thesis unfolding race_lists_def
    by (rule reachable_step [OF 3], rule rs_install_list)
      (simp add: race_states_simps load_list_def init_chunk_def malloc_def install_list_def Let_def)
qed

lemma race_lists_simps:
  "adding race_lists = (\<lambda>_. To_start)(5 := At_list 3, 6 := In_entry 3 0)" "list_ptrs race_lists = [Some 3]"
  "fresh_block race_lists = 4" "live_blocks race_lists = [3, 1]" "taken race_lists = {}" "state_ptr race_lists = Some 1"
  "next_chunk race_lists 3 = None" "approx_tail race_lists 3 = 3" "entry_count race_lists 3 = 16"
  "entry race_lists 3 = (\<lambda>_. 0)(0 := 6)"
  unfolding race_lists_def
  by (auto simp: race_states_simps load_list_def init_chunk_def malloc_def mfree_def install_list_def Let_def fun_eq_iff)

lemma race_end_reachable: "registry_reachable race_end"
proof -
  have 1: "registry_reachable (load_tail 5 3 race_lists)"
    by (rule reachable_step [OF race_lists_reachable], rule rs_load_tail) (simp add: race_lists_simps)
  have 2: "registry_reachable (walk_next 5 3 3 3 (load_tail 5 3 race_lists))"
    by (rule reachable_step [OF 1], rule rs_walk_next) (simp add: race_lists_simps load_tail_def)
  show ?thesis unfolding race_end_def
    by (rule reachable_step [OF 2], rule rs_claim_entry)
      (simp_all add: race_lists_simps load_tail_def walk_next_def)
qed

lemma race_end_simps:
  "adding race_end = (\<lambda>_. To_start)(5 := In_entry 3 1, 6 := In_entry 3 0)" "list_ptrs race_end = [Some 3]"
  "fresh_block race_end = 4" "live_blocks race_end = [3, 1]" "taken race_end = {}" "state_ptr race_end = Some 1"
  "entry race_end 3 1 = 5" "entry race_end 3 0 = 6"
  unfolding race_end_def
  by (auto simp: race_lists_simps load_tail_def walk_next_def claim_entry_def fun_eq_iff)

lemma race_end_over: "call_over (adding race_end a)"
  by (simp add: race_end_simps)

theorem registration_memory_safe_witness: "\<exists>t. registry_destroy race_end = Inr t \<and> live_blocks t = []"
  using registration_memory_safe [OF race_end_reachable] race_end_over by blast

theorem registered_entry_is_scanned_witness:
  "\<exists>es. scan_lists 5 [Some 3] race_end = Some es \<and> (3, 1) \<in> set es \<and> entry race_end 3 1 = 5"
  using registered_entry_is_scanned [OF race_end_reachable, of 5 3 1] by (auto simp: race_end_simps)

end
