(* ===== verification/Cancellation_Protocol.thy ===== *)
theory Cancellation_Protocol
  imports Cancellation_Registry
begin

text \<open>
  How registering, deregistering and requesting cancellation interleave
  (src/coro/cancellation_state.cpp, src/coro/cancellation_registration.cpp), on one shared
  state. An entry of a registration list is a slot; which free slot a registration gets, and
  that it changes no other, is the subject of Cancellation_Registry, so here any free slot may
  be claimed and new slots may appear. Registrations are addresses that are not used twice.
  The model keeps the two flag bits of \<open>m_state\<close>; the reference counts are in
  Cancellation_Handles.
\<close>

section \<open>State\<close>

text \<open>
  A registration: not started; past the first check of \<open>try_register_callback\<close>; in a slot and
  before the second check; before the exchange that takes itself out again; registered; run by
  the registering thread because cancellation came first; in \<open>deregister_callback\<close> waiting for
  the notification to complete; gone; gone while the notifying thread was inside a callback.
\<close>

datatype reg_pc =
    Unregistered
  | Adding
  | Claimed nat
  | Withdrawing nat
  | Registered nat
  | Rejected
  | Waiting nat
  | Deregistered
  | Deregistered_in_callback

text \<open>
  The first caller of \<open>request_cancellation\<close>: the slots that existed when it set the flag and
  the slots it has been through; while it runs a callback, also the registration.
\<close>

datatype request_pc =
    Not_requested
  | Scanning "nat set" "nat set"
  | Calling "nat set" "nat set" u64
  | Finished

record cancellation =
  requested_flag :: bool
  notification_complete_flag :: bool
  slot :: "nat \<Rightarrow> u64"
  exists_slot :: "nat \<Rightarrow> bool"
  reg_pc :: "u64 \<Rightarrow> reg_pc"
  request_pc :: request_pc
  calls :: "u64 \<Rightarrow> nat"

definition cancellation_init :: "cancellation \<Rightarrow> bool" where
  "cancellation_init s \<longleftrightarrow> \<not> requested_flag s \<and> \<not> notification_complete_flag s \<and>
     (\<forall>k. slot s k = 0 \<and> \<not> exists_slot s k) \<and> (\<forall>a. reg_pc s a = Unregistered \<and> calls s a = 0) \<and>
     request_pc s = Not_requested"

section \<open>Registering\<close>

definition set_pc :: "cancellation \<Rightarrow> u64 \<Rightarrow> reg_pc \<Rightarrow> cancellation" where
  "set_pc s a p = s\<lparr>reg_pc := (reg_pc s)(a := p)\<rparr>"

definition run_callback :: "cancellation \<Rightarrow> u64 \<Rightarrow> cancellation" where
  "run_callback s a = s\<lparr>calls := (calls s)(a := Suc (calls s a))\<rparr>"

text \<open>
  The first check; a rejected registration runs its callback itself (\<open>register_callback\<close>).
\<close>

definition register_check :: "cancellation \<Rightarrow> u64 \<Rightarrow> cancellation" where
  "register_check s a =
     (if requested_flag s then set_pc (run_callback s a) a Rejected else set_pc s a Adding)"

definition register_claim :: "cancellation \<Rightarrow> u64 \<Rightarrow> nat \<Rightarrow> (nat \<Rightarrow> bool) \<Rightarrow> cancellation" where
  "register_claim s a k new =
     set_pc (s\<lparr>slot := (slot s)(k := a), exists_slot := (\<lambda>j. exists_slot s j \<or> new j \<or> j = k)\<rparr>)
       a (Claimed k)"

definition register_recheck :: "cancellation \<Rightarrow> u64 \<Rightarrow> nat \<Rightarrow> cancellation" where
  "register_recheck s a k =
     (if requested_flag s then set_pc s a (Withdrawing k) else set_pc s a (Registered k))"

definition register_withdraw :: "cancellation \<Rightarrow> u64 \<Rightarrow> nat \<Rightarrow> cancellation" where
  "register_withdraw s a k =
     (if slot s k = a
      then set_pc (run_callback (s\<lparr>slot := (slot s)(k := 0)\<rparr>) a) a Rejected
      else set_pc s a (Registered k))"

section \<open>Deregistering\<close>

definition deregister_exchange :: "cancellation \<Rightarrow> u64 \<Rightarrow> nat \<Rightarrow> cancellation" where
  "deregister_exchange s a k =
     (if slot s k = a then set_pc (s\<lparr>slot := (slot s)(k := 0)\<rparr>) a Deregistered
      else set_pc s a (Waiting k))"

text \<open>One round of the wait, on another thread than the notifying one.\<close>

definition deregister_wait :: "cancellation \<Rightarrow> u64 \<Rightarrow> cancellation" where
  "deregister_wait s a = (if notification_complete_flag s then set_pc s a Deregistered else s)"

text \<open>On the notifying thread, inside a callback, it returns without waiting.\<close>

definition deregister_in_callback :: "cancellation \<Rightarrow> u64 \<Rightarrow> cancellation" where
  "deregister_in_callback s a = set_pc s a Deregistered_in_callback"

section \<open>Requesting cancellation\<close>

definition request_start :: "cancellation \<Rightarrow> cancellation" where
  "request_start s =
     (if requested_flag s then s
      else s\<lparr>requested_flag := True, request_pc := Scanning {k. exists_slot s k} {}\<rparr>)"

definition scan_visit :: "cancellation \<Rightarrow> nat set \<Rightarrow> nat set \<Rightarrow> nat \<Rightarrow> cancellation" where
  "scan_visit s must visited k =
     (if slot s k = 0 then s\<lparr>request_pc := Scanning must (insert k visited)\<rparr>
      else (run_callback s (slot s k))\<lparr>slot := (slot s)(k := 0),
        request_pc := Calling must (insert k visited) (slot s k)\<rparr>)"

definition scan_return :: "cancellation \<Rightarrow> nat set \<Rightarrow> nat set \<Rightarrow> cancellation" where
  "scan_return s must visited = s\<lparr>request_pc := Scanning must visited\<rparr>"

definition scan_finish :: "cancellation \<Rightarrow> cancellation" where
  "scan_finish s = s\<lparr>notification_complete_flag := True, request_pc := Finished\<rparr>"

text \<open>No registration state was allocated when the requester looked: nothing to notify.\<close>

definition scan_nothing :: "cancellation \<Rightarrow> cancellation" where
  "scan_nothing s = s\<lparr>request_pc := Finished\<rparr>"

inductive cancellation_step :: "cancellation \<Rightarrow> cancellation \<Rightarrow> bool" where
  cs_register_check: "reg_pc s a = Unregistered \<Longrightarrow> a \<noteq> 0 \<Longrightarrow> cancellation_step s (register_check s a)"
| cs_register_claim: "reg_pc s a = Adding \<Longrightarrow> slot s k = 0 \<Longrightarrow>
    cancellation_step s (register_claim s a k new)"
| cs_register_recheck: "reg_pc s a = Claimed k \<Longrightarrow> cancellation_step s (register_recheck s a k)"
| cs_register_withdraw: "reg_pc s a = Withdrawing k \<Longrightarrow> cancellation_step s (register_withdraw s a k)"
| cs_deregister_exchange: "reg_pc s a = Registered k \<Longrightarrow>
    cancellation_step s (deregister_exchange s a k)"
| cs_deregister_wait: "reg_pc s a = Waiting k \<Longrightarrow> cancellation_step s (deregister_wait s a)"
| cs_deregister_in_callback: "reg_pc s a = Waiting k \<Longrightarrow> request_pc s = Calling m v b \<Longrightarrow>
    cancellation_step s (deregister_in_callback s a)"
| cs_request_start: "cancellation_step s (request_start s)"
| cs_scan_visit: "request_pc s = Scanning m v \<Longrightarrow> exists_slot s k \<Longrightarrow> k \<notin> v \<Longrightarrow>
    cancellation_step s (scan_visit s m v k)"
| cs_scan_return: "request_pc s = Calling m v a \<Longrightarrow> cancellation_step s (scan_return s m v)"
| cs_scan_finish: "request_pc s = Scanning m v \<Longrightarrow> m \<subseteq> v \<Longrightarrow> cancellation_step s (scan_finish s)"
| cs_scan_nothing: "request_pc s = Scanning {} {} \<Longrightarrow> \<forall>k. \<not> exists_slot s k \<Longrightarrow>
    cancellation_step s (scan_nothing s)"

section \<open>The invariant\<close>

fun pending :: "request_pc \<Rightarrow> nat \<Rightarrow> bool" where
  "pending (Scanning m v) k = (k \<in> m \<and> k \<notin> v)"
| "pending (Calling m v a) k = (k \<in> m \<and> k \<notin> v)"
| "pending _ k = False"

fun in_callback :: "request_pc \<Rightarrow> u64 \<Rightarrow> bool" where
  "in_callback (Calling m v a) b = (a = b)"
| "in_callback _ b = False"

fun scanning :: "request_pc \<Rightarrow> bool" where
  "scanning (Scanning _ _) = True"
| "scanning (Calling _ _ _) = True"
| "scanning _ = False"

text \<open>Whether some slot holds the registration; the notification is under way or complete.\<close>

definition here :: "cancellation \<Rightarrow> u64 \<Rightarrow> bool" where
  "here s a \<longleftrightarrow> (\<exists>k. slot s k = a)"

definition notified :: "cancellation \<Rightarrow> bool" where
  "notified s \<longleftrightarrow> notification_complete_flag s \<or> scanning (request_pc s)"

definition running :: "cancellation \<Rightarrow> u64 \<Rightarrow> bool" where
  "running s a \<longleftrightarrow> in_callback (request_pc s) a"

text \<open>A registration that is in no slot and was not run, and one the requester has taken.\<close>

definition untouched :: "cancellation \<Rightarrow> u64 \<Rightarrow> bool" where
  "untouched s a \<longleftrightarrow> calls s a = 0 \<and> \<not> running s a"

definition taken_by_requester :: "cancellation \<Rightarrow> u64 \<Rightarrow> nat \<Rightarrow> bool" where
  "taken_by_requester s a k \<longleftrightarrow> calls s a = 1 \<and> requested_flag s \<and> notified s \<and> exists_slot s k"

fun reg_inv :: "cancellation \<Rightarrow> u64 \<Rightarrow> reg_pc \<Rightarrow> bool" where
  "reg_inv s a Unregistered = (\<not> here s a \<and> untouched s a)"
| "reg_inv s a Adding = (\<not> here s a \<and> untouched s a)"
| "reg_inv s a (Claimed k) =
     (if here s a then slot s k = a \<and> untouched s a else taken_by_requester s a k)"
| "reg_inv s a (Withdrawing k) = (requested_flag s \<and>
     (if here s a then slot s k = a \<and> untouched s a else taken_by_requester s a k))"
| "reg_inv s a (Registered k) =
     (if here s a then slot s k = a \<and> untouched s a \<and> (requested_flag s \<longrightarrow> pending (request_pc s) k)
      else taken_by_requester s a k)"
| "reg_inv s a (Waiting k) = (\<not> here s a \<and> taken_by_requester s a k)"
| "reg_inv s a Rejected = (\<not> here s a \<and> calls s a = 1 \<and> \<not> running s a)"
| "reg_inv s a Deregistered = (\<not> here s a \<and> calls s a \<le> 1 \<and> \<not> running s a)"
| "reg_inv s a Deregistered_in_callback = (\<not> here s a \<and> calls s a = 1)"

definition cancellation_inv :: "cancellation \<Rightarrow> bool" where
  "cancellation_inv s \<longleftrightarrow>
     (\<forall>a. a \<noteq> 0 \<longrightarrow> reg_inv s a (reg_pc s a)) \<and> reg_pc s 0 = Unregistered \<and>
     (\<forall>k. slot s k \<noteq> 0 \<longrightarrow> exists_slot s k) \<and>
     (\<forall>j k. slot s j = slot s k \<and> slot s k \<noteq> 0 \<longrightarrow> j = k) \<and>
     (requested_flag s \<longleftrightarrow> request_pc s \<noteq> Not_requested) \<and>
     (notification_complete_flag s \<longrightarrow> requested_flag s \<and> \<not> scanning (request_pc s))"

lemmas reg_defs = untouched_def taken_by_requester_def notified_def running_def

lemma cancellation_inv_reg: "cancellation_inv s \<Longrightarrow> a \<noteq> 0 \<Longrightarrow> reg_inv s a (reg_pc s a)"
  by (simp add: cancellation_inv_def)

lemma cancellation_inv_nonnull: "cancellation_inv s \<Longrightarrow> reg_pc s a \<noteq> Unregistered \<Longrightarrow> a \<noteq> 0"
  by (auto simp: cancellation_inv_def)

lemma here_claim:
  assumes "slot s k = 0" "b \<noteq> 0"
  shows "(\<exists>j. ((slot s)(k := a)) j = b) \<longleftrightarrow> here s b \<or> b = a"
  using assms by (auto simp: here_def)

lemma here_clear:
  assumes inv: "cancellation_inv s" and "slot s k \<noteq> 0" "b \<noteq> 0"
  shows "(\<exists>j. ((slot s)(k := 0)) j = b) \<longleftrightarrow> here s b \<and> b \<noteq> slot s k"
  using assms by (auto simp: here_def cancellation_inv_def)

lemma set_pc_simps [simp]:
  "requested_flag (set_pc s a p) = requested_flag s"
  "notification_complete_flag (set_pc s a p) = notification_complete_flag s"
  "slot (set_pc s a p) = slot s" "exists_slot (set_pc s a p) = exists_slot s"
  "reg_pc (set_pc s a p) = (reg_pc s)(a := p)" "request_pc (set_pc s a p) = request_pc s"
  "calls (set_pc s a p) = calls s"
  by (simp_all add: set_pc_def)

lemma run_callback_simps [simp]:
  "requested_flag (run_callback s a) = requested_flag s"
  "notification_complete_flag (run_callback s a) = notification_complete_flag s"
  "slot (run_callback s a) = slot s" "exists_slot (run_callback s a) = exists_slot s"
  "reg_pc (run_callback s a) = reg_pc s" "request_pc (run_callback s a) = request_pc s"
  "calls (run_callback s a) = (calls s)(a := Suc (calls s a))"
  by (simp_all add: run_callback_def)

text \<open>
  A step that leaves the flags, the requester and the existing slots alone, and everything
  about the registrations other than \<open>a\<close>, keeps the invariant when it is right for \<open>a\<close>.
\<close>

lemma inv_reg_step:
  assumes inv: "cancellation_inv s" and a: "a \<noteq> 0"
    and flags: "requested_flag t = requested_flag s"
      "notification_complete_flag t = notification_complete_flag s" "request_pc t = request_pc s"
    and pc: "reg_pc t = (reg_pc s)(a := p)" and calls: "\<And>b. b \<noteq> a \<Longrightarrow> calls t b = calls s b"
    and slots: "\<And>k b. b \<noteq> a \<Longrightarrow> b \<noteq> 0 \<Longrightarrow> slot t k = b \<longleftrightarrow> slot s k = b"
    and exist: "\<And>k. exists_slot s k \<Longrightarrow> exists_slot t k"
    and mine: "reg_inv t a p" "\<And>k. slot t k = a \<Longrightarrow> exists_slot t k"
      "\<And>j k. slot t j = a \<Longrightarrow> slot t k = a \<Longrightarrow> j = k"
  shows "cancellation_inv t"
proof -
  have here: "here t b \<longleftrightarrow> here s b" if "b \<noteq> a" "b \<noteq> 0" for b
    using slots that by (simp add: here_def)
  have "reg_inv t b (reg_pc t b)" if b: "b \<noteq> 0" for b
  proof (cases "b = a")
    case False
    have "reg_inv s b (reg_pc s b)" using inv b by (rule cancellation_inv_reg)
    then have "reg_inv t b (reg_pc s b)"
      using here [OF False b] slots [OF False b] exist flags calls [OF False]
      by (cases "reg_pc s b") (auto simp: reg_defs)
    then show ?thesis using pc False by simp
  qed (use mine pc in simp)
  moreover have "exists_slot t k" if "slot t k \<noteq> 0" for k
    using that mine(2) slots [of "slot t k" k] exist inv
    by (cases "slot t k = a") (auto simp: cancellation_inv_def)
  moreover have "j = k" if jk: "slot t j = slot t k" "slot t k \<noteq> 0" for j k
  proof (cases "slot t k = a")
    case False
    then have "slot s j = slot t k" "slot s k = slot t k" using slots jk by auto
    then show ?thesis using inv jk unfolding cancellation_inv_def by metis
  qed (use mine(3) jk in auto)
  ultimately show ?thesis using inv flags pc a unfolding cancellation_inv_def by auto
qed

lemma own_slot:
  assumes inv: "cancellation_inv s" and "a \<noteq> 0"
  shows "slot s k = a \<Longrightarrow> exists_slot s k" "slot s j = a \<Longrightarrow> slot s k = a \<Longrightarrow> j = k"
    "slot s k = a \<Longrightarrow> here s a"
  using assms by (auto simp: cancellation_inv_def here_def)

lemma inv_pc_step:
  assumes inv: "cancellation_inv s" and a: "a \<noteq> 0" and mine: "reg_inv (set_pc s a p) a p"
  shows "cancellation_inv (set_pc s a p)"
  by (rule inv_reg_step [OF inv a _ _ _ _ _ _ _ mine]) (use own_slot [OF inv a] in auto)

lemma reg_parts_set_pc [simp]:
  "here (set_pc s b p) a = here s a" "untouched (set_pc s b p) a = untouched s a"
  "taken_by_requester (set_pc s b p) a k = taken_by_requester s a k"
  "running (set_pc s b p) a = running s a"
  by (simp_all add: here_def reg_defs)

lemma reg_inv_set_pc [simp]: "reg_inv (set_pc s b p) a q = reg_inv s a q"
  by (cases q) simp_all

lemma inv_register_check:
  assumes inv: "cancellation_inv s" and pc: "reg_pc s a = Unregistered" and a: "a \<noteq> 0"
  shows "cancellation_inv (register_check s a)"
proof -
  have ok: "\<not> here s a" "untouched s a" using cancellation_inv_reg [OF inv a] pc by simp_all
  show ?thesis
  proof (cases "requested_flag s")
    case True
    let ?t = "set_pc (run_callback s a) a Rejected"
    have "cancellation_inv ?t"
      by (rule inv_reg_step [OF inv a, where p = Rejected])
        (use ok own_slot [OF inv a] in \<open>auto simp: here_def reg_defs\<close>)
    with True show ?thesis by (simp add: register_check_def)
  next
    case False
    with inv_pc_step [OF inv a, of Adding] ok show ?thesis by (simp add: register_check_def)
  qed
qed

lemma inv_register_claim:
  assumes inv: "cancellation_inv s" and pc: "reg_pc s a = Adding" and k: "slot s k = 0"
  shows "cancellation_inv (register_claim s a k new)"
proof -
  have a: "a \<noteq> 0" using cancellation_inv_nonnull [OF inv, of a] pc by simp
  have ok: "\<not> here s a" "untouched s a" using cancellation_inv_reg [OF inv a] pc by simp_all
  show ?thesis
    unfolding register_claim_def
    by (rule inv_reg_step [OF inv a, where p = "Claimed k"])
      (use ok k a in \<open>auto simp: here_def reg_defs split: if_splits\<close>)
qed

lemma inv_register_recheck:
  assumes inv: "cancellation_inv s" and pc: "reg_pc s a = Claimed k"
  shows "cancellation_inv (register_recheck s a k)"
proof -
  have a: "a \<noteq> 0" using cancellation_inv_nonnull [OF inv, of a] pc by simp
  have ok: "reg_inv s a (Claimed k)" using cancellation_inv_reg [OF inv a] pc by simp
  show ?thesis
  proof (cases "requested_flag s")
    case True
    with inv_pc_step [OF inv a, of "Withdrawing k"] ok show ?thesis
      by (simp add: register_recheck_def)
  next
    case False
    then have "here s a" using ok by (auto simp: taken_by_requester_def split: if_splits)
    with inv_pc_step [OF inv a, of "Registered k"] ok False show ?thesis
      by (simp add: register_recheck_def)
  qed
qed

lemma clear_step:
  assumes inv: "cancellation_inv s" and a: "a \<noteq> 0" and k: "slot s k = a"
    and t: "slot t = (slot s)(k := 0)" "requested_flag t = requested_flag s"
      "notification_complete_flag t = notification_complete_flag s" "request_pc t = request_pc s"
      "reg_pc t = (reg_pc s)(a := p)" "\<And>b. b \<noteq> a \<Longrightarrow> calls t b = calls s b"
      "exists_slot t = exists_slot s"
    and mine: "reg_inv t a p"
  shows "cancellation_inv t"
proof -
  have none: "slot t j \<noteq> a" for j using own_slot(2) [OF inv a k, of j] a t(1) by auto
  show ?thesis
    by (rule inv_reg_step [OF inv a t(2,3,4,5,6) _ _ mine]) (use none t(1,7) k in auto)
qed

lemma inv_register_withdraw:
  assumes inv: "cancellation_inv s" and pc: "reg_pc s a = Withdrawing k"
  shows "cancellation_inv (register_withdraw s a k)"
proof -
  have a: "a \<noteq> 0" using cancellation_inv_nonnull [OF inv, of a] pc by simp
  have ok: "reg_inv s a (Withdrawing k)" using cancellation_inv_reg [OF inv a] pc by simp
  show ?thesis
  proof (cases "slot s k = a")
    case True
    let ?t = "set_pc (run_callback (s\<lparr>slot := (slot s)(k := 0)\<rparr>) a) a Rejected"
    have "here s a" using own_slot(3) [OF inv a True] .
    then have "cancellation_inv ?t"
      using ok own_slot(2) [OF inv a True]
      by (intro clear_step [OF inv a True, where p = Rejected]) (auto simp: here_def reg_defs a)
    with True show ?thesis by (simp add: register_withdraw_def)
  next
    case False
    then have "\<not> here s a" using ok by (auto split: if_splits)
    then have "reg_inv s a (Registered k)" using ok by simp
    with inv_pc_step [OF inv a, of "Registered k"] False show ?thesis by (simp add: register_withdraw_def)
  qed
qed

lemma inv_deregister_exchange:
  assumes inv: "cancellation_inv s" and pc: "reg_pc s a = Registered k"
  shows "cancellation_inv (deregister_exchange s a k)"
proof -
  have a: "a \<noteq> 0" using cancellation_inv_nonnull [OF inv, of a] pc by simp
  have ok: "reg_inv s a (Registered k)" using cancellation_inv_reg [OF inv a] pc by simp
  show ?thesis
  proof (cases "slot s k = a")
    case True
    let ?t = "set_pc (s\<lparr>slot := (slot s)(k := 0)\<rparr>) a Deregistered"
    have "here s a" using own_slot(3) [OF inv a True] .
    then have "cancellation_inv ?t"
      using ok own_slot(2) [OF inv a True]
      by (intro clear_step [OF inv a True, where p = Deregistered]) (auto simp: here_def reg_defs a)
    with True show ?thesis by (simp add: deregister_exchange_def)
  next
    case False
    then have "\<not> here s a" using ok by (auto split: if_splits)
    then have "reg_inv s a (Waiting k)" using ok by simp
    with inv_pc_step [OF inv a, of "Waiting k"] False show ?thesis by (simp add: deregister_exchange_def)
  qed
qed

lemma inv_deregister_wait:
  assumes inv: "cancellation_inv s" and pc: "reg_pc s a = Waiting k"
  shows "cancellation_inv (deregister_wait s a)"
proof (cases "notification_complete_flag s")
  case True
  have a: "a \<noteq> 0" using cancellation_inv_nonnull [OF inv, of a] pc by simp
  have ok: "reg_inv s a (Waiting k)" using cancellation_inv_reg [OF inv a] pc by simp
  have "\<not> scanning (request_pc s)" using inv True by (simp add: cancellation_inv_def)
  then have "\<not> running s a" by (cases "request_pc s") (auto simp: running_def)
  then have "reg_inv s a Deregistered" using ok by (simp add: taken_by_requester_def)
  with inv_pc_step [OF inv a, of Deregistered] True show ?thesis by (simp add: deregister_wait_def)
qed (use inv in \<open>simp add: deregister_wait_def\<close>)

lemma inv_deregister_in_callback:
  assumes inv: "cancellation_inv s" and pc: "reg_pc s a = Waiting k"
  shows "cancellation_inv (deregister_in_callback s a)"
proof -
  have a: "a \<noteq> 0" using cancellation_inv_nonnull [OF inv, of a] pc by simp
  have "reg_inv s a (Waiting k)" using cancellation_inv_reg [OF inv a] pc by simp
  then show ?thesis
    unfolding deregister_in_callback_def
    by (intro inv_pc_step [OF inv a]) (simp add: taken_by_requester_def)
qed

lemma inv_request_start:
  assumes inv: "cancellation_inv s"
  shows "cancellation_inv (request_start s)"
proof (cases "requested_flag s")
  case False
  let ?t = "s\<lparr>requested_flag := True, request_pc := Scanning {k. exists_slot s k} {}\<rparr>"
  have req: "request_pc s = Not_requested" using inv False by (simp add: cancellation_inv_def)
  have "reg_inv ?t a (reg_pc s a)" if a: "a \<noteq> 0" for a
    using cancellation_inv_reg [OF inv a] own_slot(1) [OF inv a] False req
    by (cases "reg_pc s a") (auto simp: here_def reg_defs split: if_splits)
  then have "cancellation_inv ?t" using inv False by (auto simp: cancellation_inv_def)
  with False show ?thesis by (simp add: request_start_def)
qed (use inv in \<open>simp add: request_start_def\<close>)

lemma inv_scan_visit:
  assumes inv: "cancellation_inv s" and req: "request_pc s = Scanning m v"
  shows "cancellation_inv (scan_visit s m v k)"
proof (cases "slot s k = 0")
  case True
  let ?t = "s\<lparr>request_pc := Scanning m (insert k v)\<rparr>"
  have "reg_inv ?t a (reg_pc s a)" if a: "a \<noteq> 0" for a
    using cancellation_inv_reg [OF inv a] True a req
    by (cases "reg_pc s a") (auto simp: here_def reg_defs split: if_splits)
  then have "cancellation_inv ?t" using inv req by (auto simp: cancellation_inv_def)
  with True show ?thesis by (simp add: scan_visit_def)
next
  case False
  let ?a = "slot s k"
  let ?t = "(run_callback s ?a)\<lparr>slot := (slot s)(k := 0), request_pc := Calling m (insert k v) ?a\<rparr>"
  have uniq: "slot s j = ?a \<Longrightarrow> j = k" for j using own_slot(2) [OF inv False] by blast
  have ex: "exists_slot s k" using own_slot(1) [OF inv False] by blast
  have flag: "requested_flag s" using inv req by (simp add: cancellation_inv_def)
  have hr: "here ?t b \<longleftrightarrow> here s b \<and> b \<noteq> ?a" if "b \<noteq> 0" for b
    using here_clear [OF inv False that] by (simp add: here_def)
  have "reg_inv ?t a (reg_pc s a)" if a: "a \<noteq> 0" for a
  proof (cases "a = ?a")
    case True
    have "here s a" using True by (auto simp: here_def)
    then show ?thesis
      using cancellation_inv_reg [OF inv a] hr [OF a] True uniq ex flag a
      by (cases "reg_pc s a") (auto simp: reg_defs split: if_splits)
  next
    case ne: False
    then show ?thesis
      using cancellation_inv_reg [OF inv a] hr [OF a] req a
      by (cases "reg_pc s a") (auto simp: reg_defs split: if_splits)
  qed
  then have "cancellation_inv ?t" using inv req flag by (auto simp: cancellation_inv_def)
  with False show ?thesis by (simp add: scan_visit_def)
qed

lemma inv_scan_return:
  assumes inv: "cancellation_inv s" and req: "request_pc s = Calling m v a"
  shows "cancellation_inv (scan_return s m v)"
proof -
  have "reg_inv (scan_return s m v) b (reg_pc s b)" if b: "b \<noteq> 0" for b
    using cancellation_inv_reg [OF inv b] req
    by (cases "reg_pc s b") (auto simp: scan_return_def here_def reg_defs split: if_splits)
  then show ?thesis using inv req by (auto simp: cancellation_inv_def scan_return_def)
qed

lemma inv_scan_finish:
  assumes inv: "cancellation_inv s" and req: "request_pc s = Scanning m v" "m \<subseteq> v"
  shows "cancellation_inv (scan_finish s)"
proof -
  have flag: "requested_flag s" using inv req by (simp add: cancellation_inv_def)
  have "reg_inv (scan_finish s) b (reg_pc s b)" if b: "b \<noteq> 0" for b
    using cancellation_inv_reg [OF inv b] req flag
    by (cases "reg_pc s b") (auto simp: scan_finish_def here_def reg_defs split: if_splits)
  then show ?thesis using inv flag by (auto simp: cancellation_inv_def scan_finish_def)
qed

lemma inv_scan_nothing:
  assumes inv: "cancellation_inv s" and req: "request_pc s = Scanning {} {}" "\<forall>k. \<not> exists_slot s k"
  shows "cancellation_inv (scan_nothing s)"
proof -
  have flag: "requested_flag s" using inv req by (simp add: cancellation_inv_def)
  have "reg_inv (scan_nothing s) b (reg_pc s b)" if b: "b \<noteq> 0" for b
    using cancellation_inv_reg [OF inv b] req flag
    by (cases "reg_pc s b") (auto simp: scan_nothing_def here_def reg_defs split: if_splits)
  then show ?thesis using inv flag by (auto simp: cancellation_inv_def scan_nothing_def)
qed

lemma cancellation_inv_init: "cancellation_init s \<Longrightarrow> cancellation_inv s"
  by (auto simp: cancellation_init_def cancellation_inv_def here_def reg_defs)

lemma cancellation_inv_step:
  assumes inv: "cancellation_inv s" and step: "cancellation_step s t"
  shows "cancellation_inv t"
  using step inv
  by cases (auto intro: inv_register_check inv_register_claim inv_register_recheck
      inv_register_withdraw inv_deregister_exchange inv_deregister_wait inv_deregister_in_callback
      inv_request_start inv_scan_visit inv_scan_return inv_scan_finish inv_scan_nothing)

interpretation cancellation_sys: invariant_system cancellation_init cancellation_step cancellation_inv
  by unfold_locales (auto intro: cancellation_inv_init cancellation_inv_step)

section \<open>Properties\<close>

text \<open>A run: registration 8 gets slot 0 and is registered, then cancellation is requested.\<close>

definition cancel_demo0 :: cancellation where
  "cancel_demo0 = \<lparr>requested_flag = False, notification_complete_flag = False, slot = (\<lambda>_. 0),
     exists_slot = (\<lambda>_. False), reg_pc = (\<lambda>_. Unregistered), request_pc = Not_requested,
     calls = (\<lambda>_. 0)\<rparr>"

definition cancel_demo1 :: cancellation where
  "cancel_demo1 = register_recheck (register_claim (register_check cancel_demo0 8) 8 0 (\<lambda>_. False)) 8 0"

definition cancel_demo :: cancellation where
  "cancel_demo = scan_finish (scan_return (scan_visit (request_start cancel_demo1) {0} {} 0) {0} {0})"

lemmas cancel_demo_defs = cancel_demo0_def cancel_demo1_def cancel_demo_def register_check_def
  register_claim_def register_recheck_def request_start_def scan_visit_def scan_return_def
  scan_finish_def set_pc_def run_callback_def

lemma cancel_demo1_reachable: "reachable cancellation_init cancellation_step cancel_demo1"
proof -
  note run = reachable_step [where init = cancellation_init and step = cancellation_step]
  let ?r = "reachable cancellation_init cancellation_step"
  have "?r cancel_demo0" by (rule reachable_init) (simp add: cancellation_init_def cancel_demo0_def)
  then have "?r (register_check cancel_demo0 8)"
    by (rule run) (rule cs_register_check, simp_all add: cancel_demo_defs)
  then have "?r (register_claim (register_check cancel_demo0 8) 8 0 (\<lambda>_. False))"
    by (rule run) (rule cs_register_claim, simp_all add: cancel_demo_defs)
  then show ?thesis
    unfolding cancel_demo1_def by (rule run) (rule cs_register_recheck, simp add: cancel_demo_defs)
qed

lemma cancel_demo_reachable: "reachable cancellation_init cancellation_step cancel_demo"
proof -
  note run = reachable_step [where init = cancellation_init and step = cancellation_step]
  let ?r = "reachable cancellation_init cancellation_step"
  have "?r (request_start cancel_demo1)" by (rule run [OF cancel_demo1_reachable cs_request_start])
  then have "?r (scan_visit (request_start cancel_demo1) {0} {} 0)"
    by (rule run) (rule cs_scan_visit, simp_all add: cancel_demo_defs)
  then have "?r (scan_return (scan_visit (request_start cancel_demo1) {0} {} 0) {0} {0})"
    by (rule run) (rule cs_scan_return [where a = 8], simp add: cancel_demo_defs)
  then show ?thesis
    unfolding cancel_demo_def by (rule run) (rule cs_scan_finish [where m = "{0}" and v = "{0}"], simp_all add: cancel_demo_defs)
qed

lemma reachable_cancellation_inv:
  "reachable cancellation_init cancellation_step s \<Longrightarrow> cancellation_inv s"
  by (rule cancellation_sys.reachable_inv)

text \<open>
  C24. A registered callback runs at most once, whether the cancelling thread or the registering
  thread runs it and however registering, deregistering and requesting interleave; and once
  the notification is complete, every callback that is still registered has run.
\<close>

theorem callback_runs_once:
  assumes "reachable cancellation_init cancellation_step s" and "a \<noteq> 0"
  shows "calls s a \<le> 1 \<and>
    (notification_complete_flag s \<and> reg_pc s a = Registered k \<longrightarrow> calls s a = 1)"
proof -
  have inv: "cancellation_inv s" using assms(1) by (rule reachable_cancellation_inv)
  have r: "reg_inv s a (reg_pc s a)" using inv assms(2) by (rule cancellation_inv_reg)
  then have "calls s a \<le> 1" by (cases "reg_pc s a") (auto simp: reg_defs split: if_splits)
  moreover have "calls s a = 1" if "notification_complete_flag s" "reg_pc s a = Registered k"
  proof -
    have "requested_flag s" "\<not> scanning (request_pc s)"
      using inv that(1) by (auto simp: cancellation_inv_def)
    then have "requested_flag s" "\<not> pending (request_pc s) k" by (cases "request_pc s"; simp)+
    then show ?thesis using r that(2) by (auto simp: taken_by_requester_def split: if_splits)
  qed
  ultimately show ?thesis by blast
qed

theorem callback_runs_once_witness: "calls cancel_demo 8 = 1"
  using callback_runs_once [OF cancel_demo_reachable, of 8 0] by (simp add: cancel_demo_defs)

text \<open>A run in which a callback destroys its own registration.\<close>

definition self_demo :: cancellation where
  "self_demo = deregister_in_callback (deregister_exchange
     (scan_visit (request_start cancel_demo1) {0} {} 0) 8 0) 8"

lemma self_demo_reachable: "reachable cancellation_init cancellation_step self_demo"
proof -
  note run = reachable_step [where init = cancellation_init and step = cancellation_step]
  let ?r = "reachable cancellation_init cancellation_step"
  let ?v = "scan_visit (request_start cancel_demo1) {0} {} 0"
  have "?r (request_start cancel_demo1)" by (rule run [OF cancel_demo1_reachable cs_request_start])
  then have "?r ?v" by (rule run) (rule cs_scan_visit, simp_all add: cancel_demo_defs)
  then have "?r (deregister_exchange ?v 8 0)"
    by (rule run) (rule cs_deregister_exchange, simp add: cancel_demo_defs)
  then show ?thesis
    unfolding self_demo_def
    by (rule run) (rule cs_deregister_in_callback [where k = 0 and m = "{0}" and v = "{0}" and b = 8],
      simp_all add: cancel_demo_defs deregister_exchange_def)
qed

lemma self_demo_state: "reg_pc self_demo 8 = Deregistered_in_callback" "running self_demo 8"
  by (simp_all add: self_demo_def cancel_demo_defs deregister_exchange_def deregister_in_callback_def running_def)

text \<open>
  C26. After \<open>deregister_callback\<close> has returned on another thread than the notifying one, or at a
  time when no callback runs, the registration is in no entry, its callback has been called at
  most once and is not running, so it can be destroyed. The exception is the call made from
  inside a callback on the notifying thread that finds its registration taken: it does not wait,
  the registration is in no entry and has been called once and will not be called again, but
  that one call may still be running, namely when the callback destroys its own registration; a
  state of that kind is reachable. A deregistration that has to wait does not wait for ever: the
  notification it waits for is under way or complete.
\<close>

theorem deregistered_is_safe:
  assumes "reachable cancellation_init cancellation_step s" and "a \<noteq> 0"
  shows "(reg_pc s a = Deregistered \<longrightarrow> \<not> here s a \<and> \<not> running s a \<and> calls s a \<le> 1) \<and>
    (reg_pc s a = Deregistered_in_callback \<longrightarrow> \<not> here s a \<and> calls s a = 1) \<and>
    (reg_pc s a = Waiting k \<longrightarrow> notified s) \<and>
    (\<exists>t b. reachable cancellation_init cancellation_step t \<and>
      reg_pc t b = Deregistered_in_callback \<and> running t b)"
  using cancellation_inv_reg [OF reachable_cancellation_inv [OF assms(1)] assms(2)]
    self_demo_reachable self_demo_state
  by (auto simp: taken_by_requester_def)

lemma deregister_demo_reachable:
  "reachable cancellation_init cancellation_step (deregister_exchange cancel_demo 8 0)"
  by (rule reachable_step [OF cancel_demo_reachable cs_deregister_exchange])
    (simp add: cancel_demo_defs)

theorem deregistered_is_safe_witness:
  "reg_pc (deregister_exchange cancel_demo 8 0) 8 = Waiting 0 \<and>
   notified (deregister_exchange cancel_demo 8 0)"
proof -
  have "reg_pc (deregister_exchange cancel_demo 8 0) 8 = Waiting 0"
    by (simp add: cancel_demo_defs deregister_exchange_def)
  then show ?thesis using deregistered_is_safe [OF deregister_demo_reachable, of 8 0] by simp
qed

text \<open>
  The registrar that loses the race with a request gets it right: a registration in state
  \<open>Rejected\<close>, for which \<open>try_register_callback\<close> returned false, is in no entry and its callback
  was run exactly once, by the registering thread and not by the canceller as well.
\<close>

theorem rejected_runs_own_callback:
  assumes "reachable cancellation_init cancellation_step s" and "a \<noteq> 0" and "reg_pc s a = Rejected"
  shows "\<not> here s a \<and> calls s a = 1 \<and> \<not> running s a"
  using cancellation_inv_reg [OF reachable_cancellation_inv [OF assms(1)] assms(2)] assms(3) by simp

theorem rejected_runs_own_callback_witness:
  "\<not> here (register_check cancel_demo 16) 16 \<and> calls (register_check cancel_demo 16) 16 = 1"
proof -
  have "reachable cancellation_init cancellation_step (register_check cancel_demo 16)"
    by (rule reachable_step [OF cancel_demo_reachable cs_register_check]) (simp_all add: cancel_demo_defs)
  from rejected_runs_own_callback [OF this, of 16] show ?thesis by (simp add: cancel_demo_defs)
qed

end
