(* ===== verification/Cancellation_Handles.thy ===== *)
theory Cancellation_Handles
  imports Coro_Prelude
begin

text \<open>
  Who owns a cancellation state: the reference-counted word of
  include/coro/cancellation/cancellation_state.h, and the handles that count in it
  (src/coro/cancellation_source.cpp, src/coro/cancellation_token.cpp, and the registrations of
  src/coro/cancellation_registration.cpp, which hold a token's reference). States live in a
  heap; using a deleted state is an error (\<open>None\<close>). Handles are numbered below \<open>N\<close>. A request for
  cancellation has a beginning, in which it sets its flag, and an end, in which it sets another;
  in between it scans the state and runs callbacks, that is, any other operations. Which callbacks
  it runs is the subject of Cancellation_Protocol.
\<close>

section \<open>The word\<close>

definition requested_flag :: u64 where "requested_flag = 1"

definition notification_complete_flag :: u64 where "notification_complete_flag = 2"

definition source_ref_increment :: u64 where "source_ref_increment = 4"

definition token_ref_increment :: u64 where "token_ref_increment = push_bit 33 1"

definition can_be_cancelled_mask :: u64 where
  "can_be_cancelled_mask = token_ref_increment - 1"

definition ref_count_mask :: u64 where
  "ref_count_mask = NOT (requested_flag OR notification_complete_flag)"

datatype kind = Source | Token

fun ref_increment :: "kind \<Rightarrow> u64" where
  "ref_increment Source = source_ref_increment"
| "ref_increment Token = token_ref_increment"

section \<open>State\<close>

text \<open>
  Address 0 is null. A handle that is null or does not exist is 0; registrations are handles of
  kind \<open>Token\<close>. \<open>requesting\<close> says of a state that the first call of \<open>request_cancellation\<close> is at
  work on it.
\<close>

record heap =
  m_state :: "nat \<Rightarrow> u64"
  live :: "nat \<Rightarrow> bool"
  top :: nat
  handle :: "kind \<Rightarrow> nat \<Rightarrow> nat"
  requesting :: "nat \<Rightarrow> bool"

definition heap_init :: heap where
  "heap_init = \<lparr>m_state = (\<lambda>_. 0), live = (\<lambda>_. False), top = 1, handle = (\<lambda>_ _. 0),
     requesting = (\<lambda>_. False)\<rparr>"

definition set_handle :: "heap \<Rightarrow> kind \<Rightarrow> nat \<Rightarrow> nat \<Rightarrow> heap" where
  "set_handle h k i a = h\<lparr>handle := (handle h)(k := (handle h k)(i := a))\<rparr>"

definition add_ref :: "kind \<Rightarrow> heap \<Rightarrow> nat \<Rightarrow> heap option" where
  "add_ref k h a =
     (if \<not> live h a then None
      else Some (h\<lparr>m_state := (m_state h)(a := m_state h a + ref_increment k)\<rparr>))"

definition release_ref :: "kind \<Rightarrow> heap \<Rightarrow> nat \<Rightarrow> heap option" where
  "release_ref k h a =
     (if \<not> live h a then None
      else (let old_state = m_state h a;
                h' = h\<lparr>m_state := (m_state h)(a := old_state - ref_increment k)\<rparr>
            in Some (if old_state AND ref_count_mask = ref_increment k
                     then h'\<lparr>live := (live h)(a := False)\<rparr> else h')))"

definition add_token_ref :: "heap \<Rightarrow> nat \<Rightarrow> heap option" where
  "add_token_ref = add_ref Token"

definition release_token_ref :: "heap \<Rightarrow> nat \<Rightarrow> heap option" where
  "release_token_ref = release_ref Token"

definition add_source_ref :: "heap \<Rightarrow> nat \<Rightarrow> heap option" where
  "add_source_ref = add_ref Source"

definition release_source_ref :: "heap \<Rightarrow> nat \<Rightarrow> heap option" where
  "release_source_ref = release_ref Source"

definition state_can_be_cancelled :: "heap \<Rightarrow> nat \<Rightarrow> bool" where
  "state_can_be_cancelled h a \<longleftrightarrow> m_state h a AND can_be_cancelled_mask \<noteq> 0"

definition state_is_requested :: "heap \<Rightarrow> nat \<Rightarrow> bool" where
  "state_is_requested h a \<longleftrightarrow> m_state h a AND requested_flag \<noteq> 0"

section \<open>Operations on handles\<close>

text \<open>Taking a reference into a null handle, and giving up the one a handle has.\<close>

definition attach :: "kind \<Rightarrow> nat \<Rightarrow> nat \<Rightarrow> heap \<Rightarrow> heap option" where
  "attach k i a h =
     (if a = 0 then Some (set_handle h k i 0)
      else map_option (\<lambda>h'. set_handle h' k i a) (add_ref k h a))"

definition detach :: "kind \<Rightarrow> nat \<Rightarrow> heap \<Rightarrow> heap option" where
  "detach k i h =
     (if handle h k i = 0 then Some h
      else map_option (\<lambda>h'. set_handle h' k i 0) (release_ref k h (handle h k i)))"

text \<open>Copying, moving, destroying and assigning, for both classes.\<close>

definition handle_copy :: "kind \<Rightarrow> nat \<Rightarrow> nat \<Rightarrow> heap \<Rightarrow> heap option" where
  "handle_copy k i other h = attach k i (handle h k other) h"

definition handle_move :: "kind \<Rightarrow> nat \<Rightarrow> nat \<Rightarrow> heap \<Rightarrow> heap" where
  "handle_move k i other h = set_handle (set_handle h k i (handle h k other)) k other 0"

definition handle_assign :: "kind \<Rightarrow> nat \<Rightarrow> nat \<Rightarrow> heap \<Rightarrow> heap option" where
  "handle_assign k i other h =
     (if handle h k i \<noteq> handle h k other
      then Option.bind (detach k i h) (attach k i (handle h k other)) else Some h)"

definition handle_move_assign :: "kind \<Rightarrow> nat \<Rightarrow> nat \<Rightarrow> heap \<Rightarrow> heap option" where
  "handle_move_assign k i other h =
     (if i \<noteq> other then map_option (handle_move k i other) (detach k i h) else Some h)"

definition source_new :: "nat \<Rightarrow> heap \<Rightarrow> heap" where
  "source_new i h = set_handle (h\<lparr>m_state := (m_state h)(top h := source_ref_increment),
     live := (live h)(top h := True), top := Suc (top h)\<rparr>) Source i (top h)"

definition source_copy :: "nat \<Rightarrow> nat \<Rightarrow> heap \<Rightarrow> heap option" where
  "source_copy = handle_copy Source"

definition source_move :: "nat \<Rightarrow> nat \<Rightarrow> heap \<Rightarrow> heap" where
  "source_move = handle_move Source"

definition source_destroy :: "nat \<Rightarrow> heap \<Rightarrow> heap option" where
  "source_destroy = detach Source"

definition source_assign :: "nat \<Rightarrow> nat \<Rightarrow> heap \<Rightarrow> heap option" where
  "source_assign = handle_assign Source"

definition source_move_assign :: "nat \<Rightarrow> nat \<Rightarrow> heap \<Rightarrow> heap option" where
  "source_move_assign = handle_move_assign Source"

definition source_token :: "nat \<Rightarrow> nat \<Rightarrow> heap \<Rightarrow> heap option" where
  "source_token source t h = attach Token t (handle h Source source) h"

definition source_can_be_cancelled :: "nat \<Rightarrow> heap \<Rightarrow> bool" where
  "source_can_be_cancelled i h \<longleftrightarrow> handle h Source i \<noteq> 0"

definition source_is_requested :: "nat \<Rightarrow> heap \<Rightarrow> bool" where
  "source_is_requested i h \<longleftrightarrow> handle h Source i \<noteq> 0 \<and> state_is_requested h (handle h Source i)"

definition token_copy :: "nat \<Rightarrow> nat \<Rightarrow> heap \<Rightarrow> heap option" where
  "token_copy = handle_copy Token"

definition token_move :: "nat \<Rightarrow> nat \<Rightarrow> heap \<Rightarrow> heap" where
  "token_move = handle_move Token"

definition token_destroy :: "nat \<Rightarrow> heap \<Rightarrow> heap option" where
  "token_destroy = detach Token"

definition token_assign :: "nat \<Rightarrow> nat \<Rightarrow> heap \<Rightarrow> heap option" where
  "token_assign = handle_assign Token"

definition token_move_assign :: "nat \<Rightarrow> nat \<Rightarrow> heap \<Rightarrow> heap option" where
  "token_move_assign = handle_move_assign Token"

definition token_swap :: "nat \<Rightarrow> nat \<Rightarrow> heap \<Rightarrow> heap" where
  "token_swap i j h =
     set_handle (set_handle h Token i (handle h Token j)) Token j (handle h Token i)"

definition token_can_be_cancelled :: "nat \<Rightarrow> heap \<Rightarrow> bool" where
  "token_can_be_cancelled i h \<longleftrightarrow>
     handle h Token i \<noteq> 0 \<and> state_can_be_cancelled h (handle h Token i)"

definition token_is_requested :: "nat \<Rightarrow> heap \<Rightarrow> bool" where
  "token_is_requested i h \<longleftrightarrow> handle h Token i \<noteq> 0 \<and> state_is_requested h (handle h Token i)"

datatype token_error = Operation_cancelled

definition token_throw_if_requested :: "nat \<Rightarrow> heap \<Rightarrow> token_error + unit" where
  "token_throw_if_requested i h =
     (if token_is_requested i h then Inl Operation_cancelled else Inr ())"

text \<open>
  A registration takes over the reference of the token it is made from when the state can be
  cancelled and the callback was registered (\<open>registered\<close>); else it holds no state.
\<close>

definition registration_take :: "nat \<Rightarrow> nat \<Rightarrow> bool \<Rightarrow> heap \<Rightarrow> heap" where
  "registration_take r t registered h =
     (if handle h Token t \<noteq> 0 \<and> state_can_be_cancelled h (handle h Token t) \<and> registered
      then handle_move Token r t h else h)"

text \<open>
  \<open>request_cancellation\<close>. The first call goes on after it has set the flag: it looks at the
  registrations, with callbacks in between, and at the end it adds the second flag when there
  are any (\<open>found\<close>). Each of these uses the state.
\<close>

definition state_request :: "nat \<Rightarrow> heap \<Rightarrow> heap option" where
  "state_request a h =
     (if \<not> live h a then None
      else (let old_state = m_state h a;
                h' = h\<lparr>m_state := (m_state h)(a := old_state OR requested_flag)\<rparr>
            in Some (if old_state AND requested_flag \<noteq> 0 then h'
                     else h'\<lparr>requesting := (requesting h)(a := True)\<rparr>)))"

definition state_scan :: "nat \<Rightarrow> heap \<Rightarrow> heap option" where
  "state_scan a h = (if \<not> live h a then None else Some h)"

definition state_complete :: "nat \<Rightarrow> bool \<Rightarrow> heap \<Rightarrow> heap option" where
  "state_complete a found h =
     (if \<not> live h a then None
      else Some (h\<lparr>m_state := (if found then (m_state h)(a := m_state h a + notification_complete_flag)
          else m_state h), requesting := (requesting h)(a := False)\<rparr>))"

definition source_request :: "nat \<Rightarrow> heap \<Rightarrow> heap option" where
  "source_request i h =
     (if handle h Source i \<noteq> 0 then state_request (handle h Source i) h else Some h)"

section \<open>Counts\<close>

definition count :: "nat \<Rightarrow> heap \<Rightarrow> kind \<Rightarrow> nat \<Rightarrow> nat" where
  "count N h k a = (\<Sum>i<N. if handle h k i = a then 1 else 0)"

definition counted :: "nat \<Rightarrow> nat \<Rightarrow> nat \<Rightarrow> u64" where
  "counted flags sources tokens = of_nat (flags + 4 * sources + 2 ^ 33 * tokens)"

definition heap_inv :: "nat \<Rightarrow> heap \<Rightarrow> bool" where
  "heap_inv N h \<longleftrightarrow> 0 < top h \<and> (\<forall>k i. handle h k i < top h) \<and> (\<forall>a. live h a \<longrightarrow> a < top h) \<and>
     (\<forall>a. a \<noteq> 0 \<longrightarrow> (live h a \<longleftrightarrow> 0 < count N h Source a + count N h Token a) \<and>
       (live h a \<longrightarrow> (\<exists>f<4. m_state h a = counted f (count N h Source a) (count N h Token a))))"

lemma count_le: "count N h k a \<le> N"
proof -
  have "count N h k a \<le> (\<Sum>i<N. 1)" unfolding count_def by (intro sum_mono) simp
  then show ?thesis by simp
qed

lemma count_pos: "i < N \<Longrightarrow> handle h k i = a \<Longrightarrow> 0 < count N h k a"
  unfolding count_def by (rule sum_pos2 [of _ i]) auto

lemma set_handle_simps [simp]:
  "m_state (set_handle h k i a) = m_state h" "live (set_handle h k i a) = live h"
  "top (set_handle h k i a) = top h"
  "handle (set_handle h k i a) j = (if j = k then (handle h k)(i := a) else handle h j)"
  by (auto simp: set_handle_def)

lemma count_set_handle:
  assumes "i < N"
  shows "count N (set_handle h k i a) k b + (if handle h k i = b then 1 else 0)
    = count N h k b + (if a = b then 1 else 0)"
  using sum_upd_process [OF assms, of "\<lambda>x. if x = b then 1 else 0" "handle h k" a]
  by (simp add: count_def)

lemma count_set_handle_other: "j \<noteq> k \<Longrightarrow> count N (set_handle h k i a) j b = count N h j b"
  by (simp add: count_def)

lemma count_cong: "handle h' = handle h \<Longrightarrow> count N h' k a = count N h k a"
  by (simp add: count_def)

lemma unat_counted:
  assumes "f < 4" "s < 2 ^ 31" "t < 2 ^ 31"
  shows "unat (counted f s t) = f + 4 * s + 2 ^ 33 * t"
  unfolding counted_def using assms by (subst unat_of_nat) (rule mod_less, simp)

lemma counted_add:
  "counted f s t + ref_increment Source = counted f (Suc s) t"
  "counted f s t + ref_increment Token = counted f s (Suc t)"
  by (simp_all add: counted_def source_ref_increment_def token_ref_increment_def push_bit_eq_mult)

lemma counted_sub:
  "counted f (Suc s) t - ref_increment Source = counted f s t"
  "counted f s (Suc t) - ref_increment Token = counted f s t"
  using counted_add [of f s t] by (metis add_diff_cancel_right')+

lemma counted_masks:
  assumes "f < 4" "s < 2 ^ 31" "t < 2 ^ 31"
  shows counted_low: "counted f s t AND (requested_flag OR notification_complete_flag) = of_nat f"
    and "counted f s t AND ref_count_mask = counted 0 s t"
    and "counted f s t AND can_be_cancelled_mask = counted f s 0"
    and "counted f s t AND requested_flag = of_nat (f mod 2)"
proof -
  have u: "unat (counted f s t) = f + 4 * s + 2 ^ 33 * t" using assms by (rule unat_counted)
  have and_mask: "unat (w AND mask n) = unat w mod 2 ^ n" for w :: u64 and n
  proof -
    have "unat (w AND mask n) = take_bit n (unat w)"
      by (simp only: take_bit_eq_mask [symmetric] unsigned_take_bit_eq)
    then show ?thesis by (simp only: take_bit_eq_mod)
  qed
  have low: "counted f s t AND mask 2 = of_nat f"
  proof (rule word_unat_eq_iff [THEN iffD2])
    have "f + 4 * s + 2 ^ 33 * t = f + 4 * (s + 2 ^ 31 * t)" by simp
    moreover have "(f + 4 * (s + 2 ^ 31 * t)) mod 4 = f mod 4" by (rule mod_mult_self2)
    moreover have "f mod 4 = f" "(2::nat) ^ 2 = 4" using assms(1) by simp_all
    ultimately have "(f + 4 * s + 2 ^ 33 * t) mod 2 ^ 2 = f" by (simp only:)
    then show "unat (counted f s t AND mask 2) = unat (of_nat f :: u64)"
      using assms(1) by (simp add: and_mask u unat_of_nat)
  qed
  have m2: "requested_flag OR notification_complete_flag = mask 2"
    by (simp add: requested_flag_def notification_complete_flag_def mask_eq_exp_minus_1)
  show "counted f s t AND (requested_flag OR notification_complete_flag) = of_nat f"
    by (simp only: m2 low)
  have "ref_count_mask = NOT (mask 2)"
    by (simp add: ref_count_mask_def requested_flag_def notification_complete_flag_def mask_eq_exp_minus_1)
  moreover have "w AND NOT (mask 2) = w - (w AND mask 2)" for w :: u64
  proof -
    have "(w AND mask 2) + (w AND NOT (mask 2)) = (w AND mask 2) OR (w AND NOT (mask 2))"
      by (rule disjunctive_add_eq_or) (rule bit_eqI, simp add: bit_simps)
    also have "\<dots> = w" by (rule bit_eqI) (auto simp: bit_simps)
    finally show ?thesis by (simp add: eq_diff_eq add.commute)
  qed
  ultimately have "counted f s t AND ref_count_mask = counted f s t - of_nat f"
    by (simp only: low)
  then show "counted f s t AND ref_count_mask = counted 0 s t" by (simp add: counted_def)
  have m33: "can_be_cancelled_mask = mask 33"
    by (simp add: can_be_cancelled_mask_def token_ref_increment_def mask_eq_exp_minus_1 push_bit_eq_mult)
  have "(f + 4 * s + 2 ^ 33 * t) mod 2 ^ 33 = f + 4 * s" using assms by simp
  then have "unat (counted f s t AND can_be_cancelled_mask) = f + 4 * s"
    by (simp only: m33 and_mask u)
  moreover have "unat (counted f s 0) = f + 4 * s" using unat_counted [of f s 0] assms by simp
  ultimately show "counted f s t AND can_be_cancelled_mask = counted f s 0"
    by (simp only: word_unat_eq_iff)
  have m1: "requested_flag = mask 1" by (simp add: requested_flag_def mask_eq_exp_minus_1)
  have "f + 4 * s + 2 ^ 33 * t = f + 2 * (2 * s + 2 ^ 32 * t)" by simp
  moreover have "(f + 2 * (2 * s + 2 ^ 32 * t)) mod 2 = f mod 2" by (rule mod_mult_self2)
  ultimately have "(f + 4 * s + 2 ^ 33 * t) mod 2 ^ 1 = f mod 2" by (simp only: power_one_right)
  then have "unat (counted f s t AND requested_flag) = f mod 2" by (simp only: m1 and_mask u)
  moreover have "unat (of_nat (f mod 2) :: u64) = f mod 2" by (simp add: unat_of_nat)
  ultimately show "counted f s t AND requested_flag = of_nat (f mod 2)"
    by (simp only: word_unat_eq_iff)
qed

section \<open>The counts are kept\<close>

lemma heap_inv_live: "heap_inv N h \<Longrightarrow> i < N \<Longrightarrow> handle h k i = a \<Longrightarrow> a \<noteq> 0 \<Longrightarrow> live h a"
  using count_pos [of i N h k a] by (cases k) (auto simp: heap_inv_def)

lemma heap_inv_counted:
  assumes "heap_inv N h" "live h a" "a \<noteq> 0"
  shows "\<exists>f<4. m_state h a = counted f (count N h Source a) (count N h Token a)"
  using assms by (auto simp: heap_inv_def)

lemma counted_last:
  assumes "f < 4" "s < 2 ^ 31" "t < 2 ^ 31"
  shows "counted f s t AND ref_count_mask = ref_increment Source \<longleftrightarrow> s = 1 \<and> t = 0"
    and "counted f s t AND ref_count_mask = ref_increment Token \<longleftrightarrow> s = 0 \<and> t = 1"
proof -
  have u: "unat (counted 0 s t) = 4 * s + 2 ^ 33 * t" using unat_counted [of 0 s t] assms by simp
  have r: "ref_increment Source = counted 0 1 0" "ref_increment Token = counted 0 0 1"
    by (simp_all add: counted_def source_ref_increment_def token_ref_increment_def push_bit_eq_mult)
  have v: "unat (counted 0 1 0) = 4" "unat (counted 0 0 1) = 2 ^ 33"
    using unat_counted [of 0 1 0] unat_counted [of 0 0 1] by simp_all
  have "4 * s + 2 ^ 33 * t = 4 \<longleftrightarrow> s = 1 \<and> t = 0" by (cases t) auto
  then show "counted f s t AND ref_count_mask = ref_increment Source \<longleftrightarrow> s = 1 \<and> t = 0"
    by (simp only: counted_masks(2) [OF assms] r word_unat_eq_iff u v)
  have "4 * s + 2 ^ 33 * t = 2 ^ 33 \<longleftrightarrow> s = 0 \<and> t = 1"
    using assms(2) by (cases t; cases "t - 1") auto
  then show "counted f s t AND ref_count_mask = ref_increment Token \<longleftrightarrow> s = 0 \<and> t = 1"
    by (simp only: counted_masks(2) [OF assms] r word_unat_eq_iff u v)
qed

definition state_ok :: "nat \<Rightarrow> heap \<Rightarrow> nat \<Rightarrow> bool" where
  "state_ok N h a \<longleftrightarrow> (live h a \<longleftrightarrow> 0 < count N h Source a + count N h Token a) \<and>
     (live h a \<longrightarrow> (\<exists>f<4. m_state h a = counted f (count N h Source a) (count N h Token a)))"

lemma heap_inv_ok: "heap_inv N h \<Longrightarrow> a \<noteq> 0 \<Longrightarrow> state_ok N h a"
  by (auto simp: heap_inv_def state_ok_def)

lemma heap_inv_change:
  assumes inv: "heap_inv N h" and top: "top h' = top h"
    and bnd: "\<And>k i. handle h' k i < top h" and lv: "live h' a \<Longrightarrow> a < top h"
    and other: "\<And>b. b \<noteq> 0 \<Longrightarrow> b \<noteq> a \<Longrightarrow> live h' b = live h b"
      "\<And>b. b \<noteq> 0 \<Longrightarrow> b \<noteq> a \<Longrightarrow> m_state h' b = m_state h b"
      "\<And>k b. b \<noteq> 0 \<Longrightarrow> b \<noteq> a \<Longrightarrow> count N h' k b = count N h k b"
    and here: "state_ok N h' a"
  shows "heap_inv N h'"
proof -
  have "state_ok N h' b" if "b \<noteq> 0" for b
    using here other that heap_inv_ok [OF inv that] by (cases "b = a") (simp_all add: state_ok_def)
  moreover have "b < top h" if "live h' b" for b
  proof (cases "b = a \<or> b = 0")
    case True
    then show ?thesis using lv that inv by (auto simp: heap_inv_def)
  next
    case False
    then show ?thesis using other(1) that inv by (auto simp: heap_inv_def)
  qed
  ultimately show ?thesis using bnd inv by (simp add: heap_inv_def state_ok_def top)
qed

lemma heap_inv_attach:
  assumes inv: "heap_inv N h" and i: "i < N" and null: "handle h k i = 0" and a: "a = 0 \<or> live h a"
  shows "\<exists>h'. attach k i a h = Some h' \<and> heap_inv N h' \<and> handle h' = handle (set_handle h k i a)"
proof (cases "a = 0")
  case True
  have "set_handle h k i 0 = h" using null by (simp add: set_handle_def fun_upd_idem)
  then show ?thesis using True inv by (simp add: attach_def)
next
  case False
  with a have lv: "live h a" by simp
  define h1 where "h1 = h\<lparr>m_state := (m_state h)(a := m_state h a + ref_increment k)\<rparr>"
  define H where "H = set_handle h1 k i a"
  have c1: "count N h1 j b = count N h j b" for j b by (rule count_cong) (simp add: h1_def)
  have n1: "handle h1 k i = 0" by (simp add: h1_def null)
  have same: "count N H k b = count N h k b + (if a = b then 1 else 0)" if "b \<noteq> 0" for b
    using count_set_handle [OF i, of h1 k a b] n1 that by (simp add: c1 H_def)
  have other: "j \<noteq> k \<Longrightarrow> count N H j b = count N h j b" for j b
    by (simp add: count_set_handle_other c1 H_def)
  have st: "m_state H = (m_state h)(a := m_state h a + ref_increment k)" "live H = live h"
    "top H = top h" "handle H = handle (set_handle h k i a)"
    by (auto simp: H_def h1_def)
  obtain f where f: "f < 4" "m_state h a = counted f (count N h Source a) (count N h Token a)"
    using heap_inv_counted [OF inv lv False] by blast
  have "m_state H a = counted f (count N H Source a) (count N H Token a)"
  proof (cases k)
    case Source
    then show ?thesis using same [OF False] other [of Token a] f(2)
      by (simp add: st counted_add del: ref_increment.simps)
  next
    case Token
    then show ?thesis using same [OF False] other [of Source a] f(2)
      by (simp add: st counted_add del: ref_increment.simps)
  qed
  moreover have "0 < count N H Source a + count N H Token a"
    using same [OF False] by (cases k) simp_all
  ultimately have ok: "state_ok N H a" using f(1) lv by (auto simp: state_ok_def st)
  have lt: "a < top h" using inv lv by (simp add: heap_inv_def)
  have "heap_inv N H"
  proof (rule heap_inv_change [OF inv, where a = a])
    show "handle H j l < top h" for j l using lt inv by (simp add: st heap_inv_def)
    show "count N H j b = count N h j b" if "b \<noteq> 0" "b \<noteq> a" for j b
      using same [OF that(1)] other [of j b] that by (cases "j = k") auto
  qed (use ok lt in \<open>simp_all add: st\<close>)
  moreover have "attach k i a h = Some H"
    using False lv by (simp add: attach_def add_ref_def H_def h1_def)
  ultimately show ?thesis by (simp add: st)
qed

lemma heap_inv_detach:
  assumes inv: "heap_inv N h" and i: "i < N" and N: "N < 2 ^ 31"
  shows "\<exists>h'. detach k i h = Some h' \<and> heap_inv N h' \<and> handle h' = handle (set_handle h k i 0)"
proof (cases "handle h k i = 0")
  case True
  have "set_handle h k i 0 = h" using True by (simp add: set_handle_def fun_upd_idem)
  then show ?thesis using True inv by (simp add: detach_def)
next
  case False
  define a where "a = handle h k i"
  have a0: "a \<noteq> 0" using False by (simp add: a_def)
  have lv: "live h a" unfolding a_def using heap_inv_live [OF inv i refl False] .
  obtain f where f: "f < 4" "m_state h a = counted f (count N h Source a) (count N h Token a)"
    using heap_inv_counted [OF inv lv a0] by blast
  have bnd: "count N h j b < 2 ^ 31" for j b using count_le [of N h j b] N by simp
  define last where "last = (m_state h a AND ref_count_mask = ref_increment k)"
  define h1 where "h1 = h\<lparr>m_state := (m_state h)(a := m_state h a - ref_increment k),
    live := if last then (live h)(a := False) else live h\<rparr>"
  define H where "H = set_handle h1 k i 0"
  have c1: "count N h1 j b = count N h j b" for j b by (rule count_cong) (simp add: h1_def)
  have n1: "handle h1 k i = a" by (simp add: h1_def a_def)
  have same: "count N H k b + (if a = b then 1 else 0) = count N h k b" if "b \<noteq> 0" for b
    using count_set_handle [OF i, of h1 k 0 b] that by (simp add: c1 H_def n1)
  have other: "j \<noteq> k \<Longrightarrow> count N H j b = count N h j b" for j b
    by (simp add: count_set_handle_other c1 H_def)
  have st: "m_state H = (m_state h)(a := m_state h a - ref_increment k)"
    "live H = (if last then (live h)(a := False) else live h)"
    "top H = top h" "handle H = handle (set_handle h k i 0)"
    by (auto simp: H_def h1_def)
  have ok: "state_ok N H a"
  proof (cases k)
    case Source
    then have cs: "count N h Source a = Suc (count N H Source a)" "count N h Token a = count N H Token a"
      using same [OF a0] other [of Token a] by simp_all
    have "last \<longleftrightarrow> count N H Source a + count N H Token a = 0"
      using counted_last(1) [OF f(1) bnd bnd, of Source a Token a] f(2) cs Source by (simp add: last_def)
    moreover have "m_state H a = counted f (count N H Source a) (count N H Token a)"
      using f(2) Source by (simp add: st cs counted_sub del: ref_increment.simps)
    ultimately show ?thesis using lv f(1) by (auto simp: state_ok_def st)
  next
    case Token
    then have cs: "count N h Token a = Suc (count N H Token a)" "count N h Source a = count N H Source a"
      using same [OF a0] other [of Source a] by simp_all
    have "last \<longleftrightarrow> count N H Source a + count N H Token a = 0"
      using counted_last(2) [OF f(1) bnd bnd, of Source a Token a] f(2) cs Token by (simp add: last_def)
    moreover have "m_state H a = counted f (count N H Source a) (count N H Token a)"
      using f(2) Token by (simp add: st cs counted_sub del: ref_increment.simps)
    ultimately show ?thesis using lv f(1) by (auto simp: state_ok_def st)
  qed
  have "heap_inv N H"
  proof (rule heap_inv_change [OF inv, where a = a])
    show "handle H j l < top h" for j l using inv by (simp add: st heap_inv_def)
    show "count N H j b = count N h j b" if "b \<noteq> 0" "b \<noteq> a" for j b
      using same [OF that(1)] other [of j b] that by (cases "j = k") auto
    show "a < top h" using inv lv by (simp add: heap_inv_def)
  qed (use ok in \<open>simp_all add: st\<close>)
  moreover have "detach k i h = Some H"
    using False lv by (simp add: detach_def release_ref_def Let_def H_def h1_def last_def a_def)
  ultimately show ?thesis by (simp add: st)
qed

lemma heap_inv_permute:
  assumes inv: "heap_inv N h" and eq: "m_state h' = m_state h" "live h' = live h" "top h' = top h"
    and counts: "\<And>k b. b \<noteq> 0 \<Longrightarrow> count N h' k b = count N h k b"
    and bnd: "\<And>k i. handle h' k i < top h"
  shows "heap_inv N h'"
  using assms by (simp add: heap_inv_def)

lemma heap_inv_move:
  assumes inv: "heap_inv N h" and ij: "i < N" "j < N" "i \<noteq> j" and null: "handle h k i = 0"
  shows "heap_inv N (handle_move k i j h)"
proof (rule heap_inv_permute [OF inv])
  let ?h1 = "set_handle h k i (handle h k j)"
  show "count N (handle_move k i j h) l b = count N h l b" if "b \<noteq> 0" for l b
  proof (cases "l = k")
    case True
    have "count N (set_handle ?h1 k j 0) k b + (if handle h k j = b then 1 else 0) = count N ?h1 k b"
      using count_set_handle [OF ij(2), of ?h1 k 0 b] ij(3) that by simp
    moreover have "count N ?h1 k b = count N h k b + (if handle h k j = b then 1 else 0)"
      using count_set_handle [OF ij(1), of h k "handle h k j" b] null that by simp
    ultimately show ?thesis using True by (simp add: handle_move_def)
  next
    case False
    then show ?thesis by (simp add: handle_move_def count_set_handle_other)
  qed
qed (use inv in \<open>simp_all add: handle_move_def heap_inv_def\<close>)

lemma heap_inv_swap:
  assumes inv: "heap_inv N h" and ij: "i < N" "j < N"
  shows "heap_inv N (token_swap i j h)"
proof (rule heap_inv_permute [OF inv])
  let ?h1 = "set_handle h Token i (handle h Token j)"
  show "count N (token_swap i j h) l b = count N h l b" if "b \<noteq> 0" for l b
  proof (cases l)
    case Token
    have "count N (set_handle ?h1 Token j (handle h Token i)) Token b + (if handle h Token j = b then 1 else 0)
        = count N ?h1 Token b + (if handle h Token i = b then 1 else 0)"
      using count_set_handle [OF ij(2), of ?h1 Token "handle h Token i" b] by (cases "i = j") simp_all
    moreover have "count N ?h1 Token b + (if handle h Token i = b then 1 else 0)
        = count N h Token b + (if handle h Token j = b then 1 else 0)"
      using count_set_handle [OF ij(1), of h Token "handle h Token j" b] .
    ultimately show ?thesis using Token by (simp add: token_swap_def)
  qed (simp add: token_swap_def count_set_handle_other)
qed (use inv in \<open>simp_all add: token_swap_def heap_inv_def\<close>)

lemma heap_inv_new:
  assumes inv: "heap_inv N h" and i: "i < N" and null: "handle h Source i = 0"
  shows "heap_inv N (source_new i h)"
proof -
  define a where "a = top h"
  define h1 where "h1 = h\<lparr>m_state := (m_state h)(a := source_ref_increment),
     live := (live h)(a := True), top := Suc a\<rparr>"
  define H where "H = set_handle h1 Source i a"
  have H: "source_new i h = H" by (simp add: source_new_def H_def h1_def a_def)
  have bnd: "0 < a" "\<And>k j. handle h k j < a" "\<And>b. live h b \<Longrightarrow> b < a"
    using inv unfolding heap_inv_def a_def by blast+
  have a0: "a \<noteq> 0" and fresh: "\<And>k j. handle h k j \<noteq> a"
    using bnd(1) bnd(2) [THEN less_imp_neq] by simp_all
  have c1: "count N h1 j b = count N h j b" for j b by (rule count_cong) (simp add: h1_def)
  have zero: "count N h k a = 0" for k by (simp add: count_def fresh)
  have cH: "count N H k b = count N h k b + (if k = Source \<and> b = a then 1 else 0)" if "b \<noteq> 0" for k b
  proof (cases k)
    case Source
    have "count N H Source b + (if handle h1 Source i = b then 1 else 0)
        = count N h Source b + (if a = b then 1 else 0)"
      using count_set_handle [OF i, of h1 Source a b] by (simp only: H_def c1)
    then show ?thesis using Source null that by (auto simp: h1_def)
  qed (simp add: H_def count_set_handle_other c1)
  have st: "m_state H = (m_state h)(a := source_ref_increment)" "live H = (live h)(a := True)"
    "top H = Suc a" "handle H = handle (set_handle h Source i a)"
    by (auto simp: H_def h1_def)
  have "source_ref_increment = counted 0 1 0" by (simp add: counted_def source_ref_increment_def)
  then have "state_ok N H a" using cH [OF a0] zero by (auto simp: state_ok_def st intro: exI [of _ 0])
  then have "state_ok N H b" if "b \<noteq> 0" for b
    using heap_inv_ok [OF inv that] cH [OF that] by (cases "b = a") (simp_all add: state_ok_def st)
  moreover have "handle H k j < Suc a" for k j
    using bnd(2) [of k j] bnd(2) [THEN less_SucI] by (simp add: st)
  moreover have "live H b \<Longrightarrow> b < Suc a" for b
    using bnd(3) [THEN less_SucI] by (cases "b = a") (simp_all add: st)
  ultimately have "heap_inv N H" by (simp add: heap_inv_def state_ok_def st(3))
  then show ?thesis by (simp add: H)
qed

lemma heap_inv_assign:
  assumes inv: "heap_inv N h" and ij: "i < N" "j < N" and N: "N < 2 ^ 31"
  shows "\<exists>h'. handle_assign k i j h = Some h' \<and> heap_inv N h' \<and> handle h' k i = handle h k j"
proof (cases "handle h k i = handle h k j")
  case True
  then show ?thesis using inv by (simp add: handle_assign_def)
next
  case False
  obtain h1 where h1: "detach k i h = Some h1" "heap_inv N h1" "handle h1 = handle (set_handle h k i 0)"
    using heap_inv_detach [OF inv ij(1) N] by blast
  have j: "handle h1 k j = handle h k j" "handle h1 k i = 0" using False h1(3) by auto
  have "handle h k j = 0 \<or> live h1 (handle h k j)"
    using heap_inv_live [OF h1(2) ij(2) j(1)] by blast
  from heap_inv_attach [OF h1(2) ij(1) j(2) this] False h1(1) show ?thesis
    by (auto simp: handle_assign_def)
qed

lemma heap_inv_move_assign:
  assumes inv: "heap_inv N h" and ij: "i < N" "j < N" and N: "N < 2 ^ 31"
  shows "\<exists>h'. handle_move_assign k i j h = Some h' \<and> heap_inv N h' \<and> handle h' k i = handle h k j"
proof (cases "i = j")
  case True
  then show ?thesis using inv by (simp add: handle_move_assign_def)
next
  case False
  obtain h1 where h1: "detach k i h = Some h1" "heap_inv N h1" "handle h1 = handle (set_handle h k i 0)"
    using heap_inv_detach [OF inv ij(1) N] by blast
  have "handle h1 k i = 0" using h1(3) by simp
  from heap_inv_move [OF h1(2) ij False this] False h1 show ?thesis
    by (simp add: handle_move_assign_def handle_move_def)
qed

section \<open>Requests\<close>

definition flags :: "heap \<Rightarrow> nat \<Rightarrow> u64" where
  "flags h a = m_state h a AND (requested_flag OR notification_complete_flag)"

text \<open>
  The states at which a request is at work are live and have the first flag only; no state has
  the second flag only.
\<close>

definition request_inv :: "heap \<Rightarrow> bool" where
  "request_inv h \<longleftrightarrow> (\<forall>a. live h a \<longrightarrow> flags h a \<noteq> 2) \<and>
     (\<forall>a. requesting h a \<longrightarrow> a \<noteq> 0 \<and> live h a \<and> flags h a = 1)"

text \<open>What an operation other than a request does to the flags and to the states being notified.\<close>

definition keeps_requests :: "heap \<Rightarrow> heap \<Rightarrow> bool" where
  "keeps_requests h h' \<longleftrightarrow> requesting h' = requesting h \<and>
     (\<forall>a. (requesting h a \<longrightarrow> live h' a) \<and> (live h' a \<longrightarrow> live h a \<and> flags h' a = flags h a))"

lemma keeps_requestsD:
  assumes "keeps_requests h h'"
  shows "requesting h' = requesting h" "requesting h a \<Longrightarrow> live h' a"
    "live h' a \<Longrightarrow> live h a" "live h' a \<Longrightarrow> flags h' a = flags h a"
  using assms unfolding keeps_requests_def by blast+

lemma keeps_requestsI:
  assumes "requesting h' = requesting h" "\<And>a. requesting h a \<Longrightarrow> live h' a"
    "\<And>a. live h' a \<Longrightarrow> live h a \<and> flags h' a = flags h a"
  shows "keeps_requests h h'"
  using assms unfolding keeps_requests_def by blast

lemma request_invD:
  assumes "request_inv h"
  shows "live h a \<Longrightarrow> flags h a \<noteq> 2" "requesting h a \<Longrightarrow> a \<noteq> 0" "requesting h a \<Longrightarrow> live h a"
    "requesting h a \<Longrightarrow> flags h a = 1"
  using assms unfolding request_inv_def by blast+

lemma request_invI:
  assumes "\<And>a. live h a \<Longrightarrow> flags h a \<noteq> 2" "\<And>a. requesting h a \<Longrightarrow> a \<noteq> 0 \<and> live h a \<and> flags h a = 1"
  shows "request_inv h"
  using assms unfolding request_inv_def by blast

lemma request_inv_kept:
  assumes inv: "request_inv h" and keep: "keeps_requests h h'"
  shows "request_inv h'"
proof (rule request_invI)
  note k = keeps_requestsD [OF keep] and i = request_invD [OF inv]
  show "flags h' a \<noteq> 2" if "live h' a" for a using i(1) [OF k(3) [OF that]] k(4) [OF that] by simp
  show "a \<noteq> 0 \<and> live h' a \<and> flags h' a = 1" if "requesting h' a" for a
  proof -
    have r: "requesting h a" using that k(1) by simp
    then show ?thesis using i(2,4) [OF r] k(2) [OF r] k(4) [OF k(2) [OF r]] by simp
  qed
qed

lemma keeps_requests_trans:
  assumes "keeps_requests h h1" "keeps_requests h1 h2"
  shows "keeps_requests h h2"
proof (rule keeps_requestsI)
  note k1 = keeps_requestsD [OF assms(1)] and k2 = keeps_requestsD [OF assms(2)]
  show "requesting h2 = requesting h" using k1(1) k2(1) by simp
  show "live h2 a" if "requesting h a" for a using that k1(1) k2(2) by simp
  show "live h a \<and> flags h2 a = flags h a" if "live h2 a" for a
    using k2(3,4) [OF that] k1(3,4) [OF k2(3) [OF that]] by simp
qed

lemma keeps_requests_same:
  assumes "m_state h' = m_state h" "live h' = live h" "requesting h' = requesting h" "request_inv h"
  shows "keeps_requests h h'"
  by (rule keeps_requestsI) (use assms request_invD(3) [OF assms(4)] in \<open>simp_all add: flags_def\<close>)

lemma two_flags: "requested_flag OR notification_complete_flag = mask 2"
  by (simp add: requested_flag_def notification_complete_flag_def mask_eq_exp_minus_1)

lemma unat_mask_2: "unat ((w :: u64) AND mask 2) = unat w mod 4"
proof -
  have "unat (w AND mask 2) = take_bit 2 (unat w)"
    by (simp only: take_bit_eq_mask [symmetric] unsigned_take_bit_eq)
  then show ?thesis by (simp add: take_bit_eq_mod)
qed

lemma flags_increment:
  "(w + ref_increment k) AND mask 2 = w AND mask 2" "(w - ref_increment k) AND mask 2 = w AND mask 2"
proof -
  have "unat (ref_increment k) mod 4 = 0"
    by (cases k) (simp_all add: source_ref_increment_def token_ref_increment_def push_bit_eq_mult)
  then have "(unat v + unat (ref_increment k)) mod 4 = unat v mod 4" for v :: u64
    by (simp add: mod_add_eq [symmetric, of "unat v"])
  then have "unat (v + ref_increment k) mod 4 = unat v mod 4" for v
    by (simp add: unat_word_ariths mod_mod_cancel)
  then have add: "(v + ref_increment k) AND mask 2 = v AND mask 2" for v
    by (simp only: word_unat_eq_iff unat_mask_2)
  show "(w + ref_increment k) AND mask 2 = w AND mask 2" by (rule add)
  show "(w - ref_increment k) AND mask 2 = w AND mask 2"
    using add [of "w - ref_increment k"] by simp
qed

lemma attach_keeps:
  assumes inv: "request_inv h" and run: "attach k i a h = Some h'"
  shows "keeps_requests h h'"
proof (cases "a = 0")
  case True
  then show ?thesis using run inv by (intro keeps_requests_same) (auto simp: attach_def set_handle_def)
next
  case False
  then have h': "live h' = live h" "requesting h' = requesting h"
    "m_state h' = (m_state h)(a := m_state h a + ref_increment k)"
    using run by (auto simp: attach_def add_ref_def set_handle_def split: if_splits)
  show ?thesis
    by (rule keeps_requestsI)
      (use h' request_invD(3) [OF inv] in \<open>simp_all add: flags_def two_flags flags_increment del: ref_increment.simps\<close>)
qed

text \<open>Giving up a reference ends no state on which a request is at work.\<close>

definition cuts_off :: "heap \<Rightarrow> kind \<Rightarrow> nat \<Rightarrow> bool" where
  "cuts_off h k a \<longleftrightarrow> a \<noteq> 0 \<and> requesting h a \<and> m_state h a AND ref_count_mask = ref_increment k"

lemma detach_keeps:
  assumes inv: "request_inv h" and run: "detach k i h = Some h'" and more: "\<not> cuts_off h k (handle h k i)"
  shows "keeps_requests h h'"
proof (cases "handle h k i = 0")
  case True
  then show ?thesis using run inv by (intro keeps_requests_same) (auto simp: detach_def set_handle_def)
next
  case False
  define a where "a = handle h k i"
  define last where "last = (m_state h a AND ref_count_mask = ref_increment k)"
  have h': "live h' = (if last then (live h)(a := False) else live h)" "requesting h' = requesting h"
    "m_state h' = (m_state h)(a := m_state h a - ref_increment k)"
    using run False by (auto simp: detach_def release_ref_def set_handle_def Let_def a_def last_def split: if_splits)
  have "last \<longrightarrow> \<not> requesting h a" using more False by (auto simp: cuts_off_def a_def last_def)
  then show ?thesis
    by (intro keeps_requestsI)
      (use h' request_invD(3) [OF inv] in \<open>auto simp: flags_def two_flags flags_increment simp del: ref_increment.simps split: if_splits\<close>)
qed

lemma counted_or_requested:
  "even f \<Longrightarrow> counted f s t OR requested_flag = counted (Suc f) s t"
  "odd f \<Longrightarrow> counted f s t OR requested_flag = counted f s t"
  by (simp_all add: requested_flag_def or_one_eq counted_def even_of_nat_iff)

text \<open>Writing the flags \<open>g\<close> into the word of a live state, the counts staying as they are.\<close>

definition with_flags :: "nat \<Rightarrow> heap \<Rightarrow> nat \<Rightarrow> nat \<Rightarrow> bool \<Rightarrow> heap" where
  "with_flags N h a g r =
     h\<lparr>m_state := (m_state h)(a := counted g (count N h Source a) (count N h Token a)),
       requesting := (requesting h)(a := r)\<rparr>"

lemma with_flags_inv:
  assumes inv: "heap_inv N h" "request_inv h" and N: "N < 2 ^ 31" and lv: "live h a" and a: "a \<noteq> 0"
    and g: "g < 4" "g \<noteq> 2" "r \<longrightarrow> g = 1"
  shows "heap_inv N (with_flags N h a g r) \<and> request_inv (with_flags N h a g r)"
proof
  let ?H = "with_flags N h a g r"
  have c: "count N ?H k b = count N h k b" for k b by (rule count_cong) (simp add: with_flags_def)
  have bnd: "count N h j b < 2 ^ 31" for j b using count_le [of N h j b] N by simp
  have st: "m_state ?H b = (if b = a then counted g (count N h Source a) (count N h Token a) else m_state h b)"
    "live ?H = live h" "top ?H = top h" "handle ?H = handle h" "requesting ?H = (requesting h)(a := r)" for b
    by (simp_all add: with_flags_def)
  have ok: "state_ok N ?H a"
    using heap_inv_ok [OF inv(1) a] lv g(1) by (auto simp: state_ok_def c st)
  show "heap_inv N ?H"
  proof (rule heap_inv_change [OF inv(1), where a = a])
    show "handle ?H k j < top h" for k j using inv(1) by (simp add: st heap_inv_def)
    show "a < top h" using inv(1) lv by (simp add: heap_inv_def)
  qed (use ok c st in simp_all)
  have fl: "flags ?H b = (if b = a then of_nat g else flags h b)" for b
    using counted_low [OF g(1) bnd bnd] by (simp add: flags_def st)
  have "(of_nat g :: u64) \<noteq> 2" using g(1,2) by (simp add: word_unat_eq_iff unat_of_nat)
  then show "request_inv ?H"
    by (intro request_invI) (use request_invD [OF inv(2)] g(3) lv a in \<open>simp_all add: fl st split: if_splits\<close>)
qed

lemma live_flags:
  assumes inv: "heap_inv N h" "request_inv h" and N: "N < 2 ^ 31" and lv: "live h a" and a: "a \<noteq> 0"
  obtains f where "f < 4" "f \<noteq> 2" "m_state h a = counted f (count N h Source a) (count N h Token a)"
    "flags h a = of_nat f" "m_state h a AND requested_flag = of_nat (f mod 2)"
proof -
  have bnd: "count N h j b < 2 ^ 31" for j b using count_le [of N h j b] N by simp
  obtain f where f: "f < 4" "m_state h a = counted f (count N h Source a) (count N h Token a)"
    using heap_inv_counted [OF inv(1) lv a] by blast
  have "flags h a = of_nat f" using counted_low [OF f(1) bnd bnd] by (simp add: flags_def f(2))
  moreover have "f \<noteq> 2" using request_invD(1) [OF inv(2) lv] calculation by auto
  moreover have "m_state h a AND requested_flag = of_nat (f mod 2)"
    using counted_masks(4) [OF f(1) bnd bnd] by (simp only: f(2))
  ultimately show thesis using f that by blast
qed

lemma source_request_inv:
  assumes inv: "heap_inv N h" "request_inv h" and i: "i < N" and N: "N < 2 ^ 31"
  shows "\<exists>h'. source_request i h = Some h' \<and> heap_inv N h' \<and> request_inv h'"
proof (cases "handle h Source i = 0")
  case True
  then show ?thesis using inv by (simp add: source_request_def)
next
  case False
  define a where "a = handle h Source i"
  have a: "a \<noteq> 0" "live h a" using heap_inv_live [OF inv(1) i refl False] False by (simp_all add: a_def)
  obtain f where f: "f < 4" "f \<noteq> 2" "m_state h a = counted f (count N h Source a) (count N h Token a)"
    "m_state h a AND requested_flag = of_nat (f mod 2)" "flags h a = of_nat f"
    using live_flags [OF inv N a(2,1)] by blast
  have req: "requesting h a \<longrightarrow> f = 1"
    using request_invD(4) [OF inv(2), of a] f(1,5) by (auto simp: word_unat_eq_iff unat_of_nat)
  show ?thesis
  proof (cases "f mod 2 = 0")
    case True
    with f(1,2) have f0: "f = 0" by presburger
    have "source_request i h = Some (with_flags N h a 1 True)"
      using False a f(3,4) f0 counted_or_requested(1) [of 0]
      by (simp add: source_request_def state_request_def Let_def with_flags_def a_def)
    then show ?thesis using with_flags_inv [OF inv N a(2,1), of 1 True] by simp
  next
    case odd: False
    then have odd': "odd f" "f mod 2 = 1" by presburger+
    have "source_request i h = Some (with_flags N h a f (requesting h a))"
      using False a f(3,4) odd' counted_or_requested(2) [OF odd'(1)]
      by (simp add: source_request_def state_request_def Let_def with_flags_def a_def fun_upd_idem)
    then show ?thesis using with_flags_inv [OF inv N a(2,1) f(1,2) req] by simp
  qed
qed

lemma state_complete_inv:
  assumes inv: "heap_inv N h" "request_inv h" and req: "requesting h a" and N: "N < 2 ^ 31"
  shows "\<exists>h'. state_complete a found h = Some h' \<and> heap_inv N h' \<and> request_inv h'"
proof -
  have a: "a \<noteq> 0" "live h a" using request_invD(2,3) [OF inv(2) req] by simp_all
  obtain f where f: "f < 4" "m_state h a = counted f (count N h Source a) (count N h Token a)" "flags h a = of_nat f"
    using live_flags [OF inv N a(2,1)] by blast
  have f1: "f = 1"
    using request_invD(4) [OF inv(2) req] f(1,3) by (auto simp: word_unat_eq_iff unat_of_nat)
  have "counted 1 s t + notification_complete_flag = counted 3 s t" for s t
    by (simp add: counted_def notification_complete_flag_def)
  then have "state_complete a found h = Some (with_flags N h a (if found then 3 else 1) False)"
    using a f(2) f1 by (simp add: state_complete_def with_flags_def fun_upd_idem)
  then show ?thesis using with_flags_inv [OF inv N a(2,1), of "if found then 3 else 1" False] by simp
qed

lemma new_request_inv:
  assumes inv: "heap_inv N h" "request_inv h"
  shows "request_inv (source_new i h)"
proof (rule request_invI)
  let ?H = "source_new i h"
  have st: "live ?H = (live h)(top h := True)" "requesting ?H = requesting h"
    "m_state ?H = (m_state h)(top h := source_ref_increment)"
    by (simp_all add: source_new_def set_handle_def)
  have "source_ref_increment AND mask 2 = 0"
    by (simp only: word_unat_eq_iff unat_mask_2) (simp add: source_ref_increment_def)
  then have fl: "flags ?H a = (if a = top h then 0 else flags h a)" for a
    by (simp add: flags_def st two_flags)
  have "live h a \<Longrightarrow> a < top h" for a using inv(1) by (simp add: heap_inv_def)
  then have top: "\<not> live h (top h)" by blast
  show "flags ?H a \<noteq> 2" if "live ?H a" for a
    using that request_invD(1) [OF inv(2), of a] by (simp add: fl st split: if_splits)
  show "a \<noteq> 0 \<and> live ?H a \<and> flags ?H a = 1" if "requesting ?H a" for a
    using that request_invD [OF inv(2), of a] top by (auto simp: fl st)
qed

section \<open>Programs over handles\<close>

text \<open>
  The operations a client performs. A constructor builds an object in a handle number that
  holds none (0); everything else may be applied to any handle.
\<close>

datatype handle_op =
    New_source nat
  | Copy kind nat nat
  | Move kind nat nat
  | Destroy kind nat
  | Assign kind nat nat
  | Move_assign kind nat nat
  | Get_token nat nat
  | Swap_tokens nat nat
  | Register nat nat bool
  | Request nat
  | Scan nat
  | Complete nat bool

fun constructs :: "handle_op \<Rightarrow> (kind \<times> nat) option" where
  "constructs (New_source i) = Some (Source, i)"
| "constructs (Copy k i j) = Some (k, i)"
| "constructs (Move k i j) = Some (k, i)"
| "constructs (Get_token i t) = Some (Token, t)"
| "constructs (Register r t b) = Some (Token, r)"
| "constructs _ = None"

fun numbers :: "handle_op \<Rightarrow> nat list" where
  "numbers (New_source i) = [i]"
| "numbers (Copy k i j) = [i, j]"
| "numbers (Move k i j) = [i, j]"
| "numbers (Destroy k i) = [i]"
| "numbers (Assign k i j) = [i, j]"
| "numbers (Move_assign k i j) = [i, j]"
| "numbers (Get_token i t) = [i, t]"
| "numbers (Swap_tokens i j) = [i, j]"
| "numbers (Register r t b) = [r, t]"
| "numbers (Request i) = [i]"
| "numbers _ = []"

fun moves_itself :: "handle_op \<Rightarrow> bool" where
  "moves_itself (Move k i j) = (i = j)"
| "moves_itself (Register r t b) = (r = t)"
| "moves_itself _ = False"

text \<open>The reference that an operation gives up.\<close>

fun gives_up :: "handle_op \<Rightarrow> heap \<Rightarrow> (kind \<times> nat) option" where
  "gives_up (Destroy k i) h = Some (k, handle h k i)"
| "gives_up (Assign k i j) h = (if handle h k i \<noteq> handle h k j then Some (k, handle h k i) else None)"
| "gives_up (Move_assign k i j) h = (if i \<noteq> j then Some (k, handle h k i) else None)"
| "gives_up _ h = None"

definition drops_requested :: "handle_op \<Rightarrow> heap \<Rightarrow> bool" where
  "drops_requested p h = (case gives_up p h of None \<Rightarrow> False | Some (k, a) \<Rightarrow> cuts_off h k a)"

fun request_at_work :: "handle_op \<Rightarrow> heap \<Rightarrow> bool" where
  "request_at_work (Scan a) h = requesting h a"
| "request_at_work (Complete a found) h = requesting h a"
| "request_at_work _ h = True"

text \<open>
  \<open>keep\<close> says that the program keeps a reference to a state as long as a request is at work on it.
\<close>

definition op_allowed :: "nat \<Rightarrow> bool \<Rightarrow> handle_op \<Rightarrow> heap \<Rightarrow> bool" where
  "op_allowed N keep p h \<longleftrightarrow> list_all (\<lambda>i. i < N) (numbers p) \<and> \<not> moves_itself p \<and>
     (case constructs p of None \<Rightarrow> True | Some (k, i) \<Rightarrow> handle h k i = 0) \<and>
     request_at_work p h \<and> (keep \<longrightarrow> \<not> drops_requested p h)"

fun do_op :: "handle_op \<Rightarrow> heap \<Rightarrow> heap option" where
  "do_op (New_source i) h = Some (source_new i h)"
| "do_op (Copy k i j) h = handle_copy k i j h"
| "do_op (Move k i j) h = Some (handle_move k i j h)"
| "do_op (Destroy k i) h = detach k i h"
| "do_op (Assign k i j) h = handle_assign k i j h"
| "do_op (Move_assign k i j) h = handle_move_assign k i j h"
| "do_op (Get_token i t) h = source_token i t h"
| "do_op (Swap_tokens i j) h = Some (token_swap i j h)"
| "do_op (Register r t b) h = Some (registration_take r t b h)"
| "do_op (Request i) h = source_request i h"
| "do_op (Scan a) h = state_scan a h"
| "do_op (Complete a found) h = state_complete a found h"

text \<open>Running a list of them; an operation that is not allowed is skipped.\<close>

fun run_ops :: "nat \<Rightarrow> bool \<Rightarrow> handle_op list \<Rightarrow> heap \<Rightarrow> heap option" where
  "run_ops N keep [] h = Some h"
| "run_ops N keep (p # ps) h =
     (if op_allowed N keep p h then Option.bind (do_op p h) (run_ops N keep ps) else run_ops N keep ps h)"

lemma heap_inv_init: "heap_inv N heap_init"
  by (simp add: heap_inv_def heap_init_def count_def)

lemma request_inv_init: "request_inv heap_init"
  by (simp add: request_inv_def heap_init_def)

lemma heap_inv_do_op:
  assumes inv: "heap_inv N h" and req: "request_inv h" and ok: "op_allowed N keep p h" and N: "N < 2 ^ 31"
  shows "\<exists>h'. do_op p h = Some h' \<and> heap_inv N h'"
proof (cases p)
  case (Copy k i j)
  have ij: "i < N" "j < N" "handle h k i = 0" using ok Copy by (simp_all add: op_allowed_def)
  have "handle h k j = 0 \<or> live h (handle h k j)" using heap_inv_live [OF inv ij(2) refl] by blast
  from heap_inv_attach [OF inv ij(1) ij(3) this] Copy show ?thesis by (auto simp: handle_copy_def)
next
  case (Get_token i t)
  have it: "i < N" "t < N" "handle h Token t = 0" using ok Get_token by (simp_all add: op_allowed_def)
  have "handle h Source i = 0 \<or> live h (handle h Source i)"
    using heap_inv_live [OF inv it(1) refl] by blast
  from heap_inv_attach [OF inv it(2) it(3) this] Get_token show ?thesis by (auto simp: source_token_def)
next
  case (Destroy k i)
  then show ?thesis using heap_inv_detach [OF inv _ N, of i k] ok by (auto simp: op_allowed_def)
next
  case (Assign k i j)
  then show ?thesis using heap_inv_assign [OF inv _ _ N, of i j k] ok by (auto simp: op_allowed_def)
next
  case (Move_assign k i j)
  then show ?thesis using heap_inv_move_assign [OF inv _ _ N, of i j k] ok by (auto simp: op_allowed_def)
next
  case (Request i)
  then show ?thesis using source_request_inv [OF inv req _ N, of i] ok by (auto simp: op_allowed_def)
next
  case (Scan a)
  then show ?thesis using request_invD(3) [OF req, of a] ok inv by (simp add: op_allowed_def state_scan_def)
next
  case (Complete a found)
  then show ?thesis using state_complete_inv [OF inv req _ N, of a found] ok by (auto simp: op_allowed_def)
qed (use inv ok in \<open>auto simp: op_allowed_def registration_take_def
      intro: heap_inv_new heap_inv_move heap_inv_swap\<close>)

lemma move_keeps: "request_inv h \<Longrightarrow> keeps_requests h (handle_move k i j h)"
  by (rule keeps_requests_same) (simp_all add: handle_move_def set_handle_def)

lemma request_inv_do_op:
  assumes inv: "heap_inv N h" and req: "request_inv h" and ok: "op_allowed N True p h" and N: "N < 2 ^ 31"
    and run: "do_op p h = Some h'"
  shows "request_inv h'"
proof -
  note kept = request_inv_kept [OF req]
  have more: "gives_up p h = Some (k, a) \<Longrightarrow> \<not> cuts_off h k a" for k a
    using ok by (simp add: op_allowed_def drops_requested_def)
  show ?thesis
  proof (cases p)
    case (New_source i)
    then show ?thesis using new_request_inv [OF inv req, of i] run by simp
  next
    case (Copy k i j)
    then show ?thesis using run by (auto intro: kept attach_keeps [OF req] simp: handle_copy_def)
  next
    case (Move k i j)
    then show ?thesis using run kept [OF move_keeps [OF req]] by auto
  next
    case (Destroy k i)
    then show ?thesis using run more by (auto intro: kept detach_keeps [OF req])
  next
    case (Assign k i j)
    show ?thesis
    proof (cases "handle h k i = handle h k j")
      case False
      then obtain h1 where h1: "detach k i h = Some h1" "attach k i (handle h k j) h1 = Some h'"
        using run Assign by (auto simp: handle_assign_def bind_eq_Some_conv)
      have keep: "keeps_requests h h1" using detach_keeps [OF req h1(1)] more Assign False by simp
      show ?thesis using kept [OF keeps_requests_trans [OF keep attach_keeps [OF kept [OF keep] h1(2)]]] .
    qed (use run Assign req in \<open>simp add: handle_assign_def\<close>)
  next
    case (Move_assign k i j)
    show ?thesis
    proof (cases "i = j")
      case False
      then obtain h1 where h1: "detach k i h = Some h1" "h' = handle_move k i j h1"
        using run Move_assign by (auto simp: handle_move_assign_def)
      have keep: "keeps_requests h h1" using detach_keeps [OF req h1(1)] more Move_assign False by simp
      show ?thesis using request_inv_kept [OF kept [OF keep] move_keeps [OF kept [OF keep]]] h1(2) by simp
    qed (use run Move_assign req in \<open>simp add: handle_move_assign_def\<close>)
  next
    case (Get_token i t)
    then show ?thesis using run by (auto intro: kept attach_keeps [OF req] simp: source_token_def)
  next
    case (Swap_tokens i j)
    then have "keeps_requests h h'"
      using run by (intro keeps_requests_same [OF _ _ _ req]) (auto simp: token_swap_def set_handle_def)
    then show ?thesis by (rule kept)
  next
    case (Register r t b)
    then show ?thesis using run kept [OF move_keeps [OF req]] req by (auto simp: registration_take_def)
  next
    case (Request i)
    then show ?thesis using source_request_inv [OF inv req _ N, of i] ok run by (auto simp: op_allowed_def)
  next
    case (Scan a)
    then show ?thesis using run req by (simp add: state_scan_def split: if_splits)
  next
    case (Complete a found)
    then show ?thesis using state_complete_inv [OF inv req _ N, of a found] ok run by (auto simp: op_allowed_def)
  qed
qed

lemma heap_inv_run_ops:
  assumes "N < 2 ^ 31"
  shows "heap_inv N h \<Longrightarrow> request_inv h \<Longrightarrow> \<exists>h'. run_ops N True ps h = Some h' \<and> heap_inv N h'"
proof (induction ps arbitrary: h)
  case (Cons p ps)
  show ?case
  proof (cases "op_allowed N True p h")
    case True
    then obtain h1 where h1: "do_op p h = Some h1" "heap_inv N h1"
      using heap_inv_do_op [OF Cons.prems True assms] by blast
    then show ?thesis
      using Cons.IH [OF h1(2)] request_inv_do_op [OF Cons.prems True assms h1(1)] True by simp
  qed (use Cons in simp)
qed simp

lemma state_can_be_cancelled_counts:
  assumes inv: "heap_inv N h" and N: "N < 2 ^ 31" and lv: "live h a" and a: "a \<noteq> 0"
  shows "state_can_be_cancelled h a \<longleftrightarrow>
    0 < count N h Source a \<or> m_state h a AND (requested_flag OR notification_complete_flag) \<noteq> 0"
proof -
  have bnd: "count N h j b < 2 ^ 31" for j b using count_le [of N h j b] N by simp
  obtain f where f: "f < 4" "m_state h a = counted f (count N h Source a) (count N h Token a)"
    using heap_inv_counted [OF inv lv a] by blast
  have "state_can_be_cancelled h a \<longleftrightarrow> \<not> unat (counted f (count N h Source a) 0) = 0"
    unfolding state_can_be_cancelled_def f(2) counted_masks(3) [OF f(1) bnd bnd]
    by (simp only: unat_eq_0)
  also have "\<dots> \<longleftrightarrow> f \<noteq> 0 \<or> 0 < count N h Source a"
    using unat_counted [OF f(1) bnd, of 0 Source a] by auto
  finally have 1: "state_can_be_cancelled h a \<longleftrightarrow> f \<noteq> 0 \<or> 0 < count N h Source a" .
  have "counted f (count N h Source a) (count N h Token a) AND (requested_flag OR notification_complete_flag)
     = of_nat f"
    using counted_low [OF f(1) bnd bnd] .
  then have "m_state h a AND (requested_flag OR notification_complete_flag) = of_nat f"
    by (simp only: f(2))
  moreover have "(of_nat f :: u64) = 0 \<longleftrightarrow> f = 0"
    using f(1) by (simp add: word_unat_eq_iff unat_of_nat)
  ultimately show ?thesis using 1 by auto
qed

lemma count_pos_iff: "0 < count N h k a \<longleftrightarrow> (\<exists>i<N. handle h k i = a)"
proof
  assume pos: "0 < count N h k a"
  have "count N h k a = 0" if "\<forall>i<N. handle h k i \<noteq> a" using that by (simp add: count_def)
  with pos have "\<not> (\<forall>i<N. handle h k i \<noteq> a)" by fastforce
  then show "\<exists>i<N. handle h k i = a" by blast
qed (use count_pos in blast)

text \<open>The addresses referred to by handles.\<close>

definition referred :: "nat \<Rightarrow> heap \<Rightarrow> nat set" where
  "referred N h = {a. a \<noteq> 0 \<and> (\<exists>k. \<exists>i<N. handle h k i = a)}"

lemma heap_inv_referred:
  assumes "heap_inv N h"
  shows "{a. a \<noteq> 0 \<and> live h a} = referred N h"
proof -
  have "live h a \<longleftrightarrow> (\<exists>k. \<exists>i<N. handle h k i = a)" if "a \<noteq> 0" for a
  proof -
    have "live h a \<longleftrightarrow> 0 < count N h Source a \<or> 0 < count N h Token a"
      using heap_inv_ok [OF assms that] by (simp add: state_ok_def)
    also have "\<dots> \<longleftrightarrow> (\<exists>k. \<exists>i<N. handle h k i = a)"
    proof -
      have "(\<exists>k. P k) \<longleftrightarrow> P Source \<or> P Token" for P using kind.exhaust by metis
      then show ?thesis by (simp only: count_pos_iff)
    qed
    finally show ?thesis .
  qed
  then show ?thesis unfolding referred_def by blast
qed

section \<open>Properties\<close>

text \<open>
  A program whose callback destroys the only source and the registration that it belongs to:
  \<open>deregister_callback\<close> does not wait on the notifying thread, so nothing refers to the state when
  the request comes back to it.
\<close>

definition callback_destroys_all :: "handle_op list" where
  "callback_destroys_all =
     [New_source 0, Get_token 0 0, Register 1 0 True, Request 0, Scan 1,
      Destroy Source 0, Destroy Token 1, Complete 1 True]"

lemmas handle_run_defs = op_allowed_def heap_init_def source_new_def source_token_def attach_def detach_def
  add_ref_def release_ref_def registration_take_def handle_move_def state_can_be_cancelled_def source_request_def
  state_request_def state_scan_def state_complete_def set_handle_def Let_def

lemma one_source_one_token:
  "source_ref_increment + token_ref_increment AND can_be_cancelled_mask \<noteq> 0"
  "source_ref_increment + token_ref_increment AND requested_flag = 0"
  "(source_ref_increment + token_ref_increment OR requested_flag) AND ref_count_mask \<noteq> source_ref_increment"
  "(source_ref_increment + token_ref_increment OR requested_flag) - source_ref_increment AND ref_count_mask =
    token_ref_increment"
proof -
  have w: "source_ref_increment + token_ref_increment = counted 0 1 1"
    by (simp add: counted_def source_ref_increment_def token_ref_increment_def push_bit_eq_mult)
  have r: "counted 0 1 1 OR requested_flag = counted 1 1 1" using counted_or_requested(1) [of 0 1 1] by simp
  have d: "counted 1 1 1 - source_ref_increment = counted 1 0 1" using counted_sub(1) [of 1 0 1] by simp
  show "source_ref_increment + token_ref_increment AND can_be_cancelled_mask \<noteq> 0"
    using counted_masks(3) [of 0 1 1] unat_counted [of 0 1 0] by (auto simp: w)
  show "source_ref_increment + token_ref_increment AND requested_flag = 0"
    using counted_masks(4) [of 0 1 1] by (simp add: w)
  show "(source_ref_increment + token_ref_increment OR requested_flag) AND ref_count_mask \<noteq> source_ref_increment"
    unfolding w r using counted_last(1) [of 1 1 1] by simp
  show "(source_ref_increment + token_ref_increment OR requested_flag) - source_ref_increment AND ref_count_mask =
    token_ref_increment"
    unfolding w r d using counted_last(2) [of 1 0 1] by simp
qed

lemma callback_destroys_all_fault: "run_ops 2 False callback_destroys_all heap_init = None"
  by (simp add: callback_destroys_all_def handle_run_defs one_source_one_token)

text \<open>
  C27. However sources, tokens and registrations are created, copied, moved, assigned, swapped,
  destroyed and asked to cancel (fewer than \<open>2 ^ 31\<close> of each kind), also in callbacks and on other
  threads while requests are at work, no operation and no request touches a deleted state, and at
  every moment exactly the states some handle refers to are allocated: nothing leaks and nothing
  is freed too early. The condition is that the last reference to a state is not given up while
  the first request on it is at work. It is needed: a callback that destroys the source and its
  own registration makes the request touch a deleted state.
\<close>

theorem handles_own_states:
  assumes "N < 2 ^ 31"
  shows "(\<exists>h. run_ops N True ps heap_init = Some h \<and> {a. a \<noteq> 0 \<and> live h a} = referred N h) \<and>
    run_ops 2 False callback_destroys_all heap_init = None"
proof
  show "\<exists>h. run_ops N True ps heap_init = Some h \<and> {a. a \<noteq> 0 \<and> live h a} = referred N h"
    using heap_inv_run_ops [OF assms heap_inv_init request_inv_init, of ps] heap_inv_referred by blast
  show "run_ops 2 False callback_destroys_all heap_init = None" by (rule callback_destroys_all_fault)
qed

theorem handles_own_states_witness:
  "\<exists>h. run_ops 2 True [New_source 0, Get_token 0 1, Request 0, Destroy Token 1, Complete 1 False, Destroy Source 0]
      heap_init = Some h \<and> {a. a \<noteq> 0 \<and> live h a} = referred 2 h"
  by (rule conjunct1 [OF handles_own_states]) simp

text \<open>
  A token can be cancelled if and only if cancellation was requested already (a flag is set)
  or some source still refers to its state.
\<close>

theorem token_can_be_cancelled_iff:
  assumes "N < 2 ^ 31" "run_ops N True ps heap_init = Some h" "t < N" "handle h Token t = a" "a \<noteq> 0"
  shows "token_can_be_cancelled t h \<longleftrightarrow>
    (\<exists>i<N. handle h Source i = a) \<or> m_state h a AND (requested_flag OR notification_complete_flag) \<noteq> 0"
proof -
  have inv: "heap_inv N h" using heap_inv_run_ops [OF assms(1) heap_inv_init request_inv_init, of ps] assms(2) by auto
  show ?thesis
    using state_can_be_cancelled_counts [OF inv assms(1) heap_inv_live [OF inv assms(3,4,5)] assms(5)]
      assms(4,5) by (simp add: token_can_be_cancelled_def count_pos_iff)
qed

definition demo_heap :: heap where
  "demo_heap = the (run_ops 2 True [New_source 0, Get_token 0 0] heap_init)"

lemma demo_run: "run_ops 2 True [New_source 0, Get_token 0 0] heap_init = Some demo_heap"
  by (simp add: demo_heap_def op_allowed_def drops_requested_def heap_init_def source_new_def source_token_def attach_def
      add_ref_def)

theorem token_can_be_cancelled_iff_witness:
  "token_can_be_cancelled 0 demo_heap \<longleftrightarrow> (\<exists>i<2. handle demo_heap Source i = 1) \<or>
    m_state demo_heap 1 AND (requested_flag OR notification_complete_flag) \<noteq> 0"
  by (rule token_can_be_cancelled_iff [OF _ demo_run])
    (simp_all add: demo_heap_def op_allowed_def drops_requested_def heap_init_def source_new_def source_token_def
      attach_def add_ref_def)

end
