(* ===== verification/Ipv4_Address.thy ===== *)
theory Ipv4_Address
  imports Coro_Prelude "HOL-Library.Char_ord"
begin

text \<open>
  include/coro/net/ipv4_address.h and ipv4_endpoint.h: addresses of four bytes, their integers,
  order, parser and printer, and endpoints. A string is a list of characters and the part of it
  from \<open>pos\<close> on is a list too, so \<open>pos < length\<close> is that this list is not empty. \<open>std::isdigit\<close>
  is the C locale's.
\<close>

section \<open>Characters and decimal numbers\<close>

definition isdigit :: "char \<Rightarrow> bool" where
  "isdigit c \<longleftrightarrow> 48 \<le> (of_char c :: nat) \<and> (of_char c :: nat) \<le> 57"

definition digit_value :: "char \<Rightarrow> u8" where
  "digit_value c = of_char c - 48"

text \<open>\<open>'0' + d\<close>\<close>

definition digit_char :: "nat \<Rightarrow> char" where
  "digit_char d = char_of (48 + d)"

text \<open>\<open>std::to_string\<close> of an unsigned integer, and the number that digits stand for.\<close>

fun nat_string :: "nat \<Rightarrow> string" where
  "nat_string n = (if n < 10 then [digit_char n] else nat_string (n div 10) @ [digit_char (n mod 10)])"

declare nat_string.simps [simp del]

definition digits_value :: "nat \<Rightarrow> string \<Rightarrow> nat" where
  "digits_value = foldl (\<lambda>v c. v * 10 + unat (digit_value c))"

definition starts_digit :: "string \<Rightarrow> bool" where
  "starts_digit s \<longleftrightarrow> (case s of [] \<Rightarrow> False | c # _ \<Rightarrow> isdigit c)"

section \<open>Addresses\<close>

datatype ipv4_address = Ipv4 (byte0: u8) (byte1: u8) (byte2: u8) (byte3: u8)

definition ipv4_of_integer :: "u32 \<Rightarrow> ipv4_address" where
  "ipv4_of_integer integer = Ipv4 (ucast (drop_bit 24 integer)) (ucast (drop_bit 16 integer))
     (ucast (drop_bit 8 integer)) (ucast integer)"

definition ipv4_to_integer :: "ipv4_address \<Rightarrow> u32" where
  "ipv4_to_integer a = push_bit 24 (ucast (byte0 a)) OR push_bit 16 (ucast (byte1 a)) OR
     push_bit 8 (ucast (byte2 a)) OR ucast (byte3 a)"

definition ipv4_loopback :: ipv4_address where
  "ipv4_loopback = Ipv4 127 0 0 1"

definition ipv4_is_loopback :: "ipv4_address \<Rightarrow> bool" where
  "ipv4_is_loopback a \<longleftrightarrow> byte0 a = 127"

definition is_private_network :: "ipv4_address \<Rightarrow> bool" where
  "is_private_network a \<longleftrightarrow> byte0 a = 10 \<or> (byte0 a = 172 \<and> byte1 a AND 0xF0 = 0x10) \<or>
     (byte0 a = 192 \<and> byte2 a = 168)"

definition ipv4_address_less :: "ipv4_address \<Rightarrow> ipv4_address \<Rightarrow> bool" where
  "ipv4_address_less a b \<longleftrightarrow> ipv4_to_integer a < ipv4_to_integer b"

definition ipv4_address_less_eq :: "ipv4_address \<Rightarrow> ipv4_address \<Rightarrow> bool" where
  "ipv4_address_less_eq a b \<longleftrightarrow> \<not> ipv4_to_integer b < ipv4_to_integer a"

text \<open>The operators of the class are the operators of the order class.\<close>

instantiation ipv4_address :: ord
begin

definition less_ipv4_address :: "ipv4_address \<Rightarrow> ipv4_address \<Rightarrow> bool" where
  "less_ipv4_address a b \<longleftrightarrow> ipv4_address_less a b"

definition less_eq_ipv4_address :: "ipv4_address \<Rightarrow> ipv4_address \<Rightarrow> bool" where
  "less_eq_ipv4_address a b \<longleftrightarrow> ipv4_address_less_eq a b"

instance ..

end

section \<open>Parsing\<close>

text \<open>
  The loop over the digits of the first integer: \<open>None\<close> when it would overflow 32 bits, else the
  integer and what is left.
\<close>

fun first_integer :: "u32 \<Rightarrow> string \<Rightarrow> (u32 \<times> string) option" where
  "first_integer part_value [] = Some (part_value, [])"
| "first_integer part_value (c # s) =
     (if \<not> isdigit c then Some (part_value, c # s)
      else if part_value > 0xFFFFFFFF div 10 \<or>
          (part_value = 0xFFFFFFFF div 10 \<and> ucast (digit_value c) > (0xFFFFFFFF mod 10 :: u32)) then None
      else first_integer (part_value * 10 + ucast (digit_value c)) s)"

text \<open>One more dotted part: \<open>None\<close> when it is malformed, else its value and what is left.\<close>

fun dotted_digits :: "char \<Rightarrow> string \<Rightarrow> (u32 \<times> string) option" where
  "dotted_digits c s =
     (let v1 = ucast (digit_value c) in
      case s of
        d # s2 \<Rightarrow>
          if isdigit d then
            (let v2 = v1 * 10 + ucast (digit_value d) in
             case s2 of
               e # s3 \<Rightarrow>
                 if isdigit e then
                   (let v3 = v2 * 10 + ucast (digit_value e) in if v3 > 255 then None else Some (v3, s3))
                 else Some (v2, s2)
             | [] \<Rightarrow> Some (v2, s2))
          else Some (v1, s)
      | [] \<Rightarrow> Some (v1, s))"

definition dotted_part :: "string \<Rightarrow> (u8 \<times> string) option" where
  "dotted_part s =
     (case s of
        p # c # rest \<Rightarrow>
          if p \<noteq> CHR ''.'' \<or> \<not> isdigit c then None
          else if c = CHR ''0'' \<and> starts_digit rest then None
          else map_option (\<lambda>(v, r). (ucast v, r)) (dotted_digits c rest)
      | _ \<Rightarrow> None)"

definition ipv4_from_string :: "string \<Rightarrow> ipv4_address option" where
  "ipv4_from_string s =
     (case s of
        [] \<Rightarrow> None
      | c # rest \<Rightarrow>
          if \<not> isdigit c then None
          else if c = CHR ''0'' \<and> (starts_digit rest \<or> (rest \<noteq> [] \<and> hd rest = CHR ''x'')) then None
          else (case first_integer (ucast (digit_value c)) rest of
                  None \<Rightarrow> None
                | Some (part_value, rest) \<Rightarrow>
                    if rest = [] then Some (ipv4_of_integer part_value)
                    else if part_value > 255 then None
                    else (case dotted_part rest of
                            None \<Rightarrow> None
                          | Some (b1, rest) \<Rightarrow>
                              (case dotted_part rest of
                                 None \<Rightarrow> None
                               | Some (b2, rest) \<Rightarrow>
                                   (case dotted_part rest of
                                      None \<Rightarrow> None
                                    | Some (b3, rest) \<Rightarrow>
                                        if rest \<noteq> [] then None
                                        else Some (Ipv4 (ucast part_value) b1 b2 b3))))))"

section \<open>Printing\<close>

definition byte_string :: "u8 \<Rightarrow> string" where
  "byte_string b = (let n = unat b in
     if n \<ge> 100 then [digit_char (n div 100), digit_char (n mod 100 div 10), digit_char (n mod 10)]
     else if n \<ge> 10 then [digit_char (n div 10), digit_char (n mod 10)]
     else [digit_char n])"

definition ipv4_to_string :: "ipv4_address \<Rightarrow> string" where
  "ipv4_to_string a = byte_string (byte0 a) @ CHR ''.'' # byte_string (byte1 a) @ CHR ''.'' #
     byte_string (byte2 a) @ CHR ''.'' # byte_string (byte3 a)"

section \<open>Digits\<close>

lemma of_char_digit: "d < 10 \<Longrightarrow> (of_char (digit_char d) :: nat) = 48 + d"
  by (simp add: digit_char_def)

lemma isdigit_digit_char [simp]: "d < 10 \<Longrightarrow> isdigit (digit_char d)"
  by (simp add: isdigit_def of_char_digit)

lemma digit_value_nat: "isdigit c \<Longrightarrow> unat (digit_value c) = of_char c - (48 :: nat)"
proof -
  assume c: "isdigit c"
  have "(of_char c :: u8) = of_nat (of_char c)" by (simp only: of_nat_of_char)
  with c show ?thesis
    by (simp add: digit_value_def isdigit_def unat_sub word_le_nat_alt unat_of_nat)
qed

lemma digit_value_digit_char [simp]: "d < 10 \<Longrightarrow> unat (digit_value (digit_char d)) = d"
  by (simp add: digit_value_nat of_char_digit)

lemma digit_value_less: "isdigit c \<Longrightarrow> unat (digit_value c) < 10"
  by (simp only: digit_value_nat isdigit_def) linarith

lemma digit_char_value [simp]: "isdigit c \<Longrightarrow> digit_char (unat (digit_value c)) = c"
  by (simp add: digit_value_nat digit_char_def isdigit_def)

lemma zero_digit: "digit_char 0 = CHR ''0''"
  by (rule of_char_eqI [where 'a = nat]) (simp only: of_char_digit zero_less_numeral, simp)

lemma digit_char_zero: "d < 10 \<Longrightarrow> digit_char d = CHR ''0'' \<longleftrightarrow> d = 0"
  using of_char_digit [of d] of_char_digit [of 0] zero_digit by auto

lemma digits_value_simps [simp]:
  "digits_value v [] = v"
  "digits_value v (c # s) = digits_value (v * 10 + unat (digit_value c)) s"
  "digits_value v (s @ t) = digits_value (digits_value v s) t"
  by (simp_all add: digits_value_def)

lemma digits_value_ge: "v \<le> digits_value v s"
proof (induction s arbitrary: v)
  case (Cons c s)
  have "v \<le> v * 10 + unat (digit_value c)" by simp
  also have "\<dots> \<le> digits_value (v * 10 + unat (digit_value c)) s" by (rule Cons)
  finally show ?case by simp
qed simp

lemma nat_string_small: "n < 10 \<Longrightarrow> nat_string n = [digit_char n]"
  by (simp add: nat_string.simps)

lemma nat_string_snoc: "0 < v \<Longrightarrow> d < 10 \<Longrightarrow> nat_string (v * 10 + d) = nat_string v @ [digit_char d]"
  by (subst nat_string.simps) simp

lemma nat_string_digits:
  "0 < v \<Longrightarrow> list_all isdigit ds \<Longrightarrow> nat_string (digits_value v ds) = nat_string v @ ds"
proof (induction ds arbitrary: v)
  case (Cons c ds)
  then show ?case by (simp add: nat_string_snoc digit_value_less)
qed simp

lemma nat_string_isdigit: "list_all isdigit (nat_string n)"
proof (induction n rule: nat_string.induct)
  case (1 n)
  show ?case
  proof (cases "n < 10")
    case False
    then show ?thesis using 1 by (subst nat_string.simps) simp
  qed (simp add: nat_string_small)
qed

lemma digits_value_nat_string: "digits_value 0 (nat_string n) = n"
proof (induction n rule: nat_string.induct)
  case (1 n)
  show ?case
  proof (cases "n < 10")
    case False
    then show ?thesis using 1 by (subst nat_string.simps) simp
  qed (simp add: nat_string_small)
qed

lemma nat_string_inj: "nat_string m = nat_string n \<Longrightarrow> m = n"
  by (metis digits_value_nat_string)

lemma nat_string_Cons:
  "\<exists>c t. nat_string n = c # t \<and> isdigit c \<and> list_all isdigit t \<and>
    digits_value (unat (digit_value c)) t = n \<and> (c = CHR ''0'' \<longrightarrow> t = [])"
proof -
  have "\<exists>c t. nat_string n = c # t \<and> (c = CHR ''0'' \<longrightarrow> t = [])"
  proof (induction n rule: nat_string.induct)
    case (1 n)
    show ?case
    proof (cases "n < 10")
      case False
      with 1 obtain c t where ct: "nat_string (n div 10) = c # t" "c = CHR ''0'' \<longrightarrow> t = []" by blast
      have "c \<noteq> CHR ''0''"
      proof
        assume "c = CHR ''0''"
        then have "nat_string (n div 10) = nat_string 0" using ct by (simp add: nat_string_small zero_digit)
        then have "n div 10 = 0" by (rule nat_string_inj)
        then show False using False by simp
      qed
      then show ?thesis using ct False by (subst nat_string.simps) simp
    qed (simp add: nat_string_small)
  qed
  then show ?thesis using nat_string_isdigit [of n] digits_value_nat_string [of n] by auto
qed

section \<open>The first integer\<close>

lemma no_overflow:
  assumes "unat d < 10"
  shows "\<not> (v > 0xFFFFFFFF div 10 \<or> (v = 0xFFFFFFFF div 10 \<and> d > (0xFFFFFFFF mod 10 :: u32))) \<longleftrightarrow>
    unat v * 10 + unat d < 2 ^ 32"
    and "unat v * 10 + unat d < 2 ^ 32 \<Longrightarrow> unat (v * 10 + d) = unat v * 10 + unat d"
proof -
  have "v > 0xFFFFFFFF div 10 \<longleftrightarrow> 429496729 < unat v" "v = 0xFFFFFFFF div 10 \<longleftrightarrow> unat v = 429496729"
    "d > (0xFFFFFFFF mod 10 :: u32) \<longleftrightarrow> 5 < unat d"
    by (simp_all add: word_less_nat_alt word_unat_eq_iff unat_div_distrib unat_mod_distrib)
  then show "\<not> (v > 0xFFFFFFFF div 10 \<or> (v = 0xFFFFFFFF div 10 \<and> d > (0xFFFFFFFF mod 10 :: u32))) \<longleftrightarrow>
    unat v * 10 + unat d < 2 ^ 32"
    using assms by auto
  show "unat (v * 10 + d) = unat v * 10 + unat d" if "unat v * 10 + unat d < 2 ^ 32"
    using that by (simp add: unat_word_ariths)
qed

lemma unat_ucast_digit [simp]: "unat (ucast (b :: u8) :: u32) = unat b"
  by (simp add: unsigned_ucast_eq take_bit_nat_eq_self less_le_trans [OF unsigned_less])

lemma first_integer_Cons:
  assumes "isdigit c"
  shows "first_integer v (c # s) =
    (if unat v * 10 + unat (digit_value c) < 2 ^ 32
     then first_integer (v * 10 + ucast (digit_value c)) s else None)"
proof -
  have "unat (ucast (digit_value c) :: u32) < 10" using digit_value_less [OF assms] by simp
  from no_overflow(1) [OF this, of v] show ?thesis
    unfolding first_integer.simps(2) using assms by (simp only: unat_ucast_digit) argo
qed

lemma step_value:
  assumes "isdigit c" "unat v * 10 + unat (digit_value c) < 2 ^ 32"
  shows "unat (v * 10 + ucast (digit_value c) :: u32) = unat v * 10 + unat (digit_value c)"
  using no_overflow(2) [of "ucast (digit_value c)" v] assms digit_value_less [OF assms(1)] by simp

lemma first_integer_run:
  assumes "list_all isdigit ds" "digits_value (unat v) ds < 2 ^ 32" "\<not> starts_digit r"
  shows "first_integer v (ds @ r) = Some (of_nat (digits_value (unat v) ds), r)"
  using assms(1,2)
proof (induction ds arbitrary: v)
  case Nil
  then show ?case using assms(3) by (cases r) (simp_all add: starts_digit_def)
next
  case (Cons c ds)
  then have c: "isdigit c" by simp
  have lt: "unat v * 10 + unat (digit_value c) < 2 ^ 32"
    using Cons.prems(2) digits_value_ge le_less_trans by (metis digits_value_simps(2))
  show ?case
    using Cons.IH [of "v * 10 + ucast (digit_value c)"] Cons.prems
    by (simp add: first_integer_Cons [OF c] step_value [OF c lt] lt [simplified]
        del: first_integer.simps)
qed

lemma first_integer_digits:
  assumes "first_integer v s = Some (w, r)"
  shows "\<exists>ds. s = ds @ r \<and> list_all isdigit ds \<and> unat w = digits_value (unat v) ds \<and> \<not> starts_digit r"
  using assms
proof (induction s arbitrary: v)
  case Nil
  then show ?case by (simp add: starts_digit_def)
next
  case (Cons c s)
  show ?case
  proof (cases "isdigit c")
    case False
    then show ?thesis using Cons.prems by (auto simp: starts_digit_def)
  next
    case True
    then have lt: "unat v * 10 + unat (digit_value c) < 2 ^ 32"
      and run: "first_integer (v * 10 + ucast (digit_value c)) s = Some (w, r)"
      using Cons.prems by (simp_all add: first_integer_Cons del: first_integer.simps split: if_splits)
    from Cons.IH [OF run] obtain ds where ds: "s = ds @ r" "list_all isdigit ds" "\<not> starts_digit r"
      "unat w = digits_value (unat v * 10 + unat (digit_value c)) ds"
      using step_value [OF True lt] by auto
    then show ?thesis using True by (intro exI [of _ "c # ds"]) simp
  qed
qed

text \<open>The first digit, which is not a zero before another digit, and the loop.\<close>

lemma leading_integer_run:
  assumes "nat_string n = c # t" "n < 2 ^ 32" "\<not> starts_digit r"
  shows "first_integer (ucast (digit_value c)) (t @ r) = Some (of_nat n, r)"
  using first_integer_run [of t "ucast (digit_value c)" r] nat_string_Cons [of n] assms by auto

lemma leading_integer_digits:
  assumes "isdigit c" "c = CHR ''0'' \<Longrightarrow> \<not> starts_digit s"
    and run: "first_integer (ucast (digit_value c)) s = Some (w, r)"
  shows "c # s = nat_string (unat w) @ r \<and> \<not> starts_digit r"
proof -
  obtain ds where ds: "s = ds @ r" "list_all isdigit ds" "\<not> starts_digit r"
    "unat w = digits_value (unat (digit_value c)) ds"
    using first_integer_digits [OF run] by auto
  have "nat_string (unat w) = c # ds"
  proof (cases "unat (digit_value c) = 0")
    case True
    then have "c = CHR ''0''" using digit_char_value [OF assms(1)] zero_digit by simp
    with assms(2) ds have "ds = []" by (cases ds) (simp_all add: starts_digit_def)
    then show ?thesis using ds assms(1) digit_value_less by (simp add: nat_string_small)
  next
    case False
    then show ?thesis
      using nat_string_digits [OF _ ds(2), of "unat (digit_value c)"] ds assms(1) digit_value_less
      by (simp add: nat_string_small)
  qed
  then show ?thesis using ds by simp
qed

section \<open>Dotted parts\<close>

lemma byte_string_nat_string: "byte_string b = nat_string (unat b)"
proof -
  have lt: "unat b < 256" using unsigned_less [of b] by simp
  consider "unat b < 10" | "10 \<le> unat b" "unat b < 100" | "100 \<le> unat b" by linarith
  then show ?thesis
  proof cases
    case 3
    then have "nat_string (unat b div 10) = [digit_char (unat b div 100), digit_char (unat b div 10 mod 10)]"
      using lt by (subst nat_string.simps) (simp add: nat_string_small div_mult2_eq [symmetric])
    moreover have "unat b div 10 mod 10 = unat b mod 100 div 10"
      using mod_mult2_eq [of "unat b" 10 10] by simp
    ultimately show ?thesis
      using 3 by (subst nat_string.simps) (simp add: byte_string_def Let_def)
  qed (simp_all add: byte_string_def Let_def nat_string_small nat_string.simps [of "unat b"])
qed

lemma widen_narrow [simp]: "ucast (ucast (b :: u8) :: u32) = b"
  by (rule bit_eqI) (simp add: bit_simps)

lemma value_add [simp]:
  "isdigit c \<Longrightarrow> isdigit d \<Longrightarrow> unat (ucast (digit_value c) * 10 + ucast (digit_value d) :: u32)
    = unat (digit_value c) * 10 + unat (digit_value d)"
  "isdigit c \<Longrightarrow> isdigit d \<Longrightarrow> isdigit e \<Longrightarrow>
    unat ((ucast (digit_value c) * 10 + ucast (digit_value d)) * 10 + ucast (digit_value e) :: u32)
    = (unat (digit_value c) * 10 + unat (digit_value d)) * 10 + unat (digit_value e)"
  using digit_value_less [of c] digit_value_less [of d] digit_value_less [of e]
  by (simp_all add: unat_word_ariths)

text \<open>A dotted part takes at most three digits, as the first integer's loop would.\<close>

lemma dotted_digits_result:
  assumes "isdigit c" "c = CHR ''0'' \<Longrightarrow> \<not> starts_digit s" "dotted_digits c s = Some (v, r)"
  shows "unat v < 256 \<and> c # s = nat_string (unat v) @ r"
proof -
  have nat: "nat_string (digits_value (unat (digit_value c)) ds) = c # ds"
    if "list_all isdigit ds" "c = CHR ''0'' \<longrightarrow> ds = []" for ds
  proof (cases "unat (digit_value c) = 0")
    case True
    then have "c = CHR ''0''" using digit_char_value [OF assms(1)] zero_digit by simp
    then show ?thesis using that assms(1) digit_value_less by (simp add: nat_string_small)
  next
    case False
    then show ?thesis using nat_string_digits [OF _ that(1), of "unat (digit_value c)"]
      assms(1) digit_value_less by (simp add: nat_string_small)
  qed
  show ?thesis
  proof (cases "starts_digit s")
    case False
    then have "v = ucast (digit_value c)" "r = s"
      using assms(3) by (auto simp: starts_digit_def Let_def split: list.splits)
    then show ?thesis using nat [of "[]"] digit_value_less [OF assms(1)] by simp
  next
    case True
    then obtain d s2 where s: "s = d # s2" "isdigit d" by (cases s) (simp_all add: starts_digit_def)
    have c0: "c \<noteq> CHR ''0''" using True assms(2) by blast
    show ?thesis
    proof (cases "starts_digit s2")
      case False
      then have "v = ucast (digit_value c) * 10 + ucast (digit_value d)" "r = s2"
        using assms(3) s by (auto simp: starts_digit_def Let_def split: list.splits)
      then show ?thesis
        using nat [of "[d]"] s c0 assms(1) digit_value_less [of c] digit_value_less [of d] by simp
    next
      case s2: True
      then obtain e s3 where e: "s2 = e # s3" "isdigit e" by (cases s2) (simp_all add: starts_digit_def)
      have "v = (ucast (digit_value c) * 10 + ucast (digit_value d)) * 10 + ucast (digit_value e)"
        "r = s3" "\<not> v > 255"
        using assms(3) s e by (auto simp: Let_def split: if_splits)
      then have "unat v < 256" "unat v = digits_value (unat (digit_value c)) [d, e]"
        using value_add(2) [of c d e] assms(1) s e
        by (simp_all only: digits_value_simps word_less_nat_alt) simp_all
      then show ?thesis using nat [of "[d, e]"] s e c0 \<open>r = s3\<close> by simp
    qed
  qed
qed

lemma byte_string_length: "length (byte_string b) \<le> 3"
  by (simp add: byte_string_def Let_def)

lemma unat_of_nat_byte: "n < 256 \<Longrightarrow> unat (of_nat n :: u8) = n"
  by (simp add: unat_of_nat)

lemma dotted_digits_run:
  assumes "nat_string n = c # t" "n < 256" "\<not> starts_digit r"
  shows "dotted_digits c (t @ r) = Some (of_nat n, r)"
proof -
  have ct: "isdigit c" "list_all isdigit t" "digits_value (unat (digit_value c)) t = n"
    using nat_string_Cons [of n] assms(1) by auto
  have eq: "v = (of_nat n :: u32)" if "unat v = n" for v
    using that assms(2) by (simp add: word_unat_eq_iff unat_of_nat)
  have "length (nat_string n) \<le> 3"
    using byte_string_length [of "of_nat n"]
    by (simp only: byte_string_nat_string unat_of_nat_byte [OF assms(2)])
  then have len: "length t \<le> 2" using assms(1) by simp
  then consider "t = []" | d where "t = [d]" | d e where "t = [d, e]"
    by (cases t; cases "tl t"; cases "tl (tl t)") auto
  then show ?thesis
  proof cases
    case 1
    then show ?thesis using ct assms(3) eq [of "ucast (digit_value c)"]
      by (cases r) (simp_all add: starts_digit_def)
  next
    case 2
    then show ?thesis
      using ct assms(3) eq [of "ucast (digit_value c) * 10 + ucast (digit_value d)"]
      by (cases r) (simp_all add: starts_digit_def)
  next
    case 3
    let ?v = "(ucast (digit_value c) * 10 + ucast (digit_value d)) * 10 + ucast (digit_value e) :: u32"
    have "isdigit d" "isdigit e" using 3 ct by simp_all
    with ct 3 have v: "unat ?v = n" using value_add(2) [of c d e] by (simp only: digits_value_simps)
    then have "\<not> ?v > 255" using assms(2) by (simp add: word_less_nat_alt)
    then show ?thesis using 3 ct eq [OF v] by (simp add: Let_def)
  qed
qed

lemma dotted_part_result:
  assumes "dotted_part s = Some (b, r)"
  shows "s = CHR ''.'' # byte_string b @ r"
proof -
  obtain c rest v where s: "s = CHR ''.'' # c # rest" "isdigit c" "b = ucast v"
    "c = CHR ''0'' \<longrightarrow> \<not> starts_digit rest" and run: "dotted_digits c rest = Some (v, r)"
    using assms by (auto simp: dotted_part_def split: list.splits if_splits)
  have "unat v < 256 \<and> c # rest = nat_string (unat v) @ r"
    by (rule dotted_digits_result [OF s(2) _ run]) (use s(4) in blast)
  moreover from this have "unat b = unat v" using s(3) by (simp add: unsigned_ucast_eq take_bit_nat_eq_self)
  ultimately show ?thesis using s(1) by (simp add: byte_string_nat_string)
qed

lemma dotted_part_run:
  assumes "\<not> starts_digit r"
  shows "dotted_part (CHR ''.'' # byte_string b @ r) = Some (b, r)"
proof -
  obtain c t where ct: "nat_string (unat b) = c # t" "isdigit c" "c = CHR ''0'' \<longrightarrow> t = []"
    using nat_string_Cons [of "unat b"] by blast
  have "dotted_digits c (t @ r) = Some (of_nat (unat b), r)"
    using dotted_digits_run [OF ct(1) _ assms] unsigned_less [of b] by simp
  then show ?thesis
    using ct assms by (auto simp: dotted_part_def byte_string_nat_string)
qed

section \<open>The whole parser\<close>

lemma starts_digit_byte_string [simp]: "starts_digit (byte_string b @ r)"
  using nat_string_Cons [of "unat b"] by (auto simp: starts_digit_def byte_string_nat_string)

lemma starts_digit_simps [simp]:
  "starts_digit [] = False" "starts_digit (c # s) = isdigit c"
  by (simp_all add: starts_digit_def)

lemma not_isdigit_dot [simp]: "\<not> isdigit CHR ''.''" "\<not> isdigit CHR '':''" "\<not> isdigit CHR ''x''"
  "\<not> isdigit CHR ''[''"
  by (simp_all add: isdigit_def)

lemma ipv4_parses_dotted: "ipv4_from_string (ipv4_to_string a) = Some a"
proof -
  define r where "r = CHR ''.'' # byte_string (byte1 a) @ CHR ''.'' # byte_string (byte2 a) @
    CHR ''.'' # byte_string (byte3 a)"
  obtain c t where ct: "nat_string (unat (byte0 a)) = c # t" "isdigit c" "c = CHR ''0'' \<longrightarrow> t = []"
    using nat_string_Cons [of "unat (byte0 a)"] by blast
  have lt: "unat (byte0 a) < 256" using unsigned_less [of "byte0 a"] by simp
  then have v: "\<not> (of_nat (unat (byte0 a)) :: u32) > 255"
    by (simp add: word_less_nat_alt unat_of_nat)
  have "first_integer (ucast (digit_value c)) (t @ r) = Some (of_nat (unat (byte0 a)), r)"
    using leading_integer_run [OF ct(1)] lt by (simp add: r_def)
  moreover have "dotted_part r = Some (byte1 a, CHR ''.'' # byte_string (byte2 a) @ CHR ''.'' # byte_string (byte3 a))"
    unfolding r_def by (rule dotted_part_run) simp
  moreover have "dotted_part (CHR ''.'' # byte_string (byte2 a) @ CHR ''.'' # byte_string (byte3 a))
      = Some (byte2 a, CHR ''.'' # byte_string (byte3 a))"
    by (rule dotted_part_run) simp
  moreover have "dotted_part (CHR ''.'' # byte_string (byte3 a)) = Some (byte3 a, [])"
    using dotted_part_run [of "[]" "byte3 a"] by simp
  moreover have "ipv4_to_string a = c # t @ r"
    using ct by (simp add: ipv4_to_string_def byte_string_nat_string [of "byte0 a"] r_def)
  moreover have "c = CHR ''0'' \<Longrightarrow> \<not> starts_digit (t @ r) \<and> hd (t @ r) \<noteq> CHR ''x''"
    using ct by (simp add: r_def)
  moreover have "r \<noteq> []" by (simp add: r_def)
  ultimately show ?thesis using ct v by (simp add: ipv4_from_string_def)
qed

lemma ipv4_parses_integer: "ipv4_from_string (nat_string (unat n)) = Some (ipv4_of_integer n)"
proof -
  obtain c t where ct: "nat_string (unat n) = c # t" "isdigit c" "c = CHR ''0'' \<longrightarrow> t = []"
    using nat_string_Cons [of "unat n"] by blast
  have "first_integer (ucast (digit_value c)) t = Some (n, [])"
    using leading_integer_run [OF ct(1), of "[]"] unsigned_less [of n] by simp
  then show ?thesis using ct by (simp add: ipv4_from_string_def)
qed

lemma ipv4_parsed:
  assumes "ipv4_from_string s = Some a"
  shows "s = ipv4_to_string a \<or> (\<exists>n. s = nat_string (unat n) \<and> a = ipv4_of_integer n)"
proof -
  obtain c rest n r where s: "s = c # rest" "isdigit c" "c = CHR ''0'' \<Longrightarrow> \<not> starts_digit rest"
    and run: "first_integer (ucast (digit_value c)) rest = Some (n, r)"
    using assms by (auto simp: ipv4_from_string_def split: list.splits if_splits option.splits)
  have cr: "c # rest = nat_string (unat n) @ r" using leading_integer_digits [OF s(2,3) run] by blast
  show ?thesis
  proof (cases "r = []")
    case True
    then have "a = ipv4_of_integer n"
      using assms s run by (auto simp: ipv4_from_string_def split: if_splits)
    then show ?thesis using cr s True by auto
  next
    case False
    then obtain b1 r1 b2 r2 b3 where parts: "dotted_part r = Some (b1, r1)" "dotted_part r1 = Some (b2, r2)"
      "dotted_part r2 = Some (b3, [])" "a = Ipv4 (ucast n) b1 b2 b3" "\<not> n > 255"
      using assms s run by (auto simp: ipv4_from_string_def split: if_splits option.splits)
    then have "unat (ucast n :: u8) = unat n"
      by (simp add: unsigned_ucast_eq take_bit_nat_eq_self word_less_nat_alt not_less)
    then show ?thesis using cr s parts dotted_part_result [OF parts(1)] dotted_part_result [OF parts(2)]
      dotted_part_result [OF parts(3)] by (simp add: ipv4_to_string_def byte_string_nat_string)
  qed
qed

section \<open>Integers and order\<close>

lemma ipv4_to_of_integer: "ipv4_to_integer (ipv4_of_integer n) = n"
proof (rule bit_eqI)
  fix i assume "possible_bit TYPE(u32) i"
  then have "i < 32" by simp
  then have "i \<in> {0..<8} \<or> i \<in> {8..<16} \<or> i \<in> {16..<24} \<or> i \<in> {24..<32}" by auto
  then show "bit (ipv4_to_integer (ipv4_of_integer n)) i = bit n i"
    by (auto simp: ipv4_to_integer_def ipv4_of_integer_def bit_simps)
qed

lemma ipv4_of_to_integer: "ipv4_of_integer (ipv4_to_integer a) = a"
proof -
  obtain b0 b1 b2 b3 where a: "a = Ipv4 b0 b1 b2 b3" by (cases a)
  have high: "\<not> bit (b :: u8) (8 + i)" for b i by (simp add: bit_word.rep_eq)
  show ?thesis unfolding a ipv4_of_integer_def ipv4_to_integer_def ipv4_address.sel ipv4_address.inject
    by (intro conjI bit_eqI) (auto simp: bit_simps dest: bit_imp_le_length)
qed

lemma ipv4_to_integer_inj: "ipv4_to_integer a = ipv4_to_integer b \<longleftrightarrow> a = b"
  by (metis ipv4_of_to_integer)

lemmas ipv4_address_order_defs = less_ipv4_address_def less_eq_ipv4_address_def ipv4_address_less_eq_def ipv4_address_less_def

instance ipv4_address :: linorder
proof
  fix a b c :: ipv4_address
  show "a < b \<longleftrightarrow> a \<le> b \<and> \<not> b \<le> a" by (auto simp: ipv4_address_order_defs)
  show "a \<le> a" by (simp add: ipv4_address_order_defs)
  show "a \<le> b \<Longrightarrow> b \<le> c \<Longrightarrow> a \<le> c" by (simp add: ipv4_address_order_defs)
  show "a \<le> b \<Longrightarrow> b \<le> a \<Longrightarrow> a = b"
    by (simp add: ipv4_address_order_defs ipv4_to_integer_inj [symmetric])
  show "a \<le> b \<or> b \<le> a" by (auto simp: ipv4_address_order_defs)
qed

section \<open>Endpoints\<close>

record ipv4_endpoint =
  address4 :: ipv4_address
  port4 :: u16

fun parse_port_loop :: "u32 \<Rightarrow> string \<Rightarrow> u16 option" where
  "parse_port_loop value [] = Some (ucast value)"
| "parse_port_loop value (c # s) =
     (if \<not> isdigit c then None
      else (let value = value * 10 + ucast (digit_value c)
            in if value > 0xFFFF then None else parse_port_loop value s))"

definition parse_port :: "string \<Rightarrow> u16 option" where
  "parse_port s = (if s = [] then None else parse_port_loop 0 s)"

definition ipv4_endpoint_to_string :: "ipv4_endpoint \<Rightarrow> string" where
  "ipv4_endpoint_to_string e = ipv4_to_string (address4 e) @ CHR '':'' # nat_string (unat (port4 e))"

definition ipv4_endpoint_from_string :: "string \<Rightarrow> ipv4_endpoint option" where
  "ipv4_endpoint_from_string s =
     (if CHR '':'' \<notin> set s then None
      else case ipv4_from_string (takeWhile (\<lambda>c. c \<noteq> CHR '':'') s) of
        None \<Rightarrow> None
      | Some address \<Rightarrow>
          (case parse_port (tl (dropWhile (\<lambda>c. c \<noteq> CHR '':'') s)) of
             None \<Rightarrow> None
           | Some port \<Rightarrow> Some \<lparr>address4 = address, port4 = port\<rparr>))"

definition ipv4_endpoint_less :: "ipv4_endpoint \<Rightarrow> ipv4_endpoint \<Rightarrow> bool" where
  "ipv4_endpoint_less a b \<longleftrightarrow>
     address4 a < address4 b \<or> (address4 a = address4 b \<and> port4 a < port4 b)"

lemma parse_port_loop_run:
  "list_all isdigit ds \<Longrightarrow> digits_value (unat v) ds < 2 ^ 16 \<Longrightarrow>
    parse_port_loop v ds = Some (of_nat (digits_value (unat v) ds))"
proof (induction ds arbitrary: v)
  case Nil
  then show ?case by (simp add: word_unat_eq_iff unsigned_ucast_eq take_bit_nat_eq_self unat_of_nat)
next
  case (Cons c ds)
  then have c: "isdigit c" by simp
  have lt: "unat v * 10 + unat (digit_value c) < 2 ^ 16"
    using Cons.prems(2) digits_value_ge le_less_trans by (metis digits_value_simps(2))
  then have v: "unat (v * 10 + ucast (digit_value c) :: u32) = unat v * 10 + unat (digit_value c)"
    using step_value [OF c] by simp
  then have "\<not> v * 10 + ucast (digit_value c) > (0xFFFF :: u32)" using lt by (simp add: word_less_nat_alt)
  then show ?case using Cons.IH [of "v * 10 + ucast (digit_value c)"] Cons.prems v by (simp add: Let_def)
qed

lemma parse_port_nat_string: "parse_port (nat_string (unat p)) = Some p"
proof -
  have "digits_value 0 (nat_string (unat p)) < 2 ^ 16"
    using unsigned_less [of p] by (simp add: digits_value_nat_string)
  then have "parse_port_loop 0 (nat_string (unat p)) = Some p"
    using parse_port_loop_run [of "nat_string (unat p)" 0] by (simp add: nat_string_isdigit digits_value_nat_string)
  moreover have "nat_string (unat p) \<noteq> []" using nat_string_Cons [of "unat p"] by auto
  ultimately show ?thesis by (simp add: parse_port_def)
qed

lemma nat_string_no: "\<not> isdigit c \<Longrightarrow> c \<notin> set (nat_string n)"
  using nat_string_isdigit [of n] by (auto simp: list_all_iff)

lemma ipv4_to_string_no:
  "\<not> isdigit c \<Longrightarrow> c \<noteq> CHR ''.'' \<Longrightarrow> c \<notin> set (ipv4_to_string a)"
  by (simp add: ipv4_to_string_def byte_string_nat_string nat_string_no)

lemma ipv4_endpoint_parses: "ipv4_endpoint_from_string (ipv4_endpoint_to_string e) = Some e"
proof -
  have no: "CHR '':'' \<notin> set (ipv4_to_string (address4 e))" by (rule ipv4_to_string_no) simp_all
  then have all: "\<forall>c\<in>set (ipv4_to_string (address4 e)). c \<noteq> CHR '':''" by metis
  show ?thesis
    using all by (simp add: ipv4_endpoint_from_string_def ipv4_endpoint_to_string_def
        takeWhile_append2 dropWhile_append2 ipv4_parses_dotted parse_port_nat_string)
qed

lemma ipv4_to_string_length: "length (ipv4_to_string a) \<le> 15"
  using byte_string_length [of "byte0 a"] byte_string_length [of "byte1 a"]
    byte_string_length [of "byte2 a"] byte_string_length [of "byte3 a"]
  by (simp add: ipv4_to_string_def)

section \<open>Properties\<close>

text \<open>
  C39. The parser accepts exactly two spellings of each address, and gives that address for
  them: the dotted one that \<open>to_string\<close> prints, and the decimal of its integer; every other
  string is rejected.
\<close>

theorem ipv4_from_string_exact:
  "ipv4_from_string s = Some a \<longleftrightarrow>
    s = ipv4_to_string a \<or> s = nat_string (unat (ipv4_to_integer a))"
  using ipv4_parses_dotted [of a] ipv4_parses_integer [of "ipv4_to_integer a"] ipv4_parsed [of s a]
  by (auto simp: ipv4_of_to_integer ipv4_to_of_integer)

text \<open>The finding on \<open>is_private_network\<close>: it looks at the wrong byte of 192.168/16.\<close>

lemma is_private_network_misses:
  "\<not> is_private_network (Ipv4 192 168 0 1) \<and> is_private_network (Ipv4 192 0 168 1)"
  by (simp add: is_private_network_def)

end
