(* ===== verification/Ipv6_Address.thy ===== *)
theory Ipv6_Address
  imports Ipv4_Address
begin

text \<open>
  include/coro/net/ipv6_address.h: addresses of sixteen bytes, their 64-bit halves, order,
  parser and printer. The parser reads \<open>string[pos]\<close> once without checking that \<open>pos\<close> is in the
  string; such a read is the result \<open>Out_of_bounds\<close>.
\<close>

section \<open>Addresses\<close>

datatype ipv6_address =
  Ipv6 u8 u8 u8 u8 u8 u8 u8 u8 u8 u8 u8 u8 u8 u8 u8 u8

fun ipv6_bytes :: "ipv6_address \<Rightarrow> u8 list" where
  "ipv6_bytes (Ipv6 b0 b1 b2 b3 b4 b5 b6 b7 b8 b9 b10 b11 b12 b13 b14 b15) =
     [b0, b1, b2, b3, b4, b5, b6, b7, b8, b9, b10, b11, b12, b13, b14, b15]"

definition ipv6_of_bytes :: "u8 list \<Rightarrow> ipv6_address" where
  "ipv6_of_bytes b = Ipv6 (b ! 0) (b ! 1) (b ! 2) (b ! 3) (b ! 4) (b ! 5) (b ! 6) (b ! 7)
     (b ! 8) (b ! 9) (b ! 10) (b ! 11) (b ! 12) (b ! 13) (b ! 14) (b ! 15)"

text \<open>The bytes of a 16-bit and of a 64-bit number, high byte first.\<close>

definition part_bytes :: "u16 \<Rightarrow> u8 list" where
  "part_bytes p = [ucast (drop_bit 8 p), ucast p]"

definition half_bytes :: "u64 \<Rightarrow> u8 list" where
  "half_bytes h = map (\<lambda>n. ucast (drop_bit n h)) [56, 48, 40, 32, 24, 16, 8, 0]"

definition ipv6_of_halves :: "u64 \<Rightarrow> u64 \<Rightarrow> ipv6_address" where
  "ipv6_of_halves subnet_prefix interface_identifier =
     ipv6_of_bytes (half_bytes subnet_prefix @ half_bytes interface_identifier)"

definition ipv6_of_parts :: "u16 list \<Rightarrow> ipv6_address" where
  "ipv6_of_parts parts = ipv6_of_bytes (concat (map part_bytes parts))"

definition half_of_bytes :: "u8 list \<Rightarrow> u64" where
  "half_of_bytes b = push_bit 56 (ucast (b ! 0)) OR push_bit 48 (ucast (b ! 1)) OR
     push_bit 40 (ucast (b ! 2)) OR push_bit 32 (ucast (b ! 3)) OR push_bit 24 (ucast (b ! 4)) OR
     push_bit 16 (ucast (b ! 5)) OR push_bit 8 (ucast (b ! 6)) OR ucast (b ! 7)"

definition subnet_prefix :: "ipv6_address \<Rightarrow> u64" where
  "subnet_prefix a = half_of_bytes (take 8 (ipv6_bytes a))"

definition interface_identifier :: "ipv6_address \<Rightarrow> u64" where
  "interface_identifier a = half_of_bytes (drop 8 (ipv6_bytes a))"

definition ipv6_unspecified :: ipv6_address where
  "ipv6_unspecified = Ipv6 0 0 0 0 0 0 0 0 0 0 0 0 0 0 0 0"

definition ipv6_loopback :: ipv6_address where
  "ipv6_loopback = ipv6_of_parts [0, 0, 0, 0, 0, 0, 0, 1]"

text \<open>The loops of \<open>operator==\<close> and \<open>operator<\<close>.\<close>

fun bytes_equal :: "u8 list \<Rightarrow> u8 list \<Rightarrow> bool" where
  "bytes_equal (a # as) (b # bs) = (if a \<noteq> b then False else bytes_equal as bs)"
| "bytes_equal _ _ = True"

fun bytes_less :: "u8 list \<Rightarrow> u8 list \<Rightarrow> bool" where
  "bytes_less (a # as) (b # bs) = (if a \<noteq> b then a < b else bytes_less as bs)"
| "bytes_less _ _ = False"

definition ipv6_address_less :: "ipv6_address \<Rightarrow> ipv6_address \<Rightarrow> bool" where
  "ipv6_address_less a b \<longleftrightarrow> bytes_less (ipv6_bytes a) (ipv6_bytes b)"

definition ipv6_address_less_eq :: "ipv6_address \<Rightarrow> ipv6_address \<Rightarrow> bool" where
  "ipv6_address_less_eq a b \<longleftrightarrow> \<not> bytes_less (ipv6_bytes b) (ipv6_bytes a)"

text \<open>The operators of the class are the operators of the order class.\<close>

instantiation ipv6_address :: ord
begin

definition less_ipv6_address :: "ipv6_address \<Rightarrow> ipv6_address \<Rightarrow> bool" where
  "less_ipv6_address a b \<longleftrightarrow> ipv6_address_less a b"

definition less_eq_ipv6_address :: "ipv6_address \<Rightarrow> ipv6_address \<Rightarrow> bool" where
  "less_eq_ipv6_address a b \<longleftrightarrow> ipv6_address_less_eq a b"

instance ..

end

section \<open>Parsing\<close>

datatype 'a read = Out_of_bounds | Rejected | Accepted 'a

definition try_parse_hex_digit :: "char \<Rightarrow> u8 option" where
  "try_parse_hex_digit c =
     (if CHR ''0'' \<le> c \<and> c \<le> CHR ''9'' then Some (of_char c - of_char CHR ''0'')
      else if CHR ''a'' \<le> c \<and> c \<le> CHR ''f'' then Some (of_char c - of_char CHR ''a'' + 10)
      else if CHR ''A'' \<le> c \<and> c \<le> CHR ''F'' then Some (of_char c - of_char CHR ''A'' + 10)
      else None)"

definition is_hex_digit :: "char \<Rightarrow> bool" where
  "is_hex_digit c \<longleftrightarrow> try_parse_hex_digit c \<noteq> None"

text \<open>At most \<open>n\<close> characters that satisfy \<open>P\<close>, and the rest.\<close>

fun take_run :: "(char \<Rightarrow> bool) \<Rightarrow> nat \<Rightarrow> string \<Rightarrow> string \<times> string" where
  "take_run P (Suc n) (c # s) = (if P c then (let (cs, r) = take_run P n s in (c # cs, r)) else ([], c # s))"
| "take_run P _ s = ([], s)"

text \<open>The decimal parts after the first, \<open>n\<close> of them: their values and the rest.\<close>

fun decimal_more :: "nat \<Rightarrow> string \<Rightarrow> (u16 list \<times> string) read" where
  "decimal_more 0 s = Accepted ([], s)"
| "decimal_more (Suc n) s =
     (if s = [] then Out_of_bounds
      else if hd s \<noteq> CHR ''.'' then Rejected
      else if tl s = [] \<or> \<not> isdigit (hd (tl s)) then Rejected
      else (let c = hd (tl s); (ds, r) = take_run isdigit 2 (tl (tl s));
                v = foldl (\<lambda>v d. v * 10 + ucast (digit_value d)) (ucast (digit_value c)) ds
            in if v > 255 then Rejected
               else if ds \<noteq> [] \<and> c = CHR ''0'' then Rejected
               else (case decimal_more n r of
                       Accepted (vs, r') \<Rightarrow> Accepted (v # vs, r')
                     | Rejected \<Rightarrow> Rejected
                     | Out_of_bounds \<Rightarrow> Out_of_bounds)))"

text \<open>The first decimal part, from the digits read as hexadecimal ones.\<close>

definition decimal_first :: "u8 list \<Rightarrow> u16 option" where
  "decimal_first digits =
     (if length digits > 3 \<or> (length digits > 1 \<and> digits ! 0 = 0) then None
      else if digits ! 0 > 9 \<or> (length digits > 1 \<and> digits ! 1 > 9) \<or>
          (length digits = 3 \<and> digits ! 2 > 9) then None
      else (let v = foldl (\<lambda>v d. v * 10 + ucast d) (ucast (digits ! 0)) (tl digits)
            in if v > 255 then None else Some v))"

definition hex_value :: "u8 list \<Rightarrow> u16" where
  "hex_value digits = foldl (\<lambda>v d. v * 16 + ucast d) (ucast (digits ! 0)) (tl digits)"

text \<open>
  The parts so far, the position of the double colon, and the string from \<open>pos\<close> on; the same
  when the loop ends.
\<close>

function parse_parts ::
    "u16 list \<Rightarrow> nat option \<Rightarrow> string \<Rightarrow> (u16 list \<times> nat option \<times> string) read" where
  "parse_parts parts double_colon_pos s =
     (if s = [] \<or> 8 \<le> length parts then Accepted (parts, double_colon_pos, s)
      else case try_parse_hex_digit (hd s) of
        None \<Rightarrow> Rejected
      | Some d \<Rightarrow>
          (let (cs, r) = take_run is_hex_digit 3 (tl s);
               digits = d # map (\<lambda>c. the (try_parse_hex_digit c)) cs;
               parts' = parts @ [hex_value digits]
           in if r = [] then parse_parts parts' double_colon_pos r
              else if tl r = [] then Rejected
              else if hd r = CHR '':'' then
                (if hd (tl r) = CHR '':'' then
                   (if double_colon_pos \<noteq> None then Rejected
                    else parse_parts parts' (Some (length parts + 1)) (tl (tl r)))
                 else parse_parts parts' double_colon_pos (tl r))
              else if hd r = CHR ''.'' then
                (if length parts > 6 then Rejected
                 else case decimal_first digits of
                   None \<Rightarrow> Rejected
                 | Some v0 \<Rightarrow>
                     (case decimal_more 3 r of
                        Accepted (vs, r') \<Rightarrow>
                          Accepted (parts @ [push_bit 8 v0 + vs ! 0, push_bit 8 (vs ! 1) + vs ! 2],
                            double_colon_pos, r')
                      | Rejected \<Rightarrow> Rejected
                      | Out_of_bounds \<Rightarrow> Out_of_bounds))
              else Rejected))"
  by pat_completeness auto

termination
  by (relation "measure (\<lambda>(parts, _, _). 8 - length parts)") auto

declare parse_parts.simps [simp del]

text \<open>The two loops that move the parts after the double colon to the end and fill the gap.\<close>

definition expand_parts :: "nat \<Rightarrow> nat \<Rightarrow> u16 list \<Rightarrow> u16 list" where
  "expand_parts pre_count part_count parts =
     (let post_count = part_count - pre_count;
          zero_count = 8 - pre_count - post_count;
          moved = fold (\<lambda>i p. p[7 - i := p ! (7 - zero_count - i)]) [0..<post_count] parts
      in fold (\<lambda>i p. p[pre_count + i := 0]) [0..<zero_count] moved)"

definition ipv6_from_string :: "string \<Rightarrow> ipv6_address read" where
  "ipv6_from_string s =
     (if s = [] \<or> length s > 45 then Rejected
      else (let (double_colon_pos, s) =
                  (if length s \<ge> 2 \<and> s ! 0 = CHR '':'' \<and> s ! 1 = CHR '':'' then (Some 0, drop 2 s)
                   else (None, s))
            in case parse_parts [] double_colon_pos s of
                 Out_of_bounds \<Rightarrow> Out_of_bounds
               | Rejected \<Rightarrow> Rejected
               | Accepted (parts, double_colon_pos, rest) \<Rightarrow>
                   if rest \<noteq> [] then Rejected
                   else if length parts < 8 then
                     (case double_colon_pos of
                        None \<Rightarrow> Rejected
                      | Some pre_count \<Rightarrow> Accepted (ipv6_of_parts (expand_parts pre_count
                          (length parts) (parts @ replicate (8 - length parts) 0))))
                   else if double_colon_pos \<noteq> None then Rejected
                   else Accepted (ipv6_of_parts parts)))"

section \<open>Printing\<close>

definition hex_char :: "u8 \<Rightarrow> char" where
  "hex_char value = (if value < 10 then char_of (48 + unat value) else char_of (97 + unat value - 10))"

definition zero_part :: "ipv6_address \<Rightarrow> nat \<Rightarrow> bool" where
  "zero_part a i \<longleftrightarrow> ipv6_bytes a ! (2 * i) = 0 \<and> ipv6_bytes a ! (2 * i + 1) = 0"

text \<open>The end of the run of zero parts that begins before \<open>i\<close>, and the search for the longest.\<close>

function run_end :: "ipv6_address \<Rightarrow> nat \<Rightarrow> nat" where
  "run_end a i = (if i < 8 \<and> zero_part a i then run_end a (Suc i) else i)"
  by pat_completeness auto

termination
  by (relation "measure (\<lambda>(_, i). 8 - i)") auto

declare run_end.simps [simp del]

lemma run_end_ge: "i \<le> run_end a i"
proof (induction a i rule: run_end.induct)
  case (1 a i)
  then show ?case by (subst run_end.simps) (auto intro: Suc_leD)
qed

function longest_zero_run :: "ipv6_address \<Rightarrow> nat \<Rightarrow> nat \<times> nat \<Rightarrow> nat \<times> nat" where
  "longest_zero_run a i (start, len) =
     (if i < 8 then
        (if zero_part a i then
           (let e = run_end a (Suc i)
            in longest_zero_run a e (if e - i > len then (i, e - i) else (start, len)))
         else longest_zero_run a (Suc i) (start, len))
      else (start, len))"
  by pat_completeness auto

termination
  by (relation "measure (\<lambda>(_, i, _). 8 - i)")
    (auto intro!: diff_less_mono2 Suc_le_lessD [OF run_end_ge])

declare longest_zero_run.simps [simp del]

definition part_string :: "ipv6_address \<Rightarrow> nat \<Rightarrow> string" where
  "part_string a index =
     (let high_byte = ipv6_bytes a ! (index * 2); low_byte = ipv6_bytes a ! (index * 2 + 1)
      in (if high_byte > 0 \<or> low_byte > 15
          then (if high_byte > 0
                then (if high_byte > 15 then [hex_char (drop_bit 4 high_byte)] else []) @
                  [hex_char (high_byte AND 0xF)]
                else []) @ [hex_char (drop_bit 4 low_byte)]
          else []) @ [hex_char (low_byte AND 0xF)])"

definition ipv6_to_string :: "ipv6_address \<Rightarrow> string" where
  "ipv6_to_string a =
     (let (start, len) = longest_zero_run a 0 (0, 0)
      in if len \<ge> 2
         then concat (map (\<lambda>i. (if i > 0 then '':'' else []) @ part_string a i) [0..<start]) @
           ''::'' @
           concat (map (\<lambda>i. part_string a i @ (if i < 7 then '':'' else [])) [start + len..<8])
         else part_string a 0 @ concat (map (\<lambda>i. '':'' @ part_string a i) [1..<8]))"

section \<open>Hexadecimal digits\<close>

lemma of_char_hex_char: "v < 16 \<Longrightarrow> (of_char (hex_char v) :: nat) = (if unat v < 10 then 48 else 87) + unat v"
  by (auto simp: hex_char_def word_less_nat_alt)

lemma of_char_word: "(of_char c :: u8) = of_nat (of_char c)"
  by (simp only: of_nat_of_char)

lemma try_parse_hex_char [simp]:
  assumes "v < 16"
  shows "try_parse_hex_digit (hex_char v) = Some v"
proof -
  have v: "unat v < 16" using assms by (simp add: word_less_nat_alt)
  have o: "(of_char (hex_char v) :: u8) = of_nat ((if unat v < 10 then 48 else 87) + unat v)"
    using of_char_hex_char [OF assms] by (simp only: of_char_word)
  show ?thesis
  proof (cases "unat v < 10")
    case True
    then show ?thesis using v o of_char_hex_char [OF assms]
      by (simp add: try_parse_hex_digit_def less_eq_char_def)
  next
    case False
    then show ?thesis using v o of_char_hex_char [OF assms]
      by (simp add: try_parse_hex_digit_def less_eq_char_def)
  qed
qed

lemma try_parse_colon [simp]: "try_parse_hex_digit CHR '':'' = None"
  by (simp add: try_parse_hex_digit_def less_eq_char_def)

lemma hex_char_not_colon: "v < 16 \<Longrightarrow> hex_char v \<noteq> CHR '':''"
  using try_parse_hex_char [of v] try_parse_colon by fastforce

text \<open>The digits of a part, most significant first, without leading zeros.\<close>

definition part_digits :: "u16 \<Rightarrow> u8 list" where
  "part_digits p =
     (let n = unat p; d = (\<lambda>k. of_nat (n div 16 ^ k mod 16))
      in if n \<ge> 4096 then [d 3, d 2, d 1, d 0] else if n \<ge> 256 then [d 2, d 1, d 0]
         else if n \<ge> 16 then [d 1, d 0] else [d 0])"

definition address_part :: "ipv6_address \<Rightarrow> nat \<Rightarrow> u16" where
  "address_part a i =
     push_bit 8 (ucast (ipv6_bytes a ! (2 * i))) OR ucast (ipv6_bytes a ! (2 * i + 1))"

lemma unat_address_part:
  "unat (address_part a i) = unat (ipv6_bytes a ! (2 * i)) * 256 + unat (ipv6_bytes a ! (2 * i + 1))"
proof -
  let ?h = "ipv6_bytes a ! (2 * i)" and ?l = "ipv6_bytes a ! (2 * i + 1)"
  have "address_part a i = push_bit 8 (ucast ?h) + ucast ?l"
    unfolding address_part_def
    by (rule disjunctive_add_eq_or [symmetric] bit_eqI)+
      (auto simp: bit_simps dest: bit_imp_le_length)
  moreover have "unat ?h < 256" "unat ?l < 256"
    using unsigned_less [of ?h] unsigned_less [of ?l] by simp_all
  ultimately show ?thesis
    by (simp add: push_bit_eq_mult unat_word_ariths unsigned_ucast_eq take_bit_nat_eq_self)
qed

lemma hex_digits_4:
  "n div 16 ^ 3 * 4096 + n div 16 ^ 2 mod 16 * 256 + n div 16 mod 16 * 16 + n mod 16 = (n :: nat)"
proof -
  define a where "a = n div 16"
  define b where "b = a div 16"
  define c where "c = b div 16"
  have "n div 16 ^ 2 = b" "n div 16 ^ 3 = c"
    by (simp_all add: a_def b_def c_def div_mult2_eq [symmetric])
  moreover have "16 * a + n mod 16 = n" "16 * b + a mod 16 = a" "16 * c + b mod 16 = b"
    by (simp_all add: a_def b_def c_def)
  ultimately show ?thesis by (simp add: a_def [symmetric])
qed

lemma unat_u8_mod_16 [simp]: "unat (of_nat (n mod 16) :: u8) = n mod 16"
  by (simp add: unat_of_nat)

lemma unat_u16_u8 [simp]: "unat (ucast (b :: u8) :: u16) = unat b"
  by (simp add: unsigned_ucast_eq take_bit_nat_eq_self less_le_trans [OF unsigned_less])

lemma unat_hex_value:
  assumes "unat a < 16" "unat b < 16" "unat c < 16" "unat d < 16"
  shows "unat (hex_value [a]) = unat a" "unat (hex_value [a, b]) = unat a * 16 + unat b"
    "unat (hex_value [a, b, c]) = (unat a * 16 + unat b) * 16 + unat c"
    "unat (hex_value [a, b, c, d]) = ((unat a * 16 + unat b) * 16 + unat c) * 16 + unat d"
  using assms by (simp_all add: hex_value_def unat_word_ariths)

lemma part_digits_value: "hex_value (part_digits p) = p"
proof -
  have lt: "unat p < 65536" using unsigned_less [of p] by simp
  define d where "d k = (of_nat (unat p div 16 ^ k mod 16) :: u8)" for k
  have d: "unat (d k) = unat p div 16 ^ k mod 16" for k by (simp add: d_def)
  then have d16: "unat (d k) < 16" for k by simp
  have hi: "unat p div 16 ^ 3 mod 16 = unat p div 16 ^ 3" using lt by (intro mod_less) simp
  have h: "unat (d 3) * 4096 + unat (d 2) * 256 + unat (d 1) * 16 + unat (d 0) = unat p"
    using hex_digits_4 [of "unat p"] hi by (simp only: d power_one_right power_0 div_by_1)
  have eq: "w = p" if "unat w = unat p" for w using that by (simp add: word_unat_eq_iff)
  note v = unat_hex_value [OF d16 d16 d16 d16]
  consider "unat p < 16" | "16 \<le> unat p" "unat p < 256" | "256 \<le> unat p" "unat p < 4096"
    | "4096 \<le> unat p" by linarith
  then show ?thesis
  proof cases
    case 1
    then have "part_digits p = [d 0]" by (simp add: part_digits_def Let_def d_def)
    moreover have "unat (d 0) = unat p" using 1 by (simp add: d)
    ultimately show ?thesis using v(1) [of 0] by (intro eq) simp
  next
    case 2
    then have "part_digits p = [d 1, d 0]" by (simp add: part_digits_def Let_def d_def)
    then show ?thesis using h v(2) [of 1 0] d [of 2] d [of 3] 2 by (intro eq) simp
  next
    case 3
    then have "part_digits p = [d 2, d 1, d 0]" by (simp add: part_digits_def Let_def d_def)
    moreover have "unat (d 3) = 0" using 3 by (simp only: d hi) simp
    ultimately show ?thesis using h v(3) [of 2 1 0] by (intro eq) simp
  next
    case 4
    then have "part_digits p = [d 3, d 2, d 1, d 0]" by (simp add: part_digits_def Let_def d_def)
    then show ?thesis using h v(4) [of 3 2 1 0] by (intro eq) simp
  qed
qed

lemma part_digits_shape:
  "part_digits p \<noteq> [] \<and> length (part_digits p) \<le> 4 \<and> (\<forall>d\<in>set (part_digits p). d < 16)"
proof -
  define d where "d k = (of_nat (unat p div 16 ^ k mod 16) :: u8)" for k
  have "d k < 16" for k unfolding d_def by (simp only: word_less_nat_alt unat_u8_mod_16) simp
  then show ?thesis unfolding part_digits_def Let_def d_def [symmetric] by simp
qed

lemma part_string_digits: "part_string a i = map hex_char (part_digits (address_part a i))"
proof -
  define h l where "h = unat (ipv6_bytes a ! (i * 2))" and "l = unat (ipv6_bytes a ! (i * 2 + 1))"
  have lt: "h < 256" "l < 256"
    using unsigned_less [of "ipv6_bytes a ! (i * 2)"] unsigned_less [of "ipv6_bytes a ! (i * 2 + 1)"]
    by (simp_all add: h_def l_def)
  have n: "unat (address_part a i) = h * 256 + l"
    by (simp add: unat_address_part h_def l_def mult.commute)
  have nib: "drop_bit 4 (w :: u8) = of_nat (unat w div 16)" "w AND 0xF = of_nat (unat w mod 16)" for w
  proof -
    have "unat w < 256" using unsigned_less [of w] by simp
    then show "drop_bit 4 w = of_nat (unat w div 16)"
      by (simp add: word_unat_eq_iff drop_bit_eq_div unat_div_distrib unat_of_nat)
    have "w AND 0xF = take_bit 4 w" by (simp add: take_bit_eq_mask mask_eq_exp_minus_1)
    then show "w AND 0xF = of_nat (unat w mod 16)"
      by (simp add: word_unat_eq_iff unsigned_take_bit_eq take_bit_eq_mod unat_of_nat unat_mod_distrib)
  qed
  have cmp: "ipv6_bytes a ! (i * 2) > 0 \<longleftrightarrow> 0 < h" "ipv6_bytes a ! (i * 2) > 15 \<longleftrightarrow> 15 < h"
    "ipv6_bytes a ! (i * 2 + 1) > 15 \<longleftrightarrow> 15 < l"
    by (simp_all add: h_def l_def word_less_nat_alt)
  have n1: "(h * 256 + l) div 16 ^ 0 mod 16 = l mod 16" "(h * 256 + l) div 16 ^ 1 mod 16 = l div 16"
    "(h * 256 + l) div 16 ^ 2 mod 16 = h mod 16" "(h * 256 + l) div 16 ^ 3 mod 16 = h div 16"
  proof -
    have d16: "(h * 256 + l) div 16 = h * 16 + l div 16"
      using div_mult_self2 [of 16 l "h * 16"] by (simp add: add.commute mult.commute)
    have d256: "(h * 256 + l) div 256 = h" using lt by simp
    then have d4096: "(h * 256 + l) div 4096 = h div 16"
      using div_mult2_eq [of "h * 256 + l" 256 16] by simp
    have "(16 * (h * 16) + l) mod 16 = l mod 16" by (rule mod_mult_self4)
    then show "(h * 256 + l) div 16 ^ 0 mod 16 = l mod 16" by (simp add: mult.commute)
    show "(h * 256 + l) div 16 ^ 1 mod 16 = l div 16" using lt by (simp add: d16)
    show "(h * 256 + l) div 16 ^ 2 mod 16 = h mod 16" by (simp add: d256)
    show "(h * 256 + l) div 16 ^ 3 mod 16 = h div 16" using lt by (simp add: d4096)
  qed
  have c: "4096 \<le> h * 256 + l \<longleftrightarrow> 15 < h" "256 \<le> h * 256 + l \<longleftrightarrow> 0 < h"
    "16 \<le> h * 256 + l \<longleftrightarrow> 0 < h \<or> 15 < l"
    using lt by auto
  show ?thesis
    unfolding part_string_def Let_def nib cmp part_digits_def n h_def [symmetric] l_def [symmetric] n1 c
    by (cases "15 < h"; cases "0 < h"; cases "15 < l") simp_all
qed

section \<open>Parsing what is printed\<close>

lemma take_run_append:
  "list_all P cs \<Longrightarrow> length cs \<le> n \<Longrightarrow> r = [] \<or> \<not> P (hd r) \<Longrightarrow> take_run P n (cs @ r) = (cs, r)"
proof (induction cs arbitrary: n)
  case Nil
  then show ?case by (cases n; cases r) simp_all
next
  case (Cons c cs)
  then show ?case by (cases n) simp_all
qed

abbreviation part_chars :: "u16 \<Rightarrow> string" where
  "part_chars p \<equiv> map hex_char (part_digits p)"

lemma parse_part:
  assumes "length parts < 8" "r = [] \<or> hd r = CHR '':''"
  shows "parse_parts parts dc (part_chars p @ r) =
    (if r = [] then parse_parts (parts @ [p]) dc r
     else if tl r = [] then Rejected
     else if hd (tl r) = CHR '':'' then
       (if dc \<noteq> None then Rejected else parse_parts (parts @ [p]) (Some (length parts + 1)) (tl (tl r)))
     else parse_parts (parts @ [p]) dc (tl r))"
proof -
  obtain d ds where dds: "part_digits p = d # ds" using part_digits_shape by (cases "part_digits p") auto
  then have b: "d < 16" "\<And>e. e \<in> set ds \<Longrightarrow> e < 16" "length ds \<le> 3"
    using part_digits_shape [of p] by auto
  have hex: "try_parse_hex_digit (hex_char e) = Some e" if "e \<in> set ds" for e using b(2) [OF that] by simp
  then have "list_all is_hex_digit (map hex_char ds)" by (auto simp: list_all_iff is_hex_digit_def)
  moreover have "r = [] \<or> \<not> is_hex_digit (hd r)" using assms(2) by (auto simp: is_hex_digit_def)
  ultimately have run: "take_run is_hex_digit 3 (map hex_char ds @ r) = (map hex_char ds, r)"
    using take_run_append [of is_hex_digit "map hex_char ds" 3 r] b(3) by simp
  have "map (\<lambda>c. the (try_parse_hex_digit c)) (map hex_char ds) = ds"
    using hex by (induction ds) simp_all
  then have val: "hex_value (d # map (\<lambda>c. the (try_parse_hex_digit c)) (map hex_char ds)) = p"
    using part_digits_value [of p] dds by simp
  show ?thesis
    using assms b(1) by (subst parse_parts.simps) (auto simp: dds run val Let_def simp del: map_map)
qed

fun colon_join :: "u16 list \<Rightarrow> string" where
  "colon_join [] = []"
| "colon_join [p] = part_chars p"
| "colon_join (p # q # ps) = part_chars p @ CHR '':'' # colon_join (q # ps)"

lemma colon_join_hd: "hd (colon_join (p # ps) @ s) \<noteq> CHR '':''"
proof -
  obtain d ds where "part_digits p = d # ds" "d < 16"
    using part_digits_shape [of p] by (cases "part_digits p") auto
  then show ?thesis by (cases ps) (simp_all add: hex_char_not_colon)
qed

lemma colon_join_nonempty: "colon_join (p # ps) \<noteq> []"
  using part_digits_shape [of p] by (cases ps) simp_all

lemma parse_join:
  "length parts + length ps \<le> 8 \<Longrightarrow> parse_parts parts dc (colon_join ps) = Accepted (parts @ ps, dc, [])"
proof (induction ps arbitrary: parts rule: colon_join.induct)
  case 1
  then show ?case by (subst parse_parts.simps) simp
next
  case (2 p)
  then have "parse_parts parts dc (part_chars p @ []) = parse_parts (parts @ [p]) dc []"
    by (subst parse_part) simp_all
  then show ?case by (simp add: parse_parts.simps)
next
  case (3 p q ps)
  then have "parse_parts parts dc (part_chars p @ CHR '':'' # colon_join (q # ps))
      = parse_parts (parts @ [p]) dc (colon_join (q # ps))"
    using colon_join_hd [of q ps "[]"] colon_join_nonempty [of q ps] by (subst parse_part) simp_all
  then show ?case using 3 by simp
qed

lemma parse_join_colons:
  "ps \<noteq> [] \<Longrightarrow> length parts + length ps \<le> 8 \<Longrightarrow>
    parse_parts parts None (colon_join ps @ CHR '':'' # CHR '':'' # s)
      = parse_parts (parts @ ps) (Some (length parts + length ps)) s"
proof (induction ps arbitrary: parts rule: colon_join.induct)
  case (2 p)
  then show ?case by (simp add: parse_part)
next
  case (3 p q ps)
  then have "parse_parts parts None (part_chars p @ CHR '':'' # colon_join (q # ps) @ CHR '':'' # CHR '':'' # s)
      = parse_parts (parts @ [p]) None (colon_join (q # ps) @ CHR '':'' # CHR '':'' # s)"
    using colon_join_hd [of q ps "CHR '':'' # CHR '':'' # s"] colon_join_nonempty [of q ps]
    by (subst parse_part) simp_all
  then show ?case using 3 by simp
qed simp

section \<open>The shape of what is printed\<close>

lemma run_end_zero: "i \<le> 8 \<Longrightarrow> run_end a i \<le> 8 \<and> (\<forall>j. i \<le> j \<and> j < run_end a i \<longrightarrow> zero_part a j)"
proof (induction a i rule: run_end.induct)
  case (1 a i)
  show ?case
  proof (cases "i < 8 \<and> zero_part a i")
    case True
    then have "run_end a i = run_end a (Suc i)" by (subst run_end.simps) simp
    moreover have "run_end a (Suc i) \<le> 8"
      "\<forall>j. Suc i \<le> j \<and> j < run_end a (Suc i) \<longrightarrow> zero_part a j" using 1 True by auto
    moreover have "zero_part a j" if "i \<le> j" "j < run_end a (Suc i)" for j
      using calculation(3) that True by (cases "j = i") auto
    ultimately show ?thesis by simp
  next
    case False
    then show ?thesis using 1 by (subst (1 2) run_end.simps) auto
  qed
qed

definition zero_run :: "ipv6_address \<Rightarrow> nat \<times> nat \<Rightarrow> bool" where
  "zero_run a r \<longleftrightarrow> fst r + snd r \<le> 8 \<and> (\<forall>j. fst r \<le> j \<and> j < fst r + snd r \<longrightarrow> zero_part a j)"

lemma longest_zero_run_zero: "zero_run a (start, len) \<Longrightarrow> zero_run a (longest_zero_run a i (start, len))"
proof (induction a i "(start, len)" arbitrary: start len rule: longest_zero_run.induct)
  case (1 a i start len)
  show ?case
  proof (cases "i < 8 \<and> zero_part a i")
    case True
    let ?e = "run_end a (Suc i)"
    have e: "?e \<le> 8" "\<forall>j. Suc i \<le> j \<and> j < ?e \<longrightarrow> zero_part a j" "Suc i \<le> ?e"
      using run_end_zero [of "Suc i" a] run_end_ge [of "Suc i" a] True by auto
    have "zero_part a j" if "i \<le> j" "j < ?e" for j using e(2) that True by (cases "j = i") auto
    then have "zero_run a (i, ?e - i)" using e by (auto simp: zero_run_def)
    then have "zero_run a (longest_zero_run a ?e (if ?e - i > len then (i, ?e - i) else (start, len)))"
      using 1 True by (auto split: if_splits)
    then show ?thesis using True by (subst longest_zero_run.simps) (simp add: Let_def)
  next
    case False
    then show ?thesis using 1 by (subst longest_zero_run.simps) auto
  qed
qed

lemma colon_join_snoc: "ps \<noteq> [] \<Longrightarrow> colon_join (ps @ [p]) = colon_join ps @ CHR '':'' # part_chars p"
  by (induction ps rule: colon_join.induct) simp_all

lemma colon_join_before:
  "concat (map (\<lambda>i. (if i > 0 then '':'' else []) @ part_string a i) [0..<n])
    = colon_join (map (address_part a) [0..<n])"
proof (induction n)
  case (Suc n)
  show ?case
  proof (cases "n = 0")
    case False
    then have "map (address_part a) [0..<n] \<noteq> []" by simp
    from colon_join_snoc [OF this] Suc False show ?thesis by (simp add: part_string_digits)
  qed (simp add: part_string_digits)
qed simp

lemma colon_join_after:
  assumes "m \<le> 8"
  shows "concat (map (\<lambda>i. part_string a i @ (if i < 7 then '':'' else [])) [m..<8])
    = colon_join (map (address_part a) [m..<8])"
  using assms
proof (induction rule: inc_induct)
  case (step m)
  then show ?case
  proof (cases "m = 7")
    case False
    then have "[m..<8] = m # [Suc m..<8]" "[Suc m..<8] = Suc m # [Suc (Suc m)..<8]"
      using step by (simp_all add: upt_conv_Cons)
    then show ?thesis using step False by (simp add: part_string_digits)
  qed (simp add: upt_conv_Cons part_string_digits)
qed simp

definition address_parts :: "ipv6_address \<Rightarrow> u16 list" where
  "address_parts a = map (address_part a) [0..<8]"

lemma ipv6_to_string_shape:
  obtains (whole) "ipv6_to_string a = colon_join (address_parts a)"
  | (contracted) m n where "m + 2 \<le> n" "n \<le> 8" "\<forall>j. m \<le> j \<and> j < n \<longrightarrow> address_part a j = 0"
      "ipv6_to_string a = colon_join (map (address_part a) [0..<m]) @ CHR '':'' # CHR '':'' #
         colon_join (map (address_part a) [n..<8])"
proof -
  obtain start len where run: "longest_zero_run a 0 (0, 0) = (start, len)" by (meson surj_pair)
  have "zero_run a (start, len)" using longest_zero_run_zero [of a 0 0 0] run by (simp add: zero_run_def)
  then have z: "start + len \<le> 8" "\<And>j. start \<le> j \<Longrightarrow> j < start + len \<Longrightarrow> zero_part a j"
    by (auto simp: zero_run_def)
  have "address_part a j = 0" if "zero_part a j" for j
    using that by (simp add: zero_part_def address_part_def)
  with z have zero: "\<forall>j. start \<le> j \<and> j < start + len \<longrightarrow> address_part a j = 0" by blast
  show thesis
  proof (cases "len \<ge> 2")
    case True
    then show thesis
      using contracted [of start "start + len"] zero z(1) run colon_join_before [of a start]
        colon_join_after [OF z(1), of a] by (simp add: ipv6_to_string_def)
  next
    case False
    have "concat (map (\<lambda>i. (if i > 0 then '':'' else []) @ part_string a i) [0..<8])
        = part_string a 0 @ concat (map (\<lambda>i. '':'' @ part_string a i) [1..<8])"
      by (simp add: upt_conv_Cons)
    then show thesis using whole False run colon_join_before [of a 8]
      by (simp add: ipv6_to_string_def address_parts_def)
  qed
qed

lemma length_colon_join: "ps \<noteq> [] \<Longrightarrow> length (colon_join ps) + 1 \<le> 5 * length ps"
proof (induction ps rule: colon_join.induct)
  case (2 p)
  then show ?case using part_digits_shape [of p] by simp
next
  case (3 p q ps)
  then show ?case using part_digits_shape [of p] by simp
qed simp

lemma length_ipv6_to_string: "length (ipv6_to_string a) \<le> 39"
proof (cases a rule: ipv6_to_string_shape)
  case whole
  then show ?thesis using length_colon_join [of "address_parts a"] by (simp add: address_parts_def)
next
  case (contracted m n)
  have "length (colon_join ps) \<le> 5 * length ps" for ps
    using length_colon_join [of ps] by (cases ps) simp_all
  from this [of "map (address_part a) [0..<m]"] this [of "map (address_part a) [n..<8]"] contracted
  show ?thesis by simp
qed

lemma nat_less_8: "n < 8 \<longleftrightarrow> n \<in> {0, 1, 2, 3, 4, 5, 6, 7 :: nat}"
  by auto

lemma expand_parts_result:
  assumes "length ps = m" "length qs = k" "m + k < 8"
  shows "expand_parts m (m + k) (ps @ qs @ replicate (8 - (m + k)) 0)
    = ps @ replicate (8 - (m + k)) 0 @ qs"
proof -
  have m: "m \<in> {0, 1, 2, 3, 4, 5, 6, 7}" and k: "k \<in> {0, 1, 2, 3, 4, 5, 6, 7}"
    using assms(3) by (simp_all only: nat_less_8 [symmetric])
  show ?thesis
    using m k assms
    by (auto simp: expand_parts_def Let_def length_Suc_conv numeral_eq_Suc upt_conv_Cons)
qed

lemma part_bytes_of_bytes:
  "part_bytes (push_bit 8 (ucast (h :: u8)) OR ucast (l :: u8)) = [h, l]"
proof -
  have "ucast (drop_bit 8 (push_bit 8 (ucast h) OR ucast l :: u16)) = h"
    by (rule bit_eqI) (auto simp: bit_simps dest: bit_imp_le_length)
  moreover have "ucast (push_bit 8 (ucast h) OR ucast l :: u16) = l"
    by (rule bit_eqI) (auto simp: bit_simps)
  ultimately show ?thesis by (simp add: part_bytes_def)
qed

lemma ipv6_of_address_parts: "ipv6_of_parts (address_parts a) = a"
proof -
  have l: "[0..<8] = [0, 1, 2, 3, 4, 5, 6, 7]" by (simp add: upt_conv_Cons)
  show ?thesis
    by (cases a) (simp only: ipv6_of_parts_def address_parts_def l list.map address_part_def
        ipv6_bytes.simps concat.simps, simp add: part_bytes_of_bytes ipv6_of_bytes_def)
qed

lemma ipv6_parses_printed: "ipv6_from_string (ipv6_to_string a) = Accepted a"
proof (cases a rule: ipv6_to_string_shape)
  case whole
  have parts: "address_parts a = address_part a 0 # map (address_part a) [1..<8]"
    by (simp add: address_parts_def upt_conv_Cons)
  have "hd (ipv6_to_string a) \<noteq> CHR '':''" "ipv6_to_string a \<noteq> []"
    using whole colon_join_hd [of _ _ "[]"] colon_join_nonempty by (simp_all add: parts)
  then have "\<not> (2 \<le> length (ipv6_to_string a) \<and> ipv6_to_string a ! 0 = CHR '':'' \<and> ipv6_to_string a ! 1 = CHR '':'')"
    by (cases "ipv6_to_string a") simp_all
  moreover have "parse_parts [] None (ipv6_to_string a) = Accepted (address_parts a, None, [])"
    using parse_join [of "[]" "address_parts a" None] whole by (simp add: address_parts_def)
  moreover have "length (address_parts a) = 8" by (simp add: address_parts_def)
  ultimately show ?thesis
    using length_ipv6_to_string [of a] \<open>ipv6_to_string a \<noteq> []\<close>
    by (auto simp: ipv6_from_string_def ipv6_of_address_parts simp del: One_nat_def)
next
  case (contracted m n)
  let ?pre = "map (address_part a) [0..<m]" and ?post = "map (address_part a) [n..<8]"
  have "[0..<8] = [0..<m] @ [m..<n] @ [n..<8]"
    using contracted(1,2) upt_add_eq_append [of 0 m "8 - m"] upt_add_eq_append [of m n "8 - n"] by simp
  moreover have "map (address_part a) [m..<n] = replicate (n - m) 0"
    using contracted(3) by (intro nth_equalityI) auto
  ultimately have parts: "address_parts a = ?pre @ replicate (n - m) 0 @ ?post"
    by (simp add: address_parts_def)
  have parsed: "(case (if length s \<ge> 2 \<and> s ! 0 = CHR '':'' \<and> s ! 1 = CHR '':'' then (Some 0, drop 2 s) else (None, s)) of
      (dc, s) \<Rightarrow> parse_parts [] dc s) = Accepted (?pre @ ?post, Some m, [])"
    if s: "s = ipv6_to_string a" for s
  proof (cases "m = 0")
    case True
    then have "s ! 0 = CHR '':''" "s ! 1 = CHR '':''" "length s \<ge> 2" "drop 2 s = colon_join ?post"
      using contracted(4) s by simp_all
    then show ?thesis using parse_join [of "[]" ?post "Some 0"] True by simp
  next
    case False
    then obtain p ps where pre: "?pre = p # ps" by (cases ?pre) auto
    have s': "s = colon_join ?pre @ CHR '':'' # CHR '':'' # colon_join ?post" using s contracted(4) by simp
    then have "hd s \<noteq> CHR '':''" using colon_join_hd [of p ps] unfolding pre by blast
    moreover have "s \<noteq> []" using s' by simp
    ultimately have no: "\<not> (length s \<ge> 2 \<and> s ! 0 = CHR '':'' \<and> s ! 1 = CHR '':'')" by (cases s) simp_all
    have "?pre \<noteq> []" using pre by simp
    then have "parse_parts [] None s = parse_parts ?pre (Some m) (colon_join ?post)"
      using parse_join_colons [of ?pre "[]" "colon_join ?post"] contracted(1,2) s' by simp
    also have "\<dots> = Accepted (?pre @ ?post, Some m, [])"
      using parse_join [of ?pre ?post "Some m"] contracted(1,2) by simp
    finally show ?thesis using no by (simp only: if_False prod.case)
  qed
  have expand: "expand_parts m (m + (8 - n)) (?pre @ ?post @ replicate (8 - (m + (8 - n))) 0)
      = ?pre @ replicate (8 - (m + (8 - n))) 0 @ ?post"
    by (rule expand_parts_result) (use contracted in simp_all)
  have z: "8 - (m + (8 - n)) = n - m" using contracted(1,2) by simp
  have "ipv6_to_string a \<noteq> []" "length (ipv6_to_string a) \<le> 45"
    using length_ipv6_to_string [of a] contracted(4) by simp_all
  then have "ipv6_from_string (ipv6_to_string a) = Accepted (ipv6_of_parts
      (expand_parts m (m + (8 - n)) (?pre @ ?post @ replicate (8 - (m + (8 - n))) 0)))"
    using parsed [OF refl] contracted(1,2)
    by (auto simp: ipv6_from_string_def simp del: One_nat_def split: if_splits)
  then show ?thesis unfolding expand unfolding z parts [symmetric] ipv6_of_address_parts .
qed

section \<open>Order\<close>

lemma bytes_equal_iff: "length as = length bs \<Longrightarrow> bytes_equal as bs \<longleftrightarrow> as = bs"
  by (induction as bs rule: bytes_equal.induct) auto

lemma ipv6_bytes_inj: "ipv6_bytes a = ipv6_bytes b \<longleftrightarrow> a = b"
  by (cases a; cases b) simp

lemma length_ipv6_bytes [simp]: "length (ipv6_bytes a) = 16"
  by (cases a) simp

lemma bytes_less_linear:
  "length as = length bs \<Longrightarrow> as = bs \<or> bytes_less as bs \<or> bytes_less bs as"
  by (induction as bs rule: bytes_less.induct) auto

lemma bytes_less_asym: "bytes_less as bs \<Longrightarrow> \<not> bytes_less bs as"
  by (induction as bs rule: bytes_less.induct) (auto split: if_splits)

lemma bytes_less_trans:
  "length as = length bs \<Longrightarrow> length bs = length cs \<Longrightarrow> bytes_less as bs \<Longrightarrow> bytes_less bs cs \<Longrightarrow> bytes_less as cs"
proof (induction as bs arbitrary: cs rule: bytes_less.induct)
  case (1 a as b bs)
  then show ?case by (cases cs) (auto split: if_splits)
qed simp_all

lemmas ipv6_address_order_defs = less_ipv6_address_def less_eq_ipv6_address_def ipv6_address_less_eq_def ipv6_address_less_def

instance ipv6_address :: linorder
proof
  fix a b c :: ipv6_address
  show "a < b \<longleftrightarrow> a \<le> b \<and> \<not> b \<le> a"
    using bytes_less_asym by (auto simp: ipv6_address_order_defs)
  show "a \<le> a" using bytes_less_asym by (auto simp: ipv6_address_order_defs)
  show "a \<le> b \<Longrightarrow> b \<le> a \<Longrightarrow> a = b" "a \<le> b \<or> b \<le> a"
    using bytes_less_linear [of "ipv6_bytes a" "ipv6_bytes b"] bytes_less_asym
    by (auto simp: ipv6_address_order_defs ipv6_bytes_inj)
  show "a \<le> c" if "a \<le> b" "b \<le> c"
  proof (rule ccontr)
    assume "\<not> a \<le> c"
    then have ca: "bytes_less (ipv6_bytes c) (ipv6_bytes a)" by (simp add: ipv6_address_order_defs)
    from bytes_less_linear [of "ipv6_bytes a" "ipv6_bytes b"] that(1)
    have "a = b \<or> bytes_less (ipv6_bytes a) (ipv6_bytes b)"
      by (auto simp: ipv6_address_order_defs ipv6_bytes_inj)
    then have "bytes_less (ipv6_bytes c) (ipv6_bytes b)" using ca bytes_less_trans by (metis length_ipv6_bytes)
    then show False using that(2) by (simp add: ipv6_address_order_defs)
  qed
qed

section \<open>Halves\<close>

lemma bit_byte_of:
  assumes "n + 8 \<le> 64"
  shows "bit (push_bit n (ucast (ucast (drop_bit n h) :: u8)) :: u64) i \<longleftrightarrow> n \<le> i \<and> i < n + 8 \<and> bit (h :: u64) i"
proof (cases "n \<le> i")
  case True
  then show ?thesis using assms by (auto simp: bit_simps dest: bit_imp_le_length)
qed (simp add: bit_simps)

lemma half_of_half_bytes: "half_of_bytes (half_bytes h) = h"
proof (rule bit_eqI)
  fix i assume "possible_bit TYPE(u64) i"
  then have "i < 64" by simp
  then have cover: "56 \<le> i \<and> i < 64 \<or> 48 \<le> i \<and> i < 56 \<or> 40 \<le> i \<and> i < 48 \<or> 32 \<le> i \<and> i < 40 \<or>
      24 \<le> i \<and> i < 32 \<or> 16 \<le> i \<and> i < 24 \<or> 8 \<le> i \<and> i < 16 \<or> 0 \<le> i \<and> i < 8" by linarith
  have last: "bit (ucast (ucast h :: u8) :: u64) i \<longleftrightarrow> 0 \<le> i \<and> i < 8 \<and> bit h i"
    using bit_byte_of [of 0 h i] by simp
  show "bit (half_of_bytes (half_bytes h)) i = bit h i"
    using cover last bit_byte_of [of 56 h i] bit_byte_of [of 48 h i] bit_byte_of [of 40 h i]
      bit_byte_of [of 32 h i] bit_byte_of [of 24 h i] bit_byte_of [of 16 h i] bit_byte_of [of 8 h i]
    unfolding half_of_bytes_def half_bytes_def bit_or_iff
    by (simp only: list.map nth_Cons_0 nth_Cons_numeral nth_Cons_Suc drop_bit_0 numeral_plus_numeral
        id_apply, simp) argo
qed

lemma halves_of_ipv6:
  "subnet_prefix (ipv6_of_halves p q) = p \<and> interface_identifier (ipv6_of_halves p q) = q"
proof -
  have "ipv6_bytes (ipv6_of_halves p q) = half_bytes p @ half_bytes q"
    by (simp add: ipv6_of_halves_def ipv6_of_bytes_def half_bytes_def)
  moreover have "length (half_bytes p) = 8" by (simp add: half_bytes_def)
  ultimately show ?thesis
    by (simp add: subnet_prefix_def interface_identifier_def half_of_half_bytes)
qed

section \<open>Properties\<close>

text \<open>
  C40. Printing an address and parsing the result gives the address back, whatever runs of zeros
  are contracted; the printed string fits the printer's 40-byte buffer.
\<close>

theorem ipv6_round_trip:
  "ipv6_from_string (ipv6_to_string a) = Accepted a \<and> length (ipv6_to_string a) \<le> 39"
  using ipv6_parses_printed length_ipv6_to_string by blast

text \<open>The finding on the dotted suffix: a string that stops inside it is read past its end.\<close>

lemma ipv6_reads_past_end: "ipv6_from_string ''::1.2'' = Out_of_bounds"
proof -
  have "take_run is_hex_digit 3 ''.2'' = ([], ''.2'')"
    by (simp add: is_hex_digit_def try_parse_hex_digit_def less_eq_char_def numeral_3_eq_3)
  moreover have "take_run isdigit 2 [] = ([], [])" by simp
  moreover have "try_parse_hex_digit CHR ''1'' = Some 1"
    by (simp add: try_parse_hex_digit_def less_eq_char_def)
  moreover have "decimal_more 3 ''.2'' = Out_of_bounds"
    by (simp add: numeral_3_eq_3 isdigit_def digit_value_def)
  ultimately show ?thesis
    by (simp add: ipv6_from_string_def parse_parts.simps [of "[]" "Some 0" "''1.2''"] decimal_first_def)
qed

end
