(* ===== verification/Ip_Endpoint.thy ===== *)
theory Ip_Endpoint
  imports Ipv6_Address
begin

text \<open>
  include/coro/net/ipv6_endpoint.h, ip_address.h, ip_endpoint.h and
  src/coro/socket_helpers.cpp: endpoints with IPv6 addresses, the unions of both families, and
  the conversion to and from the operating system's socket addresses. \<open>parse_port\<close> is the one
  of Ipv4_Address; ipv6_endpoint.h repeats its text.
\<close>

section \<open>IPv6 endpoints\<close>

record ipv6_endpoint =
  address6 :: ipv6_address
  port6 :: u16

definition ipv6_endpoint_to_string :: "ipv6_endpoint \<Rightarrow> string" where
  "ipv6_endpoint_to_string e =
     CHR ''['' # ipv6_to_string (address6 e) @ '']:'' @ nat_string (unat (port6 e))"

text \<open>\<open>string.find("]:")\<close>: what comes before the first one, and what comes after it.\<close>

fun find_close :: "string \<Rightarrow> (string \<times> string) option" where
  "find_close (c # d # s) =
     (if c = CHR '']'' \<and> d = CHR '':'' then Some ([], s)
      else map_option (\<lambda>(before, after). (c # before, after)) (find_close (d # s)))"
| "find_close _ = None"

definition ipv6_endpoint_from_string :: "string \<Rightarrow> ipv6_endpoint read" where
  "ipv6_endpoint_from_string s =
     (if length s < 6 then Rejected
      else if hd s \<noteq> CHR ''['' then Rejected
      else case find_close (tl s) of
        None \<Rightarrow> Rejected
      | Some (address, port) \<Rightarrow>
          (case ipv6_from_string address of
             Out_of_bounds \<Rightarrow> Out_of_bounds
           | Rejected \<Rightarrow> Rejected
           | Accepted a \<Rightarrow>
               (case parse_port port of
                  None \<Rightarrow> Rejected
                | Some p \<Rightarrow> Accepted \<lparr>address6 = a, port6 = p\<rparr>)))"

definition ipv6_endpoint_less :: "ipv6_endpoint \<Rightarrow> ipv6_endpoint \<Rightarrow> bool" where
  "ipv6_endpoint_less a b \<longleftrightarrow>
     address6 a < address6 b \<or> (address6 a = address6 b \<and> port6 a < port6 b)"

section \<open>Addresses of either family\<close>

datatype ip_address = Ip4 (to_ipv4: ipv4_address) | Ip6 (to_ipv6: ipv6_address)

fun ip_address_bytes :: "ip_address \<Rightarrow> u8 list" where
  "ip_address_bytes (Ip4 a) = [byte0 a, byte1 a, byte2 a, byte3 a]"
| "ip_address_bytes (Ip6 a) = ipv6_bytes a"

fun ip_address_to_string :: "ip_address \<Rightarrow> string" where
  "ip_address_to_string (Ip4 a) = ipv4_to_string a"
| "ip_address_to_string (Ip6 a) = ipv6_to_string a"

definition ip_address_from_string :: "string \<Rightarrow> ip_address read" where
  "ip_address_from_string s =
     (case ipv4_from_string s of
        Some a \<Rightarrow> Accepted (Ip4 a)
      | None \<Rightarrow>
          (case ipv6_from_string s of
             Accepted a \<Rightarrow> Accepted (Ip6 a)
           | Rejected \<Rightarrow> Rejected
           | Out_of_bounds \<Rightarrow> Out_of_bounds))"

fun ip_address_equal :: "ip_address \<Rightarrow> ip_address \<Rightarrow> bool" where
  "ip_address_equal (Ip4 a) (Ip4 b) = (a = b)"
| "ip_address_equal (Ip6 a) (Ip6 b) = bytes_equal (ipv6_bytes a) (ipv6_bytes b)"
| "ip_address_equal _ _ = False"

fun ip_address_less :: "ip_address \<Rightarrow> ip_address \<Rightarrow> bool" where
  "ip_address_less (Ip4 a) (Ip4 b) = (a < b)"
| "ip_address_less (Ip4 a) (Ip6 b) = True"
| "ip_address_less (Ip6 a) (Ip6 b) = (a < b)"
| "ip_address_less (Ip6 a) (Ip4 b) = False"

definition ip_address_less_eq :: "ip_address \<Rightarrow> ip_address \<Rightarrow> bool" where
  "ip_address_less_eq a b \<longleftrightarrow> \<not> ip_address_less b a"

text \<open>The operators of the class are the operators of the order class.\<close>

instantiation ip_address :: ord
begin

definition less_ip_address :: "ip_address \<Rightarrow> ip_address \<Rightarrow> bool" where
  "less_ip_address a b \<longleftrightarrow> ip_address_less a b"

definition less_eq_ip_address :: "ip_address \<Rightarrow> ip_address \<Rightarrow> bool" where
  "less_eq_ip_address a b \<longleftrightarrow> ip_address_less_eq a b"

instance ..

end

lemmas ip_address_order_defs = less_ip_address_def less_eq_ip_address_def ip_address_less_eq_def

instance ip_address :: linorder
proof
  fix a b c :: ip_address
  show "a < b \<longleftrightarrow> a \<le> b \<and> \<not> b \<le> a" by (cases a; cases b) (auto simp: ip_address_order_defs)
  show "a \<le> a" by (cases a) (simp_all add: ip_address_order_defs)
  show "a \<le> b \<Longrightarrow> b \<le> c \<Longrightarrow> a \<le> c" by (cases a; cases b; cases c) (simp_all add: ip_address_order_defs)
  show "a \<le> b \<Longrightarrow> b \<le> a \<Longrightarrow> a = b" by (cases a; cases b) (simp_all add: ip_address_order_defs)
  show "a \<le> b \<or> b \<le> a" by (cases a; cases b) (auto simp: ip_address_order_defs)
qed

section \<open>Endpoints of either family\<close>

datatype ip_endpoint = Ep4 ipv4_endpoint | Ep6 ipv6_endpoint

fun ip_endpoint_address :: "ip_endpoint \<Rightarrow> ip_address" where
  "ip_endpoint_address (Ep4 e) = Ip4 (address4 e)"
| "ip_endpoint_address (Ep6 e) = Ip6 (address6 e)"

fun ip_endpoint_port :: "ip_endpoint \<Rightarrow> u16" where
  "ip_endpoint_port (Ep4 e) = port4 e"
| "ip_endpoint_port (Ep6 e) = port6 e"

fun ip_endpoint_to_string :: "ip_endpoint \<Rightarrow> string" where
  "ip_endpoint_to_string (Ep4 e) = ipv4_endpoint_to_string e"
| "ip_endpoint_to_string (Ep6 e) = ipv6_endpoint_to_string e"

definition ip_endpoint_from_string :: "string \<Rightarrow> ip_endpoint read" where
  "ip_endpoint_from_string s =
     (case ipv4_endpoint_from_string s of
        Some e \<Rightarrow> Accepted (Ep4 e)
      | None \<Rightarrow>
          (case ipv6_endpoint_from_string s of
             Accepted e \<Rightarrow> Accepted (Ep6 e)
           | Rejected \<Rightarrow> Rejected
           | Out_of_bounds \<Rightarrow> Out_of_bounds))"

fun ip_endpoint_less :: "ip_endpoint \<Rightarrow> ip_endpoint \<Rightarrow> bool" where
  "ip_endpoint_less (Ep4 a) (Ep4 b) = ipv4_endpoint_less a b"
| "ip_endpoint_less (Ep4 a) (Ep6 b) = True"
| "ip_endpoint_less (Ep6 a) (Ep6 b) = ipv6_endpoint_less a b"
| "ip_endpoint_less (Ep6 a) (Ep4 b) = False"

definition ip_endpoint_less_eq :: "ip_endpoint \<Rightarrow> ip_endpoint \<Rightarrow> bool" where
  "ip_endpoint_less_eq a b \<longleftrightarrow> \<not> ip_endpoint_less b a"

text \<open>The operators of the class are the operators of the order class.\<close>

instantiation ip_endpoint :: ord
begin

definition less_ip_endpoint :: "ip_endpoint \<Rightarrow> ip_endpoint \<Rightarrow> bool" where
  "less_ip_endpoint a b \<longleftrightarrow> ip_endpoint_less a b"

definition less_eq_ip_endpoint :: "ip_endpoint \<Rightarrow> ip_endpoint \<Rightarrow> bool" where
  "less_eq_ip_endpoint a b \<longleftrightarrow> ip_endpoint_less_eq a b"

instance ..

end

lemma endpoint_less_laws:
  "\<not> (ipv4_endpoint_less a b \<and> ipv4_endpoint_less b a)"
  "ipv4_endpoint_less a b \<or> a = b \<or> ipv4_endpoint_less b a"
  "\<not> ipv4_endpoint_less b a \<Longrightarrow> \<not> ipv4_endpoint_less c b \<Longrightarrow> \<not> ipv4_endpoint_less c a"
  "\<not> (ipv6_endpoint_less d e \<and> ipv6_endpoint_less e d)"
  "ipv6_endpoint_less d e \<or> d = e \<or> ipv6_endpoint_less e d"
  "\<not> ipv6_endpoint_less e d \<Longrightarrow> \<not> ipv6_endpoint_less f e \<Longrightarrow> \<not> ipv6_endpoint_less f d"
  by (auto simp: ipv4_endpoint_less_def ipv6_endpoint_less_def
      intro!: ipv4_endpoint.equality ipv6_endpoint.equality)

lemmas ip_endpoint_order_defs = less_ip_endpoint_def less_eq_ip_endpoint_def ip_endpoint_less_eq_def

instance ip_endpoint :: linorder
proof
  fix a b c :: ip_endpoint
  show "a < b \<longleftrightarrow> a \<le> b \<and> \<not> b \<le> a"
    using endpoint_less_laws(1,4) by (cases a; cases b) (auto simp: ip_endpoint_order_defs)
  show "a \<le> a" using endpoint_less_laws(1,4) by (cases a) (auto simp: ip_endpoint_order_defs)
  show "a \<le> b \<Longrightarrow> b \<le> c \<Longrightarrow> a \<le> c"
    using endpoint_less_laws(3,6) by (cases a; cases b; cases c) (auto simp: ip_endpoint_order_defs)
  show "a \<le> b \<Longrightarrow> b \<le> a \<Longrightarrow> a = b"
    using endpoint_less_laws(2,5) by (cases a; cases b) (auto simp: ip_endpoint_order_defs)
  show "a \<le> b \<or> b \<le> a"
    using endpoint_less_laws(1,4) by (cases a; cases b) (auto simp: ip_endpoint_order_defs)
qed

section \<open>Socket addresses\<close>

text \<open>
  The structures \<open>sockaddr_in\<close> and \<open>sockaddr_in6\<close>: the port in network byte order and the bytes
  of the address. \<open>htons\<close> and \<open>ntohs\<close> are the system's.
\<close>

datatype sockaddr =
    Sockaddr_in (sin_port: u16) (sin_addr: "u8 list")
  | Sockaddr_in6 (sin6_port: u16) (sin6_addr: "u8 list") (sin6_flowinfo: u32) (sin6_scope_id: u32)

fun sockaddr_to_ip_endpoint :: "(u16 \<Rightarrow> u16) \<Rightarrow> sockaddr \<Rightarrow> ip_endpoint" where
  "sockaddr_to_ip_endpoint ntohs (Sockaddr_in port b) =
     Ep4 \<lparr>address4 = Ipv4 (b ! 0) (b ! 1) (b ! 2) (b ! 3), port4 = ntohs port\<rparr>"
| "sockaddr_to_ip_endpoint ntohs (Sockaddr_in6 port b flow scope) =
     Ep6 \<lparr>address6 = ipv6_of_bytes b, port6 = ntohs port\<rparr>"

fun ip_endpoint_to_sockaddr :: "(u16 \<Rightarrow> u16) \<Rightarrow> ip_endpoint \<Rightarrow> sockaddr" where
  "ip_endpoint_to_sockaddr htons (Ep4 e) =
     Sockaddr_in (htons (port4 e)) (ip_address_bytes (Ip4 (address4 e)))"
| "ip_endpoint_to_sockaddr htons (Ep6 e) =
     Sockaddr_in6 (htons (port6 e)) (ip_address_bytes (Ip6 (address6 e))) 0 0"

section \<open>Round trips\<close>

lemma find_close_append:
  "CHR '']'' \<notin> set s \<Longrightarrow> find_close (s @ CHR '']'' # CHR '':'' # t) = Some (s, t)"
proof (induction s)
  case (Cons c s)
  then show ?case by (cases s) auto
qed simp

lemma hex_char_not_bracket: "v < 16 \<Longrightarrow> hex_char v \<noteq> CHR '']''"
  using try_parse_hex_char [of v] by (auto simp: try_parse_hex_digit_def less_eq_char_def)

lemma colon_join_no_bracket: "CHR '']'' \<notin> set (colon_join ps)"
proof -
  have "CHR '']'' \<notin> set (part_chars p)" for p
    using part_digits_shape [of p] hex_char_not_bracket by fastforce
  then show ?thesis by (induction ps rule: colon_join.induct) simp_all
qed

lemma ipv6_to_string_no_bracket: "CHR '']'' \<notin> set (ipv6_to_string a)"
  by (cases a rule: ipv6_to_string_shape) (use colon_join_no_bracket in auto)

lemma ipv6_to_string_has_colon: "CHR '':'' \<in> set (ipv6_to_string a)"
proof (cases a rule: ipv6_to_string_shape)
  case whole
  have "address_parts a = address_part a 0 # address_part a 1 # map (address_part a) [2..<8]"
    by (simp add: address_parts_def upt_conv_Cons numeral_2_eq_2)
  then show ?thesis using whole by simp
qed simp

lemma ipv6_to_string_long: "2 \<le> length (ipv6_to_string a)"
proof (cases a rule: ipv6_to_string_shape)
  case whole
  have "address_parts a = address_part a 0 # address_part a 1 # map (address_part a) [2..<8]"
    by (simp add: address_parts_def upt_conv_Cons numeral_2_eq_2)
  then show ?thesis using whole part_digits_shape [of "address_part a 0"]
    by (cases "part_digits (address_part a 0)") simp_all
qed simp

lemma ipv6_endpoint_parses: "ipv6_endpoint_from_string (ipv6_endpoint_to_string e) = Accepted e"
proof -
  have "nat_string (unat (port6 e)) \<noteq> []" using nat_string_Cons [of "unat (port6 e)"] by auto
  then have "\<not> length (ipv6_endpoint_to_string e) < 6"
    using ipv6_to_string_long [of "address6 e"]
    by (cases "nat_string (unat (port6 e))") (simp_all add: ipv6_endpoint_to_string_def)
  then show ?thesis
    using find_close_append [OF ipv6_to_string_no_bracket, of "address6 e" "nat_string (unat (port6 e))"]
    by (simp add: ipv6_endpoint_from_string_def ipv6_endpoint_to_string_def ipv6_parses_printed
        parse_port_nat_string)
qed

lemma ipv4_from_string_no_colon:
  assumes "CHR '':'' \<in> set s"
  shows "ipv4_from_string s = None"
proof (rule ccontr)
  assume "ipv4_from_string s \<noteq> None"
  then obtain a where "ipv4_from_string s = Some a" by blast
  from ipv4_parsed [OF this] assms show False
    using ipv4_to_string_no [of "CHR '':''" a] nat_string_no [of "CHR '':''"] by auto
qed

lemma ip_address_parses: "ip_address_from_string (ip_address_to_string a) = Accepted a"
  by (cases a) (simp_all add: ip_address_from_string_def ipv4_parses_dotted ipv6_parses_printed
      ipv4_from_string_no_colon ipv6_to_string_has_colon)

lemma ip_endpoint_parses: "ip_endpoint_from_string (ip_endpoint_to_string e) = Accepted e"
proof (cases e)
  case (Ep4 e)
  then show ?thesis by (simp add: ip_endpoint_from_string_def ipv4_endpoint_parses)
next
  case (Ep6 f)
  have "ipv4_from_string (CHR ''['' # s) = None" for s by (simp add: ipv4_from_string_def)
  then have "ipv4_endpoint_from_string (ipv6_endpoint_to_string f) = None"
    by (simp add: ipv4_endpoint_from_string_def ipv6_endpoint_to_string_def)
  then show ?thesis using Ep6 by (simp add: ip_endpoint_from_string_def ipv6_endpoint_parses)
qed

section \<open>Properties\<close>

text \<open>
  Printing an address or an endpoint of either family and parsing the result gives it back:
  neither family's text is taken for the other's.
\<close>

theorem ip_text_round_trip:
  "ip_address_from_string (ip_address_to_string a) = Accepted a \<and>
   ip_endpoint_from_string (ip_endpoint_to_string e) = Accepted e"
  by (simp add: ip_address_parses ip_endpoint_parses)

text \<open>
  An endpoint survives the conversion to a socket address of the operating system and back,
  given that \<open>ntohs\<close> undoes \<open>htons\<close>.
\<close>

theorem sockaddr_round_trip:
  assumes "ntohs (htons (ip_endpoint_port e)) = ip_endpoint_port e"
  shows "sockaddr_to_ip_endpoint ntohs (ip_endpoint_to_sockaddr htons e) = e"
  using assms
proof (cases e)
  case (Ep6 f)
  then show ?thesis using assms by (cases f; cases "address6 f") (simp add: ipv6_of_bytes_def)
qed simp

definition byte_swap :: "u16 \<Rightarrow> u16" where
  "byte_swap w = word_of_nat (unat w mod 256 * 256 + unat w div 256)"

theorem sockaddr_round_trip_witness:
  "sockaddr_to_ip_endpoint byte_swap (ip_endpoint_to_sockaddr byte_swap
     (Ep4 \<lparr>address4 = Ipv4 10 0 0 1, port4 = 8080\<rparr>)) = Ep4 \<lparr>address4 = Ipv4 10 0 0 1, port4 = 8080\<rparr>"
  by (rule sockaddr_round_trip) (simp add: byte_swap_def)

end
