(* ===== verification/Sequences.thy ===== *)
theory Sequences
  imports Coro_Prelude
begin

text \<open>
  include/coro/sequence_traits.h, sequence_range.h and single_producer_sequencer.h: sequence
  numbers that wrap, ranges of them, and the claims of a single producer on a ring buffer. The
  sequence type is the default \<open>std::size_t\<close>, of 64 bits.
\<close>

section \<open>Traits\<close>

definition initial_sequence :: u64 where
  "initial_sequence = - 1"

definition difference :: "u64 \<Rightarrow> u64 \<Rightarrow> int" where
  "difference a b = sint (a - b)"

definition precedes :: "u64 \<Rightarrow> u64 \<Rightarrow> bool" where
  "precedes a b \<longleftrightarrow> difference a b < 0"

text \<open>Positions less than \<open>2 ^ 63\<close> apart are compared as the integers they stand for.\<close>

lemma precedes_positions:
  "\<bar>a - b\<bar> < 2 ^ 63 \<Longrightarrow> precedes (word_of_int a) (word_of_int b) \<longleftrightarrow> a < b"
  by (simp add: precedes_def difference_def sint_diff_of_int)

lemma precedes_irrefl [simp]: "\<not> precedes a a"
  by (simp add: precedes_def difference_def)

section \<open>Ranges\<close>

record sequence_range =
  m_begin :: u64
  m_end :: u64

text \<open>The constructor's assertion.\<close>

definition range_assert :: "sequence_range \<Rightarrow> bool" where
  "range_assert r \<longleftrightarrow> \<not> precedes (m_end r) (m_begin r)"

definition range_size :: "sequence_range \<Rightarrow> u64" where
  "range_size r = word_of_int (difference (m_end r) (m_begin r))"

definition range_empty :: "sequence_range \<Rightarrow> bool" where
  "range_empty r \<longleftrightarrow> m_begin r = m_end r"

definition range_front :: "sequence_range \<Rightarrow> u64" where
  "range_front r = m_begin r"

definition range_back :: "sequence_range \<Rightarrow> u64" where
  "range_back r = m_end r - 1"

definition range_nth :: "sequence_range \<Rightarrow> u64 \<Rightarrow> u64" where
  "range_nth r index = m_begin r + index"

definition range_first :: "sequence_range \<Rightarrow> u64 \<Rightarrow> sequence_range" where
  "range_first r count = (let n = min (range_size r) count in r\<lparr>m_end := m_begin r + n\<rparr>)"

definition range_skip :: "sequence_range \<Rightarrow> u64 \<Rightarrow> sequence_range" where
  "range_skip r count = (let n = min (range_size r) count in r\<lparr>m_begin := m_begin r + n\<rparr>)"

lemma unat_step_down: "it \<noteq> e \<Longrightarrow> unat (e - (it + 1)) < unat (e - it :: u64)"
proof -
  assume "it \<noteq> e"
  then have "e - it \<noteq> 0" by simp
  then have "unat (e - it - 1) < unat (e - it)" by (metis measure_unat)
  then show ?thesis by (simp add: diff_diff_eq)
qed

text \<open>The numbers that a loop from \<open>begin()\<close> to \<open>end()\<close> visits.\<close>

function iterate :: "u64 \<Rightarrow> u64 \<Rightarrow> u64 list" where
  "iterate it e = (if it = e then [] else it # iterate (it + 1) e)"
  by pat_completeness auto

termination
  by (relation "measure (\<lambda>(it, e). unat (e - it))") (auto intro: unat_step_down)

declare iterate.simps [simp del]

definition range_elements :: "sequence_range \<Rightarrow> u64 list" where
  "range_elements r = iterate (m_begin r) (m_end r)"

lemma range_size_eq: "range_size r = m_end r - m_begin r"
  by (simp add: range_size_def difference_def)

lemma iterate_map: "iterate it e = map (\<lambda>i. it + of_nat i) [0..<unat (e - it)]"
proof (induction it e rule: iterate.induct)
  case (1 it e)
  show ?case
  proof (cases "it = e")
    case False
    then have "e - it \<noteq> 0" by simp
    then have "unat (e - it - 1) = unat (e - it) - 1" "0 < unat (e - it)"
      by (rule unat_minus_one, simp add: unat_gt_0)
    then have u: "unat (e - it) = Suc (unat (e - (it + 1)))" by (simp add: diff_diff_eq)
    have "map (\<lambda>i. it + of_nat i) [0..<Suc n] = it # map (\<lambda>i. it + 1 + of_nat i) [0..<n]" for n
      by (simp add: upt_conv_Cons map_Suc_upt [symmetric] comp_def algebra_simps del: upt_Suc)
    then show ?thesis using 1 False u by (subst iterate.simps) (simp del: upt_Suc)
  qed (simp add: iterate.simps)
qed

lemma range_elements_map:
  "range_elements r = map (\<lambda>i. m_begin r + of_nat i) [0..<unat (range_size r)]"
  by (simp add: range_elements_def iterate_map range_size_eq)

lemma range_split:
  "range_elements (range_first r n) @ range_elements (range_skip r n) = range_elements r"
proof -
  define k where "k = min (range_size r) n"
  have k: "unat k \<le> unat (range_size r)" by (simp add: k_def word_le_nat_alt [symmetric])
  have first: "range_elements (range_first r n) = map (\<lambda>i. m_begin r + of_nat i) [0..<unat k]"
    by (simp add: range_elements_map range_first_def Let_def k_def range_size_eq)
  have "range_size (range_skip r n) = range_size r - k"
    by (simp add: range_skip_def Let_def k_def range_size_eq algebra_simps)
  then have "unat (range_size (range_skip r n)) = unat (range_size r) - unat k"
    using k by (simp add: unat_sub word_le_nat_alt)
  moreover have "m_begin (range_skip r n) = m_begin r + k"
    by (simp add: range_skip_def Let_def k_def)
  ultimately have skip: "range_elements (range_skip r n)
      = map (\<lambda>i. m_begin r + k + of_nat i) [0..<unat (range_size r) - unat k]"
    by (simp add: range_elements_map)
  have "map (\<lambda>i. m_begin r + of_nat i) [unat k..<unat (range_size r)]
      = map (\<lambda>i. m_begin r + k + of_nat i) [0..<unat (range_size r) - unat k]"
    by (rule nth_equalityI) (simp_all add: algebra_simps)
  moreover have "[0..<unat (range_size r)] = [0..<unat k] @ [unat k..<unat (range_size r)]"
    using k upt_add_eq_append [of 0 "unat k" "unat (range_size r) - unat k"] by simp
  ultimately show ?thesis by (simp add: range_elements_map [of r] first skip)
qed

section \<open>A single producer\<close>

text \<open>
  The sequencer, the sequence number its consumers have published to the barrier it watches
  (\<open>m_consumer_barrier\<close>), and the claim operation under way: its target, the last number it
  knows to be published, and the count (\<open>None\<close> for \<open>claim_one\<close>).
\<close>

record claim_op =
  target_sequence :: u64
  last_known_published :: u64
  m_count :: "u64 option"

record single_producer_sequencer =
  consumer_published :: u64
  m_buffer_size :: u64
  m_next_to_claim :: u64
  producer_published :: u64
  claiming :: "claim_op option"

definition single_producer_new :: "u64 \<Rightarrow> u64 \<Rightarrow> single_producer_sequencer" where
  "single_producer_new sz init_seq = \<lparr>consumer_published = init_seq, m_buffer_size = sz,
     m_next_to_claim = init_seq + 1, producer_published = init_seq, claiming = None\<rparr>"

definition claim_start :: "u64 option \<Rightarrow> single_producer_sequencer \<Rightarrow> single_producer_sequencer" where
  "claim_start count s = s\<lparr>claiming := Some \<lparr>target_sequence = m_next_to_claim s - m_buffer_size s,
     last_known_published = consumer_published s, m_count = count\<rparr>\<rparr>"

definition claim_await_ready :: "claim_op \<Rightarrow> bool" where
  "claim_await_ready c \<longleftrightarrow> \<not> precedes (last_known_published c) (target_sequence c)"

text \<open>The barrier resumes the operation and tells it what is published now.\<close>

definition claim_resumed :: "claim_op \<Rightarrow> single_producer_sequencer \<Rightarrow> single_producer_sequencer" where
  "claim_resumed c s = s\<lparr>claiming := Some (c\<lparr>last_known_published := consumer_published s\<rparr>)\<rparr>"

text \<open>\<open>await_resume\<close>: the numbers claimed.\<close>

definition claim_one_resume ::
    "single_producer_sequencer \<Rightarrow> single_producer_sequencer \<times> sequence_range" where
  "claim_one_resume s =
     (s\<lparr>m_next_to_claim := m_next_to_claim s + 1, claiming := None\<rparr>,
      \<lparr>m_begin = m_next_to_claim s, m_end = m_next_to_claim s + 1\<rparr>)"

definition claim_up_to_resume ::
    "u64 \<Rightarrow> u64 \<Rightarrow> single_producer_sequencer \<Rightarrow> single_producer_sequencer \<times> sequence_range" where
  "claim_up_to_resume last_known count s =
     (let last_available_seq = last_known + m_buffer_size s;
          begin_seq = m_next_to_claim s;
          available_count = (last_available_seq - begin_seq) + 1;
          count_to_claim = min count available_count;
          end_seq = begin_seq + count_to_claim
      in (s\<lparr>m_next_to_claim := end_seq, claiming := None\<rparr>, \<lparr>m_begin = begin_seq, m_end = end_seq\<rparr>))"

definition claim_finish ::
    "claim_op \<Rightarrow> single_producer_sequencer \<Rightarrow> single_producer_sequencer \<times> sequence_range" where
  "claim_finish c s = (case m_count c of None \<Rightarrow> claim_one_resume s
     | Some count \<Rightarrow> claim_up_to_resume (last_known_published c) count s)"

definition single_producer_publish ::
    "u64 \<Rightarrow> single_producer_sequencer \<Rightarrow> single_producer_sequencer" where
  "single_producer_publish seq s = s\<lparr>producer_published := seq\<rparr>"

definition single_producer_publish_range ::
    "sequence_range \<Rightarrow> single_producer_sequencer \<Rightarrow> single_producer_sequencer" where
  "single_producer_publish_range r = single_producer_publish (range_back r)"

text \<open>
  The steps of the producer and of its consumers. What the documentation asks of the callers is
  in the guards: the producer publishes numbers it has claimed, and the consumers numbers that
  the producer has published, in order.
\<close>

inductive sp_step :: "single_producer_sequencer \<Rightarrow> single_producer_sequencer \<Rightarrow> bool" where
  sp_start: "claiming s = None \<Longrightarrow> sp_step s (claim_start count s)"
| sp_resumed: "claiming s = Some c \<Longrightarrow> \<not> claim_await_ready c \<Longrightarrow>
    \<not> precedes (consumer_published s) (target_sequence c) \<Longrightarrow> sp_step s (claim_resumed c s)"
| sp_finish: "claiming s = Some c \<Longrightarrow> claim_await_ready c \<Longrightarrow> sp_step s (fst (claim_finish c s))"
| sp_publish: "unat (seq - producer_published s) < unat (m_next_to_claim s - producer_published s) \<Longrightarrow>
    sp_step s (single_producer_publish seq s)"
| sp_publish_range: "unat (range_back r - producer_published s) < unat (m_next_to_claim s - producer_published s) \<Longrightarrow>
    sp_step s (single_producer_publish_range r s)"
| sp_consume: "unat (seq - consumer_published s) \<le> unat (producer_published s - consumer_published s) \<Longrightarrow>
    sp_step s (s\<lparr>consumer_published := seq\<rparr>)"

definition sp_init :: "single_producer_sequencer \<Rightarrow> bool" where
  "sp_init s \<longleftrightarrow> (\<exists>k init_seq. k \<le> 60 \<and> s = single_producer_new (2 ^ k) init_seq)"

text \<open>
  The integer positions that the wrapping numbers stand for: consumers behind the producer,
  the producer behind its claims, and the claims at most a buffer ahead of the consumers.
\<close>

definition sp_positions ::
    "single_producer_sequencer \<Rightarrow> int \<Rightarrow> int \<Rightarrow> int \<Rightarrow> int \<Rightarrow> bool" where
  "sp_positions s sz c p n \<longleftrightarrow> consumer_published s = word_of_int c \<and>
     producer_published s = word_of_int p \<and> m_next_to_claim s = word_of_int n \<and>
     m_buffer_size s = word_of_int sz \<and> 0 < sz \<and> sz \<le> 2 ^ 60 \<and>
     c \<le> p \<and> p < n \<and> n \<le> c + sz + 1"

definition sp_claim_ok :: "single_producer_sequencer \<Rightarrow> int \<Rightarrow> int \<Rightarrow> int \<Rightarrow> bool" where
  "sp_claim_ok s sz c n \<longleftrightarrow> (\<forall>q. claiming s = Some q \<longrightarrow>
     target_sequence q = word_of_int (n - sz) \<and>
     (\<exists>l. last_known_published q = word_of_int l \<and> l \<le> c \<and> n \<le> l + sz + 1))"

definition sp_inv :: "single_producer_sequencer \<Rightarrow> bool" where
  "sp_inv s \<longleftrightarrow> (\<exists>sz c p n. sp_positions s sz c p n \<and> sp_claim_ok s sz c n)"

lemma uint_position: "0 \<le> x \<Longrightarrow> x < 2 ^ 64 \<Longrightarrow> uint (word_of_int x :: u64) = x"
  by (simp add: unsigned_of_int take_bit_int_eq_self)

lemma unat_diff_positions:
  assumes "0 \<le> b - a" "b - a < 2 ^ 63"
  shows "unat (word_of_int b - word_of_int a :: u64) = nat (b - a)"
proof -
  have "(word_of_int b - word_of_int a :: u64) = word_of_int (b - a)" by (rule wi_hom_sub)
  moreover have "uint (word_of_int (b - a) :: u64) = b - a"
    by (rule uint_position) (use assms in simp_all)
  ultimately show ?thesis by (metis unat_eq_nat_uint)
qed

text \<open>A number at most \<open>d\<close> after a position is the next position of that distance.\<close>

lemma position_after:
  fixes x :: u64
  shows "x = word_of_int (a + int (unat (x - word_of_int a)))"
proof -
  have "word_of_int (int (unat (x - word_of_int a))) = x - word_of_int a" by simp
  then have "word_of_int a + word_of_int (int (unat (x - word_of_int a))) = x" by (simp only: add_diff_eq) simp
  then show ?thesis by (simp only: wi_hom_add)
qed

lemma sp_inv_init: "sp_init s \<Longrightarrow> sp_inv s"
proof -
  assume "sp_init s"
  then obtain k i where k: "k \<le> 60" and s: "s = single_producer_new (2 ^ k) i" by (auto simp: sp_init_def)
  have "(2::int) ^ k \<le> 2 ^ 60" using k by (intro power_increasing) auto
  then have "sp_positions s (2 ^ k) (uint i) (uint i) (uint i + 1)"
    by (simp add: sp_positions_def s single_producer_new_def)
  moreover have "sp_claim_ok s (2 ^ k) (uint i) (uint i + 1)"
    by (simp add: sp_claim_ok_def s single_producer_new_def)
  ultimately show ?thesis unfolding sp_inv_def by blast
qed

text \<open>How many numbers a claim may take, and what it then takes.\<close>

lemma claim_ready_positions:
  assumes "sp_positions s sz c p n" "target_sequence q = word_of_int (n - sz)"
    "last_known_published q = word_of_int l" "l \<le> c" "n \<le> l + sz + 1"
  shows "claim_await_ready q \<longleftrightarrow> n \<le> l + sz"
proof -
  have "\<bar>l - (n - sz)\<bar> < 2 ^ 63"
    using assms by (auto simp: sp_positions_def)
  from precedes_positions [OF this] show ?thesis using assms by (auto simp: claim_await_ready_def)
qed

lemma claim_up_to_positions:
  assumes pos: "sp_positions s sz c p n" and l: "l \<le> c" "n \<le> l + sz"
  shows "fst (claim_up_to_resume (word_of_int l) count s)
     = s\<lparr>m_next_to_claim := word_of_int (n + min (uint count) (l + sz - n + 1)), claiming := None\<rparr>"
    and "snd (claim_up_to_resume (word_of_int l) count s)
     = \<lparr>m_begin = word_of_int n, m_end = word_of_int (n + min (uint count) (l + sz - n + 1))\<rparr>"
proof -
  have avail: "word_of_int l + m_buffer_size s - m_next_to_claim s + 1 = word_of_int (l + sz - n + 1)"
    using pos by (simp add: sp_positions_def)
  have bnd: "0 \<le> l + sz - n + 1" "l + sz - n + 1 < 2 ^ 64"
    using pos l by (auto simp: sp_positions_def)
  have "uint (word_of_int (l + sz - n + 1) :: u64) = l + sz - n + 1"
    using bnd by (rule uint_position)
  then have "uint (min count (word_of_int (l + sz - n + 1))) = min (uint count) (l + sz - n + 1)"
    by (simp add: min_def word_le_def)
  then have "min count (word_of_int (l + sz - n + 1)) = word_of_int (min (uint count) (l + sz - n + 1))"
    by (metis word_of_int_uint)
  then have "m_next_to_claim s + min count (word_of_int l + m_buffer_size s - m_next_to_claim s + 1)
      = word_of_int (n + min (uint count) (l + sz - n + 1))"
    using pos by (simp only: avail) (simp add: sp_positions_def)
  then show "fst (claim_up_to_resume (word_of_int l) count s)
     = s\<lparr>m_next_to_claim := word_of_int (n + min (uint count) (l + sz - n + 1)), claiming := None\<rparr>"
    "snd (claim_up_to_resume (word_of_int l) count s)
     = \<lparr>m_begin = word_of_int n, m_end = word_of_int (n + min (uint count) (l + sz - n + 1))\<rparr>"
    using pos by (simp_all add: claim_up_to_resume_def Let_def sp_positions_def)
qed

lemma claim_one_positions:
  assumes "sp_positions s sz c p n"
  shows "claim_one_resume s = (s\<lparr>m_next_to_claim := word_of_int (n + 1), claiming := None\<rparr>,
    \<lparr>m_begin = word_of_int n, m_end = word_of_int (n + 1)\<rparr>)"
  using assms by (simp add: claim_one_resume_def sp_positions_def)

text \<open>What a finished claim has taken: \<open>m\<close> numbers from the next one on.\<close>

lemma claim_finish_positions:
  assumes pos: "sp_positions s sz c p n" and ok: "sp_claim_ok s sz c n"
    and q: "claiming s = Some q" "claim_await_ready q"
  shows "\<exists>m. 0 \<le> m \<and> n + m \<le> c + sz + 1 \<and>
    fst (claim_finish q s) = s\<lparr>m_next_to_claim := word_of_int (n + m), claiming := None\<rparr> \<and>
    snd (claim_finish q s) = \<lparr>m_begin = word_of_int n, m_end = word_of_int (n + m)\<rparr> \<and>
    (case m_count q of None \<Rightarrow> m = 1 | Some count \<Rightarrow> m \<le> uint count \<and> (count \<noteq> 0 \<longrightarrow> 0 < m))"
proof -
  obtain l where l: "target_sequence q = word_of_int (n - sz)"
    "last_known_published q = word_of_int l" "l \<le> c" "n \<le> l + sz + 1"
    using ok q(1) by (auto simp: sp_claim_ok_def)
  have ready: "n \<le> l + sz" using claim_ready_positions [OF pos l] q(2) by simp
  show ?thesis
  proof (cases "m_count q")
    case None
    then show ?thesis using claim_one_positions [OF pos] ready l(3)
      by (intro exI [of _ 1]) (simp add: claim_finish_def)
  next
    case (Some count)
    have "0 \<le> uint count" "count \<noteq> 0 \<Longrightarrow> 0 < uint count"
      by (simp, metis uint_0_iff le_neq_trans uint_ge_0)
    then show ?thesis using claim_up_to_positions [OF pos l(3) ready, of count] Some ready l
      by (intro exI [of _ "min (uint count) (l + sz - n + 1)"]) (auto simp: claim_finish_def)
  qed
qed

lemma sp_inv_step:
  assumes inv: "sp_inv s" and step: "sp_step s t"
  shows "sp_inv t"
proof -
  obtain sz c p n where pos: "sp_positions s sz c p n" and ok: "sp_claim_ok s sz c n"
    using inv by (auto simp: sp_inv_def)
  have near: "0 \<le> n - p" "n - p < 2 ^ 63" "0 \<le> p - c" "p - c < 2 ^ 63"
    using pos by (auto simp: sp_positions_def)
  have published: "sp_inv (single_producer_publish seq s)"
    if "unat (seq - producer_published s) < unat (m_next_to_claim s - producer_published s)" for seq
  proof -
    define d where "d = unat (seq - word_of_int p)"
    have "unat (m_next_to_claim s - producer_published s) = nat (n - p)"
      using unat_diff_positions [OF near(1,2)] pos by (simp add: sp_positions_def)
    then have "d < nat (n - p)" using that pos by (simp add: d_def sp_positions_def)
    moreover have "seq = word_of_int (p + int d)" unfolding d_def by (rule position_after)
    ultimately have "sp_positions (single_producer_publish seq s) sz c (p + int d) n"
      using pos by (auto simp: sp_positions_def single_producer_publish_def)
    moreover have "sp_claim_ok (single_producer_publish seq s) sz c n"
      using ok by (simp add: sp_claim_ok_def single_producer_publish_def)
    ultimately show ?thesis unfolding sp_inv_def by blast
  qed
  from step show ?thesis
  proof cases
    case (sp_start count)
    have "sp_positions t sz c p n" using pos sp_start by (simp add: sp_positions_def claim_start_def)
    moreover have "sp_claim_ok t sz c n" using pos sp_start
      by (auto simp: sp_claim_ok_def sp_positions_def claim_start_def)
    ultimately show ?thesis unfolding sp_inv_def by blast
  next
    case (sp_resumed q)
    have "sp_positions t sz c p n" using pos sp_resumed by (simp add: sp_positions_def claim_resumed_def)
    moreover have "sp_claim_ok t sz c n" using pos ok sp_resumed
      by (auto simp: sp_claim_ok_def sp_positions_def claim_resumed_def)
    ultimately show ?thesis unfolding sp_inv_def by blast
  next
    case (sp_finish q)
    then obtain m where m: "0 \<le> m" "n + m \<le> c + sz + 1"
      "t = s\<lparr>m_next_to_claim := word_of_int (n + m), claiming := None\<rparr>"
      using claim_finish_positions [OF pos ok] by metis
    then have "sp_positions t sz c p (n + m)" using pos by (simp add: sp_positions_def)
    moreover have "sp_claim_ok t sz c (n + m)" using m(3) by (simp add: sp_claim_ok_def)
    ultimately show ?thesis unfolding sp_inv_def by blast
  next
    case (sp_publish seq)
    then show ?thesis using published by blast
  next
    case (sp_publish_range r)
    then show ?thesis using published by (auto simp: single_producer_publish_range_def)
  next
    case (sp_consume seq)
    define d where "d = unat (seq - word_of_int c)"
    have "unat (producer_published s - consumer_published s) = nat (p - c)"
      using unat_diff_positions [OF near(3,4)] pos by (simp add: sp_positions_def)
    then have "d \<le> nat (p - c)" using sp_consume pos by (simp add: d_def sp_positions_def)
    moreover have "seq = word_of_int (c + int d)" unfolding d_def by (rule position_after)
    ultimately have "sp_positions t sz (c + int d) p n"
      using pos sp_consume by (auto simp: sp_positions_def)
    moreover have "sp_claim_ok t sz (c + int d) n"
      using ok sp_consume unfolding sp_claim_ok_def by (fastforce intro: order_trans)
    ultimately show ?thesis unfolding sp_inv_def by blast
  qed
qed

interpretation single_producer_sys: invariant_system sp_init sp_step sp_inv
  by unfold_locales (auto intro: sp_inv_init sp_inv_step)

lemma claimed_elements:
  assumes pos: "sp_positions s sz c p n" and m: "0 \<le> m" "n + m \<le> c + sz + 1"
    and r: "r = \<lparr>m_begin = word_of_int n, m_end = word_of_int (n + m)\<rparr>"
  shows "length (range_elements r) = nat m"
    and "x \<in> set (range_elements r) \<Longrightarrow> \<not> precedes (consumer_published s) (x - m_buffer_size s) \<and>
      \<not> precedes x (m_next_to_claim s)"
proof -
  have "m < 2 ^ 63" using pos m by (simp add: sp_positions_def)
  then have "unat (word_of_int (n + m) - word_of_int n :: u64) = nat (n + m - n)"
    using m(1) by (intro unat_diff_positions) simp_all
  then have "unat (word_of_int (n + m) - word_of_int n :: u64) = nat m"
    by (simp only: add_diff_cancel_left')
  then have el: "range_elements r = map (\<lambda>i. word_of_int n + of_nat i) [0..<nat m]"
    by (simp only: range_elements_map range_size_eq r sequence_range.simps)
  then show "length (range_elements r) = nat m" by simp
  assume "x \<in> set (range_elements r)"
  then obtain i where i: "i < nat m" "x = word_of_int (n + int i)" by (auto simp: el)
  have sub: "x - m_buffer_size s = word_of_int (n + int i - sz)"
    using pos i(2) by (simp add: sp_positions_def)
  have near: "\<bar>c - (n + int i - sz)\<bar> < 2 ^ 63" "\<bar>n + int i - n\<bar> < 2 ^ 63" "n + int i - sz \<le> c"
    using pos m i(1) by (auto simp: sp_positions_def)
  have "\<not> precedes (consumer_published s) (x - m_buffer_size s)"
    using precedes_positions [OF near(1)] near(3) pos unfolding sub by (simp only: sp_positions_def, simp?)
  moreover have "\<not> precedes x (m_next_to_claim s)"
    using precedes_positions [OF near(2)] pos unfolding i(2) by (simp only: sp_positions_def, simp?)
  ultimately show "\<not> precedes (consumer_published s) (x - m_buffer_size s) \<and> \<not> precedes x (m_next_to_claim s)"
    by blast
qed

lemma claim_finish_safe:
  assumes "reachable sp_init sp_step s" and q: "claiming s = Some q" "claim_await_ready q"
    and run: "claim_finish q s = (t, r)"
  shows "(\<forall>x\<in>set (range_elements r). \<not> precedes (consumer_published s) (x - m_buffer_size s) \<and>
      \<not> precedes x (m_next_to_claim s)) \<and> m_next_to_claim t = m_end r \<and>
    (case m_count q of None \<Rightarrow> length (range_elements r) = 1
     | Some count \<Rightarrow> length (range_elements r) \<le> unat count \<and> (count \<noteq> 0 \<longrightarrow> 0 < length (range_elements r)))"
proof -
  obtain sz c p n where pos: "sp_positions s sz c p n" "sp_claim_ok s sz c n"
    using single_producer_sys.reachable_inv [OF assms(1)] by (auto simp: sp_inv_def)
  obtain m where M: "0 \<le> m \<and> n + m \<le> c + sz + 1 \<and>
    fst (claim_finish q s) = s\<lparr>m_next_to_claim := word_of_int (n + m), claiming := None\<rparr> \<and>
    snd (claim_finish q s) = \<lparr>m_begin = word_of_int n, m_end = word_of_int (n + m)\<rparr> \<and>
    (case m_count q of None \<Rightarrow> m = 1 | Some count \<Rightarrow> m \<le> uint count \<and> (count \<noteq> 0 \<longrightarrow> 0 < m))"
    using claim_finish_positions [OF pos q] ..
  then have m: "0 \<le> m" "n + m \<le> c + sz + 1"
    and t: "t = s\<lparr>m_next_to_claim := word_of_int (n + m), claiming := None\<rparr>"
    and r: "r = \<lparr>m_begin = word_of_int n, m_end = word_of_int (n + m)\<rparr>"
    and cnt: "case m_count q of None \<Rightarrow> m = 1 | Some count \<Rightarrow> m \<le> uint count \<and> (count \<noteq> 0 \<longrightarrow> 0 < m)"
    by (simp_all only: run fst_conv snd_conv simp_thms)
  note el = claimed_elements [OF pos(1) m r]
  have "nat m \<le> unat count" if "m \<le> uint count" for count :: u64
    unfolding unat_eq_nat_uint by (rule nat_mono [OF that])
  then have "case m_count q of None \<Rightarrow> length (range_elements r) = 1
     | Some count \<Rightarrow> length (range_elements r) \<le> unat count \<and> (count \<noteq> 0 \<longrightarrow> 0 < length (range_elements r))"
    using cnt el(1) by (auto split: option.splits)
  moreover have "m_next_to_claim t = m_end r" by (simp add: t r)
  ultimately show ?thesis using el(2) by blast
qed

section \<open>Properties\<close>

text \<open>
  Cutting a range in two with \<open>first\<close> and \<open>skip\<close> loses and repeats nothing, also where the
  sequence numbers wrap, and a loop over the range visits as many numbers as its size says.
\<close>

theorem range_partition:
  "range_elements (range_first r n) @ range_elements (range_skip r n) = range_elements r \<and>
   length (range_elements r) = unat (range_size r)"
  using range_split [of r n] by (simp add: range_elements_map)

text \<open>
  C30. A claim of the single producer never overruns its consumers: the number that shared the
  slot of a claimed number one lap earlier is already consumed, nothing claimed before is
  claimed again, a claim of at most \<open>count > 0\<close> numbers gets between one and \<open>count\<close>, and the
  next claim goes on where this one ends. This holds for any interleaving of claims,
  publications and consumption and across the wrap-around of the counters.
\<close>

theorem single_producer_claims:
  assumes "reachable sp_init sp_step s" and "claiming s = Some q" and "claim_await_ready q"
    and "claim_finish q s = (t, r)"
  shows "(\<forall>x\<in>set (range_elements r). \<not> precedes (consumer_published s) (x - m_buffer_size s) \<and>
      \<not> precedes x (m_next_to_claim s)) \<and> m_next_to_claim t = m_end r \<and>
    (case m_count q of None \<Rightarrow> length (range_elements r) = 1
     | Some count \<Rightarrow> length (range_elements r) \<le> unat count \<and> (count \<noteq> 0 \<longrightarrow> 0 < length (range_elements r)))"
  by (rule claim_finish_safe [OF assms])

definition demo_producer :: single_producer_sequencer where
  "demo_producer = claim_start (Some 100) (single_producer_new 4 initial_sequence)"

lemma demo_producer_reachable: "reachable sp_init sp_step demo_producer"
proof -
  have "sp_init (single_producer_new 4 initial_sequence)"
    unfolding sp_init_def by (rule exI [of _ 2], rule exI [of _ initial_sequence]) simp
  then have "reachable sp_init sp_step (single_producer_new 4 initial_sequence)"
    by (rule reachable.reachable_init)
  moreover have "sp_step (single_producer_new 4 initial_sequence) demo_producer"
    unfolding demo_producer_def by (rule sp_step.sp_start) (simp add: single_producer_new_def)
  ultimately show ?thesis by (rule reachable.reachable_step)
qed

text \<open>Asked for 100 numbers of an empty buffer of 4, the claim gets 0 to 3.\<close>

theorem single_producer_claims_witness:
  "snd (claim_finish \<lparr>target_sequence = -4, last_known_published = -1, m_count = Some 100\<rparr> demo_producer)
     = \<lparr>m_begin = 0, m_end = 4\<rparr> \<and>
   0 < length (range_elements \<lparr>m_begin = 0, m_end = 4\<rparr>)"
proof -
  let ?q = "\<lparr>target_sequence = -4, last_known_published = -1, m_count = Some 100\<rparr> :: claim_op"
  let ?r = "\<lparr>m_begin = 0, m_end = 4\<rparr> :: sequence_range"
  have q: "claiming demo_producer = Some ?q"
    by (simp add: demo_producer_def claim_start_def single_producer_new_def initial_sequence_def)
  have ready: "claim_await_ready ?q" by (simp add: claim_await_ready_def precedes_def difference_def)
  have run: "snd (claim_finish ?q demo_producer) = ?r"
    by (simp add: claim_finish_def claim_up_to_resume_def Let_def demo_producer_def claim_start_def
        single_producer_new_def initial_sequence_def min_def)
  then have "claim_finish ?q demo_producer = (fst (claim_finish ?q demo_producer), ?r)"
    by (simp add: prod_eq_iff)
  from single_producer_claims [OF demo_producer_reachable q ready this] run show ?thesis by simp
qed

end
