(* ===== verification/Sequence_Barrier.thy ===== *)
theory Sequence_Barrier
  imports Sequences "HOL-Library.Multiset"
begin

text \<open>
  include/coro/sequence_barrier.h: waiting until a sequence number is published. Thread 0 is the
  producer; every other number is a wait operation together with the coroutine that awaits it.
  A step is one access of shared memory; the retry loops of the compare-exchanges push in one
  step. Where the code rebuilds lists of operations through their \<open>m_next\<close> pointers the lists
  themselves are modelled. The numbers of a run lie in a window of \<open>2 ^ 63\<close> numbers anywhere in the wrapping
  64-bit range.
\<close>

section \<open>State\<close>

text \<open>
  Where a thread is: before its wait; constructed; in \<open>add_awaiter\<close> about to enqueue, to read
  the published number, to take the list over, and resuming what it found ready; about to
  exchange the flag in \<open>await_suspend\<close>; suspended; resumed. The producer: in \<open>publish\<close> about to
  store (and return, or go on), to take the list, to put operations back, and resuming.
\<close>

datatype pc =
    Idle
  | Constructed
  | Enqueue "nat list" "nat list" u64
  | Check "nat list" u64
  | Take "nat list" u64
  | Resume "nat list" u64
  | Exchange_flag
  | Suspended
  | Running
  | Publish_only u64
  | Publish_store u64
  | Publish_take u64
  | Publish_requeue u64 "nat list" "nat list"
  | Publish_resume u64 "nat list"

record barrier =
  m_last_published :: u64
  m_awaiters :: "nat list"
  target :: "nat \<Rightarrow> u64"
  last_known :: "nat \<Rightarrow> u64"
  m_ready_to_resume :: "nat \<Rightarrow> bool"
  pc :: "nat \<Rightarrow> pc"
  runs :: "nat \<Rightarrow> nat"

definition goto :: "barrier \<Rightarrow> nat \<Rightarrow> pc \<Rightarrow> barrier" where
  "goto s t p = s\<lparr>pc := (pc s)(t := p)\<rparr>"

text \<open>
  Sequence numbers wrap. Where a number lies is told by its difference to a number \<open>base\<close>, which may be
  any: the numbers of a run lie less than \<open>2 ^ 62\<close> to either side of it. No operation knows \<open>base\<close>.
\<close>

definition pos :: "u64 \<Rightarrow> u64 \<Rightarrow> int" where
  "pos base x = sint (x - base)"

definition small :: "u64 \<Rightarrow> u64 \<Rightarrow> bool" where
  "small base x \<longleftrightarrow> \<bar>pos base x\<bar> < 2 ^ 62"

definition barrier_init :: "u64 \<Rightarrow> barrier \<Rightarrow> bool" where
  "barrier_init base s \<longleftrightarrow> small base (m_last_published s) \<and> m_awaiters s = [] \<and>
     (\<forall>t. pc s t = Idle \<and> \<not> m_ready_to_resume s t \<and> runs s t = 0 \<and> small base (target s t))"

text \<open>The coroutine goes on.\<close>

definition run_coroutine :: "barrier \<Rightarrow> nat \<Rightarrow> barrier" where
  "run_coroutine s w = (goto s w Running)\<lparr>runs := (runs s)(w := Suc (runs s w))\<rparr>"

section \<open>Waiting\<close>

definition wait_construct :: "barrier \<Rightarrow> nat \<Rightarrow> u64 \<Rightarrow> barrier" where
  "wait_construct s t x = (goto s t Constructed)
     \<lparr>target := (target s)(t := x), last_known := (last_known s)(t := m_last_published s)\<rparr>"

definition await_ready :: "barrier \<Rightarrow> nat \<Rightarrow> bool" where
  "await_ready s t \<longleftrightarrow> \<not> precedes (last_known s t) (target s t)"

definition wait_begin :: "barrier \<Rightarrow> nat \<Rightarrow> barrier" where
  "wait_begin s t =
     (if await_ready s t then run_coroutine s t else goto s t (Enqueue [t] [] (target s t)))"

definition add_enqueue :: "barrier \<Rightarrow> nat \<Rightarrow> nat list \<Rightarrow> nat list \<Rightarrow> u64 \<Rightarrow> barrier" where
  "add_enqueue s t to_requeue to_resume x =
     (goto s t (Check to_resume x))\<lparr>m_awaiters := to_requeue @ m_awaiters s\<rparr>"

definition add_check :: "barrier \<Rightarrow> nat \<Rightarrow> nat list \<Rightarrow> u64 \<Rightarrow> barrier" where
  "add_check s t to_resume x =
     (let known = m_last_published s
      in if precedes known x then goto s t (Resume to_resume known) else goto s t (Take to_resume known))"

definition min_diff :: "(nat \<Rightarrow> u64) \<Rightarrow> u64 \<Rightarrow> nat list \<Rightarrow> int" where
  "min_diff tgt known ws =
     fold (\<lambda>w m. let diff = difference (tgt w) known in if diff > 0 \<and> diff < m then diff else m)
       ws (2 ^ 63 - 1)"

definition add_take :: "barrier \<Rightarrow> nat \<Rightarrow> nat list \<Rightarrow> u64 \<Rightarrow> barrier" where
  "add_take s t to_resume known =
     (let to_requeue = filter (\<lambda>w. difference (target s w) known > 0) (m_awaiters s);
          to_resume' = to_resume @ filter (\<lambda>w. \<not> difference (target s w) known > 0) (m_awaiters s);
          x = known + word_of_int (min_diff (target s) known (m_awaiters s))
      in (if to_requeue \<noteq> [] then goto s t (Enqueue to_requeue to_resume' x)
          else goto s t (Resume to_resume' known))\<lparr>m_awaiters := []\<rparr>)"

text \<open>\<open>resume\<close> of one operation: the second of the two exchanges of the flag continues it.\<close>

definition resume_op :: "barrier \<Rightarrow> nat \<Rightarrow> u64 \<Rightarrow> barrier" where
  "resume_op s w known =
     (let s' = s\<lparr>last_known := (last_known s)(w := known),
                m_ready_to_resume := (m_ready_to_resume s)(w := True)\<rparr>
      in if m_ready_to_resume s w then run_coroutine s' w else s')"

definition suspend_exchange :: "barrier \<Rightarrow> nat \<Rightarrow> barrier" where
  "suspend_exchange s t =
     (let s' = s\<lparr>m_ready_to_resume := (m_ready_to_resume s)(t := True)\<rparr>
      in if m_ready_to_resume s t then run_coroutine s' t else goto s' t Suspended)"

section \<open>Publishing\<close>

definition publish_start :: "barrier \<Rightarrow> u64 \<Rightarrow> barrier" where
  "publish_start s seq =
     (if m_awaiters s = [] then goto s 0 (Publish_only seq) else goto s 0 (Publish_store seq))"

definition publish_only :: "barrier \<Rightarrow> u64 \<Rightarrow> barrier" where
  "publish_only s seq = (goto s 0 Idle)\<lparr>m_last_published := seq\<rparr>"

definition publish_store :: "barrier \<Rightarrow> u64 \<Rightarrow> barrier" where
  "publish_store s seq = (goto s 0 (Publish_take seq))\<lparr>m_last_published := seq\<rparr>"

definition publish_take :: "barrier \<Rightarrow> u64 \<Rightarrow> barrier" where
  "publish_take s seq =
     (let to_requeue = filter (\<lambda>w. precedes seq (target s w)) (m_awaiters s);
          to_resume = filter (\<lambda>w. \<not> precedes seq (target s w)) (m_awaiters s)
      in (if m_awaiters s = [] then goto s 0 Idle
          else if to_requeue \<noteq> [] then goto s 0 (Publish_requeue seq to_requeue to_resume)
          else goto s 0 (Publish_resume seq to_resume))\<lparr>m_awaiters := []\<rparr>)"

definition publish_requeue :: "barrier \<Rightarrow> u64 \<Rightarrow> nat list \<Rightarrow> nat list \<Rightarrow> barrier" where
  "publish_requeue s seq to_requeue to_resume =
     (goto s 0 (Publish_resume seq to_resume))\<lparr>m_awaiters := to_requeue @ m_awaiters s\<rparr>"

text \<open>The producer publishes in order; waits and publications name numbers of the window.\<close>

inductive barrier_step :: "u64 \<Rightarrow> barrier \<Rightarrow> barrier \<Rightarrow> bool" for base where
  bs_construct: "0 < t \<Longrightarrow> pc s t = Idle \<Longrightarrow> small base x \<Longrightarrow> barrier_step base s (wait_construct s t x)"
| bs_begin: "pc s t = Constructed \<Longrightarrow> barrier_step base s (wait_begin s t)"
| bs_enqueue: "pc s t = Enqueue q r x \<Longrightarrow> barrier_step base s (add_enqueue s t q r x)"
| bs_check: "pc s t = Check r x \<Longrightarrow> barrier_step base s (add_check s t r x)"
| bs_take: "pc s t = Take r k \<Longrightarrow> barrier_step base s (add_take s t r k)"
| bs_resume: "pc s t = Resume (w # ws) k \<Longrightarrow> barrier_step base s (resume_op (goto s t (Resume ws k)) w k)"
| bs_resumed: "pc s t = Resume [] k \<Longrightarrow> barrier_step base s (goto s t Exchange_flag)"
| bs_exchange: "pc s t = Exchange_flag \<Longrightarrow> barrier_step base s (suspend_exchange s t)"
| bs_publish: "pc s 0 = Idle \<Longrightarrow> small base seq \<Longrightarrow> pos base (m_last_published s) \<le> pos base seq \<Longrightarrow>
    barrier_step base s (publish_start s seq)"
| bs_publish_only: "pc s 0 = Publish_only seq \<Longrightarrow> barrier_step base s (publish_only s seq)"
| bs_publish_store: "pc s 0 = Publish_store seq \<Longrightarrow> barrier_step base s (publish_store s seq)"
| bs_publish_take: "pc s 0 = Publish_take seq \<Longrightarrow> barrier_step base s (publish_take s seq)"
| bs_publish_requeue: "pc s 0 = Publish_requeue seq q r \<Longrightarrow> barrier_step base s (publish_requeue s seq q r)"
| bs_publish_resume: "pc s 0 = Publish_resume seq (w # ws) \<Longrightarrow>
    barrier_step base s (resume_op (goto s 0 (Publish_resume seq ws)) w seq)"
| bs_publish_done: "pc s 0 = Publish_resume seq [] \<Longrightarrow> barrier_step base s (goto s 0 Idle)"

section \<open>The invariant\<close>

text \<open>The operations a thread holds, and those of them it is going to resume.\<close>

fun held :: "pc \<Rightarrow> nat list" where
  "held (Enqueue q r x) = q @ r"
| "held (Check r x) = r"
| "held (Take r k) = r"
| "held (Resume r k) = r"
| "held (Publish_requeue seq q r) = q @ r"
| "held (Publish_resume seq r) = r"
| "held _ = []"

datatype stage = Before | Adding | Asleep | Done

fun stage_of :: "pc \<Rightarrow> stage" where
  "stage_of (Enqueue _ _ _) = Adding"
| "stage_of (Check _ _) = Adding"
| "stage_of (Take _ _) = Adding"
| "stage_of (Resume _ _) = Adding"
| "stage_of Exchange_flag = Adding"
| "stage_of Suspended = Asleep"
| "stage_of Running = Done"
| "stage_of _ = Before"

fun publishing :: "pc \<Rightarrow> bool" where
  "publishing (Publish_only _) = True"
| "publishing (Publish_store _) = True"
| "publishing (Publish_take _) = True"
| "publishing (Publish_requeue _ _ _) = True"
| "publishing (Publish_resume _ _) = True"
| "publishing _ = False"

definition reached :: "u64 \<Rightarrow> barrier \<Rightarrow> u64 \<Rightarrow> nat list \<Rightarrow> bool" where
  "reached base s k ws \<longleftrightarrow> pos base k \<le> pos base (m_last_published s) \<and> small base k \<and> (\<forall>w\<in>set ws. pos base (target s w) \<le> pos base k)"

text \<open>What the numbers in a thread's hands are worth.\<close>

fun pc_ok :: "u64 \<Rightarrow> barrier \<Rightarrow> pc \<Rightarrow> bool" where
  "pc_ok base s (Enqueue q r x) = reached base s (m_last_published s) r"
| "pc_ok base s (Check r x) = reached base s (m_last_published s) r"
| "pc_ok base s (Take r k) = reached base s k r"
| "pc_ok base s (Resume r k) = reached base s k r"
| "pc_ok base s (Publish_only seq) = (small base seq \<and> pos base (m_last_published s) \<le> pos base seq)"
| "pc_ok base s (Publish_store seq) = (small base seq \<and> pos base (m_last_published s) \<le> pos base seq)"
| "pc_ok base s (Publish_take seq) = reached base s seq []"
| "pc_ok base s (Publish_requeue seq q r) = reached base s seq r"
| "pc_ok base s (Publish_resume seq r) = reached base s seq r"
| "pc_ok base s _ = True"

definition satisfied :: "u64 \<Rightarrow> barrier \<Rightarrow> nat \<Rightarrow> bool" where
  "satisfied base s w \<longleftrightarrow> pos base (target s w) \<le> pos base (last_known s w) \<and>
     pos base (last_known s w) \<le> pos base (m_last_published s)"

text \<open>An operation in a list, and one in none.\<close>

definition in_list :: "barrier \<Rightarrow> nat \<Rightarrow> bool" where
  "in_list s w \<longleftrightarrow> w \<in> set (m_awaiters s) \<or> (\<exists>t. w \<in> set (held (pc s t)))"

definition op_ok :: "u64 \<Rightarrow> barrier \<Rightarrow> nat \<Rightarrow> bool" where
  "op_ok base s w \<longleftrightarrow>
     (if in_list s w then stage_of (pc s w) = (if m_ready_to_resume s w then Asleep else Adding)
      else if m_ready_to_resume s w then stage_of (pc s w) \<in> {Adding, Done} \<and> satisfied base s w
      else stage_of (pc s w) = Before \<or> (stage_of (pc s w) = Done \<and> satisfied base s w))"

definition lists_ok :: "barrier \<Rightarrow> bool" where
  "lists_ok s \<longleftrightarrow> distinct (m_awaiters s) \<and> (\<forall>t. distinct (held (pc s t))) \<and>
     (\<forall>t. set (held (pc s t)) \<inter> set (m_awaiters s) = {}) \<and>
     (\<forall>t u. t \<noteq> u \<longrightarrow> set (held (pc s t)) \<inter> set (held (pc s u)) = {})"

definition numbers_ok :: "u64 \<Rightarrow> barrier \<Rightarrow> bool" where
  "numbers_ok base s \<longleftrightarrow> small base (m_last_published s) \<and> (\<forall>t. small base (target s t) \<and> pc_ok base s (pc s t)) \<and>
     (\<forall>t. pc s t = Constructed \<longrightarrow> small base (last_known s t) \<and> pos base (last_known s t) \<le> pos base (m_last_published s)) \<and>
     (\<forall>t. 0 < t \<longrightarrow> \<not> publishing (pc s t)) \<and> (publishing (pc s 0) \<or> pc s 0 = Idle)"

definition barrier_inv :: "u64 \<Rightarrow> barrier \<Rightarrow> bool" where
  "barrier_inv base s \<longleftrightarrow> lists_ok s \<and> numbers_ok base s \<and> (\<forall>w. op_ok base s w) \<and>
     (\<forall>w. runs s w = (if pc s w = Running then 1 else 0))"

lemma difference_small: "small base a \<Longrightarrow> small base b \<Longrightarrow> difference a b = pos base a - pos base b"
  using sint_diff_of_int [of "pos base a" "pos base b"] by (simp add: small_def pos_def difference_def)

lemma precedes_small: "small base a \<Longrightarrow> small base b \<Longrightarrow> precedes a b \<longleftrightarrow> pos base a < pos base b"
  by (simp add: precedes_def difference_small)

lemma barrier_goto_simps [simp]:
  "m_last_published (goto s t p) = m_last_published s" "m_awaiters (goto s t p) = m_awaiters s"
  "target (goto s t p) = target s" "last_known (goto s t p) = last_known s"
  "m_ready_to_resume (goto s t p) = m_ready_to_resume s" "pc (goto s t p) = (pc s)(t := p)"
  "runs (goto s t p) = runs s"
  by (simp_all add: goto_def)

lemma pc_ok_cong:
  "m_last_published s' = m_last_published s \<Longrightarrow> \<forall>w\<in>set (held p). target s' w = target s w \<Longrightarrow>
    pc_ok base s' p = pc_ok base s p"
  by (cases p) (auto simp: reached_def)

lemma pc_ok_mono:
  assumes "target s' = target s" "pos base (m_last_published s) \<le> pos base (m_last_published s')"
    "small base (m_last_published s')" "\<not> publishing p" "pc_ok base s p"
  shows "pc_ok base s' p"
  using assms by (cases p) (auto simp: reached_def intro: order_trans)

text \<open>The lists after a step of \<open>t\<close> that keeps, drops or adds operations.\<close>

lemma lists_step:
  assumes ok: "lists_ok s" and d: "distinct (m_awaiters s' @ held (pc s' t))"
    and other: "\<And>u. u \<noteq> t \<Longrightarrow> held (pc s' u) = held (pc s u)"
    and sub: "\<And>x. x \<in> set (m_awaiters s' @ held (pc s' t)) \<Longrightarrow>
      x \<in> set (m_awaiters s @ held (pc s t)) \<or> \<not> in_list s x"
  shows "lists_ok s'"
    and "in_list s' x \<longleftrightarrow> x \<in> set (m_awaiters s' @ held (pc s' t)) \<or>
      (in_list s x \<and> x \<notin> set (m_awaiters s @ held (pc s t)))"
proof -
  have away: "x \<notin> set (m_awaiters s @ held (pc s t))" if "u \<noteq> t" "x \<in> set (held (pc s u))" for x u
    using ok that unfolding lists_ok_def disjoint_iff by (metis Un_iff set_append)
  have mine: "set (m_awaiters s' @ held (pc s' t)) \<inter> set (held (pc s u)) = {}" if "u \<noteq> t" for u
    using sub away [OF that] that by (fastforce simp: in_list_def)
  have "distinct (held (pc s' u))" for u
    using d ok other [of u] by (cases "u = t") (auto simp: lists_ok_def)
  moreover have "set (held (pc s' u)) \<inter> set (m_awaiters s') = {}" for u
    using d mine [of u] other [of u] by (cases "u = t") auto
  moreover have "set (held (pc s' u)) \<inter> set (held (pc s' v)) = {}" if uv: "u \<noteq> v" for u v
  proof (cases "u = t \<or> v = t")
    case True
    then show ?thesis using mine [of u] mine [of v] other [of u] other [of v] uv
      by (auto simp: disjoint_iff)
  next
    case False
    then show ?thesis using ok other uv by (simp add: lists_ok_def)
  qed
  ultimately show "lists_ok s'" using d by (simp add: lists_ok_def)
  have "(\<exists>u. u \<noteq> t \<and> x \<in> set (held (pc s u))) \<longleftrightarrow> in_list s x \<and> x \<notin> set (m_awaiters s @ held (pc s t))"
    using away unfolding in_list_def by (metis Un_iff set_append)
  moreover have "in_list s' x \<longleftrightarrow> x \<in> set (m_awaiters s' @ held (pc s' t)) \<or> (\<exists>u. u \<noteq> t \<and> x \<in> set (held (pc s u)))"
    using other by (auto simp: in_list_def) metis+
  ultimately show "in_list s' x \<longleftrightarrow> x \<in> set (m_awaiters s' @ held (pc s' t)) \<or>
      (in_list s x \<and> x \<notin> set (m_awaiters s @ held (pc s t)))" by blast
qed

lemma lists_permute:
  assumes ok: "lists_ok s" and m: "mset (m_awaiters s' @ held (pc s' t)) = mset (m_awaiters s @ held (pc s t))"
    and other: "\<And>u. u \<noteq> t \<Longrightarrow> held (pc s' u) = held (pc s u)"
  shows "lists_ok s' \<and> in_list s' x = in_list s x"
proof -
  have "distinct (m_awaiters s @ held (pc s t))" using ok by (auto simp: lists_ok_def)
  then have d: "distinct (m_awaiters s' @ held (pc s' t))" using m by (metis mset_eq_imp_distinct_iff)
  have st: "set (m_awaiters s' @ held (pc s' t)) = set (m_awaiters s @ held (pc s t))"
    using m by (metis set_mset_mset)
  have "lists_ok s'" by (rule lists_step(1) [OF ok d other]) (use st in auto)
  moreover have "in_list s' x \<longleftrightarrow> x \<in> set (m_awaiters s' @ held (pc s' t)) \<or>
      (in_list s x \<and> x \<notin> set (m_awaiters s @ held (pc s t)))"
    by (rule lists_step(2) [OF ok d other]) (use st in auto)
  ultimately show ?thesis using st by (auto simp: in_list_def)
qed

lemma op_ok_cong:
  assumes "in_list s' w = in_list s w" "m_ready_to_resume s' w = m_ready_to_resume s w"
    "stage_of (pc s' w) = stage_of (pc s w)" "satisfied base s' w = satisfied base s w"
  shows "op_ok base s' w = op_ok base s w"
  using assms by (simp only: op_ok_def)

text \<open>A step of \<open>t\<close> that only moves operations between the queue and its own hands.\<close>

lemma barrier_inv_move:
  assumes inv: "barrier_inv base s"
    and same: "m_last_published s' = m_last_published s" "target s' = target s" "last_known s' = last_known s"
      "m_ready_to_resume s' = m_ready_to_resume s" "runs s' = runs s" "pc s' = (pc s)(t := p)"
    and m: "mset (m_awaiters s' @ held p) = mset (m_awaiters s @ held (pc s t))"
    and p: "stage_of p = stage_of (pc s t)" "stage_of p = Before \<or> stage_of p = Adding" "p \<noteq> Constructed"
      "publishing p \<or> p = Idle \<longleftrightarrow> t = 0" "pc_ok base s p"
  shows "barrier_inv base s'"
proof -
  have lists: "lists_ok s' \<and> in_list s' x = in_list s x" for x
    by (rule lists_permute [where t = t]) (use inv m in \<open>auto simp: barrier_inv_def same\<close>)
  have st: "stage_of (pc s' w) = stage_of (pc s w)" for w using p(1) by (simp add: same)
  have "op_ok base s' w = op_ok base s w" for w
    using lists st by (simp add: op_ok_def same satisfied_def)
  moreover have "pc_ok base s' q = pc_ok base s q" for q by (rule pc_ok_cong) (simp_all add: same)
  moreover have "pc s t \<noteq> Running" "p \<noteq> Running" using p(1,2) by auto
  ultimately show ?thesis using inv lists p(3-5)
    by (auto simp: barrier_inv_def numbers_ok_def same)
qed

text \<open>Taking the queue and sorting what was in it keeps every operation.\<close>

lemma mset_sorted: "mset (filter P ws) + mset (filter (\<lambda>w. \<not> P w) ws) = mset ws"
  by (induction ws) simp_all

lemma runs_Before: "barrier_inv base s \<Longrightarrow> pc s t \<noteq> Running \<Longrightarrow> runs s t = 0"
  by (simp add: barrier_inv_def)

lemma stage_Done: "stage_of p = Done \<longleftrightarrow> p = Running"
  by (cases p) simp_all

text \<open>The coroutine of an operation that is in no list goes on.\<close>

lemma barrier_inv_run:
  assumes inv: "barrier_inv base s" and t: "\<not> in_list s t" "0 < t" "pc s t \<noteq> Running" "held (pc s t) = []"
    and sat: "satisfied base s t" and s': "s' = run_coroutine (s\<lparr>m_ready_to_resume := f\<rparr>) t"
    and f: "\<And>w. w \<noteq> t \<Longrightarrow> f w = m_ready_to_resume s w"
  shows "barrier_inv base s'"
proof -
  have lists: "lists_ok s' \<and> in_list s' x = in_list s x" for x
    by (rule lists_permute [where t = t]) (use inv t in \<open>auto simp: barrier_inv_def s' run_coroutine_def\<close>)
  have "op_ok base s' w" for w
  proof (cases "w = t")
    case True
    then show ?thesis using lists t sat by (simp add: op_ok_def satisfied_def s' run_coroutine_def)
  next
    case False
    have "op_ok base s' w = op_ok base s w"
      by (rule op_ok_cong) (use False lists f in \<open>simp_all add: satisfied_def s' run_coroutine_def\<close>)
    then show ?thesis using inv by (simp add: barrier_inv_def)
  qed
  moreover have "pc_ok base s' q = pc_ok base s q" for q by (rule pc_ok_cong) (simp_all add: s' run_coroutine_def)
  ultimately show ?thesis using inv lists t runs_Before [OF inv t(3)]
    by (auto simp: barrier_inv_def numbers_ok_def s' run_coroutine_def)
qed

lemma inv_pc_ok: "barrier_inv base s \<Longrightarrow> pc_ok base s (pc s t)"
  by (simp add: barrier_inv_def numbers_ok_def)

lemma inv_construct:
  assumes inv: "barrier_inv base s" and t: "0 < t" "pc s t = Idle" and x: "small base x"
  shows "barrier_inv base (wait_construct s t x)"
proof -
  define H where "H = wait_construct s t x"
  have H: "m_awaiters H = m_awaiters s" "pc H = (pc s)(t := Constructed)" "target H = (target s)(t := x)"
    "last_known H = (last_known s)(t := m_last_published s)" "m_last_published H = m_last_published s"
    "m_ready_to_resume H = m_ready_to_resume s" "runs H = runs s"
    by (simp_all add: H_def wait_construct_def)
  have opt: "op_ok base s t" using inv by (simp add: barrier_inv_def)
  then have out: "\<not> in_list s t" using t by (auto simp: op_ok_def split: if_splits)
  have lists: "lists_ok H \<and> in_list H w = in_list s w" for w
    by (rule lists_permute [where t = t]) (use inv t in \<open>auto simp: barrier_inv_def H\<close>)
  have "op_ok base H w" for w
  proof (cases "w = t")
    case True
    then show ?thesis using opt lists out t by (auto simp: op_ok_def H split: if_splits)
  next
    case False
    have "op_ok base H w = op_ok base s w" by (rule op_ok_cong) (use False lists in \<open>simp_all add: satisfied_def H\<close>)
    then show ?thesis using inv by (simp add: barrier_inv_def)
  qed
  moreover have "pc_ok base H (pc H u)" for u
  proof -
    have "pc_ok base H (pc s u) = pc_ok base s (pc s u)"
      by (rule pc_ok_cong) (use out in \<open>auto simp: H in_list_def\<close>)
    then show ?thesis using inv_pc_ok [OF inv, of u] by (simp add: H)
  qed
  then have "numbers_ok base H" using inv t x by (auto simp: barrier_inv_def numbers_ok_def H)
  ultimately show ?thesis using inv lists t unfolding H_def [symmetric] by (auto simp: barrier_inv_def H)
qed

lemma before_out:
  assumes "barrier_inv base s" "stage_of (pc s t) = Before"
  shows "\<not> in_list s t \<and> \<not> m_ready_to_resume s t"
proof -
  have "op_ok base s t" using assms(1) by (simp add: barrier_inv_def)
  then show ?thesis using assms(2) by (auto simp: op_ok_def split: if_splits)
qed

lemma not_publishing: "barrier_inv base s \<Longrightarrow> \<not> publishing (pc s t) \<Longrightarrow> pc s t \<noteq> Idle \<Longrightarrow> 0 < t"
  by (cases t) (auto simp: barrier_inv_def numbers_ok_def)

lemma inv_begin:
  assumes inv: "barrier_inv base s" and t: "pc s t = Constructed"
  shows "barrier_inv base (wait_begin s t)"
proof -
  have t0: "0 < t" using not_publishing [OF inv, of t] t by simp
  have out: "\<not> in_list s t" "\<not> m_ready_to_resume s t" using before_out [OF inv, of t] t by simp_all
  have known: "small base (last_known s t)" "pos base (last_known s t) \<le> pos base (m_last_published s)" "small base (target s t)"
    "small base (m_last_published s)"
    using inv t by (auto simp: barrier_inv_def numbers_ok_def)
  show ?thesis
  proof (cases "await_ready s t")
    case True
    then have "satisfied base s t" using known by (simp add: satisfied_def await_ready_def precedes_small)
    then have "barrier_inv base (run_coroutine s t)"
      using t0 t by (intro barrier_inv_run [OF inv out(1), where f = "m_ready_to_resume s"]) simp_all
    then show ?thesis using True by (simp add: wait_begin_def)
  next
    case False
    let ?s = "goto s t (Enqueue [t] [] (target s t))"
    have ok: "lists_ok s" using inv by (simp add: barrier_inv_def)
    have d: "distinct (m_awaiters ?s @ held (pc ?s t))"
      using out(1) inv by (auto simp: barrier_inv_def lists_ok_def in_list_def)
    have other: "u \<noteq> t \<Longrightarrow> held (pc ?s u) = held (pc s u)" for u by simp
    have sub: "x \<in> set (m_awaiters ?s @ held (pc ?s t)) \<Longrightarrow>
        x \<in> set (m_awaiters s @ held (pc s t)) \<or> \<not> in_list s x" for x using out(1) by auto
    have lists: "lists_ok ?s" by (rule lists_step(1) [OF ok d other sub])
    have in_list: "in_list ?s x = (x \<in> set (m_awaiters ?s @ held (pc ?s t)) \<or>
        (in_list s x \<and> x \<notin> set (m_awaiters s @ held (pc s t))))" for x
      by (rule lists_step(2) [OF ok d other sub])
    have "op_ok base ?s w" for w
    proof (cases "w = t")
      case True
      then show ?thesis using in_list [of t] out(2) by (simp add: op_ok_def)
    next
      case False
      have "in_list ?s w = in_list s w" using in_list [of w] False t by (auto simp: in_list_def)
      then have "op_ok base ?s w = op_ok base s w" by (rule op_ok_cong) (use False in \<open>simp_all add: satisfied_def\<close>)
      then show ?thesis using inv by (simp add: barrier_inv_def)
    qed
    moreover have "pc_ok base ?s q = pc_ok base s q" for q by (rule pc_ok_cong) simp_all
    ultimately have "barrier_inv base ?s" using inv lists t t0
      by (auto simp: barrier_inv_def numbers_ok_def reached_def)
    then show ?thesis using False by (simp add: wait_begin_def)
  qed
qed

lemma inv_small: "barrier_inv base s \<Longrightarrow> small base (target s t)" "barrier_inv base s \<Longrightarrow> small base (m_last_published s)"
  by (simp_all add: barrier_inv_def numbers_ok_def)

lemma inv_add:
  assumes inv: "barrier_inv base s"
  shows "pc s t = Enqueue q r x \<Longrightarrow> barrier_inv base (add_enqueue s t q r x)"
    and "pc s t = Check r x \<Longrightarrow> barrier_inv base (add_check s t r x)"
    and "pc s t = Take r k \<Longrightarrow> barrier_inv base (add_take s t r k)"
    and "pc s t = Resume [] k \<Longrightarrow> barrier_inv base (goto s t Exchange_flag)"
proof -
  note ok = inv_pc_ok [OF inv, of t] and t0 = not_publishing [OF inv, of t]
  show "barrier_inv base (add_enqueue s t q r x)" if "pc s t = Enqueue q r x"
    by (rule barrier_inv_move [OF inv, where t = t and p = "Check r x"])
      (use that ok t0 in \<open>auto simp: add_enqueue_def\<close>)
  show "barrier_inv base (add_check s t r x)" if "pc s t = Check r x"
    by (rule barrier_inv_move [OF inv, where t = t and
          p = "if precedes (m_last_published s) x then Resume r (m_last_published s) else Take r (m_last_published s)"])
      (use that ok t0 in \<open>auto simp: add_check_def Let_def\<close>)
  show "barrier_inv base (goto s t Exchange_flag)" if "pc s t = Resume [] k"
    by (rule barrier_inv_move [OF inv, where t = t and p = Exchange_flag]) (use that ok t0 in auto)
  show "barrier_inv base (add_take s t r k)" if pc: "pc s t = Take r k"
  proof -
    define P where "P = (\<lambda>w. difference (target s w) k > 0)"
    define q where "q = filter P (m_awaiters s)"
    define r' where "r' = r @ filter (\<lambda>w. \<not> P w) (m_awaiters s)"
    define x where "x = k + word_of_int (min_diff (target s) k (m_awaiters s))"
    have k: "small base k" "reached base s k r" using ok pc by (simp_all add: reached_def)
    have "P w \<longleftrightarrow> pos base k < pos base (target s w)" for w
      using difference_small [OF inv_small(1) [OF inv, of w] k(1)] by (simp add: P_def)
    then have r': "reached base s k r'" using k(2) by (auto simp: reached_def r'_def not_less)
    have m: "mset (q @ r') = mset (m_awaiters s @ r)"
      using mset_sorted [of P "m_awaiters s"] by (simp add: q_def r'_def)
    have s': "add_take s t r k = (goto s t (if q \<noteq> [] then Enqueue q r' x else Resume r' k))\<lparr>m_awaiters := []\<rparr>"
      by (simp add: add_take_def Let_def q_def r'_def x_def P_def)
    have pub: "reached base s (m_last_published s) r'" using r' inv_small(2) [OF inv] by (auto simp: reached_def)
    show ?thesis unfolding s'
      by (rule barrier_inv_move [OF inv, where t = t and p = "if q \<noteq> [] then Enqueue q r' x else Resume r' k"])
        (use pc r' pub m t0 in \<open>auto simp: add.commute\<close>)
  qed
qed

text \<open>Thread \<open>t\<close> resumes the first operation in its hands, whose target is published.\<close>

lemma inv_resume_op:
  assumes inv: "barrier_inv base s" and held: "held (pc s t) = w # held p" and ok: "reached base s k [w]" "pc_ok base s p"
    and p: "stage_of p = stage_of (pc s t)" "stage_of p = Before \<or> stage_of p = Adding" "p \<noteq> Constructed"
      "publishing p \<or> p = Idle \<longleftrightarrow> t = 0"
  shows "barrier_inv base (resume_op (goto s t p) w k)"
proof -
  have opw: "op_ok base s w" using inv by (simp add: barrier_inv_def)
  have inw: "in_list s w" using held by (auto simp: in_list_def intro: exI [of _ t])
  define f where "f = m_ready_to_resume s w"
  have stw: "stage_of (pc s w) = (if f then Asleep else Adding)" using opw inw by (simp add: op_ok_def f_def)
  then have wt: "f \<Longrightarrow> w \<noteq> t" using p by auto
  have w0: "0 < w" using not_publishing [OF inv, of w] stw by (cases "pc s w") (auto split: if_splits)
  define H where "H = resume_op (goto s t p) w k"
  have H: "m_awaiters H = m_awaiters s" "target H = target s" "m_last_published H = m_last_published s"
    "last_known H = (last_known s)(w := k)" "m_ready_to_resume H = (m_ready_to_resume s)(w := True)"
    "pc H = (if f then (pc s)(t := p, w := Running) else (pc s)(t := p))"
    "runs H = (if f then (runs s)(w := Suc (runs s w)) else runs s)"
    by (simp_all add: H_def resume_op_def Let_def f_def run_coroutine_def)
  have hw: "held (pc s w) = []" if f using stw that by (cases "pc s w") auto
  have pcw: "pc s w = Suspended" if f using stw that by (cases "pc s w") auto
  have ok0: "lists_ok s" using inv by (simp add: barrier_inv_def)
  have pcH: "held (pc H t) = held p" using wt by (auto simp: H)
  have d: "distinct (m_awaiters H @ held (pc H t))"
    using ok0 held unfolding lists_ok_def pcH H(1) by (metis distinct_append distinct.simps(2) Int_commute disjoint_insert(1) list.simps(15))
  have other: "u \<noteq> t \<Longrightarrow> held (pc H u) = held (pc s u)" for u using hw by (auto simp: H)
  have sub: "x \<in> set (m_awaiters H @ held (pc H t)) \<Longrightarrow>
      x \<in> set (m_awaiters s @ held (pc s t)) \<or> \<not> in_list s x" for x using held pcH by (auto simp: H(1))
  have lists: "lists_ok H" by (rule lists_step(1) [OF ok0 d other sub])
  have in_list: "in_list H x = (x \<in> set (m_awaiters H @ held (pc H t)) \<or>
      (in_list s x \<and> x \<notin> set (m_awaiters s @ held (pc s t))))" for x
    by (rule lists_step(2) [OF ok0 d other sub])
  have "w \<notin> set (m_awaiters s)" "w \<notin> set (held p)"
    using ok0 held unfolding lists_ok_def by (metis disjoint_iff list.set_intros(1), metis distinct.simps(2))
  then have inH: "in_list H x \<longleftrightarrow> in_list s x \<and> x \<noteq> w" for x
    using in_list [of x] held pcH by (auto simp: H(1) in_list_def intro: exI [of _ t])
  have sat: "satisfied base H w" using ok(1) by (simp add: satisfied_def H reached_def)
  have "op_ok base H x" for x
  proof (cases "x = w")
    case True
    have "stage_of (pc H w) \<in> {Adding, Done}" using stw p(1) by (auto simp: H)
    then show ?thesis using True inH [of w] sat by (simp add: op_ok_def H(5))
  next
    case False
    have "op_ok base H x = op_ok base s x"
      by (rule op_ok_cong) (use False inH p(1) in \<open>auto simp: satisfied_def H\<close>)
    then show ?thesis using inv by (simp add: barrier_inv_def)
  qed
  note ops = this
  have "pc_ok base H q = pc_ok base s q" for q by (rule pc_ok_cong) (simp_all add: H)
  moreover have "pc s w \<noteq> Constructed" using stw by (auto split: if_splits)
  ultimately have "numbers_ok base H" using inv ok(2) p(3,4) w0 wt
    by (auto simp: barrier_inv_def numbers_ok_def H)
  moreover have "runs H x = (if pc H x = Running then 1 else 0)" for x
  proof -
    have r: "runs s x = (if pc s x = Running then 1 else 0)" using inv by (simp add: barrier_inv_def)
    have "p \<noteq> Running" "pc s t \<noteq> Running" using p(1,2) by auto
    then show ?thesis using r pcw by (auto simp: H)
  qed
  ultimately show ?thesis using lists ops unfolding H_def [symmetric] by (simp add: barrier_inv_def)
qed

lemma inv_exchange:
  assumes inv: "barrier_inv base s" and pc: "pc s t = Exchange_flag"
  shows "barrier_inv base (suspend_exchange s t)"
proof -
  have t0: "0 < t" using not_publishing [OF inv, of t] pc by simp
  have opt: "op_ok base s t" using inv by (simp add: barrier_inv_def)
  show ?thesis
  proof (cases "m_ready_to_resume s t")
    case True
    then have "\<not> in_list s t" "satisfied base s t" using opt pc by (auto simp: op_ok_def split: if_splits)
    then have "barrier_inv base (run_coroutine (s\<lparr>m_ready_to_resume := (m_ready_to_resume s)(t := True)\<rparr>) t)"
      using t0 pc by (intro barrier_inv_run [OF inv _ _ _ _ _ refl]) simp_all
    then show ?thesis using True by (simp add: suspend_exchange_def)
  next
    case False
    define H where "H = suspend_exchange s t"
    have H: "m_awaiters H = m_awaiters s" "target H = target s" "m_last_published H = m_last_published s"
      "last_known H = last_known s" "m_ready_to_resume H = (m_ready_to_resume s)(t := True)"
      "pc H = (pc s)(t := Suspended)" "runs H = runs s"
      using False by (simp_all add: H_def suspend_exchange_def)
    have lists: "lists_ok H \<and> in_list H x = in_list s x" for x
      by (rule lists_permute [where t = t]) (use inv pc in \<open>auto simp: barrier_inv_def H\<close>)
    have "op_ok base H x" for x
    proof (cases "x = t")
      case True
      have "in_list s t" using opt pc False by (auto simp: op_ok_def split: if_splits)
      then show ?thesis using True lists by (simp add: op_ok_def H)
    next
      case False
      have "op_ok base H x = op_ok base s x"
        by (rule op_ok_cong) (use False lists in \<open>simp_all add: satisfied_def H\<close>)
      then show ?thesis using inv by (simp add: barrier_inv_def)
    qed
    moreover have "pc_ok base H q = pc_ok base s q" for q by (rule pc_ok_cong) (simp_all add: H)
    then have "numbers_ok base H" using inv t0 by (auto simp: barrier_inv_def numbers_ok_def H)
    moreover have "runs H x = (if pc H x = Running then 1 else 0)" for x
      using inv pc by (auto simp: H barrier_inv_def)
    ultimately show ?thesis using lists unfolding H_def [symmetric] by (simp add: barrier_inv_def)
  qed
qed

text \<open>The producer stores a number that is not behind the published one.\<close>

lemma inv_store:
  assumes inv: "barrier_inv base s" and seq: "small base seq" "pos base (m_last_published s) \<le> pos base seq"
    and pc: "publishing (pc s 0)" "held (pc s 0) = []" and p: "p = Idle \<or> p = Publish_take seq"
    and H: "H = (goto s 0 p)\<lparr>m_last_published := seq\<rparr>"
  shows "barrier_inv base H"
proof -
  have lists: "lists_ok H \<and> in_list H x = in_list s x" for x
    by (rule lists_permute [where t = 0]) (use inv pc p in \<open>auto simp: barrier_inv_def H\<close>)
  have sat: "satisfied base s x \<Longrightarrow> satisfied base H x" for x using seq(2) by (auto simp: satisfied_def H)
  have st: "stage_of (pc H x) = stage_of (pc s x)" for x
    using pc(1) p by (cases "pc s 0") (auto simp: H)
  have "op_ok base H x" for x
  proof -
    have "op_ok base s x" using inv by (simp add: barrier_inv_def)
    then show ?thesis using lists sat st by (auto simp: op_ok_def H split: if_splits)
  qed
  moreover have "pc_ok base H (pc H u)" for u
  proof (cases "u = 0")
    case True
    then show ?thesis using p seq by (auto simp: H reached_def)
  next
    case False
    then have "\<not> publishing (pc s u)" using inv by (simp add: barrier_inv_def numbers_ok_def)
    then have "pc_ok base H (pc s u)"
      by (intro pc_ok_mono [of H s, OF _ _ _ _ inv_pc_ok [OF inv]]) (use seq in \<open>simp_all add: H\<close>)
    then show ?thesis using False by (simp add: H)
  qed
  then have "numbers_ok base H" using inv p seq
    by (auto simp: barrier_inv_def numbers_ok_def H intro: order_trans)
  moreover have "runs H x = (if pc H x = Running then 1 else 0)" for x
    using inv pc(1) p by (auto simp: H barrier_inv_def)
  ultimately show ?thesis using lists by (simp add: barrier_inv_def)
qed

lemma inv_publish:
  assumes inv: "barrier_inv base s"
  shows "pc s 0 = Idle \<Longrightarrow> small base seq \<Longrightarrow> pos base (m_last_published s) \<le> pos base seq \<Longrightarrow>
      barrier_inv base (publish_start s seq)"
    and "pc s 0 = Publish_only seq \<Longrightarrow> barrier_inv base (publish_only s seq)"
    and "pc s 0 = Publish_store seq \<Longrightarrow> barrier_inv base (publish_store s seq)"
    and "pc s 0 = Publish_take seq \<Longrightarrow> barrier_inv base (publish_take s seq)"
    and "pc s 0 = Publish_requeue seq q r \<Longrightarrow> barrier_inv base (publish_requeue s seq q r)"
    and "pc s 0 = Publish_resume seq [] \<Longrightarrow> barrier_inv base (goto s 0 Idle)"
proof -
  note ok = inv_pc_ok [OF inv, of 0]
  show "barrier_inv base (publish_start s seq)"
    if "pc s 0 = Idle" "small base seq" "pos base (m_last_published s) \<le> pos base seq"
    by (rule barrier_inv_move [OF inv, where t = 0 and
          p = "if m_awaiters s = [] then Publish_only seq else Publish_store seq"])
      (use that in \<open>auto simp: publish_start_def\<close>)
  show "barrier_inv base (publish_only s seq)" if "pc s 0 = Publish_only seq"
    by (rule inv_store [OF inv, where p = Idle and seq = seq]) (use that ok in \<open>auto simp: publish_only_def\<close>)
  show "barrier_inv base (publish_store s seq)" if "pc s 0 = Publish_store seq"
    by (rule inv_store [OF inv, where p = "Publish_take seq" and seq = seq])
      (use that ok in \<open>auto simp: publish_store_def\<close>)
  show "barrier_inv base (publish_requeue s seq q r)" if "pc s 0 = Publish_requeue seq q r"
    by (rule barrier_inv_move [OF inv, where t = 0 and p = "Publish_resume seq r"])
      (use that ok in \<open>auto simp: publish_requeue_def\<close>)
  show "barrier_inv base (goto s 0 Idle)" if "pc s 0 = Publish_resume seq []"
    by (rule barrier_inv_move [OF inv, where t = 0 and p = Idle]) (use that in auto)
  show "barrier_inv base (publish_take s seq)" if pc: "pc s 0 = Publish_take seq"
  proof -
    define P where "P = (\<lambda>w. precedes seq (target s w))"
    define q where "q = filter P (m_awaiters s)"
    define r where "r = filter (\<lambda>w. \<not> P w) (m_awaiters s)"
    have seq: "small base seq" "reached base s seq []" using ok pc by (simp_all add: reached_def)
    have "P w \<longleftrightarrow> pos base seq < pos base (target s w)" for w
      using precedes_small [OF seq(1) inv_small(1) [OF inv, of w]] by (simp add: P_def)
    then have r: "reached base s seq r" using seq by (auto simp: reached_def r_def not_less)
    have m: "mset (q @ r) = mset (m_awaiters s)" using mset_sorted [of P "m_awaiters s"] by (simp add: q_def r_def)
    define p where "p = (if m_awaiters s = [] then Idle else if q \<noteq> [] then Publish_requeue seq q r else Publish_resume seq r)"
    have s': "publish_take s seq = (goto s 0 p)\<lparr>m_awaiters := []\<rparr>"
      by (simp add: publish_take_def Let_def q_def r_def P_def p_def)
    show ?thesis unfolding s'
      by (rule barrier_inv_move [OF inv, where t = 0 and p = p]) (use pc r m in \<open>auto simp: p_def\<close>)
  qed
qed

lemma barrier_inv_init: "barrier_init base s \<Longrightarrow> barrier_inv base s"
  by (auto simp: barrier_init_def barrier_inv_def lists_ok_def numbers_ok_def op_ok_def in_list_def)

lemma barrier_inv_step:
  assumes inv: "barrier_inv base s" and step: "barrier_step base s t"
  shows "barrier_inv base t"
  using step
proof cases
  case (bs_resume i w ws k)
  then show ?thesis using inv_pc_ok [OF inv, of i] not_publishing [OF inv, of i]
    by (auto intro!: inv_resume_op [OF inv] simp: reached_def)
next
  case (bs_publish_resume seq w ws)
  then show ?thesis using inv_pc_ok [OF inv, of 0]
    by (auto intro!: inv_resume_op [OF inv] simp: reached_def)
qed (use inv in \<open>auto intro: inv_construct inv_begin inv_add inv_exchange inv_publish\<close>)

interpretation barrier_sys: invariant_system "barrier_init base" "barrier_step base" "barrier_inv base"
  by unfold_locales (auto intro: barrier_inv_init barrier_inv_step)

lemma running_satisfied:
  assumes "reachable (barrier_init base) (barrier_step base) s" and run: "pc s t = Running"
  shows "satisfied base s t \<and> runs s t = 1 \<and> small base (last_known s t)"
proof -
  have inv: "barrier_inv base s" using barrier_sys.reachable_inv [OF assms(1)] .
  then have "op_ok base s t" by (simp add: barrier_inv_def)
  then have sat: "satisfied base s t" using run by (auto simp: op_ok_def split: if_splits)
  then have "pos base (target s t) \<le> pos base (last_known s t)" "pos base (last_known s t) \<le> pos base (m_last_published s)"
    by (simp_all add: satisfied_def)
  then have "small base (last_known s t)" using inv_small(1) [OF inv, of t] inv_small(2) [OF inv] by (auto simp: small_def)
  then show ?thesis using sat inv run by (simp add: barrier_inv_def)
qed

section \<open>Two runs\<close>

text \<open>The numbers \<open>base - 1\<close> and \<open>base\<close>, wherever \<open>base\<close> lies.\<close>

definition demo_barrier :: "u64 \<Rightarrow> pc \<Rightarrow> u64 \<Rightarrow> barrier" where
  "demo_barrier base p published = \<lparr>m_last_published = published, m_awaiters = [], target = (\<lambda>_. base),
     last_known = (\<lambda>_. base - 1), m_ready_to_resume = (\<lambda>_. False), pc = (\<lambda>_. Idle)(2 := p), runs = (\<lambda>_. 0)\<rparr>"

lemma pos_base [simp]: "pos base (base - 1) = -1" "pos base base = 0"
  by (simp_all add: pos_def)

lemma small_base [simp]: "small base (base - 1)" "small base base"
  by (simp_all add: small_def)

lemma demo_barrier_init: "barrier_init base (demo_barrier base Idle (base - 1))"
  by (simp add: barrier_init_def demo_barrier_def)

lemma demo_constructed:
  "reachable (barrier_init base) (barrier_step base) (demo_barrier base Constructed (base - 1))"
proof -
  let ?s = "demo_barrier base Idle (base - 1)"
  have "barrier_step base ?s (wait_construct ?s 2 base)"
    by (rule bs_construct) (simp_all add: demo_barrier_def)
  moreover have "wait_construct ?s 2 base = demo_barrier base Constructed (base - 1)"
    by (auto simp: wait_construct_def demo_barrier_def goto_def fun_eq_iff)
  ultimately show ?thesis using demo_barrier_init by (metis reachable.intros)
qed

lemma base_precedes: "precedes (base - 1) base"
  by (simp add: precedes_def difference_def)

text \<open>The producer looks for waiters, and a coroutine starts to wait before it stores.\<close>

lemma lost_wakeup:
  "\<exists>s. reachable (barrier_init base) (barrier_step base) s \<and> pc s = (\<lambda>_. Idle)(2 := Suspended) \<and>
     m_awaiters s = [2] \<and> target s 2 = m_last_published s \<and> runs s 2 = 0"
proof -
  let ?r = "reachable (barrier_init base) (barrier_step base)"
  let ?s1 = "publish_start (demo_barrier base Constructed (base - 1)) base"
  let ?s2 = "wait_begin ?s1 2"
  let ?s3 = "add_enqueue ?s2 2 [2] [] base"
  let ?s4 = "add_check ?s3 2 [] base"
  let ?s5 = "goto ?s4 2 Exchange_flag"
  let ?s6 = "suspend_exchange ?s5 2"
  let ?s7 = "publish_only ?s6 base"
  note d = demo_barrier_def publish_start_def wait_begin_def await_ready_def add_enqueue_def
    add_check_def suspend_exchange_def publish_only_def base_precedes Let_def
  have "?r ?s1" by (rule reachable_step [OF demo_constructed]) (rule bs_publish, simp_all add: d)
  then have "?r ?s2" by (rule reachable_step) (rule bs_begin, simp add: d)
  then have "?r ?s3" by (rule reachable_step) (rule bs_enqueue, simp add: d)
  then have "?r ?s4" by (rule reachable_step) (rule bs_check, simp add: d)
  then have "?r ?s5" by (rule reachable_step) (rule bs_resumed [where k = "base - 1"], simp add: d)
  then have "?r ?s6" by (rule reachable_step) (rule bs_exchange, simp add: d)
  then have "?r ?s7" by (rule reachable_step) (rule bs_publish_only, simp add: d)
  moreover have "pc ?s7 = (\<lambda>_. Idle)(2 := Suspended)" by (auto simp: d fun_eq_iff)
  moreover have "m_awaiters ?s7 = [2]" "target ?s7 2 = m_last_published ?s7" "runs ?s7 2 = 0"
    by (simp_all add: d)
  ultimately show ?thesis by blast
qed

section \<open>Properties\<close>

text \<open>
  C32. A coroutine that waits for a sequence number goes on at most once, and not before that
  number is published: when it runs, the number it is given as published does not precede its
  target, and is not ahead of what the producer has published. This holds however waits,
  publications and resumptions interleave, when the producer publishes in order and all numbers
  of the run lie less than \<open>2 ^ 62\<close> from some number \<open>base\<close>, wherever that lies in the wrapping
  range.
\<close>

theorem barrier_wait_result:
  assumes "reachable (barrier_init base) (barrier_step base) s"
  shows "runs s t \<le> 1 \<and> (runs s t = 1 \<longleftrightarrow> pc s t = Running) \<and>
    (pc s t = Running \<longrightarrow> \<not> precedes (last_known s t) (target s t) \<and>
      \<not> precedes (m_last_published s) (last_known s t))"
proof -
  have inv: "barrier_inv base s" using barrier_sys.reachable_inv [OF assms(1)] .
  then have runs: "runs s t = (if pc s t = Running then 1 else 0)" by (simp add: barrier_inv_def)
  have "\<not> precedes (last_known s t) (target s t) \<and> \<not> precedes (m_last_published s) (last_known s t)"
    if run: "pc s t = Running"
  proof -
    have "satisfied base s t \<and> small base (last_known s t)" using running_satisfied [OF assms run] by simp
    then show ?thesis
      using precedes_small [of base "last_known s t" "target s t"]
        precedes_small [of base "m_last_published s" "last_known s t"]
        inv_small(1) [OF inv, of t] inv_small(2) [OF inv]
      by (simp add: satisfied_def)
  qed
  with runs show ?thesis by simp
qed

text \<open>A run whose numbers lie on both sides of the sign change, \<open>2 ^ 63 - 1\<close> and \<open>2 ^ 63\<close>.\<close>

theorem barrier_wait_result_witness:
  "\<exists>s. reachable (barrier_init (2 ^ 63)) (barrier_step (2 ^ 63)) s \<and> runs s 2 = 1 \<and>
     target s 2 = 2 ^ 63 \<and> \<not> precedes (last_known s 2) (target s 2)"
proof -
  let ?r = "reachable (barrier_init (2 ^ 63)) (barrier_step (2 ^ 63))"
  let ?s0 = "demo_barrier (2 ^ 63) Idle (2 ^ 63 - 1)"
  let ?s1 = "publish_only (publish_start ?s0 (2 ^ 63)) (2 ^ 63)"
  let ?s2 = "wait_construct ?s1 2 (2 ^ 63)"
  let ?s3 = "wait_begin ?s2 2"
  note d = demo_barrier_def publish_start_def publish_only_def wait_construct_def wait_begin_def
    await_ready_def run_coroutine_def
  have same: "\<not> precedes x x" for x :: u64 by (simp add: precedes_def difference_def)
  have "?r ?s0" by (rule reachable_init [of "barrier_init (2 ^ 63)", OF demo_barrier_init])
  then have "?r (publish_start ?s0 (2 ^ 63))"
    by (rule reachable_step) (rule bs_publish, simp_all only: small_base, simp_all add: d pos_def)
  then have "?r ?s1" by (rule reachable_step) (rule bs_publish_only, simp add: d)
  then have "?r ?s2"
    by (rule reachable_step) (rule bs_construct, simp_all only: small_base, simp_all add: d)
  then have reach: "?r ?s3" by (rule reachable_step) (rule bs_begin, simp add: d)
  have "pc ?s3 2 = Running" "target ?s3 2 = 2 ^ 63" by (simp_all add: d same)
  with barrier_wait_result [OF reach, of 2] reach show ?thesis by (intro exI [of _ ?s3]) simp
qed

text \<open>
  A publication can miss a waiter: the producer may have found no waiters and returned after
  its store, while a coroutine that waits for exactly the number it stored stays suspended in
  the queue, with no thread left that would resume it before another number is published.
\<close>

theorem barrier_publish_misses_waiter:
  "\<exists>s. reachable (barrier_init 0) (barrier_step 0) s \<and> pc s = (\<lambda>_. Idle)(2 := Suspended) \<and>
     m_awaiters s = [2] \<and> target s 2 = m_last_published s \<and> runs s 2 = 0"
  by (rule lost_wakeup)

end
