(* ===== verification/Multi_Producer.thy ===== *)
theory Multi_Producer
  imports Sequences
begin

text \<open>
  include/coro/awaitable/multi_producer_sequencer.h: claiming numbers, publishing them in any
  order through an array with one entry per slot of the ring buffer, and waiting for all numbers
  up to a target. The calls are modelled as they run when they do not overlap; the loops that
  look at the array again after an operation was put back are kept, although nothing can change
  in between. Wait operations are numbers.
\<close>

section \<open>State\<close>

record multi_producer =
  m_consumer_published :: u64
  m_sequence_mask :: u64
  m_published :: "u64 list"
  m_next_to_claim :: u64
  m_awaiters :: "nat list"
  m_target_seq :: "nat \<Rightarrow> u64"
  m_last_known :: "nat \<Rightarrow> u64"
  m_ready_to_resume :: "nat \<Rightarrow> bool"
  resumed :: "nat list"

definition slot :: "u64 \<Rightarrow> u64 \<Rightarrow> nat" where
  "slot m seq = unat (seq AND m)"

definition published :: "multi_producer \<Rightarrow> u64 \<Rightarrow> bool" where
  "published s seq \<longleftrightarrow> m_published s ! slot (m_sequence_mask s) seq = seq"

definition buffer_size :: "multi_producer \<Rightarrow> u64" where
  "buffer_size s = m_sequence_mask s + 1"

text \<open>The constructor's loop, from \<open>seq\<close> to \<open>init\<close>.\<close>

function init_published :: "u64 \<Rightarrow> u64 \<Rightarrow> u64 \<Rightarrow> u64 list \<Rightarrow> u64 list" where
  "init_published m init_seq seq p =
     (let p' = p[slot m seq := seq]
      in if seq = init_seq then p' else init_published m init_seq (seq + 1) p')"
  by pat_completeness auto

termination
  by (relation "measure (\<lambda>(m, init_seq, seq, p). unat (init_seq - seq))") (auto intro: unat_step_down)

declare init_published.simps [simp del]

definition multi_producer_new :: "u64 \<Rightarrow> u64 \<Rightarrow> u64 \<Rightarrow> multi_producer" where
  "multi_producer_new consumer sz init_seq =
     \<lparr>m_consumer_published = consumer, m_sequence_mask = sz - 1,
      m_published = init_published (sz - 1) init_seq (init_seq - (sz - 1)) (replicate (unat sz) 0),
      m_next_to_claim = init_seq + 1, m_awaiters = [], m_target_seq = (\<lambda>_. 0), m_last_known = (\<lambda>_. 0),
      m_ready_to_resume = (\<lambda>_. False), resumed = []\<rparr>"

section \<open>Looking at the array\<close>

partial_function (option) published_loop :: "multi_producer \<Rightarrow> u64 \<Rightarrow> u64 \<Rightarrow> u64 option" where
  "published_loop s known seq =
     (if published s seq then published_loop s seq (seq + 1) else Some known)"

definition last_published_after :: "multi_producer \<Rightarrow> u64 \<Rightarrow> u64 option" where
  "last_published_after s known = published_loop s known (known + 1)"

definition any_available :: "multi_producer \<Rightarrow> bool" where
  "any_available s \<longleftrightarrow> precedes (m_next_to_claim s) (m_consumer_published s + buffer_size s)"

section \<open>Claiming\<close>

text \<open>The claimed numbers, and the consumers' number that the awaiter then waits for.\<close>

definition claim_one :: "multi_producer \<Rightarrow> multi_producer \<times> u64 \<times> u64" where
  "claim_one s =
     (let seq = m_next_to_claim s
      in (s\<lparr>m_next_to_claim := seq + 1\<rparr>, seq, seq - buffer_size s))"

definition claim_count :: "multi_producer \<Rightarrow> u64 \<Rightarrow> u64" where
  "claim_count s count = (if count < buffer_size s then count else buffer_size s)"

definition claim_up_to :: "u64 \<Rightarrow> multi_producer \<Rightarrow> multi_producer \<times> sequence_range \<times> u64" where
  "claim_up_to count s =
     (let n = claim_count s count; first = m_next_to_claim s; r = \<lparr>m_begin = first, m_end = first + n\<rparr>
      in (s\<lparr>m_next_to_claim := first + n\<rparr>, r, range_back r - buffer_size s))"

section \<open>Resuming\<close>

text \<open>
  \<open>resume\<close>: the second of the two exchanges of the flag (the first is in \<open>await_suspend\<close>)
  resumes the coroutine.
\<close>

definition resume_op :: "u64 \<Rightarrow> nat \<Rightarrow> multi_producer \<Rightarrow> multi_producer" where
  "resume_op known w s =
     s\<lparr>m_last_known := (m_last_known s)(w := known),
       m_ready_to_resume := (m_ready_to_resume s)(w := True),
       resumed := (if m_ready_to_resume s w then resumed s @ [w] else resumed s)\<rparr>"

definition resume_all :: "u64 \<Rightarrow> nat list \<Rightarrow> multi_producer \<Rightarrow> multi_producer" where
  "resume_all known ws = fold (resume_op known) ws"

definition min_diff :: "(nat \<Rightarrow> u64) \<Rightarrow> u64 \<Rightarrow> nat list \<Rightarrow> int" where
  "min_diff tgt known ws =
     fold (\<lambda>w m. let diff = difference (tgt w) known in if diff > 0 \<and> diff < m then diff else m)
       ws (2 ^ 63 - 1)"

text \<open>The loop after a requeue: whether the earliest target was reached, and the last number.\<close>

partial_function (option) recheck ::
    "multi_producer \<Rightarrow> u64 \<Rightarrow> u64 \<Rightarrow> u64 \<Rightarrow> (bool \<times> u64) option" where
  "recheck s earliest known seq =
     (if published s seq then
        (if seq = earliest then Some (True, seq) else recheck s earliest seq (seq + 1))
      else Some (False, known))"

text \<open>The outer loop: the operations in hand, and those to be resumed in the end.\<close>

partial_function (option) resume_loop ::
    "multi_producer \<Rightarrow> nat list \<Rightarrow> nat list \<Rightarrow> (multi_producer \<times> nat list \<times> u64) option" where
  "resume_loop s ws to_resume =
     Option.bind (last_published_after s (m_last_known s (hd ws))) (\<lambda>known.
       let to_requeue = filter (\<lambda>w. difference (m_target_seq s w) known > 0) ws;
           to_resume' = to_resume @ filter (\<lambda>w. \<not> difference (m_target_seq s w) known > 0) ws;
           s1 = s\<lparr>m_last_known := (\<lambda>w. if w \<in> set ws then known else m_last_known s w)\<rparr>
       in if to_requeue = [] then Some (s1, to_resume', known)
          else (let s2 = s1\<lparr>m_awaiters := to_requeue @ m_awaiters s1\<rparr>;
                    earliest = known + word_of_int (min_diff (m_target_seq s) known ws)
                in Option.bind (recheck s2 earliest known (known + 1)) (\<lambda>(again, known').
                     if again \<and> m_awaiters s2 \<noteq> []
                     then resume_loop (s2\<lparr>m_awaiters := []\<rparr>) (m_awaiters s2) to_resume'
                     else Some (s2, to_resume', known'))))"

definition resume_ready_awaiters :: "multi_producer \<Rightarrow> multi_producer option" where
  "resume_ready_awaiters s =
     (if m_awaiters s = [] then Some s
      else map_option (\<lambda>(s', to_resume, known). resume_all known to_resume s')
        (resume_loop (s\<lparr>m_awaiters := []\<rparr>) (m_awaiters s) []))"

section \<open>Publishing\<close>

definition store_published :: "u64 \<Rightarrow> multi_producer \<Rightarrow> multi_producer" where
  "store_published seq s =
     s\<lparr>m_published := (m_published s)[slot (m_sequence_mask s) seq := seq]\<rparr>"

definition publish :: "u64 \<Rightarrow> multi_producer \<Rightarrow> multi_producer option" where
  "publish seq s = resume_ready_awaiters (store_published seq s)"

definition store_range :: "sequence_range \<Rightarrow> multi_producer \<Rightarrow> multi_producer" where
  "store_range r s = store_published (range_front r) (fold store_published (range_elements (range_skip r 1)) s)"

definition publish_range :: "sequence_range \<Rightarrow> multi_producer \<Rightarrow> multi_producer option" where
  "publish_range r s = (if range_empty r then Some s else resume_ready_awaiters (store_range r s))"

section \<open>Waiting\<close>

text \<open>
  The loop of \<open>add_awaiter\<close>. It compares \<open>target_seq\<close>, the local variable, where each operation's
  own target is meant; that is how the code has it.
\<close>

partial_function (option) add_loop ::
    "multi_producer \<Rightarrow> nat list \<Rightarrow> nat list \<Rightarrow> u64 \<Rightarrow> u64 \<Rightarrow> (multi_producer \<times> nat list \<times> u64) option" where
  "add_loop s to_enqueue to_resume target_seq known =
     (let s1 = s\<lparr>m_awaiters := to_enqueue @ m_awaiters s\<rparr>
      in Option.bind (last_published_after s1 known) (\<lambda>known.
           if precedes known target_seq then Some (s1, to_resume, known)
           else (let ws = m_awaiters s1; diff = difference target_seq known;
                     s2 = s1\<lparr>m_awaiters := []\<rparr>
                 in if diff > 0 \<and> ws \<noteq> []
                    then add_loop (s2\<lparr>m_last_known := (\<lambda>w. if w \<in> set ws then known else m_last_known s2 w)\<rparr>)
                      ws to_resume (known + word_of_int diff) known
                    else Some (s2, to_resume @ (if diff > 0 then [] else ws), known))))"

definition add_awaiter :: "nat \<Rightarrow> multi_producer \<Rightarrow> multi_producer option" where
  "add_awaiter w s =
     map_option (\<lambda>(s', to_resume, known). resume_all known to_resume s')
       (add_loop s [w] [] (m_target_seq s w) (m_last_known s w))"

definition wait_until_published :: "nat \<Rightarrow> u64 \<Rightarrow> u64 \<Rightarrow> multi_producer \<Rightarrow> multi_producer" where
  "wait_until_published w target_seq known s =
     s\<lparr>m_target_seq := (m_target_seq s)(w := target_seq), m_last_known := (m_last_known s)(w := known),
       m_ready_to_resume := (m_ready_to_resume s)(w := False)\<rparr>"

definition await_ready :: "nat \<Rightarrow> multi_producer \<Rightarrow> bool" where
  "await_ready w s \<longleftrightarrow> \<not> precedes (m_last_known s w) (m_target_seq s w)"

text \<open>\<open>await_suspend\<close>: whether the coroutine stays suspended.\<close>

definition await_suspend :: "nat \<Rightarrow> multi_producer \<Rightarrow> (multi_producer \<times> bool) option" where
  "await_suspend w s =
     map_option (\<lambda>s'. (s'\<lparr>m_ready_to_resume := (m_ready_to_resume s')(w := True)\<rparr>, \<not> m_ready_to_resume s' w))
       (add_awaiter w s)"

section \<open>The array\<close>

text \<open>A buffer of \<open>2 ^ k\<close> slots.\<close>

definition mp_ok :: "nat \<Rightarrow> multi_producer \<Rightarrow> bool" where
  "mp_ok k s \<longleftrightarrow> k \<le> 60 \<and> m_sequence_mask s = mask k \<and> length (m_published s) = 2 ^ k"

lemma slot_word_of_int: "slot (mask k) (word_of_int i) = unat (ring_slot k i)"
  by (simp add: slot_def ring_slot_def)

lemma slot_position: "slot (mask k) seq = unat (ring_slot k (uint seq))"
  by (simp add: slot_def ring_slot_def)

lemma slot_lap: "k \<le> 64 \<Longrightarrow> slot (mask k) (seq + 2 ^ k) = slot (mask k) seq"
proof -
  assume k: "k \<le> 64"
  have "seq + 2 ^ k = word_of_int (uint seq + 2 ^ k)" by simp
  moreover have "ring_slot k (uint seq + 2 ^ k) = ring_slot k (uint seq)" using k by (simp add: ring_slot_eq)
  ultimately show ?thesis by (simp only: slot_word_of_int slot_position [of k seq])
qed

text \<open>The run of published numbers after a number is shorter than a lap.\<close>

lemma published_gap:
  assumes "mp_ok k s"
  shows "\<exists>n\<le>2 ^ k. \<not> published s (seq + of_nat n) \<and> (\<forall>i<n. published s (seq + of_nat i))"
proof -
  have k: "k \<le> 60" and m: "m_sequence_mask s = mask k" using assms by (simp_all add: mp_ok_def)
  have two: "(of_nat (2 ^ k) :: u64) = 2 ^ k" by simp
  have "(2 :: nat) ^ k < 2 ^ 64" using k by (intro power_strict_increasing) auto
  then have "unat (of_nat (2 ^ k) :: u64) = 2 ^ k" by (subst unat_of_nat) (rule mod_less, simp)
  then have "(2 ^ k :: u64) \<noteq> 0" unfolding two by (metis power_not_zero zero_neq_numeral unat_0)
  then have "\<not> (published s seq \<and> published s (seq + 2 ^ k))"
    using slot_lap [of k seq] k by (auto simp: published_def m)
  then have "\<not> published s (seq + of_nat 0) \<or> \<not> published s (seq + of_nat (2 ^ k))" unfolding two by simp
  then obtain j where j: "j \<le> 2 ^ k" "\<not> published s (seq + of_nat j)" by (metis le_refl le0)
  define n where "n = (LEAST i. \<not> published s (seq + of_nat i))"
  have "\<not> published s (seq + of_nat n)" unfolding n_def by (rule LeastI [of _ j]) (rule j(2))
  moreover have "\<forall>i<n. published s (seq + of_nat i)" unfolding n_def using not_less_Least by blast
  moreover have "n \<le> 2 ^ k" using Least_le [of "\<lambda>i. \<not> published s (seq + of_nat i)" j] j by (simp add: n_def)
  ultimately show ?thesis by blast
qed

lemma published_loop_run:
  assumes "\<not> published s (seq + of_nat n)" "\<forall>i<n. published s (seq + of_nat i)" "i \<le> n"
  shows "published_loop s (seq + of_nat i - 1) (seq + of_nat i) = Some (seq + of_nat n - 1)"
  using assms(3)
proof (induction rule: inc_induct)
  case base
  then show ?case using assms(1) by (simp add: published_loop.simps)
next
  case (step i)
  then have "published s (seq + of_nat i)" using assms(2) by simp
  then show ?case using step by (subst published_loop.simps) (simp add: algebra_simps)
qed

lemma last_published_after_result:
  assumes "mp_ok k s"
  shows "\<exists>n\<le>2 ^ k. last_published_after s known = Some (known + of_nat n) \<and>
    \<not> published s (known + of_nat n + 1) \<and> (\<forall>i<n. published s (known + of_nat i + 1))"
proof -
  obtain n where n: "n \<le> 2 ^ k" "\<not> published s (known + 1 + of_nat n)"
    "\<forall>i<n. published s (known + 1 + of_nat i)"
    using published_gap [OF assms, of "known + 1"] by auto
  have "published_loop s known (known + 1) = Some (known + of_nat n)"
    using published_loop_run [OF n(2,3), of 0] by (simp add: algebra_simps)
  then show ?thesis using n by (auto simp: last_published_after_def algebra_simps intro!: exI [of _ n])
qed

section \<open>Publishing a range\<close>

lemma store_published_mask [simp]: "m_sequence_mask (store_published seq s) = m_sequence_mask s"
  by (simp add: store_published_def)

lemma fold_store_mask [simp]: "m_sequence_mask (fold store_published xs s) = m_sequence_mask s"
  by (induction xs arbitrary: s) simp_all

lemma store_published_commute:
  "slot (m_sequence_mask s) a \<noteq> slot (m_sequence_mask s) b \<Longrightarrow>
    store_published a (store_published b s) = store_published b (store_published a s)"
  by (simp add: store_published_def list_update_swap)

lemma store_published_fold:
  "\<forall>b\<in>set xs. slot (m_sequence_mask s) a \<noteq> slot (m_sequence_mask s) b \<Longrightarrow>
    store_published a (fold store_published xs s) = fold store_published xs (store_published a s)"
  by (induction xs arbitrary: s) (simp_all add: store_published_commute)

lemma range_slots_differ:
  assumes k: "k \<le> 60" and i: "0 < i" "i < 2 ^ k"
  shows "slot (mask k) (b + of_nat i) \<noteq> slot (mask k) b"
proof -
  have e: "b + of_nat i = word_of_int (uint b + int i)" by simp
  have "int i < 2 ^ k" using i(2) by (metis of_nat_less_iff of_nat_numeral of_nat_power)
  then have "ring_slot k (uint b) \<noteq> ring_slot k (uint b + int i)"
    using k i by (intro ring_slot_neq) simp_all
  then show ?thesis unfolding e slot_word_of_int slot_position [of k b] by (simp add: word_unat_eq_iff)
qed

lemma store_range_fold:
  assumes "mp_ok k s" "\<not> range_empty r" "unat (range_size r) \<le> 2 ^ k"
  shows "store_range r s = fold store_published (range_elements r) s"
proof -
  have k: "k \<le> 60" and m: "m_sequence_mask s = mask k" using assms(1) by (simp_all add: mp_ok_def)
  define n where "n = unat (range_size r)"
  have "m_end r - m_begin r \<noteq> 0" using assms(2) by (auto simp: range_empty_def)
  then have n0: "0 < n" by (simp add: n_def range_size_eq unat_gt_0)
  then have "1 \<le> range_size r" by (simp add: n_def word_le_nat_alt)
  then have "range_elements (range_first r 1) = [m_begin r]"
    by (simp add: range_elements_map range_first_def Let_def min_def range_size_eq)
  then have el: "range_elements r = m_begin r # range_elements (range_skip r 1)"
    using range_split [of r 1] by simp
  have "range_elements r = map (\<lambda>i. m_begin r + of_nat i) [0..<n]" by (simp add: range_elements_map n_def)
  then have "m_begin r # range_elements (range_skip r 1) = m_begin r # map (\<lambda>i. m_begin r + of_nat i) [1..<n]"
    using el n0 by (simp add: upt_conv_Cons)
  then have tl: "range_elements (range_skip r 1) = map (\<lambda>i. m_begin r + of_nat i) [1..<n]" by simp
  have "\<forall>b\<in>set (range_elements (range_skip r 1)).
      slot (m_sequence_mask s) (m_begin r) \<noteq> slot (m_sequence_mask s) b"
  proof
    fix b assume "b \<in> set (range_elements (range_skip r 1))"
    then obtain i where i: "1 \<le> i" "i < n" "b = m_begin r + of_nat i" by (auto simp: tl)
    then have "i < 2 ^ k" using assms(3) by (simp add: n_def)
    with range_slots_differ [OF k, of i "m_begin r"] i
    show "slot (m_sequence_mask s) (m_begin r) \<noteq> slot (m_sequence_mask s) b" by (simp add: m)
  qed
  from store_published_fold [OF this] show ?thesis
    by (simp add: store_range_def range_front_def el)
qed

section \<open>A new sequencer\<close>

lemma length_init_published: "length (init_published m init_seq seq p) = length p"
proof (induction m init_seq seq p rule: init_published.induct)
  case (1 m init_seq seq p)
  then show ?case by (subst init_published.simps) (simp add: Let_def)
qed

lemma mp_ok_new:
  assumes "k \<le> 60"
  shows "mp_ok k (multi_producer_new c (2 ^ k) init_seq)"
proof -
  have "(2 :: nat) ^ k < 2 ^ 64" using assms by (intro power_strict_increasing) auto
  then have "unat (of_nat (2 ^ k) :: u64) = 2 ^ k" by (subst unat_of_nat) (rule mod_less, simp)
  then have "unat (2 ^ k :: u64) = 2 ^ k" by simp
  then show ?thesis using assms
    by (simp add: mp_ok_def multi_producer_new_def length_init_published mask_eq_exp_minus_1)
qed

section \<open>Properties\<close>

text \<open>
  Looking for the last published number returns for every content of the array and every
  starting point: it stops within one lap of the buffer, at the first number that is not
  published, so all numbers up to the one it returns are published.
\<close>

theorem last_published_after_stops:
  assumes "mp_ok k s"
  shows "\<exists>n\<le>2 ^ k. last_published_after s known = Some (known + of_nat n) \<and>
    \<not> published s (known + of_nat n + 1) \<and> (\<forall>i<n. published s (known + of_nat i + 1))"
  by (rule last_published_after_result [OF assms])

theorem last_published_after_stops_witness:
  "\<exists>n\<le>8. last_published_after (multi_producer_new 0 8 5) 3 = Some (3 + of_nat n)"
  using last_published_after_stops [OF mp_ok_new [of 3 0 5], of 3] by auto

text \<open>
  Publishing a range that fits the buffer, which stores all numbers but the first and then the
  first, leaves the array as publishing the numbers one by one would, in order.
\<close>

theorem publish_range_equivalent:
  assumes "mp_ok k s" and "\<not> range_empty r" and "unat (range_size r) \<le> 2 ^ k"
  shows "publish_range r s = resume_ready_awaiters (fold store_published (range_elements r) s)"
  using store_range_fold [OF assms] assms(2) by (simp add: publish_range_def)

theorem publish_range_equivalent_witness:
  "publish_range \<lparr>m_begin = 6, m_end = 9\<rparr> (multi_producer_new 0 8 5) =
    resume_ready_awaiters (fold store_published (range_elements \<lparr>m_begin = 6, m_end = 9\<rparr>) (multi_producer_new 0 8 5))"
  by (rule publish_range_equivalent [of 3])
    (use mp_ok_new [of 3 0 5] in \<open>simp_all add: range_empty_def range_size_eq\<close>)

definition demo_sequencer :: multi_producer where
  "demo_sequencer = \<lparr>m_consumer_published = 1, m_sequence_mask = 3, m_published = [4, 5, 2, 3],
     m_next_to_claim = 6, m_awaiters = [0], m_target_seq = (\<lambda>_. 4)(0 := 7), m_last_known = (\<lambda>_. 3)(0 := 5),
     m_ready_to_resume = (\<lambda>w. w = 0), resumed = []\<rparr>"

lemma demo_sequencer_published:
  "published_loop (demo_sequencer\<lparr>m_awaiters := x\<rparr>) 3 4 = Some 5"
proof -
  have "published (demo_sequencer\<lparr>m_awaiters := x\<rparr>) 4" "published (demo_sequencer\<lparr>m_awaiters := x\<rparr>) 5"
    "\<not> published (demo_sequencer\<lparr>m_awaiters := x\<rparr>) 6"
    by (simp_all add: published_def demo_sequencer_def slot_def)
  then show ?thesis
    by (simp add: published_loop.simps [of _ 3 4] published_loop.simps [of _ 4 5] published_loop.simps [of _ 5 6])
qed

text \<open>
  A wait can end too early. Operation 0 is suspended until 7 is published and knows of 5; when
  operation 2, which knows of 3, starts to wait for 4, it finds 5 published, takes the whole
  queue over and resumes every operation in it because its own target is reached: operation 0
  goes on although 7 is not published.
\<close>

theorem add_awaiter_resumes_unready:
  "\<exists>s'. add_awaiter 2 demo_sequencer = Some s' \<and> resumed s' = [0] \<and>
    precedes (m_last_known s' 0) (m_target_seq s' 0) \<and> \<not> published s' 7"
proof -
  have loop: "add_loop demo_sequencer [2] [] 4 3 = Some (demo_sequencer\<lparr>m_awaiters := []\<rparr>, [2, 0], 5)"
    by (subst add_loop.simps)
      (simp add: last_published_after_def demo_sequencer_published precedes_def difference_def,
       simp add: demo_sequencer_def)
  have "add_awaiter 2 demo_sequencer = Some (resume_all 5 [2, 0] (demo_sequencer\<lparr>m_awaiters := []\<rparr>))"
  proof -
    have "m_target_seq demo_sequencer 2 = 4" "m_last_known demo_sequencer 2 = 3"
      by (simp_all add: demo_sequencer_def)
    then show ?thesis by (simp add: add_awaiter_def loop)
  qed
  then show ?thesis
    by (simp add: resume_all_def resume_op_def demo_sequencer_def precedes_def difference_def
        published_def slot_def)
qed

end
