(* ===== verification/Sequencer_Waiting.thy ===== *)
theory Sequencer_Waiting
  imports Sequences
begin

text \<open>
  Waiting for published numbers in include/coro/awaitable/multi_producer_sequencer.h while calls overlap:
  \<open>publish\<close>, \<open>resume_ready_awaiters\<close>, \<open>add_awaiter\<close> and \<open>await_suspend\<close> on any number of threads, one access
  of shared memory to a step. Sequence numbers wrap at 64 bits and are compared by the traits of Sequences.
  Multi_Producer has the same functions as calls that do not overlap. The compare-and-exchange loops that put
  a list in front of \<open>m_awaiters\<close> are one step, the one that succeeds.

  What does not calculate with sequence numbers leaves their type open, because Sequencer_Positions uses it
  for the integers that the numbers stand for. Sequencer_Wakeups has the properties.
\<close>

section \<open>State\<close>

text \<open>
  A thread that publishes: the numbers still to be stored; before it loads and exchanges \<open>m_awaiters\<close>;
  looking for the last published number, with the awaiters in hand, those to be resumed and the number it
  is at; with a list to be put back and the earliest target in it; looking again; before it takes the
  list again; resuming. A thread that waits: in \<open>add_awaiter\<close>, with the list to be put in, those to be
  resumed, its \<open>target_seq\<close> and \<open>last_known_published\<close>; at the exchange of its flag; suspended; past the wait.
  A wait operation has the name of its thread.
\<close>

datatype 'n sequencer_pc =
    Idle
  | P_store "'n list"
  | P_load
  | P_exchange
  | P_scan "nat list" "nat list" 'n
  | P_requeue "nat list" "nat list" 'n 'n
  | P_recheck "nat list" 'n 'n
  | P_reacquire "nat list" 'n
  | P_resume "nat list" 'n
  | W_enqueue "nat list" "nat list" 'n 'n
  | W_scan "nat list" 'n 'n
  | W_take "nat list" 'n 'n
  | W_resume "nat list" 'n
  | W_flag
  | W_suspended
  | W_continued

text \<open>
  \<open>known_at_start\<close> and \<open>continued\<close> are not in the code: the number that an operation was made with, and how
  often its coroutine went on.
\<close>

record 'n waiting =
  m_sequence_mask :: 'n
  m_published :: "'n \<Rightarrow> 'n"
  m_awaiters :: "nat list"
  m_target_seq :: "nat \<Rightarrow> 'n"
  m_last_known_published :: "nat \<Rightarrow> 'n"
  m_ready_to_resume :: "nat \<Rightarrow> bool"
  known_at_start :: "nat \<Rightarrow> 'n"
  continued :: "nat \<Rightarrow> nat"
  pc :: "nat \<Rightarrow> 'n sequencer_pc"

definition buffer_size :: "'n::{plus, one} waiting \<Rightarrow> 'n" where
  "buffer_size s = m_sequence_mask s + 1"

definition goto :: "nat \<Rightarrow> 'n sequencer_pc \<Rightarrow> 'n waiting \<Rightarrow> 'n waiting" where
  "goto t p s = s\<lparr>pc := (pc s)(t := p)\<rparr>"

text \<open>The constructor, for a buffer of \<open>2 ^ k\<close> slots: it stores the numbers from \<open>init_seq - (size - 1)\<close> on.\<close>

definition waiting_init :: "nat \<Rightarrow> u64 \<Rightarrow> u64 waiting \<Rightarrow> bool" where
  "waiting_init k init_seq s \<longleftrightarrow> k \<le> 60 \<and> m_sequence_mask s = 2 ^ k - 1 \<and>
     (\<forall>i<2 ^ k. m_published s ((init_seq - of_nat i) AND m_sequence_mask s) = init_seq - of_nat i) \<and>
     m_awaiters s = [] \<and> (\<forall>w. \<not> m_ready_to_resume s w) \<and> (\<forall>w. continued s w = 0) \<and> (\<forall>t. pc s t = Idle)"

definition published :: "u64 waiting \<Rightarrow> u64 \<Rightarrow> bool" where
  "published s seq \<longleftrightarrow> m_published s (seq AND m_sequence_mask s) = seq"

text \<open>The coroutine of a wait operation goes on.\<close>

definition continue :: "nat \<Rightarrow> 'n waiting \<Rightarrow> 'n waiting" where
  "continue w s = goto w W_continued (s\<lparr>continued := (continued s)(w := Suc (continued s w))\<rparr>)"

section \<open>Resuming\<close>

text \<open>\<open>resume\<close> of a wait operation: the number, then the exchange of the flag.\<close>

definition resume_op :: "'n \<Rightarrow> nat \<Rightarrow> 'n waiting \<Rightarrow> 'n waiting" where
  "resume_op known w s =
     (let s1 = s\<lparr>m_last_known_published := (m_last_known_published s)(w := known),
                m_ready_to_resume := (m_ready_to_resume s)(w := True)\<rparr>
      in if m_ready_to_resume s w then continue w s1 else s1)"

section \<open>Publishing\<close>

text \<open>
  One store of \<open>publish\<close>. A range is published by several, the first number last in the code; the steps allow
  the numbers of a call in any order.
\<close>

definition store_number :: "nat \<Rightarrow> u64 \<Rightarrow> u64 list \<Rightarrow> u64 waiting \<Rightarrow> u64 waiting" where
  "store_number t seq rest s =
     goto t (if rest = [] then P_load else P_store rest)
       (s\<lparr>m_published := (m_published s)(seq AND m_sequence_mask s := seq)\<rparr>)"

definition load_awaiters :: "nat \<Rightarrow> 'n waiting \<Rightarrow> 'n waiting" where
  "load_awaiters t s = goto t (if m_awaiters s = [] then Idle else P_exchange) s"

definition exchange_awaiters :: "nat \<Rightarrow> 'n waiting \<Rightarrow> 'n waiting" where
  "exchange_awaiters t s =
     (case m_awaiters s of
        [] \<Rightarrow> goto t Idle s
      | w # ws \<Rightarrow> goto t (P_scan (w # ws) [] (m_last_known_published s w)) (s\<lparr>m_awaiters := []\<rparr>))"

text \<open>The loop that divides the awaiters also finds the least distance that is left to a target.\<close>

definition min_diff :: "(nat \<Rightarrow> u64) \<Rightarrow> u64 \<Rightarrow> nat list \<Rightarrow> int" where
  "min_diff tgt known ws =
     fold (\<lambda>w m. let diff = difference (tgt w) known in if diff > 0 \<and> diff < m then diff else m) ws (2 ^ 63 - 1)"

text \<open>
  One load of \<open>last_published_after\<close>; at its end the awaiters in hand, which no other thread has, are told
  the number and divided.
\<close>

definition scan_published :: "nat \<Rightarrow> nat list \<Rightarrow> nat list \<Rightarrow> u64 \<Rightarrow> u64 waiting \<Rightarrow> u64 waiting" where
  "scan_published t ws to_resume known s =
     (if published s (known + 1) then goto t (P_scan ws to_resume (known + 1)) s
      else let to_requeue = filter (\<lambda>w. difference (m_target_seq s w) known > 0) ws;
               to_resume' = to_resume @ filter (\<lambda>w. \<not> difference (m_target_seq s w) known > 0) ws;
               s1 = s\<lparr>m_last_known_published := (\<lambda>w. if w \<in> set ws then known else m_last_known_published s w)\<rparr>
           in goto t (if to_requeue = [] then P_resume to_resume' known
                      else P_requeue to_requeue to_resume' known
                        (known + word_of_int (min_diff (m_target_seq s) known ws))) s1)"

definition requeue_awaiters :: "nat \<Rightarrow> nat list \<Rightarrow> nat list \<Rightarrow> 'n \<Rightarrow> 'n \<Rightarrow> 'n waiting \<Rightarrow> 'n waiting" where
  "requeue_awaiters t ws to_resume known earliest s =
     goto t (P_recheck to_resume known earliest) (s\<lparr>m_awaiters := ws @ m_awaiters s\<rparr>)"

definition recheck :: "nat \<Rightarrow> nat list \<Rightarrow> u64 \<Rightarrow> u64 \<Rightarrow> u64 waiting \<Rightarrow> u64 waiting" where
  "recheck t to_resume known earliest s =
     goto t (if published s (known + 1)
             then if known + 1 = earliest then P_reacquire to_resume (known + 1)
                  else P_recheck to_resume (known + 1) earliest
             else P_resume to_resume known) s"

definition reacquire :: "nat \<Rightarrow> nat list \<Rightarrow> 'n \<Rightarrow> 'n waiting \<Rightarrow> 'n waiting" where
  "reacquire t to_resume known s =
     (case m_awaiters s of
        [] \<Rightarrow> goto t (P_resume to_resume known) s
      | w # ws \<Rightarrow> goto t (P_scan (w # ws) to_resume (m_last_known_published s w)) (s\<lparr>m_awaiters := []\<rparr>))"

definition publisher_resume :: "nat \<Rightarrow> nat list \<Rightarrow> 'n \<Rightarrow> 'n waiting \<Rightarrow> 'n waiting" where
  "publisher_resume t to_resume known s =
     (case to_resume of
        [] \<Rightarrow> goto t Idle s
      | w # ws \<Rightarrow> resume_op known w (goto t (P_resume ws known) s))"

section \<open>Waiting\<close>

text \<open>The operation is made, and \<open>await_ready\<close> decides whether it waits.\<close>

definition wait_until_published :: "nat \<Rightarrow> u64 \<Rightarrow> u64 \<Rightarrow> u64 waiting \<Rightarrow> u64 waiting" where
  "wait_until_published w target_seq known s =
     (let s1 = s\<lparr>m_target_seq := (m_target_seq s)(w := target_seq),
                m_last_known_published := (m_last_known_published s)(w := known),
                m_ready_to_resume := (m_ready_to_resume s)(w := False),
                known_at_start := (known_at_start s)(w := known)\<rparr>
      in if precedes known target_seq then goto w (W_enqueue [w] [] target_seq known) s1 else continue w s1)"

definition enqueue_awaiters :: "nat \<Rightarrow> nat list \<Rightarrow> nat list \<Rightarrow> 'n \<Rightarrow> 'n \<Rightarrow> 'n waiting \<Rightarrow> 'n waiting" where
  "enqueue_awaiters t ws to_resume target_seq known s =
     goto t (W_scan to_resume target_seq known) (s\<lparr>m_awaiters := ws @ m_awaiters s\<rparr>)"

definition awaiter_scan :: "nat \<Rightarrow> nat list \<Rightarrow> u64 \<Rightarrow> u64 \<Rightarrow> u64 waiting \<Rightarrow> u64 waiting" where
  "awaiter_scan t to_resume target_seq known s =
     goto t (if published s (known + 1) then W_scan to_resume target_seq (known + 1)
             else if precedes known target_seq then W_resume to_resume known
             else W_take to_resume target_seq known) s"

text \<open>As the code has it, \<open>target_seq\<close> is compared for every awaiter that is taken.\<close>

definition awaiter_take :: "nat \<Rightarrow> nat list \<Rightarrow> u64 \<Rightarrow> u64 \<Rightarrow> u64 waiting \<Rightarrow> u64 waiting" where
  "awaiter_take t to_resume target_seq known s =
     (let ws = m_awaiters s; diff = difference target_seq known; s1 = s\<lparr>m_awaiters := []\<rparr>
      in if diff > 0 \<and> ws \<noteq> []
         then goto t (W_enqueue ws to_resume (known + word_of_int diff) known)
           (s1\<lparr>m_last_known_published := (\<lambda>w. if w \<in> set ws then known else m_last_known_published s w)\<rparr>)
         else goto t (W_resume (to_resume @ (if diff > 0 then [] else ws)) known) s1)"

definition awaiter_resume :: "nat \<Rightarrow> nat list \<Rightarrow> 'n \<Rightarrow> 'n waiting \<Rightarrow> 'n waiting" where
  "awaiter_resume t to_resume known s =
     (case to_resume of
        [] \<Rightarrow> goto t W_flag s
      | w # ws \<Rightarrow> resume_op known w (goto t (W_resume ws known) s))"

text \<open>The end of \<open>await_suspend\<close>.\<close>

definition suspend_or_continue :: "nat \<Rightarrow> 'n waiting \<Rightarrow> 'n waiting" where
  "suspend_or_continue w s =
     (let s1 = s\<lparr>m_ready_to_resume := (m_ready_to_resume s)(w := True)\<rparr>
      in if m_ready_to_resume s w then continue w s1 else goto w W_suspended s1)"

section \<open>Steps\<close>

text \<open>An operation that waits: it is suspended, or on its way there and not resumed yet.\<close>

fun adds :: "'n sequencer_pc \<Rightarrow> bool" where
  "adds (W_enqueue ws tr tgt known) = True"
| "adds (W_scan tr tgt known) = True"
| "adds (W_take tr tgt known) = True"
| "adds (W_resume tr known) = True"
| "adds W_flag = True"
| "adds p = False"

definition waits :: "'n waiting \<Rightarrow> nat \<Rightarrow> bool" where
  "waits s w \<longleftrightarrow> pc s w = W_suspended \<or> adds (pc s w) \<and> \<not> m_ready_to_resume s w"

text \<open>
  What the code's comments assume of its users, and how long a thread may be held up. A number is published
  once, when its slot has the number one lap before, less than two laps after the number of any slot, and no
  more than a lap after what an operation that waits knew when it was made, because its consumer has not
  released more. While a thread is in one of the two loops that look at the array for awaiters it has put
  back, the numbers get no further than \<open>2 ^ 61\<close> from the one it looks at, or from the one it began with.
\<close>

definition may_store :: "u64 \<Rightarrow> u64 waiting \<Rightarrow> bool" where
  "may_store seq s \<longleftrightarrow> m_published s (seq AND m_sequence_mask s) = seq - buffer_size s \<and>
     (\<forall>x. difference seq (m_published s (x AND m_sequence_mask s)) < 2 * uint (buffer_size s)) \<and>
     (\<forall>w. waits s w \<longrightarrow> difference seq (known_at_start s w) \<le> uint (buffer_size s)) \<and>
     (\<forall>t tr known e. pc s t = P_recheck tr known e \<longrightarrow> difference seq known \<le> 2 ^ 61) \<and>
     (\<forall>t tr tgt known. pc s t = W_scan tr tgt known \<longrightarrow> difference seq (known_at_start s t) \<le> 2 ^ 61)"

text \<open>Who waits knows of a number that was published in the lap under way, and names a target no further than \<open>2 ^ 62\<close> from it.\<close>

definition may_wait :: "u64 \<Rightarrow> u64 \<Rightarrow> u64 waiting \<Rightarrow> bool" where
  "may_wait target_seq known s \<longleftrightarrow> \<bar>difference target_seq known\<bar> \<le> 2 ^ 62 \<and>
     (\<forall>x. difference (m_published s (x AND m_sequence_mask s)) known \<in> {- uint (buffer_size s)<..uint (buffer_size s)})"

inductive waiting_step :: "u64 waiting \<Rightarrow> u64 waiting \<Rightarrow> bool" where
  ws_publish: "pc s t = Idle \<Longrightarrow> seqs \<noteq> [] \<Longrightarrow> waiting_step s (goto t (P_store seqs) s)"
| ws_store: "pc s t = P_store (seq # rest) \<Longrightarrow> may_store seq s \<Longrightarrow> waiting_step s (store_number t seq rest s)"
| ws_load: "pc s t = P_load \<Longrightarrow> waiting_step s (load_awaiters t s)"
| ws_exchange: "pc s t = P_exchange \<Longrightarrow> waiting_step s (exchange_awaiters t s)"
| ws_scan: "pc s t = P_scan ws tr known \<Longrightarrow> waiting_step s (scan_published t ws tr known s)"
| ws_requeue: "pc s t = P_requeue ws tr known e \<Longrightarrow> waiting_step s (requeue_awaiters t ws tr known e s)"
| ws_recheck: "pc s t = P_recheck tr known e \<Longrightarrow> waiting_step s (recheck t tr known e s)"
| ws_reacquire: "pc s t = P_reacquire tr known \<Longrightarrow> waiting_step s (reacquire t tr known s)"
| ws_publisher_resume: "pc s t = P_resume tr known \<Longrightarrow> waiting_step s (publisher_resume t tr known s)"
| ws_wait: "pc s w = Idle \<Longrightarrow> may_wait target_seq known s \<Longrightarrow> waiting_step s (wait_until_published w target_seq known s)"
| ws_enqueue: "pc s t = W_enqueue ws tr tgt known \<Longrightarrow> waiting_step s (enqueue_awaiters t ws tr tgt known s)"
| ws_awaiter_scan: "pc s t = W_scan tr tgt known \<Longrightarrow> waiting_step s (awaiter_scan t tr tgt known s)"
| ws_take: "pc s t = W_take tr tgt known \<Longrightarrow> waiting_step s (awaiter_take t tr tgt known s)"
| ws_awaiter_resume: "pc s t = W_resume tr known \<Longrightarrow> waiting_step s (awaiter_resume t tr known s)"
| ws_suspend: "pc s t = W_flag \<Longrightarrow> waiting_step s (suspend_or_continue t s)"

abbreviation waiting_reachable :: "nat \<Rightarrow> u64 \<Rightarrow> u64 waiting \<Rightarrow> bool" where
  "waiting_reachable k init_seq \<equiv> reachable (waiting_init k init_seq) waiting_step"

section \<open>Selectors\<close>

lemma waiting_goto_simps [simp]:
  "m_sequence_mask (goto t p s) = m_sequence_mask s" "m_published (goto t p s) = m_published s"
  "m_awaiters (goto t p s) = m_awaiters s" "m_target_seq (goto t p s) = m_target_seq s"
  "m_last_known_published (goto t p s) = m_last_known_published s" "m_ready_to_resume (goto t p s) = m_ready_to_resume s"
  "known_at_start (goto t p s) = known_at_start s" "continued (goto t p s) = continued s"
  "pc (goto t p s) = (pc s)(t := p)"
  by (simp_all add: goto_def)

lemma buffer_size_simps [simp]:
  "buffer_size (goto t p s) = buffer_size s" "buffer_size (s\<lparr>m_published := a\<rparr>) = buffer_size s"
  "buffer_size (s\<lparr>m_awaiters := b\<rparr>) = buffer_size s" "buffer_size (s\<lparr>m_target_seq := c\<rparr>) = buffer_size s"
  "buffer_size (s\<lparr>m_last_known_published := c\<rparr>) = buffer_size s" "buffer_size (s\<lparr>m_ready_to_resume := d\<rparr>) = buffer_size s"
  "buffer_size (s\<lparr>known_at_start := c\<rparr>) = buffer_size s" "buffer_size (s\<lparr>continued := f\<rparr>) = buffer_size s"
  "buffer_size (s\<lparr>pc := g\<rparr>) = buffer_size s"
  by (simp_all add: buffer_size_def)

end
