(* ===== verification/Sequencer_Positions.thy ===== *)
theory Sequencer_Positions
  imports Sequencer_Waiting
begin

text \<open>
  The operations of Sequencer_Waiting on the integers that sequence numbers stand for, without wrap-around,
  and the invariant of publishing and waiting. Sequencer_Wakeups shows that the code's numbers follow them.
\<close>

section \<open>Operations\<close>

definition published_at :: "int waiting \<Rightarrow> int \<Rightarrow> bool" where
  "published_at s seq \<longleftrightarrow> m_published s (seq mod buffer_size s) = seq"

definition store_at :: "nat \<Rightarrow> int \<Rightarrow> int list \<Rightarrow> int waiting \<Rightarrow> int waiting" where
  "store_at t seq rest s =
     goto t (if rest = [] then P_load else P_store rest)
       (s\<lparr>m_published := (m_published s)(seq mod buffer_size s := seq)\<rparr>)"

text \<open>Of two or more targets the earliest.\<close>

fun earliest_target :: "(nat \<Rightarrow> int) \<Rightarrow> nat list \<Rightarrow> int" where
  "earliest_target tgt [] = 0"
| "earliest_target tgt [w] = tgt w"
| "earliest_target tgt (w # ws) = min (tgt w) (earliest_target tgt ws)"

definition scan_at :: "nat \<Rightarrow> nat list \<Rightarrow> nat list \<Rightarrow> int \<Rightarrow> int waiting \<Rightarrow> int waiting" where
  "scan_at t ws to_resume known s =
     (if published_at s (known + 1) then goto t (P_scan ws to_resume (known + 1)) s
      else let to_requeue = filter (\<lambda>w. m_target_seq s w - known > 0) ws;
               to_resume' = to_resume @ filter (\<lambda>w. \<not> m_target_seq s w - known > 0) ws;
               s1 = s\<lparr>m_last_known_published := (\<lambda>w. if w \<in> set ws then known else m_last_known_published s w)\<rparr>
           in goto t (if to_requeue = [] then P_resume to_resume' known
                      else P_requeue to_requeue to_resume' known (earliest_target (m_target_seq s) to_requeue)) s1)"

definition recheck_at :: "nat \<Rightarrow> nat list \<Rightarrow> int \<Rightarrow> int \<Rightarrow> int waiting \<Rightarrow> int waiting" where
  "recheck_at t to_resume known earliest s =
     goto t (if published_at s (known + 1)
             then if known + 1 = earliest then P_reacquire to_resume (known + 1)
                  else P_recheck to_resume (known + 1) earliest
             else P_resume to_resume known) s"

definition wait_at :: "nat \<Rightarrow> int \<Rightarrow> int \<Rightarrow> int waiting \<Rightarrow> int waiting" where
  "wait_at w target_seq known s =
     (let s1 = s\<lparr>m_target_seq := (m_target_seq s)(w := target_seq),
                m_last_known_published := (m_last_known_published s)(w := known),
                m_ready_to_resume := (m_ready_to_resume s)(w := False),
                known_at_start := (known_at_start s)(w := known)\<rparr>
      in if known < target_seq then goto w (W_enqueue [w] [] target_seq known) s1 else continue w s1)"

definition await_scan_at :: "nat \<Rightarrow> nat list \<Rightarrow> int \<Rightarrow> int \<Rightarrow> int waiting \<Rightarrow> int waiting" where
  "await_scan_at t to_resume target_seq known s =
     goto t (if published_at s (known + 1) then W_scan to_resume target_seq (known + 1)
             else if known < target_seq then W_resume to_resume known
             else W_take to_resume target_seq known) s"

text \<open>The target has been reached: all that are taken are resumed.\<close>

definition take_at :: "nat \<Rightarrow> nat list \<Rightarrow> int \<Rightarrow> int waiting \<Rightarrow> int waiting" where
  "take_at t to_resume known s =
     goto t (W_resume (to_resume @ m_awaiters s) known) (s\<lparr>m_awaiters := []\<rparr>)"

text \<open>What may be stored and known, for integers.\<close>

definition reached :: "int waiting \<Rightarrow> int \<Rightarrow> bool" where
  "reached s seq \<longleftrightarrow> seq \<le> m_published s (seq mod buffer_size s)"

definition may_store_at :: "int \<Rightarrow> int waiting \<Rightarrow> bool" where
  "may_store_at seq s \<longleftrightarrow> m_published s (seq mod buffer_size s) = seq - buffer_size s \<and>
     (\<forall>w. waits s w \<longrightarrow> seq \<le> known_at_start s w + buffer_size s)"

definition may_know :: "int \<Rightarrow> int waiting \<Rightarrow> bool" where
  "may_know known s \<longleftrightarrow> (\<forall>m\<le>known. reached s m) \<and>
     (\<forall>i\<in>{0..<buffer_size s}. m_published s i \<le> known + buffer_size s)"

section \<open>The invariant\<close>

text \<open>The awaiters that a thread has in hand.\<close>

fun hand :: "'n sequencer_pc \<Rightarrow> nat list" where
  "hand (P_scan ws tr known) = ws @ tr"
| "hand (P_requeue ws tr known e) = ws @ tr"
| "hand (P_recheck tr known e) = tr"
| "hand (P_reacquire tr known) = tr"
| "hand (P_resume tr known) = tr"
| "hand (W_enqueue ws tr tgt known) = ws @ tr"
| "hand (W_scan tr tgt known) = tr"
| "hand (W_take tr tgt known) = tr"
| "hand (W_resume tr known) = tr"
| "hand p = []"

datatype place = Nowhere | Queued | Held nat

definition places_ok :: "int waiting \<Rightarrow> (nat \<Rightarrow> place) \<Rightarrow> bool" where
  "places_ok s pl \<longleftrightarrow> distinct (m_awaiters s) \<and> (\<forall>w. w \<in> set (m_awaiters s) \<longleftrightarrow> pl w = Queued) \<and>
     (\<forall>t. distinct (hand (pc s t))) \<and> (\<forall>t w. w \<in> set (hand (pc s t)) \<longleftrightarrow> pl w = Held t) \<and>
     (\<forall>w. waits s w \<longleftrightarrow> pl w \<noteq> Nowhere)"

text \<open>The array: every slot has a number of its own; whoever waits knew of numbers that were published.\<close>

definition reached_up_to :: "int waiting \<Rightarrow> int \<Rightarrow> bool" where
  "reached_up_to s n \<longleftrightarrow> (\<forall>m\<le>n. reached s m)"

definition array_ok :: "int waiting \<Rightarrow> bool" where
  "array_ok s \<longleftrightarrow> 0 < buffer_size s \<and> (\<forall>i\<in>{0..<buffer_size s}. m_published s i mod buffer_size s = i) \<and>
     (\<forall>w. waits s w \<longrightarrow> (\<forall>i\<in>{0..<buffer_size s}. m_published s i \<le> known_at_start s w + buffer_size s) \<and>
       reached_up_to s (known_at_start s w) \<and> reached_up_to s (m_last_known_published s w) \<and>
       known_at_start s w \<le> m_last_known_published s w)"

definition satisfied :: "int waiting \<Rightarrow> nat \<Rightarrow> bool" where
  "satisfied s w \<longleftrightarrow> reached_up_to s (m_target_seq s w)"

text \<open>What a thread knows.\<close>

definition resumable :: "int waiting \<Rightarrow> nat list \<Rightarrow> int \<Rightarrow> bool" where
  "resumable s tr known \<longleftrightarrow> reached_up_to s known \<and> (\<forall>w\<in>set tr. m_target_seq s w \<le> known)"

fun pc_ok :: "int waiting \<Rightarrow> nat \<Rightarrow> int sequencer_pc \<Rightarrow> bool" where
  "pc_ok s t (P_store seqs) = (seqs \<noteq> [])"
| "pc_ok s t (P_scan ws tr known) = (ws \<noteq> [] \<and> reached_up_to s known \<and> known_at_start s (hd ws) \<le> known \<and>
     (\<forall>w\<in>set tr. satisfied s w))"
| "pc_ok s t (P_requeue ws tr known e) = (ws \<noteq> [] \<and> resumable s tr known \<and> known < e \<and>
     (\<forall>w\<in>set ws. e \<le> m_target_seq s w \<and> known_at_start s w \<le> known))"
| "pc_ok s t (P_recheck tr known e) = (resumable s tr known \<and> known < e)"
| "pc_ok s t (P_reacquire tr known) = resumable s tr known"
| "pc_ok s t (P_resume tr known) = resumable s tr known"
| "pc_ok s t (W_enqueue ws tr tgt known) = (ws = [t] \<and> tr = [] \<and> tgt = m_target_seq s t \<and> known_at_start s t \<le> known \<and>
     reached_up_to s known \<and> \<not> m_ready_to_resume s t)"
| "pc_ok s t (W_scan tr tgt known) = (tr = [] \<and> tgt = m_target_seq s t \<and> known_at_start s t \<le> known \<and> reached_up_to s known)"
| "pc_ok s t (W_take tr tgt known) = (tr = [] \<and> tgt \<le> known)"
| "pc_ok s t p = True"

text \<open>A thread that will take what is in the queue, or find out that \<open>w\<close> is not ready.\<close>

fun attends :: "int waiting \<Rightarrow> nat \<Rightarrow> nat \<Rightarrow> int sequencer_pc \<Rightarrow> bool" where
  "attends s w t (P_store seqs) = True"
| "attends s w t P_load = True"
| "attends s w t P_exchange = True"
| "attends s w t (P_recheck tr known e) = (known_at_start s w \<le> known \<and> e \<le> m_target_seq s w)"
| "attends s w t (P_reacquire tr known) = True"
| "attends s w t (W_scan tr tgt known) = (t = w)"
| "attends s w t (W_take tr tgt known) = True"
| "attends s w t p = False"

definition waiting_inv :: "int waiting \<Rightarrow> (nat \<Rightarrow> place) \<Rightarrow> bool" where
  "waiting_inv s pl \<longleftrightarrow> places_ok s pl \<and> array_ok s \<and> (\<forall>t. pc_ok s t (pc s t)) \<and>
     (\<forall>w\<in>set (m_awaiters s). satisfied s w \<longrightarrow> (\<exists>t. attends s w t (pc s t))) \<and>
     (\<forall>w. continued s w = (if pc s w = W_continued then 1 else 0)) \<and> (\<forall>w. pc s w = W_suspended \<longrightarrow> m_ready_to_resume s w)"

lemma waiting_invD:
  assumes "waiting_inv s pl"
  shows "distinct (m_awaiters s)" "w \<in> set (m_awaiters s) \<longleftrightarrow> pl w = Queued" "distinct (hand (pc s t))"
    "w \<in> set (hand (pc s t)) \<longleftrightarrow> pl w = Held t" "waits s w \<longleftrightarrow> pl w \<noteq> Nowhere"
    "0 < buffer_size s" "i \<in> {0..<buffer_size s} \<Longrightarrow> m_published s i mod buffer_size s = i"
    "waits s w \<Longrightarrow> i \<in> {0..<buffer_size s} \<Longrightarrow> m_published s i \<le> known_at_start s w + buffer_size s"
    "waits s w \<Longrightarrow> reached_up_to s (known_at_start s w)" "waits s w \<Longrightarrow> reached_up_to s (m_last_known_published s w)"
    "waits s w \<Longrightarrow> known_at_start s w \<le> m_last_known_published s w" "pc_ok s t (pc s t)"
    "w \<in> set (m_awaiters s) \<Longrightarrow> satisfied s w \<Longrightarrow> \<exists>t. attends s w t (pc s t)"
    "continued s w = (if pc s w = W_continued then 1 else 0)" "pc s w = W_suspended \<Longrightarrow> m_ready_to_resume s w"
  using assms unfolding waiting_inv_def places_ok_def array_ok_def by blast+

lemma places_okI:
  assumes "distinct (m_awaiters s)" "\<And>w. w \<in> set (m_awaiters s) \<longleftrightarrow> pl w = Queued" "\<And>t. distinct (hand (pc s t))"
    "\<And>t w. w \<in> set (hand (pc s t)) \<longleftrightarrow> pl w = Held t" "\<And>w. waits s w \<longleftrightarrow> pl w \<noteq> Nowhere"
  shows "places_ok s pl"
  using assms unfolding places_ok_def by blast

lemma array_okI:
  assumes "0 < buffer_size s" "\<And>i. i \<in> {0..<buffer_size s} \<Longrightarrow> m_published s i mod buffer_size s = i"
    "\<And>w i. waits s w \<Longrightarrow> i \<in> {0..<buffer_size s} \<Longrightarrow> m_published s i \<le> known_at_start s w + buffer_size s"
    "\<And>w. waits s w \<Longrightarrow> reached_up_to s (known_at_start s w)" "\<And>w. waits s w \<Longrightarrow> reached_up_to s (m_last_known_published s w)"
    "\<And>w. waits s w \<Longrightarrow> known_at_start s w \<le> m_last_known_published s w"
  shows "array_ok s"
  using assms unfolding array_ok_def by blast

lemma waiting_invI:
  assumes "places_ok s pl" "array_ok s" "\<And>t. pc_ok s t (pc s t)"
    "\<And>w. w \<in> set (m_awaiters s) \<Longrightarrow> satisfied s w \<Longrightarrow> \<exists>t. attends s w t (pc s t)"
    "\<And>w. continued s w = (if pc s w = W_continued then 1 else 0)" "\<And>w. pc s w = W_suspended \<Longrightarrow> m_ready_to_resume s w"
  shows "waiting_inv s pl"
  using assms unfolding waiting_inv_def by blast

lemma reached_cong:
  "buffer_size s' = buffer_size s \<Longrightarrow> m_published s' = m_published s \<Longrightarrow> reached_up_to s' n \<longleftrightarrow> reached_up_to s n"
  by (simp add: reached_up_to_def reached_def)

section \<open>Looking at the array\<close>

text \<open>While an operation waits, a number beyond what it knew is in its slot as soon as it has been published.\<close>

lemma reached_published:
  assumes inv: "waiting_inv s pl" and w: "waits s w" "known_at_start s w < m" and r: "reached s m"
  shows "published_at s m"
proof -
  define n where "n = buffer_size s"
  define v where "v = m_published s (m mod n)"
  have n: "0 < n" using waiting_invD(6) [OF inv] by (simp add: n_def)
  have slot: "m mod n \<in> {0..<n}" using n by simp
  have "v mod n = m mod n" using waiting_invD(7) [OF inv, of "m mod n"] slot by (simp add: v_def n_def)
  then obtain q where q: "v - m = n * q" using mod_eq_dvd_iff by (metis dvdE)
  have "v \<le> known_at_start s w + n" using waiting_invD(8) [OF inv w(1), of "m mod n"] slot by (simp add: v_def n_def)
  then have "n * q < n" using q w(2) by linarith
  then have "q < 1" using n by (metis mult.right_neutral mult_less_cancel_left_pos)
  moreover have "0 \<le> n * q" using r q by (simp add: reached_def v_def n_def)
  then have "0 \<le> q" using n by (simp add: zero_le_mult_iff)
  ultimately have "q = 0" by simp
  then have "v = m" using q by simp
  then show ?thesis by (simp add: published_at_def v_def n_def)
qed

lemma published_reached: "published_at s m \<Longrightarrow> reached s m"
  by (simp add: published_at_def reached_def)

lemma reached_up_to_next: "reached_up_to s n \<Longrightarrow> reached s (n + 1) \<Longrightarrow> reached_up_to s (n + 1)"
  unfolding reached_up_to_def by (metis zle_add1_eq_le order_le_less)

lemma reached_up_to_less: "reached_up_to s n \<Longrightarrow> \<not> reached s (k + 1) \<Longrightarrow> n \<le> k"
  unfolding reached_up_to_def by (metis add1_zle_eq not_le)

lemma reached_up_to_mono: "reached_up_to s n \<Longrightarrow> m \<le> n \<Longrightarrow> reached_up_to s m"
  unfolding reached_up_to_def by auto

lemma earliest_target_le: "w \<in> set ws \<Longrightarrow> earliest_target tgt ws \<le> tgt w"
  by (induction tgt ws rule: earliest_target.induct) (auto simp: min_le_iff_disj)

lemma earliest_target_in: "ws \<noteq> [] \<Longrightarrow> \<exists>w\<in>set ws. earliest_target tgt ws = tgt w"
proof (induction tgt ws rule: earliest_target.induct)
  case (3 tgt w v vs)
  then show ?case by (auto simp: min_def)
qed auto

section \<open>Kinds of steps\<close>

text \<open>A thread moves on with the same awaiters in hand.\<close>

lemma inv_goto:
  assumes inv: "waiting_inv s pl"
    and h: "set (hand p) = set (hand (pc s t))" "distinct (hand p)"
    and k: "adds p = adds (pc s t)" "p \<noteq> W_suspended" "pc s t \<noteq> W_suspended" "p \<noteq> W_continued" "pc s t \<noteq> W_continued"
    and ok: "pc_ok s t p"
    and att: "\<And>w. w \<in> set (m_awaiters s) \<Longrightarrow> satisfied s w \<Longrightarrow> attends s w t (pc s t) \<Longrightarrow> attends s w t p"
  shows "waiting_inv (goto t p s) pl"
proof (rule waiting_invI)
  let ?s = "goto t p s"
  have wt: "waits ?s w \<longleftrightarrow> waits s w" for w using k by (simp add: waits_def)
  note rc = reached_cong [of ?s s]
  have pk: "pc_ok ?s x q \<longleftrightarrow> pc_ok s x q" for x q by (cases q) (simp_all add: rc resumable_def satisfied_def)
  have at: "attends ?s w x q \<longleftrightarrow> attends s w x q" for w x q by (cases q) simp_all
  show "places_ok ?s pl"
  proof (rule places_okI)
    show "distinct (m_awaiters ?s)" using waiting_invD(1) [OF inv] by simp
    show "w \<in> set (m_awaiters ?s) \<longleftrightarrow> pl w = Queued" for w using waiting_invD(2) [OF inv] by simp
    show "distinct (hand (pc ?s x))" for x using waiting_invD(3) [OF inv] h(2) by simp
    show "w \<in> set (hand (pc ?s x)) \<longleftrightarrow> pl w = Held x" for x w using waiting_invD(4) [OF inv, of w x] h(1) by (cases "x = t") simp_all
    show "waits ?s w \<longleftrightarrow> pl w \<noteq> Nowhere" for w using waiting_invD(5) [OF inv] wt by simp
  qed
  show "array_ok ?s" using waiting_invD(6-11) [OF inv] by (intro array_okI) (simp_all add: wt rc)
  show "pc_ok ?s x (pc ?s x)" for x using waiting_invD(12) [OF inv, of x] ok by (simp add: pk)
  show "\<exists>x. attends ?s w x (pc ?s x)" if w: "w \<in> set (m_awaiters ?s)" "satisfied ?s w" for w
  proof -
    have sw: "w \<in> set (m_awaiters s)" "satisfied s w" using w by (simp_all add: satisfied_def rc)
    then obtain x where x: "attends s w x (pc s x)" using waiting_invD(13) [OF inv] by blast
    then have "attends ?s w x (pc ?s x)" using att [OF sw] by (cases "x = t") (simp_all add: at)
    then show ?thesis by blast
  qed
  show "continued ?s w = (if pc ?s w = W_continued then 1 else 0)" for w
    using waiting_invD(14) [OF inv, of w] k by simp
  show "pc ?s w = W_suspended \<Longrightarrow> m_ready_to_resume ?s w" for w
    using waiting_invD(15) [OF inv, of w] k by (simp split: if_splits)
qed

text \<open>A thread takes the queue into its hand.\<close>

lemma inv_take_queue:
  assumes inv: "waiting_inv s pl"
    and h: "set (hand p) = set (hand (pc s t)) \<union> set (m_awaiters s)" "distinct (hand p)"
    and k: "adds p = adds (pc s t)" "p \<noteq> W_suspended" "pc s t \<noteq> W_suspended" "p \<noteq> W_continued" "pc s t \<noteq> W_continued"
    and ok: "pc_ok s t p"
  shows "waiting_inv (goto t p (s\<lparr>m_awaiters := []\<rparr>)) (\<lambda>w. if pl w = Queued then Held t else pl w)" (is "waiting_inv ?s ?pl")
proof (rule waiting_invI)
  have wt: "waits ?s w \<longleftrightarrow> waits s w" for w using k by (simp add: waits_def)
  note rc = reached_cong [of ?s s]
  have pk: "pc_ok ?s x q \<longleftrightarrow> pc_ok s x q" for x q by (cases q) (simp_all add: rc resumable_def satisfied_def)
  show "places_ok ?s ?pl"
  proof (rule places_okI)
    show "distinct (m_awaiters ?s)" by simp
    show "w \<in> set (m_awaiters ?s) \<longleftrightarrow> ?pl w = Queued" for w by simp
    show "distinct (hand (pc ?s x))" for x using waiting_invD(3) [OF inv] h(2) by simp
    show "w \<in> set (hand (pc ?s x)) \<longleftrightarrow> ?pl w = Held x" for x w
      using waiting_invD(4) [OF inv, of w x] waiting_invD(2) [OF inv, of w] h(1) by (cases "x = t") auto
    show "waits ?s w \<longleftrightarrow> ?pl w \<noteq> Nowhere" for w using waiting_invD(5) [OF inv] wt by simp
  qed
  show "array_ok ?s" using waiting_invD(6-11) [OF inv] by (intro array_okI) (simp_all add: wt rc)
  show "pc_ok ?s x (pc ?s x)" for x using waiting_invD(12) [OF inv, of x] ok by (simp add: pk)
  show "\<exists>x. attends ?s w x (pc ?s x)" if "w \<in> set (m_awaiters ?s)" for w using that by simp
  show "continued ?s w = (if pc ?s w = W_continued then 1 else 0)" for w
    using waiting_invD(14) [OF inv, of w] k by simp
  show "pc ?s w = W_suspended \<Longrightarrow> m_ready_to_resume ?s w" for w
    using waiting_invD(15) [OF inv, of w] k by (simp split: if_splits)
qed

text \<open>A thread puts awaiters in front of the queue and looks after them.\<close>

lemma inv_put_queue:
  assumes inv: "waiting_inv s pl" and h: "hand (pc s t) = ws @ hand p"
    and k: "adds p = adds (pc s t)" "p \<noteq> W_suspended" "pc s t \<noteq> W_suspended" "p \<noteq> W_continued" "pc s t \<noteq> W_continued"
    and ok: "pc_ok s t p"
    and att: "\<And>w. w \<in> set ws \<Longrightarrow> satisfied s w \<Longrightarrow> attends s w t p" "\<And>w. \<not> attends s w t (pc s t)"
  shows "waiting_inv (goto t p (s\<lparr>m_awaiters := ws @ m_awaiters s\<rparr>)) (\<lambda>w. if w \<in> set ws then Queued else pl w)"
    (is "waiting_inv ?s ?pl")
proof (rule waiting_invI)
  have wt: "waits ?s w \<longleftrightarrow> waits s w" for w using k by (simp add: waits_def)
  note rc = reached_cong [of ?s s]
  have pk: "pc_ok ?s x q \<longleftrightarrow> pc_ok s x q" for x q by (cases q) (simp_all add: rc resumable_def satisfied_def)
  have at: "attends ?s w x q \<longleftrightarrow> attends s w x q" for w x q by (cases q) simp_all
  have ws: "pl w = Held t" if "w \<in> set ws" for w using waiting_invD(4) [OF inv, of w t] h that by simp
  have d: "distinct (ws @ hand p)" using waiting_invD(3) [OF inv, of t] h by simp
  show "places_ok ?s ?pl"
  proof (rule places_okI)
    show "distinct (m_awaiters ?s)"
      using waiting_invD(1,2) [OF inv] d ws by (auto simp: disjoint_iff)
    show "w \<in> set (m_awaiters ?s) \<longleftrightarrow> ?pl w = Queued" for w using waiting_invD(2) [OF inv, of w] by simp
    show "distinct (hand (pc ?s x))" for x using waiting_invD(3) [OF inv] d by simp
    show "w \<in> set (hand (pc ?s x)) \<longleftrightarrow> ?pl w = Held x" for x w
      using waiting_invD(4) [OF inv, of w x] h ws [of w] d by (cases "x = t") auto
    show "waits ?s w \<longleftrightarrow> ?pl w \<noteq> Nowhere" for w using waiting_invD(5) [OF inv, of w] wt ws [of w] by simp
  qed
  show "array_ok ?s" using waiting_invD(6-11) [OF inv] by (intro array_okI) (simp_all add: wt rc)
  show "pc_ok ?s x (pc ?s x)" for x using waiting_invD(12) [OF inv, of x] ok by (simp add: pk)
  show "\<exists>x. attends ?s w x (pc ?s x)" if w: "w \<in> set (m_awaiters ?s)" "satisfied ?s w" for w
  proof (cases "w \<in> set ws")
    case True
    then have "attends ?s w t (pc ?s t)" using att(1) w(2) by (simp add: at satisfied_def rc)
    then show ?thesis by blast
  next
    case False
    then have "w \<in> set (m_awaiters s)" "satisfied s w" using w by (simp_all add: satisfied_def rc)
    then obtain x where x: "attends s w x (pc s x)" using waiting_invD(13) [OF inv] by blast
    then have "attends ?s w x (pc ?s x)" using att(2) [of w] by (auto simp: at)
    then show ?thesis by blast
  qed
  show "continued ?s w = (if pc ?s w = W_continued then 1 else 0)" for w
    using waiting_invD(14) [OF inv, of w] k by simp
  show "pc ?s w = W_suspended \<Longrightarrow> m_ready_to_resume ?s w" for w
    using waiting_invD(15) [OF inv, of w] k by (simp split: if_splits)
qed

text \<open>A thread tells the awaiters in its hand a number.\<close>

lemma inv_tell:
  assumes inv: "waiting_inv s pl" and ws: "set ws \<subseteq> set (hand (pc s t))"
    and known: "reached_up_to s known" "\<And>w. w \<in> set ws \<Longrightarrow> known_at_start s w \<le> known"
  shows "waiting_inv (s\<lparr>m_last_known_published := (\<lambda>w. if w \<in> set ws then known else m_last_known_published s w)\<rparr>) pl"
    (is "waiting_inv ?s pl")
proof (rule waiting_invI)
  have wt: "waits ?s w \<longleftrightarrow> waits s w" for w by (simp add: waits_def)
  note rc = reached_cong [of ?s s]
  have pk: "pc_ok ?s x q \<longleftrightarrow> pc_ok s x q" for x q by (cases q) (simp_all add: rc resumable_def satisfied_def)
  have at: "attends ?s w x q \<longleftrightarrow> attends s w x q" for w x q by (cases q) simp_all
  show "places_ok ?s pl" using inv by (simp add: waiting_inv_def places_ok_def wt)
  show "array_ok ?s" using waiting_invD(6-11) [OF inv] known by (intro array_okI) (simp_all add: wt rc)
  show "pc_ok ?s x (pc ?s x)" for x using waiting_invD(12) [OF inv, of x] by (simp add: pk)
  show "w \<in> set (m_awaiters ?s) \<Longrightarrow> satisfied ?s w \<Longrightarrow> \<exists>x. attends ?s w x (pc ?s x)" for w
    using waiting_invD(13) [OF inv, of w] by (simp add: at satisfied_def rc)
  show "continued ?s w = (if pc ?s w = W_continued then 1 else 0)" for w using waiting_invD(14) [OF inv, of w] by simp
  show "pc ?s w = W_suspended \<Longrightarrow> m_ready_to_resume ?s w" for w using waiting_invD(15) [OF inv, of w] by simp
qed

text \<open>A thread resumes an awaiter in its hand.\<close>

lemma inv_resume:
  assumes inv: "waiting_inv s pl"
    and pc: "pc s t = P_resume (w # ws) known \<and> p = P_resume ws known \<or> pc s t = W_resume (w # ws) known \<and> p = W_resume ws known"
  shows "waiting_inv (resume_op known w (goto t p s)) (pl(w := Nowhere))" (is "waiting_inv ?s ?pl")
proof -
  have hand: "hand (pc s t) = w # ws" "hand p = ws" "adds p = adds (pc s t)" "p \<notin> {W_suspended, W_continued}"
    "pc s t \<notin> {W_suspended, W_continued}" "\<And>v. \<not> attends s v t (pc s t)"
    using pc by auto
  have ok: "pc_ok s t p" using waiting_invD(12) [OF inv, of t] pc by (auto simp: resumable_def)
  have pw: "pl w = Held t" using waiting_invD(4) [OF inv, of w t] hand(1) by simp
  have waits: "waits s w" using waiting_invD(5) [OF inv, of w] pw by simp
  have flag: "m_ready_to_resume s w \<longleftrightarrow> pc s w = W_suspended"
    using waits waiting_invD(15) [OF inv, of w] by (auto simp: waits_def)
  have wt: "m_ready_to_resume s w \<Longrightarrow> w \<noteq> t" using flag hand(5) by auto
  define c where "c = m_ready_to_resume s w"
  have sel: "buffer_size ?s = buffer_size s" "m_published ?s = m_published s" "m_awaiters ?s = m_awaiters s"
    "m_target_seq ?s = m_target_seq s" "known_at_start ?s = known_at_start s"
    "m_last_known_published ?s x = (if x = w then known else m_last_known_published s x)"
    "m_ready_to_resume ?s x \<longleftrightarrow> x = w \<or> m_ready_to_resume s x"
    "continued ?s x = continued s x + (if x = w \<and> c then 1 else 0)"
    "pc ?s x = (if x = w \<and> c then W_continued else if x = t then p else pc s x)" for x
    by (simp_all add: resume_op_def continue_def Let_def c_def)
  note rc = reached_cong [OF sel(1,2)]
  have nw: "waits ?s x \<longleftrightarrow> waits s x \<and> x \<noteq> w" for x
    using flag wt hand(3-5) by (auto simp: waits_def sel c_def)
  have at: "attends ?s v x q \<longleftrightarrow> attends s v x q" for v x q by (cases q) (simp_all add: sel)
  have pk: "pc_ok ?s x q" if "pc_ok s x q" "x = w \<Longrightarrow> \<nexists>ws tr tgt known. q = W_enqueue ws tr tgt known" for x q
    using that by (cases q) (auto simp: rc resumable_def satisfied_def sel)
  show ?thesis
  proof (rule waiting_invI)
    show "places_ok ?s ?pl"
    proof (rule places_okI)
      show "distinct (m_awaiters ?s)" using waiting_invD(1) [OF inv] by (simp add: sel)
      show "v \<in> set (m_awaiters ?s) \<longleftrightarrow> ?pl v = Queued" for v using waiting_invD(2) [OF inv, of v] pw by (simp add: sel)
      have d: "distinct (w # ws)" using waiting_invD(3) [OF inv, of t] hand(1) by simp
      show "distinct (hand (pc ?s x))" for x
        using waiting_invD(3) [OF inv, of x] d hand(2) by (simp add: sel)
      show "v \<in> set (hand (pc ?s x)) \<longleftrightarrow> ?pl v = Held x" for x v
      proof (cases "x = w \<and> c")
        case True
        then have "pc s x = W_suspended" using flag by (simp add: c_def)
        then show ?thesis using waiting_invD(4) [OF inv, of v x] True by (simp add: sel)
      next
        case False
        then show ?thesis using waiting_invD(4) [OF inv, of v x] hand(1,2) d pw by (cases "x = t"; cases "v = w") (auto simp: sel)
      qed
      show "waits ?s v \<longleftrightarrow> ?pl v \<noteq> Nowhere" for v using waiting_invD(5) [OF inv, of v] by (simp add: nw)
    qed
    show "array_ok ?s" using waiting_invD(6-11) [OF inv] by (intro array_okI) (simp_all add: nw rc sel)
    show "pc_ok ?s x (pc ?s x)" for x
    proof (cases "x = w \<and> c")
      case False
      have "pc_ok s x (pc ?s x)" using False ok waiting_invD(12) [OF inv, of x] by (auto simp: sel)
      moreover have "pc ?s x \<noteq> W_enqueue us tr tgt k" if "x = w" for us tr tgt k
      proof
        assume e: "pc ?s x = W_enqueue us tr tgt k"
        then have x: "x \<noteq> t" "pc s x = W_enqueue us tr tgt k" using False pc by (auto simp: sel split: if_splits)
        then have "x \<in> set (hand (pc s x))" using waiting_invD(12) [OF inv, of x] by simp
        then show False using waiting_invD(4) [OF inv, of x x] pw that x(1) by simp
      qed
      ultimately show ?thesis by (intro pk) auto
    qed (simp add: sel)
    show "\<exists>x. attends ?s v x (pc ?s x)" if v: "v \<in> set (m_awaiters ?s)" "satisfied ?s v" for v
    proof -
      have "v \<in> set (m_awaiters s)" "satisfied s v" using v by (simp_all add: satisfied_def rc sel)
      then obtain x where x: "attends s v x (pc s x)" using waiting_invD(13) [OF inv] by blast
      then have "pc ?s x = pc s x" using hand(6) flag by (auto simp: sel c_def)
      then have "attends ?s v x (pc ?s x)" using x by (simp add: at)
      then show ?thesis by blast
    qed
    show "continued ?s v = (if pc ?s v = W_continued then 1 else 0)" for v
      using waiting_invD(14) [OF inv, of v] hand(4,5) flag wt by (auto simp: sel c_def)
    show "pc ?s v = W_suspended \<Longrightarrow> m_ready_to_resume ?s v" for v
      using waiting_invD(15) [OF inv, of v] hand(4) by (auto simp: sel split: if_splits)
  qed
qed

text \<open>A number is published.\<close>

lemma reached_store:
  assumes "may_store_at seq s" "0 < buffer_size s" "reached s m"
  shows "reached (store_at t seq rest s) m"
  using assms by (auto simp: reached_def store_at_def may_store_at_def)

lemma waiting_inv_store:
  assumes inv: "waiting_inv s pl" and pc: "pc s t = P_store (seq # rest)" and may: "may_store_at seq s"
  shows "waiting_inv (store_at t seq rest s) pl" (is "waiting_inv ?s pl")
proof (rule waiting_invI)
  let ?p = "if rest = [] then P_load else P_store rest"
  have sel: "buffer_size ?s = buffer_size s" "m_awaiters ?s = m_awaiters s" "m_target_seq ?s = m_target_seq s"
    "m_last_known_published ?s = m_last_known_published s" "m_ready_to_resume ?s = m_ready_to_resume s"
    "known_at_start ?s = known_at_start s" "continued ?s = continued s" "pc ?s = (pc s)(t := ?p)"
    "m_published ?s i = (if i = seq mod buffer_size s then seq else m_published s i)" for i
    by (simp_all add: store_at_def)
  have wt: "waits ?s w \<longleftrightarrow> waits s w" for w using pc by (auto simp: waits_def sel)
  have n: "0 < buffer_size s" by (rule waiting_invD(6) [OF inv])
  have up: "reached_up_to s m \<Longrightarrow> reached_up_to ?s m" for m
    using reached_store [OF may n] by (simp add: reached_up_to_def)
  have pk: "pc_ok ?s x q" if "pc_ok s x q" for x q
    using that by (cases q) (simp_all add: up resumable_def satisfied_def sel)
  show "places_ok ?s pl"
  proof (rule places_okI)
    show "distinct (m_awaiters ?s)" using waiting_invD(1) [OF inv] by (simp add: sel)
    show "w \<in> set (m_awaiters ?s) \<longleftrightarrow> pl w = Queued" for w using waiting_invD(2) [OF inv] by (simp add: sel)
    show "distinct (hand (pc ?s x))" for x using waiting_invD(3) [OF inv] by (simp add: sel)
    show "w \<in> set (hand (pc ?s x)) \<longleftrightarrow> pl w = Held x" for x w
      using waiting_invD(4) [OF inv, of w x] pc by (auto simp: sel)
    show "waits ?s w \<longleftrightarrow> pl w \<noteq> Nowhere" for w using waiting_invD(5) [OF inv] wt by simp
  qed
  show "array_ok ?s"
  proof (rule array_okI)
    show "m_published ?s i \<le> known_at_start ?s w + buffer_size ?s" if "waits ?s w" "i \<in> {0..<buffer_size ?s}" for w i
      using waiting_invD(8) [OF inv, of w i] that may by (simp add: sel wt may_store_at_def)
    show "m_published ?s i mod buffer_size ?s = i" if "i \<in> {0..<buffer_size ?s}" for i
      using waiting_invD(7) [OF inv, of i] that by (simp add: sel)
  qed (use waiting_invD(6,9-11) [OF inv] in \<open>simp_all add: sel wt up\<close>)
  show "pc_ok ?s x (pc ?s x)" for x
    using pk [OF waiting_invD(12) [OF inv, of x]] by (cases "x = t") (simp_all add: sel)
  have "attends ?s w t (pc ?s t)" for w by (simp add: sel)
  then show "\<exists>x. attends ?s w x (pc ?s x)" for w by blast
  show "continued ?s w = (if pc ?s w = W_continued then 1 else 0)" for w
    using waiting_invD(14) [OF inv, of w] pc by (auto simp: sel)
  show "pc ?s w = W_suspended \<Longrightarrow> m_ready_to_resume ?s w" for w
    using waiting_invD(15) [OF inv, of w] by (auto simp: sel split: if_splits)
qed

text \<open>A wait begins.\<close>

lemma inv_wait:
  assumes inv: "waiting_inv s pl" and pc: "pc s v = Idle" and may: "may_know known s"
  shows "\<exists>pl. waiting_inv (wait_at v target_seq known s) pl"
proof -
  let ?s = "wait_at v target_seq known s"
  let ?p = "if known < target_seq then W_enqueue [v] [] target_seq known else W_continued"
  let ?pl = "if known < target_seq then pl(v := Held v) else pl"
  have sel: "buffer_size ?s = buffer_size s" "m_published ?s = m_published s" "m_awaiters ?s = m_awaiters s"
    "m_target_seq ?s = (m_target_seq s)(v := target_seq)" "m_last_known_published ?s = (m_last_known_published s)(v := known)"
    "m_ready_to_resume ?s = (m_ready_to_resume s)(v := False)" "known_at_start ?s = (known_at_start s)(v := known)"
    "continued ?s = (if known < target_seq then continued s else (continued s)(v := Suc (continued s v)))" "pc ?s = (pc s)(v := ?p)"
    by (simp_all add: wait_at_def continue_def Let_def)
  have nv: "\<not> waits s v" using pc by (simp add: waits_def)
  then have pv: "pl v = Nowhere" using waiting_invD(5) [OF inv, of v] by simp
  have out: "v \<notin> set (m_awaiters s)" "v \<notin> set (hand (pc s x))" for x
    using waiting_invD(2) [OF inv, of v] waiting_invD(4) [OF inv, of v x] pv by simp_all
  note rc = reached_cong [OF sel(1,2)]
  have wt: "waits ?s w \<longleftrightarrow> (if w = v then known < target_seq else waits s w)" for w by (simp add: waits_def sel)
  have knows: "reached_up_to s known" "i \<in> {0..<buffer_size s} \<Longrightarrow> m_published s i \<le> known + buffer_size s" for i
    using may by (simp_all add: may_know_def reached_up_to_def)
  have pk: "pc_ok ?s x q" if "pc_ok s x q" "x \<noteq> v" "v \<notin> set (hand q)" for x q
    using that by (cases q) (auto simp: rc resumable_def satisfied_def sel hd_in_set)
  have "waiting_inv ?s ?pl"
  proof (rule waiting_invI)
    show "places_ok ?s ?pl"
    proof (rule places_okI)
      show "distinct (m_awaiters ?s)" using waiting_invD(1) [OF inv] by (simp add: sel)
      show "w \<in> set (m_awaiters ?s) \<longleftrightarrow> ?pl w = Queued" for w
        using waiting_invD(2) [OF inv, of w] out by (auto simp: sel)
      show "distinct (hand (pc ?s x))" for x using waiting_invD(3) [OF inv] by (simp add: sel)
      show "w \<in> set (hand (pc ?s x)) \<longleftrightarrow> ?pl w = Held x" for x w
        using waiting_invD(4) [OF inv, of w x] out(2) [of x] pv pc by (cases "x = v"; cases "w = v") (auto simp: sel)
      show "waits ?s w \<longleftrightarrow> ?pl w \<noteq> Nowhere" for w using waiting_invD(5) [OF inv, of w] pv by (simp add: wt)
    qed
    show "array_ok ?s"
      using waiting_invD(6-11) [OF inv] knows by (intro array_okI) (auto simp: wt rc sel split: if_splits)
    show "pc_ok ?s x (pc ?s x)" for x
      using waiting_invD(12) [OF inv, of x] out(2) [of x] knows(1) pk [of x "pc s x"] by (cases "x = v") (simp_all add: sel rc)
    show "\<exists>x. attends ?s w x (pc ?s x)" if w: "w \<in> set (m_awaiters ?s)" "satisfied ?s w" for w
    proof -
      have wv: "w \<noteq> v" "w \<in> set (m_awaiters s)" using w(1) out(1) by (auto simp: sel)
      then have "satisfied s w" using w(2) by (simp add: satisfied_def rc sel)
      then obtain x where x: "attends s w x (pc s x)" using waiting_invD(13) [OF inv wv(2)] by blast
      then have "x \<noteq> v" using pc by auto
      moreover have "attends ?s w x q \<longleftrightarrow> attends s w x q" for q using wv(1) by (cases q) (simp_all add: sel)
      ultimately have "attends ?s w x (pc ?s x)" using x by (simp add: sel)
      then show ?thesis by blast
    qed
    show "continued ?s w = (if pc ?s w = W_continued then 1 else 0)" for w
      using waiting_invD(14) [OF inv, of w] pc by (auto simp: sel)
    show "pc ?s w = W_suspended \<Longrightarrow> m_ready_to_resume ?s w" for w
      using waiting_invD(15) [OF inv, of w] by (auto simp: sel split: if_splits)
  qed
  then show ?thesis by blast
qed

text \<open>The end of a call of \<open>await_suspend\<close>.\<close>

lemma inv_suspend:
  assumes inv: "waiting_inv s pl" and pc: "pc s v = W_flag"
  shows "waiting_inv (suspend_or_continue v s) pl"
proof -
  let ?s = "suspend_or_continue v s"
  define c where "c = m_ready_to_resume s v"
  have sel: "buffer_size ?s = buffer_size s" "m_published ?s = m_published s" "m_awaiters ?s = m_awaiters s"
    "m_target_seq ?s = m_target_seq s" "m_last_known_published ?s = m_last_known_published s"
    "known_at_start ?s = known_at_start s" "m_ready_to_resume ?s = (m_ready_to_resume s)(v := True)"
    "continued ?s w = continued s w + (if w = v \<and> c then 1 else 0)"
    "pc ?s = (pc s)(v := if c then W_continued else W_suspended)" for w
    by (simp_all add: suspend_or_continue_def continue_def Let_def c_def)
  note rc = reached_cong [OF sel(1,2)]
  have wt: "waits ?s w \<longleftrightarrow> waits s w" for w using pc by (auto simp: waits_def sel c_def)
  have pk: "pc_ok ?s x q" if "pc_ok s x q" "x \<noteq> v" for x q
    using that by (cases q) (simp_all add: rc resumable_def satisfied_def sel)
  show ?thesis
  proof (rule waiting_invI)
    show "places_ok ?s pl"
    proof (rule places_okI)
      show "distinct (m_awaiters ?s)" using waiting_invD(1) [OF inv] by (simp add: sel)
      show "w \<in> set (m_awaiters ?s) \<longleftrightarrow> pl w = Queued" for w using waiting_invD(2) [OF inv] by (simp add: sel)
      show "distinct (hand (pc ?s x))" for x using waiting_invD(3) [OF inv] by (simp add: sel)
      show "w \<in> set (hand (pc ?s x)) \<longleftrightarrow> pl w = Held x" for x w
        using waiting_invD(4) [OF inv, of w x] pc by (auto simp: sel)
      show "waits ?s w \<longleftrightarrow> pl w \<noteq> Nowhere" for w using waiting_invD(5) [OF inv] wt by simp
    qed
    show "array_ok ?s" using waiting_invD(6-11) [OF inv] by (intro array_okI) (simp_all add: wt rc sel)
    show "pc_ok ?s x (pc ?s x)" for x using waiting_invD(12) [OF inv, of x] pk [of x "pc s x"] by (simp add: sel)
    show "\<exists>x. attends ?s w x (pc ?s x)" if w: "w \<in> set (m_awaiters ?s)" "satisfied ?s w" for w
    proof -
      have "w \<in> set (m_awaiters s)" "satisfied s w" using w by (simp_all add: satisfied_def rc sel)
      then obtain x where x: "attends s w x (pc s x)" using waiting_invD(13) [OF inv] by blast
      then have "x \<noteq> v" using pc by auto
      moreover have "attends ?s w x q \<longleftrightarrow> attends s w x q" for q by (cases q) (simp_all add: sel)
      ultimately have "attends ?s w x (pc ?s x)" using x by (simp add: sel)
      then show ?thesis by blast
    qed
    show "continued ?s w = (if pc ?s w = W_continued then 1 else 0)" for w
      using waiting_invD(14) [OF inv, of w] pc by (auto simp: sel)
    show "pc ?s w = W_suspended \<Longrightarrow> m_ready_to_resume ?s w" for w
      using waiting_invD(15) [OF inv, of w] by (auto simp: sel split: if_splits)
  qed
qed

section \<open>Every step\<close>

lemma waiting_inv_exchange:
  assumes inv: "waiting_inv s pl" and pc: "pc s t = P_exchange"
  shows "\<exists>pl. waiting_inv (exchange_awaiters t s) pl"
proof (cases "m_awaiters s")
  case Nil
  have "waiting_inv (goto t Idle s) pl" by (rule inv_goto [OF inv]) (use pc Nil in simp_all)
  then show ?thesis using Nil by (auto simp: exchange_awaiters_def)
next
  case (Cons w ws)
  have "waits s w" using waiting_invD(2,5) [OF inv, of w] Cons by simp
  then have "pc_ok s t (P_scan (w # ws) [] (m_last_known_published s w))"
    using waiting_invD(10,11) [OF inv] by simp
  from inv_take_queue [OF inv _ _ _ _ _ _ _ this] show ?thesis
    using pc Cons waiting_invD(1) [OF inv] unfolding exchange_awaiters_def by fastforce
qed

lemma inv_scan:
  assumes inv: "waiting_inv s pl" and pc: "pc s t = P_scan ws tr known"
  shows "\<exists>pl. waiting_inv (scan_at t ws tr known s) pl"
proof -
  have ok: "ws \<noteq> []" "reached_up_to s known" "known_at_start s (hd ws) \<le> known" "\<forall>w\<in>set tr. satisfied s w"
    using waiting_invD(12) [OF inv, of t] pc by simp_all
  have dist: "distinct (ws @ tr)" using waiting_invD(3) [OF inv, of t] pc by simp
  have held: "waits s w" if "w \<in> set ws" for w
    using waiting_invD(4) [OF inv, of w t] waiting_invD(5) [OF inv, of w] pc that by simp
  show ?thesis
  proof (cases "published_at s (known + 1)")
    case True
    have "waiting_inv (goto t (P_scan ws tr (known + 1)) s) pl"
      by (rule inv_goto [OF inv])
        (use pc ok dist reached_up_to_next [OF ok(2) published_reached [OF True]] in simp_all)
    then show ?thesis using True by (auto simp: scan_at_def)
  next
    case False
    have nr: "\<not> reached s (known + 1)"
      using reached_published [OF inv held [of "hd ws"], of "known + 1"] ok(1,3) False by (auto simp: hd_in_set)
    have starts: "known_at_start s w \<le> known" if "w \<in> set ws" for w
      using reached_up_to_less [OF waiting_invD(9) [OF inv held [OF that]] nr] .
    define s1 where "s1 = s\<lparr>m_last_known_published := (\<lambda>w. if w \<in> set ws then known else m_last_known_published s w)\<rparr>"
    have inv1: "waiting_inv s1 pl" unfolding s1_def by (rule inv_tell [OF inv, of ws t known]) (use pc starts ok(2) in simp_all)
    have sel: "pc s1 = pc s" "m_target_seq s1 = m_target_seq s" "known_at_start s1 = known_at_start s"
      "buffer_size s1 = buffer_size s" "m_published s1 = m_published s" by (simp_all add: s1_def)
    note rc = reached_cong [OF sel(4,5)]
    define rq where "rq = filter (\<lambda>w. m_target_seq s w - known > 0) ws"
    define tr' where "tr' = tr @ filter (\<lambda>w. \<not> m_target_seq s w - known > 0) ws"
    define e where "e = earliest_target (m_target_seq s) rq"
    define p where "p = (if rq = [] then P_resume tr' known else P_requeue rq tr' known e)"
    have res: "resumable s1 tr' known"
      using ok(2,4) nr reached_up_to_less by (auto simp: resumable_def satisfied_def rc sel tr'_def)
    have e: "known < e" "\<And>w. w \<in> set rq \<Longrightarrow> e \<le> m_target_seq s w" if "rq \<noteq> []"
      using earliest_target_in [OF that, of "m_target_seq s"] earliest_target_le [of _ rq "m_target_seq s"]
      by (auto simp: e_def rq_def)
    have "waiting_inv (goto t p s1) pl"
    proof (rule inv_goto [OF inv1])
      show "set (hand p) = set (hand (pc s1 t))" using pc by (auto simp: sel p_def rq_def tr'_def filter_empty_conv)
      show "distinct (hand p)" using dist by (auto simp: p_def rq_def tr'_def)
      show "pc_ok s1 t p" using res e starts by (auto simp: p_def sel rq_def)
    qed (use pc in \<open>auto simp: sel p_def\<close>)
    then show ?thesis using False by (auto simp: scan_at_def Let_def p_def rq_def tr'_def e_def s1_def)
  qed
qed

lemma inv_requeue:
  assumes inv: "waiting_inv s pl" and pc: "pc s t = P_requeue ws tr known e"
  shows "\<exists>pl. waiting_inv (requeue_awaiters t ws tr known e s) pl"
proof -
  have ok: "resumable s tr known" "known < e" "\<forall>w\<in>set ws. e \<le> m_target_seq s w \<and> known_at_start s w \<le> known"
    using waiting_invD(12) [OF inv, of t] pc by simp_all
  have "waiting_inv (goto t (P_recheck tr known e) (s\<lparr>m_awaiters := ws @ m_awaiters s\<rparr>)) (\<lambda>w. if w \<in> set ws then Queued else pl w)"
    by (rule inv_put_queue [OF inv]) (use pc ok in simp_all)
  then show ?thesis by (auto simp: requeue_awaiters_def)
qed

lemma inv_recheck:
  assumes inv: "waiting_inv s pl" and pc: "pc s t = P_recheck tr known e"
  shows "waiting_inv (recheck_at t tr known e s) pl"
proof -
  have ok: "resumable s tr known" "known < e" using waiting_invD(12) [OF inv, of t] pc by simp_all
  have dist: "distinct tr" using waiting_invD(3) [OF inv, of t] pc by simp
  show ?thesis
  proof (cases "published_at s (known + 1)")
    case True
    then have "resumable s tr (known + 1)"
      using ok(1) reached_up_to_next [OF _ published_reached [OF True]] by (auto simp: resumable_def)
    then show ?thesis unfolding recheck_at_def
      by (intro inv_goto [OF inv]) (use pc ok(2) dist True in \<open>auto\<close>)
  next
    case False
    have "\<not> attends s w t (pc s t)" if w: "w \<in> set (m_awaiters s)" "satisfied s w" for w
    proof
      assume "attends s w t (pc s t)"
      then have k: "known_at_start s w \<le> known" "e \<le> m_target_seq s w" using pc by simp_all
      then have "reached s (known + 1)" using w(2) ok(2) by (simp add: satisfied_def reached_up_to_def)
      moreover have "waits s w" using waiting_invD(2,5) [OF inv, of w] w(1) by simp
      ultimately show False using reached_published [OF inv, of w "known + 1"] k(1) False by simp
    qed
    then show ?thesis unfolding recheck_at_def
      by (intro inv_goto [OF inv]) (use pc ok dist False in auto)
  qed
qed

lemma inv_reacquire:
  assumes inv: "waiting_inv s pl" and pc: "pc s t = P_reacquire tr known"
  shows "\<exists>pl. waiting_inv (reacquire t tr known s) pl"
proof (cases "m_awaiters s")
  case Nil
  have "waiting_inv (goto t (P_resume tr known) s) pl"
    by (rule inv_goto [OF inv]) (use pc Nil waiting_invD(3,12) [OF inv, of t] in simp_all)
  then show ?thesis using Nil by (auto simp: reacquire_def)
next
  case (Cons w ws)
  have waits: "waits s w" using waiting_invD(2,5) [OF inv, of w] Cons by simp
  have res: "resumable s tr known" using waiting_invD(12) [OF inv, of t] pc by simp
  then have "\<forall>v\<in>set tr. satisfied s v" by (auto simp: resumable_def satisfied_def intro: reached_up_to_mono)
  then have ok: "pc_ok s t (P_scan (w # ws) tr (m_last_known_published s w))"
    using waiting_invD(10,11) [OF inv waits] by simp
  have "v \<notin> set tr" if "v \<in> set (w # ws)" for v
    using waiting_invD(2) [OF inv, of v] waiting_invD(4) [OF inv, of v t] pc Cons that by simp
  then have disj: "set (w # ws) \<inter> set tr = {}" by blast
  have "waiting_inv (goto t (P_scan (w # ws) tr (m_last_known_published s w)) (s\<lparr>m_awaiters := []\<rparr>))
    (\<lambda>w. if pl w = Queued then Held t else pl w)"
    by (rule inv_take_queue [OF inv _ _ _ _ _ _ _ ok])
      (use pc Cons disj waiting_invD(1) [OF inv] waiting_invD(3) [OF inv, of t] in auto)
  then show ?thesis using Cons by (auto simp: reacquire_def)
qed

lemma inv_publisher_resume:
  assumes inv: "waiting_inv s pl" and pc: "pc s t = P_resume tr known"
  shows "\<exists>pl. waiting_inv (publisher_resume t tr known s) pl"
proof (cases tr)
  case Nil
  have "waiting_inv (goto t Idle s) pl" by (rule inv_goto [OF inv]) (use pc Nil in simp_all)
  then show ?thesis using Nil by (auto simp: publisher_resume_def)
next
  case (Cons w ws)
  have "waiting_inv (resume_op known w (goto t (P_resume ws known) s)) (pl(w := Nowhere))"
    by (rule inv_resume [OF inv]) (use pc Cons in simp)
  then show ?thesis using Cons by (auto simp: publisher_resume_def)
qed

lemma inv_awaiter_resume:
  assumes inv: "waiting_inv s pl" and pc: "pc s t = W_resume tr known"
  shows "\<exists>pl. waiting_inv (awaiter_resume t tr known s) pl"
proof (cases tr)
  case Nil
  have "waiting_inv (goto t W_flag s) pl" by (rule inv_goto [OF inv]) (use pc Nil in simp_all)
  then show ?thesis using Nil by (auto simp: awaiter_resume_def)
next
  case (Cons w ws)
  have "waiting_inv (resume_op known w (goto t (W_resume ws known) s)) (pl(w := Nowhere))"
    by (rule inv_resume [OF inv]) (use pc Cons in simp)
  then show ?thesis using Cons by (auto simp: awaiter_resume_def)
qed

lemma inv_enqueue:
  assumes inv: "waiting_inv s pl" and pc: "pc s t = W_enqueue ws tr tgt known"
  shows "\<exists>pl. waiting_inv (enqueue_awaiters t ws tr tgt known s) pl"
proof -
  have "waiting_inv (goto t (W_scan tr tgt known) (s\<lparr>m_awaiters := ws @ m_awaiters s\<rparr>)) (\<lambda>w. if w \<in> set ws then Queued else pl w)"
    by (rule inv_put_queue [OF inv]) (use pc waiting_invD(12) [OF inv, of t] in simp_all)
  then show ?thesis by (auto simp: enqueue_awaiters_def)
qed

lemma inv_awaiter_scan:
  assumes inv: "waiting_inv s pl" and pc: "pc s t = W_scan tr tgt known"
  shows "waiting_inv (await_scan_at t tr tgt known s) pl"
proof -
  have ok: "tr = []" "tgt = m_target_seq s t" "known_at_start s t \<le> known" "reached_up_to s known"
    using waiting_invD(12) [OF inv, of t] pc by simp_all
  show ?thesis
  proof (cases "published_at s (known + 1) \<or> tgt \<le> known")
    case True
    then show ?thesis unfolding await_scan_at_def
      by (intro inv_goto [OF inv]) (use pc ok reached_up_to_next [OF ok(4) published_reached] in auto)
  next
    case False
    have "\<not> attends s w t (pc s t)" if w: "w \<in> set (m_awaiters s)" "satisfied s w" for w
    proof
      assume "attends s w t (pc s t)"
      then have wt: "w = t" using pc by simp
      then have "reached s (known + 1)" using w(2) ok(2) False by (simp add: satisfied_def reached_up_to_def)
      moreover have "waits s w" using waiting_invD(2,5) [OF inv, of w] w(1) by simp
      ultimately show False using reached_published [OF inv, of w "known + 1"] ok(3) wt False by simp
    qed
    then show ?thesis unfolding await_scan_at_def
      by (intro inv_goto [OF inv]) (use pc ok False in auto)
  qed
qed

lemma inv_take:
  assumes inv: "waiting_inv s pl" and pc: "pc s t = W_take tr tgt known"
  shows "\<exists>pl. waiting_inv (take_at t tr known s) pl"
proof -
  have ok: "tr = []" "tgt \<le> known" using waiting_invD(12) [OF inv, of t] pc by simp_all
  have "waiting_inv (goto t (W_resume (m_awaiters s) known) (s\<lparr>m_awaiters := []\<rparr>)) (\<lambda>w. if pl w = Queued then Held t else pl w)"
    by (rule inv_take_queue [OF inv]) (use pc ok waiting_invD(1) [OF inv] in simp_all)
  then show ?thesis using ok by (auto simp: take_at_def)
qed

end
