(* ===== verification/Sequencer_Wakeups.thy ===== *)
theory Sequencer_Wakeups
  imports Sequencer_Positions
begin

text \<open>
  The numbers of Sequencer_Waiting, which wrap, stand for the integers of Sequencer_Positions, on every
  interleaving of publications and waits; the invariant proved there gives the properties of the code's
  steps: no wake-up is lost, and what a publication resumes is ready.
\<close>

section \<open>Words that stand for integers\<close>

definition stands_for :: "nat \<Rightarrow> u64 waiting \<Rightarrow> int waiting \<Rightarrow> bool" where
  "stands_for k s a \<longleftrightarrow> k \<le> 60 \<and> m_sequence_mask s = 2 ^ k - 1 \<and> m_sequence_mask a = 2 ^ k - 1 \<and>
     (\<forall>i. m_published s (ring_slot k i) = word_of_int (m_published a (i mod 2 ^ k))) \<and>
     m_awaiters s = m_awaiters a \<and> m_target_seq s = (\<lambda>w. word_of_int (m_target_seq a w)) \<and>
     m_last_known_published s = (\<lambda>w. word_of_int (m_last_known_published a w)) \<and>
     m_ready_to_resume s = m_ready_to_resume a \<and> known_at_start s = (\<lambda>w. word_of_int (known_at_start a w)) \<and>
     continued s = continued a \<and> pc s = (\<lambda>t. map_sequencer_pc word_of_int (pc a t))"

lemma stands_forD:
  assumes "stands_for k s a"
  shows "k \<le> 60" "m_sequence_mask s = 2 ^ k - 1" "m_sequence_mask a = 2 ^ k - 1"
    "m_published s (ring_slot k i) = word_of_int (m_published a (i mod 2 ^ k))"
    "m_awaiters s = m_awaiters a" "m_target_seq s w = word_of_int (m_target_seq a w)"
    "m_last_known_published s w = word_of_int (m_last_known_published a w)"
    "m_ready_to_resume s = m_ready_to_resume a" "known_at_start s w = word_of_int (known_at_start a w)"
    "continued s = continued a" "pc s t = map_sequencer_pc word_of_int (pc a t)"
  using assms by (simp_all add: stands_for_def)

lemma pc_image:
  "map_sequencer_pc f p = Idle \<longleftrightarrow> p = Idle"
  "map_sequencer_pc f p = P_load \<longleftrightarrow> p = P_load"
  "map_sequencer_pc f p = P_exchange \<longleftrightarrow> p = P_exchange"
  "map_sequencer_pc f p = W_flag \<longleftrightarrow> p = W_flag"
  "map_sequencer_pc f p = W_suspended \<longleftrightarrow> p = W_suspended"
  "map_sequencer_pc f p = W_continued \<longleftrightarrow> p = W_continued"
  "map_sequencer_pc f p = P_store xs \<longleftrightarrow> (\<exists>is. p = P_store is \<and> xs = map f is)"
  "map_sequencer_pc f p = P_scan ws tr n \<longleftrightarrow> (\<exists>i. p = P_scan ws tr i \<and> n = f i)"
  "map_sequencer_pc f p = P_requeue ws tr n e \<longleftrightarrow> (\<exists>i j. p = P_requeue ws tr i j \<and> n = f i \<and> e = f j)"
  "map_sequencer_pc f p = P_recheck tr n e \<longleftrightarrow> (\<exists>i j. p = P_recheck tr i j \<and> n = f i \<and> e = f j)"
  "map_sequencer_pc f p = P_reacquire tr n \<longleftrightarrow> (\<exists>i. p = P_reacquire tr i \<and> n = f i)"
  "map_sequencer_pc f p = P_resume tr n \<longleftrightarrow> (\<exists>i. p = P_resume tr i \<and> n = f i)"
  "map_sequencer_pc f p = W_enqueue ws tr g n \<longleftrightarrow> (\<exists>j i. p = W_enqueue ws tr j i \<and> g = f j \<and> n = f i)"
  "map_sequencer_pc f p = W_scan tr g n \<longleftrightarrow> (\<exists>j i. p = W_scan tr j i \<and> g = f j \<and> n = f i)"
  "map_sequencer_pc f p = W_take tr g n \<longleftrightarrow> (\<exists>j i. p = W_take tr j i \<and> g = f j \<and> n = f i)"
  "map_sequencer_pc f p = W_resume tr n \<longleftrightarrow> (\<exists>i. p = W_resume tr i \<and> n = f i)"
  by (cases p; auto)+

lemma adds_image [simp]: "adds (map_sequencer_pc f p) = adds p"
  by (cases p) simp_all

lemma stands_waits: "stands_for k s a \<Longrightarrow> waits s w \<longleftrightarrow> waits a w"
  by (cases "pc a w") (simp_all add: waits_def stands_forD)

lemma stands_size:
  assumes "stands_for k s a"
  shows "buffer_size s = 2 ^ k" "uint (buffer_size s) = 2 ^ k" "buffer_size a = 2 ^ k" "0 < (2 :: int) ^ k" "(2 :: int) ^ k \<le> 2 ^ 60"
proof -
  have k: "k \<le> 60" by (rule stands_forD(1) [OF assms])
  show s: "buffer_size s = 2 ^ k" "buffer_size a = 2 ^ k" "0 < (2 :: int) ^ k"
    using stands_forD(2,3) [OF assms] by (simp_all add: buffer_size_def)
  show "(2 :: int) ^ k \<le> 2 ^ 60" using k by (intro power_increasing) auto
  then have "uint (word_of_int (2 ^ k) :: u64) = 2 ^ k" by (subst uint_word_of_int) (rule mod_pos_pos_trivial, auto)
  then show "uint (buffer_size s) = 2 ^ k" unfolding s(1) by simp
qed

lemma stands_slot:
  assumes "stands_for k s a"
  shows "m_published s (word_of_int i AND m_sequence_mask s) = word_of_int (m_published a (i mod 2 ^ k))"
  using stands_forD(2,4) [OF assms] by (simp add: ring_slot_def mask_eq_exp_minus_1)

lemma sint_zero_diff: "x = y \<longleftrightarrow> sint (x - y :: u64) = 0"
  by (metis eq_iff_diff_eq_0 signed_0 signed_word_eqI)

lemma stands_published:
  assumes "stands_for k s a" "\<bar>m_published a ((i + 1) mod 2 ^ k) - (i + 1)\<bar> < 2 ^ 63"
  shows "published s (word_of_int i + 1) \<longleftrightarrow> published_at a (i + 1)"
proof -
  have "published s (word_of_int (i + 1)) \<longleftrightarrow> word_of_int (m_published a ((i + 1) mod 2 ^ k)) = (word_of_int (i + 1) :: u64)"
    by (simp only: published_def stands_slot [OF assms(1)])
  also have "\<dots> \<longleftrightarrow> sint ((word_of_int (m_published a ((i + 1) mod 2 ^ k)) :: u64) - word_of_int (i + 1)) = 0"
    using sint_zero_diff .
  also have "\<dots> \<longleftrightarrow> published_at a (i + 1)"
    unfolding sint_diff_of_int [OF assms(2)] by (simp add: published_at_def stands_size [OF assms(1)])
  finally show ?thesis by simp
qed

section \<open>Distances that stay small\<close>

text \<open>How far apart the numbers can be that are compared.\<close>

fun near :: "int waiting \<Rightarrow> nat \<Rightarrow> int sequencer_pc \<Rightarrow> bool" where
  "near s t (P_recheck tr known e) = (e \<le> known + 2 ^ 62 \<and> (\<forall>i\<in>{0..<buffer_size s}. m_published s i \<le> known + 2 ^ 61))"
| "near s t (W_scan tr tgt known) = (\<forall>i\<in>{0..<buffer_size s}. m_published s i \<le> known_at_start s t + 2 ^ 61)"
| "near s t (W_take tr tgt known) = (known \<le> tgt + 2 ^ 61)"
| "near s t p = True"

fun takes_part :: "'n sequencer_pc \<Rightarrow> bool" where
  "takes_part p = (adds p \<or> p = W_suspended)"

definition distances_ok :: "int waiting \<Rightarrow> bool" where
  "distances_ok s \<longleftrightarrow>
     (\<forall>i\<in>{0..<buffer_size s}. \<forall>j\<in>{0..<buffer_size s}. m_published s i \<le> m_published s j + 2 ^ 62) \<and>
     (\<forall>w. takes_part (pc s w) \<longrightarrow> known_at_start s w < m_target_seq s w \<and> m_target_seq s w \<le> known_at_start s w + 2 ^ 62) \<and>
     (\<forall>t. near s t (pc s t))"

lemma distances_okD:
  assumes "distances_ok s"
  shows "i \<in> {0..<buffer_size s} \<Longrightarrow> j \<in> {0..<buffer_size s} \<Longrightarrow> m_published s i \<le> m_published s j + 2 ^ 62"
    "takes_part (pc s w) \<Longrightarrow> known_at_start s w < m_target_seq s w"
    "takes_part (pc s w) \<Longrightarrow> m_target_seq s w \<le> known_at_start s w + 2 ^ 62" "near s t (pc s t)"
  using assms by (auto simp: distances_ok_def)

lemma near_cong:
  "buffer_size s' = buffer_size s \<Longrightarrow> m_published s' = m_published s \<Longrightarrow> known_at_start s' = known_at_start s \<Longrightarrow>
    near s' t p \<longleftrightarrow> near s t p"
  by (cases p) simp_all

text \<open>A step that stores no number and begins no wait.\<close>

lemma distances_step:
  assumes "distances_ok s" "buffer_size s' = buffer_size s" "m_published s' = m_published s" "m_target_seq s' = m_target_seq s"
    "known_at_start s' = known_at_start s"
    "\<And>t. pc s' t = pc s t \<or> near s t (pc s' t) \<and> (takes_part (pc s' t) \<longrightarrow> takes_part (pc s t))"
  shows "distances_ok s'"
  unfolding distances_ok_def
proof (intro conjI allI ballI impI)
  show "m_published s' i \<le> m_published s' j + 2 ^ 62" if "i \<in> {0..<buffer_size s'}" "j \<in> {0..<buffer_size s'}" for i j
    using distances_okD(1) [OF assms(1)] that assms(2,3) by simp
  fix w
  show "near s' w (pc s' w)"
    using near_cong [OF assms(2,3,5)] distances_okD(4) [OF assms(1)] assms(6) [of w] by metis
  assume "takes_part (pc s' w)"
  then have "takes_part (pc s w)" using assms(6) [of w] by metis
  then show "known_at_start s' w < m_target_seq s' w" "m_target_seq s' w \<le> known_at_start s' w + 2 ^ 62"
    using distances_okD(2,3) [OF assms(1)] assms(4,5) by simp_all
qed

section \<open>The array near a number\<close>

text \<open>The slots are not behind a number up to which all have been reached by a lap or more.\<close>

lemma array_low:
  assumes inv: "waiting_inv a pl" and "reached_up_to a m" "i \<in> {0..<buffer_size a}"
  shows "m - buffer_size a < m_published a i"
proof -
  define n where "n = buffer_size a"
  have n: "0 < n" using waiting_invD(6) [OF inv] by (simp add: n_def)
  define x where "x = m - (m - i) mod n"
  have "0 \<le> (m - i) mod n" "(m - i) mod n < n" using n by simp_all
  then have x: "x \<le> m" "m - n < x" by (simp_all add: x_def)
  have "x mod n = (m - (m - i)) mod n" unfolding x_def by (simp only: mod_diff_right_eq)
  then have "x mod n = i" using assms(3) by (simp add: n_def)
  moreover have "reached a x" using assms(2) x(1) by (simp add: reached_up_to_def)
  ultimately have "x \<le> m_published a i" by (simp add: reached_def n_def)
  then show ?thesis using x(2) by (simp add: n_def)
qed

lemma array_high:
  assumes inv: "waiting_inv a pl" and "waits a w" "i \<in> {0..<buffer_size a}"
  shows "m_published a i \<le> known_at_start a w + buffer_size a"
  using waiting_invD(8) [OF inv assms(2,3)] .

lemma reached_bound:
  assumes inv: "waiting_inv a pl" and "reached_up_to a m" "\<forall>i\<in>{0..<buffer_size a}. m_published a i \<le> b"
  shows "m \<le> b"
proof -
  have "m mod buffer_size a \<in> {0..<buffer_size a}" using waiting_invD(6) [OF inv] by simp
  moreover have "m \<le> m_published a (m mod buffer_size a)" using assms(2) by (simp add: reached_up_to_def reached_def)
  ultimately show ?thesis using assms(3) by fastforce
qed

section \<open>Steps without numbers\<close>

lemma stands_goto:
  "stands_for k s a \<Longrightarrow> q = map_sequencer_pc word_of_int p \<Longrightarrow> stands_for k (goto t q s) (goto t p a)"
  by (simp add: stands_for_def fun_eq_iff)

lemma stands_awaiters: "stands_for k s a \<Longrightarrow> stands_for k (s\<lparr>m_awaiters := ws\<rparr>) (a\<lparr>m_awaiters := ws\<rparr>)"
  by (simp add: stands_for_def)

lemma stands_tell:
  "stands_for k s a \<Longrightarrow> stands_for k
    (s\<lparr>m_last_known_published := (\<lambda>w. if w \<in> set ws then word_of_int i else m_last_known_published s w)\<rparr>)
    (a\<lparr>m_last_known_published := (\<lambda>w. if w \<in> set ws then i else m_last_known_published a w)\<rparr>)"
  by (simp add: stands_for_def fun_eq_iff)

lemma stands_continue: "stands_for k s a \<Longrightarrow> stands_for k (continue w s) (continue w a)"
  by (simp add: continue_def stands_for_def fun_eq_iff)

lemma stands_resume_op: "stands_for k s a \<Longrightarrow> stands_for k (resume_op (word_of_int i) w s) (resume_op i w a)"
  by (simp add: resume_op_def Let_def continue_def stands_for_def fun_eq_iff)

lemmas stands_ops = stands_goto stands_awaiters stands_continue stands_resume_op

lemma stands_load: "stands_for k s a \<Longrightarrow> stands_for k (load_awaiters t s) (load_awaiters t a)"
  by (simp add: load_awaiters_def stands_forD(5) [of k s a] stands_goto)

lemma stands_exchange: "stands_for k s a \<Longrightarrow> stands_for k (exchange_awaiters t s) (exchange_awaiters t a)"
  by (simp add: exchange_awaiters_def stands_forD(5,7) [of k s a] stands_ops split: list.split)

lemma stands_requeue:
  "stands_for k s a \<Longrightarrow> stands_for k (requeue_awaiters t ws tr (word_of_int i) (word_of_int j) s) (requeue_awaiters t ws tr i j a)"
  by (simp add: requeue_awaiters_def stands_forD(5) [of k s a] stands_ops)

lemma stands_reacquire:
  "stands_for k s a \<Longrightarrow> stands_for k (reacquire t tr (word_of_int i) s) (reacquire t tr i a)"
  by (simp add: reacquire_def stands_forD(5,7) [of k s a] stands_ops split: list.split)

lemma stands_publisher_resume:
  "stands_for k s a \<Longrightarrow> stands_for k (publisher_resume t tr (word_of_int i) s) (publisher_resume t tr i a)"
  by (simp add: publisher_resume_def stands_ops split: list.split)

lemma stands_enqueue:
  "stands_for k s a \<Longrightarrow> stands_for k (enqueue_awaiters t ws tr (word_of_int j) (word_of_int i) s) (enqueue_awaiters t ws tr j i a)"
  by (simp add: enqueue_awaiters_def stands_forD(5) [of k s a] stands_ops)

lemma stands_awaiter_resume:
  "stands_for k s a \<Longrightarrow> stands_for k (awaiter_resume t tr (word_of_int i) s) (awaiter_resume t tr i a)"
  by (simp add: awaiter_resume_def stands_ops split: list.split)

lemma stands_suspend: "stands_for k s a \<Longrightarrow> stands_for k (suspend_or_continue w s) (suspend_or_continue w a)"
  by (simp add: suspend_or_continue_def Let_def continue_def stands_for_def fun_eq_iff)

lemma resume_op_simps [simp]:
  "m_sequence_mask (resume_op i w s) = m_sequence_mask s" "m_published (resume_op i w s) = m_published s"
  "m_target_seq (resume_op i w s) = m_target_seq s" "known_at_start (resume_op i w s) = known_at_start s"
  "pc (resume_op i w s) x = (if x = w \<and> m_ready_to_resume s w then W_continued else pc s x)"
  "buffer_size (resume_op i w s) = buffer_size s"
  by (simp_all add: resume_op_def continue_def Let_def buffer_size_def)

definition words_inv :: "nat \<Rightarrow> u64 waiting \<Rightarrow> bool" where
  "words_inv k s \<longleftrightarrow> (\<exists>a pl. stands_for k s a \<and> waiting_inv a pl \<and> distances_ok a)"

lemma words_invI: "stands_for k s a \<Longrightarrow> \<exists>pl. waiting_inv a pl \<Longrightarrow> distances_ok a \<Longrightarrow> words_inv k s"
  unfolding words_inv_def by blast

lemma words_load:
  assumes "stands_for k s a" "waiting_inv a pl" "distances_ok a" "pc s t = P_load"
  shows "words_inv k (load_awaiters t s)"
proof (rule words_invI [OF stands_load [OF assms(1)]])
  have pc: "pc a t = P_load" using assms(4) by (simp add: stands_forD(11) [OF assms(1)] pc_image)
  show "\<exists>pl. waiting_inv (load_awaiters t a) pl"
    unfolding load_awaiters_def by (rule exI [of _ pl], rule inv_goto [OF assms(2)]) (use pc in auto)
  show "distances_ok (load_awaiters t a)" by (rule distances_step [OF assms(3)]) (simp_all add: load_awaiters_def)
qed

lemma words_exchange:
  assumes "stands_for k s a" "waiting_inv a pl" "distances_ok a" "pc s t = P_exchange"
  shows "words_inv k (exchange_awaiters t s)"
proof (rule words_invI [OF stands_exchange [OF assms(1)]])
  have pc: "pc a t = P_exchange" using assms(4) by (simp add: stands_forD(11) [OF assms(1)] pc_image)
  show "\<exists>pl. waiting_inv (exchange_awaiters t a) pl" by (rule waiting_inv_exchange [OF assms(2) pc])
  show "distances_ok (exchange_awaiters t a)"
    by (rule distances_step [OF assms(3)]) (simp_all add: exchange_awaiters_def split: list.split)
qed

lemma words_requeue:
  assumes "stands_for k s a" "waiting_inv a pl" "distances_ok a" "pc s t = P_requeue ws tr known e"
  shows "words_inv k (requeue_awaiters t ws tr known e s)"
proof -
  obtain i j where pc: "pc a t = P_requeue ws tr i j" and e: "known = word_of_int i" "e = word_of_int j"
    using assms(4) by (auto simp: stands_forD(11) [OF assms(1)] pc_image)
  have ok: "ws \<noteq> []" "\<forall>w\<in>set ws. j \<le> m_target_seq a w \<and> known_at_start a w \<le> i"
    using waiting_invD(12) [OF assms(2), of t] pc by simp_all
  define w where "w = hd ws"
  have w: "w \<in> set ws" using ok(1) by (simp add: w_def)
  then have waits: "waits a w" using waiting_invD(4) [OF assms(2), of w t] waiting_invD(5) [OF assms(2), of w] pc by simp
  then have "takes_part (pc a w)" by (auto simp: waits_def)
  then have "j \<le> i + 2 ^ 62" using distances_okD(3) [OF assms(3), of w] ok(2) w by fastforce
  moreover have "m_published a x \<le> i + 2 ^ 61" if "x \<in> {0..<buffer_size a}" for x
    using array_high [OF assms(2) waits that] ok(2) w stands_size(3,5) [OF assms(1)] by fastforce
  ultimately have near: "near a t (P_recheck tr i j)" by simp
  show ?thesis unfolding e
  proof (rule words_invI [OF stands_requeue [OF assms(1)]])
    show "\<exists>pl. waiting_inv (requeue_awaiters t ws tr i j a) pl" by (rule inv_requeue [OF assms(2) pc])
    show "distances_ok (requeue_awaiters t ws tr i j a)"
      by (rule distances_step [OF assms(3)]) (use near in \<open>simp_all add: requeue_awaiters_def\<close>)
  qed
qed

lemma words_reacquire:
  assumes "stands_for k s a" "waiting_inv a pl" "distances_ok a" "pc s t = P_reacquire tr known"
  shows "words_inv k (reacquire t tr known s)"
proof -
  obtain i where pc: "pc a t = P_reacquire tr i" and e: "known = word_of_int i"
    using assms(4) by (auto simp: stands_forD(11) [OF assms(1)] pc_image)
  show ?thesis unfolding e
  proof (rule words_invI [OF stands_reacquire [OF assms(1)]])
    show "\<exists>pl. waiting_inv (reacquire t tr i a) pl" by (rule inv_reacquire [OF assms(2) pc])
    show "distances_ok (reacquire t tr i a)"
      by (rule distances_step [OF assms(3)]) (simp_all add: reacquire_def split: list.split)
  qed
qed

lemma words_publisher_resume:
  assumes "stands_for k s a" "waiting_inv a pl" "distances_ok a" "pc s t = P_resume tr known"
  shows "words_inv k (publisher_resume t tr known s)"
proof -
  obtain i where pc: "pc a t = P_resume tr i" and e: "known = word_of_int i"
    using assms(4) by (auto simp: stands_forD(11) [OF assms(1)] pc_image)
  show ?thesis unfolding e
  proof (rule words_invI [OF stands_publisher_resume [OF assms(1)]])
    show "\<exists>pl. waiting_inv (publisher_resume t tr i a) pl" by (rule inv_publisher_resume [OF assms(2) pc])
    show "distances_ok (publisher_resume t tr i a)"
      by (rule distances_step [OF assms(3)]) (simp_all add: publisher_resume_def split: list.split)
  qed
qed

lemma words_enqueue:
  assumes "stands_for k s a" "waiting_inv a pl" "distances_ok a" "pc s t = W_enqueue ws tr tgt known"
  shows "words_inv k (enqueue_awaiters t ws tr tgt known s)"
proof -
  obtain i j where pc: "pc a t = W_enqueue ws tr j i" and e: "known = word_of_int i" "tgt = word_of_int j"
    using assms(4) by (auto simp: stands_forD(11) [OF assms(1)] pc_image)
  have "waits a t" using waiting_invD(12) [OF assms(2), of t] pc by (simp add: waits_def)
  then have near: "near a t (W_scan tr j i)"
    using array_high [OF assms(2), of t] stands_size(3,5) [OF assms(1)] by fastforce
  show ?thesis unfolding e
  proof (rule words_invI [OF stands_enqueue [OF assms(1)]])
    show "\<exists>pl. waiting_inv (enqueue_awaiters t ws tr j i a) pl" by (rule inv_enqueue [OF assms(2) pc])
    show "distances_ok (enqueue_awaiters t ws tr j i a)"
      by (rule distances_step [OF assms(3)]) (use near pc in \<open>simp_all add: enqueue_awaiters_def\<close>)
  qed
qed

lemma words_awaiter_resume:
  assumes "stands_for k s a" "waiting_inv a pl" "distances_ok a" "pc s t = W_resume tr known"
  shows "words_inv k (awaiter_resume t tr known s)"
proof -
  obtain i where pc: "pc a t = W_resume tr i" and e: "known = word_of_int i"
    using assms(4) by (auto simp: stands_forD(11) [OF assms(1)] pc_image)
  show ?thesis unfolding e
  proof (rule words_invI [OF stands_awaiter_resume [OF assms(1)]])
    show "\<exists>pl. waiting_inv (awaiter_resume t tr i a) pl" by (rule inv_awaiter_resume [OF assms(2) pc])
    show "distances_ok (awaiter_resume t tr i a)"
      by (rule distances_step [OF assms(3)]) (use pc in \<open>simp_all add: awaiter_resume_def split: list.split\<close>)
  qed
qed

lemma words_suspend:
  assumes "stands_for k s a" "waiting_inv a pl" "distances_ok a" "pc s w = W_flag"
  shows "words_inv k (suspend_or_continue w s)"
proof (rule words_invI [OF stands_suspend [OF assms(1)]])
  have pc: "pc a w = W_flag" using assms(4) by (simp add: stands_forD(11) [OF assms(1)] pc_image)
  show "\<exists>pl. waiting_inv (suspend_or_continue w a) pl" using inv_suspend [OF assms(2) pc] by blast
  show "distances_ok (suspend_or_continue w a)"
    by (rule distances_step [OF assms(3)]) (use pc in \<open>simp_all add: suspend_or_continue_def continue_def Let_def\<close>)
qed

section \<open>Steps that look at numbers\<close>

lemma words_diff: "\<bar>x - y\<bar> < 2 ^ 63 \<Longrightarrow> difference (word_of_int x) (word_of_int y) = x - y"
  by (simp add: difference_def sint_diff_of_int)

text \<open>The slots that a thread looks at, when all up to \<open>i\<close> have been reached and none is far beyond it.\<close>

lemma words_published:
  assumes st: "stands_for k s a" and inv: "waiting_inv a pl" and "reached_up_to a i"
    and high: "\<forall>x\<in>{0..<buffer_size a}. m_published a x \<le> i + 2 ^ 62"
  shows "published s (word_of_int i + 1) \<longleftrightarrow> published_at a (i + 1)"
proof (rule stands_published [OF st])
  define x where "x = (i + 1) mod buffer_size a"
  have x: "x \<in> {0..<buffer_size a}" using waiting_invD(6) [OF inv] by (simp add: x_def)
  have "i - 2 ^ 60 < m_published a x" using array_low [OF inv assms(3) x] stands_size(3,5) [OF st] by linarith
  moreover have "m_published a x \<le> i + 2 ^ 62" using high x by blast
  ultimately have "\<bar>m_published a x - (i + 1)\<bar> < 2 ^ 63" by simp
  then show "\<bar>m_published a ((i + 1) mod 2 ^ k) - (i + 1)\<bar> < 2 ^ 63" by (simp add: x_def stands_size [OF st])
qed

lemma earliest_target_minus: "ws \<noteq> [] \<Longrightarrow> earliest_target (\<lambda>w. tgt w - n) ws = earliest_target tgt ws - n"
  by (induction tgt ws rule: earliest_target.induct) simp_all

lemma earliest_target_Cons:
  "earliest_target tgt (w # ws) = (if ws = [] then tgt w else min (tgt w) (earliest_target tgt ws))"
  by (cases ws) simp_all

lemma fold_min:
  "fold (\<lambda>w m. let diff = d w in if diff > 0 \<and> diff < m then diff else m) ws (m :: int) =
     (let vs = filter (\<lambda>w. d w > 0) ws in if vs = [] then m else min m (earliest_target d vs))"
  by (induction ws arbitrary: m) (auto simp: Let_def earliest_target_Cons min_def)

lemma min_diff_earliest:
  assumes "\<forall>w\<in>set ws. difference (tgt w) known = itgt w - i" "\<forall>w\<in>set ws. itgt w - i \<le> 2 ^ 62"
    and ne: "filter (\<lambda>w. itgt w - i > 0) ws \<noteq> []"
  shows "min_diff tgt known ws = earliest_target itgt (filter (\<lambda>w. itgt w - i > 0) ws) - i"
proof -
  define vs where "vs = filter (\<lambda>w. itgt w - i > 0) ws"
  have "min_diff tgt known ws = fold (\<lambda>w m. let diff = itgt w - i in if diff > 0 \<and> diff < m then diff else m) ws (2 ^ 63 - 1)"
    unfolding min_diff_def using assms(1) by (intro fold_cong) (auto simp: fun_eq_iff)
  also have "\<dots> = min (2 ^ 63 - 1) (earliest_target (\<lambda>w. itgt w - i) vs)"
    using fold_min [of "\<lambda>w. itgt w - i"] ne by (simp add: vs_def Let_def)
  also have "\<dots> = min (2 ^ 63 - 1) (earliest_target itgt vs - i)"
    using ne by (simp add: earliest_target_minus vs_def)
  also have "\<dots> = earliest_target itgt vs - i"
  proof -
    obtain w where "w \<in> set vs" "earliest_target itgt vs = itgt w" using earliest_target_in [of vs] ne by (auto simp: vs_def)
    then have "earliest_target itgt vs - i \<le> 2 ^ 62" using assms(2) by (auto simp: vs_def)
    then show ?thesis by simp
  qed
  finally show ?thesis by (simp add: vs_def)
qed

lemma stands_scan:
  assumes st: "stands_for k s a" and inv: "waiting_inv a pl" and d: "distances_ok a" and pc: "pc a t = P_scan ws tr i"
  shows "stands_for k (scan_published t ws tr (word_of_int i) s) (scan_at t ws tr i a)"
proof -
  have ok: "ws \<noteq> []" "reached_up_to a i" "known_at_start a (hd ws) \<le> i" using waiting_invD(12) [OF inv, of t] pc by simp_all
  have held: "waits a w" if "w \<in> set ws" for w
    using waiting_invD(4) [OF inv, of w t] waiting_invD(5) [OF inv, of w] pc that by simp
  have waits: "waits a (hd ws)" using held ok(1) by simp
  have high: "\<forall>x\<in>{0..<buffer_size a}. m_published a x \<le> i + 2 ^ 62"
    using array_high [OF inv waits] ok(3) stands_size(3,5) [OF st] by fastforce
  have pub: "published s (word_of_int i + 1) \<longleftrightarrow> published_at a (i + 1)" by (rule words_published [OF st inv ok(2) high])
  show ?thesis
  proof (cases "published_at a (i + 1)")
    case True
    then show ?thesis using pub by (simp add: scan_published_def scan_at_def stands_goto [OF st])
  next
    case False
    have nr: "\<not> reached a (i + 1)" using reached_published [OF inv waits, of "i + 1"] ok(3) False by auto
    have near: "m_target_seq a w - i \<le> 2 ^ 62" "\<bar>m_target_seq a w - i\<bar> < 2 ^ 63" if w: "w \<in> set ws" for w
    proof -
      have "takes_part (pc a w)" using held [OF w] by (auto simp: waits_def)
      note t = distances_okD(2,3) [OF d this]
      have "known_at_start a w \<le> i" by (rule reached_up_to_less [OF waiting_invD(9) [OF inv held [OF w]] nr])
      moreover have "i \<le> known_at_start a w + buffer_size a"
        by (rule reached_bound [OF inv ok(2)]) (use array_high [OF inv held [OF w]] in blast)
      ultimately show "m_target_seq a w - i \<le> 2 ^ 62" and "\<bar>m_target_seq a w - i\<bar> < 2 ^ 63"
        using t stands_size(3,5) [OF st] by simp_all
    qed
    have diff: "difference (m_target_seq s w) (word_of_int i) = m_target_seq a w - i" if "w \<in> set ws" for w
      unfolding stands_forD(6) [OF st] by (rule words_diff [OF near(2) [OF that]])
    define rq where "rq = filter (\<lambda>w. m_target_seq a w - i > 0) ws"
    define nrq where "nrq = filter (\<lambda>w. \<not> m_target_seq a w - i > 0) ws"
    have split: "filter (\<lambda>w. difference (m_target_seq s w) (word_of_int i) > 0) ws = rq"
      "filter (\<lambda>w. \<not> difference (m_target_seq s w) (word_of_int i) > 0) ws = nrq"
      unfolding rq_def nrq_def using diff by (intro filter_cong refl; simp)+
    have "word_of_int i + word_of_int (min_diff (m_target_seq s) (word_of_int i) ws) =
        (word_of_int (earliest_target (m_target_seq a) rq) :: u64)" if "rq \<noteq> []"
      using min_diff_earliest [of ws "m_target_seq s" "word_of_int i" "m_target_seq a" i] diff near(1) that by (simp add: rq_def)
    then show ?thesis
      unfolding scan_published_def scan_at_def Let_def split rq_def [symmetric] nrq_def [symmetric]
      using False pub by (simp add: stands_goto [OF stands_tell [OF st]])
  qed
qed

lemma words_scan:
  assumes "stands_for k s a" "waiting_inv a pl" "distances_ok a" "pc s t = P_scan ws tr known"
  shows "words_inv k (scan_published t ws tr known s)"
proof -
  obtain i where pc: "pc a t = P_scan ws tr i" and e: "known = word_of_int i"
    using assms(4) by (auto simp: stands_forD(11) [OF assms(1)] pc_image)
  show ?thesis unfolding e
  proof (rule words_invI [OF stands_scan [OF assms(1-3) pc]])
    show "\<exists>pl. waiting_inv (scan_at t ws tr i a) pl" by (rule inv_scan [OF assms(2) pc])
    show "distances_ok (scan_at t ws tr i a)"
      by (rule distances_step [OF assms(3)]) (simp_all add: scan_at_def Let_def)
  qed
qed

lemma words_recheck:
  assumes st: "stands_for k s a" and inv: "waiting_inv a pl" and d: "distances_ok a" and "pc s t = P_recheck tr known e"
  shows "words_inv k (recheck t tr known e s)"
proof -
  obtain i j where pc: "pc a t = P_recheck tr i j" and e: "known = word_of_int i" "e = word_of_int j"
    using assms(4) by (auto simp: stands_forD(11) [OF st] pc_image)
  have ok: "reached_up_to a i" "i < j" using waiting_invD(12) [OF inv, of t] pc by (simp_all add: resumable_def)
  have near: "j \<le> i + 2 ^ 62" "\<forall>x\<in>{0..<buffer_size a}. m_published a x \<le> i + 2 ^ 61"
    using distances_okD(4) [OF d, of t] pc by simp_all
  have pub: "published s (word_of_int i + 1) \<longleftrightarrow> published_at a (i + 1)"
    by (rule words_published [OF st inv ok(1)]) (use near(2) in fastforce)
  have "(word_of_int (i + 1) :: u64) = word_of_int j \<longleftrightarrow> i + 1 = j"
    using ok(2) near(1) by (intro word_of_int_eq_near) simp_all
  then have eq: "word_of_int i + 1 = (word_of_int j :: u64) \<longleftrightarrow> i + 1 = j" by simp
  have st': "stands_for k (recheck t tr known e s) (recheck_at t tr i j a)"
    unfolding e recheck_def recheck_at_def pub eq by (rule stands_goto [OF st]) auto
  show ?thesis
  proof (rule words_invI [OF st'])
    show "\<exists>pl. waiting_inv (recheck_at t tr i j a) pl" using inv_recheck [OF inv pc] by blast
    have "near a t (P_recheck tr (i + 1) j)" using near by fastforce
    then show "distances_ok (recheck_at t tr i j a)"
      by (intro distances_step [OF d]) (simp_all add: recheck_at_def)
  qed
qed

lemma words_awaiter_scan:
  assumes st: "stands_for k s a" and inv: "waiting_inv a pl" and d: "distances_ok a" and "pc s t = W_scan tr tgt known"
  shows "words_inv k (awaiter_scan t tr tgt known s)"
proof -
  obtain i j where pc: "pc a t = W_scan tr j i" and e: "known = word_of_int i" "tgt = word_of_int j"
    using assms(4) by (auto simp: stands_forD(11) [OF st] pc_image)
  have ok: "j = m_target_seq a t" "known_at_start a t \<le> i" "reached_up_to a i"
    using waiting_invD(12) [OF inv, of t] pc by simp_all
  have near: "\<forall>x\<in>{0..<buffer_size a}. m_published a x \<le> known_at_start a t + 2 ^ 61"
    using distances_okD(4) [OF d, of t] pc by simp
  have tgt: "known_at_start a t < j" "j \<le> known_at_start a t + 2 ^ 62"
    using distances_okD(2,3) [OF d, of t] pc ok(1) by simp_all
  have i: "i \<le> known_at_start a t + 2 ^ 61" by (rule reached_bound [OF inv ok(3) near])
  have pub: "published s (word_of_int i + 1) \<longleftrightarrow> published_at a (i + 1)"
    by (rule words_published [OF st inv ok(3)]) (use near ok(2) in fastforce)
  have "i - j \<le> 2 ^ 61" "j - i \<le> 2 ^ 62" using i ok(2) tgt by linarith+
  then have pre: "precedes (word_of_int i) (word_of_int j) \<longleftrightarrow> i < j" by (intro precedes_positions) simp
  have st': "stands_for k (awaiter_scan t tr tgt known s) (await_scan_at t tr j i a)"
    unfolding e awaiter_scan_def await_scan_at_def pub pre by (rule stands_goto [OF st]) simp
  show ?thesis
  proof (rule words_invI [OF st'])
    show "\<exists>pl. waiting_inv (await_scan_at t tr j i a) pl" using inv_awaiter_scan [OF inv pc] by blast
    have "near a t (W_take tr j i)" using i tgt(1) by simp
    then show "distances_ok (await_scan_at t tr j i a)"
      by (intro distances_step [OF d]) (use near pc in \<open>simp_all add: await_scan_at_def\<close>)
  qed
qed

lemma words_take:
  assumes st: "stands_for k s a" and inv: "waiting_inv a pl" and d: "distances_ok a" and "pc s t = W_take tr tgt known"
  shows "words_inv k (awaiter_take t tr tgt known s)"
proof -
  obtain i j where pc: "pc a t = W_take tr j i" and e: "known = word_of_int i" "tgt = word_of_int j"
    using assms(4) by (auto simp: stands_forD(11) [OF st] pc_image)
  have "j \<le> i" "i \<le> j + 2 ^ 61" using waiting_invD(12) [OF inv, of t] distances_okD(4) [OF d, of t] pc by simp_all
  then have "\<not> difference tgt known > 0" unfolding e by (subst words_diff) simp_all
  then have "awaiter_take t tr tgt known s = goto t (W_resume (tr @ m_awaiters a) known) (s\<lparr>m_awaiters := []\<rparr>)"
    by (simp add: awaiter_take_def Let_def stands_forD(5) [OF st])
  then have st': "stands_for k (awaiter_take t tr tgt known s) (take_at t tr i a)"
    unfolding take_at_def e by (simp add: stands_ops [OF stands_awaiters [OF st]])
  show ?thesis
  proof (rule words_invI [OF st'])
    show "\<exists>pl. waiting_inv (take_at t tr i a) pl" by (rule inv_take [OF inv pc])
    show "distances_ok (take_at t tr i a)"
      by (rule distances_step [OF d]) (use pc in \<open>simp_all add: take_at_def\<close>)
  qed
qed

section \<open>A number is stored\<close>

text \<open>The integer that the number stands for: one lap after the one in its slot.\<close>

lemma stored_position:
  assumes st: "stands_for k s a" and inv: "waiting_inv a pl" and may: "may_store seq s"
  obtains x i where "x \<in> {0..<buffer_size a}" "i = m_published a x + buffer_size a" "i mod buffer_size a = x"
    "seq = word_of_int i"
proof -
  define x where "x = uint seq mod buffer_size a"
  have x: "x \<in> {0..<buffer_size a}" using waiting_invD(6) [OF inv] by (simp add: x_def)
  have "m_published s (word_of_int (uint seq) AND m_sequence_mask s) = word_of_int (m_published a x)"
    unfolding stands_slot [OF st] by (simp add: x_def stands_size [OF st])
  then have "seq - 2 ^ k = word_of_int (m_published a x)" using may by (simp add: may_store_def stands_size [OF st])
  then have seq: "seq = word_of_int (m_published a x + buffer_size a)" by (simp add: stands_size [OF st] diff_eq_eq)
  moreover have "(m_published a x + buffer_size a) mod buffer_size a = x" using waiting_invD(7) [OF inv x] by simp
  ultimately show ?thesis using that [OF x refl] by blast
qed

lemma store_distances:
  assumes d: "distances_ok a" and n: "0 < buffer_size a" "buffer_size a \<le> 2 ^ 60"
    and x: "i = m_published a (i mod buffer_size a) + buffer_size a"
    and all: "\<And>y. y \<in> {0..<buffer_size a} \<Longrightarrow> i \<le> m_published a y + 2 ^ 62"
    and re: "\<And>t tr known e. pc a t = P_recheck tr known e \<Longrightarrow> i \<le> known + 2 ^ 61"
    and sc: "\<And>t tr tgt known. pc a t = W_scan tr tgt known \<Longrightarrow> i \<le> known_at_start a t + 2 ^ 61"
    and pc: "pc a t = P_store xs"
  shows "distances_ok (store_at t i rest a)"
proof -
  let ?s = "store_at t i rest a"
  have sel: "buffer_size ?s = buffer_size a" "m_target_seq ?s = m_target_seq a" "known_at_start ?s = known_at_start a"
    "m_published ?s y = (if y = i mod buffer_size a then i else m_published a y)"
    "pc ?s = (pc a)(t := if rest = [] then P_load else P_store rest)" for y
    by (simp_all add: store_at_def)
  show ?thesis unfolding distances_ok_def
  proof (intro conjI allI ballI impI)
    show "m_published ?s y \<le> m_published ?s z + 2 ^ 62" if "y \<in> {0..<buffer_size ?s}" "z \<in> {0..<buffer_size ?s}" for y z
    proof -
      have "i mod buffer_size a \<in> {0..<buffer_size a}" using n by simp
      then have "m_published a y \<le> m_published a (i mod buffer_size a) + 2 ^ 62" using distances_okD(1) [OF d] that by (simp add: sel)
      then have "m_published a y \<le> i + 2 ^ 62" using x n by linarith
      then show ?thesis using all [of z] that distances_okD(1) [OF d, of y z] by (simp add: sel)
    qed
    show "near ?s v (pc ?s v)" for v
    proof (cases "v = t")
      case False
      then show ?thesis using distances_okD(4) [OF d, of v] re [of v] sc [of v] by (cases "pc a v") (auto simp: sel)
    qed (simp add: sel)
    fix w assume "takes_part (pc ?s w)"
    then have "takes_part (pc a w)" by (auto simp: sel split: if_splits)
    then show "known_at_start ?s w < m_target_seq ?s w" "m_target_seq ?s w \<le> known_at_start ?s w + 2 ^ 62"
      using distances_okD(2,3) [OF d] by (simp_all add: sel)
  qed
qed

lemma stands_store:
  assumes st: "stands_for k s a" and "seq = word_of_int i" "rest = map word_of_int js"
  shows "stands_for k (store_number t seq rest s) (store_at t i js a)"
proof -
  let ?a = "a\<lparr>m_published := (m_published a)(i mod buffer_size a := i)\<rparr>"
  let ?s = "s\<lparr>m_published := (m_published s)(seq AND m_sequence_mask s := seq)\<rparr>"
  have k: "k \<le> 64" using stands_forD(1) [OF st] by simp
  have "seq AND m_sequence_mask s = ring_slot k i"
    using stands_forD(2) [OF st] by (simp add: ring_slot_def mask_eq_exp_minus_1 assms(2))
  then have "m_published ?s (ring_slot k j) = word_of_int (m_published ?a (j mod 2 ^ k))" for j
    using stands_forD(4) [OF st, of j] ring_slot_eq [OF k, of j i] by (simp add: stands_size [OF st] assms(2))
  then have "stands_for k ?s ?a" using st by (simp add: stands_for_def)
  then show ?thesis unfolding store_number_def store_at_def by (rule stands_goto) (simp add: assms(3))
qed

lemma words_store:
  assumes st: "stands_for k s a" and inv: "waiting_inv a pl" and d: "distances_ok a"
    and "pc s t = P_store (seq # rest)" and may: "may_store seq s"
  shows "words_inv k (store_number t seq rest s)"
proof -
  obtain xs where pc: "pc a t = P_store xs" using assms(4) by (auto simp: stands_forD(11) [OF st] pc_image)
  obtain x i where x: "x \<in> {0..<buffer_size a}" "i = m_published a x + buffer_size a" "i mod buffer_size a = x" and seq: "seq = word_of_int i"
    by (rule stored_position [OF st inv may])
  define js where "js = map uint rest"
  have rest: "rest = map word_of_int js" by (simp add: js_def comp_def)
  note n = stands_size [OF st]
  have size: "0 < buffer_size a" "buffer_size a \<le> 2 ^ 60" using n by simp_all
  have small: "difference seq (word_of_int j) = i - j" if "j \<le> i + 2 ^ 62" "i \<le> j + 2 ^ 62 + 2 ^ 60" for j
    unfolding seq by (rule words_diff) (use that in simp)
  have start: "i \<le> known_at_start a w + buffer_size a" if w: "waits a w" for w
  proof -
    have "difference seq (known_at_start s w) \<le> uint (buffer_size s)" using may w stands_waits [OF st] by (simp add: may_store_def)
    moreover have "known_at_start a w \<le> i" using array_low [OF inv waiting_invD(9) [OF inv w] x(1)] x(2) by linarith
    moreover have "i \<le> known_at_start a w + 2 ^ 61" using array_high [OF inv w x(1)] x(2) n by simp
    ultimately show ?thesis using small [of "known_at_start a w"] n by (simp add: stands_forD(9) [OF st])
  qed
  define b where "b = goto t (P_store (i # js)) a"
  have "waiting_inv b pl" unfolding b_def by (rule inv_goto [OF inv]) (use pc in simp_all)
  moreover have "may_store_at i b" using start x(2,3) pc by (auto simp: may_store_at_def b_def waits_def split: if_splits)
  ultimately have "waiting_inv (store_at t i js b) pl" by (intro waiting_inv_store) (simp_all add: b_def)
  moreover have "store_at t i js b = store_at t i js a" by (simp add: store_at_def b_def goto_def)
  ultimately have inv': "\<exists>pl. waiting_inv (store_at t i js a) pl" by auto
  have "distances_ok (store_at t i js a)"
  proof (rule store_distances [OF d _ _ _ _ _ _ pc])
    show "i \<le> m_published a y + 2 ^ 62" if y: "y \<in> {0..<buffer_size a}" for y
    proof -
      have "difference seq (m_published s (word_of_int y AND m_sequence_mask s)) < 2 * uint (buffer_size s)"
        using may by (simp add: may_store_def)
      then have "difference seq (word_of_int (m_published a y)) < 2 ^ 61" unfolding stands_slot [OF st] using y n by simp
      moreover have "m_published a y \<le> i + 2 ^ 62" "i \<le> m_published a y + 2 ^ 62 + 2 ^ 60"
        using distances_okD(1) [OF d y x(1)] distances_okD(1) [OF d x(1) y] x(2) size by linarith+
      ultimately show ?thesis using small [of "m_published a y"] by simp
    qed
    show "i \<le> known + 2 ^ 61" if p: "pc a v = P_recheck tr known e" for v tr known e
    proof -
      have "reached_up_to a known" "m_published a x \<le> known + 2 ^ 61"
        using waiting_invD(12) [OF inv, of v] distances_okD(4) [OF d, of v] p x(1) by (simp_all add: resumable_def)
      then have "known \<le> i" "i \<le> known + 2 ^ 62" using array_low [OF inv _ x(1)] x(2) n by fastforce+
      moreover have "pc s v = P_recheck tr (word_of_int known) (word_of_int e)" by (simp add: stands_forD(11) [OF st] p)
      then have "difference seq (word_of_int known) \<le> 2 ^ 61" using may unfolding may_store_def by blast
      ultimately show ?thesis using small [of known] by simp
    qed
    show "i \<le> known_at_start a v + 2 ^ 61" if p: "pc a v = W_scan tr tgt known" for v tr tgt known
    proof -
      have "reached_up_to a known" "known_at_start a v \<le> known" "m_published a x \<le> known_at_start a v + 2 ^ 61"
        using waiting_invD(12) [OF inv, of v] distances_okD(4) [OF d, of v] p x(1) by simp_all
      then have "known_at_start a v \<le> i" "i \<le> known_at_start a v + 2 ^ 62" using array_low [OF inv _ x(1)] x(2) n by fastforce+
      moreover have "difference seq (known_at_start s v) \<le> 2 ^ 61"
        using may p by (auto simp: may_store_def stands_forD(11) [OF st] pc_image)
      ultimately show ?thesis using small [of "known_at_start a v"] by (simp add: stands_forD(9) [OF st])
    qed
  qed (use x n in simp_all)
  then show ?thesis by (rule words_invI [OF stands_store [OF st seq rest] inv'])
qed

section \<open>A wait begins\<close>

text \<open>The integers that the number known and the target stand for.\<close>

lemma known_position:
  assumes st: "stands_for k s a" and inv: "waiting_inv a pl" and d: "distances_ok a" and may: "may_wait target known s"
  obtains i j where "known = word_of_int i" "target = word_of_int j" "may_know i a" "j \<le> i + 2 ^ 62" "i \<le> j + 2 ^ 62"
proof -
  note n = stands_size [OF st]
  have size: "0 < buffer_size a" "buffer_size a \<le> 2 ^ 60" using n by simp_all
  then have zero: "0 \<in> {0..<buffer_size a}" by simp
  define v where "v x = (word_of_int (m_published a x) :: u64)" for x
  have lap: "difference (v x) known \<in> {- buffer_size a<..buffer_size a}" if x: "x \<in> {0..<buffer_size a}" for x
  proof -
    have "difference (m_published s (word_of_int x AND m_sequence_mask s)) known \<in> {- uint (buffer_size s)<..uint (buffer_size s)}"
      using may by (simp add: may_wait_def)
    then show ?thesis unfolding stands_slot [OF st] using x n by (simp add: v_def)
  qed
  define i where "i = m_published a 0 - difference (v 0) known"
  define j where "j = i + difference target known"
  have known: "known = word_of_int i" by (simp add: i_def v_def difference_def)
  have target: "target = word_of_int j" by (simp add: j_def difference_def known [symmetric])
  have all: "- buffer_size a < m_published a x - i \<and> m_published a x - i \<le> buffer_size a" if x: "x \<in> {0..<buffer_size a}" for x
  proof -
    have "m_published a x \<le> m_published a 0 + 2 ^ 62" "m_published a 0 \<le> m_published a x + 2 ^ 62"
      using distances_okD(1) [OF d x zero] distances_okD(1) [OF d zero x] by simp_all
    moreover have "m_published a 0 - i \<le> buffer_size a" "- buffer_size a < m_published a 0 - i"
      using lap [OF zero] by (simp_all add: i_def)
    ultimately have "m_published a x - i \<le> 2 ^ 62 + 2 ^ 60" "i - m_published a x \<le> 2 ^ 62 + 2 ^ 60" using size by linarith+
    then have "difference (v x) known = m_published a x - i" unfolding v_def known by (intro words_diff) simp
    then show ?thesis using lap [OF x] by simp
  qed
  have "reached a m" if "m \<le> i" for m
  proof -
    define x where "x = m mod buffer_size a"
    have x: "x \<in> {0..<buffer_size a}" using size by (simp add: x_def)
    have "m_published a x mod buffer_size a = m mod buffer_size a" using waiting_invD(7) [OF inv x] by (simp add: x_def)
    then obtain q where q: "m_published a x - m = buffer_size a * q" by (metis mod_eq_dvd_iff dvdE)
    have "buffer_size a * (-1) < buffer_size a * q" using q all [OF x] that by linarith
    then have "-1 < q" using size by (simp only: mult_less_cancel_left_pos)
    then have "0 \<le> buffer_size a * q" using size by simp
    then show ?thesis using q by (simp add: reached_def x_def)
  qed
  then have "may_know i a" using all unfolding may_know_def by fastforce
  moreover have "\<bar>difference target known\<bar> \<le> 2 ^ 62" using may by (simp add: may_wait_def)
  then have "j \<le> i + 2 ^ 62" "i \<le> j + 2 ^ 62" unfolding j_def by linarith+
  ultimately show ?thesis using that [OF known target] by blast
qed

lemma words_wait:
  assumes st: "stands_for k s a" and inv: "waiting_inv a pl" and d: "distances_ok a" and "pc s v = Idle" and may: "may_wait target known s"
  shows "words_inv k (wait_until_published v target known s)"
proof -
  have pc: "pc a v = Idle" using assms(4) by (simp add: stands_forD(11) [OF st] pc_image)
  obtain i j where e: "known = word_of_int i" "target = word_of_int j" and k: "may_know i a" and near: "j \<le> i + 2 ^ 62" "i \<le> j + 2 ^ 62"
    by (rule known_position [OF st inv d may])
  let ?s = "wait_at v j i a"
  have pre: "precedes known target \<longleftrightarrow> i < j" unfolding e by (rule precedes_positions) (use near in simp)
  have st': "stands_for k (wait_until_published v target known s) ?s"
    unfolding wait_until_published_def wait_at_def pre Let_def
    using st by (simp add: e continue_def stands_for_def fun_eq_iff)
  have sel: "buffer_size ?s = buffer_size a" "m_published ?s = m_published a" "m_target_seq ?s = (m_target_seq a)(v := j)"
    "known_at_start ?s = (known_at_start a)(v := i)" "pc ?s = (pc a)(v := if i < j then W_enqueue [v] [] j i else W_continued)"
    by (simp_all add: wait_at_def continue_def Let_def)
  have "distances_ok ?s" unfolding distances_ok_def
  proof (intro conjI allI ballI impI)
    show "m_published ?s y \<le> m_published ?s z + 2 ^ 62" if "y \<in> {0..<buffer_size ?s}" "z \<in> {0..<buffer_size ?s}" for y z
      using distances_okD(1) [OF d] that by (simp add: sel)
    show "near ?s t (pc ?s t)" for t
      using distances_okD(4) [OF d, of t] by (cases "t = v"; cases "pc a t") (simp_all add: sel)
    fix w assume "takes_part (pc ?s w)"
    then show "known_at_start ?s w < m_target_seq ?s w" "m_target_seq ?s w \<le> known_at_start ?s w + 2 ^ 62"
      using distances_okD(2,3) [OF d, of w] near(1) by (auto simp: sel split: if_splits)
  qed
  with st' show ?thesis by (rule words_invI [OF _ inv_wait [OF inv pc k]])
qed

section \<open>Every step\<close>

lemma words_publish:
  assumes st: "stands_for k s a" and inv: "waiting_inv a pl" and d: "distances_ok a" and "pc s t = Idle" "seqs \<noteq> []"
  shows "words_inv k (goto t (P_store seqs) s)"
proof -
  have pc: "pc a t = Idle" using assms(4) by (simp add: stands_forD(11) [OF st] pc_image)
  have "seqs = map word_of_int (map uint seqs)" by (simp add: comp_def)
  then have st': "stands_for k (goto t (P_store seqs) s) (goto t (P_store (map uint seqs)) a)" by (intro stands_goto [OF st]) simp
  show ?thesis
  proof (rule words_invI [OF st'])
    have "waiting_inv (goto t (P_store (map uint seqs)) a) pl" by (rule inv_goto [OF inv]) (use pc assms(5) in simp_all)
    then show "\<exists>pl. waiting_inv (goto t (P_store (map uint seqs)) a) pl" by blast
    show "distances_ok (goto t (P_store (map uint seqs)) a)" by (rule distances_step [OF d]) simp_all
  qed
qed

lemma words_inv_step:
  assumes "words_inv k s" "waiting_step s s'"
  shows "words_inv k s'"
proof -
  obtain a pl where a: "stands_for k s a" "waiting_inv a pl" "distances_ok a" using assms(1) by (auto simp: words_inv_def)
  show ?thesis using assms(2)
  proof cases
    case ws_publish then show ?thesis using words_publish [OF a] by simp
  next
    case ws_store then show ?thesis using words_store [OF a] by simp
  next
    case ws_load then show ?thesis using words_load [OF a] by simp
  next
    case ws_exchange then show ?thesis using words_exchange [OF a] by simp
  next
    case ws_scan then show ?thesis using words_scan [OF a] by simp
  next
    case ws_requeue then show ?thesis using words_requeue [OF a] by simp
  next
    case ws_recheck then show ?thesis using words_recheck [OF a] by simp
  next
    case ws_reacquire then show ?thesis using words_reacquire [OF a] by simp
  next
    case ws_publisher_resume then show ?thesis using words_publisher_resume [OF a] by simp
  next
    case ws_wait then show ?thesis using words_wait [OF a] by simp
  next
    case ws_enqueue then show ?thesis using words_enqueue [OF a] by simp
  next
    case ws_awaiter_scan then show ?thesis using words_awaiter_scan [OF a] by simp
  next
    case ws_take then show ?thesis using words_take [OF a] by simp
  next
    case ws_awaiter_resume then show ?thesis using words_awaiter_resume [OF a] by simp
  next
    case ws_suspend then show ?thesis using words_suspend [OF a] by simp
  qed
qed

text \<open>The constructor's loop fills every slot.\<close>

definition position_init :: "nat \<Rightarrow> int \<Rightarrow> u64 waiting \<Rightarrow> int waiting" where
  "position_init k i s =
     \<lparr>m_sequence_mask = 2 ^ k - 1, m_published = (\<lambda>j. i - (i - j) mod 2 ^ k), m_awaiters = [],
      m_target_seq = (\<lambda>w. uint (m_target_seq s w)), m_last_known_published = (\<lambda>w. uint (m_last_known_published s w)),
      m_ready_to_resume = (\<lambda>_. False), known_at_start = (\<lambda>w. uint (known_at_start s w)), continued = (\<lambda>_. 0), pc = (\<lambda>_. Idle)\<rparr>"

lemma stands_init:
  assumes "waiting_init k init_seq s"
  shows "stands_for k s (position_init k (uint init_seq) s)"
proof -
  define i where "i = uint init_seq"
  have k: "k \<le> 64" and m: "m_sequence_mask s = 2 ^ k - 1" using assms by (simp_all add: waiting_init_def)
  have "m_published s (ring_slot k j) = word_of_int (i - (i - j mod 2 ^ k) mod 2 ^ k)" for j
  proof -
    define x where "x = nat ((i - j) mod 2 ^ k)"
    have n: "int x = (i - j) mod 2 ^ k" by (simp add: x_def)
    have "int x < int (2 ^ k)" unfolding n by simp
    then have "x < 2 ^ k" by (simp only: of_nat_less_iff)
    then have p: "m_published s ((init_seq - of_nat x) AND m_sequence_mask s) = init_seq - of_nat x"
      using assms unfolding waiting_init_def by blast
    have w: "init_seq - of_nat x = word_of_int (i - int x)" by (simp add: i_def)
    have "(i - int x) mod 2 ^ k = (i - (i - j)) mod 2 ^ k" unfolding n by (simp only: mod_diff_right_eq)
    then have "ring_slot k (i - int x) = ring_slot k j" using ring_slot_eq [OF k] by simp
    then have "(init_seq - of_nat x) AND m_sequence_mask s = ring_slot k j"
      unfolding w by (simp add: ring_slot_def m mask_eq_exp_minus_1)
    moreover have "(i - j mod 2 ^ k) mod 2 ^ k = int x" unfolding n by (simp only: mod_diff_right_eq)
    ultimately show ?thesis using p w by simp
  qed
  then show ?thesis using assms by (simp add: stands_for_def waiting_init_def position_init_def i_def fun_eq_iff)
qed

lemma words_inv_init:
  assumes "waiting_init k init_seq s"
  shows "words_inv k s"
proof -
  let ?a = "position_init k (uint init_seq) s"
  have st: "stands_for k s ?a" by (rule stands_init [OF assms])
  note n = stands_size [OF st]
  have sel: "pc ?a t = Idle" "m_awaiters ?a = []" "continued ?a w = 0" for t w by (simp_all add: position_init_def)
  have nw: "\<not> waits ?a w" for w by (simp add: waits_def sel)
  have slots: "m_published ?a j mod buffer_size ?a = j" if "j \<in> {0..<buffer_size ?a}" for j
  proof -
    have "m_published ?a j mod 2 ^ k = (uint init_seq - (uint init_seq - j)) mod 2 ^ k"
      unfolding position_init_def waiting.simps by (simp only: mod_diff_right_eq)
    then show ?thesis using that n by simp
  qed
  have "waiting_inv ?a (\<lambda>_. Nowhere)"
    using n slots by (simp add: waiting_inv_def places_ok_def array_ok_def nw sel)
  moreover have "distances_ok ?a"
  proof -
    have "m_published ?a x \<le> m_published ?a y + 2 ^ 62" for x y
    proof -
      have "0 \<le> (uint init_seq - x) mod 2 ^ k" "(uint init_seq - y) mod 2 ^ k < 2 ^ k" using n by simp_all
      then have "m_published ?a x \<le> uint init_seq" "uint init_seq - 2 ^ k < m_published ?a y" by (simp_all add: position_init_def)
      then have "m_published ?a x \<le> m_published ?a y + 2 ^ k" by linarith
      then show ?thesis using n(5) by simp
    qed
    then show ?thesis by (simp add: distances_ok_def sel)
  qed
  ultimately show ?thesis using st unfolding words_inv_def by blast
qed

interpretation sequencer_waiting: invariant_system "waiting_init k init_seq" waiting_step "words_inv k"
  by unfold_locales (use words_inv_init words_inv_step in blast)+

section \<open>Properties\<close>

text \<open>What the words tell about an operation that waits.\<close>

lemma waiter_words:
  assumes st: "stands_for k s a" and inv: "waiting_inv a pl" and d: "distances_ok a" and w: "waits a w"
  shows "unat (m_target_seq s w - known_at_start s w) = nat (m_target_seq a w - known_at_start a w)"
    "n \<le> unat (m_target_seq s w - known_at_start s w) \<Longrightarrow>
      published s (known_at_start s w + of_nat n) \<longleftrightarrow> published_at a (known_at_start a w + int n)"
proof -
  have "takes_part (pc a w)" using w by (auto simp: waits_def)
  note t = distances_okD(2,3) [OF d this]
  have e: "m_target_seq s w - known_at_start s w = word_of_int (m_target_seq a w - known_at_start a w)"
    by (simp add: stands_forD(6,9) [OF st])
  have "uint (m_target_seq s w - known_at_start s w) = m_target_seq a w - known_at_start a w"
    unfolding e by (subst uint_word_of_int, rule mod_pos_pos_trivial) (use t in simp_all)
  then show u: "unat (m_target_seq s w - known_at_start s w) = nat (m_target_seq a w - known_at_start a w)"
    by (metis nat_uint_eq)
  show "published s (known_at_start s w + of_nat n) \<longleftrightarrow> published_at a (known_at_start a w + int n)"
    if n: "n \<le> unat (m_target_seq s w - known_at_start s w)"
  proof -
    define i where "i = known_at_start a w + int n - 1"
    have i: "i + 1 \<le> known_at_start a w + 2 ^ 62" "known_at_start a w \<le> i + 1" using n t unfolding u i_def by linarith+
    define x where "x = (i + 1) mod buffer_size a"
    have x: "x \<in> {0..<buffer_size a}" using waiting_invD(6) [OF inv] by (simp add: x_def)
    have "known_at_start a w - 2 ^ 60 < m_published a x" "m_published a x \<le> known_at_start a w + 2 ^ 60"
      using array_low [OF inv waiting_invD(9) [OF inv w] x] array_high [OF inv w x] stands_size(3,5) [OF st] by linarith+
    then have "\<bar>m_published a x - (i + 1)\<bar> < 2 ^ 63" using i by simp
    then have "\<bar>m_published a ((i + 1) mod 2 ^ k) - (i + 1)\<bar> < 2 ^ 63" by (simp add: x_def stands_size [OF st])
    from stands_published [OF st this] show ?thesis by (simp add: i_def stands_forD(9) [OF st])
  qed
qed

lemma reached_waiter:
  assumes st: "stands_for k s a" and inv: "waiting_inv a pl" and d: "distances_ok a" and w: "waits a w"
    and i: "reached_up_to a i" "m_target_seq a w \<le> i"
  shows "\<not> precedes (word_of_int i) (m_target_seq s w)"
    "\<forall>n\<in>{1..unat (m_target_seq s w - known_at_start s w)}. published s (known_at_start s w + of_nat n)"
proof -
  have "takes_part (pc a w)" using w by (auto simp: waits_def)
  then have t: "known_at_start a w < m_target_seq a w" by (rule distances_okD(2) [OF d])
  have "i \<le> known_at_start a w + buffer_size a" by (rule reached_bound [OF inv i(1)]) (use array_high [OF inv w] in blast)
  then have "i - m_target_seq a w \<le> 2 ^ 60" using t stands_size(3,5) [OF st] by linarith
  then have "precedes (word_of_int i) (m_target_seq s w) \<longleftrightarrow> i < m_target_seq a w"
    unfolding stands_forD(6) [OF st] using i(2) by (intro precedes_positions) simp
  then show "\<not> precedes (word_of_int i) (m_target_seq s w)" using i(2) by simp
  show "\<forall>n\<in>{1..unat (m_target_seq s w - known_at_start s w)}. published s (known_at_start s w + of_nat n)"
  proof
    fix n assume n: "n \<in> {1..unat (m_target_seq s w - known_at_start s w)}"
    then have "known_at_start a w + int n \<le> i" 
      using t i(2) unfolding waiter_words(1) [OF st inv d w] atLeastAtMost_iff by linarith
    then have "reached a (known_at_start a w + int n)" using i(1) by (simp add: reached_up_to_def)
    then have "published_at a (known_at_start a w + int n)" using n by (intro reached_published [OF inv w]) simp_all
    then show "published s (known_at_start s w + of_nat n)" using waiter_words(2) [OF st inv d w] n by simp
  qed
qed

text \<open>
  C10. However publications and waits overlap, with numbers that wrap, when no call is under way every
  suspended operation is in the queue, and of the numbers after the one it knew when it was made, up to
  its target, some one is not published: no wake-up is lost. A number is stored only within the laps and
  distances of \<open>may_store\<close>, and a wait begins with a number known and a target as \<open>may_wait\<close> has them.
\<close>
theorem publications_wake_waiters:
  assumes "waiting_reachable k init_seq s" "\<forall>t. pc s t \<in> {Idle, W_suspended, W_continued}"
  shows "\<forall>w. pc s w = W_suspended \<longrightarrow> w \<in> set (m_awaiters s) \<and>
    (\<exists>i\<in>{1..unat (m_target_seq s w - known_at_start s w)}. \<not> published s (known_at_start s w + of_nat i))"
proof (intro allI impI)
  fix w assume w: "pc s w = W_suspended"
  obtain a pl where st: "stands_for k s a" and inv: "waiting_inv a pl" and d: "distances_ok a"
    using sequencer_waiting.reachable_inv [OF assms(1)] by (auto simp: words_inv_def)
  have pcs: "pc a t \<in> {Idle, W_suspended, W_continued}" for t
    using assms(2) [rule_format, of t] by (simp add: stands_forD(11) [OF st] pc_image)
  have idle: "hand (pc a t) = []" "\<not> attends a v t (pc a t)" for t v using pcs [of t] by auto
  have waits: "waits a w" using stands_waits [OF st, of w] w unfolding waits_def by blast
  have "pl w \<noteq> Held t" for t using waiting_invD(4) [OF inv, of w t] idle(1) by simp
  then have q: "w \<in> set (m_awaiters a)"
    using waiting_invD(2,5) [OF inv, of w] waits by (cases "pl w") auto
  then have "\<not> satisfied a w" using waiting_invD(13) [OF inv, of w] idle(2) by blast
  then obtain m where m: "m \<le> m_target_seq a w" "\<not> reached a m" by (auto simp: satisfied_def reached_up_to_def)
  then have "known_at_start a w < m"
    using waiting_invD(9) [OF inv waits] by (auto simp: reached_up_to_def not_le [symmetric])
  then have i: "nat (m - known_at_start a w) \<in> {1..unat (m_target_seq s w - known_at_start s w)}"
    "known_at_start a w + int (nat (m - known_at_start a w)) = m"
    using m(1) unfolding waiter_words(1) [OF st inv d waits] atLeastAtMost_iff by linarith+
  have "\<not> published s (known_at_start s w + of_nat (nat (m - known_at_start a w)))"
    using waiter_words(2) [OF st inv d waits] i m(2) published_reached [of a m] by auto
  then show "w \<in> set (m_awaiters s) \<and>
    (\<exists>i\<in>{1..unat (m_target_seq s w - known_at_start s w)}. \<not> published s (known_at_start s w + of_nat i))"
    using q i(1) by (auto simp: stands_forD(5) [OF st])
qed

text \<open>
  C11. With the same bounds, a publication resumes only operations that wait, with a number that does not
  precede their target, when every number after the one an operation knew up to its target is in its slot;
  and no coroutine goes on twice from one wait.
\<close>
theorem publisher_resumes_ready:
  assumes "waiting_reachable k init_seq s"
  shows "(\<forall>w. continued s w \<le> 1) \<and>
    (\<forall>t tr known. pc s t = P_resume tr known \<longrightarrow>
      list_all (\<lambda>w. waits s w \<and> \<not> precedes known (m_target_seq s w) \<and>
        (\<forall>i\<in>{1..unat (m_target_seq s w - known_at_start s w)}. published s (known_at_start s w + of_nat i))) tr)"
proof -
  obtain a pl where st: "stands_for k s a" and inv: "waiting_inv a pl" and d: "distances_ok a"
    using sequencer_waiting.reachable_inv [OF assms(1)] by (auto simp: words_inv_def)
  have "waits s w \<and> \<not> precedes known (m_target_seq s w) \<and>
      (\<forall>i\<in>{1..unat (m_target_seq s w - known_at_start s w)}. published s (known_at_start s w + of_nat i))"
    if p: "pc s t = P_resume tr known" and w: "w \<in> set tr" for t tr known w
  proof -
    obtain i where pc: "pc a t = P_resume tr i" and e: "known = word_of_int i"
      using p by (auto simp: stands_forD(11) [OF st] pc_image)
    have ok: "reached_up_to a i" "m_target_seq a w \<le> i" using waiting_invD(12) [OF inv, of t] pc w by (simp_all add: resumable_def)
    have waits: "waits a w" using waiting_invD(4) [OF inv, of w t] waiting_invD(5) [OF inv, of w] pc w by simp
    then show ?thesis using reached_waiter [OF st inv d waits ok] by (simp add: e stands_waits [OF st])
  qed
  moreover have "continued s w \<le> 1" for w using waiting_invD(14) [OF inv, of w] by (simp add: stands_forD(10) [OF st])
  ultimately show ?thesis by (auto simp: list_all_iff)
qed

section \<open>A run\<close>

text \<open>
  Two slots and the default initial sequence, the greatest number: thread 0 waits for the number 0, the next
  one, and is suspended; thread 1 publishes it.
\<close>

definition wait_start :: "u64 waiting" where
  "wait_start = \<lparr>m_sequence_mask = 1, m_published = (\<lambda>i. if i = 0 then -2 else -1), m_awaiters = [], m_target_seq = (\<lambda>_. 0),
     m_last_known_published = (\<lambda>_. 0), m_ready_to_resume = (\<lambda>_. False), known_at_start = (\<lambda>_. 0),
     continued = (\<lambda>_. 0), pc = (\<lambda>_. Idle)\<rparr>"

definition wait_suspended :: "u64 waiting" where
  "wait_suspended =
     suspend_or_continue 0 (awaiter_resume 0 [] (-1) (awaiter_scan 0 [] 0 (-1) (enqueue_awaiters 0 [0] [] 0 (-1)
       (wait_until_published 0 0 (-1) wait_start))))"

definition wait_resuming :: "u64 waiting" where
  "wait_resuming =
     scan_published 1 [0] [] 0 (scan_published 1 [0] [] (-1) (exchange_awaiters 1 (load_awaiters 1
       (store_number 1 0 [] (goto 1 (P_store [0]) wait_suspended)))))"

lemma wait_start_init: "waiting_init 1 initial_sequence wait_start"
proof -
  have "i = 0 \<or> i = 1" if "i < 2" for i :: nat using that by auto
  then show ?thesis by (fastforce simp: waiting_init_def wait_start_def initial_sequence_def)
qed

lemmas wait_defs = wait_start_def wait_until_published_def enqueue_awaiters_def awaiter_scan_def awaiter_resume_def
  suspend_or_continue_def goto_def published_def precedes_def difference_def Let_def

abbreviation "wrapping_run \<equiv> waiting_reachable 1 initial_sequence"

lemma wait_suspended_reachable: "wrapping_run wait_suspended"
proof -
  have 0: "wrapping_run wait_start" using wait_start_init by (rule reachable_init)
  have "may_wait 0 (-1) wait_start" by (simp add: may_wait_def wait_start_def difference_def buffer_size_def)
  then have 1: "wrapping_run (wait_until_published 0 0 (-1) wait_start)"
    by (intro reachable_step [OF 0] ws_wait) (simp_all add: wait_defs)
  have 2: "wrapping_run (enqueue_awaiters 0 [0] [] 0 (-1) (wait_until_published 0 0 (-1) wait_start))"
    by (rule reachable_step [OF 1], rule ws_enqueue) (simp add: wait_defs)
  have 3: "wrapping_run (awaiter_scan 0 [] 0 (-1) (enqueue_awaiters 0 [0] [] 0 (-1) (wait_until_published 0 0 (-1) wait_start)))"
    by (rule reachable_step [OF 2], rule ws_awaiter_scan) (simp add: wait_defs)
  have 4: "wrapping_run (awaiter_resume 0 [] (-1) (awaiter_scan 0 [] 0 (-1) (enqueue_awaiters 0 [0] [] 0 (-1)
      (wait_until_published 0 0 (-1) wait_start))))"
    by (rule reachable_step [OF 3], rule ws_awaiter_resume) (simp add: wait_defs)
  show ?thesis unfolding wait_suspended_def
    by (rule reachable_step [OF 4], rule ws_suspend) (simp add: wait_defs)
qed

lemma wait_suspended_simps:
  "m_sequence_mask wait_suspended = 1" "m_published wait_suspended = (\<lambda>i. if i = 0 then -2 else -1)"
  "m_awaiters wait_suspended = [0]" "m_target_seq wait_suspended 0 = 0" "m_last_known_published wait_suspended 0 = -1"
  "m_ready_to_resume wait_suspended 0" "known_at_start wait_suspended 0 = -1" "pc wait_suspended = (\<lambda>_. Idle)(0 := W_suspended)"
  by (auto simp: wait_suspended_def wait_defs fun_eq_iff)

lemma wait_resuming_reachable: "wrapping_run wait_resuming"
proof -
  let ?s0 = "goto 1 (P_store [0]) wait_suspended"
  let ?s1 = "store_number 1 0 [] ?s0"
  let ?s2 = "load_awaiters 1 ?s1"
  let ?s3 = "exchange_awaiters 1 ?s2"
  note d = store_number_def load_awaiters_def exchange_awaiters_def scan_published_def published_def Let_def wait_suspended_simps
  have 0: "wrapping_run ?s0"
    by (rule reachable_step [OF wait_suspended_reachable], rule ws_publish) (simp_all add: wait_suspended_simps)
  have "may_store 0 ?s0"
    by (auto simp: may_store_def waits_def wait_suspended_simps difference_def buffer_size_def split: if_splits)
  then have 1: "wrapping_run ?s1" by (intro reachable_step [OF 0] ws_store) simp_all
  have 2: "wrapping_run ?s2" by (rule reachable_step [OF 1], rule ws_load) (simp add: d)
  have 3: "wrapping_run ?s3" by (rule reachable_step [OF 2], rule ws_exchange) (simp add: d)
  have 4: "wrapping_run (scan_published 1 [0] [] (-1) ?s3)" by (rule reachable_step [OF 3], rule ws_scan) (simp add: d)
  show ?thesis unfolding wait_resuming_def by (rule reachable_step [OF 4], rule ws_scan) (simp add: d)
qed

lemma wait_resuming_simps: "pc wait_resuming 1 = P_resume [0] 0" "m_target_seq wait_resuming 0 = 0" "known_at_start wait_resuming 0 = -1"
  by (simp_all add: wait_resuming_def store_number_def load_awaiters_def exchange_awaiters_def scan_published_def
      published_def difference_def Let_def wait_suspended_simps)

theorem publications_wake_waiters_witness: "0 \<in> set (m_awaiters wait_suspended) \<and> \<not> published wait_suspended 0"
proof -
  have "\<forall>t. pc wait_suspended t \<in> {Idle, W_suspended, W_continued}" by (simp add: wait_suspended_simps)
  from publications_wake_waiters [OF wait_suspended_reachable this, rule_format, of 0]
  show ?thesis by (simp add: wait_suspended_simps)
qed

theorem publisher_resumes_ready_witness: "waits wait_resuming 0 \<and> published wait_resuming 0"
  using publisher_resumes_ready [OF wait_resuming_reachable] wait_resuming_simps by fastforce

end
