(* ===== verification/Ring_Transfer.thy ===== *)
theory Ring_Transfer
  imports Multi_Producer "HOL-Library.Sublist"
begin

text \<open>
  A ring buffer under a multi_producer_sequencer while calls overlap: any number of producers claim
  numbers, wait for the consumer's barrier, write their cells and publish; one consumer looks for
  published numbers, reads the cells and releases them by publishing to the barrier. Every access of the
  shared counter, of an entry of \<open>m_published\<close>, of the barrier and of a cell is a step of its own. How a
  coroutine that waits is suspended and resumed is in Sequence_Barrier and Multi_Producer; here a wait is
  a loop that looks again. What the producers put in is \<open>items\<close>, in the order of the numbers claimed for
  it, and what the consumer has read is \<open>consumed\<close>.
\<close>

section \<open>State\<close>

datatype 'v producer_pc =
    P_idle
  | P_claimed sequence_range u64 "'v list"
  | P_waiting sequence_range u64 u64 "'v list"
  | P_writing sequence_range nat "'v list"
  | P_publishing "u64 list"

datatype consumer_pc = C_scan u64 | C_read u64

record 'v ring =
  sequencer :: multi_producer
  cells :: "nat \<Rightarrow> 'v"
  p_pc :: "nat \<Rightarrow> 'v producer_pc"
  c_pc :: consumer_pc
  c_next :: u64
  items :: "'v list"
  consumed :: "'v list"

definition ring_new :: "u64 \<Rightarrow> u64 \<Rightarrow> (nat \<Rightarrow> 'v) \<Rightarrow> 'v ring" where
  "ring_new sz init_seq cs =
     \<lparr>sequencer = multi_producer_new init_seq sz init_seq, cells = cs, p_pc = (\<lambda>_. P_idle),
      c_pc = C_scan init_seq, c_next = init_seq + 1, items = [], consumed = []\<rparr>"

definition cell_of :: "'v ring \<Rightarrow> u64 \<Rightarrow> nat" where
  "cell_of s seq = slot (m_sequence_mask (sequencer s)) seq"

definition p_go :: "nat \<Rightarrow> 'v producer_pc \<Rightarrow> 'v ring \<Rightarrow> 'v ring" where
  "p_go p c s = s\<lparr>p_pc := (p_pc s)(p := c)\<rparr>"

section \<open>Producers\<close>

text \<open>Claiming for the values \<open>vs\<close>, one or several numbers; the target is what the awaiter waits for.\<close>

definition ring_claim_one :: "nat \<Rightarrow> 'v \<Rightarrow> 'v ring \<Rightarrow> 'v ring" where
  "ring_claim_one p v s =
     (let (m, seq, tgt) = claim_one (sequencer s)
      in p_go p (P_claimed \<lparr>m_begin = seq, m_end = seq + 1\<rparr> tgt [v]) s \<lparr>sequencer := m, items := items s @ [v]\<rparr>)"

definition ring_claim_up_to :: "nat \<Rightarrow> u64 \<Rightarrow> 'v list \<Rightarrow> 'v ring \<Rightarrow> 'v ring" where
  "ring_claim_up_to p count vs s =
     (let (m, r, tgt) = claim_up_to count (sequencer s)
      in p_go p (P_claimed r tgt vs) s \<lparr>sequencer := m, items := items s @ vs\<rparr>)"

text \<open>The awaiter loads the barrier's number when it is constructed, and is told another one when it is resumed.\<close>

definition ring_look :: "nat \<Rightarrow> sequence_range \<Rightarrow> u64 \<Rightarrow> 'v list \<Rightarrow> 'v ring \<Rightarrow> 'v ring" where
  "ring_look p r tgt vs s = p_go p (P_waiting r tgt (m_consumer_published (sequencer s)) vs) s"

definition ring_ready :: "nat \<Rightarrow> sequence_range \<Rightarrow> u64 \<Rightarrow> u64 \<Rightarrow> 'v list \<Rightarrow> 'v ring \<Rightarrow> 'v ring" where
  "ring_ready p r tgt known vs s =
     (if precedes known tgt then ring_look p r tgt vs s else p_go p (P_writing r 0 vs) s)"

text \<open>All numbers but the first are published before the first.\<close>

definition publish_order :: "sequence_range \<Rightarrow> u64 list" where
  "publish_order r = (if range_empty r then [] else range_elements (range_skip r 1) @ [range_front r])"

definition ring_write :: "nat \<Rightarrow> sequence_range \<Rightarrow> nat \<Rightarrow> 'v list \<Rightarrow> 'v ring \<Rightarrow> 'v ring" where
  "ring_write p r i vs s =
     (if i < length vs
      then p_go p (P_writing r (Suc i) vs) s
        \<lparr>cells := (cells s)(cell_of s (range_nth r (of_nat i)) := vs ! i)\<rparr>
      else p_go p (P_publishing (publish_order r)) s)"

definition ring_publish :: "nat \<Rightarrow> u64 list \<Rightarrow> 'v ring \<Rightarrow> 'v ring" where
  "ring_publish p seqs s =
     (case seqs of [] \<Rightarrow> p_go p P_idle s
      | seq # rest \<Rightarrow> p_go p (P_publishing rest) s \<lparr>sequencer := store_published seq (sequencer s)\<rparr>)"

section \<open>The consumer\<close>

text \<open>One round of the loop of \<open>last_published_after\<close>.\<close>

definition ring_scan :: "u64 \<Rightarrow> 'v ring \<Rightarrow> 'v ring" where
  "ring_scan known s =
     (if published (sequencer s) (known + 1) then s\<lparr>c_pc := C_scan (known + 1)\<rparr> else s\<lparr>c_pc := C_read known\<rparr>)"

text \<open>Reading up to the number found, then looking again.\<close>

definition ring_read :: "u64 \<Rightarrow> 'v ring \<Rightarrow> 'v ring" where
  "ring_read known s =
     (if c_next s = known + 1 then s\<lparr>c_pc := C_scan known\<rparr>
      else s\<lparr>consumed := consumed s @ [cells s (cell_of s (c_next s))], c_next := c_next s + 1\<rparr>)"

text \<open>The consumer may publish what it has read to its barrier at any time.\<close>

definition ring_release :: "'v ring \<Rightarrow> 'v ring" where
  "ring_release s = s\<lparr>sequencer := (sequencer s)\<lparr>m_consumer_published := c_next s - 1\<rparr>\<rparr>"

text \<open>The numbers claimed are at most \<open>2 ^ 61\<close> ahead of those released.\<close>

definition claim_bound :: "'v ring \<Rightarrow> bool" where
  "claim_bound s \<longleftrightarrow> unat (m_next_to_claim (sequencer s) - m_consumer_published (sequencer s)) \<le> 2 ^ 61"

inductive ring_step :: "'v ring \<Rightarrow> 'v ring \<Rightarrow> bool" where
  rs_claim_one: "p_pc s p = P_idle \<Longrightarrow> claim_bound s \<Longrightarrow> ring_step s (ring_claim_one p v s)"
| rs_claim_up_to: "p_pc s p = P_idle \<Longrightarrow> claim_bound s \<Longrightarrow> count \<noteq> 0 \<Longrightarrow>
    length vs = unat (claim_count (sequencer s) count) \<Longrightarrow> ring_step s (ring_claim_up_to p count vs s)"
| rs_look: "p_pc s p = P_claimed r tgt vs \<Longrightarrow> ring_step s (ring_look p r tgt vs s)"
| rs_ready: "p_pc s p = P_waiting r tgt known vs \<Longrightarrow> ring_step s (ring_ready p r tgt known vs s)"
| rs_write: "p_pc s p = P_writing r i vs \<Longrightarrow> ring_step s (ring_write p r i vs s)"
| rs_publish: "p_pc s p = P_publishing seqs \<Longrightarrow> ring_step s (ring_publish p seqs s)"
| rs_scan: "c_pc s = C_scan known \<Longrightarrow> ring_step s (ring_scan known s)"
| rs_read: "c_pc s = C_read known \<Longrightarrow> ring_step s (ring_read known s)"
| rs_release: "ring_step s (ring_release s)"

definition ring_init :: "'v ring \<Rightarrow> bool" where
  "ring_init s \<longleftrightarrow> (\<exists>k init_seq cs. k \<le> 60 \<and> s = ring_new (2 ^ k) init_seq cs)"

section \<open>Positions\<close>

abbreviation num :: "int \<Rightarrow> u64" where "num \<equiv> word_of_int"

abbreviation cell :: "nat \<Rightarrow> int \<Rightarrow> nat" where "cell k q \<equiv> slot (mask k) (num q)"

lemma cell_eq: "k \<le> 60 \<Longrightarrow> cell k q = cell k q' \<longleftrightarrow> q mod 2 ^ k = q' mod 2 ^ k"
  using ring_slot_eq [of k q q'] by (simp add: slot_word_of_int word_unat_eq_iff)

lemma cell_neq: "k \<le> 60 \<Longrightarrow> q \<noteq> q' \<Longrightarrow> \<bar>q - q'\<bar> < 2 ^ k \<Longrightarrow> cell k q \<noteq> cell k q'"
  using ring_slot_neq [of k q q'] ring_slot_neq [of k q' q]
  by (cases "q < q'") (auto simp: slot_word_of_int word_unat_eq_iff)

lemma cell_lap: "k \<le> 60 \<Longrightarrow> cell k (q - 2 ^ k) = cell k q"
  by (subst cell_eq) simp_all

lemma cell_less: "k \<le> 60 \<Longrightarrow> cell k q < 2 ^ k"
proof -
  assume k: "k \<le> 60"
  have "unat (num q AND mask k) \<le> unat (mask k :: u64)" by (metis word_and_le1 word_le_nat_alt)
  moreover have "(0::nat) < 2 ^ k" by simp
  ultimately show ?thesis using unat_mask [OF k] unfolding slot_def by linarith
qed

lemma num_eq: "\<bar>a - b\<bar> < 2 ^ 63 \<Longrightarrow> num a = num b \<longleftrightarrow> a = b"
  using word_of_int_eq_near [of a b] word_of_int_eq_near [of b a] by (cases "a \<le> b") auto

lemma lap_bound: "k \<le> 60 \<Longrightarrow> (1::int) \<le> 2 ^ k \<and> (2::int) ^ k \<le> 2 ^ 60"
  using power_increasing [of k 60 "2::int"] by simp

text \<open>The constructor's loop fills the last lap before the first number.\<close>

lemma init_published_entry:
  assumes k: "k \<le> 60" and "length p = 2 ^ k" "a \<le> b" "b - a < 2 ^ k" "a \<le> q" "q \<le> b"
  shows "init_published (mask k) (num b) (num a) p ! cell k q = num q"
proof -
  have keep: "init_published (mask k) (num b) (num a) p ! cell k q = p ! cell k q"
    if "a \<le> b" "b - a < 2 ^ k" "length p = 2 ^ k" "q < a" "b - q < 2 ^ k" for a q p
    using that
  proof (induction "nat (b - a)" arbitrary: a p rule: less_induct)
    case less
    have near: "num a = num b \<longleftrightarrow> a = b" using less.prems lap_bound [OF k] by (intro num_eq) auto
    have "cell k q \<noteq> cell k a" using less.prems by (intro cell_neq [OF k]) auto
    moreover have "init_published (mask k) (num b) (num (a + 1)) (p[cell k a := num a]) ! cell k q = p[cell k a := num a] ! cell k q"
      if "a \<noteq> b" using less.prems that by (intro less.hyps) auto
    ultimately show ?case by (subst init_published.simps) (auto simp: Let_def near)
  qed
  show ?thesis using assms(2-)
  proof (induction "nat (b - a)" arbitrary: a p rule: less_induct)
    case less
    have near: "num a = num b \<longleftrightarrow> a = b" using less.prems lap_bound [OF k] by (intro num_eq) auto
    have unfold: "init_published (mask k) (num b) (num a) p =
        (if a = b then p[cell k a := num a] else init_published (mask k) (num b) (num (a + 1)) (p[cell k a := num a]))"
      by (subst init_published.simps) (simp add: Let_def near)
    show ?case
    proof (cases "a = b")
      case True
      then show ?thesis using less.prems cell_less [OF k, of a] unfold by simp
    next
      case neq: False
      show ?thesis
      proof (cases "q = a")
        case True
        then have "init_published (mask k) (num b) (num (a + 1)) (p[cell k a := num a]) ! cell k q = p[cell k a := num a] ! cell k q"
          using less.prems neq by (intro keep) auto
        then show ?thesis using less.prems neq True cell_less [OF k, of a] by (simp add: unfold)
      next
        case False
        then have "init_published (mask k) (num b) (num (a + 1)) (p[cell k a := num a]) ! cell k q = num q"
          using less.prems neq by (intro less.hyps) auto
        then show ?thesis using neq by (simp add: unfold)
      qed
    qed
  qed
qed

section \<open>The invariant\<close>

text \<open>
  What the numbers stand for: the first number is \<open>b\<close>, the consumer has released all up to \<open>c\<close>, \<open>pub\<close> are
  the published ones, \<open>own p\<close> those that producer \<open>p\<close> has claimed and not published, and the consumer has found all up to \<open>f\<close> and read all before \<open>nx\<close>.
\<close>

record positions =
  first_pos :: int
  released :: int
  pub :: "int set"
  own :: "nat \<Rightarrow> int list"
  found :: int
  reading :: int

definition last_pos :: "'v ring \<Rightarrow> positions \<Rightarrow> int" where
  "last_pos s g = first_pos g + int (length (items s))"

definition item :: "'v ring \<Rightarrow> positions \<Rightarrow> int \<Rightarrow> 'v" where
  "item s g q = items s ! nat (q - first_pos g)"

definition words_ok :: "nat \<Rightarrow> 'v ring \<Rightarrow> positions \<Rightarrow> bool" where
  "words_ok k s g \<longleftrightarrow> mp_ok k (sequencer s) \<and> m_next_to_claim (sequencer s) = num (last_pos s g) \<and>
     m_consumer_published (sequencer s) = num (released g) \<and> first_pos g \<le> released g + 1 \<and>
     last_pos s g - released g \<le> 2 ^ 62"

definition published_ok :: "nat \<Rightarrow> 'v ring \<Rightarrow> positions \<Rightarrow> bool" where
  "published_ok k s g \<longleftrightarrow>
     (\<forall>q. released g < q \<and> q \<le> released g + 2 ^ k \<longrightarrow>
        m_published (sequencer s) ! cell k q = num (if q \<in> pub g then q else q - 2 ^ k)) \<and>
     (\<forall>q\<in>pub g. first_pos g \<le> q \<and> q \<le> released g + 2 ^ k \<and> q < last_pos s g) \<and>
     (\<forall>q. first_pos g \<le> q \<and> q \<le> released g \<longrightarrow> q \<in> pub g) \<and>
     (\<forall>q\<in>pub g. released g < q \<longrightarrow> cells s (cell k q) = item s g q)"

definition owned_ok :: "'v ring \<Rightarrow> positions \<Rightarrow> bool" where
  "owned_ok s g \<longleftrightarrow>
     (\<forall>p. distinct (own g p)) \<and> (\<forall>p p'. p \<noteq> p' \<longrightarrow> set (own g p) \<inter> set (own g p') = {}) \<and>
     (\<forall>q. (\<exists>p. q \<in> set (own g p)) \<longleftrightarrow> first_pos g \<le> q \<and> q < last_pos s g \<and> q \<notin> pub g)"

text \<open>A producer that has claimed the numbers from \<open>a\<close> on for its values.\<close>

definition claim_ok :: "nat \<Rightarrow> 'v ring \<Rightarrow> positions \<Rightarrow> nat \<Rightarrow> int \<Rightarrow> sequence_range \<Rightarrow> 'v list \<Rightarrow> bool" where
  "claim_ok k s g p a r vs \<longleftrightarrow> vs \<noteq> [] \<and> length vs \<le> 2 ^ k \<and>
     m_begin r = num a \<and> m_end r = num (a + int (length vs)) \<and>
     own g p = map (\<lambda>i. a + int i) [0..<length vs] \<and> (\<forall>i<length vs. item s g (a + int i) = vs ! i)"

definition target_ok :: "nat \<Rightarrow> int \<Rightarrow> 'v list \<Rightarrow> u64 \<Rightarrow> bool" where
  "target_ok k a vs tgt \<longleftrightarrow> tgt = num (a + int (length vs) - 1 - 2 ^ k)"

fun producer_ok :: "nat \<Rightarrow> 'v ring \<Rightarrow> positions \<Rightarrow> nat \<Rightarrow> 'v producer_pc \<Rightarrow> bool" where
  "producer_ok k s g p P_idle \<longleftrightarrow> own g p = []"
| "producer_ok k s g p (P_claimed r tgt vs) \<longleftrightarrow>
     (\<exists>a. claim_ok k s g p a r vs \<and> target_ok k a vs tgt \<and> a + int (length vs) - released g \<le> 2 ^ 62)"
| "producer_ok k s g p (P_waiting r tgt known vs) \<longleftrightarrow>
     (\<exists>a l. claim_ok k s g p a r vs \<and> target_ok k a vs tgt \<and> known = num l \<and> l \<le> released g \<and>
        a + int (length vs) - l \<le> 2 ^ 62)"
| "producer_ok k s g p (P_writing r i vs) \<longleftrightarrow>
     (\<exists>a. claim_ok k s g p a r vs \<and> a + int (length vs) - 1 \<le> released g + 2 ^ k \<and> i \<le> length vs \<and>
        (\<forall>j<i. cells s (cell k (a + int j)) = vs ! j))"
| "producer_ok k s g p (P_publishing seqs) \<longleftrightarrow>
     (\<exists>qs. distinct qs \<and> set qs = set (own g p) \<and> seqs = map num qs) \<and>
     (\<forall>q\<in>set (own g p). q \<le> released g + 2 ^ k \<and> cells s (cell k q) = item s g q)"

definition consumer_ok :: "nat \<Rightarrow> 'v ring \<Rightarrow> positions \<Rightarrow> bool" where
  "consumer_ok k s g \<longleftrightarrow>
     released g < reading g \<and> reading g \<le> found g + 1 \<and> found g \<le> released g + 2 ^ k \<and>
     (\<forall>q. released g < q \<and> q \<le> found g \<longrightarrow> q \<in> pub g) \<and> c_next s = num (reading g) \<and>
     consumed s = take (nat (reading g - first_pos g)) (items s) \<and>
     (case c_pc s of C_scan known \<Rightarrow> known = num (found g) | C_read known \<Rightarrow> known = num (found g))"

definition ring_ok :: "nat \<Rightarrow> 'v ring \<Rightarrow> positions \<Rightarrow> bool" where
  "ring_ok k s g \<longleftrightarrow> k \<le> 60 \<and> words_ok k s g \<and> published_ok k s g \<and> owned_ok s g \<and>
     (\<forall>p. producer_ok k s g p (p_pc s p)) \<and> consumer_ok k s g"

definition ring_inv :: "'v ring \<Rightarrow> bool" where
  "ring_inv s \<longleftrightarrow> (\<exists>k g. ring_ok k s g)"


lemma released_last: "ring_ok k s g \<Longrightarrow> released g < last_pos s g"
proof (cases "first_pos g \<le> released g")
  case True
  then show "ring_ok k s g \<Longrightarrow> ?thesis" by (simp add: ring_ok_def published_ok_def)
next
  case False
  then show "ring_ok k s g \<Longrightarrow> ?thesis" by (simp add: ring_ok_def words_ok_def last_pos_def)
qed

lemma owned_pos: "ring_ok k s g \<Longrightarrow> q \<in> set (own g p) \<Longrightarrow> released g < q \<and> q < last_pos s g \<and> q \<notin> pub g \<and> first_pos g \<le> q"
  unfolding ring_ok_def owned_ok_def published_ok_def by (metis linorder_not_le)

lemma owned_other: "ring_ok k s g \<Longrightarrow> p \<noteq> p' \<Longrightarrow> q \<in> set (own g p) \<Longrightarrow> q \<notin> set (own g p')"
  unfolding ring_ok_def owned_ok_def by blast

lemma found_last: "ring_ok k s g \<Longrightarrow> released g \<le> found g \<and> found g < last_pos s g"
proof -
  assume ok: "ring_ok k s g"
  then have le: "released g \<le> found g" by (simp add: ring_ok_def consumer_ok_def)
  show ?thesis
  proof (cases "released g = found g")
    case True
    then show ?thesis using released_last [OF ok] by simp
  next
    case False
    then have "found g \<in> pub g" using ok le by (simp add: ring_ok_def consumer_ok_def)
    then show ?thesis using ok le by (simp add: ring_ok_def published_ok_def)
  qed
qed

lemma claim_own: "claim_ok k s g p a r vs \<Longrightarrow> i < length vs \<Longrightarrow> a + int i \<in> set (own g p)"
  by (auto simp: claim_ok_def)

lemma claim_pos:
  assumes "ring_ok k s g" "claim_ok k s g p a r vs"
  shows "released g < a" "a + int (length vs) \<le> last_pos s g"
proof -
  have n: "0 < length vs" using assms(2) by (simp add: claim_ok_def)
  show "released g < a" using owned_pos [OF assms(1) claim_own [OF assms(2) n]] by simp
  have "a + int (length vs - 1) \<in> set (own g p)" using claim_own [OF assms(2)] n by simp
  from owned_pos [OF assms(1) this] show "a + int (length vs) \<le> last_pos s g" using n by simp
qed

text \<open>What producer \<open>p\<close> relies on is kept by steps that leave its numbers and their cells alone.\<close>

lemma producer_frame:
  assumes ok: "producer_ok k s g p c" and own: "own g' p = own g p" and rel: "released g \<le> released g'"
    and item: "\<And>q. q \<in> set (own g p) \<Longrightarrow> item s' g' q = item s g q"
    and cells: "\<And>q. q \<in> set (own g p) \<Longrightarrow> q \<le> released g + 2 ^ k \<Longrightarrow> cells s' (cell k q) = cells s (cell k q)"
  shows "producer_ok k s' g' p c"
proof -
  have claim: "claim_ok k s' g' p a r vs" if "claim_ok k s g p a r vs" for a r vs
    using that own item claim_own [OF that] by (simp add: claim_ok_def)
  show ?thesis
  proof (cases c)
    case P_idle
    then show ?thesis using ok own by simp
  next
    case (P_claimed r tgt vs)
    then show ?thesis using ok claim rel by (fastforce simp: order_trans)
  next
    case (P_waiting r tgt known vs)
    then show ?thesis using ok claim rel by (fastforce simp: order_trans)
  next
    case (P_writing r i vs)
    then obtain a where a: "claim_ok k s g p a r vs" "a + int (length vs) - 1 \<le> released g + 2 ^ k" "i \<le> length vs"
        "\<forall>j<i. cells s (cell k (a + int j)) = vs ! j" using ok by auto
    have "cells s' (cell k (a + int j)) = vs ! j" if "j < i" for j
      using cells [OF claim_own [OF a(1), of j]] a that by simp
    then show ?thesis using claim [OF a(1)] a rel P_writing by (auto intro!: exI [of _ a])
  next
    case (P_publishing seqs)
    then show ?thesis using ok own rel item cells by fastforce
  qed
qed

text \<open>A step of producer \<open>p\<close> that changes only its program counter and cells of its own.\<close>

lemma producer_step:
  assumes ok: "ring_ok k s g" and s': "sequencer s' = sequencer s" "items s' = items s" "consumed s' = consumed s"
      "c_next s' = c_next s" "c_pc s' = c_pc s" "p_pc s' = (p_pc s)(p := c)"
    and cells: "\<And>x. cells s' x \<noteq> cells s x \<Longrightarrow> \<exists>q\<in>set (own g p). q \<le> released g + 2 ^ k \<and> x = cell k q"
    and c: "producer_ok k s' g p c"
  shows "ring_ok k s' g"
proof -
  have k: "k \<le> 60" using ok by (simp add: ring_ok_def)
  have last: "last_pos s' g = last_pos s g" and item: "item s' g q = item s g q" for q
    using s' by (simp_all add: last_pos_def item_def)
  have same: "cells s' (cell k q) = cells s (cell k q)"
    if "released g < q" "q \<le> released g + 2 ^ k" "q \<notin> set (own g p)" for q
  proof (rule ccontr)
    assume "\<not> ?thesis"
    then obtain q' where q': "q' \<in> set (own g p)" "q' \<le> released g + 2 ^ k" "cell k q = cell k q'" using cells by blast
    then have "q \<noteq> q'" "\<bar>q - q'\<bar> < 2 ^ k" using that owned_pos [OF ok q'(1)] by auto
    then show False using cell_neq [OF k] q'(3) by blast
  qed
  have "published_ok k s' g" using ok same owned_pos [OF ok] last item s'(1)
    unfolding ring_ok_def published_ok_def by metis
  moreover have "producer_ok k s' g p' (p_pc s' p')" for p'
  proof (cases "p' = p")
    case True
    then show ?thesis using c s' by simp
  next
    case False
    have "producer_ok k s g p' (p_pc s p')" using ok by (simp add: ring_ok_def)
    then have "producer_ok k s' g p' (p_pc s p')"
      by (rule producer_frame) (use item same owned_pos [OF ok] owned_other [OF ok False] in auto)
    then show ?thesis using False s' by simp
  qed
  ultimately show ?thesis using ok s' last
    by (simp add: ring_ok_def words_ok_def owned_ok_def consumer_ok_def)
qed

lemma p_go_simps [simp]:
  "sequencer (p_go p c s) = sequencer s" "items (p_go p c s) = items s" "consumed (p_go p c s) = consumed s"
  "c_next (p_go p c s) = c_next s" "c_pc (p_go p c s) = c_pc s" "p_pc (p_go p c s) = (p_pc s)(p := c)"
  "cells (p_go p c s) = cells s"
  by (simp_all add: p_go_def)

lemma claim_ok_cells: "sequencer s' = sequencer s \<Longrightarrow> items s' = items s \<Longrightarrow> claim_ok k s' g p a r vs = claim_ok k s g p a r vs"
  by (simp add: claim_ok_def item_def)

lemma ring_ok_producer: "ring_ok k s g \<Longrightarrow> producer_ok k s g p (p_pc s p)"
  by (simp add: ring_ok_def)

text \<open>A producer claims for \<open>vs\<close>.\<close>

lemma ring_ok_claim:
  assumes ok: "ring_ok k s g" and idle: "p_pc s p = P_idle" and bound: "claim_bound s"
    and n: "vs \<noteq> []" "length vs \<le> 2 ^ k" and m: "m = (sequencer s)\<lparr>m_next_to_claim := m_next_to_claim (sequencer s) + of_nat (length vs)\<rparr>"
    and r: "m_begin r = m_next_to_claim (sequencer s)" "m_end r = m_next_to_claim (sequencer s) + of_nat (length vs)"
    and tgt: "tgt = m_end r - 1 - buffer_size (sequencer s)"
  shows "ring_ok k (p_go p (P_claimed r tgt vs) s \<lparr>sequencer := m, items := items s @ vs\<rparr>)
    (g\<lparr>own := (own g)(p := map (\<lambda>i. last_pos s g + int i) [0..<length vs])\<rparr>)" (is "ring_ok k ?s ?g")
proof -
  let ?a = "last_pos s g"
  have k: "k \<le> 60" and words: "words_ok k s g" and own: "own g p = []" using ok ring_ok_producer [OF ok, of p] idle
    by (simp_all add: ring_ok_def)
  have first: "first_pos g \<le> ?a" by (simp add: last_pos_def)
  have len: "int (length vs) \<le> 2 ^ 60"
    using n(2) lap_bound [OF k] by (metis of_nat_le_iff of_nat_numeral of_nat_power order_trans)
  have "unat (m_next_to_claim (sequencer s) - m_consumer_published (sequencer s)) = nat (?a - released g)"
    using words released_last [OF ok] by (simp add: words_ok_def unat_diff_positions)
  then have near: "?a - released g \<le> 2 ^ 61" using bound by (simp add: claim_bound_def nat_le_iff)
  have last: "last_pos ?s ?g = ?a + int (length vs)" by (simp add: last_pos_def)
  have old: "item ?s ?g q = item s g q" if "first_pos g \<le> q" "q < ?a" for q
    using that by (simp add: item_def nth_append last_pos_def nat_less_iff)
  have new: "item ?s ?g (?a + int i) = vs ! i" if "i < length vs" for i
  proof -
    have "nat (?a + int i - first_pos g) = length (items s) + i" by (simp add: last_pos_def)
    then show ?thesis by (simp add: item_def)
  qed
  have mask: "m_sequence_mask (sequencer s) = mask k" using words by (simp add: words_ok_def mp_ok_def)
  have "words_ok k ?s ?g" using words near len unfolding words_ok_def last by (simp add: m mp_ok_def)
  moreover have "published_ok k ?s ?g"
  proof -
    have pub: "published_ok k s g" using ok by (simp add: ring_ok_def)
    have "item ?s ?g q = item s g q" if "q \<in> pub g" for q using pub that by (intro old) (simp_all add: published_ok_def)
    moreover have "q < last_pos ?s ?g" if "q \<in> pub g" for q
    proof -
      have "q < ?a" using pub that by (simp add: published_ok_def)
      then show ?thesis unfolding last by linarith
    qed
    ultimately show ?thesis using pub by (simp add: published_ok_def m)
  qed
  moreover have "owned_ok ?s ?g"
  proof -
    have o: "owned_ok s g" using ok by (simp add: ring_ok_def)
    have set: "set (own ?g p) = {?a..<?a + int (length vs)}"
    proof -
      have "q \<in> (\<lambda>i. ?a + int i) ` {0..<length vs}" if "?a \<le> q" "q < ?a + int (length vs)" for q
        using that by (intro image_eqI [of _ _ "nat (q - ?a)"]) auto
      then show ?thesis by auto
    qed
    have pub: "q < ?a" if "q \<in> pub g" for q using ok that by (simp add: ring_ok_def published_ok_def)
    have other: "q < ?a" if "q \<in> set (own g p')" for q p' using owned_pos [OF ok that] by simp
    have "distinct (own ?g p')" for p' using o by (simp add: owned_ok_def distinct_map inj_on_def)
    moreover have "set (own ?g p') \<inter> set (own ?g p'') = {}" if "p' \<noteq> p''" for p' p''
    proof -
      have "set (own g p') \<inter> set (own g p'') = {}" using o that by (simp add: owned_ok_def)
      then show ?thesis using set other [of _ p'] other [of _ p''] that by (cases "p' = p"; cases "p'' = p") fastforce+
    qed
    moreover have "(\<exists>p'. q \<in> set (own ?g p')) \<longleftrightarrow> first_pos ?g \<le> q \<and> q < last_pos ?s ?g \<and> q \<notin> pub ?g" for q
    proof (cases "q < ?a")
      case True
      have "(\<exists>p'. q \<in> set (own ?g p')) \<longleftrightarrow> (\<exists>p'. q \<in> set (own g p'))"
      proof
        assume "\<exists>p'. q \<in> set (own ?g p')"
        then obtain p' where p': "q \<in> set (own ?g p')" by blast
        then have "p' \<noteq> p" using set True by auto
        then show "\<exists>p'. q \<in> set (own g p')" using p' by auto
      next
        assume "\<exists>p'. q \<in> set (own g p')"
        then obtain p' where p': "q \<in> set (own g p')" by blast
        then have "p' \<noteq> p" using own by auto
        then have "q \<in> set (own ?g p')" using p' by simp
        then show "\<exists>p'. q \<in> set (own ?g p')" by blast
      qed
      then show ?thesis using o True by (simp add: owned_ok_def last)
    next
      case False
      have "(\<exists>p'. q \<in> set (own ?g p')) \<longleftrightarrow> q \<in> set (own ?g p)"
      proof
        assume "\<exists>p'. q \<in> set (own ?g p')"
        then obtain p' where p': "q \<in> set (own ?g p')" by blast
        then have "p' = p" using other [of q p'] False by (cases "p' = p") simp_all
        then show "q \<in> set (own ?g p)" using p' by simp
      qed blast
      also have "\<dots> \<longleftrightarrow> q < ?a + int (length vs)" using False by (simp only: set atLeastLessThan_iff) linarith
      finally show ?thesis using False pub [of q] first unfolding last by (simp; linarith)
    qed
    ultimately show ?thesis by (simp only: owned_ok_def) blast
  qed
  moreover have "producer_ok k ?s ?g p' (p_pc ?s p')" for p'
  proof (cases "p' = p")
    case True
    have "claim_ok k ?s ?g p ?a r vs" using n r words new by (simp add: claim_ok_def words_ok_def)
    moreover have "target_ok k ?a vs tgt" using words k
      by (simp add: target_ok_def tgt r words_ok_def buffer_size_def mask mask_eq_exp_minus_1 algebra_simps)
    moreover have "?a + int (length vs) - released g \<le> 2 ^ 62" using near len by simp
    ultimately show ?thesis using True by auto
  next
    case False
    have "producer_ok k s g p' (p_pc s p')" by (rule ring_ok_producer [OF ok])
    then have "producer_ok k ?s ?g p' (p_pc s p')"
      by (rule producer_frame) (use False owned_pos [OF ok] old in auto)
    then show ?thesis using False by simp
  qed
  moreover have "consumer_ok k ?s ?g"
  proof -
    have "reading g \<le> found g + 1" using ok by (simp add: ring_ok_def consumer_ok_def)
    then have "nat (reading g - first_pos g) \<le> length (items s)"
      using found_last [OF ok] by (simp add: last_pos_def nat_le_iff)
    then show ?thesis using ok by (cases "c_pc s") (simp_all add: ring_ok_def consumer_ok_def)
  qed
  ultimately show ?thesis using k by (simp add: ring_ok_def)
qed

lemma ring_ok_look:
  assumes ok: "ring_ok k s g" and at: "p_pc s p = P_claimed r tgt vs \<or> (\<exists>known. p_pc s p = P_waiting r tgt known vs)"
  shows "ring_ok k (ring_look p r tgt vs s) g"
proof (rule producer_step [OF ok])
  have words: "m_consumer_published (sequencer s) = num (released g)" using ok by (simp add: ring_ok_def words_ok_def)
  obtain a where "claim_ok k s g p a r vs" "target_ok k a vs tgt" "a + int (length vs) - released g \<le> 2 ^ 62"
    using at
  proof
    assume "p_pc s p = P_claimed r tgt vs"
    then show thesis using that ring_ok_producer [OF ok, of p] by auto
  next
    assume "\<exists>known. p_pc s p = P_waiting r tgt known vs"
    then obtain known where "p_pc s p = P_waiting r tgt known vs" by blast
    then obtain a l where "claim_ok k s g p a r vs" "target_ok k a vs tgt" "l \<le> released g" "a + int (length vs) - l \<le> 2 ^ 62"
      using ring_ok_producer [OF ok, of p] by auto
    moreover from this have "a + int (length vs) - released g \<le> 2 ^ 62" by linarith
    ultimately show thesis using that by blast
  qed
  then show "producer_ok k (ring_look p r tgt vs s) g p (P_waiting r tgt (m_consumer_published (sequencer s)) vs)"
    using words claim_ok_cells [of "ring_look p r tgt vs s" s] unfolding producer_ok.simps
    by (intro exI [of _ a] exI [of _ "released g"]) (simp add: ring_look_def)
qed (simp_all add: ring_look_def)

lemma wait_near:
  fixes l :: int
  assumes "l \<le> c" "a + n - l \<le> 2 ^ 62" "1 \<le> z" "z \<le> 2 ^ 60" "c < a" "0 \<le> n"
  shows "\<bar>l - (a + n - 1 - z)\<bar> < 2 ^ 63"
proof -
  have "l - (a + n - 1 - z) \<le> 2 ^ 60" "- (2 ^ 62) \<le> l - (a + n - 1 - z)" using assms by linarith+
  then show ?thesis by simp
qed

lemma ring_ok_ready:
  assumes ok: "ring_ok k s g" and at: "p_pc s p = P_waiting r tgt known vs"
  shows "ring_ok k (ring_ready p r tgt known vs s) g"
proof (cases "precedes known tgt")
  case True
  then show ?thesis using ring_ok_look [OF ok] at by (simp add: ring_ready_def)
next
  case False
  obtain a l where a: "claim_ok k s g p a r vs" "target_ok k a vs tgt" "known = num l" "l \<le> released g"
      "a + int (length vs) - l \<le> 2 ^ 62"
    using ring_ok_producer [OF ok, of p] at by auto
  have k: "(2::int) ^ k \<le> 2 ^ 60" using lap_bound ok by (simp add: ring_ok_def)
  have "\<bar>l - (a + int (length vs) - 1 - 2 ^ k)\<bar> < 2 ^ 63"
    by (rule wait_near) (use a(4,5) k claim_pos(1) [OF ok a(1)] in simp_all)
  from precedes_positions [OF this] have "a + int (length vs) - 1 \<le> released g + 2 ^ k"
    using False a(2-4) by (simp add: target_ok_def)
  then have step: "producer_ok k (p_go p (P_writing r 0 vs) s) g p (P_writing r 0 vs)"
    using a(1) claim_ok_cells [of "p_go p (P_writing r 0 vs) s" s] unfolding producer_ok.simps
    by (intro exI [of _ a]) simp
  have "ring_ok k (p_go p (P_writing r 0 vs) s) g" by (rule producer_step [OF ok _ _ _ _ _ _ _ step]) simp_all
  with False show ?thesis by (simp add: ring_ready_def)
qed

lemma cell_of_claim:
  assumes "ring_ok k s g" "claim_ok k s g p a r vs"
  shows "cell_of s (range_nth r (of_nat i)) = cell k (a + int i)"
  using assms by (simp add: cell_of_def range_nth_def claim_ok_def ring_ok_def words_ok_def mp_ok_def)

lemma ring_ok_write:
  assumes ok: "ring_ok k s g" and at: "p_pc s p = P_writing r i vs" and i: "i < length vs"
  shows "ring_ok k (ring_write p r i vs s) g"
proof -
  obtain a where a: "claim_ok k s g p a r vs" "a + int (length vs) - 1 \<le> released g + 2 ^ k"
      "\<forall>j<i. cells s (cell k (a + int j)) = vs ! j"
    using ring_ok_producer [OF ok, of p] at by auto
  have k: "k \<le> 60" using ok by (simp add: ring_ok_def)
  note cell = cell_of_claim [OF ok a(1), of i]
  have differ: "cell k (a + int j) \<noteq> cell k (a + int i)" if "j < i" for j
  proof (rule cell_neq [OF k])
    have "int i < 2 ^ k" using i a(1) by (simp add: claim_ok_def)
    then show "\<bar>a + int j - (a + int i)\<bar> < 2 ^ k" using that by linarith
  qed (use that in simp)
  have "claim_ok k (ring_write p r i vs s) g p a r vs"
    using claim_ok_cells [of "ring_write p r i vs s" s] a(1) i by (simp add: ring_write_def)
  moreover have "cells (ring_write p r i vs s) (cell k (a + int j)) = vs ! j" if "j < Suc i" for j
    using that a(3) differ [of j] i by (cases "j = i") (auto simp: ring_write_def cell)
  ultimately have step: "producer_ok k (ring_write p r i vs s) g p (P_writing r (Suc i) vs)"
    using a(2) i unfolding producer_ok.simps by (intro exI [of _ a]) simp
  have "a + int i \<in> set (own g p)" "a + int i \<le> released g + 2 ^ k"
    using claim_own [OF a(1) i] a(2) i by simp_all
  then have mine: "\<exists>q\<in>set (own g p). q \<le> released g + 2 ^ k \<and> x = cell k q"
    if "cells (ring_write p r i vs s) x \<noteq> cells s x" for x
    using that i cell by (intro bexI [of _ "a + int i"]) (auto simp: ring_write_def split: if_splits)
  show ?thesis by (rule producer_step [OF ok _ _ _ _ _ _ mine step]) (simp_all add: ring_write_def i)
qed

text \<open>A producer that has written its cells owns them in the order in which it will publish them.\<close>

lemma publish_order_claim:
  assumes k: "k \<le> 60" and a: "claim_ok k s g p a r vs"
  shows "publish_order r = map num (map (\<lambda>i. a + int i) [1..<length vs] @ [a])"
proof -
  define n where "n = length vs"
  have n: "1 \<le> n" "n \<le> 2 ^ k" using a by (auto simp: claim_ok_def n_def Suc_le_eq)
  have r: "r = \<lparr>m_begin = num a, m_end = num (a + int n)\<rparr>"
    using a by (cases r) (simp add: claim_ok_def n_def)
  have "(2::nat) ^ k < 2 ^ 64" using k by (intro power_strict_increasing) auto
  then have "unat (of_nat n :: u64) = n" using n(2) by (subst unat_of_nat) (rule mod_less, simp)
  moreover have "range_size r = of_nat n" using a by (simp add: range_size_eq claim_ok_def n_def)
  ultimately have size: "range_size r = of_nat n" "unat (range_size r) = n" by simp_all
  then have "1 \<le> range_size r" using n by (simp add: word_le_nat_alt)
  then have skip: "range_skip r 1 = \<lparr>m_begin = num (a + 1), m_end = num (a + int n)\<rparr>"
    by (simp add: range_skip_def Let_def min_def r)
  have "unat (range_size (range_skip r 1)) = n - 1"
  proof -
    have "range_size (range_skip r 1) = range_size r - 1" by (simp add: skip size(1)) (simp add: range_size_eq)
    then show ?thesis using size n \<open>1 \<le> range_size r\<close> by (simp add: unat_sub)
  qed
  then have "range_elements (range_skip r 1) = map (\<lambda>i. num (a + 1) + of_nat i) [0..<n - 1]"
    by (simp add: range_elements_map skip)
  also have "\<dots> = map num (map (\<lambda>i. a + int i) [1..<n])"
    by (rule nth_equalityI) (simp_all add: algebra_simps)
  finally have "range_elements (range_skip r 1) = map num (map (\<lambda>i. a + int i) [1..<n])" .
  moreover have "\<not> range_empty r" using size n by (auto simp: range_empty_def range_size_eq)
  ultimately show ?thesis by (simp add: publish_order_def range_front_def r n_def)
qed

lemma ring_ok_written:
  assumes ok: "ring_ok k s g" and at: "p_pc s p = P_writing r i vs" and i: "\<not> i < length vs"
  shows "ring_ok k (ring_write p r i vs s) g"
proof -
  obtain a where a: "claim_ok k s g p a r vs" "a + int (length vs) - 1 \<le> released g + 2 ^ k" "i \<le> length vs"
      "\<forall>j<i. cells s (cell k (a + int j)) = vs ! j"
    using ring_ok_producer [OF ok, of p] at by auto
  have k: "k \<le> 60" using ok by (simp add: ring_ok_def)
  let ?qs = "map (\<lambda>i. a + int i) [1..<length vs] @ [a]"
  have own: "own g p = map (\<lambda>i. a + int i) [0..<length vs]" and vs: "0 < length vs" using a(1) by (simp_all add: claim_ok_def)
  have "[0..<length vs] = 0 # [1..<length vs]" using vs by (simp add: upt_conv_Cons)
  then have "set ?qs = set (own g p)" unfolding own by auto
  moreover have "distinct ?qs" by (auto simp: distinct_map inj_on_def)
  moreover have "q \<le> released g + 2 ^ k \<and> cells s (cell k q) = item s g q" if q: "q \<in> set (own g p)" for q
  proof -
    obtain j where j: "j < length vs" "q = a + int j" using q unfolding own by auto
    then show ?thesis using a i by (simp add: claim_ok_def)
  qed
  ultimately have step: "producer_ok k (ring_write p r i vs s) g p (P_publishing (publish_order r))"
    using i unfolding producer_ok.simps publish_order_claim [OF k a(1)]
    by (intro conjI exI [of _ ?qs]) (simp_all add: ring_write_def item_def)
  show ?thesis by (rule producer_step [OF ok _ _ _ _ _ _ _ step]) (simp_all add: ring_write_def i)
qed

lemma ring_ok_published:
  assumes ok: "ring_ok k s g" and at: "p_pc s p = P_publishing (seq # rest)"
  shows "\<exists>g'. ring_ok k (ring_publish p (seq # rest) s) g'"
proof -
  obtain q qs where qs: "distinct (q # qs)" "set (q # qs) = set (own g p)" "seq = num q" "rest = map num qs"
      and cells: "\<forall>q\<in>set (own g p). q \<le> released g + 2 ^ k \<and> cells s (cell k q) = item s g q"
    using ring_ok_producer [OF ok, of p] at by (auto simp: Cons_eq_map_conv)
  define g' where "g' = g\<lparr>pub := insert q (pub g), own := (own g)(p := remove1 q (own g p))\<rparr>"
  define s' where "s' = ring_publish p (seq # rest) s"
  have k: "k \<le> 60" and words: "words_ok k s g" and pub: "published_ok k s g" and owned: "owned_ok s g"
    using ok by (simp_all add: ring_ok_def)
  have q: "q \<in> set (own g p)" using qs(2) by auto
  note qpos = owned_pos [OF ok q]
  have mp: "m_sequence_mask (sequencer s) = mask k" "length (m_published (sequencer s)) = 2 ^ k"
    using words by (simp_all add: words_ok_def mp_ok_def)
  have s': "items s' = items s" "consumed s' = consumed s" "c_next s' = c_next s" "c_pc s' = c_pc s" "cells s' = cells s"
      "p_pc s' = (p_pc s)(p := P_publishing rest)" "sequencer s' = store_published seq (sequencer s)"
    by (simp_all add: s'_def ring_publish_def)
  have entries: "m_published (sequencer s') = (m_published (sequencer s))[cell k q := num q]"
    by (simp add: s' store_published_def mp qs)
  have g': "first_pos g' = first_pos g" "released g' = released g" "pub g' = insert q (pub g)" "found g' = found g"
      "reading g' = reading g" "own g' = (own g)(p := remove1 q (own g p))"
    by (simp_all add: g'_def)
  have same: "last_pos s' g' = last_pos s g" "item s' g' x = item s g x" for x
    by (simp_all add: last_pos_def item_def s' g')
  have setown: "set (own g' p') = set (own g p') - {q}" for p'
    using owned owned_other [OF ok _ q, of p'] by (cases "p' = p") (auto simp: g' owned_ok_def)
  have "words_ok k s' g'" using words unfolding words_ok_def same g' by (simp add: s' store_published_def mp_ok_def)
  moreover have "published_ok k s' g'"
  proof -
    have "m_published (sequencer s') ! cell k x = num (if x \<in> pub g' then x else x - 2 ^ k)"
      if "released g < x" "x \<le> released g + 2 ^ k" for x
    proof (cases "x = q")
      case True
      then show ?thesis using cell_less [OF k, of q] mp by (simp add: entries g')
    next
      case False
      then have "cell k q \<noteq> cell k x" using that qpos cells q by (intro cell_neq [OF k]) auto
      then show ?thesis using pub that False by (simp add: entries g' published_ok_def)
    qed
    then show ?thesis using pub cells q qpos unfolding published_ok_def same g' by (simp add: s')
  qed
  moreover have "owned_ok s' g'"
  proof -
    have "distinct (own g' p')" for p' using owned by (simp add: g' owned_ok_def)
    moreover have "set (own g' p') \<inter> set (own g' p'') = {}" if "p' \<noteq> p''" for p' p''
      using owned that unfolding setown owned_ok_def by blast
    moreover have "(\<exists>p'. x \<in> set (own g' p')) \<longleftrightarrow> first_pos g' \<le> x \<and> x < last_pos s' g' \<and> x \<notin> pub g'" for x
    proof -
      have "(\<exists>p'. x \<in> set (own g p')) \<longleftrightarrow> first_pos g \<le> x \<and> x < last_pos s g \<and> x \<notin> pub g"
        using owned by (simp add: owned_ok_def)
      then show ?thesis unfolding setown same g'(1,3) by auto
    qed
    ultimately show ?thesis by (simp only: owned_ok_def) blast
  qed
  moreover have "producer_ok k s' g' p' (p_pc s' p')" for p'
  proof (cases "p' = p")
    case True
    have "distinct qs \<and> set qs = set (own g' p) \<and> rest = map num qs" using qs setown by auto
    moreover have "\<forall>x\<in>set (own g' p). x \<le> released g' + 2 ^ k \<and> cells s' (cell k x) = item s' g' x"
      using cells unfolding setown same g'(2) by (simp add: s')
    ultimately have "producer_ok k s' g' p (P_publishing rest)" unfolding producer_ok.simps by blast
    then show ?thesis using True s' by simp
  next
    case False
    have "producer_ok k s' g' p' (p_pc s p')"
      by (rule producer_frame [OF ring_ok_producer [OF ok]]) (use False in \<open>simp_all add: g' s' same\<close>)
    then show ?thesis using False s' by simp
  qed
  moreover have "consumer_ok k s' g'" using ok unfolding ring_ok_def consumer_ok_def g' by (simp add: s')
  ultimately show ?thesis using k unfolding s'_def ring_ok_def by blast
qed

text \<open>What the consumer's loop finds at the next entry.\<close>

lemma published_entry:
  "published_ok k s g \<Longrightarrow> released g < q \<Longrightarrow> q \<le> released g + 2 ^ k \<Longrightarrow>
    m_published (sequencer s) ! cell k q = num (if q \<in> pub g then q else q - 2 ^ k)"
  unfolding published_ok_def by blast

lemma next_published:
  assumes ok: "ring_ok k s g"
  shows "published (sequencer s) (num (found g) + 1) \<longleftrightarrow> found g + 1 \<le> released g + 2 ^ k \<and> found g + 1 \<in> pub g"
proof -
  have k: "k \<le> 60" and mask: "m_sequence_mask (sequencer s) = mask k" and pub: "published_ok k s g" and con: "consumer_ok k s g"
    using ok by (simp_all add: ring_ok_def words_ok_def mp_ok_def)
  have lap: "(1::int) \<le> 2 ^ k" "(2::int) ^ k \<le> 2 ^ 60" using lap_bound [OF k] by simp_all
  have entry: "published (sequencer s) (num (found g) + 1) \<longleftrightarrow> m_published (sequencer s) ! cell k (found g + 1) = num (found g + 1)"
    by (simp add: published_def mask)
  have differ: "num (x - 2 ^ k) \<noteq> num x" for x
    using num_eq [of "x - 2 ^ k" x] lap by simp
  show ?thesis
  proof (cases "found g + 1 \<le> released g + 2 ^ k")
    case True
    then have "m_published (sequencer s) ! cell k (found g + 1) = num (if found g + 1 \<in> pub g then found g + 1 else found g + 1 - 2 ^ k)"
      using found_last [OF ok] by (intro published_entry [OF pub _ True]) simp
    then show ?thesis using True differ [of "found g + 1"] unfolding entry by (cases "found g + 1 \<in> pub g") (simp_all only: if_True if_False refl simp_thms)
  next
    case False
    then have f: "found g = released g + 2 ^ k" using con by (simp add: consumer_ok_def)
    then have "released g + 1 \<in> pub g" using con lap by (simp add: consumer_ok_def)
    moreover have "cell k (found g + 1) = cell k (released g + 1)" using cell_lap [OF k, of "found g + 1"] f by simp
    ultimately have "m_published (sequencer s) ! cell k (found g + 1) = num (released g + 1)"
      using published_entry [OF pub, of "released g + 1"] lap by simp
    then show ?thesis using False differ [of "found g + 1"] f unfolding entry by simp
  qed
qed

text \<open>Steps of the consumer leave the producers alone.\<close>

lemma consumer_step:
  assumes ok: "ring_ok k s g" and s': "sequencer s' = sequencer s" "items s' = items s" "cells s' = cells s" "p_pc s' = p_pc s"
    and g': "first_pos g' = first_pos g" "released g' = released g" "pub g' = pub g" "own g' = own g"
    and c: "consumer_ok k s' g'"
  shows "ring_ok k s' g'"
proof -
  have same: "last_pos s' g' = last_pos s g" "item s' g' x = item s g x" for x
    by (simp_all add: last_pos_def item_def s' g')
  have "producer_ok k s' g' p (p_pc s' p)" for p
    unfolding s'(4) by (rule producer_frame [OF ring_ok_producer [OF ok]]) (simp_all add: g' s' same)
  then show ?thesis using ok c
    unfolding ring_ok_def words_ok_def published_ok_def owned_ok_def same g' s' by blast
qed

lemma ring_ok_scan:
  assumes ok: "ring_ok k s g" and at: "c_pc s = C_scan known"
  shows "\<exists>g'. ring_ok k (ring_scan known s) g'"
proof -
  have con: "consumer_ok k s g" and known: "known = num (found g)" using ok at by (simp_all add: ring_ok_def consumer_ok_def)
  show ?thesis
  proof (cases "published (sequencer s) (known + 1)")
    case True
    have "found g + 1 \<le> released g + 2 ^ k \<and> found g + 1 \<in> pub g" using next_published [OF ok] True known by simp
    then have "consumer_ok k (ring_scan known s) (g\<lparr>found := found g + 1\<rparr>)"
      using con True known by (auto simp: consumer_ok_def ring_scan_def) (metis add.commute zle_add1_eq_le order_le_less)
    then have "ring_ok k (ring_scan known s) (g\<lparr>found := found g + 1\<rparr>)"
      by (intro consumer_step [OF ok]) (simp_all add: ring_scan_def)
    then show ?thesis by blast
  next
    case False
    have "consumer_ok k (ring_scan known s) g" using con False known by (simp add: consumer_ok_def ring_scan_def)
    then have "ring_ok k (ring_scan known s) g" by (intro consumer_step [OF ok]) (simp_all add: ring_scan_def)
    then show ?thesis by blast
  qed
qed

text \<open>What is read is the item of its number.\<close>

lemma next_item:
  assumes ok: "ring_ok k s g" and ne: "reading g \<noteq> found g + 1"
  shows "reading g \<in> pub g" "cells s (cell_of s (c_next s)) = items s ! nat (reading g - first_pos g)"
    "nat (reading g - first_pos g) < length (items s)" "first_pos g \<le> reading g"
proof -
  have con: "consumer_ok k s g" and mask: "m_sequence_mask (sequencer s) = mask k" and pub: "published_ok k s g"
    using ok by (simp_all add: ring_ok_def words_ok_def mp_ok_def)
  show in_pub: "reading g \<in> pub g" using con ne by (simp add: consumer_ok_def)
  then show first: "first_pos g \<le> reading g" using pub by (simp add: published_ok_def)
  have "cells s (cell k (reading g)) = item s g (reading g)" using in_pub pub con by (simp add: published_ok_def consumer_ok_def)
  then show "cells s (cell_of s (c_next s)) = items s ! nat (reading g - first_pos g)"
    using con by (simp add: cell_of_def mask consumer_ok_def item_def)
  have "reading g < last_pos s g" using in_pub pub by (simp add: published_ok_def)
  then show "nat (reading g - first_pos g) < length (items s)" using first by (simp add: last_pos_def nat_less_iff)
qed

lemma c_next_found:
  assumes ok: "ring_ok k s g"
  shows "c_next s = num (found g) + 1 \<longleftrightarrow> reading g = found g + 1"
proof -
  have con: "consumer_ok k s g" and k: "(2::int) ^ k \<le> 2 ^ 60" using ok lap_bound by (simp_all add: ring_ok_def)
  have "\<bar>reading g - (found g + 1)\<bar> < 2 ^ 63" using con k unfolding consumer_ok_def by (simp add: abs_less_iff)
  from num_eq [OF this] show ?thesis using con by (simp add: consumer_ok_def)
qed

lemma ring_ok_read:
  assumes ok: "ring_ok k s g" and at: "c_pc s = C_read known"
  shows "\<exists>g'. ring_ok k (ring_read known s) g'"
proof -
  have con: "consumer_ok k s g" and known: "known = num (found g)" using ok at by (simp_all add: ring_ok_def consumer_ok_def)
  show ?thesis
  proof (cases "c_next s = known + 1")
    case True
    have "consumer_ok k (ring_read known s) g" using con True known by (simp add: consumer_ok_def ring_read_def)
    then have "ring_ok k (ring_read known s) g" by (intro consumer_step [OF ok]) (simp_all add: ring_read_def)
    then show ?thesis by blast
  next
    case False
    then have ne: "reading g \<noteq> found g + 1" using c_next_found [OF ok] known by simp
    note item = next_item [OF ok ne]
    have "nat (reading g + 1 - first_pos g) = Suc (nat (reading g - first_pos g))" using item(4) by simp
    then have "consumed (ring_read known s) = take (nat (reading g + 1 - first_pos g)) (items s)"
      using con False item(2,3) by (simp add: ring_read_def consumer_ok_def take_Suc_conv_app_nth)
    moreover have "reading g + 1 \<le> found g + 1" using ne con by (simp add: consumer_ok_def)
    ultimately have "consumer_ok k (ring_read known s) (g\<lparr>reading := reading g + 1\<rparr>)"
      using con False at known by (simp add: consumer_ok_def ring_read_def)
    then have "ring_ok k (ring_read known s) (g\<lparr>reading := reading g + 1\<rparr>)"
      by (intro consumer_step [OF ok]) (simp_all add: ring_read_def False)
    then show ?thesis by blast
  qed
qed

lemma ring_ok_release:
  assumes ok: "ring_ok k s g"
  shows "ring_ok k (ring_release s) (g\<lparr>released := reading g - 1\<rparr>)" (is "ring_ok k ?s ?g")
proof -
  have k: "k \<le> 60" and words: "words_ok k s g" and pub: "published_ok k s g" and con: "consumer_ok k s g" and own: "owned_ok s g"
    using ok by (simp_all add: ring_ok_def)
  have c: "released g \<le> reading g - 1" "reading g - 1 \<le> found g" "found g \<le> released g + 2 ^ k"
    using con by (simp_all add: consumer_ok_def)
  have seen: "q \<in> pub g" if "released g < q" "q \<le> found g" for q using con that by (simp add: consumer_ok_def)
  have same: "last_pos ?s ?g = last_pos s g" "item ?s ?g q = item s g q" for q
    by (simp_all add: last_pos_def item_def ring_release_def)
  have "words_ok k ?s ?g"
    using words con c(1) unfolding words_ok_def same by (simp add: ring_release_def mp_ok_def consumer_ok_def)
  moreover have "published_ok k ?s ?g"
  proof -
    have "m_published (sequencer s) ! cell k q = num (if q \<in> pub g then q else q - 2 ^ k)"
      if q: "reading g - 1 < q" "q \<le> reading g - 1 + 2 ^ k" for q
    proof (cases "q \<le> released g + 2 ^ k")
      case True
      then show ?thesis using published_entry [OF pub] q c(1) by simp
    next
      case False
      then have "q \<notin> pub g" using pub by (auto simp: published_ok_def)
      moreover have "q - 2 ^ k \<in> pub g" using False q c by (intro seen) simp_all
      moreover have "m_published (sequencer s) ! cell k (q - 2 ^ k) = num (if q - 2 ^ k \<in> pub g then q - 2 ^ k else q - 2 ^ k - 2 ^ k)"
        using False q c zero_less_power [of "2::int" k] by (intro published_entry [OF pub]) linarith+
      ultimately show ?thesis using cell_lap [OF k, of q] by (simp only: if_True if_False simp_thms)
    qed
    then have 1: "\<forall>q. released ?g < q \<and> q \<le> released ?g + 2 ^ k \<longrightarrow>
        m_published (sequencer ?s) ! cell k q = num (if q \<in> pub ?g then q else q - 2 ^ k)"
      by (simp add: ring_release_def)
    have "first_pos g \<le> q \<and> q \<le> reading g - 1 + 2 ^ k \<and> q < last_pos s g" if "q \<in> pub g" for q
    proof -
      have "first_pos g \<le> q \<and> q \<le> released g + 2 ^ k \<and> q < last_pos s g" using pub that by (simp add: published_ok_def)
      then show ?thesis using c(1) by linarith
    qed
    then have 2: "\<forall>q\<in>pub ?g. first_pos ?g \<le> q \<and> q \<le> released ?g + 2 ^ k \<and> q < last_pos ?s ?g"
      unfolding same by simp
    have "q \<in> pub g" if "first_pos g \<le> q" "q \<le> reading g - 1" for q
      using pub seen [of q] that c by (cases "q \<le> released g") (simp_all add: published_ok_def)
    then have 3: "\<forall>q. first_pos ?g \<le> q \<and> q \<le> released ?g \<longrightarrow> q \<in> pub ?g" by simp
    have "cells s (cell k q) = item s g q" if "q \<in> pub g" "reading g - 1 < q" for q
      using pub that c(1) by (simp add: published_ok_def)
    then have 4: "\<forall>q\<in>pub ?g. released ?g < q \<longrightarrow> cells ?s (cell k q) = item ?s ?g q"
      unfolding same by (simp add: ring_release_def)
    show ?thesis unfolding published_ok_def using 1 2 3 4 by blast
  qed
  moreover have "owned_ok ?s ?g" using own unfolding owned_ok_def same by simp
  moreover have "producer_ok k ?s ?g p (p_pc ?s p)" for p
  proof -
    have "producer_ok k ?s ?g p (p_pc s p)"
      by (rule producer_frame [OF ring_ok_producer [OF ok]]) (use c(1) same in \<open>simp_all add: ring_release_def\<close>)
    then show ?thesis by (simp add: ring_release_def)
  qed
  moreover have "consumer_ok k ?s ?g"
    using con c by (cases "c_pc s") (simp_all add: consumer_ok_def ring_release_def)
  ultimately show ?thesis using k by (simp add: ring_ok_def)
qed

lemma claim_count_bound:
  assumes ok: "ring_ok k s g" and n: "count \<noteq> 0"
  shows "0 < unat (claim_count (sequencer s) count)" "unat (claim_count (sequencer s) count) \<le> 2 ^ k"
proof -
  have k: "k \<le> 60" and mask: "m_sequence_mask (sequencer s) = mask k"
    using ok by (simp_all add: ring_ok_def words_ok_def mp_ok_def)
  have "(2::nat) ^ k < 2 ^ 64" using k by (intro power_strict_increasing) auto
  then have "unat (of_nat (2 ^ k) :: u64) = 2 ^ k" by (subst unat_of_nat) (rule mod_less, simp)
  then have size: "unat (buffer_size (sequencer s)) = 2 ^ k" by (simp add: buffer_size_def mask mask_eq_exp_minus_1)
  then have "buffer_size (sequencer s) \<noteq> 0" by auto
  then show "0 < unat (claim_count (sequencer s) count)" using n by (simp add: claim_count_def unat_gt_0)
  show "unat (claim_count (sequencer s) count) \<le> 2 ^ k"
    using size by (simp add: claim_count_def word_less_nat_alt less_imp_le)
qed

lemma ring_inv_step: "ring_inv s \<Longrightarrow> ring_step s t \<Longrightarrow> ring_inv t"
proof -
  assume "ring_inv s" and step: "ring_step s t"
  then obtain k g where ok: "ring_ok k s g" by (auto simp: ring_inv_def)
  from step show "ring_inv t"
  proof cases
    case (rs_claim_one p v)
    have "ring_ok k t (g\<lparr>own := (own g)(p := map (\<lambda>i. last_pos s g + int i) [0..<length [v]])\<rparr>)"
      unfolding rs_claim_one(1) ring_claim_one_def claim_one_def Let_def prod.case
      by (rule ring_ok_claim [OF ok rs_claim_one(2,3)]) simp_all
    then show ?thesis unfolding ring_inv_def by blast
  next
    case (rs_claim_up_to p count vs)
    note n = claim_count_bound [OF ok rs_claim_up_to(4)]
    have len: "of_nat (length vs) = claim_count (sequencer s) count" using rs_claim_up_to(5) by simp
    have "ring_ok k t (g\<lparr>own := (own g)(p := map (\<lambda>i. last_pos s g + int i) [0..<length vs])\<rparr>)"
      unfolding rs_claim_up_to(1) ring_claim_up_to_def claim_up_to_def Let_def prod.case
      by (rule ring_ok_claim [OF ok rs_claim_up_to(2,3)])
        (use n rs_claim_up_to(5) len in \<open>auto simp: range_back_def\<close>)
    then show ?thesis unfolding ring_inv_def by blast
  next
    case (rs_look p r tgt vs)
    then show ?thesis using ring_ok_look [OF ok] unfolding ring_inv_def by blast
  next
    case (rs_ready p r tgt known vs)
    then show ?thesis using ring_ok_ready [OF ok] unfolding ring_inv_def by blast
  next
    case (rs_write p r i vs)
    then show ?thesis using ring_ok_write [OF ok] ring_ok_written [OF ok] unfolding ring_inv_def by blast
  next
    case (rs_publish p seqs)
    show ?thesis
    proof (cases seqs)
      case Nil
      have step: "producer_ok k (ring_publish p [] s) g p P_idle"
        using ring_ok_producer [OF ok, of p] rs_publish(2) Nil by auto
      have "ring_ok k (ring_publish p [] s) g"
        by (rule producer_step [OF ok _ _ _ _ _ _ _ step]) (simp_all add: ring_publish_def)
      then show ?thesis using rs_publish Nil unfolding ring_inv_def by blast
    next
      case (Cons seq rest)
      then show ?thesis using ring_ok_published [OF ok, of p seq rest] rs_publish unfolding ring_inv_def by blast
    qed
  next
    case (rs_scan known)
    then show ?thesis using ring_ok_scan [OF ok] unfolding ring_inv_def by blast
  next
    case (rs_read known)
    then show ?thesis using ring_ok_read [OF ok] unfolding ring_inv_def by blast
  next
    case rs_release
    then show ?thesis using ring_ok_release [OF ok] unfolding ring_inv_def by blast
  qed
qed

lemma ring_inv_init: "ring_init s \<Longrightarrow> ring_inv s"
proof -
  assume "ring_init s"
  then obtain k init_seq cs where k: "k \<le> 60" and s: "s = ring_new (2 ^ k) init_seq cs" by (auto simp: ring_init_def)
  define i where "i = uint init_seq"
  have seq: "init_seq = num i" by (simp add: i_def)
  let ?g = "\<lparr>first_pos = i + 1, released = i, pub = {}, own = (\<lambda>_. []), found = i, reading = i + 1\<rparr>"
  let ?m = "multi_producer_new init_seq (2 ^ k) init_seq"
  have lap: "(1::int) \<le> 2 ^ k" using lap_bound [OF k] by simp
  have "(2::nat) ^ k < 2 ^ 64" using k by (intro power_strict_increasing) auto
  then have "unat (of_nat (2 ^ k) :: u64) = 2 ^ k" by (subst unat_of_nat) (rule mod_less, simp)
  then have len: "unat (2 ^ k :: u64) = 2 ^ k" by simp
  have "m_published ?m ! cell k q = num (q - 2 ^ k)" if "i < q" "q \<le> i + 2 ^ k" for q
  proof -
    have start: "init_seq - (2 ^ k - 1) = num (i - (2 ^ k - 1))" by (simp add: seq)
    have "init_published (mask k) (num i) (num (i - (2 ^ k - 1))) (replicate (2 ^ k) 0) ! cell k (q - 2 ^ k) = num (q - 2 ^ k)"
      using that lap by (intro init_published_entry [OF k]) simp_all
    then have "init_published (mask k) init_seq (init_seq - (2 ^ k - 1)) (replicate (2 ^ k) 0) ! cell k q = num (q - 2 ^ k)"
      unfolding cell_lap [OF k] start unfolding seq .
    then show ?thesis by (simp add: multi_producer_new_def len mask_eq_exp_minus_1)
  qed
  then have "published_ok k s ?g" by (simp add: published_ok_def s ring_new_def)
  moreover have "words_ok k s ?g"
    using mp_ok_new [OF k, of init_seq init_seq] by (simp add: words_ok_def s ring_new_def last_pos_def multi_producer_new_def seq)
  moreover have "owned_ok s ?g" by (simp add: owned_ok_def s ring_new_def last_pos_def)
  moreover have "consumer_ok k s ?g" using lap by (simp add: consumer_ok_def s ring_new_def seq)
  moreover have "producer_ok k s ?g p (p_pc s p)" for p by (simp add: s ring_new_def)
  ultimately show ?thesis using k unfolding ring_inv_def ring_ok_def by blast
qed

interpretation ring_sys: invariant_system ring_init ring_step ring_inv
  by unfold_locales (auto intro: ring_inv_init ring_inv_step)

section \<open>A run\<close>

text \<open>The steps as functions, for runs given by a list of who moves.\<close>

datatype 'v ring_move = Claims nat 'v | Produces nat | Consumes | Releases

fun move_ring :: "'v ring_move \<Rightarrow> 'v ring \<Rightarrow> 'v ring" where
  "move_ring (Claims p v) s = (if p_pc s p = P_idle \<and> claim_bound s then ring_claim_one p v s else s)"
| "move_ring (Produces p) s =
     (case p_pc s p of
        P_idle \<Rightarrow> s
      | P_claimed r tgt vs \<Rightarrow> ring_look p r tgt vs s
      | P_waiting r tgt known vs \<Rightarrow> ring_ready p r tgt known vs s
      | P_writing r i vs \<Rightarrow> ring_write p r i vs s
      | P_publishing seqs \<Rightarrow> ring_publish p seqs s)"
| "move_ring Consumes s = (case c_pc s of C_scan known \<Rightarrow> ring_scan known s | C_read known \<Rightarrow> ring_read known s)"
| "move_ring Releases s = ring_release s"

abbreviation ring_reachable :: "'v ring \<Rightarrow> bool" where
  "ring_reachable \<equiv> reachable ring_init ring_step"

lemma ring_moves_reachable: "ring_reachable s \<Longrightarrow> ring_reachable (fold move_ring ms s)"
proof (induction ms arbitrary: s)
  case (Cons m ms)
  have "ring_reachable (move_ring m s)"
    using Cons.prems
    by (cases m) (auto intro: reachable_step ring_step.intros split: producer_pc.split consumer_pc.split)
  then show ?case using Cons.IH by simp
qed simp

text \<open>Two slots; producer 1 publishes before producer 0, whose number comes first.\<close>

definition demo_ring :: "nat ring" where
  "demo_ring = ring_new 2 initial_sequence (\<lambda>_. 0)"

definition both_writing :: "nat ring_move list" where
  "both_writing = [Claims 0 7, Claims 1 8, Produces 1, Produces 0, Produces 1, Produces 0]"

definition second_published :: "nat ring_move list" where
  "second_published = [Produces 1, Produces 1, Produces 1, Produces 1, Consumes, Consumes]"

definition first_published :: "nat ring_move list" where
  "first_published = [Produces 0, Produces 0, Produces 0, Produces 0]"

definition all_consumed :: "nat ring_move list" where
  "all_consumed = [Consumes, Consumes, Consumes, Consumes, Consumes, Consumes, Releases]"

lemma demo_ring_reachable: "ring_reachable (fold move_ring ms demo_ring)"
proof (rule ring_moves_reachable, rule reachable_init)
  show "ring_init demo_ring" unfolding ring_init_def demo_ring_def by (intro exI [of _ 1] exI conjI) (simp_all)
qed

lemma demo_ring_eq:
  "demo_ring = \<lparr>sequencer = \<lparr>m_consumer_published = -1, m_sequence_mask = 1, m_published = [-2, -1],
     m_next_to_claim = 0, m_awaiters = [], m_target_seq = (\<lambda>_. 0), m_last_known = (\<lambda>_. 0),
     m_ready_to_resume = (\<lambda>_. False), resumed = []\<rparr>, cells = (\<lambda>_. 0), p_pc = (\<lambda>_. P_idle), c_pc = C_scan (-1),
     c_next = 0, items = [], consumed = []\<rparr>"
proof -
  have "init_published 1 (- 1) (- 2) [0, 0] = [- 2, - 1]"
    by (simp add: init_published.simps [of 1 "-1" "-2"] init_published.simps [of 1 "-1" "-1"] slot_def Let_def)
  moreover have "replicate (unat (2 :: u64)) (0 :: u64) = [0, 0]" by code_simp
  ultimately show ?thesis
    by (simp add: demo_ring_def ring_new_def multi_producer_new_def initial_sequence_def)
qed

lemma publish_order_single: "publish_order \<lparr>m_begin = n, m_end = n + 1\<rparr> = [n]"
  by (simp add: publish_order_def range_empty_def range_elements_map range_skip_def range_size_eq Let_def range_front_def)

lemmas ring_runs = claim_bound_def ring_claim_one_def claim_one_def Let_def p_go_def ring_look_def ring_ready_def ring_write_def
  ring_publish_def ring_scan_def ring_read_def ring_release_def buffer_size_def precedes_def difference_def
  publish_order_single [of 0, simplified] publish_order_single [of 1, simplified] store_published_def published_def slot_def
  cell_of_def range_nth_def

definition demo_published :: "u64 \<Rightarrow> u64 \<Rightarrow> u64 list \<Rightarrow> multi_producer" where
  "demo_published c n p = \<lparr>m_consumer_published = c, m_sequence_mask = 1, m_published = p,
     m_next_to_claim = n, m_awaiters = [], m_target_seq = (\<lambda>_. 0), m_last_known = (\<lambda>_. 0),
     m_ready_to_resume = (\<lambda>_. False), resumed = []\<rparr>"

definition ring_writing :: "nat ring" where
  "ring_writing = \<lparr>sequencer = demo_published (-1) 2 [-2, -1], cells = (\<lambda>_. 0),
     p_pc = (\<lambda>_. P_idle)(0 := P_writing \<lparr>m_begin = 0, m_end = 1\<rparr> 0 [7], 1 := P_writing \<lparr>m_begin = 1, m_end = 2\<rparr> 0 [8]),
     c_pc = C_scan (-1), c_next = 0, items = [7, 8], consumed = []\<rparr>"

definition ring_half :: "nat ring" where
  "ring_half = \<lparr>sequencer = demo_published (-1) 2 [-2, 1], cells = (\<lambda>_. 0)(1 := 8),
     p_pc = (\<lambda>_. P_idle)(0 := P_writing \<lparr>m_begin = 0, m_end = 1\<rparr> 0 [7]),
     c_pc = C_scan (-1), c_next = 0, items = [7, 8], consumed = []\<rparr>"

definition ring_published :: "nat ring" where
  "ring_published = \<lparr>sequencer = demo_published (-1) 2 [0, 1], cells = (\<lambda>_. 0)(1 := 8, 0 := 7), p_pc = (\<lambda>_. P_idle),
     c_pc = C_scan (-1), c_next = 0, items = [7, 8], consumed = []\<rparr>"

definition ring_delivered :: "nat ring" where
  "ring_delivered = \<lparr>sequencer = demo_published 1 2 [0, 1], cells = (\<lambda>_. 0)(1 := 8, 0 := 7), p_pc = (\<lambda>_. P_idle),
     c_pc = C_scan 1, c_next = 2, items = [7, 8], consumed = [7, 8]\<rparr>"

lemma ring_stages:
  "fold move_ring both_writing demo_ring = ring_writing"
  "fold move_ring second_published ring_writing = ring_half"
  "fold move_ring first_published ring_half = ring_published"
  "fold move_ring all_consumed ring_published = ring_delivered"
  by (simp_all add: both_writing_def second_published_def first_published_def all_consumed_def demo_ring_eq ring_writing_def
      ring_half_def ring_published_def ring_delivered_def demo_published_def ring_runs fun_upd_twist)
    (auto simp: fun_eq_iff)

lemma ring_stages_reachable: "ring_reachable ring_writing" "ring_reachable ring_half" "ring_reachable ring_delivered"
proof -
  show writing: "ring_reachable ring_writing"
    using demo_ring_reachable [of both_writing] by (simp only: ring_stages)
  then show half: "ring_reachable ring_half"
    using ring_moves_reachable [of _ second_published] by (metis ring_stages(2))
  then have "ring_reachable ring_published"
    using ring_moves_reachable [of _ first_published] by (metis ring_stages(3))
  then show "ring_reachable ring_delivered"
    using ring_moves_reachable [of _ all_consumed] by (metis ring_stages(4))
qed

section \<open>Properties\<close>

text \<open>C3. Whatever the producers and the consumer do and in whatever order producers publish, what the consumer
  has read is a prefix of what the producers claimed numbers for, in the order of the numbers: nothing is
  skipped, read twice, read before it is written or overwritten before it is read.
\<close>
theorem ring_delivers_in_order:
  assumes "ring_reachable s"
  shows "prefix (consumed s) (items s)"
proof -
  obtain k g where "ring_ok k s g" using ring_sys.reachable_inv [OF assms] by (auto simp: ring_inv_def)
  then show ?thesis by (simp add: ring_ok_def consumer_ok_def take_is_prefix)
qed

theorem ring_delivers_in_order_witness:
  "prefix [7, 8 :: nat] (items ring_delivered) \<and> prefix (consumed ring_half) [7, 8]"
  using ring_delivers_in_order [OF ring_stages_reachable(3)] ring_delivers_in_order [OF ring_stages_reachable(2)]
  by (simp add: ring_delivered_def ring_half_def)

text \<open>The cell that a producer writes, and that the consumer reads, in its next step.\<close>

definition about_to_write :: "'v ring \<Rightarrow> nat \<Rightarrow> nat option" where
  "about_to_write s p =
     (case p_pc s p of P_writing r i vs \<Rightarrow> if i < length vs then Some (cell_of s (range_nth r (of_nat i))) else None | _ \<Rightarrow> None)"

definition about_to_read :: "'v ring \<Rightarrow> nat option" where
  "about_to_read s =
     (case c_pc s of C_read known \<Rightarrow> if c_next s = known + 1 then None else Some (cell_of s (c_next s)) | C_scan _ \<Rightarrow> None)"

lemma about_to_write_pos:
  assumes ok: "ring_ok k s g" and w: "about_to_write s p = Some x"
  shows "\<exists>q\<in>set (own g p). q \<le> released g + 2 ^ k \<and> x = cell k q"
proof -
  obtain r i vs where at: "p_pc s p = P_writing r i vs" "i < length vs" "x = cell_of s (range_nth r (of_nat i))"
    using w by (auto simp: about_to_write_def split: producer_pc.splits if_splits)
  then obtain a where a: "claim_ok k s g p a r vs" "a + int (length vs) - 1 \<le> released g + 2 ^ k"
    using ring_ok_producer [OF ok, of p] by auto
  then show ?thesis using claim_own [OF a(1) at(2)] cell_of_claim [OF ok a(1)] at by (intro bexI [of _ "a + int i"]) auto
qed

text \<open>C4. No cell of the buffer is written by two producers at once, or written while it is read: when a producer
  is about to write a cell, no other producer is about to write it and the consumer is not about to read it.
\<close>
theorem ring_cells_not_shared:
  assumes reach: "ring_reachable s" and w: "about_to_write s p = Some x" and p': "p' \<noteq> p"
  shows "about_to_write s p' \<noteq> Some x \<and> about_to_read s \<noteq> Some x"
proof -
  obtain k g where ok: "ring_ok k s g" using ring_sys.reachable_inv [OF reach] by (auto simp: ring_inv_def)
  then have k: "k \<le> 60" by (simp add: ring_ok_def)
  obtain q where q: "q \<in> set (own g p)" "q \<le> released g + 2 ^ k" "x = cell k q" using about_to_write_pos [OF ok w] by blast
  note qpos = owned_pos [OF ok q(1)]
  have differ: "cell k q' \<noteq> x" if "released g < q'" "q' \<le> released g + 2 ^ k" "q' \<noteq> q" for q'
    using that q(2) qpos unfolding q(3) by (intro cell_neq [OF k]) auto
  have "about_to_write s p' \<noteq> Some x"
  proof
    assume "about_to_write s p' = Some x"
    then obtain q' where "q' \<in> set (own g p')" "q' \<le> released g + 2 ^ k" "x = cell k q'" using about_to_write_pos [OF ok] by blast
    then show False using differ [of q'] owned_pos [OF ok, of q' p'] owned_other [OF ok p'] q(1) by auto
  qed
  moreover have "about_to_read s \<noteq> Some x"
  proof
    assume read: "about_to_read s = Some x"
    then obtain known where at: "c_pc s = C_read known" "c_next s \<noteq> known + 1" "x = cell_of s (c_next s)"
      by (auto simp: about_to_read_def split: consumer_pc.splits if_splits)
    have con: "consumer_ok k s g" and mask: "m_sequence_mask (sequencer s) = mask k"
      using ok by (simp_all add: ring_ok_def words_ok_def mp_ok_def)
    then have "reading g \<noteq> found g + 1" using c_next_found [OF ok] at by (simp add: consumer_ok_def)
    from next_item(1) [OF ok this] have "reading g \<noteq> q" using qpos by auto
    moreover have "x = cell k (reading g)" using con mask at(3) by (simp add: cell_of_def consumer_ok_def)
    ultimately show False using differ [of "reading g"] con \<open>reading g \<noteq> found g + 1\<close> by (simp add: consumer_ok_def)
  qed
  ultimately show ?thesis by blast
qed

theorem ring_cells_not_shared_witness:
  "about_to_write ring_writing 0 = Some 0 \<and> about_to_write ring_writing 1 \<noteq> Some 0 \<and> about_to_read ring_writing \<noteq> Some 0"
proof -
  have "about_to_write ring_writing 0 = Some 0"
    by (simp add: about_to_write_def ring_writing_def cell_of_def slot_def range_nth_def demo_published_def)
  from ring_cells_not_shared [OF ring_stages_reachable(1) this, of 1] this show ?thesis by simp
qed

text \<open>C5. Nothing gets stuck in the buffer: when no producer is under way and the consumer has read and released
  all that it found and finds nothing more published, it has read everything that numbers were claimed for.
\<close>
theorem ring_delivers_everything:
  assumes "ring_reachable s" "p_pc s = (\<lambda>_. P_idle)" "c_pc s = C_scan known" "c_next s = known + 1"
    and "m_consumer_published (sequencer s) = known" "\<not> published (sequencer s) (known + 1)"
  shows "consumed s = items s"
proof -
  obtain k g where ok: "ring_ok k s g" using ring_sys.reachable_inv [OF assms(1)] by (auto simp: ring_inv_def)
  have con: "consumer_ok k s g" and words: "words_ok k s g" and k: "k \<le> 60" and owned: "owned_ok s g"
    using ok by (simp_all add: ring_ok_def)
  have known: "known = num (found g)" using con assms(3) by (simp add: consumer_ok_def)
  have lap: "(1::int) \<le> 2 ^ k" "(2::int) ^ k \<le> 2 ^ 60" using lap_bound [OF k] by simp_all
  have "num (released g) = num (found g)" using words assms(5) known by (simp add: words_ok_def)
  moreover have "\<bar>released g - found g\<bar> < 2 ^ 63" using con lap unfolding consumer_ok_def by (simp add: abs_less_iff)
  ultimately have rel: "released g = found g" using num_eq by blast
  have "reading g = found g + 1" using c_next_found [OF ok] assms(4) known by simp
  moreover have "own g p = []" for p using ring_ok_producer [OF ok, of p] assms(2) by simp
  then have "\<not> (first_pos g \<le> found g + 1 \<and> found g + 1 < last_pos s g \<and> found g + 1 \<notin> pub g)"
    using owned unfolding owned_ok_def by (metis empty_iff empty_set)
  moreover have "found g + 1 \<notin> pub g" using next_published [OF ok] assms(6) known rel lap by simp
  moreover have "first_pos g \<le> found g + 1" using words rel by (simp add: words_ok_def)
  moreover have "found g < last_pos s g" using found_last [OF ok] by simp
  ultimately have "reading g = last_pos s g" by linarith
  then show ?thesis using con by (simp add: consumer_ok_def last_pos_def)
qed

theorem ring_delivers_everything_witness: "consumed ring_delivered = items ring_delivered"
  by (rule ring_delivers_everything [OF ring_stages_reachable(3), of 1])
    (simp_all add: ring_delivered_def demo_published_def published_def slot_def)

end
