(* ===== verification/Resume_Impl.thy ===== *)
theory Resume_Impl
  imports Coro_Prelude
begin

text \<open>
  How a wait operation of sequence_barrier (include/coro/sequence_barrier.h) and of
  multi_producer_sequencer (include/coro/awaitable/multi_producer_sequencer.h) resumes its coroutine:
  \<open>resume_impl\<close> constructs the scheduler's operation and its awaiter by hand and hands the coroutine
  over, or resumes it inline when there is nothing to wait for or something throws. The caller of
  \<open>resume_impl\<close> is the subject of Sequence_Barrier and Multi_Producer.
\<close>

text \<open>What the parts of the scheduler do, which are the caller's code.\<close>

datatype suspend_answer = Suspend_throws | Suspend_void | Suspend_bool bool | Suspend_handle

record scheduler_behaviour =
  schedule_throws :: bool
  get_awaiter_throws :: bool
  ready_answer :: bool
  suspend_does :: suspend_answer

text \<open>
  The operation's members, what happened to the coroutine, and which of the two objects were
  destructed. \<open>Handed_over\<close>: the awaiter has its handle; \<open>Transferred\<close>: the handle that the awaiter gave
  was resumed; \<open>Inline\<close>: the coroutine was resumed by \<open>resume_impl\<close>.
\<close>

datatype delivery = Handed_over | Transferred | Inline

datatype schedule_object = The_operation | The_awaiter

record scheduled_wait =
  op_created :: bool
  awaiter_created :: bool
  deliveries :: "delivery list"
  destructed :: "schedule_object list"

definition wait_new :: scheduled_wait where
  "wait_new = \<lparr>op_created = False, awaiter_created = False, deliveries = [], destructed = []\<rparr>"

definition deliver :: "delivery \<Rightarrow> scheduled_wait \<Rightarrow> scheduled_wait" where
  "deliver d w = w\<lparr>deliveries := deliveries w @ [d]\<rparr>"

text \<open>The try block: the state, and whether it returns from the function.\<close>

definition resume_try :: "scheduler_behaviour \<Rightarrow> scheduled_wait \<Rightarrow> scheduled_wait \<times> bool" where
  "resume_try b w =
     (if schedule_throws b then (w, False)
      else let w1 = w\<lparr>op_created := True\<rparr> in
        if get_awaiter_throws b then (w1, False)
        else let w2 = w1\<lparr>awaiter_created := True\<rparr> in
          if \<not> ready_answer b then
            case suspend_does b of
              Suspend_throws \<Rightarrow> (w2, False)
            | Suspend_void \<Rightarrow> (deliver Handed_over w2, True)
            | Suspend_bool stays \<Rightarrow> if stays then (deliver Handed_over w2, True) else (w2, False)
            | Suspend_handle \<Rightarrow> (deliver Transferred w2, True)
          else (w2, False))"

definition resume_impl :: "scheduler_behaviour \<Rightarrow> scheduled_wait \<Rightarrow> scheduled_wait" where
  "resume_impl b w = (let (w1, returned) = resume_try b w in if returned then w1 else deliver Inline w1)"

text \<open>
  The code of multi_producer_sequencer has the same text; its \<open>await_resume\<close> asks whether the operation
  was created, that of sequence_barrier whether the awaiter was: the object that \<open>await_resume\<close> is
  called on first, if any.
\<close>

definition barrier_await_resume :: "scheduled_wait \<Rightarrow> schedule_object option" where
  "barrier_await_resume w = (if awaiter_created w then Some The_awaiter else None)"

definition sequencer_await_resume :: "scheduled_wait \<Rightarrow> schedule_object option" where
  "sequencer_await_resume w = (if op_created w then Some The_operation else None)"

definition wait_destruct :: "scheduled_wait \<Rightarrow> scheduled_wait" where
  "wait_destruct w =
     (let w1 = (if awaiter_created w then w\<lparr>destructed := destructed w @ [The_awaiter]\<rparr> else w)
      in if op_created w1 then w1\<lparr>destructed := destructed w1 @ [The_operation]\<rparr> else w1)"

lemmas resume_impl_defs = resume_impl_def resume_try_def deliver_def wait_new_def wait_destruct_def
  barrier_await_resume_def sequencer_await_resume_def

text \<open>
  Whatever the scheduler does, the coroutine is resumed or handed over exactly once, only to an
  awaiter that exists; when anything throws it is resumed inline. The destructor destructs what was
  constructed, the awaiter before the operation that it may refer to.
\<close>
theorem resumed_exactly_once:
  "length (deliveries (resume_impl b wait_new)) = 1 \<and>
   (deliveries (resume_impl b wait_new) = [Inline] \<longleftrightarrow>
      schedule_throws b \<or> get_awaiter_throws b \<or> ready_answer b \<or> suspend_does b \<in> {Suspend_throws, Suspend_bool False}) \<and>
   destructed (wait_destruct (resume_impl b wait_new)) =
     (if schedule_throws b then [] else if get_awaiter_throws b then [The_operation] else [The_awaiter, The_operation])"
  by (cases "suspend_does b") (simp_all add: resume_impl_defs Let_def)

end
