(* ===== verification/Manual_Lifetime.thy ===== *)
theory Manual_Lifetime
  imports Resume_Impl
begin

text \<open>
  include/coro/detail/manual_lifetime.h: storage whose owner constructs and destructs what is in it, for
  objects, references and void; and the two such members of a wait operation of sequence_barrier and
  multi_producer_sequencer, which Resume_Impl has as flags. Using storage against its rules is a fault.
\<close>

section \<open>The storage\<close>

datatype lifetime_fault = Overwrites_object | No_object

text \<open>An object lives in the union between \<open>construct\<close> and \<open>destruct\<close>.\<close>

definition object_construct :: "'a \<Rightarrow> 'a option \<Rightarrow> lifetime_fault + 'a option" where
  "object_construct v m = (if m = None then Inr (Some v) else Inl Overwrites_object)"

definition object_destruct :: "'a option \<Rightarrow> lifetime_fault + 'a option" where
  "object_destruct m = (if m = None then Inl No_object else Inr None)"

definition object_get :: "'a option \<Rightarrow> lifetime_fault + 'a" where
  "object_get m = (case m of None \<Rightarrow> Inl No_object | Some v \<Rightarrow> Inr v)"

text \<open>
  For a reference the storage is a pointer, which \<open>construct\<close> sets and \<open>destruct\<close> leaves; the pointer has no
  value before. The variant for \<open>T&&\<close> has the same text.
\<close>

definition reference_construct :: "'a \<Rightarrow> 'a option \<Rightarrow> lifetime_fault + 'a option" where
  "reference_construct v m = Inr (Some v)"

definition reference_destruct :: "'a option \<Rightarrow> lifetime_fault + 'a option" where
  "reference_destruct m = Inr m"

definition reference_get :: "'a option \<Rightarrow> lifetime_fault + 'a" where
  "reference_get m = (case m of None \<Rightarrow> Inl No_object | Some v \<Rightarrow> Inr v)"

text \<open>Nothing is stored for void.\<close>

definition void_construct :: "unit \<Rightarrow> unit \<Rightarrow> lifetime_fault + unit" where
  "void_construct v m = Inr ()"

definition void_destruct :: "unit \<Rightarrow> lifetime_fault + unit" where
  "void_destruct m = Inr ()"

definition void_get :: "unit \<Rightarrow> lifetime_fault + unit" where
  "void_get m = Inr ()"

lemmas lifetime_defs = object_construct_def object_destruct_def object_get_def reference_construct_def
  reference_destruct_def reference_get_def void_construct_def void_destruct_def void_get_def

text \<open>
  What the owner relies on: \<open>fresh\<close> storage can be constructed in, gives what was put in, and can be
  destructed once.
\<close>

locale manual_lifetime =
  fixes construct :: "'a \<Rightarrow> 'm \<Rightarrow> lifetime_fault + 'm"
    and destruct :: "'m \<Rightarrow> lifetime_fault + 'm"
    and get :: "'m \<Rightarrow> lifetime_fault + 'a"
    and fresh :: 'm
  assumes construct_ok: "\<exists>m. construct v fresh = Inr m"
    and get_constructed: "construct v fresh = Inr m \<Longrightarrow> get m = Inr v"
    and destruct_constructed: "construct v fresh = Inr m \<Longrightarrow> \<exists>m'. destruct m = Inr m'"
begin

lemma constructed:
  obtains m m' where "construct v fresh = Inr m" "get m = Inr v" "destruct m = Inr m'"
  using construct_ok get_constructed destruct_constructed by metis

end

interpretation object_lifetime: manual_lifetime object_construct object_destruct object_get None
  by unfold_locales (auto simp: lifetime_defs)

interpretation reference_lifetime: manual_lifetime reference_construct reference_destruct reference_get None
  by unfold_locales (auto simp: lifetime_defs)

interpretation void_lifetime: manual_lifetime void_construct void_destruct void_get "()"
  by unfold_locales (auto simp: lifetime_defs)

section \<open>A wait operation with its storage\<close>

text \<open>
  \<open>m_schedule_operation\<close> (\<open>m_schedule_op\<close>) and \<open>m_schedule_awaiter\<close> with their flags. What the scheduler's
  parts do is the caller's code; \<open>get_awaiter\<close> is called on what the storage of the operation gives.
\<close>

record ('mo, 'ma) stored_wait =
  m_schedule_operation :: 'mo
  m_schedule_awaiter :: 'ma
  m_is_schedule_operation_created :: bool
  m_is_schedule_awaiter_created :: bool
  resumptions :: "delivery list"

record ('op, 'aw) scheduler_parts =
  schedule :: "'op option"
  get_awaiter :: "'op \<Rightarrow> 'aw option"
  is_ready :: "'aw \<Rightarrow> bool"
  suspend :: "'aw \<Rightarrow> suspend_answer"

text \<open>The functions of the two storages.\<close>

record ('a, 'm) storage_type =
  construct_in :: "'a \<Rightarrow> 'm \<Rightarrow> lifetime_fault + 'm"
  destruct_in :: "'m \<Rightarrow> lifetime_fault + 'm"
  get_from :: "'m \<Rightarrow> lifetime_fault + 'a"

definition resumption :: "delivery \<Rightarrow> ('mo, 'ma) stored_wait \<Rightarrow> ('mo, 'ma) stored_wait" where
  "resumption d w = w\<lparr>resumptions := resumptions w @ [d]\<rparr>"

definition stored_suspend :: "suspend_answer \<Rightarrow> ('mo, 'ma) stored_wait \<Rightarrow> ('mo, 'ma) stored_wait" where
  "stored_suspend answer w =
     (case answer of
        Suspend_throws \<Rightarrow> resumption Inline w
      | Suspend_void \<Rightarrow> resumption Handed_over w
      | Suspend_bool stays \<Rightarrow> resumption (if stays then Handed_over else Inline) w
      | Suspend_handle \<Rightarrow> resumption Transferred w)"

definition stored_resume_impl ::
    "('op, 'mo) storage_type \<Rightarrow> ('aw, 'ma) storage_type \<Rightarrow> ('op, 'aw) scheduler_parts \<Rightarrow>
     ('mo, 'ma) stored_wait \<Rightarrow> lifetime_fault + ('mo, 'ma) stored_wait" where
  "stored_resume_impl so sa p w =
     (case schedule p of
        None \<Rightarrow> Inr (resumption Inline w)
      | Some op \<Rightarrow>
          (case construct_in so op (m_schedule_operation w) of
             Inl f \<Rightarrow> Inl f
           | Inr mo \<Rightarrow>
               let w1 = w\<lparr>m_schedule_operation := mo, m_is_schedule_operation_created := True\<rparr>
               in (case get_from so mo of
                     Inl f \<Rightarrow> Inl f
                   | Inr op' \<Rightarrow>
                       (case get_awaiter p op' of
                          None \<Rightarrow> Inr (resumption Inline w1)
                        | Some aw \<Rightarrow>
                            (case construct_in sa aw (m_schedule_awaiter w1) of
                               Inl f \<Rightarrow> Inl f
                             | Inr ma \<Rightarrow>
                                 let w2 = w1\<lparr>m_schedule_awaiter := ma, m_is_schedule_awaiter_created := True\<rparr>
                                 in (case get_from sa ma of
                                       Inl f \<Rightarrow> Inl f
                                     | Inr aw' \<Rightarrow>
                                         Inr (if is_ready p aw' then resumption Inline w2
                                              else stored_suspend (suspend p aw') w2)))))))"

text \<open>\<open>await_resume\<close> of sequence_barrier's operation and of multi_producer_sequencer's, and the destructor.\<close>

definition stored_barrier_await_resume ::
    "('aw, 'ma) storage_type \<Rightarrow> ('mo, 'ma) stored_wait \<Rightarrow> lifetime_fault + 'aw option" where
  "stored_barrier_await_resume sa w =
     (if m_is_schedule_awaiter_created w then map_sum id Some (get_from sa (m_schedule_awaiter w)) else Inr None)"

definition stored_sequencer_await_resume ::
    "('op, 'mo) storage_type \<Rightarrow> ('mo, 'ma) stored_wait \<Rightarrow> lifetime_fault + 'op option" where
  "stored_sequencer_await_resume so w =
     (if m_is_schedule_operation_created w then map_sum id Some (get_from so (m_schedule_operation w)) else Inr None)"

definition stored_destruct ::
    "('op, 'mo) storage_type \<Rightarrow> ('aw, 'ma) storage_type \<Rightarrow> ('mo, 'ma) stored_wait \<Rightarrow>
     lifetime_fault + ('mo, 'ma) stored_wait" where
  "stored_destruct so sa w =
     (case (if m_is_schedule_awaiter_created w then destruct_in sa (m_schedule_awaiter w) else Inr (m_schedule_awaiter w)) of
        Inl f \<Rightarrow> Inl f
      | Inr ma \<Rightarrow>
          (case (if m_is_schedule_operation_created w then destruct_in so (m_schedule_operation w)
                 else Inr (m_schedule_operation w)) of
             Inl f \<Rightarrow> Inl f
           | Inr mo \<Rightarrow> Inr (w\<lparr>m_schedule_operation := mo, m_schedule_awaiter := ma\<rparr>)))"

definition stored_new :: "'mo \<Rightarrow> 'ma \<Rightarrow> ('mo, 'ma) stored_wait" where
  "stored_new mo ma =
     \<lparr>m_schedule_operation = mo, m_schedule_awaiter = ma, m_is_schedule_operation_created = False,
      m_is_schedule_awaiter_created = False, resumptions = []\<rparr>"

text \<open>The storages of an operation and an awaiter that are objects, and that are references.\<close>

definition object_storage :: "('a, 'a option) storage_type" where
  "object_storage = \<lparr>construct_in = object_construct, destruct_in = object_destruct, get_from = object_get\<rparr>"

definition reference_storage :: "('a, 'a option) storage_type" where
  "reference_storage = \<lparr>construct_in = reference_construct, destruct_in = reference_destruct, get_from = reference_get\<rparr>"

section \<open>The operation keeps the rules\<close>

text \<open>What the flags of Resume_Impl say of the scheduler.\<close>

definition behaviour_of :: "('op, 'aw) scheduler_parts \<Rightarrow> scheduler_behaviour" where
  "behaviour_of p =
     (let aw = Option.bind (schedule p) (get_awaiter p)
      in \<lparr>schedule_throws = (schedule p = None), get_awaiter_throws = (aw = None),
          ready_answer = (case aw of None \<Rightarrow> False | Some a \<Rightarrow> is_ready p a),
          suspend_does = (case aw of None \<Rightarrow> Suspend_void | Some a \<Rightarrow> suspend p a)\<rparr>)"

definition storage_ok :: "('a, 'm) storage_type \<Rightarrow> 'm \<Rightarrow> bool" where
  "storage_ok S m \<longleftrightarrow> manual_lifetime (construct_in S) (destruct_in S) (get_from S) m"

lemma storages_ok [simp]: "storage_ok object_storage None" "storage_ok reference_storage None"
  unfolding storage_ok_def object_storage_def reference_storage_def storage_type.simps
  by (rule object_lifetime.manual_lifetime_axioms reference_lifetime.manual_lifetime_axioms)+

text \<open>
  On any two storages that keep the rules the operation refines \<open>resume_impl\<close>: it constructs what the
  flags say, in storage that is fresh, and \<open>await_resume\<close> and the destructor use only what is there.
\<close>

lemma stored_resume_refines:
  fixes p :: "('op, 'aw) scheduler_parts"
  assumes so: "storage_ok so mo" and sa: "storage_ok sa ma"
  defines "r \<equiv> resume_impl (behaviour_of p) wait_new"
  shows "\<exists>w. stored_resume_impl so sa p (stored_new mo ma) = Inr w \<and>
    m_is_schedule_operation_created w = op_created r \<and> m_is_schedule_awaiter_created w = awaiter_created r \<and>
    resumptions w = deliveries r \<and>
    stored_barrier_await_resume sa w = Inr (Option.bind (schedule p) (get_awaiter p)) \<and>
    stored_sequencer_await_resume so w = Inr (schedule p) \<and>
    (\<exists>w'. stored_destruct so sa w = Inr w')"
proof -
  note d = stored_resume_impl_def stored_new_def resumption_def stored_barrier_await_resume_def
    stored_sequencer_await_resume_def stored_destruct_def r_def behaviour_of_def resume_impl_defs Let_def
  show ?thesis
  proof (cases "schedule p")
    case None
    then show ?thesis by (simp add: d)
  next
    case (Some op)
    obtain m m' where m: "construct_in so op mo = Inr m" "get_from so m = Inr op" "destruct_in so m = Inr m'"
      using manual_lifetime.constructed [OF so [unfolded storage_ok_def], of op] by metis
    show ?thesis
    proof (cases "get_awaiter p op")
      case None
      then show ?thesis using Some m by (simp add: d)
    next
      case (Some aw)
      obtain n n' where "construct_in sa aw ma = Inr n" "get_from sa n = Inr aw" "destruct_in sa n = Inr n'"
        using manual_lifetime.constructed [OF sa [unfolded storage_ok_def], of aw] by metis
      then show ?thesis using \<open>schedule p = Some op\<close> Some m
        by (cases "suspend p aw") (simp_all add: d stored_suspend_def)
    qed
  qed
qed

text \<open>Objects are destructed: the storage is empty again.\<close>

lemma stored_objects_destructed:
  assumes "stored_resume_impl object_storage object_storage p (stored_new None None) = Inr w"
    and "stored_destruct object_storage object_storage w = Inr w'"
  shows "m_schedule_operation w' = None \<and> m_schedule_awaiter w' = None"
  using assms
  by (auto simp: stored_resume_impl_def stored_new_def resumption_def stored_suspend_def stored_destruct_def
      object_storage_def lifetime_defs Let_def split: option.splits if_splits sum.splits suspend_answer.splits)

text \<open>
  A wait operation whose scheduler gives objects or references, and throws or not anywhere, never
  constructs over an object, never uses or destructs storage that holds none, and resumes the coroutine
  once; \<open>await_resume\<close> gets at what was constructed; and after the destructor no object is left.
\<close>
theorem scheduled_storage_safe:
  assumes "(so, sa) \<in> {object_storage, reference_storage} \<times> {object_storage, reference_storage}"
  shows "\<exists>w w'. stored_resume_impl so sa p (stored_new None None) = Inr w \<and> length (resumptions w) = 1 \<and>
    stored_barrier_await_resume sa w = Inr (Option.bind (schedule p) (get_awaiter p)) \<and>
    stored_sequencer_await_resume so w = Inr (schedule p) \<and> stored_destruct so sa w = Inr w' \<and>
    (so = object_storage \<longrightarrow> sa = object_storage \<longrightarrow> m_schedule_operation w' = None \<and> m_schedule_awaiter w' = None)"
proof -
  have ok: "storage_ok so None" "storage_ok sa None" using assms by auto
  show ?thesis
    using stored_resume_refines [OF ok, of p] stored_objects_destructed [of p] resumed_exactly_once [of "behaviour_of p"]
    by metis
qed

theorem scheduled_storage_safe_witness:
  "\<exists>w. stored_resume_impl object_storage object_storage
       \<lparr>schedule = Some (1::nat), get_awaiter = (\<lambda>op. Some (op + 1)), is_ready = (\<lambda>_. False), suspend = (\<lambda>_. Suspend_void)\<rparr>
       (stored_new None None) = Inr w \<and> length (resumptions w) = 1"
  using scheduled_storage_safe [of object_storage object_storage] by blast

end
