(* ===== verification/Manual_Reset_Event.thy ===== *)
theory Manual_Reset_Event
  imports Waiter_Lists
begin

text \<open>
  include/coro/awaitable/async_manual_reset_event.h and src/coro/async_manual_reset_event.cpp: an
  event that any number of coroutines wait for and that stays set until it is reset. The word
  \<open>m_state\<close> is the event's own address (set), null, or the address of the first waiting
  operation. Operations are named by their addresses, calls of \<open>set\<close> by numbers; a step is one
  access of shared memory, and reading the next pointer of a waiter together with resuming it.
\<close>

section \<open>State\<close>

text \<open>
  Where the coroutine of an operation is: not waiting; past \<open>await_ready\<close>; in the loop of
  \<open>await_suspend\<close> with the word it has read; suspended; past the wait.
\<close>

datatype wait_pc = Outside | Not_ready | Loaded u64 | Suspended | Released

record event =
  self :: u64
  m_state :: u64
  m_next :: "u64 \<Rightarrow> u64"
  wait_pc :: "u64 \<Rightarrow> wait_pc"
  resuming :: "nat \<Rightarrow> u64"

definition event_new :: "u64 \<Rightarrow> bool \<Rightarrow> event" where
  "event_new this init = \<lparr>self = this, m_state = (if init then this else 0), m_next = (\<lambda>_. 0),
     wait_pc = (\<lambda>_. Outside), resuming = (\<lambda>_. 0)\<rparr>"

definition is_set :: "event \<Rightarrow> bool" where
  "is_set e \<longleftrightarrow> m_state e = self e"

definition goto :: "event \<Rightarrow> u64 \<Rightarrow> wait_pc \<Rightarrow> event" where
  "goto e a p = e\<lparr>wait_pc := (wait_pc e)(a := p)\<rparr>"

section \<open>Waiting\<close>

definition await_ready :: "event \<Rightarrow> u64 \<Rightarrow> event" where
  "await_ready e a = goto e a (if is_set e then Released else Not_ready)"

definition await_load :: "event \<Rightarrow> u64 \<Rightarrow> event" where
  "await_load e a = goto e a (Loaded (m_state e))"

text \<open>
  One round of the loop in \<open>await_suspend\<close>, with \<open>old\<close> the word read last; the weak
  compare-exchange may fail spuriously.
\<close>

definition await_round :: "event \<Rightarrow> u64 \<Rightarrow> u64 \<Rightarrow> bool \<Rightarrow> event" where
  "await_round e a old spurious =
     (if old = self e then goto e a Released
      else (let e1 = e\<lparr>m_next := (m_next e)(a := old)\<rparr>
            in if m_state e = old \<and> \<not> spurious then goto (e1\<lparr>m_state := a\<rparr>) a Suspended
               else goto e1 a (Loaded (m_state e))))"

section \<open>Setting and resetting\<close>

definition set_exchange :: "event \<Rightarrow> nat \<Rightarrow> event" where
  "set_exchange e t =
     (let old_state = m_state e
      in e\<lparr>m_state := self e,
           resuming := (resuming e)(t := if old_state \<noteq> self e then old_state else 0)\<rparr>)"

definition set_resume :: "event \<Rightarrow> nat \<Rightarrow> event" where
  "set_resume e t =
     (let waiter = resuming e t; next_waiter = m_next e waiter
      in goto (e\<lparr>resuming := (resuming e)(t := next_waiter)\<rparr>) waiter Released)"

definition reset_event :: "event \<Rightarrow> event" where
  "reset_event e = (if m_state e = self e then e\<lparr>m_state := 0\<rparr> else e)"

text \<open>
  The steps of waiting coroutines and of calls of \<open>set\<close> that resume them; an operation has an
  address that is neither null nor the event's own.
\<close>

inductive wait_step :: "event \<Rightarrow> event \<Rightarrow> bool" where
  ws_start: "a \<noteq> 0 \<Longrightarrow> a \<noteq> self e \<Longrightarrow> wait_pc e a \<in> {Outside, Released} \<Longrightarrow> wait_step e (await_ready e a)"
| ws_load: "wait_pc e a = Not_ready \<Longrightarrow> wait_step e (await_load e a)"
| ws_round: "wait_pc e a = Loaded old \<Longrightarrow> wait_step e (await_round e a old spurious)"
| ws_resume: "resuming e t \<noteq> 0 \<Longrightarrow> wait_step e (set_resume e t)"

inductive event_step :: "event \<Rightarrow> event \<Rightarrow> bool" where
  es_wait: "wait_step e e' \<Longrightarrow> event_step e e'"
| es_set: "resuming e t = 0 \<Longrightarrow> event_step e (set_exchange e t)"
| es_reset: "event_step e (reset_event e)"

definition event_init :: "event \<Rightarrow> bool" where
  "event_init e \<longleftrightarrow> (\<exists>this init. this \<noteq> 0 \<and> e = event_new this init)"

section \<open>The invariant\<close>

text \<open>
  \<open>None\<close> is the list of the event, \<open>Some t\<close> the list in the hands of the call \<open>t\<close> of \<open>set\<close>.
\<close>

definition list_heads :: "event \<Rightarrow> nat option \<Rightarrow> u64" where
  "list_heads e k = (case k of None \<Rightarrow> if is_set e then 0 else m_state e | Some t \<Rightarrow> resuming e t)"

definition suspended :: "event \<Rightarrow> u64 \<Rightarrow> bool" where
  "suspended e a \<longleftrightarrow> wait_pc e a = Suspended"

definition event_inv :: "event \<Rightarrow> bool" where
  "event_inv e \<longleftrightarrow> self e \<noteq> 0 \<and> (\<forall>a. a = 0 \<or> a = self e \<longrightarrow> wait_pc e a = Outside) \<and>
     (\<exists>xs. waiter_lists (m_next e) (list_heads e) xs (suspended e))"

lemma goto_event_simps [simp]:
  "self (goto e a p) = self e" "m_state (goto e a p) = m_state e" "m_next (goto e a p) = m_next e"
  "resuming (goto e a p) = resuming e" "wait_pc (goto e a p) = (wait_pc e)(a := p)"
  by (simp_all add: goto_def)

lemma list_heads_simps [simp]:
  "list_heads e None = (if is_set e then 0 else m_state e)" "list_heads e (Some t) = resuming e t"
  by (simp_all add: list_heads_def)

lemma event_inv_address: "event_inv e \<Longrightarrow> wait_pc e a \<noteq> Outside \<Longrightarrow> a \<noteq> 0 \<and> a \<noteq> self e"
  by (auto simp: event_inv_def)

text \<open>A step of one operation that was not suspended and is not afterwards.\<close>

lemma event_inv_move:
  assumes inv: "event_inv e" and a: "a \<noteq> 0" "a \<noteq> self e" "wait_pc e a \<noteq> Suspended" "p \<noteq> Suspended"
    and e': "self e' = self e" "m_state e' = m_state e" "resuming e' = resuming e"
      "wait_pc e' = (wait_pc e)(a := p)" "m_next e' = (m_next e)(a := q)"
  shows "event_inv e'"
proof -
  obtain xs where xs: "waiter_lists (m_next e) (list_heads e) xs (suspended e)"
    using inv by (auto simp: event_inv_def)
  have "list_heads e' = list_heads e"
    using e' by (auto simp: list_heads_def is_set_def fun_eq_iff split: option.split)
  moreover have "suspended e' = suspended e" using a e' by (auto simp: suspended_def fun_eq_iff)
  ultimately have "waiter_lists (m_next e') (list_heads e') xs (suspended e')"
    using waiter_lists_touch [OF xs, of a q] a(3) e'(5) by (simp add: suspended_def)
  then show ?thesis using inv a e' by (auto simp: event_inv_def)
qed

lemma event_inv_await:
  assumes inv: "event_inv e"
  shows "a \<noteq> 0 \<Longrightarrow> a \<noteq> self e \<Longrightarrow> wait_pc e a \<in> {Outside, Released} \<Longrightarrow> event_inv (await_ready e a)"
    and "wait_pc e a = Not_ready \<Longrightarrow> event_inv (await_load e a)"
proof -
  show "event_inv (await_ready e a)" if "a \<noteq> 0" "a \<noteq> self e" "wait_pc e a \<in> {Outside, Released}"
    by (rule event_inv_move [OF inv, where a = a and q = "m_next e a" and
          p = "if is_set e then Released else Not_ready"]) (use that in \<open>auto simp: await_ready_def\<close>)
  show "event_inv (await_load e a)" if "wait_pc e a = Not_ready"
    by (rule event_inv_move [OF inv, where a = a and q = "m_next e a" and p = "Loaded (m_state e)"])
      (use that event_inv_address [OF inv, of a] in \<open>auto simp: await_load_def\<close>)
qed

lemma event_inv_push:
  assumes inv: "event_inv e" and pc: "wait_pc e a = Loaded old" and ns: "old \<noteq> self e" "m_state e = old"
  shows "event_inv (goto (e\<lparr>m_next := (m_next e)(a := old), m_state := a\<rparr>) a Suspended)" (is "event_inv ?e")
proof -
  have a: "a \<noteq> 0" "a \<noteq> self e" using event_inv_address [OF inv, of a] pc by simp_all
  obtain xs where xs: "waiter_lists (m_next e) (list_heads e) xs (suspended e)"
    using inv by (auto simp: event_inv_def)
  have "waiter_lists ((m_next e)(a := old)) (list_heads e) xs (suspended e)"
    by (rule waiter_lists_touch [OF xs]) (simp add: suspended_def pc)
  then have "waiter_lists ((m_next e)(a := old)) ((list_heads e)(None := a)) (xs(None := a # xs None))
      ((suspended e)(a := True))"
    by (rule waiter_lists_push) (use pc a ns in \<open>simp_all add: suspended_def is_set_def\<close>)
  moreover have "(list_heads e)(None := a) = list_heads ?e"
    using a by (auto simp: list_heads_def is_set_def fun_eq_iff split: option.split)
  moreover have "(suspended e)(a := True) = suspended ?e" by (auto simp: suspended_def fun_eq_iff)
  ultimately have "waiter_lists (m_next ?e) (list_heads ?e) (xs(None := a # xs None)) (suspended ?e)"
    by simp
  then show ?thesis using inv a by (auto simp: event_inv_def)
qed

lemma event_inv_round:
  assumes inv: "event_inv e" and pc: "wait_pc e a = Loaded old"
  shows "event_inv (await_round e a old spurious)"
proof -
  have a: "a \<noteq> 0" "a \<noteq> self e" using event_inv_address [OF inv, of a] pc by simp_all
  have move: "event_inv (goto e a Released)"
    by (rule event_inv_move [OF inv, where a = a and q = "m_next e a" and p = Released])
      (use pc a in auto)
  have retry: "event_inv (goto (e\<lparr>m_next := (m_next e)(a := old)\<rparr>) a (Loaded (m_state e)))"
    by (rule event_inv_move [OF inv, where a = a and q = old and p = "Loaded (m_state e)"])
      (use pc a in auto)
  show ?thesis using move retry event_inv_push [OF inv pc] by (auto simp: await_round_def Let_def)
qed

lemma event_inv_resume:
  assumes inv: "event_inv e" and t: "resuming e t \<noteq> 0"
  shows "event_inv (set_resume e t)" (is "event_inv ?e")
    and "suspended e (resuming e t)"
proof -
  obtain xs where xs: "waiter_lists (m_next e) (list_heads e) xs (suspended e)"
    using inv by (auto simp: event_inv_def)
  have "waiter_lists (m_next e) ((list_heads e)(Some t := m_next e (resuming e t)))
      (xs(Some t := tl (xs (Some t)))) ((suspended e)(resuming e t := False))"
    using waiter_lists_pop [OF xs, of "Some t"] t by simp
  moreover have "(list_heads e)(Some t := m_next e (resuming e t)) = list_heads ?e"
    by (auto simp: list_heads_def set_resume_def Let_def is_set_def fun_eq_iff split: option.split)
  moreover have "(suspended e)(resuming e t := False) = suspended ?e"
    by (auto simp: suspended_def set_resume_def Let_def fun_eq_iff)
  moreover have "m_next ?e = m_next e" by (simp add: set_resume_def Let_def)
  ultimately have wl: "waiter_lists (m_next ?e) (list_heads ?e) (xs(Some t := tl (xs (Some t)))) (suspended ?e)"
    by simp
  show s: "suspended e (resuming e t)" using waiter_lists_head_suspended [OF xs, of "Some t"] t by simp
  then have "resuming e t \<noteq> self e" using event_inv_address [OF inv, of "resuming e t"]
    by (auto simp: suspended_def)
  then show "event_inv ?e" using inv t wl by (auto simp: event_inv_def set_resume_def Let_def)
qed

lemma event_inv_set:
  assumes inv: "event_inv e" and t: "resuming e t = 0"
  shows "event_inv (set_exchange e t)" (is "event_inv ?e")
proof -
  obtain xs where xs: "waiter_lists (m_next e) (list_heads e) xs (suspended e)"
    using inv by (auto simp: event_inv_def)
  have "waiter_lists (m_next e) ((list_heads e)(None := 0, Some t := list_heads e None))
      (xs(None := [], Some t := xs None)) (suspended e)"
    by (rule waiter_lists_take [OF xs]) (simp_all add: t)
  moreover have "(list_heads e)(None := 0, Some t := list_heads e None) = list_heads ?e"
    by (auto simp: list_heads_def set_exchange_def Let_def is_set_def fun_eq_iff split: option.split)
  moreover have "suspended ?e = suspended e" "m_next ?e = m_next e"
    by (simp_all add: suspended_def set_exchange_def Let_def fun_eq_iff)
  ultimately have "waiter_lists (m_next ?e) (list_heads ?e) (xs(None := [], Some t := xs None)) (suspended ?e)"
    by simp
  then show ?thesis using inv by (auto simp: event_inv_def set_exchange_def Let_def)
qed

lemma event_inv_reset: "event_inv e \<Longrightarrow> event_inv (reset_event e)"
proof -
  assume inv: "event_inv e"
  have "list_heads (reset_event e) = list_heads e"
    using inv by (auto simp: list_heads_def reset_event_def is_set_def event_inv_def fun_eq_iff split: option.split)
  then show ?thesis using inv by (auto simp: event_inv_def reset_event_def suspended_def [abs_def])
qed

lemma event_inv_wait_step: "event_inv e \<Longrightarrow> wait_step e e' \<Longrightarrow> event_inv e'"
  by (erule wait_step.cases) (auto intro: event_inv_await event_inv_round event_inv_resume)

lemma manual_inv_step: "event_inv e \<Longrightarrow> event_step e e' \<Longrightarrow> event_inv e'"
  by (erule event_step.cases) (auto intro: event_inv_wait_step event_inv_set event_inv_reset)

lemma event_inv_new: "this \<noteq> 0 \<Longrightarrow> event_inv (event_new this init)"
proof -
  assume nz: "this \<noteq> 0"
  have "list_heads (event_new this init) = (\<lambda>_. 0)" "suspended (event_new this init) = (\<lambda>_. False)"
    using nz by (auto simp: list_heads_def event_new_def is_set_def suspended_def fun_eq_iff split: option.split)
  then have "waiter_lists (m_next (event_new this init)) (list_heads (event_new this init)) (\<lambda>_. [])
      (suspended (event_new this init))" by (simp add: waiter_lists_def)
  then show ?thesis using nz by (auto simp: event_inv_def event_new_def)
qed

interpretation manual_event_sys: invariant_system event_init event_step event_inv
  by unfold_locales (auto simp: event_init_def intro: event_inv_new manual_inv_step)

lemma event_hands:
  assumes inv: "event_inv e"
  shows "resuming e t \<noteq> 0 \<Longrightarrow> suspended e (resuming e t)"
    and "resuming e t \<noteq> 0 \<Longrightarrow> t \<noteq> u \<Longrightarrow> resuming e t \<noteq> resuming e u"
    and "is_set e \<Longrightarrow> \<forall>t. resuming e t = 0 \<Longrightarrow> \<not> suspended e a"
proof -
  obtain xs where xs: "waiter_lists (m_next e) (list_heads e) xs (suspended e)"
    using inv by (auto simp: event_inv_def)
  show "suspended e (resuming e t)" if "resuming e t \<noteq> 0"
    using waiter_lists_head_suspended [OF xs, of "Some t"] that by simp
  show "resuming e t \<noteq> resuming e u" if nz: "resuming e t \<noteq> 0" and tu: "t \<noteq> u"
  proof
    assume eq: "resuming e t = resuming e u"
    obtain ys where "xs (Some t) = resuming e t # ys"
      using waiter_lists_head [OF xs, of "Some t"] nz by auto
    moreover obtain zs where "xs (Some u) = resuming e t # zs"
      using waiter_lists_head [OF xs, of "Some u"] nz eq by auto
    moreover have "set (xs (Some t)) \<inter> set (xs (Some u)) = {}"
      using xs tu unfolding waiter_lists_def by (metis option.inject)
    ultimately show False by simp
  qed
  show "\<not> suspended e a" if "is_set e" "\<forall>t. resuming e t = 0"
  proof -
    have "list_heads e k = 0" for k using that by (simp add: list_heads_def split: option.split)
    then have "xs k = []" for k using waiter_lists_null [OF xs] by blast
    then show ?thesis using xs by (simp add: waiter_lists_def)
  qed
qed

section \<open>A whole call of set\<close>

partial_function (option) set_loop :: "event \<Rightarrow> nat \<Rightarrow> event option" where
  "set_loop e t = (if resuming e t = 0 then Some e else set_loop (set_resume e t) t)"

lemma set_loop_releases:
  assumes "chain (m_next e) (resuming e t) ws" "distinct ws"
  shows "\<exists>e'. set_loop e t = Some e' \<and> self e' = self e \<and> m_state e' = m_state e \<and> resuming e' t = 0 \<and>
    (\<forall>u. u \<noteq> t \<longrightarrow> resuming e' u = resuming e u) \<and>
    wait_pc e' = (\<lambda>a. if a \<in> set ws then Released else wait_pc e a)"
  using assms
proof (induction ws arbitrary: e)
  case Nil
  then show ?case by (simp add: set_loop.simps [of e])
next
  case (Cons w ws)
  let ?e = "set_resume e t"
  have w: "resuming e t = w" "w \<noteq> 0" "chain (m_next e) (m_next e w) ws" using Cons.prems(1) by auto
  have e: "m_next ?e = m_next e" "resuming ?e = (resuming e)(t := m_next e w)"
      "wait_pc ?e = (wait_pc e)(w := Released)" "self ?e = self e" "m_state ?e = m_state e"
    by (simp_all add: set_resume_def w(1))
  have "chain (m_next ?e) (resuming ?e t) ws" "distinct ws" using w Cons.prems by (simp_all add: e)
  from Cons.IH [OF this] obtain e' where e': "set_loop ?e t = Some e'" "self e' = self e" "m_state e' = m_state e"
      "resuming e' t = 0" "\<forall>u. u \<noteq> t \<longrightarrow> resuming e' u = resuming e u"
      "wait_pc e' = (\<lambda>a. if a \<in> set ws then Released else wait_pc ?e a)"
    by (auto simp: e)
  have "set_loop e t = Some e'" using e'(1) w by (simp add: set_loop.simps [of e])
  then show ?case using e' by (auto simp: e fun_eq_iff)
qed

text \<open>
  When no other call of \<open>set\<close> is at work the lists are the event's own list, and a call of \<open>set\<close>
  that is not interrupted takes all of it.
\<close>

lemma set_releases_all:
  assumes inv: "event_inv e" and quiet: "\<forall>u. resuming e u = 0"
  shows "\<exists>e'. set_loop (set_exchange e t) t = Some e' \<and> is_set e' \<and> (\<forall>u. resuming e' u = 0) \<and>
    wait_pc e' = (\<lambda>a. if suspended e a then Released else wait_pc e a)"
proof -
  obtain xs where xs: "waiter_lists (m_next e) (list_heads e) xs (suspended e)"
    using inv by (auto simp: event_inv_def)
  have "xs (Some u) = []" for u using waiter_lists_null [OF xs, of "Some u"] quiet by simp
  then have susp: "suspended e a \<longleftrightarrow> a \<in> set (xs None)" for a
    using xs unfolding waiter_lists_def by (metis empty_iff list.set(1) not_None_eq)
  have x: "m_next (set_exchange e t) = m_next e" "resuming (set_exchange e t) t = list_heads e None"
      "self (set_exchange e t) = self e" "m_state (set_exchange e t) = self e"
      "wait_pc (set_exchange e t) = wait_pc e" "\<And>u. u \<noteq> t \<Longrightarrow> resuming (set_exchange e t) u = 0"
    using quiet by (simp_all add: set_exchange_def is_set_def Let_def)
  have "chain (m_next (set_exchange e t)) (resuming (set_exchange e t) t) (xs None)" "distinct (xs None)"
    unfolding x(1,2) using waiter_lists_chain [OF xs] xs by (auto simp only: waiter_lists_def)
  from set_loop_releases [OF this] show ?thesis using x susp
    by (metis (no_types, lifting) is_set_def)
qed

section \<open>An event that is never reset\<close>

text \<open>
  What a component may rely on that only waits for an event and sets it: once signalled the event
  stays so, nobody is released before, and nobody waits any more when the calls that signalled
  it have returned.
\<close>

locale one_way_event =
  fixes ok :: "'e \<Rightarrow> bool" and signalled :: "'e \<Rightarrow> bool" and signal :: "'e \<Rightarrow> nat \<Rightarrow> 'e"
    and idle :: "'e \<Rightarrow> nat \<Rightarrow> bool" and waits :: "'e \<Rightarrow> 'e \<Rightarrow> bool"
    and released :: "'e \<Rightarrow> 'a \<Rightarrow> bool" and waiting :: "'e \<Rightarrow> 'a \<Rightarrow> bool"
  assumes ok_signal: "ok e \<Longrightarrow> idle e t \<Longrightarrow> ok (signal e t)"
    and ok_waits: "ok e \<Longrightarrow> waits e e' \<Longrightarrow> ok e'"
    and signal_signals: "signalled (signal e t)"
    and waits_signalled: "ok e \<Longrightarrow> waits e e' \<Longrightarrow> signalled e' = signalled e"
    and released_signalled: "ok e \<Longrightarrow> released e a \<Longrightarrow> signalled e"
    and waiting_signalled: "ok e \<Longrightarrow> signalled e \<Longrightarrow> \<forall>t. idle e t \<Longrightarrow> \<not> waiting e a"
begin

lemma waits_steps_ok: "waits\<^sup>*\<^sup>* e e' \<Longrightarrow> ok e \<Longrightarrow> ok e' \<and> signalled e' = signalled e"
  by (induction rule: rtranclp_induct) (auto intro: ok_waits simp: waits_signalled)

text \<open>After a signal and any waiting steps nobody waits once every call is idle.\<close>

lemma signal_wakes_all:
  assumes "ok e" "idle e t" "waits\<^sup>*\<^sup>* (signal e t) e'" "\<forall>u. idle e' u"
  shows "\<not> waiting e' a"
  using waits_steps_ok [OF assms(3)] ok_signal [OF assms(1,2)] waiting_signalled assms(4) signal_signals
  by blast

end

definition event_one_way :: "event \<Rightarrow> bool" where
  "event_one_way e \<longleftrightarrow> event_inv e \<and>
     ((\<exists>t. resuming e t \<noteq> 0) \<or> (\<exists>a. wait_pc e a = Released \<or> wait_pc e a = Loaded (self e)) \<longrightarrow> is_set e)"

lemma wait_step_is_set:
  assumes inv: "event_inv e" and step: "wait_step e e'"
  shows "is_set e' = is_set e"
  using step
proof cases
  case (ws_round a old spurious)
  then have "a \<noteq> self e" using event_inv_address [OF inv, of a] by simp
  then show ?thesis using ws_round by (auto simp: is_set_def await_round_def Let_def)
qed (auto simp: is_set_def await_ready_def await_load_def set_resume_def Let_def)

lemma event_one_way_wait:
  assumes ow: "event_one_way e" and step: "wait_step e e'"
  shows "event_one_way e'"
proof -
  have inv: "event_inv e" and r: "\<And>t. resuming e t \<noteq> 0 \<Longrightarrow> is_set e"
    and p: "\<And>a. wait_pc e a = Released \<or> wait_pc e a = Loaded (self e) \<Longrightarrow> is_set e"
    using ow by (auto simp: event_one_way_def)
  have keep: "is_set e' = is_set e" by (rule wait_step_is_set [OF inv step])
  have "(\<exists>t. resuming e' t \<noteq> 0) \<or> (\<exists>a. wait_pc e' a = Released \<or> wait_pc e' a = Loaded (self e')) \<Longrightarrow> is_set e"
    using step
  proof cases
    case (ws_round a old spurious)
    then show "is_set e"
      if "(\<exists>t. resuming e' t \<noteq> 0) \<or> (\<exists>a. wait_pc e' a = Released \<or> wait_pc e' a = Loaded (self e'))"
      using that r p by (auto simp: await_round_def Let_def is_set_def split: if_splits)
  qed (use r p in \<open>auto simp: await_ready_def await_load_def set_resume_def Let_def is_set_def split: if_splits\<close>)
  then show ?thesis using event_inv_wait_step [OF inv step] keep by (auto simp: event_one_way_def)
qed

interpretation manual_event: one_way_event event_one_way is_set set_exchange
  "\<lambda>e t. resuming e t = 0" wait_step "\<lambda>e a. wait_pc e a = Released" suspended
proof (unfold_locales, goal_cases)
  case (1 e t)
  have "is_set (set_exchange e t)" by (simp add: is_set_def set_exchange_def Let_def)
  then show ?case using 1 by (simp add: event_one_way_def event_inv_set)
next
  case (2 e e')
  then show ?case by (rule event_one_way_wait)
next
  case (3 e t)
  then show ?case by (simp add: is_set_def set_exchange_def Let_def)
next
  case (4 e e')
  show ?case by (rule wait_step_is_set [OF _ 4(2)]) (use 4(1) in \<open>simp add: event_one_way_def\<close>)
next
  case (5 e a)
  then show ?case by (auto simp: event_one_way_def)
next
  case (6 e a)
  then show ?case using event_hands(3) [of e a] by (simp add: event_one_way_def)
qed

section \<open>A run\<close>

definition demo_waiting :: event where
  "demo_waiting = await_round (await_load (await_ready (event_new 8 False) 16) 16) 16 0 False"

lemma demo_waiting_reachable: "reachable event_init event_step demo_waiting"
proof -
  have "event_init (event_new 8 False)" by (auto simp: event_init_def intro!: exI [of _ 8] exI [of _ False])
  then have "reachable event_init event_step (event_new 8 False)" by (rule reachable_init)
  then have "reachable event_init event_step (await_ready (event_new 8 False) 16)"
    by (rule reachable_step) (rule es_wait, rule ws_start, simp_all add: event_new_def)
  then have "reachable event_init event_step (await_load (await_ready (event_new 8 False) 16) 16)"
    by (rule reachable_step)
      (rule es_wait, rule ws_load, simp add: await_ready_def event_new_def is_set_def)
  then show ?thesis unfolding demo_waiting_def
    by (rule reachable_step)
      (rule es_wait, rule ws_round, simp add: await_load_def await_ready_def event_new_def is_set_def)
qed

lemma demo_waiting_pc: "wait_pc demo_waiting 16 = Suspended" "resuming demo_waiting t = 0"
  by (simp_all add: demo_waiting_def await_round_def await_load_def await_ready_def event_new_def is_set_def)

section \<open>Properties\<close>

text \<open>
  However calls of set, reset and co_await interleave: an operation that a call of set is
  about to resume is suspended and no other call is about to resume it, so every wait is ended
  at most once and no finished operation is touched; and when the event is set and no call of
  set is still at work, no coroutine is left suspended.
\<close>

theorem manual_event_no_lost_wakeup:
  assumes "reachable event_init event_step e"
  shows "(resuming e t \<noteq> 0 \<longrightarrow>
      wait_pc e (resuming e t) = Suspended \<and> (\<forall>u. u \<noteq> t \<longrightarrow> resuming e u \<noteq> resuming e t)) \<and>
    (is_set e \<and> (\<forall>t. resuming e t = 0) \<longrightarrow> wait_pc e a \<noteq> Suspended)"
proof -
  have inv: "event_inv e" by (rule manual_event_sys.reachable_inv [OF assms])
  have "resuming e u \<noteq> resuming e t" if "resuming e t \<noteq> 0" "u \<noteq> t" for u
    using event_hands(2) [OF inv that(1)] that(2) by metis
  then show ?thesis using event_hands(1,3) [OF inv] by (auto simp: suspended_def)
qed

theorem manual_event_no_lost_wakeup_witness:
  "\<exists>e. reachable event_init event_step e \<and> resuming e 2 = 16 \<and> wait_pc e 16 = Suspended"
proof -
  have reach: "reachable event_init event_step (set_exchange demo_waiting 2)"
    by (rule reachable_step [OF demo_waiting_reachable]) (rule es_set, simp add: demo_waiting_pc)
  have r: "resuming (set_exchange demo_waiting 2) 2 = 16"
    by (simp add: set_exchange_def Let_def)
      (simp add: demo_waiting_def await_round_def await_load_def await_ready_def event_new_def is_set_def)
  then have "resuming (set_exchange demo_waiting 2) 2 \<noteq> 0" by simp
  from manual_event_no_lost_wakeup [OF reach, of 2] reach r this show ?thesis by auto
qed

text \<open>
  A call of set with no other call at work returns: its loop over the waiters ends after
  having resumed every coroutine that was suspended, and it changes nothing else for anyone.
\<close>

theorem manual_event_set_returns:
  assumes "reachable event_init event_step e" and "\<forall>u. resuming e u = 0"
  shows "\<exists>e'. set_loop (set_exchange e t) t = Some e' \<and> is_set e' \<and> (\<forall>u. resuming e' u = 0) \<and>
    wait_pc e' = (\<lambda>a. if wait_pc e a = Suspended then Released else wait_pc e a)"
  using set_releases_all [OF manual_event_sys.reachable_inv [OF assms(1)] assms(2)]
  by (simp add: suspended_def)

theorem manual_event_set_returns_witness:
  "\<exists>e'. set_loop (set_exchange demo_waiting 2) 2 = Some e' \<and> is_set e' \<and> wait_pc e' 16 = Released"
proof -
  have "\<forall>u. resuming demo_waiting u = 0" by (simp add: demo_waiting_pc)
  from manual_event_set_returns [OF demo_waiting_reachable this, of 2] show ?thesis
    by (auto simp: demo_waiting_pc)
qed

end
