(* ===== verification/Async_Latch.thy ===== *)
theory Async_Latch
  imports Manual_Reset_Event
begin

text \<open>
  include/coro/awaitable/async_latch.h: a counter over an async_manual_reset_event. Coroutines
  wait for the event; the call of \<open>count_down\<close> that takes the counter to zero or below sets it.
  The latch uses the event only as an event that is never reset (\<open>one_way_event\<close>). Totals stay
  below \<open>2 ^ 62\<close> in size and no call counts up.
\<close>

section \<open>The latch\<close>

text \<open>
  \<open>counting\<close>: the calls of \<open>count_down\<close> between their decrement and their \<open>set\<close>; \<open>counted\<close> is the
  sum of all decrements so far, \<open>initial\<close> the count of the constructor.
\<close>

record latch =
  m_count :: u64
  m_event :: event
  counting :: "nat \<Rightarrow> bool"
  counted :: int
  initial :: int

definition latch_new :: "u64 \<Rightarrow> u64 \<Rightarrow> latch" where
  "latch_new this init_count = \<lparr>m_count = init_count, m_event = event_new this (sint init_count \<le> 0),
     counting = (\<lambda>_. False), counted = 0, initial = sint init_count\<rparr>"

definition is_ready :: "latch \<Rightarrow> bool" where
  "is_ready l \<longleftrightarrow> is_set (m_event l)"

definition count_down :: "latch \<Rightarrow> nat \<Rightarrow> u64 \<Rightarrow> latch" where
  "count_down l t n =
     l\<lparr>m_count := m_count l - n, counting := (counting l)(t := sint (m_count l) \<le> sint n),
       counted := counted l + sint n\<rparr>"

definition count_set :: "latch \<Rightarrow> nat \<Rightarrow> latch" where
  "count_set l t = l\<lparr>m_event := set_exchange (m_event l) t, counting := (counting l)(t := False)\<rparr>"

inductive latch_step :: "latch \<Rightarrow> latch \<Rightarrow> bool" where
  ls_wait: "wait_step (m_event l) e' \<Longrightarrow> latch_step l (l\<lparr>m_event := e'\<rparr>)"
| ls_count: "\<not> counting l t \<Longrightarrow> resuming (m_event l) t = 0 \<Longrightarrow> 0 \<le> sint n \<Longrightarrow>
    counted l + sint n < 2 ^ 62 \<Longrightarrow> latch_step l (count_down l t n)"
| ls_set: "counting l t \<Longrightarrow> latch_step l (count_set l t)"

definition latch_init :: "u64 \<Rightarrow> latch \<Rightarrow> bool" where
  "latch_init init_count l \<longleftrightarrow> \<bar>sint init_count\<bar> < 2 ^ 62 \<and> (\<exists>this. this \<noteq> 0 \<and> l = latch_new this init_count)"

section \<open>The invariant\<close>

definition latch_inv :: "u64 \<Rightarrow> latch \<Rightarrow> bool" where
  "latch_inv n0 l \<longleftrightarrow> event_one_way (m_event l) \<and> initial l = sint n0 \<and> \<bar>initial l\<bar> < 2 ^ 62 \<and>
     0 \<le> counted l \<and> counted l < 2 ^ 62 \<and> m_count l = word_of_int (initial l - counted l) \<and>
     (\<forall>t. counting l t \<longrightarrow> resuming (m_event l) t = 0) \<and>
     (initial l \<le> counted l \<longleftrightarrow> is_ready l \<or> (\<exists>t. counting l t))"

lemma event_new_one_way: "this \<noteq> 0 \<Longrightarrow> event_one_way (event_new this b)"
  by (auto simp: event_one_way_def event_inv_new) (auto simp: event_new_def)

lemma latch_inv_init: "latch_init n0 l \<Longrightarrow> latch_inv n0 l"
  by (auto simp: latch_init_def latch_inv_def latch_new_def event_new_one_way is_ready_def)
    (auto simp: event_new_def is_set_def split: if_splits)

text \<open>A call that is about to set the event is not resuming: waiting steps only empty hands.\<close>

lemma wait_step_hands: "wait_step e e' \<Longrightarrow> resuming e t = 0 \<Longrightarrow> resuming e' t = 0"
  by (erule wait_step.cases)
    (auto simp: await_ready_def await_load_def await_round_def set_resume_def Let_def)

lemma latch_inv_count:
  assumes inv: "latch_inv n0 l" and n: "0 \<le> sint n" "counted l + sint n < 2 ^ 62"
    and t: "\<not> counting l t" "resuming (m_event l) t = 0"
  shows "latch_inv n0 (count_down l t n)"
proof -
  have b: "\<bar>initial l - counted l\<bar> < 2 ^ 63" using inv by (auto simp: latch_inv_def)
  have "sint (m_count l) = initial l - counted l"
    using sint_diff_of_int [of "initial l - counted l" 0] b inv by (simp add: latch_inv_def)
  then have fires: "sint (m_count l) \<le> sint n \<longleftrightarrow> initial l \<le> counted l + sint n" by auto
  have "m_count l - n = word_of_int (initial l - counted l) - word_of_int (sint n)"
    using inv by (simp add: latch_inv_def)
  also have "\<dots> = word_of_int (initial l - counted l - sint n)" by (rule wi_hom_sub)
  finally have "m_count l - n = word_of_int (initial l - (counted l + sint n))" by (simp add: diff_diff_eq)
  moreover have "initial l \<le> counted l + sint n \<longleftrightarrow>
      is_set (m_event l) \<or> (\<exists>u. ((counting l)(t := sint (m_count l) \<le> sint n)) u)"
  proof (cases "sint (m_count l) \<le> sint n")
    case True
    then show ?thesis using fires by auto
  next
    case False
    then have "\<not> initial l \<le> counted l" using fires n by linarith
    then show ?thesis using False fires inv by (auto simp: latch_inv_def is_ready_def)
  qed
  ultimately show ?thesis using inv n t by (auto simp: latch_inv_def count_down_def is_ready_def)
qed

lemma latch_inv_step:
  assumes inv: "latch_inv n0 l" and step: "latch_step l l'"
  shows "latch_inv n0 l'"
  using step
proof cases
  case (ls_wait e')
  have "event_one_way (m_event l)" using inv by (simp add: latch_inv_def)
  then have "event_one_way e'" "is_set e' = is_set (m_event l)"
    using ls_wait(2) manual_event.ok_waits manual_event.waits_signalled by auto
  then show ?thesis using inv ls_wait wait_step_hands by (auto simp: latch_inv_def is_ready_def)
next
  case (ls_count t n)
  then show ?thesis using latch_inv_count [OF inv] by simp
next
  case (ls_set t)
  have ow: "event_one_way (m_event l)" and t: "resuming (m_event l) t = 0"
    using inv ls_set by (auto simp: latch_inv_def)
  have "event_one_way (set_exchange (m_event l) t)" by (rule manual_event.ok_signal [OF ow t])
  moreover have "initial l \<le> counted l" using inv ls_set by (auto simp: latch_inv_def)
  moreover have "resuming (set_exchange (m_event l) t) u = 0" if "u \<noteq> t" "resuming (m_event l) u = 0" for u
    using that by (simp add: set_exchange_def Let_def)
  ultimately show ?thesis using inv ls_set manual_event.signal_signals
    by (auto simp: latch_inv_def count_set_def is_ready_def)
qed

interpretation latch_sys: invariant_system "latch_init n0" latch_step "latch_inv n0"
  by unfold_locales (auto intro: latch_inv_init latch_inv_step)

section \<open>A run\<close>

lemma demo_latch_reachable:
  "reachable (latch_init 1) latch_step (count_set (count_down (latch_new 8 1) 2 1) 2)"
proof -
  have "latch_init 1 (latch_new 8 1)" by (auto simp: latch_init_def intro!: exI [of _ 8])
  then have "reachable (latch_init 1) latch_step (latch_new 8 1)" by (rule reachable_init)
  then have "reachable (latch_init 1) latch_step (count_down (latch_new 8 1) 2 1)"
    by (rule reachable_step) (rule ls_count, simp_all add: latch_new_def event_new_def)
  then show ?thesis
    by (rule reachable_step) (rule ls_set, simp add: count_down_def latch_new_def)
qed

section \<open>Property\<close>

text \<open>
  A latch releases exactly when it has been counted down: a coroutine gets past the latch, or
  the latch reports that it is ready, only after the calls of count_down have taken at least the
  initial count; and once they have, and have returned, the latch is ready and no coroutine is
  left suspended, however the calls and the waits interleave.
\<close>

theorem latch_releases_at_zero:
  assumes "reachable (latch_init n0) latch_step l"
  shows "(wait_pc (m_event l) a = Released \<or> is_ready l \<longrightarrow> initial l \<le> counted l) \<and>
    (initial l \<le> counted l \<and> (\<forall>t. \<not> counting l t \<and> resuming (m_event l) t = 0) \<longrightarrow>
      is_ready l \<and> wait_pc (m_event l) a \<noteq> Suspended)"
proof -
  have inv: "latch_inv n0 l" by (rule latch_sys.reachable_inv [OF assms])
  then have ow: "event_one_way (m_event l)" by (simp add: latch_inv_def)
  have "initial l \<le> counted l \<longleftrightarrow> is_ready l \<or> (\<exists>t. counting l t)"
    using inv unfolding latch_inv_def by blast
  then show ?thesis
    using manual_event.released_signalled [OF ow, of a] manual_event.waiting_signalled [OF ow, of a]
    by (auto simp: is_ready_def suspended_def)
qed

theorem latch_releases_at_zero_witness:
  "\<exists>l. reachable (latch_init 1) latch_step l \<and> initial l \<le> counted l \<and> is_ready l \<and> wait_pc (m_event l) 16 \<noteq> Suspended"
proof -
  let ?l = "count_set (count_down (latch_new 8 1) 2 1) 2"
  have a: "initial ?l \<le> counted ?l" by (simp add: count_set_def count_down_def latch_new_def)
  have b: "\<forall>t. \<not> counting ?l t \<and> resuming (m_event ?l) t = 0"
    by (simp add: count_set_def count_down_def latch_new_def event_new_def set_exchange_def)
  show ?thesis using demo_latch_reachable a b latch_releases_at_zero [OF demo_latch_reachable, of 16] by blast
qed

end
