(* ===== verification/Single_Consumer.thy ===== *)
theory Single_Consumer
  imports Coro_Prelude
begin

text \<open>
  include/coro/awaitable/single_consumer_event.h and single_consumer_async_auto_reset_event.h: two
  events that one coroutine at a time waits for. A word holds a constant for set and not set or
  the address of the waiting coroutine.
\<close>

section \<open>single_consumer_event\<close>

text \<open>
  The consumer: not waiting, past \<open>await_ready\<close>, suspended, past the wait. \<open>waking t\<close> is the
  handle that the call \<open>t\<close> of \<open>set\<close> has taken and is about to resume, or null.
\<close>

datatype consumer_pc = Outside | Not_ready | Suspended | Released

record event =
  m_state :: u64
  handle :: u64
  consumer :: consumer_pc
  waking :: "nat \<Rightarrow> u64"

definition not_set_state :: u64 where "not_set_state = 0"

definition set_state :: u64 where "set_state = - 1"

definition event_new :: "u64 \<Rightarrow> bool \<Rightarrow> event" where
  "event_new h init = \<lparr>m_state = (if init then set_state else not_set_state), handle = h,
     consumer = Outside, waking = (\<lambda>_. 0)\<rparr>"

definition is_set :: "event \<Rightarrow> bool" where
  "is_set e \<longleftrightarrow> m_state e = set_state"

definition set_event :: "event \<Rightarrow> nat \<Rightarrow> event" where
  "set_event e t =
     (let old_state = m_state e
      in e\<lparr>m_state := set_state,
           waking := (waking e)(t := if old_state \<noteq> not_set_state \<and> old_state \<noteq> set_state
                                     then old_state else 0)\<rparr>)"

definition set_resume :: "event \<Rightarrow> nat \<Rightarrow> event" where
  "set_resume e t = e\<lparr>waking := (waking e)(t := 0), consumer := Released\<rparr>"

definition reset_event :: "event \<Rightarrow> event" where
  "reset_event e = (if m_state e = set_state then e\<lparr>m_state := not_set_state\<rparr> else e)"

definition await_ready :: "event \<Rightarrow> event" where
  "await_ready e = e\<lparr>consumer := if is_set e then Released else Not_ready\<rparr>"

definition await_suspend :: "event \<Rightarrow> event" where
  "await_suspend e =
     (if m_state e = not_set_state then e\<lparr>m_state := handle e, consumer := Suspended\<rparr>
      else e\<lparr>consumer := Released\<rparr>)"

inductive event_step :: "event \<Rightarrow> event \<Rightarrow> bool" where
  se_ready: "consumer e \<in> {Outside, Released} \<Longrightarrow> event_step e (await_ready e)"
| se_suspend: "consumer e = Not_ready \<Longrightarrow> event_step e (await_suspend e)"
| se_set: "waking e t = 0 \<Longrightarrow> event_step e (set_event e t)"
| se_resume: "waking e t \<noteq> 0 \<Longrightarrow> event_step e (set_resume e t)"
| se_reset: "event_step e (reset_event e)"

definition event_init :: "event \<Rightarrow> bool" where
  "event_init e \<longleftrightarrow> (\<exists>h init. h \<noteq> not_set_state \<and> h \<noteq> set_state \<and> e = event_new h init)"

text \<open>
  The consumer is suspended exactly while its handle is in the word or in the hands of one call.
\<close>

definition event_inv :: "event \<Rightarrow> bool" where
  "event_inv e \<longleftrightarrow> handle e \<noteq> not_set_state \<and> handle e \<noteq> set_state \<and>
     m_state e \<in> {not_set_state, set_state, handle e} \<and> (\<forall>t. waking e t \<in> {0, handle e}) \<and>
     (\<forall>t u. waking e t \<noteq> 0 \<and> waking e u \<noteq> 0 \<longrightarrow> t = u) \<and>
     (m_state e = handle e \<longrightarrow> (\<forall>t. waking e t = 0)) \<and>
     (consumer e = Suspended \<longleftrightarrow> m_state e = handle e \<or> (\<exists>t. waking e t \<noteq> 0))"

lemma consumer_inv_step:
  assumes inv: "event_inv e" and step: "event_step e e'"
  shows "event_inv e'"
  using step
proof cases
  case se_ready
  then show ?thesis using inv by (auto simp: event_inv_def await_ready_def)
next
  case se_suspend
  then show ?thesis using inv by (auto simp: event_inv_def await_suspend_def)
next
  case (se_set t)
  show ?thesis
  proof (cases "m_state e = handle e")
    case True
    then have "waking e' = (\<lambda>_. 0)(t := handle e)" "consumer e' = Suspended" "handle e' = handle e"
      using inv se_set by (auto simp: event_inv_def set_event_def fun_eq_iff)
    moreover have "m_state e' = set_state" using se_set by (simp add: set_event_def Let_def)
    ultimately show ?thesis using inv by (auto simp: event_inv_def not_set_state_def)
  next
    case False
    then have "m_state e \<in> {not_set_state, set_state}" using inv by (simp add: event_inv_def)
    then have "waking e' = waking e" using se_set by (auto simp: set_event_def)
    then show ?thesis using inv se_set False by (auto simp: event_inv_def set_event_def Let_def)
  qed
next
  case (se_resume t)
  then show ?thesis using inv by (auto simp: event_inv_def set_resume_def)
next
  case se_reset
  then show ?thesis using inv by (auto simp: event_inv_def reset_event_def)
qed

interpretation consumer_event_sys: invariant_system event_init event_step event_inv
proof
  show "event_inv e" if "event_init e" for e
    using that by (auto simp: event_init_def event_inv_def event_new_def split: if_splits)
qed (rule consumer_inv_step)

section \<open>single_consumer_async_auto_reset_event\<close>

text \<open>
  The word is null, the event's own address (set), or the address of the awaiter's handle.
\<close>

record auto_event =
  self :: u64
  a_state :: u64
  awaiting :: u64
  passed :: nat
  blocked :: bool

definition auto_new :: "u64 \<Rightarrow> u64 \<Rightarrow> bool \<Rightarrow> auto_event" where
  "auto_new this h init =
     \<lparr>self = this, a_state = (if init then this else 0), awaiting = h, passed = 0, blocked = False\<rparr>"

definition auto_set :: "auto_event \<Rightarrow> auto_event" where
  "auto_set e =
     (let old_state = a_state e
      in if old_state \<noteq> 0 \<and> old_state \<noteq> self e
         then e\<lparr>a_state := 0, passed := Suc (passed e), blocked := False\<rparr> else e)"

text \<open>\<open>None\<close>: the assertion on the old word fails.\<close>

definition auto_wait :: "auto_event \<Rightarrow> auto_event option" where
  "auto_wait e =
     (if a_state e = 0 then Some (e\<lparr>a_state := awaiting e, blocked := True\<rparr>)
      else if a_state e \<noteq> self e then None
      else Some (e\<lparr>a_state := 0, passed := Suc (passed e)\<rparr>))"

lemma auto_set_without_waiter: "a_state e = 0 \<or> a_state e = self e \<Longrightarrow> auto_set e = e"
  by (auto simp: auto_set_def)

lemma auto_set_funpow: "a_state e = 0 \<Longrightarrow> (auto_set ^^ n) e = e"
  by (induction n) (simp_all add: auto_set_without_waiter)

section \<open>Properties\<close>

text \<open>
  However often single_consumer_async_auto_reset_event is set while nobody waits, the signals
  are lost: the next coroutine that waits is suspended, although an event that is set without a
  waiter is meant to stay set.
\<close>

theorem auto_event_loses_signals:
  "\<exists>e'. auto_wait ((auto_set ^^ n) (auto_new this h False)) = Some e' \<and> blocked e' \<and> passed e' = 0"
  by (simp add: auto_set_funpow auto_wait_def auto_new_def)

text \<open>
  However calls on single_consumer_event interleave, with one coroutine that waits at a time:
  the coroutine is resumed only while it is suspended and by one call, and when the event is set
  and no call of set is at work the coroutine is not left suspended.
\<close>

theorem consumer_event_wakeup:
  assumes "reachable event_init event_step e"
  shows "(waking e t \<noteq> 0 \<longrightarrow> consumer e = Suspended \<and> (\<forall>u. u \<noteq> t \<longrightarrow> waking e u = 0)) \<and>
    (is_set e \<and> (\<forall>t. waking e t = 0) \<longrightarrow> consumer e \<noteq> Suspended)"
proof -
  have "event_inv e" by (rule consumer_event_sys.reachable_inv [OF assms])
  then show ?thesis by (auto simp: event_inv_def is_set_def)
qed

theorem consumer_event_wakeup_witness:
  "\<exists>e. reachable event_init event_step e \<and> waking e 2 = 16 \<and> consumer e = Suspended"
proof -
  let ?start = "event_new 16 False"
  let ?e = "set_event (await_suspend (await_ready ?start)) 2"
  note d = event_new_def await_ready_def await_suspend_def is_set_def not_set_state_def set_state_def
    set_event_def
  have "event_init ?start" unfolding event_init_def
    by (rule exI [of _ 16], rule exI [of _ False]) (simp add: not_set_state_def set_state_def)
  then have "reachable event_init event_step ?start" by (rule reachable_init)
  then have "reachable event_init event_step (await_ready ?start)"
    by (rule reachable_step) (rule se_ready, simp add: d)
  then have "reachable event_init event_step (await_suspend (await_ready ?start))"
    by (rule reachable_step) (rule se_suspend, simp add: d)
  then have reach: "reachable event_init event_step ?e"
    by (rule reachable_step) (rule se_set, simp add: d)
  have w: "waking ?e 2 = 16" by (simp add: d)
  have "waking ?e 2 \<noteq> 0" using w by simp
  with consumer_event_wakeup [OF reach, of 2] reach w show ?thesis by blast
qed

end
