(* ===== verification/Shared_Task.thy ===== *)
theory Shared_Task
  imports Waiter_Lists
begin

text \<open>
  include/coro/types/shared_task.h: a coroutine that is started by the first coroutine that awaits
  it and whose result all of them get. The word \<open>m_waiters\<close> of its promise is the address of that
  word itself (not started), the address of the promise (ready), null (started, nobody waits), or
  the address of the first waiter. Waiters are named by their addresses. The coroutine's own body
  is a process that is started, may run for any time on any thread, and ends with a result.
\<close>

section \<open>State\<close>

datatype body_pc = Unstarted | Running | Finishing | Done

datatype wait_pc = Outside | Not_ready | First u64 | Started | Loaded u64 | Suspended | Released

record ('e, 'v) shared_task =
  promise :: u64
  not_started :: u64
  m_waiters :: u64
  m_next :: "u64 \<Rightarrow> u64"
  m_result :: "('e + 'v) option"
  wait_pc :: "u64 \<Rightarrow> wait_pc"
  body :: body_pc
  resuming :: u64
  starts :: nat

text \<open>The promise of a task whose coroutine has just been created.\<close>

definition promise_new :: "u64 \<Rightarrow> u64 \<Rightarrow> ('e, 'v) shared_task" where
  "promise_new this waiters_address =
     \<lparr>promise = this, not_started = waiters_address, m_waiters = waiters_address, m_next = (\<lambda>_. 0),
      m_result = None, wait_pc = (\<lambda>_. Outside), body = Unstarted, resuming = 0, starts = 0\<rparr>"

definition is_ready :: "('e, 'v) shared_task \<Rightarrow> bool" where
  "is_ready s \<longleftrightarrow> m_waiters s = promise s"

definition goto :: "('e, 'v) shared_task \<Rightarrow> u64 \<Rightarrow> wait_pc \<Rightarrow> ('e, 'v) shared_task" where
  "goto s a p = s\<lparr>wait_pc := (wait_pc s)(a := p)\<rparr>"

section \<open>Waiting\<close>

definition await_ready :: "('e, 'v) shared_task \<Rightarrow> u64 \<Rightarrow> ('e, 'v) shared_task" where
  "await_ready s a = goto s a (if is_ready s then Released else Not_ready)"

definition try_load :: "('e, 'v) shared_task \<Rightarrow> u64 \<Rightarrow> ('e, 'v) shared_task" where
  "try_load s a = goto s a (First (m_waiters s))"

text \<open>
  The first compare-exchange of \<open>try_await\<close>: the coroutine that wins resumes the task's body and
  goes on when that returns.
\<close>

definition try_start :: "('e, 'v) shared_task \<Rightarrow> u64 \<Rightarrow> u64 \<Rightarrow> ('e, 'v) shared_task" where
  "try_start s a old =
     (if old = not_started s
      then (if m_waiters s = old
            then (goto s a Started)\<lparr>m_waiters := 0, body := Running, starts := Suc (starts s)\<rparr>
            else goto s a (Loaded (m_waiters s)))
      else goto s a (Loaded old))"

definition start_load :: "('e, 'v) shared_task \<Rightarrow> u64 \<Rightarrow> ('e, 'v) shared_task" where
  "start_load s a = goto s a (Loaded (m_waiters s))"

definition await_round :: "('e, 'v) shared_task \<Rightarrow> u64 \<Rightarrow> u64 \<Rightarrow> bool \<Rightarrow> ('e, 'v) shared_task" where
  "await_round s a old spurious =
     (if old = promise s then goto s a Released
      else (let s1 = s\<lparr>m_next := (m_next s)(a := old)\<rparr>
            in if m_waiters s = old \<and> \<not> spurious then goto (s1\<lparr>m_waiters := a\<rparr>) a Suspended
               else goto s1 a (Loaded (m_waiters s))))"

section \<open>The end of the body\<close>

text \<open>\<open>return_value\<close>, \<open>return_void\<close> or \<open>unhandled_exception\<close>, and then the final suspension.\<close>

definition body_finish :: "('e, 'v) shared_task \<Rightarrow> 'e + 'v \<Rightarrow> ('e, 'v) shared_task" where
  "body_finish s r = s\<lparr>m_result := Some r, body := Finishing\<rparr>"

definition final_exchange :: "('e, 'v) shared_task \<Rightarrow> ('e, 'v) shared_task" where
  "final_exchange s = s\<lparr>m_waiters := promise s, resuming := m_waiters s, body := Done\<rparr>"

definition final_resume :: "('e, 'v) shared_task \<Rightarrow> ('e, 'v) shared_task" where
  "final_resume s =
     (let waiter = resuming s; next_waiter = m_next s waiter
      in goto (s\<lparr>resuming := next_waiter\<rparr>) waiter Released)"

inductive task_step :: "('e, 'v) shared_task \<Rightarrow> ('e, 'v) shared_task \<Rightarrow> bool" where
  ts_ready: "a \<notin> {0, promise s, not_started s} \<Longrightarrow> wait_pc s a \<in> {Outside, Released} \<Longrightarrow>
    task_step s (await_ready s a)"
| ts_load: "wait_pc s a = Not_ready \<Longrightarrow> task_step s (try_load s a)"
| ts_start: "wait_pc s a = First old \<Longrightarrow> task_step s (try_start s a old)"
| ts_started: "wait_pc s a = Started \<Longrightarrow> task_step s (start_load s a)"
| ts_round: "wait_pc s a = Loaded old \<Longrightarrow> task_step s (await_round s a old spurious)"
| ts_finish: "body s = Running \<Longrightarrow> task_step s (body_finish s r)"
| ts_final: "body s = Finishing \<Longrightarrow> task_step s (final_exchange s)"
| ts_resume: "resuming s \<noteq> 0 \<Longrightarrow> task_step s (final_resume s)"

definition task_init :: "('e, 'v) shared_task \<Rightarrow> bool" where
  "task_init s \<longleftrightarrow> (\<exists>p w. p \<noteq> 0 \<and> w \<noteq> 0 \<and> p \<noteq> w \<and> s = promise_new p w)"

section \<open>The result\<close>

text \<open>
  What a coroutine gets that goes on after awaiting the task: \<open>rethrow_if_unhandled_exception\<close> is
  \<open>noexcept\<close>, so an exception that it rethrows ends the program.
\<close>

datatype ('e, 'v) resumed = Value 'v | Broken_promise | Terminates | No_result

definition promise_result :: "('e, 'v) shared_task \<Rightarrow> ('e, 'v) resumed" where
  "promise_result s =
     (case m_result s of None \<Rightarrow> No_result | Some (Inl e) \<Rightarrow> Terminates | Some (Inr v) \<Rightarrow> Value v)"

definition await_resume :: "bool \<Rightarrow> ('e, 'v) shared_task \<Rightarrow> ('e, 'v) resumed" where
  "await_resume has_handle s = (if \<not> has_handle then Broken_promise else promise_result s)"

section \<open>The invariant\<close>

text \<open>The lists of waiters: \<open>False\<close> is the one of the promise, \<open>True\<close> the one being resumed.\<close>

definition list_heads :: "('e, 'v) shared_task \<Rightarrow> bool \<Rightarrow> u64" where
  "list_heads s k =
     (if k then resuming s else if m_waiters s \<in> {promise s, not_started s} then 0 else m_waiters s)"

definition suspended :: "('e, 'v) shared_task \<Rightarrow> u64 \<Rightarrow> bool" where
  "suspended s a \<longleftrightarrow> wait_pc s a = Suspended"

definition pc_ok :: "('e, 'v) shared_task \<Rightarrow> wait_pc \<Rightarrow> bool" where
  "pc_ok s p \<longleftrightarrow>
     (case p of
        Outside \<Rightarrow> True | Not_ready \<Rightarrow> True
      | First old \<Rightarrow> (old \<noteq> not_started s \<longrightarrow> body s \<noteq> Unstarted) \<and> (old = promise s \<longrightarrow> body s = Done)
      | Started \<Rightarrow> body s \<noteq> Unstarted
      | Loaded old \<Rightarrow> body s \<noteq> Unstarted \<and> old \<noteq> not_started s \<and> (old = promise s \<longrightarrow> body s = Done)
      | Suspended \<Rightarrow> body s \<noteq> Unstarted
      | Released \<Rightarrow> body s = Done)"

definition body_ok :: "('e, 'v) shared_task \<Rightarrow> bool" where
  "body_ok s \<longleftrightarrow> (m_waiters s = not_started s \<longleftrightarrow> body s = Unstarted) \<and>
     (m_waiters s = promise s \<longleftrightarrow> body s = Done) \<and> (resuming s \<noteq> 0 \<longrightarrow> body s = Done) \<and>
     starts s = (if body s = Unstarted then 0 else 1) \<and>
     (m_result s \<noteq> None \<longleftrightarrow> body s \<in> {Finishing, Done})"

definition task_inv :: "('e, 'v) shared_task \<Rightarrow> bool" where
  "task_inv s \<longleftrightarrow> promise s \<noteq> 0 \<and> not_started s \<noteq> 0 \<and> promise s \<noteq> not_started s \<and>
     (\<forall>a \<in> {0, promise s, not_started s}. wait_pc s a = Outside) \<and>
     (\<forall>a. pc_ok s (wait_pc s a)) \<and> body_ok s \<and>
     (\<exists>xs. waiter_lists (m_next s) (list_heads s) xs (suspended s))"

lemma goto_task_simps [simp]:
  "promise (goto s a p) = promise s" "not_started (goto s a p) = not_started s"
  "m_waiters (goto s a p) = m_waiters s" "m_next (goto s a p) = m_next s"
  "m_result (goto s a p) = m_result s" "body (goto s a p) = body s" "resuming (goto s a p) = resuming s"
  "starts (goto s a p) = starts s" "wait_pc (goto s a p) = (wait_pc s)(a := p)"
  by (simp_all add: goto_def)

lemma task_heads_simps [simp]:
  "list_heads s True = resuming s"
  "list_heads s False = (if m_waiters s \<in> {promise s, not_started s} then 0 else m_waiters s)"
  by (simp_all add: list_heads_def)

lemma task_inv_address:
  "task_inv s \<Longrightarrow> wait_pc s a \<noteq> Outside \<Longrightarrow> a \<noteq> 0 \<and> a \<noteq> promise s \<and> a \<noteq> not_started s"
  by (auto simp: task_inv_def)

lemma task_inv_parts:
  assumes "task_inv s"
  shows "pc_ok s (wait_pc s a)" "body_ok s"
    "promise s \<noteq> 0" "not_started s \<noteq> 0" "promise s \<noteq> not_started s"
  using assms by (auto simp: task_inv_def)

text \<open>A step of one waiter that was not suspended and is not afterwards.\<close>

lemma task_inv_move:
  assumes inv: "task_inv s"
    and a: "a \<notin> {0, promise s, not_started s}" "wait_pc s a \<noteq> Suspended" "p \<noteq> Suspended" "pc_ok s p"
  shows "task_inv (goto (s\<lparr>m_next := (m_next s)(a := q)\<rparr>) a p)" (is "task_inv ?s")
proof -
  obtain xs where xs: "waiter_lists (m_next s) (list_heads s) xs (suspended s)"
    using inv by (auto simp: task_inv_def)
  have "list_heads ?s = list_heads s" by (auto simp: list_heads_def fun_eq_iff)
  moreover have "suspended ?s = suspended s" using a by (auto simp: suspended_def fun_eq_iff)
  ultimately have wl: "waiter_lists (m_next ?s) (list_heads ?s) xs (suspended ?s)"
    using waiter_lists_touch [OF xs, of a q] a(2) by (simp add: suspended_def)
  have "pc_ok ?s r = pc_ok s r" for r by (cases r) (simp_all add: pc_ok_def)
  moreover have "body_ok ?s = body_ok s" by (simp add: body_ok_def)
  ultimately show ?thesis using inv a wl by (auto simp: task_inv_def)
qed

lemma task_inv_goto:
  assumes "task_inv s" "a \<notin> {0, promise s, not_started s}" "wait_pc s a \<noteq> Suspended" "p \<noteq> Suspended" "pc_ok s p"
  shows "task_inv (goto s a p)"
  using task_inv_move [OF assms, of "m_next s a"] by simp

lemma task_inv_push:
  assumes inv: "task_inv s" and pc: "wait_pc s a = Loaded old" and ns: "old \<noteq> promise s" "m_waiters s = old"
  shows "task_inv (goto (s\<lparr>m_next := (m_next s)(a := old), m_waiters := a\<rparr>) a Suspended)" (is "task_inv ?s")
proof -
  note p = task_inv_parts [OF inv]
  have a: "a \<noteq> 0" "a \<noteq> promise s" "a \<noteq> not_started s" using task_inv_address [OF inv, of a] pc by simp_all
  have old: "body s \<noteq> Unstarted" "old \<noteq> not_started s" using p(1) [of a] pc by (simp_all add: pc_ok_def)
  obtain xs where xs: "waiter_lists (m_next s) (list_heads s) xs (suspended s)"
    using inv by (auto simp: task_inv_def)
  have "waiter_lists ((m_next s)(a := old)) (list_heads s) xs (suspended s)"
    by (rule waiter_lists_touch [OF xs]) (simp add: suspended_def pc)
  then have "waiter_lists ((m_next s)(a := old)) ((list_heads s)(False := a)) (xs(False := a # xs False))
      ((suspended s)(a := True))"
    by (rule waiter_lists_push) (use pc a ns old in \<open>simp_all add: suspended_def\<close>)
  moreover have "(list_heads s)(False := a) = list_heads ?s"
    using a by (auto simp: list_heads_def fun_eq_iff)
  moreover have "(suspended s)(a := True) = suspended ?s" by (auto simp: suspended_def fun_eq_iff)
  ultimately have wl: "waiter_lists (m_next ?s) (list_heads ?s) (xs(False := a # xs False)) (suspended ?s)"
    by simp
  have "pc_ok ?s r = pc_ok s r" for r by (cases r) (simp_all add: pc_ok_def)
  moreover have "body_ok ?s" using p(2) ns old a by (auto simp: body_ok_def)
  moreover have "pc_ok s Suspended" using old by (simp add: pc_ok_def)
  ultimately show ?thesis using inv a wl by (auto simp: task_inv_def)
qed

lemma task_inv_round:
  assumes inv: "task_inv s" and pc: "wait_pc s a = Loaded old"
  shows "task_inv (await_round s a old spurious)"
proof -
  note p = task_inv_parts [OF inv]
  have a: "a \<notin> {0, promise s, not_started s}" using task_inv_address [OF inv, of a] pc by simp
  have ok: "pc_ok s (Loaded old)" using p(1) [of a] pc by simp
  have "task_inv (goto s a Released)" if "old = promise s"
    by (rule task_inv_goto [OF inv a]) (use pc ok that in \<open>simp_all add: pc_ok_def\<close>)
  moreover have "task_inv (goto (s\<lparr>m_next := (m_next s)(a := old)\<rparr>) a (Loaded (m_waiters s)))"
    by (rule task_inv_move [OF inv a]) (use pc ok p(2) in \<open>auto simp: pc_ok_def body_ok_def\<close>)
  ultimately show ?thesis using task_inv_push [OF inv pc] by (auto simp: await_round_def Let_def)
qed

lemma task_inv_start:
  assumes inv: "task_inv s" and pc: "wait_pc s a = First old"
  shows "task_inv (try_start s a old)"
proof -
  note p = task_inv_parts [OF inv]
  have a: "a \<notin> {0, promise s, not_started s}" using task_inv_address [OF inv, of a] pc by simp
  have ok: "pc_ok s (First old)" using p(1) [of a] pc by simp
  show ?thesis
  proof (cases "old = not_started s \<and> m_waiters s = old")
    case True
    let ?s = "(goto s a Started)\<lparr>m_waiters := 0, body := Running, starts := Suc (starts s)\<rparr>"
    have b: "body s = Unstarted" using True p(2) by (simp add: body_ok_def)
    obtain xs where xs: "waiter_lists (m_next s) (list_heads s) xs (suspended s)"
      using inv by (auto simp: task_inv_def)
    have "list_heads ?s = list_heads s" using True by (auto simp: list_heads_def fun_eq_iff)
    moreover have "suspended ?s = suspended s" using pc by (auto simp: suspended_def fun_eq_iff)
    ultimately have wl: "waiter_lists (m_next ?s) (list_heads ?s) xs (suspended ?s)" using xs by simp
    have "pc_ok ?s r" if "pc_ok s r" for r using that b by (cases r) (auto simp: pc_ok_def)
    moreover have "pc_ok ?s Started" by (simp add: pc_ok_def)
    moreover have "body_ok ?s" using p b by (auto simp: body_ok_def)
    ultimately have "task_inv ?s" using inv a wl by (auto simp: task_inv_def)
    then show ?thesis using True by (simp add: try_start_def)
  next
    case False
    have "task_inv (goto s a (Loaded (if old = not_started s then m_waiters s else old)))"
      by (rule task_inv_goto [OF inv a]) (use pc ok p(2) False in \<open>auto simp: pc_ok_def body_ok_def\<close>)
    then show ?thesis using False by (auto simp: try_start_def)
  qed
qed

lemma task_inv_loads:
  assumes inv: "task_inv s"
  shows "a \<notin> {0, promise s, not_started s} \<Longrightarrow> wait_pc s a \<in> {Outside, Released} \<Longrightarrow> task_inv (await_ready s a)"
    and "wait_pc s a = Not_ready \<Longrightarrow> task_inv (try_load s a)"
    and "wait_pc s a = Started \<Longrightarrow> task_inv (start_load s a)"
proof -
  note p = task_inv_parts [OF inv]
  show "task_inv (await_ready s a)" if "a \<notin> {0, promise s, not_started s}" "wait_pc s a \<in> {Outside, Released}"
    unfolding await_ready_def
    by (rule task_inv_goto [OF inv]) (use that p(2) in \<open>auto simp: pc_ok_def body_ok_def is_ready_def\<close>)
  show "task_inv (try_load s a)" if "wait_pc s a = Not_ready"
    unfolding try_load_def
    by (rule task_inv_goto [OF inv])
      (use that p(2) task_inv_address [OF inv, of a] in \<open>auto simp: pc_ok_def body_ok_def\<close>)
  show "task_inv (start_load s a)" if "wait_pc s a = Started"
    unfolding start_load_def
    by (rule task_inv_goto [OF inv])
      (use that p(1) [of a] p(2) task_inv_address [OF inv, of a] in \<open>auto simp: pc_ok_def body_ok_def\<close>)
qed

lemma task_inv_body:
  assumes inv: "task_inv s"
  shows "body s = Running \<Longrightarrow> task_inv (body_finish s r)"
    and "body s = Finishing \<Longrightarrow> task_inv (final_exchange s)"
proof -
  note p = task_inv_parts [OF inv]
  obtain xs where xs: "waiter_lists (m_next s) (list_heads s) xs (suspended s)"
    using inv by (auto simp: task_inv_def)
  show "task_inv (body_finish s r)" if b: "body s = Running"
  proof -
    let ?s = "body_finish s r"
    have "list_heads ?s = list_heads s" "suspended ?s = suspended s"
      by (auto simp: list_heads_def suspended_def body_finish_def fun_eq_iff)
    then have "waiter_lists (m_next ?s) (list_heads ?s) xs (suspended ?s)"
      using xs by (simp add: body_finish_def)
    moreover have "pc_ok ?s q" if "pc_ok s q" for q
      using that b by (cases q) (auto simp: pc_ok_def body_finish_def)
    moreover have "body_ok ?s" using p(2) b by (auto simp: body_ok_def body_finish_def)
    ultimately show ?thesis using inv by (auto simp: task_inv_def body_finish_def)
  qed
  show "task_inv (final_exchange s)" if b: "body s = Finishing"
  proof -
    let ?s = "final_exchange s"
    have w: "m_waiters s \<notin> {promise s, not_started s}" "resuming s = 0" using p(2) b by (auto simp: body_ok_def)
    have "waiter_lists (m_next s) ((list_heads s)(False := 0, True := list_heads s False))
        (xs(False := [], True := xs False)) (suspended s)"
      by (rule waiter_lists_take [OF xs]) (simp_all add: w)
    moreover have "(list_heads s)(False := 0, True := list_heads s False) = list_heads ?s"
      using w by (auto simp: list_heads_def final_exchange_def fun_eq_iff)
    moreover have "suspended ?s = suspended s" "m_next ?s = m_next s"
      by (auto simp: suspended_def final_exchange_def fun_eq_iff)
    ultimately have "waiter_lists (m_next ?s) (list_heads ?s) (xs(False := [], True := xs False)) (suspended ?s)"
      by simp
    moreover have "pc_ok ?s q" if "pc_ok s q" for q
      using that b by (cases q) (auto simp: pc_ok_def final_exchange_def)
    moreover have "body_ok ?s" using p b by (auto simp: body_ok_def final_exchange_def)
    ultimately show ?thesis using inv by (auto simp: task_inv_def final_exchange_def)
  qed
qed

lemma task_inv_resume:
  assumes inv: "task_inv s" and nz: "resuming s \<noteq> 0"
  shows "task_inv (final_resume s)" and "suspended s (resuming s)"
proof -
  note p = task_inv_parts [OF inv]
  let ?s = "final_resume s"
  obtain xs where xs: "waiter_lists (m_next s) (list_heads s) xs (suspended s)"
    using inv by (auto simp: task_inv_def)
  have d: "body s = Done" using p(2) nz by (simp add: body_ok_def)
  show susp: "suspended s (resuming s)" using waiter_lists_head_suspended [OF xs, of True] nz by simp
  have "waiter_lists (m_next s) ((list_heads s)(True := m_next s (resuming s)))
      (xs(True := tl (xs True))) ((suspended s)(resuming s := False))"
    using waiter_lists_pop [OF xs, of True] nz by simp
  moreover have "(list_heads s)(True := m_next s (resuming s)) = list_heads ?s"
    by (auto simp: list_heads_def final_resume_def Let_def fun_eq_iff)
  moreover have "(suspended s)(resuming s := False) = suspended ?s"
    by (auto simp: suspended_def final_resume_def Let_def fun_eq_iff)
  moreover have "m_next ?s = m_next s" by (simp add: final_resume_def Let_def)
  ultimately have wl: "waiter_lists (m_next ?s) (list_heads ?s) (xs(True := tl (xs True))) (suspended ?s)"
    by simp
  have "resuming s \<notin> {0, promise s, not_started s}"
    using task_inv_address [OF inv, of "resuming s"] susp by (auto simp: suspended_def)
  moreover have "pc_ok ?s q = pc_ok s q" for q by (cases q) (auto simp: pc_ok_def final_resume_def Let_def)
  moreover have "pc_ok s Released" using d by (simp add: pc_ok_def)
  moreover have "body_ok ?s" using p(2) d by (auto simp: body_ok_def final_resume_def Let_def)
  ultimately show "task_inv ?s" using inv wl by (auto simp: task_inv_def final_resume_def Let_def)
qed

lemma task_inv_step: "task_inv s \<Longrightarrow> task_step s s' \<Longrightarrow> task_inv s'"
  by (erule task_step.cases)
    (simp_all add: task_inv_loads task_inv_start task_inv_round task_inv_body task_inv_resume)

lemma task_inv_init: "task_init s \<Longrightarrow> task_inv s"
proof -
  assume "task_init s"
  then obtain p w where pw: "p \<noteq> 0" "w \<noteq> 0" "p \<noteq> w" "s = promise_new p w" by (auto simp: task_init_def)
  have "list_heads s = (\<lambda>_. 0)" "suspended s = (\<lambda>_. False)"
    using pw by (auto simp: list_heads_def promise_new_def suspended_def fun_eq_iff)
  then have "waiter_lists (m_next s) (list_heads s) (\<lambda>_. []) (suspended s)" by (simp add: waiter_lists_def)
  moreover have "pc_ok s (wait_pc s a)" for a by (simp add: pw(4) promise_new_def pc_ok_def)
  moreover have "body_ok s" using pw by (auto simp: promise_new_def body_ok_def)
  ultimately show ?thesis using pw(1-3) by (auto simp: task_inv_def pw(4) promise_new_def)
qed

interpretation shared_task_sys: invariant_system task_init task_step task_inv
  by unfold_locales (auto intro: task_inv_init task_inv_step)

lemma no_waiter_left:
  assumes inv: "task_inv s" and "body s = Done" "resuming s = 0"
  shows "wait_pc s a \<noteq> Suspended"
proof -
  obtain xs where xs: "waiter_lists (m_next s) (list_heads s) xs (suspended s)"
    using inv by (auto simp: task_inv_def)
  have "list_heads s k = 0" for k using assms task_inv_parts(2) [OF inv]
    by (cases k) (simp_all add: body_ok_def)
  then have "xs k = []" for k using waiter_lists_null [OF xs] by blast
  then show ?thesis using xs by (simp add: waiter_lists_def suspended_def)
qed

section \<open>A run\<close>

definition demo_task :: "(nat, nat) shared_task" where
  "demo_task = try_start (try_load (await_ready (promise_new 8 16) 24) 24) 24 16"

lemma demo_task_reachable: "reachable task_init task_step demo_task"
proof -
  note d = await_ready_def try_load_def promise_new_def is_ready_def
  have "task_init (promise_new 8 16 :: (nat, nat) shared_task)" unfolding task_init_def
    by (rule exI [of _ 8], rule exI [of _ 16]) simp
  then have "reachable task_init task_step (promise_new 8 16 :: (nat, nat) shared_task)" by (rule reachable_init)
  then have "reachable task_init task_step (await_ready (promise_new 8 16) 24 :: (nat, nat) shared_task)"
    by (rule reachable_step) (rule ts_ready, simp_all add: d)
  then have "reachable task_init task_step (try_load (await_ready (promise_new 8 16) 24) 24 :: (nat, nat) shared_task)"
    by (rule reachable_step) (rule ts_load, simp add: d)
  then show ?thesis unfolding demo_task_def
    by (rule reachable_step) (rule ts_start, simp add: d)
qed

lemma demo_task_finished:
  "reachable task_init task_step (await_round (start_load (final_exchange (body_finish demo_task r)) 24) 24 8 False)"
proof -
  note d = demo_task_def try_start_def try_load_def await_ready_def promise_new_def is_ready_def
    body_finish_def final_exchange_def start_load_def
  have "reachable task_init task_step (body_finish demo_task r)"
    by (rule reachable_step [OF demo_task_reachable]) (rule ts_finish, simp add: d)
  then have "reachable task_init task_step (final_exchange (body_finish demo_task r))"
    by (rule reachable_step) (rule ts_final, simp add: d)
  then have "reachable task_init task_step (start_load (final_exchange (body_finish demo_task r)) 24)"
    by (rule reachable_step) (rule ts_started, simp add: d)
  then show ?thesis
    by (rule reachable_step) (rule ts_round, simp add: d)
qed

section \<open>Properties\<close>

text \<open>
  C34. A shared task runs once and wakes all: however coroutines await it and its body runs, the
  body is started at most once; a coroutine goes on only when the task has a result; the
  coroutine about to be resumed is suspended; and once the body is done and its final suspension
  has returned no coroutine is left suspended.
\<close>

theorem shared_task_runs_once:
  assumes "reachable task_init task_step s"
  shows "starts s \<le> 1 \<and> (wait_pc s a = Released \<longrightarrow> m_result s \<noteq> None) \<and>
    (wait_pc s a = Suspended \<longrightarrow> starts s = 1) \<and>
    (resuming s \<noteq> 0 \<longrightarrow> wait_pc s (resuming s) = Suspended) \<and>
    (body s = Done \<and> resuming s = 0 \<longrightarrow> wait_pc s a \<noteq> Suspended)"
proof -
  have inv: "task_inv s" by (rule shared_task_sys.reachable_inv [OF assms])
  then have "pc_ok s (wait_pc s a)" "body_ok s" by (rule task_inv_parts)+
  then show ?thesis using task_inv_resume(2) [OF inv] no_waiter_left [OF inv]
    by (auto simp: pc_ok_def body_ok_def suspended_def split: wait_pc.splits)
qed

theorem shared_task_runs_once_witness:
  "\<exists>s. reachable task_init task_step (s :: (nat, nat) shared_task) \<and> wait_pc s 24 = Released \<and>
     starts s \<le> 1 \<and> m_result s \<noteq> None"
proof -
  let ?s = "await_round (start_load (final_exchange (body_finish demo_task (Inr 5))) 24) 24 8 False"
  have "wait_pc ?s 24 = Released"
    by (simp add: demo_task_def try_start_def try_load_def await_ready_def promise_new_def is_ready_def
      body_finish_def final_exchange_def start_load_def await_round_def)
  then show ?thesis using shared_task_runs_once [OF demo_task_finished, of "Inr 5" 24] demo_task_finished [of "Inr 5"]
    by blast
qed

text \<open>
  A coroutine that goes on after awaiting a shared task gets the value that its body
  returned, but when the body threw an exception the program terminates instead of the exception
  reaching the coroutine.
\<close>

theorem shared_task_result:
  assumes "reachable task_init task_step s" and "wait_pc s a = Released"
  shows "\<exists>r. m_result s = Some r \<and>
    await_resume True s = (case r of Inl e \<Rightarrow> Terminates | Inr v \<Rightarrow> Value v)"
proof -
  have inv: "task_inv s" by (rule shared_task_sys.reachable_inv [OF assms(1)])
  then have "pc_ok s (wait_pc s a)" "body_ok s" by (rule task_inv_parts)+
  then obtain r where "m_result s = Some r" using assms(2) by (auto simp: pc_ok_def body_ok_def)
  then show ?thesis by (simp add: await_resume_def promise_result_def split: sum.split)
qed

theorem shared_task_result_witness:
  "\<exists>s. reachable task_init task_step (s :: (nat, nat) shared_task) \<and> await_resume True s = Terminates"
proof -
  let ?s = "await_round (start_load (final_exchange (body_finish demo_task (Inl 7))) 24) 24 8 False"
  note d = demo_task_def try_start_def try_load_def await_ready_def promise_new_def is_ready_def
      body_finish_def final_exchange_def start_load_def await_round_def
  have "wait_pc ?s 24 = Released" by (simp add: d)
  moreover have "m_result ?s = Some (Inl 7)" by (simp add: d)
  ultimately show ?thesis using shared_task_result [OF demo_task_finished, of "Inl 7" 24] demo_task_finished [of "Inl 7"]
    by force
qed

end
