(* ===== verification/Shared_Task_Handles.thy ===== *)
theory Shared_Task_Handles
  imports Coro_Prelude
begin

text \<open>
  include/coro/types/shared_task.h: the shared_task objects that refer to coroutines and share
  them by the reference count in the promise. Objects and coroutines are numbered, 0 is the null
  handle; an operation that touches the promise of a destroyed coroutine is \<open>None\<close>.
\<close>

section \<open>Operations\<close>

record heap =
  m_ref_count :: "nat \<Rightarrow> u32"
  live :: "nat \<Rightarrow> bool"
  m_handle :: "nat \<Rightarrow> nat"

definition heap_empty :: heap where
  "heap_empty = \<lparr>m_ref_count = (\<lambda>_. 0), live = (\<lambda>_. False), m_handle = (\<lambda>_. 0)\<rparr>"

definition set_handle :: "heap \<Rightarrow> nat \<Rightarrow> nat \<Rightarrow> heap" where
  "set_handle h i p = h\<lparr>m_handle := (m_handle h)(i := p)\<rparr>"

text \<open>A call of a coroutine function: a promise with count one, and the object for it.\<close>

definition task_create :: "nat \<Rightarrow> nat \<Rightarrow> heap \<Rightarrow> heap" where
  "task_create i p h =
     set_handle (h\<lparr>m_ref_count := (m_ref_count h)(p := 1), live := (live h)(p := True)\<rparr>) i p"

definition add_ref :: "nat \<Rightarrow> heap \<Rightarrow> heap option" where
  "add_ref p h =
     (if live h p then Some (h\<lparr>m_ref_count := (m_ref_count h)(p := m_ref_count h p + 1)\<rparr>) else None)"

definition try_detach :: "nat \<Rightarrow> heap \<Rightarrow> (heap \<times> bool) option" where
  "try_detach p h =
     (if live h p
      then Some (h\<lparr>m_ref_count := (m_ref_count h)(p := m_ref_count h p - 1)\<rparr>, m_ref_count h p \<noteq> 1)
      else None)"

text \<open>\<open>destroy\<close> leaves \<open>m_handle\<close> as it is; its callers overwrite it or end the object's life.\<close>

definition task_destroy :: "nat \<Rightarrow> heap \<Rightarrow> heap option" where
  "task_destroy i h =
     (if m_handle h i = 0 then Some h
      else map_option (\<lambda>(h', detached). if detached then h' else h'\<lparr>live := (live h')(m_handle h i := False)\<rparr>)
             (try_detach (m_handle h i) h))"

definition task_end :: "nat \<Rightarrow> heap \<Rightarrow> heap option" where
  "task_end i h = map_option (\<lambda>h'. set_handle h' i 0) (task_destroy i h)"

definition task_copy :: "nat \<Rightarrow> nat \<Rightarrow> heap \<Rightarrow> heap option" where
  "task_copy i t h =
     (let h' = set_handle h i (m_handle h t)
      in if m_handle h t \<noteq> 0 then add_ref (m_handle h t) h' else Some h')"

definition task_move :: "nat \<Rightarrow> nat \<Rightarrow> heap \<Rightarrow> heap" where
  "task_move i t h = set_handle (set_handle h i (m_handle h t)) t 0"

definition task_assign :: "nat \<Rightarrow> nat \<Rightarrow> heap \<Rightarrow> heap option" where
  "task_assign i t h =
     (if m_handle h i \<noteq> m_handle h t then Option.bind (task_destroy i h) (task_copy i t) else Some h)"

definition task_move_assign :: "nat \<Rightarrow> nat \<Rightarrow> heap \<Rightarrow> heap option" where
  "task_move_assign i t h =
     (if t \<noteq> i then map_option (task_move i t) (task_destroy i h) else Some h)"

text \<open>
  What the program does with \<open>N\<close> objects; \<open>None\<close> is the use of a destroyed coroutine. The
  constructors act on an object without a handle.
\<close>

inductive heap_step :: "nat \<Rightarrow> heap \<Rightarrow> heap option \<Rightarrow> bool" for N where
  hs_create: "i < N \<Longrightarrow> m_handle h i = 0 \<Longrightarrow> p \<noteq> 0 \<Longrightarrow> \<not> live h p \<Longrightarrow> heap_step N h (Some (task_create i p h))"
| hs_copy: "i < N \<Longrightarrow> t < N \<Longrightarrow> m_handle h i = 0 \<Longrightarrow> heap_step N h (task_copy i t h)"
| hs_move: "i < N \<Longrightarrow> t < N \<Longrightarrow> i \<noteq> t \<Longrightarrow> m_handle h i = 0 \<Longrightarrow> heap_step N h (Some (task_move i t h))"
| hs_end: "i < N \<Longrightarrow> heap_step N h (task_end i h)"
| hs_assign: "i < N \<Longrightarrow> t < N \<Longrightarrow> heap_step N h (task_assign i t h)"
| hs_move_assign: "i < N \<Longrightarrow> t < N \<Longrightarrow> heap_step N h (task_move_assign i t h)"

inductive heap_run :: "nat \<Rightarrow> heap option \<Rightarrow> bool" for N where
  hr_start: "heap_run N (Some heap_empty)"
| hr_step: "heap_run N (Some h) \<Longrightarrow> heap_step N h h' \<Longrightarrow> heap_run N h'"

section \<open>The counts\<close>

definition heap_inv :: "nat \<Rightarrow> heap \<Rightarrow> bool" where
  "heap_inv N h \<longleftrightarrow> (\<forall>i. N \<le> i \<longrightarrow> m_handle h i = 0) \<and>
     (\<forall>p. p \<noteq> 0 \<longrightarrow> (live h p \<longleftrightarrow> 0 < processes_at N (m_handle h) p) \<and>
        (live h p \<longrightarrow> m_ref_count h p = of_nat (processes_at N (m_handle h) p)))"

lemma of_nat_one: "n < 2 ^ 32 \<Longrightarrow> (of_nat n :: u32) = 1 \<longleftrightarrow> n = 1"
proof -
  assume n: "n < 2 ^ 32"
  then have "unat (of_nat n :: u32) = n" by (subst unat_of_nat) (rule mod_less, simp)
  then show ?thesis by (metis unat_1 word_unat_eq_iff of_nat_1)
qed

lemma refs_create:
  assumes inv: "heap_inv N h" and i: "i < N" "m_handle h i = 0" and p: "p \<noteq> 0" "\<not> live h p"
  shows "heap_inv N (task_create i p h)"
proof -
  have "processes_at N (m_handle h) p = 0" using inv p by (auto simp: heap_inv_def)
  moreover have "processes_at N ((m_handle h)(i := p)) q = processes_at N (m_handle h) q + (if p = q then 1 else 0)" if "q \<noteq> 0" for q
    using processes_at_upd [OF i(1), of "m_handle h" p q] i(2) that by simp
  ultimately show ?thesis using inv i p by (auto simp: heap_inv_def task_create_def set_handle_def)
qed

lemma refs_copy:
  assumes inv: "heap_inv N h" and i: "i < N" "t < N" "m_handle h i = 0"
  shows "\<exists>h'. task_copy i t h = Some h' \<and> heap_inv N h' \<and> m_handle h' = (m_handle h)(i := m_handle h t)"
proof (cases "m_handle h t = 0")
  case True
  then show ?thesis using inv i by (auto simp: task_copy_def set_handle_def fun_upd_idem)
next
  case False
  let ?p = "m_handle h t"
  have lv: "live h ?p" using inv processes_at_pos [OF i(2), of "m_handle h"] refl False by (simp add: heap_inv_def)
  have "processes_at N ((m_handle h)(i := ?p)) q = processes_at N (m_handle h) q + (if ?p = q then 1 else 0)" if "q \<noteq> 0" for q
    using processes_at_upd [OF i(1), of "m_handle h" ?p q] i(3) that by simp
  then show ?thesis using inv i False lv
    by (auto simp: heap_inv_def task_copy_def set_handle_def add_ref_def)
qed

lemma refs_end:
  assumes inv: "heap_inv N h" and i: "i < N" and N: "N < 2 ^ 32"
  shows "\<exists>h'. task_destroy i h = Some h' \<and> m_handle h' = m_handle h \<and> heap_inv N (set_handle h' i 0)"
proof (cases "m_handle h i = 0")
  case True
  then show ?thesis using inv by (auto simp: task_destroy_def set_handle_def fun_upd_idem)
next
  case False
  let ?p = "m_handle h i"
  have pos: "0 < processes_at N (m_handle h) ?p" by (rule processes_at_pos [OF i refl])
  have lv: "live h ?p" and cnt: "m_ref_count h ?p = of_nat (processes_at N (m_handle h) ?p)"
    using inv pos False by (auto simp: heap_inv_def)
  have "processes_at N (m_handle h) ?p < 2 ^ 32" using processes_at_bound [of N "m_handle h" ?p] N by simp
  then have last: "m_ref_count h ?p = 1 \<longleftrightarrow> processes_at N (m_handle h) ?p = 1" unfolding cnt by (rule of_nat_one)
  have r: "processes_at N ((m_handle h)(i := 0)) q = processes_at N (m_handle h) q - (if ?p = q then 1 else 0)" if "q \<noteq> 0" for q
    using processes_at_upd [OF i, of "m_handle h" 0 q] that by auto
  have dec: "(of_nat (n - 1) :: u32) = of_nat n - 1" if "0 < n" for n using that by (simp add: of_nat_diff)
  show ?thesis using inv i False lv last pos cnt r dec [OF pos]
    by (auto simp: heap_inv_def task_destroy_def set_handle_def try_detach_def)
qed

lemma refs_move:
  assumes inv: "heap_inv N h" and i: "i < N" "t < N" "i \<noteq> t" "m_handle h i = 0"
  shows "heap_inv N (task_move i t h)"
proof -
  let ?f = "m_handle h"
  have "processes_at N (?f(i := ?f t, t := 0)) q = processes_at N ?f q" if "q \<noteq> 0" for q
    using processes_at_upd [OF i(1), of ?f "?f t" q] processes_at_upd [OF i(2), of "?f(i := ?f t)" 0 q] i that by auto
  then show ?thesis using inv i by (auto simp: heap_inv_def task_move_def set_handle_def)
qed

text \<open>Copying and moving overwrite the handle that \<open>destroy\<close> has left behind.\<close>

lemma task_copy_overwrites: "i \<noteq> t \<Longrightarrow> task_copy i t (set_handle h i q) = task_copy i t h"
  by (simp add: task_copy_def set_handle_def Let_def)

lemma task_move_overwrites: "i \<noteq> t \<Longrightarrow> task_move i t (set_handle h i q) = task_move i t h"
  by (simp add: task_move_def set_handle_def)

lemma heap_inv_step:
  assumes inv: "heap_inv N h" and step: "heap_step N h h'" and N: "N < 2 ^ 32"
  shows "\<exists>g. h' = Some g \<and> heap_inv N g"
  using step
proof cases
  case (hs_create i p)
  then show ?thesis using refs_create [OF inv] by auto
next
  case (hs_copy i t)
  then show ?thesis using refs_copy [OF inv] by metis
next
  case (hs_move i t)
  then show ?thesis using refs_move [OF inv] by auto
next
  case (hs_end i)
  then show ?thesis using refs_end [OF inv _ N] by (force simp: task_end_def)
next
  case (hs_assign i t)
  then obtain g where g: "task_destroy i h = Some g" "m_handle g = m_handle h" "heap_inv N (set_handle g i 0)"
    using refs_end [OF inv _ N] by blast
  show ?thesis
  proof (cases "m_handle h i = m_handle h t")
    case True
    then show ?thesis using hs_assign inv by (simp add: task_assign_def)
  next
    case False
    then have "i \<noteq> t" by auto
    then have "task_copy i t (set_handle g i 0) = task_copy i t g" by (rule task_copy_overwrites)
    then show ?thesis using refs_copy [OF g(3), of i t] hs_assign False g(1)
      by (auto simp: task_assign_def set_handle_def)
  qed
next
  case (hs_move_assign i t)
  then obtain g where g: "task_destroy i h = Some g" "m_handle g = m_handle h" "heap_inv N (set_handle g i 0)"
    using refs_end [OF inv _ N] by blast
  show ?thesis
  proof (cases "i = t")
    case True
    then show ?thesis using hs_move_assign inv by (simp add: task_move_assign_def)
  next
    case False
    then have "task_move i t (set_handle g i 0) = task_move i t g" by (rule task_move_overwrites)
    then show ?thesis using refs_move [OF g(3), of i t] hs_move_assign False g(1)
      by (auto simp: task_move_assign_def set_handle_def)
  qed
qed

lemma heap_run_inv: "heap_run N h \<Longrightarrow> N < 2 ^ 32 \<Longrightarrow> \<exists>g. h = Some g \<and> heap_inv N g"
proof (induction rule: heap_run.induct)
  case hr_start
  then show ?case by (auto simp: heap_inv_def heap_empty_def processes_at_none)
next
  case (hr_step h h')
  then show ?case using heap_inv_step by blast
qed

section \<open>Property\<close>

text \<open>
  Whatever copies, moves, assignments and destructions a program makes of fewer than 2^32
  shared_task objects, none of them uses a destroyed coroutine, and a coroutine exists exactly
  while some object refers to it.
\<close>

theorem shared_task_handles_own_coroutines:
  assumes "heap_run N h" and "N < 2 ^ 32"
  shows "\<exists>g. h = Some g \<and> (\<forall>p. p = 0 \<or> live g p = (\<exists>i. m_handle g i = p))"
proof -
  obtain g where g: "h = Some g" "heap_inv N g" using heap_run_inv [OF assms] by blast
  have "live g p \<longleftrightarrow> (\<exists>i. m_handle g i = p)" if "p \<noteq> 0" for p
  proof
    assume "live g p"
    then have "processes_at N (m_handle g) p \<noteq> 0" using g(2) that by (simp add: heap_inv_def)
    then show "\<exists>i. m_handle g i = p" by (auto simp: processes_at_none)
  next
    assume "\<exists>i. m_handle g i = p"
    then obtain i where i: "m_handle g i = p" by blast
    have out: "m_handle g j = 0" if "N \<le> j" for j using g(2) that by (simp add: heap_inv_def)
    have "i < N" using i out [of i] that by (cases "i < N") auto
    then have "0 < processes_at N (m_handle g) p" using processes_at_pos [of i N "m_handle g"] i by simp
    then show "live g p" using g(2) that by (simp add: heap_inv_def)
  qed
  then show ?thesis using g(1) by blast
qed

theorem shared_task_handles_own_coroutines_witness:
  "\<exists>g. heap_run 4 (Some g) \<and> m_handle g 3 = 7 \<and> live g 7 \<and> m_ref_count g 7 = 1"
proof -
  let ?g = "task_create 2 7 heap_empty"
  have a: "heap_run 4 (Some ?g)"
    by (rule hr_step [OF hr_start], rule hs_create) (simp_all add: heap_empty_def)
  have "heap_step 4 ?g (task_copy 3 2 ?g)"
    by (rule hs_copy) (simp_all add: task_create_def set_handle_def heap_empty_def)
  with a have b: "heap_run 4 (task_copy 3 2 ?g)" by (rule hr_step)
  let ?h = "the (task_copy 3 2 ?g)"
  have c: "task_copy 3 2 ?g = Some ?h"
    by (simp add: task_copy_def add_ref_def task_create_def set_handle_def heap_empty_def)
  have "heap_step 4 ?h (task_end 2 ?h)" by (rule hs_end) simp
  with b c have d: "heap_run 4 (task_end 2 ?h)" by (metis hr_step)
  let ?e = "the (task_end 2 ?h)"
  have e: "task_end 2 ?h = Some ?e" "m_handle ?e 3 = 7" "m_ref_count ?e 7 = 1"
    by (simp_all add: task_end_def task_destroy_def try_detach_def task_copy_def add_ref_def
      task_create_def set_handle_def heap_empty_def)
  have "\<exists>g. task_end 2 ?h = Some g \<and> (\<forall>p. p = 0 \<or> live g p = (\<exists>i. m_handle g i = p))"
    by (rule shared_task_handles_own_coroutines [OF d]) simp
  then have "live ?e 7" using e by (metis option.inject zero_neq_numeral)
  then show ?thesis using d e by metis
qed

end
