(* ===== verification/Join_Counter.thy ===== *)
theory Join_Counter
  imports Coro_Prelude
begin

text \<open>
  The counting protocol that when_all_counter (include/coro/detail/when_all_counter.h) and
  async_scope (include/coro/async_scope.h) share: a counter of the pieces of work that are not
  finished plus one for the coroutine that joins them. The joining coroutine gives its one back
  when it starts to wait; whoever takes the counter to zero lets it go on.
\<close>

datatype joiner = Before | Suspended | Resumed

text \<open>
  \<open>join_ok c n w j\<close>: the counter is \<open>c\<close>, \<open>n\<close> pieces of work are outstanding, \<open>w\<close> processes have
  taken the counter to zero and are about to resume the joining coroutine, which is at \<open>j\<close>.
\<close>

definition join_ok :: "u64 \<Rightarrow> nat \<Rightarrow> nat \<Rightarrow> joiner \<Rightarrow> bool" where
  "join_ok c n w j \<longleftrightarrow> n < 2 ^ 63 \<and> c = of_nat (n + (if j = Before then 1 else 0)) \<and>
     w = (if j = Suspended \<and> n = 0 then 1 else 0) \<and> (j = Resumed \<longrightarrow> n = 0)"

lemma unat_small: "n < 2 ^ 64 \<Longrightarrow> unat (of_nat n :: u64) = n"
  by (subst unat_of_nat) (rule mod_less, simp)

lemma join_ok_unat: "join_ok c n w j \<Longrightarrow> unat c = n + (if j = Before then 1 else 0)"
  using unat_small [of "n + (if j = Before then 1 else 0)"] by (auto simp: join_ok_def)

lemma join_ok_start:
  assumes ok: "join_ok c n w j" and live: "j = Before \<or> 0 < n" and n: "Suc n < 2 ^ 63"
  shows "join_ok (c + 1) (Suc n) w j" and "c \<noteq> 0"
proof -
  show "join_ok (c + 1) (Suc n) w j" using ok live n by (auto simp: join_ok_def)
  have "unat c \<noteq> 0" using join_ok_unat [OF ok] live by auto
  then show "c \<noteq> 0" by auto
qed

lemma join_ok_finish:
  assumes ok: "join_ok c (Suc n) w j"
  shows "join_ok (c - 1) n (w + (if c = 1 then 1 else 0)) j"
proof -
  have u: "unat c = Suc n + (if j = Before then 1 else 0)" by (rule join_ok_unat [OF ok])
  have "c = 1 \<longleftrightarrow> unat c = 1" by (metis unat_1 word_unat_eq_iff)
  then have "c = 1 \<longleftrightarrow> n = 0 \<and> j \<noteq> Before" using u by auto
  moreover have "j \<noteq> Resumed" "w = 0" using ok by (auto simp: join_ok_def)
  ultimately show ?thesis using ok by (cases j) (auto simp: join_ok_def)
qed

lemma join_ok_join:
  assumes ok: "join_ok c n w Before"
  shows "join_ok (c - 1) n w (if c > 1 then Suspended else Resumed)" and "c > 1 \<longleftrightarrow> 0 < n"
proof -
  have "c > 1 \<longleftrightarrow> unat c > 1" by (metis unat_1 word_less_nat_alt)
  then show c: "c > 1 \<longleftrightarrow> 0 < n" using join_ok_unat [OF ok] by auto
  show "join_ok (c - 1) n w (if c > 1 then Suspended else Resumed)"
    using ok unfolding c by (auto simp: join_ok_def)
qed

lemma join_ok_wake: "join_ok c n (Suc w) j \<Longrightarrow> j = Suspended \<and> n = 0 \<and> w = 0 \<and> join_ok c n w Resumed"
  by (auto simp: join_ok_def split: if_splits)

end
