(* ===== verification/When_All.thy ===== *)
theory When_All
  imports Join_Counter
begin

text \<open>
  include/coro/detail/when_all_counter.h, when_all_ready_awaitable.h, when_all_task.h,
  when_all_ready.h and when_all.h: awaiting a container of \<open>n\<close> awaitables at once. Each is wrapped in
  a coroutine that awaits it, keeps its result or exception and tells the counter; the coroutine
  that awaits them all starts these coroutines one after the other and then waits itself. What an
  awaitable does while it runs is any behaviour that ends with a result or an exception; a start
  returns when its coroutine has suspended or ended, which may be at any time.
\<close>

section \<open>State\<close>

text \<open>
  A task: suspended at its start, running, about to tell the counter (the final suspension), about
  to resume the awaiting coroutine, over.
\<close>

datatype task_pc = Initial | Running | Notifying | Waking | Final

text \<open>The awaiting coroutine: before, starting the task \<open>i\<close>, about to store its handle, about to decrement.\<close>

datatype await_pc = Outside | Starting nat | Storing | Counting | Waiting joiner

record ('e, 'v) when_all =
  m_count :: u64
  m_awaiting_handle :: bool
  task_count :: nat
  task_pc :: "nat \<Rightarrow> task_pc"
  outcome :: "nat \<Rightarrow> ('e + 'v) option"
  await_pc :: await_pc
  resumptions :: nat

section \<open>The counter\<close>

definition counter_new :: "nat \<Rightarrow> ('e, 'v) when_all" where
  "counter_new n = \<lparr>m_count = of_nat n + 1, m_awaiting_handle = False, task_count = n,
     task_pc = (\<lambda>_. Initial), outcome = (\<lambda>_. None), await_pc = Outside, resumptions = 0\<rparr>"

definition is_ready :: "('e, 'v) when_all \<Rightarrow> bool" where
  "is_ready s \<longleftrightarrow> m_awaiting_handle s"

text \<open>\<open>try_await\<close> of the counter stores the handle and then decrements.\<close>

definition await_store :: "('e, 'v) when_all \<Rightarrow> ('e, 'v) when_all" where
  "await_store s = s\<lparr>m_awaiting_handle := True, await_pc := Counting\<rparr>"

definition await_count :: "('e, 'v) when_all \<Rightarrow> ('e, 'v) when_all" where
  "await_count s =
     s\<lparr>m_count := m_count s - 1, await_pc := Waiting (if m_count s > 1 then Suspended else Resumed)\<rparr>"

definition notify_completed :: "('e, 'v) when_all \<Rightarrow> nat \<Rightarrow> ('e, 'v) when_all" where
  "notify_completed s i =
     s\<lparr>m_count := m_count s - 1, task_pc := (task_pc s)(i := if m_count s = 1 then Waking else Final)\<rparr>"

text \<open>Resuming a null handle is \<open>None\<close>.\<close>

definition notify_resume :: "('e, 'v) when_all \<Rightarrow> nat \<Rightarrow> ('e, 'v) when_all option" where
  "notify_resume s i =
     (if m_awaiting_handle s
      then Some (s\<lparr>task_pc := (task_pc s)(i := Final), await_pc := Waiting Resumed,
                   resumptions := Suc (resumptions s)\<rparr>)
      else None)"

section \<open>The awaitable and its tasks\<close>

definition await_ready :: "('e, 'v) when_all \<Rightarrow> ('e, 'v) when_all" where
  "await_ready s = s\<lparr>await_pc := if is_ready s then Waiting Resumed else Starting 0\<rparr>"

text \<open>The loop over the tasks that starts them.\<close>

definition start_next :: "('e, 'v) when_all \<Rightarrow> nat \<Rightarrow> ('e, 'v) when_all" where
  "start_next s i =
     (if i < task_count s
      then s\<lparr>task_pc := (task_pc s)(i := Running), await_pc := Starting (Suc i)\<rparr>
      else s\<lparr>await_pc := Storing\<rparr>)"

text \<open>\<open>yield_value\<close>, \<open>return_void\<close> or \<open>unhandled_exception\<close>.\<close>

definition task_finish :: "('e, 'v) when_all \<Rightarrow> nat \<Rightarrow> 'e + 'v \<Rightarrow> ('e, 'v) when_all" where
  "task_finish s i r = s\<lparr>outcome := (outcome s)(i := Some r), task_pc := (task_pc s)(i := Notifying)\<rparr>"

inductive when_all_step :: "('e, 'v) when_all \<Rightarrow> ('e, 'v) when_all option \<Rightarrow> bool" where
  wa_ready: "await_pc s = Outside \<Longrightarrow> when_all_step s (Some (await_ready s))"
| wa_start: "await_pc s = Starting i \<Longrightarrow> when_all_step s (Some (start_next s i))"
| wa_store: "await_pc s = Storing \<Longrightarrow> when_all_step s (Some (await_store s))"
| wa_count: "await_pc s = Counting \<Longrightarrow> when_all_step s (Some (await_count s))"
| wa_finish: "task_pc s i = Running \<Longrightarrow> when_all_step s (Some (task_finish s i r))"
| wa_notify: "task_pc s i = Notifying \<Longrightarrow> when_all_step s (Some (notify_completed s i))"
| wa_resume: "task_pc s i = Waking \<Longrightarrow> when_all_step s (notify_resume s i)"

inductive when_all_run :: "nat \<Rightarrow> ('e, 'v) when_all option \<Rightarrow> bool" for n where
  wr_start: "when_all_run n (Some (counter_new n))"
| wr_step: "when_all_run n (Some s) \<Longrightarrow> when_all_step s s' \<Longrightarrow> when_all_run n s'"

section \<open>The results\<close>

text \<open>
  \<open>result\<close> of a task rethrows its exception; \<open>when_all\<close> asks the tasks in order and so throws the
  first exception in their order, whatever the order in time. \<open>when_all_ready\<close> returns the tasks.
\<close>

fun when_all_results :: "('e + 'v) list \<Rightarrow> 'e + 'v list" where
  "when_all_results [] = Inr []"
| "when_all_results (Inl e # rs) = Inl e"
| "when_all_results (Inr v # rs) =
     (case when_all_results rs of Inl e \<Rightarrow> Inl e | Inr vs \<Rightarrow> Inr (v # vs))"

definition when_all_resume :: "('e, 'v) when_all \<Rightarrow> ('e + 'v list) option" where
  "when_all_resume s =
     (if \<forall>i\<in>{..<task_count s}. outcome s i \<noteq> None
      then Some (when_all_results (map (\<lambda>i. the (outcome s i)) [0..<task_count s])) else None)"

section \<open>The invariant\<close>

definition unfinished :: "('e, 'v) when_all \<Rightarrow> nat" where
  "unfinished s = processes_at (task_count s) (task_pc s) Initial +
     processes_at (task_count s) (task_pc s) Running + processes_at (task_count s) (task_pc s) Notifying"

definition waking :: "('e, 'v) when_all \<Rightarrow> nat" where
  "waking s = processes_at (task_count s) (task_pc s) Waking"

definition joiner_of :: "await_pc \<Rightarrow> joiner" where
  "joiner_of p = (case p of Waiting j \<Rightarrow> j | _ \<Rightarrow> Before)"

text \<open>How many tasks have been started.\<close>

definition started :: "('e, 'v) when_all \<Rightarrow> nat" where
  "started s = (case await_pc s of Outside \<Rightarrow> 0 | Starting i \<Rightarrow> i | _ \<Rightarrow> task_count s)"

definition when_all_inv :: "nat \<Rightarrow> ('e, 'v) when_all \<Rightarrow> bool" where
  "when_all_inv n s \<longleftrightarrow> task_count s = n \<and>
     join_ok (m_count s) (unfinished s) (waking s) (joiner_of (await_pc s)) \<and>
     (\<forall>i. task_pc s i = Initial \<longleftrightarrow> started s \<le> i) \<and> started s \<le> n \<and>
     (\<forall>i. outcome s i \<noteq> None \<longleftrightarrow> task_pc s i \<in> {Notifying, Waking, Final}) \<and>
     (m_awaiting_handle s \<longleftrightarrow> await_pc s = Counting \<or> joiner_of (await_pc s) \<noteq> Before) \<and>
     await_pc s \<noteq> Waiting Before \<and> resumptions s \<le> 1 \<and>
     (joiner_of (await_pc s) \<noteq> Resumed \<longrightarrow> resumptions s = 0)"

lemma joiner_of_simps [simp]:
  "joiner_of (Waiting j) = j" "joiner_of Outside = Before" "joiner_of (Starting i) = Before"
  "joiner_of Storing = Before" "joiner_of Counting = Before"
  by (simp_all add: joiner_of_def)

text \<open>A task below the number of tasks moves.\<close>

definition unfinished_pc :: "task_pc \<Rightarrow> bool" where
  "unfinished_pc p \<longleftrightarrow> p \<in> {Initial, Running, Notifying}"

lemma task_moves:
  assumes i: "i < task_count s" and t: "task_count s' = task_count s" "task_pc s' = (task_pc s)(i := p)"
  shows "unfinished s' + (if unfinished_pc (task_pc s i) then 1 else 0) =
      unfinished s + (if unfinished_pc p then 1 else 0)"
    and "waking s' + (if task_pc s i = Waking then 1 else 0) = waking s + (if p = Waking then 1 else 0)"
  using processes_at_upd [OF i, of "task_pc s" p Initial] processes_at_upd [OF i, of "task_pc s" p Running]
    processes_at_upd [OF i, of "task_pc s" p Notifying] processes_at_upd [OF i, of "task_pc s" p Waking]
  by (cases p; cases "task_pc s i"; simp add: unfinished_def waking_def t unfinished_pc_def)+

lemma counts_cong:
  "task_count s' = task_count s \<Longrightarrow> task_pc s' = task_pc s \<Longrightarrow> unfinished s' = unfinished s \<and> waking s' = waking s"
  by (simp add: unfinished_def waking_def)

lemma task_below: "when_all_inv n s \<Longrightarrow> task_pc s i \<noteq> Initial \<Longrightarrow> i < task_count s"
  by (auto simp: when_all_inv_def not_le intro: less_le_trans)

lemma when_all_join_ok: "when_all_inv n s \<Longrightarrow> join_ok (m_count s) (unfinished s) (waking s) (joiner_of (await_pc s))"
  by (simp add: when_all_inv_def)

lemma when_all_initial: "when_all_inv n s \<Longrightarrow> task_pc s i = Initial \<longleftrightarrow> started s \<le> i"
  by (simp add: when_all_inv_def)

lemma when_all_outcome: "when_all_inv n s \<Longrightarrow> outcome s i \<noteq> None \<longleftrightarrow> task_pc s i \<in> {Notifying, Waking, Final}"
  by (simp add: when_all_inv_def)

text \<open>Steps of the awaiting coroutine.\<close>

lemma when_all_inv_await:
  assumes inv: "when_all_inv n s"
  shows "await_pc s = Outside \<Longrightarrow> when_all_inv n (await_ready s)"
    and "await_pc s = Storing \<Longrightarrow> when_all_inv n (await_store s)"
    and "await_pc s = Counting \<Longrightarrow> when_all_inv n (await_count s)"
proof -
  show "when_all_inv n (await_ready s)" if "await_pc s = Outside"
    using inv that counts_cong [of "await_ready s" s]
    by (simp add: when_all_inv_def await_ready_def is_ready_def started_def)
  show "when_all_inv n (await_store s)" if "await_pc s = Storing"
    using inv that counts_cong [of "await_store s" s]
    by (simp add: when_all_inv_def await_store_def started_def)
  show "when_all_inv n (await_count s)" if at: "await_pc s = Counting"
  proof -
    have "join_ok (m_count s) (unfinished s) (waking s) Before" using when_all_join_ok [OF inv] at by simp
    from join_ok_join(1) [OF this] show ?thesis using inv at counts_cong [of "await_count s" s]
      by (simp add: when_all_inv_def await_count_def started_def split: if_splits)
  qed
qed

lemma when_all_inv_start:
  assumes inv: "when_all_inv n s" and at: "await_pc s = Starting i"
  shows "when_all_inv n (start_next s i)"
proof (cases "i < task_count s")
  case True
  define S where "S = start_next s i"
  have S: "task_count S = task_count s" "task_pc S = (task_pc s)(i := Running)" "m_count S = m_count s"
      "await_pc S = Starting (Suc i)" "outcome S = outcome s" "m_awaiting_handle S = m_awaiting_handle s"
      "resumptions S = resumptions s"
    using True by (simp_all add: S_def start_next_def)
  have st: "started s = i" "started S = Suc i" using at S(4) by (simp_all add: started_def)
  have "task_pc s i = Initial" using inv st(1) by (simp add: when_all_inv_def)
  then have "unfinished S = unfinished s" "waking S = waking s"
    using task_moves [OF True S(1,2)] by (simp_all add: unfinished_pc_def)
  moreover have "(task_pc S j = Initial) = (started S \<le> j)" for j
    using when_all_initial [OF inv, of j] st by (cases "j = i") (auto simp: S(2))
  moreover have "(outcome S j \<noteq> None) = (task_pc S j \<in> {Notifying, Waking, Final})" for j
    using when_all_outcome [OF inv, of j] \<open>task_pc s i = Initial\<close> by (cases "j = i") (simp_all add: S(2,5))
  ultimately show ?thesis unfolding S_def [symmetric] when_all_inv_def
    using inv at st True by (simp add: when_all_inv_def S)
next
  case False
  then have "started s = task_count s" using inv at by (simp add: when_all_inv_def started_def)
  then show ?thesis using inv at False counts_cong [of "start_next s i" s]
    by (simp add: when_all_inv_def start_next_def started_def)
qed

text \<open>Steps of the task \<open>i\<close>.\<close>

lemma when_all_inv_task:
  assumes inv: "when_all_inv n s" and i: "task_pc s i \<noteq> Initial" "p \<noteq> Initial"
    and t: "task_count s' = task_count s" "task_pc s' = (task_pc s)(i := p)" "await_pc s' = await_pc s"
      "m_awaiting_handle s' = m_awaiting_handle s" "resumptions s' = resumptions s"
    and out: "\<forall>j. j \<noteq> i \<longrightarrow> outcome s' j = outcome s j" "outcome s' i \<noteq> None \<longleftrightarrow> p \<in> {Notifying, Waking, Final}"
    and ok: "join_ok (m_count s') (unfinished s') (waking s') (joiner_of (await_pc s))"
  shows "when_all_inv n s'"
proof -
  have st: "started s' = started s" by (cases "await_pc s") (simp_all add: started_def t)
  have "(task_pc s' j = Initial) = (started s' \<le> j)" for j
    using when_all_initial [OF inv, of i] when_all_initial [OF inv, of j] i by (cases "j = i") (simp_all add: t st)
  moreover have "(outcome s' j \<noteq> None) = (task_pc s' j \<in> {Notifying, Waking, Final})" for j
    using out when_all_outcome [OF inv, of j] by (cases "j = i") (simp_all add: t)
  ultimately show ?thesis unfolding when_all_inv_def using inv ok st by (simp add: when_all_inv_def t)
qed

lemma when_all_inv_finish:
  assumes inv: "when_all_inv n s" and i: "task_pc s i = Running"
  shows "when_all_inv n (task_finish s i r)"
proof -
  define S where "S = task_finish s i r"
  have S: "task_count S = task_count s" "task_pc S = (task_pc s)(i := Notifying)" "await_pc S = await_pc s"
      "m_awaiting_handle S = m_awaiting_handle s" "resumptions S = resumptions s" "m_count S = m_count s"
      "outcome S = (outcome s)(i := Some r)"
    by (simp_all add: S_def task_finish_def)
  have lt: "i < task_count s" by (rule task_below [OF inv]) (simp add: i)
  have "unfinished S = unfinished s" "waking S = waking s"
    using task_moves [OF lt S(1,2)] i by (simp_all add: unfinished_pc_def)
  then show ?thesis unfolding S_def [symmetric] using when_all_join_ok [OF inv]
    by (intro when_all_inv_task [OF inv _ _ S(1-5)]) (simp_all add: i S)
qed

lemma when_all_inv_notify:
  assumes inv: "when_all_inv n s" and i: "task_pc s i = Notifying"
  shows "when_all_inv n (notify_completed s i)"
proof -
  define S where "S = notify_completed s i"
  let ?p = "if m_count s = 1 then Waking else Final"
  have S: "task_count S = task_count s" "task_pc S = (task_pc s)(i := ?p)" "await_pc S = await_pc s"
      "m_awaiting_handle S = m_awaiting_handle s" "resumptions S = resumptions s" "m_count S = m_count s - 1"
      "outcome S = outcome s"
    by (simp_all add: S_def notify_completed_def)
  have lt: "i < task_count s" by (rule task_below [OF inv]) (simp add: i)
  have up: "Suc (unfinished S) = unfinished s" "waking S = waking s + (if m_count s = 1 then 1 else 0)"
    using task_moves [OF lt S(1,2)] i by (simp_all add: unfinished_pc_def)
  have "join_ok (m_count s) (Suc (unfinished S)) (waking s) (joiner_of (await_pc s))"
    using when_all_join_ok [OF inv] up(1) by simp
  from join_ok_finish [OF this]
  have "join_ok (m_count S) (unfinished S) (waking S) (joiner_of (await_pc s))" by (simp only: S(6) up(2))
  moreover have "outcome s i \<noteq> None" using inv i by (simp add: when_all_inv_def)
  ultimately show ?thesis unfolding S_def [symmetric]
    by (intro when_all_inv_task [OF inv _ _ S(1-5)]) (simp_all add: i S(7))
qed

lemma when_all_inv_resume:
  assumes inv: "when_all_inv n s" and i: "task_pc s i = Waking"
  shows "\<exists>s'. notify_resume s i = Some s' \<and> when_all_inv n s'"
proof -
  define S where "S = s\<lparr>task_pc := (task_pc s)(i := Final), await_pc := Waiting Resumed,
                   resumptions := Suc (resumptions s)\<rparr>"
  have S: "task_count S = task_count s" "task_pc S = (task_pc s)(i := Final)" "await_pc S = Waiting Resumed"
      "m_awaiting_handle S = m_awaiting_handle s" "resumptions S = Suc (resumptions s)" "m_count S = m_count s"
      "outcome S = outcome s"
    by (simp_all add: S_def)
  have lt: "i < task_count s" by (rule task_below [OF inv]) (simp add: i)
  have up: "unfinished S = unfinished s" "Suc (waking S) = waking s"
    using task_moves [OF lt S(1,2)] i by (simp_all add: unfinished_pc_def)
  have "join_ok (m_count s) (unfinished s) (Suc (waking S)) (joiner_of (await_pc s))"
    using when_all_join_ok [OF inv] up(2) by simp
  from join_ok_wake [OF this] have j: "joiner_of (await_pc s) = Suspended"
      "join_ok (m_count s) (unfinished s) (waking S) Resumed" by auto
  then have at: "await_pc s = Waiting Suspended" by (cases "await_pc s") simp_all
  then have st: "started S = started s" by (simp add: started_def S)
  have h: "m_awaiting_handle s" using inv j(1) by (simp add: when_all_inv_def)
  have "(task_pc S k = Initial) = (started S \<le> k)" for k
    using when_all_initial [OF inv, of i] when_all_initial [OF inv, of k] i
    by (cases "k = i") (simp_all add: S(2) st)
  moreover have "(outcome S k \<noteq> None) = (task_pc S k \<in> {Notifying, Waking, Final})" for k
    using when_all_outcome [OF inv, of k] i by (cases "k = i") (simp_all add: S(2,7))
  moreover have "join_ok (m_count S) (unfinished S) (waking S) Resumed" using j(2) by (simp add: S up(1))
  moreover have "resumptions s = 0" using inv j(1) by (simp add: when_all_inv_def)
  ultimately have "when_all_inv n S" using inv h st by (simp add: when_all_inv_def S)
  then show ?thesis using h by (simp add: notify_resume_def S_def)
qed

lemma when_all_inv_step:
  assumes inv: "when_all_inv n s" and step: "when_all_step s s'"
  shows "\<exists>t. s' = Some t \<and> when_all_inv n t"
  using step
proof cases
  case (wa_resume i)
  then show ?thesis using when_all_inv_resume [OF inv] by simp
qed (use when_all_inv_await [OF inv] when_all_inv_start [OF inv] when_all_inv_finish [OF inv]
    when_all_inv_notify [OF inv] in simp_all)

lemma when_all_inv_init: "n < 2 ^ 63 \<Longrightarrow> when_all_inv n (counter_new n)"
proof -
  assume n: "n < 2 ^ 63"
  have "processes_at n (\<lambda>_. Initial) Initial = n" by (simp add: processes_at_def)
  moreover have "processes_at n (\<lambda>_. Initial) p = 0" if "p \<noteq> Initial" for p
    using that by (simp add: processes_at_none)
  ultimately have "unfinished (counter_new n :: ('a, 'b) when_all) = n" "waking (counter_new n :: ('a, 'b) when_all) = 0"
    by (simp_all add: unfinished_def waking_def counter_new_def)
  then show ?thesis using n by (simp add: when_all_inv_def join_ok_def)
      (simp add: counter_new_def started_def)
qed

lemma when_all_run_inv: "when_all_run n s \<Longrightarrow> n < 2 ^ 63 \<Longrightarrow> \<exists>t. s = Some t \<and> when_all_inv n t"
proof (induction rule: when_all_run.induct)
  case wr_start
  then show ?case using when_all_inv_init by blast
next
  case (wr_step s s')
  then show ?case using when_all_inv_step by blast
qed

text \<open>When the joining coroutine goes on every task is over.\<close>

lemma resumed_all_final:
  assumes inv: "when_all_inv n s" and at: "await_pc s = Waiting Resumed" and i: "i < n"
  shows "task_pc s i = Final"
proof -
  have "unfinished s = 0" "waking s = 0" "task_count s = n"
    using when_all_join_ok [OF inv] at inv by (auto simp: join_ok_def when_all_inv_def)
  then have "task_pc s i \<noteq> p" if "p \<in> {Initial, Running, Notifying, Waking}" for p
    using i that by (auto simp: unfinished_def waking_def processes_at_none)
  then show ?thesis by (cases "task_pc s i") auto
qed

lemma suspended_some_active:
  assumes inv: "when_all_inv n s" and at: "await_pc s = Waiting Suspended"
  shows "\<exists>i<n. task_pc s i \<in> {Running, Notifying, Waking}"
proof (rule ccontr)
  assume none: "\<not> ?thesis"
  have n: "task_count s = n" using inv by (simp add: when_all_inv_def)
  have "\<forall>i<n. task_pc s i \<noteq> Initial" using inv at by (simp add: when_all_inv_def started_def)
  with none have "unfinished s = 0" "waking s = 0"
    by (auto simp: unfinished_def waking_def processes_at_none n)
  then show False using when_all_join_ok [OF inv] at by (simp add: join_ok_def)
qed

lemma when_all_results_values: "when_all_results rs = Inr vs \<longleftrightarrow> rs = map Inr vs"
proof (induction rs arbitrary: vs rule: when_all_results.induct)
  case (3 v rs)
  show ?case
  proof (cases vs)
    case (Cons u us)
    then show ?thesis using 3 [of us] by (auto split: sum.splits)
  qed (auto split: sum.splits)
qed auto

lemma when_all_results_exception:
  "when_all_results rs = Inl e \<longleftrightarrow> (\<exists>us ts. rs = map Inr us @ Inl e # ts)"
proof (induction rs rule: when_all_results.induct)
  case (3 v rs)
  have "when_all_results (Inr v # rs) = Inl e \<longleftrightarrow> when_all_results rs = Inl e" by (auto split: sum.splits)
  also have "\<dots> \<longleftrightarrow> (\<exists>us ts. Inr v # rs = map Inr us @ Inl e # ts)"
    unfolding 3
  proof (intro iffI; elim exE)
    fix us ts
    assume "rs = map Inr us @ Inl e # ts"
    then have "Inr v # rs = map Inr (v # us) @ Inl e # ts" by simp
    then show "\<exists>us ts. Inr v # rs = map Inr us @ Inl e # ts" by blast
  next
    fix us ts
    assume "Inr v # rs = map Inr us @ Inl e # ts"
    then show "\<exists>us ts. rs = map Inr us @ Inl e # ts" by (cases us) auto
  qed
  finally show ?case .
qed (auto simp: Cons_eq_append_conv)

section \<open>A run with two tasks\<close>

definition demo_started :: "(nat, nat) when_all" where
  "demo_started = await_count (await_store (start_next (start_next (start_next
     (await_ready (counter_new 2)) 0) 1) 2))"

lemma demo_started_run: "when_all_run 2 (Some demo_started)"
proof -
  note d = counter_new_def await_ready_def start_next_def await_store_def is_ready_def
  have "when_all_run 2 (Some (await_ready (counter_new 2) :: (nat, nat) when_all))"
    by (rule wr_step [OF wr_start]) (rule wa_ready, simp add: d)
  then have "when_all_run 2 (Some (start_next (await_ready (counter_new 2)) 0 :: (nat, nat) when_all))"
    by (rule wr_step) (rule wa_start, simp add: d)
  then have "when_all_run 2 (Some (start_next (start_next (await_ready (counter_new 2)) 0) 1 :: (nat, nat) when_all))"
    by (rule wr_step) (rule wa_start, simp add: d)
  then have "when_all_run 2 (Some (start_next (start_next (start_next
      (await_ready (counter_new 2)) 0) 1) 2 :: (nat, nat) when_all))"
    by (rule wr_step) (rule wa_start, simp add: d)
  then have "when_all_run 2 (Some (await_store (start_next (start_next (start_next
      (await_ready (counter_new 2)) 0) 1) 2) :: (nat, nat) when_all))"
    by (rule wr_step) (rule wa_store, simp add: d)
  then show ?thesis unfolding demo_started_def
    by (rule wr_step) (rule wa_count, simp add: await_store_def)
qed

lemma demo_started_fields:
  "m_count demo_started = 2" "m_awaiting_handle demo_started" "task_count demo_started = 2"
  "task_pc demo_started = (\<lambda>_. Initial)(0 := Running, 1 := Running)" "outcome demo_started = (\<lambda>_. None)"
  "await_pc demo_started = Waiting Suspended"
  by (simp_all add: demo_started_def counter_new_def await_ready_def start_next_def await_store_def
    is_ready_def await_count_def)

text \<open>The second task ends with a value, then the first with an exception.\<close>

definition demo_done :: "(nat, nat) when_all option" where
  "demo_done = notify_resume (notify_completed (task_finish
     (notify_completed (task_finish demo_started 1 (Inr 5)) 1) 0 (Inl 7)) 0) 0"

lemma demo_done_run: "when_all_run 2 demo_done"
proof -
  note d = task_finish_def notify_completed_def demo_started_fields
  have "when_all_run 2 (Some (task_finish demo_started 1 (Inr 5)))"
    by (rule wr_step [OF demo_started_run]) (rule wa_finish, simp add: d)
  then have "when_all_run 2 (Some (notify_completed (task_finish demo_started 1 (Inr 5)) 1))"
    by (rule wr_step) (rule wa_notify, simp add: d)
  then have "when_all_run 2 (Some (task_finish (notify_completed (task_finish demo_started 1 (Inr 5)) 1) 0 (Inl 7)))"
    by (rule wr_step) (rule wa_finish, simp add: d)
  then have "when_all_run 2 (Some (notify_completed (task_finish
      (notify_completed (task_finish demo_started 1 (Inr 5)) 1) 0 (Inl 7)) 0))"
    by (rule wr_step) (rule wa_notify, simp add: task_finish_def)
  then show ?thesis unfolding demo_done_def
    by (rule wr_step) (rule wa_resume, simp add: d)
qed

lemma demo_done_pc: "\<exists>t. demo_done = Some t \<and> await_pc t = Waiting Resumed \<and> outcome t 0 = Some (Inl 7)"
  by (simp add: demo_done_def notify_resume_def task_finish_def notify_completed_def demo_started_fields)

section \<open>Properties\<close>

text \<open>
  C28. when_all and when_all_ready wait for all: however the starts and the ends of up to 2^63
  tasks interleave, no null handle is resumed; the awaiting coroutine goes on only when every
  task is over and has left a value or an exception; it is resumed at most once; and it stays
  suspended only while some task still runs or is about to resume it.
\<close>

theorem when_all_waits_for_all:
  assumes "when_all_run n s" and "n < 2 ^ 63"
  shows "\<exists>t. s = Some t \<and> resumptions t \<le> 1 \<and>
    (await_pc t = Waiting Resumed \<longrightarrow> (\<forall>i<n. task_pc t i = Final \<and> outcome t i \<noteq> None)) \<and>
    (await_pc t = Waiting Suspended \<longrightarrow> (\<exists>i<n. task_pc t i \<in> {Running, Notifying, Waking}))"
proof -
  obtain t where t: "s = Some t" "when_all_inv n t" using when_all_run_inv [OF assms] by blast
  have "resumptions t \<le> 1" using t(2) by (simp add: when_all_inv_def)
  moreover have "task_pc t i = Final \<and> outcome t i \<noteq> None" if "await_pc t = Waiting Resumed" "i < n" for i
    using resumed_all_final [OF t(2) that] when_all_outcome [OF t(2), of i] by simp
  ultimately show ?thesis using t suspended_some_active [OF t(2)] by blast
qed

theorem when_all_waits_for_all_witness:
  "\<exists>t. when_all_run 2 (Some t) \<and> await_pc t = Waiting Resumed \<and> task_pc t 0 = Final \<and> outcome t 0 = Some (Inl (7 :: nat) :: nat + nat)"
proof -
  obtain t where t: "demo_done = Some t" "await_pc t = Waiting Resumed" "outcome t 0 = Some (Inl 7)"
    using demo_done_pc by blast
  then have run: "when_all_run 2 (Some t)" using demo_done_run by simp
  have "task_pc t 0 = Final" using when_all_waits_for_all [OF run] t(2) by simp
  then show ?thesis using run t by blast
qed

text \<open>
  What when_all gives when the awaiting coroutine goes on: the values of all tasks in the
  order of the awaitables, or the exception of the first awaitable in that order that threw,
  whichever task ended first.
\<close>

theorem when_all_result_in_order:
  assumes "when_all_run n (Some s)" and "n < 2 ^ 63" and "await_pc s = Waiting Resumed"
  shows "\<exists>rs. length rs = n \<and> (\<forall>i<n. outcome s i = Some (rs ! i)) \<and>
    ((\<exists>vs. rs = map Inr vs \<and> when_all_resume s = Some (Inr vs)) \<or>
     (\<exists>us e ts. rs = map Inr us @ Inl e # ts \<and> when_all_resume s = Some (Inl e)))"
proof -
  have inv: "when_all_inv n s" using when_all_run_inv [OF assms(1,2)] by simp
  let ?rs = "map (\<lambda>i. the (outcome s i)) [0..<n]"
  have n: "task_count s = n" using inv by (simp add: when_all_inv_def)
  have out: "outcome s i \<noteq> None" if "i < n" for i
    using resumed_all_final [OF inv assms(3) that] when_all_outcome [OF inv, of i] by simp
  then have res: "when_all_resume s = Some (when_all_results ?rs)" by (simp add: when_all_resume_def n)
  have "(\<exists>vs. ?rs = map Inr vs \<and> when_all_results ?rs = Inr vs) \<or>
      (\<exists>us e ts. ?rs = map Inr us @ Inl e # ts \<and> when_all_results ?rs = Inl e)"
    using when_all_results_values [of ?rs] when_all_results_exception [of ?rs]
    by (cases "when_all_results ?rs") blast+
  then show ?thesis using out res by (intro exI [of _ ?rs]) auto
qed

theorem when_all_result_in_order_witness:
  "\<exists>t. when_all_run 2 (Some t) \<and> (\<exists>e. when_all_resume t = Some (Inl (e :: nat) :: nat + nat list))"
proof -
  obtain t where t: "demo_done = Some t" "await_pc t = Waiting Resumed" "outcome t 0 = Some (Inl 7)"
    using demo_done_pc by blast
  have run: "when_all_run 2 (Some t)" using demo_done_run t(1) by simp
  obtain rs where rs: "length rs = 2" "\<forall>i<2. outcome t i = Some (rs ! i)"
      "(\<exists>vs. rs = map Inr vs \<and> when_all_resume t = Some (Inr vs)) \<or>
       (\<exists>us e ts. rs = map Inr us @ Inl e # ts \<and> when_all_resume t = Some (Inl e))"
    using when_all_result_in_order [OF run _ t(2)] by (simp, blast)
  have "rs ! 0 = Inl 7" using rs(2) t(3) by (metis option.inject zero_less_numeral)
  then have "rs \<noteq> map Inr vs" for vs using rs(1) by (cases rs; cases vs) auto
  then show ?thesis using rs(3) run by blast
qed

end
