(* ===== verification/Async_Scope.thy ===== *)
theory Async_Scope
  imports Join_Counter
begin

text \<open>
  include/coro/async_scope.h: a scope that coroutines are spawned into and that one coroutine
  joins. Work is numbered below \<open>N\<close>; a piece of work may itself spawn further work into the scope.
  A step is one access of the counter.
\<close>

section \<open>State and operations\<close>

text \<open>
  A piece of work: not spawned, running, about to
  resume the joining coroutine, over. The joining coroutine: before the join; about to read the
  counter in \<open>await_ready\<close>; about to give up its one; suspended or past the join.
\<close>

datatype work_pc = Absent | Working | Waking | Over

datatype join_pc = Outside | Joining | Stored | Joined joiner

record scope =
  m_count :: u64
  m_handle :: bool
  work :: "nat \<Rightarrow> work_pc"
  join_pc :: join_pc
  resumptions :: nat

definition scope_new :: scope where
  "scope_new = \<lparr>m_count = 1, m_handle = False, work = (\<lambda>_. Absent), join_pc = Outside, resumptions = 0\<rparr>"

text \<open>
  \<open>on_work_started\<close>: the assertion, whose failure is \<open>None\<close>, and the increment. Its caller is at
  work in the scope or has not joined it, so nothing that matters can happen in between.
\<close>

definition on_work_started :: "scope \<Rightarrow> nat \<Rightarrow> scope option" where
  "on_work_started s w =
     (if m_count s \<noteq> 0 then Some (s\<lparr>m_count := m_count s + 1, work := (work s)(w := Working)\<rparr>) else None)"

definition on_work_finished :: "scope \<Rightarrow> nat \<Rightarrow> scope" where
  "on_work_finished s w =
     s\<lparr>m_count := m_count s - 1, work := (work s)(w := if m_count s = 1 then Waking else Over)\<rparr>"

text \<open>Resuming needs the handle that \<open>join\<close> has stored; a null handle is \<open>None\<close>.\<close>

definition finished_resume :: "scope \<Rightarrow> nat \<Rightarrow> scope option" where
  "finished_resume s w =
     (if m_handle s
      then Some (s\<lparr>work := (work s)(w := Over), join_pc := Joined Resumed, resumptions := Suc (resumptions s)\<rparr>)
      else None)"

definition join_ready :: "scope \<Rightarrow> scope" where
  "join_ready s = s\<lparr>join_pc := if m_count s = 0 then Joined Resumed else Joining\<rparr>"

definition join_store :: "scope \<Rightarrow> scope" where
  "join_store s = s\<lparr>m_handle := True, join_pc := Stored\<rparr>"

definition join_suspend :: "scope \<Rightarrow> scope" where
  "join_suspend s =
     s\<lparr>m_count := m_count s - 1, join_pc := Joined (if m_count s > 1 then Suspended else Resumed)\<rparr>"

text \<open>
  Work is spawned by the owner of the scope before it joins, or by work that runs in the scope.
\<close>

definition may_spawn :: "scope \<Rightarrow> nat option \<Rightarrow> bool" where
  "may_spawn s c = (case c of None \<Rightarrow> join_pc s = Outside | Some v \<Rightarrow> work s v = Working)"

inductive scope_step :: "nat \<Rightarrow> scope \<Rightarrow> scope option \<Rightarrow> bool" for N where
  sc_spawn: "w < N \<Longrightarrow> work s w = Absent \<Longrightarrow> may_spawn s c \<Longrightarrow> \<forall>v. c = Some v \<longrightarrow> v < N \<Longrightarrow>
    scope_step N s (on_work_started s w)"
| sc_finish: "w < N \<Longrightarrow> work s w = Working \<Longrightarrow> scope_step N s (Some (on_work_finished s w))"
| sc_resume: "w < N \<Longrightarrow> work s w = Waking \<Longrightarrow> scope_step N s (finished_resume s w)"
| sc_ready: "join_pc s = Outside \<Longrightarrow> scope_step N s (Some (join_ready s))"
| sc_store: "join_pc s = Joining \<Longrightarrow> scope_step N s (Some (join_store s))"
| sc_suspend: "join_pc s = Stored \<Longrightarrow> scope_step N s (Some (join_suspend s))"

inductive scope_run :: "nat \<Rightarrow> scope option \<Rightarrow> bool" for N where
  sr_start: "scope_run N (Some scope_new)"
| sr_step: "scope_run N (Some s) \<Longrightarrow> scope_step N s s' \<Longrightarrow> scope_run N s'"

section \<open>The invariant\<close>

definition outstanding :: "nat \<Rightarrow> scope \<Rightarrow> nat" where
  "outstanding N s = processes_at N (work s) Working"

definition waking :: "nat \<Rightarrow> scope \<Rightarrow> nat" where
  "waking N s = processes_at N (work s) Waking"

definition joiner_of :: "join_pc \<Rightarrow> joiner" where
  "joiner_of p = (case p of Joined j \<Rightarrow> j | _ \<Rightarrow> Before)"

definition scope_inv :: "nat \<Rightarrow> scope \<Rightarrow> bool" where
  "scope_inv N s \<longleftrightarrow> join_ok (m_count s) (outstanding N s) (waking N s) (joiner_of (join_pc s)) \<and>
     (joiner_of (join_pc s) = Before \<longrightarrow> resumptions s = 0) \<and>
     (joiner_of (join_pc s) \<noteq> Before \<or> join_pc s = Stored \<longrightarrow> m_handle s) \<and>
     (join_pc s = Joined Suspended \<longrightarrow> resumptions s = 0) \<and> resumptions s \<le> 1 \<and> join_pc s \<noteq> Joined Before"

text \<open>A step of one piece of work.\<close>

lemma outstanding_upd:
  "w < N \<Longrightarrow> work s' = (work s)(w := p) \<Longrightarrow>
    outstanding N s' + (if work s w = Working then 1 else 0) = outstanding N s + (if p = Working then 1 else 0)"
  "w < N \<Longrightarrow> work s' = (work s)(w := p) \<Longrightarrow>
    waking N s' + (if work s w = Waking then 1 else 0) = waking N s + (if p = Waking then 1 else 0)"
  using processes_at_upd [of w N "work s" p] by (simp_all only: outstanding_def waking_def)

lemma outstanding_bound: "outstanding N s \<le> N"
  by (simp add: outstanding_def processes_at_bound)

lemma outstanding_pos: "w < N \<Longrightarrow> work s w = Working \<Longrightarrow> 0 < outstanding N s"
  unfolding outstanding_def by (rule processes_at_pos)

lemma waking_pos: "w < N \<Longrightarrow> work s w = Waking \<Longrightarrow> 0 < waking N s"
  unfolding waking_def by (rule processes_at_pos)

lemma scope_joiner_simps [simp]:
  "joiner_of (Joined j) = j" "joiner_of Outside = Before" "joiner_of Joining = Before" "joiner_of Stored = Before"
  by (simp_all add: joiner_of_def)

text \<open>Who may spawn is before the join, or is itself outstanding work.\<close>

definition spawner_ok :: "nat \<Rightarrow> scope \<Rightarrow> nat option \<Rightarrow> bool" where
  "spawner_ok N s c \<longleftrightarrow> may_spawn s c \<and> (\<forall>v. c = Some v \<longrightarrow> v < N)"

lemma scope_inv_spawn:
  assumes inv: "scope_inv N s" and N: "N < 2 ^ 63" and w: "w < N" "work s w = Absent" and c: "spawner_ok N s c"
  shows "\<exists>s'. on_work_started s w = Some s' \<and> scope_inv N s'"
proof -
  let ?s = "s\<lparr>m_count := m_count s + 1, work := (work s)(w := Working)\<rparr>"
  have ok: "join_ok (m_count s) (outstanding N s) (waking N s) (joiner_of (join_pc s))"
    using inv by (simp add: scope_inv_def)
  have live: "joiner_of (join_pc s) = Before \<or> 0 < outstanding N s"
    using c outstanding_pos [of "the c" N s] by (cases c) (auto simp: spawner_ok_def may_spawn_def)
  have up: "outstanding N ?s = Suc (outstanding N s)" "waking N ?s = waking N s"
    using outstanding_upd [OF w(1), of ?s s Working] w(2) by simp_all
  have "Suc (outstanding N s) < 2 ^ 63" using outstanding_bound [of N ?s] up N by simp
  from join_ok_start [OF ok live this] show ?thesis
    using inv up by (simp add: scope_inv_def on_work_started_def)
qed

lemma scope_inv_finish:
  assumes inv: "scope_inv N s" and w: "w < N" "work s w = Working"
  shows "scope_inv N (on_work_finished s w)"
proof -
  define S where "S = on_work_finished s w"
  have S: "work S = (work s)(w := if m_count s = 1 then Waking else Over)" "m_count S = m_count s - 1"
      "join_pc S = join_pc s" "m_handle S = m_handle s" "resumptions S = resumptions s"
    by (simp_all add: S_def on_work_finished_def)
  have up: "Suc (outstanding N S) = outstanding N s" "waking N S = waking N s + (if m_count s = 1 then 1 else 0)"
    using outstanding_upd [OF w(1) S(1)] w(2) by simp_all
  have "join_ok (m_count s) (Suc (outstanding N S)) (waking N s) (joiner_of (join_pc s))"
    using inv up(1) by (simp add: scope_inv_def)
  from join_ok_finish [OF this] show ?thesis
    using inv unfolding up(2) [symmetric] by (simp add: scope_inv_def S flip: S_def)
qed

lemma scope_inv_resume:
  assumes inv: "scope_inv N s" and w: "w < N" "work s w = Waking"
  shows "\<exists>s'. finished_resume s w = Some s' \<and> scope_inv N s'"
proof -
  define S where
    "S = s\<lparr>work := (work s)(w := Over), join_pc := Joined Resumed, resumptions := Suc (resumptions s)\<rparr>"
  have S: "work S = (work s)(w := Over)" "m_count S = m_count s" "join_pc S = Joined Resumed"
      "m_handle S = m_handle s" "resumptions S = Suc (resumptions s)"
    by (simp_all add: S_def)
  have up: "outstanding N S = outstanding N s" "Suc (waking N S) = waking N s"
    using outstanding_upd [OF w(1) S(1)] w(2) by simp_all
  have "join_ok (m_count s) (outstanding N s) (Suc (waking N S)) (joiner_of (join_pc s))"
    using inv up(2) by (simp add: scope_inv_def)
  from join_ok_wake [OF this] have j: "joiner_of (join_pc s) = Suspended"
      "join_ok (m_count s) (outstanding N s) (waking N S) Resumed" by auto
  then have "join_pc s = Joined Suspended" by (cases "join_pc s") simp_all
  then have "scope_inv N S" "m_handle s" using inv j(2) up(1) by (simp_all add: scope_inv_def S)
  then show ?thesis by (simp add: finished_resume_def S_def)
qed

lemma scope_counts_cong:
  "work s' = work s \<Longrightarrow> outstanding N s' = outstanding N s \<and> waking N s' = waking N s"
  by (simp add: outstanding_def waking_def)

lemma scope_inv_join:
  assumes inv: "scope_inv N s"
  shows "join_pc s = Outside \<Longrightarrow> scope_inv N (join_ready s)"
    and "join_pc s = Joining \<Longrightarrow> scope_inv N (join_store s)"
    and "join_pc s = Stored \<Longrightarrow> scope_inv N (join_suspend s)"
proof -
  have ok: "join_ok (m_count s) (outstanding N s) (waking N s) (joiner_of (join_pc s))"
    using inv by (simp add: scope_inv_def)
  show "scope_inv N (join_ready s)" if "join_pc s = Outside"
    using inv that join_ok_unat [OF ok] scope_counts_cong [of "join_ready s" s N]
    by (simp add: scope_inv_def join_ready_def) auto
  show "scope_inv N (join_store s)" if "join_pc s = Joining"
    using inv that scope_counts_cong [of "join_store s" s N] by (simp add: scope_inv_def join_store_def)
  show "scope_inv N (join_suspend s)" if st: "join_pc s = Stored"
  proof -
    have b: "join_ok (m_count s) (outstanding N s) (waking N s) Before" using ok st by simp
    show ?thesis using inv st join_ok_join(1) [OF b] scope_counts_cong [of "join_suspend s" s N]
      by (simp add: scope_inv_def join_suspend_def split: if_splits)
  qed
qed

lemma scope_inv_step:
  assumes inv: "scope_inv N s" and N: "N < 2 ^ 63" and step: "scope_step N s s'"
  shows "\<exists>t. s' = Some t \<and> scope_inv N t"
  using step
proof cases
  case (sc_spawn w c)
  then show ?thesis using scope_inv_spawn [OF inv N, of w c] by (auto simp: spawner_ok_def)
next
  case (sc_finish w)
  then show ?thesis using scope_inv_finish [OF inv] by simp
next
  case (sc_resume w)
  then show ?thesis using scope_inv_resume [OF inv, of w] by auto
qed (use scope_inv_join [OF inv] in simp_all)

lemma scope_run_inv: "scope_run N s \<Longrightarrow> N < 2 ^ 63 \<Longrightarrow> \<exists>t. s = Some t \<and> scope_inv N t"
proof (induction rule: scope_run.induct)
  case sr_start
  have "outstanding N scope_new = 0" "waking N scope_new = 0"
    by (simp_all add: outstanding_def waking_def scope_new_def processes_at_none)
  then show ?case by (simp add: scope_inv_def join_ok_def) (simp add: scope_new_def)
next
  case (sr_step s s')
  then show ?case using scope_inv_step by blast
qed

section \<open>Property\<close>

text \<open>
  A scope joins its work: however spawns, ends of work and the join interleave (fewer than
  2^63 pieces of work), the assertion in on_work_started holds and no null handle is resumed; the
  joining coroutine gets past the join only when no work runs in the scope, and is resumed at
  most once; and it stays suspended only while work runs or is about to resume it.
\<close>

theorem async_scope_joins:
  assumes "scope_run N s" and "N < 2 ^ 63"
  shows "\<exists>t. s = Some t \<and> resumptions t \<le> 1 \<and>
    (join_pc t = Joined Resumed \<longrightarrow> (\<forall>w<N. work t w \<notin> {Working, Waking})) \<and>
    (join_pc t = Joined Suspended \<longrightarrow> (\<exists>w<N. work t w \<in> {Working, Waking}))"
proof -
  obtain t where t: "s = Some t" "scope_inv N t" using scope_run_inv [OF assms] by blast
  have ok: "join_ok (m_count t) (outstanding N t) (waking N t) (joiner_of (join_pc t))"
    using t(2) by (simp add: scope_inv_def)
  have none: "work t w \<notin> {Working, Waking}" if "join_pc t = Joined Resumed" "w < N" for w
    using that ok outstanding_pos [of w N t] waking_pos [of w N t] by (auto simp: join_ok_def)
  have "\<exists>w<N. work t w \<in> {Working, Waking}" if "join_pc t = Joined Suspended"
  proof (rule ccontr)
    assume "\<not> ?thesis"
    then have "outstanding N t = 0" "waking N t = 0" by (auto simp: outstanding_def waking_def processes_at_none)
    then show False using ok that by (simp add: join_ok_def)
  qed
  then show ?thesis using t none by (auto simp: scope_inv_def)
qed

theorem async_scope_joins_witness:
  "\<exists>t. scope_run 4 (Some t) \<and> join_pc t = Joined Resumed \<and> work t 2 = Over \<and> resumptions t = 1"
proof -
  note d = scope_new_def on_work_started_def on_work_finished_def join_ready_def join_store_def
    join_suspend_def finished_resume_def may_spawn_def
  let ?a = "the (on_work_started scope_new 2)"
  let ?b = "join_suspend (join_store (join_ready ?a))"
  let ?c = "on_work_finished ?b 2"
  have "scope_step 4 scope_new (on_work_started scope_new 2)"
    by (rule sc_spawn [where c = None]) (simp_all add: d)
  moreover have "on_work_started scope_new 2 = Some ?a" by (simp add: d)
  ultimately have "scope_run 4 (Some ?a)" using sr_start sr_step by metis
  then have "scope_run 4 (Some (join_ready ?a))" by (rule sr_step) (rule sc_ready, simp add: d)
  then have "scope_run 4 (Some (join_store (join_ready ?a)))" by (rule sr_step) (rule sc_store, simp add: d)
  then have "scope_run 4 (Some ?b)" by (rule sr_step) (rule sc_suspend, simp add: d)
  then have "scope_run 4 (Some ?c)" by (rule sr_step) (rule sc_finish, simp_all add: d)
  then have run: "scope_run 4 (finished_resume ?c 2)" by (rule sr_step) (rule sc_resume, simp_all add: d)
  obtain t where t: "finished_resume ?c 2 = Some t" "resumptions t \<le> 1"
    using async_scope_joins [OF run] by force
  moreover have "join_pc t = Joined Resumed" "work t 2 = Over" "resumptions t = 1"
    using t(1) by (auto simp: d)
  ultimately show ?thesis using run by metis
qed

end
