(* ===== verification/Blocking.thy ===== *)
theory Blocking
  imports Coro_Prelude
begin

text \<open>
  The primitives that block or spin a thread: spin_wait and spin_mutex
  (include/coro/spin_wait.h, spin_mutex.h and their sources), auto_reset_event
  (include/coro/auto_reset_event.h), lightweight_manual_reset_event
  (include/coro/detail/lightweight_manual_reset_event.h) and sync_wait with its task
  (include/coro/detail/sync_wait.h, sync_wait_task.h). A critical section under a std::mutex is
  one step; a thread that waits on a condition variable sleeps until it is notified, and may wake
  at any time without.
\<close>

section \<open>spin_wait\<close>

definition threshold :: u32 where "threshold = 10"

text \<open>\<open>cores\<close> is what std::thread::hardware_concurrency returns.\<close>

definition spin_new :: "nat \<Rightarrow> u32" where
  "spin_new cores = (if cores > 1 then 0 else threshold)"

definition next_spin_will_yield :: "u32 \<Rightarrow> bool" where
  "next_spin_will_yield spin_count \<longleftrightarrow> spin_count \<ge> threshold"

text \<open>The new count; the thread yields when \<open>next_spin_will_yield\<close> holds of the old one.\<close>

definition spin_one :: "u32 \<Rightarrow> u32" where
  "spin_one spin_count = (let c = spin_count + 1 in if c = 0 then threshold else c)"

lemma spin_one_yields: "next_spin_will_yield c \<Longrightarrow> next_spin_will_yield (spin_one c)"
proof -
  assume c: "next_spin_will_yield c"
  show ?thesis
  proof (cases "c + 1 = 0")
    case True
    then show ?thesis by (simp add: spin_one_def next_spin_will_yield_def)
  next
    case False
    then have "unat (c + 1) = Suc (unat c)" by (metis unatSuc add.commute)
    then show ?thesis using False c
      by (simp add: spin_one_def next_spin_will_yield_def word_le_nat_alt)
  qed
qed

lemma spins_before_threshold: "n \<le> 10 \<Longrightarrow> (spin_one ^^ n) 0 = of_nat n"
proof (induction n)
  case (Suc n)
  have "unat (of_nat (Suc n) :: u32) = Suc n" using Suc.prems by (subst unat_of_nat) (rule mod_less, simp)
  then have "(of_nat (Suc n) :: u32) \<noteq> 0" by (metis nat.distinct(1) unat_0)
  then show ?case using Suc by (simp add: spin_one_def Let_def add.commute)
qed simp

lemma spins_yield: "next_spin_will_yield ((spin_one ^^ n) 0) \<longleftrightarrow> 10 \<le> n"
proof (cases "10 \<le> n")
  case True
  then obtain k where k: "n = k + 10" using le_Suc_ex by (metis add.commute)
  have "next_spin_will_yield ((spin_one ^^ k) ((spin_one ^^ 10) 0))"
    by (induction k) (simp_all add: spin_one_yields spins_before_threshold, simp add: next_spin_will_yield_def threshold_def)
  then show ?thesis using True unfolding k funpow_add by simp
next
  case False
  then have "unat (of_nat n :: u32) = n" by (subst unat_of_nat) (rule mod_less, simp)
  then have "\<not> next_spin_will_yield (of_nat n)" using False
    by (simp add: next_spin_will_yield_def threshold_def word_le_nat_alt)
  then show ?thesis using False spins_before_threshold [of n] by simp
qed

section \<open>spin_mutex\<close>

text \<open>In \<open>lock\<close>: about to exchange, and in the inner loop with the count of \<open>spin_wait\<close>.\<close>

datatype lock_pc = Unlocked_by | Trying u32 | Spinning u32 | Holding

record spin_mutex =
  is_locked :: bool
  lock_pc :: "nat \<Rightarrow> lock_pc"

definition mutex_new :: spin_mutex where
  "mutex_new = \<lparr>is_locked = False, lock_pc = (\<lambda>_. Unlocked_by)\<rparr>"

text \<open>\<open>try_lock\<close>: an exchange with true; \<open>otherwise\<close> is where a thread goes that has failed.\<close>

definition try_lock :: "spin_mutex \<Rightarrow> nat \<Rightarrow> lock_pc \<Rightarrow> spin_mutex" where
  "try_lock m t otherwise =
     m\<lparr>is_locked := True, lock_pc := (lock_pc m)(t := if is_locked m then otherwise else Holding)\<rparr>"

definition lock_spin :: "spin_mutex \<Rightarrow> nat \<Rightarrow> u32 \<Rightarrow> spin_mutex" where
  "lock_spin m t c =
     m\<lparr>lock_pc := (lock_pc m)(t := if is_locked m then Spinning (spin_one c) else Trying c)\<rparr>"

definition unlock :: "spin_mutex \<Rightarrow> nat \<Rightarrow> spin_mutex" where
  "unlock m t = m\<lparr>is_locked := False, lock_pc := (lock_pc m)(t := Unlocked_by)\<rparr>"

inductive spin_step :: "nat \<Rightarrow> spin_mutex \<Rightarrow> spin_mutex \<Rightarrow> bool" for cores where
  sm_try: "lock_pc m t = Unlocked_by \<Longrightarrow> spin_step cores m (try_lock m t Unlocked_by)"
| sm_lock: "lock_pc m t = Unlocked_by \<Longrightarrow>
    spin_step cores m (m\<lparr>lock_pc := (lock_pc m)(t := Trying (spin_new cores))\<rparr>)"
| sm_exchange: "lock_pc m t = Trying c \<Longrightarrow> spin_step cores m (try_lock m t (Spinning c))"
| sm_spin: "lock_pc m t = Spinning c \<Longrightarrow> spin_step cores m (lock_spin m t c)"
| sm_unlock: "lock_pc m t = Holding \<Longrightarrow> spin_step cores m (unlock m t)"

definition spin_init :: "spin_mutex \<Rightarrow> bool" where
  "spin_init m \<longleftrightarrow> m = mutex_new"

definition spin_inv :: "spin_mutex \<Rightarrow> bool" where
  "spin_inv m \<longleftrightarrow> (is_locked m \<longleftrightarrow> (\<exists>t. lock_pc m t = Holding)) \<and>
     (\<forall>t u. lock_pc m t = Holding \<and> lock_pc m u = Holding \<longrightarrow> t = u)"

lemma spin_inv_move:
  assumes inv: "spin_inv m" and t: "lock_pc m t \<noteq> Holding" "p \<noteq> Holding"
    and m': "is_locked m' = is_locked m" "lock_pc m' = (lock_pc m)(t := p)"
  shows "spin_inv m'"
proof -
  have "lock_pc m' u = Holding \<longleftrightarrow> lock_pc m u = Holding" for u using t m' by simp
  then show ?thesis using inv m'(1) by (simp add: spin_inv_def)
qed

lemma spin_inv_try:
  assumes inv: "spin_inv m" and t: "lock_pc m t \<noteq> Holding" "p \<noteq> Holding"
  shows "spin_inv (try_lock m t p)"
proof (cases "is_locked m")
  case True
  show ?thesis by (rule spin_inv_move [OF inv t]) (simp_all add: try_lock_def True)
next
  case False
  then show ?thesis using inv by (auto simp: spin_inv_def try_lock_def)
qed

lemma spin_inv_unlock:
  assumes inv: "spin_inv m" and t: "lock_pc m t = Holding"
  shows "spin_inv (unlock m t)"
proof -
  have "lock_pc m u \<noteq> Holding" if "u \<noteq> t" for u using inv t that unfolding spin_inv_def by blast
  then show ?thesis by (simp add: spin_inv_def unlock_def)
qed

lemma spin_inv_step:
  assumes inv: "spin_inv m" and step: "spin_step cores m m'"
  shows "spin_inv m'"
  using step
proof cases
  case (sm_lock t)
  then show ?thesis by (intro spin_inv_move [OF inv, of t "Trying (spin_new cores)"]) simp_all
next
  case (sm_spin t c)
  then show ?thesis
    by (intro spin_inv_move [OF inv, of t "if is_locked m then Spinning (spin_one c) else Trying c"])
      (simp_all add: lock_spin_def)
qed (use spin_inv_try [OF inv] spin_inv_unlock [OF inv] in simp_all)

lemma spin_inv_init: "spin_init m \<Longrightarrow> spin_inv m"
  by (simp add: spin_init_def spin_inv_def mutex_new_def)

interpretation spin_sys: invariant_system spin_init "spin_step cores" spin_inv
  by unfold_locales (rule spin_inv_init, assumption, rule spin_inv_step)

section \<open>auto_reset_event\<close>

text \<open>
  A thread in \<open>wait\<close> holds the mutex when it looks at the flag; it sleeps, and is awake again
  after a notification or a spurious wake-up.
\<close>

datatype wait_pc = Idle | Asleep | Awake | Woken

record auto_event =
  m_is_set :: bool
  wait_pc :: "nat \<Rightarrow> wait_pc"
  sets :: nat
  waits :: nat

definition auto_new :: "bool \<Rightarrow> auto_event" where
  "auto_new init = \<lparr>m_is_set = init, wait_pc = (\<lambda>_. Idle), sets = (if init then 1 else 0), waits = 0\<rparr>"

text \<open>\<open>set\<close>; \<open>notify_one\<close> wakes \<open>notified\<close>, one of the sleeping threads, when there is one.\<close>

definition auto_set :: "auto_event \<Rightarrow> nat option \<Rightarrow> auto_event" where
  "auto_set e notified =
     (if \<not> m_is_set e
      then e\<lparr>m_is_set := True, sets := Suc (sets e),
             wait_pc := (case notified of None \<Rightarrow> wait_pc e | Some t \<Rightarrow> (wait_pc e)(t := Woken))\<rparr>
      else e)"

definition auto_wait :: "auto_event \<Rightarrow> nat \<Rightarrow> auto_event" where
  "auto_wait e t =
     (if m_is_set e then e\<lparr>m_is_set := False, waits := Suc (waits e), wait_pc := (wait_pc e)(t := Idle)\<rparr>
      else e\<lparr>wait_pc := (wait_pc e)(t := Asleep)\<rparr>)"

definition notifies :: "auto_event \<Rightarrow> nat option \<Rightarrow> bool" where
  "notifies e notified \<longleftrightarrow>
     (case notified of None \<Rightarrow> \<forall>t. wait_pc e t \<noteq> Asleep | Some t \<Rightarrow> wait_pc e t = Asleep)"

inductive auto_step :: "auto_event \<Rightarrow> auto_event \<Rightarrow> bool" where
  as_set: "notifies e notified \<Longrightarrow> auto_step e (auto_set e notified)"
| as_wait: "wait_pc e t \<noteq> Asleep \<Longrightarrow> auto_step e (auto_wait e t)"
| as_spurious: "wait_pc e t = Asleep \<Longrightarrow> auto_step e (e\<lparr>wait_pc := (wait_pc e)(t := Awake)\<rparr>)"

definition auto_init :: "auto_event \<Rightarrow> bool" where
  "auto_init e \<longleftrightarrow> (\<exists>init. e = auto_new init)"

text \<open>A set flag and a sleeping thread imply a thread on its way to the flag.\<close>

definition auto_inv :: "auto_event \<Rightarrow> bool" where
  "auto_inv e \<longleftrightarrow> sets e = waits e + (if m_is_set e then 1 else 0) \<and>
     (m_is_set e \<and> (\<exists>t. wait_pc e t = Asleep) \<longrightarrow> (\<exists>t. wait_pc e t \<in> {Woken, Awake}))"

lemma auto_inv_step: "auto_inv e \<Longrightarrow> auto_step e e' \<Longrightarrow> auto_inv e'"
proof (erule auto_step.cases, goal_cases)
  case (1 e notified)
  then show ?case by (cases notified) (auto simp: auto_inv_def auto_set_def notifies_def)
next
  case (2 e t)
  then show ?case by (auto simp: auto_inv_def auto_wait_def)
next
  case (3 e t)
  then show ?case by (auto simp: auto_inv_def)
qed

lemma auto_inv_init: "auto_init e \<Longrightarrow> auto_inv e"
  by (auto simp: auto_init_def auto_inv_def auto_new_def)

interpretation auto_sys: invariant_system auto_init auto_step auto_inv
  by unfold_locales (rule auto_inv_init, assumption, rule auto_inv_step)

section \<open>lightweight_manual_reset_event and sync_wait\<close>

text \<open>
  \<open>sync_wait\<close> starts a task that ends by setting an event on the caller's stack, waits for the
  event, takes the result and returns, which destroys the event. The setter: the task's body is
  running; about to enter \<open>set\<close>; past its critical section and about to notify; done. The waiter
  starts to wait when the start of the task has returned, which may be at any time.
\<close>

datatype setter_pc = Body | Setting | Notifying | Set_done

datatype waiter_pc = Started | Sleeping | Rechecking | Returned | Left

record ('e, 'v) sync =
  event_set :: bool
  setter :: setter_pc
  waiter :: waiter_pc
  m_result :: "('e + 'v) option"

definition sync_start :: "('e, 'v) sync" where
  "sync_start = \<lparr>event_set = False, setter = Body, waiter = Started, m_result = None\<rparr>"

text \<open>\<open>yield_value\<close>, \<open>return_void\<close> or \<open>unhandled_exception\<close>, then the final suspension.\<close>

definition task_finish :: "('e, 'v) sync \<Rightarrow> 'e + 'v \<Rightarrow> ('e, 'v) sync" where
  "task_finish s r = s\<lparr>m_result := Some r, setter := Setting\<rparr>"

definition event_store :: "('e, 'v) sync \<Rightarrow> ('e, 'v) sync" where
  "event_store s = s\<lparr>event_set := True, setter := Notifying\<rparr>"

text \<open>Notifying a condition variable that has been destroyed is \<open>None\<close>.\<close>

definition event_notify :: "('e, 'v) sync \<Rightarrow> ('e, 'v) sync option" where
  "event_notify s =
     (if waiter s = Left then None
      else Some (s\<lparr>setter := Set_done, waiter := (if waiter s = Sleeping then Rechecking else waiter s)\<rparr>))"

definition event_wait :: "('e, 'v) sync \<Rightarrow> ('e, 'v) sync" where
  "event_wait s = s\<lparr>waiter := (if event_set s then Returned else Sleeping)\<rparr>"

text \<open>\<open>task.result()\<close>: the exception is thrown on to the caller of \<open>sync_wait\<close>.\<close>

definition sync_result :: "('e, 'v) sync \<Rightarrow> ('e + 'v) option" where
  "sync_result s = m_result s"

definition sync_leave :: "('e, 'v) sync \<Rightarrow> ('e, 'v) sync" where
  "sync_leave s = s\<lparr>waiter := Left\<rparr>"

inductive sync_step :: "('e, 'v) sync \<Rightarrow> ('e, 'v) sync option \<Rightarrow> bool" where
  sy_finish: "setter s = Body \<Longrightarrow> sync_step s (Some (task_finish s r))"
| sy_store: "setter s = Setting \<Longrightarrow> sync_step s (Some (event_store s))"
| sy_notify: "setter s = Notifying \<Longrightarrow> sync_step s (event_notify s)"
| sy_wait: "waiter s \<in> {Started, Rechecking} \<Longrightarrow> sync_step s (Some (event_wait s))"
| sy_spurious: "waiter s = Sleeping \<Longrightarrow> sync_step s (Some (s\<lparr>waiter := Rechecking\<rparr>))"
| sy_leave: "waiter s = Returned \<Longrightarrow> sync_step s (Some (sync_leave s))"

inductive sync_run :: "('e, 'v) sync option \<Rightarrow> bool" where
  sy_start: "sync_run (Some sync_start)"
| sy_step: "sync_run (Some s) \<Longrightarrow> sync_step s s' \<Longrightarrow> sync_run s'"

definition sync_inv :: "('e, 'v) sync \<Rightarrow> bool" where
  "sync_inv s \<longleftrightarrow> (event_set s \<longleftrightarrow> setter s \<in> {Notifying, Set_done}) \<and>
     (m_result s = None \<longleftrightarrow> setter s = Body) \<and> (waiter s \<in> {Returned, Left} \<longrightarrow> event_set s) \<and>
     (setter s = Set_done \<longrightarrow> waiter s \<noteq> Sleeping)"

lemma sync_inv_step: "sync_inv s \<Longrightarrow> sync_step s s' \<Longrightarrow> case s' of None \<Rightarrow> waiter s = Left | Some t \<Rightarrow> sync_inv t"
  by (erule sync_step.cases)
    (auto simp: sync_inv_def task_finish_def event_store_def event_notify_def event_wait_def sync_leave_def)

lemma sync_run_inv: "sync_run s \<Longrightarrow> case s of None \<Rightarrow> True | Some t \<Rightarrow> sync_inv t"
proof (induction rule: sync_run.induct)
  case sy_start
  then show ?case by (simp add: sync_inv_def sync_start_def)
next
  case (sy_step s s')
  then have "sync_inv s" by simp
  from sync_inv_step [OF this sy_step.hyps(2)] show ?case by (simp split: option.splits)
qed

text \<open>The task ends; the waiter gets past the event before the setter notifies, and leaves.\<close>

lemma demo_sync_runs:
  fixes r :: "'e + 'v"
  defines "s \<equiv> sync_leave (event_wait (event_store (task_finish sync_start r)))"
  shows "sync_run (Some s)" and "sync_run (event_notify s)"
proof -
  note d = sync_start_def task_finish_def event_store_def event_wait_def sync_leave_def
  have "sync_run (Some (task_finish sync_start r))"
    by (rule sync_run.sy_step [OF sync_run.sy_start]) (rule sy_finish, simp add: d)
  then have "sync_run (Some (event_store (task_finish sync_start r)))"
    by (rule sync_run.sy_step) (rule sy_store, simp add: d)
  then have "sync_run (Some (event_wait (event_store (task_finish sync_start r))))"
    by (rule sync_run.sy_step) (rule sy_wait, simp add: d)
  then show run: "sync_run (Some s)" unfolding s_def
    by (rule sync_run.sy_step) (rule sy_leave, simp add: d)
  then show "sync_run (event_notify s)"
    by (rule sync_run.sy_step) (rule sy_notify, simp add: s_def d)
qed

section \<open>Properties\<close>

text \<open>
  C35. sync_wait returns with the result: however the task and the waiting thread interleave, the
  wait for the event returns only when the task has left a value or an exception, and once the
  setter has notified the waiting thread does not sleep any more.
\<close>

theorem sync_wait_returns_result:
  assumes "sync_run (Some s)"
  shows "(waiter s \<in> {Returned, Left} \<longrightarrow> sync_result s \<noteq> None) \<and>
    (setter s = Set_done \<longrightarrow> waiter s \<noteq> Sleeping)"
  using sync_run_inv [OF assms] by (auto simp: sync_inv_def sync_result_def)

theorem sync_wait_returns_result_witness:
  "\<exists>s. sync_run (Some (s :: (nat, nat) sync)) \<and> waiter s = Left \<and> sync_result s \<noteq> None"
proof -
  let ?s = "sync_leave (event_wait (event_store (task_finish sync_start (Inr 5)))) :: (nat, nat) sync"
  have "waiter ?s = Left" by (simp add: sync_leave_def)
  then show ?thesis using sync_wait_returns_result [OF demo_sync_runs(1), of "Inr 5"] demo_sync_runs(1) [of "Inr 5"]
    by blast
qed

text \<open>
  The event of sync_wait can be used after it has been destroyed: set leaves its critical
  section before it notifies, and the thread that waits may see the flag, return and end the
  event's life in between, so that the notification is of a destroyed condition variable.
\<close>

theorem sync_wait_notifies_destroyed_event:
  "\<exists>s. sync_run (Some s) \<and> setter s = Notifying \<and> waiter s = Left \<and> sync_run (event_notify s) \<and>
     event_notify s = None"
proof -
  let ?s = "sync_leave (event_wait (event_store (task_finish sync_start (undefined :: 'a + 'b))))"
  have "setter ?s = Notifying" "waiter ?s = Left" "event_notify ?s = None"
    by (simp_all add: sync_start_def task_finish_def event_store_def event_wait_def sync_leave_def event_notify_def)
  then show ?thesis using demo_sync_runs by blast
qed

text \<open>
  spin_mutex excludes: however many threads try, spin and unlock, at most one holds it, and
  it is marked locked exactly while one does.
\<close>

theorem spin_mutex_excludes:
  assumes "reachable spin_init (spin_step cores) m"
  shows "(is_locked m \<longleftrightarrow> (\<exists>t. lock_pc m t = Holding)) \<and>
    (lock_pc m t = Holding \<and> lock_pc m u = Holding \<longrightarrow> t = u)"
  using spin_sys.reachable_inv [OF assms] by (auto simp: spin_inv_def)

theorem spin_mutex_excludes_witness:
  "\<exists>m. reachable spin_init (spin_step 4) m \<and> lock_pc m 2 = Holding \<and> lock_pc m 3 = Spinning 0 \<and> is_locked m"
proof -
  let ?a = "mutex_new\<lparr>lock_pc := (lock_pc mutex_new)(2 := Trying 0)\<rparr>"
  let ?b = "try_lock ?a 2 (Spinning 0)"
  let ?c = "?b\<lparr>lock_pc := (lock_pc ?b)(3 := Trying 0)\<rparr>"
  let ?d = "try_lock ?c 3 (Spinning 0)"
  have n: "spin_new 4 = 0" by (simp add: spin_new_def)
  have "spin_init mutex_new" by (simp add: spin_init_def)
  then have "reachable spin_init (spin_step 4) mutex_new" by (rule reachable_init)
  then have "reachable spin_init (spin_step 4) ?a"
    by (rule reachable_step) (use sm_lock [of mutex_new 2 4] in \<open>simp add: mutex_new_def n\<close>)
  then have b: "reachable spin_init (spin_step 4) ?b" by (rule reachable_step) (rule sm_exchange, simp)
  have "spin_step 4 ?b ?c" using sm_lock [of ?b 3 4] n by (simp add: try_lock_def mutex_new_def)
  with b have "reachable spin_init (spin_step 4) ?c" by (rule reachable_step)
  then have reach: "reachable spin_init (spin_step 4) ?d" by (rule reachable_step) (rule sm_exchange, simp)
  have "lock_pc ?d 2 = Holding" "lock_pc ?d 3 = Spinning 0" by (simp_all add: try_lock_def mutex_new_def)
  then show ?thesis using reach spin_mutex_excludes [OF reach, of 2 3] by metis
qed

text \<open>
  A thread spins at most ten times before it yields, and yields at every spin from then on,
  even when the counter wraps around; with a single core it yields at once.
\<close>

theorem spin_wait_yields:
  "next_spin_will_yield ((spin_one ^^ n) (spin_new cores)) \<longleftrightarrow> cores \<le> 1 \<or> 10 \<le> n"
proof (cases "cores > 1")
  case True
  then show ?thesis using spins_yield by (simp add: spin_new_def)
next
  case False
  have "next_spin_will_yield ((spin_one ^^ n) threshold)"
    by (induction n) (simp_all add: spin_one_yields, simp add: next_spin_will_yield_def)
  then show ?thesis using False by (simp add: spin_new_def)
qed

text \<open>
  auto_reset_event loses no signal and wakes one thread for each: as many waits have returned
  as the flag has been set, up to the set that is still pending, and while one is pending no
  thread sleeps unless another is awake and about to take it.
\<close>

theorem auto_reset_event_signals:
  assumes "reachable auto_init auto_step e"
  shows "sets e = waits e + (if m_is_set e then 1 else 0) \<and>
    (m_is_set e \<and> wait_pc e t = Asleep \<longrightarrow> (\<exists>u. wait_pc e u \<in> {Woken, Awake}))"
  using auto_sys.reachable_inv [OF assms] by (auto simp: auto_inv_def)

theorem auto_reset_event_signals_witness:
  "\<exists>e. reachable auto_init auto_step e \<and> m_is_set e \<and> wait_pc e 2 = Woken \<and> wait_pc e 3 = Asleep \<and> sets e = 1"
proof -
  let ?a = "auto_wait (auto_wait (auto_new False) 2) 3"
  let ?e = "auto_set ?a (Some 2)"
  note d = auto_wait_def auto_new_def auto_set_def
  have "auto_init (auto_new False)" by (auto simp: auto_init_def)
  then have "reachable auto_init auto_step (auto_new False)" by (rule reachable_init)
  then have "reachable auto_init auto_step (auto_wait (auto_new False) 2)"
    by (rule reachable_step) (rule as_wait, simp add: d)
  then have "reachable auto_init auto_step ?a" by (rule reachable_step) (rule as_wait, simp add: d)
  then have reach: "reachable auto_init auto_step ?e"
    by (rule reachable_step) (rule as_set, simp add: d notifies_def)
  have "m_is_set ?e" "wait_pc ?e 2 = Woken" "wait_pc ?e 3 = Asleep" "waits ?e = 0" by (simp_all add: d)
  then show ?thesis using reach auto_reset_event_signals [OF reach, of 3] by (intro exI [of _ ?e]) simp
qed

end
