(* ===== verification/Generators.thy ===== *)
theory Generators
  imports Coro_Prelude
begin

text \<open>
  include/coro/types/generator.h: a coroutine that yields values to a loop. The body of the
  coroutine is user code: what it does next is a (possibly infinite) tree of yields that may end
  by returning or by an exception. \<open>None\<close> is undefined behaviour: resuming a coroutine that is done,
  or reading a value that was never set.
\<close>

codatatype ('e, 'v) body = Return | Throw 'e | Yield (yielded: 'v) (rest: "('e, 'v) body")

section \<open>The promise\<close>

text \<open>\<open>suspended\<close>: what the coroutine does when it is resumed, \<open>None\<close> when it is done.\<close>

record ('e, 'v) promise =
  m_value :: "'v option"
  m_exception :: "'e option"
  suspended :: "('e, 'v) body option"

definition generator_new :: "('e, 'v) body \<Rightarrow> ('e, 'v) promise" where
  "generator_new b = \<lparr>m_value = None, m_exception = None, suspended = Some b\<rparr>"

definition is_done :: "('e, 'v) promise \<Rightarrow> bool" where
  "is_done p \<longleftrightarrow> suspended p = None"

definition yield_value :: "('e, 'v) promise \<Rightarrow> 'v \<Rightarrow> ('e, 'v) body \<Rightarrow> ('e, 'v) promise" where
  "yield_value p v b = p\<lparr>m_value := Some v, suspended := Some b\<rparr>"

definition unhandled_exception :: "('e, 'v) promise \<Rightarrow> 'e \<Rightarrow> ('e, 'v) promise" where
  "unhandled_exception p e = p\<lparr>m_exception := Some e, suspended := None\<rparr>"

definition return_void :: "('e, 'v) promise \<Rightarrow> ('e, 'v) promise" where
  "return_void p = p\<lparr>suspended := None\<rparr>"

definition resume :: "('e, 'v) promise \<Rightarrow> ('e, 'v) promise option" where
  "resume p = map_option (\<lambda>b. case b of Return \<Rightarrow> return_void p | Throw e \<Rightarrow> unhandled_exception p e
     | Yield v b' \<Rightarrow> yield_value p v b') (suspended p)"

section \<open>The generator and its iterator\<close>

text \<open>
  \<open>begin\<close> and \<open>operator++\<close> of the same code resume the coroutine and rethrow its exception when
  that has ended it; the result is the new state and the exception that leaves the call. A null
  handle is left alone.
\<close>

type_synonym ('e, 'v) handle = "('e, 'v) promise option"

definition advance :: "('e, 'v) handle \<Rightarrow> (('e, 'v) handle \<times> 'e option) option" where
  "advance h =
     (case h of
        None \<Rightarrow> Some (None, None)
      | Some p \<Rightarrow> map_option (\<lambda>p'. (Some p', if is_done p' then m_exception p' else None)) (resume p))"

definition generator_begin :: "('e, 'v) handle \<Rightarrow> (('e, 'v) handle \<times> 'e option) option" where
  "generator_begin h = advance h"

definition iterator_next :: "('e, 'v) handle \<Rightarrow> (('e, 'v) handle \<times> 'e option) option" where
  "iterator_next it = advance it"

definition at_end :: "('e, 'v) handle \<Rightarrow> bool" where
  "at_end it = (case it of None \<Rightarrow> True | Some p \<Rightarrow> is_done p)"

definition iterator_value :: "('e, 'v) handle \<Rightarrow> 'v option" where
  "iterator_value it = Option.bind it m_value"

text \<open>
  The loop \<open>for (auto&& value : generator)\<close> that collects the values: \<open>None\<close> when it does not end
  or is undefined; else the values, and the exception that leaves the loop.
\<close>

partial_function (option) collect_from :: "('e, 'v) handle \<Rightarrow> 'v list \<Rightarrow> ('v list \<times> 'e option) option" where
  "collect_from it acc =
     (if at_end it then Some (acc, None)
      else case iterator_value it of
        None \<Rightarrow> None
      | Some v \<Rightarrow> (case iterator_next it of
          None \<Rightarrow> None
        | Some (it', Some e) \<Rightarrow> Some (acc @ [v], Some e)
        | Some (it', None) \<Rightarrow> collect_from it' (acc @ [v])))"

definition collect :: "('e, 'v) handle \<Rightarrow> ('v list \<times> 'e option) option" where
  "collect h =
     (case generator_begin h of
        None \<Rightarrow> None
      | Some (it, Some e) \<Rightarrow> Some ([], Some e)
      | Some (it, None) \<Rightarrow> collect_from it [])"

text \<open>
  \<open>fmap\<close> is a generator whose body is such a loop; a throwing function ends the body. The loop
  begins or goes on when the coroutine is resumed.
\<close>

primcorec fmap_body :: "('v \<Rightarrow> 'e + 'w) \<Rightarrow> ('e, 'v) handle \<Rightarrow> ('e, 'w) body" where
  "fmap_body f source =
     (case advance source of
        None \<Rightarrow> Return
      | Some (it, ex) \<Rightarrow>
          (case ex of
             Some e \<Rightarrow> Throw e
           | None \<Rightarrow>
               if at_end it then Return
               else (case f (the (iterator_value it)) of
                       Inl e \<Rightarrow> Throw e
                     | Inr w \<Rightarrow> Yield w (fmap_body f it))))"

section \<open>What loops see\<close>

text \<open>A body that yields \<open>vs\<close> and then goes on as \<open>b\<close> is \<open>foldr Yield vs b\<close>.\<close>

lemma advance_simps:
  "suspended p = Some (Yield v b) \<Longrightarrow>
    advance (Some p) = Some (Some (p\<lparr>m_value := Some v, suspended := Some b\<rparr>), None)"
  "suspended p = Some Return \<Longrightarrow>
    advance (Some p) = Some (Some (p\<lparr>suspended := None\<rparr>), m_exception p)"
  "suspended p = Some (Throw e) \<Longrightarrow>
    advance (Some p) = Some (Some (p\<lparr>m_exception := Some e, suspended := None\<rparr>), Some e)"
  by (simp_all add: advance_def resume_def yield_value_def unhandled_exception_def return_void_def is_done_def)

lemma at_end_simps [simp]:
  "at_end (Some p) \<longleftrightarrow> suspended p = None" "at_end None" "iterator_value (Some p) = m_value p"
  by (simp_all add: at_end_def is_done_def iterator_value_def)

definition body_end :: "('e, 'v) body \<Rightarrow> 'e option \<Rightarrow> bool" where
  "body_end b ex \<longleftrightarrow> b = (case ex of None \<Rightarrow> Return | Some e \<Rightarrow> Throw e)"

lemma collect_from_yields:
  assumes "m_value p = Some v" "suspended p = Some (foldr Yield vs b)" "m_exception p = None" "body_end b ex"
  shows "collect_from (Some p) acc = Some (acc @ v # vs, ex)"
  using assms
proof (induction vs arbitrary: p v acc)
  case Nil
  then show ?case
    by (cases ex) (simp_all add: collect_from.simps [of "Some p"] iterator_next_def advance_simps
      collect_from.simps [of "Some (p\<lparr>suspended := None\<rparr>)"] body_end_def)
next
  case (Cons w vs)
  let ?q = "p\<lparr>m_value := Some w, suspended := Some (foldr Yield vs b)\<rparr>"
  have "collect_from (Some p) acc = collect_from (Some ?q) (acc @ [v])"
    using Cons.prems by (simp add: collect_from.simps [of "Some p"] iterator_next_def advance_simps)
  also have "\<dots> = Some ((acc @ [v]) @ w # vs, ex)" by (rule Cons.IH) (simp_all add: Cons.prems)
  finally show ?case by simp
qed

lemma collect_yields:
  assumes "body_end b ex"
  shows "collect (Some (generator_new (foldr Yield vs b))) = Some (vs, ex)"
proof (cases vs)
  case Nil
  then show ?thesis using assms
    by (cases ex) (simp_all add: collect_def generator_begin_def advance_simps generator_new_def body_end_def
      collect_from.simps [of "Some \<lparr>m_value = None, m_exception = None, suspended = None\<rparr>"])
next
  case (Cons v ws)
  let ?p = "\<lparr>m_value = Some v, m_exception = None, suspended = Some (foldr Yield ws b)\<rparr>"
  have "collect (Some (generator_new (foldr Yield vs b))) = collect_from (Some ?p) []"
    by (simp add: collect_def generator_begin_def advance_simps generator_new_def Cons)
  then show ?thesis using collect_from_yields [of ?p v ws b ex "[]"] assms Cons by simp
qed

text \<open>The state of the iterator after \<open>begin\<close> and \<open>n\<close> increments.\<close>

fun iterator_after :: "nat \<Rightarrow> ('e, 'v) handle \<Rightarrow> ('e, 'v) handle option" where
  "iterator_after 0 h = map_option fst (generator_begin h)"
| "iterator_after (Suc n) h = Option.bind (iterator_after n h) (\<lambda>it. map_option fst (iterator_next it))"

lemma iterator_after_yields:
  assumes "n < length vs"
  shows "iterator_after n (Some (generator_new (foldr Yield vs b))) =
    Some (Some \<lparr>m_value = Some (vs ! n), m_exception = None, suspended = Some (foldr Yield (drop (Suc n) vs) b)\<rparr>)"
  using assms
proof (induction n)
  case 0
  then obtain v ws where "vs = v # ws" by (cases vs) auto
  then show ?case by (simp add: generator_begin_def advance_simps generator_new_def)
next
  case (Suc n)
  have "foldr Yield (drop (Suc n) vs) b = Yield (vs ! Suc n) (foldr Yield (drop (Suc (Suc n)) vs) b)"
    using Suc.prems by (simp add: Cons_nth_drop_Suc [symmetric])
  then show ?case using Suc by (simp add: iterator_next_def advance_simps)
qed

section \<open>fmap\<close>

lemma fmap_body_from:
  assumes "suspended p = Some (foldr Yield vs b)" "m_exception p = None" "body_end b ex" "body_end c ex"
    "\<forall>v. f v = Inr (g v)"
  shows "fmap_body f (Some p) = foldr Yield (map g vs) c"
  using assms
proof (induction vs arbitrary: p)
  case Nil
  then show ?case by (subst fmap_body.code) (cases ex; simp add: advance_simps body_end_def)
next
  case (Cons v vs)
  let ?q = "p\<lparr>m_value := Some v, suspended := Some (foldr Yield vs b)\<rparr>"
  have "fmap_body f (Some p) = Yield (g v) (fmap_body f (Some ?q))"
    using Cons.prems by (subst fmap_body.code) (simp add: advance_simps)
  moreover have "fmap_body f (Some ?q) = foldr Yield (map g vs) c" by (rule Cons.IH) (simp_all add: Cons.prems)
  ultimately show ?case by simp
qed

lemma collect_fmap:
  assumes "body_end b ex"
  shows "collect (Some (generator_new (fmap_body (\<lambda>v. Inr (g v)) (Some (generator_new (foldr Yield vs b)))))) =
    Some (map g vs, ex)"
proof -
  obtain c :: "('a, 'c) body" where c: "body_end c ex" by (simp add: body_end_def)
  have "fmap_body (\<lambda>v. Inr (g v)) (Some (generator_new (foldr Yield vs b))) = foldr Yield (map g vs) c"
    by (rule fmap_body_from) (use assms c in \<open>simp_all add: generator_new_def\<close>)
  then show ?thesis using collect_yields [OF c] by simp
qed

section \<open>Properties\<close>

text \<open>
  A loop over a generator sees exactly the values that its body yields, in order, and ends
  when the body returns; an exception of the body, wherever it is thrown, leaves the loop after
  the values yielded before it.
\<close>

theorem generator_loop:
  "collect (Some (generator_new (foldr Yield vs Return))) = Some (vs, None) \<and>
   collect (Some (generator_new (foldr Yield vs (Throw e)))) = Some (vs, Some e)"
  using collect_yields [of Return None vs] collect_yields [of "Throw e" "Some e" vs]
  by (simp add: body_end_def)

text \<open>
  A generator is lazy: for any body, also one that never ends, the iterator after begin and n
  increments has the (n+1)-st value, and the body has run no further than to that yield.
\<close>

theorem generator_lazy:
  assumes "n < length vs"
  shows "\<exists>p. iterator_after n (Some (generator_new (foldr Yield vs b))) = Some (Some p) \<and>
    iterator_value (Some p) = Some (vs ! n) \<and> \<not> at_end (Some p) \<and>
    suspended p = Some (foldr Yield (drop (Suc n) vs) b)"
  using iterator_after_yields [OF assms, of b] by simp

theorem generator_lazy_witness:
  "\<exists>p. iterator_after 1 (Some (generator_new (foldr Yield [5, 7, 9 :: nat] (Throw ())))) = Some (Some p) \<and>
    iterator_value (Some p) = Some 7 \<and> suspended p = Some (Yield 9 (Throw ()))"
  using generator_lazy [of 1 "[5, 7, 9 :: nat]" "Throw ()"] by auto

text \<open>
  fmap maps the values of a generator one by one and passes its exception on: the loop over
  the mapped generator sees the images of the values, then the same end.
\<close>

theorem generator_fmap:
  "collect (Some (generator_new (fmap_body (\<lambda>v. Inr (g v)) (Some (generator_new (foldr Yield vs Return)))))) =
     Some (map g vs, None) \<and>
   collect (Some (generator_new (fmap_body (\<lambda>v. Inr (g v)) (Some (generator_new (foldr Yield vs (Throw e))))))) =
     Some (map g vs, Some e)"
  by (simp add: collect_fmap [where ex = None and b = Return] collect_fmap [where ex = "Some e" and b = "Throw e"]
    body_end_def)

end
