(* ===== verification/Recursive_Generator.thy ===== *)
theory Recursive_Generator
  imports Coro_Prelude
begin

text \<open>
  include/coro/types/recursive_generator.h: a generator whose body may also yield all values of
  another generator. The promises of the generators that are being iterated form a stack: the
  root's \<open>m_node\<close> is the promise that runs (the leaf), the \<open>m_node\<close> of every other promise is the
  promise that yields it. The body of a coroutine is user code: a tree of what it does next; after
  it has yielded a generator it goes on knowing the exception rethrown there, if any, which it may
  catch. \<open>None\<close> is undefined behaviour or a failed assertion. Yielding an empty (default constructed)
  generator does nothing and has no constructor of its own.
\<close>

datatype ('e, 'v) body =
    Return
  | Throw 'e
  | Yield 'v "('e, 'v) body"
  | Yield_all "('e, 'v) body" "'e option \<Rightarrow> ('e, 'v) body"

section \<open>Promises\<close>

text \<open>
  Where a coroutine is suspended: at its start or a yielded value, with what it does next; at the
  yield of the generator with the given promise; or at its end.
\<close>

datatype ('e, 'v) frame = At "('e, 'v) body" | In_child nat "'e option \<Rightarrow> ('e, 'v) body" | Complete

record ('e, 'v) promise =
  m_value :: "'v option"
  m_exception :: "'e option"
  m_root :: nat
  m_node :: nat
  frame :: "('e, 'v) frame"

record ('e, 'v) heap =
  promise_of :: "nat \<Rightarrow> ('e, 'v) promise"
  next_promise :: nat

definition upd :: "('e, 'v) heap \<Rightarrow> nat \<Rightarrow> (('e, 'v) promise \<Rightarrow> ('e, 'v) promise) \<Rightarrow> ('e, 'v) heap" where
  "upd h p f = h\<lparr>promise_of := (promise_of h)(p := f (promise_of h p))\<rparr>"

definition promise_new :: "('e, 'v) heap \<Rightarrow> ('e, 'v) body \<Rightarrow> ('e, 'v) heap" where
  "promise_new h b =
     (let p = next_promise h
      in h\<lparr>promise_of := (promise_of h)(p := \<lparr>m_value = None, m_exception = None, m_root = p, m_node = p, frame = At b\<rparr>),
           next_promise := Suc p\<rparr>)"

definition is_complete :: "('e, 'v) heap \<Rightarrow> nat \<Rightarrow> bool" where
  "is_complete h p \<longleftrightarrow> frame (promise_of h p) = Complete"

definition yield_value :: "'v \<Rightarrow> ('e, 'v) body \<Rightarrow> ('e, 'v) heap \<Rightarrow> nat \<Rightarrow> ('e, 'v) heap" where
  "yield_value v b h p = upd h p (\<lambda>q. q\<lparr>m_value := Some v, frame := At b\<rparr>)"

definition unhandled_exception :: "'e \<Rightarrow> ('e, 'v) heap \<Rightarrow> nat \<Rightarrow> ('e, 'v) heap" where
  "unhandled_exception e h p = upd h p (\<lambda>q. q\<lparr>m_exception := Some e, frame := Complete\<rparr>)"

text \<open>
  \<open>yield_value\<close> of a generator: the child \<open>c\<close> is linked into the stack and resumed. If it is then
  suspended at a value the coroutine is suspended too; else it takes its place in the stack back
  and goes on at once, through an awaitable that has no promise to ask for an exception.
\<close>

definition yield_link :: "('e, 'v) heap \<Rightarrow> nat \<Rightarrow> nat \<Rightarrow> ('e, 'v) heap" where
  "yield_link h p c =
     (let r = m_root (promise_of h p);
          h1 = upd h r (\<lambda>q. q\<lparr>m_node := c\<rparr>);
          h2 = upd h1 c (\<lambda>q. q\<lparr>m_root := r\<rparr>)
      in upd h2 c (\<lambda>q. q\<lparr>m_node := p\<rparr>))"

definition yield_unlink :: "('e, 'v) heap \<Rightarrow> nat \<Rightarrow> ('e, 'v) heap" where
  "yield_unlink h p = upd h (m_root (promise_of h p)) (\<lambda>q. q\<lparr>m_node := p\<rparr>)"

text \<open>A coroutine runs from a resumption, with \<open>b\<close> to do, to its next suspension.\<close>

primrec run :: "('e, 'v) body \<Rightarrow> ('e, 'v) heap \<Rightarrow> nat \<Rightarrow> ('e, 'v) heap" where
  "run Return h p = upd h p (\<lambda>q. q\<lparr>frame := Complete\<rparr>)"
| "run (Throw e) h p = unhandled_exception e h p"
| "run (Yield v b) h p = yield_value v b h p"
| "run (Yield_all child cont) h p =
     (let c = next_promise h;
          h' = run child (yield_link (promise_new h child) p c) c
      in if \<not> is_complete h' c then upd h' p (\<lambda>q. q\<lparr>frame := In_child c cont\<rparr>)
         else (\<lambda>ex. run (cont ex)) None (yield_unlink h' p) p)"

definition resume :: "('e, 'v) heap \<Rightarrow> nat \<Rightarrow> ('e, 'v) heap option" where
  "resume h p =
     (case frame (promise_of h p) of
        At b \<Rightarrow> Some (run b h p)
      | In_child c cont \<Rightarrow> Some (run (cont (m_exception (promise_of h c))) h p)
      | Complete \<Rightarrow> None)"

section \<open>Iteration\<close>

text \<open>The loop of \<open>pull\<close>: as long as the leaf is complete its parent takes its place and goes on.\<close>

partial_function (option) pull_loop :: "('e, 'v) heap \<Rightarrow> nat \<Rightarrow> ('e, 'v) heap option" where
  "pull_loop h r =
     (let n = m_node (promise_of h r)
      in if n \<noteq> r \<and> is_complete h n
         then (let parent = m_node (promise_of h n)
               in case resume (upd h r (\<lambda>q. q\<lparr>m_node := parent\<rparr>)) parent of
                    None \<Rightarrow> None
                  | Some h' \<Rightarrow> pull_loop h' r)
         else Some h)"

definition pull :: "('e, 'v) heap \<Rightarrow> nat \<Rightarrow> ('e, 'v) heap option" where
  "pull h r =
     (if m_root (promise_of h r) \<noteq> r \<or> is_complete h r then None
      else case resume h (m_node (promise_of h r)) of None \<Rightarrow> None | Some h' \<Rightarrow> pull_loop h' r)"

definition root_value :: "('e, 'v) heap \<Rightarrow> nat \<Rightarrow> 'v option" where
  "root_value h r =
     (if m_root (promise_of h r) \<noteq> r \<or> is_complete h r then None
      else m_value (promise_of h (m_node (promise_of h r))))"

text \<open>
  \<open>begin\<close> and \<open>operator++\<close>: the new heap, and either that the iteration goes on (\<open>Inr True\<close>), that
  it is at the end, or the exception that is thrown.
\<close>

definition advance :: "('e, 'v) heap \<Rightarrow> nat \<Rightarrow> (('e, 'v) heap \<times> ('e + bool)) option" where
  "advance h r =
     (case pull h r of
        None \<Rightarrow> None
      | Some h' \<Rightarrow>
          Some (h', if \<not> is_complete h' r then Inr True
                    else case m_exception (promise_of h' r) of None \<Rightarrow> Inr False | Some e \<Rightarrow> Inl e))"

text \<open>A loop that collects the values, and the exception that leaves it.\<close>

partial_function (option) collect_from ::
    "('e, 'v) heap \<Rightarrow> nat \<Rightarrow> 'v list \<Rightarrow> ('v list \<times> 'e option) option" where
  "collect_from h r acc =
     (case advance h r of
        None \<Rightarrow> None
      | Some (h', Inl e) \<Rightarrow> Some (acc, Some e)
      | Some (h', Inr go) \<Rightarrow>
          (if \<not> go then Some (acc, None)
           else case root_value h' r of None \<Rightarrow> None | Some v \<Rightarrow> collect_from h' r (acc @ [v])))"

definition heap_empty :: "('e, 'v) heap" where
  "heap_empty = \<lparr>promise_of = (\<lambda>p. \<lparr>m_value = None, m_exception = None, m_root = p, m_node = p, frame = Complete\<rparr>),
     next_promise = 0\<rparr>"

definition collect :: "('e, 'v) body \<Rightarrow> ('v list \<times> 'e option) option" where
  "collect b = collect_from (promise_new heap_empty b) 0 []"

section \<open>What the values should be, and what they are\<close>

text \<open>
  The values of a body and how it ends. In \<open>meaning\<close> a body that yields a generator learns of the
  exception that ended it, in \<open>behaviour\<close> only when that generator has yielded something before.
\<close>

primrec meaning :: "('e, 'v) body \<Rightarrow> 'v list \<times> 'e option" where
  "meaning Return = ([], None)"
| "meaning (Throw e) = ([], Some e)"
| "meaning (Yield v b) = (let (vs, ex) = meaning b in (v # vs, ex))"
| "meaning (Yield_all child cont) =
     (let (vs, ex) = meaning child; (ws, ex') = (\<lambda>x. meaning (cont x)) ex in (vs @ ws, ex'))"

primrec behaviour :: "('e, 'v) body \<Rightarrow> 'v list \<times> 'e option" where
  "behaviour Return = ([], None)"
| "behaviour (Throw e) = ([], Some e)"
| "behaviour (Yield v b) = (let (vs, ex) = behaviour b in (v # vs, ex))"
| "behaviour (Yield_all child cont) =
     (let (vs, ex) = behaviour child; (ws, ex') = (\<lambda>x. behaviour (cont x)) (if vs = [] then None else ex)
      in (vs @ ws, ex'))"

text \<open>No generator that is yielded throws before it has yielded a value.\<close>

primrec no_early_throw :: "('e, 'v) body \<Rightarrow> bool" where
  "no_early_throw Return = True"
| "no_early_throw (Throw e) = True"
| "no_early_throw (Yield v b) = no_early_throw b"
| "no_early_throw (Yield_all child cont) =
     (no_early_throw child \<and> (fst (meaning child) = [] \<longrightarrow> snd (meaning child) = None) \<and>
      (\<lambda>x. no_early_throw (cont x)) (snd (meaning child)))"

lemma behaviour_meaning: "no_early_throw b \<Longrightarrow> behaviour b = meaning b"
  by (induction b) (auto split: prod.splits)

section \<open>The stack of promises\<close>

lemma heap_upd_simps [simp]:
  "promise_of (upd h p f) = (promise_of h)(p := f (promise_of h p))" "next_promise (upd h p f) = next_promise h"
  by (simp_all add: upd_def)

text \<open>
  \<open>linked h c gs p\<close>: from \<open>c\<close> down to \<open>p\<close> every promise is a child that the next one in \<open>gs\<close> is
  suspended in, which goes on by the given continuation.
\<close>

fun linked :: "('e, 'v) heap \<Rightarrow> nat \<Rightarrow> (nat \<times> ('e option \<Rightarrow> ('e, 'v) body)) list \<Rightarrow> nat \<Rightarrow> bool" where
  "linked h c [] p \<longleftrightarrow> c = p"
| "linked h c ((q, k) # gs) p \<longleftrightarrow>
     m_node (promise_of h c) = q \<and> frame (promise_of h q) = In_child c k \<and> linked h q gs p"

text \<open>What is left to yield when the leaf goes on with \<open>b\<close>.\<close>

fun unwind :: "'e option \<Rightarrow> (nat \<times> ('e option \<Rightarrow> ('e, 'v) body)) list \<Rightarrow> 'v list \<times> 'e option" where
  "unwind ex [] = ([], ex)"
| "unwind ex ((q, k) # gs) =
     (let (vs, ex1) = behaviour (k ex); (ws, ex2) = unwind ex1 gs in (vs @ ws, ex2))"

definition rest :: "('e, 'v) body \<Rightarrow> (nat \<times> ('e option \<Rightarrow> ('e, 'v) body)) list \<Rightarrow> 'v list \<times> 'e option" where
  "rest b gs = (let (vs, ex) = behaviour b; (ws, ex') = unwind ex gs in (vs @ ws, ex'))"

lemma unwind_append: "unwind ex (gs @ fs) =
    (let (vs, ex1) = unwind ex gs; (ws, ex2) = unwind ex1 fs in (vs @ ws, ex2))"
  by (induction ex gs rule: unwind.induct) (auto split: prod.splits)

lemma rest_append: "rest b (gs @ fs) =
    (let (vs, ex) = rest b gs; (ws, ex') = unwind ex fs in (vs @ ws, ex'))"
  by (auto simp: rest_def unwind_append split: prod.splits)

lemma linked_append: "linked h c (gs @ fs) p \<longleftrightarrow> (\<exists>q. linked h c gs q \<and> linked h q fs p)"
  by (induction h c gs p rule: linked.induct) auto

lemma linked_cong:
  "\<forall>x\<in>set (c # map fst gs). x \<noteq> p \<longrightarrow> m_node (promise_of h' x) = m_node (promise_of h x) \<Longrightarrow>
   \<forall>x\<in>set (map fst gs). frame (promise_of h' x) = frame (promise_of h x) \<Longrightarrow>
   distinct (c # map fst gs) \<Longrightarrow> linked h c gs p \<Longrightarrow> linked h' c gs p"
proof (induction h c gs p rule: linked.induct)
  case (2 h c q k gs p)
  have "c \<noteq> p" if "linked h q gs p" "c \<notin> set (q # map fst gs)"
    using that by (induction gs arbitrary: q) auto
  with 2 show ?case by auto
qed simp

lemma linked_end: "linked h c gs p \<Longrightarrow> p = (if gs = [] then c else fst (last gs))"
  by (induction h c gs p rule: linked.induct) auto

lemma linked_not_complete:
  "linked h c gs p \<Longrightarrow> frame (promise_of h c) = At b \<Longrightarrow> \<not> is_complete h p"
proof (induction gs arbitrary: p rule: rev_induct)
  case (snoc g gs)
  then show ?case by (cases g) (auto simp: linked_append is_complete_def)
qed (simp add: is_complete_def)

text \<open>The promises from the leaf \<open>l\<close> to \<open>p\<close> under the root \<open>r\<close>; those above \<open>p\<close> are numbered from \<open>N\<close>.\<close>

definition tower :: "nat \<Rightarrow> ('e, 'v) heap \<Rightarrow> nat \<Rightarrow> nat \<Rightarrow> nat \<Rightarrow> (nat \<times> ('e option \<Rightarrow> ('e, 'v) body)) list \<Rightarrow> bool" where
  "tower N h r p l gs \<longleftrightarrow> m_node (promise_of h r) = l \<and> linked h l gs p \<and> distinct (l # map fst gs) \<and>
     (\<forall>x\<in>set (l # map fst gs). m_root (promise_of h x) = r \<and> x < next_promise h \<and>
        m_exception (promise_of h x) = None \<and> (x = p \<or> N \<le> x))"

text \<open>What running \<open>p\<close> leaves alone.\<close>

definition unchanged :: "('e, 'v) heap \<Rightarrow> ('e, 'v) heap \<Rightarrow> nat \<Rightarrow> nat \<Rightarrow> bool" where
  "unchanged h h' p r \<longleftrightarrow> next_promise h \<le> next_promise h' \<and>
     (\<forall>x<next_promise h. m_root (promise_of h' x) = m_root (promise_of h x) \<and>
        (x \<noteq> r \<longrightarrow> m_node (promise_of h' x) = m_node (promise_of h x)) \<and>
        (x \<noteq> p \<longrightarrow> frame (promise_of h' x) = frame (promise_of h x) \<and>
           m_exception (promise_of h' x) = m_exception (promise_of h x)))"

text \<open>Where a run of \<open>p\<close> with \<open>b\<close> to do ends: at its end, or at a value with more to come.\<close>

definition ran :: "nat \<Rightarrow> ('e, 'v) heap \<Rightarrow> nat \<Rightarrow> nat \<Rightarrow> 'v list \<times> 'e option \<Rightarrow> bool" where
  "ran N h r p todo \<longleftrightarrow>
     (case todo of
        ([], ex) \<Rightarrow> is_complete h p \<and> m_exception (promise_of h p) = ex \<and> m_node (promise_of h r) = p
      | (v # ws, ex) \<Rightarrow> (\<exists>l gs b. tower N h r p l gs \<and> frame (promise_of h l) = At b \<and>
          m_value (promise_of h l) = Some v \<and> rest b gs = (ws, ex)))"

lemma ran_value:
  "tower N h r p l gs \<Longrightarrow> frame (promise_of h l) = At b \<Longrightarrow> m_value (promise_of h l) = Some v \<Longrightarrow>
    rest b gs = (ws, ex) \<Longrightarrow> ran N h r p (v # ws, ex)"
  by (auto simp: ran_def)

definition ready :: "('e, 'v) heap \<Rightarrow> nat \<Rightarrow> nat \<Rightarrow> bool" where
  "ready h r p \<longleftrightarrow> m_root (promise_of h p) = r \<and> m_node (promise_of h r) = p \<and> p < next_promise h \<and>
     r < next_promise h \<and> m_exception (promise_of h p) = None"

lemma unchanged_trans:
  "unchanged h h' p r \<Longrightarrow> unchanged h' h'' p r \<Longrightarrow> unchanged h h'' p r"
  by (auto simp: unchanged_def)

lemma run_ends:
  assumes "ready h r p"
  shows "unchanged h (run Return h p) p r \<and> ran N (run Return h p) r p (behaviour Return)"
    and "unchanged h (run (Throw e) h p) p r \<and> ran N (run (Throw e) h p) r p (behaviour (Throw e))"
    and "unchanged h (run (Yield v b) h p) p r \<and> ran N (run (Yield v b) h p) r p (behaviour (Yield v b))"
proof -
  show "unchanged h (run Return h p) p r \<and> ran N (run Return h p) r p (behaviour Return)"
    "unchanged h (run (Throw e) h p) p r \<and> ran N (run (Throw e) h p) r p (behaviour (Throw e))"
    using assms by (auto simp: unchanged_def ran_def ready_def is_complete_def unhandled_exception_def)
  let ?h = "run (Yield v b) h p"
  have t: "tower N ?h r p p []" using assms by (auto simp: tower_def ready_def yield_value_def)
  obtain ws ex where w: "behaviour b = (ws, ex)" by (cases "behaviour b")
  have "frame (promise_of ?h p) = At b \<and> m_value (promise_of ?h p) = Some v \<and> rest b [] = (ws, ex)"
    by (simp add: yield_value_def rest_def w)
  with t have "ran N ?h r p (v # ws, ex)" unfolding ran_def by auto
  then show "unchanged h ?h p r \<and> ran N ?h r p (behaviour (Yield v b))"
    by (auto simp: unchanged_def yield_value_def w)
qed

text \<open>The promise of a child that has been linked in.\<close>

lemma yield_link_simps:
  assumes "r = m_root (promise_of h p)" "r < next_promise h" "p < next_promise h" "c = next_promise h"
    and "g = yield_link (promise_new h b) p c"
  shows "next_promise g = Suc c"
    and "promise_of g c = \<lparr>m_value = None, m_exception = None, m_root = r, m_node = p, frame = At b\<rparr>"
    and "m_node (promise_of g r) = c"
    and "x \<noteq> c \<Longrightarrow> x \<noteq> r \<Longrightarrow> promise_of g x = promise_of h x"
    and "x \<noteq> c \<Longrightarrow> m_root (promise_of g x) = m_root (promise_of h x) \<and>
      frame (promise_of g x) = frame (promise_of h x) \<and>
      m_exception (promise_of g x) = m_exception (promise_of h x)"
  using assms by (auto simp: yield_link_def promise_new_def Let_def)

lemma unchanged_link:
  assumes "r = m_root (promise_of h p)" "r < next_promise h" "p < next_promise h" "c = next_promise h"
    and u: "unchanged (yield_link (promise_new h b) p c) h' c r"
  shows "unchanged h h' p r" and "c < next_promise h'" and "m_root (promise_of h' p) = r"
    and "m_exception (promise_of h' p) = m_exception (promise_of h p)" and "m_node (promise_of h' c) = p"
proof -
  let ?g = "yield_link (promise_new h b) p c"
  note l = yield_link_simps [OF assms(1-4) refl [of "yield_link (promise_new h b) p c"]]
  have x: "x < Suc c" "x \<noteq> c" if "x < next_promise h" for x using that assms(4) by auto
  show "unchanged h h' p r" using u l(1) l(4,5) x assms(4) unfolding unchanged_def
    by (auto simp: less_Suc_eq)
  show "c < next_promise h'" using u l(1) by (simp add: unchanged_def)
  show "m_root (promise_of h' p) = r" "m_exception (promise_of h' p) = m_exception (promise_of h p)"
    using u l(1) l(5) [of p] x [OF assms(3)] assms(1) unfolding unchanged_def by auto
  show "m_node (promise_of h' c) = p" using u l(1,2) assms(2,4) unfolding unchanged_def by auto
qed

lemma run_spec: "ready h r p \<Longrightarrow> N \<le> next_promise h \<Longrightarrow>
    unchanged h (run b h p) p r \<and> ran N (run b h p) r p (behaviour b)"
proof (induction b arbitrary: h p N)
  case (Yield_all child cont)
  define c where "c = next_promise h"
  define g where "g = yield_link (promise_new h child) p c"
  define h' where "h' = run child g c"
  have r: "r = m_root (promise_of h p)" "r < next_promise h" "p < next_promise h" "m_node (promise_of h r) = p"
      "m_exception (promise_of h p) = None" "p \<noteq> c" "r \<noteq> c"
    using Yield_all.prems by (auto simp: ready_def c_def)
  note l = yield_link_simps [OF r(1-3) c_def g_def]
  have "r < Suc c" using r(2) by (simp add: c_def)
  then have "ready g r c" using l(1-3) by (simp add: ready_def)
  then have IH: "unchanged g h' c r" "ran (Suc c) h' r c (behaviour child)"
    unfolding h'_def using Yield_all.IH(1) [of g c "Suc c"] l(1) by simp_all
  note u = unchanged_link [OF r(1-3) c_def, of child h', folded g_def, OF IH(1)]
  obtain vs ex where b: "behaviour child = (vs, ex)" by (cases "behaviour child")
  show ?case
  proof (cases vs)
    case Nil
    let ?k = "yield_unlink h' p"
    have dn: "is_complete h' c" using IH(2) Nil by (simp add: b ran_def)
    have k: "ready ?k r p" using u r by (auto simp: ready_def yield_unlink_def unchanged_def)
    have "unchanged h' ?k p r" using u(3) by (auto simp: unchanged_def yield_unlink_def)
    with u(1) have uk: "unchanged h ?k p r" by (rule unchanged_trans)
    have "N \<le> next_promise ?k" using Yield_all.prems(2) uk by (simp add: unchanged_def)
    then have "unchanged ?k (run (cont None) ?k p) p r \<and> ran N (run (cont None) ?k p) r p (behaviour (cont None))"
      using Yield_all.IH(2) k by blast
    moreover have "run (Yield_all child cont) h p = run (cont None) ?k p"
      using dn by (simp add: Let_def flip: c_def g_def h'_def)
    moreover have "behaviour (Yield_all child cont) = behaviour (cont None)" using Nil b by simp
    ultimately show ?thesis using unchanged_trans [OF uk] by simp
  next
    case (Cons v ws)
    obtain l gs b' where t: "tower (Suc c) h' r c l gs" "frame (promise_of h' l) = At b'"
        "m_value (promise_of h' l) = Some v" "rest b' gs = (ws, ex)"
      using IH(2) Cons by (auto simp: b ran_def)
    have lk: "linked h' l gs c" "m_node (promise_of h' r) = l" "distinct (l # map fst gs)"
      using t(1) by (simp_all add: tower_def)
    have away: "p \<notin> set (l # map fst gs)"
      using t(1) r(6) r(3) by (auto simp: tower_def c_def)
    have live: "\<not> is_complete h' c" by (rule linked_not_complete [OF lk(1) t(2)])
    let ?k = "upd h' p (\<lambda>q. q\<lparr>frame := In_child c cont\<rparr>)"
    have k: "run (Yield_all child cont) h p = ?k"
      using live by (simp add: Let_def flip: c_def g_def h'_def)
    have "linked ?k l gs c" by (rule linked_cong [OF _ _ lk(3) lk(1)]) (use away in auto)
    then have "linked ?k l (gs @ [(p, cont)]) p" using u(5) r(6) by (auto simp: linked_append)
    moreover have "m_root (promise_of h' x) = r \<and> x < next_promise h' \<and> m_exception (promise_of h' x) = None \<and> N \<le> x"
      if "x \<in> set (l # map fst gs)" for x
      using t(1) that Yield_all.prems(2) unfolding tower_def c_def by fastforce
    moreover have "m_root (promise_of h' p) = r" "m_exception (promise_of h' p) = None" "p < next_promise h'"
      using u(1,3,4) r(3,5) by (auto simp: unchanged_def)
    ultimately have "tower N ?k r p l (gs @ [(p, cont)])"
      using away lk(2,3) by (auto simp: tower_def)
    moreover have "frame (promise_of ?k l) = At b'" "m_value (promise_of ?k l) = Some v"
      using t away by auto
    moreover obtain us ex' where w: "behaviour (cont ex) = (us, ex')" by (cases "behaviour (cont ex)")
    then have "rest b' (gs @ [(p, cont)]) = (ws @ us, ex')" by (simp add: rest_append t(4))
    ultimately have "ran N ?k r p (v # ws @ us, ex')" by (rule ran_value)
    moreover have "behaviour (Yield_all child cont) = (v # ws @ us, ex')" using Cons b w by simp
    moreover have "unchanged h' ?k p r" by (auto simp: unchanged_def)
    ultimately show ?thesis using unchanged_trans [OF u(1)] by (simp only: k)
  qed
qed (rule run_ends; assumption)+

section \<open>Pulling\<close>

text \<open>The whole stack when \<open>p\<close> is about to run on top of the frames \<open>fs\<close>.\<close>

definition stack_ready :: "('e, 'v) heap \<Rightarrow> nat \<Rightarrow> nat \<Rightarrow> (nat \<times> ('e option \<Rightarrow> ('e, 'v) body)) list \<Rightarrow> bool" where
  "stack_ready h r p fs \<longleftrightarrow> tower 0 h r r p fs \<and> r < next_promise h"

lemma stack_ready_ready: "stack_ready h r p fs \<Longrightarrow> ready h r p"
  by (auto simp: stack_ready_def tower_def ready_def)

lemma linked_root: "linked h c gs p \<Longrightarrow> p \<in> set (c # map fst gs)"
  by (induction h c gs p rule: linked.induct) auto

text \<open>A run of \<open>p\<close> that ends at a value leaves a bigger stack.\<close>

lemma stack_extends:
  assumes st: "stack_ready h r p fs" and u: "unchanged h h' p r" and t: "tower (next_promise h) h' r p l gs"
  shows "stack_ready h' r l (gs @ fs)"
proof -
  have T: "linked h p fs r" "distinct (p # map fst fs)" "r < next_promise h"
    and below: "\<forall>x\<in>set (p # map fst fs). m_root (promise_of h x) = r \<and> x < next_promise h \<and> m_exception (promise_of h x) = None"
    using st by (auto simp: stack_ready_def tower_def)
  have L: "linked h' l gs p" "distinct (l # map fst gs)" "m_node (promise_of h' r) = l"
    and new: "\<forall>x\<in>set (l # map fst gs). m_root (promise_of h' x) = r \<and> x < next_promise h' \<and>
      m_exception (promise_of h' x) = None \<and> (x = p \<or> next_promise h \<le> x)"
    using t by (simp_all add: tower_def)
  have U: "next_promise h \<le> next_promise h'" "x < next_promise h \<Longrightarrow> m_root (promise_of h' x) = m_root (promise_of h x)"
      "x < next_promise h \<Longrightarrow> x \<noteq> r \<Longrightarrow> m_node (promise_of h' x) = m_node (promise_of h x)"
      "x < next_promise h \<Longrightarrow> x \<noteq> p \<Longrightarrow> frame (promise_of h' x) = frame (promise_of h x) \<and>
         m_exception (promise_of h' x) = m_exception (promise_of h x)" for x
    using u by (auto simp: unchanged_def)
  have "frame (promise_of h' x) = frame (promise_of h x)" if "x \<in> set (map fst fs)" for x
    using U(4) [of x] below T(2) that by auto
  moreover have "m_node (promise_of h' x) = m_node (promise_of h x)" if "x \<in> set (p # map fst fs)" "x \<noteq> r" for x
    using U(3) [of x] below that by blast
  ultimately have fs: "linked h' p fs r" by (intro linked_cong [OF _ _ T(2,1)]) auto
  have disj: "x \<notin> set (map fst fs)" if "x \<in> set (l # map fst gs)" for x
    using new below T(2) that by (metis distinct.simps(2) list.set_intros(2) not_le)
  have "linked h' l (gs @ fs) r" using L(1) fs by (auto simp: linked_append)
  moreover have "distinct (l # map fst (gs @ fs))" using L(2) T(2) disj by auto
  moreover have "m_root (promise_of h' x) = r \<and> x < next_promise h' \<and> m_exception (promise_of h' x) = None"
    if x: "x \<in> set (l # map fst (gs @ fs))" for x
  proof (cases "x \<in> set (l # map fst gs)")
    case True
    then show ?thesis using new by blast
  next
    case False
    then have f: "x \<in> set (map fst fs)" using x by auto
    then have "x \<noteq> p" using T(2) by auto
    then show ?thesis using below U(1) U(2) [of x] U(4) [of x] f by auto
  qed
  ultimately show ?thesis using L(3) U(1) T(3) unfolding stack_ready_def tower_def by auto
qed

text \<open>
  What \<open>pull\<close> has reached when it returns: the root is at its end, or the leaf at the next value.
\<close>

definition pulled :: "('e, 'v) heap \<Rightarrow> nat \<Rightarrow> 'v list \<times> 'e option \<Rightarrow> bool" where
  "pulled h r todo \<longleftrightarrow>
     (case todo of
        ([], ex) \<Rightarrow> is_complete h r \<and> m_exception (promise_of h r) = ex
      | (v # ws, ex) \<Rightarrow> (\<exists>l gs b. stack_ready h r l gs \<and> frame (promise_of h l) = At b \<and>
          m_value (promise_of h l) = Some v \<and> rest b gs = (ws, ex)))"

text \<open>The loop of \<open>pull\<close> after a run of \<open>p\<close> that ended at \<open>p\<close>'s end: the parent takes over.\<close>

lemma stack_pops:
  assumes st: "stack_ready h r p ((q, k) # fs)" and u: "unchanged h h' p r"
    and n: "m_node (promise_of h' r) = p"
  defines "g \<equiv> upd h' r (\<lambda>x. x\<lparr>m_node := q\<rparr>)"
  shows "stack_ready g r q fs" "p \<noteq> r" "m_node (promise_of h' p) = q" "frame (promise_of g q) = In_child p k"
proof -
  have T: "m_node (promise_of h p) = q" "frame (promise_of h q) = In_child p k" "linked h q fs r"
      "distinct (p # q # map fst fs)" "r < next_promise h"
    and below: "\<forall>x\<in>set (p # q # map fst fs). m_root (promise_of h x) = r \<and> x < next_promise h \<and> m_exception (promise_of h x) = None"
    using st by (auto simp: stack_ready_def tower_def)
  have U: "next_promise h \<le> next_promise h'" "x < next_promise h \<Longrightarrow> m_root (promise_of h' x) = m_root (promise_of h x)"
      "x < next_promise h \<Longrightarrow> x \<noteq> r \<Longrightarrow> m_node (promise_of h' x) = m_node (promise_of h x)"
      "x < next_promise h \<Longrightarrow> x \<noteq> p \<Longrightarrow> frame (promise_of h' x) = frame (promise_of h x) \<and>
         m_exception (promise_of h' x) = m_exception (promise_of h x)" for x
    using u by (auto simp: unchanged_def)
  show pr: "p \<noteq> r" using linked_root [OF T(3)] T(4) by auto
  show "m_node (promise_of h' p) = q" using U(3) [of p] pr below T(1) by simp
  have qp: "q \<noteq> p" using T(4) by auto
  show "frame (promise_of g q) = In_child p k" using U(4) [of q] qp below T(2) by (auto simp: g_def)
  have "frame (promise_of g x) = frame (promise_of h x)" if "x \<in> set (map fst fs)" for x
  proof -
    have "x \<noteq> p" "x < next_promise h" using below T(4) that by auto
    then show ?thesis using U(4) [of x] by (cases "x = r") (simp_all add: g_def)
  qed
  moreover have "m_node (promise_of g x) = m_node (promise_of h x)" if "x \<in> set (q # map fst fs)" "x \<noteq> r" for x
    using U(3) [of x] below that by (auto simp: g_def)
  ultimately have "linked g q fs r" using T(4) by (intro linked_cong [OF _ _ _ T(3)]) auto
  moreover have "m_root (promise_of g x) = r \<and> x < next_promise g \<and> m_exception (promise_of g x) = None"
    if x: "x \<in> set (q # map fst fs)" for x
  proof -
    have "x \<noteq> p" using x T(4) by auto
    then show ?thesis using x below U(1) U(2) [of x] U(4) [of x] by (auto simp: g_def)
  qed
  ultimately show "stack_ready g r q fs" using T(4,5) U(1) unfolding stack_ready_def tower_def
    by (auto simp: g_def)
qed

text \<open>The run of the leaf that yields a value ends the loop at once.\<close>

lemma pull_loop_value:
  assumes st: "stack_ready h r p fs" and b: "behaviour b = (v # ws, ex)"
  shows "\<exists>h'. pull_loop (run b h p) r = Some h' \<and> pulled h' r (rest b fs)"
proof -
  let ?h = "run b h p"
  have sp: "unchanged h ?h p r" "ran (next_promise h) ?h r p (behaviour b)"
    using run_spec [OF stack_ready_ready [OF st] order_refl] by blast+
  obtain l gs b' where t: "tower (next_promise h) ?h r p l gs" "frame (promise_of ?h l) = At b'"
      "m_value (promise_of ?h l) = Some v" "rest b' gs = (ws, ex)"
    using sp(2) by (auto simp: b ran_def)
  have e: "stack_ready ?h r l (gs @ fs)" by (rule stack_extends [OF st sp(1) t(1)])
  obtain us ex' where w: "unwind ex fs = (us, ex')" by (cases "unwind ex fs")
  have "rest b' (gs @ fs) = (ws @ us, ex')" "rest b fs = (v # ws @ us, ex')"
    by (simp_all add: rest_append t(4) w) (simp add: rest_def b w)
  then have "pulled ?h r (rest b fs)" using e t(2,3) unfolding pulled_def by auto
  moreover have "m_node (promise_of ?h r) = l" "\<not> is_complete ?h l"
    using t(1,2) by (simp_all add: tower_def is_complete_def)
  then have "pull_loop ?h r = Some ?h" by (simp add: pull_loop.simps [of ?h] Let_def)
  ultimately show ?thesis by blast
qed

lemma pull_loop_spec:
  "stack_ready h r p fs \<Longrightarrow> \<exists>h'. pull_loop (run b h p) r = Some h' \<and> pulled h' r (rest b fs)"
proof (induction fs arbitrary: h p b)
  case Nil
  let ?h = "run b h p"
  obtain vs ex where b: "behaviour b = (vs, ex)" by (cases "behaviour b")
  show ?case
  proof (cases vs)
    case (Cons v ws)
    then show ?thesis using pull_loop_value [OF Nil] b by simp
  next
    case vs: Nil
    have "p = r" using Nil by (simp add: stack_ready_def tower_def)
    moreover have "ran (next_promise h) ?h r p (behaviour b)"
      using run_spec [OF stack_ready_ready [OF Nil] order_refl] by blast
    ultimately have "is_complete ?h r" "m_exception (promise_of ?h r) = ex" "m_node (promise_of ?h r) = r"
      by (simp_all add: ran_def b vs)
    then show ?thesis by (simp add: pull_loop.simps [of ?h] Let_def pulled_def rest_def b vs)
  qed
next
  case (Cons f fs)
  obtain q k where f: "f = (q, k)" by (cases f)
  let ?h = "run b h p"
  have sp: "unchanged h ?h p r" "ran (next_promise h) ?h r p (behaviour b)"
    using run_spec [OF stack_ready_ready [OF Cons.prems] order_refl] by blast+
  obtain vs ex where b: "behaviour b = (vs, ex)" by (cases "behaviour b")
  show ?case
  proof (cases vs)
    case (Cons v ws)
    then show ?thesis using pull_loop_value [OF Cons.prems] b by simp
  next
    case Nil
    then have e: "is_complete ?h p" "m_exception (promise_of ?h p) = ex" "m_node (promise_of ?h r) = p"
      using sp(2) by (simp_all add: b ran_def)
    define g where "g = upd ?h r (\<lambda>x. x\<lparr>m_node := q\<rparr>)"
    note s = stack_pops [OF Cons.prems [unfolded f] sp(1) e(3), folded g_def]
    have "m_exception (promise_of g p) = ex" using e(2) s(2) by (simp add: g_def)
    then have "resume g q = Some (run (k ex) g q)" using s(4) by (simp add: resume_def)
    then have "pull_loop ?h r = pull_loop (run (k ex) g q) r"
      using e(1,3) s(2,3) by (simp add: pull_loop.simps [of ?h] g_def Let_def)
    moreover have "rest b ((q, k) # fs) = rest (k ex) fs" using Nil b by (simp add: rest_def split: prod.splits)
    ultimately show ?thesis using Cons.IH [OF s(1), of "k ex"] f by simp
  qed
qed

lemma pull_spec:
  assumes st: "stack_ready h r l fs" and l: "frame (promise_of h l) = At b"
  shows "\<exists>h'. pull h r = Some h' \<and> pulled h' r (rest b fs)"
proof -
  have T: "linked h l fs r" "m_node (promise_of h r) = l"
    and roots: "\<forall>x\<in>set (l # map fst fs). m_root (promise_of h x) = r"
    using st by (simp_all add: stack_ready_def tower_def)
  have "m_root (promise_of h r) = r" using linked_root [OF T(1)] roots by blast
  moreover have "\<not> is_complete h r" by (rule linked_not_complete [OF T(1) l])
  ultimately have "pull h r = pull_loop (run b h l) r" using T(2) l by (simp add: pull_def resume_def)
  then show ?thesis using pull_loop_spec [OF st] by simp
qed

lemma collect_from_spec:
  assumes "stack_ready h r l fs" "frame (promise_of h l) = At b" "rest b fs = (vs, ex)"
  shows "collect_from h r acc = Some (acc @ vs, ex)"
  using assms
proof (induction vs arbitrary: h l fs b acc)
  case Nil
  obtain h' where "pull h r = Some h'" "pulled h' r ([], ex)" using pull_spec [OF Nil(1,2)] Nil(3) by auto
  then show ?case
    by (cases ex) (simp_all add: collect_from.simps [of h] advance_def pulled_def)
next
  case (Cons v vs)
  obtain h' where h': "pull h r = Some h'" "pulled h' r (v # vs, ex)"
    using pull_spec [OF Cons.prems(1,2)] Cons.prems(3) by auto
  obtain l' gs b' where t: "stack_ready h' r l' gs" "frame (promise_of h' l') = At b'"
      "m_value (promise_of h' l') = Some v" "rest b' gs = (vs, ex)"
    using h'(2) by (auto simp: pulled_def)
  have T: "linked h' l' gs r" "m_node (promise_of h' r) = l'"
    and roots: "\<forall>x\<in>set (l' # map fst gs). m_root (promise_of h' x) = r"
    using t(1) by (simp_all add: stack_ready_def tower_def)
  have "\<not> is_complete h' r" by (rule linked_not_complete [OF T(1) t(2)])
  moreover have "m_root (promise_of h' r) = r" using linked_root [OF T(1)] roots by blast
  ultimately have "collect_from h r acc = collect_from h' r (acc @ [v])"
    using h'(1) T(2) t(3) by (simp add: collect_from.simps [of h] advance_def root_value_def)
  then show ?case using Cons.IH [OF t(1,2,4), of "acc @ [v]"] by simp
qed

lemma collect_behaviour: "collect b = Some (behaviour b)"
proof -
  let ?h = "promise_new heap_empty b"
  have "stack_ready ?h 0 0 []"
    by (simp add: stack_ready_def tower_def promise_new_def heap_empty_def)
  moreover have "frame (promise_of ?h 0) = At b" by (simp add: promise_new_def heap_empty_def)
  moreover have "rest b [] = (fst (behaviour b), snd (behaviour b))" by (simp add: rest_def split: prod.splits)
  ultimately show ?thesis using collect_from_spec [of ?h 0 0 "[]" b "fst (behaviour b)" "snd (behaviour b)" "[]"]
    by (simp add: collect_def)
qed

section \<open>Properties\<close>

text \<open>
  C31. A loop over a recursive generator sees the values of the generators yielded inside it at
  their place, to any depth, and ends with the exception that the bodies leave uncaught, as long
  as no generator that is yielded throws before its first value.
\<close>

theorem recursive_generator_loop:
  assumes "no_early_throw b"
  shows "collect b = Some (meaning b)"
  by (simp add: collect_behaviour behaviour_meaning [OF assms])

theorem recursive_generator_loop_witness:
  "collect (Yield 1 (Yield_all (Yield (2 :: nat) (Throw ''x'')) (\<lambda>ex. Yield 3 (case ex of None \<Rightarrow> Return | Some e \<Rightarrow> Throw e)))) =
     Some ([1, 2, 3], Some ''x'')"
  by (subst recursive_generator_loop) simp_all

text \<open>
  An exception of a generator that is yielded and throws before its first value is lost: the
  body that yields it goes on as if it had been empty, whatever the exception and the rest of the
  body.
\<close>

theorem recursive_generator_loses_exception:
  "collect (Yield_all (Throw e) cont) = collect (cont None) \<and>
   meaning (Yield_all (Throw e) cont) = meaning (cont (Some e))"
  by (simp add: collect_behaviour split: prod.splits)

end
