(* ===== verification/Async_Generator.thy ===== *)
theory Async_Generator
  imports Coro_Prelude
begin

text \<open>
  include/coro/types/async_generator.h: a generator whose body may wait for other things between
  its yields; the consumer waits for each value. Control passes directly between the two
  coroutines: an advance by the consumer resumes the producer, a yield or the end resumes the
  consumer. The body is user code, a (possibly infinite) tree of what it does next; \<open>Await\<close> is any
  wait that suspends it until something else resumes it. \<open>None\<close> is undefined behaviour.
\<close>

codatatype ('e, 'v) body = Return | Throw 'e | Yield 'v "('e, 'v) body" | Await "('e, 'v) body"

section \<open>The generator\<close>

text \<open>Which of the coroutines runs: \<open>Nobody\<close> while the producer waits for something else.\<close>

datatype turn = Consumer | Producer | Nobody

record ('e, 'v) generator =
  m_current_value :: "'v option"
  m_exception :: "'e option"
  m_consumer_handle :: bool
  producer :: "('e, 'v) body option"
  turn :: turn

definition generator_new :: "('e, 'v) body \<Rightarrow> ('e, 'v) generator" where
  "generator_new b = \<lparr>m_current_value = None, m_exception = None, m_consumer_handle = False,
     producer = Some b, turn = Consumer\<rparr>"

definition is_finished :: "('e, 'v) generator \<Rightarrow> bool" where
  "is_finished g \<longleftrightarrow> m_current_value g = None"

text \<open>\<open>await_suspend\<close> of begin and of the increment; the producer must not be done.\<close>

definition advance_suspend :: "('e, 'v) generator \<Rightarrow> ('e, 'v) generator option" where
  "advance_suspend g =
     (if producer g = None then None else Some (g\<lparr>m_consumer_handle := True, turn := Producer\<rparr>))"

text \<open>\<open>await_suspend\<close> of the yield operation: the consumer's handle must have been stored.\<close>

definition yield_suspend :: "('e, 'v) generator \<Rightarrow> ('e, 'v) generator option" where
  "yield_suspend g = (if m_consumer_handle g then Some (g\<lparr>turn := Consumer\<rparr>) else None)"

definition yield_value :: "'v \<Rightarrow> ('e, 'v) generator \<Rightarrow> ('e, 'v) generator option" where
  "yield_value v g = yield_suspend (g\<lparr>m_current_value := Some v\<rparr>)"

definition final_suspend :: "('e, 'v) generator \<Rightarrow> ('e, 'v) generator option" where
  "final_suspend g = yield_suspend (g\<lparr>m_current_value := None, producer := None\<rparr>)"

definition unhandled_exception :: "'e \<Rightarrow> ('e, 'v) generator \<Rightarrow> ('e, 'v) generator" where
  "unhandled_exception e g = g\<lparr>m_exception := Some e\<rparr>"

text \<open>What the body does next.\<close>

definition produce :: "('e, 'v) generator \<Rightarrow> ('e, 'v) body \<Rightarrow> ('e, 'v) generator option" where
  "produce g b =
     (case b of
        Return \<Rightarrow> final_suspend g
      | Throw e \<Rightarrow> final_suspend (unhandled_exception e g)
      | Yield v b' \<Rightarrow> yield_value v (g\<lparr>producer := Some b'\<rparr>)
      | Await b' \<Rightarrow> Some (g\<lparr>producer := Some b', turn := Nobody\<rparr>))"

text \<open>
  \<open>await_resume\<close> of begin and of the increment: the value that the iterator then has, the end, or
  the exception.
\<close>

definition advance_resume :: "('e, 'v) generator \<Rightarrow> 'e + 'v option" where
  "advance_resume g =
     (if is_finished g then (case m_exception g of Some e \<Rightarrow> Inl e | None \<Rightarrow> Inr None)
      else Inr (m_current_value g))"

section \<open>A consumer\<close>

text \<open>
  A loop over the generator that collects the values; it is about to advance, waits, or is over
  with the exception that left it, if any.
\<close>

datatype 'e consumer_pc = Advancing | Waiting | Over "'e option"

record ('e, 'v) loop =
  gen :: "('e, 'v) generator"
  consumer :: "'e consumer_pc"
  collected :: "'v list"

definition loop_new :: "('e, 'v) body \<Rightarrow> ('e, 'v) loop" where
  "loop_new b = \<lparr>gen = generator_new b, consumer = Advancing, collected = []\<rparr>"

definition loop_resume :: "('e, 'v) loop \<Rightarrow> ('e, 'v) loop" where
  "loop_resume l =
     (case advance_resume (gen l) of
        Inl e \<Rightarrow> l\<lparr>consumer := Over (Some e)\<rparr>
      | Inr None \<Rightarrow> l\<lparr>consumer := Over None\<rparr>
      | Inr (Some v) \<Rightarrow> l\<lparr>consumer := Advancing, collected := collected l @ [v]\<rparr>)"

inductive loop_step :: "('e, 'v) loop \<Rightarrow> ('e, 'v) loop option \<Rightarrow> bool" where
  lp_advance: "turn (gen l) = Consumer \<Longrightarrow> consumer l = Advancing \<Longrightarrow>
    loop_step l (map_option (\<lambda>g. l\<lparr>gen := g, consumer := Waiting\<rparr>) (advance_suspend (gen l)))"
| lp_produce: "turn (gen l) = Producer \<Longrightarrow> producer (gen l) = Some b \<Longrightarrow>
    loop_step l (map_option (\<lambda>g. l\<lparr>gen := g\<rparr>) (produce (gen l) b))"
| lp_event: "turn (gen l) = Nobody \<Longrightarrow> loop_step l (Some (l\<lparr>gen := (gen l)\<lparr>turn := Producer\<rparr>\<rparr>))"
| lp_resume: "turn (gen l) = Consumer \<Longrightarrow> consumer l = Waiting \<Longrightarrow> loop_step l (Some (loop_resume l))"

inductive loop_run :: "('e, 'v) body \<Rightarrow> ('e, 'v) loop option \<Rightarrow> bool" for b where
  lr_start: "loop_run b (Some (loop_new b))"
| lr_step: "loop_run b (Some l) \<Longrightarrow> loop_step l l' \<Longrightarrow> loop_run b l'"

section \<open>What the consumer sees\<close>

text \<open>\<open>reaches b vs c\<close>: the body \<open>b\<close> yields \<open>vs\<close>, waiting in between, and goes on as \<open>c\<close>.\<close>

inductive reaches :: "('e, 'v) body \<Rightarrow> 'v list \<Rightarrow> ('e, 'v) body \<Rightarrow> bool" for b where
  re_start: "reaches b [] b"
| re_yield: "reaches b vs (Yield v c) \<Longrightarrow> reaches b (vs @ [v]) c"
| re_await: "reaches b vs (Await c) \<Longrightarrow> reaches b vs c"

text \<open>The producer's part of the invariant: \<open>vs\<close> are the values yielded so far.\<close>

definition producer_ok :: "('e, 'v) body \<Rightarrow> 'v list \<Rightarrow> ('e, 'v) generator \<Rightarrow> bool" where
  "producer_ok b vs g \<longleftrightarrow>
     (case producer g of
        Some c \<Rightarrow> reaches b vs c \<and> m_exception g = None
      | None \<Rightarrow> reaches b vs (case m_exception g of None \<Rightarrow> Return | Some e \<Rightarrow> Throw e))"

definition loop_inv :: "('e, 'v) body \<Rightarrow> ('e, 'v) loop \<Rightarrow> bool" where
  "loop_inv b l \<longleftrightarrow>
     (case consumer l of
        Advancing \<Rightarrow> turn (gen l) = Consumer \<and> producer (gen l) \<noteq> None \<and> producer_ok b (collected l) (gen l)
      | Waiting \<Rightarrow> m_consumer_handle (gen l) \<and>
          (if turn (gen l) = Consumer
           then producer_ok b (collected l @ (case m_current_value (gen l) of None \<Rightarrow> [] | Some v \<Rightarrow> [v])) (gen l) \<and>
             (m_current_value (gen l) = None \<longleftrightarrow> producer (gen l) = None)
           else producer (gen l) \<noteq> None \<and> producer_ok b (collected l) (gen l))
      | Over ex \<Rightarrow> turn (gen l) = Consumer \<and>
          reaches b (collected l) (case ex of None \<Rightarrow> Return | Some e \<Rightarrow> Throw e))"

lemma loop_inv_produce:
  assumes inv: "loop_inv b l" and t: "turn (gen l) = Producer" and c: "producer (gen l) = Some c"
  shows "\<exists>g. produce (gen l) c = Some g \<and> loop_inv b (l\<lparr>gen := g\<rparr>)"
proof -
  have w: "consumer l = Waiting" using inv t by (auto simp: loop_inv_def split: consumer_pc.splits)
  have h: "m_consumer_handle (gen l)" and r: "reaches b (collected l) c" and ex: "m_exception (gen l) = None"
    using inv w t c by (auto simp: loop_inv_def producer_ok_def)
  note d = produce_def final_suspend_def yield_suspend_def unhandled_exception_def yield_value_def
    loop_inv_def producer_ok_def
  show ?thesis
  proof (cases c)
    case (Yield v c')
    then have "reaches b (collected l @ [v]) c'" using r re_yield [of b "collected l" v c'] Yield by simp
    then show ?thesis using h w ex Yield by (simp add: d)
  next
    case (Await c')
    then have "reaches b (collected l) c'" using r re_await [of b "collected l" c'] Await by simp
    then show ?thesis using h w ex Await by (simp add: d)
  qed (use h w r ex in \<open>simp_all add: d\<close>)
qed

lemma loop_inv_resume:
  assumes inv: "loop_inv b l" and "turn (gen l) = Consumer" "consumer l = Waiting"
  shows "loop_inv b (loop_resume l)"
  using assms
  by (cases "m_current_value (gen l)"; cases "m_exception (gen l)")
    (auto simp: loop_inv_def loop_resume_def advance_resume_def is_finished_def producer_ok_def split: option.splits)

lemma loop_inv_step:
  assumes inv: "loop_inv b l" and step: "loop_step l l'"
  shows "\<exists>k. l' = Some k \<and> loop_inv b k"
  using step
proof cases
  case lp_advance
  then show ?thesis using inv
    by (auto simp: loop_inv_def advance_suspend_def producer_ok_def)
next
  case (lp_produce c)
  then show ?thesis using loop_inv_produce [OF inv] by auto
next
  case lp_event
  then show ?thesis using inv
    by (auto simp: loop_inv_def producer_ok_def split: consumer_pc.splits option.splits)
next
  case lp_resume
  then show ?thesis using loop_inv_resume [OF inv] by simp
qed

lemma loop_run_inv: "loop_run b l \<Longrightarrow> \<exists>k. l = Some k \<and> loop_inv b k"
proof (induction rule: loop_run.induct)
  case lr_start
  then show ?case by (simp add: loop_inv_def loop_new_def generator_new_def producer_ok_def re_start)
next
  case (lr_step l l')
  then show ?case using loop_inv_step by blast
qed

section \<open>Property\<close>

text \<open>
  C33. However long the producer waits in between, a consumer of an asynchronous generator resumes
  no coroutine that is done and none that it has no handle of; it has seen a prefix of the values
  that the body yields, each once and in order; and it is over exactly where the body returns or
  with the exception that the body throws there.
\<close>

theorem async_generator_loop:
  assumes "loop_run b l"
  shows "\<exists>k. l = Some k \<and> (\<exists>c. reaches b (collected k) c) \<and>
    (\<forall>ex. consumer k = Over ex \<longrightarrow> reaches b (collected k) (case ex of None \<Rightarrow> Return | Some e \<Rightarrow> Throw e))"
proof -
  obtain k where k: "l = Some k" "loop_inv b k" using loop_run_inv [OF assms] by blast
  have "\<exists>c. reaches b (collected k @ vs) c \<Longrightarrow> \<exists>c. reaches b (collected k) c" for vs
  proof (induction vs rule: rev_induct)
    case (snoc v vs)
    then obtain c where "reaches b ((collected k @ vs) @ [v]) c" by auto
    then have "\<exists>c. reaches b (collected k @ vs) c"
      by (induction "(collected k @ vs) @ [v]" c rule: reaches.induct) auto
    then show ?case by (rule snoc.IH)
  qed simp
  then have "\<exists>c. reaches b (collected k) c"
    using k(2) by (auto simp: loop_inv_def producer_ok_def split: consumer_pc.splits if_splits option.splits)
  then show ?thesis using k by (auto simp: loop_inv_def)
qed

theorem async_generator_loop_witness:
  "\<exists>k. loop_run (Yield (5 :: nat) (Await (Throw ''x''))) (Some k) \<and> consumer k = Over (Some ''x'') \<and>
     collected k = [5] \<and> reaches (Yield 5 (Await (Throw ''x''))) (collected k) (Throw ''x'')"
proof -
  let ?b = "Yield (5 :: nat) (Await (Throw ''x''))"
  define s where "s i t v c ex = \<lparr>gen = \<lparr>m_current_value = v, m_exception = ex, m_consumer_handle = True,
     producer = c, turn = t\<rparr>, consumer = fst i, collected = snd i\<rparr>"
    for i :: "string consumer_pc \<times> nat list" and t v c ex
  note d = s_def loop_new_def generator_new_def advance_suspend_def produce_def yield_value_def
    yield_suspend_def loop_resume_def advance_resume_def is_finished_def final_suspend_def unhandled_exception_def
  have "loop_run ?b (Some (s (Waiting, []) Producer None (Some ?b) None))"
    using lr_step [OF lr_start lp_advance, of ?b] by (simp add: d)
  then have "loop_run ?b (Some (s (Waiting, []) Consumer (Some 5) (Some (Await (Throw ''x''))) None))"
    using lr_step [OF _ lp_produce] by (fastforce simp: d)
  then have "loop_run ?b (Some (s (Advancing, [5]) Consumer (Some 5) (Some (Await (Throw ''x''))) None))"
    using lr_step [OF _ lp_resume] by (fastforce simp: d)
  then have "loop_run ?b (Some (s (Waiting, [5]) Producer (Some 5) (Some (Await (Throw ''x''))) None))"
    using lr_step [OF _ lp_advance] by (fastforce simp: d)
  then have "loop_run ?b (Some (s (Waiting, [5]) Nobody (Some 5) (Some (Throw ''x'')) None))"
    using lr_step [OF _ lp_produce] by (fastforce simp: d)
  then have "loop_run ?b (Some (s (Waiting, [5]) Producer (Some 5) (Some (Throw ''x'')) None))"
    using lr_step [OF _ lp_event] by (fastforce simp: d)
  then have "loop_run ?b (Some (s (Waiting, [5]) Consumer None None (Some ''x'')))"
    using lr_step [OF _ lp_produce] by (fastforce simp: d)
  then have run: "loop_run ?b (Some (s (Over (Some ''x''), [5]) Consumer None None (Some ''x'')))"
    using lr_step [OF _ lp_resume] by (fastforce simp: d)
  have o: "consumer (s (Over (Some ''x''), [5]) Consumer None None (Some ''x'')) = Over (Some ''x'')"
      "collected (s (Over (Some ''x''), [5]) Consumer None None (Some ''x'')) = [5]" by (simp_all add: d)
  show ?thesis using async_generator_loop [OF run] run o
    by (intro exI [of _ "s (Over (Some ''x''), [5]) Consumer None None (Some ''x'')"]) auto
qed

end
