(* ===== verification/Tasks.thy ===== *)
theory Tasks
  imports Coro_Prelude
begin

text \<open>
  include/coro/types/task.h: a coroutine that starts when it is awaited and that resumes the
  coroutine that awaits it when it ends, both by passing control directly. The bodies are user
  code: a tree of what a coroutine does next, where \<open>Await_task\<close> awaits a task whose body is given
  and goes on knowing its value or the exception rethrown there, and \<open>Wait\<close> is any other wait that
  suspends it until something else resumes it. \<open>None\<close> is undefined behaviour or a failed assertion.
\<close>

datatype ('e, 'v) body =
    Return 'v
  | Throw 'e
  | Wait "('e, 'v) body"
  | Await_task "('e, 'v) body" "'e + 'v \<Rightarrow> ('e, 'v) body"

section \<open>Promises\<close>

datatype ('e, 'v) result = Empty | Value 'v | Exception 'e

text \<open>
  Where a coroutine is suspended: at its start, in some other wait, in the await of the task with
  the given promise, or at its end.
\<close>

datatype ('e, 'v) frame = At "('e, 'v) body" | In_task nat "'e + 'v \<Rightarrow> ('e, 'v) body" | Finished

record ('e, 'v) promise =
  m_handle :: "nat option"
  m_result :: "('e, 'v) result"
  frame :: "('e, 'v) frame"

text \<open>\<open>running\<close> is the coroutine that runs on the thread, if any; \<open>waiting\<close> the one in another wait.\<close>

record ('e, 'v) state =
  promise_of :: "nat \<Rightarrow> ('e, 'v) promise"
  next_promise :: nat
  running :: "nat option"
  waiting :: "nat option"

definition upd :: "('e, 'v) state \<Rightarrow> nat \<Rightarrow> (('e, 'v) promise \<Rightarrow> ('e, 'v) promise) \<Rightarrow> ('e, 'v) state" where
  "upd s p f = s\<lparr>promise_of := (promise_of s)(p := f (promise_of s p))\<rparr>"

definition task_new :: "('e, 'v) state \<Rightarrow> ('e, 'v) body \<Rightarrow> ('e, 'v) state" where
  "task_new s b =
     s\<lparr>promise_of := (promise_of s)(next_promise s := \<lparr>m_handle = None, m_result = Empty, frame = At b\<rparr>),
       next_promise := Suc (next_promise s)\<rparr>"

definition is_ready :: "('e, 'v) state \<Rightarrow> nat \<Rightarrow> bool" where
  "is_ready s p \<longleftrightarrow> frame (promise_of s p) = Finished"

definition set_continuation :: "('e, 'v) state \<Rightarrow> nat \<Rightarrow> nat \<Rightarrow> ('e, 'v) state" where
  "set_continuation s p h = upd s p (\<lambda>q. q\<lparr>m_handle := Some h\<rparr>)"

definition return_value :: "('e, 'v) state \<Rightarrow> nat \<Rightarrow> 'v \<Rightarrow> ('e, 'v) state" where
  "return_value s p v = upd s p (\<lambda>q. q\<lparr>m_result := Value v\<rparr>)"

definition unhandled_exception :: "('e, 'v) state \<Rightarrow> nat \<Rightarrow> 'e \<Rightarrow> ('e, 'v) state" where
  "unhandled_exception s p e = upd s p (\<lambda>q. q\<lparr>m_result := Exception e\<rparr>)"

text \<open>\<open>result\<close>: the assertion is on the result being a value when it is not an exception.\<close>

definition promise_result :: "('e, 'v) state \<Rightarrow> nat \<Rightarrow> ('e + 'v) option" where
  "promise_result s p =
     (case m_result (promise_of s p) of Exception e \<Rightarrow> Some (Inl e) | Value v \<Rightarrow> Some (Inr v) | Empty \<Rightarrow> None)"

text \<open>The final suspension passes control to the continuation, or to the no-op coroutine.\<close>

definition final_suspend :: "('e, 'v) state \<Rightarrow> nat \<Rightarrow> ('e, 'v) state" where
  "final_suspend s p = (upd s p (\<lambda>q. q\<lparr>frame := Finished\<rparr>))\<lparr>running := m_handle (promise_of s p)\<rparr>"

section \<open>Awaiting a task\<close>

text \<open>
  \<open>await_suspend\<close> stores the awaiting coroutine \<open>p\<close> and passes control to the task \<open>c\<close>; a task that
  is ready is not resumed again.
\<close>

definition await_suspend :: "('e, 'v) state \<Rightarrow> nat \<Rightarrow> nat \<Rightarrow> ('e + 'v \<Rightarrow> ('e, 'v) body) \<Rightarrow> ('e, 'v) state" where
  "await_suspend s p c cont =
     (let s1 = upd s p (\<lambda>q. q\<lparr>frame := In_task c cont\<rparr>)
      in if is_ready s c then s1 else (set_continuation s1 c p)\<lparr>running := Some c\<rparr>)"

definition await_task :: "('e, 'v) state \<Rightarrow> nat \<Rightarrow> ('e, 'v) body \<Rightarrow> ('e + 'v \<Rightarrow> ('e, 'v) body) \<Rightarrow> ('e, 'v) state" where
  "await_task s p child cont = await_suspend (task_new s child) p (next_promise s) cont"

text \<open>\<open>await_resume\<close> of a task object with and without a coroutine.\<close>

datatype ('e, 'v) awaited = Outcome "'e + 'v" | Broken_promise

definition await_resume :: "('e, 'v) state \<Rightarrow> nat option \<Rightarrow> ('e, 'v) awaited option" where
  "await_resume s h = (case h of None \<Rightarrow> Some Broken_promise | Some c \<Rightarrow> map_option Outcome (promise_result s c))"

section \<open>The machine\<close>

text \<open>What the running coroutine \<open>p\<close> does next.\<close>

definition perform :: "('e, 'v) state \<Rightarrow> nat \<Rightarrow> ('e, 'v) body \<Rightarrow> ('e, 'v) state" where
  "perform s p b =
     (case b of
        Return v \<Rightarrow> final_suspend (return_value s p v) p
      | Throw e \<Rightarrow> final_suspend (unhandled_exception s p e) p
      | Wait b' \<Rightarrow> (upd s p (\<lambda>q. q\<lparr>frame := At b'\<rparr>))\<lparr>running := None, waiting := Some p\<rparr>
      | Await_task child cont \<Rightarrow> await_task s p child cont)"

text \<open>
  One step: the running coroutine goes on from where it is suspended; when none runs, what the
  waiting one waits for happens and resumes it; else nothing is left to do.
\<close>

definition step :: "('e, 'v) state \<Rightarrow> ('e, 'v) state option" where
  "step s =
     (case running s of
        Some p \<Rightarrow>
          (case frame (promise_of s p) of
             At b \<Rightarrow> Some (perform s p b)
           | In_task c cont \<Rightarrow>
               (case await_resume s (Some c) of
                  Some (Outcome r) \<Rightarrow> Some (upd s p (\<lambda>q. q\<lparr>frame := At (cont r)\<rparr>))
                | _ \<Rightarrow> None)
           | Finished \<Rightarrow> None)
      | None \<Rightarrow>
          (case waiting s of
             Some p \<Rightarrow> Some (s\<lparr>running := Some p, waiting := None\<rparr>)
           | None \<Rightarrow> Some s))"

fun steps :: "nat \<Rightarrow> ('e, 'v) state \<Rightarrow> ('e, 'v) state option" where
  "steps 0 s = Some s"
| "steps (Suc n) s = Option.bind (step s) (steps n)"

text \<open>A task with this body, not started; and the same when it has been resumed at top level.\<close>

definition start_state :: "('e, 'v) body \<Rightarrow> ('e, 'v) state" where
  "start_state b = task_new \<lparr>promise_of = (\<lambda>_. \<lparr>m_handle = None, m_result = Empty, frame = Finished\<rparr>),
     next_promise = 0, running = None, waiting = None\<rparr> b"

definition resume_root :: "('e, 'v) state \<Rightarrow> ('e, 'v) state" where
  "resume_root s = s\<lparr>running := Some 0\<rparr>"

section \<open>What a task computes\<close>

primrec meaning :: "('e, 'v) body \<Rightarrow> 'e + 'v" where
  "meaning (Return v) = Inr v"
| "meaning (Throw e) = Inl e"
| "meaning (Wait b) = meaning b"
| "meaning (Await_task child cont) = (meaning \<circ> cont) (meaning child)"

definition outcome :: "'e + 'v \<Rightarrow> ('e, 'v) result" where
  "outcome r = (case r of Inl e \<Rightarrow> Exception e | Inr v \<Rightarrow> Value v)"

lemma steps_add: "steps (m + n) s = Option.bind (steps m s) (steps n)"
  by (induction m arbitrary: s) (auto split: Option.bind_split)

lemma task_upd_simps [simp]:
  "promise_of (upd s p f) = (promise_of s)(p := f (promise_of s p))" "next_promise (upd s p f) = next_promise s"
  "running (upd s p f) = running s" "waiting (upd s p f) = waiting s"
  by (simp_all add: upd_def)

text \<open>
  Running \<open>p\<close> to its end: \<open>p\<close> has the result, control is with its continuation, and no other
  promise that existed before has changed.
\<close>

definition completes :: "('e, 'v) state \<Rightarrow> nat \<Rightarrow> 'e + 'v \<Rightarrow> ('e, 'v) state \<Rightarrow> bool" where
  "completes s p r t \<longleftrightarrow>
     promise_of t p = \<lparr>m_handle = m_handle (promise_of s p), m_result = outcome r, frame = Finished\<rparr> \<and>
     running t = m_handle (promise_of s p) \<and> waiting t = None \<and> next_promise s \<le> next_promise t \<and>
     (\<forall>q. q < next_promise s \<and> q \<noteq> p \<longrightarrow> promise_of t q = promise_of s q)"

lemma task_completes:
  assumes "p < next_promise s" "running s = Some p" "waiting s = None" "frame (promise_of s p) = At b"
  shows "\<exists>n t. steps n s = Some t \<and> completes s p (meaning b) t"
  using assms
proof (induction b arbitrary: s p)
  case (Return v)
  then have "step s = Some (perform s p (Return v))" by (simp add: step_def)
  then have "steps 1 s = Some (perform s p (Return v))" by simp
  moreover have "completes s p (Inr v) (perform s p (Return v))"
    using Return by (simp add: completes_def perform_def final_suspend_def return_value_def outcome_def)
  ultimately show ?case by (metis meaning.simps(1))
next
  case (Throw e)
  then have "step s = Some (perform s p (Throw e))" by (simp add: step_def)
  then have "steps 1 s = Some (perform s p (Throw e))" by simp
  moreover have "completes s p (Inl e) (perform s p (Throw e))"
    using Throw by (simp add: completes_def perform_def final_suspend_def unhandled_exception_def outcome_def)
  ultimately show ?case by (metis meaning.simps(2))
next
  case (Wait b)
  define s1 where "s1 = perform s p (Wait b)"
  define s2 where "s2 = s1\<lparr>running := Some p, waiting := None\<rparr>"
  have "step s = Some s1" using Wait.prems by (simp add: step_def s1_def)
  moreover have "step s1 = Some s2" by (simp add: step_def s1_def s2_def perform_def)
  ultimately have two: "steps 2 s = Some s2" by (simp add: numeral_2_eq_2)
  have p2: "p < next_promise s2" "running s2 = Some p" "waiting s2 = None" "frame (promise_of s2 p) = At b"
    using Wait.prems by (simp_all add: s1_def s2_def perform_def)
  obtain n t where t: "steps n s2 = Some t" "completes s2 p (meaning b) t" using Wait.IH [OF p2] by blast
  have "steps (2 + n) s = Some t" by (simp only: steps_add two) (simp add: t(1))
  moreover have "completes s p (meaning b) t"
    using t(2) by (simp add: completes_def s1_def s2_def perform_def)
  ultimately show ?case by (metis meaning.simps(3))
next
  case (Await_task child cont)
  define c where "c = next_promise s"
  define s1 where "s1 = perform s p (Await_task child cont)"
  have pc: "p \<noteq> c" "p < c" using Await_task.prems(1) by (simp_all add: c_def)
  have one: "step s = Some s1" using Await_task.prems by (simp add: step_def s1_def)
  have P1: "promise_of s1 c = \<lparr>m_handle = Some p, m_result = Empty, frame = At child\<rparr>"
      "promise_of s1 p = (promise_of s p)\<lparr>frame := In_task c cont\<rparr>"
      "\<And>q. q \<noteq> c \<Longrightarrow> q \<noteq> p \<Longrightarrow> promise_of s1 q = promise_of s q"
      "next_promise s1 = Suc c" "running s1 = Some c" "waiting s1 = None"
    using pc Await_task.prems by (simp_all add: s1_def perform_def await_task_def await_suspend_def Let_def
      task_new_def is_ready_def set_continuation_def flip: c_def)
  have "c < next_promise s1" "frame (promise_of s1 c) = At child" by (simp_all add: P1)
  then obtain m s2 where s2: "steps m s1 = Some s2" "completes s1 c (meaning child) s2"
    using Await_task.IH(1) P1(5,6) by blast
  have C: "promise_of s2 c = \<lparr>m_handle = Some p, m_result = outcome (meaning child), frame = Finished\<rparr>"
      "running s2 = Some p" "waiting s2 = None" "Suc c \<le> next_promise s2"
      "\<And>q. q < c \<Longrightarrow> promise_of s2 q = promise_of s1 q"
    using s2(2) by (simp_all add: completes_def P1)
  define s3 where "s3 = upd s2 p (\<lambda>q. q\<lparr>frame := At (cont (meaning child))\<rparr>)"
  have "await_resume s2 (Some c) = Some (Outcome (meaning child))"
    by (cases "meaning child") (simp_all add: await_resume_def promise_result_def C(1) outcome_def)
  then have "step s2 = Some s3" using C(2) C(5) [OF pc(2)] by (simp add: step_def P1(2) s3_def)
  then have "steps (m + 1) s1 = Some s3" by (simp only: steps_add s2(1)) simp
  then have pre: "steps (Suc (m + 1)) s = Some s3" by (simp only: steps.simps one bind.simps)
  have p3: "p < next_promise s3" "running s3 = Some p" "waiting s3 = None"
      "frame (promise_of s3 p) = At (cont (meaning child))"
    using pc C(2-4) by (simp_all add: s3_def)
  obtain n t where t: "steps n s3 = Some t" "completes s3 p (meaning (cont (meaning child))) t"
    using Await_task.IH(2) [OF _ p3] by blast
  have all: "steps (Suc (m + 1) + n) s = Some t" by (simp only: steps_add pre) (simp add: t(1))
  have "promise_of s3 q = promise_of s q" if "q < c" "q \<noteq> p" for q
    using that C(5) P1(3) by (simp add: s3_def)
  moreover have "m_handle (promise_of s3 p) = m_handle (promise_of s p)"
    using C(5) [OF pc(2)] by (simp add: s3_def P1(2))
  moreover have "c \<le> next_promise s3" using C(4) by (simp add: s3_def)
  ultimately have "completes s p (meaning (cont (meaning child))) t"
    using t(2) by (auto simp: completes_def c_def)
  moreover have "meaning (Await_task child cont) = meaning (cont (meaning child))" by simp
  ultimately show ?case using all by metis
qed

section \<open>Property\<close>

text \<open>
  C25. A task that is resumed runs to its end: through any nesting of awaited tasks and other waits,
  the machine reaches, in finitely many steps and without undefined behaviour, a state in which the
  task is ready and awaiting it gives the value that its body returns or rethrows the exception
  that its body leaves uncaught, where each await inside has given the value or the exception of
  the task awaited there.
\<close>

theorem task_runs_to_result:
  "\<exists>n t. steps n (resume_root (start_state b)) = Some t \<and> is_ready t 0 \<and>
     await_resume t (Some 0) = Some (Outcome (meaning b))"
proof -
  have "\<exists>n t. steps n (resume_root (start_state b)) = Some t \<and> completes (resume_root (start_state b)) 0 (meaning b) t"
    by (rule task_completes) (simp_all add: resume_root_def start_state_def task_new_def)
  then obtain n t where t: "steps n (resume_root (start_state b)) = Some t"
      "completes (resume_root (start_state b)) 0 (meaning b) t" by blast
  have "is_ready t 0" "await_resume t (Some 0) = Some (Outcome (meaning b))"
    using t(2) by (cases "meaning b"; simp add: completes_def is_ready_def await_resume_def promise_result_def outcome_def)+
  then show ?thesis using t(1) by blast
qed

end
