(* ===== verification/Promise_Results.thy ===== *)
theory Promise_Results
  imports When_All
begin

text \<open>
  How the promises keep what a body leaves: include/types/task.h and shared_task.h (each for a value, a
  reference and void), include/detail/when_all_task.h and sync_wait_task.h (for a value or reference, and
  void). The locale \<open>result_store\<close> is what the awaiting side relies on; every promise is an instance. Then
  the coroutines that wrap an awaitable for when_all and sync_wait, with the temporaries in their frames,
  and the two ways in which when_all collects results. A reference is an address, and
  a pointer that is null or not initialised is \<open>None\<close>.
\<close>

section \<open>What a body leaves and what an awaiting coroutine gets\<close>

text \<open>
  \<open>co_return\<close> first stores the value and then destroys the locals, whose destructors may throw: then
  \<open>unhandled_exception\<close> is called after \<open>return_value\<close>.
\<close>

datatype ('e, 'v) ending = Returns 'v | Throws 'e | Returns_then_throws 'v 'e

text \<open>\<open>Terminated\<close>: an exception leaves a function that is noexcept. \<open>Undefined\<close>: a failed assertion or a read of nothing.\<close>

datatype ('e, 'v) got = Got 'v | Threw 'e | Terminated | Undefined

fun finish :: "('v \<Rightarrow> 'p \<Rightarrow> 'p) \<Rightarrow> ('e \<Rightarrow> 'p \<Rightarrow> 'p) \<Rightarrow> ('e, 'v) ending \<Rightarrow> 'p \<Rightarrow> 'p" where
  "finish ret throw (Returns v) p = ret v p"
| "finish ret throw (Throws e) p = throw e p"
| "finish ret throw (Returns_then_throws v e) p = throw e (ret v p)"

fun ending_result :: "('e \<Rightarrow> ('e, 'v) got) \<Rightarrow> ('e, 'v) ending \<Rightarrow> ('e, 'v) got" where
  "ending_result raised (Returns v) = Got v"
| "ending_result raised (Throws e) = raised e"
| "ending_result raised (Returns_then_throws v e) = raised e"

text \<open>
  The contract: a value that was returned is what \<open>result\<close> gives, and an exception is raised, also when it
  came after a value.
\<close>

locale result_store =
  fixes fresh :: 'p and ret :: "'v \<Rightarrow> 'p \<Rightarrow> 'p" and throw :: "'e \<Rightarrow> 'p \<Rightarrow> 'p"
    and result_of :: "'p \<Rightarrow> ('e, 'v) got" and raised :: "'e \<Rightarrow> ('e, 'v) got"
  assumes returned: "result_of (ret v fresh) = Got v"
    and thrown: "result_of (throw e fresh) = raised e"
    and thrown_late: "result_of (throw e (ret v fresh)) = raised e"
begin

lemma finished_result: "result_of (finish ret throw b fresh) = ending_result raised b"
  by (cases b) (simp_all add: returned thrown thrown_late)

end

section \<open>task\<close>

subsection \<open>A value: a tagged union\<close>

datatype result_type = Empty_result | Value_result | Exception_result

text \<open>What is alive in the union, and how many objects were overwritten without being destroyed.\<close>

datatype ('e, 'v) storage = Raw | Value_object 'v | Exception_object 'e

record ('e, 'v) task_promise =
  m_result :: result_type
  union :: "('e, 'v) storage"
  overwritten :: nat

definition task_promise_new :: "('e, 'v) task_promise" where
  "task_promise_new = \<lparr>m_result = Empty_result, union = Raw, overwritten = 0\<rparr>"

text \<open>Placement new does not destroy what was there.\<close>

definition place :: "('e, 'v) storage \<Rightarrow> ('e, 'v) task_promise \<Rightarrow> ('e, 'v) task_promise" where
  "place x p = p\<lparr>union := x, overwritten := overwritten p + (if union p = Raw then 0 else 1)\<rparr>"

definition task_unhandled_exception :: "'e \<Rightarrow> ('e, 'v) task_promise \<Rightarrow> ('e, 'v) task_promise" where
  "task_unhandled_exception e p = (place (Exception_object e) p)\<lparr>m_result := Exception_result\<rparr>"

definition task_return_value :: "'v \<Rightarrow> ('e, 'v) task_promise \<Rightarrow> ('e, 'v) task_promise" where
  "task_return_value v p = (place (Value_object v) p)\<lparr>m_result := Value_result\<rparr>"

definition task_result :: "('e, 'v) task_promise \<Rightarrow> ('e, 'v) got" where
  "task_result p =
     (if m_result p = Exception_result then (case union p of Exception_object e \<Rightarrow> Threw e | _ \<Rightarrow> Undefined)
      else if m_result p \<noteq> Value_result then Undefined
      else (case union p of Value_object v \<Rightarrow> Got v | _ \<Rightarrow> Undefined))"

text \<open>The destructor: how many objects have been left alive, or \<open>None\<close> if it destroys what is not there.\<close>

definition task_promise_destruct :: "('e, 'v) task_promise \<Rightarrow> nat option" where
  "task_promise_destruct p =
     (case (m_result p, union p) of
        (Value_result, Value_object v) \<Rightarrow> Some (overwritten p)
      | (Exception_result, Exception_object e) \<Rightarrow> Some (overwritten p)
      | (Empty_result, Raw) \<Rightarrow> Some (overwritten p)
      | (Empty_result, _) \<Rightarrow> Some (overwritten p + 1)
      | _ \<Rightarrow> None)"

lemmas task_promise_ops = task_promise_new_def place_def task_unhandled_exception_def task_return_value_def task_result_def
  task_promise_destruct_def

interpretation task_store: result_store task_promise_new task_return_value task_unhandled_exception task_result Threw
  by unfold_locales (simp_all add: task_promise_ops)

subsection \<open>A reference, and void\<close>

record 'e task_ref_promise =
  ref_value :: "u64 option"
  ref_exception :: "'e option"

definition task_ref_new :: "'e task_ref_promise" where
  "task_ref_new = \<lparr>ref_value = None, ref_exception = None\<rparr>"

definition task_ref_unhandled_exception :: "'e \<Rightarrow> 'e task_ref_promise \<Rightarrow> 'e task_ref_promise" where
  "task_ref_unhandled_exception e p = p\<lparr>ref_exception := Some e\<rparr>"

definition task_ref_return_value :: "u64 \<Rightarrow> 'e task_ref_promise \<Rightarrow> 'e task_ref_promise" where
  "task_ref_return_value a p = p\<lparr>ref_value := Some a\<rparr>"

definition task_ref_result :: "'e task_ref_promise \<Rightarrow> ('e, u64) got" where
  "task_ref_result p =
     (case ref_exception p of Some e \<Rightarrow> Threw e
      | None \<Rightarrow> (case ref_value p of Some a \<Rightarrow> Got a | None \<Rightarrow> Undefined))"

definition task_void_unhandled_exception :: "'e \<Rightarrow> 'e option \<Rightarrow> 'e option" where
  "task_void_unhandled_exception e exc = Some e"

definition task_return_void :: "unit \<Rightarrow> 'e option \<Rightarrow> 'e option" where
  "task_return_void v exc = exc"

definition task_void_result :: "'e option \<Rightarrow> ('e, unit) got" where
  "task_void_result exc = (case exc of Some e \<Rightarrow> Threw e | None \<Rightarrow> Got ())"

interpretation task_ref_store: result_store task_ref_new task_ref_return_value task_ref_unhandled_exception task_ref_result Threw
  by unfold_locales (simp_all add: task_ref_new_def task_ref_return_value_def task_ref_unhandled_exception_def task_ref_result_def)

interpretation task_void_store: result_store None task_return_void task_void_unhandled_exception task_void_result Threw
  by unfold_locales (simp_all add: task_return_void_def task_void_unhandled_exception_def task_void_result_def)

section \<open>shared_task\<close>

text \<open>
  The base keeps the exception and the word of waiters, of which only \<open>is_ready\<close> matters here; the
  rethrowing function is noexcept. A value is built in raw storage.
\<close>

record ('e, 'v) shared_promise =
  m_exception :: "'e option"
  m_value_storage :: "'v option"
  ready :: bool

definition shared_new :: "('e, 'v) shared_promise" where
  "shared_new = \<lparr>m_exception = None, m_value_storage = None, ready = False\<rparr>"

definition shared_unhandled_exception :: "'e \<Rightarrow> ('e, 'v) shared_promise \<Rightarrow> ('e, 'v) shared_promise" where
  "shared_unhandled_exception e p = p\<lparr>m_exception := Some e\<rparr>"

definition completed_with_unhandled_exception :: "('e, 'v) shared_promise \<Rightarrow> bool" where
  "completed_with_unhandled_exception p \<longleftrightarrow> m_exception p \<noteq> None"

definition shared_return_value :: "'v \<Rightarrow> ('e, 'v) shared_promise \<Rightarrow> ('e, 'v) shared_promise" where
  "shared_return_value v p = p\<lparr>m_value_storage := Some v\<rparr>"

definition rethrow_if_unhandled_exception :: "('e, 'v) shared_promise \<Rightarrow> ('e, 'v) got option" where
  "rethrow_if_unhandled_exception p = (if m_exception p \<noteq> None then Some Terminated else None)"

definition shared_result :: "('e, 'v) shared_promise \<Rightarrow> ('e, 'v) got" where
  "shared_result p =
     (case rethrow_if_unhandled_exception p of Some r \<Rightarrow> r
      | None \<Rightarrow> (case m_value_storage p of Some v \<Rightarrow> Got v | None \<Rightarrow> Undefined))"

text \<open>A coroutine that has come to its final suspension is ready.\<close>

definition shared_complete :: "('e, 'v) shared_promise \<Rightarrow> ('e, 'v) shared_promise" where
  "shared_complete p = p\<lparr>ready := True\<rparr>"

text \<open>As for task: how many values are left alive, \<open>None\<close> if it destroys what is not there.\<close>

definition shared_promise_destruct :: "('e, 'v) shared_promise \<Rightarrow> nat option" where
  "shared_promise_destruct p =
     (if ready p \<and> \<not> completed_with_unhandled_exception p
      then (if m_value_storage p = None then None else Some 0)
      else Some (if m_value_storage p = None then 0 else 1))"

text \<open>The promises for a reference and for void.\<close>

definition shared_ref_return_value :: "u64 \<Rightarrow> ('e, u64) shared_promise \<Rightarrow> ('e, u64) shared_promise" where
  "shared_ref_return_value a p = p\<lparr>m_value_storage := Some a\<rparr>"

definition shared_return_void :: "unit \<Rightarrow> ('e, unit) shared_promise \<Rightarrow> ('e, unit) shared_promise" where
  "shared_return_void v p = p"

definition shared_void_result :: "('e, unit) shared_promise \<Rightarrow> ('e, unit) got" where
  "shared_void_result p = (case rethrow_if_unhandled_exception p of Some r \<Rightarrow> r | None \<Rightarrow> Got ())"

lemmas shared_promise_ops = shared_new_def shared_unhandled_exception_def completed_with_unhandled_exception_def
  shared_return_value_def rethrow_if_unhandled_exception_def shared_result_def shared_complete_def
  shared_promise_destruct_def shared_ref_return_value_def shared_return_void_def shared_void_result_def

interpretation shared_store: result_store shared_new shared_return_value shared_unhandled_exception shared_result "\<lambda>_. Terminated"
  by unfold_locales (simp_all add: shared_promise_ops)

interpretation shared_ref_store:
  result_store shared_new shared_ref_return_value shared_unhandled_exception shared_result "\<lambda>_. Terminated"
  by unfold_locales (simp_all add: shared_promise_ops)

interpretation shared_void_store:
  result_store shared_new shared_return_void shared_unhandled_exception shared_void_result "\<lambda>_. Terminated"
  by unfold_locales (simp_all add: shared_promise_ops)

section \<open>when_all_task and sync_wait_task\<close>

text \<open>
  The result is yielded, so the locals and temporaries of the body are not destroyed before the frame is:
  no exception comes after it. Running off the end without a result fails an assertion.
\<close>

record 'e yield_promise =
  yield_exception :: "'e option"
  yield_result :: "u64 option"

definition yield_promise_new :: "'e yield_promise" where
  "yield_promise_new = \<lparr>yield_exception = None, yield_result = None\<rparr>"

definition when_all_unhandled_exception :: "'e \<Rightarrow> 'e yield_promise \<Rightarrow> 'e yield_promise" where
  "when_all_unhandled_exception e p = p\<lparr>yield_exception := Some e\<rparr>"

definition when_all_yield_value :: "u64 \<Rightarrow> 'e yield_promise \<Rightarrow> 'e yield_promise" where
  "when_all_yield_value a p = p\<lparr>yield_result := Some a\<rparr>"

definition when_all_return_void :: "'e yield_promise \<Rightarrow> 'e yield_promise option" where
  "when_all_return_void p = None"

definition rethrow_if_exception :: "'e yield_promise \<Rightarrow> 'e option" where
  "rethrow_if_exception p = yield_exception p"

definition when_all_result :: "'e yield_promise \<Rightarrow> ('e, u64) got" where
  "when_all_result p =
     (case rethrow_if_exception p of Some e \<Rightarrow> Threw e
      | None \<Rightarrow> (case yield_result p of Some a \<Rightarrow> Got a | None \<Rightarrow> Undefined))"

definition sync_unhandled_exception :: "'e \<Rightarrow> 'e yield_promise \<Rightarrow> 'e yield_promise" where
  "sync_unhandled_exception e p = p\<lparr>yield_exception := Some e\<rparr>"

definition sync_yield_value :: "u64 \<Rightarrow> 'e yield_promise \<Rightarrow> 'e yield_promise" where
  "sync_yield_value a p = p\<lparr>yield_result := Some a\<rparr>"

definition sync_return_void :: "'e yield_promise \<Rightarrow> 'e yield_promise option" where
  "sync_return_void p = None"

definition sync_result :: "'e yield_promise \<Rightarrow> ('e, u64) got" where
  "sync_result p =
     (case yield_exception p of Some e \<Rightarrow> Threw e
      | None \<Rightarrow> (case yield_result p of Some a \<Rightarrow> Got a | None \<Rightarrow> Undefined))"

text \<open>Those for void.\<close>

definition when_all_void_unhandled_exception :: "'e \<Rightarrow> 'e option \<Rightarrow> 'e option" where
  "when_all_void_unhandled_exception e exc = Some e"

definition when_all_void_return :: "unit \<Rightarrow> 'e option \<Rightarrow> 'e option" where
  "when_all_void_return v exc = exc"

definition when_all_void_result :: "'e option \<Rightarrow> ('e, unit) got" where
  "when_all_void_result exc = (case exc of Some e \<Rightarrow> Threw e | None \<Rightarrow> Got ())"

definition sync_void_unhandled_exception :: "'e \<Rightarrow> 'e option \<Rightarrow> 'e option" where
  "sync_void_unhandled_exception e exc = Some e"

definition sync_void_return :: "unit \<Rightarrow> 'e option \<Rightarrow> 'e option" where
  "sync_void_return v exc = exc"

definition sync_void_result :: "'e option \<Rightarrow> ('e, unit) got" where
  "sync_void_result exc = (case exc of Some e \<Rightarrow> Threw e | None \<Rightarrow> Got ())"

lemmas yield_promise_ops = yield_promise_new_def when_all_unhandled_exception_def when_all_yield_value_def when_all_return_void_def
  rethrow_if_exception_def when_all_result_def sync_unhandled_exception_def sync_yield_value_def sync_return_void_def sync_result_def
  when_all_void_unhandled_exception_def when_all_void_return_def when_all_void_result_def sync_void_unhandled_exception_def
  sync_void_return_def sync_void_result_def

interpretation when_all_store:
  result_store yield_promise_new when_all_yield_value when_all_unhandled_exception when_all_result Threw
  by unfold_locales (simp_all add: yield_promise_ops)

interpretation sync_store: result_store yield_promise_new sync_yield_value sync_unhandled_exception sync_result Threw
  by unfold_locales (simp_all add: yield_promise_ops)

interpretation when_all_void_store:
  result_store None when_all_void_return when_all_void_unhandled_exception when_all_void_result Threw
  by unfold_locales (simp_all add: yield_promise_ops)

interpretation sync_void_store: result_store None sync_void_return sync_void_unhandled_exception sync_void_result Threw
  by unfold_locales (simp_all add: yield_promise_ops)

section \<open>The coroutines that wrap an awaitable\<close>

text \<open>
  What \<open>co_await\<close> of the awaitable gives: an exception, a value, which becomes a temporary in the frame of
  the wrapping coroutine, at \<open>tmp\<close>, or a reference to something that lives elsewhere. \<open>memory\<close> holds the
  objects that are alive.
\<close>

datatype ('e, 'v) awaited = Fails 'e | Gives 'v | Refers u64

type_synonym 'v memory = "u64 \<Rightarrow> 'v option"

fun make_when_all_task :: "u64 \<Rightarrow> ('e, 'v) awaited \<Rightarrow> 'v memory \<Rightarrow> 'e yield_promise \<times> 'v memory" where
  "make_when_all_task tmp (Fails e) m = (when_all_unhandled_exception e yield_promise_new, m)"
| "make_when_all_task tmp (Gives v) m = (when_all_yield_value tmp yield_promise_new, m(tmp \<mapsto> v))"
| "make_when_all_task tmp (Refers a) m = (when_all_yield_value a yield_promise_new, m)"

fun make_sync_wait_task :: "u64 \<Rightarrow> ('e, 'v) awaited \<Rightarrow> 'v memory \<Rightarrow> 'e yield_promise \<times> 'v memory" where
  "make_sync_wait_task tmp (Fails e) m = (sync_unhandled_exception e yield_promise_new, m)"
| "make_sync_wait_task tmp (Gives v) m = (sync_yield_value tmp yield_promise_new, m(tmp \<mapsto> v))"
| "make_sync_wait_task tmp (Refers a) m = (sync_yield_value a yield_promise_new, m)"

text \<open>The destructor of a task object destroys the frame with the temporary.\<close>

definition destroy_frame :: "u64 \<Rightarrow> 'v memory \<Rightarrow> 'v memory" where
  "destroy_frame tmp m = m(tmp := None)"

text \<open>
  \<open>sync_wait\<close> returns what the awaitable gives: a value is moved out of the temporary before the task is
  destroyed, a reference is passed on.
\<close>

datatype 'v delivered = By_value 'v | By_reference u64

definition sync_wait :: "u64 \<Rightarrow> ('e, 'v) awaited \<Rightarrow> 'v memory \<Rightarrow> ('e, 'v delivered) got \<times> 'v memory" where
  "sync_wait tmp x m =
     (let (p, m') = make_sync_wait_task tmp x m;
          r = (case sync_result p of
                 Got a \<Rightarrow> (case x of Refers _ \<Rightarrow> Got (By_reference a)
                           | _ \<Rightarrow> (case m' a of Some v \<Rightarrow> Got (By_value v) | None \<Rightarrow> Undefined))
               | Threw e \<Rightarrow> Threw e | Terminated \<Rightarrow> Terminated | Undefined \<Rightarrow> Undefined)
      in (r, destroy_frame tmp m'))"

fun awaited_outcome :: "('e, 'v) awaited \<Rightarrow> ('e, 'v delivered) got" where
  "awaited_outcome (Fails e) = Threw e"
| "awaited_outcome (Gives v) = Got (By_value v)"
| "awaited_outcome (Refers a) = Got (By_reference a)"

lemma sync_wait_outcome: "sync_wait tmp x m = (awaited_outcome x, destroy_frame tmp m)"
  by (cases x) (simp_all add: sync_wait_def yield_promise_ops destroy_frame_def)

section \<open>when_all over a vector\<close>

text \<open>The tasks of the container, each with the address of its temporary, after all have ended.\<close>

fun run_tasks :: "(u64 \<times> ('e, 'v) awaited) list \<Rightarrow> 'v memory \<Rightarrow> 'e yield_promise list \<times> 'v memory" where
  "run_tasks [] m = ([], m)"
| "run_tasks ((tmp, x) # xs) m =
     (let (p, m1) = make_when_all_task tmp x m; (ps, m2) = run_tasks xs m1 in (p # ps, m2))"

text \<open>
  The loop that puts the results into a vector; it stops at the first exception. The elements of the vector
  are \<open>std::reference_wrapper\<close>s when the awaitables give lvalue references (\<open>is_reference\<close>): they keep
  the address and read nothing. Otherwise they are the values, moved or copied out of the temporaries.
\<close>

definition element :: "bool \<Rightarrow> 'v memory \<Rightarrow> u64 \<Rightarrow> 'v delivered option" where
  "element is_reference m a = (if is_reference then Some (By_reference a) else map_option By_value (m a))"

fun collect :: "bool \<Rightarrow> 'v memory \<Rightarrow> 'e yield_promise list \<Rightarrow> ('e, 'v delivered list) got" where
  "collect is_reference m [] = Got []"
| "collect is_reference m (p # ps) =
     (case when_all_result p of
        Got a \<Rightarrow> (case element is_reference m a of
            Some d \<Rightarrow> (case collect is_reference m ps of Got ds \<Rightarrow> Got (d # ds) | r \<Rightarrow> r)
          | None \<Rightarrow> Undefined)
      | Threw e \<Rightarrow> Threw e | Terminated \<Rightarrow> Terminated | Undefined \<Rightarrow> Undefined)"

definition when_all_vector ::
    "bool \<Rightarrow> (u64 \<times> ('e, 'v) awaited) list \<Rightarrow> 'v memory \<Rightarrow> ('e, 'v delivered list) got \<times> 'v memory" where
  "when_all_vector is_reference xs m =
     (let (ps, m') = run_tasks xs m
      in (collect is_reference m' ps, fold (\<lambda>(tmp, x). destroy_frame tmp) xs m'))"

text \<open>What each awaitable gave: an exception, a value, or a reference, which is the address itself.\<close>

fun outcome :: "('e, 'v) awaited \<Rightarrow> 'e + 'v delivered" where
  "outcome (Fails e) = Inl e"
| "outcome (Gives v) = Inr (By_value v)"
| "outcome (Refers a) = Inr (By_reference a)"

fun got_results :: "'e + 'v list \<Rightarrow> ('e, 'v list) got" where
  "got_results (Inl e) = Threw e"
| "got_results (Inr vs) = Got vs"

text \<open>
  Temporaries have addresses of their own, and the awaitables, which have one type, all give references or
  all give values.
\<close>

fun of_type :: "bool \<Rightarrow> ('e, 'v) awaited \<Rightarrow> bool" where
  "of_type is_reference (Fails e) = True"
| "of_type is_reference (Gives v) = (\<not> is_reference)"
| "of_type is_reference (Refers a) = is_reference"

definition tasks_apart :: "bool \<Rightarrow> (u64 \<times> ('e, 'v) awaited) list \<Rightarrow> 'v memory \<Rightarrow> bool" where
  "tasks_apart is_reference xs m \<longleftrightarrow>
     distinct (map fst xs) \<and> set (map fst xs) \<inter> dom m = {} \<and> list_all (of_type is_reference \<circ> snd) xs"

lemma run_tasks_memory: "a \<notin> set (map fst xs) \<Longrightarrow> snd (run_tasks xs m) a = m a"
proof (induction xs arbitrary: m)
  case (Cons y ys)
  obtain tmp x where y: "y = (tmp, x)" by (cases y)
  have "snd (make_when_all_task tmp x m) a = m a" using Cons.prems y by (cases x) auto
  moreover have "snd (run_tasks ys (snd (make_when_all_task tmp x m))) a = snd (make_when_all_task tmp x m) a"
    using Cons by simp
  ultimately show ?case by (simp add: y split_beta Let_def)
qed simp

lemma collect_run:
  assumes "distinct (map fst xs)" "list_all (of_type r \<circ> snd) xs"
  shows "collect r (snd (run_tasks xs m)) (fst (run_tasks xs m)) = got_results (when_all_results (map (outcome \<circ> snd) xs))"
  using assms
proof (induction xs arbitrary: m)
  case (Cons y ys)
  obtain tmp x where y: "y = (tmp, x)" by (cases y)
  define m1 where "m1 = snd (make_when_all_task tmp x m)"
  have tmp: "tmp \<notin> set (map fst ys)" using Cons.prems(1) y by simp
  have IH: "collect r (snd (run_tasks ys m1)) (fst (run_tasks ys m1)) = got_results (when_all_results (map (outcome \<circ> snd) ys))"
    using Cons.prems by (intro Cons.IH) auto
  have run: "run_tasks (y # ys) m = (fst (make_when_all_task tmp x m) # fst (run_tasks ys m1), snd (run_tasks ys m1))"
    by (simp add: y split_beta Let_def m1_def)
  show ?case
  proof (cases x)
    case (Fails e)
    then show ?thesis by (simp add: y split_beta Let_def yield_promise_ops)
  next
    case (Gives v)
    then have "snd (run_tasks ys m1) tmp = Some v" using run_tasks_memory [OF tmp] by (simp add: m1_def)
    then have "element r (snd (run_tasks ys m1)) tmp = Some (By_value v)"
      using Cons.prems(2) y Gives by (simp add: element_def)
    then show ?thesis using IH unfolding run
      by (cases "when_all_results (map (outcome \<circ> snd) ys)") (simp_all add: y Gives yield_promise_ops comp_def)
  next
    case (Refers a)
    then have "element r (snd (run_tasks ys m1)) a = Some (By_reference a)"
      using Cons.prems(2) y by (simp add: element_def)
    then show ?thesis using IH unfolding run
      by (cases "when_all_results (map (outcome \<circ> snd) ys)") (auto simp: y Refers yield_promise_ops comp_def)
  qed
qed simp

lemma destroy_frames: "fold (\<lambda>(tmp, x). destroy_frame tmp) xs m a = (if a \<in> set (map fst xs) then None else m a)"
  by (induction xs arbitrary: m) (auto simp: destroy_frame_def)

section \<open>when_all over several arguments\<close>

text \<open>
  The results are the arguments of one call of \<open>make_tuple\<close>, which C++ evaluates in an order it does not
  promise: \<open>order\<close> is that order. The first of them that throws decides.
\<close>

definition variadic_results :: "nat list \<Rightarrow> ('e + 'v) list \<Rightarrow> 'e + 'v list" where
  "variadic_results order rs =
     (case find (\<lambda>i. isl (rs ! i)) order of
        Some i \<Rightarrow> Inl (projl (rs ! i))
      | None \<Rightarrow> Inr (map projr rs))"

lemma collected_values: "when_all_results rs = Inr vs \<longleftrightarrow> (\<forall>r\<in>set rs. \<not> isl r) \<and> vs = map projr rs"
proof (induction rs arbitrary: vs rule: when_all_results.induct)
  case (3 v rs)
  then show ?case by (cases "when_all_results rs") auto
qed auto

lemma variadic_values: "set order = {..<length rs} \<Longrightarrow> variadic_results order rs = Inr vs \<longleftrightarrow> when_all_results rs = Inr vs"
proof (cases "find (\<lambda>i. isl (rs ! i)) order")
  case None
  moreover assume "set order = {..<length rs}"
  ultimately have "\<forall>r\<in>set rs. \<not> isl r" by (auto simp: find_None_iff in_set_conv_nth)
  then show ?thesis using None unfolding collected_values variadic_results_def by auto
next
  case (Some i)
  moreover assume "set order = {..<length rs}"
  ultimately have "isl (rs ! i)" "i < length rs" by (auto simp: find_Some_iff)
  then have "\<not> (\<forall>r\<in>set rs. \<not> isl r)" by (metis nth_mem)
  then show ?thesis using Some unfolding collected_values variadic_results_def by simp
qed

lemma variadic_exception: "set order = {..<length rs} \<Longrightarrow> variadic_results order rs = Inl e \<Longrightarrow> Inl e \<in> set rs"
proof -
  assume o: "set order = {..<length rs}" and e: "variadic_results order rs = Inl e"
  then obtain i where i: "find (\<lambda>i. isl (rs ! i)) order = Some i" "e = projl (rs ! i)"
    by (auto simp: variadic_results_def split: option.splits)
  then have "isl (rs ! i)" "i \<in> set order" by (auto simp: find_Some_iff)
  then have "i < length rs" "rs ! i = Inl e" using o i(2) by auto
  then show ?thesis by (metis nth_mem)
qed

section \<open>Properties\<close>

text \<open>Every promise keeps what its body leaves: whoever asks for the result gets the value that was returned or
  yielded, or the exception that was thrown, also one that a local's destructor throws after the value was
  stored; the promises of shared_task terminate the program where an exception would be rethrown.
\<close>
theorem promises_keep_outcome:
  "task_result (finish task_return_value task_unhandled_exception b task_promise_new) = ending_result Threw b \<and>
   task_ref_result (finish task_ref_return_value task_ref_unhandled_exception r task_ref_new) = ending_result Threw r \<and>
   task_void_result (finish task_return_void task_void_unhandled_exception u None) = ending_result Threw u \<and>
   shared_result (finish shared_return_value shared_unhandled_exception b shared_new) = ending_result (\<lambda>_. Terminated) b \<and>
   shared_result (finish shared_ref_return_value shared_unhandled_exception r shared_new) = ending_result (\<lambda>_. Terminated) r \<and>
   shared_void_result (finish shared_return_void shared_unhandled_exception u shared_new) = ending_result (\<lambda>_. Terminated) u \<and>
   when_all_result (finish when_all_yield_value when_all_unhandled_exception r yield_promise_new) = ending_result Threw r \<and>
   when_all_void_result (finish when_all_void_return when_all_void_unhandled_exception u None) = ending_result Threw u \<and>
   sync_result (finish sync_yield_value sync_unhandled_exception r yield_promise_new) = ending_result Threw r \<and>
   sync_void_result (finish sync_void_return sync_void_unhandled_exception u None) = ending_result Threw u"
  by (simp only: task_store.finished_result task_ref_store.finished_result task_void_store.finished_result
      shared_store.finished_result shared_ref_store.finished_result shared_void_store.finished_result
      when_all_store.finished_result when_all_void_store.finished_result sync_store.finished_result
      sync_void_store.finished_result simp_thms)

definition values_lost :: "('e, 'v) ending \<Rightarrow> nat" where
  "values_lost b = (case b of Returns_then_throws v e \<Rightarrow> 1 | _ \<Rightarrow> 0)"

text \<open>C19. The destructors of the promises of task and shared_task destroy exactly the result that is there, and
  nothing is left, except when an exception came after the value: then the value is never destroyed.
\<close>
theorem promises_destroy_result:
  "task_promise_destruct (finish task_return_value task_unhandled_exception b task_promise_new) = Some (values_lost b) \<and>
   shared_promise_destruct (shared_complete (finish shared_return_value shared_unhandled_exception b shared_new)) = Some (values_lost b) \<and>
   task_promise_destruct task_promise_new = Some 0 \<and> shared_promise_destruct shared_new = Some 0"
  by (cases b) (simp_all add: task_promise_ops shared_promise_ops values_lost_def)

text \<open>C29. Awaiting a vector through when_all gives what the awaitables gave, in order, or the first exception in
  order. Values, which live in the frames of the wrapping coroutines, are taken before the frames are
  destroyed; lvalue references are handed on as references to the same objects, not as copies of what the
  objects hold. No frame or temporary is left.
\<close>
theorem when_all_vector_transparent:
  assumes "tasks_apart is_reference xs m"
  shows "when_all_vector is_reference xs m = (got_results (when_all_results (map (outcome \<circ> snd) xs)), m)"
proof -
  have fresh: "m a = None" if "a \<in> set (map fst xs)" for a using assms that by (auto simp: tasks_apart_def)
  have "collect is_reference (snd (run_tasks xs m)) (fst (run_tasks xs m)) =
      got_results (when_all_results (map (outcome \<circ> snd) xs))"
    using assms by (intro collect_run) (simp_all add: tasks_apart_def)
  moreover have "fold (\<lambda>(tmp, x). destroy_frame tmp) xs (snd (run_tasks xs m)) = m"
  proof
    fix a
    show "fold (\<lambda>(tmp, x). destroy_frame tmp) xs (snd (run_tasks xs m)) a = m a"
      using fresh [of a] run_tasks_memory [of a xs m] by (cases "a \<in> set (map fst xs)") (simp_all only: destroy_frames if_True if_False simp_thms)
  qed
  ultimately show ?thesis by (simp add: when_all_vector_def split_beta Let_def)
qed

theorem when_all_vector_transparent_witness:
  "fst (when_all_vector False [(1, Gives (7 :: nat)), (3, Fails ''late''), (4, Fails ''later'')] [9 \<mapsto> 8]) = Threw ''late'' \<and>
   fst (when_all_vector True [(1, Refers 9 :: (string, nat) awaited), (2, Refers 9)] [9 \<mapsto> 8]) =
     Got [By_reference 9, By_reference 9]"
  by (subst (1 2) when_all_vector_transparent) (auto simp: tasks_apart_def)

end
