(* ===== verification/Scheduling.thy ===== *)
theory Scheduling
  imports Coro_Prelude
begin

text \<open>
  include/coro/schedule_on.h, resume_on.h, fmap.h and inline_scheduler.h: the operators that decide
  where an awaitable starts and where its consumer goes on, and on_scope_exit.h. What an awaitable
  does is a function: awaited in a context it completes in some context with a result, a value
  (\<open>Inr\<close>) or an exception (\<open>Inl\<close>). A context is the thread that runs and all state that the
  program can reach. A scheduler is what awaiting its \<open>schedule()\<close> does. An async_generator is what
  the next advance does: it ends, throws, or yields a value and the rest of the generator.
\<close>

section \<open>Awaitables\<close>

type_synonym ('c, 'e, 'v) awaitable = "'c \<Rightarrow> 'c \<times> ('e + 'v)"
type_synonym ('c, 'e) scheduler = "('c, 'e, unit) awaitable"

definition inline_schedule :: "('c, 'e) scheduler" where
  "inline_schedule c = (c, Inr ())"

text \<open>What follows an awaitable, unless it throws.\<close>

definition and_then :: "('c, 'e, 'v) awaitable \<Rightarrow> ('v \<Rightarrow> ('c, 'e, 'w) awaitable) \<Rightarrow> ('c, 'e, 'w) awaitable" where
  "and_then aw f c = (case aw c of (c1, Inl e) \<Rightarrow> (c1, Inl e) | (c1, Inr v) \<Rightarrow> f v c1)"

definition complete :: "'e + 'v \<Rightarrow> ('c, 'e, 'v) awaitable" where
  "complete r c = (c, r)"

section \<open>schedule_on and resume_on\<close>

definition schedule_on :: "('c, 'e) scheduler \<Rightarrow> ('c, 'e, 'v) awaitable \<Rightarrow> ('c, 'e, 'v) awaitable" where
  "schedule_on schedule aw = and_then schedule (\<lambda>_. aw)"

text \<open>
  The overload of resume_on for results other than void: the try block, whose outcome comes with the
  flag \<open>rescheduled\<close>, and what follows it.
\<close>

definition resume_on_try :: "('c, 'e) scheduler \<Rightarrow> ('c, 'e, 'v) awaitable \<Rightarrow> 'c \<Rightarrow> 'c \<times> bool \<times> ('e + 'v)" where
  "resume_on_try schedule aw c =
     (case aw c of
        (c1, Inl e) \<Rightarrow> (c1, False, Inl e)
      | (c1, Inr v) \<Rightarrow>
          (case schedule c1 of
             (c2, Inl e) \<Rightarrow> (c2, True, Inl e)
           | (c2, Inr _) \<Rightarrow> (c2, True, Inr v)))"

definition resume_on :: "('c, 'e) scheduler \<Rightarrow> ('c, 'e, 'v) awaitable \<Rightarrow> ('c, 'e, 'v) awaitable" where
  "resume_on schedule aw c =
     (case resume_on_try schedule aw c of
        (c1, rescheduled, Inr v) \<Rightarrow> (c1, Inr v)
      | (c1, rescheduled, Inl ex) \<Rightarrow>
          (if \<not> rescheduled then and_then schedule (\<lambda>_. complete (Inl ex)) c1 else (c1, Inl ex)))"

definition resume_on_void :: "('c, 'e) scheduler \<Rightarrow> ('c, 'e, unit) awaitable \<Rightarrow> ('c, 'e, unit) awaitable" where
  "resume_on_void schedule aw c =
     (let (c1, r) = aw c
      in and_then schedule (\<lambda>_. complete (case r of Inl ex \<Rightarrow> Inl ex | Inr _ \<Rightarrow> Inr ())) c1)"

section \<open>fmap\<close>

text \<open>
  An awaiter as the compiler uses it; \<open>suspend\<close> tells whether the coroutine stays suspended.
\<close>

record ('c, 'e, 'v) awaiter =
  ready :: "'c \<Rightarrow> bool"
  suspend :: "'c \<Rightarrow> 'c \<times> bool"
  resume :: "('c, 'e, 'v) awaitable"

text \<open>Awaiting it; \<open>wait\<close> is what happens until somebody resumes the coroutine.\<close>

definition co_await :: "('c \<Rightarrow> 'c) \<Rightarrow> ('c, 'e, 'v) awaiter \<Rightarrow> ('c, 'e, 'v) awaitable" where
  "co_await wait a c =
     (if ready a c then resume a c
      else let (c1, suspended) = suspend a c in resume a (if suspended then wait c1 else c1))"

definition fmap_awaiter :: "('v \<Rightarrow> ('c, 'e, 'w) awaitable) \<Rightarrow> ('c, 'e, 'v) awaiter \<Rightarrow> ('c, 'e, 'w) awaiter" where
  "fmap_awaiter f a =
     \<lparr>ready = ready a, suspend = suspend a, resume = (\<lambda>c. and_then (resume a) f c)\<rparr>"

definition fmap_void_awaiter :: "('c, 'e, 'w) awaitable \<Rightarrow> ('c, 'e, unit) awaiter \<Rightarrow> ('c, 'e, 'w) awaiter" where
  "fmap_void_awaiter f a =
     \<lparr>ready = ready a, suspend = suspend a, resume = (\<lambda>c. and_then (resume a) (\<lambda>_. f) c)\<rparr>"

section \<open>The operators on async_generator\<close>

codatatype ('c, 'e, 'v) source = Source (advance: "'c \<Rightarrow> 'c \<times> ('e + ('v \<times> ('c, 'e, 'v) source) option)")

abbreviation map_rest :: "('s \<Rightarrow> 't) \<Rightarrow> 'c \<times> ('e + ('v \<times> 's) option) \<Rightarrow> 'c \<times> ('e + ('v \<times> 't) option)" where
  "map_rest f \<equiv> map_prod id (map_sum id (map_option (map_prod id f)))"

text \<open>
  In the loop of schedule_on the scheduler comes before every advance of the source, in that of
  resume_on before every yield.
\<close>

primcorec schedule_on_generator :: "('c, 'e) scheduler \<Rightarrow> ('c, 'e, 'v) source \<Rightarrow> ('c, 'e, 'v) source" where
  "advance (schedule_on_generator schedule src) =
     (\<lambda>c. map_rest (schedule_on_generator schedule) (and_then schedule (\<lambda>_. advance src) c))"

definition advance_and_schedule ::
  "('c, 'e) scheduler \<Rightarrow> ('c, 'e, 'v) source \<Rightarrow> 'c \<Rightarrow> 'c \<times> ('e + ('v \<times> ('c, 'e, 'v) source) option)" where
  "advance_and_schedule schedule src =
     and_then (advance src) (\<lambda>r. case r of
        None \<Rightarrow> complete (Inr None)
      | Some (v, rest) \<Rightarrow> and_then schedule (\<lambda>_. complete (Inr (Some (v, rest)))))"

primcorec resume_on_generator :: "('c, 'e) scheduler \<Rightarrow> ('c, 'e, 'v) source \<Rightarrow> ('c, 'e, 'v) source" where
  "advance (resume_on_generator schedule src) =
     (\<lambda>c. map_rest (resume_on_generator schedule) (advance_and_schedule schedule src c))"

text \<open>fmap over a generator calls the function on each value before it yields the result.\<close>

definition advance_and_map ::
  "('v \<Rightarrow> ('c, 'e, 'w) awaitable) \<Rightarrow> ('c, 'e, 'v) source \<Rightarrow> 'c \<Rightarrow> 'c \<times> ('e + ('w \<times> ('c, 'e, 'v) source) option)" where
  "advance_and_map f src =
     and_then (advance src) (\<lambda>r. case r of
        None \<Rightarrow> complete (Inr None)
      | Some (v, rest) \<Rightarrow> and_then (f v) (\<lambda>w. complete (Inr (Some (w, rest)))))"

primcorec fmap_generator :: "('v \<Rightarrow> ('c, 'e, 'w) awaitable) \<Rightarrow> ('c, 'e, 'v) source \<Rightarrow> ('c, 'e, 'w) source" where
  "advance (fmap_generator f src) = (\<lambda>c. map_rest (fmap_generator f) (advance_and_map f src c))"

text \<open>
  A consumer that advances at most \<open>n\<close> times and does \<open>work\<close> with each value: where it is in the
  end, the values and the exception it gets.
\<close>

fun consume :: "nat \<Rightarrow> ('v \<Rightarrow> 'c \<Rightarrow> 'c) \<Rightarrow> ('c, 'e, 'v) source \<Rightarrow> 'c \<Rightarrow> 'c \<times> 'v list \<times> 'e option" where
  "consume 0 work src c = (c, [], None)"
| "consume (Suc n) work src c =
     (case advance src c of
        (c1, Inl e) \<Rightarrow> (c1, [], Some e)
      | (c1, Inr None) \<Rightarrow> (c1, [], None)
      | (c1, Inr (Some (v, rest))) \<Rightarrow>
          (let (c2, vs, e) = consume n work rest (work v c1) in (c2, v # vs, e)))"

section \<open>on_scope_exit\<close>

text \<open>
  The guards of one \<open>on_scope_exit\<close>, in the order of their construction (\<open>None\<close>: destroyed; a guard
  that exists has its \<open>m_cancelled\<close>), and how often the function was called.
\<close>

record scoped_lambdas =
  m_cancelled :: "bool option list"
  calls :: nat

definition on_scope_exit :: scoped_lambdas where
  "on_scope_exit = \<lparr>m_cancelled = [Some False], calls = 0\<rparr>"

definition set_guard :: "nat \<Rightarrow> bool option \<Rightarrow> scoped_lambdas \<Rightarrow> scoped_lambdas" where
  "set_guard i b s = s\<lparr>m_cancelled := (m_cancelled s)[i := b]\<rparr>"

definition guard_cancel :: "nat \<Rightarrow> scoped_lambdas \<Rightarrow> scoped_lambdas" where
  "guard_cancel i s = set_guard i (Some True) s"

definition guard_call :: "scoped_lambdas \<Rightarrow> scoped_lambdas" where
  "guard_call s = s\<lparr>calls := Suc (calls s)\<rparr>"

definition guard_call_now :: "nat \<Rightarrow> scoped_lambdas \<Rightarrow> scoped_lambdas" where
  "guard_call_now i s = guard_call (set_guard i (Some True) s)"

definition guard_move :: "nat \<Rightarrow> bool \<Rightarrow> scoped_lambdas \<Rightarrow> scoped_lambdas" where
  "guard_move i cancelled s = guard_cancel i (s\<lparr>m_cancelled := m_cancelled s @ [Some cancelled]\<rparr>)"

definition guard_destruct :: "nat \<Rightarrow> bool \<Rightarrow> scoped_lambdas \<Rightarrow> scoped_lambdas" where
  "guard_destruct i cancelled s = set_guard i None (if \<not> cancelled then guard_call s else s)"

text \<open>conditional_scoped_lambda: whether its destructor calls the function.\<close>

record conditional_scoped_lambda =
  m_uncaught_exception_count :: int
  cond_cancelled :: bool

definition conditional_new :: "int \<Rightarrow> conditional_scoped_lambda" where
  "conditional_new uncaught = \<lparr>m_uncaught_exception_count = uncaught, cond_cancelled = False\<rparr>"

definition conditional_calls :: "bool \<Rightarrow> int \<Rightarrow> conditional_scoped_lambda \<Rightarrow> bool" where
  "conditional_calls call_on_failure uncaught g \<longleftrightarrow>
     \<not> cond_cancelled g \<and> (uncaught > m_uncaught_exception_count g) = call_on_failure"

inductive guard_run :: "bool \<Rightarrow> scoped_lambdas \<Rightarrow> bool" where
  gr_new: "guard_run False on_scope_exit"
| gr_move: "guard_run b s \<Longrightarrow> i < length (m_cancelled s) \<Longrightarrow> m_cancelled s ! i = Some cancelled \<Longrightarrow>
    guard_run b (guard_move i cancelled s)"
| gr_cancel: "guard_run b s \<Longrightarrow> i < length (m_cancelled s) \<Longrightarrow> m_cancelled s ! i = Some cancelled \<Longrightarrow>
    guard_run (b \<or> \<not> cancelled) (guard_cancel i s)"
| gr_call_now: "guard_run b s \<Longrightarrow> i < length (m_cancelled s) \<Longrightarrow> m_cancelled s ! i = Some False \<Longrightarrow>
    guard_run b (guard_call_now i s)"
| gr_destruct: "guard_run b s \<Longrightarrow> i < length (m_cancelled s) \<Longrightarrow> m_cancelled s ! i = Some cancelled \<Longrightarrow>
    guard_run b (guard_destruct i cancelled s)"

section \<open>Awaitables in sequence\<close>

lemma and_then_simps [simp]:
  "aw c = (c1, Inl e) \<Longrightarrow> and_then aw f c = (c1, Inl e)"
  "aw c = (c1, Inr v) \<Longrightarrow> and_then aw f c = f v c1"
  by (simp_all add: and_then_def)

lemma and_then_complete: "and_then aw (\<lambda>v. complete (Inr v)) = aw"
  by (auto simp: fun_eq_iff and_then_def complete_def split: prod.split sum.split)

lemma and_then_assoc: "and_then (and_then aw f) g = and_then aw (\<lambda>v. and_then (f v) g)"
  by (auto simp: fun_eq_iff and_then_def split: prod.split sum.split)

text \<open>
  resume_on schedules exactly once whether its awaitable returns or throws, and goes on in the
  context the scheduler chose with the awaitable's own outcome; only when scheduling itself throws is
  that exception the outcome. The overload for void does the same, although it has no flag.
\<close>
theorem resume_on_schedules_once:
  "resume_on schedule aw = (\<lambda>c. case aw c of (c1, r) \<Rightarrow> and_then schedule (\<lambda>_. complete r) c1) \<and>
   resume_on_void schedule aw' = resume_on schedule aw'"
  by (auto simp: fun_eq_iff resume_on_def resume_on_try_def resume_on_void_def and_then_def complete_def
      split: prod.split sum.split)

lemma co_await_fmap: "co_await wait (fmap_awaiter f a) = and_then (co_await wait a) f"
  by (auto simp: fun_eq_iff co_await_def fmap_awaiter_def and_then_def split: prod.split sum.split)

lemma co_await_fmap_void: "co_await wait (fmap_void_awaiter h u) = and_then (co_await wait u) (\<lambda>_. h)"
  by (auto simp: fun_eq_iff co_await_def fmap_void_awaiter_def and_then_def split: prod.split sum.split)

text \<open>
  Awaiting what fmap makes of an awaiter is awaiting the awaiter and then calling the function on
  its result, with the same suspension; an exception of the awaiter skips the function. So mapping
  twice is mapping the composition.
\<close>
theorem fmap_awaits:
  fixes wait :: "'c \<Rightarrow> 'c" and a :: "('c, 'e, 'v) awaiter" and f :: "'v \<Rightarrow> ('c, 'e, 'w) awaitable"
    and g :: "'w \<Rightarrow> ('c, 'e, 'x) awaitable" and u :: "('c, 'e, unit) awaiter" and h :: "('c, 'e, 'y) awaitable"
  shows "co_await wait (fmap_awaiter f a) = and_then (co_await wait a) f \<and>
   co_await wait (fmap_void_awaiter h u) = and_then (co_await wait u) (\<lambda>_. h) \<and>
   co_await wait (fmap_awaiter g (fmap_awaiter f a)) = co_await wait (fmap_awaiter (\<lambda>v. and_then (f v) g) a)"
  by (simp add: co_await_fmap co_await_fmap_void and_then_assoc)

section \<open>Where things run\<close>

text \<open>A scheduler leads to a set of contexts, such as those in which a thread of its pool runs.\<close>

definition leads_to :: "('c, 'e) scheduler \<Rightarrow> 'c set \<Rightarrow> bool" where
  "leads_to schedule S \<longleftrightarrow> (\<forall>c c1 u. schedule c = (c1, Inr u) \<longrightarrow> c1 \<in> S)"

lemma and_then_cong:
  "leads_to schedule S \<Longrightarrow> (\<And>c. c \<in> S \<Longrightarrow> f c = g c) \<Longrightarrow> and_then schedule (\<lambda>_. f) = and_then schedule (\<lambda>_. g)"
  by (auto simp: fun_eq_iff and_then_def leads_to_def split: prod.split sum.split)

text \<open>Two sources that cannot be told apart as long as they are advanced in a context of \<open>S\<close>.\<close>

coinductive agree_on :: "'c set \<Rightarrow> ('c, 'e, 'v) source \<Rightarrow> ('c, 'e, 'v) source \<Rightarrow> bool" for S where
  agree_onI: "(\<And>c. c \<in> S \<Longrightarrow> rel_prod (=) (rel_sum (=) (rel_option (rel_prod (=) (agree_on S)))) (advance a c) (advance b c)) \<Longrightarrow>
    agree_on S a b"
  monos prod.rel_mono sum.rel_mono option.rel_mono

lemma agree_onD:
  "agree_on S a b \<Longrightarrow> c \<in> S \<Longrightarrow> rel_prod (=) (rel_sum (=) (rel_option (rel_prod (=) (agree_on S)))) (advance a c) (advance b c)"
  by (erule agree_on.cases) blast

lemma schedule_on_generator_agree:
  assumes "leads_to schedule S" "agree_on S a b"
  shows "schedule_on_generator schedule a = schedule_on_generator schedule b"
  using assms(2)
proof (coinduction arbitrary: a b)
  case Eq_source
  let ?R = "\<lambda>x y. \<exists>a b. x = schedule_on_generator schedule a \<and> y = schedule_on_generator schedule b \<and> agree_on S a b"
  have "rel_prod (=) (rel_sum (=) (rel_option (rel_prod (=) ?R)))
      (advance (schedule_on_generator schedule a) c) (advance (schedule_on_generator schedule b) c)" for c
  proof (cases "schedule c")
    case (Pair c1 r)
    show ?thesis
    proof (cases r)
      case (Inr u)
      then have "c1 \<in> S" using assms(1) Pair by (auto simp: leads_to_def)
      then have "rel_prod (=) (rel_sum (=) (rel_option (rel_prod (=) (agree_on S)))) (advance a c1) (advance b c1)"
        by (rule agree_onD [OF Eq_source])
      then obtain c2 ra rb where ab: "advance a c1 = (c2, ra)" "advance b c1 = (c2, rb)"
        and rel: "rel_sum (=) (rel_option (rel_prod (=) (agree_on S))) ra rb"
        by (cases "advance a c1"; cases "advance b c1") auto
      have "rel_sum (=) (rel_option (rel_prod (=) ?R)) (map_sum id (map_option (map_prod id (schedule_on_generator schedule))) ra)
          (map_sum id (map_option (map_prod id (schedule_on_generator schedule))) rb)"
        unfolding sum.rel_map option.rel_map prod.rel_map
        by (rule sum.rel_mono_strong [OF rel], simp, rule option.rel_mono_strong, assumption, rule prod.rel_mono_strong) (auto, blast)
      then show ?thesis by (simp add: Pair Inr ab)
    qed (simp add: Pair)
  qed
  then show ?case by (simp add: rel_fun_def)
qed

lemma consume_resumed_agree:
  assumes "leads_to schedule S" "\<And>v c. c \<in> S \<Longrightarrow> work v c = work' v c"
  shows "consume n work (resume_on_generator schedule src) c = consume n work' (resume_on_generator schedule src) c"
proof (induction n arbitrary: src c)
  case (Suc n)
  have "\<exists>c1 r. advance_and_schedule schedule src c = (c1, r) \<and> (\<forall>v rest. r = Inr (Some (v, rest)) \<longrightarrow> c1 \<in> S)"
    using assms(1) by (auto simp: advance_and_schedule_def and_then_def complete_def leads_to_def
        split: prod.split sum.split option.split)
  then obtain c1 r where adv: "advance_and_schedule schedule src c = (c1, r)" "\<forall>v rest. r = Inr (Some (v, rest)) \<longrightarrow> c1 \<in> S"
    by blast
  show ?case
    using adv assms(2) Suc by (cases r rule: sum.exhaust; cases "projr r") (auto split: option.split)
qed simp

text \<open>
  schedule_on resumes a generator only where the scheduler leads to, so what the generator would
  do elsewhere makes no difference; resume_on hands every value to the consumer there, so what the
  consumer would do with a value elsewhere makes no difference. For schedule_on and an awaitable
  likewise.
\<close>
theorem scheduled_runs_on_scheduler:
  assumes "leads_to schedule S" "agree_on S src src'" "\<And>c. c \<in> S \<Longrightarrow> aw c = aw' c"
    "\<And>v c. c \<in> S \<Longrightarrow> work v c = work' v c"
  shows "schedule_on_generator schedule src = schedule_on_generator schedule src' \<and>
    schedule_on schedule aw = schedule_on schedule aw' \<and>
    consume n work (resume_on_generator schedule other) c = consume n work' (resume_on_generator schedule other) c"
  using schedule_on_generator_agree [OF assms(1,2)] consume_resumed_agree [OF assms(1,4)] and_then_cong [OF assms(1,3)]
  by (simp add: schedule_on_def)

text \<open>
  The hypotheses hold: contexts are numbers, the scheduler leads to context 1, a generator that
  yields its context and one that yields 1 agree there, and so do the identity and the constant 1.
\<close>

definition one_value :: "(nat \<Rightarrow> 'v) \<Rightarrow> (nat, 'e, 'v) source" where
  "one_value v = Source (\<lambda>c. (c, Inr (Some (v c, Source (\<lambda>c. (c, Inr None))))))"

definition to_one :: "(nat, string) scheduler" where
  "to_one c = (1, Inr ())"

theorem scheduled_runs_on_scheduler_witness:
  "schedule_on_generator to_one (one_value id) = schedule_on_generator to_one (one_value (\<lambda>_. 1)) \<and>
   schedule_on to_one (\<lambda>c. (c, Inr c)) = schedule_on to_one (\<lambda>c. (c, Inr 1)) \<and>
   consume 2 (\<lambda>_. id) (resume_on_generator to_one (one_value id)) 0 =
     consume 2 (\<lambda>_ _. 1) (resume_on_generator to_one (one_value id)) 0"
proof (rule scheduled_runs_on_scheduler [where S = "{1}"])
  have finished: "agree_on {1} (Source (\<lambda>c. (c, Inr None))) (Source (\<lambda>c. (c, Inr None)))"
    by (rule agree_onI) simp
  show "agree_on {1} (one_value id) (one_value (\<lambda>_. 1))"
    by (rule agree_onI) (use finished in \<open>simp add: one_value_def del: One_nat_def\<close>)
qed (simp_all add: leads_to_def to_one_def)

section \<open>fmap over generators\<close>

lemma advance_and_map_eq:
  "advance_and_map f src c =
     (case advance src c of
        (c1, Inl e) \<Rightarrow> (c1, Inl e)
      | (c1, Inr None) \<Rightarrow> (c1, Inr None)
      | (c1, Inr (Some (v, rest))) \<Rightarrow>
          (case f v c1 of (c2, Inl e) \<Rightarrow> (c2, Inl e) | (c2, Inr w) \<Rightarrow> (c2, Inr (Some (w, rest)))))"
  by (simp add: advance_and_map_def and_then_def complete_def split: prod.split sum.split option.split)

text \<open>
  Mapping the function that returns its argument leaves a generator as it is, and mapping one
  function after the other is mapping the functions in sequence: order, exceptions and the contexts in
  which the functions run included.
\<close>
theorem fmap_generator_laws:
  "fmap_generator (\<lambda>v. complete (Inr v)) src = src \<and>
   fmap_generator g (fmap_generator f src) = fmap_generator (\<lambda>v. and_then (f v) g) src"
proof
  show "fmap_generator (\<lambda>v. complete (Inr v)) src = src"
  proof (coinduction arbitrary: src)
    case Eq_source
    have "rel_prod (=) (rel_sum (=) (rel_option (rel_prod (=) (\<lambda>x y. \<exists>src. x = fmap_generator (\<lambda>v. complete (Inr v)) src \<and> y = src))))
        (advance (fmap_generator (\<lambda>v. complete (Inr v)) src) c) (advance src c)" for c
      by (simp add: advance_and_map_eq complete_def split: prod.split sum.split option.split)
    then show ?case by (simp add: rel_fun_def)
  qed
  show "fmap_generator g (fmap_generator f src) = fmap_generator (\<lambda>v. and_then (f v) g) src"
  proof (coinduction arbitrary: src)
    case Eq_source
    let ?R = "\<lambda>x y. \<exists>src. x = fmap_generator g (fmap_generator f src) \<and> y = fmap_generator (\<lambda>v. and_then (f v) g) src"
    have "rel_prod (=) (rel_sum (=) (rel_option (rel_prod (=) ?R)))
        (advance (fmap_generator g (fmap_generator f src)) c) (advance (fmap_generator (\<lambda>v. and_then (f v) g) src) c)" for c
      by (auto simp: advance_and_map_eq and_then_def complete_def split: prod.split sum.split option.split)
    then show ?case by (simp add: rel_fun_def)
  qed
qed

section \<open>Scope guards\<close>

lemma count_list_update:
  "i < length xs \<Longrightarrow> count_list (xs[i := v]) a + (if xs ! i = a then 1 else 0) = count_list xs a + (if v = a then 1 else 0)"
proof (induction xs arbitrary: i)
  case (Cons x xs)
  show ?case
  proof (cases i)
    case (Suc j)
    then show ?thesis using Cons.prems Cons.IH [of j] by (auto split: if_splits)
  qed simp
qed simp

lemma count_list_snoc: "count_list (xs @ [x]) a = count_list xs a + (if x = a then 1 else 0)"
  by (induction xs) simp_all

text \<open>
  However the guard of on_scope_exit is moved, cancelled, called and destroyed, at most one guard
  is active, and the function has been called once when none is, unless the active one was cancelled:
  then never.
\<close>
theorem scope_exit_runs_once:
  "guard_run b s \<Longrightarrow> count_list (m_cancelled s) (Some False) + calls s = (if b then 0 else 1)"
proof (induction rule: guard_run.induct)
  case (gr_move b s i cancelled)
  then show ?case
    using count_list_update [of i "m_cancelled s @ [Some cancelled]" "Some True" "Some False"]
    by (simp add: guard_move_def guard_cancel_def set_guard_def count_list_snoc nth_append split: if_splits)
next
  case (gr_cancel b s i cancelled)
  then show ?case
    using count_list_update [of i "m_cancelled s" "Some True" "Some False"]
    by (auto simp: guard_cancel_def set_guard_def split: if_splits)
next
  case (gr_call_now b s i)
  then show ?case
    using count_list_update [of i "m_cancelled s" "Some True" "Some False"]
    by (simp add: guard_call_now_def guard_call_def set_guard_def split: if_splits)
next
  case (gr_destruct b s i cancelled)
  then show ?case
    using count_list_update [of i "m_cancelled s" None "Some False"]
    by (simp add: guard_destruct_def guard_call_def set_guard_def split: if_splits)
qed (simp add: on_scope_exit_def)

theorem scope_exit_runs_once_witness:
  "count_list (m_cancelled (guard_destruct 1 False (guard_move 0 False on_scope_exit))) (Some False) +
     calls (guard_destruct 1 False (guard_move 0 False on_scope_exit)) = 1"
proof -
  have "guard_run False (guard_move 0 False on_scope_exit)"
    by (rule gr_move [OF gr_new]) (simp_all add: on_scope_exit_def)
  then have "guard_run False (guard_destruct 1 False (guard_move 0 False on_scope_exit))"
    by (rule gr_destruct) (simp_all add: guard_move_def guard_cancel_def set_guard_def on_scope_exit_def)
  from scope_exit_runs_once [OF this] show ?thesis by simp
qed

text \<open>
  When no guard is cancelled, exactly one of on_scope_failure and on_scope_success calls its
  function, whatever happened in between.
\<close>
theorem failure_xor_success:
  "conditional_calls True uncaught (conditional_new before) \<longleftrightarrow> \<not> conditional_calls False uncaught (conditional_new before)"
  by (simp add: conditional_calls_def conditional_new_def)

end
