(* ===== verification/Owning_Handles.thy ===== *)
theory Owning_Handles
  imports Coro_Prelude
begin

text \<open>
  The classes that own a coroutine or a file descriptor through one handle that is moved and never
  copied: task, generator, recursive_generator and async_generator (include/coro/types), safe_fd
  (include/coro/detail/macos.h) and socket (include/coro/net/socket.h). Objects and resources are
  numbered; resource 0 stands for the empty handle (a null handle, or the descriptor -1).
  Destroying a resource that is not live is \<open>None\<close>.
\<close>

section \<open>Objects and resources\<close>

datatype status = Unborn | Live | Destroyed

record store =
  handle_of :: "nat \<Rightarrow> nat"
  status :: "nat \<Rightarrow> status"

definition store_new :: store where
  "store_new = \<lparr>handle_of = (\<lambda>_. 0), status = (\<lambda>_. Unborn)\<rparr>"

definition set_handle :: "nat \<Rightarrow> nat \<Rightarrow> store \<Rightarrow> store" where
  "set_handle i p s = s\<lparr>handle_of := (handle_of s)(i := p)\<rparr>"

definition release :: "nat \<Rightarrow> store \<Rightarrow> store option" where
  "release p s = (if status s p = Live then Some (s\<lparr>status := (status s)(p := Destroyed)\<rparr>) else None)"

definition release_held :: "nat \<Rightarrow> store \<Rightarrow> store option" where
  "release_held i s = (if handle_of s i \<noteq> 0 then release (handle_of s i) s else Some s)"

definition swap_handles :: "nat \<Rightarrow> nat \<Rightarrow> store \<Rightarrow> store" where
  "swap_handles i j s = s\<lparr>handle_of := (handle_of s)(i := handle_of s j, j := handle_of s i)\<rparr>"

text \<open>A new coroutine or descriptor, for an object that holds none.\<close>

definition create :: "nat \<Rightarrow> nat \<Rightarrow> store \<Rightarrow> store" where
  "create i p s = set_handle i p (s\<lparr>status := (status s)(p := Live)\<rparr>)"

section \<open>The classes\<close>

text \<open>The move constructor is the same in all of them; so is what the destructor does.\<close>

definition move_construct :: "nat \<Rightarrow> nat \<Rightarrow> store \<Rightarrow> store" where
  "move_construct i j s = set_handle j 0 (set_handle i (handle_of s j) s)"

definition destruct :: "nat \<Rightarrow> store \<Rightarrow> store option" where
  "destruct i s = map_option (set_handle i 0) (release_held i s)"

text \<open>\<open>tmp\<close> is the temporary or by-value parameter of an assignment, which holds nothing before.\<close>

definition task_assign :: "nat \<Rightarrow> nat \<Rightarrow> nat \<Rightarrow> store \<Rightarrow> store option" where
  "task_assign tmp i j s =
     (if i \<noteq> j then map_option (\<lambda>s1. set_handle j 0 (set_handle i (handle_of s1 j) s1)) (release_held i s) else Some s)"

definition recursive_generator_assign :: "nat \<Rightarrow> nat \<Rightarrow> nat \<Rightarrow> store \<Rightarrow> store option" where
  "recursive_generator_assign tmp i j s =
     (if i \<noteq> j then map_option (\<lambda>s1. set_handle j 0 (set_handle i (handle_of s1 j) s1)) (release_held i s) else Some s)"

definition async_generator_assign :: "nat \<Rightarrow> nat \<Rightarrow> nat \<Rightarrow> store \<Rightarrow> store option" where
  "async_generator_assign tmp i j s = destruct tmp (swap_handles i tmp (move_construct tmp j s))"

definition safe_fd_assign :: "nat \<Rightarrow> nat \<Rightarrow> nat \<Rightarrow> store \<Rightarrow> store option" where
  "safe_fd_assign tmp i j s = destruct tmp (swap_handles i tmp (move_construct tmp j s))"

definition generator_assign :: "nat \<Rightarrow> nat \<Rightarrow> nat \<Rightarrow> store \<Rightarrow> store option" where
  "generator_assign tmp i j s = destruct tmp (swap_handles i tmp (move_construct tmp j s))"

definition socket_assign :: "nat \<Rightarrow> nat \<Rightarrow> nat \<Rightarrow> store \<Rightarrow> store option" where
  "socket_assign tmp i j s =
     (let handle = handle_of s j; s1 = set_handle j 0 s
      in map_option (set_handle i handle) (release_held i s1))"

text \<open>
  The second assignment of generator, from an rvalue reference, and what socket_disconnect_operation does with the descriptor.\<close>

definition generator_move_assign :: "nat \<Rightarrow> nat \<Rightarrow> store \<Rightarrow> store option" where
  "generator_move_assign i j s = Some (set_handle j 0 (set_handle i (handle_of s j) s))"

definition socket_disconnect :: "nat \<Rightarrow> store \<Rightarrow> store option" where
  "socket_disconnect i s = release (handle_of s i) s"

section \<open>Ownership\<close>

text \<open>A resource is live exactly when some object holds it, and no two objects hold the same.\<close>

definition owned :: "store \<Rightarrow> bool" where
  "owned s \<longleftrightarrow> (\<forall>p. p \<noteq> 0 \<longrightarrow> (status s p = Live \<longleftrightarrow> (\<exists>i. handle_of s i = p))) \<and>
     (\<forall>i j. handle_of s i = handle_of s j \<and> handle_of s i \<noteq> 0 \<longrightarrow> i = j)"

text \<open>
  What a program does with objects of a class whose assignment is \<open>assign\<close> and whose second assignment,
  if it has one, is \<open>move_assign\<close>. \<open>drops\<close> says whether the second one may be applied to an object that
  holds a resource.
\<close>

inductive handle_step ::
    "(nat \<Rightarrow> nat \<Rightarrow> nat \<Rightarrow> store \<Rightarrow> store option) \<Rightarrow> (nat \<Rightarrow> nat \<Rightarrow> store \<Rightarrow> store option) option \<Rightarrow> bool \<Rightarrow>
     store \<Rightarrow> store option \<Rightarrow> bool" for assign move_assign drops where
  hd_create: "handle_of s i = 0 \<Longrightarrow> p \<noteq> 0 \<Longrightarrow> status s p = Unborn \<Longrightarrow>
    handle_step assign move_assign drops s (Some (create i p s))"
| hd_move: "handle_of s i = 0 \<Longrightarrow> i \<noteq> j \<Longrightarrow> handle_step assign move_assign drops s (Some (move_construct i j s))"
| hd_assign: "handle_of s tmp = 0 \<Longrightarrow> tmp \<noteq> i \<Longrightarrow> tmp \<noteq> j \<Longrightarrow>
    handle_step assign move_assign drops s (assign tmp i j s)"
| hd_move_assign: "move_assign = Some f \<Longrightarrow> drops \<or> handle_of s i = 0 \<Longrightarrow>
    handle_step assign move_assign drops s (f i j s)"
| hd_destruct: "handle_step assign move_assign drops s (destruct i s)"

inductive handle_run ::
    "(nat \<Rightarrow> nat \<Rightarrow> nat \<Rightarrow> store \<Rightarrow> store option) \<Rightarrow> (nat \<Rightarrow> nat \<Rightarrow> store \<Rightarrow> store option) option \<Rightarrow> bool \<Rightarrow>
     store option \<Rightarrow> bool" for assign move_assign drops where
  hr_start: "handle_run assign move_assign drops (Some store_new)"
| hr_step: "handle_run assign move_assign drops (Some s) \<Longrightarrow> handle_step assign move_assign drops s s' \<Longrightarrow>
    handle_run assign move_assign drops s'"

text \<open>
  What an assignment promises: the assigned object gets the other's resource, its own is destroyed;
  nothing else changes, and a self-assignment changes nothing. The second assignment promises that much
  only of an object that holds nothing.
\<close>

locale owning_assignment =
  fixes assign :: "nat \<Rightarrow> nat \<Rightarrow> nat \<Rightarrow> store \<Rightarrow> store option"
    and move_assign :: "(nat \<Rightarrow> nat \<Rightarrow> store \<Rightarrow> store option) option"
  assumes assign_other: "owned s \<Longrightarrow> handle_of s tmp = 0 \<Longrightarrow> tmp \<noteq> i \<Longrightarrow> tmp \<noteq> j \<Longrightarrow> i \<noteq> j \<Longrightarrow>
      assign tmp i j s = map_option (move_construct i j) (destruct i s)"
    and assign_self: "owned s \<Longrightarrow> handle_of s tmp = 0 \<Longrightarrow> tmp \<noteq> i \<Longrightarrow> assign tmp i i s = Some s"
    and move_assign_empty: "move_assign = Some f \<Longrightarrow> handle_of s i = 0 \<Longrightarrow>
      f i j s = Some (if i = j then s else move_construct i j s)"

lemma owned_status: "owned s \<Longrightarrow> p \<noteq> 0 \<Longrightarrow> status s p = Live \<longleftrightarrow> (\<exists>i. handle_of s i = p)"
  unfolding owned_def by blast

lemma owned_live: "owned s \<Longrightarrow> handle_of s i \<noteq> 0 \<Longrightarrow> status s (handle_of s i) = Live"
  unfolding owned_def by blast

lemma owned_unique: "owned s \<Longrightarrow> handle_of s i = handle_of s j \<Longrightarrow> handle_of s i \<noteq> 0 \<Longrightarrow> i = j"
  unfolding owned_def by blast

lemma ownedI:
  assumes "\<And>p. p \<noteq> 0 \<Longrightarrow> status s p = Live \<longleftrightarrow> (\<exists>i. handle_of s i = p)"
    "\<And>i j. handle_of s i = handle_of s j \<Longrightarrow> handle_of s i \<noteq> 0 \<Longrightarrow> i = j"
  shows "owned s"
  using assms unfolding owned_def by blast

lemma owned_destruct:
  assumes own: "owned s"
  shows "\<exists>t. destruct i s = Some t \<and> owned t \<and> handle_of t = (handle_of s)(i := 0)"
proof (cases "handle_of s i = 0")
  case True
  then show ?thesis using own by (simp add: destruct_def release_held_def set_handle_def fun_upd_idem)
next
  case False
  let ?t = "set_handle i 0 (s\<lparr>status := (status s)(handle_of s i := Destroyed)\<rparr>)"
  have "destruct i s = Some ?t"
    using owned_live [OF own False] False by (simp add: destruct_def release_held_def release_def)
  moreover have "owned ?t"
  proof (rule ownedI)
    fix p :: nat assume p: "p \<noteq> 0"
    have "(\<exists>k. handle_of ?t k = p) \<longleftrightarrow> p \<noteq> handle_of s i \<and> (\<exists>k. handle_of s k = p)"
    proof
      assume "p \<noteq> handle_of s i \<and> (\<exists>k. handle_of s k = p)"
      then obtain k where "handle_of s k = p" "k \<noteq> i" by blast
      then show "\<exists>k. handle_of ?t k = p" by (intro exI [of _ k]) (simp add: set_handle_def)
    qed (use owned_unique [OF own, of _ i] p False in \<open>auto simp: set_handle_def split: if_splits\<close>)
    then show "status ?t p = Live \<longleftrightarrow> (\<exists>k. handle_of ?t k = p)"
      using owned_status [OF own p] by (simp add: set_handle_def)
  next
    fix j k assume "handle_of ?t j = handle_of ?t k" "handle_of ?t j \<noteq> 0"
    then show "j = k" using owned_unique [OF own, of j k] by (auto simp: set_handle_def split: if_splits)
  qed
  ultimately show ?thesis by (simp add: set_handle_def)
qed

lemma owned_move:
  assumes own: "owned s" and i: "handle_of s i = 0" "i \<noteq> j"
  shows "owned (move_construct i j s)"
proof (rule ownedI)
  let ?t = "move_construct i j s"
  have h: "handle_of ?t k = (if k = j then 0 else if k = i then handle_of s j else handle_of s k)" for k
    by (simp add: move_construct_def set_handle_def)
  fix p :: nat assume p: "p \<noteq> 0"
  have "(\<exists>k. handle_of ?t k = p) \<longleftrightarrow> (\<exists>k. handle_of s k = p)"
  proof
    assume "\<exists>k. handle_of s k = p"
    then obtain k where "handle_of s k = p" by blast
    then have "handle_of ?t (if k = j then i else k) = p" using i p h by auto
    then show "\<exists>k. handle_of ?t k = p" by blast
  next
    assume "\<exists>k. handle_of ?t k = p"
    then obtain k where "handle_of ?t k = p" by blast
    then have "handle_of s (if k = i then j else k) = p" using p h [of k] by (cases "k = j"; cases "k = i") simp_all
    then show "\<exists>k. handle_of s k = p" by blast
  qed
  then show "status ?t p = Live \<longleftrightarrow> (\<exists>k. handle_of ?t k = p)"
    using owned_status [OF own p] by (simp add: move_construct_def set_handle_def)
next
  fix k l assume eq: "handle_of (move_construct i j s) k = handle_of (move_construct i j s) l"
    "handle_of (move_construct i j s) k \<noteq> 0"
  have h: "handle_of (move_construct i j s) k = (if k = j then 0 else if k = i then handle_of s j else handle_of s k)" for k
    by (simp add: move_construct_def set_handle_def)
  have "k \<noteq> j" using eq(2) h [of k] by (cases "k = j") simp_all
  then have kv: "handle_of (move_construct i j s) k = handle_of s (if k = i then j else k)" using h [of k] by simp
  then have "l \<noteq> j" using eq h [of l] by (cases "l = j") simp_all
  then have lv: "handle_of (move_construct i j s) l = handle_of s (if l = i then j else l)" using h [of l] by simp
  have "(if k = i then j else k) = (if l = i then j else l)"
    by (rule owned_unique [OF own]) (use eq kv lv in simp_all)
  then show "k = l" using \<open>k \<noteq> j\<close> \<open>l \<noteq> j\<close> by (cases "k = i"; cases "l = i") simp_all
qed

lemma owned_create:
  assumes own: "owned s" and i: "handle_of s i = 0" and p: "p \<noteq> 0" "status s p = Unborn"
  shows "owned (create i p s)"
proof (rule ownedI)
  have np: "handle_of s k \<noteq> p" for k using own p unfolding owned_def by (metis status.distinct(1))
  fix q :: nat assume q: "q \<noteq> 0"
  have "(\<exists>k. handle_of (create i p s) k = q) \<longleftrightarrow> q = p \<or> (\<exists>k. handle_of s k = q)"
  proof
    assume "q = p \<or> (\<exists>k. handle_of s k = q)"
    then consider "q = p" | k where "handle_of s k = q" by blast
    then show "\<exists>k. handle_of (create i p s) k = q"
    proof cases
      case 1
      then show ?thesis by (intro exI [of _ i]) (simp add: create_def set_handle_def)
    next
      case (2 k)
      then have "k \<noteq> i" using i q by (cases "k = i") simp_all
      with 2 show ?thesis by (intro exI [of _ k]) (simp add: create_def set_handle_def)
    qed
  qed (auto simp: create_def set_handle_def split: if_splits)
  then show "status (create i p s) q = Live \<longleftrightarrow> (\<exists>k. handle_of (create i p s) k = q)"
    using owned_status [OF own q] by (simp add: create_def set_handle_def)
next
  fix k l assume eq: "handle_of (create i p s) k = handle_of (create i p s) l" "handle_of (create i p s) k \<noteq> 0"
  have np: "handle_of s k \<noteq> p" for k using own p unfolding owned_def by (metis status.distinct(1))
  have h: "handle_of (create i p s) k = (if k = i then p else handle_of s k)" for k
    by (simp add: create_def set_handle_def)
  show "k = l"
  proof (cases "k = i \<or> l = i")
    case True
    then show ?thesis using eq(1) np [of k] np [of l] h [of k] h [of l] by (cases "k = i"; cases "l = i") simp_all
  next
    case False
    then have "handle_of s k = handle_of s l" "handle_of s k \<noteq> 0" using eq h [of k] h [of l] by simp_all
    then show ?thesis by (rule owned_unique [OF own])
  qed
qed

context owning_assignment
begin

lemma run_owned:
  assumes "handle_run assign move_assign drops h" "drops \<longrightarrow> move_assign = None"
  shows "\<exists>s. h = Some s \<and> owned s"
  using assms
proof (induction rule: handle_run.induct)
  case hr_start
  then show ?case by (simp add: owned_def store_new_def)
next
  case (hr_step s s')
  then have own: "owned s" by simp
  from hr_step.hyps(2) show ?case
  proof cases
    case (hd_move_assign f i j)
    then have "s' = Some (if i = j then s else move_construct i j s)" "handle_of s i = 0"
      using move_assign_empty hr_step.prems by auto
    then show ?thesis using own owned_move [OF own, of i j] by simp
  next
    case (hd_assign tmp i j)
    then show ?thesis
    proof (cases "i = j")
      case False
      obtain t where "destruct i s = Some t" "owned t" "handle_of t = (handle_of s)(i := 0)"
        using owned_destruct [OF own] by blast
      then show ?thesis using assign_other [OF own hd_assign(2,3,4) False] owned_move [of t i j] False hd_assign(1) by simp
    qed (use assign_self [OF own] own in simp)
  qed (use own owned_create owned_move owned_destruct in blast)+
qed

end

section \<open>The classes keep the promise\<close>

lemma destruct_empty: "handle_of s i = 0 \<Longrightarrow> destruct i s = Some s"
  by (simp add: destruct_def release_held_def set_handle_def fun_upd_idem)

lemma destruct_cases:
  assumes "owned s"
  shows "destruct i s = Some (set_handle i 0 (if handle_of s i = 0 then s else s\<lparr>status := (status s)(handle_of s i := Destroyed)\<rparr>))"
  using owned_live [OF assms, of i] by (simp add: destruct_def release_held_def release_def)

lemmas handle_ops = destruct_cases release_held_def release_def move_construct_def swap_handles_def set_handle_def

interpretation task_owner: owning_assignment task_assign None
  by unfold_locales (auto simp: task_assign_def handle_ops owned_live fun_eq_iff)

interpretation recursive_generator_owner: owning_assignment recursive_generator_assign None
  by unfold_locales (auto simp: recursive_generator_assign_def handle_ops owned_live fun_eq_iff)

interpretation socket_owner: owning_assignment socket_assign None
  by unfold_locales (auto simp: socket_assign_def Let_def handle_ops owned_live fun_eq_iff fun_upd_idem)

text \<open>The three that swap with a temporary do the same.\<close>

lemma swap_assign_other:
  assumes own: "owned s" and tmp: "handle_of s tmp = 0" "tmp \<noteq> i" "tmp \<noteq> j" and ij: "i \<noteq> j"
  shows "destruct tmp (swap_handles i tmp (move_construct tmp j s)) = map_option (move_construct i j) (destruct i s)"
proof (cases "handle_of s i = 0")
  case False
  then show ?thesis using tmp ij owned_live [OF own False]
    by (simp add: destruct_def release_held_def release_def move_construct_def swap_handles_def set_handle_def fun_eq_iff)
qed (use tmp ij in \<open>simp add: destruct_def release_held_def move_construct_def swap_handles_def set_handle_def fun_eq_iff\<close>)

lemma swap_assign_self:
  assumes "handle_of s tmp = 0" "tmp \<noteq> i"
  shows "destruct tmp (swap_handles i tmp (move_construct tmp i s)) = Some s"
proof -
  have "swap_handles i tmp (move_construct tmp i s) = s"
    using assms by (simp add: move_construct_def swap_handles_def set_handle_def fun_upd_twist fun_upd_idem)
  then show ?thesis using destruct_empty assms(1) by simp
qed

interpretation async_generator_owner: owning_assignment async_generator_assign None
  by unfold_locales (simp_all add: async_generator_assign_def swap_assign_other swap_assign_self)

interpretation safe_fd_owner: owning_assignment safe_fd_assign None
  by unfold_locales (simp_all add: safe_fd_assign_def swap_assign_other swap_assign_self)

lemma generator_move_assign_empty:
  "handle_of s i = 0 \<Longrightarrow> generator_move_assign i j s = Some (if i = j then s else move_construct i j s)"
  by (auto simp: generator_move_assign_def move_construct_def set_handle_def fun_upd_idem)

interpretation generator_owner: owning_assignment generator_assign "Some generator_move_assign"
  by unfold_locales (auto simp: generator_assign_def swap_assign_other swap_assign_self generator_move_assign_empty)

datatype owner_class = Task_class | Generator_class | Recursive_generator_class | Async_generator_class
  | Safe_fd_class | Socket_class

primrec class_assign :: "owner_class \<Rightarrow> nat \<Rightarrow> nat \<Rightarrow> nat \<Rightarrow> store \<Rightarrow> store option" where
  "class_assign Task_class = task_assign"
| "class_assign Generator_class = generator_assign"
| "class_assign Recursive_generator_class = recursive_generator_assign"
| "class_assign Async_generator_class = async_generator_assign"
| "class_assign Safe_fd_class = safe_fd_assign"
| "class_assign Socket_class = socket_assign"

primrec class_move_assign :: "owner_class \<Rightarrow> (nat \<Rightarrow> nat \<Rightarrow> store \<Rightarrow> store option) option" where
  "class_move_assign Task_class = None"
| "class_move_assign Generator_class = Some generator_move_assign"
| "class_move_assign Recursive_generator_class = None"
| "class_move_assign Async_generator_class = None"
| "class_move_assign Safe_fd_class = None"
| "class_move_assign Socket_class = None"

abbreviation class_run :: "owner_class \<Rightarrow> bool \<Rightarrow> store option \<Rightarrow> bool" where
  "class_run c \<equiv> handle_run (class_assign c) (class_move_assign c)"

text \<open>
  The second assignment of generator drops the coroutine its target holds: afterwards the coroutine
  is live and no object holds it.
\<close>

lemma generator_move_assign_leaks:
  "owned s \<Longrightarrow> handle_of s i \<noteq> 0 \<Longrightarrow> i \<noteq> j \<Longrightarrow>
   \<exists>t. generator_move_assign i j s = Some t \<and> status t (handle_of s i) = Live \<and> \<not> (\<exists>k. handle_of t k = handle_of s i)"
proof -
  assume own: "owned s" and held: "handle_of s i \<noteq> 0" and ij: "i \<noteq> j"
  let ?t = "set_handle j 0 (set_handle i (handle_of s j) s)"
  have "handle_of ?t k \<noteq> handle_of s i" for k
  proof (cases "k = j \<or> k = i")
    case True
    then show ?thesis using held ij owned_unique [OF own, of i j] by (auto simp: set_handle_def)
  next
    case False
    then show ?thesis using held owned_unique [OF own, of i k] by (auto simp: set_handle_def)
  qed
  then show ?thesis using owned_live [OF own held] by (simp add: generator_move_assign_def) (simp add: set_handle_def)
qed

definition leaked :: "store \<Rightarrow> nat \<Rightarrow> bool" where
  "leaked s p \<longleftrightarrow> p \<noteq> 0 \<and> status s p = Live \<and> (\<forall>k. handle_of s k \<noteq> p)"

lemma class_run_owned: "class_run c drops h \<Longrightarrow> drops \<longrightarrow> c \<noteq> Generator_class \<Longrightarrow> \<exists>s. h = Some s \<and> owned s"
  by (cases c) (auto dest: task_owner.run_owned generator_owner.run_owned recursive_generator_owner.run_owned
      async_generator_owner.run_owned safe_fd_owner.run_owned socket_owner.run_owned)

lemma generator_run_leaks: "\<exists>s p. class_run Generator_class True (Some s) \<and> leaked s p"
proof -
  let ?s = "create 1 4 store_new"
  have run: "class_run Generator_class True (Some ?s)"
    by (rule hr_step [OF hr_start hd_create]) (simp_all add: store_new_def)
  have held: "owned ?s" "handle_of ?s 1 = 4"
    by (rule owned_create) (simp_all add: store_new_def owned_def create_def set_handle_def)
  then obtain t where t: "generator_move_assign 1 2 ?s = Some t" "leaked t 4"
    using generator_move_assign_leaks [of ?s 1 2] by (auto simp: leaked_def)
  have "class_run Generator_class True (generator_move_assign 1 2 ?s)"
    by (rule hr_step [OF run hd_move_assign]) simp_all
  then show ?thesis using t by auto
qed

text \<open>
  C22. Whatever a program does with objects of one of the owning classes (creating, moving, assigning
  and destroying them in any order, self-assignment included), no coroutine or descriptor is
  destroyed twice, none is leaked and no object is left with one that is destroyed: a resource is
  live exactly when some object holds it, and one object only. The one exclusion is generator's
  second assignment operator, from an rvalue reference, onto a generator that holds a coroutine:
  with it a program reaches a state in which a coroutine is live and no object holds it. (The
  disconnection of a socket, which closes the descriptor and leaves it in the socket, is not among
  these operations.)
\<close>
theorem owners_never_leak:
  "(class_run c drops h \<and> (drops \<longrightarrow> c \<noteq> Generator_class) \<longrightarrow> (\<exists>s. h = Some s \<and> owned s)) \<and>
   (\<exists>s p. class_run Generator_class True (Some s) \<and> leaked s p)"
  using class_run_owned generator_run_leaks by blast

text \<open>The hypothesis holds: an object is created, assigned to another, and that one to itself.\<close>

lemma assigned_run:
  "class_run Socket_class True
     (Option.bind (class_assign Socket_class 9 1 2 (create 2 5 (create 1 4 store_new))) (class_assign Socket_class 9 1 1))"
proof -
  have run1: "class_run Socket_class True (Some (create 1 4 store_new))"
    by (rule hr_step [OF hr_start hd_create]) (simp_all add: store_new_def)
  have run2: "class_run Socket_class True (Some (create 2 5 (create 1 4 store_new)))"
    by (rule hr_step [OF run1 hd_create]) (simp_all add: store_new_def create_def set_handle_def)
  let ?a = "class_assign Socket_class 9 1 2 (create 2 5 (create 1 4 store_new))"
  have run3: "class_run Socket_class True ?a"
    by (rule hr_step [OF run2 hd_assign]) (simp_all add: store_new_def create_def set_handle_def)
  obtain t where t: "?a = Some t" "handle_of t 9 = 0"
    by (simp add: store_new_def create_def set_handle_def socket_assign_def release_held_def release_def)
  show ?thesis using hr_step [OF run3 [unfolded t(1)] hd_assign [of t 9 1 1]] t by simp
qed

theorem owners_never_leak_witness:
  "\<exists>s. Option.bind (class_assign Socket_class 9 1 2 (create 2 5 (create 1 4 store_new))) (class_assign Socket_class 9 1 1) = Some s \<and> owned s"
  using owners_never_leak assigned_run by blast

text \<open>
  A socket that was disconnected still holds the descriptor that the disconnection closed, so its
  destructor closes it again: the model, in which destroying a resource twice is an error, has no
  state after it.
\<close>
theorem disconnected_socket_closes_twice:
  "owned s \<Longrightarrow> handle_of s i \<noteq> 0 \<Longrightarrow>
   \<exists>t. socket_disconnect i s = Some t \<and> \<not> owned t \<and> destruct i t = None"
proof -
  assume own: "owned s" and held: "handle_of s i \<noteq> 0"
  let ?t = "s\<lparr>status := (status s)(handle_of s i := Destroyed)\<rparr>"
  have "\<not> owned ?t" using owned_live [of ?t i] held by auto
  then show ?thesis using held owned_live [OF own held]
    by (simp add: socket_disconnect_def release_def destruct_def release_held_def)
qed

theorem disconnected_socket_closes_twice_witness:
  "\<exists>t. socket_disconnect 1 (create 1 4 store_new) = Some t \<and> \<not> owned t \<and> destruct 1 t = None"
proof (rule disconnected_socket_closes_twice)
  show "owned (create 1 4 store_new)"
    by (rule owned_create) (simp_all add: store_new_def owned_def)
qed (simp add: create_def set_handle_def)

end
