(* ===== verification/Io_Message.thy ===== *)
theory Io_Message
  imports Coro_Prelude "HOL-Library.Signed_Division"
begin

text \<open>
  The requests of include/coro/detail/macos.h: io_message, the transactions that fill one in, the
  system call that carries a request out, and what its answer leaves in the message. Pointers are
  numbers, 0 the null pointer. An answer of the operating system (a result and \<open>errno\<close>) is an
  argument; errors are those of the generic category, 0 for none.
\<close>

section \<open>Messages\<close>

datatype io_operation_type =
    NONE | READ | WRITE | PREAD | PWRITE | RECV | SEND | RECVMSG | SENDMSG
  | CONNECT | ACCEPT | CLOSE | TIMEOUT | TIMEOUT_REMOVE | NOP | CANCEL

record io_message =
  handle :: nat
  result :: int
  fd :: int
  buffer :: nat
  buffer_size :: u64
  offset :: int
  msg :: nat
  flags :: int
  timeout :: "int \<times> int"
  canceled :: bool
  completed :: bool
  operation :: io_operation_type
  ec :: int

definition new_message :: io_message where
  "new_message = \<lparr>handle = 0, result = 0, fd = -1, buffer = 0, buffer_size = 0, offset = 0, msg = 0,
     flags = 0, timeout = (0, 0), canceled = False, completed = False, operation = NONE, ec = 0\<rparr>"

text \<open>Constants of the platform's headers.\<close>

definition EINTR :: int where "EINTR = 4"
definition EBADF :: int where "EBADF = 9"
definition EINVAL :: int where "EINVAL = 22"
definition EAGAIN :: int where "EAGAIN = 35"
definition EINPROGRESS :: int where "EINPROGRESS = 36"
definition ENOSYS :: int where "ENOSYS = 78"
definition ECANCELED :: int where "ECANCELED = 89"
definition ENOENT :: int where "ENOENT = 2"
definition NOTE_ABSOLUTE :: int where "NOTE_ABSOLUTE = 8"

lemmas errno_defs = EINTR_def EBADF_def EINVAL_def EAGAIN_def EINPROGRESS_def ENOSYS_def ECANCELED_def ENOENT_def

section \<open>Transactions\<close>

text \<open>One constructor for each member function of io_transaction that starts a request.\<close>

datatype request =
    Read int nat u64
  | Write int nat u64
  | Pread int nat u64 int
  | Pwrite int nat u64 int
  | Recv int nat u64 int
  | Send int nat u64 int
  | Recvmsg int nat int
  | Sendmsg int nat int
  | Connect int nat u32
  | Accept int nat u32
  | Close int
  | Timeout "int \<times> int" bool
  | Nop

definition set_buffer :: "io_operation_type \<Rightarrow> int \<Rightarrow> nat \<Rightarrow> u64 \<Rightarrow> io_message \<Rightarrow> io_message" where
  "set_buffer op d b n m = m\<lparr>fd := d, buffer := b, buffer_size := n, operation := op\<rparr>"

definition transact :: "request \<Rightarrow> io_message \<Rightarrow> io_message" where
  "transact r m =
     (case r of
        Read d b n \<Rightarrow> set_buffer READ d b n m
      | Write d b n \<Rightarrow> set_buffer WRITE d b n m
      | Pread d b n off \<Rightarrow> (set_buffer PREAD d b n m)\<lparr>offset := off\<rparr>
      | Pwrite d b n off \<Rightarrow> (set_buffer PWRITE d b n m)\<lparr>offset := off\<rparr>
      | Recv d b n fl \<Rightarrow> (set_buffer RECV d b n m)\<lparr>flags := fl\<rparr>
      | Send d b n fl \<Rightarrow> (set_buffer SEND d b n m)\<lparr>flags := fl\<rparr>
      | Recvmsg d h fl \<Rightarrow> m\<lparr>fd := d, msg := h, flags := fl, operation := RECVMSG\<rparr>
      | Sendmsg d h fl \<Rightarrow> m\<lparr>fd := d, msg := h, flags := fl, operation := SENDMSG\<rparr>
      | Connect d a n \<Rightarrow> set_buffer CONNECT d a (ucast n) m
      | Accept d a n \<Rightarrow> set_buffer ACCEPT d a (ucast n) m
      | Close d \<Rightarrow> m\<lparr>fd := d, operation := CLOSE\<rparr>
      | Timeout ts absolute \<Rightarrow>
          m\<lparr>timeout := ts, operation := TIMEOUT, flags := (if absolute then NOTE_ABSOLUTE else 0)\<rparr>
      | Nop \<Rightarrow> m\<lparr>operation := NOP\<rparr>)"

definition timeout_remove :: "io_message \<Rightarrow> io_message" where
  "timeout_remove m = (if operation m = TIMEOUT then m\<lparr>operation := TIMEOUT_REMOVE, canceled := True\<rparr> else m)"

definition cancel :: "io_message \<Rightarrow> io_message" where
  "cancel m = m\<lparr>operation := CANCEL\<rparr>"

section \<open>Event registration\<close>

text \<open>
  What kevent identifies a registration by: a descriptor with a filter, or the message itself as
  the number of a timer.
\<close>

datatype filter = EVFILT_READ | EVFILT_WRITE | EVFILT_TIMER

type_synonym key = "int \<times> filter"

text \<open>
  A change handed to kevent: \<open>Add key fflags data udata\<close>, always with \<open>EV_ONESHOT\<close>, or \<open>Delete key\<close>.
\<close>

datatype change = Add key int int nat | Delete key

text \<open>
  The registration that \<open>event_set\<close> makes for the message at address \<open>p\<close> after its switch, when it
  makes one: key, fflags and data of the \<open>EV_SET\<close>, whose udata is always the message.
\<close>

definition registration :: "nat \<Rightarrow> io_message \<Rightarrow> (key \<times> int \<times> int) option" where
  "registration p m =
     (case operation m of
        READ \<Rightarrow> Some ((fd m, EVFILT_READ), 0, 0)
      | PREAD \<Rightarrow> Some ((fd m, EVFILT_READ), 0, 0)
      | RECV \<Rightarrow> Some ((fd m, EVFILT_READ), 0, 0)
      | RECVMSG \<Rightarrow> Some ((fd m, EVFILT_READ), 0, 0)
      | ACCEPT \<Rightarrow> Some ((fd m, EVFILT_READ), 0, 0)
      | WRITE \<Rightarrow> Some ((fd m, EVFILT_WRITE), 0, 0)
      | PWRITE \<Rightarrow> Some ((fd m, EVFILT_WRITE), 0, 0)
      | SEND \<Rightarrow> Some ((fd m, EVFILT_WRITE), 0, 0)
      | SENDMSG \<Rightarrow> Some ((fd m, EVFILT_WRITE), 0, 0)
      | CONNECT \<Rightarrow> Some ((fd m, EVFILT_WRITE), 0, 0)
      | TIMEOUT \<Rightarrow> Some ((int p, EVFILT_TIMER), take_bit 16 (flags m),
          fst (timeout m) * 1000 + snd (timeout m) sdiv 1000000)
      | _ \<Rightarrow> None)"

section \<open>System calls\<close>

datatype call =
    Call_read int nat u64
  | Call_write int nat u64
  | Call_pread int nat u64 int
  | Call_pwrite int nat u64 int
  | Call_recv int nat u64 int
  | Call_send int nat u64 int
  | Call_recvmsg int nat int
  | Call_sendmsg int nat int
  | Call_connect int nat u32
  | Call_getsockopt int
  | Call_accept int nat u32
  | Call_close int

text \<open>\<open>so_error\<close> is what getsockopt stores.\<close>

record answer =
  ret :: int
  errno :: int
  so_error :: int

definition fail_with :: "int \<Rightarrow> io_message \<Rightarrow> io_message" where
  "fail_with e m = m\<lparr>result := -1, ec := e\<rparr>"

text \<open>The system calls of \<open>event_set\<close>, and what is left in the message.\<close>

definition start_call :: "io_message \<Rightarrow> call option" where
  "start_call m =
     (case operation m of
        CONNECT \<Rightarrow> Some (Call_connect (fd m) (buffer m) (ucast (buffer_size m)))
      | CLOSE \<Rightarrow> Some (Call_close (fd m))
      | _ \<Rightarrow> None)"

definition started :: "answer \<Rightarrow> io_message \<Rightarrow> io_message" where
  "started a m =
     (case operation m of
        CONNECT \<Rightarrow> (if ret a = 0 then m\<lparr>result := 0\<rparr> else fail_with (errno a) m)
      | CLOSE \<Rightarrow> (if ret a = -1 then fail_with (errno a) m else m\<lparr>result := 0\<rparr>)
      | _ \<Rightarrow> m)"

text \<open>Messages that \<open>event_set\<close> completes without a call.\<close>

definition finished_at_once :: "io_message \<Rightarrow> io_message" where
  "finished_at_once m =
     (case operation m of NOP \<Rightarrow> m\<lparr>result := 0\<rparr> | CANCEL \<Rightarrow> m\<lparr>result := - ECANCELED\<rparr> | _ \<Rightarrow> fail_with ENOSYS m)"

text \<open>The system call of \<open>process_one\<close> when the message's event has come, and what is left in the message.\<close>

definition event_call :: "io_message \<Rightarrow> call option" where
  "event_call m =
     (case operation m of
        READ \<Rightarrow> Some (Call_read (fd m) (buffer m) (buffer_size m))
      | WRITE \<Rightarrow> Some (Call_write (fd m) (buffer m) (buffer_size m))
      | PREAD \<Rightarrow> Some (Call_pread (fd m) (buffer m) (buffer_size m) (offset m))
      | PWRITE \<Rightarrow> Some (Call_pwrite (fd m) (buffer m) (buffer_size m) (offset m))
      | RECV \<Rightarrow> Some (Call_recv (fd m) (buffer m) (buffer_size m) (flags m))
      | SEND \<Rightarrow> Some (Call_send (fd m) (buffer m) (buffer_size m) (flags m))
      | RECVMSG \<Rightarrow> Some (Call_recvmsg (fd m) (msg m) (flags m))
      | SENDMSG \<Rightarrow> Some (Call_sendmsg (fd m) (msg m) (flags m))
      | CONNECT \<Rightarrow> Some (Call_getsockopt (fd m))
      | ACCEPT \<Rightarrow> Some (Call_accept (fd m) (buffer m) (ucast (buffer_size m)))
      | _ \<Rightarrow> None)"

definition set_transferred :: "answer \<Rightarrow> io_message \<Rightarrow> io_message" where
  "set_transferred a m = (if ret a = -1 then fail_with (errno a) m else m\<lparr>result := ret a\<rparr>)"

definition performed :: "answer \<Rightarrow> io_message \<Rightarrow> io_message" where
  "performed a m =
     (case operation m of
        READ \<Rightarrow> set_transferred a m
      | WRITE \<Rightarrow> set_transferred a m
      | PREAD \<Rightarrow> set_transferred a m
      | PWRITE \<Rightarrow> set_transferred a m
      | RECV \<Rightarrow> set_transferred a m
      | SEND \<Rightarrow> set_transferred a m
      | RECVMSG \<Rightarrow> set_transferred a m
      | SENDMSG \<Rightarrow> set_transferred a m
      | CONNECT \<Rightarrow>
          (if ret a = -1 then fail_with (errno a) m
           else if so_error a \<noteq> 0 then fail_with (so_error a) m
           else m\<lparr>result := 0\<rparr>)
      | ACCEPT \<Rightarrow> (if ret a \<ge> 0 then m\<lparr>result := ret a\<rparr> else fail_with (errno a) m)
      | TIMEOUT \<Rightarrow> (if canceled m then m\<lparr>result := - ECANCELED, ec := ECANCELED\<rparr> else m\<lparr>result := 0\<rparr>)
      | _ \<Rightarrow> m\<lparr>result := - EINVAL, ec := EINVAL\<rparr>)"

text \<open>\<open>TIMEOUT_REMOVE\<close> after kevent has answered \<open>e\<close>: what is left, and whether the message is enqueued.\<close>

definition removed :: "int \<Rightarrow> io_message \<Rightarrow> io_message \<times> bool" where
  "removed e m =
     (if e \<noteq> 0 \<and> e \<noteq> ENOENT then (fail_with e m, False)
      else if completed m then (m, False)
      else (m\<lparr>completed := True, result := - ECANCELED, ec := ECANCELED\<rparr>, True))"

section \<open>What a request asks for\<close>

text \<open>The call that a request stands for once it can be carried out without blocking.\<close>

definition requested :: "request \<Rightarrow> call option" where
  "requested r =
     (case r of
        Read d b n \<Rightarrow> Some (Call_read d b n)
      | Write d b n \<Rightarrow> Some (Call_write d b n)
      | Pread d b n off \<Rightarrow> Some (Call_pread d b n off)
      | Pwrite d b n off \<Rightarrow> Some (Call_pwrite d b n off)
      | Recv d b n fl \<Rightarrow> Some (Call_recv d b n fl)
      | Send d b n fl \<Rightarrow> Some (Call_send d b n fl)
      | Recvmsg d h fl \<Rightarrow> Some (Call_recvmsg d h fl)
      | Sendmsg d h fl \<Rightarrow> Some (Call_sendmsg d h fl)
      | Connect d a n \<Rightarrow> Some (Call_connect d a n)
      | Accept d a n \<Rightarrow> Some (Call_accept d a n)
      | Close d \<Rightarrow> Some (Call_close d)
      | Timeout ts b \<Rightarrow> None
      | Nop \<Rightarrow> None)"

lemma ucast_socklen: "ucast (ucast (n :: u32) :: u64) = n"
  by transfer (simp add: take_bit_take_bit)

lemmas transact_defs = transact_def set_buffer_def start_call_def event_call_def registration_def

text \<open>
  A request leads to the system call that it names, with the same arguments: at once for
  connect and close, and for the others when the event for which the message was registered has
  come. A request is registered exactly when there is a call, or a timer, to wait for.
\<close>

theorem request_reaches_its_call:
  "(case start_call (transact r m) of Some c \<Rightarrow> Some c | None \<Rightarrow> event_call (transact r m)) = requested r \<and>
   (registration p (transact r m) = None \<longleftrightarrow> event_call (transact r m) = None \<and> (\<forall>ts b. r \<noteq> Timeout ts b))"
  by (cases r) (simp_all add: transact_defs requested_def ucast_socklen)

end
