(* ===== verification/Io_Queue.thy ===== *)
theory Io_Queue
  imports Io_Message "HOL-Library.Multiset"
begin

text \<open>
  The message_queue of include/coro/detail/macos.h: messages are committed to a submission queue;
  worker threads register them with a kernel event queue, wait for events there, carry the requests
  out and put the messages into a completion queue, from which the threads of io_service take them.
  Each worker goes through the steps of \<open>worker_thread_func\<close>, \<open>event_set\<close> and \<open>process_one\<close>; what
  the system calls and the two boost::lockfree::queue answer is arbitrary within their contracts.
\<close>

section \<open>The kernel's event queue\<close>

text \<open>\<open>ev_key\<close> is \<open>None\<close> for the user event of the destructor; \<open>ev_error\<close> the data of an \<open>EV_ERROR\<close>.\<close>

record io_event =
  ev_key :: "key option"
  udata :: nat
  ev_error :: "int option"

text \<open>
  A kqueue is a parameter: the answers of kevent for a change (0 or an errno) and for a wait (an
  errno or events), and what closing a descriptor does. \<open>regs\<close> tells what is registered.
\<close>

record 'k kernel =
  kevent_change :: "'k \<Rightarrow> change \<Rightarrow> int \<Rightarrow> 'k \<Rightarrow> bool"
  kevent_wait :: "'k \<Rightarrow> int + io_event list \<Rightarrow> 'k \<Rightarrow> bool"
  fd_close :: "'k \<Rightarrow> int \<Rightarrow> answer \<Rightarrow> 'k \<Rightarrow> bool"
  regs :: "'k \<Rightarrow> key \<Rightarrow> nat option"

definition event_keys :: "io_event list \<Rightarrow> key list" where
  "event_keys evs = map (the \<circ> ev_key) (filter (\<lambda>e. ev_key e \<noteq> None) evs)"

definition fd_keys :: "int \<Rightarrow> key set" where
  "fd_keys d = {(d, EVFILT_READ), (d, EVFILT_WRITE)}"

text \<open>
  The documented contract of kqueue: adding an event that is registered replaces its udata, a
  failed change changes nothing, the events of a wait are registered and, being one-shot, deleted
  by it, and closing a descriptor deletes its events.
\<close>

definition kqueue_ok :: "'k kernel \<Rightarrow> bool" where
  "kqueue_ok K \<longleftrightarrow>
     (\<forall>k key fl d u k'. kevent_change K k (Add key fl d u) 0 k' \<longrightarrow> regs K k' = (regs K k)(key \<mapsto> u)) \<and>
     (\<forall>k key k'. kevent_change K k (Delete key) 0 k' \<longrightarrow> regs K k' = (regs K k)(key := None)) \<and>
     (\<forall>k c e k'. kevent_change K k c e k' \<longrightarrow> e \<noteq> 0 \<longrightarrow> regs K k' = regs K k) \<and>
     (\<forall>k e k'. kevent_wait K k (Inl e) k' \<longrightarrow> regs K k' = regs K k) \<and>
     (\<forall>k evs k'. kevent_wait K k (Inr evs) k' \<longrightarrow>
        distinct (event_keys evs) \<and>
        (\<forall>e\<in>set evs. \<forall>key. ev_key e = Some key \<longrightarrow> regs K k key = Some (udata e)) \<and>
        regs K k' = (regs K k) |` (- set (event_keys evs))) \<and>
     (\<forall>k d a k'. fd_close K k d a k' \<longrightarrow>
        regs K k' = (if ret a = -1 then regs K k else (regs K k) |` (- fd_keys d)))"

section \<open>State\<close>

text \<open>\<open>Leaving\<close> is the part of \<open>worker_thread_func\<close> after its loop.\<close>

datatype phase = Running | Leaving

datatype worker_pc =
    Testing
  | Popping
  | Setting nat
  | Registering nat "key \<times> int \<times> int"
  | Polling
  | Handling "io_event list"
  | Enqueuing nat "io_event list option"
  | Exited

text \<open>
  The two queues are bags: which element a pop takes is arbitrary. \<open>committed\<close>, \<open>cancels\<close>,
  \<open>handed\<close> and \<open>dropped\<close> record, for the theorems only, the messages that were committed as
  requests, committed again to be cancelled, given to a thread of io_service, and lost from sight:
  their registration was replaced or deleted, or their event was not followed by an enqueue.
\<close>

record 'k io_state =
  message_of :: "nat \<Rightarrow> io_message"
  submission :: "nat multiset"
  completion :: "nat multiset"
  kq :: 'k
  worker :: "nat \<Rightarrow> phase \<times> worker_pc"
  m_stop :: bool
  committed :: "nat multiset"
  cancels :: "nat multiset"
  handed :: "nat multiset"
  dropped :: "nat multiset"

definition queue_new :: "'k \<Rightarrow> 'k io_state" where
  "queue_new k = \<lparr>message_of = (\<lambda>_. new_message), submission = {#}, completion = {#}, kq = k,
     worker = (\<lambda>_. (Running, Testing)), m_stop = False,
     committed = {#}, cancels = {#}, handed = {#}, dropped = {#}\<rparr>"

definition goto :: "nat \<Rightarrow> phase \<times> worker_pc \<Rightarrow> 'k io_state \<Rightarrow> 'k io_state" where
  "goto w pc s = s\<lparr>worker := (worker s)(w := pc)\<rparr>"

definition set_message :: "nat \<Rightarrow> io_message \<Rightarrow> 'k io_state \<Rightarrow> 'k io_state" where
  "set_message p m s = s\<lparr>message_of := (message_of s)(p := m)\<rparr>"

definition drop_messages :: "nat multiset \<Rightarrow> 'k io_state \<Rightarrow> 'k io_state" where
  "drop_messages ps s = s\<lparr>dropped := dropped s + ps\<rparr>"

text \<open>The messages registered under some keys.\<close>

definition registered :: "(key \<Rightarrow> nat option) \<Rightarrow> key set \<Rightarrow> nat multiset" where
  "registered R ks = image_mset (the \<circ> R) (mset_set (dom R \<inter> ks))"

text \<open>The kernel goes on to \<open>k\<close>, which loses what was registered under \<open>ks\<close>.\<close>

definition kernel_goes :: "'k kernel \<Rightarrow> 'k \<Rightarrow> key set \<Rightarrow> 'k io_state \<Rightarrow> 'k io_state" where
  "kernel_goes K k ks s = drop_messages (registered (regs K (kq s)) ks) (s\<lparr>kq := k\<rparr>)"

section \<open>Workers\<close>

text \<open>The end of \<open>event_set\<close>: kevent has answered \<open>e\<close> to the registration of \<open>p\<close>.\<close>

definition after_register :: "'k kernel \<Rightarrow> nat \<Rightarrow> nat \<Rightarrow> key \<Rightarrow> int \<Rightarrow> 'k \<Rightarrow> 'k io_state \<Rightarrow> 'k io_state" where
  "after_register K w p key e k s =
     (let ph = fst (worker s w)
      in if e = 0 then goto w (ph, Popping) (kernel_goes K k {key} s)
         else goto w (ph, Enqueuing p None) (set_message p (fail_with e (message_of s p)) (s\<lparr>kq := k\<rparr>)))"

text \<open>The case \<open>CONNECT\<close> of \<open>event_set\<close>.\<close>

definition after_connect :: "nat \<Rightarrow> nat \<Rightarrow> answer \<Rightarrow> 'k io_state \<Rightarrow> 'k io_state" where
  "after_connect w p a s =
     (let ph = fst (worker s w); m = message_of s p
      in if ret a \<noteq> 0 \<and> errno a = EINPROGRESS
         then goto w (ph, Registering p (the (registration p m))) s
         else goto w (ph, Enqueuing p None) (set_message p (started a m) s))"

text \<open>The case \<open>CLOSE\<close>.\<close>

definition after_close :: "'k kernel \<Rightarrow> nat \<Rightarrow> nat \<Rightarrow> answer \<Rightarrow> 'k \<Rightarrow> 'k io_state \<Rightarrow> 'k io_state" where
  "after_close K w p a k s =
     (let m = message_of s p
      in goto w (fst (worker s w), Enqueuing p None)
           (set_message p (started a m) (kernel_goes K k (if ret a = -1 then {} else fd_keys (fd m)) s)))"

text \<open>The case \<open>TIMEOUT_REMOVE\<close>: kevent has answered \<open>e\<close> to the deletion of the timer.\<close>

definition after_remove :: "'k kernel \<Rightarrow> nat \<Rightarrow> nat \<Rightarrow> int \<Rightarrow> 'k \<Rightarrow> 'k io_state \<Rightarrow> 'k io_state" where
  "after_remove K w p e k s =
     (let ph = fst (worker s w); (m, enq) = removed e (message_of s p);
          s1 = set_message p m (kernel_goes K k (if e = 0 then {(int p, EVFILT_TIMER)} else {}) s)
      in if enq then goto w (ph, Enqueuing p None) s1
         else goto w (ph, Popping) (drop_messages {#p#} s1))"

text \<open>The case \<open>CANCEL\<close>: the answers \<open>e\<close> and \<open>e'\<close> to the deletions are not looked at.\<close>

definition after_cancel :: "'k kernel \<Rightarrow> nat \<Rightarrow> nat \<Rightarrow> int \<Rightarrow> 'k \<Rightarrow> int \<Rightarrow> 'k \<Rightarrow> 'k io_state \<Rightarrow> 'k io_state" where
  "after_cancel K w p e k e' k' s =
     (let d = fd (message_of s p);
          s1 = kernel_goes K k (if e = 0 then {(d, EVFILT_READ)} else {}) s;
          s2 = kernel_goes K k' (if e' = 0 then {(d, EVFILT_WRITE)} else {}) s1
      in goto w (fst (worker s w), Enqueuing p None) (set_message p (finished_at_once (message_of s p)) s2))"

text \<open>
  \<open>process_one\<close> for the first event of the batch, with the answer \<open>a\<close> of the system call that the
  message asks for; the user event has no message.
\<close>

definition process_one :: "nat \<Rightarrow> io_event \<Rightarrow> io_event list \<Rightarrow> answer \<Rightarrow> 'k io_state \<Rightarrow> 'k io_state" where
  "process_one w e evs a s =
     (let ph = fst (worker s w); p = udata e; m = message_of s p;
          lost = drop_messages (if ev_key e = None then {#} else {#p#})
      in if ev_key e = None \<or> p = 0 \<or> canceled m then goto w (ph, Handling evs) (lost s)
         else case ev_error e of
                Some d \<Rightarrow> goto w (ph, Handling evs) (lost (set_message p (fail_with d m) s))
              | None \<Rightarrow> goto w (ph, Enqueuing p (Some evs)) (set_message p (performed a m) s))"

definition enqueue :: "nat \<Rightarrow> nat \<Rightarrow> io_event list option \<Rightarrow> 'k io_state \<Rightarrow> 'k io_state" where
  "enqueue w p rest s =
     goto w (fst (worker s w), case rest of None \<Rightarrow> Popping | Some evs \<Rightarrow> Handling evs)
       (s\<lparr>completion := add_mset p (completion s)\<rparr>)"

inductive worker_step :: "'k kernel \<Rightarrow> nat \<Rightarrow> 'k io_state \<Rightarrow> 'k io_state \<Rightarrow> bool" for K w where
  ws_test: "worker s w = (Running, Testing) \<Longrightarrow>
    worker_step K w s (goto w (if m_stop s then Leaving else Running, Popping) s)"
| ws_pop: "worker s w = (ph, Popping) \<Longrightarrow> p \<in># submission s \<Longrightarrow>
    worker_step K w s (goto w (ph, Setting p) (s\<lparr>submission := submission s - {#p#}\<rparr>))"
| ws_pop_empty: "worker s w = (ph, Popping) \<Longrightarrow> submission s = {#} \<Longrightarrow>
    worker_step K w s (goto w (ph, Polling) s)"
| ws_set_register: "worker s w = (ph, Setting p) \<Longrightarrow> operation (message_of s p) \<noteq> CONNECT \<Longrightarrow>
    registration p (message_of s p) = Some c \<Longrightarrow> worker_step K w s (goto w (ph, Registering p c) s)"
| ws_set_connect: "worker s w = (ph, Setting p) \<Longrightarrow> operation (message_of s p) = CONNECT \<Longrightarrow>
    worker_step K w s (after_connect w p a s)"
| ws_set_close: "worker s w = (ph, Setting p) \<Longrightarrow> operation (message_of s p) = CLOSE \<Longrightarrow>
    fd_close K (kq s) (fd (message_of s p)) a k \<Longrightarrow> worker_step K w s (after_close K w p a k s)"
| ws_set_remove: "worker s w = (ph, Setting p) \<Longrightarrow> operation (message_of s p) = TIMEOUT_REMOVE \<Longrightarrow>
    kevent_change K (kq s) (Delete (int p, EVFILT_TIMER)) e k \<Longrightarrow>
    worker_step K w s (after_remove K w p e k s)"
| ws_set_cancel: "worker s w = (ph, Setting p) \<Longrightarrow> operation (message_of s p) = CANCEL \<Longrightarrow>
    kevent_change K (kq s) (Delete (fd (message_of s p), EVFILT_READ)) e k \<Longrightarrow>
    kevent_change K k (Delete (fd (message_of s p), EVFILT_WRITE)) e' k' \<Longrightarrow>
    worker_step K w s (after_cancel K w p e k e' k' s)"
| ws_set_now: "worker s w = (ph, Setting p) \<Longrightarrow> operation (message_of s p) \<in> {NOP, NONE} \<Longrightarrow>
    worker_step K w s (goto w (ph, Enqueuing p None) (set_message p (finished_at_once (message_of s p)) s))"
| ws_register: "worker s w = (ph, Registering p (key, fl, d)) \<Longrightarrow>
    kevent_change K (kq s) (Add key fl d p) e k \<Longrightarrow> worker_step K w s (after_register K w p key e k s)"
| ws_enqueue: "worker s w = (ph, Enqueuing p rest) \<Longrightarrow> worker_step K w s (enqueue w p rest s)"
| ws_wait: "worker s w = (ph, Polling) \<Longrightarrow> kevent_wait K (kq s) (Inr evs) k \<Longrightarrow>
    worker_step K w s (goto w (ph, if ph = Leaving \<and> evs = [] then Exited else Handling evs) (s\<lparr>kq := k\<rparr>))"
| ws_wait_error: "worker s w = (ph, Polling) \<Longrightarrow> kevent_wait K (kq s) (Inl e) k \<Longrightarrow>
    worker_step K w s (goto w (if ph = Leaving then (ph, Exited)
      else if e = EINTR then (ph, Testing) else (Leaving, Popping)) (s\<lparr>kq := k\<rparr>))"
| ws_handle: "worker s w = (ph, Handling (e # evs)) \<Longrightarrow> worker_step K w s (process_one w e evs a s)"
| ws_handled: "worker s w = (ph, Handling []) \<Longrightarrow>
    worker_step K w s (goto w (ph, if ph = Running then Testing else Polling) s)"

section \<open>The clients\<close>

text \<open>\<open>try_submit\<close>, when the queue takes the message or not (\<open>ok\<close>).\<close>

definition try_submit :: "nat \<Rightarrow> bool \<Rightarrow> 'k io_state \<Rightarrow> 'k io_state" where
  "try_submit p ok s = (if ok then s\<lparr>submission := add_mset p (submission s)\<rparr> else s)"

definition commit_request :: "nat \<Rightarrow> nat \<Rightarrow> request \<Rightarrow> bool \<Rightarrow> 'k io_state \<Rightarrow> 'k io_state" where
  "commit_request p h r ok s =
     (let s1 = try_submit p ok (set_message p (transact r (new_message\<lparr>handle := h\<rparr>)) s)
      in if ok then s1\<lparr>committed := add_mset p (committed s1)\<rparr> else s1)"

definition commit_cancel :: "nat \<Rightarrow> (io_message \<Rightarrow> io_message) \<Rightarrow> bool \<Rightarrow> 'k io_state \<Rightarrow> 'k io_state" where
  "commit_cancel p f ok s =
     (let s1 = try_submit p ok (set_message p (f (message_of s p)) s)
      in if ok then s1\<lparr>cancels := add_mset p (cancels s1)\<rparr> else s1)"

text \<open>
  \<open>popped\<close> is what the pop of the completion queue gives; also after a wait it may be nothing, when
  another thread has popped between the wait's test and the pop. \<open>dequeue\<close>: the result \<open>None\<close>
  would be the exception.
\<close>

definition can_pop :: "'k io_state \<Rightarrow> nat option \<Rightarrow> bool" where
  "can_pop s popped = (case popped of None \<Rightarrow> completion s = {#} | Some p \<Rightarrow> p \<in># completion s)"

definition io_peek_cq :: "nat option \<Rightarrow> 'k io_state \<Rightarrow> 'k io_state \<times> int" where
  "io_peek_cq popped s =
     (case popped of
        Some p \<Rightarrow> (s\<lparr>completion := completion s - {#p#}, handed := add_mset p (handed s)\<rparr>, 0)
      | None \<Rightarrow> (s, - EAGAIN))"

definition io_wait_cq :: "nat option \<Rightarrow> 'k io_state \<Rightarrow> 'k io_state \<times> int" where
  "io_wait_cq popped s = (if m_stop s then (s, - ECANCELED) else io_peek_cq popped s)"

definition dequeue :: "bool \<Rightarrow> nat option \<Rightarrow> 'k io_state \<Rightarrow> 'k io_state \<times> bool option" where
  "dequeue wait popped s =
     (let (t, r) = (if wait then io_wait_cq popped s else io_peek_cq popped s)
      in (t, if r = - EAGAIN \<or> r = - ECANCELED then Some False else if r < 0 then None else Some True))"

definition stop :: "'k io_state \<Rightarrow> 'k io_state" where
  "stop s = s\<lparr>m_stop := True\<rparr>"

text \<open>
  Steps of the whole: a worker's, or a client's. A message is committed again as a request only
  when every earlier commit of it has come back: the coroutine that owns it was suspended till then.
\<close>

inductive io_step :: "'k kernel \<Rightarrow> nat \<Rightarrow> 'k io_state \<Rightarrow> 'k io_state \<Rightarrow> bool" for K n where
  io_worker: "w < n \<Longrightarrow> worker_step K w s t \<Longrightarrow> io_step K n s t"
| io_commit: "p \<noteq> 0 \<Longrightarrow> count (committed s) p = count (handed s) p \<Longrightarrow>
    io_step K n s (commit_request p h r ok s)"
| io_cancel: "io_step K n s (commit_cancel p cancel ok s)"
| io_timeout_remove: "io_step K n s (commit_cancel p timeout_remove ok s)"
| io_dequeue: "can_pop s popped \<Longrightarrow> io_step K n s (fst (dequeue wait popped s))"
| io_stop: "io_step K n s (stop s)"

definition io_start :: "'k kernel \<Rightarrow> 'k io_state \<Rightarrow> bool" where
  "io_start K s \<longleftrightarrow> (\<exists>k. regs K k = Map.empty \<and> s = queue_new k)"

section \<open>Where messages are\<close>

definition held_events :: "io_event list \<Rightarrow> nat multiset" where
  "held_events evs = mset (map udata (filter (\<lambda>e. ev_key e \<noteq> None) evs))"

text \<open>The messages in a worker's hands.\<close>

definition held :: "worker_pc \<Rightarrow> nat multiset" where
  "held pc =
     (case pc of
        Setting p \<Rightarrow> {#p#}
      | Registering p c \<Rightarrow> {#p#}
      | Handling evs \<Rightarrow> held_events evs
      | Enqueuing p rest \<Rightarrow> add_mset p (case rest of None \<Rightarrow> {#} | Some evs \<Rightarrow> held_events evs)
      | _ \<Rightarrow> {#})"

definition in_hands :: "nat \<Rightarrow> 'k io_state \<Rightarrow> nat \<Rightarrow> nat" where
  "in_hands n s p = (\<Sum>w<n. count (held (snd (worker s w))) p)"

text \<open>How often a message is in the submission or completion queue, registered, or in a worker's hands.\<close>

definition in_flight :: "'k kernel \<Rightarrow> nat \<Rightarrow> 'k io_state \<Rightarrow> nat \<Rightarrow> nat" where
  "in_flight K n s p = count (submission s) p + count (completion s) p + in_hands n s p +
     count (registered (regs K (kq s)) UNIV) p"

text \<open>Every commit is accounted for; of one message at most one commit has not come back.\<close>

definition io_inv :: "'k kernel \<Rightarrow> nat \<Rightarrow> 'k io_state \<Rightarrow> bool" where
  "io_inv K n s \<longleftrightarrow> finite (dom (regs K (kq s))) \<and>
     (\<forall>p. count (committed s) p + count (cancels s) p =
        in_flight K n s p + count (handed s) p + count (dropped s) p) \<and>
     (\<forall>p. count (committed s) p \<le> count (handed s) p + 1)"

subsection \<open>Registrations\<close>

lemma registered_split:
  assumes "finite (dom R)"
  shows "registered R UNIV = registered R ks + registered R (- ks)"
proof -
  have "mset_set (dom R) = mset_set (dom R \<inter> ks) + mset_set (dom R \<inter> - ks)"
    using assms by (subst mset_set_Union [symmetric]) (auto intro: arg_cong [of _ _ mset_set])
  then show ?thesis by (simp add: registered_def)
qed

lemma registered_restrict: "registered (R |` (- ks)) UNIV = registered R (- ks)"
proof -
  have "x \<in> - ks" if "x \<in># mset_set (dom R \<inter> - ks)" for x
    using that by (cases "finite (dom R \<inter> - ks)") auto
  then show ?thesis by (auto simp: registered_def intro!: image_mset_cong)
qed

lemma registered_add:
  assumes "finite (dom R)"
  shows "registered (R(key \<mapsto> u)) UNIV = add_mset u (registered R (- {key}))"
proof -
  have "dom (R(key \<mapsto> u)) = insert key (dom R \<inter> - {key})" by auto
  moreover have "image_mset (the \<circ> R(key \<mapsto> u)) (mset_set (dom R \<inter> - {key})) =
      image_mset (the \<circ> R) (mset_set (dom R \<inter> - {key}))"
    using assms by (intro image_mset_cong) auto
  ultimately show ?thesis using assms by (simp add: registered_def)
qed

lemma registered_none: "registered R {} = {#}"
  by (simp add: registered_def)

lemma registered_events:
  assumes "distinct (event_keys evs)" "\<forall>e\<in>set evs. \<forall>key. ev_key e = Some key \<longrightarrow> R key = Some (udata e)"
  shows "registered R (set (event_keys evs)) = held_events evs"
  using assms
proof (induction evs)
  case Nil
  then show ?case by (simp add: registered_def event_keys_def held_events_def)
next
  case (Cons e evs)
  show ?case
  proof (cases "ev_key e")
    case None
    then show ?thesis using Cons by (simp add: event_keys_def held_events_def)
  next
    case (Some key)
    have k: "event_keys (e # evs) = key # event_keys evs" using Some by (simp add: event_keys_def)
    have R: "R key = Some (udata e)" using Cons.prems(2) Some by (metis list.set_intros(1))
    then have d: "dom R \<inter> set (key # event_keys evs) = insert key (dom R \<inter> set (event_keys evs))" by auto
    have "registered R (set (event_keys evs)) = held_events evs" using Cons k by simp
    then show ?thesis using Cons.prems(1) R Some d by (simp add: registered_def k held_events_def)
  qed
qed

subsection \<open>Steps keep account of every message\<close>

definition accounted :: "'k kernel \<Rightarrow> nat \<Rightarrow> 'k io_state \<Rightarrow> nat \<Rightarrow> nat" where
  "accounted K n s p = in_flight K n s p + count (handed s) p + count (dropped s) p"

lemmas account_defs = accounted_def in_flight_def in_hands_def

lemma step_frame [simp]:
  "worker (set_message q m s) = worker s" "worker (drop_messages D s) = worker s" "worker (kernel_goes K k ks s) = worker s"
  "kq (set_message q m s) = kq s" "kq (drop_messages D s) = kq s" "kq (kernel_goes K k ks s) = k" "kq (goto w pc s) = kq s"
  by (simp_all add: set_message_def drop_messages_def kernel_goes_def goto_def)

lemma account_goto:
  assumes "w < n"
  shows "accounted K n (goto w pc s) p + count (held (snd (worker s w))) p = accounted K n s p + count (held (snd pc)) p"
  using sum_upd_process [OF assms, where w = "\<lambda>pc. count (held (snd pc)) p" and f = "worker s" and x = pc]
  by (simp add: account_defs goto_def)

lemma account_set_message [simp]: "accounted K n (set_message q m s) p = accounted K n s p"
  by (simp add: account_defs set_message_def)

lemma account_drop [simp]: "accounted K n (drop_messages D s) p = accounted K n s p + count D p"
  by (simp add: account_defs drop_messages_def)

lemma account_kq: "regs K k = regs K (kq s) \<Longrightarrow> accounted K n (s\<lparr>kq := k\<rparr>) p = accounted K n s p"
  by (simp add: account_defs)

lemma account_wait:
  assumes "finite (dom (regs K (kq s)))" "regs K k = regs K (kq s) |` (- ks)"
  shows "accounted K n (s\<lparr>kq := k\<rparr>) p + count (registered (regs K (kq s)) ks) p = accounted K n s p"
  using registered_split [OF assms(1), of ks] by (simp add: account_defs assms(2) registered_restrict)

lemma account_kernel:
  assumes "finite (dom (regs K (kq s)))" "regs K k = regs K (kq s) |` (- ks)"
  shows "accounted K n (kernel_goes K k ks s) p = accounted K n s p"
  using account_wait [OF assms, of n p] by (simp add: kernel_goes_def)

lemma account_kernel_none: "regs K k = regs K (kq s) \<Longrightarrow> accounted K n (kernel_goes K k {} s) p = accounted K n s p"
  by (simp add: kernel_goes_def account_kq registered_none)

lemma account_add:
  assumes "finite (dom (regs K (kq s)))" "regs K k = (regs K (kq s))(key \<mapsto> u)"
  shows "accounted K n (kernel_goes K k {key} s) p = accounted K n s p + count {#u#} p"
  using registered_split [OF assms(1), of "{key}"] registered_add [OF assms(1), of key u]
  by (simp add: kernel_goes_def drop_messages_def account_defs assms(2))

text \<open>What a step of a worker leaves alone, and what it keeps.\<close>

definition keeps :: "'k kernel \<Rightarrow> nat \<Rightarrow> 'k io_state \<Rightarrow> 'k io_state \<Rightarrow> bool" where
  "keeps K n s t \<longleftrightarrow> finite (dom (regs K (kq t))) \<and> (\<forall>p. accounted K n t p = accounted K n s p)"

lemma keepsI:
  assumes "w < n" "finite (dom (regs K (kq t)))"
    "\<And>p. accounted K n t p + count (held (snd pc)) p = accounted K n s p + count (held (snd (worker t w))) p"
  shows "keeps K n s (goto w pc t)"
  unfolding keeps_def
proof (intro conjI allI)
  fix p
  show "accounted K n (goto w pc t) p = accounted K n s p"
    using account_goto [OF assms(1), of K pc t p] assms(3) [of p] by simp
qed (use assms(2) in simp)

lemma kqueue_add: "kqueue_ok K \<Longrightarrow> kevent_change K k (Add key fl d u) 0 k' \<Longrightarrow> regs K k' = (regs K k)(key \<mapsto> u)"
  unfolding kqueue_ok_def by (elim conjE, meson)

lemma kqueue_delete: "kqueue_ok K \<Longrightarrow> kevent_change K k (Delete key) 0 k' \<Longrightarrow> regs K k' = regs K k |` (- {key})"
  unfolding kqueue_ok_def restrict_complement_singleton_eq by (elim conjE, meson)

lemma kqueue_fail: "kqueue_ok K \<Longrightarrow> kevent_change K k c e k' \<Longrightarrow> e \<noteq> 0 \<Longrightarrow> regs K k' = regs K k"
  unfolding kqueue_ok_def by (elim conjE, meson)

lemma kqueue_wait_error: "kqueue_ok K \<Longrightarrow> kevent_wait K k (Inl e) k' \<Longrightarrow> regs K k' = regs K k"
  unfolding kqueue_ok_def by (elim conjE, meson)

lemma kqueue_wait: "kqueue_ok K \<Longrightarrow> kevent_wait K k (Inr evs) k' \<Longrightarrow>
    regs K k' = regs K k |` (- set (event_keys evs)) \<and> registered (regs K k) (set (event_keys evs)) = held_events evs"
  using registered_events [of evs "regs K k"] unfolding kqueue_ok_def by (elim conjE, meson)

lemma kqueue_close: "kqueue_ok K \<Longrightarrow> fd_close K k d a k' \<Longrightarrow>
    regs K k' = (if ret a = -1 then regs K k else regs K k |` (- fd_keys d))"
  unfolding kqueue_ok_def by (elim conjE, meson)

text \<open>A kernel step that deletes one registration, or fails.\<close>

lemma account_delete:
  assumes "kqueue_ok K" "finite (dom (regs K (kq s)))" "kevent_change K (kq s) (Delete key) e k"
  shows "accounted K n (kernel_goes K k (if e = 0 then {key} else {}) s) p = accounted K n s p"
    and "finite (dom (regs K k))"
  using kqueue_delete [OF assms(1)] kqueue_fail [OF assms(1)] assms(2,3) account_kernel [OF assms(2), of k "{key}" n p]
    account_kernel_none [of K k s n p]
  by (cases "e = 0"; auto)+

lemma keeps_register:
  assumes K: "kqueue_ok K" and f: "finite (dom (regs K (kq s)))" and w: "w < n"
    and pc: "worker s w = (ph, Registering p (key, fl, d))" and ch: "kevent_change K (kq s) (Add key fl d p) e k"
  shows "keeps K n s (after_register K w p key e k s)"
proof (cases "e = 0")
  case False
  have "regs K k = regs K (kq s)" using kqueue_fail [OF K ch False] .
  then show ?thesis using False w f pc
    by (auto simp: after_register_def Let_def held_def account_kq intro!: keepsI)
next
  case True
  have r: "regs K k = (regs K (kq s))(key \<mapsto> p)" using kqueue_add [OF K] ch True by simp
  show ?thesis using account_add [OF f r] w f pc True
    by (auto simp: after_register_def Let_def held_def r intro!: keepsI)
qed

lemma keeps_remove:
  assumes "kqueue_ok K" "finite (dom (regs K (kq s)))" "w < n" "worker s w = (ph, Setting p)"
    "kevent_change K (kq s) (Delete (int p, EVFILT_TIMER)) e k"
  shows "keeps K n s (after_remove K w p e k s)"
  using account_delete [OF assms(1,2,5)] assms(3,4)
  by (auto simp: after_remove_def Let_def held_def split: prod.splits if_split intro!: keepsI)

lemma keeps_cancel:
  assumes K: "kqueue_ok K" and f: "finite (dom (regs K (kq s)))" and w: "w < n" "worker s w = (ph, Setting p)"
    and del: "kevent_change K (kq s) (Delete (fd (message_of s p), EVFILT_READ)) e k"
      "kevent_change K k (Delete (fd (message_of s p), EVFILT_WRITE)) e' k'"
  shows "keeps K n s (after_cancel K w p e k e' k' s)"
proof -
  let ?ks = "if e = 0 then {(fd (message_of s p), EVFILT_READ)} else {}"
  note one = account_delete [OF K f del(1)]
  have "finite (dom (regs K (kq (kernel_goes K k ?ks s))))" using one(2) by simp
  note two = account_delete [OF K this, of "(fd (message_of s p), EVFILT_WRITE)" e' k']
  show ?thesis using one two w del(2)
    by (auto simp: after_cancel_def Let_def held_def intro!: keepsI)
qed

lemma keeps_close:
  assumes K: "kqueue_ok K" and f: "finite (dom (regs K (kq s)))" and w: "w < n" "worker s w = (ph, Setting p)"
    and cl: "fd_close K (kq s) (fd (message_of s p)) a k"
  shows "keeps K n s (after_close K w p a k s)"
  using kqueue_close [OF K cl] f w account_kernel [OF f, of k "fd_keys (fd (message_of s p))"]
    account_kernel_none [of K k s]
  by (auto simp: after_close_def Let_def held_def intro!: keepsI split: if_splits)

lemma keeps_connect:
  assumes "finite (dom (regs K (kq s)))" "w < n" "worker s w = (ph, Setting p)"
  shows "keeps K n s (after_connect w p a s)"
  using assms by (auto simp: after_connect_def Let_def held_def intro!: keepsI)

lemma keeps_process_one:
  assumes "finite (dom (regs K (kq s)))" "w < n" "worker s w = (ph, Handling (e # evs))"
  shows "keeps K n s (process_one w e evs a s)"
  using assms
  by (cases "ev_key e"; cases "ev_error e") (auto simp: process_one_def Let_def held_def held_events_def intro!: keepsI)

lemma keeps_wait:
  assumes K: "kqueue_ok K" and f: "finite (dom (regs K (kq s)))" and w: "w < n" "worker s w = (ph, Polling)"
    and wt: "kevent_wait K (kq s) (Inr evs) k"
  shows "keeps K n s (goto w (ph, if ph = Leaving \<and> evs = [] then Exited else Handling evs) (s\<lparr>kq := k\<rparr>))"
proof (rule keepsI)
  note r = kqueue_wait [OF K wt]
  show "finite (dom (regs K (kq (s\<lparr>kq := k\<rparr>))))" using f r by simp
  fix p
  show "accounted K n (s\<lparr>kq := k\<rparr>) p + count (held (snd (ph, if ph = Leaving \<and> evs = [] then Exited else Handling evs))) p =
      accounted K n s p + count (held (snd (worker (s\<lparr>kq := k\<rparr>) w))) p"
    using account_wait [OF f conjunct1 [OF r], of n p] r w by (auto simp: held_def held_events_def)
qed (rule w)

lemma account_queues:
  "accounted K n (s\<lparr>submission := x\<rparr>) p + count (submission s) p = accounted K n s p + count x p"
  "accounted K n (s\<lparr>completion := x\<rparr>) p + count (completion s) p = accounted K n s p + count x p"
  "accounted K n (s\<lparr>completion := x, handed := y\<rparr>) p + count (completion s) p + count (handed s) p =
     accounted K n s p + count x p + count y p"
  by (simp_all add: account_defs)

lemma keeps_enqueue:
  assumes "finite (dom (regs K (kq s)))" "w < n" "worker s w = (ph, Enqueuing p rest)"
  shows "keeps K n s (enqueue w p rest s)"
  unfolding enqueue_def
proof (rule keepsI)
  fix q
  show "accounted K n (s\<lparr>completion := add_mset p (completion s)\<rparr>) q +
      count (held (snd (fst (worker s w), case rest of None \<Rightarrow> Popping | Some evs \<Rightarrow> Handling evs))) q =
    accounted K n s q + count (held (snd (worker (s\<lparr>completion := add_mset p (completion s)\<rparr>) w))) q"
    using account_queues(2) [of K n "add_mset p (completion s)" s q] assms(3)
    by (auto simp: held_def split: option.splits if_splits)
qed (use assms in simp_all)

lemma keeps_pop:
  assumes "finite (dom (regs K (kq s)))" "w < n" "worker s w = (ph, Popping)" "p \<in># submission s"
  shows "keeps K n s (goto w (ph, Setting p) (s\<lparr>submission := submission s - {#p#}\<rparr>))"
proof (rule keepsI)
  fix q
  obtain c where "count (submission s) p = Suc c" using assms(4) by (metis count_greater_zero_iff gr0_implies_Suc)
  then show "accounted K n (s\<lparr>submission := submission s - {#p#}\<rparr>) q + count (held (snd (ph, Setting p))) q =
      accounted K n s q + count (held (snd (worker (s\<lparr>submission := submission s - {#p#}\<rparr>) w))) q"
    using account_queues(1) [of K n "submission s - {#p#}" s q] assms(3) by (cases "q = p") (simp_all add: held_def)
qed (use assms in simp_all)

lemma worker_step_keeps:
  assumes K: "kqueue_ok K" and f: "finite (dom (regs K (kq s)))" and w: "w < n" and step: "worker_step K w s t"
  shows "keeps K n s t"
  using step
proof cases
  case (ws_wait ph evs k)
  then show ?thesis using keeps_wait [OF K f w ws_wait(2,3)] by simp
next
  case (ws_wait_error ph e k)
  then show ?thesis using f w kqueue_wait_error [OF K ws_wait_error(3)]
    by (auto simp: held_def account_kq intro!: keepsI)
next
  case (ws_set_cancel ph p e k e' k')
  then show ?thesis using keeps_cancel [OF K f w] by simp
next
  case (ws_pop ph p)
  then show ?thesis using keeps_pop [OF f w] by simp
qed (use K f w in \<open>auto simp: held_def held_events_def intro!: keepsI keeps_register keeps_remove keeps_close
    keeps_connect keeps_process_one keeps_enqueue\<close>)

text \<open>Workers do not touch the records of the clients.\<close>

lemma step_logs [simp]:
  "committed (set_message q m s) = committed s" "committed (drop_messages D s) = committed s"
  "committed (kernel_goes K k ks s) = committed s" "committed (goto w pc s) = committed s"
  "cancels (set_message q m s) = cancels s" "cancels (drop_messages D s) = cancels s"
  "cancels (kernel_goes K k ks s) = cancels s" "cancels (goto w pc s) = cancels s"
  "handed (set_message q m s) = handed s" "handed (drop_messages D s) = handed s"
  "handed (kernel_goes K k ks s) = handed s" "handed (goto w pc s) = handed s"
  by (simp_all add: set_message_def drop_messages_def kernel_goes_def goto_def)

lemma worker_step_logs:
  "worker_step K w s t \<Longrightarrow> committed t = committed s \<and> cancels t = cancels s \<and> handed t = handed s"
  by (induction rule: worker_step.induct)
    (auto simp: after_register_def after_connect_def after_close_def after_remove_def after_cancel_def
      process_one_def enqueue_def Let_def split: option.splits prod.splits)

lemma io_inv_iff: "io_inv K n s \<longleftrightarrow> finite (dom (regs K (kq s))) \<and>
    (\<forall>p. count (committed s) p + count (cancels s) p = accounted K n s p) \<and>
    (\<forall>p. count (committed s) p \<le> count (handed s) p + 1)"
  by (simp add: io_inv_def accounted_def)

lemma io_inv_dequeue:
  assumes inv: "io_inv K n s" and pop: "can_pop s popped"
  shows "io_inv K n (fst (dequeue wait popped s))"
proof (cases popped)
  case None
  then show ?thesis using inv by (simp add: dequeue_def io_wait_cq_def io_peek_cq_def)
next
  case (Some p)
  then obtain c where c: "count (completion s) p = Suc c"
    using pop by (auto simp: can_pop_def) (metis count_greater_zero_iff gr0_implies_Suc)
  let ?t = "s\<lparr>completion := completion s - {#p#}, handed := add_mset p (handed s)\<rparr>"
  have "accounted K n ?t q = accounted K n s q" for q
    using account_queues(3) [of K n "add_mset p (handed s)" "completion s - {#p#}" s q] c by (cases "q = p") simp_all
  then have "io_inv K n ?t" using inv by (auto simp: io_inv_iff intro: le_SucI)
  then show ?thesis using Some inv by (simp add: dequeue_def io_wait_cq_def io_peek_cq_def)
qed

lemma io_inv_step:
  assumes K: "kqueue_ok K" and inv: "io_inv K n s" and step: "io_step K n s t"
  shows "io_inv K n t"
  using step
proof cases
  case (io_worker w)
  then show ?thesis using worker_step_keeps [OF K _ io_worker(1,2)] worker_step_logs [OF io_worker(2)] inv
    by (simp add: io_inv_iff keeps_def)
next
  case (io_commit p h r ok)
  then show ?thesis using inv
    by (auto simp: io_inv_iff commit_request_def try_submit_def Let_def account_defs set_message_def)
next
  case (io_dequeue popped wait)
  then show ?thesis using io_inv_dequeue [OF inv] by simp
qed (use inv in \<open>auto simp: io_inv_iff commit_cancel_def try_submit_def Let_def account_defs set_message_def stop_def\<close>)

lemma io_inv_start: "io_start K s \<Longrightarrow> io_inv K n s"
  by (auto simp: io_start_def io_inv_iff account_defs queue_new_def held_def registered_def)

interpretation io_queue: invariant_system "\<lambda>s. kqueue_ok K \<and> io_start K s" "\<lambda>s t. kqueue_ok K \<and> io_step K n s t"
  "io_inv K n"
  by unfold_locales (auto intro: io_inv_start io_inv_step)

definition io_reachable :: "'k kernel \<Rightarrow> nat \<Rightarrow> 'k io_state \<Rightarrow> bool" where
  "io_reachable K n s \<longleftrightarrow> reachable (io_start K) (io_step K n) s"

lemma io_reachable_inv: "kqueue_ok K \<Longrightarrow> io_reachable K n s \<Longrightarrow> io_inv K n s"
  unfolding io_reachable_def
  by (rule io_queue.reachable_inv) simp

subsection \<open>A message that is dropped stays dropped\<close>

lemma worker_step_dropped: "worker_step K w s t \<Longrightarrow> dropped s \<subseteq># dropped t"
  by (induction rule: worker_step.induct)
    (auto simp: after_register_def after_connect_def after_close_def after_remove_def after_cancel_def goto_def
      set_message_def drop_messages_def kernel_goes_def process_one_def enqueue_def Let_def split: option.splits prod.splits)

lemma cancels_grow: "io_step K n s t \<Longrightarrow> cancels s \<subseteq># cancels t"
  by (induction rule: io_step.induct)
    (auto simp: commit_request_def commit_cancel_def try_submit_def Let_def set_message_def dequeue_def
      io_wait_cq_def io_peek_cq_def stop_def dest: worker_step_logs split: option.splits)

lemma dropped_stays:
  assumes K: "kqueue_ok K" and inv: "io_inv K n s" and p: "p \<in># dropped s" "p \<notin># cancels t"
    and step: "io_step K n s t"
  shows "p \<in># dropped t \<and> count (handed t) p = count (handed s) p \<and> p \<notin># cancels s"
proof -
  have d: "0 < count (dropped s) p" using p(1) by simp
  have c: "count (cancels s) p \<le> count (cancels t) p" by (rule mset_subset_eq_count [OF cancels_grow [OF step]])
  then have cs: "count (cancels s) p = 0" using p(2) by (simp add: not_in_iff)
  have law: "count (committed s) p = in_flight K n s p + count (handed s) p + count (dropped s) p"
      "count (committed s) p \<le> count (handed s) p + 1"
    using inv cs by (auto simp: io_inv_def) (metis add.right_neutral)
  then have quiet: "count (completion s) p = 0" "count (committed s) p \<noteq> count (handed s) p"
    using d unfolding in_flight_def by linarith+
  from step have "p \<in># dropped t \<and> count (handed t) p = count (handed s) p"
  proof cases
    case (io_worker w)
    then show ?thesis using worker_step_dropped [OF io_worker(2)] worker_step_logs [OF io_worker(2)] p(1)
      by (auto dest: mset_subset_eqD)
  next
    case (io_dequeue popped wait)
    have "popped \<noteq> Some p" using io_dequeue(2) quiet(1) count_eq_zero_iff [of "completion s" p] by (auto simp: can_pop_def)
    then show ?thesis using io_dequeue(1) p(1)
      by (auto simp: dequeue_def io_wait_cq_def io_peek_cq_def split: option.splits)
  qed (use p(1) in \<open>auto simp: commit_request_def commit_cancel_def try_submit_def Let_def set_message_def stop_def\<close>)
  then show ?thesis using cs by (simp add: not_in_iff)
qed

lemma dropped_never_handed:
  assumes K: "kqueue_ok K"
  shows "(io_step K n)\<^sup>*\<^sup>* s u \<Longrightarrow> io_inv K n s \<Longrightarrow> p \<in># dropped s \<Longrightarrow> p \<notin># cancels u \<Longrightarrow>
    p \<in># dropped u \<and> count (handed u) p = count (handed s) p \<and> p \<notin># cancels s \<and> io_inv K n u"
proof (induction rule: rtranclp_induct)
  case (step t u)
  have inv: "io_inv K n t" using step.hyps(1) step.prems(1) io_inv_step [OF K] by (induction rule: rtranclp_induct) auto
  have "p \<notin># cancels t" using step.prems(3) mset_subset_eqD [OF cancels_grow [OF step.hyps(2)]] by blast
  then have IH: "p \<in># dropped t" "count (handed t) p = count (handed s) p" "p \<notin># cancels s"
    using step.IH step.prems by auto
  show ?case using dropped_stays [OF K inv IH(1) step.prems(3) step.hyps(2)] IH io_inv_step [OF K inv step.hyps(2)] by simp
qed simp

section \<open>A kernel that satisfies the contract\<close>

definition table_kernel :: "(key \<Rightarrow> nat option) kernel" where
  "table_kernel = \<lparr>
     kevent_change = (\<lambda>k c e k'.
       case c of
         Add key fl d u \<Rightarrow> e = 0 \<and> k' = k(key \<mapsto> u)
       | Delete key \<Rightarrow> (if k key = None then e = ENOENT \<and> k' = k else e = 0 \<and> k' = k(key := None))),
     kevent_wait = (\<lambda>k r k'.
       case r of
         Inl e \<Rightarrow> k' = k
       | Inr evs \<Rightarrow> distinct (event_keys evs) \<and>
           (\<forall>e\<in>set evs. ev_key e \<noteq> None \<longrightarrow> k (the (ev_key e)) = Some (udata e)) \<and>
           k' = k |` (- set (event_keys evs))),
     fd_close = (\<lambda>k d a k'. k' = (if ret a = -1 then k else k |` (- fd_keys d))),
     regs = id\<rparr>"

lemma table_kernel_ok: "kqueue_ok table_kernel"
  by (auto simp: kqueue_ok_def table_kernel_def ENOENT_def split: if_splits change.splits)

text \<open>Runs of one worker over this kernel.\<close>

definition demo :: "(nat \<Rightarrow> io_message) \<Rightarrow> nat multiset \<Rightarrow> nat multiset \<Rightarrow> (key \<Rightarrow> nat option) \<Rightarrow> worker_pc \<Rightarrow>
    nat multiset \<Rightarrow> nat multiset \<Rightarrow> nat multiset \<Rightarrow> (key \<Rightarrow> nat option) io_state" where
  "demo ms sub cq k pc com can han = \<lparr>message_of = ms, submission = sub, completion = cq, kq = k,
     worker = (\<lambda>_. (Running, Testing))(0 := (Running, pc)), m_stop = False,
     committed = com, cancels = can, handed = han, dropped = {#}\<rparr>"

definition demo_reach :: "(key \<Rightarrow> nat option) io_state \<Rightarrow> bool" where
  "demo_reach = io_reachable table_kernel 1"

lemma demo_step: "demo_reach s \<Longrightarrow> io_step table_kernel 1 s t \<Longrightarrow> demo_reach t"
  unfolding demo_reach_def io_reachable_def by (rule reachable_step)

lemma demo_worker: "demo_reach s \<Longrightarrow> worker_step table_kernel 0 s t \<Longrightarrow> demo_reach t"
  by (erule demo_step) (rule io_worker, simp_all)

lemma demo_start: "demo_reach (demo (\<lambda>_. new_message) {#} {#} Map.empty Popping {#} {#} {#})"
proof -
  have "io_start table_kernel (queue_new Map.empty)" by (simp add: io_start_def table_kernel_def)
  then have "demo_reach (queue_new Map.empty)"
    unfolding demo_reach_def io_reachable_def by (rule reachable_init)
  from demo_worker [OF this ws_test] show ?thesis
    by (simp add: queue_new_def goto_def demo_def)
qed

lemma demo_commit:
  assumes "demo_reach (demo ms sub cq k pc com can han)" "p \<noteq> 0" "count com p = count han p"
  shows "demo_reach (demo (ms(p := transact r (new_message\<lparr>handle := h\<rparr>))) (add_mset p sub) cq k pc (add_mset p com) can han)"
  using demo_step [OF assms(1) io_commit [of p _ _ _ h r True]] assms(2,3)
  by (simp add: commit_request_def try_submit_def set_message_def demo_def)

lemma demo_cancel:
  assumes "demo_reach (demo ms sub cq k pc com can han)"
  shows "demo_reach (demo (ms(p := cancel (ms p))) (add_mset p sub) cq k pc com (add_mset p can) han)"
  using demo_step [OF assms io_cancel [of _ _ _ p True]]
  by (simp add: commit_cancel_def try_submit_def set_message_def demo_def)

lemma demo_pop:
  assumes "demo_reach (demo ms (add_mset p sub) cq k Popping com can han)"
  shows "demo_reach (demo ms sub cq k (Setting p) com can han)"
  using demo_worker [OF assms ws_pop [of _ 0 Running p]] by (simp add: goto_def demo_def)

lemma demo_handle_cancel:
  assumes "demo_reach (demo ms sub cq Map.empty (Setting p) com can han)" "operation (ms p) = CANCEL"
  shows "demo_reach (demo (ms(p := finished_at_once (ms p))) sub (add_mset p cq) Map.empty Popping com can han)"
proof -
  have "demo_reach (demo (ms(p := finished_at_once (ms p))) sub cq Map.empty (Enqueuing p None) com can han)"
    using demo_worker [OF assms(1) ws_set_cancel [of _ 0 Running p _ ENOENT Map.empty ENOENT Map.empty]] assms(2)
    by (simp add: table_kernel_def demo_def goto_def set_message_def after_cancel_def kernel_goes_def
      drop_messages_def registered_none ENOENT_def)
  from demo_worker [OF this ws_enqueue [of _ 0 Running p None]] show ?thesis
    by (simp add: enqueue_def goto_def demo_def)
qed

lemma demo_register:
  assumes "demo_reach (demo ms sub cq k (Setting p) com can han)" "operation (ms p) = READ"
  shows "demo_reach (demo ms sub cq k (Registering p ((fd (ms p), EVFILT_READ), 0, 0)) com can han)"
  using demo_worker [OF assms(1) ws_set_register [of _ 0 Running p "((fd (ms p), EVFILT_READ), 0, 0)"]] assms(2)
  by (simp add: registration_def goto_def demo_def)

lemma demo_registered:
  assumes "demo_reach (demo ms sub cq k (Registering p (key, 0, 0)) com can han)" "k key = None"
  shows "demo_reach (demo ms sub cq (k(key \<mapsto> p)) Popping com can han)"
proof -
  have "dom k \<inter> {key} = {}" using assms(2) by auto
  then have "registered k {key} = {#}" by (simp add: registered_def)
  then show ?thesis
    using demo_worker [OF assms(1) ws_register [of _ 0 Running p key 0 0 _ 0 "k(key \<mapsto> p)"]]
    by (simp add: table_kernel_def goto_def demo_def after_register_def kernel_goes_def drop_messages_def)
qed

lemma demo_dequeue:
  assumes "demo_reach (demo ms sub (add_mset p cq) k pc com can han)"
  shows "demo_reach (demo ms sub cq k pc com can (add_mset p han))"
  using demo_step [OF assms io_dequeue [of _ "Some p" _ _ False]]
  by (simp add: can_pop_def dequeue_def io_peek_cq_def demo_def)

section \<open>Properties\<close>

text \<open>
  C14. Under every interleaving of clients and workers, whatever the system calls answer, every
  committed message that is not cancelled is in exactly one of these conditions: given back to a
  thread of io_service once for the commit, in exactly one place on the way (a queue, the kernel,
  a worker's hands), or dropped. So no coroutine is resumed twice for one request.
\<close>

theorem io_requests_complete_once:
  assumes "kqueue_ok K" "io_reachable K n s" "p \<notin># cancels s"
  shows "count (committed s) p = count (handed s) p + in_flight K n s p + count (dropped s) p \<and>
    in_flight K n s p + count (dropped s) p \<le> 1"
proof -
  have "count (committed s) p + 0 = in_flight K n s p + count (handed s) p + count (dropped s) p"
      "count (committed s) p \<le> count (handed s) p + 1"
    using io_reachable_inv [OF assms(1,2)] assms(3) by (simp_all add: io_inv_def not_in_iff) (metis add.right_neutral)
  then show ?thesis by simp
qed

theorem io_requests_complete_once_witness:
  "\<exists>s. count (committed s) 8 = 1 \<and> in_flight table_kernel 1 s 8 + count (dropped s) 8 \<le> 1 \<and>
     count (handed s) 8 + in_flight table_kernel 1 s 8 + count (dropped s) 8 = 1"
proof -
  let ?s = "demo ((\<lambda>_. new_message)(8 := transact (Read 5 100 16) (new_message\<lparr>handle := 1\<rparr>)))
    {#8#} {#} Map.empty Popping {#8#} {#} {#}"
  have "demo_reach ?s" using demo_commit [OF demo_start, of 8 "Read 5 100 16" 1] by simp
  then have "io_reachable table_kernel 1 ?s" by (simp add: demo_reach_def)
  from io_requests_complete_once [OF table_kernel_ok this, of 8] show ?thesis
    by (intro exI [of _ ?s]) (simp add: demo_def)
qed

lemma registered_one: "R key = Some p \<Longrightarrow> registered R {key} = {#p#}"
proof -
  assume R: "R key = Some p"
  then have "dom R \<inter> {key} = {key}" by auto
  then show ?thesis using R by (simp add: registered_def)
qed

text \<open>
  Two requests that wait for the same event of a descriptor, say two reads: when the second is
  registered while the first still waits, it takes the first one's place in the kernel, and the
  first request is never completed: whatever happens later, its coroutine is not resumed.
\<close>

theorem second_registration_strands_first:
  assumes "kqueue_ok K" "io_reachable K n s" "w < n"
    "worker s w = (ph, Registering q (key, fl, d))" "kevent_change K (kq s) (Add key fl d q) 0 k"
    "regs K (kq s) key = Some p"
    "(io_step K n)\<^sup>*\<^sup>* (after_register K w q key 0 k s) u" "p \<notin># cancels u"
  shows "count (handed u) p = count (handed s) p \<and> count (committed u) p = count (handed u) p + 1"
proof -
  let ?t = "after_register K w q key 0 k s"
  have step: "io_step K n s ?t" by (rule io_worker [OF assms(3)]) (rule ws_register [OF assms(4,5)])
  have inv: "io_inv K n ?t" using io_inv_step [OF assms(1) _ step] io_reachable_inv [OF assms(1,2)] by blast
  have "p \<in># dropped ?t" and h: "handed ?t = handed s"
    using registered_one [of "regs K (kq s)" key p] assms(6)
    by (simp_all add: after_register_def Let_def goto_def kernel_goes_def drop_messages_def)
  from dropped_never_handed [OF assms(1,7) inv this(1) assms(8)]
  have u: "p \<in># dropped u" "count (handed u) p = count (handed s) p" "io_inv K n u" using h by simp_all
  have "count (committed u) p + 0 = in_flight K n u p + count (handed u) p + count (dropped u) p"
      "count (committed u) p \<le> count (handed u) p + 1"
    using u(3) assms(8) by (simp_all add: io_inv_def not_in_iff) (metis add.right_neutral)
  moreover obtain c where "count (dropped u) p = Suc c" using u(1) by (metis count_greater_zero_iff gr0_implies_Suc)
  ultimately show ?thesis using u(2) by simp
qed

theorem second_registration_strands_first_witness:
  "\<exists>u. io_reachable table_kernel 1 u \<and> count (handed u) 8 = 0 \<and> count (committed u) 8 = 1 \<and>
     regs table_kernel (kq u) (5, EVFILT_READ) = Some 9"
proof -
  note d = transact_defs new_message_def
  define ms where "ms = (\<lambda>_ :: nat. new_message)(8 := transact (Read 5 100 16) (new_message\<lparr>handle := 1\<rparr>),
    9 := transact (Read 5 200 16) (new_message\<lparr>handle := 2\<rparr>))"
  define k where "k = [(5 :: int, EVFILT_READ) \<mapsto> (8 :: nat)]"
  have ms: "operation (ms 8) = READ" "operation (ms 9) = READ" "fd (ms 8) = 5" "fd (ms 9) = 5"
    by (simp_all add: ms_def d)
  have "demo_reach (demo ms {#8, 9#} {#} Map.empty Popping {#9, 8#} {#} {#})"
    using demo_commit [OF demo_commit [OF demo_start, of 8 "Read 5 100 16" 1], of 9 "Read 5 200 16" 2]
    by (simp add: ms_def add_mset_commute)
  from demo_register [OF demo_pop [OF this] ms(1)]
  have "demo_reach (demo ms {#9#} {#} k Popping {#9, 8#} {#} {#})"
    unfolding ms k_def by (rule demo_registered) simp
  from demo_register [OF demo_pop [OF this] ms(2)]
  have r: "demo_reach (demo ms {#} {#} k (Registering 9 ((5, EVFILT_READ), 0, 0)) {#9, 8#} {#} {#})"
    by (simp only: ms)
  define s where "s = demo ms {#} {#} k (Registering 9 ((5, EVFILT_READ), 0, 0)) {#9, 8#} {#} {#}"
  define u where "u = after_register table_kernel 0 9 (5, EVFILT_READ) 0 (k((5, EVFILT_READ) \<mapsto> 9)) s"
  have s: "io_reachable table_kernel 1 s" "worker s 0 = (Running, Registering 9 ((5, EVFILT_READ), 0, 0))"
      "kevent_change table_kernel (kq s) (Add (5, EVFILT_READ) 0 0 9) 0 (k((5, EVFILT_READ) \<mapsto> 9))"
      "regs table_kernel (kq s) (5, EVFILT_READ) = Some 8"
    using r by (simp_all add: s_def demo_reach_def demo_def table_kernel_def k_def)
  have u: "committed u = {#9, 8#}" "kq u = k((5, EVFILT_READ) \<mapsto> 9)" "cancels u = {#}" "handed s = {#}"
    by (simp_all add: u_def s_def after_register_def demo_def goto_def kernel_goes_def drop_messages_def)
  have "count (handed u) 8 = count (handed s) 8 \<and> count (committed u) 8 = count (handed u) 8 + 1"
    using second_registration_strands_first [OF table_kernel_ok s(1) _ s(2,3,4), of u] u(3) by (simp add: u_def)
  moreover have "io_reachable table_kernel 1 u"
    using demo_worker [OF r [folded s_def] ws_register [OF s(2,3)]] by (simp add: u_def demo_reach_def)
  ultimately show ?thesis using u by (intro exI [of _ u]) (simp add: table_kernel_def)
qed

text \<open>
  A cancelled request is completed twice: the cancellation commits the message again while the
  message is still on its way, so that both commits come back, and the coroutine that waits for the
  one request is resumed twice, the second time after it may have ended.
\<close>

theorem cancelled_request_completes_twice:
  "\<exists>s. io_reachable table_kernel 1 s \<and> count (committed s) 8 = 1 \<and> count (handed s) 8 = 2"
proof -
  define m where "m = cancel (transact (Read 5 100 16) (new_message\<lparr>handle := 1\<rparr>))"
  have m: "operation m = CANCEL" "operation (finished_at_once m) = CANCEL" "finished_at_once (finished_at_once m) = finished_at_once m"
    by (simp_all add: m_def cancel_def transact_defs finished_at_once_def)
  let ?ms = "\<lambda>m. (\<lambda>_. new_message)(8 := m)"
  have "demo_reach (demo (?ms m) {#8, 8#} {#} Map.empty Popping {#8#} {#8#} {#})"
    using demo_cancel [OF demo_commit [OF demo_start, of 8 "Read 5 100 16" 1], of 8] by (simp add: m_def)
  from demo_handle_cancel [OF demo_pop [OF this]] m(1)
  have "demo_reach (demo (?ms (finished_at_once m)) {#8#} {#8#} Map.empty Popping {#8#} {#8#} {#})" by simp
  from demo_handle_cancel [OF demo_pop [OF this]] m(2)
  have "demo_reach (demo (?ms (finished_at_once m)) {#} {#8, 8#} Map.empty Popping {#8#} {#8#} {#})" by (simp add: m(3))
  from demo_dequeue [OF demo_dequeue [OF this]] have r: "demo_reach (demo (?ms (finished_at_once m)) {#} {#} Map.empty Popping {#8#} {#8#} {#8, 8#})" .
  show ?thesis
    by (rule exI [of _ "demo (?ms (finished_at_once m)) {#} {#} Map.empty Popping {#8#} {#8#} {#8, 8#}"])
      (use r in \<open>simp add: demo_reach_def demo_def\<close>)
qed

end
