(* ===== verification/Io_Wait.thy ===== *)
theory Io_Wait
  imports Coro_Prelude "HOL-Library.Multiset"
begin

text \<open>
  Waiting for completed messages in include/coro/detail/macos.h while calls overlap: \<open>io_wait_cq\<close>,
  \<open>io_peek_cq\<close>, \<open>enqueue\<close> and \<open>stop\<close> of message_queue, with the mutex and the condition variable. Io_Queue
  has them as single steps. A condition variable may wake a thread without cause, notify_one wakes one
  of the threads that wait, if there is one, and notify_all wakes them all; a thread that has been woken
  takes the mutex again before it goes on.
\<close>

section \<open>State\<close>

text \<open>
  A thread in \<open>io_wait_cq\<close>: before the mutex (also after it was woken), testing the two parts of the
  condition, about to wait and waiting, reading \<open>m_stop\<close>, popping. In \<open>io_peek_cq\<close>, in \<open>enqueue\<close> and in
  \<open>stop\<close>, which does not take the mutex.
\<close>

datatype cq_pc =
    Away
  | W_lock | W_test_queue | W_test_stop | W_block | W_asleep | W_relock | W_decide | W_pop
  | P_pop
  | E_push nat | E_lock | E_notify
  | S_store | S_notify

datatype cq_answer = No_answer | Message nat | Again | Canceled

record cq =
  m_completion_queue :: "nat multiset"
  m_stop :: bool
  m_cqe_mutex :: "nat option"
  pc :: "nat \<Rightarrow> cq_pc"
  answer :: "nat \<Rightarrow> cq_answer"

definition cq_new :: cq where
  "cq_new = \<lparr>m_completion_queue = {#}, m_stop = False, m_cqe_mutex = None, pc = (\<lambda>_. Away), answer = (\<lambda>_. No_answer)\<rparr>"

definition goto :: "nat \<Rightarrow> cq_pc \<Rightarrow> cq \<Rightarrow> cq" where
  "goto t p s = s\<lparr>pc := (pc s)(t := p)\<rparr>"

definition return_from :: "nat \<Rightarrow> cq_answer \<Rightarrow> cq \<Rightarrow> cq" where
  "return_from t a s = (goto t Away s)\<lparr>answer := (answer s)(t := a)\<rparr>"

definition lock_cqe :: "nat \<Rightarrow> cq_pc \<Rightarrow> cq \<Rightarrow> cq" where
  "lock_cqe t p s = (if m_cqe_mutex s = None then (goto t p s)\<lparr>m_cqe_mutex := Some t\<rparr> else s)"

definition unlock_cqe :: "cq \<Rightarrow> cq" where
  "unlock_cqe s = s\<lparr>m_cqe_mutex := None\<rparr>"

text \<open>A pop takes any message, \<open>p\<close>, and finds none only in an empty queue.\<close>

definition pop_completion :: "nat \<Rightarrow> nat \<Rightarrow> cq \<Rightarrow> cq" where
  "pop_completion t p s =
     (if p \<in># m_completion_queue s then (return_from t (Message p) s)\<lparr>m_completion_queue := m_completion_queue s - {#p#}\<rparr>
      else if m_completion_queue s = {#} then return_from t Again s else s)"

section \<open>Steps\<close>

definition io_wait_cq :: "nat \<Rightarrow> nat \<Rightarrow> cq \<Rightarrow> cq" where
  "io_wait_cq t p s =
     (case pc s t of
        W_lock \<Rightarrow> lock_cqe t W_test_queue s
      | W_test_queue \<Rightarrow> goto t (if m_completion_queue s \<noteq> {#} then W_decide else W_test_stop) s
      | W_test_stop \<Rightarrow> goto t (if m_stop s then W_decide else W_block) s
      | W_block \<Rightarrow> unlock_cqe (goto t W_asleep s)
      | W_asleep \<Rightarrow> goto t W_relock s
      | W_relock \<Rightarrow> lock_cqe t W_test_queue s
      | W_decide \<Rightarrow> if m_stop s then unlock_cqe (return_from t Canceled s) else goto t W_pop s
      | W_pop \<Rightarrow> if p \<in># m_completion_queue s \<or> m_completion_queue s = {#} then unlock_cqe (pop_completion t p s) else s
      | _ \<Rightarrow> s)"

definition io_peek_cq :: "nat \<Rightarrow> nat \<Rightarrow> cq \<Rightarrow> cq" where
  "io_peek_cq t p s = (if pc s t = P_pop then pop_completion t p s else s)"

text \<open>A push may be refused and is repeated; \<open>w\<close> is the thread that notify_one wakes.\<close>

definition enqueue :: "nat \<Rightarrow> bool \<Rightarrow> nat option \<Rightarrow> cq \<Rightarrow> cq" where
  "enqueue t full w s =
     (case pc s t of
        E_push p \<Rightarrow> if full then s else (goto t E_lock s)\<lparr>m_completion_queue := add_mset p (m_completion_queue s)\<rparr>
      | E_lock \<Rightarrow> lock_cqe t E_notify s
      | E_notify \<Rightarrow> unlock_cqe (goto t Away (case w of Some i \<Rightarrow> goto i W_relock s | None \<Rightarrow> s))
      | _ \<Rightarrow> s)"

definition wake_all :: "cq \<Rightarrow> cq" where
  "wake_all s = s\<lparr>pc := (\<lambda>t. if pc s t = W_asleep then W_relock else pc s t)\<rparr>"

definition stop :: "nat \<Rightarrow> cq \<Rightarrow> cq" where
  "stop t s =
     (case pc s t of
        S_store \<Rightarrow> (goto t S_notify s)\<lparr>m_stop := True\<rparr>
      | S_notify \<Rightarrow> wake_all (goto t Away s)
      | _ \<Rightarrow> s)"

text \<open>\<open>dequeue\<close> calls the first or the second by its argument.\<close>

definition dequeue_start :: "nat \<Rightarrow> bool \<Rightarrow> cq \<Rightarrow> cq" where
  "dequeue_start t wait s = goto t (if wait then W_lock else P_pop) s"

text \<open>Whom notify_one may wake.\<close>

definition may_notify :: "nat \<Rightarrow> nat option \<Rightarrow> cq \<Rightarrow> bool" where
  "may_notify N w s \<longleftrightarrow> (case w of Some i \<Rightarrow> i < N \<and> pc s i = W_asleep | None \<Rightarrow> \<forall>i<N. pc s i \<noteq> W_asleep)"

inductive cq_step :: "nat \<Rightarrow> cq \<Rightarrow> cq \<Rightarrow> bool" for N where
  cs_dequeue: "t < N \<Longrightarrow> pc s t = Away \<Longrightarrow> cq_step N s (dequeue_start t wait s)"
| cs_enqueue: "t < N \<Longrightarrow> pc s t = Away \<Longrightarrow> cq_step N s (goto t (E_push p) s)"
| cs_stop: "t < N \<Longrightarrow> pc s t = Away \<Longrightarrow> cq_step N s (goto t S_store s)"
| cs_wait_step: "t < N \<Longrightarrow> cq_step N s (io_wait_cq t p s)"
| cs_peek_step: "t < N \<Longrightarrow> cq_step N s (io_peek_cq t p s)"
| cs_enqueue_step: "t < N \<Longrightarrow> may_notify N w s \<Longrightarrow> cq_step N s (enqueue t full w s)"
| cs_stop_step: "t < N \<Longrightarrow> cq_step N s (stop t s)"

abbreviation cq_reachable :: "nat \<Rightarrow> cq \<Rightarrow> bool" where
  "cq_reachable N \<equiv> reachable (\<lambda>s. s = cq_new) (cq_step N)"

section \<open>The invariant\<close>

definition holds_mutex :: "cq_pc \<Rightarrow> bool" where
  "holds_mutex p \<longleftrightarrow> p \<in> {W_test_queue, W_test_stop, W_block, W_decide, W_pop, E_notify}"

text \<open>A thread that will look at the queue again or wake one that will.\<close>

definition attends :: "cq_pc \<Rightarrow> bool" where
  "attends p \<longleftrightarrow> p \<in> {W_lock, W_test_queue, W_relock, W_decide, W_pop, E_lock, E_notify}"

definition sleeps :: "cq_pc \<Rightarrow> bool" where
  "sleeps p \<longleftrightarrow> p \<in> {W_test_stop, W_block, W_asleep}"

definition attending :: "nat \<Rightarrow> cq \<Rightarrow> nat" where
  "attending N s = (\<Sum>t<N. if attends (pc s t) then 1 else 0)"

definition cq_inv :: "nat \<Rightarrow> cq \<Rightarrow> bool" where
  "cq_inv N s \<longleftrightarrow>
     (\<forall>t<N. holds_mutex (pc s t) \<longleftrightarrow> m_cqe_mutex s = Some t) \<and>
     (\<not> m_stop s \<longrightarrow> (\<exists>t<N. sleeps (pc s t)) \<longrightarrow> size (m_completion_queue s) \<le> attending N s)"

lemma attending_upd:
  "t < N \<Longrightarrow> pc s' = (pc s)(t := p) \<Longrightarrow>
    attending N s' + (if attends (pc s t) then 1 else 0) = attending N s + (if attends p then 1 else 0)"
  unfolding attending_def
  using sum_upd_process [of t N "\<lambda>p. if attends p then 1 else 0" "pc s" p] by simp

text \<open>One thread moves.\<close>

lemma cq_inv_moves:
  assumes inv: "cq_inv N s" and t: "t < N" "pc s' = (pc s)(t := p)"
    and mine: "holds_mutex p \<longleftrightarrow> m_cqe_mutex s' = Some t"
    and others: "\<And>j. j \<noteq> t \<Longrightarrow> m_cqe_mutex s' = Some j \<longleftrightarrow> m_cqe_mutex s = Some j"
    and stopped: "m_stop s \<Longrightarrow> m_stop s'"
    and queue: "\<not> m_stop s' \<Longrightarrow> m_completion_queue s' = {#} \<or>
      (size (m_completion_queue s') + (if attends (pc s t) then 1 else 0) \<le> size (m_completion_queue s) + (if attends p then 1 else 0) \<and>
       (sleeps p \<longrightarrow> sleeps (pc s t)))"
  shows "cq_inv N s'"
proof -
  have "holds_mutex (pc s' j) \<longleftrightarrow> m_cqe_mutex s' = Some j" if "j < N" for j
    using inv mine others [of j] that t by (cases "j = t") (simp_all add: cq_inv_def)
  moreover have "size (m_completion_queue s') \<le> attending N s'" if run: "\<not> m_stop s'" and sleeper: "j < N" "sleeps (pc s' j)" for j
  proof (cases "m_completion_queue s' = {#}")
    case False
    then have q: "size (m_completion_queue s') + (if attends (pc s t) then 1 else 0) \<le> size (m_completion_queue s) + (if attends p then 1 else 0)"
      and sl: "sleeps p \<longrightarrow> sleeps (pc s t)" using queue [OF run] by auto
    have "\<exists>j<N. sleeps (pc s j)" using sleeper sl t by (cases "j = t") auto
    then have "size (m_completion_queue s) \<le> attending N s" using inv run stopped by (auto simp: cq_inv_def)
    then show ?thesis using q attending_upd [OF t] by linarith
  qed simp
  ultimately show ?thesis by (auto simp: cq_inv_def)
qed

lemma cq_simps [simp]:
  "pc (goto t p s) = (pc s)(t := p)" "m_completion_queue (goto t p s) = m_completion_queue s" "m_stop (goto t p s) = m_stop s"
  "m_cqe_mutex (goto t p s) = m_cqe_mutex s"
  "pc (return_from t a s) = (pc s)(t := Away)" "m_completion_queue (return_from t a s) = m_completion_queue s"
  "m_stop (return_from t a s) = m_stop s" "m_cqe_mutex (return_from t a s) = m_cqe_mutex s"
  "pc (unlock_cqe s) = pc s" "m_completion_queue (unlock_cqe s) = m_completion_queue s" "m_stop (unlock_cqe s) = m_stop s"
  "m_cqe_mutex (unlock_cqe s) = None"
  by (simp_all add: goto_def return_from_def unlock_cqe_def)

lemma cq_inv_lock:
  assumes inv: "cq_inv N s" and t: "t < N" "attends (pc s t)" and p: "holds_mutex p" "attends p" "\<not> sleeps p"
  shows "cq_inv N (lock_cqe t p s)"
proof (cases "m_cqe_mutex s = None")
  case True
  then show ?thesis using p t by (intro cq_inv_moves [OF inv t(1), of _ p]) (auto simp: lock_cqe_def)
next
  case False
  then have "lock_cqe t p s = s" unfolding lock_cqe_def by (rule if_not_P)
  then show ?thesis using inv by simp
qed

lemma cq_inv_mutex: "cq_inv N s \<Longrightarrow> t < N \<Longrightarrow> holds_mutex (pc s t) \<longleftrightarrow> m_cqe_mutex s = Some t"
  by (simp add: cq_inv_def)

lemmas cq_kinds = holds_mutex_def attends_def sleeps_def

lemma cq_inv_popped:
  assumes inv: "cq_inv N s" and t: "t < N" and p: "pc s t = P_pop \<or> pc s t = W_pop" "p \<in># m_completion_queue s \<or> m_completion_queue s = {#}"
    and m: "m_cqe_mutex s' = (if pc s t = W_pop then None else m_cqe_mutex s)"
    and s': "pc s' = pc (pop_completion t p s)" "m_completion_queue s' = m_completion_queue (pop_completion t p s)" "m_stop s' = m_stop s"
  shows "cq_inv N s'"
proof (rule cq_inv_moves [OF inv t, of _ Away])
  show "pc s' = (pc s)(t := Away)" using p(2) by (auto simp: s' pop_completion_def)
  show "holds_mutex Away \<longleftrightarrow> m_cqe_mutex s' = Some t" using p cq_inv_mutex [OF inv t] by (auto simp: m cq_kinds)
  show "m_cqe_mutex s' = Some j \<longleftrightarrow> m_cqe_mutex s = Some j" if "j \<noteq> t" for j
    using that cq_inv_mutex [OF inv t] by (auto simp: m cq_kinds)
  show "m_completion_queue s' = {#} \<or>
      (size (m_completion_queue s') + (if attends (pc s t) then 1 else 0) \<le> size (m_completion_queue s) + (if attends Away then 1 else 0) \<and>
       (sleeps Away \<longrightarrow> sleeps (pc s t)))"
  proof (cases "p \<in># m_completion_queue s")
    case True
    then have "size (m_completion_queue s') + 1 = size (m_completion_queue s)"
      by (simp add: s' pop_completion_def size_Diff_singleton) (metis Suc_pred size_eq_Suc_imp_eq_union nonempty_has_size empty_not_add_mset insert_DiffM)
    then show ?thesis by (simp add: cq_kinds)
  qed (use p(2) in \<open>simp add: s' pop_completion_def\<close>)
qed (simp_all add: s')

lemma cq_inv_wait:
  assumes inv: "cq_inv N s" and t: "t < N"
  shows "cq_inv N (io_wait_cq t p s)"
proof -
  note mutex = cq_inv_mutex [OF inv t]
  note moves = cq_inv_moves [OF inv t]
  show ?thesis
  proof (cases "pc s t")
    case W_lock
    then show ?thesis using cq_inv_lock [OF inv t] by (simp add: io_wait_cq_def cq_kinds)
  next
    case W_relock
    then show ?thesis using cq_inv_lock [OF inv t] by (simp add: io_wait_cq_def cq_kinds)
  next
    case W_test_queue
    then show ?thesis using mutex
      by (intro moves [of _ "if m_completion_queue s \<noteq> {#} then W_decide else W_test_stop"]) (auto simp: io_wait_cq_def cq_kinds)
  next
    case W_test_stop
    then show ?thesis using mutex
      by (intro moves [of _ "if m_stop s then W_decide else W_block"]) (auto simp: io_wait_cq_def cq_kinds)
  next
    case W_block
    then show ?thesis using mutex by (intro moves [of _ W_asleep]) (auto simp: io_wait_cq_def cq_kinds)
  next
    case W_asleep
    then show ?thesis using mutex by (intro moves [of _ W_relock]) (auto simp: io_wait_cq_def cq_kinds)
  next
    case W_decide
    then show ?thesis using mutex
      by (intro moves [of _ "if m_stop s then Away else W_pop"]) (auto simp: io_wait_cq_def cq_kinds)
  next
    case W_pop
    show ?thesis
    proof (cases "p \<in># m_completion_queue s \<or> m_completion_queue s = {#}")
      case True
      then have "io_wait_cq t p s = unlock_cqe (pop_completion t p s)" using W_pop by (simp add: io_wait_cq_def)
      then show ?thesis using W_pop True
        by (intro cq_inv_popped [OF inv t _ True]) (auto simp: pop_completion_def)
    next
      case False
      then show ?thesis using W_pop inv by (simp add: io_wait_cq_def)
    qed
  qed (simp_all add: io_wait_cq_def inv)
qed

lemma cq_inv_enqueue:
  assumes inv: "cq_inv N s" and t: "t < N" and w: "may_notify N w s"
  shows "cq_inv N (enqueue t full w s)"
proof -
  note mutex = cq_inv_mutex [OF inv t]
  show ?thesis
  proof (cases "pc s t")
    case (E_push p)
    show ?thesis
    proof (cases full)
      case True
      then show ?thesis using E_push inv by (simp add: enqueue_def)
    next
      case False
      then show ?thesis using E_push mutex
        by (intro cq_inv_moves [OF inv t, of _ E_lock]) (auto simp: enqueue_def cq_kinds)
    qed
  next
    case E_lock
    then show ?thesis using cq_inv_lock [OF inv t] by (simp add: enqueue_def cq_kinds)
  next
    case E_notify
    then have holder: "m_cqe_mutex s = Some t" using mutex by (simp add: cq_kinds)
    have only: "\<not> holds_mutex (pc s j)" if "j < N" "j \<noteq> t" for j
      using cq_inv_mutex [OF inv that(1)] holder that(2) by simp
    show ?thesis
    proof (cases w)
      case None
      have "\<not> sleeps (pc s j)" if "j < N" for j
        using w only [OF that] None that E_notify by (cases "j = t") (auto simp: may_notify_def cq_kinds)
      then have "\<not> (\<exists>j<N. sleeps (pc (enqueue t full w s) j))" using E_notify None by (auto simp: enqueue_def cq_kinds)
      moreover have "holds_mutex (pc (enqueue t full w s) j) \<longleftrightarrow> m_cqe_mutex (enqueue t full w s) = Some j" if "j < N" for j
        using only [OF that] E_notify None by (auto simp: enqueue_def holds_mutex_def)
      ultimately show ?thesis unfolding cq_inv_def by blast
    next
      case (Some i)
      then have i: "i < N" "pc s i = W_asleep" "i \<noteq> t" using w E_notify by (auto simp: may_notify_def)
      have "cq_inv N (goto i W_relock s)" using cq_inv_mutex [OF inv i(1)] i
        by (intro cq_inv_moves [OF inv i(1), of _ W_relock]) (auto simp: cq_kinds)
      note inv1 = this
      have at: "pc (goto i W_relock s) t = E_notify" using E_notify i by simp
      have up: "attending N (goto i W_relock s) = attending N s + 1"
        using attending_upd [OF i(1), of "goto i W_relock s" s W_relock] i by (simp add: cq_kinds)
      let ?s = "enqueue t full w s"
      have pc: "pc ?s = (pc (goto i W_relock s))(t := Away)" and q: "m_completion_queue ?s = m_completion_queue s" "m_stop ?s = m_stop s" "m_cqe_mutex ?s = None"
        using E_notify Some by (simp_all add: enqueue_def)
      have "attending N ?s + 1 = attending N (goto i W_relock s)"
        using attending_upd [OF t pc] at by (simp add: cq_kinds)
      then have count: "attending N ?s = attending N s" using up by simp
      have "size (m_completion_queue ?s) \<le> attending N ?s" if "\<not> m_stop ?s"
        using inv i that unfolding count q cq_inv_def sleeps_def by auto
      moreover have "holds_mutex (pc ?s j) \<longleftrightarrow> m_cqe_mutex ?s = Some j" if "j < N" for j
        using only [OF that] unfolding pc q by (cases "j = t"; cases "j = i") (auto simp: holds_mutex_def)
      ultimately show ?thesis by (auto simp: cq_inv_def)
    qed
  qed (simp_all add: enqueue_def inv)
qed

lemma cq_inv_wake_all:
  assumes inv: "cq_inv N r"
  shows "cq_inv N (wake_all r)"
proof -
  have more: "attending N r \<le> attending N (wake_all r)"
    unfolding attending_def wake_all_def by (rule sum_mono) (simp add: cq_kinds)
  have same: "m_stop (wake_all r) = m_stop r" "m_completion_queue (wake_all r) = m_completion_queue r"
      "m_cqe_mutex (wake_all r) = m_cqe_mutex r" "holds_mutex (pc (wake_all r) j) = holds_mutex (pc r j)"
      "sleeps (pc (wake_all r) j) \<Longrightarrow> sleeps (pc r j)" for j
    by (auto simp: wake_all_def cq_kinds split: if_splits)
  have "size (m_completion_queue r) \<le> attending N r" if "\<not> m_stop r" "j < N" "sleeps (pc (wake_all r) j)" for j
    using inv that same(5) unfolding cq_inv_def by blast
  then show ?thesis using inv more unfolding cq_inv_def same(1-4) by (meson order_trans)
qed

lemma cq_inv_stop:
  assumes inv: "cq_inv N s" and t: "t < N"
  shows "cq_inv N (stop t s)"
proof (cases "pc s t")
  case S_store
  then show ?thesis using cq_inv_mutex [OF inv t]
    by (intro cq_inv_moves [OF inv t, of _ S_notify]) (auto simp: stop_def cq_kinds)
next
  case S_notify
  have "cq_inv N (goto t Away s)" using S_notify cq_inv_mutex [OF inv t]
    by (intro cq_inv_moves [OF inv t, of _ Away]) (auto simp: cq_kinds)
  then have "cq_inv N (wake_all (goto t Away s))" by (rule cq_inv_wake_all)
  then show ?thesis using S_notify by (simp add: stop_def)
qed (simp_all add: stop_def inv)

interpretation cq_sys: invariant_system "\<lambda>s. s = cq_new" "cq_step N" "cq_inv N" for N
proof
  fix s t
  assume inv: "cq_inv N s" and step: "cq_step N s t"
  from step show "cq_inv N t"
  proof cases
    case (cs_dequeue i wait)
    then show ?thesis using cq_inv_mutex [OF inv, of i]
      by (intro cq_inv_moves [OF inv, of i _ "if wait then W_lock else P_pop"]) (auto simp: dequeue_start_def cq_kinds)
  next
    case (cs_enqueue i p)
    then show ?thesis using cq_inv_mutex [OF inv, of i]
      by (intro cq_inv_moves [OF inv, of i _ "E_push p"]) (auto simp: cq_kinds)
  next
    case (cs_stop i)
    then show ?thesis using cq_inv_mutex [OF inv, of i]
      by (intro cq_inv_moves [OF inv, of i _ S_store]) (auto simp: cq_kinds)
  next
    case (cs_wait_step i p)
    then show ?thesis using cq_inv_wait [OF inv] by simp
  next
    case (cs_peek_step i p)
    show ?thesis
    proof (cases "pc s i = P_pop \<and> (p \<in># m_completion_queue s \<or> m_completion_queue s = {#})")
      case True
      then show ?thesis using cs_peek_step
        by (intro cq_inv_popped [OF inv cs_peek_step(2), of p]) (auto simp: io_peek_cq_def pop_completion_def)
    next
      case False
      then have "t = s" using cs_peek_step by (auto simp: io_peek_cq_def pop_completion_def)
      then show ?thesis using inv by simp
    qed
  next
    case (cs_enqueue_step i w full)
    then show ?thesis using cq_inv_enqueue [OF inv] by simp
  next
    case (cs_stop_step i)
    then show ?thesis using cq_inv_stop [OF inv] by simp
  qed
qed (simp add: cq_inv_def cq_new_def cq_kinds)

section \<open>Properties\<close>

text \<open>Moves given as a list.\<close>

datatype cq_move = Dequeues nat | Enqueues nat nat | Stops nat | Waits nat nat | Enqueuing nat "nat option" | Stopping nat

fun move_cq :: "nat \<Rightarrow> cq_move \<Rightarrow> cq \<Rightarrow> cq" where
  "move_cq N (Dequeues t) s = (if t < N \<and> pc s t = Away then dequeue_start t True s else s)"
| "move_cq N (Enqueues t p) s = (if t < N \<and> pc s t = Away then goto t (E_push p) s else s)"
| "move_cq N (Stops t) s = (if t < N \<and> pc s t = Away then goto t S_store s else s)"
| "move_cq N (Waits t p) s = (if t < N then io_wait_cq t p s else s)"
| "move_cq N (Enqueuing t w) s = (if t < N \<and> may_notify N w s then enqueue t False w s else s)"
| "move_cq N (Stopping t) s = (if t < N then stop t s else s)"

lemma cq_moves_reachable: "cq_reachable N s \<Longrightarrow> cq_reachable N (fold (move_cq N) ms s)"
proof (induction ms arbitrary: s)
  case (Cons m ms)
  have "cq_reachable N (move_cq N m s)"
    using Cons.prems by (cases m) (auto intro: reachable_step cq_step.intros)
  then show ?case using Cons.IH by simp
qed simp

lemma cq_run_reachable: "cq_reachable N (fold (move_cq N) ms cq_new)"
  by (rule cq_moves_reachable, rule reachable_init, rule refl)

text \<open>C17. Before a stop no message is left with everybody asleep: while the completion queue holds a message and a
  thread waits for one, some thread is awake that will look at the queue or wake one that will, and there
  are at least as many of these as messages.
\<close>
theorem messages_wake_waiters:
  assumes "cq_reachable N s" "\<not> m_stop s" "i < N" "pc s i = W_asleep"
  shows "size (m_completion_queue s) \<le> card {t. t < N \<and> attends (pc s t)}"
proof -
  have "sleeps (pc s i)" using assms(4) by (simp add: sleeps_def)
  then have "size (m_completion_queue s) \<le> attending N s"
    using cq_sys.reachable_inv [OF assms(1)] assms(2,3) by (auto simp: cq_inv_def)
  also have "attending N s = card {t. t < N \<and> attends (pc s t)}"
    unfolding attending_def by (subst sum.If_cases) (auto simp: Int_def)
  finally show ?thesis .
qed

definition pushed_run :: "cq_move list" where
  "pushed_run = [Dequeues 0, Waits 0 0, Waits 0 0, Waits 0 0, Waits 0 0, Enqueues 1 7, Enqueuing 1 (Some 0)]"

lemmas cq_ops = cq_new_def goto_def return_from_def lock_cqe_def unlock_cqe_def io_wait_cq_def enqueue_def stop_def wake_all_def
  dequeue_start_def may_notify_def

theorem messages_wake_waiters_witness:
  "size (m_completion_queue (fold (move_cq 2) pushed_run cq_new)) \<le> card {t. t < 2 \<and> attends (pc (fold (move_cq 2) pushed_run cq_new) t)}"
  by (rule messages_wake_waiters [of _ _ 0, OF cq_run_reachable]) (simp_all add: pushed_run_def cq_ops)

definition stopped_run :: "cq_move list" where
  "stopped_run = [Dequeues 0, Waits 0 0, Waits 0 0, Waits 0 0, Stops 1, Stopping 1, Stopping 1, Waits 0 0]"

text \<open>What other threads of io_service may do then: each takes the next step of a dequeue.\<close>

definition dequeuers_run :: "(nat \<times> nat) list \<Rightarrow> cq \<Rightarrow> cq" where
  "dequeuers_run ks s =
     fold (\<lambda>(t, p) s. if t = 0 then s else if pc s t = Away then dequeue_start t True s else io_wait_cq t p s) ks s"

lemma io_wait_cq_other: "j \<noteq> t \<Longrightarrow> pc (io_wait_cq t p s) j = pc s j"
  by (simp add: io_wait_cq_def lock_cqe_def pop_completion_def split: cq_pc.split)

lemma dequeuers_keep: "pc (dequeuers_run ks s) 0 = pc s 0"
  unfolding dequeuers_run_def
  by (induction ks arbitrary: s) (auto simp: io_wait_cq_other dequeue_start_def)

text \<open>C18. A stop can miss a waiter: \<open>stop\<close> sets \<open>m_stop\<close> and notifies without the mutex, so both can come between a
  waiter's test and its sleep. A state is reachable in which the queue has been stopped, \<open>stop\<close> has
  returned, no thread holds the mutex and thread 0 is asleep; dequeues by other threads never wake it.
\<close>
theorem stop_misses_waiter:
  "\<exists>s. cq_reachable 2 s \<and> m_stop s \<and> pc s = (\<lambda>_. Away)(0 := W_asleep) \<and> m_cqe_mutex s = None \<and>
     (\<forall>ks. pc (dequeuers_run ks s) 0 = W_asleep)"
proof (intro exI conjI allI)
  let ?s = "fold (move_cq 2) stopped_run cq_new"
  show "cq_reachable 2 ?s" by (rule cq_run_reachable)
  show asleep: "pc ?s = (\<lambda>_. Away)(0 := W_asleep)" and "m_stop ?s" "m_cqe_mutex ?s = None"
    by (simp_all add: stopped_run_def cq_ops fun_eq_iff)
  show "pc (dequeuers_run ks ?s) 0 = W_asleep" for ks by (simp add: dequeuers_keep asleep)
qed

end
