(* ===== verification/Io_Operations.thy ===== *)
theory Io_Operations
  imports Io_Message
begin

text \<open>
  include/coro/detail/macos_io_operation.h and the operations built on it (file_read_operation,
  file_write_operation, socket_*_operation): what a coroutine gets when it awaits a read, a write,
  a connect and so on. Each has a plain and a cancellable form; both fill in one io_message, commit
  it, and turn what is left in the message into a result or an exception.
\<close>

section \<open>The operations\<close>

text \<open>
  One constructor for each operation with what its \<open>try_start\<close> uses; \<open>msg\<close> arguments are the
  addresses of the msghdr that the constructor has prepared.
\<close>

datatype io_kind =
    File_read int nat u64 u64
  | File_write int nat u64 u64
  | Socket_accept int nat u32
  | Socket_connect int nat u32
  | Socket_disconnect int
  | Socket_recv int nat u64
  | Socket_recv_from int nat
  | Socket_send int nat u64
  | Socket_send_to int nat

definition start_request :: "io_kind \<Rightarrow> request" where
  "start_request k =
     (case k of
        File_read d b n off \<Rightarrow> Read d b n
      | File_write d b n off \<Rightarrow> Write d b n
      | Socket_accept d b n \<Rightarrow> Accept d b n
      | Socket_connect d b n \<Rightarrow> Connect d b n
      | Socket_disconnect d \<Rightarrow> Close d
      | Socket_recv d b n \<Rightarrow> Read d b n
      | Socket_recv_from d h \<Rightarrow> Recvmsg d h 0
      | Socket_send d b n \<Rightarrow> Send d b n 0
      | Socket_send_to d h \<Rightarrow> Sendmsg d h 0)"

text \<open>\<open>try_start\<close>, when the submission queue takes the message or not (\<open>ok\<close>).\<close>

definition try_start :: "io_kind \<Rightarrow> bool \<Rightarrow> io_message \<Rightarrow> io_message \<times> bool" where
  "try_start k ok m = (transact (start_request k) m, ok)"

datatype outcome = Value int | Operation_cancelled | System_error int

text \<open>\<open>io_operation_base::get_result\<close>.\<close>

definition get_result :: "io_message \<Rightarrow> outcome" where
  "get_result m = (if result m < 0 then System_error (- result m) else Value (result m))"

text \<open>
  The results of the single operations: \<open>truncated\<close> is \<open>MSG_TRUNC\<close> in the flags of the msghdr,
  \<open>peername\<close> and \<open>sockname\<close> are 0 or the errno that getpeername and getsockname fail with.
\<close>

record after_io =
  truncated :: bool
  peername :: int
  sockname :: int

definition EMSGSIZE :: int where "EMSGSIZE = 40"

definition kind_result :: "io_kind \<Rightarrow> after_io \<Rightarrow> io_message \<Rightarrow> outcome" where
  "kind_result k env m =
     (case k of
        Socket_recv d b n \<Rightarrow>
          (case get_result m of Value v \<Rightarrow> if v > uint n then System_error EAGAIN else Value v | e \<Rightarrow> e)
      | Socket_recv_from d h \<Rightarrow>
          (case get_result m of Value v \<Rightarrow> if truncated env then System_error EMSGSIZE else Value v | e \<Rightarrow> e)
      | Socket_connect d b n \<Rightarrow> (if peername env \<noteq> 0 then System_error (peername env) else Value 0)
      | Socket_accept d b n \<Rightarrow>
          (case get_result m of
             Value v \<Rightarrow>
               if peername env \<noteq> 0 then System_error (peername env)
               else if sockname env \<noteq> 0 then System_error (sockname env) else Value v
           | e \<Rightarrow> e)
      | _ \<Rightarrow> get_result m)"

section \<open>Plain operations\<close>

definition plain_suspend :: "io_kind \<Rightarrow> nat \<Rightarrow> bool \<Rightarrow> io_message \<Rightarrow> io_message \<times> bool" where
  "plain_suspend k h ok m = try_start k ok (m\<lparr>handle := h\<rparr>)"

definition plain_resume :: "io_kind \<Rightarrow> after_io \<Rightarrow> io_message \<Rightarrow> outcome" where
  "plain_resume k env m = kind_result k env m"

section \<open>Cancellable operations\<close>

datatype op_state = Not_started | Started | Cancellation_requested | Completed

record operation =
  m_message :: io_message
  m_state :: op_state
  m_registered :: bool

text \<open>The constructor, for a token whose cancellation has been requested or not.\<close>

definition operation_new :: "bool \<Rightarrow> operation" where
  "operation_new cancelled =
     \<lparr>m_message = new_message, m_state = (if cancelled then Completed else Not_started), m_registered = False\<rparr>"

definition await_ready :: "operation \<Rightarrow> bool" where
  "await_ready x \<longleftrightarrow> m_state x = Completed"

definition set_aborted :: "operation \<Rightarrow> operation" where
  "set_aborted x = x\<lparr>m_message := (m_message x)\<lparr>result := - ECANCELED\<rparr>\<rparr>"

text \<open>
  \<open>await_suspend\<close> up to the commit of the message; the result is whether the coroutine stays
  suspended, as far as this part decides.
\<close>

definition suspend_start :: "io_kind \<Rightarrow> nat \<Rightarrow> bool \<Rightarrow> bool \<Rightarrow> operation \<Rightarrow> operation \<times> bool" where
  "suspend_start k h cancelled ok x =
     (let x1 = x\<lparr>m_message := (m_message x)\<lparr>handle := h\<rparr>\<rparr>
      in if cancelled then (set_aborted x1, False)
         else
           let x2 = x1\<lparr>m_state := Started\<rparr>; (m, accepted) = try_start k ok (m_message x2); x3 = x2\<lparr>m_message := m\<rparr>
           in if accepted then (x3, True) else (set_aborted x3, False))"

text \<open>
  The rest, for a token that can be cancelled: the exchange of the state, here when the state has
  the value that it is read with, and what follows from its failure. \<open>None\<close> is a failed assertion.
\<close>

definition suspend_finish :: "operation \<Rightarrow> (operation \<times> bool) option" where
  "suspend_finish x =
     (if m_state x = Not_started then Some (x\<lparr>m_state := Started\<rparr>, True)
      else if m_state x = Cancellation_requested
      then Some (x\<lparr>m_message := cancel (m_message x), m_state := Started\<rparr>, True)
      else if m_state x = Started then Some (x\<lparr>m_registered := True\<rparr>, True)
      else None)"

text \<open>The callback of the registration.\<close>

definition on_cancel :: "operation \<Rightarrow> operation" where
  "on_cancel x = x\<lparr>m_state := Cancellation_requested, m_message := cancel (m_message x)\<rparr>"

definition await_resume :: "io_kind \<Rightarrow> after_io \<Rightarrow> operation \<Rightarrow> outcome" where
  "await_resume k env x =
     (let r = result (m_message x)
      in if r = - ECANCELED then Operation_cancelled
         else if r < 0
         then if r = - EINTR \<and> m_state x = Cancellation_requested then Operation_cancelled else System_error (- r)
         else kind_result k env (m_message x))"

section \<open>Starting while another thread completes the operation\<close>

text \<open>
  The operation lives in the frame of the coroutine that awaits it. From the commit on an I/O
  thread may complete it and resume the coroutine, which destroys the operation, while the thread
  that started it is still in \<open>await_suspend\<close>. \<open>touched\<close> records an access after that.
\<close>

datatype starter_pc = Starting | Finishing | Returned

record race =
  op :: operation
  starter :: starter_pc
  in_queue :: bool
  destroyed :: bool
  touched :: bool

definition race_new :: race where
  "race_new = \<lparr>op = operation_new False, starter = Starting, in_queue = False, destroyed = False, touched = False\<rparr>"

definition race_start :: "io_kind \<Rightarrow> nat \<Rightarrow> bool \<Rightarrow> bool \<Rightarrow> bool \<Rightarrow> race \<Rightarrow> race" where
  "race_start k h cancelled ok can_be_cancelled s =
     (let (x, suspended) = suspend_start k h cancelled ok (op s)
      in s\<lparr>op := x, in_queue := suspended, starter := (if suspended \<and> can_be_cancelled then Finishing else Returned)\<rparr>)"

definition race_finish :: "race \<Rightarrow> race" where
  "race_finish s =
     (if destroyed s then s\<lparr>touched := True, starter := Returned\<rparr>
      else s\<lparr>op := fst (the (suspend_finish (op s))), starter := Returned\<rparr>)"

inductive race_step :: "io_kind \<Rightarrow> bool \<Rightarrow> race \<Rightarrow> race \<Rightarrow> bool" for k can where
  ra_start: "starter s = Starting \<Longrightarrow> race_step k can s (race_start k h cancelled ok can s)"
| ra_finish: "starter s = Finishing \<Longrightarrow> race_step k can s (race_finish s)"
| ra_complete: "in_queue s \<Longrightarrow> race_step k can s (s\<lparr>in_queue := False, destroyed := True\<rparr>)"

definition race_inv :: "bool \<Rightarrow> race \<Rightarrow> bool" where
  "race_inv can s \<longleftrightarrow> (starter s = Starting \<longrightarrow> \<not> in_queue s \<and> \<not> destroyed s \<and> m_state (op s) = Not_started) \<and>
     (starter s = Finishing \<longrightarrow> can \<and> m_state (op s) = Started) \<and> (touched s \<longrightarrow> can)"

interpretation io_race: invariant_system "\<lambda>s. s = race_new" "race_step k can" "race_inv can"
proof
  fix s t
  assume inv: "race_inv can s" and step: "race_step k can s t"
  from step show "race_inv can t"
    by cases (use inv in \<open>auto simp: race_inv_def race_start_def race_finish_def suspend_start_def suspend_finish_def
      set_aborted_def try_start_def Let_def split: if_splits\<close>)
qed (auto simp: race_inv_def race_new_def operation_new_def)

lemma race_finish_registers:
  assumes "race_inv can s" "starter s = Finishing"
  shows "suspend_finish (op s) = Some ((op s)\<lparr>m_registered := True\<rparr>, True)"
  using assms by (simp add: race_inv_def suspend_finish_def)

section \<open>Properties\<close>

text \<open>The message of an operation that was started, when the system call has answered.\<close>

definition answered :: "io_kind \<Rightarrow> answer \<Rightarrow> io_message \<Rightarrow> io_message" where
  "answered k a m = performed a (fst (try_start k True m))"

lemmas outcome_defs = answered_def performed_def try_start_def start_request_def transact_defs set_transferred_def
  fail_with_def await_resume_def plain_resume_def kind_result_def get_result_def

text \<open>
  A read, write, receive or send that the system call has carried out gives the number of bytes
  that the call has returned, in its plain and in its cancellable form alike; when the call has
  failed both throw a system_error with code 1, whatever the error was.
\<close>

theorem transfer_outcome:
  assumes "-1 \<le> ret a" "\<not> truncated env"
    "k \<in> {File_read d b n off, File_write d b n off, Socket_send d b n, Socket_send_to d h, Socket_recv_from d h} \<or>
     k = Socket_recv d b n \<and> ret a \<le> uint n"
  shows "plain_resume k env (answered k a m) = (if ret a = -1 then System_error 1 else Value (ret a)) \<and>
    (\<forall>st reg. await_resume k env \<lparr>m_message = answered k a m, m_state = st, m_registered = reg\<rparr> =
       plain_resume k env (answered k a m))"
proof (cases "ret a = -1")
  case True
  then show ?thesis using assms(3)
    by (elim disjE insertE emptyE conjE) (simp_all add: outcome_defs errno_defs)
next
  case False
  then have "0 \<le> ret a" using assms(1) by simp
  then show ?thesis using assms(2,3)
    by (elim disjE insertE emptyE conjE) (simp_all add: outcome_defs errno_defs)
qed

theorem transfer_outcome_witness:
  "plain_resume (Socket_recv 5 100 16) \<lparr>truncated = False, peername = 0, sockname = 0\<rparr>
     (answered (Socket_recv 5 100 16) \<lparr>ret = 7, errno = 0, so_error = 0\<rparr> new_message) = Value 7"
  using transfer_outcome [of "\<lparr>ret = 7, errno = 0, so_error = 0\<rparr>" "\<lparr>truncated = False, peername = 0, sockname = 0\<rparr>"
    "Socket_recv 5 100 16" 5 100 16 0 0 new_message] by simp

text \<open>
  A cancellable operation whose token was cancelled before it is constructed is not started,
  and awaiting it reports success with a result of 0 instead of throwing operation_cancelled; when
  the cancellation comes between construction and await, it is thrown.
\<close>

theorem precancelled_operation_succeeds:
  "await_ready (operation_new True) \<and>
   await_resume (File_read d b n off) env (operation_new True) = Value 0 \<and>
   \<not> await_ready (operation_new False) \<and>
   (case suspend_start (File_read d b n off) h True ok (operation_new False) of
      (x, suspended) \<Rightarrow> \<not> suspended \<and> await_resume (File_read d b n off) env x = Operation_cancelled)"
  by (simp add: operation_new_def await_ready_def new_message_def suspend_start_def set_aborted_def outcome_defs errno_defs)

text \<open>
  While an operation is started with a token that cannot be cancelled, nothing touches it after
  it may have been completed and destroyed; with a token that can be cancelled the thread that
  starts it goes on to use it, and there is a run in which it has been destroyed by then.
\<close>

theorem cancellable_start_touches_destroyed:
  "(\<forall>s. reachable (\<lambda>s. s = race_new) (race_step k False) s \<longrightarrow> \<not> touched s) \<and>
   (\<exists>s. reachable (\<lambda>s. s = race_new) (race_step k True) s \<and> touched s)"
proof (intro conjI allI impI)
  fix s
  assume "reachable (\<lambda>s. s = race_new) (race_step k False) s"
  then show "\<not> touched s" using io_race.reachable_inv [of k False s] by (simp add: race_inv_def)
next
  let ?R = "reachable (\<lambda>s. s = race_new) (race_step k True)"
  define s1 where "s1 = race_start k 1 False True True race_new"
  have s1: "starter s1 = Finishing" "in_queue s1"
    by (simp_all add: s1_def race_start_def race_new_def suspend_start_def try_start_def)
  have "?R race_new" by (rule reachable_init) simp
  then have "?R s1" unfolding s1_def by (rule reachable_step) (rule ra_start, simp add: race_new_def)
  then have "?R (s1\<lparr>in_queue := False, destroyed := True\<rparr>)" by (rule reachable_step) (rule ra_complete [OF s1(2)])
  then have "?R (race_finish (s1\<lparr>in_queue := False, destroyed := True\<rparr>))"
    by (rule reachable_step) (rule ra_finish, simp add: s1(1))
  then show "\<exists>s. ?R s \<and> touched s" by (auto simp: race_finish_def)
qed

end
