(* ===== verification/Io_Service.thy ===== *)
theory Io_Service
  imports Io_Queue
begin

text \<open>
  include/coro/io/io_service.h and src/coro/io_service.cpp: the word that counts the threads in the
  event loop and tells whether a stop was requested, the loops that process events, and the work
  scopes that stop the service when the last of them ends. The list of operations that the message
  queue did not take is in Io_Overflow.
\<close>

section \<open>Entering and leaving the event loop\<close>

definition stop_requested_flag :: u32 where "stop_requested_flag = 1"
definition active_thread_count_increment :: u32 where "active_thread_count_increment = 2"

text \<open>
  Each of \<open>N\<close> threads is outside the event loop, in the loop of \<open>try_enter_event_loop\<close> with the word
  that it has read, or inside. \<open>stopper\<close> is set between the two parts of the first call of \<open>stop\<close>.
\<close>

datatype loop_pc = Outside | Entering u32 | Inside

record service =
  m_thread_state :: u32
  queue_stopped :: bool
  stopper :: bool
  loop_pc :: "nat \<Rightarrow> loop_pc"

definition service_new :: service where
  "service_new = \<lparr>m_thread_state = 0, queue_stopped = False, stopper = False, loop_pc = (\<lambda>_. Outside)\<rparr>"

definition goto_loop :: "nat \<Rightarrow> loop_pc \<Rightarrow> service \<Rightarrow> service" where
  "goto_loop i p s = s\<lparr>loop_pc := (loop_pc s)(i := p)\<rparr>"

definition is_stop_requested :: "service \<Rightarrow> bool" where
  "is_stop_requested s \<longleftrightarrow> m_thread_state s AND stop_requested_flag \<noteq> 0"

definition enter_load :: "nat \<Rightarrow> service \<Rightarrow> service" where
  "enter_load i s = goto_loop i (Entering (m_thread_state s)) s"

definition enter_round :: "nat \<Rightarrow> u32 \<Rightarrow> bool \<Rightarrow> service \<Rightarrow> service" where
  "enter_round i current spurious s =
     (if current AND stop_requested_flag \<noteq> 0 then goto_loop i Outside s
      else if m_thread_state s = current \<and> \<not> spurious
      then goto_loop i Inside (s\<lparr>m_thread_state := current + active_thread_count_increment\<rparr>)
      else goto_loop i (Entering (m_thread_state s)) s)"

definition exit_event_loop :: "nat \<Rightarrow> service \<Rightarrow> service" where
  "exit_event_loop i s =
     goto_loop i Outside (s\<lparr>m_thread_state := m_thread_state s - active_thread_count_increment\<rparr>)"

definition stop_set :: "service \<Rightarrow> service" where
  "stop_set s = s\<lparr>m_thread_state := m_thread_state s OR stop_requested_flag,
     stopper := stopper s \<or> \<not> is_stop_requested s\<rparr>"

definition stop_queue :: "service \<Rightarrow> service" where
  "stop_queue s = s\<lparr>queue_stopped := True, stopper := False\<rparr>"

text \<open>\<open>None\<close> is the failed assertion.\<close>

definition reset_service :: "service \<Rightarrow> service option" where
  "reset_service s =
     (if m_thread_state s = stop_requested_flag
      then Some (s\<lparr>m_thread_state := m_thread_state s AND NOT stop_requested_flag\<rparr>) else None)"

inductive service_step :: "nat \<Rightarrow> service \<Rightarrow> service \<Rightarrow> bool" for N where
  sv_load: "i < N \<Longrightarrow> loop_pc s i = Outside \<Longrightarrow> service_step N s (enter_load i s)"
| sv_round: "i < N \<Longrightarrow> loop_pc s i = Entering current \<Longrightarrow> service_step N s (enter_round i current spurious s)"
| sv_exit: "i < N \<Longrightarrow> loop_pc s i = Inside \<Longrightarrow> service_step N s (exit_event_loop i s)"
| sv_stop: "service_step N s (stop_set s)"
| sv_stop_queue: "stopper s \<Longrightarrow> service_step N s (stop_queue s)"
| sv_reset: "reset_service s = Some t \<Longrightarrow> service_step N s t"

definition inside :: "nat \<Rightarrow> service \<Rightarrow> nat" where
  "inside N s = processes_at N (loop_pc s) Inside"

definition service_inv :: "nat \<Rightarrow> service \<Rightarrow> bool" where
  "service_inv N s \<longleftrightarrow>
     m_thread_state s = of_nat (2 * inside N s + (if is_stop_requested s then 1 else 0)) \<and>
     (is_stop_requested s \<longrightarrow> stopper s \<or> queue_stopped s)"

lemma flag_of_nat:
  assumes "n < 2 ^ 31" "b \<le> 1"
  shows "(of_nat (2 * n + b) :: u32) AND 1 = of_nat b"
proof -
  let ?k = "2 * n + b"
  have k: "unat (of_nat ?k :: u32) = ?k"
    using assms by (subst unat_of_nat) (rule mod_less, simp)
  have "unat ((of_nat ?k :: u32) mod 2) = ?k mod 2" by (simp only: unat_mod k) simp
  also have "\<dots> = b" using assms(2) by simp
  finally have "unat ((of_nat ?k :: u32) AND 1) = b" by (simp only: and_one_eq)
  moreover have "b = 0 \<or> b = 1" using assms(2) by auto
  ultimately show ?thesis by (auto simp: word_unat_eq_iff)
qed

lemma flag_or: "(x :: u32) AND 1 = 0 \<Longrightarrow> x OR 1 = x + 1"
  using word_plus_and_or [of x 1] by simp

lemma service_flag:
  assumes "service_inv N s" "N < 2 ^ 31"
  shows "m_thread_state s AND 1 = (if is_stop_requested s then 1 else 0)"
proof -
  have "inside N s < 2 ^ 31" using processes_at_bound [of N "loop_pc s" Inside] assms(2) by (simp add: inside_def)
  from flag_of_nat [OF this, of "if is_stop_requested s then 1 else 0"] assms(1) show ?thesis
    by (simp add: service_inv_def split: if_splits)
qed

lemma service_invI:
  assumes "m_thread_state s = of_nat (2 * inside N s + b)" "b \<le> 1" "N < 2 ^ 31"
    "b = 1 \<longrightarrow> stopper s \<or> queue_stopped s"
  shows "service_inv N s \<and> (is_stop_requested s \<longleftrightarrow> b = 1)"
proof -
  have "inside N s < 2 ^ 31" using processes_at_bound [of N "loop_pc s" Inside] assms(3) by (simp add: inside_def)
  from flag_of_nat [OF this assms(2)] have "m_thread_state s AND 1 = of_nat b" by (simp add: assms(1))
  moreover have b: "b = 0 \<or> b = 1" using assms(2) by auto
  ultimately have "is_stop_requested s \<longleftrightarrow> b = 1"
    by (auto simp: is_stop_requested_def stop_requested_flag_def)
  then show ?thesis using assms(1,4) b by (auto simp: service_inv_def)
qed

lemma inside_goto:
  assumes "i < N"
  shows "inside N (goto_loop i q s) + (if loop_pc s i = Inside then 1 else 0) =
    inside N s + (if q = Inside then 1 else 0)"
  using processes_at_upd [OF assms, of "loop_pc s" q Inside] by (simp add: inside_def goto_loop_def)

lemma goto_loop_simps [simp]:
  "m_thread_state (goto_loop i q s) = m_thread_state s" "queue_stopped (goto_loop i q s) = queue_stopped s"
  "stopper (goto_loop i q s) = stopper s" "is_stop_requested (goto_loop i q s) = is_stop_requested s"
  by (simp_all add: goto_loop_def is_stop_requested_def)

lemma service_inv_goto:
  assumes "service_inv N s" "i < N" "loop_pc s i \<noteq> Inside" "q \<noteq> Inside"
  shows "service_inv N (goto_loop i q s)"
  using assms inside_goto [OF assms(2), of q s] by (simp add: service_inv_def)

lemma service_inv_enter:
  assumes inv: "service_inv N s" and N: "N < 2 ^ 31" and i: "i < N" "loop_pc s i = Entering current"
  shows "service_inv N (enter_round i current spurious s)"
proof (cases "current AND stop_requested_flag = 0 \<and> m_thread_state s = current \<and> \<not> spurious")
  case False
  then show ?thesis using service_inv_goto [OF inv i(1)] i(2) by (auto simp: enter_round_def)
next
  case True
  let ?t = "goto_loop i Inside (s\<lparr>m_thread_state := current + active_thread_count_increment\<rparr>)"
  have ns: "\<not> is_stop_requested s" using True by (auto simp: is_stop_requested_def)
  have "inside N ?t = Suc (inside N s)"
    using inside_goto [OF i(1), of Inside "s\<lparr>m_thread_state := current + active_thread_count_increment\<rparr>"] i(2)
    by (simp add: inside_def)
  then have "m_thread_state ?t = of_nat (2 * inside N ?t + 0)"
    using inv True ns by (simp add: service_inv_def active_thread_count_increment_def)
  then have "service_inv N ?t" using service_invI [of ?t N 0] N by simp
  then show ?thesis using True by (simp add: enter_round_def)
qed

lemma service_inv_exit:
  assumes inv: "service_inv N s" and N: "N < 2 ^ 31" and i: "i < N" "loop_pc s i = Inside"
  shows "service_inv N (exit_event_loop i s)"
proof -
  let ?t = "exit_event_loop i s"
  let ?b = "if is_stop_requested s then 1 else 0 :: nat"
  have "Suc (inside N ?t) = inside N s"
    using inside_goto [OF i(1), of Outside "s\<lparr>m_thread_state := m_thread_state s - active_thread_count_increment\<rparr>"] i(2)
    by (simp add: inside_def exit_event_loop_def)
  then have "m_thread_state s = of_nat (2 * Suc (inside N ?t) + ?b)" using inv by (simp only: service_inv_def)
  also have "\<dots> = of_nat (2 * inside N ?t + ?b) + 2" by simp
  finally have "m_thread_state s = of_nat (2 * inside N ?t + ?b) + 2" .
  moreover have "m_thread_state ?t = m_thread_state s - 2"
    by (simp add: exit_event_loop_def active_thread_count_increment_def)
  ultimately have "m_thread_state ?t = of_nat (2 * inside N ?t + ?b)" by (simp only: add_diff_cancel_right')
  moreover have "stopper ?t = stopper s" "queue_stopped ?t = queue_stopped s" by (simp_all add: exit_event_loop_def)
  ultimately show ?thesis using service_invI [of ?t N ?b] N inv by (auto simp: service_inv_def split: if_splits)
qed

lemma service_inv_stop:
  assumes inv: "service_inv N s" and N: "N < 2 ^ 31"
  shows "service_inv N (stop_set s)"
proof -
  let ?t = "stop_set s"
  note f = service_flag [OF inv N]
  have "m_thread_state ?t = of_nat (2 * inside N ?t + 1)"
  proof (cases "is_stop_requested s")
    case True
    then have "m_thread_state s OR 1 = m_thread_state s"
      using f word_plus_and_or [of "m_thread_state s" 1] by (simp add: add.commute)
    then show ?thesis using inv True
      by (simp add: stop_set_def stop_requested_flag_def service_inv_def inside_def)
  next
    case False
    then show ?thesis using inv flag_or [of "m_thread_state s"] f
      by (simp add: stop_set_def stop_requested_flag_def service_inv_def inside_def)
  qed
  moreover have "stopper ?t \<or> queue_stopped ?t" using inv by (auto simp: stop_set_def service_inv_def)
  ultimately show ?thesis using service_invI [of ?t N 1] N by simp
qed

lemma service_inv_reset:
  assumes inv: "service_inv N s" and N: "N < 2 ^ 31" and r: "reset_service s = Some t"
  shows "service_inv N t \<and> inside N t = 0 \<and> \<not> is_stop_requested t"
proof -
  have s: "m_thread_state s = 1" "t = s\<lparr>m_thread_state := 0\<rparr>"
    using r by (auto simp: reset_service_def stop_requested_flag_def split: if_splits)
  have b: "inside N s < 2 ^ 31" using processes_at_bound [of N "loop_pc s" Inside] N by (simp add: inside_def)
  let ?k = "2 * inside N s + (if is_stop_requested s then 1 else 0)"
  have "unat (of_nat ?k :: u32) = ?k" using b by (subst unat_of_nat) (rule mod_less, simp)
  then have "?k = 1" using inv s(1) by (metis service_inv_def unat_1)
  then have "inside N s = 0" by (simp split: if_splits)
  then show ?thesis using service_invI [of t N 0] N s(2) by (simp add: inside_def)
qed

lemma service_inv_step:
  assumes inv: "service_inv N s" and N: "N < 2 ^ 31" and step: "service_step N s t"
  shows "service_inv N t"
  using step
proof cases
  case (sv_load i)
  then show ?thesis using service_inv_goto [OF inv] by (simp add: enter_load_def)
next
  case (sv_stop_queue)
  then show ?thesis using inv by (simp add: stop_queue_def service_inv_def inside_def is_stop_requested_def)
qed (use inv N in \<open>auto intro: service_inv_enter service_inv_exit service_inv_stop dest: service_inv_reset\<close>)

interpretation io_service: invariant_system "\<lambda>s. N < 2 ^ 31 \<and> s = service_new" "service_step N"
  "\<lambda>s. N < 2 ^ 31 \<and> service_inv N s"
proof
  fix s assume s: "N < 2 ^ 31 \<and> s = service_new"
  have "inside N service_new = 0" by (simp add: inside_def service_new_def processes_at_none)
  then have "m_thread_state service_new = of_nat (2 * inside N service_new + 0)" by (simp add: service_new_def)
  then show "N < 2 ^ 31 \<and> service_inv N s" using service_invI [of service_new N 0] s by simp
qed (auto intro: service_inv_step)

section \<open>Processing events\<close>

text \<open>
  What one round of a loop meets: whether a stop is requested before it and after the resumption,
  the message queue as it is at the call of \<open>dequeue\<close>, and the message that is there, if any.
\<close>

record 'k turn =
  stop_before :: bool
  queue :: "'k io_state"
  popped :: "nat option"
  stop_after :: bool

text \<open>The result, and the messages that were taken out and whose coroutines were resumed.\<close>

definition try_process_one_event :: "bool \<Rightarrow> 'k turn \<Rightarrow> bool \<times> nat list" where
  "try_process_one_event wait u =
     (if stop_before u then (False, [])
      else if snd (dequeue wait (popped u) (queue u)) \<noteq> Some True then (False, [])
      else (\<not> stop_after u, [the (popped u)]))"

text \<open>The loop of \<open>process_events\<close> and \<open>process_pending_events\<close>, over what its rounds meet.\<close>

fun process_loop :: "bool \<Rightarrow> 'k turn list \<Rightarrow> nat \<times> nat list" where
  "process_loop wait [] = (0, [])"
| "process_loop wait (u # us) =
     (let (go_on, ms) = try_process_one_event wait u
      in if go_on then (let (n, ms') = process_loop wait us in (Suc n, ms @ ms')) else (0, ms))"

definition process_events :: "bool \<Rightarrow> 'k turn list \<Rightarrow> nat \<times> nat list" where
  "process_events entered us = (if entered then process_loop True us else (0, []))"

definition process_pending_events :: "bool \<Rightarrow> 'k turn list \<Rightarrow> nat \<times> nat list" where
  "process_pending_events entered us = (if entered then process_loop False us else (0, []))"

definition process_one_event :: "bool \<Rightarrow> 'k turn \<Rightarrow> nat \<times> nat list" where
  "process_one_event entered u =
     (if entered then (let (go_on, ms) = try_process_one_event True u in (if go_on then 1 else 0, ms)) else (0, []))"

definition process_one_pending_event :: "bool \<Rightarrow> 'k turn \<Rightarrow> nat \<times> nat list" where
  "process_one_pending_event entered u =
     (if entered then (let (go_on, ms) = try_process_one_event False u in (if go_on then 1 else 0, ms)) else (0, []))"

lemma dequeue_stopped: "m_stop q \<Longrightarrow> snd (dequeue True p q) = Some False"
  by (simp add: dequeue_def io_wait_cq_def)

lemma process_loop_counts:
  "process_loop wait us = (n, ms) \<Longrightarrow> ms = map (the \<circ> popped) (take (length ms) us) \<and>
     length ms = n + (if n < length us \<and> length ms = Suc n \<and> stop_after (us ! n) then 1 else 0) \<and>
     (\<forall>i<n. \<not> stop_after (us ! i))"
proof (induction us arbitrary: n ms)
  case (Cons u us)
  obtain go_on m where u: "try_process_one_event wait u = (go_on, m)" by (meson surj_pair)
  show ?case
  proof (cases go_on)
    case True
    obtain k ms' where loop: "process_loop wait us = (k, ms')" by (meson surj_pair)
    have m: "m = [the (popped u)]" "\<not> stop_after u"
      using u True by (auto simp: try_process_one_event_def split: if_splits)
    have "n = Suc k" "ms = m @ ms'" using Cons.prems u True loop by auto
    then show ?thesis using Cons.IH [OF loop] m by (auto simp: nth_Cons split: nat.splits)
  next
    case False
    then have "n = 0" "ms = m" using Cons.prems u by auto
    then show ?thesis using u False by (auto simp: try_process_one_event_def split: if_splits)
  qed
qed simp

section \<open>Work scopes\<close>

text \<open>
  io_work_scope objects, numbered, each referring to the service or to nothing; \<open>stops\<close> counts the
  calls of \<open>stop\<close> by \<open>notify_work_finished\<close>. Number \<open>t\<close> below stands for the by-value parameter of
  the assignment.
\<close>

record work =
  m_work_count :: u32
  m_service :: "nat \<Rightarrow> bool"
  stops :: nat

definition work_new :: work where
  "work_new = \<lparr>m_work_count = 0, m_service = (\<lambda>_. False), stops = 0\<rparr>"

definition notify_work_started :: "work \<Rightarrow> work" where
  "notify_work_started g = g\<lparr>m_work_count := m_work_count g + 1\<rparr>"

definition notify_work_finished :: "work \<Rightarrow> work" where
  "notify_work_finished g =
     g\<lparr>m_work_count := m_work_count g - 1, stops := stops g + (if m_work_count g = 1 then 1 else 0)\<rparr>"

definition refer :: "nat \<Rightarrow> bool \<Rightarrow> work \<Rightarrow> work" where
  "refer i b g = g\<lparr>m_service := (m_service g)(i := b)\<rparr>"

definition scope_new :: "nat \<Rightarrow> work \<Rightarrow> work" where
  "scope_new i g = refer i True (notify_work_started g)"

definition scope_copy :: "nat \<Rightarrow> nat \<Rightarrow> work \<Rightarrow> work" where
  "scope_copy i j g = refer i (m_service g j) (if m_service g j then notify_work_started g else g)"

definition scope_move :: "nat \<Rightarrow> nat \<Rightarrow> work \<Rightarrow> work" where
  "scope_move i j g = refer j False (refer i (m_service g j) g)"

definition scope_end :: "nat \<Rightarrow> work \<Rightarrow> work" where
  "scope_end i g = refer i False (if m_service g i then notify_work_finished g else g)"

definition scope_swap :: "nat \<Rightarrow> nat \<Rightarrow> work \<Rightarrow> work" where
  "scope_swap i j g = refer j (m_service g i) (refer i (m_service g j) g)"

definition scope_assign :: "nat \<Rightarrow> nat \<Rightarrow> nat \<Rightarrow> work \<Rightarrow> work" where
  "scope_assign t i j g = scope_end t (scope_swap i t (scope_copy t j g))"

definition scope_move_assign :: "nat \<Rightarrow> nat \<Rightarrow> nat \<Rightarrow> work \<Rightarrow> work" where
  "scope_move_assign t i j g = scope_end t (scope_swap i t (scope_move t j g))"

inductive work_step :: "nat \<Rightarrow> work \<Rightarrow> work \<Rightarrow> bool" for N where
  wk_new: "i < N \<Longrightarrow> \<not> m_service g i \<Longrightarrow> work_step N g (scope_new i g)"
| wk_copy: "i < N \<Longrightarrow> j < N \<Longrightarrow> \<not> m_service g i \<Longrightarrow> work_step N g (scope_copy i j g)"
| wk_move: "i < N \<Longrightarrow> j < N \<Longrightarrow> i \<noteq> j \<Longrightarrow> \<not> m_service g i \<Longrightarrow> work_step N g (scope_move i j g)"
| wk_end: "i < N \<Longrightarrow> work_step N g (scope_end i g)"
| wk_swap: "i < N \<Longrightarrow> j < N \<Longrightarrow> i \<noteq> j \<Longrightarrow> work_step N g (scope_swap i j g)"

definition scopes :: "nat \<Rightarrow> work \<Rightarrow> nat" where
  "scopes N g = processes_at N (m_service g) True"

text \<open>
  \<open>counted\<close>: the count of work is that of the scopes. \<open>releases\<close>: \<open>stop\<close> was called, if at all, by
  the step that ended the last scope.
\<close>

definition counted :: "nat \<Rightarrow> work \<Rightarrow> bool" where
  "counted N g \<longleftrightarrow> m_work_count g = of_nat (scopes N g)"

definition releases :: "nat \<Rightarrow> work \<Rightarrow> work \<Rightarrow> bool" where
  "releases N g h \<longleftrightarrow> stops h = stops g + (if scopes N g = 1 \<and> scopes N h = 0 then 1 else 0)"

lemma scopes_refer:
  assumes "i < N"
  shows "scopes N (refer i b g) + (if m_service g i then 1 else 0) = scopes N g + (if b then 1 else 0)"
  using processes_at_upd [OF assms, of "m_service g" b True] by (simp add: scopes_def refer_def)

lemma scopes_count [simp]: "scopes N (g\<lparr>m_work_count := c\<rparr>) = scopes N g"
  by (simp add: scopes_def)

lemma refer_simps [simp]:
  "m_work_count (refer i b g) = m_work_count g" "stops (refer i b g) = stops g"
  "m_service (refer i b g) = (m_service g)(i := b)"
  "m_service (notify_work_started g) = m_service g" "m_service (notify_work_finished g) = m_service g"
  "scopes N (notify_work_started g) = scopes N g" "scopes N (notify_work_finished g) = scopes N g"
  by (simp_all add: refer_def notify_work_started_def notify_work_finished_def scopes_def)

lemma work_step_counted:
  assumes inv: "counted N g" and N: "N < 2 ^ 32" and step: "work_step N g h"
  shows "counted N h \<and> releases N g h"
  using step
proof cases
  case (wk_new i)
  then show ?thesis using inv scopes_refer [of i N True "notify_work_started g"]
    by (simp add: counted_def releases_def scope_new_def notify_work_started_def [of g])
next
  case (wk_copy i j)
  then show ?thesis using inv scopes_refer [of i N "m_service g j" "if m_service g j then notify_work_started g else g"]
    by (auto simp: counted_def releases_def scope_copy_def notify_work_started_def [of g])
next
  case (wk_move i j)
  then show ?thesis using inv scopes_refer [of i N "m_service g j" g] scopes_refer [of j N False "refer i (m_service g j) g"]
    by (auto simp: counted_def releases_def scope_move_def)
next
  case (wk_swap i j)
  then show ?thesis using inv scopes_refer [of i N "m_service g j" g]
      scopes_refer [of j N "m_service g i" "refer i (m_service g j) g"]
    by (auto simp: counted_def releases_def scope_swap_def)
next
  case (wk_end i)
  show ?thesis
  proof (cases "m_service g i")
    case False
    then have "h = g" using wk_end by (simp add: scope_end_def refer_def fun_upd_idem)
    then show ?thesis using inv by (simp add: releases_def)
  next
    case True
    let ?h = "refer i False (notify_work_finished g)"
    have h: "h = ?h" using True wk_end by (simp add: scope_end_def)
    have s: "scopes N g = Suc (scopes N ?h)" using scopes_refer [OF wk_end(2), of False "notify_work_finished g"] True by simp
    have "scopes N g < 2 ^ 32" using processes_at_bound [of N "m_service g" True] N by (simp add: scopes_def)
    then have "unat (of_nat (scopes N g) :: u32) = scopes N g" by (subst unat_of_nat) (rule mod_less, simp)
    then have one: "m_work_count g = 1 \<longleftrightarrow> scopes N g = 1"
      using inv by (metis counted_def of_nat_1 unat_1)
    have "m_work_count ?h = m_work_count g - 1" by (simp add: notify_work_finished_def)
    then have "m_work_count ?h = of_nat (scopes N ?h)" using inv s by (simp add: counted_def)
    moreover have "stops ?h = stops g + (if m_work_count g = 1 then 1 else 0)"
      by (simp add: notify_work_finished_def [of g])
    ultimately show ?thesis using one s unfolding h counted_def releases_def by auto
  qed
qed

interpretation work_scopes: invariant_system "\<lambda>g. N < 2 ^ 32 \<and> g = work_new" "work_step N"
  "\<lambda>g. N < 2 ^ 32 \<and> counted N g"
proof
  fix g assume "N < 2 ^ 32 \<and> g = work_new"
  moreover have "scopes N work_new = 0" by (simp add: scopes_def work_new_def processes_at_none)
  ultimately show "N < 2 ^ 32 \<and> counted N g" by (simp add: counted_def work_new_def)
qed (auto dest: work_step_counted)

text \<open>An assignment is a copy or a move, a swap and an end.\<close>

lemma scope_assign_steps:
  assumes "i < N" "j < N" "t < N" "t \<noteq> i" "t \<noteq> j" "\<not> m_service g t"
  shows "(work_step N)\<^sup>*\<^sup>* g (scope_assign t i j g)" "(work_step N)\<^sup>*\<^sup>* g (scope_move_assign t i j g)"
proof -
  have rest: "(work_step N)\<^sup>*\<^sup>* f (scope_end t (scope_swap i t f))" for f
  proof -
    have "work_step N f (scope_swap i t f)" by (rule wk_swap) (use assms in auto)
    then have "(work_step N)\<^sup>*\<^sup>* f (scope_swap i t f)" by (rule r_into_rtranclp)
    then show ?thesis by (rule rtranclp.rtrancl_into_rtrancl) (rule wk_end [OF assms(3)])
  qed
  show "(work_step N)\<^sup>*\<^sup>* g (scope_assign t i j g)" unfolding scope_assign_def
    by (rule converse_rtranclp_into_rtranclp [OF wk_copy rest]) (use assms in simp_all)
  show "(work_step N)\<^sup>*\<^sup>* g (scope_move_assign t i j g)" unfolding scope_move_assign_def
    by (rule converse_rtranclp_into_rtranclp [OF wk_move rest]) (use assms in simp_all)
qed

section \<open>Properties\<close>

text \<open>
  C37. Under every interleaving of calls by fewer than 2^31 threads the word of the service is twice
  the number of threads in the event loop, plus one exactly when a stop is requested; while it is
  requested no thread enters, and whoever requests it first has stopped the message queue or is
  about to.
\<close>

theorem service_counts_threads:
  assumes "reachable (\<lambda>s. s = service_new) (service_step N) s" "service_step N s t" "N < 2 ^ 31"
  shows "m_thread_state s = of_nat (2 * inside N s + (if is_stop_requested s then 1 else 0)) \<and>
    (if is_stop_requested s then inside N t \<le> inside N s \<and> (stopper s \<or> queue_stopped s) else True)"
proof -
  have r: "reachable (\<lambda>s. N < 2 ^ 31 \<and> s = service_new) (service_step N) s" using assms(1,3) by simp
  have inv: "service_inv N s" using io_service.reachable_inv [OF r] by simp
  have "inside N t \<le> inside N s" if stop: "is_stop_requested s"
    using assms(2)
  proof cases
    case (sv_load i)
    then show ?thesis using inside_goto [OF sv_load(2), of "Entering (m_thread_state s)" s] by (simp add: enter_load_def)
  next
    case (sv_round i current spurious)
    have "t = goto_loop i Outside s \<or> t = goto_loop i (Entering (m_thread_state s)) s"
      using sv_round(1) stop by (auto simp: enter_round_def is_stop_requested_def)
    then show ?thesis using inside_goto [OF sv_round(2), of Outside s] sv_round(3)
        inside_goto [OF sv_round(2), of "Entering (m_thread_state s)" s] by auto
  next
    case (sv_exit i)
    then show ?thesis
      using inside_goto [OF sv_exit(2), of Outside "s\<lparr>m_thread_state := m_thread_state s - active_thread_count_increment\<rparr>"]
      by (simp add: exit_event_loop_def inside_def)
  next
    case sv_reset
    then show ?thesis using service_inv_reset [OF inv assms(3)] by simp
  qed (simp_all add: stop_set_def stop_queue_def inside_def)
  then show ?thesis using inv by (auto simp: service_inv_def)
qed

theorem service_counts_threads_witness:
  "\<exists>s. inside 4 s = 1 \<and> is_stop_requested s \<and> m_thread_state s = 3 \<and> (stopper s \<or> queue_stopped s)"
proof -
  define s1 where "s1 = enter_round 2 0 False (enter_load 2 service_new)"
  let ?R = "reachable (\<lambda>s. s = service_new) (service_step 4)"
  have "?R service_new" by (rule reachable_init) simp
  then have "?R (enter_load 2 service_new)"
    by (rule reachable_step) (rule sv_load, simp_all add: service_new_def)
  then have "?R s1" unfolding s1_def
    by (rule reachable_step) (rule sv_round, simp_all add: enter_load_def goto_loop_def service_new_def)
  then have r: "?R (stop_set s1)" by (rule reachable_step) (rule sv_stop)
  have f: "m_thread_state (stop_set s1) = 3" "is_stop_requested (stop_set s1)"
    by (simp_all add: s1_def stop_set_def enter_round_def enter_load_def goto_loop_def service_new_def
      stop_requested_flag_def active_thread_count_increment_def is_stop_requested_def)
  have "loop_pc (stop_set s1) = (\<lambda>_. Outside)(2 := Inside)"
    by (simp add: s1_def stop_set_def enter_round_def enter_load_def goto_loop_def service_new_def stop_requested_flag_def)
  then have "inside 4 (stop_set s1) = 1" by (simp add: inside_def processes_at_def numeral_eq_Suc)
  then show ?thesis using service_counts_threads [OF r sv_stop] f by auto
qed

text \<open>
  process_events takes messages out of the queue one by one and resumes their coroutines. The
  number it returns is that of the messages, except that a message after whose resumption a stop is
  found to be requested is not counted; it is then the last one.
\<close>

theorem events_counted:
  "process_loop wait us = (n, ms) \<longrightarrow> ms = map (the \<circ> popped) (take (length ms) us) \<and>
     (length ms = n \<or> length ms = Suc n \<and> stop_after (us ! n)) \<and> (\<forall>i<n. \<not> stop_after (us ! i))"
  using process_loop_counts [of wait us n ms] by (auto split: if_splits)

theorem events_counted_witness:
  "process_loop False [\<lparr>stop_before = False, queue = (queue_new ())\<lparr>completion := {#8#}\<rparr>, popped = Some 8, stop_after = True\<rparr>]
     = (0, [8])"
proof -
  let ?us = "[\<lparr>stop_before = False, queue = (queue_new ())\<lparr>completion := {#8#}\<rparr>, popped = Some (8 :: nat), stop_after = True\<rparr>]"
  have e: "process_loop False ?us = (0, [8])"
    by (simp add: try_process_one_event_def dequeue_def io_peek_cq_def errno_defs)
  show ?thesis using events_counted [of False ?us 0 "[8]"] e by simp
qed

text \<open>
  After a stop the service does not work again: reset clears the flag of the service but nothing
  restarts the message queue, and process_events then returns 0 at once whatever is in the queue.
\<close>

theorem reset_leaves_queue_stopped:
  assumes "queue_stopped s" "(service_step N)\<^sup>*\<^sup>* s t" "m_stop (queue u) = queue_stopped t"
  shows "queue_stopped t \<and> process_events entered (u # us) = (0, [])"
proof -
  have "queue_stopped t" using assms(2)
  proof (induction rule: rtranclp_induct)
    case (step t u)
    from step.hyps(2) step.IH show ?case
      by cases (auto simp: enter_load_def enter_round_def exit_event_loop_def stop_set_def stop_queue_def reset_service_def
        split: if_splits)
  qed (rule assms(1))
  then show ?thesis using assms(3)
    by (simp add: process_events_def try_process_one_event_def dequeue_stopped)
qed

theorem reset_leaves_queue_stopped_witness:
  "\<exists>t. queue_stopped t \<and> \<not> is_stop_requested t \<and>
     process_events True [\<lparr>stop_before = False, queue = (queue_new ())\<lparr>m_stop := True, completion := {#8#}\<rparr>,
       popped = Some 8, stop_after = False\<rparr>] = (0, [])"
proof -
  let ?s = "stop_queue (stop_set service_new)"
  let ?u = "\<lparr>stop_before = False, queue = (queue_new ())\<lparr>m_stop := True, completion := {#8#}\<rparr>,
       popped = Some (8 :: nat), stop_after = False\<rparr>"
  have q: "queue_stopped ?s" by (simp add: stop_queue_def)
  have "reset_service ?s = Some (?s\<lparr>m_thread_state := 0\<rparr>)"
    by (simp add: reset_service_def stop_queue_def stop_set_def service_new_def stop_requested_flag_def)
  then have "service_step 1 ?s (?s\<lparr>m_thread_state := 0\<rparr>)" by (rule sv_reset)
  then have r: "(service_step 1)\<^sup>*\<^sup>* ?s (?s\<lparr>m_thread_state := 0\<rparr>)" by (rule r_into_rtranclp)
  have "queue_stopped (?s\<lparr>m_thread_state := 0\<rparr>) \<and> process_events True [?u] = (0, [])"
    by (rule reset_leaves_queue_stopped [OF q r]) (simp add: stop_queue_def)
  then show ?thesis
    by (intro exI [of _ "?s\<lparr>m_thread_state := 0\<rparr>"]) (simp add: is_stop_requested_def)
qed

text \<open>
  However fewer than 2^32 work scopes are made, copied, moved, assigned and ended, the count of
  work is the number of the scopes that refer to the service, and the service is stopped exactly
  when the last of them ends.
\<close>

theorem work_scopes_stop_service:
  assumes "reachable (\<lambda>g. g = work_new) (work_step N) g" "work_step N g h" "N < 2 ^ 32"
  shows "m_work_count g = of_nat (scopes N g) \<and>
    stops h = stops g + (if scopes N g = 1 \<and> scopes N h = 0 then 1 else 0)"
proof -
  have "reachable (\<lambda>g. N < 2 ^ 32 \<and> g = work_new) (work_step N) g" using assms(1,3) by simp
  from work_scopes.reachable_inv [OF this] have inv: "counted N g" by simp
  then show ?thesis using work_step_counted [OF inv assms(3,2)] by (simp add: counted_def releases_def)
qed

theorem work_scopes_stop_service_witness:
  "stops (scope_end 2 (scope_new 2 work_new)) = 1"
proof -
  let ?g = "scope_new 2 work_new"
  have r: "reachable (\<lambda>g. g = work_new) (work_step 4) ?g"
    by (rule reachable_step [of _ _ work_new]) (auto intro: reachable_init wk_new simp: work_new_def)
  have s: "work_step 4 ?g (scope_end 2 ?g)" by (rule wk_end) simp
  have pc: "m_service ?g = (\<lambda>_. False)(2 := True)" "m_service (scope_end 2 ?g) = (\<lambda>_. False)" "stops ?g = 0"
    by (simp_all add: scope_new_def scope_end_def work_new_def notify_work_started_def fun_eq_iff)
  have "processes_at 4 (\<lambda>_. False) True = 0" by (simp add: processes_at_none)
  then have "scopes 4 ?g = 1" "scopes 4 (scope_end 2 ?g) = 0"
    using processes_at_upd [of 2 4 "\<lambda>_. False" True True] by (simp_all add: scopes_def pc)
  then show ?thesis using work_scopes_stop_service [OF r s] pc(3) by simp
qed

end
