(* ===== verification/Io_Overflow.thy ===== *)
theory Io_Overflow
  imports Waiter_Lists
begin

text \<open>
  The schedule operations of include/coro/io/io_service.h and src/coro/io_service.cpp that the
  message queue does not take: \<open>schedule_impl\<close> pushes such an operation on a list linked through
  \<open>m_next\<close>, and a thread that enters the event loop takes the whole list over, commits the
  operations again and puts back the rest when the queue is still full. Operations are named by
  their addresses, calls of \<open>try_reschedule_overflow_operations\<close> by numbers.
\<close>

section \<open>State\<close>

text \<open>
  An operation is not scheduled, was refused by the queue, is in the loop of \<open>schedule_impl\<close> with
  the head that it has read, is in the overflow, or in the message queue.
\<close>

datatype op_pc = Unscheduled | Refused | Loaded u64 | Overflowed | In_queue

text \<open>\<open>Putting operation tail head\<close>: the loop that puts the operations back, with the head it expects.\<close>

datatype resched_pc = Away | Looping u64 | Putting u64 u64 u64

record overflow =
  m_schedule_operations :: u64
  m_next :: "u64 \<Rightarrow> u64"
  op_pc :: "u64 \<Rightarrow> op_pc"
  resched :: "nat \<Rightarrow> resched_pc"

definition overflow_new :: overflow where
  "overflow_new = \<lparr>m_schedule_operations = 0, m_next = (\<lambda>_. 0), op_pc = (\<lambda>_. Unscheduled), resched = (\<lambda>_. Away)\<rparr>"

definition set_op :: "u64 \<Rightarrow> op_pc \<Rightarrow> overflow \<Rightarrow> overflow" where
  "set_op a p s = s\<lparr>op_pc := (op_pc s)(a := p)\<rparr>"

definition set_resched :: "nat \<Rightarrow> resched_pc \<Rightarrow> overflow \<Rightarrow> overflow" where
  "set_resched t p s = s\<lparr>resched := (resched s)(t := p)\<rparr>"

definition set_next :: "u64 \<Rightarrow> u64 \<Rightarrow> overflow \<Rightarrow> overflow" where
  "set_next a q s = s\<lparr>m_next := (m_next s)(a := q)\<rparr>"

section \<open>Scheduling\<close>

text \<open>\<open>ok\<close> is the result of the commit.\<close>

definition schedule_commit :: "u64 \<Rightarrow> bool \<Rightarrow> overflow \<Rightarrow> overflow" where
  "schedule_commit a ok s = set_op a (if ok then In_queue else Refused) s"

definition schedule_load :: "u64 \<Rightarrow> overflow \<Rightarrow> overflow" where
  "schedule_load a s = set_op a (Loaded (m_schedule_operations s)) s"

definition schedule_round :: "u64 \<Rightarrow> u64 \<Rightarrow> bool \<Rightarrow> overflow \<Rightarrow> overflow" where
  "schedule_round a head spurious s =
     (let s1 = set_next a head s
      in if m_schedule_operations s = head \<and> \<not> spurious
         then set_op a Overflowed (s1\<lparr>m_schedule_operations := a\<rparr>)
         else set_op a (Loaded (m_schedule_operations s)) s1)"

section \<open>Rescheduling\<close>

definition resched_exchange :: "nat \<Rightarrow> overflow \<Rightarrow> overflow" where
  "resched_exchange t s = set_resched t (Looping (m_schedule_operations s)) (s\<lparr>m_schedule_operations := 0\<rparr>)"

text \<open>The last operation that can be reached through \<open>m_next\<close>; \<open>None\<close> would be an endless loop.\<close>

partial_function (option) find_tail :: "(u64 \<Rightarrow> u64) \<Rightarrow> u64 \<Rightarrow> u64 option" where
  "find_tail nxt p = (if nxt p = 0 then Some p else find_tail nxt (nxt p))"

text \<open>The loop's body for the operation \<open>p\<close>.\<close>

definition resched_commit :: "nat \<Rightarrow> u64 \<Rightarrow> bool \<Rightarrow> overflow \<Rightarrow> overflow option" where
  "resched_commit t p ok s =
     (if ok then Some (set_resched t (Looping (m_next s p)) (set_op p In_queue s))
      else map_option (\<lambda>tail. set_resched t (Putting p tail 0) s) (find_tail (m_next s) p))"

definition resched_put :: "nat \<Rightarrow> u64 \<Rightarrow> u64 \<Rightarrow> u64 \<Rightarrow> bool \<Rightarrow> overflow \<Rightarrow> overflow" where
  "resched_put t p tail head spurious s =
     (if m_schedule_operations s = head \<and> \<not> spurious
      then set_resched t Away (s\<lparr>m_schedule_operations := p\<rparr>)
      else set_resched t (Putting p tail (m_schedule_operations s)) (set_next tail (m_schedule_operations s) s))"

inductive overflow_step :: "overflow \<Rightarrow> overflow option \<Rightarrow> bool" where
  ov_commit: "a \<noteq> 0 \<Longrightarrow> op_pc s a = Unscheduled \<Longrightarrow> overflow_step s (Some (schedule_commit a ok s))"
| ov_load: "op_pc s a = Refused \<Longrightarrow> overflow_step s (Some (schedule_load a s))"
| ov_round: "op_pc s a = Loaded head \<Longrightarrow> overflow_step s (Some (schedule_round a head spurious s))"
| ov_resume: "op_pc s a = In_queue \<Longrightarrow> overflow_step s (Some (set_op a Unscheduled s))"
| ov_exchange: "resched s t = Away \<Longrightarrow> overflow_step s (Some (resched_exchange t s))"
| ov_next: "resched s t = Looping p \<Longrightarrow> p \<noteq> 0 \<Longrightarrow> overflow_step s (resched_commit t p ok s)"
| ov_done: "resched s t = Looping 0 \<Longrightarrow> overflow_step s (Some (set_resched t Away s))"
| ov_put: "resched s t = Putting p tail head \<Longrightarrow> overflow_step s (Some (resched_put t p tail head spurious s))"

inductive overflow_run :: "overflow option \<Rightarrow> bool" where
  or_start: "overflow_run (Some overflow_new)"
| or_step: "overflow_run (Some s) \<Longrightarrow> overflow_step s s' \<Longrightarrow> overflow_run s'"

section \<open>The invariant\<close>

text \<open>
  While a thread puts its operations back, the last of them may already point into the shared
  list; cutting there gives lists that end in null. \<open>None\<close> is the shared list, \<open>Some t\<close> the one in
  the hands of the call \<open>t\<close>.
\<close>

definition cut_next :: "overflow \<Rightarrow> u64 \<Rightarrow> u64" where
  "cut_next s a = (if \<exists>t p head. resched s t = Putting p a head then 0 else m_next s a)"

definition list_heads :: "overflow \<Rightarrow> nat option \<Rightarrow> u64" where
  "list_heads s k =
     (case k of
        None \<Rightarrow> m_schedule_operations s
      | Some t \<Rightarrow> (case resched s t of Away \<Rightarrow> 0 | Looping p \<Rightarrow> p | Putting p tail head \<Rightarrow> p))"

definition overflowed :: "overflow \<Rightarrow> u64 \<Rightarrow> bool" where
  "overflowed s a \<longleftrightarrow> op_pc s a = Overflowed"

definition lists_ok :: "overflow \<Rightarrow> (nat option \<Rightarrow> u64 list) \<Rightarrow> bool" where
  "lists_ok s xs \<longleftrightarrow> waiter_lists (cut_next s) (list_heads s) xs (overflowed s) \<and>
     (\<forall>a. op_pc s a \<noteq> Unscheduled \<longrightarrow> a \<noteq> 0) \<and>
     (\<forall>t p tail head. resched s t = Putting p tail head \<longrightarrow>
        xs (Some t) \<noteq> [] \<and> last (xs (Some t)) = tail \<and> m_next s tail = head)"

lemma set_simps [simp]:
  "m_schedule_operations (set_op a p s) = m_schedule_operations s" "m_next (set_op a p s) = m_next s"
  "resched (set_op a p s) = resched s" "op_pc (set_op a p s) = (op_pc s)(a := p)"
  "m_schedule_operations (set_resched t r s) = m_schedule_operations s" "m_next (set_resched t r s) = m_next s"
  "op_pc (set_resched t r s) = op_pc s" "resched (set_resched t r s) = (resched s)(t := r)"
  "m_schedule_operations (set_next a q s) = m_schedule_operations s" "m_next (set_next a q s) = (m_next s)(a := q)"
  "op_pc (set_next a q s) = op_pc s" "resched (set_next a q s) = resched s"
  by (simp_all add: set_op_def set_resched_def set_next_def)

lemma lists_wl: "lists_ok s xs \<Longrightarrow> waiter_lists (cut_next s) (list_heads s) xs (overflowed s)"
  by (simp add: lists_ok_def)

lemma lists_tail:
  assumes "lists_ok s xs" "resched s t = Putting p tail head"
  shows "tail \<in> set (xs (Some t))" "overflowed s tail" "xs (Some t) \<noteq> []" "last (xs (Some t)) = tail" "m_next s tail = head"
proof -
  show l: "xs (Some t) \<noteq> []" "last (xs (Some t)) = tail" "m_next s tail = head"
    using assms unfolding lists_ok_def by blast+
  then show "tail \<in> set (xs (Some t))" using last_in_set by blast
  then show "overflowed s tail" using lists_wl [OF assms(1)] unfolding waiter_lists_def by blast
qed

lemma lists_apart: "lists_ok s xs \<Longrightarrow> a \<in> set (xs k) \<Longrightarrow> a \<in> set (xs l) \<Longrightarrow> k = l"
  using lists_wl [of s xs] unfolding waiter_lists_def by blast

text \<open>An operation that is not in the overflow, and not afterwards, moves.\<close>

lemma lists_op:
  assumes ok: "lists_ok s xs" and a: "a \<noteq> 0" "op_pc s a \<noteq> Overflowed" "p \<noteq> Overflowed"
  shows "lists_ok (set_op a p (s\<lparr>m_next := (m_next s)(a := q)\<rparr>)) xs"
proof -
  let ?t = "set_op a p (s\<lparr>m_next := (m_next s)(a := q)\<rparr>)"
  have na: "\<not> overflowed s a" using a(2) by (simp add: overflowed_def)
  then have away: "resched s t \<noteq> Putting p' a head" for t p' head using lists_tail(2) [OF ok] by blast
  have "cut_next ?t = (cut_next s)(a := q)"
    using away by (auto simp: cut_next_def fun_eq_iff)
  moreover have "list_heads ?t = list_heads s" by (simp add: list_heads_def fun_eq_iff split: option.split)
  moreover have "overflowed ?t = overflowed s" using a by (auto simp: overflowed_def fun_eq_iff)
  ultimately show ?thesis using waiter_lists_touch [OF lists_wl [OF ok] na, of q] ok a(1) away
    by (auto simp: lists_ok_def)
qed

lemma lists_op_only:
  assumes "lists_ok s xs" "a \<noteq> 0" "op_pc s a \<noteq> Overflowed" "p \<noteq> Overflowed"
  shows "lists_ok (set_op a p s) xs"
  using lists_op [OF assms, of "m_next s a"] by simp

lemma lists_push:
  assumes ok: "lists_ok s xs" and a: "a \<noteq> 0" "op_pc s a \<noteq> Overflowed" "m_next s a = m_schedule_operations s"
  shows "lists_ok (set_op a Overflowed (s\<lparr>m_schedule_operations := a\<rparr>)) (xs(None := a # xs None))"
proof -
  let ?t = "set_op a Overflowed (s\<lparr>m_schedule_operations := a\<rparr>)"
  have na: "\<not> overflowed s a" using a(2) by (simp add: overflowed_def)
  then have away: "resched s t \<noteq> Putting p' a head" for t p' head using lists_tail(2) [OF ok] by blast
  have "cut_next s a = list_heads s None" using away a(3) by (simp add: cut_next_def list_heads_def)
  from waiter_lists_push [OF lists_wl [OF ok] na a(1) this]
  have "waiter_lists (cut_next s) ((list_heads s)(None := a)) (xs(None := a # xs None)) ((overflowed s)(a := True))" .
  moreover have "cut_next ?t = cut_next s" by (simp add: cut_next_def fun_eq_iff)
  moreover have "list_heads ?t = (list_heads s)(None := a)" by (auto simp: list_heads_def fun_eq_iff split: option.split)
  moreover have "overflowed ?t = (overflowed s)(a := True)" by (auto simp: overflowed_def fun_eq_iff)
  ultimately show ?thesis using ok a(1) by (auto simp: lists_ok_def)
qed

lemma lists_exchange:
  assumes ok: "lists_ok s xs" and t: "resched s t = Away"
  shows "lists_ok (resched_exchange t s) (xs(None := [], Some t := xs None))"
proof -
  let ?s = "resched_exchange t s"
  have l: "list_heads s (Some t) = 0" "None \<noteq> Some t" using t by (simp_all add: list_heads_def)
  have "cut_next ?s = cut_next s"
    using t by (auto simp: resched_exchange_def cut_next_def fun_eq_iff) (metis resched_pc.distinct(3))+
  moreover have "list_heads ?s = (list_heads s)(None := 0, Some t := list_heads s None)"
    by (auto simp: resched_exchange_def list_heads_def fun_eq_iff split: option.split)
  moreover have "overflowed ?s = overflowed s" by (simp add: resched_exchange_def overflowed_def fun_eq_iff)
  ultimately show ?thesis using waiter_lists_take [OF lists_wl [OF ok] l] ok t
    by (auto simp: lists_ok_def resched_exchange_def)
qed

lemma lists_requeue:
  assumes ok: "lists_ok s xs" and t: "resched s t = Looping p" "p \<noteq> 0"
  shows "lists_ok (set_resched t (Looping (m_next s p)) (set_op p In_queue s)) (xs(Some t := tl (xs (Some t))))"
proof -
  let ?s = "set_resched t (Looping (m_next s p)) (set_op p In_queue s)"
  have h: "list_heads s (Some t) = p" using t by (simp add: list_heads_def)
  have nz: "list_heads s (Some t) \<noteq> 0" using h t(2) by simp
  obtain ys where "xs (Some t) = p # ys" using waiter_lists_head [OF lists_wl [OF ok] nz] h by metis
  then have "p \<in> set (xs (Some t))" by simp
  then have away: "resched s t' \<noteq> Putting p' p head" for t' p' head
    using lists_apart [OF ok, of p "Some t" "Some t'"] lists_tail(1) [OF ok, of t' p' p head] t(1) by auto
  have "cut_next ?s = cut_next s"
    using t(1) by (auto simp: cut_next_def fun_eq_iff) (metis resched_pc.distinct(5))+
  moreover have "list_heads ?s = (list_heads s)(Some t := cut_next s (list_heads s (Some t)))"
    using away t(1) by (auto simp: h list_heads_def cut_next_def fun_eq_iff split: option.split)
  moreover have "overflowed ?s = (overflowed s)(list_heads s (Some t) := False)"
    by (auto simp: h overflowed_def fun_eq_iff)
  ultimately show ?thesis using waiter_lists_pop [OF lists_wl [OF ok] nz] ok t(2)
    by (auto simp: lists_ok_def)
qed

lemma find_tail_chain: "chain nxt p ys \<Longrightarrow> ys \<noteq> [] \<Longrightarrow> find_tail nxt p = Some (last ys)"
proof (induction ys arbitrary: p)
  case (Cons y ys)
  then show ?case by (cases ys) (simp_all add: find_tail.simps [of nxt y])
qed simp

text \<open>The list in the hands of a call that goes through it is linked by \<open>m_next\<close> itself.\<close>

lemma lists_chain:
  assumes ok: "lists_ok s xs" and k: "\<forall>t p tail head. k = Some t \<longrightarrow> resched s t \<noteq> Putting p tail head"
  shows "chain (m_next s) (list_heads s k) (xs k)"
proof -
  have "cut_next s a = m_next s a" if "a \<in> set (xs k)" for a
  proof -
    have "resched s t \<noteq> Putting p a head" for t p head
      using lists_apart [OF ok that, of "Some t"] lists_tail(1) [OF ok, of t p a head] k by blast
    then show ?thesis by (simp add: cut_next_def)
  qed
  then show ?thesis using waiter_lists_chain [OF lists_wl [OF ok], of k] chain_cong by blast
qed

lemma lists_tail_found:
  assumes ok: "lists_ok s xs" and t: "resched s t = Looping p" "p \<noteq> 0"
  shows "\<exists>tail. find_tail (m_next s) p = Some tail \<and> lists_ok (set_resched t (Putting p tail 0) s) xs"
proof -
  have h: "list_heads s (Some t) = p" using t by (simp add: list_heads_def)
  have ne: "xs (Some t) \<noteq> []" using waiter_lists_null [OF lists_wl [OF ok], of "Some t"] h t(2) by simp
  have ch: "chain (m_next s) p (xs (Some t))" using lists_chain [OF ok, of "Some t"] t(1) h by simp
  let ?tail = "last (xs (Some t))"
  let ?s = "set_resched t (Putting p ?tail 0) s"
  have z: "m_next s ?tail = 0" using chain_last [OF ch ne] .
  have "cut_next ?s = cut_next s"
    using t(1) z by (auto simp: cut_next_def fun_eq_iff) (metis resched_pc.distinct(5))+
  moreover have "list_heads ?s = list_heads s"
    using t(1) by (auto simp: list_heads_def fun_eq_iff split: option.split)
  moreover have "overflowed ?s = overflowed s" by (simp add: overflowed_def fun_eq_iff)
  ultimately have "lists_ok ?s xs" using ok ne z by (auto simp: lists_ok_def)
  then show ?thesis using find_tail_chain [OF ch ne] by blast
qed

lemma lists_put_back:
  assumes ok: "lists_ok s xs" and t: "resched s t = Putting p tail head" and e: "m_schedule_operations s = head"
  shows "lists_ok (set_resched t Away (s\<lparr>m_schedule_operations := p\<rparr>)) (xs(None := xs (Some t) @ xs None, Some t := []))"
proof -
  let ?s = "set_resched t Away (s\<lparr>m_schedule_operations := p\<rparr>)"
  note tl = lists_tail [OF ok t]
  have other: "resched s t' \<noteq> Putting p' tail head'" if "t' \<noteq> t" for t' p' head'
    using lists_apart [OF ok tl(1), of "Some t'"] lists_tail(1) [OF ok, of t' p' tail head'] that by blast
  have "cut_next ?s = (cut_next s)(last (xs (Some t)) := list_heads s None)"
  proof
    fix a
    have "(\<exists>t' p' h. (resched ?s) t' = Putting p' a h) \<longleftrightarrow> a \<noteq> tail \<and> (\<exists>t' p' h. resched s t' = Putting p' a h)"
      using other t by (auto simp: fun_upd_def) (metis resched_pc.distinct(3) resched_pc.inject(2))+
    then show "cut_next ?s a = ((cut_next s)(last (xs (Some t)) := list_heads s None)) a"
      using tl(4,5) e by (auto simp: cut_next_def list_heads_def)
  qed
  moreover have "list_heads ?s = (list_heads s)(None := list_heads s (Some t), Some t := 0)"
    using t by (auto simp: list_heads_def fun_eq_iff split: option.split)
  moreover have "overflowed ?s = overflowed s" by (simp add: overflowed_def fun_eq_iff)
  ultimately show ?thesis using waiter_lists_append [OF lists_wl [OF ok] tl(3), of None] ok t
    by (auto simp: lists_ok_def)
qed

lemma lists_put_retry:
  assumes ok: "lists_ok s xs" and t: "resched s t = Putting p tail head"
  shows "lists_ok (set_resched t (Putting p tail q) (set_next tail q s)) xs"
proof -
  let ?s = "set_resched t (Putting p tail q) (set_next tail q s)"
  note tl = lists_tail [OF ok t]
  have other: "resched s t' \<noteq> Putting p' tail head'" if "t' \<noteq> t" for t' p' head'
    using lists_apart [OF ok tl(1), of "Some t'"] lists_tail(1) [OF ok, of t' p' tail head'] that by blast
  have "cut_next ?s = cut_next s"
  proof
    fix a
    have "(\<exists>t' p' h. (resched ?s) t' = Putting p' a h) \<longleftrightarrow> (\<exists>t' p' h. resched s t' = Putting p' a h)"
      using t by (auto simp: fun_upd_def) (metis resched_pc.inject(2))+
    moreover have "\<exists>t' p' h. resched s t' = Putting p' tail h" using t by blast
    ultimately show "cut_next ?s a = cut_next s a" by (auto simp: cut_next_def)
  qed
  moreover have "list_heads ?s = list_heads s"
    using t by (auto simp: list_heads_def fun_eq_iff split: option.split)
  moreover have "overflowed ?s = overflowed s" by (simp add: overflowed_def fun_eq_iff)
  ultimately show ?thesis using ok t other by (auto simp: lists_ok_def)
qed

lemma lists_done:
  assumes ok: "lists_ok s xs" and t: "resched s t = Looping 0"
  shows "lists_ok (set_resched t Away s) xs"
proof -
  have "cut_next (set_resched t Away s) = cut_next s"
    using t by (auto simp: cut_next_def fun_eq_iff) (metis resched_pc.distinct(5))+
  moreover have "list_heads (set_resched t Away s) = list_heads s"
    using t by (auto simp: list_heads_def fun_eq_iff split: option.split)
  moreover have "overflowed (set_resched t Away s) = overflowed s" by (simp add: overflowed_def fun_eq_iff)
  ultimately show ?thesis using ok by (auto simp: lists_ok_def)
qed

definition overflow_inv :: "overflow \<Rightarrow> bool" where
  "overflow_inv s \<longleftrightarrow> (\<exists>xs. lists_ok s xs)"

lemma overflow_inv_round:
  assumes ok: "lists_ok s xs" and a: "op_pc s a = Loaded head"
  shows "overflow_inv (schedule_round a head spurious s)"
proof -
  have nz: "a \<noteq> 0" using ok a by (auto simp: lists_ok_def)
  let ?s = "s\<lparr>m_next := (m_next s)(a := head)\<rparr>"
  have l: "lists_ok (set_op a (Loaded q) ?s) xs" for q
    by (rule lists_op [OF ok nz]) (use a in simp_all)
  show ?thesis
  proof (cases "m_schedule_operations s = head \<and> \<not> spurious")
    case True
    have "lists_ok ?s xs" using lists_op [OF ok nz, of "Loaded head" head] a by (simp add: set_op_def fun_upd_idem)
    from lists_push [OF this nz] True a show ?thesis
      by (auto simp: overflow_inv_def schedule_round_def Let_def set_next_def)
  next
    case False
    then show ?thesis using l [of "m_schedule_operations s"]
      by (auto simp: overflow_inv_def schedule_round_def Let_def set_next_def)
  qed
qed

lemma overflow_inv_step:
  assumes inv: "overflow_inv s" and step: "overflow_step s s'"
  shows "\<exists>t. s' = Some t \<and> overflow_inv t"
proof -
  obtain xs where ok: "lists_ok s xs" using inv by (auto simp: overflow_inv_def)
  from step show ?thesis
  proof cases
    case (ov_commit a ok')
    then show ?thesis using lists_op_only [OF ok, of a] by (auto simp: overflow_inv_def schedule_commit_def)
  next
    case (ov_load a)
    then have "a \<noteq> 0" using ok by (auto simp: lists_ok_def)
    then show ?thesis using lists_op_only [OF ok, of a] ov_load by (auto simp: overflow_inv_def schedule_load_def)
  next
    case (ov_round a head spurious)
    then show ?thesis using overflow_inv_round [OF ok] by simp
  next
    case (ov_resume a)
    then have "a \<noteq> 0" using ok by (auto simp: lists_ok_def)
    then show ?thesis using lists_op_only [OF ok, of a] ov_resume by (auto simp: overflow_inv_def)
  next
    case (ov_exchange t)
    then show ?thesis using lists_exchange [OF ok] by (auto simp: overflow_inv_def)
  next
    case (ov_next t p ok')
    then show ?thesis using lists_requeue [OF ok] lists_tail_found [OF ok]
      by (cases ok') (fastforce simp: overflow_inv_def resched_commit_def)+
  next
    case (ov_done t)
    then show ?thesis using lists_done [OF ok] by (auto simp: overflow_inv_def)
  next
    case (ov_put t p tail head spurious)
    have "overflow_inv (resched_put t p tail head spurious s)"
    proof (cases "m_schedule_operations s = head \<and> \<not> spurious")
      case True
      then show ?thesis using lists_put_back [OF ok ov_put(2)] by (auto simp: overflow_inv_def resched_put_def)
    next
      case False
      then show ?thesis using lists_put_retry [OF ok ov_put(2), of "m_schedule_operations s"]
        by (simp only: overflow_inv_def resched_put_def if_False) blast
    qed
    then show ?thesis using ov_put(1) by simp
  qed
qed

lemma overflow_run_inv: "overflow_run s' \<Longrightarrow> \<exists>s. s' = Some s \<and> overflow_inv s"
proof (induction rule: overflow_run.induct)
  case or_start
  have "list_heads overflow_new = (\<lambda>_. 0)" "overflowed overflow_new = (\<lambda>_. False)"
    by (simp_all add: list_heads_def overflowed_def overflow_new_def fun_eq_iff split: option.split)
  then have "lists_ok overflow_new (\<lambda>_. [])"
    using waiter_lists_empty by (simp add: lists_ok_def) (simp add: overflow_new_def)
  then show ?case by (auto simp: overflow_inv_def)
next
  case (or_step s s')
  then show ?case using overflow_inv_step by blast
qed

section \<open>Properties\<close>

text \<open>
  \<open>xs None\<close> is the shared list, \<open>xs (Some t)\<close> what the call \<open>t\<close> has in its hands: between them they
  hold each operation in the overflow once, and nothing else.
\<close>

definition overflow_lists :: "overflow \<Rightarrow> (nat option \<Rightarrow> u64 list) \<Rightarrow> bool" where
  "overflow_lists s xs \<longleftrightarrow>
     chain (m_next s) (m_schedule_operations s) (xs None) \<and>
     (\<forall>t. resched s t = Away \<longrightarrow> xs (Some t) = []) \<and>
     (\<forall>t p. resched s t = Looping p \<longrightarrow> chain (m_next s) p (xs (Some t))) \<and>
     (\<forall>k. distinct (xs k)) \<and> (\<forall>k l. k \<noteq> l \<longrightarrow> set (xs k) \<inter> set (xs l) = {}) \<and>
     (\<forall>a. op_pc s a = Overflowed \<longleftrightarrow> (\<exists>k. a \<in> set (xs k)))"

lemma lists_overflow_lists:
  assumes "lists_ok s xs"
  shows "overflow_lists s xs"
  unfolding overflow_lists_def
proof (intro conjI allI impI)
  show "chain (m_next s) (m_schedule_operations s) (xs None)" using lists_chain [OF assms, of None] by (simp add: list_heads_def)
  fix t assume "resched s t = Away"
  then show "xs (Some t) = []" using waiter_lists_null [OF lists_wl [OF assms], of "Some t"] by (simp add: list_heads_def)
next
  fix t p assume "resched s t = Looping p"
  then show "chain (m_next s) p (xs (Some t))" using lists_chain [OF assms, of "Some t"] by (simp add: list_heads_def)
next
  fix a show "op_pc s a = Overflowed \<longleftrightarrow> (\<exists>k. a \<in> set (xs k))"
    using lists_wl [OF assms] by (simp add: waiter_lists_def overflowed_def)
qed (use lists_wl [OF assms] in \<open>auto simp: waiter_lists_def\<close>)

text \<open>One call of \<open>try_reschedule_overflow_operations\<close>, when the queue takes every message.\<close>

partial_function (option) resched_loop :: "nat \<Rightarrow> overflow \<Rightarrow> overflow option" where
  "resched_loop t s =
     (case resched s t of
        Looping p \<Rightarrow>
          (if p = 0 then Some (set_resched t Away s) else Option.bind (resched_commit t p True s) (resched_loop t))
      | _ \<Rightarrow> Some s)"

lemma resched_loop_drains:
  assumes "resched s t = Looping p" "chain (m_next s) p xs" "distinct xs"
  shows "\<exists>u. resched_loop t s = Some u \<and> m_schedule_operations u = m_schedule_operations s \<and> resched u t = Away \<and>
    (\<forall>a. op_pc u a = (if a \<in> set xs then In_queue else op_pc s a))"
  using assms
proof (induction xs arbitrary: s p)
  case Nil
  then show ?case by (simp add: resched_loop.simps [of t s])
next
  case (Cons x xs)
  let ?s = "set_resched t (Looping (m_next s x)) (set_op x In_queue s)"
  have "resched_loop t s = resched_loop t ?s"
    using Cons.prems by (simp add: resched_loop.simps [of t s] resched_commit_def)
  moreover have "chain (m_next ?s) (m_next s x) xs" "distinct xs" "resched ?s t = Looping (m_next s x)"
    using Cons.prems by simp_all
  ultimately show ?case using Cons.IH [of ?s "m_next s x"] Cons.prems(3) by auto
qed

text \<open>A run in which one operation is refused and goes to the overflow.\<close>

definition demo_overflow :: overflow where
  "demo_overflow = schedule_round 8 0 False (schedule_load 8 (schedule_commit 8 False overflow_new))"

lemma demo_overflow_run: "overflow_run (Some demo_overflow)"
proof -
  have "overflow_run (Some (schedule_commit 8 False overflow_new))"
    by (rule or_step [OF or_start]) (rule ov_commit, simp_all add: overflow_new_def)
  then have "overflow_run (Some (schedule_load 8 (schedule_commit 8 False overflow_new)))"
    by (rule or_step) (rule ov_load, simp add: schedule_commit_def)
  then show ?thesis unfolding demo_overflow_def
    by (rule or_step) (rule ov_round, simp add: schedule_load_def schedule_commit_def overflow_new_def)
qed

lemma demo_overflow_fields:
  "op_pc demo_overflow = (\<lambda>_. Unscheduled)(8 := Overflowed)" "resched demo_overflow = (\<lambda>_. Away)"
  "m_schedule_operations demo_overflow = 8" "m_next demo_overflow = (\<lambda>_. 0)"
  by (simp_all add: demo_overflow_def schedule_round_def schedule_load_def schedule_commit_def overflow_new_def
    Let_def set_op_def set_next_def fun_eq_iff)

text \<open>
  C36. However operations are scheduled, resumed, refused by the queue and rescheduled by any number
  of threads, no loop of the list code runs astray, and the shared list and the hands of the threads
  together hold every operation that is in the overflow exactly once, and no other: none is lost or
  scheduled twice.
\<close>

theorem overflow_keeps_operations:
  assumes "overflow_run s'"
  shows "\<exists>s xs. s' = Some s \<and> overflow_lists s xs"
  using overflow_run_inv [OF assms] lists_overflow_lists by (auto simp: overflow_inv_def)

theorem overflow_keeps_operations_witness:
  "\<exists>s. overflow_run (Some s) \<and> op_pc s 8 = Overflowed \<and> (\<exists>xs. overflow_lists s xs \<and> 8 \<in> set (xs None))"
proof -
  obtain xs where xs: "overflow_lists demo_overflow xs"
    using overflow_keeps_operations [OF demo_overflow_run] by blast
  then obtain k where "8 \<in> set (xs k)" using demo_overflow_fields unfolding overflow_lists_def by fastforce
  moreover have "xs (Some t) = []" for t using xs demo_overflow_fields by (simp add: overflow_lists_def)
  ultimately have "8 \<in> set (xs None)" by (cases k) auto
  then show ?thesis using demo_overflow_run demo_overflow_fields xs by (intro exI [of _ demo_overflow]) auto
qed

text \<open>
  When the queue takes every message, a call of try_reschedule_overflow_operations that is not
  overlapped returns with the overflow list empty and every operation that was in it in the queue.
\<close>

theorem overflow_drains:
  assumes "overflow_run (Some s)" "resched s t = Away" "overflow_lists s xs"
  shows "\<exists>u. resched_loop t (resched_exchange t s) = Some u \<and> m_schedule_operations u = 0 \<and> resched u t = Away \<and>
    (\<forall>a. op_pc u a = (if a \<in> set (xs None) then In_queue else op_pc s a))"
proof -
  let ?e = "resched_exchange t s"
  have "chain (m_next s) (m_schedule_operations s) (xs None)" "distinct (xs None)"
    using assms(3) by (simp_all add: overflow_lists_def)
  moreover have e: "resched ?e t = Looping (m_schedule_operations s)" "m_next ?e = m_next s" "op_pc ?e a = op_pc s a"
      "m_schedule_operations ?e = 0" for a
    by (simp_all add: resched_exchange_def)
  ultimately obtain u where "resched_loop t ?e = Some u" "m_schedule_operations u = 0" "resched u t = Away"
      "\<forall>a. op_pc u a = (if a \<in> set (xs None) then In_queue else op_pc ?e a)"
    using resched_loop_drains [of ?e t "m_schedule_operations s" "xs None"] by auto
  then show ?thesis unfolding e(3) by blast
qed

theorem overflow_drains_witness:
  "\<exists>u. resched_loop 0 (resched_exchange 0 demo_overflow) = Some u \<and> m_schedule_operations u = 0 \<and> op_pc u 8 = In_queue"
proof -
  obtain xs where xs: "overflow_lists demo_overflow xs"
    using overflow_run_inv [OF demo_overflow_run] lists_overflow_lists by (auto simp: overflow_inv_def)
  then obtain k where "8 \<in> set (xs k)" using demo_overflow_fields unfolding overflow_lists_def by fastforce
  moreover have "xs (Some t) = []" for t using xs demo_overflow_fields by (simp add: overflow_lists_def)
  ultimately have "8 \<in> set (xs None)" by (cases k) auto
  moreover have "resched demo_overflow 0 = Away" by (simp add: demo_overflow_fields)
  ultimately show ?thesis using overflow_drains [OF demo_overflow_run _ xs, of 0] by auto
qed

end
