(* ===== verification/Io_Timer.thy ===== *)
theory Io_Timer
  imports Io_Operations
begin

text \<open>
  io_service::schedule_after and timed_schedule_operation (include/coro/io/io_service.h,
  src/coro/io_service.cpp). Times are nanoseconds of one clock, as integers: the representation of
  the clock, 64 bits, is not exceeded within 292 years. \<open>None\<close> is undefined behaviour: an access
  through the pointer \<open>m_message\<close>, which the constructor leaves as it finds it.
\<close>

record timed_schedule_operation =
  m_resume_time :: int
  m_cancellation_token :: "bool option"
  m_cancellation_registration :: "bool option"
  m_message_pointer :: nat
  m_ref_count :: u32

text \<open>
  A token has no state or one in which cancellation was requested or not. The constructor moves it
  into the registration, which runs the callback at once when cancellation was requested; \<open>garbage\<close>
  is what the memory of \<open>m_message\<close> holds.
\<close>

definition timed_new :: "nat \<Rightarrow> int \<Rightarrow> bool option \<Rightarrow> timed_schedule_operation option" where
  "timed_new garbage resume_time token =
     (if token = Some True then None
      else Some \<lparr>m_resume_time = resume_time, m_cancellation_token = None, m_cancellation_registration = Some (token = Some False),
                 m_message_pointer = garbage, m_ref_count = 2\<rparr>)"

definition schedule_after :: "nat \<Rightarrow> int \<Rightarrow> int \<Rightarrow> bool option \<Rightarrow> timed_schedule_operation option" where
  "schedule_after garbage now delay token = timed_new garbage (now + delay) token"

definition timed_await_ready :: "timed_schedule_operation \<Rightarrow> bool" where
  "timed_await_ready t \<longleftrightarrow> m_cancellation_token t = Some True"

definition nanos :: int where "nanos = 1000000000"

definition to_timespec :: "int \<Rightarrow> int \<Rightarrow> int \<times> int" where
  "to_timespec resume_time now =
     (let duration = resume_time - now; duration = (if duration < 0 then 0 else duration);
          tv_sec = duration div nanos
      in (tv_sec, duration - tv_sec * nanos))"

text \<open>
  \<open>await_suspend\<close>, once the queue has taken the message: the operation, the message and whether the
  operation is scheduled as well. The message is new when the pointer is null.
\<close>

definition timed_await_suspend ::
  "nat \<Rightarrow> int \<Rightarrow> nat \<Rightarrow> timed_schedule_operation \<Rightarrow> (timed_schedule_operation \<times> io_message \<times> bool) option" where
  "timed_await_suspend fresh now h t =
     (if m_message_pointer t \<noteq> 0 then None
      else let ts = to_timespec (m_resume_time t) now;
               m = new_message\<lparr>handle := h, timeout := ts\<rparr>;
               m = transact (Timeout ts False) m
           in Some (t\<lparr>m_message_pointer := fresh, m_ref_count := m_ref_count t - 1\<rparr>, m, m_ref_count t = 1))"

definition timed_callback :: "io_message \<Rightarrow> io_message" where
  "timed_callback m = timeout_remove m"

definition ETIME :: int where "ETIME = 101"

definition timed_await_resume :: "timed_schedule_operation \<Rightarrow> io_message \<Rightarrow> timed_schedule_operation \<times> outcome" where
  "timed_await_resume t m =
     (t\<lparr>m_cancellation_registration := None\<rparr>,
      if m_cancellation_token t = Some True then Operation_cancelled
      else if result m = - ETIME then Value 0
      else if result m = - ECANCELED then Operation_cancelled
      else if result m < 0 then System_error (- result m)
      else Value 0)"

section \<open>The delay\<close>

lemma to_timespec_normal:
  "to_timespec r now = (s, n) \<Longrightarrow> 0 \<le> n \<and> n < nanos \<and> 0 \<le> s \<and> s * nanos + n = max 0 (r - now)"
  by (auto simp: to_timespec_def nanos_def Let_def minus_div_mult_eq_mod split: if_splits)

text \<open>
  The timer that schedule_after ends up with in the kernel runs for the delay in whole
  milliseconds, cut off: never longer than was asked for, and less than a millisecond shorter; for
  a time that has passed it runs for none.
\<close>
theorem timer_data:
  "\<exists>d. registration p (transact (Timeout (to_timespec r now) False) m) = Some ((int p, EVFILT_TIMER), 0, d) \<and>
     d * 1000000 \<le> max 0 (r - now) \<and> max 0 (r - now) < (d + 1) * 1000000"
proof -
  obtain s n where ts: "to_timespec r now = (s, n)" by force
  have normal: "0 \<le> n" "n < nanos" "0 \<le> s" "s * nanos + n = max 0 (r - now)" using to_timespec_normal [OF ts] by simp_all
  have "n sdiv 1000000 = n div 1000000" using normal(1) by (cases "n = 0") (simp_all add: signed_divide_int_def)
  then have data: "registration p (transact (Timeout (to_timespec r now) False) m) = Some ((int p, EVFILT_TIMER), 0, s * 1000 + n div 1000000)"
    by (simp add: registration_def transact_def ts)
  have q: "n div 1000000 * 1000000 \<le> n" "n < n div 1000000 * 1000000 + 1000000" by presburger+
  have bounds: "(s * 1000 + d) * 1000000 \<le> delay \<and> delay < (s * 1000 + d + 1) * 1000000"
    if "s * 1000000000 + n = delay" "d * 1000000 \<le> n" "n < d * 1000000 + 1000000" for d delay :: int
    using that by simp
  show ?thesis using data bounds [OF _ q] normal(4) unfolding nanos_def by blast
qed

text \<open>
  An operation whose token was not cancelled when it was made, and whose pointer happens to be
  null, always suspends, is never scheduled besides its timer, and gives its coroutine success when
  the timer has run out, and operation_cancelled when the callback was run before.
\<close>
theorem timed_outcome:
  assumes "timed_new 0 r token = Some t" "timed_await_suspend fresh now h t = Some (u, m, scheduled)"
  shows "\<not> timed_await_ready t \<and> \<not> scheduled \<and> handle m = h \<and>
    snd (timed_await_resume u (performed a m)) = Value 0 \<and>
    snd (timed_await_resume u (fst (removed 0 (timed_callback m)))) = Operation_cancelled"
proof -
  have t: "m_cancellation_token t = None" "m_message_pointer t = 0" "m_ref_count t = 2"
    using assms(1) by (auto simp: timed_new_def split: if_splits)
  then have u: "m_cancellation_token u = None"
    and m: "handle m = h" "operation m = TIMEOUT" "\<not> canceled m" "\<not> completed m" and not: "\<not> scheduled"
    using assms(2) by (auto simp: timed_await_suspend_def transact_def new_message_def Let_def)
  have "result (performed a m) = 0" using m by (simp add: performed_def)
  moreover have "result (fst (removed 0 (timed_callback m))) = - ECANCELED"
    using m by (simp add: removed_def timed_callback_def timeout_remove_def)
  ultimately show ?thesis using t(1) u m(1) not
    by (simp add: timed_await_ready_def timed_await_resume_def ECANCELED_def ETIME_def)
qed

theorem timed_outcome_witness:
  "\<exists>t u m. timed_new 0 500 (Some False) = Some t \<and> timed_await_suspend 64 100 7 t = Some (u, m, False) \<and>
     snd (timed_await_resume u (performed \<lparr>ret = 0, errno = 0, so_error = 0\<rparr> m)) = Value 0"
proof -
  obtain t where t: "timed_new 0 500 (Some False) = Some t" by (simp add: timed_new_def)
  then have "m_message_pointer t = 0" by (auto simp: timed_new_def)
  then obtain u m b where um: "timed_await_suspend 64 100 7 t = Some (u, m, b)" by (simp add: timed_await_suspend_def Let_def)
  show ?thesis using timed_outcome [OF t um] t um by auto
qed

end
