(* ===== verification/Files.thy ===== *)
theory Files
  imports Coro_Prelude
begin

text \<open>
  The files of include/coro/io: the modes (file_open_mode.h, file_share_mode.h,
  file_buffering_mode.h), file::open and file::size (src/coro/file.cpp), the three classes that open
  files, and writable_file::set_size. The answers of the system calls are a parameter; a result is
  the calls that were made, in their order, with an error or a descriptor.
\<close>

section \<open>Modes and flags\<close>

datatype file_open_mode = open_existing | create_always | create_new | create_or_open | truncate_existing

text \<open>A share mode and a buffering mode are sets of bits of an int.\<close>

type_synonym file_share_mode = u32
type_synonym file_buffering_mode = u32

definition share_none :: file_share_mode where "share_none = 0"
definition share_read :: file_share_mode where "share_read = 1"
definition share_write :: file_share_mode where "share_write = 2"
definition share_read_write :: file_share_mode where "share_read_write = share_read OR share_write"
definition share_delete :: file_share_mode where "share_delete = 4"

definition unbuffered :: file_buffering_mode where "unbuffered = 4"
definition write_through :: file_buffering_mode where "write_through = 8"

text \<open>The bits of open(2) and of the permissions on macOS.\<close>

definition O_RDONLY :: u32 where "O_RDONLY = 0"
definition O_WRONLY :: u32 where "O_WRONLY = 1"
definition O_RDWR :: u32 where "O_RDWR = 2"
definition O_ACCMODE :: u32 where "O_ACCMODE = 3"
definition O_SYNC :: u32 where "O_SYNC = 0x80"
definition O_CREAT :: u32 where "O_CREAT = 0x200"
definition O_TRUNC :: u32 where "O_TRUNC = 0x400"
definition O_EXCL :: u32 where "O_EXCL = 0x800"

definition S_IRUSR :: u32 where "S_IRUSR = 0x100"
definition S_IWUSR :: u32 where "S_IWUSR = 0x80"
definition S_IRGRP :: u32 where "S_IRGRP = 0x20"
definition S_IWGRP :: u32 where "S_IWGRP = 0x10"
definition S_IROTH :: u32 where "S_IROTH = 0x4"

lemmas flag_defs = O_RDONLY_def O_WRONLY_def O_RDWR_def O_ACCMODE_def O_SYNC_def O_CREAT_def O_TRUNC_def O_EXCL_def
  S_IRUSR_def S_IWUSR_def S_IRGRP_def S_IWGRP_def S_IROTH_def
  share_none_def share_read_def share_write_def share_read_write_def share_delete_def unbuffered_def write_through_def

section \<open>file::open\<close>

primrec open_mode_flags :: "file_open_mode \<Rightarrow> u32" where
  "open_mode_flags create_or_open = O_CREAT"
| "open_mode_flags create_always = O_CREAT OR O_TRUNC"
| "open_mode_flags create_new = O_CREAT OR O_EXCL"
| "open_mode_flags open_existing = 0"
| "open_mode_flags truncate_existing = O_TRUNC"

definition access_flags :: "u32 \<Rightarrow> u32" where
  "access_flags fill_access =
     (if fill_access AND O_RDWR = O_RDWR then O_RDWR
      else if fill_access AND O_WRONLY \<noteq> 0 then O_WRONLY
      else if fill_access AND O_RDONLY \<noteq> 0 then O_RDONLY
      else O_RDONLY)"

definition open_flags :: "u32 \<Rightarrow> file_open_mode \<Rightarrow> file_buffering_mode \<Rightarrow> u32" where
  "open_flags fill_access open_mode buffering_mode =
     open_mode_flags open_mode OR access_flags fill_access OR
     (if buffering_mode AND write_through = write_through then O_SYNC else 0)"

datatype lock_kind = LOCK_EX_NB | LOCK_SH_NB

datatype file_call = Open_call u32 "u32 option" | Flock_call int lock_kind | Nocache_call int | Close_call int

datatype file_error = System_error nat string | Generic_error nat string

text \<open>
  What a call answers, and the value of errno after a call that fails. Closing a descriptor leaves
  the errno of the failure before it alone.
\<close>

record kernel =
  answer :: "file_call \<Rightarrow> int"
  errno_of :: "file_call \<Rightarrow> nat"

type_synonym 'a traced = "file_call list \<times> (file_error + 'a)"

text \<open>The destructor of the local \<open>safe_fd\<close>, when an exception leaves the function.\<close>

definition unwind :: "int \<Rightarrow> file_call list" where
  "unwind fd = (if fd \<noteq> -1 then [Close_call fd] else [])"

definition share_lock :: "file_share_mode \<Rightarrow> (lock_kind \<times> string) option" where
  "share_lock share_mode =
     (if share_mode = share_none then Some (LOCK_EX_NB, ''error locking file exclusively'')
      else if share_mode = share_read then Some (LOCK_SH_NB, ''error locking file shared'')
      else if share_mode = share_write \<or> share_mode = share_read_write
        then Some (LOCK_EX_NB, ''error locking file exclusively'')
      else None)"

definition set_nocache :: "kernel \<Rightarrow> int \<Rightarrow> file_buffering_mode \<Rightarrow> int traced" where
  "set_nocache k fd buffering_mode =
     (if buffering_mode AND unbuffered = unbuffered then
        if answer k (Nocache_call fd) = -1
          then (Nocache_call fd # Close_call fd # unwind fd,
                Inl (System_error (errno_of k (Nocache_call fd)) ''error setting F_NOCACHE''))
        else ([Nocache_call fd], Inr fd)
      else ([], Inr fd))"

definition lock_file :: "kernel \<Rightarrow> int \<Rightarrow> file_share_mode \<Rightarrow> file_buffering_mode \<Rightarrow> int traced" where
  "lock_file k fd share_mode buffering_mode =
     (case share_lock share_mode of
        None \<Rightarrow> (Close_call fd # unwind fd, Inl (System_error 0 ''file::open unsupported share_mode''))
      | Some (lock, what) \<Rightarrow>
          (if answer k (Flock_call fd lock) \<noteq> 0
             then (Flock_call fd lock # Close_call fd # unwind fd,
                   Inl (System_error (errno_of k (Flock_call fd lock)) what))
           else (let (calls, result) = set_nocache k fd buffering_mode
                 in (Flock_call fd lock # calls, result))))"

definition open_call :: "u32 \<Rightarrow> file_open_mode \<Rightarrow> file_buffering_mode \<Rightarrow> file_call" where
  "open_call fill_access open_mode buffering_mode =
     (let flags = open_flags fill_access open_mode buffering_mode
      in Open_call flags (if flags AND O_CREAT \<noteq> 0 then Some fill_access else None))"

definition file_open :: "kernel \<Rightarrow> u32 \<Rightarrow> file_open_mode \<Rightarrow> file_share_mode \<Rightarrow> file_buffering_mode \<Rightarrow> int traced" where
  "file_open k fill_access open_mode share_mode buffering_mode =
     (let call = open_call fill_access open_mode buffering_mode; fd = answer k call in
      if fd < 0 then ([call], Inl (Generic_error (errno_of k call) ''error opening file''))
      else (let (calls, result) = lock_file k fd share_mode buffering_mode in (call # calls, result)))"

section \<open>The classes\<close>

definition GENERIC_READ :: u32 where "GENERIC_READ = S_IRUSR OR S_IRGRP OR S_IROTH"
definition GENERIC_WRITE :: u32 where "GENERIC_WRITE = S_IWUSR OR S_IRUSR OR S_IRGRP OR S_IROTH"
definition READ_WRITE_GENERIC_WRITE :: u32 where "READ_WRITE_GENERIC_WRITE = S_IWUSR OR S_IWGRP"

datatype file_class = Read_only_file | Write_only_file | Read_write_file

definition read_only_open :: "kernel \<Rightarrow> file_share_mode \<Rightarrow> file_buffering_mode \<Rightarrow> int traced" where
  "read_only_open k share_mode buffering_mode = file_open k GENERIC_READ open_existing share_mode buffering_mode"

definition write_only_open :: "kernel \<Rightarrow> file_open_mode \<Rightarrow> file_share_mode \<Rightarrow> file_buffering_mode \<Rightarrow> int traced" where
  "write_only_open k open_mode share_mode buffering_mode = file_open k GENERIC_WRITE open_mode share_mode buffering_mode"

definition read_write_open :: "kernel \<Rightarrow> file_open_mode \<Rightarrow> file_share_mode \<Rightarrow> file_buffering_mode \<Rightarrow> int traced" where
  "read_write_open k open_mode share_mode buffering_mode =
     file_open k (GENERIC_READ OR READ_WRITE_GENERIC_WRITE) open_mode share_mode buffering_mode"

primrec class_open :: "file_class \<Rightarrow> kernel \<Rightarrow> file_open_mode \<Rightarrow> file_share_mode \<Rightarrow> file_buffering_mode \<Rightarrow> int traced" where
  "class_open Read_only_file k open_mode = read_only_open k"
| "class_open Write_only_file k open_mode = write_only_open k open_mode"
| "class_open Read_write_file k open_mode = read_write_open k open_mode"

section \<open>file::size and writable_file::set_size\<close>

datatype file_type = Regular | Character_device | Block_device | Other_type

text \<open>What fstat and the two ioctl calls answer, with the value of errno before the calls.\<close>

record stat_answers =
  fstat_ok :: bool
  st_mode :: file_type
  st_size :: u64
  block_count_ok :: bool
  block_count :: u64
  block_size_ok :: bool
  block_size :: u32
  errno_before :: nat
  errno_failed :: nat

definition file_size :: "stat_answers \<Rightarrow> file_error + u64" where
  "file_size a =
     (if \<not> fstat_ok a then Inl (System_error (errno_failed a) ''error getting file size: fstat'')
      else if st_mode a = Regular then Inr (st_size a)
      else if st_mode a = Character_device \<or> st_mode a = Block_device then
        if \<not> block_count_ok a
          then Inl (System_error (errno_failed a) ''error getting block count: ioctl(DKIOCGETBLOCKCOUNT)'')
        else if \<not> block_size_ok a
          then Inl (System_error (errno_failed a) ''error getting block size: ioctl(DKIOCGETBLOCKSIZE)'')
        else Inr (block_count a * ucast (block_size a))
      else Inl (System_error (errno_before a) ''error getting file size: unsupported file type''))"

definition set_size :: "int \<Rightarrow> nat \<Rightarrow> file_error option" where
  "set_size ftruncate_answer errno_now =
     (if ftruncate_answer < 0 then Some (System_error errno_now ''error setting file size: ftruncate'') else None)"

section \<open>What opening a file does\<close>

text \<open>
  The contract of open(2), for the path's contents before (None: no such file) and after (None: the
  call fails). POSIX leaves O_TRUNC undefined for a file that is not opened for writing.
\<close>

definition open_contract :: "(u32 \<Rightarrow> 'c list option \<Rightarrow> 'c list option) \<Rightarrow> bool" where
  "open_contract os \<longleftrightarrow>
     (\<forall>flags. os flags None = (if flags AND O_CREAT \<noteq> 0 then Some [] else None)) \<and>
     (\<forall>flags c. flags AND O_CREAT \<noteq> 0 \<and> flags AND O_EXCL \<noteq> 0 \<longrightarrow> os flags (Some c) = None) \<and>
     (\<forall>flags c. \<not> (flags AND O_CREAT \<noteq> 0 \<and> flags AND O_EXCL \<noteq> 0) \<and> flags AND O_TRUNC = 0 \<longrightarrow> os flags (Some c) = Some c) \<and>
     (\<forall>flags c. \<not> (flags AND O_CREAT \<noteq> 0 \<and> flags AND O_EXCL \<noteq> 0) \<and> flags AND O_TRUNC \<noteq> 0 \<and>
        flags AND O_ACCMODE \<noteq> O_RDONLY \<longrightarrow> os flags (Some c) = Some [])"

text \<open>What file_open_mode.h says of each mode.\<close>

fun documented_open :: "file_open_mode \<Rightarrow> 'c list option \<Rightarrow> 'c list option" where
  "documented_open open_existing file = file"
| "documented_open create_always file = Some []"
| "documented_open create_new None = Some []"
| "documented_open create_new (Some c) = None"
| "documented_open create_or_open None = Some []"
| "documented_open create_or_open (Some c) = Some c"
| "documented_open truncate_existing None = None"
| "documented_open truncate_existing (Some c) = Some []"

lemma access_flags_cases:
  obtains "access_flags fill_access = 0" | "access_flags fill_access = 1" | "access_flags fill_access = 2"
  unfolding access_flags_def flag_defs by metis

lemma open_flags_bits:
  shows open_flags_creat: "open_flags fill_access m b AND O_CREAT = open_mode_flags m AND O_CREAT"
    and open_flags_excl: "open_flags fill_access m b AND O_EXCL = open_mode_flags m AND O_EXCL"
    and open_flags_trunc: "open_flags fill_access m b AND O_TRUNC = open_mode_flags m AND O_TRUNC"
    and open_flags_accmode: "open_flags fill_access m b AND O_ACCMODE = access_flags fill_access"
  by (rule access_flags_cases [of fill_access]; cases m; simp add: open_flags_def flag_defs)+

lemma mode_bits:
  "open_mode_flags m AND O_CREAT \<noteq> 0 \<longleftrightarrow> m = create_or_open \<or> m = create_always \<or> m = create_new"
  "open_mode_flags m AND O_EXCL \<noteq> 0 \<longleftrightarrow> m = create_new"
  "open_mode_flags m AND O_TRUNC \<noteq> 0 \<longleftrightarrow> m = create_always \<or> m = truncate_existing"
  by (cases m; simp add: flag_defs)+

lemma open_contract_none:
  "open_contract os \<Longrightarrow> os flags None = (if flags AND O_CREAT \<noteq> 0 then Some [] else None)"
  unfolding open_contract_def by blast

lemma open_contract_excl:
  "open_contract os \<Longrightarrow> flags AND O_CREAT \<noteq> 0 \<Longrightarrow> flags AND O_EXCL \<noteq> 0 \<Longrightarrow> os flags (Some c) = None"
  unfolding open_contract_def by blast

lemma open_contract_keep:
  "open_contract os \<Longrightarrow> \<not> flags AND O_EXCL \<noteq> 0 \<Longrightarrow> \<not> flags AND O_TRUNC \<noteq> 0 \<Longrightarrow> os flags (Some c) = Some c"
  unfolding open_contract_def by blast

text \<open>
  For every operating system that keeps the contract of open(2), opening in a mode that does not
  truncate does to the file what the mode documents, whatever the access and the buffering; a
  truncating mode does so on a path with no file.
\<close>
theorem open_modes_as_documented:
  "open_contract os \<Longrightarrow> m \<notin> {create_always, truncate_existing} \<or> f = None \<Longrightarrow>
   os (open_flags fill_access m buffering) f = documented_open m f"
  by (cases m; cases f) (auto simp: open_contract_none open_contract_excl open_contract_keep open_flags_bits mode_bits
      simp del: open_mode_flags.simps)

definition macos_open :: "u32 \<Rightarrow> 'c list option \<Rightarrow> 'c list option" where
  "macos_open flags file =
     (case file of
        None \<Rightarrow> (if flags AND O_CREAT \<noteq> 0 then Some [] else None)
      | Some c \<Rightarrow> (if flags AND O_CREAT \<noteq> 0 \<and> flags AND O_EXCL \<noteq> 0 then None
                   else if flags AND O_TRUNC \<noteq> 0 then Some [] else Some c))"

theorem open_modes_as_documented_witness:
  "macos_open (open_flags GENERIC_WRITE create_new write_through) (Some [1 :: nat]) = documented_open create_new (Some [1])"
  by (rule open_modes_as_documented) (simp_all add: open_contract_def macos_open_def)

text \<open>
  C38. Every file class opens its file for reading only: the permission bits that read_only_file,
  write_only_file and read_write_file pass are taken for access flags, in which they say O_RDONLY.
\<close>
theorem every_class_opens_read_only:
  "\<exists>flags permissions rest. fst (class_open c k m share b) = Open_call flags permissions # rest \<and>
     flags AND O_ACCMODE = O_RDONLY"
proof -
  have first: "\<exists>rest. fst (file_open k a m' share b) = open_call a m' b # rest" for a m'
    by (simp add: file_open_def Let_def split: prod.split)
  have "access_flags GENERIC_READ = O_RDONLY" "access_flags GENERIC_WRITE = O_RDONLY"
    "access_flags (GENERIC_READ OR READ_WRITE_GENERIC_WRITE) = O_RDONLY"
    by (simp_all add: access_flags_def GENERIC_READ_def GENERIC_WRITE_def READ_WRITE_GENERIC_WRITE_def flag_defs)
  then show ?thesis
    using first [of GENERIC_READ open_existing] first [of GENERIC_WRITE m] first [of "GENERIC_READ OR READ_WRITE_GENERIC_WRITE" m]
    by (cases c) (auto simp: read_only_open_def write_only_open_def read_write_open_def open_call_def Let_def open_flags_accmode)
qed

lemma lock_file_closes:
  "fd \<ge> 0 \<Longrightarrow> count_list (fst (lock_file k fd share b)) (Close_call fd) = (case snd (lock_file k fd share b) of Inl _ \<Rightarrow> 2 | Inr _ \<Rightarrow> 0)"
  by (auto simp: lock_file_def set_nocache_def unwind_def split: option.split)

text \<open>
  Opening a file closes its descriptor never when it succeeds or when open(2) fails, and twice
  when the descriptor is open and a later step fails: by the error branch and by the safe_fd that
  owns it.
\<close>
theorem failed_open_closes_twice:
  "count_list (fst (file_open k fill_access m share b)) (Close_call (answer k (open_call fill_access m b))) =
     (if answer k (open_call fill_access m b) < 0 then 0
      else case snd (file_open k fill_access m share b) of Inl _ \<Rightarrow> 2 | Inr _ \<Rightarrow> 0)"
proof -
  have "open_call fill_access m b \<noteq> Close_call fd" for fd by (simp add: open_call_def Let_def)
  then show ?thesis
    using lock_file_closes [of "answer k (open_call fill_access m b)" k share b]
    by (cases "lock_file k (answer k (open_call fill_access m b)) share b")
       (simp add: file_open_def Let_def)
qed

text \<open>
  Opening gives a descriptor exactly when open(2) gives it, the share mode is one of the four
  that have a lock, the lock is granted and, when asked for, the cache could be turned off.
\<close>
theorem file_open_succeeds_iff:
  "snd (file_open k fill_access m share b) = Inr fd \<longleftrightarrow>
     fd = answer k (open_call fill_access m b) \<and> fd \<ge> 0 \<and>
     (\<exists>lock what. share_lock share = Some (lock, what) \<and> answer k (Flock_call fd lock) = 0) \<and>
     \<not> (b AND unbuffered = unbuffered \<and> answer k (Nocache_call fd) = -1)"
  by (auto simp: file_open_def lock_file_def set_nocache_def Let_def split: option.split prod.split if_splits)

text \<open>
  The size of a regular file is what fstat says; that of a device is its number of blocks times
  their size, modulo 2^64; every other file, and every call that fails, is an error.
\<close>
theorem file_size_value:
  "(case file_size a of Inl _ \<Rightarrow> None | Inr n \<Rightarrow> Some (unat n)) =
     (if \<not> fstat_ok a then None
      else case st_mode a of
        Regular \<Rightarrow> Some (unat (st_size a))
      | Other_type \<Rightarrow> None
      | _ \<Rightarrow> (if block_count_ok a \<and> block_size_ok a
             then Some (unat (block_count a) * unat (block_size a) mod 2 ^ 64) else None))"
proof -
  have "unat (ucast n :: u64) = unat n" for n :: u32
    by (simp add: unsigned_ucast_eq take_bit_nat_eq_self less_le_trans [OF unsigned_less])
  then show ?thesis by (cases "st_mode a") (simp_all add: file_size_def unat_word_ariths)
qed

end
