(* ===== verification/Sockets.thy ===== *)
theory Sockets
  imports Ip_Endpoint Io_Operations
begin

text \<open>
  The socket class (include/coro/net/socket.h, src/coro/socket.cpp) and the part of its operations
  that deals with endpoints: the socket addresses that bind, connect and send_to hand to the system
  and the endpoints that bind, connect, accept and recv_from make of its answers. The system calls
  are arguments: a function that gives their errno (0: no error) or their result.
\<close>

section \<open>Sockets\<close>

record socket =
  m_fd :: int
  m_io_queue :: nat
  m_recv_flags :: u32
  m_local_endpoint :: ip_endpoint
  m_remote_endpoint :: ip_endpoint

definition ipv4_any :: ip_endpoint where
  "ipv4_any = Ep4 \<lparr>address4 = Ipv4 0 0 0 0, port4 = 0\<rparr>"

definition ipv6_any :: ip_endpoint where
  "ipv6_any = Ep6 \<lparr>address6 = Ipv6 0 0 0 0 0 0 0 0 0 0 0 0 0 0 0 0, port6 = 0\<rparr>"

definition socket_construct :: "nat \<Rightarrow> int \<Rightarrow> socket" where
  "socket_construct queue d =
     \<lparr>m_fd = d, m_io_queue = queue, m_recv_flags = 0, m_local_endpoint = ipv4_any, m_remote_endpoint = ipv4_any\<rparr>"

type_synonym errnum = nat

definition AF_INET :: nat where "AF_INET = 2"
definition AF_INET6 :: nat where "AF_INET6 = 30"
definition SOCK_STREAM :: nat where "SOCK_STREAM = 1"
definition SOCK_DGRAM :: nat where "SOCK_DGRAM = 2"
definition IPPROTO_TCP :: nat where "IPPROTO_TCP = 6"
definition IPPROTO_UDP :: nat where "IPPROTO_UDP = 17"
definition MSG_TRUNC :: u32 where "MSG_TRUNC = 0x10"

text \<open>\<open>socket(2)\<close>: a descriptor, or -1 and errno.\<close>

type_synonym socket_call = "nat \<Rightarrow> nat \<Rightarrow> nat \<Rightarrow> int \<times> errnum"

definition create_socket :: "socket_call \<Rightarrow> nat \<Rightarrow> nat \<Rightarrow> nat \<Rightarrow> errnum + int" where
  "create_socket os family type protocol =
     (let (d, errnum) = os family type protocol in if d = -1 then Inl errnum else Inr d)"

definition create_tcpv4 :: "socket_call \<Rightarrow> nat \<Rightarrow> errnum + socket" where
  "create_tcpv4 os queue =
     map_sum id (\<lambda>d. (socket_construct queue d)\<lparr>m_local_endpoint := ipv4_any, m_remote_endpoint := ipv4_any\<rparr>)
       (create_socket os AF_INET SOCK_STREAM IPPROTO_TCP)"

definition create_tcpv6 :: "socket_call \<Rightarrow> nat \<Rightarrow> errnum + socket" where
  "create_tcpv6 os queue =
     map_sum id (\<lambda>d. (socket_construct queue d)\<lparr>m_local_endpoint := ipv6_any, m_remote_endpoint := ipv6_any\<rparr>)
       (create_socket os AF_INET6 SOCK_STREAM IPPROTO_TCP)"

definition create_udpv4 :: "socket_call \<Rightarrow> nat \<Rightarrow> errnum + socket" where
  "create_udpv4 os queue =
     map_sum id (\<lambda>d. (socket_construct queue d)\<lparr>m_recv_flags := MSG_TRUNC, m_local_endpoint := ipv4_any, m_remote_endpoint := ipv4_any\<rparr>)
       (create_socket os AF_INET SOCK_DGRAM IPPROTO_UDP)"

definition create_udpv6 :: "socket_call \<Rightarrow> nat \<Rightarrow> errnum + socket" where
  "create_udpv6 os queue =
     map_sum id (\<lambda>d. (socket_construct queue d)\<lparr>m_recv_flags := MSG_TRUNC, m_local_endpoint := ipv6_any, m_remote_endpoint := ipv6_any\<rparr>)
       (create_socket os AF_INET6 SOCK_DGRAM IPPROTO_UDP)"

text \<open>
  The moves give the new object and the one that was moved from, the assignment also the descriptors
  it closes. The two objects of an assignment are different ones.
\<close>

definition socket_move :: "socket \<Rightarrow> socket \<times> socket" where
  "socket_move other =
     (\<lparr>m_fd = m_fd other, m_io_queue = m_io_queue other, m_recv_flags = m_recv_flags other,
       m_local_endpoint = m_local_endpoint other, m_remote_endpoint = m_remote_endpoint other\<rparr>,
      other\<lparr>m_fd := -1\<rparr>)"

definition socket_move_assign :: "socket \<Rightarrow> socket \<Rightarrow> socket \<times> socket \<times> int list" where
  "socket_move_assign s other =
     (s\<lparr>m_fd := m_fd other, m_recv_flags := m_recv_flags other,
        m_local_endpoint := m_local_endpoint other, m_remote_endpoint := m_remote_endpoint other\<rparr>,
      other\<lparr>m_fd := -1\<rparr>,
      if m_fd s \<noteq> -1 then [m_fd s] else [])"

definition socket_destruct :: "socket \<Rightarrow> int list" where
  "socket_destruct s = (if m_fd s \<noteq> -1 then [m_fd s] else [])"

section \<open>bind, listen and shutdown\<close>

definition SOMAXCONN :: int where "SOMAXCONN = 128"

definition bind_sockaddr :: "(u16 \<Rightarrow> u16) \<Rightarrow> ip_endpoint \<Rightarrow> sockaddr \<times> nat" where
  "bind_sockaddr htons e =
     (case e of
        Ep4 e4 \<Rightarrow> (Sockaddr_in (htons (port4 e4)) (ip_address_bytes (Ip4 (address4 e4))), 16)
      | Ep6 e6 \<Rightarrow> (Sockaddr_in6 (htons (port6 e6)) (ip_address_bytes (Ip6 (address6 e6))) 0 0, 28))"

definition socket_bind ::
  "(u16 \<Rightarrow> u16) \<Rightarrow> (u16 \<Rightarrow> u16) \<Rightarrow> (int \<Rightarrow> sockaddr \<times> nat \<Rightarrow> errnum) \<Rightarrow> (int \<Rightarrow> sockaddr option) \<Rightarrow>
   ip_endpoint \<Rightarrow> socket \<Rightarrow> errnum + socket" where
  "socket_bind htons ntohs os_bind os_getsockname e s =
     (let errnum = os_bind (m_fd s) (bind_sockaddr htons e) in
      if errnum \<noteq> 0 then Inl errnum
      else case os_getsockname (m_fd s) of
             Some a \<Rightarrow> Inr (s\<lparr>m_local_endpoint := sockaddr_to_ip_endpoint ntohs a\<rparr>)
           | None \<Rightarrow> Inr (s\<lparr>m_local_endpoint := e\<rparr>))"

definition socket_listen_default :: "(int \<Rightarrow> int \<Rightarrow> errnum) \<Rightarrow> socket \<Rightarrow> errnum option" where
  "socket_listen_default os_listen s =
     (let errnum = os_listen (m_fd s) SOMAXCONN in if errnum \<noteq> 0 then Some errnum else None)"

definition backlog_argument :: "u32 \<Rightarrow> int" where
  "backlog_argument backlog = (let backlog = (if backlog > 0x7FFFFFFF then 0x7FFFFFFF else backlog) in sint backlog)"

definition socket_listen :: "(int \<Rightarrow> int \<Rightarrow> errnum) \<Rightarrow> u32 \<Rightarrow> socket \<Rightarrow> errnum option" where
  "socket_listen os_listen backlog s =
     (let errnum = os_listen (m_fd s) (backlog_argument backlog) in if errnum \<noteq> 0 then Some errnum else None)"

datatype shutdown_how = SHUT_RD | SHUT_WR

definition close_send :: "(int \<Rightarrow> shutdown_how \<Rightarrow> errnum) \<Rightarrow> socket \<Rightarrow> errnum option" where
  "close_send os_shutdown s =
     (let errnum = os_shutdown (m_fd s) SHUT_WR in if errnum \<noteq> 0 then Some errnum else None)"

definition close_recv :: "(int \<Rightarrow> shutdown_how \<Rightarrow> errnum) \<Rightarrow> socket \<Rightarrow> errnum option" where
  "close_recv os_shutdown s =
     (let errnum = os_shutdown (m_fd s) SHUT_RD in if errnum \<noteq> 0 then Some errnum else None)"

section \<open>The operations and their endpoints\<close>

text \<open>What an awaited operation submits; \<open>at\<close> is the address of the structure in the operation.\<close>

definition connect_op :: "nat \<Rightarrow> ip_endpoint \<Rightarrow> socket \<Rightarrow> io_kind" where
  "connect_op at remote s = Socket_connect (m_fd s) at (case remote of Ep4 _ \<Rightarrow> 16 | Ep6 _ \<Rightarrow> 28)"

definition accept_op :: "nat \<Rightarrow> socket \<Rightarrow> io_kind" where
  "accept_op at listening = Socket_accept (m_fd listening) at 16"

definition disconnect_op :: "socket \<Rightarrow> io_kind" where
  "disconnect_op s = Socket_disconnect (m_fd s)"

definition send_op :: "nat \<Rightarrow> u64 \<Rightarrow> socket \<Rightarrow> io_kind" where
  "send_op base count s = Socket_send (m_fd s) base count"

definition recv_op :: "nat \<Rightarrow> u64 \<Rightarrow> socket \<Rightarrow> io_kind" where
  "recv_op base count s = Socket_recv (m_fd s) base count"

record msghdr =
  msg_name :: "sockaddr option"
  msg_namelen :: nat
  msg_iov :: "(nat \<times> u64) list"
  msg_flags :: u32

text \<open>The msghdr of recv_from, whose name is an address structure of zeros, and that of send_to.\<close>

definition recv_from_header :: "nat \<Rightarrow> u64 \<Rightarrow> msghdr" where
  "recv_from_header base count = \<lparr>msg_name = None, msg_namelen = 128, msg_iov = [(base, count)], msg_flags = 0\<rparr>"

definition send_to_header :: "(u16 \<Rightarrow> u16) \<Rightarrow> ip_endpoint \<Rightarrow> nat \<Rightarrow> u64 \<Rightarrow> msghdr" where
  "send_to_header htons destination base count =
     (case destination of
        Ep4 e4 \<Rightarrow> \<lparr>msg_name = Some (Sockaddr_in (htons (port4 e4)) (ip_address_bytes (Ip4 (address4 e4)))),
                   msg_namelen = 16, msg_iov = [(base, count)], msg_flags = 0\<rparr>
      | Ep6 e6 \<Rightarrow> \<lparr>msg_name = Some (Sockaddr_in6 (htons (port6 e6)) (ip_address_bytes (Ip6 (address6 e6))) 0 0),
                   msg_namelen = 28, msg_iov = [(base, count)], msg_flags = 0\<rparr>)"

text \<open>
  What recv_from gives once the system has filled in the header; without a name in it the family is
  neither of the two and the assertion of sockaddr_to_ip_endpoint fails (\<open>None\<close>).
\<close>

definition recv_from_result :: "(u16 \<Rightarrow> u16) \<Rightarrow> msghdr \<Rightarrow> io_message \<Rightarrow> (int + int \<times> ip_endpoint) option" where
  "recv_from_result ntohs header m =
     (case get_result m of
        Value v \<Rightarrow>
          if msg_flags header AND MSG_TRUNC \<noteq> 0 then Some (Inl EMSGSIZE)
          else map_option (\<lambda>a. Inr (v, sockaddr_to_ip_endpoint ntohs a)) (msg_name header)
      | System_error e \<Rightarrow> Some (Inl e)
      | Operation_cancelled \<Rightarrow> None)"

definition connect_result :: "(u16 \<Rightarrow> u16) \<Rightarrow> (int \<Rightarrow> errnum + sockaddr) \<Rightarrow> socket \<Rightarrow> errnum + socket" where
  "connect_result ntohs os_getpeername s =
     (case os_getpeername (m_fd s) of
        Inl errnum \<Rightarrow> Inl errnum
      | Inr a \<Rightarrow> Inr (s\<lparr>m_remote_endpoint := sockaddr_to_ip_endpoint ntohs a\<rparr>))"

text \<open>
  The address buffer of accept is a sockaddr of 16 bytes: an IPv6 address structure is cut off after
  the first eight bytes of the address, and what is decoded continues with the memory behind the
  buffer (\<open>behind\<close>, at least eight bytes).
\<close>

definition accept_buffer :: "u8 list \<Rightarrow> sockaddr \<Rightarrow> sockaddr" where
  "accept_buffer behind a =
     (case a of
        Sockaddr_in port b \<Rightarrow> Sockaddr_in port b
      | Sockaddr_in6 port b flow scope \<Rightarrow>
          Sockaddr_in6 port (take 8 b @ take 8 behind) flow 0)"

text \<open>
  The socket that accepts, whether get_result throws (with which error), and the descriptors closed.
\<close>

definition accept_result ::
  "(u16 \<Rightarrow> u16) \<Rightarrow> u8 list \<Rightarrow> (int \<Rightarrow> errnum + sockaddr) \<Rightarrow> (int \<Rightarrow> errnum + sockaddr) \<Rightarrow> nat \<Rightarrow>
   io_message \<Rightarrow> socket \<Rightarrow> socket \<times> int option \<times> int list" where
  "accept_result ntohs behind os_getpeername os_getsockname queue m s =
     (case get_result m of
        Value d \<Rightarrow>
          (let (s1, _, closed) = socket_move_assign s (socket_construct queue d) in
           case os_getpeername d of
             Inl errnum \<Rightarrow> (s1, Some (int errnum), closed)
           | Inr peer \<Rightarrow>
               (let s2 = s1\<lparr>m_remote_endpoint := sockaddr_to_ip_endpoint ntohs (accept_buffer behind peer)\<rparr> in
                case os_getsockname d of
                  Inl errnum \<Rightarrow> (s2, Some (int errnum), closed)
                | Inr here \<Rightarrow>
                    (s2\<lparr>m_local_endpoint := sockaddr_to_ip_endpoint ntohs (accept_buffer behind here)\<rparr>, None, closed)))
      | System_error e \<Rightarrow> (s, Some e, [])
      | Operation_cancelled \<Rightarrow> (s, None, []))"

section \<open>What the endpoints are\<close>

lemma sockaddr_converts:
  "ntohs (htons (ip_endpoint_port e)) = ip_endpoint_port e \<Longrightarrow>
   sockaddr_to_ip_endpoint ntohs (ip_endpoint_to_sockaddr htons e) = e"
proof (cases e)
  case (Ep6 f)
  then show "ntohs (htons (ip_endpoint_port e)) = ip_endpoint_port e \<Longrightarrow> ?thesis"
    by (cases f; cases "address6 f") (simp add: ipv6_of_bytes_def)
qed simp

text \<open>
  The three places that make a socket address of an endpoint (bind, the helper that connect uses
  and the header of send_to) make the same address with the same length, and recv_from decodes it
  to the endpoint unless the datagram was cut off: so what is sent to the endpoint a socket was bound
  to arrives there, and the receiver of a datagram can answer to the endpoint it gets.
\<close>
theorem endpoints_agree:
  assumes "\<And>p. ntohs (htons p) = p" "get_result m = Value n"
  shows "bind_sockaddr htons e = (ip_endpoint_to_sockaddr htons e, if (case e of Ep4 _ \<Rightarrow> True | Ep6 _ \<Rightarrow> False) then 16 else 28) \<and>
    msg_name (send_to_header htons e base count) = Some (fst (bind_sockaddr htons e)) \<and>
    msg_namelen (send_to_header htons e base count) = snd (bind_sockaddr htons e) \<and>
    recv_from_result ntohs (h\<lparr>msg_name := Some (fst (bind_sockaddr htons e)), msg_flags := f\<rparr>) m =
      Some (if f AND MSG_TRUNC \<noteq> 0 then Inl EMSGSIZE else Inr (n, e))"
proof -
  have bound: "bind_sockaddr htons e = (ip_endpoint_to_sockaddr htons e, if (case e of Ep4 _ \<Rightarrow> True | Ep6 _ \<Rightarrow> False) then 16 else 28)"
    by (cases e) (simp_all add: bind_sockaddr_def)
  then show ?thesis
    using sockaddr_converts [of ntohs htons e] assms
    by (cases e) (simp_all add: send_to_header_def recv_from_result_def bind_sockaddr_def)
qed

theorem endpoints_agree_witness:
  "recv_from_result (\<lambda>p. p + 1) ((recv_from_header 64 10)\<lparr>msg_name := Some (fst (bind_sockaddr (\<lambda>p. p - 1) ipv6_any)), msg_flags := 0\<rparr>)
     (new_message\<lparr>result := 7\<rparr>) = Some (Inr (7, ipv6_any))"
  by (rule trans [OF endpoints_agree [where n = 7, THEN conjunct2, THEN conjunct2, THEN conjunct2]])
     (simp_all add: get_result_def)

text \<open>The endpoint survives the accept operation's buffer.\<close>

definition fits_buffer :: "u8 list \<Rightarrow> ip_endpoint \<Rightarrow> bool" where
  "fits_buffer behind e \<longleftrightarrow> (case e of Ep4 _ \<Rightarrow> True | Ep6 f \<Rightarrow> drop 8 (ipv6_bytes (address6 f)) = take 8 behind)"

lemma accepted_endpoint:
  assumes "ntohs (htons (ip_endpoint_port e)) = ip_endpoint_port e" "8 \<le> length behind"
  shows "sockaddr_to_ip_endpoint ntohs (accept_buffer behind (ip_endpoint_to_sockaddr htons e)) = e \<longleftrightarrow> fits_buffer behind e"
proof (cases e)
  case (Ep6 f)
  obtain x0 x1 x2 x3 x4 x5 x6 x7 rest where behind: "behind = x0 # x1 # x2 # x3 # x4 # x5 # x6 # x7 # rest"
    using assms(2) by (auto simp: Suc_le_length_iff numeral_eq_Suc)
  show ?thesis using assms(1) Ep6 behind
    by (cases f; cases "address6 f") (auto simp: fits_buffer_def accept_buffer_def ipv6_of_bytes_def)
qed (use assms(1) in \<open>simp add: fits_buffer_def accept_buffer_def\<close>)

text \<open>
  An accept that succeeds gives its socket the new descriptor and closes the one it had; the
  endpoints it reports are the right ones for IPv4, and for IPv6 only when the last eight bytes of
  the address happen to be what lies in memory behind the buffer of 16 bytes.
\<close>
theorem accepted_endpoints:
  assumes "\<And>p. ntohs (htons p) = p" "get_result m = Value d" "8 \<le> length behind"
    "os_getpeername d = Inr (ip_endpoint_to_sockaddr htons peer)"
    "os_getsockname d = Inr (ip_endpoint_to_sockaddr htons here)"
  shows "\<exists>t. accept_result ntohs behind os_getpeername os_getsockname queue m s = (t, None, socket_destruct s) \<and>
    m_fd t = d \<and> (m_remote_endpoint t = peer \<longleftrightarrow> fits_buffer behind peer) \<and>
    (m_local_endpoint t = here \<longleftrightarrow> fits_buffer behind here)"
  using assms accepted_endpoint [of ntohs htons]
  by (simp add: accept_result_def socket_move_assign_def socket_construct_def socket_destruct_def)

text \<open>The hypotheses hold for a peer that has an IPv6 address; its endpoint is lost.\<close>

theorem accepted_endpoints_witness:
  "\<exists>t. accept_result id (replicate 8 1) (\<lambda>_. Inr (ip_endpoint_to_sockaddr id ipv6_any)) (\<lambda>_. Inr (ip_endpoint_to_sockaddr id ipv4_any))
     0 (new_message\<lparr>result := 7\<rparr>) (socket_construct 0 5) = (t, None, [5]) \<and> m_fd t = 7 \<and>
     m_remote_endpoint t \<noteq> ipv6_any \<and> m_local_endpoint t = ipv4_any"
  using accepted_endpoints [of id id "new_message\<lparr>result := 7\<rparr>" 7 "replicate 8 1"
      "\<lambda>_. Inr (ip_endpoint_to_sockaddr id ipv6_any)" ipv6_any "\<lambda>_. Inr (ip_endpoint_to_sockaddr id ipv4_any)" ipv4_any 0 "socket_construct 0 5"]
  by (simp add: get_result_def fits_buffer_def ipv6_any_def ipv4_any_def socket_construct_def socket_destruct_def numeral_eq_Suc)

text \<open>
  The backlog handed to listen(2) is never negative: it is the one asked for, at most 2^31 - 1.
\<close>
theorem backlog_in_range: "backlog_argument b = min (uint b) (2 ^ 31 - 1)"
proof (cases "b > 0x7FFFFFFF")
  case True
  then show ?thesis by (simp add: backlog_argument_def word_less_def)
next
  case False
  then have small: "uint b < 2 ^ 31" by (simp add: word_less_def)
  then have "sint b = uint b" by (simp add: sint_uint signed_take_bit_int_eq_self_iff, intro order_trans [OF _ unsigned_greater_eq], simp)
  then show ?thesis using False small by (simp add: backlog_argument_def)
qed

end
