(* ===== verification/Spec2Isabelle.thy ===== *)
theory Spec2Isabelle
  imports Coro_Prelude Async_Mutex Auto_Reset_Event Local_Queue Work_Queue Queue_Interleaving Thread_State Thread_Pool Pool_Sleeping
    Cancellation_Registry Registry_Memory Cancellation_Protocol Cancellation_Handles
    Ipv4_Address Ipv6_Address Ip_Endpoint
    Sequences Sequence_Barrier Multi_Producer Sequencer_Waiting Sequencer_Positions Sequencer_Wakeups
    Ring_Transfer
    Resume_Impl Manual_Lifetime
    Waiter_Lists Manual_Reset_Event Async_Latch Single_Consumer Shared_Task Shared_Task_Handles
    Join_Counter When_All Async_Scope Blocking
    Generators Recursive_Generator Async_Generator Tasks Promise_Results Scheduling Owning_Handles
    Io_Message Io_Queue Io_Wait Io_Operations Io_Service Io_Overflow Io_Timer Files Sockets
begin

text \<open>
  A verification development for libcoroutin, a C++20 coroutine library: coroutine types (task,
  shared_task, generator, recursive_generator, async_generator), primitives that coroutines wait for
  without blocking a thread, a work-stealing thread pool, cancellation, ring buffer sequencers, and an
  I/O service over kqueue with files and sockets. Paths below are relative to src/: \<open>include\<close> stands
  for include/coro and \<open>src\<close> for src/coro.

  \<^bold>\<open>How the program is put together.\<close> A coroutine that awaits an object is suspended and its handle
  stored in it; whoever completes the object resumes the handle, directly or through a scheduler.
  thread_pool resumes operations from per-thread queues (thread_state) and a global queue. io_service
  takes completed messages from the message_queue of macos.h, whose worker threads register requests
  with kqueue and carry them out; every file and socket operation is one such message. Operations
  that can be cancelled register a callback with the cancellation_state behind a token. when_all,
  async_scope and sync_wait join coroutines by a counter or an event.

  \<^bold>\<open>How it is modelled.\<close> Code that runs on one thread is a function from state to state; state is a
  record with the fields of the class, errors and undefined behaviour (use after delete, double
  destruction, failed assertions, resuming a finished coroutine) are \<open>None\<close> or the left of a sum. Code
  that runs on several threads is a step relation: a step is one atomic access of shared memory with
  the accesses to memory only that thread can reach; where a thread is in its call is a program
  counter. Interleaving is sequentially consistent: memory orders weaker than that are not modelled.
  Weak exchanges may fail at any time (an argument \<open>spurious\<close>). Pointers are 64-bit words or numbers,
  0 the null pointer. Machine integers have their width where the code depends on it (indices,
  counters, state words, ports, sequence numbers, parsers); otherwise they are \<open>nat\<close> or \<open>int\<close>. User code
  (coroutine bodies, callbacks, mapped functions) is an argument, coroutine bodies as possibly
  infinite trees of what they do next. What is not in the repository is an argument with a contract:
  the global queue of boost (locale \<open>work_queue\<close>), kqueue (\<open>kqueue_ok\<close>, which \<open>table_kernel\<close> satisfies),
  open(2) (\<open>open_contract\<close>), the answers of all other system calls.

  \<^bold>\<open>Theories.\<close>
  \<^item> Coro_Prelude: word types, reachability with the locales \<open>invariant_system\<close> (an invariant holds in
    every reachable state) and \<open>simulation_system\<close> (refinement), sums over processes, chains of nodes,
    ring buffer indices that wrap. Most concurrent components interpret \<open>invariant_system\<close>.
  \<^item> Async_Mutex (include/awaitable/async_mutex.h, src/async_mutex.cpp): mutual exclusion and refinement
    of an abstract FIFO lock. Auto_Reset_Event (async_auto_reset_event): the 64-bit word of set and
    waiter counts, its resumer and the reference counts of waiting operations, with \<open>set\<close>, \<open>reset\<close> and waits
    on any number of threads; a \<open>reset\<close> that goes on with a stale count is a parameter of the steps, because
    what holds without it fails with it.
  \<^item> Waiter_Lists with Manual_Reset_Event, Async_Latch, Single_Consumer, Shared_Task: events that wake
    lists of coroutines; no wake-up is lost and nobody is resumed twice. \<open>one_way_event\<close> is the interface
    that the latch uses. Shared_Task_Handles: the reference counts of shared_task objects.
  \<^item> Join_Counter with When_All and Async_Scope: the counter that resumes the joining coroutine once, when
    all work is over. Blocking: spin_wait, spin_mutex, auto_reset_event, sync_wait.
  \<^item> Local_Queue, Thread_State, Work_Queue, Thread_Pool (include/thread_pool.h, src/thread_pool.cpp,
    include/detail/lock_free_queue.h): the work-stealing queue refines a deque; what workers fetch, steal
    and enqueue. Pool_Sleeping: sleeping and waking when calls overlap, right with one worker and with a
    lost wake-up from two on. Queue_Interleaving: lock_free_queue when calls overlap, right for
    one producer with one consumer and wrong beyond.
  \<^item> Cancellation_Registry (the lists of registrations), Registry_Memory (their blocks while threads race to
    link them in, and the destructor that frees them), Cancellation_Protocol (registering, deregistering
    and requesting on any number of threads), Cancellation_Handles (who owns the state while sources, tokens
    and registrations come and go and a request runs through its phases).
  \<^item> Generators, Recursive_Generator, Async_Generator, Tasks (include/types): what a consumer of a body gets
    is what the body yields, returns or throws, for every body. Promise_Results: how the promises of task,
    shared_task, when_all and sync_wait keep, hand out and destroy results (locale \<open>result_store\<close>, ten
    interpretations) and how when_all collects them. Owning_Handles: the handles of these types,
    of safe_fd and of socket; the locale \<open>owning_assignment\<close> is the promise of an assignment, interpreted on
    the six classes, and the second assignment of generator, which does not keep it, is among the steps. Scheduling: schedule_on, resume_on, fmap (of awaitables and of
    generators), on_scope_exit.
  \<^item> Sequences, Sequence_Barrier, Multi_Producer, Resume_Impl (include/sequence_*.h,
    include/awaitable/*_sequencer.h): claims and publications on a ring buffer with numbers that wrap.
    Sequencer_Waiting: publishing to and waiting on multi_producer_sequencer when calls overlap, with numbers
    that wrap; Sequencer_Positions: the same operations on integers, with their invariant; Sequencer_Wakeups:
    the words stand for the integers, so no wake-up is lost and what is resumed is ready. Manual_Lifetime (include/detail/manual_lifetime.h): the storage of their wait operations (locale
    \<open>manual_lifetime\<close>, for objects, references and void).
    Ring_Transfer: the buffer itself, with producers, sequencer, barrier and consumer running at the same
    time; it delivers what was put in, in order, and no cell is shared.
  \<^item> Ipv4_Address, Ipv6_Address, Ip_Endpoint (include/net): addresses and endpoints, their order, parsers and
    printers, with the exact language of the parsers and round trips.
  \<^item> Io_Message, Io_Queue, Io_Wait (include/detail/macos.h; Io_Wait is the waiting for messages with its mutex
    and condition variable), Io_Operations (macos_io_operation.h and the operations),
    Io_Service, Io_Overflow, Io_Timer (include/io/io_service.h, src/io_service.cpp), Files (src/file.cpp and
    the file classes), Sockets (src/socket.cpp).

  \<^bold>\<open>What the lemmas show.\<close> Per component: an invariant and that every step or operation keeps it; the result
  of every operation on every branch; refinement of an abstract lock, deque or FIFO queue;
  termination of the loops that end (the others, such as the spinning ones, by the steps they take); round
  trips of parsers and printers. Where the code does not do what it means to, the theorem states what it
  does: a run that loses a wake-up, a descriptor that is closed twice, a file that is opened with other
  flags than asked for.

  \<^bold>\<open>Bounds.\<close> Fewer than \<open>2 ^ 31\<close> threads in the event loop and processes of an event, fewer than \<open>2 ^ 32\<close> handles
  of a cancellation state and work scopes, buffers of at most \<open>2 ^ 60\<close> entries, sequence numbers within \<open>2 ^ 62\<close>
  of each other (in Sequence_Barrier, of any base; claims in Ring_Transfer at most \<open>2 ^ 61\<close> ahead of the
  consumer; in Sequencer_Waiting the numbers stay within \<open>2 ^ 61\<close> of a thread that is held up in a loop, and
  within the laps that its guards \<open>may_store\<close> and \<open>may_wait\<close> name), fewer than \<open>2 ^ 63\<close> awaited coroutines, fewer
  than \<open>2 ^ 32\<close> announcements of workers that go to sleep, fewer than \<open>2 ^ 31\<close> handles of either kind in
  Cancellation_Handles: beyond these the counters of the code wrap. Loops that may not end are \<open>partial_function\<close>s,
  and that they return is a theorem of its own; the scan of Registry_Memory has fuel, one more than the
  blocks ever allocated, which its theorem shows to be enough.

  \<^bold>\<open>Not modelled.\<close> Weak memory orders; the construction of kqueue and the start and join of its threads; the
  overlapping of calls in Cancellation_Registry, Multi_Producer, Thread_State and Thread_Pool (their shared
  parts that interleave are Registry_Memory, Cancellation_Protocol, Sequence_Barrier, Sequencer_Waiting,
  Ring_Transfer, Local_Queue and Pool_Sleeping); the compile-time traits
  (awaitable_traits.h, is_awaitable.h, get_awaiter.h and others) and exception classes, which have no
  behaviour of their own; tests and build files.
\<close>

end
